(* ===== verification/Mpp_Prelude.thy ===== *)
theory Mpp_Prelude
  imports Main "HOL-Library.Word" "HOL-Library.Monad_Syntax"
begin

text \<open>
  Shared vocabulary of the development: machine types, the return codes of the MPP code,
  the allocation oracle, and the generic list and map lemmas the components use.

  Conventions. The target is the one the repository builds for, Linux on aarch64 (RK3588):
  \<open>int\<close> has 32 bits, \<open>long\<close> and pointers have 64, plain \<open>char\<close> is unsigned, memory is little
  endian. A C string is a \<^typ>\<open>string\<close> without a NUL character; a \<open>char *\<close> that may be NULL is
  a \<^typ>\<open>string option\<close>. Undefined behaviour of the C program (a NULL dereference, an access
  out of bounds) is the value \<^const>\<open>None\<close> of an option type, never an unspecified value.
\<close>

unbundle bit_operations_syntax

type_synonym u8 = "8 word"
type_synonym u16 = "16 word"
type_synonym u32 = "32 word"
type_synonym u64 = "64 word"

section \<open>Return codes\<close>

text \<open>
  The type \<open>MPP_RET\<close> comes from a header that is not part of the repository; the code
  only relies on \<open>MPP_OK\<close> being zero and on the others being different from it. A raw
  integer that the code returns as \<open>MPP_RET\<close> (an \<open>ioctl\<close> result, \<open>errno\<close>) is \<open>Ret_int\<close>.
\<close>

datatype mpp_ret = MPP_OK | MPP_NOK | MPP_ERR_UNKNOW | MPP_ERR_NULL_PTR | MPP_ERR_MALLOC
  | MPP_ERR_VALUE | MPP_ERR_PERM | MPP_ERR_NOMEM | Ret_int int

definition ret_of_int :: "int \<Rightarrow> mpp_ret" where
  "ret_of_int i = (if i = 0 then MPP_OK else Ret_int i)"

lemma ret_of_int_OK [simp]: "ret_of_int i = MPP_OK \<longleftrightarrow> i = 0"
  by (simp add: ret_of_int_def)

section \<open>Allocation\<close>

text \<open>
  Whether each heap allocation succeeds is decided by the environment. The oracle is the
  list of the outcomes of the next allocations, in program order; once it is exhausted
  every allocation succeeds, so the empty list is the machine that never runs out of memory.
\<close>

type_synonym heap = "bool list"

fun heap_alloc :: "heap \<Rightarrow> bool \<times> heap" where
  "heap_alloc [] = (True, [])"
| "heap_alloc (b # bs) = (b, bs)"

section \<open>Lists of slots\<close>

text \<open>How many slots of a table are in use.\<close>

fun used_slots :: "'a option list \<Rightarrow> nat" where
  "used_slots [] = 0"
| "used_slots (None # xs) = used_slots xs"
| "used_slots (Some x # xs) = Suc (used_slots xs)"

lemma used_slots_append [simp]: "used_slots (xs @ ys) = used_slots xs + used_slots ys"
  by (induction xs rule: used_slots.induct) auto

lemma used_slots_replicate_None [simp]: "used_slots (replicate k None) = 0"
  by (induction k) auto

lemma used_slots_le: "used_slots xs \<le> length xs"
  by (induction xs rule: used_slots.induct) auto

lemma used_slots_full: "used_slots xs = length xs \<Longrightarrow> None \<notin> set xs"
proof (induction xs rule: used_slots.induct)
  case (2 xs)
  then show ?case using used_slots_le [of xs] by simp
qed auto

lemma used_slots_set_Some:
  "i < length xs \<Longrightarrow> xs ! i = None \<Longrightarrow> used_slots (xs[i := Some x]) = Suc (used_slots xs)"
proof (induction xs arbitrary: i)
  case (Cons a xs)
  then show ?case by (cases a; cases i) auto
qed simp

lemma used_slots_set_None:
  "i < length xs \<Longrightarrow> xs ! i = Some x \<Longrightarrow> used_slots xs = Suc (used_slots (xs[i := None]))"
proof (induction xs arbitrary: i)
  case (Cons a xs)
  then show ?case by (cases a; cases i) auto
qed simp

lemma used_slots_pos: "Some x \<in> set xs \<Longrightarrow> 0 < used_slots xs"
  by (induction xs rule: used_slots.induct) auto

lemma used_slots_less_free: "used_slots xs < length xs \<Longrightarrow> None \<in> set xs"
proof (induction xs rule: used_slots.induct)
  case (3 x xs)
  then show ?case by simp
qed auto

text \<open>The unused entries of a table are told apart by their index only.\<close>

definition distinct_slots :: "'a option list \<Rightarrow> bool" where
  "distinct_slots xs \<longleftrightarrow>
     (\<forall>i < length xs. \<forall>j < length xs. xs ! i \<noteq> None \<longrightarrow> xs ! i = xs ! j \<longrightarrow> i = j)"

lemma distinct_slotsI:
  "(\<And>i j x. i < length xs \<Longrightarrow> j < length xs \<Longrightarrow> xs ! i = Some x \<Longrightarrow> xs ! j = Some x \<Longrightarrow> i = j)
   \<Longrightarrow> distinct_slots xs"
  unfolding distinct_slots_def by (metis option.exhaust)

lemma distinct_slotsD:
  "distinct_slots xs \<Longrightarrow> xs ! i = Some x \<Longrightarrow> xs ! j = Some x \<Longrightarrow> i < length xs \<Longrightarrow>
   j < length xs \<Longrightarrow> i = j"
  unfolding distinct_slots_def by fastforce

lemma distinct_slots_replicate [simp]: "distinct_slots (replicate k None)"
  by (rule distinct_slotsI) simp

lemma distinct_slots_grow:
  "distinct_slots xs \<Longrightarrow> distinct_slots (xs @ replicate k None)"
  by (rule distinct_slotsI)
    (auto simp: nth_append intro: distinct_slotsD split: if_splits)

lemma distinct_slots_set_None:
  "distinct_slots xs \<Longrightarrow> distinct_slots (xs[i := None])"
proof (cases "i < length xs")
  case True
  assume "distinct_slots xs"
  with True show ?thesis
    by (intro distinct_slotsI)
      (auto simp: nth_list_update intro: distinct_slotsD split: if_splits)
qed (simp add: list_update_beyond)

lemma distinct_slots_set_Some:
  assumes "distinct_slots xs" "Some x \<notin> set xs"
  shows "distinct_slots (xs[i := Some x])"
proof (cases "i < length xs")
  case True
  have "xs ! j \<noteq> Some x" if "j < length xs" for j
    using assms(2) that by (metis nth_mem)
  with assms(1) True show ?thesis
    by (intro distinct_slotsI)
      (auto simp: nth_list_update intro: distinct_slotsD split: if_splits)
qed (simp add: assms list_update_beyond)

section \<open>Arrays\<close>

text \<open>Access by an index that may be out of bounds.\<close>

definition elem :: "'a list \<Rightarrow> int \<Rightarrow> 'a option" where
  "elem xs i = (if 0 \<le> i \<and> nat i < length xs then Some (xs ! nat i) else None)"

definition put :: "'a list \<Rightarrow> int \<Rightarrow> 'a \<Rightarrow> 'a list option" where
  "put xs i x = (if 0 \<le> i \<and> nat i < length xs then Some (xs[nat i := x]) else None)"

lemma elem_in: "0 \<le> i \<Longrightarrow> nat i < length xs \<Longrightarrow> elem xs i = Some (xs ! nat i)"
  by (simp add: elem_def)

lemma put_in: "0 \<le> i \<Longrightarrow> nat i < length xs \<Longrightarrow> put xs i x = Some (xs[nat i := x])"
  by (simp add: put_def)

section \<open>Association lists\<close>

text \<open>Changing the first entry of a key, or adding one behind the others.\<close>

fun upsert :: "'a \<Rightarrow> 'b \<Rightarrow> ('a \<times> 'b) list \<Rightarrow> ('a \<times> 'b) list" where
  "upsert k v [] = [(k, v)]"
| "upsert k v ((k', v') # xs) = (if k' = k then (k, v) # xs else (k', v') # upsert k v xs)"

lemma map_of_upsert [simp]: "map_of (upsert k v xs) = (map_of xs)(k \<mapsto> v)"
  by (induction k v xs rule: upsert.induct) auto

lemma fst_upsert [simp]: "fst ` set (upsert k v xs) = insert k (fst ` set xs)"
  by (induction k v xs rule: upsert.induct) auto

lemma set_map_upsert [simp]: "set (map fst (upsert k v xs)) = insert k (set (map fst xs))"
  by (simp add: set_map)

lemma distinct_upsert [simp]: "distinct (map fst xs) \<Longrightarrow> distinct (map fst (upsert k v xs))"
  by (induction k v xs rule: upsert.induct) (auto simp del: set_map)

lemma upsert_new: "k \<notin> fst ` set xs \<Longrightarrow> upsert k v xs = xs @ [(k, v)]"
  by (induction k v xs rule: upsert.induct) auto

lemma length_upsert: "length (upsert k v xs) = (if k \<in> fst ` set xs then length xs else Suc (length xs))"
  by (induction k v xs rule: upsert.induct) auto

lemma upsert_not_Nil [simp]: "upsert k v xs \<noteq> []"
  by (induction k v xs rule: upsert.induct) auto

section \<open>Rounding up\<close>

text \<open>\<open>MPP_ALIGN\<close> with a power of two, when the sum does not wrap around.\<close>

lemma unat_align:
  fixes x :: "'a::len word"
  assumes "k < LENGTH('a)" "unat x + 2 ^ k \<le> 2 ^ LENGTH('a)"
  shows "unat ((x + 2 ^ k - 1) AND NOT (2 ^ k - 1)) = (unat x + 2 ^ k - 1) div 2 ^ k * 2 ^ k"
proof -
  let ?y = "x + (2 ^ k - 1)"
  have p: "unat (2 ^ k - 1 :: 'a word) = 2 ^ k - 1"
  proof -
    have eq: "of_nat (2 ^ k - 1) = (2 ^ k - 1 :: 'a word)" by (simp add: of_nat_diff)
    have "(2::nat) ^ k \<le> 2 ^ LENGTH('a)" using assms(1) by (simp add: power_increasing)
    then have lt: "(2::nat) ^ k - 1 < 2 ^ LENGTH('a)" using zero_less_power [of "2 :: nat" k] by linarith
    have "unat (of_nat n :: 'a word) = n" if "n < 2 ^ LENGTH('a)" for n
      using that by (simp add: unat_of_nat take_bit_nat_eq_self)
    from this [OF lt] show ?thesis unfolding eq .
  qed
  have y: "unat ?y = unat x + 2 ^ k - 1"
  proof -
    have "unat x + 2 ^ k - 1 < 2 ^ LENGTH('a)" using assms(2) zero_less_power [of "2 :: nat" k] by linarith
    then show ?thesis by (simp add: unat_word_ariths p)
  qed
  have d: "unat (drop_bit k ?y) = unat ?y div 2 ^ k"
    unfolding unat_drop_bit_eq by (rule drop_bit_eq_div)
  have "?y AND NOT (mask k) = push_bit k (drop_bit k ?y)"
    by (rule bit_eqI) (auto simp: bit_simps)
  then have "(x + 2 ^ k - 1) AND NOT (2 ^ k - 1) = push_bit k (drop_bit k ?y)"
    by (simp add: mask_eq_exp_minus_1 add_diff_eq)
  also have "unat \<dots> = unat (drop_bit k ?y) * 2 ^ k"
  proof -
    have "unat (drop_bit k ?y) * 2 ^ k \<le> unat ?y" unfolding d by simp
    then have "unat (drop_bit k ?y) * 2 ^ k < 2 ^ LENGTH('a)"
      using unsigned_less [of ?y, where 'a = nat] by (rule le_less_trans)
    then have "take_bit LENGTH('a) (push_bit k (unat (drop_bit k ?y))) = unat (drop_bit k ?y) * 2 ^ k"
      unfolding push_bit_eq_mult by (rule take_bit_nat_eq_self)
    then show ?thesis unfolding unsigned_push_bit_eq by simp
  qed
  finally show ?thesis by (simp only: d y)
qed

end
