(* ===== verification/Mpp_Trie.thy ===== *)
theory Mpp_Trie
  imports Mpp_Prelude
begin

text \<open>
  The prefix tree of option names (\<open>mpp_base/mpp_trie.cpp\<close>, \<open>mpp_trie.h\<close>): a growing array of
  nodes with sixteen 16-bit links each, two links (the halves of a byte) per character, and an
  array of payloads. A payload is what a \<open>const char **\<close> points into, its name apart: the
  functions take the name and the payload as a pair. An access outside an array is \<^const>\<open>None\<close>.
\<close>

section \<open>State\<close>

record trie_node =
  tn_next :: "int list"
  tn_idx :: int
  tn_id :: int

record 'r trie =
  t_info_count :: int
  t_info_used :: int
  t_info :: "'r option list"
  t_node_count :: int
  t_node_used :: int
  t_nodes :: "trie_node list"

definition DEFAULT_NODE_COUNT :: int where "DEFAULT_NODE_COUNT = 900"
definition DEFAULT_INFO_COUNT :: int where "DEFAULT_INFO_COUNT = 80"
definition INVALID_NODE_ID :: int where "INVALID_NODE_ID = -1"
definition SZ_1K :: nat where "SZ_1K = 1024"

definition zero_node :: trie_node where
  "zero_node = \<lparr>tn_next = replicate 16 0, tn_idx = 0, tn_id = 0\<rparr>"

definition s16_of_int :: "int \<Rightarrow> int" where
  "s16_of_int i = (i + 2 ^ 15) mod 2 ^ 16 - 2 ^ 15"

lemma s16_of_int_id: "0 \<le> i \<Longrightarrow> i < 2 ^ 15 \<Longrightarrow> s16_of_int i = i"
  by (simp add: s16_of_int_def)

section \<open>Operations\<close>

definition take_node :: "'r trie \<Rightarrow> int \<times> 'r trie" where
  "take_node t =
     (let idx = t_node_used t;
          n = (t_nodes t ! nat idx)\<lparr>tn_idx := idx, tn_id := INVALID_NODE_ID\<rparr>
      in (idx, t\<lparr>t_node_used := idx + 1, t_nodes := (t_nodes t)[nat idx := n]\<rparr>))"

definition grow_nodes :: "'r trie \<Rightarrow> 'r trie" where
  "grow_nodes t =
     t\<lparr>t_nodes := t_nodes t @ replicate (nat (t_node_count t)) zero_node,
       t_node_count := t_node_count t * 2\<rparr>"

definition trie_get_node :: "heap \<Rightarrow> 'r trie \<Rightarrow> int \<times> 'r trie \<times> heap" where
  "trie_get_node hp t =
     (if t_node_used t \<ge> t_node_count t
      then let (ok, hp) = heap_alloc hp in
           if \<not> ok then (-1, t, hp)
           else let (idx, t) = take_node (grow_nodes t) in (idx, t, hp)
      else let (idx, t) = take_node t in (idx, t, hp))"

text \<open>An allocation of a number of elements; a negative number is a size no allocator has.\<close>

definition alloc_n :: "heap \<Rightarrow> int \<Rightarrow> bool \<times> heap" where
  "alloc_n hp n = (if n < 0 then (False, hp) else heap_alloc hp)"

definition mpp_trie_init :: "heap \<Rightarrow> int \<Rightarrow> int \<Rightarrow> mpp_ret \<times> 'r trie option \<times> heap" where
  "mpp_trie_init hp node_count info_count =
     (let (ok, hp) = heap_alloc hp in
      if \<not> ok then (MPP_ERR_NOMEM, None, hp)
      else let node_count = (if node_count \<noteq> 0 then node_count else DEFAULT_NODE_COUNT);
               (ok, hp) = alloc_n hp node_count in
        if \<not> ok then (MPP_ERR_NOMEM, None, hp)
        else let info_count = (if info_count \<noteq> 0 then info_count else DEFAULT_INFO_COUNT);
                 (ok, hp) = alloc_n hp info_count in
          if \<not> ok then (MPP_ERR_NOMEM, None, hp)
          else let (_, p, hp) = trie_get_node hp
                 \<lparr>t_info_count = info_count, t_info_used = 0, t_info = replicate (nat info_count) None,
                  t_node_count = node_count, t_node_used = 0,
                  t_nodes = replicate (nat node_count) zero_node\<rparr>
               in (MPP_OK, Some p, hp))"

text \<open>The link \<open>key\<close> of node \<open>idx\<close>, created when it is zero.\<close>

definition trie_child :: "heap \<Rightarrow> 'r trie \<Rightarrow> int \<Rightarrow> nat \<Rightarrow> (int \<times> 'r trie \<times> heap) option" where
  "trie_child hp t idx key =
     (if idx < 0 \<or> int (length (t_nodes t)) \<le> idx then None
      else let next = tn_next (t_nodes t ! nat idx) ! key in
        if next \<noteq> 0 then Some (next, t, hp)
        else let (next, t, hp) = trie_get_node hp t;
                 node = t_nodes t ! nat idx;
                 node = node\<lparr>tn_next := (tn_next node)[key := s16_of_int next]\<rparr>
             in Some (next, t\<lparr>t_nodes := (t_nodes t)[nat idx := node]\<rparr>, hp))"

definition key0 :: "char \<Rightarrow> nat" where
  "key0 c = (of_char c div 16) mod 16"

definition key1 :: "char \<Rightarrow> nat" where
  "key1 c = of_char c mod 16"

fun trie_path :: "heap \<Rightarrow> 'r trie \<Rightarrow> int \<Rightarrow> string \<Rightarrow> (int \<times> 'r trie \<times> heap) option" where
  "trie_path hp t idx [] = Some (idx, t, hp)"
| "trie_path hp t idx (c # cs) = do {
     (next, t, hp) \<leftarrow> trie_child hp t idx (key0 c);
     (next, t, hp) \<leftarrow> trie_child hp t next (key1 c);
     trie_path hp t next cs
   }"

definition grow_info :: "'r trie \<Rightarrow> 'r trie" where
  "grow_info t =
     t\<lparr>t_info := t_info t @ replicate (nat (t_info_count t)) None, t_info_count := t_info_count t * 2\<rparr>"

definition trie_store :: "'r trie \<Rightarrow> int \<Rightarrow> 'r \<Rightarrow> 'r trie option" where
  "trie_store t idx r =
     (let act_id = t_info_used t in
      if idx < 0 \<or> int (length (t_nodes t)) \<le> idx \<or> act_id < 0 \<or> int (length (t_info t)) \<le> act_id then None
      else Some (t\<lparr>t_info_used := act_id + 1,
                   t_nodes := (t_nodes t)[nat idx := (t_nodes t ! nat idx)\<lparr>tn_id := act_id\<rparr>],
                   t_info := (t_info t)[nat act_id := Some r]\<rparr>))"

definition mpp_trie_add_info ::
  "heap \<Rightarrow> 'r trie option \<Rightarrow> (string \<times> 'r) option \<Rightarrow> (mpp_ret \<times> 'r trie option \<times> heap) option" where
  "mpp_trie_add_info hp trie info =
     (case (trie, info) of
        (Some t, Some (s, r)) \<Rightarrow>
          (let (ok, t, hp) =
             (if t_info_used t \<ge> t_info_count t
              then let (ok, hp) = heap_alloc hp in (ok, if ok then grow_info t else t, hp)
              else (True, t, hp))
           in if \<not> ok then Some (MPP_ERR_MALLOC, Some t, hp)
              else do {
                (idx, t, hp) \<leftarrow> trie_path hp t 0 (take SZ_1K s);
                t \<leftarrow> trie_store t idx r;
                Some (MPP_OK, Some t, hp)
              })
      | _ \<Rightarrow> Some (MPP_ERR_NULL_PTR, trie, hp))"

definition mpp_trie_get_node_count :: "'r trie option \<Rightarrow> int" where
  "mpp_trie_get_node_count trie = (case trie of None \<Rightarrow> 0 | Some p \<Rightarrow> t_node_used p)"

definition mpp_trie_get_info_count :: "'r trie option \<Rightarrow> int" where
  "mpp_trie_get_info_count trie = (case trie of None \<Rightarrow> 0 | Some p \<Rightarrow> t_info_used p)"

text \<open>The search loop: the last link followed and the node it ends at.\<close>

definition node_at :: "trie_node list \<Rightarrow> int \<Rightarrow> nat option" where
  "node_at nodes idx = (if 0 \<le> idx \<and> idx < int (length nodes) then Some (nat idx) else None)"

fun find_loop :: "trie_node list \<Rightarrow> nat \<Rightarrow> int \<Rightarrow> string \<Rightarrow> (int \<times> nat) option" where
  "find_loop nodes node idx [] = Some (idx, node)"
| "find_loop nodes node idx (c # cs) =
     (let idx = tn_next (nodes ! node) ! key0 c in
      if idx = 0 then Some (0, node)
      else do {
        node \<leftarrow> node_at nodes idx;
        let idx = tn_next (nodes ! node) ! key1 c;
        (if idx = 0 then Some (0, node)
         else do {
           node \<leftarrow> node_at nodes idx;
           find_loop nodes node idx cs
         })
      })"

definition mpp_trie_get_node :: "trie_node list \<Rightarrow> string option \<Rightarrow> nat option option" where
  "mpp_trie_get_node root name =
     (case name of
        None \<Rightarrow> Some None
      | Some name' \<Rightarrow>
          if root = [] then Some None
          else do {
            (idx, node) \<leftarrow> find_loop root 0 0 name';
            Some (if idx = 0 \<or> tn_id (root ! node) = INVALID_NODE_ID then None else Some node)
          })"

definition mpp_trie_get_info :: "'r trie option \<Rightarrow> string option \<Rightarrow> 'r option option" where
  "mpp_trie_get_info trie name =
     (case (trie, name) of
        (Some p, Some name') \<Rightarrow> do {
          node \<leftarrow> mpp_trie_get_node (t_nodes p) name;
          (case node of
             None \<Rightarrow> Some None
           | Some n \<Rightarrow>
               let i = tn_id (t_nodes p ! n) in
               if i < 0 then Some None
               else if i < int (length (t_info p)) then Some (t_info p ! nat i) else None)
        }
      | _ \<Rightarrow> Some None)"

section \<open>The tree and its invariant\<close>

definition nx :: "'r trie \<Rightarrow> nat \<Rightarrow> nat \<Rightarrow> int" where
  "nx t j a = tn_next (t_nodes t ! j) ! a"

definition node_id :: "'r trie \<Rightarrow> nat \<Rightarrow> int" where
  "node_id t j = tn_id (t_nodes t ! j)"

definition used :: "'r trie \<Rightarrow> nat" where
  "used t = nat (t_node_used t)"

text \<open>
  The nodes in use form a tree: a link leads to a node in use with a larger index, and no
  two links lead to the same node. The nodes not in use are zero.
\<close>

definition tree_ok :: "'r trie \<Rightarrow> bool" where
  "tree_ok t \<longleftrightarrow>
     (\<forall>j < used t. \<forall>a < 16. nx t j a = 0 \<or> int j < nx t j a \<and> nx t j a < int (used t)) \<and>
     (\<forall>j < used t. \<forall>a < 16. \<forall>j' < used t. \<forall>a' < 16. nx t j a \<noteq> 0 \<longrightarrow> nx t j a = nx t j' a' \<longrightarrow> j = j' \<and> a = a')"

definition trie_inv :: "'r trie \<Rightarrow> bool" where
  "trie_inv t \<longleftrightarrow>
     int (length (t_nodes t)) = t_node_count t \<and> 0 < t_node_used t \<and> t_node_used t \<le> t_node_count t \<and>
     int (length (t_info t)) = t_info_count t \<and> 0 < t_info_count t \<and>
     0 \<le> t_info_used t \<and> t_info_used t \<le> t_info_count t \<and>
     (\<forall>j < length (t_nodes t). length (tn_next (t_nodes t ! j)) = 16) \<and>
     (\<forall>j. used t \<le> j \<longrightarrow> j < length (t_nodes t) \<longrightarrow> (\<forall>a < 16. nx t j a = 0)) \<and>
     (\<forall>j < used t. - 1 \<le> node_id t j \<and> node_id t j < t_info_used t) \<and>
     tree_ok t"

lemma trie_invD:
  assumes "trie_inv t"
  shows "int (length (t_nodes t)) = t_node_count t" "0 < t_node_used t" "t_node_used t \<le> t_node_count t"
    "int (length (t_info t)) = t_info_count t" "0 \<le> t_info_used t" "t_info_used t \<le> t_info_count t"
    "0 < t_info_count t" "used t \<le> length (t_nodes t)" "0 < used t" "t_node_used t = int (used t)"
    "tree_ok t"
  using assms by (auto simp: trie_inv_def used_def)

lemma tree_okD:
  assumes "tree_ok t" "j < used t" "a < 16" "nx t j a \<noteq> 0"
  shows "int j < nx t j a" "nx t j a < int (used t)"
  using assms by (auto simp: tree_ok_def)

lemma tree_okI:
  assumes "\<And>j a. j < used t \<Longrightarrow> a < 16 \<Longrightarrow> nx t j a \<noteq> 0 \<Longrightarrow> int j < nx t j a \<and> nx t j a < int (used t)"
    "\<And>j a j' a'. j < used t \<Longrightarrow> a < 16 \<Longrightarrow> nx t j a \<noteq> 0 \<Longrightarrow> j' < used t \<Longrightarrow> a' < 16 \<Longrightarrow>
       nx t j a = nx t j' a' \<Longrightarrow> j = j' \<and> a = a'"
  shows "tree_ok t"
  unfolding tree_ok_def using assms by blast

lemma tree_ok_inj:
  assumes "tree_ok t" "j < used t" "a < 16" "nx t j a \<noteq> 0" "j' < used t" "a' < 16" "nx t j a = nx t j' a'"
  shows "j = j'" "a = a'"
  using assms unfolding tree_ok_def by blast+

lemma trie_inv_next: "trie_inv t \<Longrightarrow> j < length (t_nodes t) \<Longrightarrow> length (tn_next (t_nodes t ! j)) = 16"
  by (simp add: trie_inv_def)

lemma trie_inv_fresh: "trie_inv t \<Longrightarrow> used t \<le> j \<Longrightarrow> j < length (t_nodes t) \<Longrightarrow> a < 16 \<Longrightarrow> nx t j a = 0"
  by (simp add: trie_inv_def)

lemma trie_inv_id: "trie_inv t \<Longrightarrow> j < used t \<Longrightarrow> - 1 \<le> node_id t j \<and> node_id t j < t_info_used t"
  by (simp add: trie_inv_def)

text \<open>Following links along half-bytes.\<close>

fun walk :: "'r trie \<Rightarrow> nat \<Rightarrow> nat list \<Rightarrow> nat option" where
  "walk t j [] = Some j"
| "walk t j (a # as) = (if nx t j a = 0 then None else walk t (nat (nx t j a)) as)"

definition halves :: "string \<Rightarrow> nat list" where
  "halves s = concat (map (\<lambda>c. [key0 c, key1 c]) s)"

lemma halves_simps [simp]: "halves [] = []" "halves (c # cs) = key0 c # key1 c # halves cs"
  by (simp_all add: halves_def)

lemma key_less [simp]: "key0 c < 16" "key1 c < 16"
  by (simp_all add: key0_def key1_def)

lemma keys_inj: "key0 c = key0 d \<Longrightarrow> key1 c = key1 d \<Longrightarrow> c = d"
proof -
  assume "key0 c = key0 d" "key1 c = key1 d"
  moreover have "(of_char x :: nat) = (of_char x div 16) mod 16 * 16 + of_char x mod 16" for x
  proof -
    have "(of_char x :: nat) < 256" using nat_of_char_less_256 by simp
    then have "(of_char x :: nat) div 16 < 16" by presburger
    then show ?thesis by simp
  qed
  ultimately have "(of_char c :: nat) = of_char d" unfolding key0_def key1_def by metis
  then show "c = d" by simp
qed

lemma halves_inj: "halves s = halves s' \<Longrightarrow> s = s'"
proof (induction s arbitrary: s')
  case Nil
  then show ?case by (cases s') auto
next
  case (Cons c s)
  then show ?case by (cases s') (auto dest: keys_inj)
qed

lemma halves_less: "\<forall>a \<in> set (halves s). a < 16"
  by (induction s) auto

lemma walk_bound:
  assumes "tree_ok t" "j < used t" "\<forall>a \<in> set as. a < 16" "walk t j as = Some n"
  shows "n < used t \<and> j \<le> n \<and> (as \<noteq> [] \<longrightarrow> j < n)"
  using assms(2-4)
proof (induction as arbitrary: j)
  case (Cons a as)
  then have nz: "nx t j a \<noteq> 0" and w: "walk t (nat (nx t j a)) as = Some n" by (auto split: if_splits)
  from tree_okD [OF assms(1) Cons.prems(1) _ nz] Cons.prems(2)
  have "int j < nx t j a" "nat (nx t j a) < used t" by auto
  with Cons.IH [OF _ _ w] Cons.prems(2) show ?case by auto
qed auto

lemma walk_snoc: "walk t j (as @ [a]) = (case walk t j as of None \<Rightarrow> None | Some n \<Rightarrow>
    if nx t n a = 0 then None else Some (nat (nx t n a)))"
  by (induction as arbitrary: j) auto

text \<open>A node is reached from the root along one sequence of half-bytes only.\<close>

lemma walk_inj:
  assumes "tree_ok t" "0 < used t" "\<forall>a \<in> set as. a < 16" "\<forall>b \<in> set bs. b < 16"
    "walk t 0 as = Some n" "walk t 0 bs = Some n"
  shows "as = bs"
  using assms(3-6)
proof (induction as arbitrary: bs n rule: rev_induct)
  case Nil
  then have "n = 0" by simp
  with walk_bound [OF assms(1,2) Nil(2,4)] show ?case by auto
next
  case (snoc a as)
  from snoc.prems(3) obtain m where m: "walk t 0 as = Some m" "nx t m a \<noteq> 0" "n = nat (nx t m a)"
    by (auto simp: walk_snoc split: option.splits if_splits)
  have mu: "m < used t" using walk_bound [OF assms(1,2) _ m(1)] snoc.prems(1) by auto
  show ?case
  proof (cases bs rule: rev_cases)
    case Nil
    with snoc.prems(4) walk_bound [OF assms(1,2) snoc.prems(1) snoc.prems(3)] show ?thesis by auto
  next
    case (snoc bs' b)
    with snoc.prems(4) obtain m' where m': "walk t 0 bs' = Some m'" "nx t m' b \<noteq> 0" "n = nat (nx t m' b)"
      by (auto simp: walk_snoc split: option.splits if_splits)
    have mu': "m' < used t" using walk_bound [OF assms(1,2) _ m'(1)] snoc \<open>\<forall>b \<in> set bs. b < 16\<close> by auto
    have lt: "a < 16" "b < 16" using \<open>\<forall>a \<in> set (as @ [a]). a < 16\<close> \<open>\<forall>b \<in> set bs. b < 16\<close> snoc by auto
    have "nx t m a = nx t m' b"
      using m(3) m'(3) tree_okD(1) [OF assms(1) mu lt(1) m(2)] tree_okD(1) [OF assms(1) mu' lt(2) m'(2)]
      by simp
    from tree_ok_inj [OF assms(1) mu lt(1) m(2) mu' lt(2) this] have "m = m'" "a = b" by auto
    with snoc.IH [of bs' m] m m' snoc \<open>\<forall>a \<in> set (as @ [a]). a < 16\<close> \<open>\<forall>b \<in> set bs. b < 16\<close>
    show ?thesis by auto
  qed
qed

section \<open>The names a tree holds\<close>

definition trie_find :: "'r trie \<Rightarrow> nat list \<Rightarrow> 'r option" where
  "trie_find t p =
     (case walk t 0 p of
        None \<Rightarrow> None
      | Some n \<Rightarrow> if node_id t n < 0 then None else t_info t ! nat (node_id t n))"

lemma find_loop_walk:
  assumes "tree_ok t" "used t \<le> length (t_nodes t)" "j < used t"
  shows "\<exists>idx n. find_loop (t_nodes t) j i s = Some (idx, n) \<and>
    (case walk t j (halves s) of None \<Rightarrow> idx = 0
     | Some m \<Rightarrow> n = m \<and> (if s = [] then idx = i else idx = int m))"
  using assms(3)
proof (induction s arbitrary: j i)
  case (Cons c s)
  show ?case
  proof (cases "nx t j (key0 c) = 0")
    case True
    then show ?thesis by (simp add: nx_def)
  next
    case False
    note b0 = tree_okD [OF assms(1) Cons.prems _ False]
    let ?m = "nat (nx t j (key0 c))"
    have m: "?m < used t" "node_at (t_nodes t) (nx t j (key0 c)) = Some ?m"
      using b0 assms(2) by (auto simp: node_at_def)
    show ?thesis
    proof (cases "nx t ?m (key1 c) = 0")
      case True
      with m False show ?thesis by (simp add: nx_def)
    next
      case nz: False
      note b1 = tree_okD [OF assms(1) m(1) _ nz]
      have pos: "0 \<le> nx t ?m (key1 c)"
        using order.strict_trans1 [OF of_nat_0_le_iff b1(1) [OF key_less(2)]] by (rule less_imp_le)
      let ?k = "nat (nx t ?m (key1 c))"
      have k: "?k < used t" "node_at (t_nodes t) (nx t ?m (key1 c)) = Some ?k" "int ?k = nx t ?m (key1 c)"
        using b1(2) pos assms(2) by (simp_all add: node_at_def)
      have "find_loop (t_nodes t) j i (c # s) = find_loop (t_nodes t) ?k (int ?k) s"
        using m(2) k(2,3) False nz by (simp add: nx_def Let_def)
      moreover have "walk t j (halves (c # s)) = walk t ?k (halves s)" using False nz by simp
      moreover obtain idx n where "find_loop (t_nodes t) ?k (int ?k) s = Some (idx, n)"
        "case walk t ?k (halves s) of None \<Rightarrow> idx = 0
         | Some m \<Rightarrow> n = m \<and> (if s = [] then idx = int ?k else idx = int m)"
        using Cons.IH [OF k(1), of "int ?k"] by blast
      moreover have "s = [] \<Longrightarrow> walk t ?k (halves s) = Some ?k" by simp
      ultimately show ?thesis by (cases "s = []") (auto split: option.splits)
    qed
  qed
qed simp

lemma get_info_find:
  assumes "trie_inv t" "s \<noteq> []"
  shows "mpp_trie_get_info (Some t) (Some s) = Some (trie_find t (halves s))"
proof -
  note D = trie_invD [OF assms(1)]
  obtain idx n where f: "find_loop (t_nodes t) 0 0 s = Some (idx, n)"
    and w: "case walk t 0 (halves s) of None \<Rightarrow> idx = 0 | Some m \<Rightarrow> n = m \<and> idx = int m"
    using find_loop_walk [OF D(11,8,9), of 0 s] assms(2) by (auto split: option.splits)
  have ne: "t_nodes t \<noteq> []" using D(8,9) by auto
  show ?thesis
  proof (cases "walk t 0 (halves s)")
    case None
    with f w ne show ?thesis by (simp add: mpp_trie_get_info_def mpp_trie_get_node_def trie_find_def)
  next
    case (Some m)
    have m: "m < used t" "0 < m"
      using walk_bound [OF D(11,9) halves_less Some] assms(2) by (cases s; auto)+
    from trie_inv_id [OF assms(1) m(1)] Some f w ne m D(4-6) show ?thesis
      by (auto simp: mpp_trie_get_info_def mpp_trie_get_node_def trie_find_def node_id_def INVALID_NODE_ID_def Let_def)
  qed
qed

section \<open>Adding a name\<close>

text \<open>
  \<open>ext t t'\<close>: \<open>t'\<close> has the nodes of \<open>t\<close> and new ones, links that were zero may lead to new nodes,
  and the new nodes carry no payload.
\<close>

definition ext :: "'r trie \<Rightarrow> 'r trie \<Rightarrow> bool" where
  "ext t t' \<longleftrightarrow> used t \<le> used t' \<and> t_info t' = t_info t \<and> t_info_used t' = t_info_used t \<and>
     t_info_count t' = t_info_count t \<and>
     (\<forall>j < used t. \<forall>a < 16. nx t' j a = nx t j a \<or> nx t j a = 0 \<and> int (used t) \<le> nx t' j a) \<and>
     (\<forall>j < used t. node_id t' j = node_id t j) \<and>
     (\<forall>j. used t \<le> j \<longrightarrow> j < used t' \<longrightarrow> node_id t' j = -1)"

lemma ext_refl [simp]: "ext t t"
  by (simp add: ext_def)

lemma ext_keep: "ext t t' \<Longrightarrow> nx t j a \<noteq> 0 \<Longrightarrow> j < used t \<Longrightarrow> a < 16 \<Longrightarrow> nx t' j a = nx t j a"
  by (auto simp: ext_def)

lemma ext_trans:
  assumes "ext t u" "ext u v"
  shows "ext t v"
proof -
  have "node_id v j = -1" if "used t \<le> j" "j < used v" for j
    using assms that by (cases "j < used u") (auto simp: ext_def)
  moreover have "nx v j a = nx t j a \<or> nx t j a = 0 \<and> int (used t) \<le> nx v j a"
    if "j < used t" "a < 16" for j a
  proof -
    have "nx u j a = nx t j a \<or> nx t j a = 0 \<and> int (used t) \<le> nx u j a"
      "nx v j a = nx u j a \<or> nx u j a = 0 \<and> int (used u) \<le> nx v j a" "used t \<le> used u"
      using assms that by (auto simp: ext_def)
    then show ?thesis by auto
  qed
  ultimately show ?thesis using assms by (auto simp: ext_def)
qed

text \<open>Lookups do not change: the nodes that are new have no payload.\<close>

lemma ext_walk:
  assumes "ext t t'" "tree_ok t" "tree_ok t'" "j < used t" "\<forall>a \<in> set as. a < 16"
  shows "walk t' j as = Some n \<Longrightarrow> n < used t \<Longrightarrow> walk t j as = Some n"
    and "walk t j as = Some n \<Longrightarrow> walk t' j as = Some n"
proof -
  have step: "nx t' j a = nx t j a \<or> nx t j a = 0 \<and> int (used t) \<le> nx t' j a" if "j < used t" "a < 16" for j a
    using assms(1) that by (auto simp: ext_def)
  have le: "used t \<le> used t'" using assms(1) by (simp add: ext_def)
  show "walk t' j as = Some n \<Longrightarrow> n < used t \<Longrightarrow> walk t j as = Some n"
    using assms(4,5)
  proof (induction as arbitrary: j)
    case (Cons a as)
    from Cons.prems have nz: "nx t' j a \<noteq> 0" and w: "walk t' (nat (nx t' j a)) as = Some n" "a < 16"
      by (auto split: if_splits)
    have lt: "nat (nx t' j a) < used t'"
      using tree_okD(2) [OF assms(3) _ w(2) nz] Cons.prems(3) le by auto
    have "nat (nx t' j a) \<le> n"
      using walk_bound [OF assms(3) lt _ w(1)] Cons.prems(4) by auto
    then have old: "nat (nx t' j a) < used t" using Cons.prems(2) by simp
    then have "nx t' j a = nx t j a" using step [OF Cons.prems(3) w(2)] nz by auto
    with Cons.IH [OF w(1) Cons.prems(2) old] Cons.prems(4) nz show ?case by auto
  qed simp
  show "walk t j as = Some n \<Longrightarrow> walk t' j as = Some n"
    using assms(4,5)
  proof (induction as arbitrary: j)
    case (Cons a as)
    from Cons.prems have nz: "nx t j a \<noteq> 0" and w: "walk t (nat (nx t j a)) as = Some n" "a < 16"
      by (auto split: if_splits)
    have "nat (nx t j a) < used t" using tree_okD [OF assms(2) Cons.prems(2) w(2) nz] by auto
    moreover have "nx t' j a = nx t j a" using step [OF Cons.prems(2) w(2)] nz by auto
    ultimately show ?case using Cons.IH [OF w(1)] Cons.prems(3) nz by auto
  qed simp
qed

lemma ext_find:
  assumes "ext t t'" "trie_inv t" "tree_ok t'" "\<forall>a \<in> set as. a < 16"
  shows "trie_find t' as = trie_find t as"
proof -
  note D = trie_invD [OF assms(2)]
  note W = ext_walk [OF assms(1) D(11) assms(3) D(9) assms(4)]
  have pos: "0 < used t'" and info: "t_info t' = t_info t" using assms(1) D(9) by (auto simp: ext_def)
  show ?thesis
  proof (cases "walk t' 0 as")
    case None
    then have "walk t 0 as = None" using W(2) by (cases "walk t 0 as") auto
    with None show ?thesis by (simp add: trie_find_def)
  next
    case (Some n)
    have n: "n < used t'" using walk_bound [OF assms(3) pos assms(4) Some] by simp
    show ?thesis
    proof (cases "n < used t")
      case True
      with W(1) [OF Some] assms(1) info Some show ?thesis by (simp add: trie_find_def ext_def)
    next
      case False
      then have "node_id t' n = -1" using assms(1) n by (simp add: ext_def)
      moreover have "walk t 0 as = None"
        using W(2) Some False walk_bound [OF D(11,9) assms(4)] by (cases "walk t 0 as") fastforce+
      ultimately show ?thesis using Some by (simp add: trie_find_def)
    qed
  qed
qed

text \<open>A fresh node: the array grows when it is full.\<close>

lemma get_node_spec:
  assumes "trie_inv t"
  obtains t' where "trie_get_node [] t = (int (used t), t', [])" "trie_inv t'" "ext t t'"
    "used t' = Suc (used t)" "\<forall>j < used t. \<forall>a < 16. nx t' j a = nx t j a"
    "\<forall>a < 16. nx t' (used t) a = 0"
proof -
  note D = trie_invD [OF assms]
  let ?g = "if t_node_count t \<le> t_node_used t then grow_nodes t else t"
  let ?n = "(t_nodes ?g ! used t)\<lparr>tn_idx := t_node_used t, tn_id := -1\<rparr>"
  let ?t = "?g\<lparr>t_node_used := t_node_used t + 1, t_nodes := (t_nodes ?g)[used t := ?n]\<rparr>"
  have room: "used t < length (t_nodes ?g)" using D by (auto simp: grow_nodes_def)
  have cnt: "int (length (t_nodes ?g)) = t_node_count ?g" using D by (auto simp: grow_nodes_def)
  have old: "t_nodes ?g ! j = t_nodes t ! j" if "j < used t" for j
    using that D by (auto simp: grow_nodes_def nth_append)
  have fresh: "length (tn_next (t_nodes ?g ! j)) = 16 \<and> (\<forall>a < 16. tn_next (t_nodes ?g ! j) ! a = 0)"
    if "used t \<le> j" "j < length (t_nodes ?g)" for j
    using that trie_inv_next [OF assms, of j] trie_inv_fresh [OF assms, of j]
    by (auto simp: grow_nodes_def nth_append zero_node_def nx_def split: if_splits)
  have us: "used ?t = Suc (used t)" using D(2) by (simp add: used_def Suc_nat_eq_nat_zadd1)
  have g: "trie_get_node [] t = (int (used t), ?t, [])"
    using D(10) by (simp add: trie_get_node_def take_node_def Let_def INVALID_NODE_ID_def grow_nodes_def)
  have nx: "nx ?t j a = nx t j a" if "j < used t" for j a
    using old [OF that] that by (simp add: nx_def)
  have nx0: "nx ?t j a = 0" if "used t \<le> j" "j < length (t_nodes ?g)" "a < 16" for j a
    using fresh [OF that(1,2)] that(3) room by (cases "j = used t") (simp_all add: nx_def)
  have id: "node_id ?t j = node_id t j" if "j < used t" for j
    using old [OF that] that by (simp add: node_id_def)
  have idn: "node_id ?t (used t) = -1" using room by (simp add: node_id_def)
  have info: "t_info ?t = t_info t" "t_info_used ?t = t_info_used t" "t_info_count ?t = t_info_count t"
    by (simp_all add: grow_nodes_def)
  have z: "nx ?t (used t) a = 0" if "a < 16" for a using nx0 [of "used t" a] room that by simp
  have tree: "tree_ok ?t"
    unfolding tree_ok_def us less_Suc_eq
    using D(11) nx z by (fastforce simp: tree_ok_def)
  have len: "length (tn_next (t_nodes ?t ! j)) = 16" if "j < length (t_nodes ?t)" for j
    using that fresh [of j] old [of j] trie_inv_next [OF assms, of j] D(8) room
    by (cases "j < used t"; cases "j = used t") auto
  have ids: "- 1 \<le> node_id ?t j \<and> node_id ?t j < t_info_used ?t" if "j < used ?t" for j
    using that trie_inv_id [OF assms, of j] id [of j] idn D(5) info(2) us by (auto simp: less_Suc_eq)
  have "trie_inv ?t"
    unfolding trie_inv_def
  proof (intro conjI allI impI)
    show "nx ?t j a = 0" if "used ?t \<le> j" "j < length (t_nodes ?t)" "a < 16" for j a
      using nx0 [of j a] that us by simp
  qed (use cnt room D len ids tree info in \<open>auto simp: us\<close>)
  moreover have "ext t ?t"
    using nx id idn info by (auto simp: ext_def us less_Suc_eq)
  ultimately show thesis using that [OF g] us nx z by blast
qed

lemma set_link:
  assumes "trie_inv t" "j < m" "a < 16" "nx t j a = 0" "Suc m = used t"
    "\<forall>j' < used t. \<forall>a' < 16. nx t j' a' \<noteq> int m"
  defines "t' \<equiv> t\<lparr>t_nodes := (t_nodes t)[j := (t_nodes t ! j)\<lparr>tn_next := (tn_next (t_nodes t ! j))[a := int m]\<rparr>]\<rparr>"
  shows "trie_inv t'" "used t' = used t" "\<And>i. node_id t' i = node_id t i"
    "\<And>i b. nx t' i b = (if i = j \<and> b = a then int m else nx t i b)"
proof -
  note D = trie_invD [OF assms(1)]
  have j: "j < length (t_nodes t)" "j < used t" using assms(2,5) D(8) by auto
  show us: "used t' = used t" by (simp add: t'_def used_def)
  show id: "node_id t' i = node_id t i" for i
    using j by (cases "i = j") (simp_all add: t'_def node_id_def)
  show nx: "nx t' i b = (if i = j \<and> b = a then int m else nx t i b)" for i b
    using j trie_inv_next [OF assms(1) j(1)] assms(3)
    by (cases "i = j"; cases "b = a") (simp_all add: t'_def nx_def)
  have tree: "tree_ok t'"
  proof (rule tree_okI)
    show "int i < nx t' i b \<and> nx t' i b < int (used t')" if "i < used t'" "b < 16" "nx t' i b \<noteq> 0" for i b
      using that tree_okD [OF D(11), of i b] assms(2,5) us by (auto simp: nx split: if_splits)
    show "i = i' \<and> b = b'"
      if "i < used t'" "b < 16" "nx t' i b \<noteq> 0" "i' < used t'" "b' < 16" "nx t' i b = nx t' i' b'" for i b i' b'
      using that tree_ok_inj [OF D(11), of i b i' b'] assms(6) us by (simp add: nx split: if_splits) metis+
  qed
  have len: "length (tn_next (t_nodes t' ! i)) = 16" if "i < length (t_nodes t')" for i
    using that trie_inv_next [OF assms(1)] by (cases "i = j") (simp_all add: t'_def)
  have same: "length (t_nodes t') = length (t_nodes t)" "t_node_count t' = t_node_count t"
    "t_node_used t' = t_node_used t" "t_info t' = t_info t" "t_info_used t' = t_info_used t"
    "t_info_count t' = t_info_count t" by (simp_all add: t'_def)
  show "trie_inv t'"
    unfolding trie_inv_def
  proof (intro conjI allI impI)
    show "nx t' i b = 0" if "used t' \<le> i" "i < length (t_nodes t')" "b < 16" for i b
      using that trie_inv_fresh [OF assms(1)] j us same by (auto simp: nx)
  qed (use D same len tree id us trie_inv_id [OF assms(1)] in auto)
qed

lemma child_spec:
  assumes "trie_inv t" "j < used t" "a < 16" "used t < 2 ^ 15"
  obtains n t' where "trie_child [] t (int j) a = Some (int n, t', [])" "trie_inv t'" "ext t t'"
    "used t' \<le> Suc (used t)" "n < used t'" "nx t' j a = int n" "0 < n"
proof (cases "nx t j a = 0")
  case False
  note D = trie_invD [OF assms(1)]
  from tree_okD [OF D(11) assms(2,3) False] have n: "0 < nat (nx t j a)" "nat (nx t j a) < used t" by auto
  show thesis
    using that [of "nat (nx t j a)" t] n assms(1,2) False D(8)
    by (auto simp: trie_child_def nx_def)
next
  case True
  note D = trie_invD [OF assms(1)]
  obtain t1 where t1: "trie_get_node [] t = (int (used t), t1, [])" "trie_inv t1" "ext t t1"
    "used t1 = Suc (used t)" "\<forall>j < used t. \<forall>a < 16. nx t1 j a = nx t j a"
    "\<forall>a < 16. nx t1 (used t) a = 0" by (rule get_node_spec [OF assms(1)])
  let ?t2 = "t1\<lparr>t_nodes := (t_nodes t1)[j := (t_nodes t1 ! j)\<lparr>tn_next := (tn_next (t_nodes t1 ! j))[a := int (used t)]\<rparr>]\<rparr>"
  have z: "nx t1 j a = 0" using t1(5) True assms(2,3) by simp
  have none: "\<forall>j' < used t1. \<forall>a' < 16. nx t1 j' a' \<noteq> int (used t)"
  proof (intro allI impI)
    fix j' a' :: nat
    assume "j' < used t1" "a' < 16"
    then show "nx t1 j' a' \<noteq> int (used t)"
      using t1(4-6) D(9) tree_okD(2) [OF D(11), of j' a'] by (cases "j' = used t") auto
  qed
  note L = set_link [OF t1(2) assms(2,3) z t1(4) [symmetric] none]
  have "ext t ?t2"
    using t1(3-6) L(2) assms(2,3) True by (auto simp: ext_def L(3,4))
  moreover have "trie_child [] t (int j) a = Some (int (used t), ?t2, [])"
    using t1(1) True assms(2,4) D(8) s16_of_int_id [of "int (used t)"]
    by (simp add: trie_child_def nx_def Let_def)
  moreover have "nx ?t2 j a = int (used t)" by (simp add: L(4))
  ultimately show thesis
    using that [of "used t" ?t2] L(1,2) t1(4) D(9) by simp
qed

lemma path_spec:
  assumes "trie_inv t" "j < used t" "used t + 2 * length s \<le> 2 ^ 15"
  shows "\<exists>n t'. trie_path [] t (int j) s = Some (int n, t', []) \<and> trie_inv t' \<and> ext t t' \<and>
    n < used t' \<and> used t' \<le> used t + 2 * length s \<and> walk t' j (halves s) = Some n"
  using assms
proof (induction s arbitrary: t j)
  case Nil
  then show ?case by simp
next
  case (Cons c s)
  have le: "used t < 2 ^ 15" using Cons.prems(3) by simp
  from child_spec [OF Cons.prems(1,2) key_less(1) [of c] le] obtain n1 t1
    where c1: "trie_child [] t (int j) (key0 c) = Some (int n1, t1, [])" "trie_inv t1" "ext t t1"
    "used t1 \<le> Suc (used t)" "n1 < used t1" "nx t1 j (key0 c) = int n1" "0 < n1" .
  have "used t1 < 2 ^ 15" using c1(4) Cons.prems(3) by simp
  from child_spec [OF c1(2,5) key_less(2) [of c] this] obtain n2 t2
    where c2: "trie_child [] t1 (int n1) (key1 c) = Some (int n2, t2, [])" "trie_inv t2" "ext t1 t2"
    "used t2 \<le> Suc (used t1)" "n2 < used t2" "nx t2 n1 (key1 c) = int n2" "0 < n2" .
  have "used t2 + 2 * length s \<le> 2 ^ 15" using c1(4) c2(4) Cons.prems(3) by simp
  from Cons.IH [OF c2(2,5) this] obtain n t' where r: "trie_path [] t2 (int n2) s = Some (int n, t', [])"
    "trie_inv t'" "ext t2 t'" "n < used t'" "used t' \<le> used t2 + 2 * length s"
    "walk t' n2 (halves s) = Some n" by blast
  have e: "ext t1 t'" by (rule ext_trans [OF c2(3) r(3)])
  have ju: "j < used t1" using Cons.prems(2) c1(3) by (auto simp: ext_def)
  have "nx t' j (key0 c) = int n1" using ext_keep [OF e, of j "key0 c"] c1(6,7) ju by simp
  moreover have "n1 < used t2" using c1(5) c2(3) by (auto simp: ext_def)
  then have "nx t' n1 (key1 c) = int n2" using ext_keep [OF r(3), of n1 "key1 c"] c2(6,7) by simp
  ultimately have "walk t' j (halves (c # s)) = Some n" using c1(7) c2(7) r(6) by simp
  moreover have "trie_path [] t (int j) (c # s) = Some (int n, t', [])" using c1(1) c2(1) r(1) by simp
  moreover have "ext t t'" by (rule ext_trans [OF c1(3) e])
  moreover have "used t' \<le> used t + 2 * length (c # s)" using c1(4) c2(4) r(5) by simp
  ultimately show ?case using r(2,4) by blast
qed

lemma store_spec:
  assumes "trie_inv t" "n < used t" "t_info_used t < t_info_count t"
  obtains t' where "trie_store t (int n) r = Some t'" "trie_inv t'" "used t' = used t"
    "\<And>p. \<forall>a \<in> set p. a < 16 \<Longrightarrow> trie_find t' p = (if walk t 0 p = Some n then Some r else trie_find t p)"
proof -
  note D = trie_invD [OF assms(1)]
  let ?t = "t\<lparr>t_info_used := t_info_used t + 1,
    t_nodes := (t_nodes t)[n := (t_nodes t ! n)\<lparr>tn_id := t_info_used t\<rparr>],
    t_info := (t_info t)[nat (t_info_used t) := Some r]\<rparr>"
  have n: "n < length (t_nodes t)" using assms(2) D(8) by simp
  have st: "trie_store t (int n) r = Some ?t" using n D(4,5) assms(3) by (simp add: trie_store_def Let_def)
  have us: "used ?t = used t" by (simp add: used_def)
  have nx: "nx ?t j a = nx t j a" for j a using n by (cases "j = n") (simp_all add: nx_def)
  have id: "node_id ?t j = (if j = n then t_info_used t else node_id t j)" for j
    using n by (simp add: node_id_def)
  have walk: "walk ?t j p = walk t j p" for j p by (induction p arbitrary: j) (simp_all add: nx)
  have len: "length (tn_next (t_nodes ?t ! i)) = 16" if "i < length (t_nodes ?t)" for i
    using that trie_inv_next [OF assms(1)] by (cases "i = n") simp_all
  have tree: "tree_ok ?t" using D(11) unfolding tree_ok_def us nx .
  have ids: "- 1 \<le> node_id ?t j \<and> node_id ?t j < t_info_used ?t" if "j < used ?t" for j
    using that us D(5) trie_inv_id [OF assms(1), of j] by (auto simp: id)
  have "trie_inv ?t"
    unfolding trie_inv_def
  proof (intro conjI allI impI)
    show "nx ?t i b = 0" if "used ?t \<le> i" "i < length (t_nodes ?t)" "b < 16" for i b
      using that trie_inv_fresh [OF assms(1), of i b] us by (simp add: nx)
  qed (use D len tree ids us assms(3) in auto)
  moreover have "trie_find ?t p = (if walk t 0 p = Some n then Some r else trie_find t p)"
    if "\<forall>a \<in> set p. a < 16" for p
  proof (cases "walk t 0 p")
    case (Some m)
    then have "m < used t" using walk_bound [OF D(11,9) that] by blast
    with trie_inv_id [OF assms(1), of m] show ?thesis
      using Some D(4,5) assms(3) unfolding trie_find_def walk id by auto
  qed (simp add: trie_find_def walk)
  ultimately show thesis using that [OF st] us by blast
qed

lemma grow_info_inv:
  assumes "trie_inv t"
  shows "trie_inv (grow_info t)" "used (grow_info t) = used t"
    "t_info_used (grow_info t) < t_info_count (grow_info t)"
    "\<And>p. \<forall>a \<in> set p. a < 16 \<Longrightarrow> trie_find (grow_info t) p = trie_find t p"
proof -
  note D = trie_invD [OF assms]
  have nodes: "t_nodes (grow_info t) = t_nodes t" by (simp add: grow_info_def)
  have same: "nx (grow_info t) = nx t" "node_id (grow_info t) = node_id t"
    by (simp_all add: fun_eq_iff nx_def node_id_def nodes)
  show us: "used (grow_info t) = used t" by (simp add: used_def grow_info_def)
  have walk: "walk (grow_info t) j p = walk t j p" for j p
    by (induction p arbitrary: j) (simp_all add: same)
  have tree: "tree_ok (grow_info t)" using D(11) unfolding tree_ok_def us same .
  show "trie_inv (grow_info t)"
    unfolding trie_inv_def nodes same us
    using D tree assms by (auto simp: trie_inv_def grow_info_def)
  show "t_info_used (grow_info t) < t_info_count (grow_info t)"
    using D(6,7) by (simp add: grow_info_def)
  show "trie_find (grow_info t) p = trie_find t p" if "\<forall>a \<in> set p. a < 16" for p
  proof (cases "walk t 0 p")
    case (Some m)
    then have "m < used t" using walk_bound [OF D(11,9) that] by blast
    with trie_inv_id [OF assms, of m] Some D(4,5,6) show ?thesis
      unfolding trie_find_def walk same by (auto simp: grow_info_def nth_append)
  qed (simp add: trie_find_def walk)
qed

lemma add_info_ok:
  assumes "trie_inv t" "length name \<le> SZ_1K" "used t + 2 * length name \<le> 2 ^ 15"
  obtains t' where "mpp_trie_add_info [] (Some t) (Some (name, r)) = Some (MPP_OK, Some t', [])"
    "trie_inv t'" "used t' \<le> used t + 2 * length name"
    "\<And>s. trie_find t' (halves s) = (if s = name then Some r else trie_find t (halves s))"
proof -
  let ?g = "if t_info_count t \<le> t_info_used t then grow_info t else t"
  have g: "trie_inv ?g" "used ?g = used t" "t_info_used ?g < t_info_count ?g"
    "\<And>p. \<forall>a \<in> set p. a < 16 \<Longrightarrow> trie_find ?g p = trie_find t p"
    using grow_info_inv [OF assms(1)] assms(1) by auto
  have "0 < used ?g" "used ?g + 2 * length name \<le> 2 ^ 15" using trie_invD(9) [OF g(1)] g(2) assms(3) by auto
  from path_spec [OF g(1) this] obtain n t1 where p: "trie_path [] ?g 0 name = Some (int n, t1, [])"
    "trie_inv t1" "ext ?g t1" "n < used t1" "used t1 \<le> used t + 2 * length name"
    "walk t1 0 (halves name) = Some n" using g(2) by auto
  have full: "t_info_used t1 < t_info_count t1" using p(3) g(3) by (simp add: ext_def)
  note D1 = trie_invD [OF p(2)]
  obtain t' where st: "trie_store t1 (int n) r = Some t'" "trie_inv t'" "used t' = used t1"
    "\<And>p. \<forall>a \<in> set p. a < 16 \<Longrightarrow> trie_find t' p = (if walk t1 0 p = Some n then Some r else trie_find t1 p)"
    by (rule store_spec [OF p(2,4) full]) blast
  have "trie_find t' (halves s) = (if s = name then Some r else trie_find t (halves s))" for s
  proof -
    have "walk t1 0 (halves s) = Some n \<longleftrightarrow> s = name"
      using walk_inj [OF D1(11,9) halves_less halves_less _ p(6)] halves_inj p(6) by metis
    then show ?thesis
      using st(4) [OF halves_less] ext_find [OF p(3) g(1) D1(11) halves_less] g(4) [OF halves_less] by simp
  qed
  moreover have "mpp_trie_add_info [] (Some t) (Some (name, r)) = Some (MPP_OK, Some t', [])"
    using p(1) st(1) assms(2) by (auto simp: mpp_trie_add_info_def)
  ultimately show thesis using that st(2,3) p(5) by simp
qed

lemma get_info_view:
  assumes "trie_inv t"
  shows "mpp_trie_get_info (Some t) (Some s) = Some (if s = [] then None else trie_find t (halves s))"
proof (cases "s = []")
  case True
  have "t_nodes t \<noteq> []" using trie_invD(8,9) [OF assms] by auto
  with True show ?thesis by (simp add: mpp_trie_get_info_def mpp_trie_get_node_def)
qed (simp add: get_info_find [OF assms])

definition trie_look :: "'r trie \<Rightarrow> string \<Rightarrow> 'r option" where
  "trie_look t s = (case mpp_trie_get_info (Some t) (Some s) of Some r \<Rightarrow> r | None \<Rightarrow> None)"

lemma trie_init_ok:
  assumes "0 < node_count" "0 < info_count"
  obtains t :: "'r trie" where "mpp_trie_init [] node_count info_count = (MPP_OK, Some t, [])"
    "trie_inv t" "used t = 1" "trie_look t = Map.empty"
proof -
  define t :: "'r trie" where "t = \<lparr>t_info_count = info_count, t_info_used = 0,
    t_info = replicate (nat info_count) None, t_node_count = node_count, t_node_used = 1,
    t_nodes = (replicate (nat node_count) zero_node)[0 := zero_node\<lparr>tn_idx := 0, tn_id := -1\<rparr>]\<rparr>"
  have init: "mpp_trie_init [] node_count info_count = (MPP_OK, Some t, [])"
    using assms
    by (simp add: t_def mpp_trie_init_def alloc_n_def trie_get_node_def take_node_def INVALID_NODE_ID_def)
  have sel: "t_info_count t = info_count" "t_info_used t = 0" "length (t_info t) = nat info_count"
    "t_node_count t = node_count" "t_node_used t = 1" "length (t_nodes t) = nat node_count"
    "used t = 1" by (simp_all add: t_def used_def)
  have nx: "nx t j a = 0" and len: "length (tn_next (t_nodes t ! j)) = 16"
    if "j < nat node_count" "a < 16" for j a
    using that by (cases "j = 0"; simp add: t_def nx_def zero_node_def)+
  have id: "node_id t 0 = -1" using assms(1) by (simp add: t_def node_id_def)
  have "nx t 0 a = 0" if "a < 16" for a using nx that assms(1) by simp
  then have "tree_ok t" by (intro tree_okI) (simp_all add: sel(7))
  then have inv: "trie_inv t"
    unfolding trie_inv_def sel using assms id nx len [of _ 0] by auto
  have "trie_find t (halves s) = None" if "s \<noteq> []" for s
    using nx [of 0 "key0 (hd s)"] that assms(1) by (cases s) (auto simp: trie_find_def)
  then have "trie_look t = Map.empty"
    by (auto simp: fun_eq_iff trie_look_def get_info_view [OF inv])
  with init inv sel(7) show thesis by (rule that)
qed

section \<open>The interface of a name index\<close>

text \<open>
  What the option parser relies on: adding a legal name while there is room makes exactly
  that name refer to the new payload. \<open>load\<close> and \<open>cost\<close> bound the room a name takes.
\<close>

locale name_index =
  fixes add :: "'t \<Rightarrow> string \<Rightarrow> 'r \<Rightarrow> 't"
    and look :: "'t \<Rightarrow> string \<Rightarrow> 'r option"
    and ok :: "'t \<Rightarrow> bool"
    and legal :: "string \<Rightarrow> bool"
    and load :: "'t \<Rightarrow> nat"
    and cost :: "string \<Rightarrow> nat"
    and cap :: nat
  assumes ok_add: "ok t \<Longrightarrow> legal s \<Longrightarrow> load t + cost s \<le> cap \<Longrightarrow> ok (add t s r)"
    and load_add: "ok t \<Longrightarrow> legal s \<Longrightarrow> load t + cost s \<le> cap \<Longrightarrow> load (add t s r) \<le> load t + cost s"
    and look_add: "ok t \<Longrightarrow> legal s \<Longrightarrow> load t + cost s \<le> cap \<Longrightarrow> look (add t s r) = (look t)(s \<mapsto> r)"
begin

lemma adds:
  "ok t \<Longrightarrow> \<forall>(s, r) \<in> set xs. legal s \<Longrightarrow> load t + sum_list (map (\<lambda>(s, r). cost s) xs) \<le> cap \<Longrightarrow>
   ok (foldl (\<lambda>t (s, r). add t s r) t xs) \<and>
   look (foldl (\<lambda>t (s, r). add t s r) t xs) = look t ++ map_of (rev xs)"
proof (induction xs arbitrary: t)
  case (Cons x xs)
  obtain s r where x: "x = (s, r)" by (cases x)
  with Cons.prems have p: "legal s" "load t + cost s \<le> cap" "\<forall>(s, r) \<in> set xs. legal s"
    "load (add t s r) + sum_list (map (\<lambda>(s, r). cost s) xs) \<le> cap"
    using load_add [of t s r] by auto
  from Cons.IH [OF ok_add [OF Cons.prems(1) p(1,2), of r] p(3,4)] look_add [OF Cons.prems(1) p(1,2), of r] x
  show ?case by (auto simp: fun_eq_iff map_add_def split: option.splits)
qed simp

end

definition trie_add :: "'r trie \<Rightarrow> string \<Rightarrow> 'r \<Rightarrow> 'r trie" where
  "trie_add t s r =
     (case mpp_trie_add_info [] (Some t) (Some (s, r)) of Some (_, Some t', _) \<Rightarrow> t' | _ \<Rightarrow> t)"

definition legal_name :: "string \<Rightarrow> bool" where
  "legal_name s \<longleftrightarrow> s \<noteq> [] \<and> length s \<le> SZ_1K"

definition name_cost :: "string \<Rightarrow> nat" where
  "name_cost s = 2 * length s"

definition trie_cap :: nat where
  "trie_cap = 2 ^ 15"

lemma trie_add_ok:
  assumes "trie_inv t" "legal_name s" "used t + name_cost s \<le> trie_cap"
  shows "mpp_trie_add_info [] (Some t) (Some (s, r)) = Some (MPP_OK, Some (trie_add t s r), []) \<and>
    trie_inv (trie_add t s r) \<and> used (trie_add t s r) \<le> used t + name_cost s \<and>
    trie_look (trie_add t s r) = (trie_look t)(s \<mapsto> r)"
proof -
  have "length s \<le> SZ_1K" "used t + 2 * length s \<le> 2 ^ 15" "s \<noteq> []"
    using assms(2,3) by (auto simp: legal_name_def name_cost_def trie_cap_def)
  from add_info_ok [OF assms(1) this(1,2), of r] obtain t' where
    t': "mpp_trie_add_info [] (Some t) (Some (s, r)) = Some (MPP_OK, Some t', [])" "trie_inv t'"
    "used t' \<le> used t + 2 * length s"
    "\<And>x. trie_find t' (halves x) = (if x = s then Some r else trie_find t (halves x))" by blast
  then have "trie_add t s r = t'" by (simp add: trie_add_def)
  then show ?thesis
    using t' \<open>s \<noteq> []\<close>
    by (auto simp: fun_eq_iff trie_look_def get_info_view [OF assms(1)] get_info_view [OF t'(2)] name_cost_def)
qed

interpretation tri: name_index trie_add trie_look trie_inv legal_name used name_cost trie_cap
  by unfold_locales (simp_all add: trie_add_ok)

section \<open>Properties\<close>

text \<open>
  C24: with memory available, for a name of 1 to 1024 characters (the code looks at no more of a name) and fewer
  than 32768 nodes after it, \<open>mpp_trie_add_info\<close> succeeds
  and keeps the tree invariant; afterwards \<open>mpp_trie_get_info\<close> returns the new payload for
  exactly the name added, in particular for no proper prefix or extension of it, and for
  every other name what it returned before. Neither call leaves its arrays.
\<close>

theorem mpp_trie_add_get:
  assumes "trie_inv t" "name \<noteq> []" "length name \<le> SZ_1K" "used t + 2 * length name \<le> 2 ^ 15"
  shows "\<exists>t'. mpp_trie_add_info [] (Some t) (Some (name, r)) = Some (MPP_OK, Some t', []) \<and> trie_inv t' \<and>
    mpp_trie_get_info (Some t) (Some s) \<noteq> None \<and>
    mpp_trie_get_info (Some t') (Some s) =
      (if s = name then Some (Some r) else mpp_trie_get_info (Some t) (Some s))"
proof -
  obtain t' where "mpp_trie_add_info [] (Some t) (Some (name, r)) = Some (MPP_OK, Some t', [])"
    "trie_inv t'" "\<And>x. trie_find t' (halves x) = (if x = name then Some r else trie_find t (halves x))"
    using add_info_ok [OF assms(1,3,4), of r] by metis
  then show ?thesis using assms(2) by (auto simp: get_info_view assms(1))
qed

text \<open>A tree of one node, for the witnesses.\<close>

definition root_trie :: "nat trie" where
  "root_trie = (case mpp_trie_init [] 1 1 of (_, Some t, _) \<Rightarrow> t)"

lemma root_trie_inv: "trie_inv root_trie" "used root_trie = 1"
proof -
  obtain t :: "nat trie" where t: "mpp_trie_init [] 1 1 = (MPP_OK, Some t, [])" "trie_inv t" "used t = 1"
    using trie_init_ok [of 1 1] by auto
  then show "trie_inv root_trie" "used root_trie = 1" by (auto simp: root_trie_def)
qed

theorem mpp_trie_add_get_witness:
  "\<exists>t'. mpp_trie_add_info [] (Some root_trie) (Some (''fps'', 7)) = Some (MPP_OK, Some t', []) \<and>
    mpp_trie_get_info (Some t') (Some ''fps'') = Some (Some 7)"
  using mpp_trie_add_get [OF root_trie_inv(1), of "''fps''" 7 "''fps''"]
  by (auto simp: root_trie_inv(2) SZ_1K_def)

text \<open>
  \<open>mpp_trie_add_info\<close> does not check the result of \<open>trie_get_node\<close>: when the node array is
  full and cannot grow, the index -1 becomes a link and the next access is outside the array.
\<close>

theorem mpp_trie_add_no_memory:
  assumes "trie_inv t" "t_node_used t = t_node_count t" "t_info_used t < t_info_count t"
    "nx t 0 (key0 c) = 0"
  shows "mpp_trie_add_info [False] (Some t) (Some (c # cs, r)) = None"
proof -
  have "0 < length (t_nodes t)" using trie_invD(8,9) [OF assms(1)] by linarith
  then have "\<exists>t'. trie_child [False] t 0 (key0 c) = Some (-1, t', [])"
    using assms(2,4) by (simp add: trie_child_def nx_def trie_get_node_def Let_def)
  then obtain t' where "trie_child [False] t 0 (key0 c) = Some (-1, t', [])" ..
  moreover have "trie_child [] t' (-1) (key1 c) = None" by (simp add: trie_child_def)
  ultimately show ?thesis using assms(3) by (simp add: mpp_trie_add_info_def SZ_1K_def)
qed

theorem mpp_trie_add_no_memory_witness:
  "mpp_trie_add_info [False] (Some root_trie) (Some (''f'', 7)) = None"
proof (rule mpp_trie_add_no_memory [OF root_trie_inv(1)])
  show "t_node_used root_trie = t_node_count root_trie" "t_info_used root_trie < t_info_count root_trie"
    "nx root_trie 0 (key0 (CHR ''f'')) = 0"
    by code_simp+
qed

end
