(* ===== verification/Mpp_Opt.thy ===== *)
theory Mpp_Opt
  imports Mpp_Trie
begin

text \<open>
  The command line parser (\<open>mpp_utils/mpp_opt.c\<close>) over the prefix tree. An option handler is a
  function of the client: from the context and the next argument to its result (how many
  arguments it used, negative to stop) and the context afterwards. The parse is shown to
  agree with a reference on the list of arguments, the tree being the table of options.
\<close>

section \<open>State\<close>

record 'c opt_info =
  oi_name :: string
  oi_full_name :: string
  oi_help :: string
  oi_proc :: "('c \<Rightarrow> string option \<Rightarrow> int \<times> 'c) option"

text \<open>\<open>ctx\<close> is what the pointer of the client leads to.\<close>

record 'c opt_impl =
  op_ctx :: "'c option"
  op_trie :: "'c opt_info trie option"
  op_node_cnt :: int
  op_info_cnt :: int

section \<open>Operations\<close>

definition mpp_opt_init :: "heap \<Rightarrow> mpp_ret \<times> 'c opt_impl option \<times> heap" where
  "mpp_opt_init hp =
     (let (ok, hp) = heap_alloc hp in
      if ok then (MPP_OK, Some \<lparr>op_ctx = None, op_trie = None, op_node_cnt = 0, op_info_cnt = 0\<rparr>, hp)
      else (MPP_NOK, None, hp))"

definition mpp_opt_deinit :: "'c opt_impl option \<Rightarrow> mpp_ret" where
  "mpp_opt_deinit opt = (if opt = None then MPP_NOK else MPP_OK)"

definition mpp_opt_setup ::
  "heap \<Rightarrow> 'c opt_impl option \<Rightarrow> 'c \<Rightarrow> int \<Rightarrow> int \<Rightarrow> mpp_ret \<times> 'c opt_impl option \<times> heap" where
  "mpp_opt_setup hp opt ctx node_cnt opt_cnt =
     (case opt of
        None \<Rightarrow> (MPP_NOK, None, hp)
      | Some impl \<Rightarrow>
          let (_, trie, hp) = mpp_trie_init hp node_cnt opt_cnt in
          (if trie \<noteq> None
           then (MPP_OK, Some (impl\<lparr>op_trie := trie, op_ctx := Some ctx, op_node_cnt := node_cnt,
                                   op_info_cnt := opt_cnt\<rparr>), hp)
           else (MPP_NOK, Some (impl\<lparr>op_trie := None\<rparr>), hp)))"

text \<open>
  With no option \<open>mpp_opt_add\<close> only logs the counts when they differ from the setup; the
  boolean is whether it does.
\<close>

definition mpp_opt_add ::
  "heap \<Rightarrow> 'c opt_impl option \<Rightarrow> 'c opt_info option \<Rightarrow>
   (mpp_ret \<times> 'c opt_impl option \<times> bool \<times> heap) option" where
  "mpp_opt_add hp opt info =
     (case opt of
        None \<Rightarrow> Some (MPP_NOK, None, False, hp)
      | Some impl \<Rightarrow>
          (if op_trie impl = None then Some (MPP_NOK, opt, False, hp)
           else case info of
             None \<Rightarrow>
               Some (MPP_OK, opt,
                     op_node_cnt impl \<noteq> mpp_trie_get_node_count (op_trie impl) \<or>
                     op_info_cnt impl \<noteq> mpp_trie_get_info_count (op_trie impl), hp)
           | Some i \<Rightarrow> do {
               (ret, trie, hp) \<leftarrow> mpp_trie_add_info hp (op_trie impl) (Some (oi_name i, i));
               Some (ret, Some (impl\<lparr>op_trie := trie\<rparr>), False, hp)
             }))"

text \<open>
  The loop of \<open>mpp_opt_parse\<close>. \<open>argv\<close> has \<open>argc + 1\<close> elements, the last one NULL. The result is
  the return code, the context and the names reported as invalid. A step that overflows
  \<open>opt_idx\<close> is \<^const>\<open>None\<close>, as is an index outside \<open>argv\<close>.
\<close>

definition is_option :: "string \<Rightarrow> bool" where
  "is_option opts = (case opts of a # _ # _ \<Rightarrow> a = CHR ''-'' | _ \<Rightarrow> False)"

definition run_proc :: "'c opt_info \<Rightarrow> 'c \<Rightarrow> string option \<Rightarrow> int \<times> 'c" where
  "run_proc info ctx next = (case oi_proc info of None \<Rightarrow> (0, ctx) | Some proc \<Rightarrow> proc ctx next)"

function parse_loop ::
  "'c opt_info trie \<Rightarrow> int \<Rightarrow> string option list \<Rightarrow> int \<Rightarrow> 'c \<Rightarrow> string list \<Rightarrow>
   (mpp_ret \<times> 'c \<times> string list) option" where
  "parse_loop trie argc argv opt_idx ctx errs =
     (if \<not> opt_idx \<le> argc then Some (MPP_OK, ctx, errs)
      else if opt_idx < 0 \<or> int (length argv) \<le> opt_idx then None
      else case argv ! nat opt_idx of
        None \<Rightarrow> Some (MPP_OK, ctx, errs)
      | Some opts \<Rightarrow>
          if \<not> is_option opts then parse_loop trie argc argv (opt_idx + 1) ctx errs
          else (case mpp_trie_get_info (Some trie) (Some (tl opts)) of
              None \<Rightarrow> None
            | Some None \<Rightarrow> parse_loop trie argc argv (opt_idx + 1) ctx (errs @ [tl opts])
            | Some (Some info) \<Rightarrow>
                let next = (if opt_idx + 1 \<ge> argc then None else argv ! nat (opt_idx + 1));
                    (step, ctx) = run_proc info ctx next
                in if step < 0 then Some (Ret_int step, ctx, errs)
                   else if 2 ^ 31 \<le> opt_idx + 1 + step then None
                   else parse_loop trie argc argv (opt_idx + 1 + step) ctx errs))"
  by pat_completeness auto

termination
  by (relation "measure (\<lambda>(trie, argc, argv, opt_idx, ctx, errs). nat (argc + 1 - opt_idx))") auto

declare parse_loop.simps [simp del]

definition mpp_opt_parse ::
  "'c opt_impl option \<Rightarrow> int \<Rightarrow> string option list option \<Rightarrow>
   (mpp_ret \<times> 'c opt_impl option \<times> string list) option" where
  "mpp_opt_parse opt argc argv =
     (case (opt, argv) of
        (Some impl, Some argv') \<Rightarrow>
          (case (op_trie impl, op_ctx impl) of
             (Some trie, Some ctx) \<Rightarrow>
               if argc < 2 then Some (MPP_NOK, opt, [])
               else do {
                 (ret, ctx, errs) \<leftarrow> parse_loop trie argc argv' 0 ctx [];
                 Some (ret, Some (impl\<lparr>op_ctx := Some ctx\<rparr>), errs)
               }
           | _ \<Rightarrow> Some (MPP_NOK, opt, []))
      | _ \<Rightarrow> Some (MPP_NOK, opt, []))"

section \<open>Reference\<close>

text \<open>
  Parsing as a function on the list of arguments: an argument that is not an option is
  skipped, an unknown option is reported, a known one runs its handler on the argument that
  follows and takes as many more as the handler says.
\<close>

function run_args ::
  "(string \<Rightarrow> 'c opt_info option) \<Rightarrow> string list \<Rightarrow> 'c \<Rightarrow> string list \<Rightarrow> mpp_ret \<times> 'c \<times> string list" where
  "run_args table [] ctx errs = (MPP_OK, ctx, errs)"
| "run_args table (arg # args) ctx errs =
     (if \<not> is_option arg then run_args table args ctx errs
      else case table (tl arg) of
        None \<Rightarrow> run_args table args ctx (errs @ [tl arg])
      | Some info \<Rightarrow>
          let (step, ctx) = run_proc info ctx (case args of [] \<Rightarrow> None | next # _ \<Rightarrow> Some next)
          in if step < 0 then (Ret_int step, ctx, errs)
             else run_args table (drop (nat step) args) ctx errs)"
  by pat_completeness auto

termination
  by (relation "measure (\<lambda>(table, args, ctx, errs). length args)") auto

text \<open>The steps of a table's handlers are small enough for the index not to overflow.\<close>

definition steps_small :: "(string \<Rightarrow> 'c opt_info option) \<Rightarrow> bool" where
  "steps_small table \<longleftrightarrow>
     (\<forall>s info ctx next. table s = Some info \<longrightarrow> fst (run_proc info ctx next) < 2 ^ 30)"

lemma steps_smallD: "steps_small table \<Longrightarrow> table s = Some info \<Longrightarrow> run_proc info ctx next = (step, c) \<Longrightarrow>
    step < 2 ^ 30"
  unfolding steps_small_def by (metis fst_conv)

lemma parse_loop_past:
  "int (length args) \<le> i \<Longrightarrow> parse_loop trie (int (length args)) (map Some args @ [None]) i ctx errs =
    Some (MPP_OK, ctx, errs)"
  by (cases "i = int (length args)") (simp_all add: parse_loop.simps nth_append)

lemma parse_loop_run:
  assumes inv: "trie_inv trie" and small: "steps_small (trie_look trie)" and len: "int (length args) \<le> 2 ^ 30"
  shows "i \<le> length args \<Longrightarrow>
    parse_loop trie (int (length args)) (map Some args @ [None]) (int i) ctx errs =
    Some (run_args (trie_look trie) (drop i args) ctx errs)"
proof (induction "length args - i" arbitrary: i ctx errs rule: less_induct)
  case less
  show ?case
  proof (cases "i = length args")
    case True
    then show ?thesis by (simp add: parse_loop_past)
  next
    case False
    with less.prems have i: "i < length args" by simp
    let ?a = "args ! i"
    let ?argv = "map Some args @ [None]"
    have d: "drop i args = ?a # drop (Suc i) args" using i by (simp add: Cons_nth_drop_Suc)
    have at: "?argv ! nat (int i) = Some ?a" using i by (simp add: nth_append)
    have nxt: "(if int i + 1 \<ge> int (length args) then None else ?argv ! nat (int i + 1)) =
        (case drop (Suc i) args of [] \<Rightarrow> None | next # _ \<Rightarrow> Some next)"
    proof (cases "Suc i < length args")
      case True
      moreover have "nat (int i + 1) = Suc i" by simp
      ultimately show ?thesis using Cons_nth_drop_Suc [OF True, symmetric] by (simp add: nth_append)
    qed simp
    have look: "mpp_trie_get_info (Some trie) (Some s) = Some (trie_look trie s)" for s
      by (simp add: trie_look_def get_info_view [OF inv])
    have IH: "parse_loop trie (int (length args)) ?argv (int i + 1) ctx errs =
        Some (run_args (trie_look trie) (drop (Suc i) args) ctx errs)" for ctx errs
      using less.hyps [of "Suc i" ctx errs] i by (simp add: add.commute)
    note unf = parse_loop.simps [of trie "int (length args)" ?argv "int i" ctx errs] at d nxt look
    show ?thesis
    proof (cases "is_option ?a")
      case False
      then show ?thesis using i IH by (simp add: unf del: nat_int)
    next
      case opt: True
      show ?thesis
      proof (cases "trie_look trie (tl ?a)")
        case None
        then show ?thesis using i opt IH by (simp add: unf del: nat_int)
      next
        case (Some info)
        obtain step c where rp: "run_proc info ctx
            (case drop (Suc i) args of [] \<Rightarrow> None | next # _ \<Rightarrow> Some next) = (step, c)" by fastforce
        have st: "step < 2 ^ 30" by (rule steps_smallD [OF small Some rp])
        have "parse_loop trie (int (length args)) ?argv (int i + 1 + step) c errs =
            Some (run_args (trie_look trie) (drop (nat step) (drop (Suc i) args)) c errs)" if "\<not> step < 0"
        proof (cases "i + 1 + nat step \<le> length args")
          case True
          have eq: "int i + 1 + step = int (i + 1 + nat step)" using that by simp
          show ?thesis unfolding eq using less.hyps [of "i + 1 + nat step" c errs] i True
            by (simp add: drop_drop add.commute)
        next
          case False
          then have "int (length args) \<le> int i + 1 + step" using that by simp
          moreover have "length (drop (Suc i) args) \<le> nat step" using False by simp
          ultimately show ?thesis by (simp only: parse_loop_past drop_all run_args.simps)
        qed
        moreover have "\<not> 2 ^ 31 \<le> int i + 1 + step" using st i len by simp
        ultimately show ?thesis
          using i opt Some rp by (simp add: unf Let_def del: nat_int drop_drop)
      qed
    qed
  qed
qed
section \<open>From a table to a parser\<close>

text \<open>Adding the options of a table one by one, as the encoder's argument code does.\<close>

fun opt_add_all :: "heap \<Rightarrow> 'c opt_impl option \<Rightarrow> 'c opt_info list \<Rightarrow> ('c opt_impl option \<times> heap) option" where
  "opt_add_all hp opt [] = Some (opt, hp)"
| "opt_add_all hp opt (i # is) = do {
     (_, opt, _, hp) \<leftarrow> mpp_opt_add hp opt (Some i);
     opt_add_all hp opt is
   }"

definition options_of :: "'c opt_info list \<Rightarrow> string \<Rightarrow> 'c opt_info option" where
  "options_of infos = map_of (rev (map (\<lambda>i. (oi_name i, i)) infos))"

definition table_ok :: "'c opt_info list \<Rightarrow> bool" where
  "table_ok infos \<longleftrightarrow> (\<forall>i \<in> set infos. legal_name (oi_name i)) \<and>
     1 + sum_list (map (\<lambda>i. name_cost (oi_name i)) infos) \<le> trie_cap"

lemma opt_add_all_spec:
  assumes "op_trie impl = Some t" "trie_inv t" "\<forall>i \<in> set infos. legal_name (oi_name i)"
    "used t + sum_list (map (\<lambda>i. name_cost (oi_name i)) infos) \<le> trie_cap"
  shows "opt_add_all [] (Some impl) infos =
    Some (Some (impl\<lparr>op_trie := Some (foldl (\<lambda>t (s, r). trie_add t s r) t (map (\<lambda>i. (oi_name i, i)) infos))\<rparr>), [])"
  using assms
proof (induction infos arbitrary: impl t)
  case (Cons i infos)
  have p: "legal_name (oi_name i)" "used t + name_cost (oi_name i) \<le> trie_cap" using Cons.prems(3,4) by auto
  note A = trie_add_ok [OF Cons.prems(2) p, of i]
  have "used (trie_add t (oi_name i) i) + sum_list (map (\<lambda>i. name_cost (oi_name i)) infos) \<le> trie_cap"
    using A Cons.prems(4) by auto
  from Cons.IH [OF _ _ _ this, of "impl\<lparr>op_trie := Some (trie_add t (oi_name i) i)\<rparr>"] A Cons.prems(1,3)
  show ?case by (simp add: mpp_opt_add_def)
qed simp

text \<open>The return code, the context and the reports of a parse.\<close>

definition outcome ::
  "(mpp_ret \<times> 'c opt_impl option \<times> string list) option \<Rightarrow> (mpp_ret \<times> 'c \<times> string list) option" where
  "outcome res = map_option (\<lambda>(r, impl, errs). (r, the (op_ctx (the impl)), errs)) res"

text \<open>
  A parser that was set up with a table parses like the reference on that table.
\<close>

lemma parse_table:
  assumes "table_ok infos" "steps_small (options_of infos)" "2 \<le> length args" "length args \<le> 2 ^ 30"
    "0 < node_cnt" "0 < opt_cnt"
    "mpp_opt_setup [] (Some impl) ctx node_cnt opt_cnt = (ret, opt, hp)"
  obtains impl' where "ret = MPP_OK" "opt_add_all hp opt infos = Some (Some impl', [])"
    "op_ctx impl' = Some ctx" "op_trie impl' \<noteq> None"
    "outcome
       (mpp_opt_parse (Some impl') (int (length args)) (Some (map Some args @ [None]))) =
     Some (run_args (options_of infos) args ctx [])"
proof -
  obtain t :: "'a opt_info trie" where t: "mpp_trie_init [] node_cnt opt_cnt = (MPP_OK, Some t, [])"
    "trie_inv t" "used t = 1" "trie_look t = Map.empty" by (rule trie_init_ok [OF assms(5,6)])
  let ?i = "impl\<lparr>op_trie := Some t, op_ctx := Some ctx, op_node_cnt := node_cnt, op_info_cnt := opt_cnt\<rparr>"
  have s: "ret = MPP_OK" "opt = Some ?i" "hp = []" using assms(7) t(1) by (auto simp: mpp_opt_setup_def)
  let ?t = "foldl (\<lambda>t (s, r). trie_add t s r) t (map (\<lambda>i. (oi_name i, i)) infos)"
  have c: "\<forall>i \<in> set infos. legal_name (oi_name i)"
    "used t + sum_list (map (\<lambda>i. name_cost (oi_name i)) infos) \<le> trie_cap"
    using assms(1) t(3) by (auto simp: table_ok_def)
  have "opt_add_all [] (Some ?i) infos = Some (Some (?i\<lparr>op_trie := Some ?t\<rparr>), [])"
    by (rule opt_add_all_spec [OF _ t(2) c]) simp
  moreover have look: "trie_inv ?t \<and> trie_look ?t = options_of infos"
    using tri.adds [OF t(2), of "map (\<lambda>i. (oi_name i, i)) infos"] c t(4)
    by (auto simp: options_of_def comp_def)
  have "parse_loop ?t (int (length args)) (map Some args @ [None]) (int 0) ctx [] =
      Some (run_args (trie_look ?t) (drop 0 args) ctx [])"
    by (rule parse_loop_run) (use look assms(2,4) in auto)
  then have "mpp_opt_parse (Some (?i\<lparr>op_trie := Some ?t\<rparr>)) (int (length args)) (Some (map Some args @ [None])) =
      (case run_args (options_of infos) args ctx [] of (r, c, errs) \<Rightarrow>
         Some (r, Some (?i\<lparr>op_trie := Some ?t, op_ctx := Some c\<rparr>), errs))"
    using look assms(3) by (simp add: mpp_opt_parse_def split: prod.splits)
  ultimately show thesis using that s by (simp add: outcome_def split: prod.splits)
qed

section \<open>Properties\<close>

text \<open>
  C25: a parser set up, without an allocation that fails, with a table of options (names of 1 to 1024 characters,
  fewer than 32768 nodes in all, handlers that take less than 2^30 arguments) parses every command line
  with at least one argument behind the program's name (and at most 2^30 in all; without one the code
  returns \<open>MPP_NOK\<close> at once): the index loop over \<open>argv\<close> ends, never leaves
  \<open>argv\<close>, and its return code, context and reports are those of the reference parser that
  looks names up in the table, the last entry of a name counting.
\<close>

theorem mpp_opt_parse_table:
  assumes "table_ok infos" "steps_small (options_of infos)" "2 \<le> length args" "length args \<le> 2 ^ 30"
    "0 < node_cnt" "0 < opt_cnt"
    "mpp_opt_setup [] (Some impl) ctx node_cnt opt_cnt = (ret, opt, hp)"
  shows "ret = MPP_OK \<and> (\<exists>opt'. opt_add_all hp opt infos = Some (opt', []) \<and>
    outcome
       (mpp_opt_parse opt' (int (length args)) (Some (map Some args @ [None]))) =
     Some (run_args (options_of infos) args ctx []))"
  by (rule parse_table [OF assms]) blast

text \<open>A table with one option \<open>-n\<close> whose handler counts and takes one argument.\<close>

definition count_proc :: "nat \<Rightarrow> string option \<Rightarrow> int \<times> nat" where
  "count_proc ctx next = (case next of None \<Rightarrow> (0, ctx) | Some _ \<Rightarrow> (1, Suc ctx))"

definition count_table :: "nat opt_info list" where
  "count_table = [\<lparr>oi_name = ''n'', oi_full_name = ''number'', oi_help = '''', oi_proc = Some count_proc\<rparr>]"

theorem mpp_opt_parse_table_witness:
  "\<exists>opt'. outcome
       (mpp_opt_parse opt' 5 (Some [Some ''prog'', Some ''-n'', Some ''3'', Some ''-x'', Some ''-n'', None])) =
     Some (MPP_OK, 1 :: nat, [''x''])"
proof -
  let ?impl = "\<lparr>op_ctx = None, op_trie = None, op_node_cnt = 0, op_info_cnt = 0\<rparr> :: nat opt_impl"
  obtain ret opt hp where s: "mpp_opt_setup [] (Some ?impl) (0::nat) 10 5 = (ret, opt, hp)" by (rule prod_cases3)
  have t: "table_ok count_table"
    by (simp add: table_ok_def count_table_def legal_name_def name_cost_def trie_cap_def SZ_1K_def)
  have "steps_small (options_of count_table)"
    by (auto simp: steps_small_def options_of_def count_table_def run_proc_def count_proc_def
        split: if_splits option.splits)
  from mpp_opt_parse_table [OF t this _ _ _ _ s, of "[''prog'', ''-n'', ''3'', ''-x'', ''-n'']"]
  obtain opt' where "outcome
       (mpp_opt_parse opt' 5 (Some [Some ''prog'', Some ''-n'', Some ''3'', Some ''-x'', Some ''-n'', None])) =
     Some (run_args (options_of count_table) [''prog'', ''-n'', ''3'', ''-x'', ''-n''] 0 [])" by auto
  moreover have "run_args (options_of count_table) [''prog'', ''-n'', ''3'', ''-x'', ''-n''] 0 [] =
      (MPP_OK, 1, [''x''])" by code_simp
  ultimately show ?thesis by metis
qed

end
