(* ===== verification/C_Library.thy ===== *)
theory C_Library
  imports Mpp_Prelude
begin

text \<open>
  The functions of the C standard library that the modelled code calls, on strings: character
  classes, \<open>strtol\<close>, \<open>atoi\<close>, \<open>strstr\<close>, the conversions of \<open>sscanf\<close> and \<open>fprintf\<close> that occur in
  the sources. They follow the C standard and, where it leaves the choice, glibc.
\<close>

section \<open>Characters and strings\<close>

definition is_space :: "char \<Rightarrow> bool" where
  "is_space c \<longleftrightarrow> c = CHR '' '' \<or> c = CHR 0x09 \<or> c = CHR 0x0A \<or> c = CHR 0x0B
     \<or> c = CHR 0x0C \<or> c = CHR 0x0D"

definition is_upper :: "char \<Rightarrow> bool" where
  "is_upper c \<longleftrightarrow> 65 \<le> (of_char c :: nat) \<and> (of_char c :: nat) \<le> 90"

definition to_lower :: "char \<Rightarrow> char" where
  "to_lower c = (if is_upper c then char_of (of_char c + 32 :: nat) else c)"

lemma of_char_to_lower:
  "(of_char (to_lower c) :: nat) = (if is_upper c then of_char c + 32 else of_char c)"
  by (simp add: to_lower_def is_upper_def)

lemma to_lower_idem [simp]: "to_lower (to_lower c) = to_lower c"
proof (cases "is_upper c")
  case True
  then have "(of_char (to_lower c) :: nat) = of_char c + 32"
    by (simp add: of_char_to_lower)
  with True have "\<not> is_upper (to_lower c)"
    by (simp add: is_upper_def)
  then show ?thesis by (simp add: to_lower_def)
qed (simp add: to_lower_def)

text \<open>\<open>strstr(hay, needle) != NULL\<close>.\<close>

fun strstr :: "string \<Rightarrow> string \<Rightarrow> bool" where
  "strstr [] needle = (needle = [])"
| "strstr (c # cs) needle = (take (length needle) (c # cs) = needle \<or> strstr cs needle)"

lemma strstr_iff: "strstr hay needle \<longleftrightarrow> (\<exists>xs ys. hay = xs @ needle @ ys)"
proof (induction hay needle rule: strstr.induct)
  case (2 c cs needle)
  show ?case
  proof
    assume "strstr (c # cs) needle"
    then consider "take (length needle) (c # cs) = needle" | "strstr cs needle" by auto
    then show "\<exists>xs ys. c # cs = xs @ needle @ ys"
    proof cases
      case 1
      then have "c # cs = [] @ needle @ drop (length needle) (c # cs)"
        by (metis append_Nil append_take_drop_id)
      then show ?thesis by blast
    next
      case 2
      with "2.IH" obtain xs ys where "cs = xs @ needle @ ys" by auto
      then show ?thesis by (metis append_Cons)
    qed
  next
    assume "\<exists>xs ys. c # cs = xs @ needle @ ys"
    then obtain xs ys where eq: "c # cs = xs @ needle @ ys" by blast
    show "strstr (c # cs) needle"
    proof (cases xs)
      case Nil
      with eq have "take (length needle) (c # cs) = needle" by simp
      then show ?thesis by simp
    next
      case (Cons x xs')
      with eq have "cs = xs' @ needle @ ys" by simp
      with "2.IH" show ?thesis by auto
    qed
  qed
qed simp

lemma strstr_single [simp]: "strstr s [c] \<longleftrightarrow> c \<in> set s"
  by (induction s) auto

text \<open>\<open>strncmp(s, p, n) == 0\<close> for a prefix \<open>p\<close> of \<open>n\<close> characters none of which is NUL.\<close>

definition has_prefix :: "string \<Rightarrow> string \<Rightarrow> bool" where
  "has_prefix p s \<longleftrightarrow> take (length p) s = p"

lemma has_prefix_append [simp]: "has_prefix p (p @ s)"
  by (simp add: has_prefix_def)

lemma has_prefix_iff: "has_prefix p s \<longleftrightarrow> (\<exists>r. s = p @ r)"
  unfolding has_prefix_def by (metis append_eq_conv_conj append_take_drop_id)

section \<open>Machine integers\<close>

definition s32_of_int :: "int \<Rightarrow> int" where
  "s32_of_int i = (i + 2 ^ 31) mod 2 ^ 32 - 2 ^ 31"

lemma s32_of_int_id: "- (2 ^ 31) \<le> i \<Longrightarrow> i < 2 ^ 31 \<Longrightarrow> s32_of_int i = i"
  by (simp add: s32_of_int_def)

lemma s32_of_int_range: "- (2 ^ 31) \<le> s32_of_int i \<and> s32_of_int i < 2 ^ 31"
proof -
  have "0 \<le> (i + 2 ^ 31) mod 2 ^ 32" "(i + 2 ^ 31) mod 2 ^ 32 < (2::int) ^ 32"
    by simp_all
  then show ?thesis unfolding s32_of_int_def by simp
qed

definition u32_of_nat :: "nat \<Rightarrow> nat" where
  "u32_of_nat n = n mod 2 ^ 32"

lemma u32_of_nat_id [simp]: "n < 2 ^ 32 \<Longrightarrow> u32_of_nat n = n"
  by (simp add: u32_of_nat_def)

section \<open>Numbers in strings\<close>

definition digit_val :: "char \<Rightarrow> nat option" where
  "digit_val c = (let n = of_char c :: nat in
     if 48 \<le> n \<and> n \<le> 57 then Some (n - 48)
     else if 97 \<le> n \<and> n \<le> 122 then Some (n - 87)
     else if 65 \<le> n \<and> n \<le> 90 then Some (n - 55)
     else None)"

definition is_digit :: "nat \<Rightarrow> char \<Rightarrow> bool" where
  "is_digit base c = (case digit_val c of None \<Rightarrow> False | Some v \<Rightarrow> v < base)"

text \<open>The value of a longest run of digits, and what follows it.\<close>

fun read_digits :: "nat \<Rightarrow> nat \<Rightarrow> string \<Rightarrow> nat \<times> string" where
  "read_digits base acc [] = (acc, [])"
| "read_digits base acc (c # cs) =
     (if is_digit base c then read_digits base (acc * base + the (digit_val c)) cs
      else (acc, c # cs))"

lemma read_digits_length: "length (snd (read_digits base acc s)) \<le> length s"
  by (induction s arbitrary: acc) (auto intro: le_SucI)

definition read_sign :: "string \<Rightarrow> bool \<times> string" where
  "read_sign s = (case s of
      c # cs \<Rightarrow> if c = CHR ''-'' then (True, cs) else if c = CHR ''+'' then (False, cs) else (False, s)
    | [] \<Rightarrow> (False, []))"

text \<open>The prefix \<open>0x\<close> counts only when a hexadecimal digit follows it.\<close>

definition hex_prefix :: "string \<Rightarrow> bool" where
  "hex_prefix s = (case s of
      a # b # c # _ \<Rightarrow> a = CHR ''0'' \<and> (b = CHR ''x'' \<or> b = CHR ''X'') \<and> is_digit 16 c
    | _ \<Rightarrow> False)"

text \<open>The base that \<open>strtol\<close> uses, and the subject after a prefix.\<close>

definition pick_base :: "nat \<Rightarrow> string \<Rightarrow> nat \<times> string" where
  "pick_base base s =
     (if (base = 0 \<or> base = 16) \<and> hex_prefix s then (16, drop 2 s)
      else if base = 0 then ((if s \<noteq> [] \<and> hd s = CHR ''0'' then 8 else 10), s)
      else (base, s))"

definition LONG_MAX :: int where "LONG_MAX = 2 ^ 63 - 1"
definition LONG_MIN :: int where "LONG_MIN = - (2 ^ 63)"
definition UINT_MAX :: int where "UINT_MAX = 2 ^ 32 - 1"

text \<open>
  The integer a string starts with: its exact value and the rest, \<^const>\<open>None\<close> when there
  is no digit after the white space and the sign.
\<close>

definition parse_int :: "nat \<Rightarrow> string \<Rightarrow> (int \<times> string) option" where
  "parse_int base s =
     (let (neg, s1) = read_sign (dropWhile is_space s);
          (b, s2) = pick_base base s1
      in if s2 = [] \<or> \<not> is_digit b (hd s2) then None
         else let (v, rest) = read_digits b 0 s2
              in Some (if neg then - int v else int v, rest))"

text \<open>
  \<open>strtol(s, &end, base)\<close>: the value saturated to \<open>long\<close>, the string at \<open>end\<close> (the whole
  string when there is no conversion), and whether \<open>errno\<close> is \<open>ERANGE\<close>.
\<close>

definition strtol :: "nat \<Rightarrow> string \<Rightarrow> int \<times> string \<times> bool" where
  "strtol base s = (case parse_int base s of
      None \<Rightarrow> (0, s, False)
    | Some (v, rest) \<Rightarrow>
        if LONG_MAX < v then (LONG_MAX, rest, True)
        else if v < LONG_MIN then (LONG_MIN, rest, True)
        else (v, rest, False))"

definition atoi :: "string \<Rightarrow> int" where
  "atoi s = s32_of_int (fst (strtol 10 s))"

lemma strtol_range: "LONG_MIN \<le> fst (strtol base s) \<and> fst (strtol base s) \<le> LONG_MAX"
  by (auto simp: strtol_def LONG_MIN_def LONG_MAX_def split: option.splits)

lemma atoi_range: "- (2 ^ 31) \<le> atoi s \<and> atoi s < 2 ^ 31"
  unfolding atoi_def by (rule s32_of_int_range)

section \<open>The conversions of sscanf\<close>

text \<open>
  \<open>Ws\<close> is white space in the format, \<open>Lit\<close> an ordinary character, \<open>Set\<close> a scan set \<open>%[..]\<close>
  (with \<open>False\<close> for a suppressed \<open>%*[..]\<close>), \<open>Num\<close> an integer conversion with its base, whether
  it is signed, and its field width.
\<close>

datatype directive = Ws | Lit char | Set "char \<Rightarrow> bool" bool | Num nat bool "nat option"

datatype conv_val = CStr string | CInt int

definition scan_fail :: "conv_val list \<Rightarrow> int" where
  "scan_fail vs = int (length vs)"

definition scan_eof :: "conv_val list \<Rightarrow> int" where
  "scan_eof vs = (if vs = [] then -1 else int (length vs))"

definition scan_num :: "nat \<Rightarrow> bool \<Rightarrow> nat option \<Rightarrow> string \<Rightarrow> (int \<times> string) option" where
  "scan_num base sgnd width s =
     (let (item, rest0) = (case width of None \<Rightarrow> (s, []) | Some w \<Rightarrow> (take w s, drop w s))
      in case parse_int base item of
           None \<Rightarrow> None
         | Some (v, rest) \<Rightarrow>
             Some (if sgnd then max LONG_MIN (min LONG_MAX v)
                   else if \<bar>v\<bar> < 2 ^ 64 then v mod 2 ^ 64 else 2 ^ 64 - 1,
                   rest @ rest0))"

text \<open>
  \<open>scan ds s vs\<close>: run the directives on \<open>s\<close> after the conversions \<open>vs\<close>. The result is the
  return value (-1 for \<open>EOF\<close>), the values stored through the pointers so far, in order, and
  the input left.
\<close>

fun scan :: "directive list \<Rightarrow> string \<Rightarrow> conv_val list \<Rightarrow> int \<times> conv_val list \<times> string" where
  "scan [] s vs = (int (length vs), vs, s)"
| "scan (Ws # ds) s vs = scan ds (dropWhile is_space s) vs"
| "scan (Lit c # ds) s vs =
     (case s of
        [] \<Rightarrow> (scan_eof vs, vs, [])
      | x # s' \<Rightarrow> if x = c then scan ds s' vs else (scan_fail vs, vs, s))"
| "scan (Set P asg # ds) s vs =
     (if s = [] then (scan_eof vs, vs, [])
      else if takeWhile P s = [] then (scan_fail vs, vs, s)
      else scan ds (dropWhile P s) (if asg then vs @ [CStr (takeWhile P s)] else vs))"
| "scan (Num base sgnd width # ds) s vs =
     (let s' = dropWhile is_space s
      in if s' = [] then (scan_eof vs, vs, [])
         else case scan_num base sgnd width s' of
                None \<Rightarrow> (scan_fail vs, vs, s')
              | Some (v, rest) \<Rightarrow> scan ds rest (vs @ [CInt v]))"

definition sscanf :: "directive list \<Rightarrow> string \<Rightarrow> int \<times> conv_val list" where
  "sscanf ds s = (let (r, vs, _) = scan ds s [] in (r, vs))"

text \<open>A stored string is a piece of the input; pieces of one call are disjoint.\<close>

fun val_len :: "conv_val \<Rightarrow> nat" where
  "val_len (CStr s) = length s"
| "val_len (CInt _) = 0"

definition vals_len :: "conv_val list \<Rightarrow> nat" where
  "vals_len vs = sum_list (map val_len vs)"

lemma vals_len_simps [simp]:
  "vals_len [] = 0" "vals_len (vs @ ws) = vals_len vs + vals_len ws" "vals_len [v] = val_len v"
  by (simp_all add: vals_len_def)

lemma read_sign_length: "length (snd (read_sign s)) \<le> length s"
  by (auto simp: read_sign_def split: list.splits)

lemma parse_int_length:
  assumes "parse_int base s = Some (v, rest)"
  shows "length rest \<le> length s"
proof -
  obtain neg s1 where r: "read_sign (dropWhile is_space s) = (neg, s1)" by fastforce
  obtain b s2 where p: "pick_base base s1 = (b, s2)" by fastforce
  have "length s1 \<le> length (dropWhile is_space s)"
    using r read_sign_length [of "dropWhile is_space s"] by simp
  moreover have "length (dropWhile is_space s) \<le> length s"
    by (rule length_dropWhile_le)
  moreover have "length s2 \<le> length s1"
    using p by (auto simp: pick_base_def split: if_splits)
  moreover have "length rest \<le> length s2"
    using assms r p read_digits_length [of b 0 s2]
    by (auto simp: parse_int_def Let_def split: if_splits prod.splits)
  ultimately show ?thesis by linarith
qed

lemma scan_num_length:
  assumes "scan_num base sgnd width s = Some (v, rest)"
  shows "length rest \<le> length s"
proof (cases width)
  case None
  with assms show ?thesis
    by (auto simp: scan_num_def Let_def split: option.splits prod.splits dest: parse_int_length)
next
  case (Some w)
  with assms obtain v' r where "parse_int base (take w s) = Some (v', r)" "rest = r @ drop w s"
    by (auto simp: scan_num_def Let_def split: option.splits prod.splits)
  then show ?thesis using parse_int_length by fastforce
qed

lemma length_take_drop_While: "length (takeWhile P s) + length (dropWhile P s) = length s"
  by (metis length_append takeWhile_dropWhile_id)

lemma scan_vals_len:
  "scan ds s vs = (r, vs', rest) \<Longrightarrow> vals_len vs' + length rest \<le> vals_len vs + length s"
proof (induction ds s vs rule: scan.induct)
  case (2 ds s vs)
  then show ?case using length_dropWhile_le [of is_space s] by fastforce
next
  case (4 P asg ds s vs)
  have "length (takeWhile P s) + length (dropWhile P s) = length s"
    by (rule length_take_drop_While)
  with 4 show ?case by (auto split: if_splits)
next
  case (5 base sgnd width ds s vs)
  have "length (dropWhile is_space s) \<le> length s" by (rule length_dropWhile_le)
  with 5 show ?case
    by (fastforce simp: Let_def split: if_splits option.splits prod.splits dest: scan_num_length)
qed (auto split: list.splits if_splits)

lemma scan_count: "scan ds s vs = (r, vs', rest) \<Longrightarrow> 0 \<le> r \<Longrightarrow> r = int (length vs')"
  by (induction ds s vs rule: scan.induct)
    (auto simp: Let_def scan_eof_def scan_fail_def split: list.splits if_splits option.splits prod.splits)

lemma sscanf_vals_len: "sscanf ds s = (r, vs) \<Longrightarrow> vals_len vs \<le> length s"
  by (auto simp: sscanf_def Let_def split: prod.splits dest!: scan_vals_len)

lemma sscanf_count: "sscanf ds s = (r, vs) \<Longrightarrow> 0 \<le> r \<Longrightarrow> r = int (length vs)"
  by (auto simp: sscanf_def split: prod.splits dest: scan_count)

section \<open>The conversions of fprintf\<close>

definition pad_left :: "char \<Rightarrow> nat \<Rightarrow> string \<Rightarrow> string" where
  "pad_left c w s = replicate (w - length s) c @ s"

definition pad_right :: "nat \<Rightarrow> string \<Rightarrow> string" where
  "pad_right w s = s @ replicate (w - length s) (CHR '' '')"

definition digit_char :: "nat \<Rightarrow> char" where
  "digit_char d = char_of (if d < 10 then d + 48 else d + 87)"

fun show_nat :: "nat \<Rightarrow> nat \<Rightarrow> string" where
  "show_nat base n =
     (if base < 2 \<or> n < base then [digit_char n]
      else show_nat base (n div base) @ [digit_char (n mod base)])"

declare show_nat.simps [simp del]

text \<open>\<open>%d\<close> of a 32-bit value, \<open>%08d\<close>, \<open>%lx\<close> and \<open>%08x\<close>.\<close>

definition show_d :: "int \<Rightarrow> string" where
  "show_d i = (if i < 0 then CHR ''-'' # show_nat 10 (nat (- i)) else show_nat 10 (nat i))"

definition show_08d :: "int \<Rightarrow> string" where
  "show_08d i = (if i < 0 then CHR ''-'' # pad_left (CHR ''0'') 7 (show_nat 10 (nat (- i)))
                 else pad_left (CHR ''0'') 8 (show_nat 10 (nat i)))"

definition show_x :: "nat \<Rightarrow> string" where
  "show_x n = show_nat 16 n"

definition show_08x :: "nat \<Rightarrow> string" where
  "show_08x n = pad_left (CHR ''0'') 8 (show_nat 16 n)"

section \<open>Numbers that were written and are read again\<close>

lemma digit_char_val:
  assumes "d < b" "b \<le> 16"
  shows "digit_val (digit_char d) = Some d" "is_digit b (digit_char d)"
proof -
  have "of_char (digit_char d) = (if d < 10 then d + 48 else d + 87)"
    using assms by (simp add: digit_char_def)
  then show "digit_val (digit_char d) = Some d" using assms by (auto simp: digit_val_def Let_def)
  then show "is_digit b (digit_char d)" using assms by (simp add: is_digit_def)
qed

definition digits_value :: "nat \<Rightarrow> nat \<Rightarrow> string \<Rightarrow> nat" where
  "digits_value b acc s = foldl (\<lambda>a c. a * b + the (digit_val c)) acc s"

lemma read_digits_prefix:
  "\<forall>c \<in> set s. is_digit b c \<Longrightarrow> read_digits b acc (s @ t) = read_digits b (digits_value b acc s) t"
  by (induction s arbitrary: acc) (auto simp: digits_value_def)

lemma show_nat_digits:
  assumes "2 \<le> b" "b \<le> 16"
  shows "(\<forall>c \<in> set (show_nat b n). is_digit b c) \<and> digits_value b 0 (show_nat b n) = n \<and> show_nat b n \<noteq> []"
  using assms
proof (induction b n rule: show_nat.induct)
  case (1 b n)
  show ?case
  proof (cases "n < b")
    case True
    then show ?thesis using digit_char_val [OF True "1.prems"(2)]
      by (simp add: digits_value_def show_nat.simps [of b n])
  next
    case False
    with 1 have IH: "\<forall>c \<in> set (show_nat b (n div b)). is_digit b c"
      "digits_value b 0 (show_nat b (n div b)) = n div b" by auto
    have m: "n mod b < b" using "1.prems" by simp
    have "show_nat b n = show_nat b (n div b) @ [digit_char (n mod b)]"
      using False "1.prems" by (simp add: show_nat.simps [of b n])
    with IH digit_char_val [OF m "1.prems"(2)] show ?thesis by (auto simp: digits_value_def)
  qed
qed

lemma show_nat_length: "1 \<le> k \<Longrightarrow> n < 10 ^ k \<Longrightarrow> length (show_nat 10 n) \<le> k"
proof (induction k arbitrary: n)
  case (Suc k)
  show ?case
  proof (cases "n < 10")
    case False
    then have "1 \<le> k" using Suc.prems by (cases k) auto
    moreover have "n div 10 < 10 ^ k" using Suc.prems(2) by (simp add: less_mult_imp_div_less mult.commute)
    ultimately show ?thesis using Suc.IH False by (simp add: show_nat.simps [of 10 n])
  qed (simp add: show_nat.simps [of 10 n])
qed simp

lemma zeros_value: "digits_value b 0 (replicate k (CHR ''0'') @ s) = digits_value b 0 s"
  by (induction k) (auto simp: digits_value_def digit_val_def)

text \<open>Eight decimal digits.\<close>

lemma show_08d_digits:
  assumes "n < 10 ^ 8"
  defines "s \<equiv> show_08d (s32_of_int (int n))"
  shows "length s = 8" "\<forall>c \<in> set s. is_digit 10 c" "digits_value 10 0 s = n" "s \<noteq> []"
proof -
  have id: "s32_of_int (int n) = int n" by (rule s32_of_int_id) (use assms(1) in auto)
  have s: "s = replicate (8 - length (show_nat 10 n)) (CHR ''0'') @ show_nat 10 n"
    by (simp add: s_def id show_08d_def pad_left_def)
  have l: "length (show_nat 10 n) \<le> 8" by (rule show_nat_length) (use assms(1) in auto)
  note D = show_nat_digits [of 10 n, simplified]
  show "length s = 8" using s l by simp
  show "\<forall>c \<in> set s. is_digit 10 c" using D unfolding s by (auto simp: is_digit_def digit_val_def)
  show "digits_value 10 0 s = n" using D unfolding s zeros_value by simp
  show "s \<noteq> []" using s D by simp
qed

lemma digit_not_blank: "is_digit b c \<Longrightarrow> \<not> is_space c \<and> c \<noteq> CHR ''-'' \<and> c \<noteq> CHR ''+''"
  by (auto simp: is_digit_def digit_val_def is_space_def)

lemma parse_int_digits:
  assumes "\<forall>c \<in> set s. is_digit 10 c" "s \<noteq> []"
  shows "parse_int 10 s = Some (int (digits_value 10 0 s), [])"
proof -
  obtain c cs where s: "s = c # cs" "is_digit 10 c" using assms by (cases s) auto
  have sp: "dropWhile is_space s = s" and sg: "read_sign s = (False, s)"
    using digit_not_blank [OF s(2)] by (simp_all add: s(1) read_sign_def)
  have "read_digits 10 0 s = (digits_value 10 0 s, [])"
    using read_digits_prefix [OF assms(1), of 0 "[]"] by simp
  moreover have "is_digit 10 (hd s)" using s by simp
  ultimately show ?thesis
    using assms(2) by (simp add: parse_int_def sp sg pick_base_def)
qed

end
