(* ===== verification/Dictionary.thy ===== *)
theory Dictionary
  imports C_Library
begin

text \<open>
  The string dictionary (\<open>mpp_utils/dictionary.c\<close>, \<open>dictionary.h\<close>): a growing table of
  key/value slots searched linearly by hash and key. The state is the record
  \<open>dictionary\<close>; an unused slot has the key \<^const>\<open>None\<close>. Every heap allocation asks the oracle of
  \<open>Mpp_Prelude\<close>. The abstract view is the map \<open>dict_map\<close>, and \<open>dict_inv\<close> is the
  representation invariant; the locale \<open>string_store\<close> states what clients of a store rely
  on and is interpreted on the dictionary at the end.
\<close>

section \<open>State\<close>

text \<open>\<open>struct _dictionary_\<close>: \<open>n\<close>, \<open>size\<close> and the three arrays of \<open>size\<close> elements.\<close>

record dictionary =
  d_n :: int
  d_size :: nat
  d_val :: "string option list"
  d_key :: "string option list"
  d_hash :: "u32 list"

definition DICTMINSZ :: nat where "DICTMINSZ = 128"

text \<open>
  The pointers that a lookup returns: NULL, the sentinel \<open>(char *) -1\<close> that callers
  pass as default, or a string.
\<close>

datatype str_ptr = NullPtr | InvalidKey | Str string

definition ptr_of :: "string option \<Rightarrow> str_ptr" where
  "ptr_of v = (case v of None \<Rightarrow> NullPtr | Some s \<Rightarrow> Str s)"

section \<open>Operations\<close>

definition xstrdup :: "heap \<Rightarrow> string option \<Rightarrow> string option \<times> heap" where
  "xstrdup hp s =
     (case s of
        None \<Rightarrow> (None, hp)
      | Some s' \<Rightarrow> (let (ok, hp) = heap_alloc hp in (if ok then Some s' else None, hp)))"

definition dictionary_grow :: "heap \<Rightarrow> dictionary \<Rightarrow> int \<times> dictionary \<times> heap" where
  "dictionary_grow hp d =
     (let (ok_val, hp) = heap_alloc hp;
          (ok_key, hp) = heap_alloc hp;
          (ok_hash, hp) = heap_alloc hp
      in if \<not> ok_val \<or> \<not> ok_key \<or> \<not> ok_hash then (-1, d, hp)
         else (0, d\<lparr>d_size := d_size d * 2,
                    d_val := d_val d @ replicate (d_size d) None,
                    d_key := d_key d @ replicate (d_size d) None,
                    d_hash := d_hash d @ replicate (d_size d) 0\<rparr>, hp))"

text \<open>
  The hash adds \<open>(unsigned)key[i]\<close>. The program is built for ARM, where a plain \<open>char\<close> is unsigned: a character
  is extended with zeros. Nothing else depends on the hash than that equal keys have equal hashes.
\<close>

fun hash_loop :: "u32 \<Rightarrow> string \<Rightarrow> u32" where
  "hash_loop h [] = h"
| "hash_loop h (c # cs) =
     (let h = h + of_char c;
          h = h + push_bit 10 h;
          h = h XOR drop_bit 6 h
      in hash_loop h cs)"

definition dictionary_hash :: "string option \<Rightarrow> u32" where
  "dictionary_hash key =
     (case key of
        None \<Rightarrow> 0
      | Some key' \<Rightarrow>
          let h = hash_loop 0 key';
              h = h + push_bit 3 h;
              h = h XOR drop_bit 11 h
          in h + push_bit 15 h)"

definition dictionary_new :: "heap \<Rightarrow> nat \<Rightarrow> dictionary option \<times> heap" where
  "dictionary_new hp sz =
     (let sz = (if sz < DICTMINSZ then DICTMINSZ else sz);
          (ok, hp) = heap_alloc hp
      in if \<not> ok then (None, hp)
         else let (ok_val, hp) = heap_alloc hp;
                  (ok_key, hp) = heap_alloc hp;
                  (ok_hash, hp) = heap_alloc hp
              in (Some \<lparr>d_n = 0, d_size = sz,
                        d_val = (if ok_val then replicate sz None else []),
                        d_key = (if ok_key then replicate sz None else []),
                        d_hash = (if ok_hash then replicate sz 0 else [])\<rparr>, hp))"

text \<open>\<open>dictionary_del\<close>: the strings it frees, slot by slot, the key before the value.\<close>

fun del_loop :: "string option list \<Rightarrow> string option list \<Rightarrow> string list" where
  "del_loop (k # ks) (v # vs) =
     (case k of None \<Rightarrow> [] | Some s \<Rightarrow> [s]) @ (case v of None \<Rightarrow> [] | Some s \<Rightarrow> [s]) @ del_loop ks vs"
| "del_loop _ _ = []"

definition dictionary_del :: "dictionary option \<Rightarrow> string list" where
  "dictionary_del d = (case d of None \<Rightarrow> [] | Some d' \<Rightarrow> del_loop (d_key d') (d_val d'))"

text \<open>
  The search loop of \<open>dictionary_get\<close>, \<open>dictionary_set\<close> and \<open>dictionary_unset\<close>: the first
  slot from \<open>i\<close> on that is in use, has the hash and has the key.
\<close>

fun find_slot :: "string option list \<Rightarrow> u32 list \<Rightarrow> string \<Rightarrow> u32 \<Rightarrow> nat \<Rightarrow> nat option" where
  "find_slot (k # ks) (h' # hs) key h i =
     (case k of
        None \<Rightarrow> find_slot ks hs key h (Suc i)
      | Some k' \<Rightarrow> if h = h' \<and> key = k' then Some i else find_slot ks hs key h (Suc i))"
| "find_slot _ _ _ _ _ = None"

definition dictionary_get :: "dictionary \<Rightarrow> string \<Rightarrow> str_ptr \<Rightarrow> str_ptr" where
  "dictionary_get d key def =
     (case find_slot (d_key d) (d_hash d) key (dictionary_hash (Some key)) 0 of
        Some i \<Rightarrow> ptr_of (d_val d ! i)
      | None \<Rightarrow> def)"

text \<open>
  The loop that looks for an empty slot from \<open>i\<close> on, wrapping at \<open>size\<close>. It would run
  for ever on a full table: \<open>fuel\<close> counts the slots it may inspect.
\<close>

fun free_slot :: "nat \<Rightarrow> string option list \<Rightarrow> nat \<Rightarrow> nat \<Rightarrow> nat option" where
  "free_slot 0 ks sz i = None"
| "free_slot (Suc fuel) ks sz i =
     (if ks ! i = None then Some i
      else free_slot fuel ks sz (if Suc i = sz then 0 else Suc i))"

text \<open>
  \<open>dictionary_set\<close>: \<^const>\<open>None\<close> is a run that does not end (no empty slot) or reads
  outside the table; otherwise the return value, the dictionary and the oracle left.
\<close>

definition set_slot ::
  "heap \<Rightarrow> dictionary \<Rightarrow> nat \<Rightarrow> string \<Rightarrow> string option \<Rightarrow> u32 \<Rightarrow> int \<times> dictionary \<times> heap" where
  "set_slot hp d i key val hash =
     (let (key', hp) = xstrdup hp (Some key);
          (val', hp) = xstrdup hp val
      in (0, d\<lparr>d_key := (d_key d)[i := key'],
               d_val := (d_val d)[i := val'],
               d_hash := (d_hash d)[i := hash],
               d_n := d_n d + 1\<rparr>, hp))"

definition dict_room :: "heap \<Rightarrow> dictionary \<Rightarrow> int \<times> dictionary \<times> heap" where
  "dict_room hp d = (if d_n d = int (d_size d) then dictionary_grow hp d else (0, d, hp))"

definition dictionary_set ::
  "heap \<Rightarrow> dictionary option \<Rightarrow> string option \<Rightarrow> string option \<Rightarrow>
   (int \<times> dictionary option \<times> heap) option" where
  "dictionary_set hp d key val =
     (case (d, key) of
        (Some d, Some key) \<Rightarrow>
          let hash = dictionary_hash (Some key);
              found = (if d_n d > 0 then find_slot (d_key d) (d_hash d) key hash 0 else None)
          in (case found of
                Some i \<Rightarrow>
                  let (val', hp) = xstrdup hp val
                  in Some (0, Some (d\<lparr>d_val := (d_val d)[i := val']\<rparr>), hp)
              | None \<Rightarrow>
                  let (r, d, hp) = dict_room hp d
                  in if r \<noteq> 0 then Some (-1, Some d, hp)
                     else if \<not> (0 \<le> d_n d \<and> d_n d < int (length (d_key d))) then None
                     else (case free_slot (d_size d) (d_key d) (d_size d) (nat (d_n d)) of
                             None \<Rightarrow> None
                           | Some i \<Rightarrow>
                               let (r, d, hp) = set_slot hp d i key val hash
                               in Some (r, Some d, hp)))
      | _ \<Rightarrow> Some (-1, d, hp))"

definition dictionary_unset :: "dictionary option \<Rightarrow> string option \<Rightarrow> dictionary option" where
  "dictionary_unset d key =
     (case (d, key) of
        (Some d, Some key) \<Rightarrow>
          (case find_slot (d_key d) (d_hash d) key (dictionary_hash (Some key)) 0 of
             None \<Rightarrow> Some d
           | Some i \<Rightarrow> Some (d\<lparr>d_key := (d_key d)[i := None],
                              d_val := (d_val d)[i := None],
                              d_hash := (d_hash d)[i := 0],
                              d_n := d_n d - 1\<rparr>))
      | _ \<Rightarrow> d)"

text \<open>\<open>dictionary_dump\<close>: what it prints on an open file.\<close>

fun dump_loop :: "string option list \<Rightarrow> string option list \<Rightarrow> string" where
  "dump_loop (k # ks) (v # vs) =
     (case k of
        None \<Rightarrow> []
      | Some k' \<Rightarrow> pad_left (CHR '' '') 20 k' @ [CHR 0x09] @ ''['' @
                  (case v of Some v' \<Rightarrow> v' | None \<Rightarrow> ''UNDEF'') @ '']'' @ [CHR 0x0A])
     @ dump_loop ks vs"
| "dump_loop _ _ = []"

definition dictionary_dump :: "dictionary option \<Rightarrow> bool \<Rightarrow> string" where
  "dictionary_dump d out =
     (case d of
        None \<Rightarrow> []
      | Some d' \<Rightarrow>
          if \<not> out then []
          else if d_n d' < 1 then ''empty dictionary'' @ [CHR 0x0A]
          else dump_loop (d_key d') (d_val d'))"


section \<open>The representation invariant and the abstract map\<close>

text \<open>
  \<open>dict_wf\<close> is what every operation keeps, even when allocations fail: the counter \<open>n\<close> may then
  be larger than the number of keys. \<open>dict_inv\<close> adds that \<open>n\<close> counts the keys exactly.
\<close>

definition dict_wf :: "dictionary \<Rightarrow> bool" where
  "dict_wf d \<longleftrightarrow>
     0 < d_size d \<and> length (d_key d) = d_size d \<and> length (d_val d) = d_size d \<and>
     length (d_hash d) = d_size d \<and>
     int (used_slots (d_key d)) \<le> d_n d \<and> d_n d \<le> int (d_size d) \<and>
     distinct_slots (d_key d) \<and>
     (\<forall>i < d_size d. \<forall>k. d_key d ! i = Some k \<longrightarrow> d_hash d ! i = dictionary_hash (Some k))"

definition dict_inv :: "dictionary \<Rightarrow> bool" where
  "dict_inv d \<longleftrightarrow> dict_wf d \<and> d_n d = int (used_slots (d_key d))"

lemma dict_inv_wf [simp, intro]: "dict_inv d \<Longrightarrow> dict_wf d"
  by (simp add: dict_inv_def)

text \<open>The value a key has, if it is in the dictionary; the value NULL is \<^const>\<open>None\<close>.\<close>

definition dict_map :: "dictionary \<Rightarrow> string \<Rightarrow> string option option" where
  "dict_map d k =
     map_option (\<lambda>i. d_val d ! i)
       (find_slot (d_key d) (d_hash d) k (dictionary_hash (Some k)) 0)"

lemma dict_wfD:
  assumes "dict_wf d"
  shows "0 < d_size d" "length (d_key d) = d_size d" "length (d_val d) = d_size d"
    "length (d_hash d) = d_size d" "int (used_slots (d_key d)) \<le> d_n d"
    "d_n d \<le> int (d_size d)" "distinct_slots (d_key d)"
  using assms by (auto simp: dict_wf_def)

lemma dict_wf_hash:
  "dict_wf d \<Longrightarrow> d_key d ! i = Some k \<Longrightarrow> i < d_size d \<Longrightarrow> d_hash d ! i = dictionary_hash (Some k)"
  by (auto simp: dict_wf_def)

lemma find_slot_Some:
  "find_slot ks hs key h i = Some j \<Longrightarrow>
   i \<le> j \<and> j - i < length ks \<and> j - i < length hs \<and> ks ! (j - i) = Some key \<and> hs ! (j - i) = h"
proof (induction ks hs key h i rule: find_slot.induct)
  case (1 k ks h' hs key h i)
  show ?case
  proof (cases "k = Some key \<and> h = h'")
    case True
    with "1.prems" show ?thesis by simp
  next
    case False
    with "1.prems" have rec: "find_slot ks hs key h (Suc i) = Some j"
      by (auto split: option.splits if_splits)
    have "Suc i \<le> j \<and> j - Suc i < length ks \<and> j - Suc i < length hs \<and>
        ks ! (j - Suc i) = Some key \<and> hs ! (j - Suc i) = h"
      using "1.IH" rec False by (cases k) auto
    moreover from this have "j - i = Suc (j - Suc i)"
      by (simp add: Suc_diff_Suc Suc_le_eq)
    ultimately show ?thesis by simp
  qed
qed simp_all

lemma find_slot_None:
  "find_slot ks hs key h i = None \<Longrightarrow> m < length ks \<Longrightarrow> m < length hs \<Longrightarrow>
   ks ! m = Some key \<Longrightarrow> hs ! m \<noteq> h"
proof (induction ks hs key h i arbitrary: m rule: find_slot.induct)
  case (1 k ks h' hs key h i)
  then show ?case by (cases m; cases k) (auto split: if_splits)
qed simp_all

text \<open>Under the invariant the search finds the slot of the key, and only that one.\<close>

lemma find_slot_wf:
  assumes "dict_wf d"
  shows "find_slot (d_key d) (d_hash d) k (dictionary_hash (Some k)) 0 = Some i \<longleftrightarrow>
         i < d_size d \<and> d_key d ! i = Some k"
proof
  assume "find_slot (d_key d) (d_hash d) k (dictionary_hash (Some k)) 0 = Some i"
  then show "i < d_size d \<and> d_key d ! i = Some k"
    using dict_wfD [OF assms] by (auto dest: find_slot_Some)
next
  assume i: "i < d_size d \<and> d_key d ! i = Some k"
  note len = dict_wfD [OF assms]
  show "find_slot (d_key d) (d_hash d) k (dictionary_hash (Some k)) 0 = Some i"
  proof (cases "find_slot (d_key d) (d_hash d) k (dictionary_hash (Some k)) 0")
    case None
    then have "d_hash d ! i \<noteq> dictionary_hash (Some k)"
      using find_slot_None i len by metis
    with dict_wf_hash [OF assms] i show ?thesis by simp
  next
    case (Some j)
    then have "j < d_size d" "d_key d ! j = Some k"
      using find_slot_Some len by fastforce+
    with i len have "i = j" by (auto intro: distinct_slotsD)
    with Some show ?thesis by simp
  qed
qed

lemma find_slot_wf_None:
  assumes "dict_wf d"
  shows "find_slot (d_key d) (d_hash d) k (dictionary_hash (Some k)) 0 = None \<longleftrightarrow>
         Some k \<notin> set (d_key d)"
proof -
  have "(\<exists>i. find_slot (d_key d) (d_hash d) k (dictionary_hash (Some k)) 0 = Some i) \<longleftrightarrow>
        Some k \<in> set (d_key d)"
    using find_slot_wf [OF assms] dict_wfD(2) [OF assms] by (simp add: in_set_conv_nth)
  then show ?thesis by (metis not_Some_eq)
qed

lemma dict_map_Some:
  assumes "dict_wf d"
  shows "dict_map d k = Some v \<longleftrightarrow> (\<exists>i < d_size d. d_key d ! i = Some k \<and> d_val d ! i = v)"
  unfolding dict_map_def using find_slot_wf [OF assms, of k] by auto

lemma dict_map_None:
  assumes "dict_wf d"
  shows "dict_map d k = None \<longleftrightarrow> Some k \<notin> set (d_key d)"
  unfolding dict_map_def using find_slot_wf_None [OF assms, of k] by auto

text \<open>Two dictionaries with the invariant and the same slot contents have the same map.\<close>

lemma dict_map_eqI:
  assumes "dict_wf d" "\<And>v. f k = Some v \<longleftrightarrow> (\<exists>i < d_size d. d_key d ! i = Some k \<and> d_val d ! i = v)"
  shows "dict_map d k = f k"
proof (cases "f k")
  case None
  then have "\<nexists>v. dict_map d k = Some v"
    using assms(2) dict_map_Some [OF assms(1), of k] by (metis option.distinct(1))
  with None show ?thesis by (metis not_Some_eq)
next
  case (Some v)
  then show ?thesis using assms(2) [of v] dict_map_Some [OF assms(1), of k v] by metis
qed

lemma dict_map_slot:
  "dict_wf d \<Longrightarrow> i < d_size d \<Longrightarrow> d_key d ! i = Some k \<Longrightarrow> dict_map d k = Some (d_val d ! i)"
  using dict_map_Some by blast

lemma dict_map_same:
  assumes "dict_wf d" "dict_wf d'"
    and "\<And>i. i < d_size d \<and> d_key d ! i = Some k \<longleftrightarrow> i < d_size d' \<and> d_key d' ! i = Some k"
    and "\<And>i. i < d_size d \<Longrightarrow> d_key d ! i = Some k \<Longrightarrow> d_val d ! i = d_val d' ! i"
  shows "dict_map d k = dict_map d' k"
proof (cases "\<exists>i < d_size d. d_key d ! i = Some k")
  case True
  then obtain i where "i < d_size d" "d_key d ! i = Some k" by blast
  then show ?thesis using dict_map_slot [OF assms(1)] dict_map_slot [OF assms(2)] assms(3,4) by metis
next
  case False
  then have "\<not> (\<exists>i < d_size d'. d_key d' ! i = Some k)" using assms(3) by auto
  with False have "Some k \<notin> set (d_key d)" "Some k \<notin> set (d_key d')"
    using dict_wfD(2) [OF assms(1)] dict_wfD(2) [OF assms(2)] by (auto simp: in_set_conv_nth)
  then show ?thesis using dict_map_None [OF assms(1)] dict_map_None [OF assms(2)] by metis
qed

section \<open>Each operation keeps the invariant\<close>

lemma dictionary_new_inv:
  assumes "dictionary_new [] sz = (Some d, hp)"
  shows "dict_inv d \<and> dict_map d = Map.empty"
proof -
  have wf: "dict_wf d" and n: "d_n d = int (used_slots (d_key d))"
    and keys: "\<And>k. Some k \<notin> set (d_key d)"
    using assms by (auto simp: dictionary_new_def dict_wf_def DICTMINSZ_def split: if_splits)
  then show ?thesis using dict_map_None [OF wf] by (auto simp: dict_inv_def)
qed

lemma dictionary_grow_wf:
  assumes "dict_wf d" "dictionary_grow hp d = (r, d', hp')"
  shows "dict_wf d' \<and> d_n d' = d_n d \<and> used_slots (d_key d') = used_slots (d_key d)
    \<and> set (d_key d') \<subseteq> insert None (set (d_key d)) \<and> set (d_key d) \<subseteq> set (d_key d')
    \<and> dict_map d' = dict_map d
    \<and> (r = 0 \<or> r = -1) \<and> (r = 0 \<longrightarrow> d_size d' = 2 * d_size d) \<and> (r = -1 \<longrightarrow> d' = d)"
proof (cases "r = 0")
  case False
  with assms show ?thesis
    by (auto simp: dictionary_grow_def Let_def split: prod.splits if_splits)
next
  case True
  with assms(2) have d': "d' = d\<lparr>d_size := d_size d * 2,
      d_val := d_val d @ replicate (d_size d) None,
      d_key := d_key d @ replicate (d_size d) None,
      d_hash := d_hash d @ replicate (d_size d) 0\<rparr>"
    by (auto simp: dictionary_grow_def Let_def split: prod.splits if_splits)
  note w = dict_wfD [OF assms(1)]
  have wf: "dict_wf d'"
    using assms(1) by (auto simp: d' dict_wf_def nth_append distinct_slots_grow split: if_splits)
  have "dict_map d' k = dict_map d k" for k
    by (rule dict_map_eqI [OF wf])
      (use w in \<open>auto simp: dict_map_Some [OF assms(1)] d' nth_append split: if_splits\<close>)
  then show ?thesis using wf w True by (auto simp: d')
qed

lemma free_slot_steps:
  "i < sz \<Longrightarrow> m < fuel \<Longrightarrow> ks ! ((i + m) mod sz) = None \<Longrightarrow>
   \<exists>j < sz. free_slot fuel ks sz i = Some j \<and> ks ! j = None"
proof (induction fuel arbitrary: i m)
  case (Suc fuel)
  show ?case
  proof (cases "ks ! i = None")
    case True
    with Suc.prems show ?thesis by auto
  next
    case False
    with Suc.prems have "m \<noteq> 0" by (cases m) auto
    then obtain m' where m: "m = Suc m'" by (cases m) auto
    let ?i = "if Suc i = sz then 0 else Suc i"
    have "(?i + m') mod sz = (i + m) mod sz"
    proof (cases "Suc i = sz")
      case True
      with m have "i + m = sz + m'" by simp
      with True show ?thesis by simp
    qed (simp add: m)
    with Suc.IH [of ?i m'] Suc.prems m False show ?thesis by auto
  qed
qed simp

text \<open>The probing loop ends, within one round over the table, when a slot is free.\<close>

lemma free_slot_ends:
  assumes "None \<in> set ks" "length ks = sz" "i < sz"
  shows "\<exists>j < sz. free_slot sz ks sz i = Some j \<and> ks ! j = None"
proof -
  obtain j where j: "j < sz" "ks ! j = None"
    using assms by (auto simp: in_set_conv_nth)
  let ?m = "(j + (sz - i)) mod sz"
  have "(i + ?m) mod sz = (i + (j + (sz - i))) mod sz"
    by (simp add: mod_add_right_eq)
  also have "\<dots> = j" using j assms(3) by simp
  finally have "ks ! ((i + ?m) mod sz) = None" using j by simp
  moreover have "?m < sz" using assms(3) by simp
  ultimately show ?thesis using free_slot_steps [OF assms(3)] by blast
qed

lemma set_slot_wf:
  assumes "dict_wf d" "i < d_size d" "d_key d ! i = None" "Some k \<notin> set (d_key d)"
    "d_n d < int (d_size d)"
    and "set_slot hp d i k v (dictionary_hash (Some k)) = (r, d', hp')"
  shows "dict_wf d' \<and> r = 0"
proof -
  note w = dict_wfD [OF assms(1)]
  obtain key' hp1 val' hp2 where d': "d' = d\<lparr>d_key := (d_key d)[i := key'],
      d_val := (d_val d)[i := val'], d_hash := (d_hash d)[i := dictionary_hash (Some k)],
      d_n := d_n d + 1\<rparr>" "r = 0" and key: "key' = Some k \<or> key' = None"
    using assms(6) by (auto simp: set_slot_def xstrdup_def Let_def split: prod.splits if_splits)
  have id: "(d_key d)[i := None] = d_key d"
    using assms(3) by (metis list_update_id)
  have "distinct_slots ((d_key d)[i := key'])"
    using key w(7) assms(4) by (auto intro: distinct_slots_set_Some distinct_slots_set_None)
  moreover have "used_slots ((d_key d)[i := key']) \<le> Suc (used_slots (d_key d))"
    using key assms(2,3) w(2) used_slots_set_Some [of i "d_key d" k]
    by (auto simp: id)
  moreover have "\<forall>j < d_size d. \<forall>k'. (d_key d)[i := key'] ! j = Some k' \<longrightarrow>
      (d_hash d)[i := dictionary_hash (Some k)] ! j = dictionary_hash (Some k')"
    using key w assms(2) dict_wf_hash [OF assms(1)] by (auto simp: nth_list_update split: if_splits)
  ultimately show ?thesis
    using d' w assms(5) by (auto simp: dict_wf_def)
qed


text \<open>
  Setting a key: for every outcome of the allocations the call returns, keeps the
  well-formedness and returns 0 or -1.
\<close>

lemma find_slot_guard:
  assumes "dict_wf d"
  shows "(if d_n d > 0 then find_slot (d_key d) (d_hash d) k (dictionary_hash (Some k)) 0 else None)
         = find_slot (d_key d) (d_hash d) k (dictionary_hash (Some k)) 0"
proof (cases "d_n d > 0")
  case False
  with dict_wfD(5) [OF assms] have "used_slots (d_key d) = 0" by simp
  then have "Some k \<notin> set (d_key d)" using used_slots_pos [of k "d_key d"] by auto
  with False show ?thesis using find_slot_wf_None [OF assms, of k] by simp
qed simp

lemma set_val_wf: "dict_wf d \<Longrightarrow> dict_wf (d\<lparr>d_val := (d_val d)[i := v]\<rparr>)"
  by (simp add: dict_wf_def)

text \<open>What a call of \<open>dictionary_set\<close> on a new key does after the table has room.\<close>

lemma room_has_slot:
  assumes "dict_wf d" "d_n d < int (d_size d)"
  obtains i where "free_slot (d_size d) (d_key d) (d_size d) (nat (d_n d)) = Some i"
    "i < d_size d" "d_key d ! i = None"
proof -
  note w = dict_wfD [OF assms(1)]
  have "used_slots (d_key d) < length (d_key d)" using w assms(2) by linarith
  then have "None \<in> set (d_key d)" by (rule used_slots_less_free)
  moreover have "nat (d_n d) < d_size d" using w assms(2) by linarith
  ultimately show ?thesis using free_slot_ends [of "d_key d" "d_size d" "nat (d_n d)"] w that by auto
qed

lemma dict_room_wf:
  assumes "dict_wf d" "dict_room hp d = (r, d', hp')"
  shows "dict_wf d' \<and> d_n d' = d_n d \<and> used_slots (d_key d') = used_slots (d_key d)
    \<and> set (d_key d') \<subseteq> insert None (set (d_key d)) \<and> dict_map d' = dict_map d
    \<and> (r = 0 \<or> r = -1) \<and> (r = 0 \<longrightarrow> d_n d' < int (d_size d')) \<and> (r = -1 \<longrightarrow> d' = d)"
proof (cases "d_n d = int (d_size d)")
  case True
  with assms(2) have "dictionary_grow hp d = (r, d', hp')" by (simp add: dict_room_def)
  from dictionary_grow_wf [OF assms(1) this] True dict_wfD(1) [OF assms(1)] show ?thesis by auto
next
  case False
  with assms dict_wfD(6) [OF assms(1)] show ?thesis by (auto simp: dict_room_def)
qed

lemma dictionary_set_cases:
  assumes "dict_wf d"
  obtains
    (update) i where "i < d_size d" "d_key d ! i = Some k"
      "\<And>hp v. dictionary_set hp (Some d) (Some k) v =
        (let (v', hp) = xstrdup hp v in Some (0, Some (d\<lparr>d_val := (d_val d)[i := v']\<rparr>), hp))"
  | (insert) "Some k \<notin> set (d_key d)"
      "\<And>hp v. dictionary_set hp (Some d) (Some k) v =
        (let (r, d, hp) = dict_room hp d
         in if r \<noteq> 0 then Some (-1, Some d, hp)
            else (case free_slot (d_size d) (d_key d) (d_size d) (nat (d_n d)) of
                    None \<Rightarrow> None
                  | Some i \<Rightarrow> let (r, d, hp) = set_slot hp d i k v (dictionary_hash (Some k))
                              in Some (r, Some d, hp)))"
proof (cases "find_slot (d_key d) (d_hash d) k (dictionary_hash (Some k)) 0")
  case (Some i)
  then have "i < d_size d" "d_key d ! i = Some k" using find_slot_wf [OF assms] by auto
  then show ?thesis
    by (rule update) (simp add: dictionary_set_def Let_def find_slot_guard [OF assms] Some)
next
  case None
  have eq: "dictionary_set hp (Some d) (Some k) v =
      (let (r, d, hp) = dict_room hp d
       in if r \<noteq> 0 then Some (-1, Some d, hp)
          else (case free_slot (d_size d) (d_key d) (d_size d) (nat (d_n d)) of
                  None \<Rightarrow> None
                | Some i \<Rightarrow> let (r, d, hp) = set_slot hp d i k v (dictionary_hash (Some k))
                            in Some (r, Some d, hp)))" for hp v
  proof -
    obtain r d' hp' where room: "dict_room hp d = (r, d', hp')" by (rule prod_cases3)
    from dict_room_wf [OF assms room] dict_wfD [of d'] have "r = 0 \<Longrightarrow> 0 \<le> d_n d' \<and>
      d_n d' < int (length (d_key d'))" by linarith
    then show ?thesis
      by (auto simp: dictionary_set_def find_slot_guard [OF assms] None room)
  qed
  have "Some k \<notin> set (d_key d)" using None find_slot_wf_None [OF assms] by auto
  then show ?thesis using eq by (rule insert)
qed


lemma dict_map_set_val:
  assumes "dict_wf d" "i < d_size d" "d_key d ! i = Some k"
  shows "dict_map (d\<lparr>d_val := (d_val d)[i := v]\<rparr>) = (dict_map d)(k \<mapsto> v)"
proof
  fix k'
  note w = dict_wfD [OF assms(1)]
  have wf: "dict_wf (d\<lparr>d_val := (d_val d)[i := v]\<rparr>)" by (rule set_val_wf [OF assms(1)])
  show "dict_map (d\<lparr>d_val := (d_val d)[i := v]\<rparr>) k' = ((dict_map d)(k \<mapsto> v)) k'"
  proof (cases "k' = k")
    case True
    have "dict_map (d\<lparr>d_val := (d_val d)[i := v]\<rparr>) k = Some v"
      using dict_map_slot [OF wf, of i k] assms(2,3) w(3) by simp
    with True show ?thesis by simp
  next
    case False
    then have "i \<noteq> j" if "d_key d ! j = Some k'" for j using that assms(3) by auto
    then have "dict_map (d\<lparr>d_val := (d_val d)[i := v]\<rparr>) k' = dict_map d k'"
      by (intro dict_map_same [OF wf assms(1)]) auto
    with False show ?thesis by simp
  qed
qed

lemma dict_map_set_slot:
  assumes "dict_wf d" "i < d_size d" "d_key d ! i = None" "Some k \<notin> set (d_key d)"
    "d_n d < int (d_size d)" and "set_slot [] d i k v (dictionary_hash (Some k)) = (r, d', hp')"
  shows "dict_map d' = (dict_map d)(k \<mapsto> v) \<and> d_n d' = d_n d + 1 \<and> hp' = []
    \<and> used_slots (d_key d') = Suc (used_slots (d_key d))"
proof -
  note w = dict_wfD [OF assms(1)]
  have d': "d' = d\<lparr>d_key := (d_key d)[i := Some k], d_val := (d_val d)[i := v],
      d_hash := (d_hash d)[i := dictionary_hash (Some k)], d_n := d_n d + 1\<rparr>" "hp' = []"
    using assms(6) by (auto simp: set_slot_def xstrdup_def split: option.splits)
  have wf: "dict_wf d'" using set_slot_wf [OF assms] by simp
  have new: "d_key d ! j \<noteq> Some k" if "j < d_size d" for j
    using that assms(4) w(2) by (metis nth_mem)
  have "dict_map d' k' = ((dict_map d)(k \<mapsto> v)) k'" for k'
  proof (cases "k' = k")
    case True
    have "dict_map d' k = Some v"
      using dict_map_slot [OF wf, of i k] assms(2) w(2,3) by (simp add: d')
    with True show ?thesis by simp
  next
    case False
    then have "(d_key d)[i := Some k] ! j = Some k' \<longleftrightarrow> d_key d ! j = Some k' \<and> i \<noteq> j" for j
      using assms(2,3) w(2) by (auto simp: nth_list_update)
    moreover have "d_key d ! j = Some k' \<Longrightarrow> i \<noteq> j" for j using assms(3) by auto
    ultimately have "dict_map d' k' = dict_map d k'"
      by (intro dict_map_same [OF wf assms(1)]) (auto simp: d')
    with False show ?thesis by simp
  qed
  then show ?thesis using d' w assms(2,3) by (auto simp: used_slots_set_Some)
qed

lemma dict_set_total:
  assumes "dict_wf d"
  shows "\<exists>r d' hp'. dictionary_set hp (Some d) (Some k) v = Some (r, Some d', hp') \<and> dict_wf d' \<and>
    (r = 0 \<or> r = -1) \<and> (r = -1 \<longrightarrow> d' = d)"
  using assms
proof (cases rule: dictionary_set_cases [where k = k])
  case (update i)
  then show ?thesis using assms by (auto split: prod.splits intro: set_val_wf)
next
  case insert
  obtain r d1 hp1 where room: "dict_room hp d = (r, d1, hp1)" by (rule prod_cases3)
  note rw = dict_room_wf [OF assms room]
  show ?thesis
  proof (cases "r = 0")
    case False
    with insert(2) [of hp v] room rw assms show ?thesis by auto
  next
    case True
    with rw obtain i where i: "free_slot (d_size d1) (d_key d1) (d_size d1) (nat (d_n d1)) = Some i"
      "i < d_size d1" "d_key d1 ! i = None" by (auto elim: room_has_slot)
    obtain r2 d2 hp2 where "set_slot hp1 d1 i k v (dictionary_hash (Some k)) = (r2, d2, hp2)"
      by (rule prod_cases3)
    moreover from this have "dict_wf d2 \<and> r2 = 0"
      by (rule set_slot_wf [rotated 5]) (use rw True i insert(1) in auto)
    ultimately show ?thesis using insert(2) [of hp v] room True i by simp
  qed
qed

lemma dict_set_ok:
  assumes "dict_inv d"
  shows "\<exists>d'. dictionary_set [] (Some d) (Some k) v = Some (0, Some d', []) \<and> dict_inv d' \<and>
    dict_map d' = (dict_map d)(k \<mapsto> v)"
  using dict_inv_wf [OF assms]
proof (cases rule: dictionary_set_cases [where k = k])
  case (update i)
  then show ?thesis using assms dict_map_set_val [of d i k v]
    by (auto simp: dict_inv_def set_val_wf xstrdup_def split: option.splits)
next
  case insert
  obtain r d1 hp1 where room: "dict_room [] d = (r, d1, hp1)" by (rule prod_cases3)
  from room have r: "r = 0" "hp1 = []"
    by (auto simp: dict_room_def dictionary_grow_def split: if_splits)
  note rw = dict_room_wf [OF dict_inv_wf [OF assms] room]
  with r obtain i where i: "free_slot (d_size d1) (d_key d1) (d_size d1) (nat (d_n d1)) = Some i"
    "i < d_size d1" "d_key d1 ! i = None" by (auto elim: room_has_slot)
  obtain r2 d2 hp2 where ss: "set_slot [] d1 i k v (dictionary_hash (Some k)) = (r2, d2, hp2)"
    by (rule prod_cases3)
  have pre: "dict_wf d1" "Some k \<notin> set (d_key d1)" "d_n d1 < int (d_size d1)"
    using rw r insert(1) by auto
  from set_slot_wf [OF pre(1) i(2,3) pre(2,3) ss] dict_map_set_slot [OF pre(1) i(2,3) pre(2,3) ss]
  have "dict_wf d2 \<and> r2 = 0 \<and> dict_map d2 = (dict_map d)(k \<mapsto> v) \<and> hp2 = []
      \<and> d_n d2 = int (used_slots (d_key d2))"
    using rw assms by (auto simp: dict_inv_def)
  then show ?thesis using insert(2) [of "[]" v] room r i ss by (simp add: dict_inv_def)
qed


lemma dict_unset_ok:
  assumes "dict_inv d"
  shows "\<exists>d'. dictionary_unset (Some d) (Some k) = Some d' \<and> dict_inv d' \<and>
    dict_map d' = (dict_map d)(k := None)"
proof (cases "find_slot (d_key d) (d_hash d) k (dictionary_hash (Some k)) 0")
  case None
  then have "dict_map d k = None" by (simp add: dict_map_def)
  with None assms show ?thesis by (auto simp: dictionary_unset_def)
next
  case (Some i)
  let ?d = "d\<lparr>d_key := (d_key d)[i := None], d_val := (d_val d)[i := None],
    d_hash := (d_hash d)[i := 0], d_n := d_n d - 1\<rparr>"
  have wf0: "dict_wf d" using assms by simp
  note w = dict_wfD [OF wf0]
  have i: "i < d_size d" "d_key d ! i = Some k" using Some find_slot_wf [OF wf0] by auto
  have used: "used_slots (d_key d) = Suc (used_slots ((d_key d)[i := None]))"
    using i w(2) by (auto intro: used_slots_set_None)
  have upd: "(d_key d)[i := None] ! j = Some k' \<longleftrightarrow> d_key d ! j = Some k' \<and> i \<noteq> j" for j k'
    using i w(2) by (auto simp: nth_list_update)
  have wf: "dict_wf ?d"
    using wf0 used dict_wf_hash [OF wf0]
    by (auto simp: dict_wf_def distinct_slots_set_None upd)
  have n: "d_n ?d = int (used_slots (d_key ?d))"
    using used assms by (simp add: dict_inv_def)
  have "dict_map ?d k' = ((dict_map d)(k := None)) k'" for k'
  proof (cases "k' = k")
    case True
    have "\<not> (\<exists>j < d_size d. (d_key d)[i := None] ! j = Some k)"
      using i w by (auto simp: upd intro: distinct_slotsD)
    then have "dict_map ?d k = None" using dict_map_None [OF wf] w(2) by (auto simp: in_set_conv_nth)
    with True show ?thesis by simp
  next
    case False
    then have "i \<noteq> j" if "d_key d ! j = Some k'" for j using that i(2) by auto
    then have "dict_map ?d k' = dict_map d k'"
      by (intro dict_map_same [OF wf wf0]) (auto simp: upd)
    with False show ?thesis by simp
  qed
  then have "dict_map ?d = (dict_map d)(k := None)" by blast
  with Some wf n show ?thesis by (simp add: dictionary_unset_def dict_inv_def)
qed

text \<open>What a lookup returns, in terms of the abstract map.\<close>

lemma dictionary_get_map:
  "dictionary_get d key def = (case dict_map d key of None \<Rightarrow> def | Some v \<Rightarrow> ptr_of v)"
  by (simp add: dictionary_get_def dict_map_def split: option.splits)

section \<open>The interface of a string store\<close>

text \<open>
  What the INI parser relies on: a store of values (possibly NULL) under string keys, with
  the laws of its operations. The lemmas of the locale are proved once from the laws.
\<close>

locale string_store =
  fixes put :: "'d \<Rightarrow> string \<Rightarrow> string option \<Rightarrow> 'd"
    and del :: "'d \<Rightarrow> string \<Rightarrow> 'd"
    and view :: "'d \<Rightarrow> string \<Rightarrow> string option option"
    and ok :: "'d \<Rightarrow> bool"
  assumes ok_put: "ok d \<Longrightarrow> ok (put d k v)"
    and ok_del: "ok d \<Longrightarrow> ok (del d k)"
    and view_put: "ok d \<Longrightarrow> view (put d k v) = (view d)(k \<mapsto> v)"
    and view_del: "ok d \<Longrightarrow> view (del d k) = (view d)(k := None)"
begin

lemma put_put: "ok d \<Longrightarrow> view (put (put d k v) k w) = view (put d k w)"
  by (simp add: view_put ok_put)

lemma del_put: "ok d \<Longrightarrow> view (del (put d k v) k) = view (del d k)"
  by (simp add: view_put view_del ok_put)

lemma ok_puts: "ok d \<Longrightarrow> ok (foldl (\<lambda>d (k, v). put d k v) d kvs)"
  by (induction kvs arbitrary: d) (auto simp: ok_put)

text \<open>A run of insertions gives every key its last value.\<close>

lemma view_puts:
  "ok d \<Longrightarrow> view (foldl (\<lambda>d (k, v). put d k v) d kvs) = view d ++ map_of (rev kvs)"
proof (induction kvs arbitrary: d)
  case (Cons kv kvs)
  then show ?case by (cases kv) (auto simp: view_put ok_put fun_eq_iff map_add_def split: option.splits)
qed simp

end

definition dict_put :: "dictionary \<Rightarrow> string \<Rightarrow> string option \<Rightarrow> dictionary" where
  "dict_put d k v =
     (case dictionary_set [] (Some d) (Some k) v of Some (_, Some d', _) \<Rightarrow> d' | _ \<Rightarrow> d)"

definition dict_del :: "dictionary \<Rightarrow> string \<Rightarrow> dictionary" where
  "dict_del d k = (case dictionary_unset (Some d) (Some k) of Some d' \<Rightarrow> d' | None \<Rightarrow> d)"

lemma dict_put_spec:
  assumes "dict_inv d"
  shows "dict_inv (dict_put d k v) \<and> dict_map (dict_put d k v) = (dict_map d)(k \<mapsto> v)"
proof -
  obtain d' where "dictionary_set [] (Some d) (Some k) v = Some (0, Some d', [])"
    "dict_inv d' \<and> dict_map d' = (dict_map d)(k \<mapsto> v)" using dict_set_ok [OF assms] by blast
  then show ?thesis by (simp add: dict_put_def)
qed

lemma dict_del_spec:
  assumes "dict_inv d"
  shows "dict_inv (dict_del d k) \<and> dict_map (dict_del d k) = (dict_map d)(k := None)"
proof -
  obtain d' where "dictionary_unset (Some d) (Some k) = Some d'"
    "dict_inv d' \<and> dict_map d' = (dict_map d)(k := None)" using dict_unset_ok [OF assms] by blast
  then show ?thesis by (simp add: dict_del_def)
qed

interpretation dict: string_store dict_put dict_del dict_map dict_inv
  by unfold_locales (simp_all add: dict_put_spec dict_del_spec)

section \<open>Properties\<close>

text \<open>
  C23: with memory available, \<open>dictionary_set\<close> succeeds, keeps the invariant (\<open>n\<close> counts the
  keys exactly, keys are distinct, hashes agree with keys) and makes the key's value the new
  one, leaving every other lookup unchanged, whether the key is new, is replaced, or the table
  has to grow.
\<close>

theorem dictionary_set_spec:
  assumes "dict_inv d"
  shows "\<exists>d'. dictionary_set [] (Some d) (Some k) v = Some (0, Some d', []) \<and> dict_inv d' \<and>
    (\<forall>k' def. dictionary_get d' k' def =
       (if k' = k then ptr_of v else dictionary_get d k' def))"
  using dict_set_ok [OF assms, of k v] by (auto simp: dictionary_get_map)

text \<open>A small table for the witnesses: three slots, one in use.\<close>

definition small_dict :: dictionary where
  "small_dict = \<lparr>d_n = 1, d_size = 3, d_val = [Some ''1'', None, None],
     d_key = [Some ''a'', None, None], d_hash = [dictionary_hash (Some ''a''), 0, 0]\<rparr>"

lemma small_dict_slot: "i < 3 \<Longrightarrow> [Some ''a'', None, None] ! i = Some k \<Longrightarrow> i = (0::nat) \<and> k = ''a''"
  by (cases i) (auto simp: nth_Cons' split: if_splits)

lemma small_dict_inv: "dict_inv small_dict"
proof -
  have "distinct_slots (d_key small_dict)"
    by (rule distinct_slotsI) (auto simp: small_dict_def dest!: small_dict_slot [rotated])
  moreover have "d_hash small_dict ! i = dictionary_hash (Some k)"
    if "i < 3" "d_key small_dict ! i = Some k" for i k
    using small_dict_slot [of i k] that by (simp add: small_dict_def)
  ultimately show ?thesis
    by (simp add: dict_inv_def dict_wf_def) (simp add: small_dict_def)
qed

theorem dictionary_set_spec_witness:
  "\<exists>d'. dictionary_set [] (Some small_dict) (Some ''b'') (Some ''2'') = Some (0, Some d', []) \<and>
    dictionary_get d' ''b'' NullPtr = Str ''2''"
  using dictionary_set_spec [OF small_dict_inv, of "''b''" "Some ''2''"] by (auto simp: ptr_of_def)

text \<open>
  Whatever the allocator does, \<open>dictionary_set\<close> on a well-formed dictionary returns (its
  probe for an empty slot ends), keeps the dictionary well formed and returns 0 or -1; it
  returns -1 only with the dictionary unchanged.
\<close>

theorem dictionary_set_total:
  assumes "dict_wf d"
  shows "\<exists>r d' hp'. dictionary_set hp (Some d) (Some k) v = Some (r, Some d', hp') \<and> dict_wf d' \<and>
    (r = 0 \<or> r = -1) \<and> (r = -1 \<longrightarrow> d' = d)"
  by (rule dict_set_total [OF assms])

theorem dictionary_set_total_witness:
  "dictionary_set [False, False] (Some small_dict) (Some ''b'') (Some ''2'') \<noteq> None"
  using dictionary_set_total [OF dict_inv_wf [OF small_dict_inv], of "[False, False]" "''b''" "Some ''2''"]
  by auto

text \<open>
  \<open>dictionary_unset\<close> keeps the invariant; afterwards the key is not found (a lookup
  returns its default) and every other lookup is unchanged.
\<close>

theorem dictionary_unset_spec:
  assumes "dict_inv d"
  shows "\<exists>d'. dictionary_unset (Some d) (Some k) = Some d' \<and> dict_inv d' \<and>
    (\<forall>k' def. dictionary_get d' k' def = (if k' = k then def else dictionary_get d k' def))"
  using dict_unset_ok [OF assms, of k] by (auto simp: dictionary_get_map)

theorem dictionary_unset_spec_witness:
  "\<exists>d'. dictionary_unset (Some small_dict) (Some ''a'') = Some d' \<and>
    dictionary_get d' ''a'' InvalidKey = InvalidKey"
  using dictionary_unset_spec [OF small_dict_inv, of "''a''"] by auto

text \<open>
  When the copy of a new key fails, \<open>dictionary_set\<close> still returns 0 and counts an
  entry: the key is not in the dictionary and \<open>n\<close> exceeds the number of keys.
\<close>

theorem dictionary_set_key_copy_fails:
  assumes "dict_inv d" "dict_map d k = None" "d_n d < int (d_size d)"
  shows "\<exists>d' hp'. dictionary_set [False] (Some d) (Some k) v = Some (0, Some d', hp') \<and>
    dict_map d' k = None \<and> d_n d' = int (used_slots (d_key d')) + 1"
proof -
  have wf: "dict_wf d" using assms(1) by simp
  note w = dict_wfD [OF wf]
  have nk: "Some k \<notin> set (d_key d)" using assms(2) dict_map_None [OF wf] by simp
  obtain i where i: "free_slot (d_size d) (d_key d) (d_size d) (nat (d_n d)) = Some i"
    "i < d_size d" "d_key d ! i = None" using room_has_slot [OF wf assms(3)] .
  have id: "(d_key d)[i := None] = d_key d" using i(3) by (metis list_update_id)
  obtain r d' hp' where ss: "set_slot [False] d i k v (dictionary_hash (Some k)) = (r, d', hp')"
    by (rule prod_cases3)
  then have d': "d_key d' = d_key d" "d_n d' = d_n d + 1" "r = 0"
    by (auto simp: set_slot_def xstrdup_def id split: option.splits)
  have "dict_wf d'" using set_slot_wf [OF wf i(2,3) nk assms(3) ss] by simp
  then have "dict_map d' k = None" using dict_map_None nk d'(1) by metis
  moreover have "dictionary_set [False] (Some d) (Some k) v = Some (0, Some d', hp')"
    using wf
  proof (cases rule: dictionary_set_cases [where k = k])
    case (update j)
    with nk w(2) show ?thesis by (metis nth_mem)
  next
    case insert
    then show ?thesis using assms(3) i(1) ss d'(3) by (simp add: dict_room_def)
  qed
  ultimately show ?thesis using assms(1) d' by (auto simp: dict_inv_def)
qed

theorem dictionary_set_key_copy_fails_witness:
  "\<exists>d' hp'. dictionary_set [False] (Some small_dict) (Some ''b'') None = Some (0, Some d', hp') \<and>
    dict_map d' ''b'' = None"
proof -
  have "Some ''b'' \<notin> set (d_key small_dict)" by (simp add: small_dict_def)
  then have "dict_map small_dict ''b'' = None"
    using dict_map_None [OF dict_inv_wf [OF small_dict_inv]] by simp
  moreover have "d_n small_dict < int (d_size small_dict)" by (simp add: small_dict_def)
  ultimately show ?thesis
    using dictionary_set_key_copy_fails [OF small_dict_inv, of "''b''" None] by auto
qed

end
