(* ===== verification/Iniparser.thy ===== *)
theory Iniparser
  imports Dictionary
begin

text \<open>
  The INI file parser (\<open>mpp_utils/iniparser.c\<close>) on top of the dictionary: the accessors and the
  dump functions, the line parser with its three fixed-size buffers, and the load loop that
  reads a file with \<open>fgets\<close>. A write that does not fit its buffer is \<^const>\<open>None\<close>. The error
  callback is the list of the reports it got. The INI key sentinel is \<^const>\<open>InvalidKey\<close>.
\<close>

section \<open>Strings\<close>

definition ASCIILINESZ :: nat where "ASCIILINESZ = 1024"

abbreviation NL :: char where "NL \<equiv> CHR 0x0A"

definition strlwc :: "string option \<Rightarrow> nat \<Rightarrow> string option" where
  "strlwc s len =
     (case s of
        None \<Rightarrow> None
      | Some s' \<Rightarrow> if len = 0 then None else Some (map to_lower (take (len - 1) s')))"

definition strip_end :: "(char \<Rightarrow> bool) \<Rightarrow> string \<Rightarrow> string" where
  "strip_end P s = rev (dropWhile P (rev s))"

definition strstrip :: "string option \<Rightarrow> nat \<times> string option" where
  "strstrip s =
     (case s of
        None \<Rightarrow> (0, None)
      | Some s' \<Rightarrow> (let t = strip_end is_space (dropWhile is_space s') in (length t, Some t)))"

definition strip :: "string \<Rightarrow> string" where
  "strip s = the (snd (strstrip (Some s)))"

text \<open>A string written into an array of \<open>cap\<close> characters, with its terminating NUL.\<close>

definition store :: "nat \<Rightarrow> string \<Rightarrow> string option" where
  "store cap s = (if length s < cap then Some s else None)"

section \<open>Accessors\<close>

definition iniparser_getstring :: "dictionary option \<Rightarrow> string option \<Rightarrow> str_ptr \<Rightarrow> str_ptr" where
  "iniparser_getstring d key def =
     (case (d, key) of
        (Some d', Some key') \<Rightarrow>
          (case strlwc (Some key') (ASCIILINESZ + 1) of
             Some lc_key \<Rightarrow> dictionary_get d' lc_key def
           | None \<Rightarrow> def)
      | _ \<Rightarrow> def)"

definition iniparser_find_entry :: "dictionary option \<Rightarrow> string option \<Rightarrow> bool" where
  "iniparser_find_entry ini entry = (iniparser_getstring ini entry InvalidKey \<noteq> InvalidKey)"

text \<open>Reading through a NULL value is \<^const>\<open>None\<close>.\<close>

definition iniparser_getlongint :: "dictionary option \<Rightarrow> string option \<Rightarrow> int \<Rightarrow> int option" where
  "iniparser_getlongint d key notfound =
     (case iniparser_getstring d key InvalidKey of
        InvalidKey \<Rightarrow> Some notfound
      | NullPtr \<Rightarrow> None
      | Str s \<Rightarrow> Some (fst (strtol 0 s)))"

definition iniparser_getint :: "dictionary option \<Rightarrow> string option \<Rightarrow> int \<Rightarrow> int option" where
  "iniparser_getint d key notfound = map_option s32_of_int (iniparser_getlongint d key notfound)"

definition iniparser_getboolean :: "dictionary option \<Rightarrow> string option \<Rightarrow> int \<Rightarrow> int option" where
  "iniparser_getboolean d key notfound =
     (case iniparser_getstring d key InvalidKey of
        InvalidKey \<Rightarrow> Some notfound
      | NullPtr \<Rightarrow> None
      | Str s \<Rightarrow>
          Some (if s \<noteq> [] \<and> hd s \<in> set ''yY1tT'' then 1
                else if s \<noteq> [] \<and> hd s \<in> set ''nN0fF'' then 0
                else notfound))"

definition iniparser_set ::
  "heap \<Rightarrow> dictionary option \<Rightarrow> string option \<Rightarrow> string option \<Rightarrow>
   (int \<times> dictionary option \<times> heap) option" where
  "iniparser_set hp ini entry val = dictionary_set hp ini (strlwc entry (ASCIILINESZ + 1)) val"

definition iniparser_unset :: "dictionary option \<Rightarrow> string option \<Rightarrow> dictionary option" where
  "iniparser_unset ini entry = dictionary_unset ini (strlwc entry (ASCIILINESZ + 1))"

section \<open>Sections\<close>

fun count_sections :: "string option list \<Rightarrow> nat" where
  "count_sections [] = 0"
| "count_sections (None # ks) = count_sections ks"
| "count_sections (Some k # ks) =
     (if CHR '':'' \<notin> set k then Suc (count_sections ks) else count_sections ks)"

definition iniparser_getnsec :: "dictionary option \<Rightarrow> int" where
  "iniparser_getnsec d = (case d of None \<Rightarrow> -1 | Some d' \<Rightarrow> int (count_sections (d_key d')))"

fun secname_loop :: "string option list \<Rightarrow> int \<Rightarrow> int \<Rightarrow> string option" where
  "secname_loop [] foundsec n = None"
| "secname_loop (None # ks) foundsec n = secname_loop ks foundsec n"
| "secname_loop (Some k # ks) foundsec n =
     (if CHR '':'' \<notin> set k
      then (if foundsec + 1 > n then Some k else secname_loop ks (foundsec + 1) n)
      else secname_loop ks foundsec n)"

definition iniparser_getsecname :: "dictionary option \<Rightarrow> int \<Rightarrow> string option" where
  "iniparser_getsecname d n =
     (case d of None \<Rightarrow> None | Some d' \<Rightarrow> if n < 0 then None else secname_loop (d_key d') 0 n)"

text \<open>The keys of a section: the slots whose key starts with \<open>s:\<close>, in slot order.\<close>

fun section_keys :: "string option list \<Rightarrow> string \<Rightarrow> string list" where
  "section_keys [] keym = []"
| "section_keys (None # ks) keym = section_keys ks keym"
| "section_keys (Some k # ks) keym =
     (if has_prefix keym k then k # section_keys ks keym else section_keys ks keym)"

text \<open>
  \<open>keym\<close> has \<open>ASCIILINESZ + 1\<close> characters; writing the colon at \<open>keym[seclen]\<close> behind its end
  is \<^const>\<open>None\<close>.
\<close>

definition section_prefix :: "string \<Rightarrow> string option" where
  "section_prefix s =
     (if length s < ASCIILINESZ + 1
      then Some (the (strlwc (Some s) (ASCIILINESZ + 1)) @ '':'') else None)"

definition iniparser_getsecnkeys :: "dictionary option \<Rightarrow> string option \<Rightarrow> nat option" where
  "iniparser_getsecnkeys d s =
     (case (d, s) of
        (Some d', Some s') \<Rightarrow>
          if \<not> iniparser_find_entry d s then Some 0
          else do {
            keym \<leftarrow> section_prefix s';
            Some (length (section_keys (d_key d') keym))
          }
      | _ \<Rightarrow> Some 0)"

text \<open>The caller's array \<open>keys\<close> is a list; its content after the call, \<^const>\<open>None\<close> inside for NULL.\<close>

definition iniparser_getseckeys ::
  "dictionary option \<Rightarrow> string option \<Rightarrow> string list option \<Rightarrow> string list option option" where
  "iniparser_getseckeys d s keys =
     (case (d, keys) of
        (Some d', Some keys') \<Rightarrow>
          (if \<not> iniparser_find_entry d s then Some None
           else do {
             keym \<leftarrow> section_prefix (the s);
             let ks = section_keys (d_key d') keym;
             (if length ks \<le> length keys' then Some (Some (ks @ drop (length ks) keys')) else None)
           })
      | _ \<Rightarrow> Some None)"

section \<open>Dumps\<close>

fun ini_dump_loop :: "string option list \<Rightarrow> string option list \<Rightarrow> string" where
  "ini_dump_loop (None # ks) (v # vs) = ini_dump_loop ks vs"
| "ini_dump_loop (Some k # ks) (v # vs) =
     (case v of
        Some v' \<Rightarrow> ''['' @ k @ '']=['' @ v' @ '']'' @ [NL]
      | None \<Rightarrow> ''['' @ k @ '']=UNDEF'' @ [NL]) @ ini_dump_loop ks vs"
| "ini_dump_loop _ _ = []"

definition iniparser_dump :: "dictionary option \<Rightarrow> bool \<Rightarrow> string" where
  "iniparser_dump d f =
     (case d of None \<Rightarrow> [] | Some d' \<Rightarrow> if \<not> f then [] else ini_dump_loop (d_key d') (d_val d'))"

fun dumpsection_loop :: "string option list \<Rightarrow> string option list \<Rightarrow> string \<Rightarrow> string" where
  "dumpsection_loop (None # ks) (v # vs) keym = dumpsection_loop ks vs keym"
| "dumpsection_loop (Some k # ks) (v # vs) keym =
     (if has_prefix keym k
      then pad_right 30 (drop (length keym) k) @ '' = '' @ (case v of Some v' \<Rightarrow> v' | None \<Rightarrow> '''') @ [NL]
      else []) @ dumpsection_loop ks vs keym"
| "dumpsection_loop _ _ _ = []"

definition iniparser_dumpsection_ini ::
  "dictionary option \<Rightarrow> string option \<Rightarrow> bool \<Rightarrow> string option" where
  "iniparser_dumpsection_ini d s f =
     (case (d, s) of
        (Some d', Some s') \<Rightarrow>
          if \<not> f \<or> \<not> iniparser_find_entry d s then Some []
          else do {
            keym \<leftarrow> store (ASCIILINESZ + 1) (s' @ '':'');
            Some ([NL] @ ''['' @ s' @ '']'' @ [NL] @ dumpsection_loop (d_key d') (d_val d') keym @ [NL])
          }
      | _ \<Rightarrow> Some [])"

text \<open>glibc prints a NULL string as \<open>(null)\<close>.\<close>

fun dump_plain :: "string option list \<Rightarrow> string option list \<Rightarrow> string" where
  "dump_plain (None # ks) (v # vs) = dump_plain ks vs"
| "dump_plain (Some k # ks) (v # vs) =
     k @ '' = '' @ (case v of Some v' \<Rightarrow> v' | None \<Rightarrow> ''(null)'') @ [NL] @ dump_plain ks vs"
| "dump_plain _ _ = []"

fun dump_sections :: "dictionary \<Rightarrow> nat \<Rightarrow> nat \<Rightarrow> string option" where
  "dump_sections d 0 i = Some []"
| "dump_sections d (Suc todo) i = do {
     out \<leftarrow> iniparser_dumpsection_ini (Some d) (iniparser_getsecname (Some d) (int i)) True;
     rest \<leftarrow> dump_sections d todo (Suc i);
     Some (out @ rest)
   }"

definition iniparser_dump_ini :: "dictionary option \<Rightarrow> bool \<Rightarrow> string option" where
  "iniparser_dump_ini d f =
     (case d of
        None \<Rightarrow> Some []
      | Some d' \<Rightarrow>
          if \<not> f then Some []
          else (let nsec = iniparser_getnsec d in
            if nsec < 1 then Some (dump_plain (d_key d') (d_val d'))
            else do { out \<leftarrow> dump_sections d' (nat nsec) 0; Some (out @ [NL]) }))"

section \<open>One line\<close>

datatype line_status = LINE_UNPROCESSED | LINE_ERROR | LINE_EMPTY | LINE_COMMENT
  | LINE_SECTION | LINE_VALUE

text \<open>The formats of the \<open>sscanf\<close> calls, in their order.\<close>

definition fmt_section :: "directive list" where
  "fmt_section = [Lit (CHR ''[''), Set (\<lambda>c. c \<noteq> CHR '']'') True]"

definition fmt_dquoted :: "directive list" where
  "fmt_dquoted = [Set (\<lambda>c. c \<noteq> CHR ''='') True, Ws, Lit (CHR ''=''), Ws, Lit (CHR 0x22),
     Set (\<lambda>c. c \<noteq> CHR 0x22) True, Lit (CHR 0x22)]"

definition fmt_squoted :: "directive list" where
  "fmt_squoted = [Set (\<lambda>c. c \<noteq> CHR ''='') True, Ws, Lit (CHR ''=''), Ws, Lit (CHR 0x27),
     Set (\<lambda>c. c \<noteq> CHR 0x27) True, Lit (CHR 0x27)]"

definition fmt_plain :: "directive list" where
  "fmt_plain = [Set (\<lambda>c. c \<noteq> CHR ''='') True, Ws, Lit (CHR ''=''), Ws,
     Set (\<lambda>c. c \<noteq> CHR '';'' \<and> c \<noteq> CHR ''#'') True]"

definition fmt_empty1 :: "directive list" where
  "fmt_empty1 = [Set (\<lambda>c. c \<noteq> CHR ''='') True, Ws, Lit (CHR ''=''), Ws,
     Set (\<lambda>c. c = CHR '';'' \<or> c = CHR ''#'') True]"

definition fmt_empty2 :: "directive list" where
  "fmt_empty2 = [Set (\<lambda>c. c \<noteq> CHR ''='') True, Ws, Set (\<lambda>c. c = CHR ''='') True]"

text \<open>The buffers of \<open>iniparser_load\<close> that a line writes to, each of \<open>ASCIILINESZ + 1\<close> characters.\<close>

record ini_bufs =
  ib_section :: string
  ib_key :: string
  ib_value :: string

text \<open>
  The strings a call of \<open>sscanf\<close> stores, in order, into the buffers it is given; a
  buffer whose conversion is not reached keeps its content.
\<close>

fun store_all :: "conv_val list \<Rightarrow> string list \<Rightarrow> string list option" where
  "store_all [] bs = Some bs"
| "store_all (CStr s # vs) (b # bs) = do {
     s' \<leftarrow> store (ASCIILINESZ + 1) s;
     bs' \<leftarrow> store_all vs bs;
     Some (s' # bs')
   }"
| "store_all _ _ = None"

definition scan_kv :: "directive list \<Rightarrow> string \<Rightarrow> ini_bufs \<Rightarrow> (bool \<times> ini_bufs) option" where
  "scan_kv fmt line b = (let (r, vs) = sscanf fmt line in do {
     kv \<leftarrow> store_all vs [ib_key b, ib_value b];
     Some (r = 2, b\<lparr>ib_key := kv ! 0, ib_value := kv ! 1\<rparr>)
   })"

text \<open>\<open>c1 || c2\<close> for two calls: the second is made only when the first does not convert both.\<close>

definition scan_or :: "directive list \<Rightarrow> directive list \<Rightarrow> string \<Rightarrow> ini_bufs \<Rightarrow> (bool \<times> ini_bufs) option" where
  "scan_or fmt1 fmt2 line b = do {
     (ok, b) \<leftarrow> scan_kv fmt1 line b;
     (if ok then Some (True, b) else scan_kv fmt2 line b)
   }"

definition key_done :: "nat \<Rightarrow> ini_bufs \<Rightarrow> ini_bufs" where
  "key_done len b = b\<lparr>ib_key := the (strlwc (Some (strip (ib_key b))) len)\<rparr>"

definition line_values :: "string \<Rightarrow> nat \<Rightarrow> ini_bufs \<Rightarrow> (line_status \<times> ini_bufs) option" where
  "line_values line len b = do {
     (quoted, b) \<leftarrow> scan_or fmt_dquoted fmt_squoted line b;
     (if quoted then Some (LINE_VALUE, key_done len b)
      else do {
        (plain, b) \<leftarrow> scan_kv fmt_plain line b;
        (if plain then
           let b = key_done len b;
               v = strip (ib_value b);
               v = (if v = [CHR 0x22, CHR 0x22] \<or> v = [CHR 0x27, CHR 0x27] then '''' else v)
           in Some (LINE_VALUE, b\<lparr>ib_value := v\<rparr>)
         else do {
           (empty, b) \<leftarrow> scan_or fmt_empty1 fmt_empty2 line b;
           (if empty then Some (LINE_VALUE, (key_done len b)\<lparr>ib_value := ''''\<rparr>)
            else Some (LINE_ERROR, b))
         })
      })
   }"

definition iniparser_line ::
  "heap \<Rightarrow> string \<Rightarrow> ini_bufs \<Rightarrow> (line_status \<times> ini_bufs \<times> heap) option" where
  "iniparser_line hp input_line b =
     (let (line, hp) = xstrdup hp (Some input_line);
          (len, line) = strstrip line
      in if len < 1 then Some (LINE_EMPTY, b, hp)
         else let line = the line in
           if line ! 0 = CHR ''#'' \<or> line ! 0 = CHR '';'' then Some (LINE_COMMENT, b, hp)
           else if line ! 0 = CHR ''['' \<and> line ! (len - 1) = CHR '']'' then do {
             bs \<leftarrow> store_all (snd (sscanf fmt_section line)) [ib_section b];
             let sec = the (strlwc (Some (strip (bs ! 0))) len);
             Some (LINE_SECTION, b\<lparr>ib_section := sec\<rparr>, hp)
           }
           else do {
             (sta, b) \<leftarrow> line_values line len b;
             Some (sta, b, hp)
           })"

section \<open>Loading a file\<close>

text \<open>
  \<open>fgets\<close> for a buffer with room for \<open>n\<close> characters and the NUL. The flag is \<open>feof\<close>
  afterwards: the call met the end of the file before a newline or a full buffer.
\<close>

fun fgets_chars :: "nat \<Rightarrow> string \<Rightarrow> string \<times> string" where
  "fgets_chars 0 s = ([], s)"
| "fgets_chars (Suc n) [] = ([], [])"
| "fgets_chars (Suc n) (c # cs) =
     (if c = NL then ([c], cs) else let (l, r) = fgets_chars n cs in (c # l, r))"

definition fgets :: "nat \<Rightarrow> string \<Rightarrow> (string \<times> string \<times> bool) option" where
  "fgets sz s =
     (if s = [] then None
      else let (l, r) = fgets_chars (sz - 1) s
           in Some (l, r, length l < sz - 1 \<and> (l = [] \<or> last l \<noteq> NL)))"

datatype ini_report = Cannot_open | Line_too_long nat | Syntax_error nat string | Memory_failure

record load_state =
  ls_dict :: dictionary
  ls_bufs :: ini_bufs
  ls_prefix :: string
  ls_lineno :: nat
  ls_errs :: nat
  ls_mem_err :: int
  ls_log :: "ini_report list"
  ls_heap :: heap

text \<open>How a turn of the loop ends: \<open>continue\<close> or its end, \<open>break\<close>, or \<open>return NULL\<close>.\<close>

datatype load_exit = Next load_state | Break load_state | Return_null load_state

definition ls_set :: "load_state \<Rightarrow> string \<Rightarrow> string option \<Rightarrow> load_state option" where
  "ls_set st key val = do {
     (r, d, hp) \<leftarrow> dictionary_set (ls_heap st) (Some (ls_dict st)) (Some key) val;
     Some (st\<lparr>ls_dict := the d, ls_heap := hp, ls_mem_err := r\<rparr>)
   }"

text \<open>The \<open>switch\<close> on the status of the line.\<close>

definition load_switch :: "load_state \<Rightarrow> string \<Rightarrow> line_status \<Rightarrow> load_state option" where
  "load_switch st line sta =
     (case sta of
        LINE_SECTION \<Rightarrow> ls_set st (ib_section (ls_bufs st)) None
      | LINE_VALUE \<Rightarrow> do {
          tmp \<leftarrow> store (ASCIILINESZ * 2 + 2) (ib_section (ls_bufs st) @ '':'' @ ib_key (ls_bufs st));
          ls_set st tmp (Some (ib_value (ls_bufs st)))
        }
      | LINE_ERROR \<Rightarrow>
          Some (st\<lparr>ls_errs := Suc (ls_errs st),
                   ls_log := ls_log st @ [Syntax_error (ls_lineno st) line]\<rparr>)
      | _ \<Rightarrow> Some st)"

definition load_body :: "load_state \<Rightarrow> string \<Rightarrow> load_exit option" where
  "load_body st line = do {
     (sta, b, hp) \<leftarrow> iniparser_line (ls_heap st) line (ls_bufs st);
     st \<leftarrow> load_switch (st\<lparr>ls_bufs := b, ls_heap := hp\<rparr>) line sta;
     let st = st\<lparr>ls_prefix := []\<rparr>;
     (if ls_mem_err st < 0 then Some (Break (st\<lparr>ls_log := ls_log st @ [Memory_failure]\<rparr>))
      else Some (Next st))
   }"

text \<open>
  A turn works on the C string in the buffer: \<open>strlen\<close> ends it at the first NUL, be it one of the file.
\<close>

definition c_string :: "string \<Rightarrow> string" where
  "c_string = takeWhile (\<lambda>c. c \<noteq> CHR 0x00)"

lemma c_string_length: "length (c_string s) \<le> length s"
  by (simp add: c_string_def length_takeWhile_le)

lemma c_string_id: "CHR 0x00 \<notin> set s \<Longrightarrow> c_string s = s"
  by (auto simp: c_string_def takeWhile_eq_all_conv)

definition load_turn :: "load_state \<Rightarrow> string \<Rightarrow> bool \<Rightarrow> load_exit option" where
  "load_turn st chunk eof =
     (let st = st\<lparr>ls_lineno := Suc (ls_lineno st)\<rparr>;
          line = c_string (ls_prefix st @ chunk)
      in if length line \<le> 1 then Some (Next st)
         else if last line \<noteq> NL \<and> \<not> eof
         then Some (Return_null (st\<lparr>ls_log := ls_log st @ [Line_too_long (ls_lineno st)]\<rparr>))
         else let line = strip_end (\<lambda>c. c = NL \<or> is_space c) line
              in if line \<noteq> [] \<and> last line = CHR 0x5C
                 then Some (Next (st\<lparr>ls_prefix := butlast line\<rparr>))
                 else load_body st line)"

text \<open>
  The loop over the lines. A turn consumes at least one character of the file, so that \<open>iniparser_load\<close>,
  which bounds the number of turns by the length of the file, never runs out of turns
  (\<open>load_loop_inv\<close>).
\<close>

fun load_loop :: "nat \<Rightarrow> string \<Rightarrow> load_state \<Rightarrow> load_exit option" where
  "load_loop 0 file st = None"
| "load_loop (Suc fuel) file st =
     (case fgets (ASCIILINESZ - length (ls_prefix st)) file of
        None \<Rightarrow> Some (Break st)
      | Some (chunk, rest, eof) \<Rightarrow>
          (case load_turn st chunk eof of
             Some (Next st') \<Rightarrow> load_loop fuel rest st'
           | r \<Rightarrow> r))"

definition load_start :: "dictionary \<Rightarrow> heap \<Rightarrow> load_state" where
  "load_start d hp = \<lparr>ls_dict = d, ls_bufs = \<lparr>ib_section = '''', ib_key = '''', ib_value = ''''\<rparr>,
     ls_prefix = '''', ls_lineno = 0, ls_errs = 0, ls_mem_err = 0, ls_log = [], ls_heap = hp\<rparr>"

text \<open>
  \<open>iniparser_load\<close>: the file's content (\<^const>\<open>None\<close> when it cannot be opened) to the dictionary
  and the reports. Every turn of the loop reads at least one character, so that
  \<open>Suc (length content)\<close> turns are enough (\<open>iniparser_load_safe\<close>).
\<close>

definition iniparser_load ::
  "heap \<Rightarrow> string option \<Rightarrow> (dictionary option \<times> ini_report list \<times> heap) option" where
  "iniparser_load hp file =
     (case file of
        None \<Rightarrow> Some (None, [Cannot_open], hp)
      | Some content \<Rightarrow>
          (case dictionary_new hp 0 of
             (None, hp) \<Rightarrow> Some (None, [], hp)
           | (Some d, hp) \<Rightarrow>
               (case load_loop (Suc (length content)) content (load_start d hp) of
                  None \<Rightarrow> None
                | Some (Return_null st) \<Rightarrow> Some (None, ls_log st, ls_heap st)
                | Some (Break st) \<Rightarrow>
                    Some (if 0 < ls_errs st then None else Some (ls_dict st), ls_log st, ls_heap st)
                | Some (Next st) \<Rightarrow> None)))"


section \<open>Buffers never overflow\<close>

text \<open>The number of strings a format can store, and that a format stores strings only.\<close>

fun n_conv :: "directive list \<Rightarrow> nat" where
  "n_conv [] = 0"
| "n_conv (Set _ asg # ds) = (if asg then Suc (n_conv ds) else n_conv ds)"
| "n_conv (Num _ _ _ # ds) = Suc (n_conv ds)"
| "n_conv (_ # ds) = n_conv ds"

definition strings_only :: "directive list \<Rightarrow> bool" where
  "strings_only ds \<longleftrightarrow> (\<forall>d \<in> set ds. case d of Num _ _ _ \<Rightarrow> False | _ \<Rightarrow> True)"

fun is_str :: "conv_val \<Rightarrow> bool" where
  "is_str (CStr _) = True"
| "is_str (CInt _) = False"

lemma scan_strings:
  "scan ds s vs = (r, vs', rest) \<Longrightarrow> strings_only ds \<Longrightarrow> \<forall>v \<in> set vs. is_str v \<Longrightarrow>
   (\<forall>v \<in> set vs'. is_str v) \<and> length vs' \<le> length vs + n_conv ds"
proof (induction ds s vs arbitrary: rule: scan.induct)
  case (4 P asg ds s vs)
  then show ?case by (fastforce simp: strings_only_def split: if_splits)
qed (auto simp: strings_only_def split: list.splits if_splits)

lemma store_all_fits:
  assumes "\<forall>v \<in> set vs. is_str v" "vals_len vs \<le> ASCIILINESZ" "length vs \<le> length bs"
    "\<forall>b \<in> set bs. length b \<le> ASCIILINESZ"
  shows "\<exists>bs'. store_all vs bs = Some bs' \<and> length bs' = length bs \<and>
    (\<forall>b \<in> set bs'. length b \<le> ASCIILINESZ)"
  using assms
proof (induction vs bs rule: store_all.induct)
  case (2 s vs b bs)
  then have "length s \<le> ASCIILINESZ" "vals_len vs \<le> ASCIILINESZ" by (auto simp: vals_len_def)
  with 2 show ?case by (auto simp: store_def)
qed auto

lemma sscanf_stores:
  assumes "sscanf ds line = (r, vs)" "strings_only ds" "n_conv ds \<le> length bs"
    "length line \<le> ASCIILINESZ" "\<forall>b \<in> set bs. length b \<le> ASCIILINESZ"
  shows "\<exists>bs'. store_all vs bs = Some bs' \<and> length bs' = length bs \<and>
    (\<forall>b \<in> set bs'. length b \<le> ASCIILINESZ)"
proof (rule store_all_fits)
  obtain rest where "scan ds line [] = (r, vs, rest)"
    using assms(1) by (auto simp: sscanf_def split: prod.splits)
  from scan_strings [OF this assms(2)] show "\<forall>v \<in> set vs. is_str v" "length vs \<le> length bs"
    using assms(3) by auto
  show "vals_len vs \<le> ASCIILINESZ" using sscanf_vals_len [OF assms(1)] assms(4) by simp
qed (fact assms(5))

definition bufs_ok :: "ini_bufs \<Rightarrow> bool" where
  "bufs_ok b \<longleftrightarrow> length (ib_section b) \<le> ASCIILINESZ \<and> length (ib_key b) \<le> ASCIILINESZ \<and>
     length (ib_value b) \<le> ASCIILINESZ"

lemma strip_end_length [simp]: "length (strip_end P s) \<le> length s"
  using length_dropWhile_le [of P "rev s"] by (simp add: strip_end_def)

lemma strip_def': "strip s = strip_end is_space (dropWhile is_space s)"
  by (simp add: strip_def strstrip_def Let_def)

lemma strip_length: "length (strip s) \<le> length s"
  unfolding strip_def'
  by (rule order.trans [OF strip_end_length length_dropWhile_le])

lemma strlwc_length: "length (the (strlwc (Some s) len)) \<le> length s \<or> len = 0"
  by (auto simp: strlwc_def)

lemma strlwc_strip_length: "0 < len \<Longrightarrow> length (the (strlwc (Some (strip s)) len)) \<le> length s"
  using strlwc_length [of "strip s" len] strip_length [of s] by auto

lemma formats_strings:
  "strings_only fmt_section" "strings_only fmt_dquoted" "strings_only fmt_squoted"
  "strings_only fmt_plain" "strings_only fmt_empty1" "strings_only fmt_empty2"
  by (simp_all add: strings_only_def fmt_section_def fmt_dquoted_def fmt_squoted_def
      fmt_plain_def fmt_empty1_def fmt_empty2_def)

lemma formats_count:
  "n_conv fmt_section = 1" "n_conv fmt_dquoted = 2" "n_conv fmt_squoted = 2"
  "n_conv fmt_plain = 2" "n_conv fmt_empty1 = 2" "n_conv fmt_empty2 = 2"
  by (simp_all add: fmt_section_def fmt_dquoted_def fmt_squoted_def
      fmt_plain_def fmt_empty1_def fmt_empty2_def)

lemma scan_kv_ok:
  assumes "strings_only fmt" "n_conv fmt = 2" "length line \<le> ASCIILINESZ" "bufs_ok b"
  obtains ok b' where "scan_kv fmt line b = Some (ok, b')" "bufs_ok b'"
proof -
  obtain r vs where sc: "sscanf fmt line = (r, vs)" by fastforce
  from sscanf_stores [OF sc assms(1), of "[ib_key b, ib_value b]"] assms
  obtain kv where kv: "store_all vs [ib_key b, ib_value b] = Some kv" "length kv = 2"
    "\<forall>b \<in> set kv. length b \<le> ASCIILINESZ" by (auto simp: bufs_ok_def)
  then have "bufs_ok (b\<lparr>ib_key := kv ! 0, ib_value := kv ! 1\<rparr>)"
    using assms(4) by (simp add: bufs_ok_def)
  with sc kv show thesis by (intro that) (auto simp: scan_kv_def)
qed

lemma scan_or_ok:
  assumes "strings_only fmt1" "n_conv fmt1 = 2" "strings_only fmt2" "n_conv fmt2 = 2"
    "length line \<le> ASCIILINESZ" "bufs_ok b"
  obtains ok b' where "scan_or fmt1 fmt2 line b = Some (ok, b')" "bufs_ok b'"
proof -
  from scan_kv_ok [OF assms(1,2,5,6)] obtain ok b1
    where 1: "scan_kv fmt1 line b = Some (ok, b1)" "bufs_ok b1" .
  from scan_kv_ok [OF assms(3,4,5) 1(2)] obtain ok2 b2
    where 2: "scan_kv fmt2 line b1 = Some (ok2, b2)" "bufs_ok b2" .
  from 1 2 show thesis by (cases ok) (auto intro!: that simp: scan_or_def)
qed

lemma key_done_ok: "bufs_ok b \<Longrightarrow> 0 < len \<Longrightarrow> bufs_ok (key_done len b)"
  using strlwc_strip_length [of len "ib_key b"] by (auto simp: bufs_ok_def key_done_def)

lemma value_ok: "bufs_ok b \<Longrightarrow> length v \<le> ASCIILINESZ \<Longrightarrow> bufs_ok (b\<lparr>ib_value := v\<rparr>)"
  by (simp add: bufs_ok_def)

lemma line_values_ok:
  assumes "length line \<le> ASCIILINESZ" "bufs_ok b" "0 < len"
  obtains sta b' where "line_values line len b = Some (sta, b')" "bufs_ok b'"
    "sta = LINE_VALUE \<or> sta = LINE_ERROR"
proof -
  note fmts = formats_strings formats_count
  from scan_or_ok [OF fmts(2,8,3,9) assms(1,2)] obtain q b1
    where 1: "scan_or fmt_dquoted fmt_squoted line b = Some (q, b1)" "bufs_ok b1" .
  from scan_kv_ok [OF fmts(4,10) assms(1) 1(2)] obtain p b2
    where 2: "scan_kv fmt_plain line b1 = Some (p, b2)" "bufs_ok b2" .
  from scan_or_ok [OF fmts(5,11,6,12) assms(1) 2(2)] obtain e b3
    where 3: "scan_or fmt_empty1 fmt_empty2 line b2 = Some (e, b3)" "bufs_ok b3" .
  have v: "length (strip (ib_value (key_done len b2))) \<le> ASCIILINESZ"
    using strip_length [of "ib_value (key_done len b2)"] key_done_ok [OF 2(2) assms(3)]
    by (auto simp: bufs_ok_def)
  show thesis
    using 1 2 3 v assms(3)
    by (cases q; cases p; cases e)
      (auto intro!: that value_ok key_done_ok simp: line_values_def Let_def)
qed

lemma iniparser_line_ok:
  assumes "length line \<le> ASCIILINESZ" "bufs_ok b"
  obtains sta b' hp' where "iniparser_line hp line b = Some (sta, b', hp')" "bufs_ok b'"
    "sta \<noteq> LINE_UNPROCESSED"
proof -
  obtain dup hp' where x: "xstrdup hp (Some line) = (dup, hp')" by fastforce
  obtain len t where t: "strstrip dup = (len, t)" by fastforce
  show thesis
  proof (cases "len < 1")
    case True
    with x t assms show thesis by (intro that) (auto simp: iniparser_line_def)
  next
    case False
    with x t have dup: "dup = Some line" "t = Some (strip line)" "len = length (strip line)"
      by (auto simp: xstrdup_def strstrip_def strip_def Let_def split: prod.splits if_splits)
    have len: "length (strip line) \<le> ASCIILINESZ"
      using strip_length [of line] assms(1) by simp
    obtain r vs where sc: "sscanf fmt_section (strip line) = (r, vs)" by fastforce
    from sscanf_stores [OF sc, of "[ib_section b]"] len assms(2)
    obtain bs where bs: "store_all vs [ib_section b] = Some bs" "length bs = 1"
      "\<forall>b \<in> set bs. length b \<le> ASCIILINESZ"
      by (auto simp: formats_strings formats_count bufs_ok_def)
    then have sec: "bufs_ok (b\<lparr>ib_section := the (strlwc (Some (strip (bs ! 0))) len)\<rparr>)"
      using assms(2) strlwc_strip_length [of len "bs ! 0"] False nth_mem [of 0 bs]
      by (fastforce simp: bufs_ok_def)
    from line_values_ok [OF len assms(2), of len] False obtain sta b'
      where lv: "line_values (strip line) len b = Some (sta, b')" "bufs_ok b'"
      "sta = LINE_VALUE \<or> sta = LINE_ERROR" by auto
    show thesis
      using x t False dup(2) sc bs(1) sec lv assms(2)
      by (cases "strip line ! 0 = CHR ''#'' \<or> strip line ! 0 = CHR '';''";
          cases "strip line ! 0 = CHR ''['' \<and> strip line ! (len - 1) = CHR '']''")
        (auto intro!: that simp: iniparser_line_def Let_def)
  qed
qed

section \<open>Loading is safe\<close>

text \<open>
  The invariant of the load loop; the last conjunct ties the error counter to the reports.
\<close>

definition syntax_reported :: "ini_report list \<Rightarrow> bool" where
  "syntax_reported log \<longleftrightarrow> (\<exists>n l. Syntax_error n l \<in> set log)"

definition too_long_reported :: "ini_report list \<Rightarrow> bool" where
  "too_long_reported log \<longleftrightarrow> (\<exists>n. Line_too_long n \<in> set log)"

lemma reported_append [simp]:
  "syntax_reported (log @ [Syntax_error n l])"
  "syntax_reported (log @ [Memory_failure]) = syntax_reported log"
  "syntax_reported (log @ [Line_too_long n]) = syntax_reported log"
  "too_long_reported (log @ [Syntax_error n l]) = too_long_reported log"
  "too_long_reported (log @ [Memory_failure]) = too_long_reported log"
  "too_long_reported (log @ [Line_too_long n])"
  by (auto simp: syntax_reported_def too_long_reported_def)

definition load_inv :: "load_state \<Rightarrow> bool" where
  "load_inv st \<longleftrightarrow> dict_wf (ls_dict st) \<and> bufs_ok (ls_bufs st) \<and>
     length (ls_prefix st) \<le> ASCIILINESZ - 2 \<and>
     (0 < ls_errs st \<longleftrightarrow> syntax_reported (ls_log st)) \<and> \<not> too_long_reported (ls_log st)"

text \<open>Where a turn may end.\<close>

fun exit_inv :: "load_exit \<Rightarrow> bool" where
  "exit_inv (Next st) = load_inv st"
| "exit_inv (Break st) = load_inv st"
| "exit_inv (Return_null st) = too_long_reported (ls_log st)"

lemma ls_set_inv:
  assumes "load_inv st"
  obtains st' where "ls_set st key val = Some st'" "load_inv st'"
proof -
  obtain r d' hp' where
    "dictionary_set (ls_heap st) (Some (ls_dict st)) (Some key) val = Some (r, Some d', hp')"
    "dict_wf d'" using assms dict_set_total [of "ls_dict st"] by (fastforce simp: load_inv_def)
  then show thesis using assms
    by (intro that [of "st\<lparr>ls_dict := d', ls_heap := hp', ls_mem_err := r\<rparr>"])
      (auto simp: ls_set_def load_inv_def)
qed

lemma load_switch_inv:
  assumes "load_inv st"
  obtains st' where "load_switch st line sta = Some st'" "load_inv st'"
proof (cases sta)
  case LINE_SECTION
  with ls_set_inv [OF assms] show thesis by (metis that load_switch_def line_status.simps)
next
  case LINE_VALUE
  have "length (ib_section (ls_bufs st) @ '':'' @ ib_key (ls_bufs st)) < ASCIILINESZ * 2 + 2"
    using assms by (auto simp: load_inv_def bufs_ok_def)
  then have "store (ASCIILINESZ * 2 + 2) (ib_section (ls_bufs st) @ '':'' @ ib_key (ls_bufs st)) =
      Some (ib_section (ls_bufs st) @ '':'' @ ib_key (ls_bufs st))" by (simp add: store_def)
  moreover obtain st' where "ls_set st (ib_section (ls_bufs st) @ '':'' @ ib_key (ls_bufs st))
      (Some (ib_value (ls_bufs st))) = Some st'" "load_inv st'" by (rule ls_set_inv [OF assms])
  ultimately show thesis using LINE_VALUE by (intro that) (auto simp: load_switch_def)
qed (use assms in \<open>auto intro!: that simp: load_switch_def load_inv_def\<close>)

lemma load_body_inv:
  assumes "load_inv st" "length line \<le> ASCIILINESZ"
  obtains e where "load_body st line = Some e" "exit_inv e"
proof -
  from assms(1) have "bufs_ok (ls_bufs st)" by (simp add: load_inv_def)
  from iniparser_line_ok [OF assms(2) this] obtain sta b hp
    where l: "iniparser_line (ls_heap st) line (ls_bufs st) = Some (sta, b, hp)" "bufs_ok b" .
  with assms(1) have "load_inv (st\<lparr>ls_bufs := b, ls_heap := hp\<rparr>)" by (simp add: load_inv_def)
  from load_switch_inv [OF this] obtain st'
    where sw: "load_switch (st\<lparr>ls_bufs := b, ls_heap := hp\<rparr>) line sta = Some st'" "load_inv st'" .
  show thesis
  proof (cases "ls_mem_err st' < 0")
    case True
    with l sw show thesis
      by (intro that [of "Break (st'\<lparr>ls_prefix := [], ls_log := ls_log st' @ [Memory_failure]\<rparr>)"])
        (auto simp: load_body_def Let_def load_inv_def)
  next
    case False
    with l sw show thesis
      by (intro that [of "Next (st'\<lparr>ls_prefix := []\<rparr>)"])
        (auto simp: load_body_def Let_def load_inv_def)
  qed
qed

lemma load_turn_inv:
  assumes "load_inv st" "length (ls_prefix st @ chunk) \<le> ASCIILINESZ - 1"
  obtains e where "load_turn st chunk eof = Some e" "exit_inv e"
proof -
  let ?st = "st\<lparr>ls_lineno := Suc (ls_lineno st)\<rparr>"
  let ?read = "c_string (ls_prefix st @ chunk)"
  let ?line = "strip_end (\<lambda>c. c = NL \<or> is_space c) ?read"
  have inv: "load_inv ?st" using assms(1) by (simp add: load_inv_def)
  have pre: "ls_prefix ?st = ls_prefix st" by simp
  have len: "length ?line \<le> ASCIILINESZ - 1"
    using strip_end_length [of "\<lambda>c. c = NL \<or> is_space c" ?read] c_string_length [of "ls_prefix st @ chunk"] assms(2)
    by (simp del: strip_end_length)
  then have "length ?line \<le> ASCIILINESZ" by simp
  from load_body_inv [OF inv this] obtain e where b: "load_body ?st ?line = Some e" "exit_inv e" .
  have p: "load_inv (?st\<lparr>ls_prefix := butlast ?line\<rparr>)"
    using inv len by (simp add: load_inv_def)
  consider (short) "length ?read \<le> 1"
    | (long) "\<not> length ?read \<le> 1" "last ?read \<noteq> NL \<and> \<not> eof"
    | (multi) "\<not> length ?read \<le> 1" "\<not> (last ?read \<noteq> NL \<and> \<not> eof)"
        "?line \<noteq> [] \<and> last ?line = CHR 0x5C"
    | (one) "\<not> length ?read \<le> 1" "\<not> (last ?read \<noteq> NL \<and> \<not> eof)"
        "\<not> (?line \<noteq> [] \<and> last ?line = CHR 0x5C)" by blast
  then show thesis
  proof cases
    case short
    then show thesis using inv by (intro that [of "Next ?st"]) (auto simp: load_turn_def Let_def)
  next
    case long
    let ?r = "Return_null (?st\<lparr>ls_log := ls_log st @ [Line_too_long (Suc (ls_lineno st))]\<rparr>)"
    have "load_turn st chunk eof = Some ?r" using long by (simp add: load_turn_def Let_def)
    then show thesis by (rule that) simp
  next
    case multi
    then have "load_turn st chunk eof = Some (Next (?st\<lparr>ls_prefix := butlast ?line\<rparr>))"
      by (simp add: load_turn_def Let_def)
    then show thesis by (rule that) (use p in simp)
  next
    case one
    then have "load_turn st chunk eof = load_body ?st ?line"
      by (simp only: load_turn_def Let_def pre if_False one)
    with b show thesis by (auto intro: that)
  qed
qed

lemma fgets_chars_length:
  "fgets_chars n s = (l, r) \<Longrightarrow> length l \<le> n \<and> length l + length r = length s \<and>
   (0 < n \<longrightarrow> s \<noteq> [] \<longrightarrow> l \<noteq> [])"
proof (induction n s arbitrary: l r rule: fgets_chars.induct)
  case (3 n c cs)
  then show ?case by (auto split: if_splits prod.splits)
qed auto

lemma load_loop_inv:
  "load_inv st \<Longrightarrow> length input < fuel \<Longrightarrow>
   \<exists>e. load_loop fuel input st = Some e \<and> exit_inv e \<and> (\<forall>st'. e \<noteq> Next st')"
proof (induction fuel arbitrary: input st)
  case (Suc fuel)
  let ?n = "ASCIILINESZ - length (ls_prefix st)"
  have pre: "length (ls_prefix st) \<le> ASCIILINESZ - 2" using Suc.prems(1) by (simp add: load_inv_def)
  show ?case
  proof (cases "input = []")
    case True
    with Suc.prems show ?thesis by (auto simp: fgets_def)
  next
    case False
    obtain l r where lr: "fgets_chars (?n - 1) input = (l, r)" by fastforce
    let ?eof = "length l < ?n - 1 \<and> (l = [] \<or> last l \<noteq> NL)"
    have f: "fgets ?n input = Some (l, r, ?eof)" using False lr by (simp add: fgets_def)
    from fgets_chars_length [OF lr] have len: "length l \<le> ?n - 1" "length r < length input"
      using False pre by (cases l; auto simp: ASCIILINESZ_def)+
    have "length (ls_prefix st @ l) \<le> ASCIILINESZ - 1"
      using len(1) pre by (simp add: ASCIILINESZ_def)
    from load_turn_inv [OF Suc.prems(1) this] obtain e
      where e: "load_turn st l ?eof = Some e" "exit_inv e" .
    show ?thesis
    proof (cases e)
      case (Next st')
      have "load_inv st'" "length r < fuel" using Next e(2) len(2) Suc.prems(2) by auto
      from Suc.IH [OF this] f e(1) Next show ?thesis by simp
    qed (use f e in auto)
  qed
qed simp

lemma heap_alloc_granted:
  "False \<notin> set (take (Suc k) hp) \<Longrightarrow> heap_alloc hp = (True, tl hp) \<and> (False \<notin> set (take k (tl hp)))"
  by (cases hp) auto

lemma dictionary_new_ok:
  assumes "False \<notin> set (take 4 hp)"
  obtains d where "dictionary_new hp 0 = (Some d, tl (tl (tl (tl hp))))" "dict_inv d"
proof -
  have "False \<notin> set (take (Suc 3) hp)" using assms by simp
  from heap_alloc_granted [OF this]
  have 1: "heap_alloc hp = (True, tl hp)" "False \<notin> set (take (Suc 2) (tl hp))" by auto
  from heap_alloc_granted [OF 1(2)]
  have 2: "heap_alloc (tl hp) = (True, tl (tl hp))" "False \<notin> set (take (Suc 1) (tl (tl hp)))"
    by (auto simp: numeral_2_eq_2)
  from heap_alloc_granted [OF 2(2)]
  have 3: "heap_alloc (tl (tl hp)) = (True, tl (tl (tl hp)))"
    "False \<notin> set (take (Suc 0) (tl (tl (tl hp))))" by auto
  from heap_alloc_granted [OF 3(2)]
  have 4: "heap_alloc (tl (tl (tl hp))) = (True, tl (tl (tl (tl hp))))" by simp
  let ?d = "\<lparr>d_n = 0, d_size = DICTMINSZ, d_val = replicate DICTMINSZ None,
    d_key = replicate DICTMINSZ None, d_hash = replicate DICTMINSZ 0\<rparr>"
  have pos: "0 < DICTMINSZ" by (simp add: DICTMINSZ_def)
  have new: "dictionary_new hp 0 = (Some ?d, tl (tl (tl (tl hp))))"
    unfolding dictionary_new_def Let_def 1(1) 2(1) 3(1) 4 prod.case by (simp add: pos)
  have "dict_inv ?d" using pos by (simp add: dict_inv_def dict_wf_def)
  with new show thesis by (rule that)
qed

section \<open>What a simple file loads to\<close>

text \<open>
  Files of section lines and \<open>key = value\<close> lines over characters that are not syntax.
\<close>

datatype ini_item = Section string | Entry string string

definition field_char :: "char \<Rightarrow> bool" where
  "field_char c \<longleftrightarrow> c \<notin> {NL, CHR ''#'', CHR '';'', CHR ''['', CHR '']'', CHR ''='', CHR 0x22, CHR 0x27, CHR 0x5C, CHR 0x00}"

definition field :: "string \<Rightarrow> bool" where
  "field s \<longleftrightarrow> s \<noteq> [] \<and> \<not> is_space (hd s) \<and> \<not> is_space (last s) \<and> (\<forall>c \<in> set s. field_char c)"

fun item_text :: "ini_item \<Rightarrow> string" where
  "item_text (Section s) = ''['' @ s @ '']''"
| "item_text (Entry k v) = k @ '' = '' @ v"

fun item_ok :: "ini_item \<Rightarrow> bool" where
  "item_ok (Section s) \<longleftrightarrow> field s \<and> length s \<le> 1020"
| "item_ok (Entry k v) \<longleftrightarrow> field k \<and> field v \<and> length k + length v \<le> 1019"

definition lower :: "string \<Rightarrow> string" where
  "lower s = map to_lower s"

text \<open>The bindings a file stands for, in order: a section name has the value NULL.\<close>

fun bindings :: "string \<Rightarrow> ini_item list \<Rightarrow> (string \<times> string option) list" where
  "bindings sec [] = []"
| "bindings sec (Section s # xs) = (lower s, None) # bindings (lower s) xs"
| "bindings sec (Entry k v # xs) = (sec @ '':'' @ lower k, Some v) # bindings sec xs"

lemma dropWhile_id: "\<not> P (hd s) \<Longrightarrow> dropWhile P s = s"
  by (cases s) auto

lemma strip_end_id: "s \<noteq> [] \<Longrightarrow> \<not> P (last s) \<Longrightarrow> strip_end P s = s"
  by (simp add: strip_end_def dropWhile_id hd_rev)

lemma strip_end_snoc: "P c \<Longrightarrow> strip_end P (s @ [c]) = strip_end P s"
  by (simp add: strip_end_def)

lemma strip_id: "s \<noteq> [] \<Longrightarrow> \<not> is_space (hd s) \<Longrightarrow> \<not> is_space (last s) \<Longrightarrow> strip s = s"
  by (simp add: strip_def' strip_end_id dropWhile_id)

lemma field_strip: "field s \<Longrightarrow> strip s = s"
  by (simp add: field_def strip_id)

lemma field_strip_blank:
  assumes "field s"
  shows "strip (s @ '' '') = s"
proof -
  have "dropWhile is_space (s @ '' '') = s @ '' ''"
    using assms by (simp add: field_def dropWhile_eq_self_iff)
  then show ?thesis using assms
    by (simp add: strip_def' strip_end_snoc strip_end_id field_def is_space_def)
qed

lemma field_chars:
  assumes "field s"
  shows "\<forall>c \<in> set s. c \<noteq> CHR ''='' \<and> c \<noteq> CHR '']'' \<and> c \<noteq> CHR '';'' \<and> c \<noteq> CHR ''#'' \<and> c \<noteq> NL \<and> c \<noteq> CHR 0x00"
  using assms by (auto simp: field_def field_char_def)

lemma field_hd:
  assumes "field s"
  shows "s \<noteq> []" "hd s \<noteq> CHR ''#''" "hd s \<noteq> CHR '';''" "hd s \<noteq> CHR ''[''" "hd s \<noteq> CHR 0x22"
    "hd s \<noteq> CHR 0x27" "\<not> is_space (hd s)"
proof -
  have "s \<noteq> []" "field_char (hd s)" "\<not> is_space (hd s)" using assms by (auto simp: field_def)
  then show "s \<noteq> []" "hd s \<noteq> CHR ''#''" "hd s \<noteq> CHR '';''" "hd s \<noteq> CHR ''[''" "hd s \<noteq> CHR 0x22"
    "hd s \<noteq> CHR 0x27" "\<not> is_space (hd s)" by (auto simp: field_char_def)
qed

lemma takeWhile_until: "\<forall>c \<in> set s. P c \<Longrightarrow> \<not> P x \<Longrightarrow> takeWhile P (s @ x # t) = s"
  by (induction s) auto

lemma dropWhile_until: "\<forall>c \<in> set s. P c \<Longrightarrow> \<not> P x \<Longrightarrow> dropWhile P (s @ x # t) = x # t"
  by (induction s) auto

lemma field_store: "length s \<le> ASCIILINESZ \<Longrightarrow> store (ASCIILINESZ + 1) s = Some s"
  by (simp add: store_def)

lemma strlwc_all: "length s < len \<Longrightarrow> the (strlwc (Some s) len) = lower s"
  by (simp add: strlwc_def lower_def)

lemma line_prep:
  assumes "strip line = line" "line \<noteq> []"
  shows "xstrdup [] (Some line) = (Some line, [])" "strstrip (Some line) = (length line, Some line)"
  using assms(1) by (simp_all add: xstrdup_def strip_def strstrip_def Let_def)

lemma line_section:
  assumes "field s" "length s \<le> 1020"
  shows "iniparser_line [] (item_text (Section s)) b = Some (LINE_SECTION, b\<lparr>ib_section := lower s\<rparr>, [])"
proof -
  let ?line = "''['' @ s @ '']''"
  have id: "strip ?line = ?line" by (rule strip_id) (simp_all add: is_space_def)
  have tw: "takeWhile (\<lambda>c. c \<noteq> CHR '']'') (s @ '']'') = s"
    by (rule takeWhile_until) (use field_chars [OF assms(1)] in auto)
  have "sscanf fmt_section ?line = (1, [CStr s])"
    using tw field_hd(1) [OF assms(1)] by (simp add: sscanf_def fmt_section_def)
  moreover have "store (ASCIILINESZ + 1) s = Some s"
    using assms(2) by (simp add: store_def ASCIILINESZ_def)
  ultimately show ?thesis
    using line_prep [OF id] field_strip [OF assms(1)] strlwc_all [of s "length ?line"]
    by (simp add: iniparser_line_def Let_def nth_append)
qed

lemma scan_key:
  assumes "field k" "field v"
  shows "scan (Set (\<lambda>c. c \<noteq> CHR ''='') True # Ws # Lit (CHR ''='') # Ws # ds) (k @ '' = '' @ v) [] =
    scan ds v [CStr (k @ '' '')]"
proof -
  have P: "\<forall>c \<in> set (k @ '' ''). c \<noteq> CHR ''=''" using field_chars [OF assms(1)] by auto
  have tw: "takeWhile (\<lambda>c. c \<noteq> CHR ''='') ((k @ '' '') @ CHR ''='' # '' '' @ v) = k @ '' ''"
    by (rule takeWhile_until [OF P]) simp
  have dw: "dropWhile (\<lambda>c. c \<noteq> CHR ''='') ((k @ '' '') @ CHR ''='' # '' '' @ v) = CHR ''='' # '' '' @ v"
    by (rule dropWhile_until [OF P]) simp
  have v: "dropWhile is_space ('' '' @ v) = v"
    using field_hd(1,7) [OF assms(2)] by (simp add: is_space_def [of "CHR '' ''"] dropWhile_eq_self_iff)
  show ?thesis using tw dw v by (simp add: is_space_def [of "CHR ''=''"] is_space_def [of "CHR '' ''"])
qed

lemma line_entry:
  assumes "field k" "field v" "length k + length v \<le> 1019"
  shows "iniparser_line [] (item_text (Entry k v)) b =
    Some (LINE_VALUE, b\<lparr>ib_key := lower k, ib_value := v\<rparr>, [])"
proof -
  let ?line = "k @ '' = '' @ v"
  note k = field_hd [OF assms(1)] and v = field_hd [OF assms(2)]
  have id: "strip ?line = ?line"
    by (rule strip_id) (use k v assms(2) in \<open>auto simp: field_def\<close>)
  have h: "?line ! 0 = hd k" using k(1) by (simp add: hd_conv_nth nth_append)
  have st: "store (ASCIILINESZ + 1) (k @ '' '') = Some (k @ '' '')"
    "store (ASCIILINESZ + 1) v = Some v" using assms(3) by (simp_all add: store_def ASCIILINESZ_def)
  obtain c v' where cv: "v = c # v'" "c \<noteq> CHR 0x22" "c \<noteq> CHR 0x27" using v(1,5,6) by (cases v) auto
  have q: "sscanf fmt_dquoted ?line = (1, [CStr (k @ '' '')])"
    "sscanf fmt_squoted ?line = (1, [CStr (k @ '' '')])"
    using cv scan_key [OF assms(1,2)]
    by (simp_all add: sscanf_def fmt_dquoted_def fmt_squoted_def scan_fail_def)
  have tw: "takeWhile (\<lambda>c. c \<noteq> CHR '';'' \<and> c \<noteq> CHR ''#'') v = v"
    using field_chars [OF assms(2)] by (simp add: takeWhile_eq_all_conv)
  have p: "sscanf fmt_plain ?line = (2, [CStr (k @ '' ''), CStr v])"
    unfolding sscanf_def fmt_plain_def scan_key [OF assms(1,2)]
    using v(1) by (simp add: tw del: takeWhile_eq_all_conv)
  have "v \<noteq> [CHR 0x22, CHR 0x22]" "v \<noteq> [CHR 0x27, CHR 0x27]" using v(5,6) by auto
  then have "line_values ?line (length ?line) b = Some (LINE_VALUE, b\<lparr>ib_key := lower k, ib_value := v\<rparr>)"
    using q p st field_strip_blank [OF assms(1)] field_strip [OF assms(2)]
      strlwc_all [of k "length ?line"]
    by (simp add: line_values_def scan_or_def scan_kv_def key_done_def Let_def)
  then show ?thesis
    using line_prep [OF id] h k by (simp add: iniparser_line_def Let_def)
qed

lemma dict_set_put:
  assumes "dict_inv d"
  shows "dictionary_set [] (Some d) (Some k) v = Some (0, Some (dict_put d k v), [])"
proof -
  obtain d' where "dictionary_set [] (Some d) (Some k) v = Some (0, Some d', [])"
    using dict_set_ok [OF assms] by blast
  then show ?thesis by (simp add: dict_put_def)
qed

lemma fgets_line: "NL \<notin> set l \<Longrightarrow> length l < n \<Longrightarrow> fgets_chars n (l @ NL # r) = (l @ [NL], r)"
proof (induction l arbitrary: n)
  case Nil
  then show ?case by (cases n) auto
next
  case (Cons c l)
  then show ?case by (cases n) auto
qed

text \<open>The state between the lines of a file without errors.\<close>

definition calm :: "load_state \<Rightarrow> bool" where
  "calm st \<longleftrightarrow> dict_inv (ls_dict st) \<and> ls_prefix st = [] \<and> ls_errs st = 0 \<and> ls_mem_err st = 0 \<and>
     ls_log st = [] \<and> ls_heap st = []"

fun item_effect :: "ini_item \<Rightarrow> load_state \<Rightarrow> load_state" where
  "item_effect (Section s) st =
     st\<lparr>ls_lineno := Suc (ls_lineno st), ls_bufs := (ls_bufs st)\<lparr>ib_section := lower s\<rparr>,
        ls_dict := dict_put (ls_dict st) (lower s) None\<rparr>"
| "item_effect (Entry k v) st =
     st\<lparr>ls_lineno := Suc (ls_lineno st), ls_bufs := (ls_bufs st)\<lparr>ib_key := lower k, ib_value := v\<rparr>,
        ls_dict := dict_put (ls_dict st) (ib_section (ls_bufs st) @ '':'' @ lower k) (Some v)\<rparr>"

lemma item_effect_calm: "calm st \<Longrightarrow> calm (item_effect it st)"
  by (cases it) (auto simp: calm_def dict.ok_put)

lemma item_effect_bufs:
  "length (ib_section (ls_bufs st)) \<le> 1020 \<Longrightarrow> item_ok it \<Longrightarrow>
   length (ib_section (ls_bufs (item_effect it st))) \<le> 1020"
  by (cases it) (auto simp: lower_def)

lemma load_body_item:
  assumes "calm st" "item_ok it" "length (ib_section (ls_bufs st)) \<le> 1020"
  shows "load_body (st\<lparr>ls_lineno := Suc (ls_lineno st)\<rparr>) (item_text it) = Some (Next (item_effect it st))"
proof (cases it)
  case (Section s)
  then have "field s" "length s \<le> 1020" using assms(2) by auto
  then show ?thesis using Section assms(1) dict_set_put [of "ls_dict st"]
    by (simp add: load_body_def line_section load_switch_def ls_set_def calm_def del: item_text.simps)
next
  case (Entry k v)
  then have kv: "field k" "field v" "length k + length v \<le> 1019" using assms(2) by auto
  have "store (ASCIILINESZ * 2 + 2) (ib_section (ls_bufs st) @ '':'' @ lower k) =
      Some (ib_section (ls_bufs st) @ '':'' @ lower k)"
    using kv(3) assms(3) by (simp add: store_def ASCIILINESZ_def lower_def)
  then show ?thesis using Entry assms(1) dict_set_put [of "ls_dict st"] kv
    by (simp add: load_body_def line_entry load_switch_def ls_set_def calm_def del: item_text.simps)
qed

lemma item_text_shape:
  assumes "item_ok it"
  shows "NL \<notin> set (item_text it)" "length (item_text it) < 1023" "item_text it \<noteq> []"
    "\<not> is_space (last (item_text it))" "last (item_text it) \<noteq> CHR 0x5C" "CHR 0x00 \<notin> set (item_text it)"
proof -
  have fl: "field v \<Longrightarrow> last v \<noteq> CHR 0x5C" for v
    by (auto simp: field_def field_char_def)
  show "NL \<notin> set (item_text it)"
    using assms field_chars by (cases it) auto
  show "CHR 0x00 \<notin> set (item_text it)"
    using assms field_chars by (cases it) auto
  show "length (item_text it) < 1023" "item_text it \<noteq> []" using assms by (cases it; simp)+
  show "\<not> is_space (last (item_text it))"
    using assms by (cases it) (auto simp: field_def is_space_def [of "CHR '']''"])
  show "last (item_text it) \<noteq> CHR 0x5C" using assms fl by (cases it) (auto simp: field_def)
qed

lemma load_turn_item:
  assumes "calm st" "item_ok it" "length (ib_section (ls_bufs st)) \<le> 1020"
  shows "load_turn st (item_text it @ [NL]) eof = Some (Next (item_effect it st))"
proof -
  note t = item_text_shape [OF assms(2)]
  have "strip_end (\<lambda>c. c = NL \<or> is_space c) (item_text it @ [NL]) = item_text it"
    unfolding strip_end_snoc [where P = "\<lambda>c. c = NL \<or> is_space c" and c = NL, simplified]
    by (rule strip_end_id) (use t(3,4) is_space_def [of NL] in auto)
  moreover have "ls_prefix st = []" using assms(1) by (simp add: calm_def)
  moreover have "c_string (item_text it @ [NL]) = item_text it @ [NL]" by (rule c_string_id) (use t(6) in auto)
  ultimately show ?thesis
    using t(3,5) load_body_item [OF assms] by (simp add: load_turn_def Let_def)
qed

lemma load_loop_items:
  assumes "calm st" "\<forall>it \<in> set its. item_ok it" "length (ib_section (ls_bufs st)) \<le> 1020"
    "length its < fuel"
  shows "\<exists>st'. load_loop fuel (concat (map (\<lambda>it. item_text it @ [NL]) its)) st = Some (Break st') \<and>
    calm st' \<and>
    ls_dict st' = foldl (\<lambda>d (k, v). dict_put d k v) (ls_dict st) (bindings (ib_section (ls_bufs st)) its)"
  using assms
proof (induction its arbitrary: st fuel)
  case Nil
  then show ?case by (cases fuel) (auto simp: fgets_def)
next
  case (Cons it its)
  obtain fuel' where fuel: "fuel = Suc fuel'" using Cons.prems(4) by (cases fuel) auto
  have ok: "item_ok it" using Cons.prems(2) by simp
  let ?rest = "concat (map (\<lambda>it. item_text it @ [NL]) its)"
  have pre: "ls_prefix st = []" using Cons.prems(1) by (simp add: calm_def)
  have "fgets_chars 1023 (item_text it @ NL # ?rest) = (item_text it @ [NL], ?rest)"
    by (rule fgets_line) (use item_text_shape [OF ok] in auto)
  then have "\<exists>eof. fgets ASCIILINESZ (item_text it @ NL # ?rest) = Some (item_text it @ [NL], ?rest, eof)"
    by (auto simp: fgets_def ASCIILINESZ_def)
  then obtain eof where
    f: "fgets ASCIILINESZ (item_text it @ NL # ?rest) = Some (item_text it @ [NL], ?rest, eof)" by blast
  have step: "load_loop fuel (concat (map (\<lambda>it. item_text it @ [NL]) (it # its))) st =
      load_loop fuel' ?rest (item_effect it st)"
    using load_turn_item [OF Cons.prems(1) ok Cons.prems(3)] f pre fuel by simp
  have "calm (item_effect it st)" "length (ib_section (ls_bufs (item_effect it st))) \<le> 1020"
    using item_effect_calm [OF Cons.prems(1)] item_effect_bufs [OF Cons.prems(3) ok] by auto
  from Cons.IH [OF this(1) _ this(2), of fuel'] Cons.prems(2,4) fuel obtain st' where
    "load_loop fuel' ?rest (item_effect it st) = Some (Break st')" "calm st'"
    "ls_dict st' = foldl (\<lambda>d (k, v). dict_put d k v) (ls_dict (item_effect it st))
       (bindings (ib_section (ls_bufs (item_effect it st))) its)" by auto
  moreover have "bindings (ib_section (ls_bufs st)) (it # its) =
      (case it of Section s \<Rightarrow> (lower s, None)
       | Entry k v \<Rightarrow> (ib_section (ls_bufs st) @ '':'' @ lower k, Some v))
      # bindings (ib_section (ls_bufs (item_effect it st))) its" by (cases it) auto
  ultimately show ?case using step by (cases it) auto
qed

lemma items_fuel: "length its \<le> length (concat (map (\<lambda>it. item_text it @ [NL]) its))"
  by (induction its) auto

section \<open>The names of the sections\<close>

definition section_names :: "dictionary \<Rightarrow> string list" where
  "section_names d = [k. Some k \<leftarrow> d_key d, CHR '':'' \<notin> set k]"

lemma count_sections_names:
  "count_sections ks = length [k. Some k \<leftarrow> ks, CHR '':'' \<notin> set k]"
  by (induction ks rule: count_sections.induct) auto

lemma secname_loop_names:
  "found \<le> n \<Longrightarrow> secname_loop ks found n =
   (let names = [k. Some k \<leftarrow> ks, CHR '':'' \<notin> set k] in
    if nat (n - found) < length names then Some (names ! nat (n - found)) else None)"
proof (induction ks found n rule: secname_loop.induct)
  case (3 k ks found n)
  show ?case
  proof (cases "CHR '':'' \<notin> set k \<and> found < n")
    case True
    then have "found < n" by simp
    then have "nat (n - found) = Suc (nat (n - (found + 1)))" by arith
    with 3 True show ?thesis by (simp add: Let_def)
  next
    case False
    with 3 show ?thesis by (auto simp: Let_def)
  qed
qed auto


section \<open>Properties\<close>

text \<open>
  C22: whatever bytes the file holds, NULs included, and whenever the allocator fails after the dictionary was
  made, \<open>iniparser_load\<close> returns: its loop ends, no buffer overflows, the empty slots it
  probes for exist. It returns NULL exactly when it reported a line too long or a syntax
  error, and otherwise a well-formed dictionary.
\<close>

theorem iniparser_load_safe:
  assumes "False \<notin> set (take 4 hp)"
  shows "\<exists>d log hp'. iniparser_load hp (Some content) = Some (d, log, hp') \<and>
    (d = None \<longleftrightarrow> too_long_reported log \<or> syntax_reported log) \<and>
    (\<forall>d'. d = Some d' \<longrightarrow> dict_wf d')"
proof -
  obtain d hp' where new: "dictionary_new hp 0 = (Some d, hp')" "dict_inv d"
    using dictionary_new_ok [OF assms] by metis
  then have "load_inv (load_start d hp')"
    by (auto simp: load_inv_def load_start_def bufs_ok_def syntax_reported_def too_long_reported_def)
  from load_loop_inv [OF this, of content "Suc (length content)"] obtain e
    where e: "load_loop (Suc (length content)) content (load_start d hp') = Some e" "exit_inv e"
      "\<forall>st'. e \<noteq> Next st'" by blast
  then show ?thesis using new(1)
    by (cases e) (auto simp: iniparser_load_def load_inv_def simp del: load_loop.simps)
qed

theorem iniparser_load_safe_witness:
  "\<exists>d log hp'. iniparser_load [True, True, True, True, False] (Some ''[s]'') = Some (d, log, hp')"
  using iniparser_load_safe [of "[True, True, True, True, False]" "''[s]''"] by auto

text \<open>
  C12: when no allocation fails, a file of section lines and \<open>key = value\<close> lines, all ended by a newline and
  short enough for the line buffer (a section name of at most 1020 characters, a key and its value of
  at most 1019 together), over characters that are neither syntax nor NUL, loads without a report, and the dictionary has exactly the bindings it stands for:
  section names and keys in lower case, a key under the section that precedes it, the last
  value of a key that occurs twice.
\<close>

theorem iniparser_load_parses:
  assumes "\<forall>it \<in> set its. item_ok it"
  shows "\<exists>d. iniparser_load [] (Some (concat (map (\<lambda>it. item_text it @ [NL]) its))) = Some (Some d, [], []) \<and>
    dict_inv d \<and> dict_map d = map_of (rev (bindings [] its))"
proof -
  let ?file = "concat (map (\<lambda>it. item_text it @ [NL]) its)"
  obtain d where new: "dictionary_new [] 0 = (Some d, [])" "dict_inv d"
    using dictionary_new_ok [of "[]"] by auto
  then have emp: "dict_map d = Map.empty"
    using dictionary_new_inv by blast
  have calm: "calm (load_start d [])" using new(2) by (simp add: calm_def load_start_def)
  have sec: "ib_section (ls_bufs (load_start d [])) = []" "ls_dict (load_start d []) = d"
    by (simp_all add: load_start_def)
  obtain st where st: "load_loop (Suc (length ?file)) ?file (load_start d []) = Some (Break st)" "calm st"
    "ls_dict st = foldl (\<lambda>d (k, v). dict_put d k v) d (bindings [] its)"
    using load_loop_items [OF calm assms, of "Suc (length ?file)"] items_fuel [of its]
    unfolding sec by (auto simp del: load_loop.simps)
  have "dict_map (ls_dict st) = map_of (rev (bindings [] its))"
    using dict.view_puts [OF new(2)] by (simp add: st(3) emp)
  then show ?thesis using st(1,2) new(1)
    by (simp add: iniparser_load_def calm_def del: load_loop.simps)
qed

theorem iniparser_load_parses_witness:
  "\<exists>d. iniparser_load [] (Some (concat (map (\<lambda>it. item_text it @ [NL])
      [Section ''Cam'', Entry ''Fps'' ''30'']))) = Some (Some d, [], []) \<and>
    dictionary_get d ''cam:fps'' NullPtr = Str ''30''"
proof -
  have "field ''Cam''" "field ''Fps''" "field ''30''" by (simp_all add: field_def field_char_def is_space_def)
  then have "\<forall>it \<in> set [Section ''Cam'', Entry ''Fps'' ''30'']. item_ok it" by simp
  from iniparser_load_parses [OF this] obtain d where
    d: "iniparser_load [] (Some (concat (map (\<lambda>it. item_text it @ [NL])
      [Section ''Cam'', Entry ''Fps'' ''30'']))) = Some (Some d, [], [])"
    "dict_map d = map_of (rev (bindings [] [Section ''Cam'', Entry ''Fps'' ''30'']))" by blast
  have "map_of (rev (bindings [] [Section ''Cam'', Entry ''Fps'' ''30''])) ''cam:fps'' = Some (Some ''30'')"
    by code_simp
  with d show ?thesis by (auto simp: dictionary_get_map ptr_of_def)
qed

text \<open>
  \<open>iniparser_set\<close> followed by \<open>iniparser_getstring\<close>: the new value is found under every
  spelling of the entry that agrees with it in lower case (within the first \<open>ASCIILINESZ\<close>
  characters), and every other entry reads as before.
\<close>

theorem iniparser_set_get:
  assumes "dict_inv d"
  shows "\<exists>d'. iniparser_set [] (Some d) (Some k) v = Some (0, Some d', []) \<and> dict_inv d' \<and>
    (\<forall>k' def. iniparser_getstring (Some d') (Some k') def =
      (if lower (take ASCIILINESZ k') = lower (take ASCIILINESZ k) then ptr_of v
       else iniparser_getstring (Some d) (Some k') def))"
proof -
  have lc: "strlwc (Some s) (ASCIILINESZ + 1) = Some (lower (take ASCIILINESZ s))" for s
    by (simp add: strlwc_def lower_def)
  show ?thesis
    using dict_set_ok [OF assms, of "lower (take ASCIILINESZ k)" v]
    by (auto simp: iniparser_set_def iniparser_getstring_def lc [simplified] dictionary_get_map)
qed

theorem iniparser_set_get_witness:
  "\<exists>d'. iniparser_set [] (Some small_dict) (Some ''B'') (Some ''2'') = Some (0, Some d', []) \<and>
    iniparser_getstring (Some d') (Some ''b'') NullPtr = Str ''2''"
proof -
  have "lower (take ASCIILINESZ ''b'') = lower (take ASCIILINESZ ''B'')" by code_simp
  then show ?thesis
    using iniparser_set_get [OF small_dict_inv, of "''B''" "Some ''2''"] by (auto simp: ptr_of_def)
qed

text \<open>
  \<open>iniparser_getsecname\<close> enumerates the sections that \<open>iniparser_getnsec\<close> counts: the
  \<open>n\<close>-th key without a colon in slot order for \<open>n\<close> below the count, NULL otherwise.
\<close>

theorem iniparser_getsecname_enumerates:
  "iniparser_getnsec (Some d) = int (length (section_names d)) \<and>
   iniparser_getsecname (Some d) n =
     (if 0 \<le> n \<and> n < iniparser_getnsec (Some d) then Some (section_names d ! nat n) else None)"
  using secname_loop_names [of 0 n "d_key d"]
  by (auto simp: iniparser_getnsec_def iniparser_getsecname_def section_names_def
      count_sections_names Let_def nat_less_iff)

text \<open>
  The line \<open>[]\<close> is accepted as a section line although it names none: the section
  buffer keeps what an earlier line left there, cut to its first character.
\<close>

theorem iniparser_line_empty_section:
  "iniparser_line [] ''[]'' b =
     Some (LINE_SECTION, b\<lparr>ib_section := lower (take 1 (strip (ib_section b)))\<rparr>, [])"
proof -
  have "strip ''[]'' = ''[]''" by (rule strip_id) (simp_all add: is_space_def)
  from line_prep [OF this] show ?thesis
    by (simp add: iniparser_line_def Let_def sscanf_def fmt_section_def strlwc_def lower_def)
qed

text \<open>
  A section name is stored with the value NULL, and \<open>iniparser_getboolean\<close> and
  \<open>iniparser_getlongint\<close> read through it: the default they are given is not returned.
\<close>

theorem iniparser_get_section_derefs_null:
  assumes "dict_map d (lower key) = Some None" "length key \<le> ASCIILINESZ"
  shows "iniparser_getboolean (Some d) (Some key) notfound = None \<and>
    iniparser_getlongint (Some d) (Some key) n = None"
proof -
  have "strlwc (Some key) (ASCIILINESZ + 1) = Some (lower key)"
    using assms(2) by (simp add: strlwc_def lower_def)
  then have "iniparser_getstring (Some d) (Some key) InvalidKey = NullPtr"
    using assms(1) by (simp add: iniparser_getstring_def dictionary_get_map ptr_of_def)
  then show ?thesis by (simp add: iniparser_getboolean_def iniparser_getlongint_def)
qed

theorem iniparser_get_section_derefs_null_witness:
  "iniparser_getboolean (Some (dict_put small_dict ''cam'' None)) (Some ''Cam'') 1 = None"
proof -
  have "lower ''Cam'' = ''cam''" by code_simp
  then have "dict_map (dict_put small_dict ''cam'' None) (lower ''Cam'') = Some None"
    using dict_put_spec [OF small_dict_inv, of "''cam''" None] by simp
  from iniparser_get_section_derefs_null [OF this, of 1] show ?thesis by (simp add: ASCIILINESZ_def)
qed

end
