(* ===== verification/Frame_Memory.thy ===== *)
theory Frame_Memory
  imports Mpp_Prelude "HOL-Library.Word"
begin

text \<open>
  What the image functions share: the formats they switch on, an image buffer with checked
  reads and writes, and the two nested loops that visit a plane row by row.

  The values of the formats and the macros that test them are in a header that is not part of
  the repository. A format is a 32-bit value, and the record \<open>fmt_env\<close> holds what the code
  asks of it: the constant under \<open>MPP_FRAME_FMT_MASK\<close>, and the tests for compression,
  colour space and byte order.
\<close>

section \<open>Formats\<close>

datatype base_fmt =
    YUV420SP | YUV420SP_10BIT | YUV422SP | YUV422SP_10BIT | YUV420P | YUV420SP_VU | YUV422P
  | YUV422SP_VU | YUV422_YUYV | YUV422_YVYU | YUV422_UYVY | YUV422_VYUY | YUV400 | YUV440SP
  | YUV411SP | YUV444SP | YUV444P
  | RGB565 | BGR565 | RGB555 | BGR555 | RGB444 | BGR444 | RGB888 | BGR888
  | RGB101010 | BGR101010 | ARGB8888 | ABGR8888 | BGRA8888 | RGBA8888 | Other_fmt

record fmt_env =
  fe_base :: "u32 \<Rightarrow> base_fmt"
  fe_mask :: "u32 \<Rightarrow> u32"
  fe_is_fbc :: "u32 \<Rightarrow> bool"
  fe_is_afbc_v1 :: "u32 \<Rightarrow> bool"
  fe_is_rgb :: "u32 \<Rightarrow> bool"
  fe_is_le :: "u32 \<Rightarrow> bool"
  fe_is_be :: "u32 \<Rightarrow> bool"
  fe_rgb_base :: u32
  fe_yuv420sp :: u32

text \<open>\<open>MPP_ALIGN(x, a)\<close> is \<open>(x + a - 1) & ~(a - 1)\<close>, in 32 bits.\<close>

definition mpp_align :: "u32 \<Rightarrow> u32 \<Rightarrow> u32" where
  "mpp_align x a = (x + a - 1) AND NOT (a - 1)"

section \<open>A buffer\<close>

text \<open>An access outside the buffer is \<^const>\<open>None\<close>.\<close>

fun run_writes :: "u8 list \<Rightarrow> (nat \<times> u8) list \<Rightarrow> u8 list option" where
  "run_writes buf [] = Some buf"
| "run_writes buf ((i, v) # ws) = (if i < length buf then run_writes (buf[i := v]) ws else None)"

definition blit :: "u8 list \<Rightarrow> nat \<Rightarrow> u8 list \<Rightarrow> u8 list option" where
  "blit buf off bs =
     (if off + length bs \<le> length buf then Some (take off buf @ bs @ drop (off + length bs) buf) else None)"

definition fetch :: "u8 list \<Rightarrow> nat \<Rightarrow> nat \<Rightarrow> u8 list option" where
  "fetch buf off n = (if off + n \<le> length buf then Some (take n (drop off buf)) else None)"

lemma run_writes_append:
  "run_writes buf (ws @ ws') = (case run_writes buf ws of None \<Rightarrow> None | Some b \<Rightarrow> run_writes b ws')"
  by (induction buf ws rule: run_writes.induct) auto

lemma run_writes_bounds:
  "\<forall>(i, v) \<in> set ws. i < length buf \<Longrightarrow> \<exists>b. run_writes buf ws = Some b \<and> length b = length buf"
  by (induction buf ws rule: run_writes.induct) auto

lemma run_writes_length: "run_writes buf ws = Some b \<Longrightarrow> length b = length buf"
  by (induction buf ws rule: run_writes.induct) (auto split: if_splits)

text \<open>What a byte holds afterwards: the last value written to it, if any.\<close>

lemma run_writes_nth:
  "run_writes buf ws = Some b \<Longrightarrow> i < length buf \<Longrightarrow>
   b ! i = (case map_of (rev ws) i of None \<Rightarrow> buf ! i | Some v \<Rightarrow> v)"
proof (induction buf ws arbitrary: b rule: run_writes.induct)
  case (2 buf j v ws)
  then have "b ! i = (case map_of (rev ws) i of None \<Rightarrow> buf[j := v] ! i | Some v \<Rightarrow> v)"
    by (auto split: if_splits)
  with 2 show ?case by (auto simp: map_add_def split: option.splits if_splits)
qed simp

section \<open>Planes\<close>

text \<open>
  The loops \<open>for (y = 0; y < rows; y++, p += step) for (x = 0; x < cols; x++)\<close>: the writes of
  the body, relative to \<open>p\<close>, in the order they are made.
\<close>

definition plane :: "nat \<Rightarrow> nat \<Rightarrow> nat \<Rightarrow> nat \<Rightarrow> (nat \<Rightarrow> nat \<Rightarrow> (nat \<times> u8) list) \<Rightarrow> (nat \<times> u8) list" where
  "plane base step rows cols body =
     concat (map (\<lambda>y. concat (map (\<lambda>x. map (\<lambda>(i, v). (base + y * step + i, v)) (body x y)) [0..<cols]))
       [0..<rows])"

lemma plane_in:
  "(i, v) \<in> set (plane base step rows cols body) \<longleftrightarrow>
   (\<exists>y < rows. \<exists>x < cols. \<exists>k. (k, v) \<in> set (body x y) \<and> i = base + y * step + k)"
  by (auto simp: plane_def) (metis (mono_tags, lifting) atLeastLessThan_iff case_prod_conv image_iff zero_le)+

text \<open>The writes of a row stay inside the row; all writes stay below a bound.\<close>

definition in_row :: "nat \<Rightarrow> nat \<Rightarrow> nat \<Rightarrow> (nat \<Rightarrow> nat \<Rightarrow> (nat \<times> u8) list) \<Rightarrow> bool" where
  "in_row step rows cols body \<longleftrightarrow> (\<forall>x < cols. \<forall>y < rows. \<forall>k v. (k, v) \<in> set (body x y) \<longrightarrow> k < step)"

definition fits :: "nat \<Rightarrow> (nat \<times> u8) list \<Rightarrow> bool" where
  "fits n ws \<longleftrightarrow> (\<forall>(i, v) \<in> set ws. i < n)"

lemma in_rowD: "in_row step rows cols body \<Longrightarrow> x < cols \<Longrightarrow> y < rows \<Longrightarrow> (k, v) \<in> set (body x y) \<Longrightarrow> k < step"
  unfolding in_row_def by blast

lemma fits_append [simp]: "fits n (ws @ ws') \<longleftrightarrow> fits n ws \<and> fits n ws'"
  by (auto simp: fits_def)

lemma fits_run: "fits (length buf) ws \<Longrightarrow> \<exists>b. run_writes buf ws = Some b \<and> length b = length buf"
  unfolding fits_def by (rule run_writes_bounds)

lemma plane_bound:
  assumes "in_row step rows cols body" "(i, v) \<in> set (plane base step rows cols body)"
  shows "base \<le> i \<and> i < base + rows * step"
proof -
  from assms(2) obtain y x k where y: "y < rows" "x < cols" "(k, v) \<in> set (body x y)" "i = base + y * step + k"
    unfolding plane_in by blast
  have "k < step" by (rule in_rowD [OF assms(1) y(2,1,3)])
  moreover have "Suc y * step \<le> rows * step" using y(1) by (intro mult_le_mono1) simp
  ultimately show ?thesis using y(4) by simp
qed

lemma fits_plane:
  "in_row step rows cols body \<Longrightarrow> base + rows * step \<le> n \<Longrightarrow> fits n (plane base step rows cols body)"
  by (auto simp: fits_def dest!: plane_bound)

text \<open>
  When a row's writes stay inside the row and go to different bytes, a byte of the plane has
  the value written for it.
\<close>

definition row_functional :: "nat \<Rightarrow> nat \<Rightarrow> (nat \<Rightarrow> nat \<Rightarrow> (nat \<times> u8) list) \<Rightarrow> bool" where
  "row_functional rows cols body \<longleftrightarrow>
     (\<forall>y < rows. \<forall>x < cols. \<forall>x' < cols. \<forall>k v v'.
        (k, v) \<in> set (body x y) \<longrightarrow> (k, v') \<in> set (body x' y) \<longrightarrow> v = v')"

lemma row_functionalD:
  "row_functional rows cols body \<Longrightarrow> y < rows \<Longrightarrow> x < cols \<Longrightarrow> x' < cols \<Longrightarrow> (k, v) \<in> set (body x y) \<Longrightarrow>
   (k, v') \<in> set (body x' y) \<Longrightarrow> v = v'"
  unfolding row_functional_def by blast

lemma row_unique:
  fixes step :: nat
  assumes "y * step + k = y' * step + k'" "k < step" "k' < step"
  shows "y = y' \<and> k = k'"
proof -
  have "(y * step + k) div step = y" "(y' * step + k') div step = y'" using assms(2,3) by auto
  moreover from this assms(1) have "y = y'" by metis
  ultimately show ?thesis using assms(1) by simp
qed

lemma plane_lookup:
  assumes row: "in_row step rows cols body" and fn: "row_functional rows cols body"
    and "x < cols" "y < rows" "(k, v) \<in> set (body x y)"
  shows "map_of (rev (plane base step rows cols body)) (base + y * step + k) = Some v"
proof -
  have "(base + y * step + k, v) \<in> set (plane base step rows cols body)"
    unfolding plane_in using assms(3-5) by blast
  then obtain w where w: "map_of (rev (plane base step rows cols body)) (base + y * step + k) = Some w"
    by (metis map_of_eq_None_iff fst_conv image_eqI not_Some_eq set_rev)
  then have "(base + y * step + k, w) \<in> set (plane base step rows cols body)"
    by (metis map_of_SomeD set_rev)
  then obtain y' x' k' where y': "y' < rows" "x' < cols" "(k', w) \<in> set (body x' y')"
    "y * step + k = y' * step + k'" unfolding plane_in by auto
  have "y = y' \<and> k = k'"
    using row_unique [OF y'(4)] in_rowD [OF row assms(3-5)] in_rowD [OF row y'(2,1,3)] by simp
  with row_functionalD [OF fn assms(4,3) y'(2) assms(5)] y'(3) have "w = v" by simp
  with w show ?thesis by simp
qed

lemma plane_lookup_None:
  assumes "in_row step rows cols body" "i < base \<or> base + rows * step \<le> i"
  shows "map_of (rev (plane base step rows cols body)) i = None"
proof (rule ccontr)
  assume "map_of (rev (plane base step rows cols body)) i \<noteq> None"
  then obtain w where "(i, w) \<in> set (plane base step rows cols body)"
    by (metis map_of_SomeD not_Some_eq set_rev)
  from plane_bound [OF assms(1) this] assms(2) show False by auto
qed

section \<open>Blocks\<close>

lemma fetch_blit_same:
  "blit buf off bs = Some b \<Longrightarrow> fetch b off (length bs) = Some bs"
  by (auto simp: blit_def fetch_def split: if_splits)

lemma blit_length: "blit buf off bs = Some b \<Longrightarrow> length b = length buf"
  by (auto simp: blit_def split: if_splits)

lemma fetch_blit_other:
  assumes "blit buf off bs = Some b" "i + n \<le> off \<or> off + length bs \<le> i"
  shows "fetch b i n = fetch buf i n"
proof -
  have b: "b = take off buf @ bs @ drop (off + length bs) buf" "off + length bs \<le> length buf"
    using assms(1) by (auto simp: blit_def split: if_splits)
  have "take n (drop i b) = take n (drop i buf)" if "i + n \<le> length buf"
    using assms(2)
  proof
    assume "i + n \<le> off"
    then show ?thesis using b that by (intro nth_equalityI) (auto simp: nth_append)
  next
    assume "off + length bs \<le> i"
    then show ?thesis using b by (auto simp: drop_append)
  qed
  then show ?thesis using b by (auto simp: fetch_def)
qed

end
