(* ===== verification/Names.thy ===== *)
theory Names
  imports Frame_Memory C_Library
begin

text \<open>
  From strings to parameters (\<open>mpp_utils/mpp_utils.c\<close>): the extension of a file name and the
  tables of frame formats and codings, the number of a format, and the lines of the option
  script. An enumeration constant of the outside header is the constructor of its name.
\<close>

section \<open>Extensions\<close>

text \<open>
  The loop walks back from the last character; \<open>e\<close> is what it passed, in file order. The
  buffer of the callers has 50 characters.
\<close>

definition EXT_BUF :: nat where "EXT_BUF = 50"

fun ext_loop :: "string \<Rightarrow> string \<Rightarrow> string option" where
  "ext_loop [] e = Some ''''"
| "ext_loop (c # cs) e =
     (if c = CHR ''.'' then (if length e < EXT_BUF then Some (map to_lower e) else None)
      else ext_loop cs (c # e))"

definition get_extension :: "string \<Rightarrow> string option" where
  "get_extension file_name = ext_loop (rev file_name) []"

section \<open>Tables\<close>

datatype frm_fmt = Fmt base_fmt bool

text \<open>The flag is \<open>MPP_FRAME_FBC_AFBC_V1\<close>.\<close>

definition map_ext_to_frm_fmt :: "(string \<times> frm_fmt) list" where
  "map_ext_to_frm_fmt =
     [(''yuv420p'', Fmt YUV420P False), (''yuv420sp'', Fmt YUV420SP False),
      (''yuv422p'', Fmt YUV422P False), (''yuv422sp'', Fmt YUV422SP False),
      (''yuv422uyvy'', Fmt YUV422_UYVY False), (''yuv422vyuy'', Fmt YUV422_VYUY False),
      (''yuv422yuyv'', Fmt YUV422_YUYV False), (''yuv422yvyu'', Fmt YUV422_YVYU False),
      (''abgr8888'', Fmt ABGR8888 False), (''argb8888'', Fmt ARGB8888 False),
      (''bgr565'', Fmt BGR565 False), (''bgr888'', Fmt BGR888 False),
      (''bgra8888'', Fmt BGRA8888 False), (''rgb565'', Fmt RGB565 False),
      (''rgb888'', Fmt RGB888 False), (''rgba8888'', Fmt RGBA8888 False),
      (''fbc'', Fmt YUV420SP True)]"

datatype coding = CodingAVC | CodingHEVC | CodingMJPEG | Coding_other int

definition map_ext_to_coding :: "(string \<times> coding) list" where
  "map_ext_to_coding =
     [(''h264'', CodingAVC), (''264'', CodingAVC), (''avc'', CodingAVC),
      (''h265'', CodingHEVC), (''265'', CodingHEVC), (''hevc'', CodingHEVC),
      (''jpg'', CodingMJPEG), (''jpeg'', CodingMJPEG), (''mjpeg'', CodingMJPEG)]"

text \<open>The loop over a table does not stop at a match.\<close>

fun table_loop :: "(string \<times> 'a) list \<Rightarrow> string \<Rightarrow> mpp_ret \<Rightarrow> 'a \<Rightarrow> mpp_ret \<times> 'a" where
  "table_loop [] ext ret out = (ret, out)"
| "table_loop ((name, v) # tab) ext ret out =
     (if ext = name then table_loop tab ext MPP_OK v else table_loop tab ext ret out)"

definition name_to_frame_format :: "string \<Rightarrow> frm_fmt \<Rightarrow> (mpp_ret \<times> frm_fmt) option" where
  "name_to_frame_format name fmt = do {
     ext \<leftarrow> get_extension name;
     Some (table_loop map_ext_to_frm_fmt ext MPP_NOK fmt)
   }"

definition name_to_coding_type :: "string \<Rightarrow> coding \<Rightarrow> (mpp_ret \<times> coding) option" where
  "name_to_coding_type name coding = do {
     ext \<leftarrow> get_extension name;
     Some (table_loop map_ext_to_coding ext MPP_NOK coding)
   }"

section \<open>Numbers\<close>

text \<open>
  \<open>str_to_frm_fmt\<close>: \<open>errno\<close> is \<open>ERANGE\<close> or zero after \<open>strtol\<close>; the branches in their order.
\<close>

datatype fmt_report = No_digits | Underflow | Overflow | Unspecified | Trailing | Not_a_format

definition str_to_frm_fmt :: "string option \<Rightarrow> int option \<Rightarrow> mpp_ret \<times> int option \<times> fmt_report list" where
  "str_to_frm_fmt nptr number =
     (case (nptr, number) of
        (Some s, Some _) \<Rightarrow>
          (let (tmp, endptr, erange) = strtol 0 s in
           if endptr = s then (MPP_NOK, number, [No_digits])
           else if erange \<and> tmp = LONG_MIN then (MPP_NOK, number, [Underflow])
           else if erange \<and> tmp = LONG_MAX then (MPP_NOK, number, [Overflow])
           else if erange \<and> tmp = 0 then (MPP_NOK, number, [Unspecified])
           else if \<not> erange \<and> endptr \<noteq> [] then (MPP_NOK, number, [Trailing])
           else if \<not> erange \<and> endptr = [] then
             (if tmp < UINT_MAX \<and> tmp \<ge> 0 then (MPP_OK, Some tmp, [])
              else (MPP_NOK, number, [Not_a_format]))
           else (MPP_NOK, number, []))
      | _ \<Rightarrow> (MPP_ERR_NULL_PTR, number, []))"

section \<open>Lines of the option script\<close>

record ops_line =
  ol_index :: u32
  ol_cmd :: string
  ol_value1 :: u64
  ol_value2 :: u64

text \<open>\<open>cmd\<close> has eight characters; \<open>%[^,]\<close> has no width, and a longer string is \<^const>\<open>None\<close>.\<close>

definition OPS_CMD :: nat where "OPS_CMD = 8"

definition fmt_config :: "directive list" where
  "fmt_config = [Set (\<lambda>c. c \<noteq> CHR '','') False, Lit (CHR '',''), Num 10 True None, Lit (CHR '',''),
     Set (\<lambda>c. c \<noteq> CHR '','') True, Lit (CHR '',''), Num 10 False None, Lit (CHR '',''),
     Num 10 False None, Ws]"

fun store_config :: "conv_val list \<Rightarrow> ops_line \<Rightarrow> ops_line option" where
  "store_config (CInt i # vs) info =
     (let info = info\<lparr>ol_index := word_of_int i\<rparr> in
      case vs of
        CStr c # vs \<Rightarrow>
          if OPS_CMD \<le> length c then None
          else (let info = info\<lparr>ol_cmd := c\<rparr> in
            case vs of
              CInt a # vs \<Rightarrow>
                (let info = info\<lparr>ol_value1 := word_of_int a\<rparr> in
                 case vs of CInt b # _ \<Rightarrow> Some (info\<lparr>ol_value2 := word_of_int b\<rparr>) | _ \<Rightarrow> Some info)
            | _ \<Rightarrow> Some info)
      | _ \<Rightarrow> Some info)"
| "store_config _ info = Some info"

definition parse_config_line :: "string \<Rightarrow> ops_line \<Rightarrow> (int \<times> ops_line) option" where
  "parse_config_line str info =
     (let (cnt, vs) = sscanf fmt_config str in do {
        info \<leftarrow> store_config vs info;
        Some (cnt, info)
      })"

section \<open>Lemmas\<close>

lemma ext_loop_find:
  "CHR ''.'' \<notin> set r \<Longrightarrow> ext_loop (r @ CHR ''.'' # rest) e =
    (if length (rev r @ e) < EXT_BUF then Some (map to_lower (rev r @ e)) else None)"
  by (induction r arbitrary: e) auto

lemma ext_loop_none: "CHR ''.'' \<notin> set r \<Longrightarrow> ext_loop r e = Some ''''"
  by (induction r arbitrary: e) auto

lemma get_extension_dot:
  "CHR ''.'' \<notin> set e \<Longrightarrow> get_extension (p @ ''.'' @ e) = (if length e < EXT_BUF then Some (map to_lower e) else None)"
  using ext_loop_find [of "rev e" "rev p" "[]"] by (simp add: get_extension_def)

lemma get_extension_plain: "CHR ''.'' \<notin> set n \<Longrightarrow> get_extension n = Some ''''"
  by (simp add: get_extension_def ext_loop_none)

lemma table_loop_miss: "ext \<notin> fst ` set tab \<Longrightarrow> table_loop tab ext ret out = (ret, out)"
  by (induction tab ext ret out rule: table_loop.induct) auto

lemma table_loop_hit:
  "distinct (map fst tab) \<Longrightarrow> (ext, v) \<in> set tab \<Longrightarrow> table_loop tab ext ret out = (MPP_OK, v)"
proof (induction tab ext ret out rule: table_loop.induct)
  case (2 name w tab ext ret out)
  then show ?case by (cases "ext = name") (force simp: table_loop_miss)+
qed simp

lemma table_loop_map:
  assumes "distinct (map fst tab)"
  shows "table_loop tab ext MPP_NOK out = (case map_of tab ext of None \<Rightarrow> (MPP_NOK, out) | Some v \<Rightarrow> (MPP_OK, v))"
proof (cases "map_of tab ext")
  case None
  then have "ext \<notin> fst ` set tab" by (simp add: map_of_eq_None_iff)
  with None show ?thesis by (simp add: table_loop_miss)
next
  case (Some v)
  then show ?thesis using table_loop_hit [OF assms map_of_SomeD] by simp
qed

lemma parse_int_consumes:
  assumes "parse_int base s = Some (v, r)"
  shows "length r < length s"
proof -
  obtain neg s1 where sg: "read_sign (dropWhile is_space s) = (neg, s1)" by fastforce
  obtain b s2 where p: "pick_base base s1 = (b, s2)" by fastforce
  have "length s1 \<le> length (dropWhile is_space s)"
    using sg read_sign_length [of "dropWhile is_space s"] by simp
  moreover have "length (dropWhile is_space s) \<le> length s" by (rule length_dropWhile_le)
  moreover have "length s2 \<le> length s1" using p by (auto simp: pick_base_def split: if_splits)
  moreover have "length r < length s2"
  proof -
    from assms sg p have ne: "s2 \<noteq> []" "is_digit b (hd s2)" and r: "snd (read_digits b 0 s2) = r"
      by (auto simp: parse_int_def Let_def split: if_splits prod.splits)
    then obtain c cs where s2: "s2 = c # cs" by (cases s2) auto
    have "r = snd (read_digits b (the (digit_val c)) cs)" using ne r s2 by simp
    then show ?thesis using read_digits_length [of b "the (digit_val c)" cs] s2 by simp
  qed
  ultimately show ?thesis by linarith
qed

lemma tables_distinct: "distinct (map fst map_ext_to_frm_fmt)" "distinct (map fst map_ext_to_coding)"
  by (simp_all add: map_ext_to_frm_fmt_def map_ext_to_coding_def)

lemma table_short:
  "e \<in> fst ` set map_ext_to_frm_fmt \<union> fst ` set map_ext_to_coding \<Longrightarrow> length e < EXT_BUF"
  by (auto simp: map_ext_to_frm_fmt_def map_ext_to_coding_def EXT_BUF_def)

lemma takeWhile_sep: "x \<notin> set a \<Longrightarrow> takeWhile (\<lambda>c. c \<noteq> x) (a @ x # r) = a"
  by (induction a) auto

lemma dropWhile_sep: "x \<notin> set a \<Longrightarrow> dropWhile (\<lambda>c. c \<noteq> x) (a @ x # r) = x # r"
  by (induction a) auto

lemma scan_extends:
  "scan ds s vs = (r, vs', t) \<Longrightarrow> vs \<noteq> [] \<Longrightarrow> \<exists>ws. vs' = vs @ ws \<and> r = int (length vs')"
  by (induction ds s vs rule: scan.induct)
    (fastforce simp: Let_def scan_eof_def scan_fail_def split: list.splits if_splits option.splits prod.splits)+

lemma store_config_name:
  "if OPS_CMD \<le> length c then store_config (CInt j # CStr c # ws) info = None
   else (\<exists>info'. store_config (CInt j # CStr c # ws) info = Some info' \<and> ol_cmd info' = c)"
  by (auto simp: Let_def split: list.splits conv_val.splits)

section \<open>Properties\<close>

text \<open>
  A file name whose extension, in any case, is an entry of a table gives \<open>MPP_OK\<close> and the
  entry's value, whatever stands before the last dot; a name without a dot or with another
  short extension gives \<open>MPP_NOK\<close> and leaves the caller's value.
\<close>

theorem name_lookup:
  assumes "CHR ''.'' \<notin> set e" "length e < EXT_BUF"
  shows "name_to_frame_format (p @ ''.'' @ e) fmt =
      Some (case map_of map_ext_to_frm_fmt (map to_lower e) of None \<Rightarrow> (MPP_NOK, fmt) | Some v \<Rightarrow> (MPP_OK, v)) \<and>
    name_to_coding_type (p @ ''.'' @ e) coding =
      Some (case map_of map_ext_to_coding (map to_lower e) of None \<Rightarrow> (MPP_NOK, coding) | Some v \<Rightarrow> (MPP_OK, v)) \<and>
    name_to_frame_format e fmt = Some (MPP_NOK, fmt)"
proof -
  have "map_of map_ext_to_frm_fmt [] = None" by (simp add: map_ext_to_frm_fmt_def)
  then show ?thesis
    using assms get_extension_plain [OF assms(1)] get_extension_dot [OF assms(1), of p]
    by (simp add: name_to_frame_format_def name_to_coding_type_def table_loop_miss
        table_loop_map [OF tables_distinct(1)] table_loop_map [OF tables_distinct(2)])
qed

lemma name_lookup_witness:
  "name_to_coding_type (''a.b/out'' @ ''.'' @ ''H264'') CodingMJPEG = Some (MPP_OK, CodingAVC) \<and>
   name_to_frame_format (''a.b/out'' @ ''.'' @ ''H264'') (Fmt YUV420P False) = Some (MPP_NOK, Fmt YUV420P False)"
proof -
  have m: "map_of map_ext_to_coding (map to_lower ''H264'') = Some CodingAVC"
    "map_of map_ext_to_frm_fmt (map to_lower ''H264'') = None"
    by code_simp+
  show ?thesis
    using name_lookup [of "''H264''" "''a.b/out''" "Fmt YUV420P False" CodingMJPEG] m
    by (simp add: EXT_BUF_def)
qed

text \<open>
  The callers give \<open>get_extension\<close> a buffer of 50 characters and no length: a name whose
  last dot is followed by 50 characters or more is written past its end.
\<close>

theorem long_extension_overruns:
  assumes "CHR ''.'' \<notin> set e" "EXT_BUF \<le> length e"
  shows "name_to_frame_format (p @ ''.'' @ e) fmt = None \<and> name_to_coding_type (p @ ''.'' @ e) coding = None"
  using assms get_extension_dot [OF assms(1), of p]
  by (simp add: name_to_frame_format_def name_to_coding_type_def)

lemma long_extension_overruns_witness:
  "name_to_coding_type (''a'' @ ''.'' @ replicate 50 (CHR ''b'')) CodingAVC = None"
  using long_extension_overruns [of "replicate 50 (CHR ''b'')" "''a''" "Fmt YUV420P False" CodingAVC]
  by (simp add: EXT_BUF_def)

text \<open>
  The number of a format: the text is accepted exactly when all of it is one integer, in
  decimal, octal or hexadecimal, from 0 to one below the largest \<open>unsigned int\<close>, and its value
  is then stored; every other text is refused with exactly one message and leaves the format.
\<close>

theorem str_to_frm_fmt_accepts:
  "(\<exists>v. parse_int 0 s = Some (v, []) \<and> 0 \<le> v \<and> v < UINT_MAX \<and>
      str_to_frm_fmt (Some s) (Some n) = (MPP_OK, Some v, [])) \<or>
   (\<exists>r. (\<nexists>v. parse_int 0 s = Some (v, []) \<and> 0 \<le> v \<and> v < UINT_MAX) \<and>
      str_to_frm_fmt (Some s) (Some n) = (MPP_NOK, Some n, [r]))"
proof (cases "parse_int 0 s")
  case None
  then show ?thesis by (simp add: str_to_frm_fmt_def strtol_def)
next
  case (Some p)
  obtain v r where p: "p = (v, r)" by fastforce
  have "r \<noteq> s" using parse_int_consumes [of 0 s v r] Some p by auto
  then show ?thesis using Some p
    by (auto simp: str_to_frm_fmt_def strtol_def LONG_MAX_def LONG_MIN_def UINT_MAX_def)
qed

text \<open>
  A line \<open>skip,index,name,rest\<close> stores the name whole, with no regard to the eight
  characters of its array: a name of eight characters or more runs over the fields behind it.
\<close>

theorem config_line_name:
  assumes "a \<noteq> []" "CHR '','' \<notin> set a" "c \<noteq> []" "CHR '','' \<notin> set c"
    and "parse_int 10 n = Some (i, CHR '','' # c @ CHR '','' # rest)"
  shows "if OPS_CMD \<le> length c then parse_config_line (a @ CHR '','' # n) info = None
    else (\<exists>cnt info'. parse_config_line (a @ CHR '','' # n) info = Some (cnt, info') \<and> 2 \<le> cnt \<and> ol_cmd info' = c)"
proof -
  obtain j where num: "scan_num 10 True None (dropWhile is_space n) = Some (j, CHR '','' # c @ CHR '','' # rest)"
    using assms(5) by (simp add: scan_num_def parse_int_def)
  have "dropWhile is_space n \<noteq> []" using assms(5) by (auto simp: parse_int_def read_sign_def pick_base_def simp del: dropWhile_eq_Nil_conv split: list.splits)
  then have head: "scan fmt_config (a @ CHR '','' # n) [] =
      scan [Num 10 False None, Lit (CHR '',''), Num 10 False None, Ws] rest [CInt j, CStr c]"
    using assms(1-4) num by (auto simp: fmt_config_def takeWhile_sep dropWhile_sep Let_def)
  obtain r vs t where tail: "scan [Num 10 False None, Lit (CHR '',''), Num 10 False None, Ws] rest [CInt j, CStr c] = (r, vs, t)"
    by (metis prod_cases3)
  then obtain ws where ws: "vs = CInt j # CStr c # ws" "r = 2 + int (length ws)"
    using scan_extends [OF tail] by auto
  have line: "parse_config_line (a @ CHR '','' # n) info =
      (do { i \<leftarrow> store_config vs info; Some (r, i) })"
    unfolding parse_config_line_def sscanf_def head tail by simp
  show ?thesis
    using store_config_name [of c j ws info] ws unfolding line ws(1) by (auto simp del: store_config.simps)
qed

lemma config_line_name_witness:
  "parse_config_line (''frame'' @ CHR '','' # ''12,longname,5,6'') info = None"
proof -
  have "parse_int 10 ''12,longname,5,6'' = Some (12, CHR '','' # ''longname'' @ CHR '','' # ''5,6'')"
    by code_simp
  then show ?thesis using config_line_name [of "''frame''" "''longname''" "''12,longname,5,6''" 12 "''5,6''" info]
    by (simp add: OPS_CMD_def)
qed

end
