(* ===== verification/Fps_Calc.thy ===== *)
theory Fps_Calc
  imports Mpp_Prelude
begin

text \<open>
  The frame rate counter (\<open>fps_calc_*\<close> in \<open>mpp_utils/mpp_utils.c\<close>). The callback is the list of
  the reports it was given; \<open>mpp_time\<close> is an argument. Times and counts are in microseconds and
  frames and stay far below the range of \<open>RK_S64\<close>.
\<close>

section \<open>State and operations\<close>

record fps_calc =
  fc_callback :: bool
  fc_total_start :: int
  fc_total_count :: int
  fc_last_start :: int
  fc_last_count :: int

record fps_report =
  fr_total_time :: int
  fr_total_count :: int
  fr_last_time :: int
  fr_last_count :: int

definition fps_calc_init :: "heap \<Rightarrow> mpp_ret \<times> fps_calc option \<times> heap" where
  "fps_calc_init hp =
     (let (ok, hp) = heap_alloc hp in
      if ok then (MPP_OK, Some \<lparr>fc_callback = False, fc_total_start = 0, fc_total_count = 0,
                                fc_last_start = 0, fc_last_count = 0\<rparr>, hp)
      else (MPP_NOK, None, hp))"

definition fps_calc_deinit :: "fps_calc option \<Rightarrow> mpp_ret" where
  "fps_calc_deinit ctx = MPP_OK"

definition fps_calc_set_cb :: "fps_calc option \<Rightarrow> bool \<Rightarrow> mpp_ret \<times> fps_calc option" where
  "fps_calc_set_cb ctx cb = (MPP_OK, map_option (\<lambda>impl. impl\<lparr>fc_callback := cb\<rparr>) ctx)"

definition fps_calc_inc :: "fps_calc option \<Rightarrow> int \<Rightarrow> mpp_ret \<times> fps_calc option \<times> fps_report list" where
  "fps_calc_inc ctx now =
     (case ctx of
        None \<Rightarrow> (MPP_OK, None, [])
      | Some impl \<Rightarrow>
          let (impl, rep) =
            (if fc_total_count impl = 0
             then (impl\<lparr>fc_total_start := now, fc_last_start := now\<rparr>,
                   \<lparr>fr_total_time = 0, fr_total_count = 0, fr_last_time = 0, fr_last_count = 0\<rparr>)
             else if now - fc_last_start impl \<ge> 1000000
             then (impl\<lparr>fc_last_start := now, fc_last_count := fc_total_count impl\<rparr>,
                   \<lparr>fr_total_time = now - fc_total_start impl, fr_total_count = fc_total_count impl,
                    fr_last_time = now - fc_last_start impl,
                    fr_last_count = fc_total_count impl - fc_last_count impl\<rparr>)
             else (impl, \<lparr>fr_total_time = 0, fr_total_count = 0, fr_last_time = 0, fr_last_count = 0\<rparr>));
            impl = impl\<lparr>fc_total_count := fc_total_count impl + 1\<rparr>
          in (MPP_OK, Some impl, if fc_callback impl \<and> fr_total_time rep \<noteq> 0 then [rep] else []))"

text \<open>A frame at each of the times, and all the reports.\<close>

fun fps_run :: "fps_calc option \<Rightarrow> int list \<Rightarrow> fps_calc option \<times> fps_report list" where
  "fps_run ctx [] = (ctx, [])"
| "fps_run ctx (now # ts) =
     (let (_, ctx, r) = fps_calc_inc ctx now; (ctx, rs) = fps_run ctx ts in (ctx, r @ rs))"

section \<open>Lemmas\<close>

text \<open>
  The books of the counter: every report closes a period of at least a second, and carries the
  totals of all the periods up to it.
\<close>

fun books :: "int \<Rightarrow> int \<Rightarrow> fps_report list \<Rightarrow> bool" where
  "books time count [] = True"
| "books time count (r # rs) \<longleftrightarrow> 1000000 \<le> fr_last_time r \<and>
     fr_total_time r = time + fr_last_time r \<and> fr_total_count r = count + fr_last_count r \<and>
     books (fr_total_time r) (fr_total_count r) rs"

lemma books_time: "books a b rs \<Longrightarrow> 0 \<le> sum_list (map fr_last_time rs)"
  by (induction a b rs rule: books.induct) auto

abbreviation busy :: "fps_calc \<Rightarrow> bool" where
  "busy c \<equiv> fc_callback c \<and> 0 < fc_total_count c \<and> fc_total_start c \<le> fc_last_start c"

lemma fps_run_books:
  assumes "busy c" "sorted (fc_last_start c # ts)"
  shows "\<exists>c' rs. fps_run (Some c) ts = (Some c', rs) \<and> busy c' \<and>
    fc_total_count c' = fc_total_count c + int (length ts) \<and> fc_total_start c' = fc_total_start c \<and>
    books (fc_last_start c - fc_total_start c) (fc_last_count c) rs \<and>
    sum_list (map fr_last_count rs) = fc_last_count c' - fc_last_count c \<and>
    sum_list (map fr_last_time rs) = fc_last_start c' - fc_last_start c \<and>
    (\<forall>t \<in> set ts. t - fc_last_start c' < 1000000)"
  using assms
proof (induction ts arbitrary: c)
  case (Cons now ts)
  show ?case
  proof (cases "now - fc_last_start c \<ge> 1000000")
    case True
    define d where "d = c\<lparr>fc_last_start := now, fc_last_count := fc_total_count c, fc_total_count := fc_total_count c + 1\<rparr>"
    have i: "fps_calc_inc (Some c) now = (MPP_OK, Some d,
        [\<lparr>fr_total_time = now - fc_total_start c, fr_total_count = fc_total_count c,
          fr_last_time = now - fc_last_start c, fr_last_count = fc_total_count c - fc_last_count c\<rparr>])"
      using True Cons.prems by (simp add: fps_calc_inc_def d_def Let_def)
    have "busy d" "sorted (fc_last_start d # ts)" using Cons.prems True by (auto simp: d_def)
    from Cons.IH [OF this] obtain c' rs where IH: "fps_run (Some d) ts = (Some c', rs)" "busy c'"
      "fc_total_count c' = fc_total_count d + int (length ts)" "fc_total_start c' = fc_total_start d"
      "books (fc_last_start d - fc_total_start d) (fc_last_count d) rs"
      "sum_list (map fr_last_count rs) = fc_last_count c' - fc_last_count d"
      "sum_list (map fr_last_time rs) = fc_last_start c' - fc_last_start d"
      "\<forall>t \<in> set ts. t - fc_last_start c' < 1000000" by blast
    have "now - fc_last_start c' < 1000000" using IH(7) books_time [OF IH(5)] by (simp add: d_def)
    with IH i True show ?thesis by (auto simp: d_def)
  next
    case False
    define d where "d = c\<lparr>fc_total_count := fc_total_count c + 1\<rparr>"
    have i: "fps_calc_inc (Some c) now = (MPP_OK, Some d, [])"
      using False Cons.prems by (simp add: fps_calc_inc_def d_def Let_def)
    have "busy d" "sorted (fc_last_start d # ts)" using Cons.prems by (auto simp: d_def)
    from Cons.IH [OF this] obtain c' rs where IH: "fps_run (Some d) ts = (Some c', rs)" "busy c'"
      "fc_total_count c' = fc_total_count d + int (length ts)" "fc_total_start c' = fc_total_start d"
      "books (fc_last_start d - fc_total_start d) (fc_last_count d) rs"
      "sum_list (map fr_last_count rs) = fc_last_count c' - fc_last_count d"
      "sum_list (map fr_last_time rs) = fc_last_start c' - fc_last_start d"
      "\<forall>t \<in> set ts. t - fc_last_start c' < 1000000" by blast
    have "now - fc_last_start c' < 1000000" using IH(7) books_time [OF IH(5)] False by (simp add: d_def)
    with IH i show ?thesis by (auto simp: d_def)
  qed
qed auto

section \<open>Properties\<close>

text \<open>
  C34: from a fresh counter with a callback, on a clock that does not go back, every frame is
  counted; each report closes a period of at least one second, its totals are the sums of the
  periods so far, the frames and the time of all the reports add up to those of the closed
  periods, and no second passes after the last report without one.
\<close>

theorem fps_reports_balance:
  assumes "fps_calc_init hp = (MPP_OK, ctx, hp')" "fps_calc_set_cb ctx True = (ret, ctx')"
    "sorted (t # ts)"
  obtains c rs where "fps_run ctx' (t # ts) = (Some c, rs)" "fc_total_count c = 1 + int (length ts)"
    "books 0 0 rs" "sum_list (map fr_last_count rs) = fc_last_count c"
    "sum_list (map fr_last_time rs) = fc_last_start c - t"
    "\<forall>u \<in> set ts. u < fc_last_start c + 1000000"
proof -
  let ?c = "\<lparr>fc_callback = True, fc_total_start = t, fc_total_count = 1, fc_last_start = t, fc_last_count = 0\<rparr>"
  have "fps_calc_inc ctx' t = (MPP_OK, Some ?c, [])"
    using assms(1,2) by (auto simp: fps_calc_init_def fps_calc_set_cb_def fps_calc_inc_def Let_def split: prod.splits if_splits)
  then show thesis using that fps_run_books [of ?c ts] assms(3) by fastforce
qed

lemma fps_reports_balance_witness:
  "\<exists>c rs. fps_run (Some \<lparr>fc_callback = True, fc_total_start = 0, fc_total_count = 0, fc_last_start = 0, fc_last_count = 0\<rparr>)
     [5, 500000, 1000006, 2100000] = (Some c, rs) \<and> sum_list (map fr_last_count rs) = fc_last_count c"
  by (rule fps_reports_balance [of "[]" _ "[]" MPP_OK _ 5 "[500000, 1000006, 2100000]"])
    (auto simp: fps_calc_init_def fps_calc_set_cb_def)

end
