(* ===== verification/Enc_Args.thy ===== *)
theory Enc_Args
  imports Mpp_Opt Iniparser Names Fps_Calc
begin

text \<open>
  The arguments of the encoder (\<open>mpp_utils/mpi_enc_utils.c\<close>): one handler per option, the table
  of the options, and the routine that parses a command line with \<open>Mpp_Opt\<close>, fills in defaults
  and refuses what the encoder cannot use. The handlers only log when they refuse an argument;
  the messages are not modelled.
\<close>

section \<open>State\<close>

text \<open>
  What comes from outside headers and libraries: the numbers of the enumeration constants, the
  test for YUV formats, \<open>mpp_check_support_format\<close> for encoder and decoder, and the files.
\<close>

record enc_env =
  ee_fmts :: fmt_env
  ee_is_yuv :: "u32 \<Rightarrow> bool"
  ee_frm :: "frm_fmt \<Rightarrow> u32"
  ee_coding :: "coding \<Rightarrow> u32"
  ee_unused :: u32
  ee_autodetect :: u32
  ee_rc_butt :: int
  ee_rc_fixqp :: int
  ee_rc_vbr :: int
  ee_support_enc :: "u32 \<Rightarrow> bool"
  ee_support_dec :: "u32 \<Rightarrow> bool"
  ee_file :: "string \<Rightarrow> string option"

record enc_args =
  ea_file_input :: "string option"
  ea_file_output :: "string option"
  ea_file_cfg :: "string option"
  ea_cfg_ini :: "dictionary option"
  ea_type :: u32
  ea_type_src :: u32
  ea_format :: u32
  ea_frame_num :: int
  ea_loop_cnt :: int
  ea_nthreads :: int
  ea_width :: int
  ea_height :: int
  ea_hor_stride :: int
  ea_ver_stride :: int
  ea_rc_mode :: int
  ea_bps_target :: int
  ea_bps_max :: int
  ea_bps_min :: int
  ea_fps_in_flex :: int
  ea_fps_in_num :: int
  ea_fps_in_den :: int
  ea_fps_out_flex :: int
  ea_fps_out_num :: int
  ea_fps_out_den :: int
  ea_qp_init :: int
  ea_qp_min :: int
  ea_qp_max :: int
  ea_qp_min_i :: int
  ea_qp_max_i :: int
  ea_gop_mode :: int
  ea_gop_len :: int
  ea_vi_len :: int
  ea_quiet :: bool
  ea_trace_fps :: bool
  ea_fps :: "fps_calc option"
  ea_file_slt :: "string option"

text \<open>
  The context of a parse: the arguments, the allocations to come, and whether a step had
  undefined behaviour, after which the rest of the run means nothing.
\<close>

record enc_ctx =
  ec_args :: enc_args
  ec_heap :: heap
  ec_ub :: bool

type_synonym enc_handler = "enc_ctx \<Rightarrow> string option \<Rightarrow> int \<times> enc_ctx"

definition MAX_FILE_NAME_LENGTH :: nat where "MAX_FILE_NAME_LENGTH = 256"

text \<open>The zeroed arguments of \<open>mpp_calloc\<close>.\<close>

definition zero_args :: enc_args where
  "zero_args =
     \<lparr>ea_file_input = None, ea_file_output = None, ea_file_cfg = None, ea_cfg_ini = None,
      ea_type = 0, ea_type_src = 0, ea_format = 0, ea_frame_num = 0, ea_loop_cnt = 0,
      ea_nthreads = 0, ea_width = 0, ea_height = 0, ea_hor_stride = 0, ea_ver_stride = 0,
      ea_rc_mode = 0, ea_bps_target = 0, ea_bps_max = 0, ea_bps_min = 0, ea_fps_in_flex = 0,
      ea_fps_in_num = 0, ea_fps_in_den = 0, ea_fps_out_flex = 0, ea_fps_out_num = 0,
      ea_fps_out_den = 0, ea_qp_init = 0, ea_qp_min = 0, ea_qp_max = 0, ea_qp_min_i = 0,
      ea_qp_max_i = 0, ea_gop_mode = 0, ea_gop_len = 0, ea_vi_len = 0, ea_quiet = False,
      ea_trace_fps = False, ea_fps = None, ea_file_slt = None\<rparr>"

definition mpi_enc_test_cmd_get :: "heap \<Rightarrow> enc_args option \<times> heap" where
  "mpi_enc_test_cmd_get hp =
     (let (ok, hp) = heap_alloc hp in (if ok then Some (zero_args\<lparr>ea_nthreads := 1\<rparr>) else None, hp))"

section \<open>The default stride\<close>

text \<open>Signed arithmetic of 32 bits; an overflow is \<^const>\<open>None\<close>.\<close>

definition s32_ok :: "int \<Rightarrow> int option" where
  "s32_ok i = (if - (2 ^ 31) \<le> i \<and> i < 2 ^ 31 then Some i else None)"

definition align_s32 :: "int \<Rightarrow> int \<Rightarrow> int option" where
  "align_s32 x a = do { y \<leftarrow> s32_ok (x + a); Some ((y - 1) AND NOT (a - 1)) }"

definition mpi_enc_width_default_stride :: "fmt_env \<Rightarrow> int \<Rightarrow> u32 \<Rightarrow> int option" where
  "mpi_enc_width_default_stride env width fmt =
     (let base = fe_base env fmt in
      if base \<in> {YUV420SP, YUV420SP_VU} then align_s32 width 8
      else if base = YUV420P then align_s32 width 16
      else if base \<in> {YUV422P, YUV422SP, YUV422SP_VU} then align_s32 width 8
      else if base \<in> {YUV444SP, YUV444P} then align_s32 width 8
      else if base \<in> {RGB565, BGR565, RGB555, BGR555, RGB444, BGR444,
                      YUV422_YUYV, YUV422_YVYU, YUV422_UYVY, YUV422_VYUY}
      then do { s \<leftarrow> align_s32 width 8; s32_ok (s * 2) }
      else if base \<in> {RGB888, BGR888} then do { s \<leftarrow> align_s32 width 8; s32_ok (s * 3) }
      else if base \<in> {RGB101010, BGR101010, ARGB8888, ABGR8888, BGRA8888, RGBA8888}
      then do { s \<leftarrow> align_s32 width 8; s32_ok (s * 4) }
      else Some 0)"

section \<open>Handlers\<close>

abbreviation upd :: "(enc_args \<Rightarrow> enc_args) \<Rightarrow> enc_ctx \<Rightarrow> enc_ctx" where
  "upd f c \<equiv> c\<lparr>ec_args := f (ec_args c)\<rparr>"

abbreviation crash :: "enc_ctx \<Rightarrow> enc_ctx" where
  "crash c \<equiv> c\<lparr>ec_ub := True\<rparr>"

text \<open>
  \<open>calloc(len + 1)\<close> and \<open>strcpy\<close> of the whole argument, \<open>len\<close> being at most 256: a NULL target and
  a longer argument are undefined.
\<close>

definition copy_whole :: "enc_ctx \<Rightarrow> string \<Rightarrow> bool \<times> enc_ctx" where
  "copy_whole c next =
     (let (ok, hp) = heap_alloc (ec_heap c); c = c\<lparr>ec_heap := hp\<rparr> in
      if ok \<and> length next \<le> MAX_FILE_NAME_LENGTH then (True, c) else (False, crash c))"

text \<open>\<open>calloc(len + 1)\<close> and \<open>strncpy\<close> of \<open>len\<close> characters.\<close>

definition copy_len :: "enc_ctx \<Rightarrow> string \<Rightarrow> string option \<times> enc_ctx" where
  "copy_len c next =
     (let (ok, hp) = heap_alloc (ec_heap c); c = c\<lparr>ec_heap := hp\<rparr> in
      if ok then (Some (take MAX_FILE_NAME_LENGTH next), c) else (None, crash c))"

definition set_coding :: "enc_env \<Rightarrow> string \<Rightarrow> ((u32 \<Rightarrow> u32) \<Rightarrow> enc_args \<Rightarrow> enc_args) \<Rightarrow> enc_ctx \<Rightarrow> enc_ctx" where
  "set_coding env name fld c =
     (case name_to_coding_type name (Coding_other 0) of
        None \<Rightarrow> crash c
      | Some (ret, v) \<Rightarrow> if ret = MPP_OK then upd (fld (\<lambda>_. ee_coding env v)) c else c)"

definition set_format :: "enc_env \<Rightarrow> string \<Rightarrow> enc_ctx \<Rightarrow> enc_ctx" where
  "set_format env name c =
     (case name_to_frame_format name (Fmt Other_fmt False) of
        None \<Rightarrow> crash c
      | Some (ret, v) \<Rightarrow> if ret = MPP_OK then upd (\<lambda>a. a\<lparr>ea_format := ee_frm env v\<rparr>) c else c)"

definition mpi_enc_opt_i :: "enc_env \<Rightarrow> enc_handler" where
  "mpi_enc_opt_i env c next =
     (case next of
        None \<Rightarrow> (0, c)
      | Some s \<Rightarrow>
          if s = [] then (1, c)
          else let (ok, c) = copy_whole c s in
            if \<not> ok then (1, c)
            else let c = upd (\<lambda>a. a\<lparr>ea_file_input := Some s\<rparr>) c; c = set_format env s c in
              (1, if ea_type_src (ec_args c) = ee_unused env then set_coding env s ea_type_src_update c else c))"

definition mpi_enc_opt_o :: "enc_env \<Rightarrow> enc_handler" where
  "mpi_enc_opt_o env c next =
     (case next of
        None \<Rightarrow> (0, c)
      | Some s \<Rightarrow>
          if s = [] then (1, c)
          else let (ok, c) = copy_whole c s in
            if \<not> ok then (1, c)
            else (1, set_coding env s ea_type_update (upd (\<lambda>a. a\<lparr>ea_file_output := Some s\<rparr>) c)))"

definition num_opt :: "((int \<Rightarrow> int) \<Rightarrow> enc_args \<Rightarrow> enc_args) \<Rightarrow> enc_handler" where
  "num_opt fld c next =
     (case next of None \<Rightarrow> (0, c) | Some s \<Rightarrow> (1, upd (fld (\<lambda>_. atoi s)) c))"

definition mpi_enc_opt_w :: enc_handler where "mpi_enc_opt_w = num_opt ea_width_update"
definition mpi_enc_opt_h :: enc_handler where "mpi_enc_opt_h = num_opt ea_height_update"
definition mpi_enc_opt_hstride :: enc_handler where "mpi_enc_opt_hstride = num_opt ea_hor_stride_update"
definition mpi_enc_opt_vstride :: enc_handler where "mpi_enc_opt_vstride = num_opt ea_ver_stride_update"
definition mpi_enc_opt_n :: enc_handler where "mpi_enc_opt_n = num_opt ea_frame_num_update"
definition mpi_enc_opt_l :: enc_handler where "mpi_enc_opt_l = num_opt ea_loop_cnt_update"

definition mpi_enc_opt_f :: "enc_env \<Rightarrow> enc_handler" where
  "mpi_enc_opt_f env c next =
     (let refuse = (0, upd (\<lambda>a. a\<lparr>ea_format := fe_yuv420sp (ee_fmts env)\<rparr>) c) in
      case next of
        None \<Rightarrow> refuse
      | Some s \<Rightarrow>
          (case str_to_frm_fmt (Some s) (Some 0) of
             (MPP_OK, Some number, _) \<Rightarrow>
               let format = word_of_int number in
               if fe_is_be (ee_fmts env) format \<and> (ee_is_yuv env format \<or> fe_is_rgb (ee_fmts env) format)
               then (1, upd (\<lambda>a. a\<lparr>ea_format := format\<rparr>) c) else refuse
           | _ \<Rightarrow> refuse))"

definition mpi_enc_opt_t :: "enc_env \<Rightarrow> enc_handler" where
  "mpi_enc_opt_t env c next =
     (case next of
        None \<Rightarrow> (0, c)
      | Some s \<Rightarrow>
          let type = word_of_int (atoi s) in
          (1, if ee_support_enc env type then upd (\<lambda>a. a\<lparr>ea_type := type\<rparr>) c else c))"

definition mpi_enc_opt_tsrc :: "enc_env \<Rightarrow> enc_handler" where
  "mpi_enc_opt_tsrc env c next =
     (case next of
        None \<Rightarrow> (0, c)
      | Some s \<Rightarrow>
          let type = word_of_int (atoi s) in
          (1, if ee_support_dec env type then upd (\<lambda>a. a\<lparr>ea_type_src := type\<rparr>) c else c))"

text \<open>The integers a format of \<open>%d\<close> conversions stores, through pointers in order.\<close>

fun store_ints :: "conv_val list \<Rightarrow> ((int \<Rightarrow> int) \<Rightarrow> enc_args \<Rightarrow> enc_args) list \<Rightarrow> enc_args \<Rightarrow> enc_args" where
  "store_ints (CInt i # vs) (f # fs) a = store_ints vs fs (f (\<lambda>_. s32_of_int i) a)"
| "store_ints _ _ a = a"

definition pct_d :: directive where "pct_d = Num 10 True None"

text \<open>\<open>cnt\<close> is taken as a truth value: \<open>EOF\<close>, which is -1, counts as success.\<close>

definition scan_opt :: "directive list \<Rightarrow> ((int \<Rightarrow> int) \<Rightarrow> enc_args \<Rightarrow> enc_args) list \<Rightarrow> enc_handler" where
  "scan_opt ds fs c next =
     (case next of
        None \<Rightarrow> (0, c)
      | Some s \<Rightarrow> let (cnt, vs) = sscanf ds s in (if cnt \<noteq> 0 then 1 else 0, upd (store_ints vs fs) c))"

definition mpi_enc_opt_g :: enc_handler where
  "mpi_enc_opt_g = scan_opt [pct_d, Lit (CHR '':''), pct_d, Lit (CHR '':''), pct_d]
     [ea_gop_mode_update, ea_gop_len_update, ea_vi_len_update]"

definition mpi_enc_opt_rc :: enc_handler where
  "mpi_enc_opt_rc = scan_opt [pct_d] [ea_rc_mode_update]"

definition mpi_enc_opt_bps :: enc_handler where
  "mpi_enc_opt_bps = scan_opt [pct_d, Lit (CHR '':''), pct_d, Lit (CHR '':''), pct_d]
     [ea_bps_target_update, ea_bps_min_update, ea_bps_max_update]"

definition mpi_enc_opt_qc :: enc_handler where
  "mpi_enc_opt_qc = scan_opt
     [pct_d, Lit (CHR '':''), pct_d, Lit (CHR '':''), pct_d, Lit (CHR '':''), pct_d, Lit (CHR '':''), pct_d]
     [ea_qp_init_update, ea_qp_min_update, ea_qp_max_update, ea_qp_min_i_update, ea_qp_max_i_update]"

definition fps_format :: "directive list" where
  "fps_format = [pct_d, Lit (CHR '':''), pct_d, Lit (CHR '':''), pct_d, Lit (CHR ''/''),
     pct_d, Lit (CHR '':''), pct_d, Lit (CHR '':''), pct_d]"

definition fps_fields :: "((int \<Rightarrow> int) \<Rightarrow> enc_args \<Rightarrow> enc_args) list" where
  "fps_fields = [ea_fps_in_num_update, ea_fps_in_den_update, ea_fps_in_flex_update,
     ea_fps_out_num_update, ea_fps_out_den_update, ea_fps_out_flex_update]"

definition fps_fill :: "int \<Rightarrow> enc_args \<Rightarrow> enc_args" where
  "fps_fill num a =
     (if num = 1 then
        a\<lparr>ea_fps_out_num := ea_fps_in_num a, ea_fps_in_den := 1, ea_fps_out_den := 1,
          ea_fps_in_flex := 0, ea_fps_out_flex := 0\<rparr>
      else if num = 2 then
        a\<lparr>ea_fps_out_num := ea_fps_in_num a, ea_fps_out_den := ea_fps_in_den a,
          ea_fps_in_flex := 0, ea_fps_out_flex := 0\<rparr>
      else if num = 3 then
        a\<lparr>ea_fps_out_num := ea_fps_in_num a, ea_fps_out_den := ea_fps_in_den a,
          ea_fps_out_flex := ea_fps_in_flex a\<rparr>
      else if num = 4 then a\<lparr>ea_fps_out_den := 1, ea_fps_out_flex := 0\<rparr>
      else if num = 5 then a\<lparr>ea_fps_out_flex := 0\<rparr>
      else a)"

definition mpi_enc_opt_fps :: enc_handler where
  "mpi_enc_opt_fps c next =
     (case next of
        None \<Rightarrow> (0, c)
      | Some s \<Rightarrow>
          let (cnt, vs) = sscanf fps_format s; num = cnt mod 2 ^ 32 in
          (if num \<noteq> 0 \<and> num \<le> 6 then 1 else 0, upd (\<lambda>a. fps_fill num (store_ints vs fps_fields a)) c))"

definition mpi_enc_opt_s :: enc_handler where
  "mpi_enc_opt_s c next =
     (case next of
        None \<Rightarrow> (0, upd (\<lambda>a. a\<lparr>ea_nthreads := 1\<rparr>) c)
      | Some s \<Rightarrow>
          if atoi s \<ge> 1 then (1, upd (\<lambda>a. a\<lparr>ea_nthreads := atoi s\<rparr>) c)
          else (0, upd (\<lambda>a. a\<lparr>ea_nthreads := 1\<rparr>) c))"

definition mpi_enc_opt_v :: enc_handler where
  "mpi_enc_opt_v c next =
     (case next of
        None \<Rightarrow> (0, c)
      | Some s \<Rightarrow>
          let c = (if strstr s ''q'' then upd (\<lambda>a. a\<lparr>ea_quiet := True\<rparr>) c else c);
              c = (if strstr s ''f'' then upd (\<lambda>a. a\<lparr>ea_trace_fps := True\<rparr>) c else c)
          in (1, c))"

definition mpi_enc_opt_ini :: "enc_env \<Rightarrow> enc_handler" where
  "mpi_enc_opt_ini env c next =
     (case next of
        None \<Rightarrow> (0, c)
      | Some s \<Rightarrow>
          if s = [] then (0, c)
          else (case copy_len c s of
              (None, c) \<Rightarrow> (1, c)
            | (Some name, c) \<Rightarrow>
                (case iniparser_load (ec_heap c) (ee_file env name) of
                   None \<Rightarrow> (1, crash c)
                 | Some (ini, _, hp) \<Rightarrow>
                     (1, upd (\<lambda>a. a\<lparr>ea_file_cfg := Some name, ea_cfg_ini := ini\<rparr>) (c\<lparr>ec_heap := hp\<rparr>)))))"

definition mpi_enc_opt_slt :: enc_handler where
  "mpi_enc_opt_slt c next =
     (case next of
        None \<Rightarrow> (0, c)
      | Some s \<Rightarrow>
          if s = [] then (0, c)
          else (case copy_len c s of
              (None, c) \<Rightarrow> (1, c)
            | (Some name, c) \<Rightarrow> (1, upd (\<lambda>a. a\<lparr>ea_file_slt := Some name\<rparr>) c)))"

definition mpi_enc_opt_help :: enc_handler where
  "mpi_enc_opt_help c next = (-1, c)"

section \<open>The table of the options\<close>

definition enc_opts :: "enc_env \<Rightarrow> enc_ctx opt_info list" where
  "enc_opts env =
     [\<lparr>oi_name = ''i'', oi_full_name = ''input_file'', oi_help = ''input frame file'',
       oi_proc = Some (mpi_enc_opt_i env)\<rparr>,
      \<lparr>oi_name = ''o'', oi_full_name = ''output_file'', oi_help = ''output encoded bitstream file'',
       oi_proc = Some (mpi_enc_opt_o env)\<rparr>,
      \<lparr>oi_name = ''w'', oi_full_name = ''width'', oi_help = ''the width of input picture'',
       oi_proc = Some mpi_enc_opt_w\<rparr>,
      \<lparr>oi_name = ''h'', oi_full_name = ''height'', oi_help = ''the height of input picture'',
       oi_proc = Some mpi_enc_opt_h\<rparr>,
      \<lparr>oi_name = ''hstride'', oi_full_name = ''hor_stride'',
       oi_help = ''the horizontal stride of input picture'', oi_proc = Some mpi_enc_opt_hstride\<rparr>,
      \<lparr>oi_name = ''vstride'', oi_full_name = ''ver_stride'',
       oi_help = ''the vertical stride of input picture'', oi_proc = Some mpi_enc_opt_vstride\<rparr>,
      \<lparr>oi_name = ''f'', oi_full_name = ''format'', oi_help = ''the format of input picture'',
       oi_proc = Some (mpi_enc_opt_f env)\<rparr>,
      \<lparr>oi_name = ''t'', oi_full_name = ''type'', oi_help = ''output stream coding type'',
       oi_proc = Some (mpi_enc_opt_t env)\<rparr>,
      \<lparr>oi_name = ''tsrc'', oi_full_name = ''source type'', oi_help = ''input file source coding type'',
       oi_proc = Some (mpi_enc_opt_tsrc env)\<rparr>,
      \<lparr>oi_name = ''n'', oi_full_name = ''max frame number'', oi_help = ''max encoding frame number'',
       oi_proc = Some mpi_enc_opt_n\<rparr>,
      \<lparr>oi_name = ''g'', oi_full_name = ''gop reference mode'', oi_help = ''gop_mode:gop_len:vi_len'',
       oi_proc = Some mpi_enc_opt_g\<rparr>,
      \<lparr>oi_name = ''rc'', oi_full_name = ''rate control mode'',
       oi_help = ''set rc_mode, 0:vbr 1:cbr 2:fixqp 3:avbr'', oi_proc = Some mpi_enc_opt_rc\<rparr>,
      \<lparr>oi_name = ''bps'', oi_full_name = ''bps target:min:max'', oi_help = ''set tareget:min:max bps'',
       oi_proc = Some mpi_enc_opt_bps\<rparr>,
      \<lparr>oi_name = ''fps'', oi_full_name = ''in/output fps'', oi_help = ''set input and output frame rate'',
       oi_proc = Some mpi_enc_opt_fps\<rparr>,
      \<lparr>oi_name = ''qc'', oi_full_name = ''quality control'',
       oi_help = ''set qp_init:min:max:min_i:max_i'', oi_proc = Some mpi_enc_opt_qc\<rparr>,
      \<lparr>oi_name = ''s'', oi_full_name = ''instance_nb'', oi_help = ''number of instances'',
       oi_proc = Some mpi_enc_opt_s\<rparr>,
      \<lparr>oi_name = ''v'', oi_full_name = ''trace option'', oi_help = ''q - quiet f - show fps'',
       oi_proc = Some mpi_enc_opt_v\<rparr>,
      \<lparr>oi_name = ''l'', oi_full_name = ''loop count'', oi_help = ''loop encoding times for each frame'',
       oi_proc = Some mpi_enc_opt_l\<rparr>,
      \<lparr>oi_name = ''ini'', oi_full_name = ''ini file'', oi_help = ''encoder extra ini config file'',
       oi_proc = Some (mpi_enc_opt_ini env)\<rparr>,
      \<lparr>oi_name = ''slt'', oi_full_name = ''slt file'', oi_help = ''slt verify data file'',
       oi_proc = Some mpi_enc_opt_slt\<rparr>]"

text \<open>The help: the widths of the columns, then a line per option; the result is always -1.\<close>

fun widest :: "nat \<Rightarrow> string list \<Rightarrow> nat" where
  "widest w [] = w"
| "widest w (s # ss) = widest (if length s > w then length s else w) ss"

definition mpi_enc_show_help :: "'c opt_info list \<Rightarrow> int \<times> string list" where
  "mpi_enc_show_help opts =
     (let max_name = widest 1 (map oi_name opts);
          max_full_name = widest 1 (map oi_full_name opts);
          max_help = widest 1 (map oi_help opts)
      in (-1, map (\<lambda>opt. ''-'' @ pad_right max_name (oi_name opt) @ '' '' @
                pad_right max_full_name (oi_full_name opt) @ '' '' @ pad_right max_help (oi_help opt)) opts))"

section \<open>The command line\<close>

text \<open>The steps of \<open>mpi_enc_test_cmd_update_by_args\<close> after the parse, in order.\<close>

definition fill_defaults :: "enc_env \<Rightarrow> enc_args \<Rightarrow> enc_args option" where
  "fill_defaults env a =
     (let a = (if ea_rc_mode a = ee_rc_butt env
               then a\<lparr>ea_rc_mode := if ea_type a = ee_coding env CodingMJPEG then ee_rc_fixqp env else ee_rc_vbr env\<rparr>
               else a)
      in do {
        a \<leftarrow> (if ea_hor_stride a = 0
              then do { s \<leftarrow> mpi_enc_width_default_stride (ee_fmts env) (ea_width a) (ea_format a);
                        Some (a\<lparr>ea_hor_stride := s\<rparr>) }
              else Some a);
        Some (if ea_ver_stride a = 0 then a\<lparr>ea_ver_stride := ea_height a\<rparr> else a)
      })"

definition size_invalid :: "enc_env \<Rightarrow> enc_args \<Rightarrow> bool" where
  "size_invalid env a \<longleftrightarrow> ea_type_src a = ee_unused env \<and>
     (ea_width a \<le> 0 \<or> ea_height a \<le> 0 \<or> ea_hor_stride a \<le> 0 \<or> ea_ver_stride a \<le> 0)"

definition fill_qp :: "enc_env \<Rightarrow> enc_args \<Rightarrow> enc_args" where
  "fill_qp env a =
     (if ea_rc_mode a = ee_rc_fixqp env \<and> ea_qp_init a = 0 \<and>
         (ea_type a = ee_coding env CodingAVC \<or> ea_type a = ee_coding env CodingHEVC)
      then a\<lparr>ea_qp_init := 26\<rparr> else a)"

definition start_fps :: "heap \<Rightarrow> enc_args \<Rightarrow> enc_args \<times> heap" where
  "start_fps hp a =
     (if ea_trace_fps a
      then let (_, fps, hp) = fps_calc_init hp; (_, fps) = fps_calc_set_cb fps True
           in (a\<lparr>ea_fps := fps\<rparr>, hp)
      else (a, hp))"

definition after_parse :: "enc_env \<Rightarrow> mpp_ret \<Rightarrow> heap \<Rightarrow> enc_args \<Rightarrow> (mpp_ret \<times> enc_args \<times> heap) option" where
  "after_parse env ret hp a =
     (let ret = (if ea_type a \<le> ee_autodetect env then MPP_NOK else ret) in do {
        a \<leftarrow> fill_defaults env a;
        let ret = (if size_invalid env a then MPP_NOK else ret);
        let (a, hp) = start_fps hp (fill_qp env a);
        Some (ret, a, hp)
      })"

text \<open>
  \<open>parse_args\<close> is the part up to \<open>mpp_opt_parse\<close>: the return code and the context after it. An
  option parser that cannot be allocated is the NULL of \<open>Mpp_Opt\<close>. \<open>show_result\<close> is what follows
  the label \<open>done\<close>: the help exactly when the code is not zero. It reads \<open>argv[0]\<close>, which is
  undefined without an \<open>argv\<close>.
\<close>

definition ENC_NODE_COUNT :: int where "ENC_NODE_COUNT = 67"

definition parse_args ::
  "enc_env \<Rightarrow> heap \<Rightarrow> enc_args \<Rightarrow> int \<Rightarrow> string option list \<Rightarrow> (mpp_ret \<times> enc_ctx) option" where
  "parse_args env hp a argc argv =
     (let ctx = (\<lambda>hp. \<lparr>ec_args = a, ec_heap = hp, ec_ub = False\<rparr>);
          (_, opts, hp) = mpp_opt_init hp;
          (_, opts, hp) = mpp_opt_setup hp opts (ctx hp) ENC_NODE_COUNT (int (length (enc_opts env)))
      in do {
        (opts, hp) \<leftarrow> opt_add_all hp opts (enc_opts env);
        _ \<leftarrow> mpp_opt_add hp opts None;
        let opts = map_option (\<lambda>o1. o1\<lparr>op_ctx := map_option (\<lambda>c. c\<lparr>ec_heap := hp\<rparr>) (op_ctx o1)\<rparr>) opts;
        (ret, opts, _) \<leftarrow> mpp_opt_parse opts argc (Some argv);
        Some (ret, case opts of Some o1 \<Rightarrow> (case op_ctx o1 of Some c \<Rightarrow> c | None \<Rightarrow> ctx hp) | None \<Rightarrow> ctx hp)
      })"

definition show_result ::
  "enc_env \<Rightarrow> string option list option \<Rightarrow> mpp_ret \<Rightarrow> enc_args option \<Rightarrow> heap \<Rightarrow>
   (mpp_ret \<times> enc_args option \<times> heap \<times> string list) option" where
  "show_result env argv ret cmd hp =
     (if ret = MPP_OK then Some (ret, cmd, hp, [])
      else if argv = None then None
      else Some (ret, cmd, hp, snd (mpi_enc_show_help (enc_opts env))))"

definition mpi_enc_test_cmd_update_by_args ::
  "enc_env \<Rightarrow> heap \<Rightarrow> enc_args option \<Rightarrow> int \<Rightarrow> string option list option \<Rightarrow>
   (mpp_ret \<times> enc_args option \<times> heap \<times> string list) option" where
  "mpi_enc_test_cmd_update_by_args env hp cmd argc argv =
     (case (cmd, argv) of
        (Some a, Some argv') \<Rightarrow>
          if argc < 2 then show_result env argv (Ret_int (-1)) cmd hp
          else do {
            (ret, c) \<leftarrow> parse_args env hp (a\<lparr>ea_rc_mode := ee_rc_butt env\<rparr>) argc argv';
            (if ec_ub c then None
             else do {
               (ret, a, hp) \<leftarrow> after_parse env ret (ec_heap c) (ec_args c);
               show_result env argv ret (Some a) hp
             })
          }
      | _ \<Rightarrow> show_result env argv (Ret_int (-1)) cmd hp)"

definition mpi_enc_test_cmd_put :: "enc_args option \<Rightarrow> mpp_ret \<times> enc_args option" where
  "mpi_enc_test_cmd_put cmd = (MPP_OK, None)"


section \<open>Lemmas on the handlers\<close>

lemmas handler_defs = mpi_enc_opt_i_def mpi_enc_opt_o_def mpi_enc_opt_w_def mpi_enc_opt_h_def
  mpi_enc_opt_hstride_def mpi_enc_opt_vstride_def mpi_enc_opt_n_def mpi_enc_opt_l_def
  mpi_enc_opt_f_def mpi_enc_opt_t_def mpi_enc_opt_tsrc_def mpi_enc_opt_g_def mpi_enc_opt_rc_def
  mpi_enc_opt_bps_def mpi_enc_opt_qc_def mpi_enc_opt_fps_def mpi_enc_opt_s_def mpi_enc_opt_v_def
  mpi_enc_opt_ini_def mpi_enc_opt_slt_def num_opt_def scan_opt_def

text \<open>A handler takes at most the one argument that follows it.\<close>

lemma handler_steps:
  "fst (mpi_enc_opt_i env c n) \<le> 1" "fst (mpi_enc_opt_o env c n) \<le> 1"
  "fst (mpi_enc_opt_w c n) \<le> 1" "fst (mpi_enc_opt_h c n) \<le> 1"
  "fst (mpi_enc_opt_hstride c n) \<le> 1" "fst (mpi_enc_opt_vstride c n) \<le> 1"
  "fst (mpi_enc_opt_n c n) \<le> 1" "fst (mpi_enc_opt_l c n) \<le> 1"
  "fst (mpi_enc_opt_f env c n) \<le> 1" "fst (mpi_enc_opt_t env c n) \<le> 1"
  "fst (mpi_enc_opt_tsrc env c n) \<le> 1" "fst (mpi_enc_opt_g c n) \<le> 1"
  "fst (mpi_enc_opt_rc c n) \<le> 1" "fst (mpi_enc_opt_bps c n) \<le> 1"
  "fst (mpi_enc_opt_qc c n) \<le> 1" "fst (mpi_enc_opt_fps c n) \<le> 1"
  "fst (mpi_enc_opt_s c n) \<le> 1" "fst (mpi_enc_opt_v c n) \<le> 1"
  "fst (mpi_enc_opt_ini env c n) \<le> 1" "fst (mpi_enc_opt_slt c n) \<le> 1"
  by (simp_all add: handler_defs Let_def split: option.splits prod.splits mpp_ret.splits)

lemma options_of_in: "options_of infos s = Some i \<Longrightarrow> i \<in> set infos"
  unfolding options_of_def by (auto dest!: map_of_SomeD)

lemma enc_steps:
  assumes "i \<in> set (enc_opts env)"
  shows "fst (run_proc i c n) \<le> 1"
  using assms by (auto simp: enc_opts_def run_proc_def handler_steps)

lemma enc_steps_small: "steps_small (options_of (enc_opts env))"
  unfolding steps_small_def by (auto intro!: le_less_trans [OF enc_steps [OF options_of_in]])

lemma enc_table_ok: "table_ok (enc_opts env)"
  by (simp add: table_ok_def enc_opts_def legal_name_def name_cost_def trie_cap_def SZ_1K_def)

lemma enc_opts_length: "length (enc_opts env) = 20"
  by (simp add: enc_opts_def)

lemma op_ctx_outcome:
  assumes "outcome r = Some (ret, c, errs)"
  obtains impl where "r = Some (ret, impl, errs)" "the (op_ctx (the impl)) = c"
  using assms by (auto simp: outcome_def)


lemma opt_init_all: "mpp_opt_init [] = (MPP_OK, Some \<lparr>op_ctx = None, op_trie = None, op_node_cnt = 0, op_info_cnt = 0\<rparr>, [])"
  by (simp add: mpp_opt_init_def)

lemma setup_heap:
  "0 < n \<Longrightarrow> 0 < k \<Longrightarrow> \<exists>ret opt. mpp_opt_setup [] (Some impl) ctx n k = (ret, opt, [])"
  by (simp add: mpp_opt_setup_def mpp_trie_init_def alloc_n_def trie_get_node_def Let_def split: prod.splits)

text \<open>What the routine lets through.\<close>

definition usable :: "enc_env \<Rightarrow> enc_args \<Rightarrow> bool" where
  "usable env a \<longleftrightarrow> ee_autodetect env < ea_type a \<and> ea_rc_mode a \<noteq> ee_rc_butt env \<and>
     (ea_type_src a = ee_unused env \<longrightarrow>
        0 < ea_width a \<and> 0 < ea_height a \<and> 0 < ea_hor_stride a \<and> 0 < ea_ver_stride a) \<and>
     (ea_rc_mode a = ee_rc_fixqp env \<and> ea_type a \<in> {ee_coding env CodingAVC, ee_coding env CodingHEVC} \<longrightarrow>
        ea_qp_init a \<noteq> 0) \<and>
     (ea_trace_fps a \<longrightarrow> (\<forall>f. ea_fps a = Some f \<longrightarrow> fc_callback f))"

lemma fill_defaults_fields:
  assumes "fill_defaults env a = Some b" "ee_rc_fixqp env \<noteq> ee_rc_butt env" "ee_rc_vbr env \<noteq> ee_rc_butt env"
  shows "ea_type b = ea_type a" "ea_rc_mode b \<noteq> ee_rc_butt env"
  using assms by (auto simp: fill_defaults_def Let_def Option.bind_eq_Some_conv split: if_splits)

lemma fill_qp_fields [simp]:
  "ea_type (fill_qp env a) = ea_type a" "ea_rc_mode (fill_qp env a) = ea_rc_mode a"
  "ea_type_src (fill_qp env a) = ea_type_src a" "ea_width (fill_qp env a) = ea_width a"
  "ea_height (fill_qp env a) = ea_height a" "ea_hor_stride (fill_qp env a) = ea_hor_stride a"
  "ea_ver_stride (fill_qp env a) = ea_ver_stride a"
  by (simp_all add: fill_qp_def)

lemma start_fps_spec:
  assumes "start_fps hp a = (b, hp')"
  shows "\<exists>f. b = (if ea_trace_fps a then a\<lparr>ea_fps := f\<rparr> else a) \<and> (\<forall>x. f = Some x \<longrightarrow> fc_callback x)"
  using assms by (auto simp: start_fps_def fps_calc_set_cb_def split: prod.splits if_splits)

lemma after_parse_usable:
  assumes "after_parse env ret hp a = Some (MPP_OK, b, hp')"
    "ee_rc_fixqp env \<noteq> ee_rc_butt env" "ee_rc_vbr env \<noteq> ee_rc_butt env"
  shows "usable env b"
proof -
  obtain d where d: "fill_defaults env a = Some d" and ok: "ee_autodetect env < ea_type a" "\<not> size_invalid env d"
    and b: "start_fps hp (fill_qp env d) = (b, hp')"
    using assms(1) by (auto simp: after_parse_def Let_def Option.bind_eq_Some_conv split: if_splits prod.splits)
  obtain f where f: "b = (if ea_trace_fps (fill_qp env d) then (fill_qp env d)\<lparr>ea_fps := f\<rparr> else fill_qp env d)"
    "\<forall>x. f = Some x \<longrightarrow> fc_callback x"
    using start_fps_spec [OF b] by blast
  have q: "ea_rc_mode d = ee_rc_fixqp env \<Longrightarrow> ea_type d \<in> {ee_coding env CodingAVC, ee_coding env CodingHEVC} \<Longrightarrow>
      ea_qp_init (fill_qp env d) \<noteq> 0"
    by (auto simp: fill_qp_def)
  show ?thesis
    using fill_defaults_fields [OF d assms(2,3)] ok q f
    by (auto simp: usable_def size_invalid_def)
qed

lemma encoder_run:
  assumes "2 \<le> length args" "length args \<le> 2 ^ 30"
    and "run_args (options_of (enc_opts env)) args
      \<lparr>ec_args = a\<lparr>ea_rc_mode := ee_rc_butt env\<rparr>, ec_heap = [], ec_ub = False\<rparr> [] = (ret, c, errs)"
  shows "mpi_enc_test_cmd_update_by_args env [] (Some a) (int (length args)) (Some (map Some args @ [None])) =
    (if ec_ub c then None
     else map_option
       (\<lambda>(r, a, hp). (r, Some a, hp, if r = MPP_OK then [] else snd (mpi_enc_show_help (enc_opts env))))
       (after_parse env ret (ec_heap c) (ec_args c)))"
proof -
  let ?c = "\<lparr>ec_args = a\<lparr>ea_rc_mode := ee_rc_butt env\<rparr>, ec_heap = [], ec_ub = False\<rparr>"
  let ?i = "\<lparr>op_ctx = None, op_trie = None, op_node_cnt = 0, op_info_cnt = 0\<rparr> :: enc_ctx opt_impl"
  obtain r opt where s: "mpp_opt_setup [] (Some ?i) ?c ENC_NODE_COUNT 20 = (r, opt, [])"
    using setup_heap [of ENC_NODE_COUNT 20 ?i ?c] by (auto simp: ENC_NODE_COUNT_def)
  obtain impl where impl: "opt_add_all [] opt (enc_opts env) = Some (Some impl, [])"
    "op_ctx impl = Some ?c" "op_trie impl \<noteq> None"
    "outcome (mpp_opt_parse (Some impl) (int (length args)) (Some (map Some args @ [None]))) =
     Some (run_args (options_of (enc_opts env)) args ?c [])"
    by (rule parse_table [OF enc_table_ok enc_steps_small assms(1,2) _ _ s]) (simp_all add: ENC_NODE_COUNT_def)
  obtain impl' where p: "mpp_opt_parse (Some impl) (int (length args)) (Some (map Some args @ [None])) = Some (ret, impl', errs)"
    "the (op_ctx (the impl')) = c"
    using op_ctx_outcome impl(4) assms(3) by metis
  have keep: "impl\<lparr>op_ctx := map_option (\<lambda>c. c\<lparr>ec_heap := []\<rparr>) (op_ctx impl)\<rparr> = impl"
    using impl(2) by simp
  have "\<exists>i'. impl' = Some i' \<and> op_ctx i' \<noteq> None"
    using p(1) impl(2,3) assms(1) by (auto simp: mpp_opt_parse_def Option.bind_eq_Some_conv split: option.splits if_splits prod.splits)
  then have "parse_args env [] (a\<lparr>ea_rc_mode := ee_rc_butt env\<rparr>) (int (length args)) (map Some args @ [None]) = Some (ret, c)"
    using impl(1,3) p by (auto simp: parse_args_def opt_init_all s enc_opts_length Let_def keep mpp_opt_add_def)
  then show ?thesis
    using assms(1)
    by (auto simp: mpi_enc_test_cmd_update_by_args_def show_result_def split: option.splits bind_splits)
qed


section \<open>Lemmas on strides and rates\<close>

lemma align_down: "((y::int) AND NOT (2 ^ k - 1)) = y - y mod 2 ^ k"
proof -
  have "y AND NOT (mask k) = push_bit k (drop_bit k y)"
    by (rule bit_eqI) (auto simp: bit_simps)
  then show ?thesis
    using bits_ident [of k y] by (simp add: mask_eq_exp_minus_1 take_bit_eq_mod)
qed

lemma align_s32_spec:
  assumes "k = 3 \<or> k = 4" "0 \<le> w" "w \<le> 2 ^ 28"
  obtains s where "align_s32 w (2 ^ k) = Some s" "2 ^ k dvd s" "w \<le> s" "s < w + 2 ^ k"
proof -
  let ?s = "w + 2 ^ k - 1 - (w + 2 ^ k - 1) mod 2 ^ k"
  have "align_s32 w (2 ^ k) = Some ?s"
    using assms by (auto simp: align_s32_def s32_ok_def align_down [of _ 3, simplified] align_down [of _ 4, simplified])
  moreover have "2 ^ k dvd ?s" by (rule dvd_minus_mod)
  moreover have "0 \<le> (w + 2 ^ k - 1) mod 2 ^ k" "(w + 2 ^ k - 1) mod 2 ^ k < (2::int) ^ k" by simp_all
  then have "w \<le> ?s" "?s < w + 2 ^ k" by linarith+
  ultimately show thesis by (rule that)
qed

fun stores :: "directive \<Rightarrow> nat" where
  "stores (Set _ asg) = of_bool asg"
| "stores (Num _ _ _) = 1"
| "stores _ = 0"

lemma scan_vals_bound: "scan ds s vs = (r, vs', t) \<Longrightarrow> length vs' \<le> length vs + sum_list (map stores ds)"
  by (induction ds s vs rule: scan.induct)
    (fastforce simp: Let_def split: list.splits if_splits option.splits prod.splits)+

lemma scan_nothing: "scan ds s vs = (r, vs', t) \<Longrightarrow> r \<le> 0 \<Longrightarrow> vs' = []"
proof -
  assume a: "scan ds s vs = (r, vs', t)" "r \<le> 0"
  then show "vs' = []"
    by (induction ds s vs rule: scan.induct)
      (auto simp: Let_def scan_eof_def scan_fail_def split: list.splits if_splits option.splits prod.splits)
qed

lemma scan_least: "scan ds s vs = (r, vs', t) \<Longrightarrow> -1 \<le> r"
  by (induction ds s vs rule: scan.induct)
    (auto simp: Let_def scan_eof_def scan_fail_def split: list.splits if_splits option.splits prod.splits)

lemma fps_scan:
  assumes "sscanf fps_format s = (cnt, vs)"
  shows "-1 \<le> cnt" "cnt \<le> 6" "cnt \<le> 0 \<Longrightarrow> vs = []"
proof -
  obtain t where t: "scan fps_format s [] = (cnt, vs, t)"
    using assms by (auto simp: sscanf_def split: prod.splits)
  show "-1 \<le> cnt" using scan_least [OF t] .
  show "cnt \<le> 0 \<Longrightarrow> vs = []" using scan_nothing [OF t] .
  have "length vs \<le> 6" using scan_vals_bound [OF t] by (simp add: fps_format_def pct_d_def)
  then show "cnt \<le> 6" using scan_count [OF t] by (cases "0 \<le> cnt") auto
qed

section \<open>An example\<close>

text \<open>A header in which only YUV420SP and the AVC coding have a meaning, and a command line.\<close>

definition demo_fmts :: fmt_env where
  "demo_fmts = \<lparr>fe_base = (\<lambda>f. if f = 0 then YUV420SP else Other_fmt), fe_mask = (\<lambda>f. f), fe_is_fbc = (\<lambda>_. False),
     fe_is_afbc_v1 = (\<lambda>_. False), fe_is_rgb = (\<lambda>_. False), fe_is_le = (\<lambda>_. False), fe_is_be = (\<lambda>_. True),
     fe_rgb_base = 0x10000, fe_yuv420sp = 0\<rparr>"

definition demo_env :: enc_env where
  "demo_env = \<lparr>ee_fmts = demo_fmts, ee_is_yuv = (\<lambda>f. f < 0x10000), ee_frm = (\<lambda>_. 0),
     ee_coding = (\<lambda>c. case c of CodingAVC \<Rightarrow> 7 | CodingMJPEG \<Rightarrow> 8 | CodingHEVC \<Rightarrow> 16777220 | Coding_other _ \<Rightarrow> 0),
     ee_unused = 0, ee_autodetect = 1, ee_rc_butt = 5, ee_rc_fixqp = 2, ee_rc_vbr = 0,
     ee_support_enc = (\<lambda>t. t = 7), ee_support_dec = (\<lambda>_. False), ee_file = (\<lambda>_. None)\<rparr>"

definition demo_line :: "string list" where
  "demo_line = [''prog'', ''-w'', ''640'', ''-h'', ''480'', ''-t'', ''7'']"

definition demo_ctx :: enc_ctx where
  "demo_ctx = \<lparr>ec_args = zero_args\<lparr>ea_rc_mode := ee_rc_butt demo_env\<rparr>, ec_heap = [], ec_ub = False\<rparr>"


lemma demo_env_simps [simp]:
  "ee_fmts demo_env = demo_fmts" "ee_unused demo_env = 0" "ee_autodetect demo_env = 1" "ee_rc_butt demo_env = 5"
  "ee_rc_fixqp demo_env = 2" "ee_rc_vbr demo_env = 0" "ee_support_enc demo_env t \<longleftrightarrow> t = 7"
  "ee_coding demo_env CodingAVC = 7" "ee_coding demo_env CodingMJPEG = 8" "ee_coding demo_env CodingHEVC = 16777220"
  "fe_base demo_fmts f = (if f = 0 then YUV420SP else Other_fmt)"
  by (simp_all add: demo_env_def demo_fmts_def)

lemma demo_opts:
  "options_of (enc_opts demo_env) ''w'' = Some \<lparr>oi_name = ''w'', oi_full_name = ''width'', oi_help = ''the width of input picture'',
       oi_proc = Some mpi_enc_opt_w\<rparr>"
  "options_of (enc_opts demo_env) ''h'' = Some \<lparr>oi_name = ''h'', oi_full_name = ''height'', oi_help = ''the height of input picture'',
       oi_proc = Some mpi_enc_opt_h\<rparr>"
  "options_of (enc_opts demo_env) ''t'' = Some \<lparr>oi_name = ''t'', oi_full_name = ''type'', oi_help = ''output stream coding type'',
       oi_proc = Some (mpi_enc_opt_t demo_env)\<rparr>"
  by (simp_all add: options_of_def enc_opts_def)

lemma demo_nums: "atoi ''640'' = 640" "atoi ''480'' = 480"  "atoi ''7'' = 7" by code_simp+

lemma demo_run: "run_args (options_of (enc_opts demo_env)) demo_line demo_ctx [] =
   (MPP_OK, demo_ctx\<lparr>ec_args := (ec_args demo_ctx)\<lparr>ea_width := 640, ea_height := 480, ea_type := 7\<rparr>\<rparr>, [])"
  by (simp add: demo_line_def demo_opts is_option_def run_proc_def
   mpi_enc_opt_w_def mpi_enc_opt_h_def mpi_enc_opt_t_def num_opt_def demo_nums Let_def)

definition demo_args :: enc_args where
  "demo_args = zero_args\<lparr>ea_width := 640, ea_height := 480, ea_type := 7, ea_hor_stride := 640, ea_ver_stride := 480\<rparr>"

lemma demo_after: "after_parse demo_env MPP_OK [] ((ec_args demo_ctx)\<lparr>ea_width := 640, ea_height := 480, ea_type := 7\<rparr>) =
  Some (MPP_OK, demo_args, [])"
  by (simp add: after_parse_def demo_ctx_def fill_defaults_def zero_args_def demo_args_def mpi_enc_width_default_stride_def
    align_s32_def s32_ok_def size_invalid_def fill_qp_def start_fps_def Let_def word_le_nat_alt)

lemma demo_result:
  "mpi_enc_test_cmd_update_by_args demo_env [] (Some zero_args) 7 (Some (map Some demo_line @ [None])) =
     Some (MPP_OK, Some demo_args, [], [])"
  "run_args (options_of (enc_opts demo_env)) demo_line
      \<lparr>ec_args = zero_args\<lparr>ea_rc_mode := ee_rc_butt demo_env\<rparr>, ec_heap = [], ec_ub = False\<rparr> [] =
      (MPP_OK, demo_ctx\<lparr>ec_args := (ec_args demo_ctx)\<lparr>ea_width := 640, ea_height := 480, ea_type := 7\<rparr>\<rparr>, [])"
proof -
  show run: "run_args (options_of (enc_opts demo_env)) demo_line
      \<lparr>ec_args = zero_args\<lparr>ea_rc_mode := ee_rc_butt demo_env\<rparr>, ec_heap = [], ec_ub = False\<rparr> [] =
      (MPP_OK, demo_ctx\<lparr>ec_args := (ec_args demo_ctx)\<lparr>ea_width := 640, ea_height := 480, ea_type := 7\<rparr>\<rparr>, [])"
    using demo_run by (simp add: demo_ctx_def)
  have "length demo_line = 7" by (simp add: demo_line_def)
  with encoder_run [OF _ _ run]
  show "mpi_enc_test_cmd_update_by_args demo_env [] (Some zero_args) 7 (Some (map Some demo_line @ [None])) =
     Some (MPP_OK, Some demo_args, [], [])"
    using demo_after by (simp add: demo_ctx_def)
qed

section \<open>Properties\<close>

text \<open>What is reported at the end of the option table: whether the counts differ, and how many nodes there are.\<close>

definition option_counts :: "(mpp_ret \<times> 'c opt_impl option \<times> bool \<times> heap) option \<Rightarrow> (bool \<times> int \<times> int) option" where
  "option_counts r = (case r of
      Some (MPP_OK, Some impl, differ, _) \<Rightarrow>
        (case op_trie impl of Some t \<Rightarrow> Some (differ, t_node_count t, t_info_count t) | None \<Rightarrow> None)
    | _ \<Rightarrow> None)"

text \<open>
  C13: with memory for every allocation, the encoder's routine parses a command line, with at least
  one argument behind the program's name, as the
  reference parser does on the real table of options, whatever the files and the supported
  formats are, and then applies the defaults and checks to the arguments it left; the help is
  shown exactly when the return code is not zero.
\<close>

theorem encoder_command_line:
  assumes "2 \<le> length args" "length args \<le> 2 ^ 30"
    and "run_args (options_of (enc_opts env)) args
      \<lparr>ec_args = a\<lparr>ea_rc_mode := ee_rc_butt env\<rparr>, ec_heap = [], ec_ub = False\<rparr> [] = (ret, c, errs)"
  shows "mpi_enc_test_cmd_update_by_args env [] (Some a) (int (length args)) (Some (map Some args @ [None])) =
    (if ec_ub c then None
     else map_option
       (\<lambda>(r, a, hp). (r, Some a, hp, if r = MPP_OK then [] else snd (mpi_enc_show_help (enc_opts env))))
       (after_parse env ret (ec_heap c) (ec_args c)))"
  by (rule encoder_run [OF assms])

lemma encoder_command_line_witness:
  "mpi_enc_test_cmd_update_by_args demo_env [] (Some zero_args) 7 (Some (map Some demo_line @ [None])) =
     Some (MPP_OK, Some demo_args, [], [])"
proof -
  have "length demo_line = 7" by (simp add: demo_line_def)
  with encoder_command_line [OF _ _ demo_result(2)] demo_after show ?thesis by (simp add: demo_ctx_def)
qed

text \<open>
  C27: whatever the command line and the memory, arguments that are accepted can be used: no help was shown, the
  coding is a real one, a rate control mode is set, a raw input has a positive size and strides, and for
  H.264 and H.265 a fixed quantiser has a value. (Motion JPEG is left out of the last: its mode defaults to
  the fixed quantiser and its first quantiser stays 0.) The library's numbers of the rate control modes must differ from its
  number for none.
\<close>

theorem accepted_arguments_usable:
  assumes "mpi_enc_test_cmd_update_by_args env hp cmd argc argv = Some (MPP_OK, cmd', hp', shown)"
    "ee_rc_fixqp env \<noteq> ee_rc_butt env" "ee_rc_vbr env \<noteq> ee_rc_butt env"
  shows "shown = [] \<and> (\<exists>a. cmd' = Some a \<and> usable env a)"
  using assms(1) after_parse_usable [OF _ assms(2,3)]
  by (fastforce simp: mpi_enc_test_cmd_update_by_args_def show_result_def Option.bind_eq_Some_conv
      split: option.split_asm if_split_asm prod.split_asm)

lemma accepted_arguments_usable_witness: "usable demo_env demo_args"
  using accepted_arguments_usable [OF demo_result(1)] by simp

text \<open>
  The sizes the parser is set up with are exactly those of the table: adding the twenty
  options uses all the nodes and all the entries, neither array grows, and the check at the
  end of the options has nothing to report.
\<close>

theorem option_table_fits:
  "(case mpp_opt_setup [] (Some \<lparr>op_ctx = None, op_trie = None, op_node_cnt = 0, op_info_cnt = 0\<rparr>) (c :: enc_ctx) ENC_NODE_COUNT
       (int (length (enc_opts env))) of
     (_, opt, hp) \<Rightarrow> option_counts (do {
       (opt, hp) \<leftarrow> opt_add_all hp opt (enc_opts env);
       mpp_opt_add hp opt None
     })) = Some (False, 67, 20)"
  by code_simp

text \<open>Bytes per pixel of the first plane, and what the width is aligned to.\<close>

definition stride_shape :: "base_fmt \<Rightarrow> (int \<times> int) option" where
  "stride_shape base =
     (if base = YUV420P then Some (1, 16)
      else if base \<in> {YUV420SP, YUV420SP_VU, YUV422P, YUV422SP, YUV422SP_VU, YUV444SP, YUV444P} then Some (1, 8)
      else if base \<in> {RGB565, BGR565, RGB555, BGR555, RGB444, BGR444,
                      YUV422_YUYV, YUV422_YVYU, YUV422_UYVY, YUV422_VYUY} then Some (2, 8)
      else if base \<in> {RGB888, BGR888} then Some (3, 8)
      else if base \<in> {RGB101010, BGR101010, ARGB8888, ABGR8888, BGRA8888, RGBA8888} then Some (4, 8)
      else None)"

text \<open>
  The default stride of a picture of up to 2^28 pixels width is the number of bytes of a row
  rounded up: a multiple of 8 (16 for three-plane 4:2:0) pixels, wide enough for every pixel and
  less than one such step too wide; a format without a default has stride 0.
\<close>

theorem default_stride_fits:
  assumes "0 \<le> w" "w \<le> 2 ^ 28"
  shows "\<exists>s. mpi_enc_width_default_stride env w fmt = Some s \<and>
    (case stride_shape (fe_base env fmt) of None \<Rightarrow> s = 0
     | Some (bpp, a) \<Rightarrow> bpp * a dvd s \<and> bpp * w \<le> s \<and> s < bpp * (w + a))"
proof -
  obtain s8 where s8: "align_s32 w 8 = Some s8" "8 dvd s8" "w \<le> s8" "s8 < w + 8"
    using align_s32_spec [of 3 w] assms by auto
  obtain s16 where s16: "align_s32 w 16 = Some s16" "16 dvd s16" "w \<le> s16" "s16 < w + 16"
    using align_s32_spec [of 4 w] assms by auto
  have ok: "s32_ok (s8 * 2) = Some (s8 * 2)" "s32_ok (s8 * 3) = Some (s8 * 3)" "s32_ok (s8 * 4) = Some (s8 * 4)"
    using s8 assms by (auto simp: s32_ok_def)
  have d: "16 dvd s8 * 2" "24 dvd s8 * 3" "32 dvd s8 * 4"
    using s8(2) by presburger+
  show ?thesis
    by (cases "fe_base env fmt")
      (use s8 s16 ok d in \<open>simp_all add: mpi_enc_width_default_stride_def stride_shape_def\<close>)
qed

lemma default_stride_fits_witness:
  "\<exists>s. mpi_enc_width_default_stride demo_fmts 642 0 = Some s \<and> 8 dvd s \<and> 642 \<le> s \<and> s < 650"
  using default_stride_fits [of 642 demo_fmts 0] by (simp add: stride_shape_def)

text \<open>
  \<open>-fps\<close>: a text without a number is refused and changes nothing; without a part behind the
  slash the output rate is the input rate; a denominator that is left out is 1 and a flag that
  is left out is 0.
\<close>

theorem fps_option:
  assumes "sscanf fps_format s = (cnt, vs)" "mpi_enc_opt_fps c (Some s) = (step, c')"
  shows "if cnt \<le> 0 then step = 0 \<and> c' = c
    else step = 1 \<and>
      (cnt \<le> 3 \<longrightarrow> ea_fps_out_num (ec_args c') = ea_fps_in_num (ec_args c') \<and>
         ea_fps_out_den (ec_args c') = ea_fps_in_den (ec_args c') \<and>
         ea_fps_out_flex (ec_args c') = ea_fps_in_flex (ec_args c')) \<and>
      (cnt = 1 \<longrightarrow> ea_fps_in_den (ec_args c') = 1) \<and> (cnt \<le> 2 \<longrightarrow> ea_fps_in_flex (ec_args c') = 0) \<and>
      (cnt = 4 \<longrightarrow> ea_fps_out_den (ec_args c') = 1) \<and> (cnt \<in> {4, 5} \<longrightarrow> ea_fps_out_flex (ec_args c') = 0)"
proof -
  note F = fps_scan [OF assms(1)]
  from F(1,2) consider "cnt = -1" | "cnt = 0" | "cnt = 1" | "cnt = 2" | "cnt = 3" | "cnt = 4" | "cnt = 5" | "cnt = 6"
    by linarith
  then show ?thesis
    by cases (use assms F(3) in \<open>auto simp: mpi_enc_opt_fps_def fps_fill_def\<close>)
qed

lemma fps_option_witness: "ea_fps_out_num (ec_args (snd (mpi_enc_opt_fps demo_ctx (Some ''50:1'')))) =
   ea_fps_in_num (ec_args (snd (mpi_enc_opt_fps demo_ctx (Some ''50:1''))))"
proof -
  have "sscanf fps_format ''50:1'' = (2, [CInt 50, CInt 1])" by code_simp
  moreover obtain step c' where e: "mpi_enc_opt_fps demo_ctx (Some ''50:1'') = (step, c')" by fastforce
  ultimately show ?thesis using fps_option [of "''50:1''" 2 "[CInt 50, CInt 1]" demo_ctx step c'] by simp
qed

text \<open>
  An argument of blanks stores nothing, and yet \<open>-g\<close>, \<open>-rc\<close>, \<open>-bps\<close> and \<open>-qc\<close> take it for good,
  since they use the -1 of \<open>sscanf\<close> as a truth value; \<open>-fps\<close> refuses it.
\<close>

theorem blank_argument:
  assumes "\<forall>x \<in> set s. is_space x"
  shows "mpi_enc_opt_g c (Some s) = (1, c) \<and> mpi_enc_opt_rc c (Some s) = (1, c) \<and>
    mpi_enc_opt_bps c (Some s) = (1, c) \<and> mpi_enc_opt_qc c (Some s) = (1, c) \<and>
    mpi_enc_opt_fps c (Some s) = (0, c)"
proof -
  have "sscanf (pct_d # ds) s = (-1, [])" for ds
    using assms by (simp add: sscanf_def pct_d_def scan_eof_def)
  then show ?thesis
    by (simp add: mpi_enc_opt_g_def mpi_enc_opt_rc_def mpi_enc_opt_bps_def mpi_enc_opt_qc_def
        mpi_enc_opt_fps_def scan_opt_def fps_format_def fps_fill_def)
qed

lemma blank_argument_witness: "mpi_enc_opt_g demo_ctx (Some '' '') = (1, demo_ctx)"
  using blank_argument [of "'' ''" demo_ctx] by (simp add: is_space_def)

end
