(* ===== verification/Enc_Config.thy ===== *)
theory Enc_Config
  imports Frame_Memory
begin

text \<open>
  The configurations that \<open>mpp_utils/mpi_enc_utils.c\<close> generates for the encoder: the reference
  structures of the temporal layers, the smart group of pictures, the palette and the regions
  of the on-screen display. The functions of the encoder library are parameters.
\<close>

section \<open>Reference structures\<close>

datatype ref_mode = REF_TO_PREV_REF_FRM | REF_TO_PREV_INTRA | REF_TO_TEMPORAL_LAYER | REF_TO_PREV_LT_REF

record lt_cfg =
  lt_idx :: int
  lt_temporal_id :: int
  lt_ref_mode :: ref_mode
  lt_gap :: int
  lt_delay :: int

record st_cfg =
  is_non_ref :: bool
  temporal_id :: nat
  st_ref_mode :: ref_mode
  ref_arg :: nat
  st_repeat :: int

abbreviation st :: "bool \<Rightarrow> nat \<Rightarrow> ref_mode \<Rightarrow> st_cfg" where
  "st non_ref layer mode \<equiv>
     \<lparr>is_non_ref = non_ref, temporal_id = layer, st_ref_mode = mode, ref_arg = 0, st_repeat = 0\<rparr>"

abbreviation lt :: "int \<Rightarrow> lt_cfg" where
  "lt gap \<equiv> \<lparr>lt_idx = 0, lt_temporal_id = 0, lt_ref_mode = REF_TO_PREV_LT_REF, lt_gap = gap, lt_delay = 0\<rparr>"

text \<open>The arrays of a mode, as far as \<open>lt_cnt\<close> and \<open>st_cnt\<close> reach.\<close>

definition ref_arrays :: "int \<Rightarrow> lt_cfg list \<times> st_cfg list" where
  "ref_arrays gop_mode =
     (if gop_mode = 3 then
        ([lt 8],
         [st False 0 REF_TO_TEMPORAL_LAYER, st True 3 REF_TO_PREV_REF_FRM,
          st False 2 REF_TO_PREV_REF_FRM, st True 3 REF_TO_PREV_REF_FRM,
          st False 1 REF_TO_PREV_LT_REF, st True 3 REF_TO_PREV_REF_FRM,
          st False 2 REF_TO_PREV_REF_FRM, st True 3 REF_TO_PREV_REF_FRM,
          st False 0 REF_TO_TEMPORAL_LAYER])
      else if gop_mode = 2 then
        ([],
         [st False 0 REF_TO_TEMPORAL_LAYER, st True 2 REF_TO_PREV_REF_FRM,
          st False 1 REF_TO_PREV_REF_FRM, st True 2 REF_TO_PREV_REF_FRM,
          st False 0 REF_TO_TEMPORAL_LAYER])
      else if gop_mode = 1 then
        ([],
         [st False 0 REF_TO_TEMPORAL_LAYER, st True 1 REF_TO_PREV_REF_FRM,
          st False 0 REF_TO_PREV_REF_FRM])
      else ([], []))"

text \<open>The reference configuration of the library and the calls on it.\<close>

record 'r ref_api =
  ra_set_cfg_cnt :: "'r \<Rightarrow> nat \<Rightarrow> nat \<Rightarrow> mpp_ret \<times> 'r"
  ra_add_lt_cfg :: "'r \<Rightarrow> lt_cfg list \<Rightarrow> mpp_ret \<times> 'r"
  ra_add_st_cfg :: "'r \<Rightarrow> st_cfg list \<Rightarrow> mpp_ret \<times> 'r"
  ra_check :: "'r \<Rightarrow> mpp_ret \<times> 'r"

definition mpi_enc_gen_ref_cfg :: "'r ref_api \<Rightarrow> 'r \<Rightarrow> int \<Rightarrow> mpp_ret \<times> 'r" where
  "mpi_enc_gen_ref_cfg api ref gop_mode =
     (let (lts, sts) = ref_arrays gop_mode in
      if lts \<noteq> [] \<or> sts \<noteq> [] then
        let (_, ref) = ra_set_cfg_cnt api ref (length lts) (length sts);
            ref = (if lts \<noteq> [] then snd (ra_add_lt_cfg api ref lts) else ref);
            ref = (if sts \<noteq> [] then snd (ra_add_st_cfg api ref sts) else ref)
        in ra_check api ref
      else (MPP_OK, ref))"

definition mpi_enc_gen_smart_gop_ref_cfg :: "'r ref_api \<Rightarrow> 'r \<Rightarrow> int \<Rightarrow> int \<Rightarrow> mpp_ret \<times> 'r" where
  "mpi_enc_gen_smart_gop_ref_cfg api ref gop_len vi_len =
     (let (_, ref) = ra_set_cfg_cnt api ref 1 8;
          (_, ref) = ra_add_lt_cfg api ref [lt gop_len];
          sts = [st False 0 REF_TO_PREV_INTRA] @
            (if vi_len > 1 then [(st False 0 REF_TO_PREV_REF_FRM)\<lparr>st_repeat := vi_len - 2\<rparr>] else []) @
            [st False 0 REF_TO_PREV_INTRA];
          (_, ref) = ra_add_st_cfg api ref sts
      in ra_check api ref)"

section \<open>On-screen display\<close>

datatype osd_colour = PLT_RED | PLT_YELLOW | PLT_BLUE | PLT_GREEN | PLT_CYAN | PLT_TRANS | PLT_BLACK | PLT_WHITE

definition plt_table :: "osd_colour list" where
  "plt_table = [PLT_RED, PLT_YELLOW, PLT_BLUE, PLT_GREEN, PLT_CYAN, PLT_TRANS, PLT_BLACK, PLT_WHITE]"

definition mpi_enc_gen_osd_plt :: "osd_colour list option \<Rightarrow> u32 \<Rightarrow> mpp_ret \<times> osd_colour list option" where
  "mpi_enc_gen_osd_plt osd_plt frame_cnt =
     (MPP_OK, map_option (\<lambda>_. map (\<lambda>k. plt_table ! unat (((frame_cnt AND 7) + of_nat k) mod 8)) [0..<256]) osd_plt)"

record osd_region =
  or_inverse :: u32
  or_start_mb_x :: u32
  or_start_mb_y :: u32
  or_num_mb_x :: u32
  or_num_mb_y :: u32
  or_buf_offset :: u32
  or_enable :: bool

record osd_data =
  od_num_region :: u32
  od_region :: "osd_region list"
  od_buf :: "u8 list option"

text \<open>The loop over the regions: the regions and the offset after the last.\<close>

fun osd_regions :: "nat \<Rightarrow> u32 \<Rightarrow> u32 \<Rightarrow> u32 \<Rightarrow> u32 \<Rightarrow> u32 \<Rightarrow> u32 \<Rightarrow> u32 \<Rightarrow> osd_region list \<times> u32" where
  "osd_regions 0 mb_x mb_y off step_x step_y w_max h_max = ([], off)"
| "osd_regions (Suc n) mb_x mb_y off step_x step_y w_max h_max =
     (let region_size = mpp_align (step_x * step_y * 256) 16;
          r = \<lparr>or_inverse = 1, or_start_mb_x = mb_x, or_start_mb_y = mb_y, or_num_mb_x = step_x,
               or_num_mb_y = step_y, or_buf_offset = off, or_enable = (step_x \<noteq> 0 \<and> step_y \<noteq> 0)\<rparr>;
          mb_x = mb_x + step_x;
          mb_y = mb_y + step_y;
          mb_x = (if mb_x \<ge> w_max then mb_x - w_max else mb_x);
          mb_y = (if mb_y \<ge> h_max then mb_y - h_max else mb_y);
          (rs, off) = osd_regions n mb_x mb_y (off + region_size) step_x step_y w_max h_max
      in (r # rs, off))"

fun osd_fill :: "nat \<Rightarrow> osd_region list \<Rightarrow> u8 list \<Rightarrow> u8 list option" where
  "osd_fill k [] buf = Some buf"
| "osd_fill k (r # rs) buf = do {
     buf \<leftarrow> blit buf (unat (or_buf_offset r))
              (replicate (unat (or_num_mb_x r * or_num_mb_y r * 256)) (of_nat k));
     osd_fill (Suc k) rs buf
   }"

text \<open>
  \<open>get\<close> is \<open>mpp_buffer_get\<close> on the group: the buffer for a size, \<^const>\<open>None\<close> on failure. A
  division by zero is \<^const>\<open>None\<close>.
\<close>

definition mpi_enc_gen_osd_data ::
  "(u32 \<Rightarrow> u8 list option) \<Rightarrow> osd_data \<Rightarrow> u32 \<Rightarrow> u32 \<Rightarrow> u32 \<Rightarrow> (mpp_ret \<times> osd_data) option" where
  "mpi_enc_gen_osd_data get osd width height frame_cnt =
     (let mb_w_max = mpp_align width 16 div 16;
          mb_h_max = mpp_align height 16 div 16;
          step_x = mpp_align mb_w_max 8 div 8;
          step_y = mpp_align mb_h_max 16 div 16
      in if mb_w_max = 0 \<or> mb_h_max = 0 then None
         else
           let mb_x = (frame_cnt * step_x) mod mb_w_max;
               mb_y = (frame_cnt * step_y) mod mb_h_max;
               buf = od_buf osd;
               buf_size = (case buf of None \<Rightarrow> 0 | Some b \<Rightarrow> of_nat (length b));
               (regions, buf_offset) = osd_regions 8 mb_x mb_y 0 step_x step_y mb_w_max mb_h_max;
               buf = (if buf_size < buf_offset then get buf_offset else buf)
           in do {
             buf \<leftarrow> (case buf of None \<Rightarrow> Some None | Some b \<Rightarrow> map_option Some (osd_fill 0 regions b));
             Some (MPP_OK, osd\<lparr>od_num_region := 8, od_region := regions, od_buf := buf\<rparr>)
           })"

section \<open>Lemmas\<close>

lemma mpp_align_nat:
  assumes "k < 32" "unat x + 2 ^ k \<le> 2 ^ 32"
  shows "unat (mpp_align x (2 ^ k)) = (unat x + 2 ^ k - 1) div 2 ^ k * 2 ^ k"
  using unat_align [of k x] assms by (simp add: mpp_align_def)

lemma osd_regions_spec:
  assumes "osd_regions n x y off sx sy wm hm = (rs, off')" "x < wm" "y < hm" "sx \<le> wm" "sy \<le> hm"
    "unat wm < 2 ^ 30" "unat hm < 2 ^ 30" "sz = mpp_align (sx * sy * 256) 16"
  shows "length rs = n" "off' = off + of_nat n * sz"
    "k < n \<Longrightarrow> or_start_mb_x (rs ! k) < wm \<and> or_start_mb_y (rs ! k) < hm \<and> or_num_mb_x (rs ! k) = sx \<and>
       or_num_mb_y (rs ! k) = sy \<and> or_buf_offset (rs ! k) = off + of_nat k * sz"
proof -
  have "length rs = n \<and> off' = off + of_nat n * sz \<and>
    (\<forall>k < n. or_start_mb_x (rs ! k) < wm \<and> or_start_mb_y (rs ! k) < hm \<and> or_num_mb_x (rs ! k) = sx \<and>
       or_num_mb_y (rs ! k) = sy \<and> or_buf_offset (rs ! k) = off + of_nat k * sz)"
    using assms
  proof (induction n arbitrary: x y off rs off')
    case (Suc n)
    let ?x = "if x + sx \<ge> wm then x + sx - wm else x + sx"
    let ?y = "if y + sy \<ge> hm then y + sy - hm else y + sy"
    obtain rs1 where r: "osd_regions n ?x ?y (off + sz) sx sy wm hm = (rs1, off')" 
      "rs = \<lparr>or_inverse = 1, or_start_mb_x = x, or_start_mb_y = y, or_num_mb_x = sx,
               or_num_mb_y = sy, or_buf_offset = off, or_enable = (sx \<noteq> 0 \<and> sy \<noteq> 0)\<rparr> # rs1"
      using Suc.prems(1,8) by (auto simp: Let_def split: prod.splits)
    have "unat (x + sx) = unat x + unat sx" "unat (y + sy) = unat y + unat sy"
      using Suc.prems by (auto simp: unat_word_ariths word_le_nat_alt word_less_nat_alt)
    then have "?x < wm" "?y < hm"
      using Suc.prems by (auto simp: word_le_nat_alt word_less_nat_alt unat_sub)
    from Suc.IH [OF r(1) this Suc.prems(4-8)] r(2) Suc.prems(2,3) show ?case
      by (auto simp: nth_Cons algebra_simps split: nat.splits)
  qed simp
  then show "length rs = n" "off' = off + of_nat n * sz"
    "k < n \<Longrightarrow> or_start_mb_x (rs ! k) < wm \<and> or_start_mb_y (rs ! k) < hm \<and> or_num_mb_x (rs ! k) = sx \<and>
       or_num_mb_y (rs ! k) = sy \<and> or_buf_offset (rs ! k) = off + of_nat k * sz"
    by auto
qed

lemma osd_fill_spec:
  assumes "\<And>k. k < length rs \<Longrightarrow> unat (or_buf_offset (rs ! k)) = (i + k) * n"
    "\<And>k. k < length rs \<Longrightarrow> unat (or_num_mb_x (rs ! k) * or_num_mb_y (rs ! k) * 256) = n"
    "(i + length rs) * n \<le> length b"
  shows "\<exists>b'. osd_fill i rs b = Some b' \<and> length b' = length b \<and> take (i * n) b' = take (i * n) b \<and>
    (\<forall>k < length rs. \<forall>j < n. b' ! ((i + k) * n + j) = of_nat (i + k))"
  using assms
proof (induction rs arbitrary: i b)
  case (Cons r rs)
  let ?c = "take (i * n) b @ replicate n (of_nat i) @ drop (i * n + n) b"
  have len: "(Suc i + length rs) * n \<le> length b" "i * n + n \<le> length b"
    using Cons.prems(3) by (auto simp: algebra_simps)
  have bl: "blit b (unat (or_buf_offset r)) (replicate (unat (or_num_mb_x r * or_num_mb_y r * 256)) (of_nat i)) = Some ?c"
    using Cons.prems(1) [of 0] Cons.prems(2) [of 0] len(2) by (simp add: blit_def)
  have lc: "length ?c = length b" using len(2) by simp
  from Cons.IH [of "Suc i" ?c] Cons.prems(1) [of "Suc k" for k] Cons.prems(2) [of "Suc k" for k] len lc
  obtain b' where b': "osd_fill (Suc i) rs ?c = Some b'" "length b' = length b"
    "take (Suc i * n) b' = take (Suc i * n) ?c" "\<forall>k < length rs. \<forall>j < n. b' ! ((Suc i + k) * n + j) = of_nat (Suc i + k)"
    by (auto simp del: take_append)
  have t: "take (i * n) b' = take (i * n) b"
    using arg_cong [OF b'(3), of "take (i * n)"] len(2) by (simp add: min_def)
  have z: "b' ! (i * n + j) = of_nat i" if "j < n" for j
  proof -
    have lt: "i * n + j < Suc i * n" using that by simp
    have "b' ! (i * n + j) = take (Suc i * n) b' ! (i * n + j)" using lt by (simp only: nth_take)
    also have "\<dots> = ?c ! (i * n + j)" using lt by (simp only: b'(3) nth_take)
    finally show ?thesis using that len(2) by (simp add: nth_append)
  qed
  have "b' ! ((i + k) * n + j) = of_nat (i + k)" if "k < length (r # rs)" "j < n" for k j
    using that z b'(4) by (cases k) auto
  with bl b' t show ?case by auto
qed simp


text \<open>A size in blocks of sixteen pixels.\<close>

definition blocks :: "u32 \<Rightarrow> nat" where
  "blocks n = (unat n + 15) div 16"

lemma align16: "unat x \<le> 2 ^ 30 \<Longrightarrow> unat (mpp_align x 16) = (unat x + 15) div 16 * 16"
  using mpp_align_nat [of 4 x] by simp

lemma align8: "unat x \<le> 2 ^ 30 \<Longrightarrow> unat (mpp_align x 8) = (unat x + 7) div 8 * 8"
  using mpp_align_nat [of 3 x] by simp

lemma blocks_align: "unat n \<le> 2 ^ 14 \<Longrightarrow> unat (mpp_align n 16 div 16) = blocks n"
  by (simp add: unat_div align16 blocks_def)

lemma osd_geometry:
  assumes "1 \<le> unat width" "unat width \<le> 2 ^ 14" "1 \<le> unat height" "unat height \<le> 2 ^ 14"
    and m: "wm = mpp_align width 16 div 16" "hm = mpp_align height 16 div 16"
    and s: "sx = mpp_align wm 8 div 8" "sy = mpp_align hm 16 div 16"
    and sz_def: "sz = mpp_align (sx * sy * 256) 16" and n_def: "n = unat sx * unat sy * 256"
  shows "unat wm = blocks width" "unat hm = blocks height" "1 \<le> blocks width" "blocks width \<le> 2 ^ 10"
    "1 \<le> blocks height" "blocks height \<le> 2 ^ 10" "unat sx \<le> unat wm" "unat sy \<le> unat hm"
    "n \<le> (2 ^ 7 + 1) * 2 ^ 7 * 256" "16 dvd n" "0 < n" "unat (sx * sy * 256) = n" "unat sz = n"
proof -
  show wm: "unat wm = blocks width" "unat hm = blocks height" using assms by (simp_all add: m blocks_align)
  show b: "1 \<le> blocks width" "blocks width \<le> 2 ^ 10" "1 \<le> blocks height" "blocks height \<le> 2 ^ 10"
    using assms by (simp_all add: blocks_def)
  have ux: "unat sx = (blocks width + 7) div 8" "unat sy = (blocks height + 15) div 16"
    using b by (simp_all add: s unat_div align8 align16 wm)
  have sx: "1 \<le> unat sx" "unat sx \<le> 2 ^ 7 + 1" "1 \<le> unat sy" "unat sy \<le> 2 ^ 7" "unat sx \<le> unat wm" "unat sy \<le> unat hm"
    using b by (simp_all add: ux wm)
  then show "unat sx \<le> unat wm" "unat sy \<le> unat hm" by simp_all
  show nb: "n \<le> (2 ^ 7 + 1) * 2 ^ 7 * 256"
    unfolding n_def using sx by (intro mult_le_mono) simp_all
  show n16: "16 dvd n" "0 < n" using sx by (auto simp: n_def)
  show pn: "unat (sx * sy * 256) = n"
    using nb by (simp add: unat_word_ariths n_def mod_mult_left_eq)
  show sz: "unat sz = n"
  proof -
    have "unat (sx * sy * 256) \<le> 2 ^ 30" using nb by (simp add: pn)
    then have "unat sz = (n + 15) div 16 * 16" unfolding sz_def by (simp only: align16 pn)
    then show ?thesis using n16(1) by presburger
  qed
qed

section \<open>Properties\<close>

text \<open>
  C35: For a picture of 1 to 16384 pixels each way, whatever the number of the frame, the eight regions of the display
  start inside the picture, lie in the buffer one behind the other at multiples of 16 bytes with the size of
  their index data, and every byte of region \<open>k\<close> is the index \<open>k\<close>; no write leaves the buffer, be
  it the old one (of less than 4 GiB), a new one, which the buffer library makes as long as was asked for, or none.
\<close>

theorem osd_regions_painted:
  assumes "1 \<le> unat width" "unat width \<le> 2 ^ 14" "1 \<le> unat height" "unat height \<le> 2 ^ 14"
    and get: "\<And>n b. get n = Some b \<Longrightarrow> unat n \<le> length b"
    and old: "\<And>b. od_buf osd = Some b \<Longrightarrow> length b < 2 ^ 32"
  shows "\<exists>d n. mpi_enc_gen_osd_data get osd width height frame_cnt = Some (MPP_OK, d) \<and>
    od_num_region d = 8 \<and> length (od_region d) = 8 \<and> 16 dvd n \<and> 0 < n \<and>
    (\<forall>k < 8. let r = od_region d ! k in
       unat (or_start_mb_x r) < blocks width \<and> unat (or_start_mb_y r) < blocks height \<and>
       unat (or_buf_offset r) = k * n \<and> unat (or_num_mb_x r) * unat (or_num_mb_y r) * 256 = n \<and>
       (\<forall>b. od_buf d = Some b \<longrightarrow> (\<forall>j < n. b ! (k * n + j) = of_nat k)))"
proof -
  define wm hm where m: "wm = mpp_align width 16 div 16" "hm = mpp_align height 16 div 16"
  define sx sy where s: "sx = mpp_align wm 8 div 8" "sy = mpp_align hm 16 div 16"
  define sz where "sz = mpp_align (sx * sy * 256) 16"
  define n where "n = unat sx * unat sy * 256"
  note geo = osd_geometry [OF assms(1-4) m s sz_def n_def]
  note wm = geo(1,2) and b = geo(3-6) and sx = geo(7,8) and nb = geo(9) and n16 = geo(10,11) and pn = geo(12) and sz = geo(13)
  obtain rs off where r: "osd_regions 8 ((frame_cnt * sx) mod wm) ((frame_cnt * sy) mod hm) 0 sx sy wm hm = (rs, off)"
    by fastforce
  have nz: "wm \<noteq> 0" "hm \<noteq> 0" using wm b by (auto simp: unat_eq_0)
  have lt: "(frame_cnt * sx) mod wm < wm" "(frame_cnt * sy) mod hm < hm"
    using nz by (simp_all add: word_less_nat_alt unat_mod unat_gt_0)
  note R = osd_regions_spec [OF r lt _ _ _ _ sz_def]
  have R': "length rs = 8" "off = 8 * sz" "\<And>k. k < 8 \<Longrightarrow> or_start_mb_x (rs ! k) < wm \<and> or_start_mb_y (rs ! k) < hm \<and>
      or_num_mb_x (rs ! k) = sx \<and> or_num_mb_y (rs ! k) = sy \<and> or_buf_offset (rs ! k) = of_nat k * sz"
    using R sx wm b by (simp_all add: word_le_nat_alt)
  have off: "unat (or_buf_offset (rs ! k)) = k * n" if "k < 8" for k
  proof -
    have "k * n < 2 ^ 32" using that nb mult_le_mono [of k 8 n "(2 ^ 7 + 1) * 2 ^ 7 * 256"] by simp
    then show ?thesis using R'(3) [OF that] that by (simp add: unat_word_ariths sz unat_of_nat)
  qed
  have uo: "unat off = 8 * n" using nb by (simp add: R'(2) unat_word_ariths sz)
  define buf where "buf = (if (case od_buf osd of None \<Rightarrow> 0 | Some b \<Rightarrow> of_nat (length b)) < off then get off else od_buf osd)"
  have bl: "8 * n \<le> length b" if "buf = Some b" for b
    using that get [of off b] old uo
    by (auto simp: buf_def word_less_nat_alt unat_of_nat split: if_splits option.splits)
  have F: "\<exists>b'. osd_fill 0 rs b = Some b' \<and> (\<forall>k < 8. \<forall>j < n. b' ! (k * n + j) = of_nat k)" if "buf = Some b" for b
    using osd_fill_spec [of rs 0 n b] R'(1,3) off pn bl [OF that] by auto
  have G: "mpi_enc_gen_osd_data get osd width height frame_cnt =
      (case buf of None \<Rightarrow> Some (MPP_OK, osd\<lparr>od_num_region := 8, od_region := rs, od_buf := None\<rparr>)
       | Some b \<Rightarrow> map_option (\<lambda>b. (MPP_OK, osd\<lparr>od_num_region := 8, od_region := rs, od_buf := Some b\<rparr>)) (osd_fill 0 rs b))"
    using nz r unfolding mpi_enc_gen_osd_data_def Let_def m [symmetric] s [symmetric]
    by (auto simp: buf_def [symmetric] split: option.splits bind_splits)
  have P: "\<forall>k < 8. let r = rs ! k in
       unat (or_start_mb_x r) < blocks width \<and> unat (or_start_mb_y r) < blocks height \<and>
       unat (or_buf_offset r) = k * n \<and> unat (or_num_mb_x r) * unat (or_num_mb_y r) * 256 = n"
    using R'(3) off wm by (simp add: Let_def word_less_nat_alt n_def)
  show ?thesis
  proof (cases buf)
    case None
    then show ?thesis using G P R'(1) n16 by (intro exI [of _ n] exI) (auto simp: Let_def)
  next
    case (Some b)
    then obtain b' where "osd_fill 0 rs b = Some b'" "\<forall>k < 8. \<forall>j < n. b' ! (k * n + j) = of_nat k"
      using F by blast
    then show ?thesis using G P R'(1) n16 Some by (intro exI [of _ n] exI) (auto simp: Let_def)
  qed
qed

lemma osd_regions_painted_witness:
  "\<exists>d. mpi_enc_gen_osd_data (\<lambda>n. Some (replicate (unat n) 0))
       \<lparr>od_num_region = 0, od_region = [], od_buf = None\<rparr> 320 240 6 = Some (MPP_OK, d) \<and> length (od_region d) = 8"
proof -
  have u: "unat (320 :: u32) = 320" "unat (240 :: u32) = 240" by simp_all
  show ?thesis
    using osd_regions_painted [of 320 240 "\<lambda>n. Some (replicate (unat n) 0)"
        "\<lparr>od_num_region = 0, od_region = [], od_buf = None\<rparr>" 6] by (auto simp: u)
qed

end
