(* ===== verification/Fill_Image.thy ===== *)
theory Fill_Image
  imports Frame_Memory
begin

text \<open>
  Synthetic images (\<open>fill_image\<close> and the functions it calls, \<open>mpp_utils/mpp_utils.c\<close>): one
  definition per format branch, the packers of an RGB pixel, the moving colour bar, and the
  two static flags the RGB branches keep between calls. Sizes and coordinates are numbers
  below \<open>2 ^ 32\<close>; the products the code computes in 32 bits are reduced with \<open>u32_of_nat\<close>.
\<close>

unbundle bit_operations_syntax

definition m32 :: "nat \<Rightarrow> nat" where
  "m32 n = n mod 2 ^ 32"

lemma m32_id [simp]: "n < 2 ^ 32 \<Longrightarrow> m32 n = n"
  by (simp add: m32_def)

definition byte :: "nat \<Rightarrow> u8" where
  "byte n = word_of_nat n"

section \<open>Planes of the YUV formats\<close>

definition luma_px :: "nat \<Rightarrow> nat \<Rightarrow> nat \<Rightarrow> (nat \<times> u8) list" where
  "luma_px fc x y = [(x, byte (x + y + fc * 3))]"

definition u_val :: "nat \<Rightarrow> nat \<Rightarrow> u8" where
  "u_val fc y = byte (128 + y + fc * 2)"

definition v_val :: "nat \<Rightarrow> nat \<Rightarrow> u8" where
  "v_val fc x = byte (64 + x + fc * 5)"

definition fill_MPP_FMT_YUV420SP ::
  "u8 list \<Rightarrow> nat \<Rightarrow> nat \<Rightarrow> nat \<Rightarrow> nat \<Rightarrow> nat \<Rightarrow> u8 list option" where
  "fill_MPP_FMT_YUV420SP buf width height hor_stride ver_stride frame_count =
     run_writes buf
       (plane 0 hor_stride height width (luma_px frame_count) @
        plane (m32 (hor_stride * ver_stride)) hor_stride (height div 2) (width div 2)
          (\<lambda>x y. [(m32 (x * 2), u_val frame_count y), (m32 (x * 2 + 1), v_val frame_count x)]))"

definition fill_MPP_FMT_YUV422SP ::
  "u8 list \<Rightarrow> nat \<Rightarrow> nat \<Rightarrow> nat \<Rightarrow> nat \<Rightarrow> nat \<Rightarrow> u8 list option" where
  "fill_MPP_FMT_YUV422SP buf width height hor_stride ver_stride frame_count =
     run_writes buf
       (plane 0 hor_stride height width (luma_px frame_count) @
        plane (m32 (hor_stride * ver_stride)) hor_stride height (width div 2)
          (\<lambda>x y. [(m32 (x * 2), u_val frame_count (y div 2)), (m32 (x * 2 + 1), v_val frame_count x)]))"

definition fill_YUV420P :: "u8 list \<Rightarrow> nat \<Rightarrow> nat \<Rightarrow> nat \<Rightarrow> nat \<Rightarrow> nat \<Rightarrow> u8 list option" where
  "fill_YUV420P buf width height hor_stride ver_stride frame_count =
     (let buf_c = m32 (hor_stride * ver_stride) in
      run_writes buf
       (plane 0 hor_stride height width (luma_px frame_count) @
        plane buf_c (hor_stride div 2) (height div 2) (width div 2) (\<lambda>x y. [(x, u_val frame_count y)]) @
        plane (buf_c + m32 (hor_stride * ver_stride) div 4) (hor_stride div 2) (height div 2) (width div 2)
          (\<lambda>x y. [(x, v_val frame_count x)])))"

definition fill_YUV420SP_VU :: "u8 list \<Rightarrow> nat \<Rightarrow> nat \<Rightarrow> nat \<Rightarrow> nat \<Rightarrow> nat \<Rightarrow> u8 list option" where
  "fill_YUV420SP_VU buf width height hor_stride ver_stride frame_count =
     run_writes buf
       (plane 0 hor_stride height width (luma_px frame_count) @
        plane (m32 (hor_stride * ver_stride)) hor_stride (height div 2) (width div 2)
          (\<lambda>x y. [(m32 (x * 2 + 1), u_val frame_count y), (m32 (x * 2), v_val frame_count x)]))"

definition fill_YUV422P :: "u8 list \<Rightarrow> nat \<Rightarrow> nat \<Rightarrow> nat \<Rightarrow> nat \<Rightarrow> nat \<Rightarrow> u8 list option" where
  "fill_YUV422P buf width height hor_stride ver_stride frame_count =
     (let buf_c = m32 (hor_stride * ver_stride) in
      run_writes buf
       (plane 0 hor_stride height width (luma_px frame_count) @
        plane buf_c (hor_stride div 2) height (width div 2) (\<lambda>x y. [(x, u_val frame_count (y div 2))]) @
        plane (buf_c + m32 (hor_stride * ver_stride) div 2) (hor_stride div 2) height (width div 2)
          (\<lambda>x y. [(x, v_val frame_count x)])))"

definition fill_YUV422SP_VU :: "u8 list \<Rightarrow> nat \<Rightarrow> nat \<Rightarrow> nat \<Rightarrow> nat \<Rightarrow> nat \<Rightarrow> u8 list option" where
  "fill_YUV422SP_VU buf width height hor_stride ver_stride frame_count =
     run_writes buf
       (plane 0 hor_stride height width (luma_px frame_count) @
        plane (m32 (hor_stride * ver_stride)) hor_stride height (width div 2)
          (\<lambda>x y. [(m32 (x * 2 + 1), u_val frame_count (y div 2)), (m32 (x * 2), v_val frame_count x)]))"

text \<open>The packed formats differ in the places of the two luma bytes, of U and of V.\<close>

definition packed_px :: "nat \<Rightarrow> nat \<Rightarrow> nat \<Rightarrow> nat \<Rightarrow> nat \<Rightarrow> nat \<Rightarrow> nat \<Rightarrow> (nat \<times> u8) list" where
  "packed_px y0 y1 u v fc x y =
     [(m32 (x * 4 + y0), byte (x * 2 + 0 + y + fc * 3)),
      (m32 (x * 4 + y1), byte (x * 2 + 1 + y + fc * 3)),
      (m32 (x * 4 + u), u_val fc (y div 2)),
      (m32 (x * 4 + v), v_val fc x)]"

definition fill_YUYV :: "u8 list \<Rightarrow> nat \<Rightarrow> nat \<Rightarrow> nat \<Rightarrow> nat \<Rightarrow> u8 list option" where
  "fill_YUYV buf width height hor_stride frame_count =
     run_writes buf (plane 0 hor_stride height (width div 2) (packed_px 0 2 1 3 frame_count))"

definition fill_YVYU :: "u8 list \<Rightarrow> nat \<Rightarrow> nat \<Rightarrow> nat \<Rightarrow> nat \<Rightarrow> u8 list option" where
  "fill_YVYU buf width height hor_stride frame_count =
     run_writes buf (plane 0 hor_stride height (width div 2) (packed_px 0 2 3 1 frame_count))"

definition fill_UYVY :: "u8 list \<Rightarrow> nat \<Rightarrow> nat \<Rightarrow> nat \<Rightarrow> nat \<Rightarrow> u8 list option" where
  "fill_UYVY buf width height hor_stride frame_count =
     run_writes buf (plane 0 hor_stride height (width div 2) (packed_px 1 3 0 2 frame_count))"

definition fill_VYUY :: "u8 list \<Rightarrow> nat \<Rightarrow> nat \<Rightarrow> nat \<Rightarrow> nat \<Rightarrow> u8 list option" where
  "fill_VYUY buf width height hor_stride frame_count =
     run_writes buf (plane 0 hor_stride height (width div 2) (packed_px 1 3 2 0 frame_count))"

definition fill_YUV400 :: "u8 list \<Rightarrow> nat \<Rightarrow> nat \<Rightarrow> nat \<Rightarrow> nat \<Rightarrow> u8 list option" where
  "fill_YUV400 buf width height hor_stride frame_count =
     run_writes buf (plane 0 hor_stride height width (luma_px frame_count))"

definition fill_YUV444SP :: "u8 list \<Rightarrow> nat \<Rightarrow> nat \<Rightarrow> nat \<Rightarrow> nat \<Rightarrow> nat \<Rightarrow> u8 list option" where
  "fill_YUV444SP buf width height hor_stride ver_stride frame_count =
     run_writes buf
       (plane 0 hor_stride height width (luma_px frame_count) @
        plane (m32 (hor_stride * ver_stride)) (m32 (hor_stride * 2)) height width
          (\<lambda>x y. [(m32 (x * 2), u_val frame_count (y div 2)), (m32 (x * 2 + 1), v_val frame_count x)]))"

definition fill_YUV444P :: "u8 list \<Rightarrow> nat \<Rightarrow> nat \<Rightarrow> nat \<Rightarrow> nat \<Rightarrow> nat \<Rightarrow> u8 list option" where
  "fill_YUV444P buf width height hor_stride ver_stride frame_count =
     run_writes buf
       (plane 0 hor_stride height width (luma_px frame_count) @
        plane (m32 (hor_stride * ver_stride)) hor_stride height width
          (\<lambda>x y. [(x, u_val frame_count (y div 2))]) @
        plane (m32 (hor_stride * ver_stride * 2)) hor_stride height width
          (\<lambda>x y. [(x, v_val frame_count x)]))"

section \<open>RGB pixels\<close>

definition clip3 :: "int \<Rightarrow> int \<Rightarrow> int \<Rightarrow> int" where
  "clip3 l h v = (if v < l then l else if v > h then h else v)"

definition get_rgb_color :: "int \<Rightarrow> int \<Rightarrow> int \<Rightarrow> u32 \<times> u32 \<times> u32" where
  "get_rgb_color x y frm_cnt =
     (if frm_cnt = 0 then (0xff, 0, 0)
      else if frm_cnt = 1 then (0, 0xff, 0)
      else if frm_cnt = 2 then (0, 0, 0xff)
      else let Y = (0 + x + y + frm_cnt * 3) mod 256;
               U = (128 + y div 2 + frm_cnt * 2) mod 256;
               V = (64 + x div 2 + frm_cnt * 5) mod 256;
               R = Y + (360 * (V - 128)) div 256;
               G = Y - (88 * (U - 128) + 184 * (V - 128)) div 256;
               B = Y + (455 * (U - 128)) div 256
           in (word_of_int (clip3 0 255 R), word_of_int (clip3 0 255 G), word_of_int (clip3 0 255 B)))"

definition half_bytes :: "u16 \<Rightarrow> bool \<Rightarrow> u8 list" where
  "half_bytes val be =
     (if be then [ucast (drop_bit 8 val AND 0xff), ucast (val AND 0xff)]
      else [ucast (val AND 0xff), ucast (drop_bit 8 val AND 0xff)])"

definition word_bytes :: "u32 \<Rightarrow> bool \<Rightarrow> u8 list" where
  "word_bytes val be =
     (if be then [ucast (drop_bit 24 val AND 0xff), ucast (drop_bit 16 val AND 0xff),
                  ucast (drop_bit 8 val AND 0xff), ucast (val AND 0xff)]
      else [ucast (val AND 0xff), ucast (drop_bit 8 val AND 0xff),
            ucast (drop_bit 16 val AND 0xff), ucast (drop_bit 24 val AND 0xff)])"

definition fill_MPP_FMT_RGB565 :: "u32 \<Rightarrow> u32 \<Rightarrow> u32 \<Rightarrow> bool \<Rightarrow> u8 list" where
  "fill_MPP_FMT_RGB565 R G B be =
     half_bytes (ucast (push_bit 11 (drop_bit 3 R AND 0x1f) OR push_bit 5 (drop_bit 2 G AND 0x3f) OR
                        (drop_bit 3 B AND 0x1f))) be"

definition fill_MPP_FMT_BGR565 :: "u32 \<Rightarrow> u32 \<Rightarrow> u32 \<Rightarrow> bool \<Rightarrow> u8 list" where
  "fill_MPP_FMT_BGR565 R G B be =
     half_bytes (ucast ((drop_bit 3 R AND 0x1f) OR push_bit 5 (drop_bit 2 G AND 0x3f) OR
                        push_bit 11 (drop_bit 3 B AND 0x1f))) be"

definition fill_MPP_FMT_RGB555 :: "u32 \<Rightarrow> u32 \<Rightarrow> u32 \<Rightarrow> bool \<Rightarrow> u8 list" where
  "fill_MPP_FMT_RGB555 R G B be =
     half_bytes (ucast (push_bit 10 (drop_bit 3 R AND 0x1f) OR push_bit 5 (drop_bit 3 G AND 0x1f) OR
                        (drop_bit 3 B AND 0x1f))) be"

definition fill_MPP_FMT_BGR555 :: "u32 \<Rightarrow> u32 \<Rightarrow> u32 \<Rightarrow> bool \<Rightarrow> u8 list" where
  "fill_MPP_FMT_BGR555 R G B be =
     half_bytes (ucast ((drop_bit 3 R AND 0x1f) OR push_bit 5 (drop_bit 3 G AND 0x1f) OR
                        push_bit 10 (drop_bit 3 B AND 0x1f))) be"

definition fill_MPP_FMT_RGB444 :: "u32 \<Rightarrow> u32 \<Rightarrow> u32 \<Rightarrow> bool \<Rightarrow> u8 list" where
  "fill_MPP_FMT_RGB444 R G B be =
     half_bytes (ucast (push_bit 8 (drop_bit 4 R AND 0xf) OR push_bit 4 (drop_bit 4 G AND 0xf) OR
                        (drop_bit 4 B AND 0xf))) be"

definition fill_MPP_FMT_BGR444 :: "u32 \<Rightarrow> u32 \<Rightarrow> u32 \<Rightarrow> bool \<Rightarrow> u8 list" where
  "fill_MPP_FMT_BGR444 R G B be =
     half_bytes (ucast ((drop_bit 4 R AND 0xf) OR push_bit 4 (drop_bit 4 G AND 0xf) OR
                        push_bit 8 (drop_bit 4 B AND 0xf))) be"

definition fill_MPP_FMT_RGB888 :: "u32 \<Rightarrow> u32 \<Rightarrow> u32 \<Rightarrow> bool \<Rightarrow> u8 list" where
  "fill_MPP_FMT_RGB888 R G B be = (if be then [ucast R, ucast G, ucast B] else [ucast B, ucast G, ucast R])"

definition fill_MPP_FMT_BGR888 :: "u32 \<Rightarrow> u32 \<Rightarrow> u32 \<Rightarrow> bool \<Rightarrow> u8 list" where
  "fill_MPP_FMT_BGR888 R G B be = (if be then [ucast B, ucast G, ucast R] else [ucast R, ucast G, ucast B])"

definition fill_MPP_FMT_RGB101010 :: "u32 \<Rightarrow> u32 \<Rightarrow> u32 \<Rightarrow> bool \<Rightarrow> u8 list" where
  "fill_MPP_FMT_RGB101010 R G B be =
     word_bytes (push_bit 20 (R * 4 AND 0x3ff) OR push_bit 10 (G * 4 AND 0x3ff) OR (B * 4 AND 0x3ff)) be"

definition fill_MPP_FMT_BGR101010 :: "u32 \<Rightarrow> u32 \<Rightarrow> u32 \<Rightarrow> bool \<Rightarrow> u8 list" where
  "fill_MPP_FMT_BGR101010 R G B be =
     word_bytes ((R * 4 AND 0x3ff) OR push_bit 10 (G * 4 AND 0x3ff) OR push_bit 20 (B * 4 AND 0x3ff)) be"

definition fill_MPP_FMT_ARGB8888 :: "u32 \<Rightarrow> u32 \<Rightarrow> u32 \<Rightarrow> bool \<Rightarrow> u8 list" where
  "fill_MPP_FMT_ARGB8888 R G B be =
     (if be then [0xff, ucast R, ucast G, ucast B] else [ucast B, ucast G, ucast R, 0xff])"

definition fill_MPP_FMT_ABGR8888 :: "u32 \<Rightarrow> u32 \<Rightarrow> u32 \<Rightarrow> bool \<Rightarrow> u8 list" where
  "fill_MPP_FMT_ABGR8888 R G B be =
     (if be then [0xff, ucast B, ucast G, ucast R] else [ucast R, ucast G, ucast B, 0xff])"

definition fill_MPP_FMT_BGRA8888 :: "u32 \<Rightarrow> u32 \<Rightarrow> u32 \<Rightarrow> bool \<Rightarrow> u8 list" where
  "fill_MPP_FMT_BGRA8888 R G B be =
     (if be then [ucast B, ucast G, ucast R, 0xff] else [0xff, ucast R, ucast G, ucast B])"

definition fill_MPP_FMT_RGBA8888 :: "u32 \<Rightarrow> u32 \<Rightarrow> u32 \<Rightarrow> bool \<Rightarrow> u8 list" where
  "fill_MPP_FMT_RGBA8888 R G B be =
     (if be then [ucast R, ucast G, ucast B, 0xff] else [0xff, ucast B, ucast G, ucast R])"

definition fill_rgb_funcs :: "(u32 \<Rightarrow> u32 \<Rightarrow> u32 \<Rightarrow> bool \<Rightarrow> u8 list) list" where
  "fill_rgb_funcs =
     [fill_MPP_FMT_RGB565, fill_MPP_FMT_BGR565, fill_MPP_FMT_RGB555, fill_MPP_FMT_BGR555,
      fill_MPP_FMT_RGB444, fill_MPP_FMT_BGR444, fill_MPP_FMT_RGB888, fill_MPP_FMT_BGR888,
      fill_MPP_FMT_RGB101010, fill_MPP_FMT_BGR101010, fill_MPP_FMT_ARGB8888,
      fill_MPP_FMT_ABGR8888, fill_MPP_FMT_BGRA8888, fill_MPP_FMT_RGBA8888]"

section \<open>RGB images\<close>

text \<open>The two static variables: set once, they change every later call.\<close>

record fill_flags =
  is_pixel_stride :: bool
  not_8_pixel :: bool

definition util_check_stride_by_pixel :: "bool \<Rightarrow> u32 \<Rightarrow> u32 \<Rightarrow> u32 \<Rightarrow> bool" where
  "util_check_stride_by_pixel workaround width hor_stride pixel_size =
     (workaround \<or> sint hor_stride < sint (width * pixel_size))"

definition util_check_8_pixel_aligned :: "bool \<Rightarrow> u32 \<Rightarrow> u32 \<Rightarrow> u32 \<Rightarrow> bool" where
  "util_check_8_pixel_aligned workaround hor_stride pixel_aign pixel_size =
     (workaround \<or> hor_stride \<noteq> mpp_align hor_stride (pixel_aign * pixel_size))"

text \<open>The stride the image is filled with, and the flags afterwards.\<close>

definition rgb_stride :: "fill_flags \<Rightarrow> u32 \<Rightarrow> u32 \<Rightarrow> u32 \<Rightarrow> u32 \<times> fill_flags" where
  "rgb_stride fl width hor_stride pix_w =
     (let (hor_stride, fl) =
            (if util_check_stride_by_pixel (is_pixel_stride fl) width hor_stride pix_w
             then (hor_stride * pix_w, fl\<lparr>is_pixel_stride := True\<rparr>) else (hor_stride, fl))
      in if util_check_8_pixel_aligned (not_8_pixel fl) hor_stride 8 pix_w
         then (mpp_align hor_stride (8 * pix_w), fl\<lparr>not_8_pixel := True\<rparr>) else (hor_stride, fl))"

text \<open>
  A branch of the RGB formats. The packer is the entry \<open>fmt - MPP_FRAME_FMT_RGB\<close> of the
  table, the difference in 32 bits; an entry that does not exist is \<^const>\<open>None\<close>.
\<close>

definition fill_rgb ::
  "fmt_env \<Rightarrow> fill_flags \<Rightarrow> u8 list \<Rightarrow> u32 \<Rightarrow> u32 \<Rightarrow> u32 \<Rightarrow> u32 \<Rightarrow> u32 \<Rightarrow> nat \<Rightarrow> (u8 list \<times> fill_flags) option" where
  "fill_rgb env fl buf width height hor_stride fmt pix_w frame_count =
     (let entry = unat (fmt - fe_rgb_base env) in
      if length fill_rgb_funcs \<le> entry then None
      else let fill = fill_rgb_funcs ! entry;
               (stride, fl) = rgb_stride fl width hor_stride pix_w;
               fc = sint (word_of_nat frame_count :: u32);
               body = (\<lambda>x y. let (R, G, B) = get_rgb_color (int x) (int y) fc in
                         enumerate (m32 (x * unat pix_w)) (fill R G B (fe_is_be env fmt)))
           in do {
             buf \<leftarrow> run_writes buf (plane 0 (unat stride) (unat height) (unat width) body);
             Some (buf, fl)
           })"

section \<open>The dispatch\<close>

text \<open>\<open>fill_image\<close>: the return code, the buffer and the flags.\<close>

definition fill_image ::
  "fmt_env \<Rightarrow> fill_flags \<Rightarrow> u8 list \<Rightarrow> u32 \<Rightarrow> u32 \<Rightarrow> u32 \<Rightarrow> u32 \<Rightarrow> u32 \<Rightarrow> nat \<Rightarrow>
   (mpp_ret \<times> u8 list \<times> fill_flags) option" where
  "fill_image env fl buf width height hor_stride ver_stride fmt fc =
     (let w = unat width; h = unat height; hs = unat hor_stride; vs = unat ver_stride;
          yuv = map_option (\<lambda>b. (MPP_OK, b, fl));
          rgb = (\<lambda>pix_w. map_option (\<lambda>(b, fl). (MPP_OK, b, fl))
                   (fill_rgb env fl buf width height hor_stride fmt pix_w fc))
      in case fe_base env fmt of
        YUV420SP \<Rightarrow> yuv (fill_MPP_FMT_YUV420SP buf w h hs vs fc)
      | YUV422SP \<Rightarrow> yuv (fill_MPP_FMT_YUV422SP buf w h hs vs fc)
      | YUV420P \<Rightarrow> yuv (fill_YUV420P buf w h hs vs fc)
      | YUV420SP_VU \<Rightarrow> yuv (fill_YUV420SP_VU buf w h hs vs fc)
      | YUV422P \<Rightarrow> yuv (fill_YUV422P buf w h hs vs fc)
      | YUV422SP_VU \<Rightarrow> yuv (fill_YUV422SP_VU buf w h hs vs fc)
      | YUV422_YUYV \<Rightarrow> yuv (fill_YUYV buf w h hs fc)
      | YUV422_YVYU \<Rightarrow> yuv (fill_YVYU buf w h hs fc)
      | YUV422_UYVY \<Rightarrow> yuv (fill_UYVY buf w h hs fc)
      | YUV422_VYUY \<Rightarrow> yuv (fill_VYUY buf w h hs fc)
      | YUV400 \<Rightarrow> yuv (fill_YUV400 buf w h hs fc)
      | YUV444SP \<Rightarrow> yuv (fill_YUV444SP buf w h hs vs fc)
      | YUV444P \<Rightarrow> yuv (fill_YUV444P buf w h hs vs fc)
      | RGB565 \<Rightarrow> rgb 2 | BGR565 \<Rightarrow> rgb 2 | RGB555 \<Rightarrow> rgb 2 | BGR555 \<Rightarrow> rgb 2
      | RGB444 \<Rightarrow> rgb 2 | BGR444 \<Rightarrow> rgb 2
      | RGB101010 \<Rightarrow> rgb 4 | BGR101010 \<Rightarrow> rgb 4 | ARGB8888 \<Rightarrow> rgb 4 | ABGR8888 \<Rightarrow> rgb 4
      | BGRA8888 \<Rightarrow> rgb 4 | RGBA8888 \<Rightarrow> rgb 4
      | RGB888 \<Rightarrow> rgb 3 | BGR888 \<Rightarrow> rgb 3
      | _ \<Rightarrow> Some (MPP_NOK, buf, fl))"

section \<open>Bounds of the YUV branches\<close>

text \<open>
  The bytes an image takes with strides \<open>hs\<close> and \<open>vs\<close>, and the shortest row that holds
  \<open>w\<close> pixels.
\<close>

fun yuv_bytes :: "base_fmt \<Rightarrow> nat \<Rightarrow> nat \<Rightarrow> nat \<Rightarrow> nat option" where
  "yuv_bytes YUV420SP h hs vs = Some (hs * vs + h div 2 * hs)"
| "yuv_bytes YUV420SP_VU h hs vs = Some (hs * vs + h div 2 * hs)"
| "yuv_bytes YUV420P h hs vs = Some (hs * vs + hs * vs div 4 + h div 2 * (hs div 2))"
| "yuv_bytes YUV422SP h hs vs = Some (hs * vs + h * hs)"
| "yuv_bytes YUV422SP_VU h hs vs = Some (hs * vs + h * hs)"
| "yuv_bytes YUV422P h hs vs = Some (hs * vs + hs * vs div 2 + h * (hs div 2))"
| "yuv_bytes YUV422_YUYV h hs vs = Some (hs * vs)"
| "yuv_bytes YUV422_YVYU h hs vs = Some (hs * vs)"
| "yuv_bytes YUV422_UYVY h hs vs = Some (hs * vs)"
| "yuv_bytes YUV422_VYUY h hs vs = Some (hs * vs)"
| "yuv_bytes YUV400 h hs vs = Some (hs * vs)"
| "yuv_bytes YUV444SP h hs vs = Some (hs * vs + h * (hs * 2))"
| "yuv_bytes YUV444P h hs vs = Some (hs * vs * 2 + h * hs)"
| "yuv_bytes _ _ _ _ = None"

fun yuv_row :: "base_fmt \<Rightarrow> nat \<Rightarrow> nat" where
  "yuv_row YUV422_YUYV w = 2 * w"
| "yuv_row YUV422_YVYU w = 2 * w"
| "yuv_row YUV422_UYVY w = 2 * w"
| "yuv_row YUV422_VYUY w = 2 * w"
| "yuv_row _ w = w"

lemma m32_le: "m32 n \<le> n"
  by (simp add: m32_def)

lemma m32_less: "n < k \<Longrightarrow> m32 n < k"
  using m32_le [of n] by simp

text \<open>The rows of each branch.\<close>

lemma luma_row: "w \<le> hs \<Longrightarrow> in_row hs rows w (luma_px fc)"
  by (auto simp: in_row_def luma_px_def)

lemma pair_row:
  assumes "w \<le> hs"
  shows "in_row hs rows (w div 2) (\<lambda>x y. [(m32 (x * 2), f x y), (m32 (x * 2 + 1), g x y)])"
    "in_row hs rows (w div 2) (\<lambda>x y. [(m32 (x * 2 + 1), f x y), (m32 (x * 2), g x y)])"
  using assms by (auto simp: in_row_def intro!: m32_less)

lemma single_row: "w \<le> hs \<Longrightarrow> in_row hs rows w (\<lambda>x y. [(x, f x y)])"
  by (auto simp: in_row_def)

lemma half_row: "w \<le> hs \<Longrightarrow> in_row (hs div 2) rows (w div 2) (\<lambda>x y. [(x, f x y)])"
  by (rule single_row) (rule div_le_mono)

lemma double_row:
  assumes "w \<le> hs" "hs * 2 < 2 ^ 32"
  shows "in_row (m32 (hs * 2)) rows w (\<lambda>x y. [(m32 (x * 2), f x y), (m32 (x * 2 + 1), g x y)])"
  using assms by (auto simp: in_row_def intro!: m32_less)

lemma packed_row:
  assumes "2 * w \<le> hs" "y0 < 4" "y1 < 4" "u < 4" "p < 4"
  shows "in_row hs rows (w div 2) (packed_px y0 y1 u p fc)"
proof -
  have "x * 4 + i < hs" if "i < 4" "x < w div 2" for i x using assms(1) that by linarith
  then show ?thesis using assms(2-5) by (auto simp: in_row_def packed_px_def intro!: m32_less)
qed

text \<open>Every YUV branch stays inside a buffer of the size of the image.\<close>

definition filled :: "u8 list \<Rightarrow> u8 list option \<Rightarrow> bool" where
  "filled buf r \<longleftrightarrow> (\<exists>b. r = Some b \<and> length b = length buf)"

lemma filled_run: "fits (length buf) ws \<Longrightarrow> filled buf (run_writes buf ws)"
  unfolding filled_def by (rule fits_run)

lemma rows_mono: "h \<le> vs \<Longrightarrow> hs * vs \<le> n \<Longrightarrow> (0::nat) + h * hs \<le> n"
  by (metis add_0 le_trans mult.commute mult_le_mono2)

lemma luma_fits: "w \<le> hs \<Longrightarrow> h \<le> vs \<Longrightarrow> hs * vs \<le> n \<Longrightarrow> fits n (plane 0 hs h w (luma_px fc))"
  by (rule fits_plane [OF luma_row rows_mono])

lemma filled2:
  assumes "w \<le> hs" "h \<le> vs" "hs * vs + rows * step \<le> length buf" "hs * vs < 2 ^ 32" "in_row step rows cols body"
  shows "filled buf (run_writes buf (plane 0 hs h w (luma_px fc) @ plane (m32 (hs * vs)) step rows cols body))"
  using assms by (intro filled_run) (simp add: luma_fits fits_plane)

lemma filled3:
  assumes "w \<le> hs" "h \<le> vs" "hs * vs \<le> length buf" "b1 + rows * step \<le> length buf" "b2 + rows * step \<le> length buf"
    "in_row step rows cols body" "in_row step rows cols body'"
  shows "filled buf (run_writes buf (plane 0 hs h w (luma_px fc) @ plane b1 step rows cols body @
    plane b2 step rows cols body'))"
  using assms by (intro filled_run) (simp add: luma_fits fits_plane)

lemma filled_packed:
  assumes "2 * w \<le> hs" "h \<le> vs" "hs * vs \<le> length buf" "y0 < 4" "y1 < 4" "u < 4" "p < 4"
  shows "filled buf (run_writes buf (plane 0 hs h (w div 2) (packed_px y0 y1 u p fc)))"
  by (rule filled_run, rule fits_plane [OF packed_row rows_mono]) (use assms in auto)

lemma fill_yuv_ok:
  assumes n: "yuv_bytes (fe_base env fmt) (unat height) (unat hor_stride) (unat ver_stride) = Some n"
    "n \<le> length buf" "n < 2 ^ 32" and row: "yuv_row (fe_base env fmt) (unat width) \<le> unat hor_stride"
    and hv: "height \<le> ver_stride"
  shows "\<exists>b. fill_image env fl buf width height hor_stride ver_stride fmt fc = Some (MPP_OK, b, fl) \<and>
    length b = length buf"
proof -
  define w h hs vs where d: "w = unat width" "h = unat height" "hs = unat hor_stride" "vs = unat ver_stride"
  have h: "h \<le> vs" using hv by (simp add: word_le_nat_alt d)
  have w: "w \<le> hs" using row by (cases "fe_base env fmt") (auto simp: d)
  have s: "hs * vs \<le> n" using n(1) by (cases "fe_base env fmt") (auto simp: d)
  then have s32: "hs * vs < 2 ^ 32" using n(3) by simp
  note N = n(1) [folded d]
  have *: "filled buf r \<Longrightarrow> fill_image env fl buf width height hor_stride ver_stride fmt fc = map_option (\<lambda>b. (MPP_OK, b, fl)) r
      \<Longrightarrow> ?thesis" for r by (auto simp: filled_def)
  note D = fill_image_def Let_def d
  show ?thesis
  proof (cases "fe_base env fmt")
    case YUV420SP
    show ?thesis
      by (rule * [of "fill_MPP_FMT_YUV420SP buf w h hs vs fc"], unfold fill_MPP_FMT_YUV420SP_def,
          rule filled2 [OF w h _ s32 pair_row(1) [OF w]])
        (use N n(2) in \<open>simp_all add: YUV420SP D fill_MPP_FMT_YUV420SP_def\<close>)
  next
    case YUV420SP_VU
    show ?thesis
      by (rule * [of "fill_YUV420SP_VU buf w h hs vs fc"], unfold fill_YUV420SP_VU_def,
          rule filled2 [OF w h _ s32 pair_row(2) [OF w]])
        (use N n(2) in \<open>simp_all add: YUV420SP_VU D fill_YUV420SP_VU_def\<close>)
  next
    case YUV422SP
    show ?thesis
      by (rule * [of "fill_MPP_FMT_YUV422SP buf w h hs vs fc"], unfold fill_MPP_FMT_YUV422SP_def,
          rule filled2 [OF w h _ s32 pair_row(1) [OF w]])
        (use N n(2) in \<open>simp_all add: YUV422SP D fill_MPP_FMT_YUV422SP_def\<close>)
  next
    case YUV422SP_VU
    show ?thesis
      by (rule * [of "fill_YUV422SP_VU buf w h hs vs fc"], unfold fill_YUV422SP_VU_def,
          rule filled2 [OF w h _ s32 pair_row(2) [OF w]])
        (use N n(2) in \<open>simp_all add: YUV422SP_VU D fill_YUV422SP_VU_def\<close>)
  next
    case YUV420P
    show ?thesis
      by (rule * [of "fill_YUV420P buf w h hs vs fc"], unfold fill_YUV420P_def Let_def,
          rule filled3 [OF w h _ _ _ half_row [OF w] half_row [OF w]])
        (use N n(2) s32 in \<open>simp_all add: YUV420P D fill_YUV420P_def\<close>)
  next
    case YUV422P
    show ?thesis
      by (rule * [of "fill_YUV422P buf w h hs vs fc"], unfold fill_YUV422P_def Let_def,
          rule filled3 [OF w h _ _ _ half_row [OF w] half_row [OF w]])
        (use N n(2) s32 in \<open>simp_all add: YUV422P D fill_YUV422P_def\<close>)
  next
    case YUV444P
    show ?thesis
      by (rule * [of "fill_YUV444P buf w h hs vs fc"], unfold fill_YUV444P_def Let_def,
          rule filled3 [OF w h _ _ _ single_row [OF w] single_row [OF w]])
        (use N n(2,3) s32 in \<open>simp_all add: YUV444P D fill_YUV444P_def\<close>)
  next
    case YUV444SP
    show ?thesis
    proof (cases "h = 0")
      case True
      show ?thesis
        by (rule * [of "fill_YUV444SP buf w h hs vs fc"], unfold fill_YUV444SP_def, rule filled_run)
          (use True in \<open>simp_all add: YUV444SP D fill_YUV444SP_def fits_def plane_def\<close>)
    next
      case False
      then have "1 * (hs * 2) \<le> h * (hs * 2)" by (intro mult_le_mono1) simp
      moreover have "hs * vs + h * (hs * 2) = n" using N by (simp add: YUV444SP)
      ultimately have d32: "hs * 2 < 2 ^ 32" using n(3) by linarith
      show ?thesis
        by (rule * [of "fill_YUV444SP buf w h hs vs fc"], unfold fill_YUV444SP_def,
            rule filled2 [OF w h _ s32 double_row [OF w d32]])
          (use N n(2) d32 in \<open>simp_all add: YUV444SP D fill_YUV444SP_def\<close>)
    qed
  next
    case YUV400
    show ?thesis
      by (rule * [of "fill_YUV400 buf w h hs fc"], unfold fill_YUV400_def, rule filled_run, rule luma_fits [OF w h])
        (use s n(2) in \<open>simp_all add: YUV400 D fill_YUV400_def\<close>)
  next
    case YUV422_YUYV
    show ?thesis
      by (rule * [of "fill_YUYV buf w h hs fc"], unfold fill_YUYV_def, rule filled_packed [OF _ h])
        (use s n(2) row in \<open>simp_all add: YUV422_YUYV D fill_YUYV_def\<close>)
  next
    case YUV422_YVYU
    show ?thesis
      by (rule * [of "fill_YVYU buf w h hs fc"], unfold fill_YVYU_def, rule filled_packed [OF _ h])
        (use s n(2) row in \<open>simp_all add: YUV422_YVYU D fill_YVYU_def\<close>)
  next
    case YUV422_UYVY
    show ?thesis
      by (rule * [of "fill_UYVY buf w h hs fc"], unfold fill_UYVY_def, rule filled_packed [OF _ h])
        (use s n(2) row in \<open>simp_all add: YUV422_UYVY D fill_UYVY_def\<close>)
  next
    case YUV422_VYUY
    show ?thesis
      by (rule * [of "fill_VYUY buf w h hs fc"], unfold fill_VYUY_def, rule filled_packed [OF _ h])
        (use s n(2) row in \<open>simp_all add: YUV422_VYUY D fill_VYUY_def\<close>)
  qed (use n(1) in auto)
qed

section \<open>What NV12 pixels hold\<close>

lemma luma_functional: "row_functional rows cols (luma_px fc)"
  by (auto simp: row_functional_def luma_px_def)

lemma pair_functional:
  assumes "cols * 2 < 2 ^ 32"
  shows "row_functional rows cols (\<lambda>x y. [(m32 (x * 2), f y), (m32 (x * 2 + 1), g x)])"
proof -
  have e: "m32 (x * 2) = x * 2" "m32 (x * 2 + 1) = x * 2 + 1" if "x < cols" for x
    using that assms by simp_all
  show ?thesis
    unfolding row_functional_def
  proof (intro allI impI)
    fix y x x' k v v'
    assume "x < cols" "x' < cols"
      and *: "(k, v) \<in> set [(m32 (x * 2), f y), (m32 (x * 2 + 1), g x)]"
      "(k, v') \<in> set [(m32 (x' * 2), f y), (m32 (x' * 2 + 1), g x')]"
    moreover have "\<not> 2 * x = Suc (2 * x')" "\<not> Suc (2 * x) = 2 * x'" by presburger+
    ultimately show "v = v'" using e [of x] e [of x'] by (auto simp: mult.commute)
  qed
qed

lemma nv12_pixels:
  assumes "fill_MPP_FMT_YUV420SP buf w h hs vs fc = Some b" "w \<le> hs" "h \<le> vs"
    "hs * vs + h div 2 * hs \<le> length buf" "hs * vs < 2 ^ 32" "hs < 2 ^ 32"
  shows "x < w \<Longrightarrow> y < h \<Longrightarrow> b ! (y * hs + x) = byte (x + y + fc * 3)"
    and "x < w div 2 \<Longrightarrow> y < h div 2 \<Longrightarrow> b ! (hs * vs + y * hs + x * 2) = byte (128 + y + fc * 2)"
    and "x < w div 2 \<Longrightarrow> y < h div 2 \<Longrightarrow> b ! (hs * vs + y * hs + x * 2 + 1) = byte (64 + x + fc * 5)"
proof -
  let ?l = "plane 0 hs h w (luma_px fc)"
  let ?body = "\<lambda>x y. [(m32 (x * 2), u_val fc y), (m32 (x * 2 + 1), v_val fc x)]"
  let ?c = "plane (hs * vs) hs (h div 2) (w div 2) ?body"
  have run: "run_writes buf (?l @ ?c) = Some b"
    using assms(1,5) by (simp add: fill_MPP_FMT_YUV420SP_def)
  have hh: "h * hs \<le> hs * vs" using assms(3) by (simp add: mult.commute)
  have nth: "b ! i = (case map_of (rev ?c) i of
      None \<Rightarrow> (case map_of (rev ?l) i of None \<Rightarrow> buf ! i | Some v \<Rightarrow> v) | Some v \<Rightarrow> v)"
    if "i < length buf" for i
    using run_writes_nth [OF run that] by (simp add: map_add_def split: option.splits)
  have row: "in_row hs (h div 2) (w div 2) ?body" by (rule pair_row(1) [OF assms(2)])
  have fn: "row_functional (h div 2) (w div 2) ?body" by (rule pair_functional) (use assms(2,6) in simp)
  show "b ! (y * hs + x) = byte (x + y + fc * 3)" if "x < w" "y < h"
  proof -
    have "y * hs + hs \<le> h * hs" using mult_le_mono1 [of "Suc y" h hs] that(2) by simp
    then have i: "y * hs + x < hs * vs" using that(1) assms(2) hh by linarith
    then have "y * hs + x < length buf" using assms(4) by simp
    from nth [OF this] show ?thesis
      using plane_lookup_None [OF row, of "y * hs + x" "hs * vs"] i
        plane_lookup [OF luma_row [OF assms(2)] luma_functional that(1,2), of x "byte (x + y + fc * 3)" fc 0]
      by (simp add: luma_px_def)
  qed
  have chroma: "b ! (hs * vs + y * hs + k) = v"
    if "x < w div 2" "y < h div 2" "(k, v) \<in> set (?body x y)" for x y k v
  proof -
    have "Suc y * hs \<le> h div 2 * hs" using that(2) by (intro mult_le_mono1) simp
    then have "hs * vs + y * hs + k < length buf" using in_rowD [OF row that] assms(4) by simp
    from nth [OF this] show ?thesis using plane_lookup [OF row fn that, of "hs * vs"] by simp
  qed
  have e: "m32 (x * 2) = x * 2" "m32 (x * 2 + 1) = x * 2 + 1" if "x < w div 2"
    using that assms(2,6) by simp_all
  show "b ! (hs * vs + y * hs + x * 2) = byte (128 + y + fc * 2)" if "x < w div 2" "y < h div 2"
    using chroma [OF that, of "x * 2" "u_val fc y"] e [OF that(1)] by (simp add: u_val_def)
  show "b ! (hs * vs + y * hs + x * 2 + 1) = byte (64 + x + fc * 5)" if "x < w div 2" "y < h div 2"
    using chroma [OF that, of "x * 2 + 1" "v_val fc x"] e [OF that(1)] by (simp add: v_val_def)
qed

section \<open>RGB packing\<close>

lemma bytes_rev:
  "half_bytes val False = rev (half_bytes val True)" "word_bytes w False = rev (word_bytes w True)"
  by (simp_all add: half_bytes_def word_bytes_def)

lemmas pack_defs = fill_MPP_FMT_RGB565_def fill_MPP_FMT_BGR565_def fill_MPP_FMT_RGB555_def
  fill_MPP_FMT_BGR555_def fill_MPP_FMT_RGB444_def fill_MPP_FMT_BGR444_def fill_MPP_FMT_RGB888_def
  fill_MPP_FMT_BGR888_def fill_MPP_FMT_RGB101010_def fill_MPP_FMT_BGR101010_def
  fill_MPP_FMT_ARGB8888_def fill_MPP_FMT_ABGR8888_def fill_MPP_FMT_BGRA8888_def fill_MPP_FMT_RGBA8888_def

text \<open>The bytes per pixel of the table's packers.\<close>

definition pixel_bytes :: "nat list" where
  "pixel_bytes = [2, 2, 2, 2, 2, 2, 3, 3, 4, 4, 4, 4, 4, 4]"

lemma pack_length:
  assumes "k < length fill_rgb_funcs"
  shows "length ((fill_rgb_funcs ! k) R G B be) = pixel_bytes ! k"
proof -
  have "k \<in> {..<14}" using assms by (simp add: fill_rgb_funcs_def)
  then have "k \<in> {0, 1, 2, 3, 4, 5, 6, 7, 8, 9, 10, 11, 12, 13}" by (auto simp: less_Suc_eq eval_nat_numeral)
  then show ?thesis
    by (elim insertE) (auto simp: fill_rgb_funcs_def pixel_bytes_def pack_defs half_bytes_def word_bytes_def)
qed

text \<open>The 16-bit value of two bytes, and its fields.\<close>

definition u16_of :: "u8 list \<Rightarrow> u16" where
  "u16_of bs = push_bit 8 (ucast (bs ! 0)) OR ucast (bs ! 1)"

lemma u16_half_bytes: "u16_of (half_bytes val True) = val"
proof -
  have m: "(0xff :: u16) = mask 8" by (simp add: mask_eq_exp_minus_1)
  show ?thesis
    unfolding half_bytes_def m
    by (rule bit_word_eqI) (auto simp: u16_of_def bit_simps)
qed

section \<open>RGB images\<close>

lemma rgb_row:
  assumes "\<And>x y. length (f x y) = p" "w * p \<le> hs" "hs < 2 ^ 32"
  shows "in_row hs rows w (\<lambda>x y. enumerate (m32 (x * p)) (f x y))"
    and "row_functional rows w (\<lambda>x y. enumerate (m32 (x * p)) (f x y))"
proof -
  have e: "m32 (x * p) = x * p" "x * p + p \<le> w * p" if "x < w" for x
  proof -
    have "Suc x * p \<le> w * p" using that by (intro mult_le_mono1) simp
    then show "x * p + p \<le> w * p" by simp
    with assms(2,3) show "m32 (x * p) = x * p" by simp
  qed
  have in_en: "(k, v) \<in> set (enumerate n xs) \<longleftrightarrow> n \<le> k \<and> k < n + length xs \<and> v = xs ! (k - n)" for k v n and xs :: "u8 list"
    using in_set_enumerate_eq [of "(k, v)" n xs] by auto
  show "in_row hs rows w (\<lambda>x y. enumerate (m32 (x * p)) (f x y))"
    unfolding in_row_def in_en using e assms(1,2) by (metis (no_types, lifting) order.strict_trans2)
  show "row_functional rows w (\<lambda>x y. enumerate (m32 (x * p)) (f x y))"
    unfolding row_functional_def
  proof (intro allI impI)
    fix y x x' k v v'
    assume "x < w" "x' < w" "(k, v) \<in> set (enumerate (m32 (x * p)) (f x y))"
      "(k, v') \<in> set (enumerate (m32 (x' * p)) (f x' y))"
    then have kx: "x * p \<le> k" "k < x * p + p" "v = f x y ! (k - x * p)"
      and kx': "x' * p \<le> k" "k < x' * p + p" "v' = f x' y ! (k - x' * p)"
      unfolding in_en using e assms(1) by simp_all
    have "x = k div p" using kx(1,2) by (metis div_nat_eqI mult.commute mult_Suc_right add.commute)
    moreover have "x' = k div p" using kx'(1,2) by (metis div_nat_eqI mult.commute mult_Suc_right add.commute)
    ultimately show "v = v'" using kx(3) kx'(3) by simp
  qed
qed

lemma mpp_align_id:
  assumes "x AND (a - 1) = 0"
  shows "mpp_align x a = x"
proof -
  have "x + (a - 1) = x OR (a - 1)" by (rule disjunctive_add_eq_or) (rule assms)
  moreover have "(x OR (a - 1)) AND NOT (a - 1) = x"
    by (rule bit_word_eqI) (use assms in \<open>auto simp: bit_simps bit_eq_iff\<close>)
  ultimately show ?thesis by (simp add: mpp_align_def add_diff_eq)
qed

text \<open>A call of an RGB branch: every pixel of the image holds what the packer gives.\<close>

lemma fill_rgb_pixels:
  assumes "rgb_stride fl width hor_stride pix_w = (stride, fl')"
    and entry: "unat (fmt - fe_rgb_base env) < length fill_rgb_funcs"
      "pixel_bytes ! unat (fmt - fe_rgb_base env) = unat pix_w"
    and size: "unat width * unat pix_w \<le> unat stride" "unat height * unat stride \<le> length buf"
  obtains b where "fill_rgb env fl buf width height hor_stride fmt pix_w fc = Some (b, fl')"
    "length b = length buf"
    "\<And>x y. x < unat width \<Longrightarrow> y < unat height \<Longrightarrow>
       fetch b (y * unat stride + x * unat pix_w) (unat pix_w) =
       (let (R, G, B) = get_rgb_color (int x) (int y) (sint (word_of_nat fc :: u32)) in
        Some ((fill_rgb_funcs ! unat (fmt - fe_rgb_base env)) R G B (fe_is_be env fmt)))"
proof -
  let ?w = "unat width" and ?h = "unat height" and ?s = "unat stride" and ?p = "unat pix_w"
  define px where "px x y = (let (R, G, B) = get_rgb_color (int x) (int y) (sint (word_of_nat fc :: u32)) in
        (fill_rgb_funcs ! unat (fmt - fe_rgb_base env)) R G B (fe_is_be env fmt))" for x y
  let ?body = "\<lambda>x y. enumerate (m32 (x * ?p)) (px x y)"
  have len: "length (px x y) = ?p" for x y
    using pack_length [OF entry(1)] entry(2) by (simp add: px_def split: prod.splits)
  have s32: "?s < 2 ^ 32" using unsigned_less [of stride] by simp
  note row = rgb_row(1) [of px, OF len size(1) s32] and fn = rgb_row(2) [of px, OF len size(1) s32]
  have "fits (length buf) (plane 0 ?s ?h ?w ?body)"
    by (rule fits_plane [OF row]) (use size(2) in simp)
  from fits_run [OF this] obtain b where b: "run_writes buf (plane 0 ?s ?h ?w ?body) = Some b"
    "length b = length buf" by blast
  have body: "(\<lambda>x y. let (R, G, B) = get_rgb_color (int x) (int y) (sint (word_of_nat fc :: u32)) in
      enumerate (m32 (x * ?p)) ((fill_rgb_funcs ! unat (fmt - fe_rgb_base env)) R G B (fe_is_be env fmt))) = ?body"
    by (intro ext) (simp add: px_def split: prod.splits)
  have "fill_rgb env fl buf width height hor_stride fmt pix_w fc = Some (b, fl')"
    unfolding fill_rgb_def Let_def assms(1) prod.case
    using entry(1) b(1) unfolding body [unfolded Let_def] by simp
  moreover have "fetch b (y * ?s + x * ?p) ?p = Some (px x y)" if xy: "x < ?w" "y < ?h" for x y
  proof -
    have "x * ?p + ?p \<le> ?w * ?p" using mult_le_mono1 [of "Suc x" ?w ?p] xy(1) by simp
    then have xp: "x * ?p + ?p \<le> ?s" using size(1) by linarith
    have "y * ?s + ?s \<le> ?h * ?s" using mult_le_mono1 [of "Suc y" ?h ?s] xy(2) by simp
    then have in_b: "y * ?s + x * ?p + ?p \<le> length b" using xp size(2) b(2) by linarith
    have m: "m32 (x * ?p) = x * ?p" using xp s32 by simp
    have "b ! (y * ?s + (x * ?p + k)) = px x y ! k" if "k < ?p" for k
    proof -
      have "(x * ?p + k, px x y ! k) \<in> set (?body x y)"
        using that len by (auto simp: m in_set_enumerate_eq)
      from plane_lookup [OF row fn xy this, of 0] run_writes_nth [OF b(1), of "y * ?s + (x * ?p + k)"]
      show ?thesis using in_b that b(2) by simp
    qed
    then have "take ?p (drop (y * ?s + x * ?p) b) = px x y"
      using in_b len by (intro nth_equalityI) (auto simp: add.assoc)
    then show ?thesis using in_b by (simp add: fetch_def)
  qed
  ultimately show thesis using that b(2) by (simp add: px_def case_prod_beta Let_def)
qed

section \<open>Properties\<close>

text \<open>
  C28: in every YUV branch \<open>fill_image\<close> succeeds without a write outside a buffer of the
  size of the image (the planes of its strides, below 4 GiB), for every height up to the vertical stride and
  every width whose row fits the stride, odd ones included. A row has as many bytes as the width in the
  planar and semi-planar formats and twice as many in the packed ones, for which the stride counts bytes.
\<close>

theorem fill_image_yuv_in_bounds:
  assumes "yuv_bytes (fe_base env fmt) (unat height) (unat hor_stride) (unat ver_stride) = Some n"
    "n \<le> length buf" "n < 2 ^ 32" "yuv_row (fe_base env fmt) (unat width) \<le> unat hor_stride"
    "height \<le> ver_stride"
  shows "\<exists>b. fill_image env fl buf width height hor_stride ver_stride fmt fc = Some (MPP_OK, b, fl) \<and>
    length b = length buf"
  by (rule fill_yuv_ok [OF assms])

text \<open>An environment in which every format value is NV12, and one with a single RGB format.\<close>

definition fixed_env :: "base_fmt \<Rightarrow> u32 \<Rightarrow> fmt_env" where
  "fixed_env base rgb = \<lparr>fe_base = (\<lambda>_. base), fe_mask = id, fe_is_fbc = (\<lambda>_. False),
     fe_is_afbc_v1 = (\<lambda>_. False), fe_is_rgb = (\<lambda>_. False), fe_is_le = (\<lambda>_. False),
     fe_is_be = (\<lambda>_. True), fe_rgb_base = rgb, fe_yuv420sp = 0\<rparr>"

definition no_flags :: fill_flags where
  "no_flags = \<lparr>is_pixel_stride = False, not_8_pixel = False\<rparr>"

theorem fill_image_yuv_in_bounds_witness:
  "\<exists>b. fill_image (fixed_env YUV420SP 0) no_flags (replicate 16 0) 3 3 4 3 0 7 = Some (MPP_OK, b, no_flags)"
  using fill_image_yuv_in_bounds [of "fixed_env YUV420SP 0" 0 3 4 3 16 "replicate 16 0" 3 no_flags 7]
  by (auto simp: fixed_env_def)

text \<open>
  C36: an NV12 image: luma at row \<open>y\<close>, column \<open>x\<close>, and the interleaved chroma pairs behind
  the luma plane of the strides, hold the values of the moving pattern.
\<close>

theorem fill_nv12_pixels:
  assumes "fe_base env fmt = YUV420SP" "width \<le> hor_stride" "height \<le> ver_stride"
    "unat hor_stride * unat ver_stride + unat height div 2 * unat hor_stride \<le> length buf"
    "unat hor_stride * unat ver_stride < 2 ^ 32"
    "fill_image env fl buf width height hor_stride ver_stride fmt fc = Some (ret, b, fl')"
  shows "(x < unat width \<and> y < unat height \<longrightarrow> b ! (y * unat hor_stride + x) = byte (x + y + fc * 3)) \<and>
    (x < unat width div 2 \<and> y < unat height div 2 \<longrightarrow>
      b ! (unat hor_stride * unat ver_stride + y * unat hor_stride + x * 2) = byte (128 + y + fc * 2) \<and>
      b ! (unat hor_stride * unat ver_stride + y * unat hor_stride + x * 2 + 1) = byte (64 + x + fc * 5))"
proof -
  have f: "fill_MPP_FMT_YUV420SP buf (unat width) (unat height) (unat hor_stride) (unat ver_stride) fc = Some b"
    using assms(1,6) by (auto simp: fill_image_def Let_def)
  have "unat width \<le> unat hor_stride" "unat height \<le> unat ver_stride" "unat hor_stride < 2 ^ 32"
    using assms(2,3) unsigned_less [of hor_stride] by (simp_all add: word_le_nat_alt)
  from nv12_pixels [OF f this(1,2) assms(4,5) this(3)] show ?thesis by blast
qed

theorem fill_nv12_pixels_witness:
  "\<exists>b. fill_image (fixed_env YUV420SP 0) no_flags (replicate 12 0) 2 2 4 2 0 1 = Some (MPP_OK, b, no_flags) \<and>
    b ! 5 = 5 \<and> b ! 8 = 130"
proof -
  obtain b where b: "fill_image (fixed_env YUV420SP 0) no_flags (replicate 12 0) 2 2 4 2 0 1 =
      Some (MPP_OK, b, no_flags)"
    using fill_yuv_ok [of "fixed_env YUV420SP 0" 0 2 4 2 12 "replicate 12 0" 2 no_flags 1]
    by (auto simp: fixed_env_def)
  from fill_nv12_pixels [OF _ _ _ _ _ b, of 1 1] fill_nv12_pixels [OF _ _ _ _ _ b, of 0 0] b
  show ?thesis by (auto simp: fixed_env_def byte_def)
qed

text \<open>
  In every RGB branch the image is filled at the stride \<open>rgb_stride\<close> computes: the bytes
  of each pixel are exactly what the packer of the format gives for its colour, and no write
  leaves the buffer, when the format has an entry of the pixel's size in the table.
\<close>

theorem fill_rgb_image:
  assumes "rgb_stride fl width hor_stride pix_w = (stride, fl')"
    and "unat (fmt - fe_rgb_base env) < length fill_rgb_funcs"
      "pixel_bytes ! unat (fmt - fe_rgb_base env) = unat pix_w"
    and "unat width * unat pix_w \<le> unat stride" "unat height * unat stride \<le> length buf"
  shows "\<exists>b. fill_rgb env fl buf width height hor_stride fmt pix_w fc = Some (b, fl') \<and> length b = length buf \<and>
    (\<forall>x y. x < unat width \<longrightarrow> y < unat height \<longrightarrow>
       fetch b (y * unat stride + x * unat pix_w) (unat pix_w) =
       (let (R, G, B) = get_rgb_color (int x) (int y) (sint (word_of_nat fc :: u32)) in
        Some ((fill_rgb_funcs ! unat (fmt - fe_rgb_base env)) R G B (fe_is_be env fmt))))"
  by (rule fill_rgb_pixels [OF assms, of fc]) blast

theorem fill_rgb_image_witness:
  "\<exists>b. fill_rgb (fixed_env ARGB8888 100) no_flags (replicate 32 0) 2 1 32 110 4 0 = Some (b, no_flags) \<and>
    fetch b 4 4 = Some [0xff, 0xff, 0, 0]"
proof -
  have "mpp_align (32 :: u32) 32 = 32" by (rule mpp_align_id) simp
  then have s: "rgb_stride no_flags 2 32 4 = (32, no_flags)"
    by (simp add: rgb_stride_def util_check_stride_by_pixel_def util_check_8_pixel_aligned_def no_flags_def)
  have e: "unat (110 - fe_rgb_base (fixed_env ARGB8888 100)) = 10" by (simp add: fixed_env_def)
  have p: "pixel_bytes ! 10 = 4" by (simp add: pixel_bytes_def)
  have "\<exists>b. fill_rgb (fixed_env ARGB8888 100) no_flags (replicate 32 0) 2 1 32 110 4 0 = Some (b, no_flags) \<and>
    length b = length (replicate 32 (0 :: u8)) \<and>
    (\<forall>x y. x < unat (2 :: u32) \<longrightarrow> y < unat (1 :: u32) \<longrightarrow>
       fetch b (y * unat (32 :: u32) + x * unat (4 :: u32)) (unat (4 :: u32)) =
       (let (R, G, B) = get_rgb_color (int x) (int y) (sint (word_of_nat 0 :: u32)) in
        Some ((fill_rgb_funcs ! unat (110 - fe_rgb_base (fixed_env ARGB8888 100))) R G B
          (fe_is_be (fixed_env ARGB8888 100) 110))))"
    by (rule fill_rgb_image [OF s]) (use e p in \<open>simp_all add: fill_rgb_funcs_def\<close>)
  then obtain b where b: "fill_rgb (fixed_env ARGB8888 100) no_flags (replicate 32 0) 2 1 32 110 4 0 = Some (b, no_flags)"
    and px: "\<forall>x y. x < 2 \<longrightarrow> y < 1 \<longrightarrow> fetch b (y * 32 + x * 4) 4 =
       (let (R, G, B) = get_rgb_color (int x) (int y) (sint (word_of_nat 0 :: u32)) in
        Some ((fill_rgb_funcs ! 10) R G B (fe_is_be (fixed_env ARGB8888 100) 110)))"
    unfolding e by auto
  have px1: "fetch b 4 4 = (let (R, G, B) = get_rgb_color 1 0 0 in
      Some ((fill_rgb_funcs ! 10) R G B (fe_is_be (fixed_env ARGB8888 100) 110)))"
    using px [rule_format, of 1 0] by simp
  have "(let (R, G, B) = get_rgb_color 1 0 0 in
      Some ((fill_rgb_funcs ! 10) R G B (fe_is_be (fixed_env ARGB8888 100) 110))) = Some [0xff, 0xff, 0, 0]"
    by (simp add: get_rgb_color_def fill_rgb_funcs_def fill_MPP_FMT_ARGB8888_def fixed_env_def)
  with b px1 show ?thesis by simp
qed

text \<open>
  Every packer of the table writes its pixel in the two byte orders as reversals of each
  other, with the number of bytes of its format.
\<close>

theorem pack_byte_orders:
  assumes "k < length fill_rgb_funcs"
  shows "(fill_rgb_funcs ! k) R G B False = rev ((fill_rgb_funcs ! k) R G B True) \<and>
    length ((fill_rgb_funcs ! k) R G B be) = pixel_bytes ! k"
proof -
  have "k \<in> {0, 1, 2, 3, 4, 5, 6, 7, 8, 9, 10, 11, 12, 13}"
    using assms by (auto simp: fill_rgb_funcs_def less_Suc_eq eval_nat_numeral)
  then have "(fill_rgb_funcs ! k) R G B False = rev ((fill_rgb_funcs ! k) R G B True)"
    by (elim insertE) (auto simp: fill_rgb_funcs_def pack_defs bytes_rev simp del: rev_rev_ident)
  with pack_length [OF assms] show ?thesis by simp
qed

theorem pack_byte_orders_witness:
  "(fill_rgb_funcs ! 0) 0xff 0 0 False = rev ((fill_rgb_funcs ! 0) 0xff 0 0 True)"
  using pack_byte_orders [of 0 "0xff" 0 0 True] by (simp add: fill_rgb_funcs_def)

text \<open>
  The RGB565 packer keeps the top five, six and five bits of the colours: read back
  as a big-endian 16-bit value, its fields are exactly those bits.
\<close>

theorem pack_rgb565_fields:
  "drop_bit 11 (u16_of (fill_MPP_FMT_RGB565 R G B True)) = ucast (drop_bit 3 R AND 0x1f) \<and>
   drop_bit 5 (u16_of (fill_MPP_FMT_RGB565 R G B True)) AND 0x3f = ucast (drop_bit 2 G AND 0x3f) \<and>
   u16_of (fill_MPP_FMT_RGB565 R G B True) AND 0x1f = ucast (drop_bit 3 B AND 0x1f)"
proof -
  have m: "(0x1f :: u32) = mask 5" "(0x3f :: u32) = mask 6" "(0x1f :: u16) = mask 5" "(0x3f :: u16) = mask 6"
    by (simp_all add: mask_eq_exp_minus_1)
  show ?thesis
    unfolding fill_MPP_FMT_RGB565_def u16_half_bytes m
    by (intro conjI bit_word_eqI) (auto simp: bit_simps)
qed

text \<open>
  With both flags clear, a byte stride that holds the width and is a multiple of eight
  pixels of two or four bytes is used as it is, and the flags stay clear.
\<close>

theorem rgb_stride_keeps_aligned:
  assumes "pix_w = 2 \<or> pix_w = 4" "hor_stride AND (8 * pix_w - 1) = 0" "sint (width * pix_w) \<le> sint hor_stride"
  shows "rgb_stride no_flags width hor_stride pix_w = (hor_stride, no_flags)"
  using assms mpp_align_id [OF assms(2)]
  by (auto simp: rgb_stride_def util_check_stride_by_pixel_def util_check_8_pixel_aligned_def no_flags_def)

theorem rgb_stride_keeps_aligned_witness:
  "rgb_stride no_flags 16 64 4 = (64, no_flags)"
  by (rule rgb_stride_keeps_aligned) simp_all

text \<open>
  For the pixels of three bytes the alignment is computed with a mask of 23, which is
  no power of two less one: a stride of eight pixels (24 bytes) is taken for unaligned and
  replaced by 40, and the flag this sets stays set.
\<close>

theorem rgb888_stride_not_kept:
  "rgb_stride no_flags 8 24 3 = (40, no_flags\<lparr>not_8_pixel := True\<rparr>)"
proof -
  have a: "mpp_align (24 :: u32) 24 = 40" by (simp add: mpp_align_def)
  then show ?thesis
    by (simp add: rgb_stride_def util_check_stride_by_pixel_def util_check_8_pixel_aligned_def no_flags_def)
qed

text \<open>
  The flags are static: once a call had a stride in pixels, every later call
  multiplies its stride by the pixel size, whatever stride it is given.
\<close>

theorem rgb_stride_sticky:
  assumes "is_pixel_stride fl"
  shows "is_pixel_stride (snd (rgb_stride fl width hor_stride pix_w)) \<and>
    fst (rgb_stride fl width hor_stride pix_w) \<in>
      {hor_stride * pix_w, mpp_align (hor_stride * pix_w) (8 * pix_w)}"
  using assms by (auto simp: rgb_stride_def util_check_stride_by_pixel_def)

theorem rgb_stride_sticky_witness:
  "fst (rgb_stride \<lparr>is_pixel_stride = True, not_8_pixel = False\<rparr> 16 64 4) = 256"
proof -
  have "mpp_align (256 :: u32) 32 = 256" by (rule mpp_align_id) simp
  then show ?thesis
    using rgb_stride_sticky [of "\<lparr>is_pixel_stride = True, not_8_pixel = False\<rparr>" 16 64 4] by simp
qed

end
