(* ===== verification/Frame_IO.thy ===== *)
theory Frame_IO
  imports Fill_Image
begin

text \<open>
  Images in files (\<open>read_image\<close>, \<open>read_with_pixel_width\<close>, \<open>dump_mpp_frame_to_file\<close> of
  \<open>mpp_utils/mpp_utils.c\<close>). A file that is read is the list of the bytes not read yet: a read
  is short, and sets the end-of-file flag, exactly when fewer bytes are left; I/O errors are not
  modelled. What is written to a file is a list of bytes.
\<close>

section \<open>Reading\<close>

fun read_rows ::
  "nat \<Rightarrow> nat \<Rightarrow> nat \<Rightarrow> nat \<Rightarrow> u8 list \<Rightarrow> u8 list \<Rightarrow> (mpp_ret \<times> u8 list \<times> u8 list) option" where
  "read_rows 0 row step n buf file = Some (MPP_OK, buf, file)"
| "read_rows (Suc todo) row step n buf file =
     (if 2 ^ 31 \<le> row * step then None
      else do {
        buf \<leftarrow> blit buf (row * step) (take n file);
        (if length file < n then Some (MPP_NOK, buf, [])
         else read_rows todo (Suc row) step n buf (drop n file))
      })"

text \<open>
  The parameters are \<open>RK_S32\<close>, and so are the products: one that overflows is \<^const>\<open>None\<close>, as is a
  negative byte count, a size no buffer has.
\<close>

definition read_with_pixel_width ::
  "u8 list \<Rightarrow> int \<Rightarrow> int \<Rightarrow> int \<Rightarrow> int \<Rightarrow> u8 list \<Rightarrow> (mpp_ret \<times> u8 list \<times> u8 list) option" where
  "read_with_pixel_width buf width height hor_stride pix_w file =
     (let n = width * pix_w;
          hor_stride = (if hor_stride < n then n else hor_stride)
      in if n < - (2 ^ 31) \<or> 2 ^ 31 \<le> n \<or> n < 0 \<and> 0 < height then None
         else read_rows (nat height) 0 (nat hor_stride) (nat n) buf file)"

text \<open>A plane of \<open>read_image\<close>: \<open>off\<close> is where a row starts; the flag is whether all rows were read.\<close>

fun read_plane ::
  "nat \<Rightarrow> nat \<Rightarrow> (nat \<Rightarrow> nat) \<Rightarrow> nat \<Rightarrow> u8 list \<Rightarrow> u8 list \<Rightarrow> (bool \<times> u8 list \<times> u8 list) option" where
  "read_plane 0 row off n buf file = Some (True, buf, file)"
| "read_plane (Suc todo) row off n buf file = do {
     buf \<leftarrow> blit buf (off row) (take n file);
     (if length file < n then Some (False, buf, [])
      else read_plane todo (Suc row) off n buf (drop n file))
   }"

definition read_block :: "u8 list \<Rightarrow> nat \<Rightarrow> nat \<Rightarrow> u8 list \<Rightarrow> (bool \<times> u8 list \<times> u8 list) option" where
  "read_block buf off n file = do {
     buf \<leftarrow> blit buf off (take n file);
     Some (n \<le> length file, buf, drop n file)
   }"

definition ret_read :: "(bool \<times> u8 list \<times> u8 list) \<Rightarrow> (mpp_ret \<times> u8 list \<times> u8 list) option" where
  "ret_read r = (let (ok, buf, file) = r in Some (if ok then MPP_OK else MPP_NOK, buf, file))"

definition read_image_fbc ::
  "fmt_env \<Rightarrow> u8 list \<Rightarrow> u8 list \<Rightarrow> u32 \<Rightarrow> u32 \<Rightarrow> u32 \<Rightarrow> (mpp_ret \<times> u8 list \<times> u8 list) option" where
  "read_image_fbc env buf file width height fmt =
     (let align_w = mpp_align width 16;
          align_h = mpp_align height 16;
          header_size = (if fe_is_afbc_v1 env fmt then mpp_align ((align_w * align_h) div 16) 4096
                         else (align_w * align_h) div 16)
      in do {
        (ok, buf, file) \<leftarrow> read_block buf 0 (unat header_size) file;
        (if \<not> ok then Some (MPP_NOK, buf, file)
         else case fe_base env fmt of
             YUV420SP \<Rightarrow> do {
               r \<leftarrow> read_block buf (unat header_size) (unat ((align_w * align_h * 3) div 2)) file;
               ret_read r }
           | YUV422SP \<Rightarrow> do {
               r \<leftarrow> read_block buf (unat header_size) (unat (align_w * align_h * 2)) file; ret_read r }
           | YUV422_YUYV \<Rightarrow> do {
               r \<leftarrow> read_block buf (unat header_size) (unat (align_w * align_h * 2)) file; ret_read r }
           | YUV422_YVYU \<Rightarrow> do {
               r \<leftarrow> read_block buf (unat header_size) (unat (align_w * align_h * 2)) file; ret_read r }
           | YUV422_UYVY \<Rightarrow> do {
               r \<leftarrow> read_block buf (unat header_size) (unat (align_w * align_h * 2)) file; ret_read r }
           | YUV422_VYUY \<Rightarrow> do {
               r \<leftarrow> read_block buf (unat header_size) (unat (align_w * align_h * 2)) file; ret_read r }
           | _ \<Rightarrow> Some (MPP_OK, buf, file))
      })"

definition read_420sp ::
  "u8 list \<Rightarrow> u8 list \<Rightarrow> nat \<Rightarrow> nat \<Rightarrow> nat \<Rightarrow> nat \<Rightarrow> (mpp_ret \<times> u8 list \<times> u8 list) option" where
  "read_420sp buf file width height hor_stride ver_stride = do {
     (ok, buf, file) \<leftarrow> read_plane height 0 (\<lambda>row. m32 (row * hor_stride)) width buf file;
     (if \<not> ok then Some (MPP_NOK, buf, file)
      else do {
        r \<leftarrow> read_plane (height div 2) 0
               (\<lambda>row. m32 (hor_stride * ver_stride) + m32 (row * hor_stride)) width buf file;
        ret_read r
      })
   }"

definition read_420p ::
  "u8 list \<Rightarrow> u8 list \<Rightarrow> nat \<Rightarrow> nat \<Rightarrow> nat \<Rightarrow> nat \<Rightarrow> (mpp_ret \<times> u8 list \<times> u8 list) option" where
  "read_420p buf file width height hor_stride ver_stride =
     (let buf_u = m32 (hor_stride * ver_stride);
          buf_v = buf_u + m32 (hor_stride * ver_stride) div 4
      in do {
        (ok, buf, file) \<leftarrow> read_plane height 0 (\<lambda>row. m32 (row * hor_stride)) width buf file;
        (if \<not> ok then Some (MPP_NOK, buf, file)
         else do {
           (ok, buf, file) \<leftarrow> read_plane (height div 2) 0
             (\<lambda>row. buf_u + m32 (row * hor_stride) div 2) (width div 2) buf file;
           (if \<not> ok then Some (MPP_NOK, buf, file)
            else do {
              r \<leftarrow> read_plane (height div 2) 0 (\<lambda>row. buf_v + m32 (row * hor_stride) div 2) (width div 2) buf file;
              ret_read r
            })
         })
      })"

text \<open>The bytes per pixel of the formats that are read row by row.\<close>

fun row_pixel :: "base_fmt \<Rightarrow> int option" where
  "row_pixel ARGB8888 = Some 4" | "row_pixel ABGR8888 = Some 4" | "row_pixel BGRA8888 = Some 4"
| "row_pixel RGBA8888 = Some 4" | "row_pixel RGB101010 = Some 4" | "row_pixel BGR101010 = Some 4"
| "row_pixel YUV422P = Some 2" | "row_pixel YUV422SP = Some 2" | "row_pixel BGR444 = Some 2"
| "row_pixel RGB444 = Some 2" | "row_pixel RGB555 = Some 2" | "row_pixel BGR555 = Some 2"
| "row_pixel RGB565 = Some 2" | "row_pixel BGR565 = Some 2" | "row_pixel YUV422_YUYV = Some 2"
| "row_pixel YUV422_YVYU = Some 2" | "row_pixel YUV422_UYVY = Some 2" | "row_pixel YUV422_VYUY = Some 2"
| "row_pixel YUV444SP = Some 3" | "row_pixel YUV444P = Some 3" | "row_pixel RGB888 = Some 3"
| "row_pixel BGR888 = Some 3"
| "row_pixel _ = None"

definition read_image ::
  "fmt_env \<Rightarrow> u8 list \<Rightarrow> u8 list \<Rightarrow> u32 \<Rightarrow> u32 \<Rightarrow> u32 \<Rightarrow> u32 \<Rightarrow> u32 \<Rightarrow>
   (mpp_ret \<times> u8 list \<times> u8 list) option" where
  "read_image env buf file width height hor_stride ver_stride fmt =
     (if fe_is_fbc env fmt then read_image_fbc env buf file width height fmt
      else case fe_base env fmt of
          YUV420SP \<Rightarrow> read_420sp buf file (unat width) (unat height) (unat hor_stride) (unat ver_stride)
        | YUV420P \<Rightarrow> read_420p buf file (unat width) (unat height) (unat hor_stride) (unat ver_stride)
        | base \<Rightarrow> (case row_pixel base of
              Some pix_w \<Rightarrow> read_with_pixel_width buf (sint width) (sint height) (sint hor_stride) pix_w file
            | None \<Rightarrow> Some (MPP_ERR_VALUE, buf, file)))"

section \<open>Dumping\<close>

text \<open>The geometry of a frame and the content of its buffer.\<close>

record frame =
  fr_width :: u32
  fr_height :: u32
  fr_hor_stride :: u32
  fr_ver_stride :: u32
  fr_fmt :: u32
  fr_buf :: "u8 list option"

text \<open>\<open>fwrite\<close> of \<open>n\<close> bytes of each row.\<close>

definition dump_plane :: "u8 list \<Rightarrow> nat \<Rightarrow> nat \<Rightarrow> nat \<Rightarrow> nat \<Rightarrow> u8 list option" where
  "dump_plane buf base step n rows =
     map_option concat (those (map (\<lambda>y. fetch buf (base + y * step) n) [0..<rows]))"

definition byte_at :: "u8 list \<Rightarrow> nat \<Rightarrow> u8 option" where
  "byte_at buf i = (if i < length buf then Some (buf ! i) else None)"

text \<open>
  The chroma pairs of \<open>rows\<close> rows, split into two planes in the memory \<open>tmp\<close>, whose
  bytes are \<open>junk\<close> at first.
\<close>

definition split_chroma :: "u8 list \<Rightarrow> nat \<Rightarrow> nat \<Rightarrow> nat \<Rightarrow> nat \<Rightarrow> nat \<Rightarrow> u8 list \<Rightarrow> u8 list option" where
  "split_chroma buf base_c step cols rows tmp_v tmp = do {
     ws \<leftarrow> those (map (\<lambda>(i, j). do {
             u \<leftarrow> byte_at buf (base_c + i * step + 2 * j);
             v \<leftarrow> byte_at buf (base_c + i * step + 2 * j + 1);
             Some [(i * cols + j, u), (tmp_v + i * cols + j, v)]
           }) (List.product [0..<rows] [0..<cols]));
     run_writes tmp (concat ws)
   }"

definition dump_422sp :: "heap \<Rightarrow> u8 \<Rightarrow> u8 list \<Rightarrow> nat \<Rightarrow> nat \<Rightarrow> nat \<Rightarrow> nat \<Rightarrow> u8 list option" where
  "dump_422sp hp junk buf width height h_stride v_stride =
     (let (ok, hp) = heap_alloc hp;
          tmp = (if ok then replicate (m32 (h_stride * height * 2)) junk else [])
      in do {
        luma \<leftarrow> dump_plane buf 0 h_stride width height;
        tmp \<leftarrow> split_chroma buf (m32 (h_stride * v_stride)) h_stride (width div 2) height
                 (m32 (width * height) div 2) tmp;
        chroma \<leftarrow> fetch tmp 0 (m32 (width * height));
        Some (luma @ chroma)
      })"

definition dump_420sp :: "u8 list \<Rightarrow> nat \<Rightarrow> nat \<Rightarrow> nat \<Rightarrow> nat \<Rightarrow> u8 list option" where
  "dump_420sp buf width height h_stride v_stride = do {
     luma \<leftarrow> dump_plane buf 0 h_stride width height;
     chroma \<leftarrow> dump_plane buf (m32 (h_stride * v_stride)) h_stride width (height div 2);
     Some (luma @ chroma)
   }"

definition dump_420p :: "u8 list \<Rightarrow> nat \<Rightarrow> nat \<Rightarrow> nat \<Rightarrow> nat \<Rightarrow> u8 list option" where
  "dump_420p buf width height h_stride v_stride =
     (let base_c = m32 (h_stride * v_stride) in do {
        luma \<leftarrow> dump_plane buf 0 h_stride width height;
        cb \<leftarrow> dump_plane buf base_c (h_stride div 2) (width div 2) (height div 2);
        cr \<leftarrow> dump_plane buf (base_c + height div 2 * (h_stride div 2)) (h_stride div 2) (width div 2) (height div 2);
        Some (luma @ cb @ cr)
      })"

text \<open>Eight pixels of ten bits in five 16-bit words.\<close>

definition unpack10 :: "u16 \<Rightarrow> u16 \<Rightarrow> u16 \<Rightarrow> u16 \<Rightarrow> u16 \<Rightarrow> u16 list" where
  "unpack10 b0 b1 b2 b3 b4 =
     [b0 AND 0x03FF,
      drop_bit 10 (b0 AND 0xFC00) OR push_bit 6 (b1 AND 0x000F),
      drop_bit 4 (b1 AND 0x3FF0),
      drop_bit 14 (b1 AND 0xC000) OR push_bit 2 (b2 AND 0x00FF),
      drop_bit 8 (b2 AND 0xFF00) OR push_bit 8 (b3 AND 0x0003),
      drop_bit 2 (b3 AND 0x0FFC),
      drop_bit 12 (b3 AND 0xF000) OR push_bit 4 (b4 AND 0x003F),
      drop_bit 6 (b4 AND 0xFFC0)]"

definition u16_at :: "u8 list \<Rightarrow> nat \<Rightarrow> u16 option" where
  "u16_at buf i = do { lo \<leftarrow> byte_at buf i; hi \<leftarrow> byte_at buf (i + 1); Some (ucast lo OR push_bit 8 (ucast hi)) }"

definition le_bytes :: "u16 \<Rightarrow> u8 list" where
  "le_bytes p = [ucast p, ucast (drop_bit 8 p)]"

text \<open>A row of the 10-bit format, converted into \<open>line\<close>, which keeps what the row does not fill.\<close>

fun unpack_row :: "u8 list \<Rightarrow> nat \<Rightarrow> nat \<Rightarrow> nat \<Rightarrow> u8 list \<Rightarrow> u8 list option" where
  "unpack_row buf base 0 k line = Some line"
| "unpack_row buf base (Suc todo) k line = do {
     b0 \<leftarrow> u16_at buf (base + k * 10);
     b1 \<leftarrow> u16_at buf (base + k * 10 + 2);
     b2 \<leftarrow> u16_at buf (base + k * 10 + 4);
     b3 \<leftarrow> u16_at buf (base + k * 10 + 6);
     b4 \<leftarrow> u16_at buf (base + k * 10 + 8);
     line \<leftarrow> blit line (k * 16) (concat (map le_bytes (unpack10 b0 b1 b2 b3 b4)));
     unpack_row buf base todo (Suc k) line
   }"

fun unpack_rows :: "u8 list \<Rightarrow> nat \<Rightarrow> nat \<Rightarrow> nat \<Rightarrow> nat \<Rightarrow> u8 list \<Rightarrow> (u8 list \<times> u8 list) option" where
  "unpack_rows buf base step groups 0 line = Some ([], line)"
| "unpack_rows buf base step groups (Suc todo) line = do {
     line \<leftarrow> unpack_row buf base groups 0 line;
     (out, line') \<leftarrow> unpack_rows buf (base + step) step groups todo line;
     Some (line @ out, line')
   }"

definition dump_420sp_10bit :: "heap \<Rightarrow> u8 \<Rightarrow> u8 list \<Rightarrow> nat \<Rightarrow> nat \<Rightarrow> nat \<Rightarrow> nat \<Rightarrow> u8 list option" where
  "dump_420sp_10bit hp junk buf width height h_stride v_stride =
     (let (ok, hp) = heap_alloc hp in
      if \<not> ok then Some []
      else do {
        (luma, line) \<leftarrow> unpack_rows buf 0 h_stride (width div 8) height (replicate (width * 2) junk);
        (chroma, line) \<leftarrow> unpack_rows buf (m32 (h_stride * v_stride)) h_stride (width div 8) (height div 2) line;
        Some (luma @ chroma)
      })"

definition dump_444sp :: "heap \<Rightarrow> u8 \<Rightarrow> u8 list \<Rightarrow> nat \<Rightarrow> nat \<Rightarrow> nat \<Rightarrow> nat \<Rightarrow> u8 list option" where
  "dump_444sp hp junk buf width height h_stride v_stride =
     (let (ok, hp) = heap_alloc hp;
          tmp = (if ok then replicate (m32 (h_stride * height * 2)) junk else [])
      in do {
        luma \<leftarrow> dump_plane buf 0 h_stride width height;
        tmp \<leftarrow> split_chroma buf (m32 (h_stride * v_stride)) (m32 (h_stride * 2)) width height
                 (m32 (width * height)) tmp;
        chroma \<leftarrow> fetch tmp 0 (m32 (width * height * 2));
        Some (luma @ chroma)
      })"

definition dump_rgb :: "u8 list \<Rightarrow> nat \<Rightarrow> nat \<Rightarrow> nat \<Rightarrow> nat \<Rightarrow> u8 list option" where
  "dump_rgb buf width height h_stride pix = dump_plane buf 0 h_stride (m32 (width * pix)) height"

definition dump_mpp_frame_to_file ::
  "fmt_env \<Rightarrow> heap \<Rightarrow> u8 \<Rightarrow> frame option \<Rightarrow> bool \<Rightarrow> u8 list option" where
  "dump_mpp_frame_to_file env hp junk frm fp =
     (case frm of
        None \<Rightarrow> Some []
      | Some f \<Rightarrow>
          if \<not> fp then Some []
          else case fr_buf f of
            None \<Rightarrow> Some []
          | Some buf \<Rightarrow>
              let w = unat (fr_width f); h = unat (fr_height f);
                  hs = unat (fr_hor_stride f); vs = unat (fr_ver_stride f);
                  fmt = (if fe_is_rgb env (fr_fmt f) \<and> fe_is_le env (fr_fmt f)
                         then fe_mask env (fr_fmt f) else fr_fmt f)
              in (case fe_base env fmt of
                  YUV422SP \<Rightarrow> dump_422sp hp junk buf w h hs vs
                | YUV420SP_VU \<Rightarrow> dump_420sp buf w h hs vs
                | YUV420SP \<Rightarrow> dump_420sp buf w h hs vs
                | YUV420P \<Rightarrow> dump_420p buf w h hs vs
                | YUV420SP_10BIT \<Rightarrow> dump_420sp_10bit hp junk buf w h hs vs
                | YUV444SP \<Rightarrow> dump_444sp hp junk buf w h hs vs
                | YUV400 \<Rightarrow> dump_rgb buf w h hs 1
                | ARGB8888 \<Rightarrow> dump_rgb buf w h hs 4 | ABGR8888 \<Rightarrow> dump_rgb buf w h hs 4
                | BGRA8888 \<Rightarrow> dump_rgb buf w h hs 4 | RGBA8888 \<Rightarrow> dump_rgb buf w h hs 4
                | RGB565 \<Rightarrow> dump_rgb buf w h hs 2 | BGR565 \<Rightarrow> dump_rgb buf w h hs 2
                | RGB555 \<Rightarrow> dump_rgb buf w h hs 2 | BGR555 \<Rightarrow> dump_rgb buf w h hs 2
                | RGB444 \<Rightarrow> dump_rgb buf w h hs 2 | BGR444 \<Rightarrow> dump_rgb buf w h hs 2
                | RGB888 \<Rightarrow> dump_rgb buf w h hs 3
                | _ \<Rightarrow> Some []))"

section \<open>Reading rows that do not overlap\<close>

text \<open>
  The rows \<open>off 0, off 1, \<dots>\<close> of \<open>n\<close> bytes fit below \<open>bound\<close> and follow one another.
\<close>

definition rows_apart :: "(nat \<Rightarrow> nat) \<Rightarrow> nat \<Rightarrow> nat \<Rightarrow> nat \<Rightarrow> nat \<Rightarrow> bool" where
  "rows_apart off n rows low bound \<longleftrightarrow>
     (\<forall>y < rows. low \<le> off y \<and> off y + n \<le> bound) \<and> (\<forall>y < rows. \<forall>y' < y. off y' + n \<le> off y)"

lemma read_plane_spec:
  assumes "rows_apart off n (row + todo) low bound" "bound \<le> length buf" "todo * n \<le> length inp"
  shows "\<exists>b. read_plane todo row off n buf inp = Some (True, b, drop (todo * n) inp) \<and> length b = length buf \<and>
    (\<forall>k < todo. fetch b (off (row + k)) n = Some (take n (drop (k * n) inp))) \<and>
    (\<forall>i m. (\<forall>k < todo. i + m \<le> off (row + k) \<or> off (row + k) + n \<le> i) \<longrightarrow> fetch b i m = fetch buf i m)"
  using assms
proof (induction todo arbitrary: row buf inp)
  case (Suc todo)
  have n: "n \<le> length inp" using Suc.prems(3) by simp
  have "off row + n \<le> bound" using Suc.prems(1) by (auto simp: rows_apart_def)
  then have fit: "off row + n \<le> length buf" using Suc.prems(2) by simp
  then obtain b1 where b1: "blit buf (off row) (take n inp) = Some b1" using n by (auto simp: blit_def)
  have l1: "length b1 = length buf" by (rule blit_length [OF b1])
  have f1: "fetch b1 (off row) n = Some (take n inp)" using fetch_blit_same [OF b1] n by simp
  have "rows_apart off n (Suc row + todo) low bound" using Suc.prems(1) by simp
  moreover have "todo * n \<le> length (drop n inp)" using Suc.prems(3) by simp
  ultimately obtain b where b: "read_plane todo (Suc row) off n b1 (drop n inp) =
      Some (True, b, drop (todo * n) (drop n inp))" "length b = length b1"
    "\<forall>k < todo. fetch b (off (Suc row + k)) n = Some (take n (drop (k * n) (drop n inp)))"
    "\<forall>i m. (\<forall>k < todo. i + m \<le> off (Suc row + k) \<or> off (Suc row + k) + n \<le> i) \<longrightarrow> fetch b i m = fetch b1 i m"
    using Suc.IH [of "Suc row" b1 "drop n inp"] Suc.prems(2) l1 by auto
  have apart: "off row + n \<le> off (Suc row + k)" if "k < todo" for k
    using Suc.prems(1) that by (simp add: rows_apart_def)
  have first: "fetch b (off row) n = fetch b1 (off row) n" using b(4) apart by blast
  have "fetch b (off (row + k)) n = Some (take n (drop (k * n) inp))" if "k < Suc todo" for k
  proof (cases k)
    case 0
    then show ?thesis using first f1 by simp
  next
    case (Suc k')
    then show ?thesis using b(3) that by (auto simp: add.commute)
  qed
  moreover have "fetch b i m = fetch buf i m"
    if "\<forall>k < Suc todo. i + m \<le> off (row + k) \<or> off (row + k) + n \<le> i" for i m
  proof -
    have "fetch b i m = fetch b1 i m"
      using b(4) that by (metis Suc_less_eq add_Suc_shift)
    also have "\<dots> = fetch buf i m"
      by (rule fetch_blit_other [OF b1]) (use that [rule_format, of 0] n in simp)
    finally show ?thesis .
  qed
  moreover have "read_plane (Suc todo) row off n buf inp = Some (True, b, drop (Suc todo * n) inp)"
    using b1 b(1) n by (simp add: add.commute)
  ultimately show ?case using b(2) l1 by auto
qed simp

lemmas read_plane_spec0 = read_plane_spec [where row = 0, unfolded add_0]

lemma dump_plane_rows:
  assumes "\<forall>k < rows. fetch buf (base + k * step) n = Some (take n (drop (k * n) inp))" "rows * n \<le> length inp"
  shows "dump_plane buf base step n rows = Some (take (rows * n) inp)"
proof -
  have "those (map (\<lambda>y. fetch buf (base + y * step) n) [0..<rows]) =
      Some (map (\<lambda>k. take n (drop (k * n) inp)) [0..<rows])"
    using assms(1)
  proof (induction rows)
    case (Suc rows)
    have app: "those (xs @ [Some x]) = map_option (\<lambda>ys. ys @ [x]) (those xs)" for xs :: "'c option list" and x
      by (induction xs) (auto split: option.splits simp: option.map_comp comp_def)
    show ?case using Suc by (simp add: app)
  qed simp
  moreover have "concat (map (\<lambda>k. take n (drop (k * n) inp)) [0..<rows]) = take (rows * n) inp"
    by (induction rows) (simp_all only: upt_Suc_append le0 map_append concat_append mult_Suc add.commute [of n] take_add
        list.map concat.simps append_Nil2 upt_0 mult_0 take_0)
  ultimately show ?thesis by (simp add: dump_plane_def)
qed

lemma rows_apart_linear:
  assumes "n \<le> step" "rows * step \<le> bound"
  shows "rows_apart (\<lambda>y. base + y * step) n rows base (base + bound)"
proof -
  have "y * step + n \<le> y' * step" if "y < y'" for y y'
    using mult_le_mono1 [of "Suc y" y' step] that assms(1) by simp
  moreover have "y * step + n \<le> bound" if "y < rows" for y
    using calculation [OF that] assms(2) by simp
  ultimately show ?thesis by (auto simp: rows_apart_def)
qed

lemma rows_apart_cong:
  "rows_apart off n rows low bound \<Longrightarrow> (\<And>y. y < rows \<Longrightarrow> off' y = off y) \<Longrightarrow> rows_apart off' n rows low bound"
  by (simp add: rows_apart_def)

text \<open>Reading an NV12 image puts the file, row by row, where the dump looks for it.\<close>

lemma read_dump_420sp:
  assumes "w \<le> hs" "h \<le> vs" "hs * vs + h div 2 * hs \<le> length buf" "hs * vs < 2 ^ 32"
    "h * w + h div 2 * w \<le> length inp"
  obtains b where "read_420sp buf inp w h hs vs = Some (MPP_OK, b, drop (h * w + h div 2 * w) inp)"
    "length b = length buf" "dump_420sp b w h hs vs = Some (take (h * w + h div 2 * w) inp)"
proof -
  have hh: "h * hs \<le> hs * vs" using assms(2) by (simp add: mult.commute)
  have yy: "y * hs < 2 ^ 32" if "y < h" for y
    using that hh assms(4) mult_le_mono1 [of y h hs] by linarith
  have m: "m32 (hs * vs) = hs * vs" "y < h \<Longrightarrow> m32 (y * hs) = y * hs" for y
    using assms(4) yy by simp_all
  have r1: "rows_apart (\<lambda>y. m32 (y * hs)) w h 0 (hs * vs)"
    by (rule rows_apart_cong [where off = "\<lambda>y. 0 + y * hs"])
      (use rows_apart_linear [OF assms(1) hh, of 0] m in auto)
  have len1: "h * w \<le> length inp" using assms(5) by simp
  obtain b1 where b1: "read_plane h 0 (\<lambda>y. m32 (y * hs)) w buf inp = Some (True, b1, drop (h * w) inp)"
    "length b1 = length buf"
    "\<forall>k < h. fetch b1 (m32 (k * hs)) w = Some (take w (drop (k * w) inp))"
    using read_plane_spec0 [OF r1 _ len1, of buf] assms(3) by (metis add_leD1)
  let ?off = "\<lambda>y. m32 (hs * vs) + m32 (y * hs)"
  have r2: "rows_apart ?off w (h div 2) (hs * vs) (hs * vs + h div 2 * hs)"
    by (rule rows_apart_cong [OF rows_apart_linear [OF assms(1) order_refl]]) (use m in auto)
  have len2: "h div 2 * w \<le> length (drop (h * w) inp)" using assms(5) by simp
  obtain b2 where b2: "read_plane (h div 2) 0 ?off w b1 (drop (h * w) inp) =
      Some (True, b2, drop (h div 2 * w) (drop (h * w) inp))" "length b2 = length b1"
    "\<forall>k < h div 2. fetch b2 (?off k) w = Some (take w (drop (k * w) (drop (h * w) inp)))"
    "\<forall>i m. (\<forall>k < h div 2. i + m \<le> ?off k \<or> ?off k + w \<le> i) \<longrightarrow> fetch b2 i m = fetch b1 i m"
    using read_plane_spec0 [OF r2 _ len2, of b1] assms(3) b1(2) by metis
  have keep: "fetch b2 (k * hs) w = fetch b1 (k * hs) w" if "k < h" for k
  proof -
    have "k * hs + hs \<le> h * hs" using mult_le_mono1 [of "Suc k" h hs] that by simp
    then have "k * hs + w \<le> hs * vs" using assms(1) hh by linarith
    then show ?thesis using b2(4) m(1) by (metis le_add1 le_trans)
  qed
  have "dump_plane b2 0 hs w h = Some (take (h * w) inp)"
    by (rule dump_plane_rows) (use keep b1(3) m(2) len1 in auto)
  moreover have "dump_plane b2 (m32 (hs * vs)) hs w (h div 2) = Some (take (h div 2 * w) (drop (h * w) inp))"
    by (rule dump_plane_rows) (use b2(3) m assms(5) in auto)
  ultimately have "dump_420sp b2 w h hs vs = Some (take (h * w + h div 2 * w) inp)"
    by (simp add: dump_420sp_def take_add)
  moreover have "read_420sp buf inp w h hs vs = Some (MPP_OK, b2, drop (h * w + h div 2 * w) inp)"
    using b1(1) b2(1) by (simp add: read_420sp_def ret_read_def add.commute)
  ultimately show thesis using that b1(2) b2(2) by simp
qed

section \<open>Properties\<close>

text \<open>
  C29: reading an NV12 image from a file and dumping the frame writes back exactly the bytes
  that were read, for every stride at least the width, vertical stride at least the
  height, and every size below 4 GiB; the read consumes just the image, and neither function
  leaves the buffer.
\<close>

theorem read_dump_nv12:
  assumes "fe_base env fmt = YUV420SP" "\<not> fe_is_fbc env fmt" "\<not> fe_is_rgb env fmt"
    "width \<le> hor_stride" "height \<le> ver_stride"
    "unat hor_stride * unat ver_stride + unat height div 2 * unat hor_stride \<le> length buf"
    "unat hor_stride * unat ver_stride < 2 ^ 32"
    "n = unat height * unat width + unat height div 2 * unat width" "n \<le> length inp"
  shows "\<exists>b. read_image env buf inp width height hor_stride ver_stride fmt = Some (MPP_OK, b, drop n inp) \<and>
    dump_mpp_frame_to_file env hp junk
      (Some \<lparr>fr_width = width, fr_height = height, fr_hor_stride = hor_stride,
             fr_ver_stride = ver_stride, fr_fmt = fmt, fr_buf = Some b\<rparr>) True = Some (take n inp)"
proof -
  have "unat width \<le> unat hor_stride" "unat height \<le> unat ver_stride"
    using assms(4,5) by (simp_all add: word_le_nat_alt)
  from read_dump_420sp [OF this assms(6,7), of inp] assms(8,9) obtain b where
    "read_420sp buf inp (unat width) (unat height) (unat hor_stride) (unat ver_stride) = Some (MPP_OK, b, drop n inp)"
    "dump_420sp b (unat width) (unat height) (unat hor_stride) (unat ver_stride) = Some (take n inp)"
    by metis
  then show ?thesis using assms(1-3) by (simp add: read_image_def dump_mpp_frame_to_file_def)
qed

theorem read_dump_nv12_witness:
  "\<exists>b. read_image (fixed_env YUV420SP 0) (replicate 12 0) [1, 2, 3, 4, 5, 6, 7] 2 2 4 2 0 = Some (MPP_OK, b, [7]) \<and>
    dump_mpp_frame_to_file (fixed_env YUV420SP 0) [] 0
      (Some \<lparr>fr_width = 2, fr_height = 2, fr_hor_stride = 4, fr_ver_stride = 2, fr_fmt = 0, fr_buf = Some b\<rparr>)
      True = Some [1, 2, 3, 4, 5, 6]"
  using read_dump_nv12 [of "fixed_env YUV420SP 0" 0 2 4 2 2 "replicate 12 0" 6 "[1, 2, 3, 4, 5, 6, 7]" "[]" 0]
  by (simp add: fixed_env_def)

text \<open>The bits of five 16-bit words in memory order, as one number of 80 bits.\<close>

definition bits80 :: "u16 \<Rightarrow> u16 \<Rightarrow> u16 \<Rightarrow> u16 \<Rightarrow> u16 \<Rightarrow> 80 word" where
  "bits80 b0 b1 b2 b3 b4 =
     ucast b0 OR push_bit 16 (ucast b1) OR push_bit 32 (ucast b2) OR push_bit 48 (ucast b3) OR
     push_bit 64 (ucast b4)"

lemma below16: "n < (16 :: nat) \<Longrightarrow> n \<in> {0, 1, 2, 3, 4, 5, 6, 7, 8, 9, 10, 11, 12, 13, 14, 15}"
  by (auto simp: less_Suc_eq eval_nat_numeral)

lemma bit_bits80:
  assumes "j < 5" "m < 16"
  shows "bit (bits80 b0 b1 b2 b3 b4) (16 * j + m) = bit ([b0, b1, b2, b3, b4] ! j) m"
proof -
  have out: "\<not> bit w k" if "16 \<le> k" for w :: u16 and k using that bit_imp_le_length [of w k] by auto
  have "j \<in> {0, 1, 2, 3, 4}" using assms(1) by (auto simp: less_Suc_eq eval_nat_numeral)
  then show ?thesis
    using assms(2) by (elim insertE) (auto simp: bits80_def bit_simps out)
qed

lemma unpack10_nth:
  "unpack10 b0 b1 b2 b3 b4 ! 0 = b0 AND 0x03FF"
  "unpack10 b0 b1 b2 b3 b4 ! 1 = drop_bit 10 (b0 AND 0xFC00) OR push_bit 6 (b1 AND 0x000F)"
  "unpack10 b0 b1 b2 b3 b4 ! 2 = drop_bit 4 (b1 AND 0x3FF0)"
  "unpack10 b0 b1 b2 b3 b4 ! 3 = drop_bit 14 (b1 AND 0xC000) OR push_bit 2 (b2 AND 0x00FF)"
  "unpack10 b0 b1 b2 b3 b4 ! 4 = drop_bit 8 (b2 AND 0xFF00) OR push_bit 8 (b3 AND 0x0003)"
  "unpack10 b0 b1 b2 b3 b4 ! 5 = drop_bit 2 (b3 AND 0x0FFC)"
  "unpack10 b0 b1 b2 b3 b4 ! 6 = drop_bit 12 (b3 AND 0xF000) OR push_bit 4 (b4 AND 0x003F)"
  "unpack10 b0 b1 b2 b3 b4 ! 7 = drop_bit 6 (b4 AND 0xFFC0)"
  by (simp_all add: unpack10_def)

lemma unpack10_bits:
  assumes "i < 8" "n < 16"
  shows "bit (unpack10 b0 b1 b2 b3 b4 ! i) n \<longleftrightarrow>
    n < 10 \<and> bit ([b0, b1, b2, b3, b4] ! ((10 * i + n) div 16)) ((10 * i + n) mod 16)"
proof -
  have *: "\<forall>n \<in> {0, 1, 2, 3, 4, 5, 6, 7, 8, 9, 10, 11, 12, 13, 14, 15}. bit (unpack10 b0 b1 b2 b3 b4 ! i) n \<longleftrightarrow>
      n < 10 \<and> bit ([b0, b1, b2, b3, b4] ! ((10 * i + n) div 16)) ((10 * i + n) mod 16)"
    if "i \<in> {0, 1, 2, 3, 4, 5, 6, 7}"
    using that
    by (elim insertE emptyE; hypsubst; unfold unpack10_nth;
        simp add: bit_or_iff bit_and_iff bit_drop_bit_eq bit_push_bit_iff;
        simp add: numeral_2_eq_2 numeral_3_eq_3)
  have "i \<in> {0, 1, 2, 3, 4, 5, 6, 7}" using assms(1) by (auto simp: less_Suc_eq eval_nat_numeral)
  from * [OF this] below16 [OF assms(2)] show ?thesis by blast
qed

text \<open>
  C37: the unpacking of a 10-bit row is right: pixel \<open>i\<close> of a group of eight is the ten bits
  from bit \<open>10 * i\<close> on of the five words read as one little-endian number.
\<close>

theorem unpack10_fields:
  assumes "i < 8"
  shows "unpack10 b0 b1 b2 b3 b4 ! i = ucast (take_bit 10 (drop_bit (10 * i) (bits80 b0 b1 b2 b3 b4)))"
proof (rule bit_word_eqI)
  fix n
  assume "n < LENGTH(16)"
  have "10 * i + n = 16 * ((10 * i + n) div 16) + (10 * i + n) mod 16" by simp
  moreover have "n < 10 \<Longrightarrow> (10 * i + n) div 16 < 5" using assms by simp
  ultimately have "n < 10 \<Longrightarrow> bit (bits80 b0 b1 b2 b3 b4) (10 * i + n) =
      bit ([b0, b1, b2, b3, b4] ! ((10 * i + n) div 16)) ((10 * i + n) mod 16)"
    using bit_bits80 [of "(10 * i + n) div 16" "(10 * i + n) mod 16" b0 b1 b2 b3 b4] by simp
  then show "bit (unpack10 b0 b1 b2 b3 b4 ! i) n =
      bit (ucast (take_bit 10 (drop_bit (10 * i) (bits80 b0 b1 b2 b3 b4))) :: u16) n"
    using unpack10_bits [OF assms, of n b0 b1 b2 b3 b4] \<open>n < LENGTH(16)\<close>
    by (cases "n < 10") (simp_all add: bit_simps)
qed

theorem unpack10_fields_witness:
  "unpack10 0 0 0x00FF 0 0 ! 3 = ucast (take_bit 10 (drop_bit 30 (bits80 0 0 0x00FF 0 0)))"
  using unpack10_fields [of 3 0 0 "0x00FF" 0 0] by simp

text \<open>
  A row whose width is no multiple of eight is not converted to its end: for a width
  below eight the dump of a 10-bit frame is nothing but the uninitialised memory of the line.
\<close>

theorem dump_10bit_short_rows:
  assumes "width < 8"
  shows "dump_420sp_10bit [] junk buf width height h_stride v_stride =
    Some (replicate ((height + height div 2) * (width * 2)) junk)"
proof -
  have "unpack_rows buf base step 0 rows line = Some (concat (replicate rows line), line)" for base step rows line
    by (induction rows arbitrary: base) auto
  moreover have "concat (replicate rows (replicate n junk)) = replicate (rows * n) junk" for rows n
    by (induction rows) (auto simp: replicate_add)
  ultimately show ?thesis using assms
    by (simp add: dump_420sp_10bit_def replicate_add add_mult_distrib)
qed

theorem dump_10bit_short_rows_witness:
  "dump_420sp_10bit [] 0xAA [1, 2, 3] 4 1 8 1 = Some (replicate 8 0xAA)"
  using dump_10bit_short_rows [of 4 "0xAA" "[1, 2, 3]" 1 8 1] by simp

text \<open>
  For a compressed format it does not support, \<open>read_image\<close> reads the header only and
  still returns \<open>MPP_OK\<close>: the payload stays in the file.
\<close>

theorem read_fbc_unsupported_ok:
  assumes "fe_is_fbc env fmt" "fe_base env fmt = YUV420P" "\<not> fe_is_afbc_v1 env fmt"
    "header = unat ((mpp_align width 16 * mpp_align height 16) div 16)" "header \<le> length inp" "header \<le> length buf"
  shows "\<exists>b. read_image env buf inp width height hor_stride ver_stride fmt = Some (MPP_OK, b, drop header inp)"
proof -
  obtain b where "blit buf 0 (take header inp) = Some b" using assms(5,6) by (auto simp: blit_def)
  then show ?thesis
    using assms by (auto simp: read_image_def read_image_fbc_def read_block_def Let_def)
qed

theorem read_fbc_unsupported_ok_witness:
  "\<exists>b. read_image ((fixed_env YUV420P 0)\<lparr>fe_is_fbc := (\<lambda>_. True)\<rparr>) (replicate 16 0) (replicate 20 1) 16 16 16 16 0 =
    Some (MPP_OK, b, replicate 4 1)"
proof -
  have a: "mpp_align (16 :: u32) 16 = 16" by (rule mpp_align_id) simp
  show ?thesis
    using read_fbc_unsupported_ok [of "(fixed_env YUV420P 0)\<lparr>fe_is_fbc := (\<lambda>_. True)\<rparr>" 0 16 16 16
        "replicate 20 1" "replicate 16 0" 16 16]
    by (simp add: fixed_env_def a)
qed

end
