(* ===== verification/Crc.thy ===== *)
theory Crc
  imports Frame_IO C_Library
begin

text \<open>
  Checksums of data and of frames (\<open>wide_bit_sum\<close>, \<open>calc_data_crc\<close>, \<open>calc_frm_crc\<close> and the
  functions that write and read them as text, \<open>mpp_utils/mpp_utils.c\<close>). Pointers have eight
  bytes, so that sums take 32-bit words in 64 bits. A read behind the data, a sum that the
  caller's array has no element for, and a division by zero are \<^const>\<open>None\<close>.
\<close>

unbundle bit_operations_syntax

section \<open>State\<close>

record data_crc =
  dc_len :: nat
  dc_sum_cnt :: nat
  dc_sum :: "u64 list"
  dc_vor :: u32

record frm_crc =
  fc_luma :: data_crc
  fc_chroma :: data_crc

text \<open>\<open>(0 - 1) / ((1UL << 32) - 1)\<close>, the quotient of two 64-bit numbers, and the bytes of a group.\<close>

definition CAL_BYTE :: nat where "CAL_BYTE = 4"

definition MAX_HALF_WORD_SUM_CNT :: nat where
  "MAX_HALF_WORD_SUM_CNT = (2 ^ 64 - 1) div (2 ^ 32 - 1)"

definition data_grp_byte_cnt :: nat where
  "data_grp_byte_cnt = MAX_HALF_WORD_SUM_CNT * CAL_BYTE"

lemma data_grp_byte_cnt_value: "data_grp_byte_cnt = 17179869188"
  by (simp add: data_grp_byte_cnt_def MAX_HALF_WORD_SUM_CNT_def CAL_BYTE_def)

section \<open>Sums\<close>

text \<open>The little-endian word at a byte offset.\<close>

definition le32 :: "u8 list \<Rightarrow> nat \<Rightarrow> u32" where
  "le32 dat i = ucast (dat ! i) OR push_bit 8 (ucast (dat ! (i + 1))) OR push_bit 16 (ucast (dat ! (i + 2)))
     OR push_bit 24 (ucast (dat ! (i + 3)))"

definition wide_bit_sum :: "u8 list \<Rightarrow> nat \<Rightarrow> u64 \<Rightarrow> u64 option" where
  "wide_bit_sum dat len acc =
     (if length dat < len then None
      else let acc = fold (\<lambda>loop s. s + ucast (le32 dat (loop * 4))) [0..<len div CAL_BYTE] acc
           in Some (fold (\<lambda>loop s. s + ucast (dat ! loop)) [len div CAL_BYTE * CAL_BYTE..<len] acc))"

text \<open>\<open>wide_bit_sum(p, len, &crc->sum[i])\<close>.\<close>

definition add_sum :: "u8 list \<Rightarrow> nat \<Rightarrow> nat \<Rightarrow> u64 list \<Rightarrow> u64 list option" where
  "add_sum dat len i sums =
     (if length sums \<le> i then None
      else do { s \<leftarrow> wide_bit_sum dat len (sums ! i); Some (sums[i := s]) })"

fun sum_groups :: "u8 list \<Rightarrow> nat \<Rightarrow> nat \<Rightarrow> u64 list \<Rightarrow> u64 list option" where
  "sum_groups dat 0 grp_loop sums = Some sums"
| "sum_groups dat (Suc todo) grp_loop sums = do {
     sums \<leftarrow> add_sum (drop (grp_loop * data_grp_byte_cnt) dat) data_grp_byte_cnt grp_loop sums;
     sum_groups dat todo (Suc grp_loop) sums
   }"

definition xor_words :: "u8 list \<Rightarrow> nat \<Rightarrow> u32 \<Rightarrow> u32" where
  "xor_words dat words x = fold (\<lambda>i x. x XOR le32 dat (i * 4)) [0..<words] x"

text \<open>The last bytes, stored one by one into a zeroed word.\<close>

definition tail_word :: "u8 list \<Rightarrow> nat \<Rightarrow> u32" where
  "tail_word dat len =
     (let bs = fold (\<lambda>i bs. bs[i mod 4 := dat ! i]) [len div 4 * 4..<len] (replicate 4 0) in le32 bs 0)"

definition data_xor :: "u8 list \<Rightarrow> nat \<Rightarrow> u32" where
  "data_xor dat len =
     (let x = xor_words dat (len div 4) 0
      in if len mod 4 \<noteq> 0 then x XOR tail_word dat len else x)"

definition calc_data_crc :: "u8 list \<Rightarrow> nat \<Rightarrow> data_crc \<Rightarrow> data_crc option" where
  "calc_data_crc dat len crc =
     (let sum_cnt = m32 ((len + data_grp_byte_cnt - 1) div data_grp_byte_cnt);
          groups = len div data_grp_byte_cnt
      in do {
        sums \<leftarrow> sum_groups dat groups 0 (dc_sum crc);
        sums \<leftarrow> (if len mod data_grp_byte_cnt \<noteq> 0
                then add_sum (drop (groups * data_grp_byte_cnt) dat) (len mod data_grp_byte_cnt) groups sums
                else Some sums);
        (if length dat < len then None
         else Some (crc\<lparr>dc_sum_cnt := sum_cnt, dc_sum := sums, dc_len := len, dc_vor := data_xor dat len\<rparr>))
      })"

section \<open>Frames\<close>

text \<open>The rows of a plane: the sum of each group of rows, then the xor of all whole words.\<close>

fun sum_lines :: "u8 list \<Rightarrow> nat \<Rightarrow> nat \<Rightarrow> nat \<Rightarrow> nat \<Rightarrow> nat \<Rightarrow> u64 list \<Rightarrow> u64 list option" where
  "sum_lines dat stride width grp 0 y sums = Some sums"
| "sum_lines dat stride width grp (Suc todo) y sums = do {
     sums \<leftarrow> add_sum (drop (m32 (y * stride)) dat) width (y div grp) sums;
     sum_lines dat stride width grp todo (Suc y) sums
   }"

definition xor_lines :: "u8 list \<Rightarrow> nat \<Rightarrow> nat \<Rightarrow> nat \<Rightarrow> u32 \<Rightarrow> u32" where
  "xor_lines dat stride width rows x =
     fold (\<lambda>y x. xor_words (drop (m32 (y * stride)) dat) (width div 4) x) [0..<rows] x"

text \<open>
  The two loops over the rows of whole groups and of the rest run one after the other
  over all rows. \<open>grp\<close> is the number of rows of a group.
\<close>

definition plane_crc :: "u8 list \<Rightarrow> nat \<Rightarrow> nat \<Rightarrow> nat \<Rightarrow> nat \<Rightarrow> data_crc \<Rightarrow> data_crc option" where
  "plane_crc dat stride width rows grp crc = do {
     sums \<leftarrow> sum_lines dat stride width grp (rows div grp * grp) 0 (dc_sum crc);
     sums \<leftarrow> (if rows mod grp \<noteq> 0
             then sum_lines dat stride width grp (rows - rows div grp * grp) (rows div grp * grp) sums
             else Some sums);
     Some (crc\<lparr>dc_sum_cnt := m32 (rows + grp - 1) div grp, dc_sum := sums\<rparr>)
   }"

definition calc_frm_crc :: "frame \<Rightarrow> frm_crc \<Rightarrow> frm_crc option" where
  "calc_frm_crc f crc =
     (let width = unat (fr_width f); height = unat (fr_height f); stride = unat (fr_hor_stride f);
          row = m32 (m32 (width + CAL_BYTE - 1) div CAL_BYTE * CAL_BYTE)
      in case fr_buf f of
          None \<Rightarrow> None
        | Some buf \<Rightarrow>
            if row = 0 then None
            else let grp_line_cnt = m32 (data_grp_byte_cnt div row) in
              if grp_line_cnt = 0 then None
              else do {
                luma \<leftarrow> plane_crc buf stride width height grp_line_cnt (fc_luma crc);
                let x = xor_lines buf stride width height 0;
                let luma = luma\<lparr>dc_len := m32 (height * width), dc_vor := x\<rparr>;
                let cbuf = drop (m32 (height * stride)) buf;
                chroma \<leftarrow> plane_crc cbuf stride width (height div 2) grp_line_cnt (fc_chroma crc);
                let x = xor_lines cbuf stride width (height div 2) x;
                Some (crc\<lparr>fc_luma := luma,
                          fc_chroma := chroma\<lparr>dc_len := m32 (height * width) div 2, dc_vor := x\<rparr>\<rparr>)
              })"

section \<open>Text\<close>

abbreviation c_nl :: char where "c_nl \<equiv> CHR 0x0A"

text \<open>\<open>%lx\<close> of the first \<open>n\<close> sums, each after a blank and before a comma.\<close>

definition show_sums :: "nat \<Rightarrow> u64 list \<Rightarrow> string" where
  "show_sums n sums = concat (map (\<lambda>i. '' '' @ show_x (unat (sums ! i)) @ '','') [0..<n])"

definition write_data_crc :: "data_crc \<Rightarrow> string" where
  "write_data_crc crc =
     show_08d (s32_of_int (int (dc_len crc))) @ '','' @ show_sums (dc_sum_cnt crc) (dc_sum crc) @
     '' '' @ show_08x (unat (dc_vor crc)) @ [c_nl]"

definition write_frm_crc :: "frm_crc \<Rightarrow> string" where
  "write_frm_crc crc =
     (let l = fc_luma crc; c = fc_chroma crc in
      show_d (s32_of_int (int (dc_len l))) @ '','' @ show_sums (dc_sum_cnt l) (dc_sum l) @
      '' '' @ show_08x (unat (dc_vor l)) @ '','' @
      '' '' @ show_d (s32_of_int (int (dc_len c))) @ '','' @ show_sums (dc_sum_cnt c) (dc_sum c) @
      '' '' @ show_08x (unat (dc_vor c)) @ [c_nl])"

text \<open>
  A call of \<open>fscanf\<close> with one conversion: what it returns (-1 for \<open>EOF\<close>), the number when there
  is one, and the input left.
\<close>

definition fscan_num :: "nat \<Rightarrow> bool \<Rightarrow> nat option \<Rightarrow> string \<Rightarrow> int \<times> int option \<times> string" where
  "fscan_num base sgnd width s =
     (let (r, vs, rest) = scan [Num base sgnd width] s [] in
      (r, (case vs of CInt v # _ \<Rightarrow> Some v | _ \<Rightarrow> None), rest))"

text \<open>The bitwise or of the results, as far as the code looks at it: whether it is \<open>EOF\<close>.\<close>

definition or_ret :: "int \<Rightarrow> int \<Rightarrow> int" where
  "or_ret a b = (if a = -1 \<or> b = -1 then -1 else if a = 0 then b else a)"

fun read_sums :: "nat \<Rightarrow> nat \<Rightarrow> u64 list \<Rightarrow> int \<Rightarrow> string \<Rightarrow> (u64 list \<times> int \<times> string) option" where
  "read_sums 0 loop sums ret s = Some (sums, ret, s)"
| "read_sums (Suc todo) loop sums ret s =
     (if length sums \<le> loop then None
      else let (r, v, s) = fscan_num 16 False None s;
               sums = (case v of None \<Rightarrow> sums | Some n \<Rightarrow> sums[loop := word_of_int n])
           in read_sums todo (Suc loop) sums (or_ret ret r) s)"

definition read_len :: "nat option \<Rightarrow> string \<Rightarrow> data_crc \<Rightarrow> int \<times> data_crc \<times> string" where
  "read_len width s crc =
     (let (r, v, s) = fscan_num 10 True width s
      in (r, case v of None \<Rightarrow> crc | Some n \<Rightarrow> crc\<lparr>dc_len := nat (n mod 2 ^ 32)\<rparr>, s))"

definition read_vor :: "string \<Rightarrow> data_crc \<Rightarrow> int \<times> data_crc \<times> string" where
  "read_vor s crc =
     (let (r, v, s) = fscan_num 16 False (Some 8) s
      in (r, case v of None \<Rightarrow> crc | Some n \<Rightarrow> crc\<lparr>dc_vor := word_of_int n\<rparr>, s))"

definition read_part :: "nat option \<Rightarrow> data_crc \<Rightarrow> int \<Rightarrow> string \<Rightarrow> (data_crc \<times> int \<times> string) option" where
  "read_part width crc ret s =
     (let (r, crc, s) = read_len width s crc in do {
        (sums, ret, s) \<leftarrow> read_sums (dc_sum_cnt crc) 0 (dc_sum crc) (or_ret ret r) s;
        let crc = crc\<lparr>dc_sum := sums\<rparr>;
        (let (r, crc, s) = read_vor s crc in Some (crc, or_ret ret r, s))
      })"

text \<open>The flag is whether the end of the file is reported.\<close>

definition read_data_crc :: "string \<Rightarrow> data_crc \<Rightarrow> (data_crc \<times> bool \<times> string) option" where
  "read_data_crc s crc = do {
     (crc, ret, s) \<leftarrow> read_part (Some 8) crc 0 s;
     Some (crc, ret = -1, s)
   }"

definition read_frm_crc :: "string \<Rightarrow> frm_crc \<Rightarrow> (frm_crc \<times> bool \<times> string) option" where
  "read_frm_crc s crc = do {
     (luma, ret, s) \<leftarrow> read_part None (fc_luma crc) 0 s;
     (chroma, ret, s) \<leftarrow> read_part None (fc_chroma crc) ret s;
     Some (crc\<lparr>fc_luma := luma, fc_chroma := chroma\<rparr>, ret = -1, s)
   }"

section \<open>Sums do not wrap\<close>

lemma unat_fold_add:
  fixes f :: "nat \<Rightarrow> u64"
  assumes "unat acc + sum_list (map (\<lambda>i. unat (f i)) xs) < 2 ^ 64"
  shows "unat (fold (\<lambda>i s. s + f i) xs acc) = unat acc + sum_list (map (\<lambda>i. unat (f i)) xs)"
  using assms
proof (induction xs arbitrary: acc)
  case (Cons x xs)
  have "unat acc + unat (f x) < 2 ^ LENGTH(64)" using Cons.prems by simp
  then have add: "unat (acc + f x) = unat acc + unat (f x)" by (rule unat_add_lem [THEN iffD1])
  with Cons show ?case by simp
qed simp

lemma sum_list_bound: "(\<And>x. x \<in> set xs \<Longrightarrow> f x \<le> (b :: nat)) \<Longrightarrow> sum_list (map f xs) \<le> length xs * b"
  by (induction xs) (auto intro: add_mono)

definition word_sum :: "u8 list \<Rightarrow> nat \<Rightarrow> nat" where
  "word_sum dat len =
     sum_list (map (\<lambda>i. unat (le32 dat (i * 4))) [0..<len div 4]) +
     sum_list (map (\<lambda>i. unat (dat ! i)) [len div 4 * 4..<len])"

lemma word_sum_less:
  assumes "len < 2 ^ 32"
  shows "word_sum dat len < 2 ^ 64"
proof -
  have "sum_list (map (\<lambda>i. unat (le32 dat (i * 4))) [0..<len div 4]) \<le> length [0..<len div 4] * (2 ^ 32 - 1)"
  proof (rule sum_list_bound)
    fix i
    have "unat (le32 dat (i * 4)) < 2 ^ LENGTH(32)" by (rule unsigned_less)
    then show "unat (le32 dat (i * 4)) \<le> 2 ^ 32 - 1" by simp
  qed
  moreover have "sum_list (map (\<lambda>i. unat (dat ! i)) [len div 4 * 4..<len]) \<le> length [len div 4 * 4..<len] * 255"
  proof (rule sum_list_bound)
    fix i
    have "unat (dat ! i) < 2 ^ LENGTH(8)" by (rule unsigned_less)
    then show "unat (dat ! i) \<le> 255" by simp
  qed
  moreover have "len - len div 4 * 4 < 4" by (simp add: minus_div_mult_eq_mod)
  ultimately show ?thesis using assms unfolding word_sum_def by simp
qed

lemma unat_wider: "unat (ucast (w :: u32) :: u64) = unat w" "unat (ucast (v :: u8) :: u64) = unat v"
  by (transfer, simp)+

lemma wide_bit_sum_exact:
  assumes "len \<le> length dat" "unat acc + word_sum dat len < 2 ^ 64"
  obtains s where "wide_bit_sum dat len acc = Some s" "unat s = unat acc + word_sum dat len"
proof -
  let ?f = "\<lambda>i. ucast (le32 dat (i * 4)) :: u64" and ?g = "\<lambda>i. ucast (dat ! i) :: u64"
  have u: "unat (?f i) = unat (le32 dat (i * 4))" "unat (?g i) = unat (dat ! i)" for i
    by (simp_all add: unat_wider)
  let ?s = "fold (\<lambda>i s. s + ?f i) [0..<len div 4] acc"
  have 1: "unat ?s = unat acc + sum_list (map (\<lambda>i. unat (le32 dat (i * 4))) [0..<len div 4])"
    using unat_fold_add [of acc ?f "[0..<len div 4]"] assms(2) by (simp add: u word_sum_def)
  have "unat (fold (\<lambda>i s. s + ?g i) [len div 4 * 4..<len] ?s) = unat acc + word_sum dat len"
    using unat_fold_add [of ?s ?g "[len div 4 * 4..<len]"] assms(2) by (simp add: u 1 word_sum_def)
  with assms(1) show thesis by (intro that) (auto simp: wide_bit_sum_def CAL_BYTE_def Let_def)
qed

section \<open>The xor, byte by byte\<close>

definition byte_xor :: "u8 list \<Rightarrow> nat list \<Rightarrow> u32 \<Rightarrow> u32" where
  "byte_xor dat is x = fold (\<lambda>i x. x XOR push_bit (8 * (i mod 4)) (ucast (dat ! i))) is x"

lemma le32_xor:
  "le32 dat i = ucast (dat ! i) XOR push_bit 8 (ucast (dat ! (i + 1))) XOR push_bit 16 (ucast (dat ! (i + 2)))
     XOR push_bit 24 (ucast (dat ! (i + 3)))"
proof (rule bit_word_eqI)
  fix n
  have out: "\<not> bit w k" if "8 \<le> k" for w :: u8 and k using that bit_imp_le_length [of w k] by auto
  show "bit (le32 dat i) n = bit (ucast (dat ! i) XOR push_bit 8 (ucast (dat ! (i + 1))) XOR
      push_bit 16 (ucast (dat ! (i + 2))) XOR push_bit 24 (ucast (dat ! (i + 3))) :: u32) n"
    by (auto simp: le32_def bit_simps out)
qed

lemma upt_small:
  fixes k :: nat
  shows "[k..<k + 1] = [k]" "[k..<k + 2] = [k, k + 1]" "[k..<k + 3] = [k, k + 1, k + 2]"
    "[k..<k + 4] = [k, k + 1, k + 2, k + 3]"
  by (simp_all add: upt_conv_Cons)

lemma xor_words_bytes: "xor_words dat n x = byte_xor dat [0..<n * 4] x"
proof (induction n)
  case 0
  then show ?case by (simp add: xor_words_def byte_xor_def)
next
  case (Suc n)
  have "[0..<Suc n * 4] = [0..<n * 4] @ [n * 4, n * 4 + 1, n * 4 + 2, n * 4 + 3]"
    using upt_add_eq_append [of 0 "n * 4" 4] upt_small(4) [of "n * 4"] by (simp add: add.commute)
  moreover have "(n * 4 + 1) mod 4 = 1" "(n * 4 + 2) mod 4 = 2" "(n * 4 + 3) mod 4 = 3" by presburger+
  moreover have "xor_words dat (Suc n) x = xor_words dat n x XOR le32 dat (n * 4)"
    by (simp add: xor_words_def)
  ultimately show ?case using Suc by (simp add: byte_xor_def le32_xor ac_simps)
qed

lemma tail_word_bytes:
  assumes "r < 4" "len = q * 4 + r"
  shows "tail_word dat len = byte_xor dat [q * 4..<len] 0"
proof -
  have m: "(q * 4 + 1) mod 4 = 1" "(q * 4 + 2) mod 4 = 2" "Suc (q * 4) mod 4 = 1" "Suc (Suc (q * 4)) mod 4 = 2"
    by presburger+
  have rep: "replicate 4 0 = [0, 0, 0, 0 :: u8]" by (simp add: numeral_eq_Suc)
  have div: "(q * 4 + r) div 4 = q" using assms(1) by simp
  have "le32 (fold (\<lambda>i bs. bs[i mod 4 := dat ! i]) [q * 4..<q * 4 + r] (replicate 4 0)) 0 =
      byte_xor dat [q * 4..<q * 4 + r] 0"
  proof -
    consider "r = 0" | "r = 1" | "r = 2" | "r = 3" using assms(1) by linarith
    then show ?thesis
      by cases (simp_all only: upt_small rep, simp_all add: byte_xor_def le32_xor m xor.assoc)
  qed
  then show ?thesis by (simp only: tail_word_def assms(2) div Let_def)
qed

lemma data_xor_bytes: "data_xor dat len = byte_xor dat [0..<len] 0"
proof -
  let ?q = "len div 4"
  have split: "[0..<len] = [0..<?q * 4] @ [?q * 4..<len]"
    by (metis div_times_less_eq_dividend upt_add_eq_append le0 le_add_diff_inverse mult.commute)
  have comm: "byte_xor dat is (x XOR y) = x XOR byte_xor dat is y" for "is" x y
    by (induction "is" arbitrary: y) (simp_all add: byte_xor_def xor.assoc)
  have "byte_xor dat [0..<len] 0 = byte_xor dat [?q * 4..<len] (byte_xor dat [0..<?q * 4] 0)"
    by (subst split) (simp add: byte_xor_def)
  also have "\<dots> = xor_words dat ?q 0 XOR tail_word dat len"
    using tail_word_bytes [of "len mod 4" len ?q dat] comm [of "[?q * 4..<len]" "byte_xor dat [0..<?q * 4] 0" 0]
    by (simp add: xor_words_bytes)
  also have "\<dots> = data_xor dat len"
  proof (cases "len mod 4 = 0")
    case True
    then have "len = len div 4 * 4" by presburger
    then have "tail_word dat len = 0"
      using tail_word_bytes [of 0 len ?q dat] by (simp add: byte_xor_def)
    with True show ?thesis by (simp add: data_xor_def)
  qed (simp add: data_xor_def Let_def)
  finally show ?thesis by simp
qed

section \<open>Numbers that were written and are read again\<close>

lemma fscan_len:
  assumes "n < 10 ^ 8"
  shows "fscan_num 10 True (Some 8) (show_08d (s32_of_int (int n)) @ t) = (1, Some (int n), t)"
proof -
  note D = show_08d_digits [OF assms]
  let ?s = "show_08d (s32_of_int (int n))"
  obtain c cs where s: "?s = c # cs" "is_digit 10 c" using D(2,4) by (cases ?s) auto
  have dw: "dropWhile is_space (?s @ t) = ?s @ t"
    using digit_not_blank [OF s(2)] by (simp add: s(1))
  have "take 8 (?s @ t) = ?s" "drop 8 (?s @ t) = t" using D(1) by simp_all
  then have "scan_num 10 True (Some 8) (?s @ t) = Some (int n, t)"
    using parse_int_digits [OF D(2,4)] D(3) assms
    by (simp add: scan_num_def LONG_MAX_def LONG_MIN_def)
  then show ?thesis using dw D(4) by (simp add: fscan_num_def)
qed

lemma fscan_comma: "fscan_num 16 False width (CHR '','' # t) = (0, None, CHR '','' # t)"
proof -
  have "\<not> hex_prefix (CHR '','' # s)" for s by (auto simp: hex_prefix_def split: list.splits)
  then have p: "parse_int 16 (CHR '','' # s) = None" for s
    by (simp add: parse_int_def read_sign_def pick_base_def is_digit_def digit_val_def is_space_def)
  have "scan_num 16 False width (CHR '','' # t) = None \<or> width = Some 0"
    using p by (cases width; cases "the width") (auto simp: scan_num_def)
  moreover have "scan_num 16 False (Some 0) s = None" for s
    by (simp add: scan_num_def parse_int_def read_sign_def pick_base_def hex_prefix_def)
  ultimately have "scan_num 16 False width (CHR '','' # t) = None" by auto
  then show ?thesis by (simp add: fscan_num_def scan_fail_def is_space_def)
qed

lemma read_sums_comma:
  "loop + todo \<le> length sums \<Longrightarrow> ret \<noteq> 0 \<Longrightarrow> ret \<noteq> -1 \<Longrightarrow>
   read_sums todo loop sums ret (CHR '','' # t) = Some (sums, ret, CHR '','' # t)"
  by (induction todo arbitrary: loop) (simp_all add: fscan_comma or_ret_def)

lemma read_back:
  assumes "dc_len crc < 10 ^ 8" "dc_sum_cnt crc0 \<le> length (dc_sum crc0)"
  shows "read_data_crc (write_data_crc crc) crc0 =
    Some (crc0\<lparr>dc_len := dc_len crc\<rparr>, False, drop 8 (write_data_crc crc))"
proof -
  obtain t where w: "write_data_crc crc = show_08d (s32_of_int (int (dc_len crc))) @ CHR '','' # t"
    by (simp add: write_data_crc_def)
  have len: "read_len (Some 8) (write_data_crc crc) crc0 = (1, crc0\<lparr>dc_len := dc_len crc\<rparr>, CHR '','' # t)"
    using fscan_len [OF assms(1)] assms(1) by (simp add: read_len_def w)
  have d: "drop 8 (write_data_crc crc) = CHR '','' # t"
    using show_08d_digits(1) [OF assms(1)] by (simp add: w)
  show ?thesis
    unfolding read_data_crc_def read_part_def len d
    using assms(2) by (simp add: read_sums_comma read_vor_def fscan_comma or_ret_def)
qed

section \<open>Properties\<close>

text \<open>
  C30: for data of less than 4 GiB the checksum fits one group, whose 64-bit sum grows by exactly the sum of all
  32-bit words and of the last bytes: the code adds to the sum that is there and resets nothing, so the sum is the data's
  own when it was 0 before, and then it cannot wrap around; on a checksum that was used before it is the total,
  as long as that is below 2^64. The xor is that of all bytes of the data, each at its place in its word,
  the last incomplete word included.
\<close>

theorem calc_data_crc_exact:
  assumes "len \<le> length dat" "len < 2 ^ 32" "dc_sum crc = s0 # sums" "s0 = 0 \<or> unat s0 + word_sum dat len < 2 ^ 64"
  shows "\<exists>s. calc_data_crc dat len crc = Some (crc\<lparr>dc_sum_cnt := (if len = 0 then 0 else 1), dc_sum := s # sums,
      dc_len := len, dc_vor := byte_xor dat [0..<len] 0\<rparr>) \<and> unat s = unat s0 + word_sum dat len"
proof (cases "len = 0")
  case True
  then show ?thesis using assms(3)
    by (auto simp: calc_data_crc_def data_grp_byte_cnt_value data_xor_bytes word_sum_def)
next
  case False
  have "unat s0 + word_sum dat len < 2 ^ 64" using assms(4) word_sum_less [OF assms(2)] by auto
  from wide_bit_sum_exact [OF assms(1) this] obtain s
    where s: "wide_bit_sum dat len s0 = Some s" "unat s = unat s0 + word_sum dat len" by auto
  have d: "len div 17179869188 = 0" "len mod 17179869188 = len" using assms(2) by simp_all
  have c: "(17179869187 + len) div 17179869188 = 1" using assms(2) False by (simp add: div_nat_eqI)
  show ?thesis using s assms False
    by (intro exI [of _ s]) (simp add: calc_data_crc_def data_grp_byte_cnt_value d c add_sum_def data_xor_bytes)
qed

theorem calc_data_crc_exact_witness:
  "\<exists>s. calc_data_crc [1, 0, 0, 0, 7] 5 \<lparr>dc_len = 0, dc_sum_cnt = 0, dc_sum = [0], dc_vor = 0\<rparr> =
     Some \<lparr>dc_len = 5, dc_sum_cnt = 1, dc_sum = [s], dc_vor = byte_xor [1, 0, 0, 0, 7] [0..<5] 0\<rparr> \<and> unat s = 8"
proof -
  have "word_sum [1, 0, 0, 0, 7] 5 = 8" by code_simp
  then show ?thesis
    using calc_data_crc_exact [of 5 "[1, 0, 0, 0, 7]" "\<lparr>dc_len = 0, dc_sum_cnt = 0, dc_sum = [0], dc_vor = 0\<rparr>" 0 "[]"]
    by simp
qed

text \<open>
  C38: for a length of at most eight digits, \<open>read_data_crc\<close> does not read what \<open>write_data_crc\<close> writes: it
  stops at the first comma, so only the length comes back, and no error is reported. (Of a longer length \<open>%8d\<close>
  reads the first eight digits, and the rest is taken for the first sum.)
\<close>

theorem read_write_data_crc:
  assumes "dc_len crc < 10 ^ 8" "dc_sum_cnt crc0 \<le> length (dc_sum crc0)"
  shows "read_data_crc (write_data_crc crc) crc0 =
    Some (crc0\<lparr>dc_len := dc_len crc\<rparr>, False, drop 8 (write_data_crc crc))"
  by (rule read_back [OF assms])

theorem read_write_data_crc_witness:
  "\<exists>rest. read_data_crc (write_data_crc \<lparr>dc_len = 5, dc_sum_cnt = 1, dc_sum = [8], dc_vor = 6\<rparr>)
     \<lparr>dc_len = 0, dc_sum_cnt = 1, dc_sum = [0], dc_vor = 0\<rparr> =
   Some (\<lparr>dc_len = 5, dc_sum_cnt = 1, dc_sum = [0], dc_vor = 0\<rparr>, False, rest)"
  using read_write_data_crc [of "\<lparr>dc_len = 5, dc_sum_cnt = 1, dc_sum = [8], dc_vor = 6\<rparr>"
      "\<lparr>dc_len = 0, dc_sum_cnt = 1, dc_sum = [0], dc_vor = 0\<rparr>"] by simp

text \<open>
  For a frame at most four pixels wide the number of rows of a group, \<open>2 ^ 32 + 1\<close>, is cut
  to 1 by its 32-bit variable: each row has a sum of its own, and the second row is written
  behind an array with the one element a whole group needs.
\<close>

theorem narrow_frame_overruns_sums:
  assumes "fr_buf f = Some buf" "0 < fr_width f" "fr_width f \<le> 4" "2 \<le> fr_height f"
    "length (dc_sum (fc_luma crc)) = 1"
  shows "calc_frm_crc f crc = None"
proof -
  have w: "0 < unat (fr_width f)" "unat (fr_width f) \<le> 4" and h: "2 \<le> unat (fr_height f)"
    using assms(2-4) by (simp_all add: word_less_nat_alt word_le_nat_alt)
  have row: "m32 (m32 (unat (fr_width f) + CAL_BYTE - 1) div CAL_BYTE * CAL_BYTE) = 4"
  proof -
    have "(unat (fr_width f) + 4 - 1) div 4 = 1" using w by (simp add: div_nat_eqI)
    then show ?thesis using w by (simp add: CAL_BYTE_def)
  qed
  have grp: "m32 (data_grp_byte_cnt div 4) = 1" by (simp add: data_grp_byte_cnt_value m32_def)
  obtain n where n: "unat (fr_height f) = Suc (Suc n)" using h by (metis add_2_eq_Suc le_Suc_ex)
  have "sum_lines buf stride width 1 (Suc (Suc n)) 0 (dc_sum (fc_luma crc)) = None" for stride width
  proof -
    have "sum_lines buf stride width 1 (Suc n) 1 sums = None" if "length sums = 1" for sums
      using that by (simp add: add_sum_def)
    moreover have "length sums' = 1" if "add_sum d w' 0 (dc_sum (fc_luma crc)) = Some sums'" for d w' sums'
      using that assms(5) by (auto simp: add_sum_def split: if_splits Option.bind_splits)
    ultimately show ?thesis by (auto split: Option.bind_splits)
  qed
  then have "plane_crc buf stride width (Suc (Suc n)) 1 (fc_luma crc) = None" for stride width
    by (simp add: plane_crc_def)
  then show ?thesis using assms(1) row grp n by (simp add: calc_frm_crc_def Let_def)
qed

theorem narrow_frame_overruns_sums_witness:
  "calc_frm_crc \<lparr>fr_width = 4, fr_height = 2, fr_hor_stride = 4, fr_ver_stride = 2, fr_fmt = 0,
     fr_buf = Some (replicate 12 1)\<rparr>
     \<lparr>fc_luma = \<lparr>dc_len = 0, dc_sum_cnt = 0, dc_sum = [0], dc_vor = 0\<rparr>,
      fc_chroma = \<lparr>dc_len = 0, dc_sum_cnt = 0, dc_sum = [0], dc_vor = 0\<rparr>\<rparr> = None"
  by (rule narrow_frame_overruns_sums) simp_all

end
