(* ===== verification/Sys_World.thy ===== *)
theory Sys_World
  imports Mpp_Prelude
begin

text \<open>
  The operating system below the drivers: the outcomes of the calls to come, and the log of the
  calls made. Heap allocations, \<open>open\<close> and \<open>ioctl\<close> take their outcomes from lists; a list that is
  exhausted gives success. Which files exist and what the environment variables hold are the
  functions of \<open>sys_env\<close>. The requests of the service (\<open>mpp_service.h\<close>) are defined here, since
  they are what the log shows.
\<close>

section \<open>Requests\<close>

text \<open>
  The \<open>data_ptr\<close> of a request: an address of the caller, a local variable with its value, or a
  place in the driver's own state (or in that of the server of batches: the command of a batch's slot). The tables of offsets and of row buffers are heap blocks; a
  block has a number, and a reallocation gives a new one, since C leaves every pointer into the
  old block without a meaning.
\<close>

datatype data_ptr = P_null | P_user u64 | P_val u32 | P_offsets nat nat | P_rcb nat nat | P_info | P_bat | P_cmd nat int

record mpp_req =
  rq_cmd :: u32
  rq_flag :: u32
  rq_size :: u32
  rq_offset :: u32
  rq_data :: data_ptr

definition zero_req :: mpp_req where
  "zero_req = \<lparr>rq_cmd = 0, rq_flag = 0, rq_size = 0, rq_offset = 0, rq_data = P_null\<rparr>"

datatype vpu_cmd = VPU_IOC_SET_CLIENT_TYPE | VPU_IOC_SET_CLIENT_TYPE_U32 | VPU_IOC_SET_REG | VPU_IOC_GET_REG

datatype vpu_client = VPU_DEC | VPU_DEC_PP | VPU_ENC

text \<open>
  The kinds of \<open>ioctl\<close>: a chain of requests, or a command of the older service with an address, a
  size and the words found there, or with a kind of client.
\<close>

datatype ioc = Ioc_mpp "mpp_req list" | Ioc_vpu vpu_cmd u64 u32 "u32 list option" | Ioc_client vpu_cmd vpu_client

datatype sys_event = Ev_open string int | Ev_close int | Ev_ioctl int ioc

section \<open>The world\<close>

text \<open>
  The memory of the client, as far as drivers write to it, is \<open>w_mem\<close>: blocks of 32-bit registers by
  address. A \<open>reply\<close> is the result of an \<open>ioctl\<close>, \<open>errno\<close> after it, and the value it stores
  through the pointer.
\<close>

record reply =
  rp_ret :: int
  rp_errno :: int
  rp_out :: "u32 option"

record world =
  w_heap :: heap
  w_replies :: "reply list"
  w_opens :: "int list"
  w_log :: "sys_event list"
  w_mem :: "u64 \<rightharpoonup> u32 list"

record sys_env =
  se_access :: "string \<Rightarrow> bool"
  se_getenv :: "string \<Rightarrow> u32 option"

definition sys_alloc :: "world \<Rightarrow> bool \<times> world" where
  "sys_alloc w = (let (ok, hp) = heap_alloc (w_heap w) in (ok, w\<lparr>w_heap := hp\<rparr>))"

definition sys_open :: "string option \<Rightarrow> world \<Rightarrow> int \<times> world" where
  "sys_open name w =
     (case name of
        None \<Rightarrow> (-1, w)
      | Some n \<Rightarrow>
          let (fd, rest) = (case w_opens w of [] \<Rightarrow> (3, []) | fd # rest \<Rightarrow> (fd, rest))
          in (fd, w\<lparr>w_opens := rest, w_log := w_log w @ [Ev_open n fd]\<rparr>))"

definition sys_close :: "int \<Rightarrow> world \<Rightarrow> world" where
  "sys_close fd w = w\<lparr>w_log := w_log w @ [Ev_close fd]\<rparr>"

definition sys_ioctl :: "int \<Rightarrow> ioc \<Rightarrow> world \<Rightarrow> reply \<times> world" where
  "sys_ioctl fd i w =
     (let (r, rest) = (case w_replies w of [] \<Rightarrow> (\<lparr>rp_ret = 0, rp_errno = 0, rp_out = None\<rparr>, [])
                       | r # rest \<Rightarrow> (r, rest))
      in (r, w\<lparr>w_replies := rest, w_log := w_log w @ [Ev_ioctl fd i]\<rparr>))"

text \<open>\<open>mpp_env_get_u32(name, &value, default)\<close>.\<close>

definition env_get_u32 :: "sys_env \<Rightarrow> string \<Rightarrow> u32 \<Rightarrow> u32" where
  "env_get_u32 env name dflt = (case se_getenv env name of None \<Rightarrow> dflt | Some v \<Rightarrow> v)"

text \<open>The requests the kernel was given on a descriptor, call by call.\<close>

fun mpp_calls :: "sys_event list \<Rightarrow> (int \<times> mpp_req list) list" where
  "mpp_calls [] = []"
| "mpp_calls (Ev_ioctl fd (Ioc_mpp rs) # es) = (fd, rs) # mpp_calls es"
| "mpp_calls (_ # es) = mpp_calls es"

lemma mpp_calls_append [simp]: "mpp_calls (xs @ ys) = mpp_calls xs @ mpp_calls ys"
  by (induction xs rule: mpp_calls.induct) auto

lemma sys_alloc_log: "sys_alloc w = (ok, w') \<Longrightarrow> w_log w' = w_log w \<and> w_replies w' = w_replies w \<and>
     w_opens w' = w_opens w \<and> w_mem w' = w_mem w"
  by (auto simp: sys_alloc_def split: prod.splits)

lemma sys_ioctl_log: "sys_ioctl fd i w = (r, w') \<Longrightarrow> w_log w' = w_log w @ [Ev_ioctl fd i] \<and>
     w_heap w' = w_heap w \<and> w_mem w' = w_mem w"
  by (auto simp: sys_ioctl_def split: prod.splits)

definition no_oom :: "world \<Rightarrow> bool" where
  "no_oom w \<longleftrightarrow> False \<notin> set (w_heap w)"

lemma no_oom_alloc:
  assumes "no_oom w" "sys_alloc w = (ok, w')"
  shows "ok \<and> no_oom w'"
  using assms by (cases "w_heap w") (auto simp: no_oom_def sys_alloc_def)

lemma no_oom_ioctl: "sys_ioctl fd i w = (r, w') \<Longrightarrow> no_oom w' = no_oom w"
  by (auto simp: no_oom_def sys_ioctl_def split: prod.splits)

section \<open>What the drivers share\<close>

text \<open>
  The structures of \<open>mpp_device.h\<close>: a register and its offset, an entry of codec information, a
  piece of the register file. An operation of a driver is a function of its context and the
  world, with \<^const>\<open>None\<close> for undefined behaviour.
\<close>

type_synonym reg_info = "u32 \<times> u32"

record dev_info =
  di_type :: u32
  di_flag :: u32
  di_data :: u64

record reg_cfg =
  rc_reg :: u64
  rc_size :: u32
  rc_offset :: u32

type_synonym 's dev_op = "'s \<Rightarrow> world \<Rightarrow> (mpp_ret \<times> 's \<times> world) option"

text \<open>
  The search for a register in a table: the index of its first entry.
\<close>

fun find_reg :: "u32 \<Rightarrow> reg_info list \<Rightarrow> nat \<Rightarrow> nat option" where
  "find_reg r [] i = None"
| "find_reg r ((r', _) # xs) i = (if r' = r then Some i else find_reg r xs (Suc i))"

lemma find_reg_None: "find_reg r xs i = None \<longleftrightarrow> r \<notin> fst ` set xs"
  by (induction r xs i rule: find_reg.induct) auto

lemma find_reg_upsert:
  "find_reg r xs i = Some k \<Longrightarrow> i \<le> k \<and> k - i < length xs \<and>
     xs[k - i := (fst (xs ! (k - i)), v)] = upsert r v xs \<and> r \<in> fst ` set xs"
proof (induction r xs i rule: find_reg.induct)
  case (2 r r' v' xs i)
  show ?case
  proof (cases "r' = r")
    case False
    with 2 have "Suc i \<le> k" "k - Suc i < length xs" "xs[k - Suc i := (fst (xs ! (k - Suc i)), v)] = upsert r v xs" by auto
    moreover have "k - i = Suc (k - Suc i)" using \<open>Suc i \<le> k\<close> by simp
    ultimately show ?thesis using False 2 by auto
  qed (use 2 in auto)
qed simp

fun run_ops :: "'s dev_op list \<Rightarrow> 's \<Rightarrow> world \<Rightarrow> ('s \<times> world) option" where
  "run_ops [] p w = Some (p, w)"
| "run_ops (f # fs) p w = do { (_, p, w) \<leftarrow> f p w; run_ops fs p w }"

end
