(* ===== verification/Mpp_Service.thy ===== *)
theory Mpp_Service
  imports Sys_World
begin

text \<open>
  The driver of the kernel's MPP service (\<open>osal/driver/mpp_service.c\<close>, \<open>mpp_service_impl.h\<close>): the
  commands a kernel supports, and a context that collects requests (register writes and reads,
  offsets, row buffers, codec information) until they are sent in one \<open>ioctl\<close>. An operation is a
  function of the context and the world; \<^const>\<open>None\<close> is undefined behaviour (a NULL dereference,
  a write out of bounds). The batch server (\<open>mpp_server.cpp\<close>) is a parameter.
\<close>

section \<open>Commands\<close>

definition MPP_CMD_QUERY_BASE :: u32 where "MPP_CMD_QUERY_BASE = 0"
definition MPP_CMD_PROBE_HW_SUPPORT :: u32 where "MPP_CMD_PROBE_HW_SUPPORT = 0"
definition MPP_CMD_QUERY_HW_ID :: u32 where "MPP_CMD_QUERY_HW_ID = 1"
definition MPP_CMD_QUERY_CMD_SUPPORT :: u32 where "MPP_CMD_QUERY_CMD_SUPPORT = 2"
definition MPP_CMD_INIT_BASE :: u32 where "MPP_CMD_INIT_BASE = 0x100"
definition MPP_CMD_INIT_CLIENT_TYPE :: u32 where "MPP_CMD_INIT_CLIENT_TYPE = 0x100"
definition MPP_CMD_INIT_TRANS_TABLE :: u32 where "MPP_CMD_INIT_TRANS_TABLE = 0x102"
definition MPP_CMD_SEND_BASE :: u32 where "MPP_CMD_SEND_BASE = 0x200"
definition MPP_CMD_SET_REG_WRITE :: u32 where "MPP_CMD_SET_REG_WRITE = 0x200"
definition MPP_CMD_SET_REG_READ :: u32 where "MPP_CMD_SET_REG_READ = 0x201"
definition MPP_CMD_SET_REG_ADDR_OFFSET :: u32 where "MPP_CMD_SET_REG_ADDR_OFFSET = 0x202"
definition MPP_CMD_SET_RCB_INFO :: u32 where "MPP_CMD_SET_RCB_INFO = 0x203"
definition MPP_CMD_SET_SESSION_FD :: u32 where "MPP_CMD_SET_SESSION_FD = 0x204"
definition MPP_CMD_POLL_BASE :: u32 where "MPP_CMD_POLL_BASE = 0x300"
definition MPP_CMD_POLL_HW_FINISH :: u32 where "MPP_CMD_POLL_HW_FINISH = 0x300"
definition MPP_CMD_POLL_HW_IRQ :: u32 where "MPP_CMD_POLL_HW_IRQ = 0x301"
definition MPP_CMD_CONTROL_BASE :: u32 where "MPP_CMD_CONTROL_BASE = 0x400"
definition MPP_CMD_RELEASE_FD :: u32 where "MPP_CMD_RELEASE_FD = 0x402"
definition MPP_CMD_SEND_CODEC_INFO :: u32 where "MPP_CMD_SEND_CODEC_INFO = 0x403"
definition MPP_CMD_SET_ERR_REF_HACK :: u32 where "MPP_CMD_SET_ERR_REF_HACK = 0x404"

lemmas cmd_defs = MPP_CMD_QUERY_BASE_def MPP_CMD_PROBE_HW_SUPPORT_def MPP_CMD_QUERY_HW_ID_def
  MPP_CMD_QUERY_CMD_SUPPORT_def MPP_CMD_INIT_BASE_def MPP_CMD_INIT_CLIENT_TYPE_def
  MPP_CMD_INIT_TRANS_TABLE_def MPP_CMD_SEND_BASE_def MPP_CMD_SET_REG_WRITE_def
  MPP_CMD_SET_REG_READ_def MPP_CMD_SET_REG_ADDR_OFFSET_def MPP_CMD_SET_RCB_INFO_def
  MPP_CMD_SET_SESSION_FD_def MPP_CMD_POLL_BASE_def MPP_CMD_POLL_HW_FINISH_def
  MPP_CMD_POLL_HW_IRQ_def MPP_CMD_CONTROL_BASE_def MPP_CMD_RELEASE_FD_def
  MPP_CMD_SEND_CODEC_INFO_def MPP_CMD_SET_ERR_REF_HACK_def

definition MPP_FLAGS_MULTI_MSG :: u32 where "MPP_FLAGS_MULTI_MSG = 0x00000001"
definition MPP_FLAGS_LAST_MSG :: u32 where "MPP_FLAGS_LAST_MSG = 0x00000002"
definition MPP_FLAGS_REG_OFFSET_ALONE :: u32 where "MPP_FLAGS_REG_OFFSET_ALONE = 0x00000010"

definition MAX_REQ_NUM :: nat where "MAX_REQ_NUM = 16"
definition MAX_REG_OFFSET :: nat where "MAX_REG_OFFSET = 64"
definition MAX_RCB_OFFSET :: nat where "MAX_RCB_OFFSET = 32"
definition MAX_INFO_COUNT :: nat where "MAX_INFO_COUNT = 16"

section \<open>Capabilities\<close>

record cmd_cap =
  cc_support_cmd :: u32
  cc_query_cmd :: u32
  cc_init_cmd :: u32
  cc_send_cmd :: u32
  cc_poll_cmd :: u32
  cc_ctrl_cmd :: u32

definition mpp_get_mpp_service_name :: "sys_env \<Rightarrow> string option" where
  "mpp_get_mpp_service_name env =
     (if se_access env ''/dev/mpp_service'' then Some ''/dev/mpp_service''
      else if se_access env ''/dev/mpp-service'' then Some ''/dev/mpp-service''
      else None)"

definition mpp_service_ioctl :: "int \<Rightarrow> u32 \<Rightarrow> u32 \<Rightarrow> data_ptr \<Rightarrow> world \<Rightarrow> reply \<times> world" where
  "mpp_service_ioctl fd cmd sz param w =
     sys_ioctl fd (Ioc_mpp [\<lparr>rq_cmd = cmd, rq_flag = 0, rq_size = sz, rq_offset = 0, rq_data = param\<rparr>]) w"

definition mpp_service_ioctl_request :: "int \<Rightarrow> mpp_req list \<Rightarrow> world \<Rightarrow> reply \<times> world" where
  "mpp_service_ioctl_request fd reqs w = sys_ioctl fd (Ioc_mpp reqs) w"

definition mpp_service_check_cmd_valid :: "u32 \<Rightarrow> cmd_cap \<Rightarrow> mpp_ret" where
  "mpp_service_check_cmd_valid cmd cap =
     (let found =
        (if cc_support_cmd cap > 0 then
           let found = (cmd < cc_query_cmd cap);
               found = (if cmd \<ge> MPP_CMD_INIT_BASE \<and> cmd < cc_init_cmd cap then True else found);
               found = (if cmd \<ge> MPP_CMD_SEND_BASE \<and> cmd < cc_send_cmd cap then True else found);
               found = (if cmd \<ge> MPP_CMD_POLL_BASE \<and> cmd < cc_poll_cmd cap then True else found);
               found = (if cmd \<ge> MPP_CMD_CONTROL_BASE \<and> cmd < cc_ctrl_cmd cap then True else found)
           in found
         else
           let found = False;
               found = (if cmd \<ge> MPP_CMD_INIT_BASE \<and> cmd \<le> MPP_CMD_INIT_TRANS_TABLE then True else found);
               found = (if cmd \<ge> MPP_CMD_SEND_BASE \<and> cmd \<le> MPP_CMD_SET_REG_ADDR_OFFSET then True else found);
               found = (if cmd \<ge> MPP_CMD_POLL_BASE \<and> cmd \<le> MPP_CMD_POLL_HW_FINISH then True else found);
               found = (if cmd \<ge> MPP_CMD_CONTROL_BASE \<and> cmd \<le> MPP_CMD_RELEASE_FD then True else found)
           in found)
      in if found then MPP_OK else MPP_NOK)"

definition query_cfg :: "(u32 \<times> string) list" where
  "query_cfg = [(MPP_CMD_QUERY_BASE, ''query_cmd''), (MPP_CMD_INIT_BASE, ''init_cmd''),
     (MPP_CMD_SEND_BASE, ''send_cmd''), (MPP_CMD_POLL_BASE, ''poll_cmd''),
     (MPP_CMD_CONTROL_BASE, ''control_cmd'')]"

text \<open>
  The loop over \<open>query_cfg\<close>: \<open>cmd_butt\<close> runs over the fields of the capability from \<open>query_cmd\<close>
  on, here the values of the fields in their order.
\<close>

fun query_loop :: "int \<Rightarrow> (u32 \<times> string) list \<Rightarrow> u32 list \<Rightarrow> world \<Rightarrow> u32 list \<times> world" where
  "query_loop fd ((butt, name) # cfgs) (v # vs) w =
     (let (r, w) = sys_ioctl fd (Ioc_mpp [zero_req\<lparr>rq_cmd := MPP_CMD_QUERY_CMD_SUPPORT, rq_data := P_val butt\<rparr>]) w;
          val = (case rp_out r of None \<Rightarrow> butt | Some x \<Rightarrow> x);
          (vs, w) = query_loop fd cfgs vs w
      in ((if rp_ret r \<noteq> 0 then v else val) # vs, w))"
| "query_loop fd _ vs w = (vs, w)"

text \<open>The loop over the client types: the ids found, in an array of 32.\<close>

fun hw_id_loop :: "sys_env \<Rightarrow> u32 \<Rightarrow> nat list \<Rightarrow> u32 list \<Rightarrow> world \<Rightarrow> u32 list \<times> world" where
  "hw_id_loop env hw_support [] hw_ids w = (hw_ids, w)"
| "hw_id_loop env hw_support (i # is) hw_ids w =
     (if hw_support AND push_bit i 1 \<noteq> 0 then
        let (fd, w) = sys_open (mpp_get_mpp_service_name env) w in
        (if fd < 0 then (hw_ids, w)
         else let (r, w) = mpp_service_ioctl fd MPP_CMD_INIT_CLIENT_TYPE 4 (P_val (of_nat i)) w;
                  val = (case rp_out r of None \<Rightarrow> of_nat i | Some x \<Rightarrow> x) in
           (if rp_ret r \<noteq> 0 then hw_id_loop env hw_support is hw_ids (sys_close fd w)
            else let (r, w) = mpp_service_ioctl fd MPP_CMD_QUERY_HW_ID 4 (P_val val) w;
                     val = (case rp_out r of None \<Rightarrow> val | Some x \<Rightarrow> x);
                     hw_ids = (if rp_ret r = 0 then hw_ids[i := val] else hw_ids)
                 in hw_id_loop env hw_support is hw_ids (sys_close fd w)))
      else hw_id_loop env hw_support is hw_ids w)"

text \<open>The capability is what the caller's structure holds before; the result is the codec types,
  the ids and the capability.\<close>

definition check_mpp_service_cap :: "sys_env \<Rightarrow> cmd_cap \<Rightarrow> world \<Rightarrow> (u32 \<times> u32 list \<times> cmd_cap) \<times> world" where
  "check_mpp_service_cap env cap w =
     (let hw_ids = replicate 32 0;
          (fd, w) = sys_open (mpp_get_mpp_service_name env) w in
      if fd < 0 then
        ((0, hw_ids, \<lparr>cc_support_cmd = 0, cc_query_cmd = 0, cc_init_cmd = 0, cc_send_cmd = 0,
                     cc_poll_cmd = 0, cc_ctrl_cmd = 0\<rparr>), w)
      else
        let (r, w) = mpp_service_ioctl fd MPP_CMD_PROBE_HW_SUPPORT 0 (P_val 0) w;
            hw_support = (case rp_out r of None \<Rightarrow> 0 | Some x \<Rightarrow> x);
            codec_type = (if rp_ret r = 0 then hw_support else 0);
            supp = (se_access env ''/proc/mpp_service/supports-cmd'' \<or> se_access env ''/proc/mpp_service/support_cmd'');
            cap = cap\<lparr>cc_support_cmd := if supp then 1 else 0\<rparr>;
            (cap, w) =
              (if supp then
                 (case query_loop fd query_cfg
                     [cc_query_cmd cap, cc_init_cmd cap, cc_send_cmd cap, cc_poll_cmd cap, cc_ctrl_cmd cap] w of
                    ([a, b, c, d, e], w) \<Rightarrow>
                      (cap\<lparr>cc_query_cmd := a, cc_init_cmd := b, cc_send_cmd := c, cc_poll_cmd := d, cc_ctrl_cmd := e\<rparr>, w)
                  | (_, w) \<Rightarrow> (cap, w))
               else (cap, w));
            w = sys_close fd w;
            (hw_ids, w) = hw_id_loop env hw_support [0..<32] hw_ids w
        in ((codec_type, hw_ids, cap), w))"

section \<open>The context\<close>

record bat_cmd =
  bc_flag :: u64
  bc_client :: int
  bc_ret :: int

text \<open>
  A buffer is the list of its entries in use, \<^const>\<open>None\<close> for a NULL pointer: \<open>reqs\<close> up to
  \<open>req_cnt\<close>, the offsets and the row buffers up to \<open>pos + count\<close>. The entries behind are never
  read before they are written.
\<close>

record svc =
  sv_client_type :: int
  sv_client :: int
  sv_server :: int
  sv_serv_ctx :: "int option"
  sv_batch_io :: bool
  sv_dev_cb :: "u64 option"
  sv_reqs :: "mpp_req list option"
  sv_req_max :: nat
  sv_offs :: "reg_info list option"
  sv_off_block :: nat
  sv_off_max :: nat
  sv_off_count :: nat
  sv_off_pos :: nat
  sv_rcbs :: "reg_info list option"
  sv_rcb_block :: nat
  sv_rcb_max :: nat
  sv_rcb_count :: nat
  sv_rcb_pos :: nat
  sv_bat_cmd :: bat_cmd
  sv_info_count :: nat
  sv_info :: "dev_info list"
  sv_cap :: cmd_cap
  sv_support_set_info :: bool
  sv_support_set_rcb_info :: bool
  sv_support_hw_irq :: bool

text \<open>
  The batch server, as the driver sees it: what attaching stores in the context, and sending and waiting.
  Its operations can fail to return (\<^const>\<open>None\<close>): \<open>send_task\<close> follows a null pointer when the session
  has no free task, \<open>wait_task\<close> when it waits for none.
\<close>

record batch_server =
  bs_attach :: "world \<Rightarrow> ((int option \<times> bool) \<times> world) option"
  bs_detach :: "world \<Rightarrow> world option"
  bs_send_task :: "mpp_req list \<Rightarrow> world \<Rightarrow> (int \<times> world) option"
  bs_wait_task :: "world \<Rightarrow> (int \<times> world) option"

definition sv_req_cnt :: "svc \<Rightarrow> nat" where
  "sv_req_cnt p = (case sv_reqs p of None \<Rightarrow> 0 | Some rs \<Rightarrow> length rs)"

section \<open>Room in the buffers\<close>

text \<open>
  A request for the next entry: whether there is one, the context with the entry taken and
  zeroed, the world. When the buffer cannot grow its pointer is lost.
\<close>

definition mpp_service_next_req :: "svc \<Rightarrow> world \<Rightarrow> bool \<times> svc \<times> world" where
  "mpp_service_next_req p w =
     (let (ok, p, w) =
        (if sv_req_cnt p \<ge> sv_req_max p then
           let (ok, w) = sys_alloc w in
           (if ok then (True, p\<lparr>sv_req_max := sv_req_max p * 2\<rparr>, w) else (False, p\<lparr>sv_reqs := None\<rparr>, w))
         else (sv_reqs p \<noteq> None, p, w))
      in if ok then (True, p\<lparr>sv_reqs := map_option (\<lambda>rs. rs @ [zero_req]) (sv_reqs p)\<rparr>, w) else (False, p, w))"

definition mpp_service_next_reg_offset :: "svc \<Rightarrow> world \<Rightarrow> bool \<times> svc \<times> world" where
  "mpp_service_next_reg_offset p w =
     (let (ok, p, w) =
        (if sv_off_count p + sv_off_pos p \<ge> sv_off_max p then
           let (ok, w) = sys_alloc w in
           (if ok then (True, p\<lparr>sv_off_max := sv_off_max p * 2, sv_off_block := Suc (sv_off_block p)\<rparr>, w)
            else (False, p\<lparr>sv_offs := None\<rparr>, w))
         else (sv_offs p \<noteq> None, p, w))
      in if ok then (True, p\<lparr>sv_offs := map_option (\<lambda>xs. xs @ [(0, 0)]) (sv_offs p),
                             sv_off_count := Suc (sv_off_count p)\<rparr>, w)
         else (False, p, w))"

definition mpp_service_next_rcb_info :: "svc \<Rightarrow> world \<Rightarrow> bool \<times> svc \<times> world" where
  "mpp_service_next_rcb_info p w =
     (let (ok, p, w) =
        (if sv_rcb_count p + sv_rcb_pos p \<ge> sv_rcb_max p then
           let (ok, w) = sys_alloc w in
           (if ok then (True, p\<lparr>sv_rcb_max := sv_rcb_max p * 2, sv_rcb_block := Suc (sv_rcb_block p)\<rparr>, w)
            else (False, p\<lparr>sv_rcbs := None\<rparr>, w))
         else (sv_rcbs p \<noteq> None, p, w))
      in if ok then (True, p\<lparr>sv_rcbs := map_option (\<lambda>xs. xs @ [(0, 0)]) (sv_rcbs p),
                             sv_rcb_count := Suc (sv_rcb_count p)\<rparr>, w)
         else (False, p, w))"

text \<open>Taking the next request and filling in all its fields.\<close>

definition set_last :: "'a \<Rightarrow> 'a list option \<Rightarrow> 'a list option" where
  "set_last x xs = map_option (\<lambda>xs. butlast xs @ [x]) xs"

definition push_req :: "mpp_req \<Rightarrow> svc \<Rightarrow> world \<Rightarrow> (svc \<times> world) option" where
  "push_req r p w =
     (case mpp_service_next_req p w of
        (False, _, _) \<Rightarrow> None
      | (True, p, w) \<Rightarrow> Some (p\<lparr>sv_reqs := set_last r (sv_reqs p)\<rparr>, w))"

section \<open>Life of a context\<close>

text \<open>\<open>type\<close> is passed to the kernel by address; the calls are in the order of the code.\<close>

definition mpp_service_init :: "sys_env \<Rightarrow> cmd_cap \<Rightarrow> int \<Rightarrow> svc \<Rightarrow> world \<Rightarrow> mpp_ret \<times> svc \<times> world" where
  "mpp_service_init env cap type p w =
     (let p = p\<lparr>sv_cap := cap\<rparr>;
          (fd, w) = sys_open (mpp_get_mpp_service_name env) w;
          p = p\<lparr>sv_client := fd\<rparr> in
      if fd < 0 then (MPP_NOK, p, w)
      else
        let (r, w) = mpp_service_ioctl fd MPP_CMD_INIT_CLIENT_TYPE 4 (P_val (word_of_int type)) w;
            ret = ret_of_int (rp_ret r);
            p = (if mpp_service_check_cmd_valid MPP_CMD_SEND_CODEC_INFO cap = MPP_OK
                 then p\<lparr>sv_support_set_info := True\<rparr> else p);
            p = (if mpp_service_check_cmd_valid MPP_CMD_SET_RCB_INFO cap = MPP_OK
                 then p\<lparr>sv_support_set_rcb_info := (env_get_u32 env ''disable_rcb_info'' 1 \<noteq> 0)\<rparr> else p);
            p = (if mpp_service_check_cmd_valid MPP_CMD_POLL_HW_IRQ cap = MPP_OK
                 then p\<lparr>sv_support_hw_irq := True\<rparr> else p);
            p = p\<lparr>sv_client_type := type, sv_server := fd, sv_batch_io := False, sv_serv_ctx := None,
                  sv_dev_cb := None, sv_bat_cmd := \<lparr>bc_flag = 0, bc_client = fd, bc_ret = 0\<rparr>,
                  sv_req_max := MAX_REQ_NUM\<rparr>;
            (ok, w) = sys_alloc w;
            p = p\<lparr>sv_reqs := if ok then Some [] else None\<rparr>;
            ret = (if ok then ret else MPP_ERR_MALLOC);
            p = p\<lparr>sv_off_max := MAX_REG_OFFSET\<rparr>;
            (ok, w) = sys_alloc w;
            p = p\<lparr>sv_offs := if ok then Some [] else None, sv_off_pos := 0, sv_off_count := 0\<rparr>;
            ret = (if ok then ret else MPP_ERR_MALLOC);
            p = p\<lparr>sv_rcb_max := MAX_RCB_OFFSET\<rparr>;
            (ok, w) = sys_alloc w;
            p = p\<lparr>sv_rcbs := if ok then Some [] else None, sv_rcb_pos := 0, sv_rcb_count := 0\<rparr>;
            ret = (if ok then ret else MPP_ERR_MALLOC)
        in (ret, p, w))"

definition mpp_service_deinit :: "batch_server \<Rightarrow> svc dev_op" where
  "mpp_service_deinit bs p w = do {
     w \<leftarrow> (if sv_batch_io p then bs_detach bs w else Some w);
     let w = (if sv_client p \<noteq> 0 then sys_close (sv_client p) w else w);
     Some (MPP_OK, p\<lparr>sv_reqs := None, sv_offs := None, sv_rcbs := None\<rparr>, w)
   }"

definition mpp_service_attach :: "batch_server \<Rightarrow> svc dev_op" where
  "mpp_service_attach bs p w =
     (if sv_req_cnt p \<noteq> 0 then Some (MPP_NOK, p, w)
      else if \<not> sv_batch_io p then do {
        ((serv, batch), w) \<leftarrow> bs_attach bs w;
        Some (MPP_OK, p\<lparr>sv_serv_ctx := serv, sv_batch_io := batch\<rparr>, w)
      }
      else Some (MPP_OK, p, w))"

definition mpp_service_detach :: "batch_server \<Rightarrow> svc dev_op" where
  "mpp_service_detach bs p w =
     (if sv_req_cnt p \<noteq> 0 then Some (MPP_NOK, p, w)
      else if sv_batch_io p then do {
        w \<leftarrow> bs_detach bs w;
        Some (MPP_OK, p\<lparr>sv_serv_ctx := None, sv_batch_io := False\<rparr>, w)
      }
      else Some (MPP_OK, p, w))"

definition mpp_service_set_cb_ctx :: "u64 option \<Rightarrow> svc dev_op" where
  "mpp_service_set_cb_ctx cb p w = Some (MPP_OK, p\<lparr>sv_dev_cb := cb\<rparr>, w)"

section \<open>Collecting requests\<close>

definition mpp_service_reg_wr :: "reg_cfg \<Rightarrow> svc dev_op" where
  "mpp_service_reg_wr cfg p w = do {
     (p, w) \<leftarrow> push_req \<lparr>rq_cmd = MPP_CMD_SET_REG_WRITE, rq_flag = 0, rq_size = rc_size cfg,
                         rq_offset = rc_offset cfg, rq_data = P_user (rc_reg cfg)\<rparr> p w;
     Some (MPP_OK, p, w)
   }"

definition mpp_service_reg_rd :: "reg_cfg \<Rightarrow> svc dev_op" where
  "mpp_service_reg_rd cfg p w = do {
     (p, w) \<leftarrow> push_req \<lparr>rq_cmd = MPP_CMD_SET_REG_READ, rq_flag = 0, rq_size = rc_size cfg,
                         rq_offset = rc_offset cfg, rq_data = P_user (rc_reg cfg)\<rparr> p w;
     Some (MPP_OK, p, w)
   }"

definition set_off :: "nat \<Rightarrow> u32 \<Rightarrow> svc \<Rightarrow> svc" where
  "set_off i off p = p\<lparr>sv_offs := map_option (\<lambda>xs. xs[i := (fst (xs ! i), off)]) (sv_offs p)\<rparr>"

definition mpp_service_reg_offset :: "reg_info \<Rightarrow> svc dev_op" where
  "mpp_service_reg_offset cfg p w =
     (if snd cfg = 0 then Some (MPP_OK, p, w)
      else if sv_off_count p \<ge> MAX_REG_OFFSET then Some (MPP_NOK, p, w)
      else if sv_offs p = None \<and> 0 < sv_off_count p then None
      else case find_reg (fst cfg) (drop (sv_off_pos p) (the (sv_offs p))) (sv_off_pos p) of
        Some i \<Rightarrow> Some (MPP_OK, set_off i (snd cfg) p, w)
      | None \<Rightarrow>
          (case mpp_service_next_reg_offset p w of
             (False, _, _) \<Rightarrow> None
           | (True, p, w) \<Rightarrow> Some (MPP_OK, p\<lparr>sv_offs := set_last cfg (sv_offs p)\<rparr>, w)))"

text \<open>
  \<open>reg_offsets\<close>: the \<open>continue\<close> in the search goes on with the search, so that every entry of the
  register is changed and the register is added all the same.
\<close>

definition cover_all :: "reg_info \<Rightarrow> svc \<Rightarrow> svc" where
  "cover_all cfg p =
     p\<lparr>sv_offs := map_option
        (\<lambda>xs. take (sv_off_pos p) xs @
              map (\<lambda>(r, off). if r = fst cfg then (r, snd cfg) else (r, off)) (drop (sv_off_pos p) xs))
        (sv_offs p)\<rparr>"

fun offsets_loop :: "reg_info list \<Rightarrow> svc \<Rightarrow> world \<Rightarrow> (svc \<times> world) option" where
  "offsets_loop [] p w = Some (p, w)"
| "offsets_loop (cfg # cfgs) p w =
     (if sv_offs p = None \<and> 0 < sv_off_count p then None
      else case mpp_service_next_reg_offset (cover_all cfg p) w of
        (False, _, _) \<Rightarrow> None
      | (True, p, w) \<Rightarrow> offsets_loop cfgs (p\<lparr>sv_offs := set_last cfg (sv_offs p)\<rparr>) w)"

text \<open>The structure \<open>MppDevRegOffCfgs\<close>: its size, and the entries up to \<open>count\<close>.\<close>

record off_cfgs =
  oc_size :: int
  oc_cfgs :: "reg_info list"

definition mpp_service_reg_offsets :: "off_cfgs \<Rightarrow> svc dev_op" where
  "mpp_service_reg_offsets cfgs p w =
     (if oc_cfgs cfgs = [] then Some (MPP_OK, p, w)
      else if sv_off_count p \<ge> MAX_REG_OFFSET \<or> sv_off_count p + length (oc_cfgs cfgs) \<ge> MAX_REG_OFFSET
      then Some (MPP_NOK, p, w)
      else do {
        (p, w) \<leftarrow> offsets_loop (oc_cfgs cfgs) p w;
        Some (MPP_OK, p, w)
      })"

definition mpp_service_rcb_info :: "reg_info \<Rightarrow> svc dev_op" where
  "mpp_service_rcb_info cfg p w =
     (if \<not> sv_support_set_rcb_info p then Some (MPP_OK, p, w)
      else if sv_rcb_count p \<ge> MAX_RCB_OFFSET then Some (MPP_NOK, p, w)
      else case mpp_service_next_rcb_info p w of
        (False, _, _) \<Rightarrow> None
      | (True, p, w) \<Rightarrow> Some (MPP_OK, p\<lparr>sv_rcbs := set_last cfg (sv_rcbs p)\<rparr>, w))"

text \<open>\<open>info\<close> has 16 entries; the entries behind \<open>info_count\<close> are not read.\<close>

definition mpp_service_set_info :: "dev_info \<Rightarrow> svc dev_op" where
  "mpp_service_set_info cfg p w =
     (if \<not> sv_support_set_info p then Some (MPP_OK, p, w)
      else if sv_info_count p \<ge> MAX_INFO_COUNT then None
      else Some (MPP_OK, p\<lparr>sv_info := take (sv_info_count p) (sv_info p) @ [cfg],
                           sv_info_count := Suc (sv_info_count p)\<rparr>, w))"

definition mpp_service_set_err_ref_hack :: "u64 \<Rightarrow> svc dev_op" where
  "mpp_service_set_err_ref_hack enable p w =
     (let (r, w) = mpp_service_ioctl_request (sv_client p)
        [\<lparr>rq_cmd = MPP_CMD_SET_ERR_REF_HACK, rq_flag = MPP_FLAGS_LAST_MSG, rq_size = 4, rq_offset = 0,
          rq_data = P_user enable\<rparr>] w
      in Some (ret_of_int (rp_ret r), p, w))"

section \<open>Sending and waiting\<close>

text \<open>The requests for the offsets and the row buffers that are not sent yet.\<close>

definition off_req :: "svc \<Rightarrow> mpp_req" where
  "off_req p = \<lparr>rq_cmd = MPP_CMD_SET_REG_ADDR_OFFSET, rq_flag = MPP_FLAGS_REG_OFFSET_ALONE,
     rq_size = of_nat (sv_off_count p * 8), rq_offset = 0, rq_data = P_offsets (sv_off_block p) (sv_off_pos p)\<rparr>"

definition rcb_req :: "svc \<Rightarrow> mpp_req" where
  "rcb_req p = \<lparr>rq_cmd = MPP_CMD_SET_RCB_INFO, rq_flag = 0, rq_size = of_nat (sv_rcb_count p * 8),
     rq_offset = 0, rq_data = P_rcb (sv_rcb_block p) (sv_rcb_pos p)\<rparr>"

definition flush_offs :: "bool \<Rightarrow> svc \<Rightarrow> world \<Rightarrow> (svc \<times> world) option" where
  "flush_offs reset p w =
     (if sv_off_count p \<noteq> 0 then do {
        (q, w) \<leftarrow> push_req (off_req p) p w;
        Some (q\<lparr>sv_off_pos := sv_off_pos q + sv_off_count q,
                sv_off_count := if reset then 0 else sv_off_count q\<rparr>, w)
      } else Some (p, w))"

definition flush_rcbs :: "bool \<Rightarrow> svc \<Rightarrow> world \<Rightarrow> (svc \<times> world) option" where
  "flush_rcbs reset p w =
     (if sv_rcb_count p \<noteq> 0 then do {
        (q, w) \<leftarrow> push_req (rcb_req p) p w;
        Some (q\<lparr>sv_rcb_pos := sv_rcb_pos q + sv_rcb_count q,
                sv_rcb_count := if reset then 0 else sv_rcb_count q\<rparr>, w)
      } else Some (p, w))"

definition mpp_service_delimit :: "svc dev_op" where
  "mpp_service_delimit p w = do {
     (p, w) \<leftarrow> flush_offs True p w;
     (p, w) \<leftarrow> flush_rcbs True p w;
     (p, w) \<leftarrow> push_req \<lparr>rq_cmd = MPP_CMD_SET_SESSION_FD, rq_flag = MPP_FLAGS_MULTI_MSG, rq_size = 16,
                         rq_offset = 0, rq_data = P_bat\<rparr> p w;
     Some (MPP_OK, p, w)
   }"

definition send_info :: "svc \<Rightarrow> world \<Rightarrow> svc \<times> world" where
  "send_info p w =
     (if sv_info_count p \<noteq> 0 then
        let (p, w) =
          (if sv_support_set_info p then
             let (r, w) = mpp_service_ioctl_request (sv_client p)
               [\<lparr>rq_cmd = MPP_CMD_SEND_CODEC_INFO, rq_flag = MPP_FLAGS_LAST_MSG,
                 rq_size = of_nat (sv_info_count p * 16), rq_offset = 0, rq_data = P_info\<rparr>] w
             in ((if rp_ret r \<noteq> 0 then p\<lparr>sv_support_set_info := False\<rparr> else p), w)
           else (p, w))
        in (p\<lparr>sv_info_count := 0\<rparr>, w)
      else (p, w))"

text \<open>The flags of a chain of requests.\<close>

definition or_flag :: "u32 \<Rightarrow> mpp_req \<Rightarrow> mpp_req" where
  "or_flag f r = r\<lparr>rq_flag := rq_flag r OR f\<rparr>"

definition set_flags :: "mpp_req list \<Rightarrow> mpp_req list" where
  "set_flags rs =
     (let rs = (if length rs > 1 then map (or_flag MPP_FLAGS_MULTI_MSG) rs else rs)
      in butlast rs @ [or_flag (MPP_FLAGS_LAST_MSG OR MPP_FLAGS_REG_OFFSET_ALONE) (last rs)])"

definition clear_reqs :: "svc \<Rightarrow> svc" where
  "clear_reqs p =
     p\<lparr>sv_reqs := map_option (\<lambda>_. []) (sv_reqs p),
       sv_offs := map_option (\<lambda>_. []) (sv_offs p), sv_off_count := 0, sv_off_pos := 0,
       sv_rcbs := map_option (\<lambda>_. []) (sv_rcbs p), sv_rcb_count := 0, sv_rcb_pos := 0\<rparr>"

definition mpp_service_cmd_send :: "batch_server \<Rightarrow> svc dev_op" where
  "mpp_service_cmd_send bs p w =
     (if sv_req_cnt p = 0 \<or> sv_req_cnt p > sv_req_max p then Some (MPP_ERR_VALUE, p, w)
      else let (p, w) = send_info p w in do {
        (p, w) \<leftarrow> flush_offs False p w;
        (p, w) \<leftarrow> flush_rcbs False p w;
        let rs = set_flags (the (sv_reqs p));
        (ret, w) \<leftarrow>
          (if sv_batch_io p then do { (r, w) \<leftarrow> bs_send_task bs rs w; Some (ret_of_int r, w) }
           else let (r, w) = mpp_service_ioctl_request (sv_server p) rs w
                in Some (if rp_ret r \<noteq> 0 then ret_of_int (rp_errno r) else MPP_OK, w));
        Some (ret, clear_reqs p, w)
      })"

text \<open>The configuration of a poll: where it is, and its fields; \<open>slices\<close> are the 32-bit values.\<close>

record poll_cfg =
  pc_addr :: u64
  pc_count_max :: int
  pc_count_ret :: int
  pc_slices :: "u32 list"

definition mpp_service_cmd_poll ::
  "batch_server \<Rightarrow> poll_cfg option \<Rightarrow> svc \<Rightarrow> world \<Rightarrow> (mpp_ret \<times> poll_cfg option \<times> svc \<times> world) option" where
  "mpp_service_cmd_poll bs cfg p w =
     (if sv_batch_io p then do { (r, w) \<leftarrow> bs_wait_task bs w; Some (ret_of_int r, cfg, p, w) }
      else do {
        (dev_req, cfg) \<leftarrow>
          (case cfg of
             Some c \<Rightarrow>
               if sv_support_hw_irq p then
                 Some (\<lparr>rq_cmd = MPP_CMD_POLL_HW_IRQ, rq_flag = MPP_FLAGS_LAST_MSG OR MPP_FLAGS_REG_OFFSET_ALONE,
                        rq_size = word_of_int (16 + pc_count_max c * 4), rq_offset = 0,
                        rq_data = P_user (pc_addr c)\<rparr>, cfg)
               else if pc_count_max c = 0 then
                 Some (zero_req\<lparr>rq_cmd := MPP_CMD_POLL_HW_FINISH,
                        rq_flag := MPP_FLAGS_LAST_MSG OR MPP_FLAGS_REG_OFFSET_ALONE\<rparr>, cfg)
               else if pc_slices c = [] then None
               else Some (zero_req\<lparr>rq_cmd := MPP_CMD_POLL_HW_FINISH,
                        rq_flag := MPP_FLAGS_LAST_MSG OR MPP_FLAGS_REG_OFFSET_ALONE\<rparr>,
                      Some (c\<lparr>pc_count_ret := 1, pc_slices := (pc_slices c)[0 := push_bit 31 1]\<rparr>))
           | None \<Rightarrow>
               Some (zero_req\<lparr>rq_cmd := MPP_CMD_POLL_HW_FINISH,
                      rq_flag := MPP_FLAGS_LAST_MSG OR MPP_FLAGS_REG_OFFSET_ALONE\<rparr>, cfg));
        let (r, w) = mpp_service_ioctl_request (sv_server p) [dev_req] w;
        Some (if rp_ret r \<noteq> 0 then ret_of_int (rp_errno r) else MPP_OK, cfg, p, w)
      })"


section \<open>Invariant\<close>

definition svc_inv :: "svc \<Rightarrow> bool" where
  "svc_inv p \<longleftrightarrow>
     (\<exists>rs. sv_reqs p = Some rs \<and> length rs \<le> sv_req_max p) \<and> MAX_REQ_NUM \<le> sv_req_max p \<and>
     (\<exists>xs. sv_offs p = Some xs \<and> length xs = sv_off_pos p + sv_off_count p \<and> length xs \<le> sv_off_max p) \<and>
     MAX_REG_OFFSET \<le> sv_off_max p \<and> sv_off_count p \<le> MAX_REG_OFFSET \<and>
     (\<exists>ys. sv_rcbs p = Some ys \<and> length ys = sv_rcb_pos p + sv_rcb_count p \<and> length ys \<le> sv_rcb_max p) \<and>
     MAX_RCB_OFFSET \<le> sv_rcb_max p \<and> sv_rcb_count p \<le> MAX_RCB_OFFSET \<and>
     sv_info_count p \<le> MAX_INFO_COUNT"

text \<open>The part of it that also holds within a send.\<close>

definition svc_live :: "svc \<Rightarrow> bool" where
  "svc_live p \<longleftrightarrow> (\<exists>rs. sv_reqs p = Some rs \<and> length rs \<le> sv_req_max p) \<and> MAX_REQ_NUM \<le> sv_req_max p \<and>
     sv_offs p \<noteq> None \<and> MAX_REG_OFFSET \<le> sv_off_max p \<and> sv_rcbs p \<noteq> None \<and> MAX_RCB_OFFSET \<le> sv_rcb_max p \<and>
     sv_info_count p \<le> MAX_INFO_COUNT"

lemma inv_live: "svc_inv p \<Longrightarrow> svc_live p"
  by (auto simp: svc_inv_def svc_live_def)

named_theorems svc_ok

lemmas svc_limits = MAX_REQ_NUM_def MAX_REG_OFFSET_def MAX_RCB_OFFSET_def MAX_INFO_COUNT_def

lemma push_req_ok:
  assumes "svc_live p" "no_oom w"
  obtains m w' where "push_req r p w = Some (p\<lparr>sv_reqs := map_option (\<lambda>rs. rs @ [r]) (sv_reqs p), sv_req_max := m\<rparr>, w')"
    "sv_req_cnt p < m" "sv_req_max p \<le> m" "no_oom w'" "w_log w' = w_log w" "w_replies w' = w_replies w"
proof -
  obtain rs where rs: "sv_reqs p = Some rs" "sv_req_cnt p = length rs" "length rs \<le> sv_req_max p" "0 < sv_req_max p"
    using assms(1) by (auto simp: svc_live_def svc_limits sv_req_cnt_def)
  show thesis
  proof (cases "sv_req_cnt p \<ge> sv_req_max p")
    case True
    obtain w' where w': "sys_alloc w = (True, w')" "no_oom w'"
      using no_oom_alloc [OF assms(2)] by (metis prod.collapse)
    show thesis
      by (rule that [where m = "sv_req_max p * 2" and w' = w'])
        (use True rs w' sys_alloc_log [OF w'(1)] in \<open>auto simp: push_req_def mpp_service_next_req_def set_last_def\<close>)
  next
    case False
    show thesis
      by (rule that [where m = "sv_req_max p" and w' = w])
        (use False rs assms(2) in \<open>auto simp: push_req_def mpp_service_next_req_def set_last_def\<close>)
  qed
qed

lemma next_reg_offset_ok:
  assumes "svc_inv p" "no_oom w"
  obtains m b w' where "mpp_service_next_reg_offset p w =
      (True, p\<lparr>sv_offs := map_option (\<lambda>xs. xs @ [(0, 0)]) (sv_offs p), sv_off_count := Suc (sv_off_count p),
               sv_off_max := m, sv_off_block := b\<rparr>, w')"
    "sv_off_pos p + sv_off_count p < m" "sv_off_max p \<le> m" "no_oom w'" "w_log w' = w_log w" "w_replies w' = w_replies w"
    "b = (if sv_off_count p + sv_off_pos p \<ge> sv_off_max p then Suc (sv_off_block p) else sv_off_block p)"
proof -
  obtain xs where xs: "sv_offs p = Some xs" "length xs = sv_off_pos p + sv_off_count p" "length xs \<le> sv_off_max p" "0 < sv_off_max p"
    using assms(1) by (auto simp: svc_inv_def svc_limits)
  show thesis
  proof (cases "sv_off_count p + sv_off_pos p \<ge> sv_off_max p")
    case True
    obtain w' where w': "sys_alloc w = (True, w')" "no_oom w'"
      using no_oom_alloc [OF assms(2)] by (metis prod.collapse)
    show thesis
      by (rule that [where m = "sv_off_max p * 2" and b = "Suc (sv_off_block p)" and w' = w'])
        (use True xs w' sys_alloc_log [OF w'(1)] in \<open>auto simp: mpp_service_next_reg_offset_def\<close>)
  next
    case False
    show thesis
      by (rule that [where m = "sv_off_max p" and b = "sv_off_block p" and w' = w])
        (use False xs assms(2) in \<open>auto simp: mpp_service_next_reg_offset_def\<close>)
  qed
qed

lemma next_rcb_info_ok:
  assumes "svc_inv p" "no_oom w"
  obtains m b w' where "mpp_service_next_rcb_info p w =
      (True, p\<lparr>sv_rcbs := map_option (\<lambda>xs. xs @ [(0, 0)]) (sv_rcbs p), sv_rcb_count := Suc (sv_rcb_count p),
               sv_rcb_max := m, sv_rcb_block := b\<rparr>, w')"
    "sv_rcb_pos p + sv_rcb_count p < m" "sv_rcb_max p \<le> m" "no_oom w'" "w_log w' = w_log w" "w_replies w' = w_replies w"
    "b = (if sv_rcb_count p + sv_rcb_pos p \<ge> sv_rcb_max p then Suc (sv_rcb_block p) else sv_rcb_block p)"
proof -
  obtain xs where xs: "sv_rcbs p = Some xs" "length xs = sv_rcb_pos p + sv_rcb_count p" "length xs \<le> sv_rcb_max p" "0 < sv_rcb_max p"
    using assms(1) by (auto simp: svc_inv_def svc_limits)
  show thesis
  proof (cases "sv_rcb_count p + sv_rcb_pos p \<ge> sv_rcb_max p")
    case True
    obtain w' where w': "sys_alloc w = (True, w')" "no_oom w'"
      using no_oom_alloc [OF assms(2)] by (metis prod.collapse)
    show thesis
      by (rule that [where m = "sv_rcb_max p * 2" and b = "Suc (sv_rcb_block p)" and w' = w'])
        (use True xs w' sys_alloc_log [OF w'(1)] in \<open>auto simp: mpp_service_next_rcb_info_def\<close>)
  next
    case False
    show thesis
      by (rule that [where m = "sv_rcb_max p" and b = "sv_rcb_block p" and w' = w])
        (use False xs assms(2) in \<open>auto simp: mpp_service_next_rcb_info_def\<close>)
  qed
qed

text \<open>An operation that keeps the invariant and never runs out of its buffers.\<close>

definition keeps :: "svc dev_op \<Rightarrow> svc \<Rightarrow> bool" where
  "keeps f p \<longleftrightarrow> (\<forall>w. svc_inv p \<longrightarrow> no_oom w \<longrightarrow> (\<exists>ret p' w'. f p w = Some (ret, p', w') \<and> svc_inv p' \<and> no_oom w'))"

lemma keepsI:
  "(\<And>w. svc_inv p \<Longrightarrow> no_oom w \<Longrightarrow> \<exists>ret p' w'. f p w = Some (ret, p', w') \<and> svc_inv p' \<and> no_oom w') \<Longrightarrow> keeps f p"
  by (simp add: keeps_def)

lemma push_keeps:
  assumes "svc_inv p" "no_oom w"
  shows "\<exists>p' w'. push_req r p w = Some (p', w') \<and> svc_inv p' \<and> no_oom w'"
proof -
  obtain m w' where "push_req r p w = Some (p\<lparr>sv_reqs := map_option (\<lambda>rs. rs @ [r]) (sv_reqs p), sv_req_max := m\<rparr>, w')"
    "sv_req_cnt p < m" "sv_req_max p \<le> m" "no_oom w'" by (rule push_req_ok [OF inv_live [OF assms(1)] assms(2)]) blast
  moreover have "svc_inv (p\<lparr>sv_reqs := map_option (\<lambda>rs. rs @ [r]) (sv_reqs p), sv_req_max := m\<rparr>)"
    using assms(1) calculation(2,3) by (auto simp: svc_inv_def sv_req_cnt_def)
  ultimately show ?thesis by blast
qed

lemma push_op_keeps: "keeps (\<lambda>p w. do { (p, w) \<leftarrow> push_req r p w; Some (MPP_OK, p, w) }) p"
proof (rule keepsI)
  fix w assume "svc_inv p" "no_oom w"
  then obtain p' w' where "push_req r p w = Some (p', w')" "svc_inv p'" "no_oom w'"
    using push_keeps by metis
  then show "\<exists>ret p' w'. (do { (p, w) \<leftarrow> push_req r p w; Some (MPP_OK, p, w) }) = Some (ret, p', w') \<and>
      svc_inv p' \<and> no_oom w'" by simp
qed

lemma reg_keeps [svc_ok]: "keeps (mpp_service_reg_wr cfg) p" "keeps (mpp_service_reg_rd cfg) p"
  using push_op_keeps by (simp_all add: keeps_def mpp_service_reg_wr_def mpp_service_reg_rd_def)

lemma set_off_inv: "svc_inv p \<Longrightarrow> svc_inv (set_off i off p)"
  by (auto simp: svc_inv_def set_off_def)

lemma grow_offs_inv:
  assumes "svc_inv p" "sv_off_count p < MAX_REG_OFFSET" "sv_off_pos p + sv_off_count p < m" "sv_off_max p \<le> m"
  shows "svc_inv (p\<lparr>sv_off_count := Suc (sv_off_count p), sv_off_max := m, sv_off_block := b,
               sv_offs := set_last cfg (map_option (\<lambda>xs. xs @ [z]) (sv_offs p))\<rparr>)"
  using assms by (auto simp: svc_inv_def set_last_def)

lemma reg_offset_keeps [svc_ok]: "keeps (mpp_service_reg_offset cfg) p"
proof (rule keepsI)
  fix w assume p: "svc_inv p" "no_oom w"
  obtain m b w' where n: "mpp_service_next_reg_offset p w =
      (True, p\<lparr>sv_offs := map_option (\<lambda>xs. xs @ [(0, 0)]) (sv_offs p), sv_off_count := Suc (sv_off_count p),
               sv_off_max := m, sv_off_block := b\<rparr>, w')"
    "sv_off_pos p + sv_off_count p < m" "sv_off_max p \<le> m" "no_oom w'" by (rule next_reg_offset_ok [OF p]) blast
  obtain xs where "sv_offs p = Some xs" using p(1) by (auto simp: svc_inv_def)
  then show "\<exists>ret p' w'. mpp_service_reg_offset cfg p w = Some (ret, p', w') \<and> svc_inv p' \<and> no_oom w'"
    using p n grow_offs_inv [OF p(1) _ n(2,3), where b = b and cfg = cfg and z = "(0, 0)"] set_off_inv [OF p(1)]
    by (auto simp: mpp_service_reg_offset_def split: option.splits)
qed

lemma cover_all_inv: "svc_inv p \<Longrightarrow> svc_inv (cover_all cfg p)"
  by (auto simp: svc_inv_def cover_all_def)

lemma offsets_loop_keeps:
  assumes "svc_inv p" "no_oom w" "sv_off_count p + length cfgs < MAX_REG_OFFSET"
  shows "\<exists>p' w'. offsets_loop cfgs p w = Some (p', w') \<and> svc_inv p' \<and> no_oom w'"
  using assms
proof (induction cfgs arbitrary: p w)
  case (Cons cfg cfgs)
  let ?p = "cover_all cfg p"
  have c: "svc_inv ?p" "sv_off_count ?p = sv_off_count p" "sv_offs p \<noteq> None"
    using Cons.prems(1) cover_all_inv by (auto simp: cover_all_def svc_inv_def)
  obtain m b w' where n: "mpp_service_next_reg_offset ?p w =
      (True, ?p\<lparr>sv_offs := map_option (\<lambda>xs. xs @ [(0, 0)]) (sv_offs ?p), sv_off_count := Suc (sv_off_count ?p),
               sv_off_max := m, sv_off_block := b\<rparr>, w')"
    "sv_off_pos ?p + sv_off_count ?p < m" "sv_off_max ?p \<le> m" "no_oom w'"
    by (rule next_reg_offset_ok [OF c(1) Cons.prems(2)]) blast
  have "svc_inv (?p\<lparr>sv_off_count := Suc (sv_off_count ?p), sv_off_max := m, sv_off_block := b,
      sv_offs := set_last cfg (map_option (\<lambda>xs. xs @ [(0, 0)]) (sv_offs ?p))\<rparr>)"
    by (rule grow_offs_inv [OF c(1) _ n(2,3)]) (use Cons.prems(3) c(2) in simp)
  from Cons.IH [OF this n(4)] n(1) c Cons.prems(3) show ?case by auto
qed simp

lemma reg_offsets_keeps [svc_ok]: "keeps (mpp_service_reg_offsets cfgs) p"
proof (rule keepsI)
  fix w assume p: "svc_inv p" "no_oom w"
  show "\<exists>ret p' w'. mpp_service_reg_offsets cfgs p w = Some (ret, p', w') \<and> svc_inv p' \<and> no_oom w'"
    using p offsets_loop_keeps [OF p, of "oc_cfgs cfgs"] by (auto simp: mpp_service_reg_offsets_def)
qed

lemma rcb_info_keeps [svc_ok]: "keeps (mpp_service_rcb_info cfg) p"
proof (rule keepsI)
  fix w assume p: "svc_inv p" "no_oom w"
  obtain m b w' where n: "mpp_service_next_rcb_info p w =
      (True, p\<lparr>sv_rcbs := map_option (\<lambda>xs. xs @ [(0, 0)]) (sv_rcbs p), sv_rcb_count := Suc (sv_rcb_count p),
               sv_rcb_max := m, sv_rcb_block := b\<rparr>, w')"
    "sv_rcb_pos p + sv_rcb_count p < m" "sv_rcb_max p \<le> m" "no_oom w'" by (rule next_rcb_info_ok [OF p]) blast
  then show "\<exists>ret p' w'. mpp_service_rcb_info cfg p w = Some (ret, p', w') \<and> svc_inv p' \<and> no_oom w'"
    using p by (auto simp: mpp_service_rcb_info_def svc_inv_def set_last_def)
qed

lemma set_info_keeps [svc_ok]: "sv_info_count p < MAX_INFO_COUNT \<Longrightarrow> keeps (mpp_service_set_info cfg) p"
  by (rule keepsI) (auto simp: mpp_service_set_info_def svc_inv_def)

lemma hack_keeps [svc_ok]: "keeps (mpp_service_set_err_ref_hack e) p" "keeps (mpp_service_set_cb_ctx cb) p"
  by (rule keepsI; auto simp: mpp_service_set_err_ref_hack_def mpp_service_set_cb_ctx_def svc_inv_def
      mpp_service_ioctl_request_def no_oom_ioctl Let_def split: prod.splits)+

lemma flush_offs_ok:
  assumes "svc_live p" "no_oom w"
  obtains m w' where "flush_offs reset p w = Some
      (if sv_off_count p = 0 then p
       else p\<lparr>sv_reqs := map_option (\<lambda>rs. rs @ [off_req p]) (sv_reqs p), sv_req_max := m,
              sv_off_pos := sv_off_pos p + sv_off_count p, sv_off_count := if reset then 0 else sv_off_count p\<rparr>, w')"
    "sv_req_cnt p < m" "sv_req_max p \<le> m" "no_oom w'" "w_log w' = w_log w" "w_replies w' = w_replies w"
proof (cases "sv_off_count p = 0")
  case True
  show thesis
    by (rule that [where m = "Suc (sv_req_cnt p + sv_req_max p)" and w' = w]) (use True assms in \<open>simp_all add: flush_offs_def\<close>)
next
  case False
  then show thesis using push_req_ok [OF assms, of "off_req p" thesis] that
    by (fastforce simp: flush_offs_def)
qed

lemma flush_rcbs_ok:
  assumes "svc_live p" "no_oom w"
  obtains m w' where "flush_rcbs reset p w = Some
      (if sv_rcb_count p = 0 then p
       else p\<lparr>sv_reqs := map_option (\<lambda>rs. rs @ [rcb_req p]) (sv_reqs p), sv_req_max := m,
              sv_rcb_pos := sv_rcb_pos p + sv_rcb_count p, sv_rcb_count := if reset then 0 else sv_rcb_count p\<rparr>, w')"
    "sv_req_cnt p < m" "sv_req_max p \<le> m" "no_oom w'" "w_log w' = w_log w" "w_replies w' = w_replies w"
proof (cases "sv_rcb_count p = 0")
  case True
  show thesis
    by (rule that [where m = "Suc (sv_req_cnt p + sv_req_max p)" and w' = w]) (use True assms in \<open>simp_all add: flush_rcbs_def\<close>)
next
  case False
  then show thesis using push_req_ok [OF assms, of "rcb_req p" thesis] that
    by (fastforce simp: flush_rcbs_def)
qed

lemma delimit_keeps [svc_ok]: "keeps mpp_service_delimit p"
proof (rule keepsI)
  fix w assume p: "svc_inv p" "no_oom w"
  obtain m w1 where f: "flush_offs True p w = Some
      (if sv_off_count p = 0 then p
       else p\<lparr>sv_reqs := map_option (\<lambda>rs. rs @ [off_req p]) (sv_reqs p), sv_req_max := m,
              sv_off_pos := sv_off_pos p + sv_off_count p, sv_off_count := if True then 0 else sv_off_count p\<rparr>, w1)"
    (is "_ = Some (?q, _)") "sv_req_cnt p < m" "sv_req_max p \<le> m" "no_oom w1"
    by (rule flush_offs_ok [OF inv_live [OF p(1)] p(2)]) blast
  have q: "svc_inv ?q" using p(1) f(2,3) by (auto simp: svc_inv_def sv_req_cnt_def)
  obtain m' w2 where g: "flush_rcbs True ?q w1 = Some
      (if sv_rcb_count ?q = 0 then ?q
       else ?q\<lparr>sv_reqs := map_option (\<lambda>rs. rs @ [rcb_req ?q]) (sv_reqs ?q), sv_req_max := m',
              sv_rcb_pos := sv_rcb_pos ?q + sv_rcb_count ?q, sv_rcb_count := if True then 0 else sv_rcb_count ?q\<rparr>, w2)"
    (is "_ = Some (?r, _)") "sv_req_cnt ?q < m'" "sv_req_max ?q \<le> m'" "no_oom w2"
    by (rule flush_rcbs_ok [OF inv_live [OF q] f(4)]) blast
  have r: "svc_inv ?r" using q g(2,3) by (auto simp: svc_inv_def sv_req_cnt_def)
  show "\<exists>ret p' w'. mpp_service_delimit p w = Some (ret, p', w') \<and> svc_inv p' \<and> no_oom w'"
  proof -
    obtain p3 w3 where h: "push_req \<lparr>rq_cmd = MPP_CMD_SET_SESSION_FD, rq_flag = MPP_FLAGS_MULTI_MSG, rq_size = 16,
        rq_offset = 0, rq_data = P_bat\<rparr> ?r w2 = Some (p3, w3)" "svc_inv p3" "no_oom w3"
      using push_keeps [OF r g(4)] by blast
    have "mpp_service_delimit p w = Some (MPP_OK, p3, w3)"
      by (simp only: mpp_service_delimit_def f(1) g(1) h(1) Option.bind_lunit prod.case)
    then show ?thesis using h by blast
  qed
qed

text \<open>While there is memory, attaching to the batch server and detaching return, and do not use up the memory.\<close>

definition bs_ok :: "batch_server \<Rightarrow> bool" where
  "bs_ok bs \<longleftrightarrow> (\<forall>w. no_oom w \<longrightarrow> (\<exists>x w'. bs_attach bs w = Some (x, w') \<and> no_oom w') \<and>
     (\<exists>w'. bs_detach bs w = Some w' \<and> no_oom w'))"

lemma clear_inv: "svc_live p \<Longrightarrow> svc_inv (clear_reqs p)"
  by (auto simp: svc_live_def svc_inv_def clear_reqs_def)

lemma send_info_ok:
  assumes "send_info p w = (p', w')"
  shows "\<exists>b. p' = p\<lparr>sv_support_set_info := b, sv_info_count := 0\<rparr>" "no_oom w' = no_oom w"
proof -
  show "\<exists>b. p' = p\<lparr>sv_support_set_info := b, sv_info_count := 0\<rparr>"
    using assms by (cases p) (auto simp: send_info_def Let_def split: prod.splits if_splits)
  show "no_oom w' = no_oom w"
    using assms by (auto simp: send_info_def Let_def mpp_service_ioctl_request_def no_oom_ioctl split: prod.splits if_splits)
qed

text \<open>What a send adds to the requests, and how it ends.\<close>

definition final_reqs :: "svc \<Rightarrow> mpp_req list" where
  "final_reqs p = the (sv_reqs p) @ (if sv_off_count p = 0 then [] else [off_req p]) @
     (if sv_rcb_count p = 0 then [] else [rcb_req p])"

lemma send_core:
  assumes "svc_live p" "no_oom w"
  obtains q w1 q' w2 where "flush_offs False p w = Some (q, w1)" "flush_rcbs False q w1 = Some (q', w2)"
    "sv_reqs q' = Some (final_reqs p)" "svc_live q'" "no_oom w2" "w_log w2 = w_log w" "w_replies w2 = w_replies w"
    "sv_batch_io q' = sv_batch_io p" "sv_server q' = sv_server p"
    "\<exists>m. clear_reqs q' = clear_reqs (p\<lparr>sv_req_max := m\<rparr>)"
proof -
  obtain m w1 where f: "flush_offs False p w = Some
      (if sv_off_count p = 0 then p
       else p\<lparr>sv_reqs := map_option (\<lambda>rs. rs @ [off_req p]) (sv_reqs p), sv_req_max := m,
              sv_off_pos := sv_off_pos p + sv_off_count p, sv_off_count := if False then 0 else sv_off_count p\<rparr>, w1)"
    (is "_ = Some (?q, _)") "sv_req_cnt p < m" "sv_req_max p \<le> m" "no_oom w1" "w_log w1 = w_log w" "w_replies w1 = w_replies w"
    by (rule flush_offs_ok [OF assms]) blast
  have q: "svc_live ?q" using assms(1) f(2,3) by (auto simp: svc_live_def sv_req_cnt_def)
  obtain m' w2 where g: "flush_rcbs False ?q w1 = Some
      (if sv_rcb_count ?q = 0 then ?q
       else ?q\<lparr>sv_reqs := map_option (\<lambda>rs. rs @ [rcb_req ?q]) (sv_reqs ?q), sv_req_max := m',
              sv_rcb_pos := sv_rcb_pos ?q + sv_rcb_count ?q, sv_rcb_count := if False then 0 else sv_rcb_count ?q\<rparr>, w2)"
    (is "_ = Some (?r, _)") "sv_req_cnt ?q < m'" "sv_req_max ?q \<le> m'" "no_oom w2" "w_log w2 = w_log w1" "w_replies w2 = w_replies w1"
    by (rule flush_rcbs_ok [OF q f(4)]) blast
  have r: "svc_live ?r" using q g(2,3) by (auto simp: svc_live_def sv_req_cnt_def)
  have reqs: "sv_reqs ?r = Some (final_reqs p)"
    using assms(1) by (auto simp: final_reqs_def svc_live_def rcb_req_def)
  have cl: "\<exists>m. clear_reqs ?r = clear_reqs (p\<lparr>sv_req_max := m\<rparr>)"
    by (cases p) (auto simp: clear_reqs_def comp_def option.map_comp)
  show thesis
    by (rule that [OF f(1) g(1) reqs r g(4) _ _ _ _ cl]) (use f(5,6) g(5,6) in simp_all)
qed


definition info_req :: "svc \<Rightarrow> mpp_req" where
  "info_req p = \<lparr>rq_cmd = MPP_CMD_SEND_CODEC_INFO, rq_flag = MPP_FLAGS_LAST_MSG,
     rq_size = of_nat (sv_info_count p * 16), rq_offset = 0, rq_data = P_info\<rparr>"

lemma send_info_calls:
  "send_info p w = (p', w') \<Longrightarrow> mpp_calls (w_log w') = mpp_calls (w_log w) @
     (if sv_info_count p \<noteq> 0 \<and> sv_support_set_info p then [(sv_client p, [info_req p])] else [])"
  by (auto simp: send_info_def info_req_def Let_def mpp_service_ioctl_request_def dest!: sys_ioctl_log
      split: prod.splits if_splits)

lemma final_reqs_info [simp]:
  "final_reqs (p\<lparr>sv_support_set_info := b, sv_info_count := n\<rparr>) = final_reqs p"
  by (simp add: final_reqs_def off_req_def rcb_req_def)

lemma clear_reqs_fields [simp]:
  "sv_req_cnt (clear_reqs p) = 0" "sv_off_count (clear_reqs p) = 0" "sv_off_pos (clear_reqs p) = 0"
  "sv_rcb_count (clear_reqs p) = 0" "sv_rcb_pos (clear_reqs p) = 0" "sv_info_count (clear_reqs p) = sv_info_count p"
  by (auto simp: clear_reqs_def sv_req_cnt_def split: option.splits)

text \<open>A context with nothing collected.\<close>

definition idle :: "svc \<Rightarrow> bool" where
  "idle p \<longleftrightarrow> sv_req_cnt p = 0 \<and> sv_off_count p = 0 \<and> sv_off_pos p = 0 \<and> sv_rcb_count p = 0 \<and>
     sv_rcb_pos p = 0 \<and> sv_info_count p = 0"

lemma send_spec:
  assumes "svc_inv p" "no_oom w" "\<not> sv_batch_io p" "sv_req_cnt p \<noteq> 0"
  obtains ret p' w' where "mpp_service_cmd_send bs p w = Some (ret, p', w')" "svc_inv p'" "no_oom w'" "idle p'"
    "mpp_calls (w_log w') = mpp_calls (w_log w) @
       (if sv_info_count p \<noteq> 0 \<and> sv_support_set_info p then [(sv_client p, [info_req p])] else []) @
       [(sv_server p, set_flags (final_reqs p))]"
proof -
  obtain q w0 where q: "send_info p w = (q, w0)" by fastforce
  obtain b where b: "q = p\<lparr>sv_support_set_info := b, sv_info_count := 0\<rparr>" using send_info_ok(1) [OF q] by blast
  have live: "svc_live q" "no_oom w0" using assms(1,2) send_info_ok(2) [OF q] by (auto simp: b svc_live_def svc_inv_def)
  obtain q1 w1 q2 w2 where s: "flush_offs False q w0 = Some (q1, w1)" "flush_rcbs False q1 w1 = Some (q2, w2)"
    "sv_reqs q2 = Some (final_reqs q)" "svc_live q2" "no_oom w2" "w_log w2 = w_log w0"
    "sv_batch_io q2 = sv_batch_io q" "sv_server q2 = sv_server q"
    "\<exists>m. clear_reqs q2 = clear_reqs (q\<lparr>sv_req_max := m\<rparr>)"
    by (rule send_core [OF live]) blast
  obtain r w3 where r: "sys_ioctl (sv_server p) (Ioc_mpp (set_flags (final_reqs p))) w2 = (r, w3)" by fastforce
  have cnt: "\<not> (sv_req_cnt p = 0 \<or> sv_req_cnt p > sv_req_max p)"
    using assms(1,4) by (auto simp: svc_inv_def sv_req_cnt_def)
  have snd: "mpp_service_cmd_send bs p w =
      Some (if rp_ret r \<noteq> 0 then ret_of_int (rp_errno r) else MPP_OK, clear_reqs q2, w3)"
    using cnt q s(1,2,3,7,8) r assms(3) by (auto simp: mpp_service_cmd_send_def mpp_service_ioctl_request_def b Let_def)
  obtain m where m: "clear_reqs q2 = clear_reqs (q\<lparr>sv_req_max := m\<rparr>)" using s(9) by blast
  have "idle (clear_reqs q2)"
    unfolding idle_def m by (simp add: b)
  moreover have "mpp_calls (w_log w3) = mpp_calls (w_log w) @
       (if sv_info_count p \<noteq> 0 \<and> sv_support_set_info p then [(sv_client p, [info_req p])] else []) @
       [(sv_server p, set_flags (final_reqs p))]"
    using sys_ioctl_log [OF r] s(6) send_info_calls [OF q] by simp
  ultimately show thesis
    using that snd clear_inv [OF s(4)] no_oom_ioctl [OF r] s(5) by blast
qed

lemma send_keeps:
  assumes "\<not> sv_batch_io p"
  shows "keeps (mpp_service_cmd_send bs) p"
proof (rule keepsI)
  fix w assume p: "svc_inv p" "no_oom w"
  show "\<exists>ret p' w'. mpp_service_cmd_send bs p w = Some (ret, p', w') \<and> svc_inv p' \<and> no_oom w'"
  proof (cases "sv_req_cnt p = 0")
    case True
    then show ?thesis using p by (simp add: mpp_service_cmd_send_def)
  next
    case False
    then show ?thesis using send_spec [OF p assms, of bs] by metis
  qed
qed

lemma attach_keeps [svc_ok]:
  assumes "bs_ok bs"
  shows "keeps (mpp_service_attach bs) p" "keeps (mpp_service_detach bs) p"
proof -
  have "\<exists>serv batch w'. bs_attach bs w = Some ((serv, batch), w') \<and> no_oom w'" "\<exists>w'. bs_detach bs w = Some w' \<and> no_oom w'" if "no_oom w" for w
    using assms that by (auto simp: bs_ok_def)
  then show "keeps (mpp_service_attach bs) p" "keeps (mpp_service_detach bs) p"
    by (fastforce intro!: keepsI simp: mpp_service_attach_def mpp_service_detach_def svc_inv_def)+
qed

lemma poll_keeps:
  assumes "\<not> sv_batch_io p" "svc_inv p" "no_oom w" "\<And>c. cfg = Some c \<Longrightarrow> pc_count_max c \<noteq> 0 \<Longrightarrow> pc_slices c \<noteq> []"
  shows "\<exists>ret cfg' w'. mpp_service_cmd_poll bs cfg p w = Some (ret, cfg', p, w') \<and> no_oom w'"
  using assms
  by (auto simp: mpp_service_cmd_poll_def Let_def mpp_service_ioctl_request_def no_oom_ioctl
      split: prod.splits option.splits)


end
