(* ===== verification/Service_Jobs.thy ===== *)
theory Service_Jobs
  imports Mpp_Service
begin

text \<open>
  What the service driver of \<open>Mpp_Service\<close> promises its client: the operations between two sends
  build a job, and a send passes exactly that job to the kernel. Also what goes wrong at the
  borders: registers that are given twice, the information array, batches.
\<close>

section \<open>Jobs\<close>

text \<open>
  The abstract view: what a client asks for between two sends is a job, with the register
  accesses in order, one offset per register, and the row buffers in order.
\<close>

datatype job_op = J_wr reg_cfg | J_rd reg_cfg | J_offset reg_info | J_rcb reg_info

record job =
  jb_regs :: "(u32 \<times> reg_cfg) list"
  jb_offs :: "reg_info list"
  jb_rcbs :: "reg_info list"

definition empty_job :: job where
  "empty_job = \<lparr>jb_regs = [], jb_offs = [], jb_rcbs = []\<rparr>"

fun job_step :: "bool \<Rightarrow> job \<Rightarrow> job_op \<Rightarrow> job" where
  "job_step rcb j (J_wr c) = j\<lparr>jb_regs := jb_regs j @ [(MPP_CMD_SET_REG_WRITE, c)]\<rparr>"
| "job_step rcb j (J_rd c) = j\<lparr>jb_regs := jb_regs j @ [(MPP_CMD_SET_REG_READ, c)]\<rparr>"
| "job_step rcb j (J_offset (r, off)) =
     (if off = 0 \<or> length (jb_offs j) \<ge> MAX_REG_OFFSET then j else j\<lparr>jb_offs := upsert r off (jb_offs j)\<rparr>)"
| "job_step rcb j (J_rcb x) =
     (if \<not> rcb \<or> length (jb_rcbs j) \<ge> MAX_RCB_OFFSET then j else j\<lparr>jb_rcbs := jb_rcbs j @ [x]\<rparr>)"

fun svc_op :: "job_op \<Rightarrow> svc dev_op" where
  "svc_op (J_wr c) = mpp_service_reg_wr c"
| "svc_op (J_rd c) = mpp_service_reg_rd c"
| "svc_op (J_offset x) = mpp_service_reg_offset x"
| "svc_op (J_rcb x) = mpp_service_rcb_info x"

definition reg_req :: "u32 \<times> reg_cfg \<Rightarrow> mpp_req" where
  "reg_req x = \<lparr>rq_cmd = fst x, rq_flag = 0, rq_size = rc_size (snd x), rq_offset = rc_offset (snd x),
     rq_data = P_user (rc_reg (snd x))\<rparr>"

text \<open>The context that a job stands for.\<close>

definition holds_job :: "svc \<Rightarrow> job \<Rightarrow> bool" where
  "holds_job p j \<longleftrightarrow> sv_reqs p = Some (map reg_req (jb_regs j)) \<and>
     sv_offs p = Some (jb_offs j) \<and> sv_off_pos p = 0 \<and> sv_off_count p = length (jb_offs j) \<and>
     sv_rcbs p = Some (jb_rcbs j) \<and> sv_rcb_pos p = 0 \<and> sv_rcb_count p = length (jb_rcbs j)"

text \<open>What the operations of a job leave alone.\<close>

definition same_setup :: "svc \<Rightarrow> svc \<Rightarrow> bool" where
  "same_setup p q \<longleftrightarrow> sv_batch_io q = sv_batch_io p \<and> sv_server q = sv_server p \<and> sv_client q = sv_client p \<and>
     sv_support_set_rcb_info q = sv_support_set_rcb_info p \<and> sv_support_set_info q = sv_support_set_info p \<and>
     sv_info_count q = sv_info_count p"

lemma job_op_step:
  assumes "svc_inv p" "no_oom w" "holds_job p j"
  shows "\<exists>ret p' w'. svc_op x p w = Some (ret, p', w') \<and> svc_inv p' \<and> no_oom w' \<and> same_setup p p' \<and>
    holds_job p' (job_step (sv_support_set_rcb_info p) j x) \<and> w_log w' = w_log w"
proof (cases x)
  case (J_wr c)
  obtain m w' where "push_req (reg_req (MPP_CMD_SET_REG_WRITE, c)) p w =
      Some (p\<lparr>sv_reqs := map_option (\<lambda>rs. rs @ [reg_req (MPP_CMD_SET_REG_WRITE, c)]) (sv_reqs p), sv_req_max := m\<rparr>, w')"
    "sv_req_cnt p < m" "sv_req_max p \<le> m" "no_oom w'" "w_log w' = w_log w"
    by (rule push_req_ok [OF inv_live [OF assms(1)] assms(2)]) blast
  then show ?thesis using assms J_wr
    by (auto simp: mpp_service_reg_wr_def holds_job_def same_setup_def svc_inv_def sv_req_cnt_def reg_req_def)
next
  case (J_rd c)
  obtain m w' where "push_req (reg_req (MPP_CMD_SET_REG_READ, c)) p w =
      Some (p\<lparr>sv_reqs := map_option (\<lambda>rs. rs @ [reg_req (MPP_CMD_SET_REG_READ, c)]) (sv_reqs p), sv_req_max := m\<rparr>, w')"
    "sv_req_cnt p < m" "sv_req_max p \<le> m" "no_oom w'" "w_log w' = w_log w"
    by (rule push_req_ok [OF inv_live [OF assms(1)] assms(2)]) blast
  then show ?thesis using assms J_rd
    by (auto simp: mpp_service_reg_rd_def holds_job_def same_setup_def svc_inv_def sv_req_cnt_def reg_req_def)
next
  case (J_offset c)
  obtain r off where c: "c = (r, off)" by fastforce
  obtain m b w' where n: "mpp_service_next_reg_offset p w =
      (True, p\<lparr>sv_offs := map_option (\<lambda>xs. xs @ [(0, 0)]) (sv_offs p), sv_off_count := Suc (sv_off_count p),
               sv_off_max := m, sv_off_block := b\<rparr>, w')"
    "sv_off_pos p + sv_off_count p < m" "sv_off_max p \<le> m" "no_oom w'" "w_log w' = w_log w"
    by (rule next_reg_offset_ok [OF assms(1,2)]) blast
  show ?thesis
  proof (cases "off = 0 \<or> sv_off_count p \<ge> MAX_REG_OFFSET")
    case True
    then show ?thesis using assms J_offset c
      by (auto simp: mpp_service_reg_offset_def holds_job_def same_setup_def)
  next
    case go: False
    show ?thesis
    proof (cases "find_reg r (jb_offs j) 0")
      case None
      have "svc_inv (p\<lparr>sv_off_count := Suc (sv_off_count p), sv_off_max := m, sv_off_block := b,
          sv_offs := set_last c (map_option (\<lambda>xs. xs @ [(0, 0)]) (sv_offs p))\<rparr>)"
        by (rule grow_offs_inv [OF assms(1) _ n(2,3)]) (use go in simp)
      then show ?thesis using None n(1,4,5) assms(3) go J_offset c find_reg_None [of r "jb_offs j" 0]
        by (auto simp: mpp_service_reg_offset_def holds_job_def same_setup_def set_last_def upsert_new)
    next
      case (Some k)
      then show ?thesis using assms set_off_inv [OF assms(1), of k off] go J_offset c find_reg_upsert [OF Some, of off]
        by (auto simp: mpp_service_reg_offset_def holds_job_def same_setup_def set_off_def length_upsert)
    qed
  qed
next
  case (J_rcb c)
  obtain m b w' where n: "mpp_service_next_rcb_info p w =
      (True, p\<lparr>sv_rcbs := map_option (\<lambda>xs. xs @ [(0, 0)]) (sv_rcbs p), sv_rcb_count := Suc (sv_rcb_count p),
               sv_rcb_max := m, sv_rcb_block := b\<rparr>, w')"
    "sv_rcb_pos p + sv_rcb_count p < m" "sv_rcb_max p \<le> m" "no_oom w'" "w_log w' = w_log w"
    by (rule next_rcb_info_ok [OF assms(1,2)]) blast
  then show ?thesis using assms J_rcb
    by (auto simp: mpp_service_rcb_info_def holds_job_def same_setup_def set_last_def svc_inv_def)
qed


lemma job_ops_run:
  assumes "svc_inv p" "no_oom w" "holds_job p j"
  shows "\<exists>p' w'. run_ops (map svc_op xs) p w = Some (p', w') \<and> svc_inv p' \<and> no_oom w' \<and> same_setup p p' \<and>
    holds_job p' (foldl (job_step (sv_support_set_rcb_info p)) j xs) \<and> w_log w' = w_log w"
  using assms
proof (induction xs arbitrary: p w j)
  case Nil
  then show ?case by (simp add: same_setup_def)
next
  case (Cons x xs)
  obtain ret p1 w1 where s: "svc_op x p w = Some (ret, p1, w1)" "svc_inv p1" "no_oom w1" "same_setup p p1"
    "holds_job p1 (job_step (sv_support_set_rcb_info p) j x)" "w_log w1 = w_log w"
    using job_op_step [OF Cons.prems] by blast
  from Cons.IH [OF s(2,3,5)] s(1,4,6) show ?case by (auto simp: same_setup_def)
qed

lemma idle_holds: "svc_inv p \<Longrightarrow> idle p \<Longrightarrow> holds_job p empty_job"
  by (auto simp: svc_inv_def idle_def holds_job_def empty_job_def sv_req_cnt_def)

text \<open>
  What the kernel finds behind a request: the tables are read through the pointer, and a pointer
  into a block that is gone, or past the entries, leads nowhere.
\<close>

datatype payload = Pay_user u64 | Pay_table "reg_info list" | Pay_gone | Pay_none

definition read_table :: "nat \<Rightarrow> reg_info list option \<Rightarrow> nat \<Rightarrow> nat \<Rightarrow> nat \<Rightarrow> payload" where
  "read_table block table b i n =
     (case table of
        Some xs \<Rightarrow> if b = block \<and> i + n \<le> length xs then Pay_table (take n (drop i xs)) else Pay_gone
      | None \<Rightarrow> Pay_gone)"

definition payload_of :: "svc \<Rightarrow> mpp_req \<Rightarrow> payload" where
  "payload_of p r =
     (case rq_data r of
        P_user a \<Rightarrow> Pay_user a
      | P_offsets b i \<Rightarrow> read_table (sv_off_block p) (sv_offs p) b i (unat (rq_size r) div 8)
      | P_rcb b i \<Rightarrow> read_table (sv_rcb_block p) (sv_rcbs p) b i (unat (rq_size r) div 8)
      | _ \<Rightarrow> Pay_none)"

definition view_req :: "svc \<Rightarrow> mpp_req \<Rightarrow> u32 \<times> u32 \<times> u32 \<times> payload" where
  "view_req p r = (rq_cmd r, rq_size r, rq_offset r, payload_of p r)"

definition view_job :: "job \<Rightarrow> (u32 \<times> u32 \<times> u32 \<times> payload) list" where
  "view_job j =
     map (\<lambda>(cmd, c). (cmd, rc_size c, rc_offset c, Pay_user (rc_reg c))) (jb_regs j) @
     (if jb_offs j = [] then []
      else [(MPP_CMD_SET_REG_ADDR_OFFSET, of_nat (8 * length (jb_offs j)), 0, Pay_table (jb_offs j))]) @
     (if jb_rcbs j = [] then []
      else [(MPP_CMD_SET_RCB_INFO, of_nat (8 * length (jb_rcbs j)), 0, Pay_table (jb_rcbs j))])"

text \<open>A chain the kernel walks to its end: only the last request says that it is the last.\<close>

definition chain_ok :: "mpp_req list \<Rightarrow> bool" where
  "chain_ok rs \<longleftrightarrow> rs \<noteq> [] \<and> list_all (\<lambda>r. rq_flag r AND MPP_FLAGS_LAST_MSG = 0) (butlast rs) \<and>
     rq_flag (last rs) AND MPP_FLAGS_LAST_MSG \<noteq> 0 \<and>
     (1 < length rs \<longrightarrow> list_all (\<lambda>r. rq_flag r AND MPP_FLAGS_MULTI_MSG \<noteq> 0) rs)"

lemmas flag_defs = MPP_FLAGS_LAST_MSG_def MPP_FLAGS_MULTI_MSG_def MPP_FLAGS_REG_OFFSET_ALONE_def

lemma and_or_cases:
  fixes f :: u32
  shows "((f OR 1) AND 2 = 0) = (f AND 2 = 0)" "(f OR 1) AND 1 \<noteq> 0"
    "((f OR 18) AND 2) \<noteq> 0" "(f AND 1 \<noteq> 0) \<Longrightarrow> (f OR 18) AND 1 \<noteq> 0"
  by (simp_all add: bit.conj_disj_distrib2 or_eq_0_iff)

lemma or_flag_simps [simp]: "rq_flag (or_flag f r) = rq_flag r OR f" "view_req p (or_flag f r) = view_req p r"
  by (simp_all add: or_flag_def view_req_def payload_of_def split: data_ptr.split)

lemma set_flags_chain:
  assumes "rs \<noteq> []" "\<forall>r \<in> set rs. rq_flag r AND MPP_FLAGS_LAST_MSG = 0"
  shows "chain_ok (set_flags rs)"
proof -
  obtain xs x where rs: "rs = xs @ [x]" using assms(1) by (metis rev_exhaust)
  show ?thesis
  proof (cases "xs = []")
    case True
    then show ?thesis by (simp add: rs set_flags_def chain_ok_def flag_defs and_or_cases)
  next
    case False
    then show ?thesis using assms(2)
      by (auto simp: rs set_flags_def chain_ok_def flag_defs and_or_cases list_all_iff)
  qed
qed

lemma set_flags_view: "rs \<noteq> [] \<Longrightarrow> map (view_req p) (set_flags rs) = map (view_req p) rs"
  by (cases rs rule: rev_cases) (auto simp: set_flags_def comp_def)

lemma holds_job_view:
  assumes "svc_inv p" "holds_job p j"
  shows "map (view_req p) (final_reqs p) = view_job j" "\<forall>r \<in> set (final_reqs p). rq_flag r AND MPP_FLAGS_LAST_MSG = 0"
proof -
  have len: "length (jb_offs j) \<le> 64" "length (jb_rcbs j) \<le> 32"
    using assms by (auto simp: svc_inv_def holds_job_def svc_limits)
  have d: "unat (of_nat n * 8 :: u32) div 8 = n" if "n \<le> 64" for n
    using that by (simp add: unat_word_ariths unat_of_nat)
  show "map (view_req p) (final_reqs p) = view_job j"
    using assms(2) len d [of "length (jb_offs j)"] d [of "length (jb_rcbs j)"]
    by (auto simp: final_reqs_def holds_job_def view_job_def view_req_def payload_of_def reg_req_def off_req_def
        rcb_req_def read_table_def mult.commute split: prod.splits)
  show "\<forall>r \<in> set (final_reqs p). rq_flag r AND MPP_FLAGS_LAST_MSG = 0"
    using assms(2) by (auto simp: final_reqs_def holds_job_def reg_req_def off_req_def rcb_req_def flag_defs)
qed

section \<open>Properties\<close>

text \<open>
  C7: from an idle context that is not in batch mode, and while no allocation fails, any sequence of register writes
  and reads, offsets and row buffers with at least one register access, followed by a send, is one
  \<open>ioctl\<close> on the server descriptor, whose chain is the job (\<open>job_step\<close>): the accesses in order, then one table of
  offsets, then one of row buffers. The table of offsets has the last offset given for a register; offsets of
  zero are ignored, and so are further offsets, even of a register that is in the table, once it has 64 entries. Row buffers count only
  when the kernel supports them, and up to 32. The pointers of the requests lead to the tables, only the last request is
  marked as the last, all are marked as parts of a chain when there are several, and the context is
  idle again.
\<close>

theorem service_sends_job:
  assumes "svc_inv p" "idle p" "no_oom w" "\<not> sv_batch_io p"
    and "job = foldl (job_step (sv_support_set_rcb_info p)) empty_job ops" "jb_regs job \<noteq> []"
  shows "\<exists>p1 w1 ret p2 w2 rs. run_ops (map svc_op ops) p w = Some (p1, w1) \<and>
    mpp_service_cmd_send bs p1 w1 = Some (ret, p2, w2) \<and> svc_inv p2 \<and> idle p2 \<and>
    mpp_calls (w_log w2) = mpp_calls (w_log w) @ [(sv_server p, rs)] \<and>
    map (view_req p1) rs = view_job job \<and> chain_ok rs"
proof -
  obtain p1 w1 where r: "run_ops (map svc_op ops) p w = Some (p1, w1)" "svc_inv p1" "no_oom w1" "same_setup p p1"
    "holds_job p1 job" "w_log w1 = w_log w"
    using job_ops_run [OF assms(1,3) idle_holds [OF assms(1,2)], of ops] assms(5) by auto
  have b: "\<not> sv_batch_io p1" "sv_req_cnt p1 \<noteq> 0" "sv_info_count p1 = 0" "sv_server p1 = sv_server p"
    using r(4,5) assms(2,4,6) by (auto simp: same_setup_def holds_job_def sv_req_cnt_def idle_def)
  obtain ret p2 w2 where s: "mpp_service_cmd_send bs p1 w1 = Some (ret, p2, w2)" "svc_inv p2" "idle p2"
    "mpp_calls (w_log w2) = mpp_calls (w_log w1) @
       (if sv_info_count p1 \<noteq> 0 \<and> sv_support_set_info p1 then [(sv_client p1, [info_req p1])] else []) @
       [(sv_server p1, set_flags (final_reqs p1))]"
    by (rule send_spec [OF r(2,3) b(1,2)]) blast
  have "final_reqs p1 \<noteq> []" using r(5) assms(6) by (auto simp: final_reqs_def holds_job_def)
  with holds_job_view [OF r(2,5)] have "map (view_req p1) (set_flags (final_reqs p1)) = view_job job"
    "chain_ok (set_flags (final_reqs p1))"
    by (simp_all add: set_flags_view set_flags_chain)
  with r(1,6) s b show ?thesis by auto
qed

text \<open>An idle context on descriptor 3.\<close>

definition idle_svc :: svc where
  "idle_svc =
     \<lparr>sv_client_type = 0, sv_client = 3, sv_server = 3, sv_serv_ctx = None, sv_batch_io = False, sv_dev_cb = None,
      sv_reqs = Some [], sv_req_max = 16, sv_offs = Some [], sv_off_block = 0, sv_off_max = 64, sv_off_count = 0,
      sv_off_pos = 0, sv_rcbs = Some [], sv_rcb_block = 0, sv_rcb_max = 32, sv_rcb_count = 0, sv_rcb_pos = 0,
      sv_bat_cmd = \<lparr>bc_flag = 0, bc_client = 3, bc_ret = 0\<rparr>, sv_info_count = 0, sv_info = [],
      sv_cap = \<lparr>cc_support_cmd = 0, cc_query_cmd = 0, cc_init_cmd = 0, cc_send_cmd = 0, cc_poll_cmd = 0, cc_ctrl_cmd = 0\<rparr>,
      sv_support_set_info = True, sv_support_set_rcb_info = True, sv_support_hw_irq = False\<rparr>"

definition fresh_world :: world where
  "fresh_world = \<lparr>w_heap = [], w_replies = [], w_opens = [], w_log = [], w_mem = Map.empty\<rparr>"

definition no_server :: batch_server where
  "no_server = \<lparr>bs_attach = (\<lambda>w. Some ((None, False), w)), bs_detach = Some, bs_send_task = (\<lambda>_ w. None),
     bs_wait_task = (\<lambda>w. None)\<rparr>"

lemma idle_svc_ok: "svc_inv idle_svc" "idle idle_svc" "no_oom fresh_world" "\<not> sv_batch_io idle_svc"
  "sv_support_set_rcb_info idle_svc" "sv_support_set_info idle_svc" "sv_info_count idle_svc = 0"
  by (simp_all add: svc_inv_def idle_def idle_svc_def fresh_world_def no_oom_def sv_req_cnt_def svc_limits)

lemma service_sends_job_witness:
  "\<exists>p1 w1 ret p2 w2 rs. run_ops (map svc_op
       [J_wr \<lparr>rc_reg = 4096, rc_size = 100, rc_offset = 0\<rparr>, J_offset (7, 5), J_offset (7, 6)]) idle_svc fresh_world = Some (p1, w1) \<and>
     mpp_service_cmd_send no_server p1 w1 = Some (ret, p2, w2) \<and>
     map (view_req p1) rs = [(MPP_CMD_SET_REG_WRITE, 100, 0, Pay_user 4096), (MPP_CMD_SET_REG_ADDR_OFFSET, 8, 0, Pay_table [(7, 6)])]"
proof -
  define ops where "ops = [J_wr \<lparr>rc_reg = 4096, rc_size = 100, rc_offset = 0\<rparr>, J_offset (7, 5), J_offset (7, 6)]"
  define job where "job = foldl (job_step True) empty_job ops"
  have j: "jb_regs job = [(MPP_CMD_SET_REG_WRITE, \<lparr>rc_reg = 4096, rc_size = 100, rc_offset = 0\<rparr>)]"
    "jb_offs job = [(7, 6)]" "jb_rcbs job = []"
    by (simp_all add: job_def ops_def empty_job_def MAX_REG_OFFSET_def)
  show ?thesis
    using service_sends_job [OF idle_svc_ok(1-4), of job ops no_server] j idle_svc_ok(5)
    by (fastforce simp: view_job_def job_def [symmetric] ops_def [symmetric])
qed

text \<open>
  A list of offsets with a register that already has one in the table changes that entry and
  then adds the register again, since the \<open>continue\<close> of the search only goes on with the search:
  the table has the register twice, where setting the same offset alone keeps it unique.
\<close>

theorem reg_offsets_repeats_register:
  assumes "svc_inv p" "no_oom w" "sv_offs p = Some xs" "sv_off_pos p = 0" "(r, old) \<in> set xs" "length xs < 63"
  shows "\<exists>p' w'. mpp_service_reg_offsets \<lparr>oc_size = 1, oc_cfgs = [(r, off)]\<rparr> p w = Some (MPP_OK, p', w') \<and>
    sv_offs p' = Some (map (\<lambda>(a, b). if a = r then (a, off) else (a, b)) xs @ [(r, off)])"
proof -
  let ?p = "cover_all (r, off) p"
  have c: "svc_inv ?p" "sv_offs ?p = Some (map (\<lambda>(a, b). if a = r then (a, off) else (a, b)) xs)"
    using assms(3,4) cover_all_inv [OF assms(1)] by (auto simp: cover_all_def)
  have cnt: "sv_off_count p = length xs" using assms(1,3,4) by (auto simp: svc_inv_def)
  obtain m b w' where n: "mpp_service_next_reg_offset ?p w =
      (True, ?p\<lparr>sv_offs := map_option (\<lambda>xs. xs @ [(0, 0)]) (sv_offs ?p), sv_off_count := Suc (sv_off_count ?p),
               sv_off_max := m, sv_off_block := b\<rparr>, w')"
    by (rule next_reg_offset_ok [OF c(1) assms(2)]) blast
  then show ?thesis using assms(3,6) cnt c(2)
    by (simp add: mpp_service_reg_offsets_def MAX_REG_OFFSET_def set_last_def)
qed

lemma reg_offsets_repeats_register_witness:
  "\<exists>p' w'. mpp_service_reg_offsets \<lparr>oc_size = 1, oc_cfgs = [(7, 6)]\<rparr>
     (idle_svc\<lparr>sv_offs := Some [(7, 5)], sv_off_count := 1\<rparr>) fresh_world = Some (MPP_OK, p', w') \<and>
     sv_offs p' = Some [(7, 6), (7, 6)]"
  using reg_offsets_repeats_register [of "idle_svc\<lparr>sv_offs := Some [(7, 5)], sv_off_count := 1\<rparr>" fresh_world "[(7, 5)]" 7 5 6]
    idle_svc_ok by (simp add: svc_inv_def idle_svc_def svc_limits)

text \<open>
  The array of codec information has 16 entries and no check: a context that supports it
  takes sixteen, and the next one is written behind the array.
\<close>

theorem set_info_overruns:
  assumes "sv_support_set_info p" "sv_info_count p + length cfgs = n"
  shows "(run_ops (map mpp_service_set_info cfgs) p w = None) = (16 < n \<and> cfgs \<noteq> [])"
  using assms
proof (induction cfgs arbitrary: p w)
  case (Cons c cfgs)
  show ?case
  proof (cases "sv_info_count p \<ge> 16")
    case True
    then show ?thesis using Cons.prems by (simp add: mpp_service_set_info_def [of c p w] MAX_INFO_COUNT_def)
  next
    case False
    let ?q = "p\<lparr>sv_info := take (sv_info_count p) (sv_info p) @ [c], sv_info_count := Suc (sv_info_count p)\<rparr>"
    have "(run_ops (map mpp_service_set_info cfgs) ?q w = None) = (16 < n \<and> cfgs \<noteq> [])"
      by (rule Cons.IH) (use Cons.prems in simp_all)
    then show ?thesis using False Cons.prems by (cases "cfgs = []") (simp_all add: mpp_service_set_info_def [of c p w] MAX_INFO_COUNT_def)
  qed
qed simp

lemma set_info_overruns_witness:
  "run_ops (map mpp_service_set_info (replicate 17 \<lparr>di_type = 1, di_flag = 0, di_data = 0\<rparr>)) idle_svc fresh_world = None"
  using set_info_overruns [of idle_svc "replicate 17 \<lparr>di_type = 1, di_flag = 0, di_data = 0\<rparr>" 17 fresh_world] idle_svc_ok
  by simp

text \<open>
  In a batch a request of an earlier task keeps a pointer into the table of offsets. When a
  later task needs one more entry than the table has, the table moves, and the request that is
  still waiting to be sent leads nowhere.
\<close>

theorem batch_offsets_go_stale:
  assumes "svc_inv p" "no_oom w" "sv_reqs p = Some rs" "rq \<in> set rs" "rq_data rq = P_offsets (sv_off_block p) i"
    and "sv_off_pos p + sv_off_count p = sv_off_max p" "sv_off_count p < 64"
    and "find_reg r (drop (sv_off_pos p) (the (sv_offs p))) (sv_off_pos p) = None" "off \<noteq> 0"
  shows "\<exists>p' w'. mpp_service_reg_offset (r, off) p w = Some (MPP_OK, p', w') \<and> sv_reqs p' = Some rs \<and>
    payload_of p' rq = Pay_gone"
proof -
  obtain m b w' where n: "mpp_service_next_reg_offset p w =
      (True, p\<lparr>sv_offs := map_option (\<lambda>xs. xs @ [(0, 0)]) (sv_offs p), sv_off_count := Suc (sv_off_count p),
               sv_off_max := m, sv_off_block := b\<rparr>, w')" "b = (if sv_off_count p + sv_off_pos p \<ge> sv_off_max p then Suc (sv_off_block p) else sv_off_block p)"
    by (rule next_reg_offset_ok [OF assms(1,2)]) blast
  then have b: "b = Suc (sv_off_block p)" using assms(6) by simp
  obtain xs where xs: "sv_offs p = Some xs" using assms(1) by (auto simp: svc_inv_def)
  let ?p = "p\<lparr>sv_off_count := Suc (sv_off_count p), sv_off_max := m, sv_off_block := b, sv_offs := Some (xs @ [(r, off)])\<rparr>"
  have "mpp_service_reg_offset (r, off) p w = Some (MPP_OK, ?p, w')"
    using assms(7-9) xs n(1) by (simp add: mpp_service_reg_offset_def MAX_REG_OFFSET_def set_last_def)
  moreover have "payload_of ?p rq = Pay_gone"
    using assms(5) b by (simp add: payload_of_def read_table_def)
  ultimately show ?thesis using assms(3) by auto
qed

lemma find_reg_replicate: "a \<noteq> r \<Longrightarrow> find_reg r (replicate n (a, b)) i = None"
  by (induction n arbitrary: i) auto

lemma batch_offsets_go_stale_witness:
  "\<exists>p' w'. mpp_service_reg_offset (9, 5)
     (idle_svc\<lparr>sv_reqs := Some [zero_req\<lparr>rq_data := P_offsets 0 0\<rparr>], sv_offs := Some (replicate 64 (1, 1)), sv_off_pos := 64\<rparr>)
     fresh_world = Some (MPP_OK, p', w') \<and> payload_of p' (zero_req\<lparr>rq_data := P_offsets 0 0\<rparr>) = Pay_gone"
proof -
  let ?q = "zero_req\<lparr>rq_data := P_offsets 0 0\<rparr>"
  let ?p = "idle_svc\<lparr>sv_reqs := Some [?q], sv_offs := Some (replicate 64 (1, 1)), sv_off_pos := 64\<rparr>"
  have "svc_inv ?p" by (simp add: svc_inv_def idle_svc_def svc_limits)
  from batch_offsets_go_stale [OF this idle_svc_ok(3), of "[?q]" ?q 0 9 5] show ?thesis
    by (auto simp: idle_svc_def find_reg_replicate)
qed

end
