(* ===== verification/Vcodec_Service.thy ===== *)
theory Vcodec_Service
  imports Sys_World C_Library
begin

text \<open>
  The driver of the older codec services (\<open>osal/driver/vcodec_service.c\<close>): which device file serves
  a codec, and a context with a ring of two or three register sets that are sent and polled in
  turn. The registers are memory of the client; sizes are in bytes and multiples of four, the
  size of a register, as all the constants of the code are.
\<close>

section \<open>Device files\<close>

definition mpp_vpu_dev :: "string list" where
  "mpp_vpu_dev = [''/dev/vpu_service'', ''/dev/vpu-service'', ''/dev/mpp_service'']"
definition mpp_hevc_dev :: "string list" where
  "mpp_hevc_dev = [''/dev/hevc_service'', ''/dev/hevc-service'', ''/dev/mpp_service'']"
definition mpp_rkvdec_dev :: "string list" where "mpp_rkvdec_dev = [''/dev/rkvdec'', ''/dev/mpp_service'']"
definition mpp_rkvenc_dev :: "string list" where "mpp_rkvenc_dev = [''/dev/rkvenc'', ''/dev/mpp_service'']"
definition mpp_avsd_dev :: "string list" where "mpp_avsd_dev = [''/dev/avsd'', ''/dev/mpp_service'']"
definition mpp_vepu_dev :: "string list" where "mpp_vepu_dev = [''/dev/vepu'', ''/dev/mpp_service'']"
definition mpp_h265e_dev :: "string list" where "mpp_h265e_dev = [''/dev/h265e'', ''/dev/mpp_service'']"
definition mpp_jpegd_dev :: "string list" where "mpp_jpegd_dev = [''/dev/mpp_service'']"

fun mpp_find_device :: "sys_env \<Rightarrow> string list \<Rightarrow> string option" where
  "mpp_find_device env [] = None"
| "mpp_find_device env (d # ds) = (if se_access env d then Some d else mpp_find_device env ds)"

text \<open>The enumerations of outside headers, as far as the code tells their values apart.\<close>

datatype ctx_type = CTX_DEC | CTX_ENC | CTX_other

datatype vcoding = VC_AVC | VC_HEVC | VC_AVS | VC_AVS2 | VC_VP9 | VC_VP8 | VC_MJPEG | VC_other

datatype soc = RK3036 | RK3066 | RK3188 | RK3288 | RK312X | RK3368 | RK3326 | PX30 | RK3128H | RK3399
  | RK3229 | RK3228 | RK3228H | RK3328 | RV1108 | RV1109 | RV1126 | RK3566 | RK3568 | RK3588 | SOC_other

text \<open>The bits of the platform that are asked for.\<close>

record platform =
  have_rkvdec :: bool
  have_hevc_dec :: bool
  have_avsdec :: bool
  have_rkvenc :: bool
  have_vepu22 :: bool

definition mpp_get_platform_dev_name :: "sys_env \<Rightarrow> ctx_type \<Rightarrow> vcoding \<Rightarrow> platform \<Rightarrow> string option" where
  "mpp_get_platform_dev_name env type coding pf =
     (if have_rkvdec pf \<and> type = CTX_DEC \<and> coding \<in> {VC_AVC, VC_HEVC, VC_AVS2, VC_VP9}
      then mpp_find_device env mpp_rkvdec_dev
      else if have_hevc_dec pf \<and> type = CTX_DEC \<and> coding = VC_HEVC then mpp_find_device env mpp_hevc_dev
      else if have_avsdec pf \<and> type = CTX_DEC \<and> coding = VC_AVS then mpp_find_device env mpp_avsd_dev
      else if have_rkvenc pf \<and> type = CTX_ENC \<and> coding = VC_AVC then mpp_find_device env mpp_rkvenc_dev
      else if have_vepu22 pf \<and> type = CTX_ENC \<and> coding = VC_HEVC then mpp_find_device env mpp_h265e_dev
      else
        let dev = (if type = CTX_ENC then mpp_find_device env mpp_vepu_dev else None)
        in if dev = None then mpp_find_device env mpp_vpu_dev else dev)"

definition mpp_get_vcodec_dev_name :: "sys_env \<Rightarrow> soc \<Rightarrow> platform \<Rightarrow> ctx_type \<Rightarrow> vcoding \<Rightarrow> string option" where
  "mpp_get_vcodec_dev_name env soc pf type coding =
     (if soc = RK3036 then
        (if type = CTX_ENC then None
         else if coding = VC_HEVC \<and> type = CTX_DEC then mpp_find_device env mpp_hevc_dev
         else mpp_find_device env mpp_vpu_dev)
      else if soc \<in> {RK3066, RK3188} then mpp_find_device env mpp_vpu_dev
      else if soc \<in> {RK3288, RK312X, RK3368, RK3326, PX30} then
        (if coding = VC_HEVC \<and> type = CTX_DEC then mpp_find_device env mpp_hevc_dev
         else mpp_find_device env mpp_vpu_dev)
      else if soc = RK3128H then
        (if type = CTX_DEC \<and> coding \<in> {VC_AVC, VC_HEVC} then mpp_find_device env mpp_rkvdec_dev
         else if type = CTX_ENC \<and> coding = VC_MJPEG then None
         else if type = CTX_DEC \<and> coding = VC_VP9 then None
         else mpp_find_device env mpp_vpu_dev)
      else if soc \<in> {RK3399, RK3229} then
        (if type = CTX_DEC \<and> coding \<in> {VC_AVC, VC_HEVC, VC_VP9} then mpp_find_device env mpp_rkvdec_dev
         else mpp_find_device env mpp_vpu_dev)
      else if soc = RK3228 then
        (if type = CTX_DEC \<and> coding \<in> {VC_AVC, VC_HEVC} then mpp_find_device env mpp_rkvdec_dev
         else if type = CTX_ENC \<and> coding = VC_MJPEG then None
         else mpp_find_device env mpp_vpu_dev)
      else if soc = RK3228H then
        (if type = CTX_ENC then
           (if coding = VC_HEVC then mpp_find_device env mpp_h265e_dev else mpp_find_device env mpp_vepu_dev)
         else if type = CTX_DEC then
           (if coding = VC_AVS then mpp_find_device env mpp_avsd_dev
            else if coding \<in> {VC_AVC, VC_HEVC} then mpp_find_device env mpp_rkvdec_dev
            else mpp_find_device env mpp_vpu_dev)
         else None)
      else if soc = RK3328 then
        (if type = CTX_ENC then
           (if coding = VC_HEVC then mpp_find_device env mpp_h265e_dev else mpp_find_device env mpp_vepu_dev)
         else if type = CTX_DEC then
           (if coding \<in> {VC_AVC, VC_HEVC, VC_VP9} then mpp_find_device env mpp_rkvdec_dev
            else mpp_find_device env mpp_vpu_dev)
         else None)
      else if soc = RV1108 then
        (if coding = VC_AVC then
           (if type = CTX_ENC then mpp_find_device env mpp_rkvenc_dev else mpp_find_device env mpp_rkvdec_dev)
         else if coding = VC_MJPEG then mpp_find_device env mpp_vpu_dev
         else None)
      else if soc \<in> {RV1109, RV1126} then
        (if coding \<in> {VC_AVC, VC_HEVC} then
           (if type = CTX_ENC then mpp_find_device env mpp_rkvenc_dev else mpp_find_device env mpp_rkvdec_dev)
         else if coding = VC_MJPEG then mpp_find_device env mpp_vpu_dev
         else None)
      else if soc \<in> {RK3566, RK3568} then
        (if type = CTX_DEC then
           (if coding \<in> {VC_AVC, VC_HEVC, VC_VP9} then mpp_find_device env mpp_rkvdec_dev
            else if coding = VC_MJPEG then mpp_find_device env mpp_jpegd_dev
            else mpp_find_device env mpp_vpu_dev)
         else if type = CTX_ENC then
           (if coding \<in> {VC_AVC, VC_HEVC} then mpp_find_device env mpp_rkvenc_dev
            else if coding \<in> {VC_MJPEG, VC_VP8} then mpp_find_device env mpp_vpu_dev
            else None)
         else None)
      else if soc = RK3588 then
        (if type = CTX_DEC then
           (if coding \<in> {VC_AVC, VC_HEVC, VC_AVS2, VC_VP9} then mpp_find_device env mpp_rkvdec_dev
            else if coding = VC_MJPEG then mpp_find_device env mpp_jpegd_dev
            else mpp_find_device env mpp_vpu_dev)
         else if type = CTX_ENC then
           (if coding \<in> {VC_AVC, VC_HEVC} then mpp_find_device env mpp_rkvenc_dev
            else if coding \<in> {VC_MJPEG, VC_VP8} then mpp_find_device env mpp_vpu_dev
            else None)
         else None)
      else mpp_get_platform_dev_name env type coding pf)"

section \<open>The context\<close>

definition MAX_REGS_COUNT :: nat where "MAX_REGS_COUNT = 3"
definition MPX_EXTRA_INFO_NUM :: nat where "MPX_EXTRA_INFO_NUM = 16"
definition VC_MAX_INFO :: nat where "VC_MAX_INFO = 16"
definition INFO_FORMAT_TYPE :: u32 where "INFO_FORMAT_TYPE = 3"
definition EXTRA_INFO_MAGIC :: u32 where "EXTRA_INFO_MAGIC = 0x4C4A46"
definition EXTRA_WORDS :: nat where "EXTRA_WORDS = 34"

record extra_info =
  ei_magic :: u32
  ei_count :: nat
  ei_slots :: "reg_info list"

record vreg =
  vr_reg_size :: u32
  vr_extra :: extra_info
  vr_set :: u64
  vr_get :: u64

record vsvc =
  vs_fmt :: u64
  vs_fd :: int
  vs_max_regs :: nat
  vs_reg_size :: u32
  vs_send_idx :: nat
  vs_poll_idx :: nat
  vs_regs :: "vreg list"
  vs_info_count :: nat
  vs_info :: "dev_info list"

text \<open>The bytes of the format up to the first zero; eight bytes without one are not a string.\<close>

definition fmt_string :: "u64 \<Rightarrow> string option" where
  "fmt_string fmt =
     (let bytes = map (\<lambda>i. unat (drop_bit (8 * i) fmt AND 0xFF)) [0..<8]
      in if 0 \<in> set bytes then Some (map char_of (takeWhile (\<lambda>b. b \<noteq> 0) bytes)) else None)"

definition extra_info_init :: "extra_info \<Rightarrow> extra_info" where
  "extra_info_init info = info\<lparr>ei_magic := EXTRA_INFO_MAGIC, ei_count := 0\<rparr>"

text \<open>
  \<open>reg[slot->reg_idx] |= slot->offset << 10\<close> for the slots in use, and the words of the extra
  information as they lie in memory.
\<close>

fun or_offsets :: "reg_info list \<Rightarrow> u32 list \<Rightarrow> u32 list option" where
  "or_offsets [] regs = Some regs"
| "or_offsets ((r, off) # xs) regs =
     (if unat r < length regs then or_offsets xs (regs[unat r := regs ! unat r OR push_bit 10 off]) else None)"

definition extra_words :: "extra_info \<Rightarrow> u32 list" where
  "extra_words info = ei_magic info # of_nat (ei_count info) # concat (map (\<lambda>(r, off). [r, off]) (ei_slots info))"

definition put_words :: "u32 list \<Rightarrow> nat \<Rightarrow> u32 list \<Rightarrow> u32 list option" where
  "put_words blk off ws =
     (if off + length ws \<le> length blk then Some (take off blk @ ws @ drop (off + length ws) blk) else None)"

definition update_extra_info :: "string \<Rightarrow> vreg \<Rightarrow> world \<Rightarrow> (vreg \<times> world) option" where
  "update_extra_info fmt reg w =
     (let info = vr_extra reg in
      if ei_count info = 0 then Some (reg, w)
      else do {
        blk \<leftarrow> w_mem w (vr_set reg);
        (if \<not> strstr fmt ''mjpeg'' then do {
           blk \<leftarrow> or_offsets (take (ei_count info) (ei_slots info)) blk;
           Some (reg\<lparr>vr_extra := info\<lparr>ei_count := 0\<rparr>\<rparr>, w\<lparr>w_mem := (w_mem w)(vr_set reg \<mapsto> blk)\<rparr>)
         }
         else if vr_reg_size reg mod 4 \<noteq> 0 then None
         else do {
           blk \<leftarrow> put_words blk (unat (vr_reg_size reg) div 4) (extra_words info);
           Some (reg\<lparr>vr_reg_size := vr_reg_size reg + of_nat (4 * EXTRA_WORDS), vr_extra := extra_info_init info\<rparr>,
                 w\<lparr>w_mem := (w_mem w)(vr_set reg \<mapsto> blk)\<rparr>)
         })
      })"

section \<open>Operations\<close>

datatype client_type = VPU_CLIENT_VDPU1 | VPU_CLIENT_VDPU2 | VPU_CLIENT_VDPU1_PP | VPU_CLIENT_VDPU2_PP
  | VPU_CLIENT_HEVC_DEC | VPU_CLIENT_RKVDEC | VPU_CLIENT_AVSPLUS_DEC | VPU_CLIENT_RKVENC
  | VPU_CLIENT_VEPU1 | VPU_CLIENT_VEPU2 | VPU_CLIENT_other nat

definition VDPU1_REGISTERS :: u32 where "VDPU1_REGISTERS = 101"
definition VDPU2_REGISTERS :: u32 where "VDPU2_REGISTERS = 159"
definition VDPU1_PP_REGISTERS :: u32 where "VDPU1_PP_REGISTERS = 164"
definition VDPU2_PP_REGISTERS :: u32 where "VDPU2_PP_REGISTERS = 184"
definition RKHEVC_REGISTERS :: u32 where "RKHEVC_REGISTERS = 68"
definition RKVDEC_REGISTERS :: u32 where "RKVDEC_REGISTERS = 78"
definition AVSD_REGISTERS :: u32 where "AVSD_REGISTERS = 60"
definition VEPU1_REGISTERS :: u32 where "VEPU1_REGISTERS = 164"
definition VEPU2_REGISTERS :: u32 where "VEPU2_REGISTERS = 184"

lemmas register_defs = VDPU1_REGISTERS_def VDPU2_REGISTERS_def VDPU1_PP_REGISTERS_def
  VDPU2_PP_REGISTERS_def RKHEVC_REGISTERS_def RKVDEC_REGISTERS_def AVSD_REGISTERS_def
  VEPU1_REGISTERS_def VEPU2_REGISTERS_def

text \<open>The device, the kind of client, the number of registers and of register sets of a type.\<close>

definition client_setup :: "sys_env \<Rightarrow> client_type \<Rightarrow> (string option \<times> vpu_client \<times> u32 \<times> nat) option" where
  "client_setup env type = (case type of
     VPU_CLIENT_VDPU1 \<Rightarrow> Some (mpp_find_device env mpp_vpu_dev, VPU_DEC, VDPU1_REGISTERS, 2)
   | VPU_CLIENT_VDPU2 \<Rightarrow> Some (mpp_find_device env mpp_vpu_dev, VPU_DEC, VDPU2_REGISTERS, 2)
   | VPU_CLIENT_VDPU1_PP \<Rightarrow> Some (mpp_find_device env mpp_vpu_dev, VPU_DEC_PP, VDPU1_PP_REGISTERS, 2)
   | VPU_CLIENT_VDPU2_PP \<Rightarrow> Some (mpp_find_device env mpp_vpu_dev, VPU_DEC_PP, VDPU2_PP_REGISTERS, 2)
   | VPU_CLIENT_HEVC_DEC \<Rightarrow> Some (mpp_find_device env mpp_hevc_dev, VPU_DEC, RKHEVC_REGISTERS, 3)
   | VPU_CLIENT_RKVDEC \<Rightarrow> Some (mpp_find_device env mpp_rkvdec_dev, VPU_DEC, RKVDEC_REGISTERS, 3)
   | VPU_CLIENT_AVSPLUS_DEC \<Rightarrow> Some (mpp_find_device env mpp_avsd_dev, VPU_DEC, AVSD_REGISTERS, 2)
   | VPU_CLIENT_RKVENC \<Rightarrow> Some (mpp_find_device env mpp_rkvenc_dev, VPU_ENC, AVSD_REGISTERS, 2)
   | VPU_CLIENT_VEPU1 \<Rightarrow> Some (mpp_find_device env mpp_vpu_dev, VPU_ENC, VEPU1_REGISTERS, 2)
   | VPU_CLIENT_VEPU2 \<Rightarrow>
       Some (case mpp_find_device env mpp_vepu_dev of None \<Rightarrow> mpp_find_device env mpp_vpu_dev | Some d \<Rightarrow> Some d,
             VPU_ENC, VEPU2_REGISTERS, 2)
   | VPU_CLIENT_other n \<Rightarrow> None)"

text \<open>\<open>version\<close> is the static variable \<open>vcodec_ioctl_version\<close>, -1 before the first success.\<close>

definition set_client :: "int \<Rightarrow> int \<Rightarrow> vpu_client \<Rightarrow> world \<Rightarrow> int \<times> int \<times> world" where
  "set_client fd version client w =
     (if version < 0 then
        let (r, w) = sys_ioctl fd (Ioc_client VPU_IOC_SET_CLIENT_TYPE client) w in
        (if rp_ret r = 0 then (rp_ret r, 0, w)
         else let (r, w) = sys_ioctl fd (Ioc_client VPU_IOC_SET_CLIENT_TYPE_U32 client) w
              in (rp_ret r, if rp_ret r = 0 then 1 else version, w))
      else
        let (r, w) = sys_ioctl fd (Ioc_client (if version = 0 then VPU_IOC_SET_CLIENT_TYPE
                                               else VPU_IOC_SET_CLIENT_TYPE_U32) client) w
        in (rp_ret r, version, w))"

definition vcodec_service_init ::
  "sys_env \<Rightarrow> client_type \<Rightarrow> int \<Rightarrow> vsvc \<Rightarrow> world \<Rightarrow> mpp_ret \<times> int \<times> vsvc \<times> world" where
  "vcodec_service_init env type version p w =
     (case client_setup env type of
        None \<Rightarrow> (MPP_NOK, version, p, w)
      | Some (name, client, reg_size, max_regs) \<Rightarrow>
          let (fd, w) = sys_open name w; p = p\<lparr>vs_fd := fd\<rparr> in
          (if fd < 0 then (MPP_NOK, version, p, w)
           else let (ret, version, w) = set_client fd version client w;
                    sz = reg_size * 4;
                    p = p\<lparr>vs_max_regs := max_regs, vs_reg_size := sz,
                          vs_regs := map (\<lambda>r. r\<lparr>vr_reg_size := sz, vr_extra := extra_info_init (vr_extra r)\<rparr>)
                                       (take max_regs (vs_regs p)) @ drop max_regs (vs_regs p)\<rparr>
                in (ret_of_int ret, version, p, w)))"

definition vcodec_service_deinit :: "vsvc \<Rightarrow> world \<Rightarrow> mpp_ret \<times> world" where
  "vcodec_service_deinit p w = (MPP_OK, if vs_fd p \<noteq> 0 then sys_close (vs_fd p) w else w)"

text \<open>The register set that is filled next, and changing it; an index outside is \<^const>\<open>None\<close>.\<close>

definition cur_reg :: "vsvc \<Rightarrow> vreg option" where
  "cur_reg p = (if vs_send_idx p < length (vs_regs p) then Some (vs_regs p ! vs_send_idx p) else None)"

definition set_cur :: "vreg \<Rightarrow> vsvc \<Rightarrow> vsvc" where
  "set_cur r p = p\<lparr>vs_regs := (vs_regs p)[vs_send_idx p := r]\<rparr>"

definition vcodec_service_reg_wr :: "reg_cfg \<Rightarrow> vsvc dev_op" where
  "vcodec_service_reg_wr cfg p w = do {
     r \<leftarrow> cur_reg p;
     Some (MPP_OK, set_cur (r\<lparr>vr_set := rc_reg cfg, vr_reg_size := rc_size cfg\<rparr>) p, w)
   }"

definition vcodec_service_reg_rd :: "reg_cfg \<Rightarrow> vsvc dev_op" where
  "vcodec_service_reg_rd cfg p w = do {
     r \<leftarrow> cur_reg p;
     Some (MPP_OK, set_cur (r\<lparr>vr_get := rc_reg cfg\<rparr>) p, w)
   }"

text \<open>There is no check that a slot is left: the seventeenth register is written behind them.\<close>

definition vcodec_service_fd_trans :: "reg_info \<Rightarrow> vsvc dev_op" where
  "vcodec_service_fd_trans cfg p w =
     (if snd cfg = 0 then Some (MPP_OK, p, w)
      else do {
        r \<leftarrow> cur_reg p;
        let e = vr_extra r;
        (case find_reg (fst cfg) (take (ei_count e) (ei_slots e)) 0 of
           Some i \<Rightarrow> Some (MPP_OK, set_cur (r\<lparr>vr_extra := e\<lparr>ei_slots := (ei_slots e)[i := cfg]\<rparr>\<rparr>) p, w)
         | None \<Rightarrow>
             if ei_count e \<ge> MPX_EXTRA_INFO_NUM then None
             else Some (MPP_OK, set_cur (r\<lparr>vr_extra := e\<lparr>ei_slots := (ei_slots e)[ei_count e := cfg],
                                                          ei_count := Suc (ei_count e)\<rparr>\<rparr>) p, w))
      })"

definition vcodec_service_cmd_send :: "vsvc dev_op" where
  "vcodec_service_cmd_send p w = do {
     r \<leftarrow> cur_reg p;
     fmt \<leftarrow> (if ei_count (vr_extra r) = 0 then Some [] else fmt_string (vs_fmt p));
     (r', w) \<leftarrow> update_extra_info fmt r w;
     let (rep, w) = sys_ioctl (vs_fd p) (Ioc_vpu VPU_IOC_SET_REG (vr_set r) (vr_reg_size r') (w_mem w (vr_set r))) w;
     let idx = vs_send_idx p + 1;
     let p = (set_cur r' p)\<lparr>vs_send_idx := if idx \<ge> vs_max_regs p then 0 else idx, vs_info_count := 0\<rparr>;
     Some (if rp_ret rep \<noteq> 0 then ret_of_int (rp_errno rep) else MPP_OK, p, w)
   }"

definition vcodec_service_cmd_poll :: "vsvc dev_op" where
  "vcodec_service_cmd_poll p w =
     (if vs_poll_idx p < length (vs_regs p) then
        let r = vs_regs p ! vs_poll_idx p;
            (rep, w) = sys_ioctl (vs_fd p) (Ioc_vpu VPU_IOC_GET_REG (vr_get r) (vr_reg_size r) (w_mem w (vr_get r))) w;
            idx = vs_poll_idx p + 1
        in Some (if rp_ret rep \<noteq> 0 then ret_of_int (rp_errno rep) else MPP_OK,
                 p\<lparr>vs_poll_idx := if idx \<ge> vs_max_regs p then 0 else idx\<rparr>, w)
      else None)"

definition vcodec_service_set_info :: "dev_info \<Rightarrow> vsvc dev_op" where
  "vcodec_service_set_info cfg p w =
     (if vs_info_count p \<ge> VC_MAX_INFO then Some (MPP_NOK, p, w)
      else let p = p\<lparr>vs_info := take (vs_info_count p) (vs_info p) @ [cfg], vs_info_count := Suc (vs_info_count p)\<rparr>
           in Some (MPP_OK, if di_type cfg = INFO_FORMAT_TYPE then p\<lparr>vs_fmt := di_data cfg\<rparr> else p, w))"

section \<open>Invariant\<close>

definition vc_inv :: "vsvc \<Rightarrow> bool" where
  "vc_inv p \<longleftrightarrow> vs_max_regs p \<in> {2, 3} \<and> length (vs_regs p) = MAX_REGS_COUNT \<and>
     vs_send_idx p < vs_max_regs p \<and> vs_poll_idx p < vs_max_regs p \<and>
     (\<forall>i < MAX_REGS_COUNT. length (ei_slots (vr_extra (vs_regs p ! i))) = MPX_EXTRA_INFO_NUM \<and>
        ei_count (vr_extra (vs_regs p ! i)) \<le> MPX_EXTRA_INFO_NUM \<and>
        (i \<noteq> vs_send_idx p \<longrightarrow> ei_count (vr_extra (vs_regs p ! i)) = 0)) \<and>
     vs_info_count p \<le> VC_MAX_INFO"

abbreviation cur :: "vsvc \<Rightarrow> vreg" where
  "cur p \<equiv> vs_regs p ! vs_send_idx p"

definition vc_offsets :: "vsvc \<Rightarrow> reg_info list" where
  "vc_offsets p = take (ei_count (vr_extra (cur p))) (ei_slots (vr_extra (cur p)))"

lemma vc_cur:
  assumes "vc_inv p"
  shows "cur_reg p = Some (cur p)" "vs_send_idx p < 3" "length (vs_regs p) = 3"
    "length (ei_slots (vr_extra (cur p))) = 16" "ei_count (vr_extra (cur p)) \<le> 16" "length (vc_offsets p) = ei_count (vr_extra (cur p))"
  using assms by (auto simp: vc_inv_def cur_reg_def MAX_REGS_COUNT_def MPX_EXTRA_INFO_NUM_def vc_offsets_def)

lemma set_cur_inv:
  assumes "vc_inv p" "length (ei_slots (vr_extra r)) = MPX_EXTRA_INFO_NUM" "ei_count (vr_extra r) \<le> MPX_EXTRA_INFO_NUM"
  shows "vc_inv (set_cur r p)"
  using assms by (auto simp: vc_inv_def set_cur_def nth_list_update MAX_REGS_COUNT_def)

lemma cur_set_cur [simp]: "vc_inv p \<Longrightarrow> cur (set_cur r p) = r"
  using vc_cur(2,3) [of p] by (simp add: set_cur_def)

lemma set_cur_simps [simp]:
  "vs_max_regs (set_cur r p) = vs_max_regs p" "vs_send_idx (set_cur r p) = vs_send_idx p"
  "vs_poll_idx (set_cur r p) = vs_poll_idx p" "vs_fd (set_cur r p) = vs_fd p" "vs_fmt (set_cur r p) = vs_fmt p"
  "vs_regs (set_cur r p) = (vs_regs p)[vs_send_idx p := r]"
  by (simp_all add: set_cur_def)

lemma reg_wr_ok:
  assumes "vc_inv p"
  shows "\<exists>p'. vcodec_service_reg_wr cfg p w = Some (MPP_OK, p', w) \<and> vc_inv p' \<and> vc_offsets p' = vc_offsets p \<and>
    p' = set_cur ((cur p)\<lparr>vr_set := rc_reg cfg, vr_reg_size := rc_size cfg\<rparr>) p"
  using assms vc_cur [OF assms]
  by (auto simp: vcodec_service_reg_wr_def vc_offsets_def MPX_EXTRA_INFO_NUM_def intro!: set_cur_inv)

lemma reg_rd_ok:
  assumes "vc_inv p"
  shows "\<exists>p'. vcodec_service_reg_rd cfg p w = Some (MPP_OK, p', w) \<and> vc_inv p' \<and> vc_offsets p' = vc_offsets p \<and>
    p' = set_cur ((cur p)\<lparr>vr_get := rc_reg cfg\<rparr>) p"
  using assms vc_cur [OF assms]
  by (auto simp: vcodec_service_reg_rd_def vc_offsets_def MPX_EXTRA_INFO_NUM_def intro!: set_cur_inv)

lemma find_reg_fst: "find_reg r xs i = Some k \<Longrightarrow> fst (xs ! (k - i)) = r"
proof (induction r xs i rule: find_reg.induct)
  case (2 r r' v xs i)
  show ?case
  proof (cases "r' = r")
    case False
    then have "find_reg r xs (Suc i) = Some k" using 2 by simp
    moreover from find_reg_upsert [OF this, of v] have "Suc i \<le> k" by blast
    then have "k - i = Suc (k - Suc i)" by arith
    ultimately show ?thesis using 2 False by simp
  qed (use 2 in simp)
qed simp

lemma fd_trans_ok:
  assumes "vc_inv p" "off \<noteq> 0" "length (vc_offsets p) < MPX_EXTRA_INFO_NUM"
  shows "\<exists>p' e. vcodec_service_fd_trans (r, off) p w = Some (MPP_OK, p', w) \<and> vc_inv p' \<and>
    vc_offsets p' = upsert r off (vc_offsets p) \<and> p' = set_cur ((cur p)\<lparr>vr_extra := e\<rparr>) p"
proof -
  note c = vc_cur [OF assms(1)]
  let ?e = "vr_extra (cur p)"
  let ?xs = "take (ei_count ?e) (ei_slots ?e)"
  have xs: "vc_offsets p = ?xs" by (simp add: vc_offsets_def)
  show ?thesis
  proof (cases "find_reg r ?xs 0")
    case None
    let ?p = "set_cur ((cur p)\<lparr>vr_extra := ?e\<lparr>ei_slots := (ei_slots ?e)[ei_count ?e := (r, off)], ei_count := Suc (ei_count ?e)\<rparr>\<rparr>) p"
    have lt: "ei_count ?e < 16" using assms(3) c(6) by (simp add: MPX_EXTRA_INFO_NUM_def)
    have "vc_inv ?p" by (rule set_cur_inv [OF assms(1)]) (use c lt in \<open>simp_all add: MPX_EXTRA_INFO_NUM_def\<close>)
    moreover have "vc_offsets ?p = ?xs @ [(r, off)]"
      using assms(1) c lt by (simp add: vc_offsets_def take_Suc_conv_app_nth)
    moreover have "r \<notin> fst ` set ?xs" using None find_reg_None by blast
    ultimately show ?thesis using assms(2) c(1) None lt
      by (auto simp: vcodec_service_fd_trans_def xs upsert_new MPX_EXTRA_INFO_NUM_def Let_def)
  next
    case (Some k)
    have f: "?xs[k := (r, off)] = upsert r off ?xs"
      using find_reg_upsert [OF Some, of off] find_reg_fst [OF Some] by (simp del: nth_take)
    let ?p = "set_cur ((cur p)\<lparr>vr_extra := ?e\<lparr>ei_slots := (ei_slots ?e)[k := (r, off)]\<rparr>\<rparr>) p"
    have "vc_inv ?p" by (rule set_cur_inv [OF assms(1)]) (use c in \<open>simp_all add: MPX_EXTRA_INFO_NUM_def\<close>)
    moreover have "vc_offsets ?p = upsert r off ?xs"
      using assms(1) c f by (simp add: vc_offsets_def take_update_swap)
    ultimately show ?thesis using assms(2) c(1) Some
      by (auto simp: vcodec_service_fd_trans_def xs Let_def)
  qed
qed

text \<open>The index after a step around the ring.\<close>

abbreviation ring_next :: "nat \<Rightarrow> nat \<Rightarrow> nat" where
  "ring_next i m \<equiv> (if i + 1 \<ge> m then 0 else i + 1)"

lemma ring_next_mod: "i < m \<Longrightarrow> ring_next i m = Suc i mod m"
  by (auto simp: le_Suc_eq not_le)

text \<open>
  The registers of a task are in memory and hold every register that has an offset; with the
  extra information appended there is room for it.
\<close>

definition send_ready :: "vsvc \<Rightarrow> world \<Rightarrow> bool" where
  "send_ready p w \<longleftrightarrow>
     (vc_offsets p \<noteq> [] \<longrightarrow>
        (\<exists>fmt blk. fmt_string (vs_fmt p) = Some fmt \<and> w_mem w (vr_set (cur p)) = Some blk \<and>
           (if strstr fmt ''mjpeg''
            then vr_reg_size (cur p) mod 4 = 0 \<and> unat (vr_reg_size (cur p)) div 4 + EXTRA_WORDS \<le> length blk
            else \<forall>(r, off) \<in> set (vc_offsets p). unat r < length blk)))"

lemma or_offsets_length: "or_offsets xs regs = Some regs' \<Longrightarrow> length regs' = length regs"
  by (induction xs regs arbitrary: regs' rule: or_offsets.induct) (auto split: if_splits)

lemma or_offsets_ok: "\<forall>(r, off) \<in> set xs. unat r < length regs \<Longrightarrow> \<exists>regs'. or_offsets xs regs = Some regs'"
  by (induction xs regs rule: or_offsets.induct) auto

lemma extra_words_length: "length (ei_slots e) = 16 \<Longrightarrow> length (extra_words e) = EXTRA_WORDS"
proof -
  have "length (concat (map (\<lambda>(r, off). [r, off]) xs)) = 2 * length xs" for xs :: "reg_info list"
    by (induction xs) auto
  then show "length (ei_slots e) = 16 \<Longrightarrow> length (extra_words e) = EXTRA_WORDS"
    by (simp add: extra_words_def EXTRA_WORDS_def)
qed

text \<open>What a send appends to registers with offsets: motion JPEG has the extra information behind them.\<close>

definition mjpeg_fmt :: "u64 \<Rightarrow> bool" where
  "mjpeg_fmt n = (case fmt_string n of None \<Rightarrow> False | Some fmt \<Rightarrow> strstr fmt ''mjpeg'')"

definition same_blocks :: "world \<Rightarrow> world \<Rightarrow> bool" where
  "same_blocks w w' \<longleftrightarrow> (\<forall>a. map_option length (w_mem w' a) = map_option length (w_mem w a))"

lemma put_words_length: "put_words blk i ws = Some blk' \<Longrightarrow> length blk' = length blk"
  by (auto simp: put_words_def split: if_splits)

lemma update_ok:
  assumes "vc_inv p" "send_ready p w"
  obtains fmt r w' where "(if ei_count (vr_extra (cur p)) = 0 then Some [] else fmt_string (vs_fmt p)) = Some fmt"
    "update_extra_info fmt (cur p) w = Some (r, w')" "ei_count (vr_extra r) = 0" "length (ei_slots (vr_extra r)) = 16"
    "w_log w' = w_log w" "w_heap w' = w_heap w" "vr_get r = vr_get (cur p)"
    "ei_count (vr_extra (cur p)) = 0 \<longrightarrow> r = cur p \<and> w' = w"
    "vr_reg_size r = vr_reg_size (cur p) + (if vc_offsets p \<noteq> [] \<and> mjpeg_fmt (vs_fmt p) then of_nat (4 * EXTRA_WORDS) else 0)"
    "same_blocks w w'"
proof (cases "ei_count (vr_extra (cur p)) = 0")
  case True
  show thesis
    by (rule that [of "[]" "cur p" w]) (use True vc_cur(4,6) [OF assms(1)] in \<open>auto simp: update_extra_info_def same_blocks_def\<close>)
next
  case False
  have "vc_offsets p \<noteq> []" using False vc_cur(6) [OF assms(1)] by auto
  then obtain fmt blk where f: "fmt_string (vs_fmt p) = Some fmt" "w_mem w (vr_set (cur p)) = Some blk"
    and c: "if strstr fmt ''mjpeg''
            then vr_reg_size (cur p) mod 4 = 0 \<and> unat (vr_reg_size (cur p)) div 4 + EXTRA_WORDS \<le> length blk
            else \<forall>(r, off) \<in> set (vc_offsets p). unat r < length blk"
    using assms(2) by (auto simp: send_ready_def)
  show thesis
  proof (cases "strstr fmt ''mjpeg''")
    case True
    with c obtain b where b: "put_words blk (unat (vr_reg_size (cur p)) div 4) (extra_words (vr_extra (cur p))) = Some b"
      using extra_words_length [OF vc_cur(4) [OF assms(1)]] by (auto simp: put_words_def)
    show thesis
      by (rule that [of fmt "(cur p)\<lparr>vr_reg_size := vr_reg_size (cur p) + of_nat (4 * EXTRA_WORDS),
            vr_extra := extra_info_init (vr_extra (cur p))\<rparr>" "w\<lparr>w_mem := (w_mem w)(vr_set (cur p) \<mapsto> b)\<rparr>"])
        (use f True c b False vc_cur(4) [OF assms(1)] \<open>vc_offsets p \<noteq> []\<close> in
          \<open>simp_all add: update_extra_info_def extra_info_init_def mjpeg_fmt_def same_blocks_def put_words_length\<close>)
  next
    case no: False
    with c have "\<forall>(r, off) \<in> set (vc_offsets p). unat r < length blk" by simp
    then obtain b where b: "or_offsets (vc_offsets p) blk = Some b" using or_offsets_ok by blast
    show thesis
      by (rule that [of fmt "(cur p)\<lparr>vr_extra := (vr_extra (cur p))\<lparr>ei_count := 0\<rparr>\<rparr>"
            "w\<lparr>w_mem := (w_mem w)(vr_set (cur p) \<mapsto> b)\<rparr>"])
        (use f no b False vc_cur(4) [OF assms(1)] or_offsets_length [OF b] in
          \<open>simp_all add: update_extra_info_def vc_offsets_def mjpeg_fmt_def same_blocks_def\<close>)
  qed
qed


lemma send_ok:
  assumes "vc_inv p" "send_ready p w"
  obtains ret r p' w' where "vcodec_service_cmd_send p w = Some (ret, p', w')" "vc_inv p'" "vc_offsets p' = []"
    "w_heap w' = w_heap w" "vs_send_idx p' = ring_next (vs_send_idx p) (vs_max_regs p)"
    "vs_regs p' = (vs_regs p)[vs_send_idx p := r]" "vr_get r = vr_get (cur p)" "vs_poll_idx p' = vs_poll_idx p"
    "vs_max_regs p' = vs_max_regs p" "ei_count (vr_extra (cur p)) = 0 \<longrightarrow> r = cur p" "ei_count (vr_extra r) = 0"
    "\<exists>sz ws. w_log w' = w_log w @ [Ev_ioctl (vs_fd p) (Ioc_vpu VPU_IOC_SET_REG (vr_set (cur p)) sz ws)]"
    "vs_fd p' = vs_fd p" "ei_count (vr_extra (cur p)) = 0 \<longrightarrow> w_mem w' = w_mem w" "vs_fmt p' = vs_fmt p"
    "vr_reg_size r = vr_reg_size (cur p) + (if vc_offsets p \<noteq> [] \<and> mjpeg_fmt (vs_fmt p) then of_nat (4 * EXTRA_WORDS) else 0)"
    "same_blocks w w'"
proof -
  note c = vc_cur [OF assms(1)]
  obtain fmt r w1 where u: "(if ei_count (vr_extra (cur p)) = 0 then Some [] else fmt_string (vs_fmt p)) = Some fmt"
    "update_extra_info fmt (cur p) w = Some (r, w1)" "ei_count (vr_extra r) = 0" "length (ei_slots (vr_extra r)) = 16"
    "w_log w1 = w_log w" "w_heap w1 = w_heap w" "vr_get r = vr_get (cur p)"
    "ei_count (vr_extra (cur p)) = 0 \<longrightarrow> r = cur p \<and> w1 = w"
    "vr_reg_size r = vr_reg_size (cur p) + (if vc_offsets p \<noteq> [] \<and> mjpeg_fmt (vs_fmt p) then of_nat (4 * EXTRA_WORDS) else 0)"
    "same_blocks w w1"
    by (rule update_ok [OF assms]) (rule that)
  let ?i = "Ioc_vpu VPU_IOC_SET_REG (vr_set (cur p)) (vr_reg_size r) (w_mem w1 (vr_set (cur p)))"
  obtain rep w2 where io: "sys_ioctl (vs_fd p) ?i w1 = (rep, w2)" by fastforce
  let ?p = "(set_cur r p)\<lparr>vs_send_idx := ring_next (vs_send_idx p) (vs_max_regs p), vs_info_count := 0\<rparr>"
  have s: "vcodec_service_cmd_send p w = Some (if rp_ret rep \<noteq> 0 then ret_of_int (rp_errno rep) else MPP_OK, ?p, w2)"
    using c(1) u(1,2) io by (simp add: vcodec_service_cmd_send_def set_cur_def)
  have i: "vc_inv (set_cur r p)"
    by (rule set_cur_inv [OF assms(1)]) (use u in \<open>simp_all add: MPX_EXTRA_INFO_NUM_def\<close>)
  have z: "ei_count (vr_extra ((vs_regs p)[vs_send_idx p := r] ! k)) = 0" if "k < MAX_REGS_COUNT" for k
    using assms(1) that u(3) by (auto simp: vc_inv_def nth_list_update MAX_REGS_COUNT_def)
  have n: "ring_next (vs_send_idx p) (vs_max_regs p) < vs_max_regs p" "vs_max_regs p \<le> MAX_REGS_COUNT"
    using assms(1) by (auto simp: vc_inv_def MAX_REGS_COUNT_def)
  have inv: "vc_inv ?p" using i z n by (auto simp: vc_inv_def)
  have off: "vc_offsets ?p = []" using z [OF less_le_trans [OF n]] by (simp add: vc_offsets_def)
  show thesis
    by (rule that [OF s inv off]) (use u io sys_ioctl_log [OF io] in \<open>auto simp: same_blocks_def\<close>)
qed

lemma poll_ok:
  assumes "vc_inv p"
  obtains ret p' w' where "vcodec_service_cmd_poll p w = Some (ret, p', w')" "vc_inv p'"
    "p' = p\<lparr>vs_poll_idx := ring_next (vs_poll_idx p) (vs_max_regs p)\<rparr>"
    "\<exists>ws. w_log w' = w_log w @ [Ev_ioctl (vs_fd p) (Ioc_vpu VPU_IOC_GET_REG (vr_get (vs_regs p ! vs_poll_idx p))
       (vr_reg_size (vs_regs p ! vs_poll_idx p)) ws)]" "w_mem w' = w_mem w" "w_heap w' = w_heap w"
proof -
  let ?r = "vs_regs p ! vs_poll_idx p"
  obtain rep w' where io: "sys_ioctl (vs_fd p) (Ioc_vpu VPU_IOC_GET_REG (vr_get ?r) (vr_reg_size ?r) (w_mem w (vr_get ?r))) w = (rep, w')"
    by fastforce
  have lt: "vs_poll_idx p < length (vs_regs p)" using assms by (auto simp: vc_inv_def MAX_REGS_COUNT_def)
  show thesis
    by (rule that [of "if rp_ret rep \<noteq> 0 then ret_of_int (rp_errno rep) else MPP_OK"
          "p\<lparr>vs_poll_idx := ring_next (vs_poll_idx p) (vs_max_regs p)\<rparr>" w'])
      (use io lt assms sys_ioctl_log [OF io] in \<open>auto simp: vcodec_service_cmd_poll_def vc_inv_def\<close>)
qed

section \<open>The ring as a queue\<close>

text \<open>A task writes its registers, sets offsets, says where to read back, and is sent; a poll reads back.\<close>

datatype ring_op = Ring_task reg_cfg "reg_info list" reg_cfg | Ring_poll

fun ring_run :: "ring_op list \<Rightarrow> vsvc \<Rightarrow> world \<Rightarrow> (vsvc \<times> world) option" where
  "ring_run [] p w = Some (p, w)"
| "ring_run (Ring_task wr offs rd # ops) p w = do {
     (_, p, w) \<leftarrow> vcodec_service_reg_wr wr p w;
     (p, w) \<leftarrow> run_ops (map vcodec_service_fd_trans offs) p w;
     (_, p, w) \<leftarrow> vcodec_service_reg_rd rd p w;
     (_, p, w) \<leftarrow> vcodec_service_cmd_send p w;
     ring_run ops p w
   }"
| "ring_run (Ring_poll # ops) p w = do { (_, p, w) \<leftarrow> vcodec_service_cmd_poll p w; ring_run ops p w }"

text \<open>
  The specification: a queue of the places to read back to, with their sizes, of a length that is bounded. For
  motion JPEG (\<open>mj\<close>) the size of a task with offsets grows by that of the information behind its registers.
\<close>

definition task_size :: "bool \<Rightarrow> reg_cfg \<Rightarrow> reg_info list \<Rightarrow> u32" where
  "task_size mj wr offs = rc_size wr + (if mj \<and> (\<exists>x \<in> set offs. snd x \<noteq> 0) then of_nat (4 * EXTRA_WORDS) else 0)"

fun queue_run :: "bool \<Rightarrow> nat \<Rightarrow> ring_op list \<Rightarrow> (u64 \<times> u32) list \<Rightarrow> (u64 \<times> u32) list option" where
  "queue_run mj m [] q = Some []"
| "queue_run mj m (Ring_task wr offs rd # ops) q =
     (if length q < m then queue_run mj m ops (q @ [(rc_reg rd, task_size mj wr offs)]) else None)"
| "queue_run mj m (Ring_poll # ops) [] = None"
| "queue_run mj m (Ring_poll # ops) (x # q) = map_option ((#) x) (queue_run mj m ops q)"

text \<open>
  A task that can be sent: it has no more offsets than the extra information has slots, and when there are any
  that are not zero, its registers are in memory, with the ones that have offsets, or with room for the
  information behind them.
\<close>

fun ring_op_ready :: "u64 \<Rightarrow> (u64 \<Rightarrow> nat option) \<Rightarrow> ring_op \<Rightarrow> bool" where
  "ring_op_ready fmt blocks (Ring_task wr offs rd) \<longleftrightarrow> length offs \<le> MPX_EXTRA_INFO_NUM \<and>
     ((\<exists>x \<in> set offs. snd x \<noteq> 0) \<longrightarrow> (case (fmt_string fmt, blocks (rc_reg wr)) of
        (Some f, Some n) \<Rightarrow> (if strstr f ''mjpeg'' then rc_size wr mod 4 = 0 \<and> unat (rc_size wr) div 4 + EXTRA_WORDS \<le> n
          else \<forall>x \<in> set offs. snd x \<noteq> 0 \<longrightarrow> unat (fst x) < n)
      | _ \<Rightarrow> False))"
| "ring_op_ready fmt blocks Ring_poll \<longleftrightarrow> True"

definition block_sizes :: "world \<Rightarrow> u64 \<Rightarrow> nat option" where
  "block_sizes w a = map_option length (w_mem w a)"

lemma same_blocks_sizes: "same_blocks w w' \<Longrightarrow> block_sizes w' = block_sizes w"
  by (simp add: same_blocks_def block_sizes_def fun_eq_iff)

lemma fd_trans_step:
  assumes "vc_inv p" "length (vc_offsets p) < MPX_EXTRA_INFO_NUM"
  shows "\<exists>p' e. vcodec_service_fd_trans x p w = Some (MPP_OK, p', w) \<and> vc_inv p' \<and> p' = set_cur ((cur p)\<lparr>vr_extra := e\<rparr>) p \<and>
    vc_offsets p' = (if snd x = 0 then vc_offsets p else upsert (fst x) (snd x) (vc_offsets p))"
proof (cases "snd x = 0")
  case True
  have "p = set_cur ((cur p)\<lparr>vr_extra := vr_extra (cur p)\<rparr>) p" by (simp add: set_cur_def)
  moreover have "vcodec_service_fd_trans x p w = Some (MPP_OK, p, w)" using True by (cases x) (simp add: vcodec_service_fd_trans_def)
  ultimately show ?thesis using True assms(1) by (intro exI [of _ p] exI [of _ "vr_extra (cur p)"]) simp
next
  case False
  then show ?thesis using fd_trans_ok [OF assms(1) False assms(2), of "fst x" w] by (simp only: prod.collapse if_False) blast
qed

lemma fd_trans_all:
  "vc_inv p \<Longrightarrow> length (vc_offsets p) + length offs \<le> MPX_EXTRA_INFO_NUM \<Longrightarrow>
   \<exists>p' e. run_ops (map vcodec_service_fd_trans offs) p w = Some (p', w) \<and> vc_inv p' \<and> p' = set_cur ((cur p)\<lparr>vr_extra := e\<rparr>) p \<and>
     fst ` set (vc_offsets p') = fst ` set (vc_offsets p) \<union> fst ` {x \<in> set offs. snd x \<noteq> 0}"
proof (induction offs arbitrary: p)
  case Nil
  have "p = set_cur ((cur p)\<lparr>vr_extra := vr_extra (cur p)\<rparr>) p" by (simp add: set_cur_def)
  then show ?case using Nil by (intro exI [of _ p] exI [of _ "vr_extra (cur p)"]) simp
next
  case (Cons x offs)
  have "length (vc_offsets p) < MPX_EXTRA_INFO_NUM" using Cons.prems(2) by simp
  then obtain p1 e1 where p1: "vcodec_service_fd_trans x p w = Some (MPP_OK, p1, w)" "vc_inv p1" "p1 = set_cur ((cur p)\<lparr>vr_extra := e1\<rparr>) p"
    "vc_offsets p1 = (if snd x = 0 then vc_offsets p else upsert (fst x) (snd x) (vc_offsets p))"
    using fd_trans_step [OF Cons.prems(1)] by blast
  have "length (vc_offsets p1) + length offs \<le> MPX_EXTRA_INFO_NUM" using Cons.prems(2) p1(4) by (auto simp: length_upsert)
  from Cons.IH [OF p1(2) this] obtain p2 e2 where p2: "run_ops (map vcodec_service_fd_trans offs) p1 w = Some (p2, w)" "vc_inv p2"
    "p2 = set_cur ((cur p1)\<lparr>vr_extra := e2\<rparr>) p1"
    "fst ` set (vc_offsets p2) = fst ` set (vc_offsets p1) \<union> fst ` {x \<in> set offs. snd x \<noteq> 0}" by blast
  have c1: "cur p1 = (cur p)\<lparr>vr_extra := e1\<rparr>" using cur_set_cur [OF Cons.prems(1)] p1(3) by simp
  have "p2 = set_cur ((cur p)\<lparr>vr_extra := e2\<rparr>) p" unfolding p2(3) c1 unfolding p1(3) by (simp add: set_cur_def)
  moreover have "fst ` set (vc_offsets p2) = fst ` set (vc_offsets p) \<union> fst ` {y \<in> set (x # offs). snd y \<noteq> 0}"
    using p2(4) p1(4) by auto
  ultimately show ?case using p1(1) p2(1,2) by auto
qed

fun poll_calls :: "sys_event list \<Rightarrow> (u64 \<times> u32) list" where
  "poll_calls [] = []"
| "poll_calls (Ev_ioctl fd (Ioc_vpu VPU_IOC_GET_REG a n ws) # es) = (a, n) # poll_calls es"
| "poll_calls (_ # es) = poll_calls es"

lemma poll_calls_append [simp]: "poll_calls (xs @ ys) = poll_calls xs @ poll_calls ys"
  by (induction xs rule: poll_calls.induct) auto

definition ring_holds :: "vsvc \<Rightarrow> (u64 \<times> u32) list \<Rightarrow> bool" where
  "ring_holds p q \<longleftrightarrow> vc_inv p \<and> vc_offsets p = [] \<and> length q \<le> vs_max_regs p \<and>
     vs_send_idx p = (vs_poll_idx p + length q) mod vs_max_regs p \<and>
     (\<forall>i < length q. (let r = vs_regs p ! ((vs_poll_idx p + i) mod vs_max_regs p) in (vr_get r, vr_reg_size r)) = q ! i)"

lemma ring_slots_differ:
  fixes m :: nat
  assumes "i < n" "n < m"
  shows "(k + i) mod m \<noteq> (k + n) mod m"
proof
  assume "(k + i) mod m = (k + n) mod m"
  then have "m dvd (k + n) - (k + i)" using assms(1) mod_eq_dvd_iff_nat [of "k + i" "k + n" m] by simp
  then have "m dvd n - i" by simp
  then show False using assms nat_dvd_not_less [of "n - i" m] by simp
qed

lemma ring_task_sent:
  assumes inv: "vc_inv p" "vc_offsets p = []" and rdy: "ring_op_ready (vs_fmt p) (block_sizes w) (Ring_task wr offs rd)"
  obtains p' w' r where "\<And>ops. ring_run (Ring_task wr offs rd # ops) p w = ring_run ops p' w'" "vc_inv p'" "vc_offsets p' = []"
    "vs_regs p' = (vs_regs p)[vs_send_idx p := r]" "vr_get r = rc_reg rd" "vr_reg_size r = task_size (mjpeg_fmt (vs_fmt p)) wr offs"
    "vs_send_idx p' = ring_next (vs_send_idx p) (vs_max_regs p)" "vs_poll_idx p' = vs_poll_idx p" "vs_max_regs p' = vs_max_regs p"
    "vs_fmt p' = vs_fmt p" "block_sizes w' = block_sizes w" "poll_calls (w_log w') = poll_calls (w_log w)"
proof -
  obtain p1 where p1: "vcodec_service_reg_wr wr p w = Some (MPP_OK, p1, w)" "vc_inv p1" "vc_offsets p1 = []"
    "p1 = set_cur ((cur p)\<lparr>vr_set := rc_reg wr, vr_reg_size := rc_size wr\<rparr>) p"
    using reg_wr_ok [OF inv(1)] inv(2) by metis
  have "length (vc_offsets p1) + length offs \<le> MPX_EXTRA_INFO_NUM" using p1(3) rdy by simp
  note F = fd_trans_all [OF p1(2) this, of w]
  obtain p2 e where p2: "run_ops (map vcodec_service_fd_trans offs) p1 w = Some (p2, w)" "vc_inv p2"
    "p2 = set_cur ((cur p1)\<lparr>vr_extra := e\<rparr>) p1" "fst ` set (vc_offsets p2) = fst ` {x \<in> set offs. snd x \<noteq> 0}"
    using F unfolding p1(3) list.set image_empty Un_empty_left by blast
  obtain p3 where p3: "vcodec_service_reg_rd rd p2 w = Some (MPP_OK, p3, w)" "vc_inv p3" "vc_offsets p3 = vc_offsets p2"
    "p3 = set_cur ((cur p2)\<lparr>vr_get := rc_reg rd\<rparr>) p2"
    using reg_rd_ok [OF p2(2)] by metis
  have c1: "cur p1 = (cur p)\<lparr>vr_set := rc_reg wr, vr_reg_size := rc_size wr\<rparr>" using cur_set_cur [OF inv(1)] p1(4) by simp
  have c2: "cur p2 = (cur p1)\<lparr>vr_extra := e\<rparr>" using cur_set_cur [OF p1(2)] p2(3) by simp
  have c3: "cur p3 = (cur p2)\<lparr>vr_get := rc_reg rd\<rparr>" using cur_set_cur [OF p2(2)] p3(4) by simp
  have e3: "vs_regs p3 = (vs_regs p)[vs_send_idx p := cur p3]" "vs_send_idx p3 = vs_send_idx p" "vs_poll_idx p3 = vs_poll_idx p"
    "vs_max_regs p3 = vs_max_regs p" "vs_fmt p3 = vs_fmt p"
    unfolding c3 by (simp_all add: p3(4) p2(3) p1(4))
  have "vc_offsets p3 \<noteq> [] \<longleftrightarrow> fst ` set (vc_offsets p2) \<noteq> {}" by (simp add: p3(3))
  then have offs: "vc_offsets p3 \<noteq> [] \<longleftrightarrow> (\<exists>x \<in> set offs. snd x \<noteq> 0)" unfolding p2(4) by blast
  have regs: "fst x \<in> fst ` {x \<in> set offs. snd x \<noteq> 0}" if "x \<in> set (vc_offsets p3)" for x
    using that p2(4) p3(3) by (metis imageI)
  have ready: "send_ready p3 w"
  proof (cases "vc_offsets p3 = []")
    case False
    then have "case (fmt_string (vs_fmt p), block_sizes w (rc_reg wr)) of
        (Some f, Some n) \<Rightarrow> (if strstr f ''mjpeg'' then rc_size wr mod 4 = 0 \<and> unat (rc_size wr) div 4 + EXTRA_WORDS \<le> n
          else \<forall>x \<in> set offs. snd x \<noteq> 0 \<longrightarrow> unat (fst x) < n) | _ \<Rightarrow> False" using rdy offs by simp
    then obtain f blk where f: "fmt_string (vs_fmt p) = Some f" "w_mem w (rc_reg wr) = Some blk"
      "if strstr f ''mjpeg'' then rc_size wr mod 4 = 0 \<and> unat (rc_size wr) div 4 + EXTRA_WORDS \<le> length blk
          else \<forall>x \<in> set offs. snd x \<noteq> 0 \<longrightarrow> unat (fst x) < length blk"
      by (auto simp: block_sizes_def split: option.splits)
    have "\<forall>(r, off) \<in> set (vc_offsets p3). unat r < length blk" if "\<not> strstr f ''mjpeg''"
      using f(3) that regs by fastforce
    then show ?thesis using f c3 c2 c1 e3(5) by (auto simp: send_ready_def)
  qed (simp add: send_ready_def)
  obtain ret r p' w' where s: "vcodec_service_cmd_send p3 w = Some (ret, p', w')" "vc_inv p'" "vc_offsets p' = []"
    "vs_send_idx p' = ring_next (vs_send_idx p3) (vs_max_regs p3)" "vs_regs p' = (vs_regs p3)[vs_send_idx p3 := r]" "vr_get r = vr_get (cur p3)"
    "vs_poll_idx p' = vs_poll_idx p3" "vs_max_regs p' = vs_max_regs p3"
    "\<exists>sz ws. w_log w' = w_log w @ [Ev_ioctl (vs_fd p3) (Ioc_vpu VPU_IOC_SET_REG (vr_set (cur p3)) sz ws)]" "vs_fmt p' = vs_fmt p3"
    "vr_reg_size r = vr_reg_size (cur p3) + (if vc_offsets p3 \<noteq> [] \<and> mjpeg_fmt (vs_fmt p3) then of_nat (4 * EXTRA_WORDS) else 0)"
    "same_blocks w w'"
    by (rule send_ok [OF p3(2) ready]) (rule that)
  have "ring_run (Ring_task wr offs rd # ops) p w = ring_run ops p' w'" for ops using p1(1) p2(1) p3(1) s(1) by simp
  moreover have "vr_reg_size r = task_size (mjpeg_fmt (vs_fmt p)) wr offs" unfolding s(11) task_size_def using offs e3(5) by (auto simp: c3 c2 c1)
  moreover have "poll_calls (w_log w') = poll_calls (w_log w)" using s(9) by auto
  moreover have "vs_regs p' = (vs_regs p)[vs_send_idx p := r]" by (metis s(5) e3(1,2) list_update_overwrite)
  moreover have "vr_get r = rc_reg rd" unfolding s(6) c3 by simp
  moreover have "vs_send_idx p' = ring_next (vs_send_idx p) (vs_max_regs p)" unfolding s(4) e3(2,4) by (rule refl)
  moreover note s(2,3) s(7) [unfolded e3(3)] s(8) [unfolded e3(4)] s(10) [unfolded e3(5)] same_blocks_sizes [OF s(12)]
  ultimately show thesis using that by blast
qed

lemma ring_holds_task:
  assumes "ring_holds p q" "length q < vs_max_regs p" "ring_op_ready (vs_fmt p) (block_sizes w) (Ring_task wr offs rd)"
  shows "\<exists>p' w'. ring_run (Ring_task wr offs rd # ops) p w = ring_run ops p' w' \<and>
    ring_holds p' (q @ [(rc_reg rd, task_size (mjpeg_fmt (vs_fmt p)) wr offs)]) \<and> poll_calls (w_log w') = poll_calls (w_log w) \<and>
    vs_max_regs p' = vs_max_regs p \<and> vs_fmt p' = vs_fmt p \<and> block_sizes w' = block_sizes w"
proof -
  let ?x = "(rc_reg rd, task_size (mjpeg_fmt (vs_fmt p)) wr offs)"
  have inv: "vc_inv p" "vc_offsets p = []" using assms(1) by (simp_all add: ring_holds_def)
  obtain p' w' r where s: "\<And>ops. ring_run (Ring_task wr offs rd # ops) p w = ring_run ops p' w'" "vc_inv p'" "vc_offsets p' = []"
    "vs_regs p' = (vs_regs p)[vs_send_idx p := r]" "vr_get r = rc_reg rd" "vr_reg_size r = task_size (mjpeg_fmt (vs_fmt p)) wr offs"
    "vs_send_idx p' = ring_next (vs_send_idx p) (vs_max_regs p)" "vs_poll_idx p' = vs_poll_idx p" "vs_max_regs p' = vs_max_regs p"
    "vs_fmt p' = vs_fmt p" "block_sizes w' = block_sizes w" "poll_calls (w_log w') = poll_calls (w_log w)"
    by (rule ring_task_sent [OF inv assms(3)]) (rule that)
  let ?m = "vs_max_regs p" and ?k = "vs_poll_idx p"
  have m: "?k < ?m" "vs_send_idx p < ?m" "?m \<le> length (vs_regs p)"
    using inv(1) by (auto simp: vc_inv_def MAX_REGS_COUNT_def)
  have send: "vs_send_idx p = (?k + length q) mod ?m" using assms(1) by (simp add: ring_holds_def)
  have "vs_send_idx p' = (?k + length (q @ [?x])) mod ?m"
    using ring_next_mod [OF m(2)] s(7) by (simp add: send mod_Suc_eq)
  moreover have "(let r = vs_regs p' ! ((?k + i) mod ?m) in (vr_get r, vr_reg_size r)) = (q @ [?x]) ! i" if "i < length (q @ [?x])" for i
  proof (cases "i = length q")
    case True
    moreover have "(?k + length q) mod ?m < length (vs_regs p)" using m(2,3) by (simp add: send)
    ultimately show ?thesis by (simp add: s(4-6) send Let_def)
  next
    case False
    with that have i: "i < length q" by simp
    have "(?k + i) mod ?m \<noteq> (?k + length q) mod ?m" using ring_slots_differ [OF i assms(2)] .
    then show ?thesis using assms(1) i by (simp add: s(4) send ring_holds_def nth_append)
  qed
  ultimately have "ring_holds p' (q @ [?x])" using s(2,3,8,9) assms(2) by (simp add: ring_holds_def)
  then show ?thesis using s(1,9-12) by blast
qed

lemma ring_holds_poll:
  assumes "ring_holds p (x # q)"
  shows "\<exists>p' w'. ring_run (Ring_poll # ops) p w = ring_run ops p' w' \<and> ring_holds p' q \<and>
    poll_calls (w_log w') = poll_calls (w_log w) @ [x] \<and> vs_max_regs p' = vs_max_regs p \<and> vs_fmt p' = vs_fmt p \<and>
    block_sizes w' = block_sizes w"
proof -
  have inv: "vc_inv p" using assms by (simp add: ring_holds_def)
  obtain ret p' w' where p: "vcodec_service_cmd_poll p w = Some (ret, p', w')" "vc_inv p'"
    "p' = p\<lparr>vs_poll_idx := ring_next (vs_poll_idx p) (vs_max_regs p)\<rparr>"
    "\<exists>ws. w_log w' = w_log w @ [Ev_ioctl (vs_fd p) (Ioc_vpu VPU_IOC_GET_REG (vr_get (vs_regs p ! vs_poll_idx p))
       (vr_reg_size (vs_regs p ! vs_poll_idx p)) ws)]" "w_mem w' = w_mem w"
    by (rule poll_ok [OF inv]) (rule that)
  have lt: "vs_poll_idx p < vs_max_regs p" using inv by (simp add: vc_inv_def)
  then have idx: "vs_poll_idx p' = Suc (vs_poll_idx p) mod vs_max_regs p"
    using ring_next_mod [OF lt] by (simp only: p(3)) simp
  have x: "(vr_get (vs_regs p ! vs_poll_idx p), vr_reg_size (vs_regs p ! vs_poll_idx p)) = x"
    using assms lt by (auto simp: ring_holds_def Let_def dest: spec [of _ 0])
  have "(vs_poll_idx p' + i) mod vs_max_regs p = (vs_poll_idx p + Suc i) mod vs_max_regs p" for i
    by (simp add: idx mod_add_left_eq)
  note eq = this
  have f: "vs_regs p' = vs_regs p" "vs_max_regs p' = vs_max_regs p" "vs_send_idx p' = vs_send_idx p"
    "vc_offsets p' = vc_offsets p" by (simp_all add: p(3) vc_offsets_def)
  have H: "vc_offsets p = []" "Suc (length q) \<le> vs_max_regs p"
    "vs_send_idx p = (vs_poll_idx p + Suc (length q)) mod vs_max_regs p"
    "\<And>i. i < Suc (length q) \<Longrightarrow> (let r = vs_regs p ! ((vs_poll_idx p + i) mod vs_max_regs p) in (vr_get r, vr_reg_size r)) = (x # q) ! i"
    using assms by (simp_all add: ring_holds_def)
  have "ring_holds p' q"
    unfolding ring_holds_def f eq using p(2) H(1-3) H(4) [of "Suc i" for i] by simp
  moreover have "poll_calls (w_log w') = poll_calls (w_log w) @ [x]" using p(4) x by auto
  moreover have "vs_fmt p' = vs_fmt p" "block_sizes w' = block_sizes w" using p(3,5) by (simp_all add: block_sizes_def fun_eq_iff)
  ultimately show ?thesis using p(1) f(2) by auto
qed

lemma ring_queue:
  "ring_holds p q \<Longrightarrow> queue_run (mjpeg_fmt (vs_fmt p)) (vs_max_regs p) ops q = Some out \<Longrightarrow>
   \<forall>op \<in> set ops. ring_op_ready (vs_fmt p) (block_sizes w) op \<Longrightarrow>
   \<exists>p' w'. ring_run ops p w = Some (p', w') \<and> poll_calls (w_log w') = poll_calls (w_log w) @ out"
proof (induction ops arbitrary: p q w out)
  case (Cons op ops)
  show ?case
  proof (cases op)
    case (Ring_task wr offs rd)
    with Cons.prems have lt: "length q < vs_max_regs p" "ring_op_ready (vs_fmt p) (block_sizes w) (Ring_task wr offs rd)"
      by (simp_all split: if_splits)
    let ?x = "(rc_reg rd, task_size (mjpeg_fmt (vs_fmt p)) wr offs)"
    obtain p1 w1 where s: "ring_run (Ring_task wr offs rd # ops) p w = ring_run ops p1 w1" "ring_holds p1 (q @ [?x])"
      "poll_calls (w_log w1) = poll_calls (w_log w)" "vs_max_regs p1 = vs_max_regs p" "vs_fmt p1 = vs_fmt p" "block_sizes w1 = block_sizes w"
      using ring_holds_task [OF Cons.prems(1) lt] by metis
    then show ?thesis using Cons.IH [OF s(2), of out w1] Cons.prems(2,3) Ring_task lt by simp
  next
    case Ring_poll
    with Cons.prems(2) obtain x q' out' where q: "q = x # q'"
      "queue_run (mjpeg_fmt (vs_fmt p)) (vs_max_regs p) ops q' = Some out'" "out = x # out'"
      by (cases q) auto
    obtain p1 w1 where s: "ring_run (Ring_poll # ops) p w = ring_run ops p1 w1" "ring_holds p1 q'"
      "poll_calls (w_log w1) = poll_calls (w_log w) @ [x]" "vs_max_regs p1 = vs_max_regs p" "vs_fmt p1 = vs_fmt p" "block_sizes w1 = block_sizes w"
      using ring_holds_poll [of p x q'] Cons.prems(1) q(1) by metis
    then show ?thesis using Cons.IH [OF s(2), of out' w1] Cons.prems(3) q Ring_poll by simp
  qed
qed simp


section \<open>Properties\<close>

text \<open>
  C14: the two indices of the ring make it a first-in first-out queue. From a ring with nothing under
  way and no offsets collected, as long as no more tasks are under way than the ring has register sets
  and every poll has a task to wait for, every poll reads back into the place, and with the size, of the
  oldest task that was sent and not polled, and the run does not fail. A task writes registers, sets up
  to sixteen offsets, says where to read back and is sent; when an offset that is not zero is set its
  registers are in memory and hold it (\<open>ring_op_ready\<close>). The size is that of the registers written;
  for a motion JPEG task with offsets that of the appended information comes on top.
\<close>

theorem ring_is_fifo:
  assumes "vc_inv p" "vc_offsets p = []" "vs_send_idx p = vs_poll_idx p"
    and "queue_run (mjpeg_fmt (vs_fmt p)) (vs_max_regs p) ops [] = Some out" "\<forall>op \<in> set ops. ring_op_ready (vs_fmt p) (block_sizes w) op"
  shows "\<exists>p' w'. ring_run ops p w = Some (p', w') \<and> poll_calls (w_log w') = poll_calls (w_log w) @ out"
proof -
  have "ring_holds p []" using assms(1-3) by (simp add: ring_holds_def vc_inv_def)
  then show ?thesis using ring_queue assms(4,5) by blast
qed

definition empty_vreg :: vreg where
  "empty_vreg = \<lparr>vr_reg_size = 0, vr_extra = \<lparr>ei_magic = EXTRA_INFO_MAGIC, ei_count = 0, ei_slots = replicate 16 (0, 0)\<rparr>,
     vr_set = 0, vr_get = 0\<rparr>"

definition empty_vsvc :: vsvc where
  "empty_vsvc = \<lparr>vs_fmt = 0, vs_fd = 3, vs_max_regs = 2, vs_reg_size = 0, vs_send_idx = 0, vs_poll_idx = 0,
     vs_regs = replicate 3 empty_vreg, vs_info_count = 0, vs_info = []\<rparr>"

lemma empty_vsvc_ok: "vc_inv empty_vsvc" "vc_offsets empty_vsvc = []"
  by (simp_all add: vc_inv_def vc_offsets_def empty_vsvc_def empty_vreg_def MAX_REGS_COUNT_def MPX_EXTRA_INFO_NUM_def)

definition some_world :: world where
  "some_world = \<lparr>w_heap = [], w_replies = [], w_opens = [], w_log = [], w_mem = [4096 \<mapsto> [0, 1, 2, 3]]\<rparr>"

abbreviation reg_at :: "u64 \<Rightarrow> reg_cfg" where
  "reg_at a \<equiv> \<lparr>rc_reg = a, rc_size = 16, rc_offset = 0\<rparr>"

lemma ring_is_fifo_witness:
  "\<exists>p' w'. ring_run [Ring_task (reg_at 4096) [(1, 5), (3, 0)] (reg_at 2), Ring_task (reg_at 3) [] (reg_at 4), Ring_poll, Ring_poll]
     empty_vsvc some_world = Some (p', w') \<and> poll_calls (w_log w') = [(2, 16), (4, 16)]"
proof -
  let ?ops = "[Ring_task (reg_at 4096) [(1, 5), (3, 0)] (reg_at 2), Ring_task (reg_at 3) [] (reg_at 4), Ring_poll, Ring_poll]"
  have f: "fmt_string (vs_fmt empty_vsvc) = Some []" by (simp add: fmt_string_def empty_vsvc_def upt_conv_Cons)
  have n: "\<not> strstr [] ''mjpeg''" by (simp add: strstr_iff)
  have "queue_run (mjpeg_fmt (vs_fmt empty_vsvc)) (vs_max_regs empty_vsvc) ?ops [] = Some [(2, 16), (4, 16)]"
    using f n by (simp add: mjpeg_fmt_def task_size_def) (simp add: empty_vsvc_def)
  moreover have "\<forall>op \<in> set ?ops. ring_op_ready (vs_fmt empty_vsvc) (block_sizes some_world) op"
    using f n by (simp add: block_sizes_def some_world_def MPX_EXTRA_INFO_NUM_def)
  ultimately show ?thesis using ring_is_fifo [OF empty_vsvc_ok, of ?ops "[(2, 16), (4, 16)]" some_world]
    by (simp add: empty_vsvc_def some_world_def)
qed

lemma fd_trans_many:
  assumes "vc_inv p" "distinct (map fst cfgs)" "fst ` set cfgs \<inter> fst ` set (vc_offsets p) = {}" "0 \<notin> snd ` set cfgs"
  shows "(run_ops (map vcodec_service_fd_trans cfgs) p w = None) = (16 < length (vc_offsets p) + length cfgs)"
  using assms
proof (induction cfgs arbitrary: p)
  case Nil
  then show ?case using vc_cur(5,6) [OF Nil(1)] by simp
next
  case (Cons c cfgs)
  obtain r off where c: "c = (r, off)" "off \<noteq> 0" using Cons.prems(4) by (cases c) auto
  have new: "r \<notin> fst ` set (vc_offsets p)" using Cons.prems(3) c by auto
  show ?case
  proof (cases "length (vc_offsets p) < MPX_EXTRA_INFO_NUM")
    case True
    obtain p1 where p1: "vcodec_service_fd_trans (r, off) p w = Some (MPP_OK, p1, w)" "vc_inv p1"
      "vc_offsets p1 = upsert r off (vc_offsets p)"
      using fd_trans_ok [OF Cons.prems(1) c(2) True] by blast
    have "(run_ops (map vcodec_service_fd_trans cfgs) p1 w = None) = (16 < length (vc_offsets p1) + length cfgs)"
      by (rule Cons.IH) (use p1 Cons.prems(2-4) c in auto)
    then show ?thesis using p1(1,3) c new by (simp add: length_upsert)
  next
    case False
    let ?e = "vr_extra (cur p)"
    have "find_reg r (take (ei_count ?e) (ei_slots ?e)) 0 = None"
      using new find_reg_None unfolding vc_offsets_def by blast
    then have "vcodec_service_fd_trans c p w = None"
      using False c vc_cur [OF Cons.prems(1)] by (simp add: vcodec_service_fd_trans_def MPX_EXTRA_INFO_NUM_def Let_def)
    then show ?thesis using False by (simp add: MPX_EXTRA_INFO_NUM_def)
  qed
qed

text \<open>
  Offsets of different registers between two sends: sixteen fit in the extra information of
  the register set, and a seventeenth is written behind its slots, for there is no check.
\<close>

theorem fd_trans_overruns:
  assumes "vc_inv p" "vc_offsets p = []" "distinct (map fst cfgs)" "0 \<notin> snd ` set cfgs"
  shows "(run_ops (map vcodec_service_fd_trans cfgs) p w = None) = (16 < length cfgs)"
  using fd_trans_many [OF assms(1,3) _ assms(4)] assms(2) by simp

lemma fd_trans_overruns_witness:
  "run_ops (map vcodec_service_fd_trans (map (\<lambda>i. (of_nat i, 1)) [0..<17])) empty_vsvc some_world = None"
proof -
  have "distinct (map fst (map (\<lambda>i. (of_nat i :: u32, 1 :: u32)) [0..<17]))" by (simp add: upt_conv_Cons)
  then show ?thesis
    using fd_trans_overruns [OF empty_vsvc_ok, of "map (\<lambda>i. (of_nat i, 1)) [0..<17]" some_world] by (simp add: image_iff)
qed

text \<open>What \<open>or_offsets\<close> does to one register.\<close>

lemma or_offsets_nth:
  assumes "or_offsets xs regs = Some regs'" "distinct (map fst xs)" "i < length regs" "length regs \<le> 2 ^ 32"
  shows "regs' ! i = (case map_of xs (of_nat i) of None \<Rightarrow> regs ! i | Some off \<Rightarrow> regs ! i OR push_bit 10 off)"
  using assms
proof (induction xs regs rule: or_offsets.induct)
  case (2 r off xs regs)
  have lt: "unat r < length regs" using 2(2) by (simp split: if_splits)
  have IH: "regs' ! i = (case map_of xs (of_nat i) of None \<Rightarrow> (regs[unat r := regs ! unat r OR push_bit 10 off]) ! i
      | Some o' \<Rightarrow> (regs[unat r := regs ! unat r OR push_bit 10 off]) ! i OR push_bit 10 o')"
    using 2 lt by simp
  have eq: "(of_nat i = r) = (i = unat r)"
    using 2(4,5) by (auto simp: unat_of_nat)
  show ?case
  proof (cases "of_nat i = r")
    case True
    moreover have "map_of xs r = None" using 2(3) by (simp add: map_of_eq_None_iff flip: set_map)
    ultimately show ?thesis using IH eq lt by simp
  next
    case False
    then show ?thesis using IH eq by (auto split: option.splits)
  qed
qed simp

text \<open>
  C31: a send that is not for motion JPEG puts the offset of each register, shifted by ten bits, into that
  register in the client's memory by a bitwise or (no sum, bits that are set stay set), leaves every other register as it is, sends the
  registers from there, and starts the next set with no offsets.
\<close>

theorem send_patches_registers:
  assumes "vc_inv p" "vc_offsets p \<noteq> []" "distinct (map fst (vc_offsets p))"
    and "fmt_string (vs_fmt p) = Some fmt" "\<not> strstr fmt ''mjpeg''" "w_mem w (vr_set (cur p)) = Some regs"
    and "list_all (\<lambda>(r, off). unat r < length regs) (vc_offsets p)" "length regs \<le> 2 ^ 32"
  shows "\<exists>ret p' w' regs'. vcodec_service_cmd_send p w = Some (ret, p', w') \<and> vc_offsets p' = [] \<and>
    w_mem w' = (w_mem w)(vr_set (cur p) \<mapsto> regs') \<and> length regs' = length regs \<and>
    w_log w' = w_log w @ [Ev_ioctl (vs_fd p) (Ioc_vpu VPU_IOC_SET_REG (vr_set (cur p)) (vr_reg_size (cur p)) (Some regs'))] \<and>
    (\<forall>i < length regs. regs' ! i =
       (case map_of (vc_offsets p) (of_nat i) of None \<Rightarrow> regs ! i | Some off \<Rightarrow> regs ! i OR push_bit 10 off))"
proof -
  have rdy: "send_ready p w" using assms(4-7) by (auto simp: send_ready_def list_all_iff)
  obtain regs' where r: "or_offsets (vc_offsets p) regs = Some regs'"
    using or_offsets_ok [of "vc_offsets p" regs] assms(7) by (auto simp: list_all_iff)
  obtain ret p' w' where s: "vcodec_service_cmd_send p w = Some (ret, p', w')" "vc_offsets p' = []"
    by (rule send_ok [OF assms(1) rdy]) (rule that)
  have cnt: "ei_count (vr_extra (cur p)) \<noteq> 0" using assms(2) vc_cur(6) [OF assms(1)] by (metis length_0_conv)
  let ?r = "(cur p)\<lparr>vr_extra := (vr_extra (cur p))\<lparr>ei_count := 0\<rparr>\<rparr>"
  let ?w = "w\<lparr>w_mem := (w_mem w)(vr_set (cur p) \<mapsto> regs')\<rparr>"
  have u: "update_extra_info fmt (cur p) w = Some (?r, ?w)"
    using cnt assms(5,6) r by (simp add: update_extra_info_def vc_offsets_def)
  obtain rep w2 where io: "sys_ioctl (vs_fd p)
      (Ioc_vpu VPU_IOC_SET_REG (vr_set (cur p)) (vr_reg_size (cur p)) (Some regs')) ?w = (rep, w2)" by fastforce
  have "w' = w2"
    using s(1) cnt u io assms(4) vc_cur(1) [OF assms(1)] by (simp add: vcodec_service_cmd_send_def)
  then have "w_mem w' = (w_mem w)(vr_set (cur p) \<mapsto> regs') \<and>
    w_log w' = w_log w @ [Ev_ioctl (vs_fd p) (Ioc_vpu VPU_IOC_SET_REG (vr_set (cur p)) (vr_reg_size (cur p)) (Some regs'))]"
    using sys_ioctl_log [OF io] by simp
  then show ?thesis using s or_offsets_length [OF r] or_offsets_nth [OF r assms(3) _ assms(8)] by blast
qed

lemma send_patches_registers_witness:
  "\<exists>ret p' w'. vcodec_service_cmd_send
     (empty_vsvc\<lparr>vs_regs := (vs_regs empty_vsvc)[0 := empty_vreg\<lparr>vr_set := 4096, vr_reg_size := 16,
        vr_extra := \<lparr>ei_magic = 0, ei_count = 1, ei_slots = (2, 1) # replicate 15 (0, 0)\<rparr>\<rparr>]\<rparr>) some_world = Some (ret, p', w') \<and>
     w_mem w' 4096 = Some [0, 1, 1026, 3]"
proof -
  let ?r = "empty_vreg\<lparr>vr_set := 4096, vr_reg_size := 16,
        vr_extra := \<lparr>ei_magic = 0, ei_count = 1, ei_slots = (2, 1) # replicate 15 (0, 0)\<rparr>\<rparr>"
  let ?p = "empty_vsvc\<lparr>vs_regs := (vs_regs empty_vsvc)[0 := ?r]\<rparr>"
  have inv: "vc_inv ?p"
    by (auto simp: vc_inv_def empty_vsvc_def empty_vreg_def MAX_REGS_COUNT_def MPX_EXTRA_INFO_NUM_def nth_list_update)
  have c: "cur ?p = ?r" "vc_offsets ?p = [(2, 1)]" by (simp_all add: empty_vsvc_def vc_offsets_def)
  have f: "fmt_string (vs_fmt ?p) = Some []" by (simp add: fmt_string_def empty_vsvc_def upt_conv_Cons)
  have m: "w_mem some_world (vr_set (cur ?p)) = Some [0, 1, 2, 3]" by (simp add: empty_vsvc_def some_world_def)
  have n: "vc_offsets ?p \<noteq> []" "distinct (map fst (vc_offsets ?p))" "\<not> strstr [] ''mjpeg''"
    "list_all (\<lambda>(r, off). unat r < length [0, 1, 2, 3 :: u32]) (vc_offsets ?p)" "length [0, 1, 2, 3 :: u32] \<le> 2 ^ 32"
    unfolding c(2) by simp_all
  obtain ret p' w' regs' where g: "vcodec_service_cmd_send ?p some_world = Some (ret, p', w')"
    "w_mem w' = (w_mem some_world)(vr_set (cur ?p) \<mapsto> regs')" "length regs' = length [0, 1, 2, 3 :: u32]"
    "\<forall>i < length [0, 1, 2, 3 :: u32]. regs' ! i = (case map_of (vc_offsets ?p) (of_nat i) of
       None \<Rightarrow> [0, 1, 2, 3] ! i | Some off \<Rightarrow> [0, 1, 2, 3] ! i OR push_bit 10 off)"
    using send_patches_registers [OF inv n(1,2) f n(3) m n(4,5)] by blast
  have e: "\<forall>i < 4. regs' ! i = [0, 1, 1026, 3] ! i"
    using g(4) [unfolded c(2)] by (auto simp: push_bit_eq_mult nth_Cons' less_Suc_eq numeral_eq_Suc split: if_splits)
  have "regs' = [0, 1, 1026, 3]" by (rule nth_equalityI) (use g(3) e in auto)
  moreover have "vr_set (cur ?p) = 4096" by (simp add: empty_vsvc_def)
  ultimately show ?thesis using g(1,2) by auto
qed

end
