(* ===== verification/Mpp_Device.thy ===== *)
theory Mpp_Device
  imports Service_Jobs Vcodec_Service
begin

text \<open>
  The device (\<open>osal/driver/mpp_device.c\<close>): it picks one of the two drivers, passes each command
  to the driver through its table of functions, and collects offsets of registers for the command
  that sets many at once. A driver is an interface with laws, the locales \<open>device_driver\<close> and
  \<open>offset_driver\<close>, and both drivers are shown to be one. The singleton of
  \<open>osal/mpp_platform.cpp\<close>, which says what the platform has, is an argument.
\<close>

section \<open>The tables of the drivers\<close>

datatype dev_cmd = MPP_DEV_BATCH_ON | MPP_DEV_BATCH_OFF | MPP_DEV_DELIMIT | MPP_DEV_SET_CB_CTX "u64 option"
  | MPP_DEV_REG_WR reg_cfg | MPP_DEV_REG_RD reg_cfg | MPP_DEV_REG_OFFSET reg_info | MPP_DEV_REG_OFFS off_cfgs
  | MPP_DEV_RCB_INFO reg_info | MPP_DEV_SET_INFO dev_info | MPP_DEV_SET_ERR_REF_HACK u64
  | MPP_DEV_CMD_SEND | MPP_DEV_CMD_POLL "poll_cfg option" | MPP_DEV_other int

text \<open>The result of a command: what it returns, the structure of a poll after it, and the state.\<close>

type_synonym 's dev_step = "dev_cmd \<Rightarrow> 's \<Rightarrow> world \<Rightarrow> (mpp_ret \<times> poll_cfg option \<times> 's \<times> world) option"

text \<open>The structure \<open>MppDevApi\<close>; a null pointer is \<^const>\<open>None\<close>.\<close>

record 's dev_api =
  ap_attach :: "'s dev_op option"
  ap_detach :: "'s dev_op option"
  ap_delimit :: "'s dev_op option"
  ap_set_cb_ctx :: "(u64 option \<Rightarrow> 's dev_op) option"
  ap_reg_wr :: "(reg_cfg \<Rightarrow> 's dev_op) option"
  ap_reg_rd :: "(reg_cfg \<Rightarrow> 's dev_op) option"
  ap_reg_offset :: "(reg_info \<Rightarrow> 's dev_op) option"
  ap_reg_offs :: "(off_cfgs \<Rightarrow> 's dev_op) option"
  ap_rcb_info :: "(reg_info \<Rightarrow> 's dev_op) option"
  ap_set_info :: "(dev_info \<Rightarrow> 's dev_op) option"
  ap_set_err_ref_hack :: "(u64 \<Rightarrow> 's dev_op) option"
  ap_cmd_send :: "'s dev_op option"
  ap_cmd_poll :: "(poll_cfg option \<Rightarrow> 's \<Rightarrow> world \<Rightarrow> (mpp_ret \<times> poll_cfg option \<times> 's \<times> world) option) option"

definition mpp_service_api :: "batch_server \<Rightarrow> svc dev_api" where
  "mpp_service_api bs =
     \<lparr>ap_attach = Some (mpp_service_attach bs), ap_detach = Some (mpp_service_detach bs),
      ap_delimit = Some mpp_service_delimit, ap_set_cb_ctx = Some mpp_service_set_cb_ctx,
      ap_reg_wr = Some mpp_service_reg_wr, ap_reg_rd = Some mpp_service_reg_rd,
      ap_reg_offset = Some mpp_service_reg_offset, ap_reg_offs = Some mpp_service_reg_offsets,
      ap_rcb_info = Some mpp_service_rcb_info, ap_set_info = Some mpp_service_set_info,
      ap_set_err_ref_hack = Some mpp_service_set_err_ref_hack, ap_cmd_send = Some (mpp_service_cmd_send bs),
      ap_cmd_poll = Some (mpp_service_cmd_poll bs)\<rparr>"

definition vcodec_service_api :: "vsvc dev_api" where
  "vcodec_service_api =
     \<lparr>ap_attach = None, ap_detach = None, ap_delimit = None, ap_set_cb_ctx = None,
      ap_reg_wr = Some vcodec_service_reg_wr, ap_reg_rd = Some vcodec_service_reg_rd,
      ap_reg_offset = Some vcodec_service_fd_trans, ap_reg_offs = None, ap_rcb_info = None,
      ap_set_info = Some vcodec_service_set_info, ap_set_err_ref_hack = None,
      ap_cmd_send = Some vcodec_service_cmd_send,
      ap_cmd_poll = Some (\<lambda>cfg p w. do { (ret, p, w) \<leftarrow> vcodec_service_cmd_poll p w; Some (ret, cfg, p, w) })\<rparr>"

text \<open>A call through the table, and the switch of \<open>mpp_dev_ioctl\<close>.\<close>

definition api_call :: "'s dev_op option \<Rightarrow> 's \<Rightarrow> world \<Rightarrow> (mpp_ret \<times> poll_cfg option \<times> 's \<times> world) option" where
  "api_call f p w =
     (case f of None \<Rightarrow> Some (MPP_OK, None, p, w)
      | Some f \<Rightarrow> do { (ret, p, w) \<leftarrow> f p w; Some (ret, None, p, w) })"

definition dev_call :: "'s dev_api \<Rightarrow> 's dev_step" where
  "dev_call api cmd = (case cmd of
     MPP_DEV_BATCH_ON \<Rightarrow> api_call (ap_attach api)
   | MPP_DEV_BATCH_OFF \<Rightarrow> api_call (ap_detach api)
   | MPP_DEV_DELIMIT \<Rightarrow> api_call (ap_delimit api)
   | MPP_DEV_SET_CB_CTX cb \<Rightarrow> api_call (map_option (\<lambda>f. f cb) (ap_set_cb_ctx api))
   | MPP_DEV_REG_WR c \<Rightarrow> api_call (map_option (\<lambda>f. f c) (ap_reg_wr api))
   | MPP_DEV_REG_RD c \<Rightarrow> api_call (map_option (\<lambda>f. f c) (ap_reg_rd api))
   | MPP_DEV_REG_OFFSET c \<Rightarrow> api_call (map_option (\<lambda>f. f c) (ap_reg_offset api))
   | MPP_DEV_REG_OFFS c \<Rightarrow> api_call (map_option (\<lambda>f. f c) (ap_reg_offs api))
   | MPP_DEV_RCB_INFO c \<Rightarrow> api_call (map_option (\<lambda>f. f c) (ap_rcb_info api))
   | MPP_DEV_SET_INFO c \<Rightarrow> api_call (map_option (\<lambda>f. f c) (ap_set_info api))
   | MPP_DEV_SET_ERR_REF_HACK e \<Rightarrow> api_call (map_option (\<lambda>f. f e) (ap_set_err_ref_hack api))
   | MPP_DEV_CMD_SEND \<Rightarrow> api_call (ap_cmd_send api)
   | MPP_DEV_CMD_POLL c \<Rightarrow> (case ap_cmd_poll api of
        None \<Rightarrow> (\<lambda>p w. Some (MPP_OK, c, p, w)) | Some f \<Rightarrow> f c)
   | MPP_DEV_other n \<Rightarrow> (\<lambda>p w. Some (MPP_OK, None, p, w)))"

section \<open>The device\<close>

datatype dev_ctx = Ctx_mpp svc | Ctx_vcodec vsvc

text \<open>The structure \<open>MppDevImpl\<close>; the table goes with the context.\<close>

record dev_impl =
  dv_type :: client_type
  dv_ctx :: "dev_ctx option"

datatype ioctl_version = IOCTL_VCODEC_SERVICE | IOCTL_MPP_SERVICE_V1 | IOCTL_VERSION_BUTT

record mpp_platform =
  pf_vcodec_type :: u32
  pf_ioctl_version :: ioctl_version
  pf_cap :: cmd_cap

fun client_number :: "client_type \<Rightarrow> nat" where
  "client_number VPU_CLIENT_VDPU1 = 0"
| "client_number VPU_CLIENT_VDPU2 = 1"
| "client_number VPU_CLIENT_VDPU1_PP = 2"
| "client_number VPU_CLIENT_VDPU2_PP = 3"
| "client_number VPU_CLIENT_HEVC_DEC = 8"
| "client_number VPU_CLIENT_RKVDEC = 9"
| "client_number VPU_CLIENT_AVSPLUS_DEC = 12"
| "client_number VPU_CLIENT_RKVENC = 16"
| "client_number VPU_CLIENT_VEPU1 = 17"
| "client_number VPU_CLIENT_VEPU2 = 18"
| "client_number (VPU_CLIENT_other n) = n"

text \<open>The contexts as \<open>calloc\<close> gives them.\<close>

definition zero_svc :: svc where
  "zero_svc =
     \<lparr>sv_client_type = 0, sv_client = 0, sv_server = 0, sv_serv_ctx = None, sv_batch_io = False, sv_dev_cb = None,
      sv_reqs = None, sv_req_max = 0, sv_offs = None, sv_off_block = 0, sv_off_max = 0, sv_off_count = 0,
      sv_off_pos = 0, sv_rcbs = None, sv_rcb_block = 0, sv_rcb_max = 0, sv_rcb_count = 0, sv_rcb_pos = 0,
      sv_bat_cmd = \<lparr>bc_flag = 0, bc_client = 0, bc_ret = 0\<rparr>, sv_info_count = 0, sv_info = [],
      sv_cap = \<lparr>cc_support_cmd = 0, cc_query_cmd = 0, cc_init_cmd = 0, cc_send_cmd = 0, cc_poll_cmd = 0, cc_ctrl_cmd = 0\<rparr>,
      sv_support_set_info = False, sv_support_set_rcb_info = False, sv_support_hw_irq = False\<rparr>"

definition zero_vsvc :: vsvc where
  "zero_vsvc = \<lparr>vs_fmt = 0, vs_fd = 0, vs_max_regs = 0, vs_reg_size = 0, vs_send_idx = 0, vs_poll_idx = 0,
     vs_regs = replicate MAX_REGS_COUNT
       \<lparr>vr_reg_size = 0, vr_extra = \<lparr>ei_magic = 0, ei_count = 0, ei_slots = replicate MPX_EXTRA_INFO_NUM (0, 0)\<rparr>,
        vr_set = 0, vr_get = 0\<rparr>,
     vs_info_count = 0, vs_info = []\<rparr>"

text \<open>
  \<open>has_ctx\<close> says whether the pointer for the result is not null; \<open>version\<close> is the static variable
  of the older driver. The device is there also when the driver's own start fails.
\<close>

definition mpp_dev_init ::
  "sys_env \<Rightarrow> mpp_platform \<Rightarrow> bool \<Rightarrow> client_type \<Rightarrow> int \<Rightarrow> world \<Rightarrow> mpp_ret \<times> dev_impl option \<times> int \<times> world" where
  "mpp_dev_init env pf has_ctx type version w =
     (if \<not> has_ctx then (MPP_ERR_NULL_PTR, None, version, w)
      else if \<not> bit (pf_vcodec_type pf) (client_number type) then (MPP_ERR_VALUE, None, version, w)
      else if pf_ioctl_version pf = IOCTL_VERSION_BUTT then (MPP_NOK, None, version, w)
      else
        let (ok1, w) = sys_alloc w; (ok2, w) = sys_alloc w in
        (if \<not> ok1 \<or> \<not> ok2 then (MPP_ERR_MALLOC, None, version, w)
         else if pf_ioctl_version pf = IOCTL_VCODEC_SERVICE then
           let (ret, version, p, w) = vcodec_service_init env type version zero_vsvc w
           in (ret, Some \<lparr>dv_type = type, dv_ctx = Some (Ctx_vcodec p)\<rparr>, version, w)
         else
           let (ret, p, w) = mpp_service_init env (pf_cap pf) (int (client_number type)) zero_svc w
           in (ret, Some \<lparr>dv_type = type, dv_ctx = Some (Ctx_mpp p)\<rparr>, version, w)))"

definition mpp_dev_deinit :: "batch_server \<Rightarrow> dev_impl option \<Rightarrow> world \<Rightarrow> (mpp_ret \<times> world) option" where
  "mpp_dev_deinit bs d w =
     (case d of
        None \<Rightarrow> Some (MPP_ERR_NULL_PTR, w)
      | Some d \<Rightarrow>
          (case dv_ctx d of
             None \<Rightarrow> Some (MPP_OK, w)
           | Some (Ctx_mpp p) \<Rightarrow> do { (ret, p, w) \<leftarrow> mpp_service_deinit bs p w; Some (ret, w) }
           | Some (Ctx_vcodec p) \<Rightarrow> Some (vcodec_service_deinit p w)))"

definition mpp_dev_ioctl :: "batch_server \<Rightarrow> dev_impl option dev_step" where
  "mpp_dev_ioctl bs cmd d w =
     (case d of
        None \<Rightarrow> Some (MPP_ERR_NULL_PTR, None, None, w)
      | Some d \<Rightarrow>
          (case dv_ctx d of
             None \<Rightarrow> Some (MPP_OK, None, Some d, w)
           | Some (Ctx_mpp p) \<Rightarrow> do {
               (ret, out, p, w) \<leftarrow> dev_call (mpp_service_api bs) cmd p w;
               Some (ret, out, Some (d\<lparr>dv_ctx := Some (Ctx_mpp p)\<rparr>), w)
             }
           | Some (Ctx_vcodec p) \<Rightarrow> do {
               (ret, out, p, w) \<leftarrow> dev_call vcodec_service_api cmd p w;
               Some (ret, out, Some (d\<lparr>dv_ctx := Some (Ctx_vcodec p)\<rparr>), w)
             }))"

definition mpp_dev_set_reg_offset :: "batch_server \<Rightarrow> int \<Rightarrow> u32 \<Rightarrow> dev_impl option \<Rightarrow> world \<Rightarrow>
    (mpp_ret \<times> poll_cfg option \<times> dev_impl option \<times> world) option" where
  "mpp_dev_set_reg_offset bs index offset =
     mpp_dev_ioctl bs (MPP_DEV_REG_OFFSET (word_of_int index, offset))"

section \<open>A driver as an interface\<close>

text \<open>
  The states that valid commands lead to: \<open>ok\<close> says which command may be given in a state.
\<close>

inductive reach :: "'s dev_step \<Rightarrow> (dev_cmd \<Rightarrow> 's \<Rightarrow> world \<Rightarrow> bool) \<Rightarrow> 's \<Rightarrow> world \<Rightarrow> 's \<Rightarrow> world \<Rightarrow> bool"
  for step ok p0 w0 where
  reach_start: "reach step ok p0 w0 p0 w0"
| reach_step: "reach step ok p0 w0 p w \<Longrightarrow> ok c p w \<Longrightarrow> step c p w = Some (ret, out, p', w') \<Longrightarrow>
    reach step ok p0 w0 p' w'"

text \<open>A driver that is never stuck: every valid command returns and keeps the invariant.\<close>

locale device_driver =
  fixes step :: "'s dev_step"
    and inv :: "'s \<Rightarrow> world \<Rightarrow> bool"
    and ok :: "dev_cmd \<Rightarrow> 's \<Rightarrow> world \<Rightarrow> bool"
  assumes step_ok: "inv p w \<Longrightarrow> ok c p w \<Longrightarrow> \<exists>ret out p' w'. step c p w = Some (ret, out, p', w') \<and> inv p' w'"
begin

lemma reach_inv: "reach step ok p0 w0 p w \<Longrightarrow> inv p0 w0 \<Longrightarrow> inv p w"
proof (induction rule: reach.induct)
  case (reach_step p w c ret out p' w')
  then show ?case using step_ok [of p w c] by auto
qed

lemma not_stuck:
  assumes "inv p0 w0" "reach step ok p0 w0 p w" "ok c p w"
  shows "\<exists>ret out p' w'. step c p w = Some (ret, out, p', w') \<and> reach step ok p0 w0 p' w'"
  using step_ok [OF reach_inv [OF assms(2,1)] assms(3)] reach.reach_step [OF assms(2,3)] by blast

end

text \<open>
  A driver with a table of offsets of registers: setting one changes the entry of its register or
  adds an entry, up to a number, and a zero offset changes nothing.
\<close>

locale offset_driver = device_driver +
  fixes offsets :: "'s \<Rightarrow> reg_info list"
    and room :: nat
  assumes set_offset: "inv p w \<Longrightarrow> off \<noteq> 0 \<Longrightarrow> length (offsets p) < room \<Longrightarrow>
      \<exists>p' w'. step (MPP_DEV_REG_OFFSET (r, off)) p w = Some (MPP_OK, None, p', w') \<and> inv p' w' \<and>
        offsets p' = upsert r off (offsets p)"
    and set_zero: "inv p w \<Longrightarrow> step (MPP_DEV_REG_OFFSET (r, 0)) p w = Some (MPP_OK, None, p, w)"

text \<open>Setting offsets one after another.\<close>

fun set_offsets :: "'s dev_step \<Rightarrow> reg_info list \<Rightarrow> 's \<Rightarrow> world \<Rightarrow> ('s \<times> world) option" where
  "set_offsets step [] p w = Some (p, w)"
| "set_offsets step (x # xs) p w = do {
     (_, _, p, w) \<leftarrow> step (MPP_DEV_REG_OFFSET x) p w;
     set_offsets step xs p w
   }"

fun last_offsets :: "reg_info list \<Rightarrow> reg_info list \<Rightarrow> reg_info list" where
  "last_offsets [] t = t"
| "last_offsets ((r, off) # xs) t = last_offsets xs (if off = 0 then t else upsert r off t)"

lemma map_of_last_offsets:
  "map_of (last_offsets xs t) = map_of t ++ map_of (rev (filter (\<lambda>(r, off). off \<noteq> 0) xs))"
  by (induction xs t rule: last_offsets.induct) (auto simp: map_add_def fun_eq_iff split: option.splits)

lemma length_last_offsets: "length t \<le> length (last_offsets xs t)"
proof (induction xs t rule: last_offsets.induct)
  case (2 r off xs t)
  then show ?case by (auto simp: length_upsert split: if_splits)
qed simp

context offset_driver
begin

lemma set_offsets_ok:
  assumes "inv p w" "length (offsets p) + length xs \<le> room"
  shows "\<exists>p' w'. set_offsets step xs p w = Some (p', w') \<and> inv p' w' \<and> offsets p' = last_offsets xs (offsets p)"
  using assms
proof (induction xs arbitrary: p w)
  case (Cons x xs)
  obtain r off where x: "x = (r, off)" by (cases x)
  show ?case
  proof (cases "off = 0")
    case True
    then show ?thesis using Cons.IH [OF Cons.prems(1)] Cons.prems set_zero [OF Cons.prems(1)] x by simp
  next
    case False
    obtain p1 w1 where s: "step (MPP_DEV_REG_OFFSET (r, off)) p w = Some (MPP_OK, None, p1, w1)" "inv p1 w1"
      "offsets p1 = upsert r off (offsets p)"
      using set_offset [OF Cons.prems(1) False] Cons.prems(2) by force
    have "length (offsets p1) + length xs \<le> room" using Cons.prems(2) s(3) by (simp add: length_upsert)
    then show ?thesis using Cons.IH [OF s(2)] s False x by simp
  qed
qed simp

end


section \<open>The drivers as interfaces\<close>

definition svc_state_ok :: "batch_server \<Rightarrow> svc \<Rightarrow> world \<Rightarrow> bool" where
  "svc_state_ok bs p w \<longleftrightarrow> bs_ok bs \<and> svc_inv p \<and> no_oom w"

text \<open>In batch mode sending and polling are up to the batch server, and not covered here.\<close>

definition svc_cmd_ok :: "dev_cmd \<Rightarrow> svc \<Rightarrow> world \<Rightarrow> bool" where
  "svc_cmd_ok c p w = (case c of
     MPP_DEV_SET_INFO _ \<Rightarrow> sv_info_count p < MAX_INFO_COUNT
   | MPP_DEV_CMD_SEND \<Rightarrow> \<not> sv_batch_io p
   | MPP_DEV_CMD_POLL None \<Rightarrow> \<not> sv_batch_io p
   | MPP_DEV_CMD_POLL (Some cfg) \<Rightarrow> \<not> sv_batch_io p \<and> (pc_count_max cfg \<noteq> 0 \<longrightarrow> pc_slices cfg \<noteq> [])
   | _ \<Rightarrow> True)"

definition svc_offsets :: "svc \<Rightarrow> reg_info list" where
  "svc_offsets p = drop (sv_off_pos p) (the (sv_offs p))"

lemma keeps_call:
  assumes "keeps f p" "svc_state_ok bs p w"
  shows "\<exists>ret out p' w'. api_call (Some f) p w = Some (ret, out, p', w') \<and> svc_state_ok bs p' w'"
proof -
  obtain ret p' w' where "f p w = Some (ret, p', w')" "svc_inv p'" "no_oom w'"
    using assms by (auto simp: keeps_def svc_state_ok_def)
  then show ?thesis using assms(2) by (auto simp: api_call_def svc_state_ok_def)
qed

lemma svc_step_ok:
  assumes s: "svc_state_ok bs p w" and c: "svc_cmd_ok c p w"
  shows "\<exists>ret out p' w'. dev_call (mpp_service_api bs) c p w = Some (ret, out, p', w') \<and> svc_state_ok bs p' w'"
proof (cases "\<exists>cfg. c = MPP_DEV_CMD_POLL cfg")
  case True
  then obtain cfg where cfg: "c = MPP_DEV_CMD_POLL cfg" by blast
  have "\<exists>ret cfg' w'. mpp_service_cmd_poll bs cfg p w = Some (ret, cfg', p, w') \<and> no_oom w'"
    by (rule poll_keeps) (use s c cfg in \<open>auto simp: svc_state_ok_def svc_cmd_ok_def split: option.splits\<close>)
  then show ?thesis using s cfg by (auto simp: dev_call_def mpp_service_api_def svc_state_ok_def)
next
  case False
  have bs: "bs_ok bs" using s by (simp add: svc_state_ok_def)
  show ?thesis
    using False c s by (cases c) (simp_all add: dev_call_def mpp_service_api_def svc_cmd_ok_def keeps_call svc_ok send_keeps bs)
qed

lemma svc_reg_offset_upsert:
  assumes "svc_inv p" "no_oom w" "off \<noteq> 0" "length (svc_offsets p) < MAX_REG_OFFSET"
  shows "\<exists>p' w'. mpp_service_reg_offset (r, off) p w = Some (MPP_OK, p', w') \<and> svc_inv p' \<and> no_oom w' \<and>
    svc_offsets p' = upsert r off (svc_offsets p)"
proof -
  obtain xs where xs: "sv_offs p = Some xs" "length xs = sv_off_pos p + sv_off_count p"
    using assms(1) by (auto simp: svc_inv_def)
  have cnt: "sv_off_count p < MAX_REG_OFFSET" using assms(4) xs by (simp add: svc_offsets_def)
  obtain m b w' where n: "mpp_service_next_reg_offset p w =
      (True, p\<lparr>sv_offs := map_option (\<lambda>xs. xs @ [(0, 0)]) (sv_offs p), sv_off_count := Suc (sv_off_count p),
               sv_off_max := m, sv_off_block := b\<rparr>, w')"
    "sv_off_pos p + sv_off_count p < m" "sv_off_max p \<le> m" "no_oom w'" "w_log w' = w_log w"
    by (rule next_reg_offset_ok [OF assms(1,2)]) blast
  show ?thesis
  proof (cases "find_reg r (drop (sv_off_pos p) xs) (sv_off_pos p)")
    case None
    have "svc_inv (p\<lparr>sv_off_count := Suc (sv_off_count p), sv_off_max := m, sv_off_block := b,
        sv_offs := set_last (r, off) (map_option (\<lambda>xs. xs @ [(0, 0)]) (sv_offs p))\<rparr>)"
      by (rule grow_offs_inv [OF assms(1) cnt n(2,3)])
    moreover have "r \<notin> fst ` set (drop (sv_off_pos p) xs)" using None find_reg_None by blast
    ultimately show ?thesis using None n(1,4) xs cnt assms(3)
      by (auto simp: mpp_service_reg_offset_def svc_offsets_def set_last_def upsert_new)
  next
    case (Some k)
    let ?d = "drop (sv_off_pos p) xs"
    have k: "sv_off_pos p \<le> k" "k - sv_off_pos p < length ?d"
      "?d[k - sv_off_pos p := (fst (?d ! (k - sv_off_pos p)), off)] = upsert r off ?d"
      using find_reg_upsert [OF Some, of off] by blast+
    have "svc_offsets (set_off k off p) = upsert r off ?d"
      using k xs by (simp add: svc_offsets_def set_off_def drop_update_swap)
    then show ?thesis using Some xs cnt assms set_off_inv [OF assms(1)]
      by (auto simp: mpp_service_reg_offset_def svc_offsets_def)
  qed
qed

interpretation service: offset_driver "dev_call (mpp_service_api bs)" "svc_state_ok bs" svc_cmd_ok svc_offsets MAX_REG_OFFSET
  for bs
proof unfold_locales
  show "\<exists>ret out p' w'. dev_call (mpp_service_api bs) c p w = Some (ret, out, p', w') \<and> svc_state_ok bs p' w'"
    if "svc_state_ok bs p w" "svc_cmd_ok c p w" for p w c
    by (rule svc_step_ok [OF that])
  show "\<exists>p' w'. dev_call (mpp_service_api bs) (MPP_DEV_REG_OFFSET (r, off)) p w = Some (MPP_OK, None, p', w') \<and>
      svc_state_ok bs p' w' \<and> svc_offsets p' = upsert r off (svc_offsets p)"
    if "svc_state_ok bs p w" "off \<noteq> 0" "length (svc_offsets p) < MAX_REG_OFFSET" for p w off r
    using svc_reg_offset_upsert [of p w off r] that
    by (auto simp: dev_call_def mpp_service_api_def api_call_def svc_state_ok_def)
  show "dev_call (mpp_service_api bs) (MPP_DEV_REG_OFFSET (r, 0)) p w = Some (MPP_OK, None, p, w)"
    if "svc_state_ok bs p w" for p w r
    by (simp add: dev_call_def mpp_service_api_def api_call_def mpp_service_reg_offset_def)
qed

definition vc_cmd_ok :: "dev_cmd \<Rightarrow> vsvc \<Rightarrow> world \<Rightarrow> bool" where
  "vc_cmd_ok c p w = (case c of
     MPP_DEV_REG_OFFSET (r, off) \<Rightarrow> off = 0 \<or> length (vc_offsets p) < MPX_EXTRA_INFO_NUM
   | MPP_DEV_CMD_SEND \<Rightarrow> send_ready p w
   | _ \<Rightarrow> True)"

lemma vc_set_info_inv: "vc_inv p \<Longrightarrow> \<exists>ret p'. vcodec_service_set_info cfg p w = Some (ret, p', w) \<and> vc_inv p'"
  by (auto simp: vcodec_service_set_info_def vc_inv_def Let_def)

lemma fd_trans_zero: "vcodec_service_fd_trans (r, 0) p w = Some (MPP_OK, p, w)"
  by (simp add: vcodec_service_fd_trans_def)

lemma vc_step_ok:
  assumes p: "vc_inv p" and c: "vc_cmd_ok c p w"
  shows "\<exists>ret out p' w'. dev_call vcodec_service_api c p w = Some (ret, out, p', w') \<and> vc_inv p'"
proof (cases c)
  case (MPP_DEV_REG_WR cfg)
  then show ?thesis using reg_wr_ok [OF p, of cfg w] by (auto simp: dev_call_def vcodec_service_api_def api_call_def)
next
  case (MPP_DEV_REG_RD cfg)
  then show ?thesis using reg_rd_ok [OF p, of cfg w] by (auto simp: dev_call_def vcodec_service_api_def api_call_def)
next
  case (MPP_DEV_REG_OFFSET x)
  obtain r off where x: "x = (r, off)" by fastforce
  show ?thesis
  proof (cases "off = 0")
    case True
    then show ?thesis using MPP_DEV_REG_OFFSET x p
      by (simp add: dev_call_def vcodec_service_api_def api_call_def fd_trans_zero)
  next
    case False
    then have "length (vc_offsets p) < MPX_EXTRA_INFO_NUM" using c MPP_DEV_REG_OFFSET x by (simp add: vc_cmd_ok_def)
    from fd_trans_ok [OF p False this, of r w] show ?thesis
      using MPP_DEV_REG_OFFSET x by (auto simp: dev_call_def vcodec_service_api_def api_call_def)
  qed
next
  case (MPP_DEV_SET_INFO cfg)
  then show ?thesis using vc_set_info_inv [OF p, of cfg w] by (auto simp: dev_call_def vcodec_service_api_def api_call_def)
next
  case MPP_DEV_CMD_SEND
  then have rdy: "send_ready p w" using c by (simp add: vc_cmd_ok_def)
  obtain ret p' w' where "vcodec_service_cmd_send p w = Some (ret, p', w')" "vc_inv p'"
    by (rule send_ok [OF p rdy]) (rule that)
  then show ?thesis using MPP_DEV_CMD_SEND by (simp add: dev_call_def vcodec_service_api_def api_call_def)
next
  case (MPP_DEV_CMD_POLL cfg)
  obtain ret p' w' where "vcodec_service_cmd_poll p w = Some (ret, p', w')" "vc_inv p'"
    by (rule poll_ok [OF p]) (rule that)
  then show ?thesis using MPP_DEV_CMD_POLL by (simp add: dev_call_def vcodec_service_api_def)
qed (simp_all add: dev_call_def vcodec_service_api_def api_call_def p)

interpretation vcodec: offset_driver "dev_call vcodec_service_api" "\<lambda>p w. vc_inv p" vc_cmd_ok vc_offsets MPX_EXTRA_INFO_NUM
proof unfold_locales
  show "\<exists>ret out p' w'. dev_call vcodec_service_api c p w = Some (ret, out, p', w') \<and> vc_inv p'"
    if "vc_inv p" "vc_cmd_ok c p w" for p w c
    by (rule vc_step_ok [OF that])
  show "\<exists>p' w'. dev_call vcodec_service_api (MPP_DEV_REG_OFFSET (r, off)) p w = Some (MPP_OK, None, p', w') \<and>
      vc_inv p' \<and> vc_offsets p' = upsert r off (vc_offsets p)"
    if "vc_inv p" "off \<noteq> 0" "length (vc_offsets p) < MPX_EXTRA_INFO_NUM" for p w off r
    using fd_trans_ok [OF that, of r w] by (auto simp: dev_call_def vcodec_service_api_def api_call_def)
  show "dev_call vcodec_service_api (MPP_DEV_REG_OFFSET (r, 0)) p w = Some (MPP_OK, None, p, w)"
    if "vc_inv p" for p w r
    by (simp add: dev_call_def vcodec_service_api_def api_call_def fd_trans_zero)
qed


section \<open>The device over either driver\<close>

definition dev_inv :: "batch_server \<Rightarrow> dev_impl option \<Rightarrow> world \<Rightarrow> bool" where
  "dev_inv bs d w = (case d of None \<Rightarrow> False
     | Some d \<Rightarrow> (case dv_ctx d of None \<Rightarrow> False
         | Some (Ctx_mpp p) \<Rightarrow> svc_state_ok bs p w
         | Some (Ctx_vcodec p) \<Rightarrow> vc_inv p))"

text \<open>
  Which commands may be given: no more than sixteen entries of codec information for the newer
  driver, no more than sixteen registers with offsets between two sends for the older one, and
  its registers in memory at a send.
\<close>

definition dev_cmd_ok :: "dev_cmd \<Rightarrow> dev_impl option \<Rightarrow> world \<Rightarrow> bool" where
  "dev_cmd_ok c d w = (case d of None \<Rightarrow> True
     | Some d \<Rightarrow> (case dv_ctx d of None \<Rightarrow> True
         | Some (Ctx_mpp p) \<Rightarrow> svc_cmd_ok c p w
         | Some (Ctx_vcodec p) \<Rightarrow> vc_cmd_ok c p w))"

definition dev_offsets :: "dev_impl option \<Rightarrow> reg_info list" where
  "dev_offsets d = (case d of None \<Rightarrow> []
     | Some d \<Rightarrow> (case dv_ctx d of None \<Rightarrow> []
         | Some (Ctx_mpp p) \<Rightarrow> svc_offsets p
         | Some (Ctx_vcodec p) \<Rightarrow> vc_offsets p))"

lemma dev_inv_cases:
  assumes "dev_inv bs d w"
  obtains d' p where "d = Some d'" "dv_ctx d' = Some (Ctx_mpp p)" "svc_state_ok bs p w"
  | d' p where "d = Some d'" "dv_ctx d' = Some (Ctx_vcodec p)" "vc_inv p"
  using assms by (auto simp: dev_inv_def split: option.splits dev_ctx.splits)

lemma dev_step_ok:
  assumes "dev_inv bs d w" "dev_cmd_ok c d w"
  shows "\<exists>ret out d' w'. mpp_dev_ioctl bs c d w = Some (ret, out, d', w') \<and> dev_inv bs d' w'"
  using assms(1)
proof (cases rule: dev_inv_cases)
  case (1 d' p)
  then have "\<exists>ret out p' w'. dev_call (mpp_service_api bs) c p w = Some (ret, out, p', w') \<and> svc_state_ok bs p' w'"
    using assms(2) by (intro service.step_ok) (simp_all add: dev_cmd_ok_def)
  then show ?thesis using 1 by (auto simp: mpp_dev_ioctl_def dev_inv_def)
next
  case (2 d' p)
  then have "\<exists>ret out p' w'. dev_call vcodec_service_api c p w = Some (ret, out, p', w') \<and> vc_inv p'"
    using assms(2) by (intro vcodec.step_ok) (simp_all add: dev_cmd_ok_def)
  then show ?thesis using 2 by (auto simp: mpp_dev_ioctl_def dev_inv_def)
qed

lemma dev_set_offset:
  assumes "dev_inv bs d w" "off \<noteq> 0" "length (dev_offsets d) < MPX_EXTRA_INFO_NUM"
  shows "\<exists>d' w'. mpp_dev_ioctl bs (MPP_DEV_REG_OFFSET (r, off)) d w = Some (MPP_OK, None, d', w') \<and>
    dev_inv bs d' w' \<and> dev_offsets d' = upsert r off (dev_offsets d)"
  using assms(1)
proof (cases rule: dev_inv_cases)
  case (1 d' p)
  then have "length (svc_offsets p) < MAX_REG_OFFSET"
    using assms(3) by (simp add: dev_offsets_def MPX_EXTRA_INFO_NUM_def MAX_REG_OFFSET_def)
  from service.set_offset [OF 1(3) assms(2) this, of r] 1 show ?thesis
    by (auto simp: mpp_dev_ioctl_def dev_inv_def dev_offsets_def)
next
  case (2 d' p)
  then have "length (vc_offsets p) < MPX_EXTRA_INFO_NUM" using assms(3) by (simp add: dev_offsets_def)
  from vcodec.set_offset [OF 2(3) assms(2) this, of r w] 2 show ?thesis
    by (auto simp: mpp_dev_ioctl_def dev_inv_def dev_offsets_def)
qed

lemma dev_set_zero:
  assumes "dev_inv bs d w"
  shows "mpp_dev_ioctl bs (MPP_DEV_REG_OFFSET (r, 0)) d w = Some (MPP_OK, None, d, w)"
  using assms
proof (cases rule: dev_inv_cases)
  case (1 d' p)
  then show ?thesis using service.set_zero [OF 1(3), of r] by (cases d') (simp add: mpp_dev_ioctl_def)
next
  case (2 d' p)
  then show ?thesis using vcodec.set_zero [OF 2(3), of r w] by (cases d') (simp add: mpp_dev_ioctl_def)
qed

interpretation device: offset_driver "mpp_dev_ioctl bs" "dev_inv bs" dev_cmd_ok dev_offsets MPX_EXTRA_INFO_NUM for bs
  by unfold_locales (fact dev_step_ok dev_set_offset dev_set_zero)+

text \<open>What a start that succeeds leaves.\<close>

lemma service_init_ok:
  assumes "mpp_service_init env cap n zero_svc w = (MPP_OK, p, w')" "no_oom w"
  shows "svc_inv p \<and> no_oom w' \<and> svc_offsets p = []"
proof -
  have open_oom: "no_oom (snd (sys_open name w)) = no_oom w" for name
    by (simp add: no_oom_def sys_open_def Let_def split: option.splits list.splits)
  obtain fd w1 where o1: "sys_open (mpp_get_mpp_service_name env) w = (fd, w1)" "no_oom w1"
    using open_oom [of "mpp_get_mpp_service_name env"] assms(2) by (metis prod.collapse)
  have fd: "\<not> fd < 0" using assms(1) o1 by (auto simp: mpp_service_init_def)
  obtain r w2 where i: "mpp_service_ioctl fd MPP_CMD_INIT_CLIENT_TYPE 4 (P_val (word_of_int n)) w1 = (r, w2)" by fastforce
  have w2: "no_oom w2" using i o1(2) by (auto simp: mpp_service_ioctl_def no_oom_ioctl Let_def)
  obtain w3 where a1: "sys_alloc w2 = (True, w3)" "no_oom w3" using no_oom_alloc [OF w2] by (metis prod.collapse)
  obtain w4 where a2: "sys_alloc w3 = (True, w4)" "no_oom w4" using no_oom_alloc [OF a1(2)] by (metis prod.collapse)
  obtain w5 where a3: "sys_alloc w4 = (True, w5)" "no_oom w5" using no_oom_alloc [OF a2(2)] by (metis prod.collapse)
  show ?thesis using assms(1) o1 fd i a1 a2 a3
    by (auto simp: mpp_service_init_def svc_inv_def svc_offsets_def Let_def zero_svc_def svc_limits)
qed

lemma client_sets: "client_setup env type = Some (name, client, sz, n) \<Longrightarrow> n \<in> {2, 3}"
  by (cases type) (auto simp: client_setup_def)

lemma vcodec_init_ok:
  assumes "vcodec_service_init env type version zero_vsvc w = (MPP_OK, v, p, w')"
  shows "vc_inv p \<and> vc_offsets p = []"
proof -
  obtain name client sz n where c: "client_setup env type = Some (name, client, sz, n)"
    using assms by (auto simp: vcodec_service_init_def split: option.splits)
  obtain fd w1 where fd: "sys_open name w = (fd, w1)" by fastforce
  obtain ret v' w2 where sc: "set_client fd version client w1 = (ret, v', w2)" by (metis prod_cases3)
  have p: "p = zero_vsvc\<lparr>vs_fd := fd, vs_max_regs := n, vs_reg_size := sz * 4,
      vs_regs := map (\<lambda>r. r\<lparr>vr_reg_size := sz * 4, vr_extra := extra_info_init (vr_extra r)\<rparr>)
                   (take n (vs_regs zero_vsvc)) @ drop n (vs_regs zero_vsvc)\<rparr>"
    using assms c fd sc by (simp add: vcodec_service_init_def Let_def zero_vsvc_def split: if_splits)
  have regs: "vs_regs p ! i \<in> {\<lparr>vr_reg_size = s, vr_extra = \<lparr>ei_magic = m, ei_count = 0, ei_slots = replicate MPX_EXTRA_INFO_NUM (0, 0)\<rparr>,
      vr_set = 0, vr_get = 0\<rparr> | s m. True}" if "i < MAX_REGS_COUNT" for i
    using that unfolding p by (auto simp: zero_vsvc_def extra_info_init_def nth_append MAX_REGS_COUNT_def)
  have len: "length (vs_regs p) = MAX_REGS_COUNT"
    using client_sets [OF c] unfolding p by (auto simp: zero_vsvc_def MAX_REGS_COUNT_def)
  have z: "length (ei_slots (vr_extra (vs_regs p ! i))) = MPX_EXTRA_INFO_NUM" "ei_count (vr_extra (vs_regs p ! i)) = 0"
    if "i < MAX_REGS_COUNT" for i using regs [OF that] by auto
  have rest: "vs_max_regs p = n" "vs_send_idx p = 0" "vs_poll_idx p = 0" "vs_info_count p = 0"
    by (simp_all add: p zero_vsvc_def)
  show ?thesis using client_sets [OF c] z len rest z [of 0]
    by (auto simp: vc_inv_def vc_offsets_def MAX_REGS_COUNT_def)
qed

lemma init_inv:
  assumes "mpp_dev_init env pf True type version w = (MPP_OK, d, v, w')" "no_oom w" "bs_ok bs"
  shows "dev_inv bs d w' \<and> dev_offsets d = []"
proof -
  obtain w1 where a1: "sys_alloc w = (True, w1)" "no_oom w1" using no_oom_alloc [OF assms(2)] by (metis prod.collapse)
  obtain w2 where a2: "sys_alloc w1 = (True, w2)" "no_oom w2" using no_oom_alloc [OF a1(2)] by (metis prod.collapse)
  show ?thesis
  proof (cases "pf_ioctl_version pf")
    case IOCTL_VCODEC_SERVICE
    with assms(1) a1 a2 obtain p where p: "vcodec_service_init env type version zero_vsvc w2 = (MPP_OK, v, p, w')"
      "d = Some \<lparr>dv_type = type, dv_ctx = Some (Ctx_vcodec p)\<rparr>"
      by (auto simp: mpp_dev_init_def split: if_splits prod.splits)
    then show ?thesis using vcodec_init_ok [OF p(1)] by (simp add: dev_inv_def dev_offsets_def)
  next
    case IOCTL_MPP_SERVICE_V1
    with assms(1) a1 a2 obtain p where
      p: "mpp_service_init env (pf_cap pf) (int (client_number type)) zero_svc w2 = (MPP_OK, p, w')"
      "d = Some \<lparr>dv_type = type, dv_ctx = Some (Ctx_mpp p)\<rparr>"
      by (auto simp: mpp_dev_init_def split: if_splits prod.splits)
    then show ?thesis using service_init_ok [OF p(1) a2(2)] assms(3)
      by (simp add: dev_inv_def dev_offsets_def svc_state_ok_def)
  next
    case IOCTL_VERSION_BUTT
    with assms(1) show ?thesis by (auto simp: mpp_dev_init_def split: if_splits)
  qed
qed


section \<open>Many offsets at once\<close>

text \<open>
  The structure \<open>MppDevRegOffCfgs\<close> with the number of entries that its allocation has room for.
  The size of the allocation goes through \<open>RK_S32\<close> on its way from \<open>sizeof\<close> to \<open>calloc\<close>.
\<close>

record off_buf =
  ob_cfgs :: off_cfgs
  ob_room :: nat

definition multi_offset_bytes :: "int \<Rightarrow> nat" where
  "multi_offset_bytes n = unat (scast (word_of_int (8 + 8 * n) :: u32) :: u64)"

definition mpp_dev_multi_offset_init :: "bool \<Rightarrow> int \<Rightarrow> world \<Rightarrow> mpp_ret \<times> off_buf option \<times> world" where
  "mpp_dev_multi_offset_init has_cfgs n w =
     (if \<not> has_cfgs \<or> n \<le> 0 then (MPP_NOK, None, w)
      else let (ok, w) = sys_alloc w in
        (if ok then (MPP_OK, Some \<lparr>ob_cfgs = \<lparr>oc_size = n, oc_cfgs = []\<rparr>,
                                   ob_room = (multi_offset_bytes n - 8) div 8\<rparr>, w)
         else (MPP_NOK, None, w)))"

definition mpp_dev_multi_offset_deinit :: "off_buf option \<Rightarrow> mpp_ret \<times> off_buf option" where
  "mpp_dev_multi_offset_deinit b = (MPP_OK, None)"

definition mpp_dev_multi_offset_reset :: "off_buf option \<Rightarrow> mpp_ret \<times> off_buf option" where
  "mpp_dev_multi_offset_reset b =
     (MPP_OK, map_option (\<lambda>b. b\<lparr>ob_cfgs := (ob_cfgs b)\<lparr>oc_cfgs := []\<rparr>\<rparr>) b)"

text \<open>An entry behind the allocation is \<^const>\<open>None\<close>.\<close>

definition mpp_dev_multi_offset_update :: "int \<Rightarrow> u32 \<Rightarrow> off_buf option \<Rightarrow> (mpp_ret \<times> off_buf option) option" where
  "mpp_dev_multi_offset_update index offset b =
     (case b of
        None \<Rightarrow> Some (MPP_NOK, None)
      | Some b \<Rightarrow>
          let cfgs = ob_cfgs b; xs = oc_cfgs cfgs; r = word_of_int index in
          (if int (length xs) \<ge> oc_size cfgs then Some (MPP_NOK, Some b)
           else case find_reg r xs 0 of
             Some i \<Rightarrow> Some (MPP_OK, Some (b\<lparr>ob_cfgs := cfgs\<lparr>oc_cfgs := xs[i := (fst (xs ! i), offset)]\<rparr>\<rparr>))
           | None \<Rightarrow>
               if length xs < ob_room b
               then Some (MPP_OK, Some (b\<lparr>ob_cfgs := cfgs\<lparr>oc_cfgs := xs @ [(r, offset)]\<rparr>\<rparr>))
               else None))"

fun multi_updates :: "(int \<times> u32) list \<Rightarrow> off_buf option \<Rightarrow> off_buf option option" where
  "multi_updates [] b = Some b"
| "multi_updates ((i, off) # xs) b = do { (_, b) \<leftarrow> mpp_dev_multi_offset_update i off b; multi_updates xs b }"

text \<open>The specification: a table of at most \<open>n\<close> entries that takes nothing once it is full.\<close>

fun bounded_updates :: "nat \<Rightarrow> (int \<times> u32) list \<Rightarrow> reg_info list \<Rightarrow> reg_info list" where
  "bounded_updates n [] t = t"
| "bounded_updates n ((i, off) # xs) t =
     bounded_updates n xs (if length t < n then upsert (word_of_int i) off t else t)"

lemma multi_offset_bytes_exact:
  assumes "0 < n" "n < 2 ^ 28 - 1"
  shows "multi_offset_bytes n = nat (8 + 8 * n)"
proof -
  have "signed_take_bit 31 (8 + 8 * n) = 8 + 8 * n" by (rule signed_take_bit_int_eq_self) (use assms in auto)
  then have "scast (word_of_int (8 + 8 * n) :: u32) = (word_of_int (8 + 8 * n) :: u64)"
    by (simp only: signed_of_int) simp
  moreover have "uint (word_of_int (8 + 8 * n) :: u64) = 8 + 8 * n"
    unfolding uint_word_of_int by (rule mod_pos_pos_trivial) (use assms in auto)
  ultimately show ?thesis by (simp add: multi_offset_bytes_def unat_eq_nat_uint)
qed

lemma multi_update_ok:
  assumes "oc_size (ob_cfgs b) \<le> int (ob_room b)"
  shows "\<exists>ret. mpp_dev_multi_offset_update i off (Some b) = Some (ret, Some (b\<lparr>ob_cfgs := (ob_cfgs b)\<lparr>oc_cfgs :=
     (if int (length (oc_cfgs (ob_cfgs b))) < oc_size (ob_cfgs b) then upsert (word_of_int i) off (oc_cfgs (ob_cfgs b))
      else oc_cfgs (ob_cfgs b))\<rparr>\<rparr>))"
proof (cases "find_reg (word_of_int i) (oc_cfgs (ob_cfgs b)) 0")
  case None
  then have "word_of_int i \<notin> fst ` set (oc_cfgs (ob_cfgs b))" using find_reg_None by blast
  then show ?thesis using None assms by (simp add: mpp_dev_multi_offset_update_def Let_def upsert_new)
next
  case (Some k)
  from find_reg_upsert [OF Some, of off] Some show ?thesis
    by (simp add: mpp_dev_multi_offset_update_def Let_def)
qed

lemma multi_updates_bounded:
  assumes "oc_size (ob_cfgs b) = int n" "n \<le> ob_room b"
  shows "\<exists>b'. multi_updates xs (Some b) = Some (Some b') \<and>
    oc_cfgs (ob_cfgs b') = bounded_updates n xs (oc_cfgs (ob_cfgs b))"
  using assms
proof (induction xs arbitrary: b)
  case (Cons x xs)
  obtain i off where x: "x = (i, off)" by fastforce
  obtain ret where u: "mpp_dev_multi_offset_update i off (Some b) = Some (ret, Some (b\<lparr>ob_cfgs := (ob_cfgs b)\<lparr>oc_cfgs :=
     (if int (length (oc_cfgs (ob_cfgs b))) < oc_size (ob_cfgs b) then upsert (word_of_int i) off (oc_cfgs (ob_cfgs b))
      else oc_cfgs (ob_cfgs b))\<rparr>\<rparr>))"
    using multi_update_ok [of b i off] Cons.prems by auto
  show ?case using Cons.IH [of "b\<lparr>ob_cfgs := (ob_cfgs b)\<lparr>oc_cfgs :=
     (if int (length (oc_cfgs (ob_cfgs b))) < oc_size (ob_cfgs b) then upsert (word_of_int i) off (oc_cfgs (ob_cfgs b))
      else oc_cfgs (ob_cfgs b))\<rparr>\<rparr>"] u x Cons.prems by simp
qed simp


section \<open>Properties\<close>

inductive_cases reach_stepE: "reach step ok p0 w0 p w"

text \<open>
  C6: once a device has been started, and while no allocation fails, every command that is valid in a state reached
  through valid commands returns, over either driver: no pointer is followed that does not lead anywhere,
  no table is overrun, and the state it leaves is one of the reachable states again. Valid
  (\<open>dev_cmd_ok\<close>) are all commands but these, which have conditions. On the older driver: an offset, when the table has
  room for it, and a send, when offsets were set: the registers are in memory and have each register with an
  offset, or room for the information that is appended for motion JPEG. On the newer driver: codec information, when its
  array has room; a poll, when its structure has room for what the driver writes; and a send or a poll only
  out of batch mode. In batch mode those two are the batch server's, of which nothing is assumed but that
  attaching and detaching return while there is memory.
\<close>

theorem device_never_stuck:
  assumes "mpp_dev_init env pf True type version w0 = (MPP_OK, d0, v, w1)" "no_oom w0" "bs_ok bs"
    and "reach (mpp_dev_ioctl bs) dev_cmd_ok d0 w1 d w" "dev_cmd_ok c d w"
  shows "\<exists>ret out d' w'. mpp_dev_ioctl bs c d w = Some (ret, out, d', w') \<and> d' \<noteq> None \<and>
    reach (mpp_dev_ioctl bs) dev_cmd_ok d0 w1 d' w'"
proof -
  have i: "dev_inv bs d0 w1" using init_inv [OF assms(1-3)] by blast
  obtain ret out d' w' where s: "mpp_dev_ioctl bs c d w = Some (ret, out, d', w')" "reach (mpp_dev_ioctl bs) dev_cmd_ok d0 w1 d' w'"
    using device.not_stuck [OF i assms(4,5)] by blast
  have "d' \<noteq> None" using device.reach_inv [OF s(2) i] by (cases d') (simp_all add: dev_inv_def)
  then show ?thesis using s by blast
qed

definition all_files :: sys_env where
  "all_files = \<lparr>se_access = (\<lambda>_. True), se_getenv = (\<lambda>_. None)\<rparr>"

definition old_platform :: mpp_platform where
  "old_platform = \<lparr>pf_vcodec_type = 1, pf_ioctl_version = IOCTL_VCODEC_SERVICE,
     pf_cap = \<lparr>cc_support_cmd = 0, cc_query_cmd = 0, cc_init_cmd = 0, cc_send_cmd = 0, cc_poll_cmd = 0, cc_ctrl_cmd = 0\<rparr>\<rparr>"

definition new_platform :: mpp_platform where
  "new_platform = old_platform\<lparr>pf_ioctl_version := IOCTL_MPP_SERVICE_V1\<rparr>"

lemma no_server_ok: "bs_ok no_server"
  by (auto simp: bs_ok_def no_server_def)

lemma fresh_no_oom: "no_oom fresh_world"
  by (simp add: no_oom_def fresh_world_def)

text \<open>A start of either driver that succeeds.\<close>

abbreviation start_on :: "mpp_platform \<Rightarrow> mpp_ret \<times> dev_impl option \<times> int \<times> world" where
  "start_on pf \<equiv> mpp_dev_init all_files pf True VPU_CLIENT_VDPU1 (- 1) fresh_world"

lemma starts: "fst (start_on old_platform) = MPP_OK" "fst (start_on new_platform) = MPP_OK"
  by (simp_all add: mpp_dev_init_def old_platform_def new_platform_def all_files_def fresh_world_def sys_alloc_def
      vcodec_service_init_def client_setup_def mpp_vpu_dev_def sys_open_def set_client_def sys_ioctl_def
      ret_of_int_def mpp_service_init_def mpp_get_mpp_service_name_def mpp_service_ioctl_def Let_def)

lemma started:
  obtains d v w where "start_on pf = (fst (start_on pf), d, v, w)"
  by (metis prod.collapse)

lemma device_never_stuck_witness:
  "\<exists>d v w ret out d' w'. start_on old_platform = (MPP_OK, d, v, w) \<and>
     mpp_dev_ioctl no_server (MPP_DEV_REG_OFFSET (7, 5)) d w = Some (ret, out, d', w') \<and> d' \<noteq> None"
proof -
  obtain d v w where s: "start_on old_platform = (MPP_OK, d, v, w)" using started starts(1) by metis
  have "dev_offsets d = []" "dev_inv no_server d w"
    using init_inv [OF s fresh_no_oom no_server_ok] by auto
  then have "dev_cmd_ok (MPP_DEV_REG_OFFSET (7, 5)) d w"
    by (auto simp: dev_cmd_ok_def dev_offsets_def vc_cmd_ok_def svc_cmd_ok_def MPX_EXTRA_INFO_NUM_def split: option.splits dev_ctx.splits)
  from device_never_stuck [OF s fresh_no_oom no_server_ok reach.reach_start this] s show ?thesis by blast
qed

text \<open>
  C32: on a started device, over either driver, setting offsets of registers one after another
  leaves the last offset of each register that is not zero, on top of what was set before, as long
  as there are no more than sixteen in all.
\<close>

theorem device_offsets_last_win:
  assumes "mpp_dev_init env pf True type version w0 = (MPP_OK, d0, v, w1)" "no_oom w0" "bs_ok bs"
    and "reach (mpp_dev_ioctl bs) dev_cmd_ok d0 w1 d w" "length (dev_offsets d) + length xs \<le> 16"
  shows "\<exists>d' w'. set_offsets (mpp_dev_ioctl bs) xs d w = Some (d', w') \<and>
    map_of (dev_offsets d') = map_of (dev_offsets d) ++ map_of (rev (filter (\<lambda>(r, off). off \<noteq> 0) xs))"
proof -
  have "dev_inv bs d0 w1" using init_inv [OF assms(1-3)] by blast
  then have "dev_inv bs d w" by (rule device.reach_inv [OF assms(4)])
  from device.set_offsets_ok [OF this, of xs] assms(5) show ?thesis
    by (auto simp: MPX_EXTRA_INFO_NUM_def map_of_last_offsets)
qed

lemma device_offsets_last_win_witness:
  "\<exists>d v w d' w'. start_on new_platform = (MPP_OK, d, v, w) \<and>
     set_offsets (mpp_dev_ioctl no_server) [(7, 5), (8, 0), (7, 6)] d w = Some (d', w') \<and> map_of (dev_offsets d') = [7 \<mapsto> 6]"
proof -
  obtain d v w where s: "start_on new_platform = (MPP_OK, d, v, w)" using started starts(2) by metis
  have o: "dev_offsets d = []" using init_inv [OF s fresh_no_oom no_server_ok] by blast
  from device_offsets_last_win [OF s fresh_no_oom no_server_ok reach.reach_start, of "[(7, 5), (8, 0), (7, 6)]"] s o
  show ?thesis by (auto simp: fun_eq_iff)
qed

text \<open>
  C33: a table for many offsets made for fewer than 2^28 - 1 of them keeps its promise of size: up to the size it was
  made for, an update changes the entry of its register or adds one, and a full table takes nothing, not
  even a change of a register it has. No update of such a table writes behind the allocation (for a larger size
  the number of bytes can wrap around, \<open>multi_offset_size_wraps\<close>).
\<close>

theorem multi_offset_table:
  assumes "mpp_dev_multi_offset_init True (int n) w = (MPP_OK, b, w')" "n < 2 ^ 28 - 1"
  shows "\<exists>b'. multi_updates xs b = Some (Some b') \<and> oc_cfgs (ob_cfgs b') = bounded_updates n xs []"
proof -
  obtain ok w1 where a: "sys_alloc w = (ok, w1)" by fastforce
  have n: "0 < int n" "ok" and b: "b = Some \<lparr>ob_cfgs = \<lparr>oc_size = int n, oc_cfgs = []\<rparr>, ob_room = (multi_offset_bytes (int n) - 8) div 8\<rparr>"
    using assms(1) a by (auto simp: mpp_dev_multi_offset_init_def split: if_splits)
  have "multi_offset_bytes (int n) = nat (8 + 8 * int n)"
    by (rule multi_offset_bytes_exact) (use n assms(2) in auto)
  then show ?thesis
    unfolding b using multi_updates_bounded [of "\<lparr>ob_cfgs = \<lparr>oc_size = int n, oc_cfgs = []\<rparr>, ob_room = n\<rparr>" n xs]
    by (simp add: nat_add_distrib nat_mult_distrib)
qed

lemma multi_offset_table_witness:
  "\<exists>b b'. mpp_dev_multi_offset_init True 1 fresh_world = (MPP_OK, b, fresh_world) \<and>
     multi_updates [(7, 5), (8, 1), (7, 6)] b = Some (Some b') \<and> oc_cfgs (ob_cfgs b') = [(7, 5)]"
proof -
  obtain b where b: "mpp_dev_multi_offset_init True (int 1) fresh_world = (MPP_OK, b, fresh_world)"
    by (simp add: mpp_dev_multi_offset_init_def fresh_world_def sys_alloc_def)
  from multi_offset_table [OF b, of "[(7, 5), (8, 1), (7, 6)]"] b show ?thesis by auto
qed

text \<open>
  A size of 2^29 makes the number of bytes wrap around to eight, so that a table is returned
  that says it has that many entries, and the first update is written behind it.
\<close>

theorem multi_offset_size_wraps:
  "\<exists>b w. mpp_dev_multi_offset_init True (2 ^ 29) fresh_world = (MPP_OK, Some b, w) \<and> oc_size (ob_cfgs b) = 2 ^ 29 \<and>
     mpp_dev_multi_offset_update i off (Some b) = None"
  by (simp add: mpp_dev_multi_offset_init_def fresh_world_def sys_alloc_def multi_offset_bytes_def
      mpp_dev_multi_offset_update_def)


end
