(* ===== verification/Buf_Kernel.thy ===== *)
theory Buf_Kernel
  imports Mpp_Prelude "HOL-Library.Multiset"
begin

text \<open>
  The kernel as the buffer allocators see it: open descriptors and what they refer to, handles of
  buffers, mappings. The answers of the calls to come are a list, an exhausted list answers that
  there is no memory; a call that gives something out does so only when its answer is a success
  and the descriptor, handle or address is not in use. A call that gives something back succeeds
  when there is something to give back. The interface of an allocator, with the laws a client
  relies on, is the locale \<open>buffer_allocator\<close>.
\<close>

section \<open>Kernel\<close>

record answer =
  an_ret :: int
  an_errno :: int
  an_val :: int

text \<open>
  A descriptor refers to a number of bytes, zero for a device; a handle is one of a device's
  buffers; a mapping has its size and whether it may be written.
\<close>

record kernel =
  k_fds :: "int \<rightharpoonup> nat"
  k_rdwr :: "int \<Rightarrow> bool"
  k_handles :: "u32 \<rightharpoonup> nat"
  k_maps :: "u64 \<rightharpoonup> nat \<times> bool"
  k_answers :: "answer list"
  k_heap :: heap
  k_opened :: "string list"

definition EINTR :: int where "EINTR = 4"
definition EBADF :: int where "EBADF = 9"
definition EAGAIN :: int where "EAGAIN = 11"
definition ENOMEM :: int where "ENOMEM = 12"
definition EINVAL :: int where "EINVAL = 22"

definition refused :: "int \<Rightarrow> answer" where
  "refused e = \<lparr>an_ret = -1, an_errno = e, an_val = -1\<rparr>"

text \<open>A call that fails sets \<open>errno\<close>.\<close>

definition next_answer :: "kernel \<Rightarrow> answer \<times> kernel" where
  "next_answer k = (case k_answers k of
     [] \<Rightarrow> (refused ENOMEM, k)
   | a # as \<Rightarrow> (if an_ret a < 0 \<and> an_errno a \<le> 0 then refused ENOMEM else a, k\<lparr>k_answers := as\<rparr>))"

definition k_malloc :: "kernel \<Rightarrow> bool \<times> kernel" where
  "k_malloc k = (let (ok, hp) = heap_alloc (k_heap k) in (ok, k\<lparr>k_heap := hp\<rparr>))"

text \<open>A new descriptor for \<open>n\<close> bytes; a negative number in an answer of success is passed on.\<close>

definition give_fd :: "answer \<Rightarrow> int \<Rightarrow> nat \<Rightarrow> kernel \<Rightarrow> answer \<times> kernel" where
  "give_fd a fd n k =
     (if fd < 0 then (a, k)
      else if k_fds k fd \<noteq> None then (refused ENOMEM, k)
      else (a, k\<lparr>k_fds := (k_fds k)(fd \<mapsto> n)\<rparr>))"

definition give_handle :: "answer \<Rightarrow> u32 \<Rightarrow> nat \<Rightarrow> kernel \<Rightarrow> answer \<times> kernel" where
  "give_handle a h n k =
     (if h = 0 \<or> k_handles k h \<noteq> None then (refused ENOMEM, k)
      else (a, k\<lparr>k_handles := (k_handles k)(h \<mapsto> n)\<rparr>))"

definition k_open :: "string \<Rightarrow> kernel \<Rightarrow> answer \<times> kernel" where
  "k_open name k =
     (let (a, k) = next_answer (k\<lparr>k_opened := k_opened k @ [name]\<rparr>)
      in if an_ret a < 0 then (a, k) else give_fd a (an_ret a) 0 k)"

definition k_close :: "int \<Rightarrow> kernel \<Rightarrow> answer \<times> kernel" where
  "k_close fd k =
     (if k_fds k fd = None then (refused EBADF, k)
      else (\<lparr>an_ret = 0, an_errno = 0, an_val = 0\<rparr>, k\<lparr>k_fds := (k_fds k)(fd := None)\<rparr>))"

definition k_dup :: "int \<Rightarrow> kernel \<Rightarrow> answer \<times> kernel" where
  "k_dup fd k =
     (case k_fds k fd of
        None \<Rightarrow> (refused EBADF, k)
      | Some n \<Rightarrow> let (a, k) = next_answer k in if an_ret a < 0 then (a, k) else give_fd a (an_ret a) n k)"

text \<open>\<open>fcntl(fd, F_GETFL) & O_RDWR\<close>: -1, for a descriptor that is not open, has every bit.\<close>

definition k_getfl_rdwr :: "int \<Rightarrow> kernel \<Rightarrow> bool" where
  "k_getfl_rdwr fd k \<longleftrightarrow> k_fds k fd = None \<or> k_rdwr k fd"

text \<open>The address of a mapping, or \<^const>\<open>None\<close> for \<open>MAP_FAILED\<close>, with \<open>errno\<close>, which is not zero then.\<close>

definition k_mmap :: "nat \<Rightarrow> bool \<Rightarrow> int \<Rightarrow> kernel \<Rightarrow> u64 option \<times> int \<times> kernel" where
  "k_mmap n writable fd k =
     (if k_fds k fd = None then (None, EBADF, k)
      else let (a, k) = next_answer k; p = word_of_int (an_val a) in
        (if an_ret a < 0 then (None, an_errno a, k)
         else if p = 0 \<or> k_maps k p \<noteq> None then (None, ENOMEM, k)
         else (Some p, 0, k\<lparr>k_maps := (k_maps k)(p \<mapsto> (n, writable))\<rparr>)))"

text \<open>
  The mapping at an address goes as a whole. The code passes the size of the buffer, which is the one the
  mapping was made with: no operation of the allocators changes the size of a buffer.
\<close>

definition k_munmap :: "u64 \<Rightarrow> kernel \<Rightarrow> kernel" where
  "k_munmap p k = k\<lparr>k_maps := (k_maps k)(p := None)\<rparr>"

text \<open>The requests of \<open>ioctl\<close>; what the kernel stores is the \<open>an_val\<close> of the answer.\<close>

datatype kreq = DRM_MODE_CREATE_DUMB nat | DRM_PRIME_HANDLE_TO_FD u32 | DRM_MODE_DESTROY_DUMB u32
  | DMA_HEAP_ALLOC nat | ION_ALLOC nat | ION_FREE u32 | ION_MAP u32 | ION_IMPORT int

definition take_handle :: "u32 \<Rightarrow> kernel \<Rightarrow> answer \<times> kernel" where
  "take_handle h k =
     (if k_handles k h = None then (refused EINVAL, k)
      else (\<lparr>an_ret = 0, an_errno = 0, an_val = 0\<rparr>, k\<lparr>k_handles := (k_handles k)(h := None)\<rparr>))"

definition k_grant :: "kreq \<Rightarrow> answer \<Rightarrow> kernel \<Rightarrow> answer \<times> kernel" where
  "k_grant r a k = (case r of
     DRM_MODE_CREATE_DUMB n \<Rightarrow> give_handle a (word_of_int (an_val a)) n k
   | ION_ALLOC n \<Rightarrow> give_handle a (word_of_int (an_val a)) n k
   | DRM_PRIME_HANDLE_TO_FD h \<Rightarrow>
       (case k_handles k h of None \<Rightarrow> (refused EINVAL, k) | Some n \<Rightarrow> give_fd a (an_val a) n k)
   | ION_MAP h \<Rightarrow>
       (case k_handles k h of None \<Rightarrow> (refused EINVAL, k) | Some n \<Rightarrow> give_fd a (an_val a) n k)
   | DMA_HEAP_ALLOC n \<Rightarrow> if an_val a < 0 then (refused ENOMEM, k) else give_fd a (an_val a) n k
   | ION_IMPORT fd \<Rightarrow>
       (case k_fds k fd of None \<Rightarrow> (refused EBADF, k) | Some n \<Rightarrow> give_handle a (word_of_int (an_val a)) n k)
   | _ \<Rightarrow> (a, k))"

definition k_ioctl :: "int \<Rightarrow> kreq \<Rightarrow> kernel \<Rightarrow> answer \<times> kernel" where
  "k_ioctl fd r k =
     (if k_fds k fd = None then (refused EBADF, k)
      else case r of
        DRM_MODE_DESTROY_DUMB h \<Rightarrow> take_handle h k
      | ION_FREE h \<Rightarrow> take_handle h k
      | _ \<Rightarrow> let (a, k) = next_answer k in if an_ret a < 0 then (a, k) else k_grant r a k)"

instantiation kernel_ext :: (type) size
begin

definition size_kernel_ext :: "'a kernel_scheme \<Rightarrow> nat" where
  "size_kernel_ext k = length (k_answers k)"

instance ..

end

lemma k_ioctl_again:
  "k_ioctl fd r k = (a, k') \<Longrightarrow> an_ret a = -1 \<Longrightarrow> an_errno a = EINTR \<or> an_errno a = EAGAIN \<Longrightarrow> size k' < size k"
  by (auto simp: k_ioctl_def next_answer_def k_grant_def give_fd_def give_handle_def take_handle_def refused_def
      EINTR_def EAGAIN_def EBADF_def ENOMEM_def EINVAL_def size_kernel_ext_def Let_def
      split: if_splits list.splits kreq.splits option.splits)

lemma next_answer_kernel: "next_answer k = (a, k') \<Longrightarrow> (\<exists>as. k' = k\<lparr>k_answers := as\<rparr>) \<and> (an_ret a < 0 \<longrightarrow> 0 < an_errno a)"
  by (cases "k_answers k") (auto simp: next_answer_def refused_def ENOMEM_def intro: exI [of _ "k_answers k"] split: if_splits)

lemma k_ioctl_errno: "k_ioctl fd r k = (a, k') \<Longrightarrow> an_ret a < 0 \<Longrightarrow> 0 < an_errno a"
  by (auto simp: k_ioctl_def k_grant_def give_fd_def give_handle_def take_handle_def refused_def Let_def
      EBADF_def ENOMEM_def EINVAL_def split: if_splits kreq.splits option.splits prod.splits dest!: next_answer_kernel)

section \<open>Buffers\<close>

text \<open>The structure \<open>MppBufferInfo\<close>, as far as the allocators use it; a null pointer is zero.\<close>

record buf_info =
  bi_size :: u64
  bi_ptr :: u64
  bi_hnd :: u64
  bi_fd :: int

text \<open>The structure \<open>MppAllocatorCfg\<close>, and what the allocators return.\<close>

record alloc_cfg =
  ac_alignment :: u64
  ac_flags :: u32

type_synonym buf_op = "buf_info \<Rightarrow> kernel \<Rightarrow> (mpp_ret \<times> buf_info \<times> kernel) option"

text \<open>A process has its standard input open, and nothing at the null address.\<close>

definition k_inv :: "kernel \<Rightarrow> bool" where
  "k_inv k \<longleftrightarrow> 0 \<in> dom (k_fds k) \<and> k_maps k 0 = None \<and> k_handles k 0 = None"

section \<open>What is held\<close>

text \<open>
  The keys \<open>ks\<close> are what a map has beyond another one: resources taken since then.
\<close>

definition held :: "('k \<rightharpoonup> 'v) \<Rightarrow> ('k \<rightharpoonup> 'v) \<Rightarrow> 'k list \<Rightarrow> bool" where
  "held m0 m ks \<longleftrightarrow> distinct ks \<and> set ks \<inter> dom m0 = {} \<and> set ks \<subseteq> dom m \<and> m |` (- set ks) = m0"

lemma restrict_UNIV [simp]: "m |` UNIV = m"
  by (simp add: restrict_map_def)

lemma held_Nil [simp]: "held m0 m [] \<longleftrightarrow> m = m0"
  by (auto simp: held_def)

lemma held_one [simp]: "held m0 m [k] \<longleftrightarrow> m0 k = None \<and> (\<exists>v. m = m0(k \<mapsto> v))"
  by (auto simp: held_def restrict_map_def fun_eq_iff domIff split: if_splits)

lemma held_add:
  assumes "held m0 m ks" "held m m' xs"
  shows "held m0 m' (xs @ ks)"
proof -
  have a: "distinct ks" "set ks \<inter> dom m0 = {}" "set ks \<subseteq> dom m" "m |` (- set ks) = m0"
    and b: "distinct xs" "set xs \<inter> dom m = {}" "set xs \<subseteq> dom m'" "m' |` (- set xs) = m"
    using assms by (auto simp: held_def)
  have sub: "dom m \<subseteq> dom m'" "dom m0 \<subseteq> dom m" by (auto simp: a(4) [symmetric] b(4) [symmetric])
  have "m' |` (- set (xs @ ks)) = m0"
    unfolding a(4) [symmetric] b(4) [symmetric] by (simp add: Int_commute)
  moreover have "set xs \<inter> set ks = {}" using a(3) b(2) by blast
  moreover have "set (xs @ ks) \<inter> dom m0 = {}" using a(2) b(2) sub(2) unfolding set_append by blast
  moreover have "set (xs @ ks) \<subseteq> dom m'" using a(3) b(3) sub(1) unfolding set_append by blast
  ultimately show ?thesis using a(1) b(1) by (simp add: held_def)
qed

lemma held_take:
  assumes "held m0 m (xs @ ks)"
  shows "held m0 (m |` (- set xs)) ks"
  using assms by (auto simp: held_def Int_commute)

lemma held_perm: "mset ks = mset ks' \<Longrightarrow> held m0 m ks \<Longrightarrow> held m0 m ks'"
  using mset_eq_imp_distinct_iff [of ks ks'] mset_eq_setD [of ks ks'] by (simp add: held_def)

lemma concat_perm: "mset bs = mset cs \<Longrightarrow> mset (concat (map f bs)) = mset (concat (map f cs))"
  by (metis mset_concat mset_map sum_mset_sum_list)

text \<open>A pointer that is not null.\<close>

definition ptrs :: "buf_info \<Rightarrow> u64 list" where
  "ptrs b = (if bi_ptr b = 0 then [] else [bi_ptr b])"

section \<open>The interface of an allocator\<close>

text \<open>
  \<open>dev\<close> is the descriptor of the device, \<open>hs\<close> what handles a buffer has, \<open>fits\<close> the sizes for
  which the allocator keeps its word.
\<close>

locale buffer_allocator =
  fixes alloc release mmap :: buf_op
    and dev :: int
    and hs :: "buf_info \<Rightarrow> u32 list"
    and inv :: "kernel \<Rightarrow> bool"
    and fits :: "u64 \<Rightarrow> bool"
  assumes alloc_gives: "inv k \<Longrightarrow> fits (bi_size i) \<Longrightarrow> alloc i k = Some (MPP_OK, b, k') \<Longrightarrow>
      inv k' \<and> bi_size b = bi_size i \<and> bi_ptr b = 0 \<and> 0 < bi_fd b \<and> bi_fd b \<noteq> dev \<and>
      (\<exists>n. unat (bi_size i) \<le> n \<and> k_fds k (bi_fd b) = None \<and> k_fds k' = (k_fds k)(bi_fd b \<mapsto> n)) \<and>
      held (k_handles k) (k_handles k') (hs b) \<and> k_maps k' = k_maps k"
    and mmap_gives: "inv k \<Longrightarrow> bi_ptr i = 0 \<Longrightarrow> mmap i k = Some (MPP_OK, b, k') \<Longrightarrow>
      inv k' \<and> b = i\<lparr>bi_ptr := bi_ptr b\<rparr> \<and> bi_ptr b \<noteq> 0 \<and> hs b = hs i \<and>
      k_maps k (bi_ptr b) = None \<and> (\<exists>wr. k_maps k' = (k_maps k)(bi_ptr b \<mapsto> (unat (bi_size i), wr))) \<and>
      k_fds k' = k_fds k \<and> k_handles k' = k_handles k"
    and release_takes: "inv k \<Longrightarrow> 0 < bi_fd b \<Longrightarrow> bi_fd b \<noteq> dev \<Longrightarrow> k_fds k (bi_fd b) \<noteq> None \<Longrightarrow>
      set (hs b) \<subseteq> dom (k_handles k) \<Longrightarrow>
      \<exists>b' k'. release b k = Some (MPP_OK, b', k') \<and> inv k' \<and> k_fds k' = (k_fds k)(bi_fd b := None) \<and>
        k_handles k' = k_handles k |` (- set (hs b)) \<and> k_maps k' = k_maps k |` (- set (ptrs b))"

text \<open>Taking buffers of some sizes, mapped or not, every step with success, and giving buffers back.\<close>

fun acquire :: "buf_op \<Rightarrow> buf_op \<Rightarrow> (u64 \<times> bool) list \<Rightarrow> kernel \<Rightarrow> (buf_info list \<times> kernel) option" where
  "acquire al mp [] k = Some ([], k)"
| "acquire al mp ((n, mapped) # xs) k =
     (case al \<lparr>bi_size = n, bi_ptr = 0, bi_hnd = 0, bi_fd = -1\<rparr> k of
        Some (MPP_OK, b, k) \<Rightarrow>
          (case (if mapped then mp b k else Some (MPP_OK, b, k)) of
             Some (MPP_OK, b, k) \<Rightarrow> do { (bs, k) \<leftarrow> acquire al mp xs k; Some (b # bs, k) }
           | _ \<Rightarrow> None)
      | _ \<Rightarrow> None)"

fun give_back :: "buf_op \<Rightarrow> buf_info list \<Rightarrow> kernel \<Rightarrow> kernel option" where
  "give_back rel [] k = Some k"
| "give_back rel (b # bs) k = do { (_, _, k) \<leftarrow> rel b k; give_back rel bs k }"

context buffer_allocator
begin

definition holds :: "kernel \<Rightarrow> kernel \<Rightarrow> buf_info list \<Rightarrow> bool" where
  "holds k0 k bs \<longleftrightarrow> inv k \<and>
     (\<forall>b \<in> set bs. 0 < bi_fd b \<and> bi_fd b \<noteq> dev \<and> (\<exists>n. k_fds k (bi_fd b) = Some n \<and> unat (bi_size b) \<le> n)) \<and>
     held (k_fds k0) (k_fds k) (map bi_fd bs) \<and> held (k_handles k0) (k_handles k) (concat (map hs bs)) \<and>
     held (k_maps k0) (k_maps k) (concat (map ptrs bs))"

lemma holds_perm: "mset bs = mset cs \<Longrightarrow> holds k0 k bs \<Longrightarrow> holds k0 k cs"
  using mset_eq_setD [of bs cs] held_perm [OF concat_perm] held_perm [of "map bi_fd bs" "map bi_fd cs"]
  unfolding holds_def by (metis mset_map)

lemma holds_alloc:
  assumes "holds k0 k bs" "fits (bi_size i)" "alloc i k = Some (MPP_OK, b, k')"
  shows "holds k0 k' (b # bs)" "bi_ptr b = 0" "bi_size b = bi_size i"
proof -
  have inv: "inv k" using assms(1) by (simp add: holds_def)
  from alloc_gives [OF this assms(2,3)] show "bi_ptr b = 0" "bi_size b = bi_size i" by auto
  have g: "inv k'" "0 < bi_fd b" "bi_fd b \<noteq> dev" "bi_ptr b = 0" "k_maps k' = k_maps k"
    "held (k_fds k) (k_fds k') [bi_fd b]" "held (k_handles k) (k_handles k') (hs b)"
    using alloc_gives [OF inv assms(2,3)] by auto
  have "held (k_fds k0) (k_fds k') ([bi_fd b] @ map bi_fd bs)"
    by (rule held_add [OF _ g(6)]) (use assms(1) in \<open>simp add: holds_def\<close>)
  moreover have "held (k_handles k0) (k_handles k') (hs b @ concat (map hs bs))"
    by (rule held_add [OF _ g(7)]) (use assms(1) in \<open>simp add: holds_def\<close>)
  moreover have "\<exists>n. k_fds k' (bi_fd c) = Some n \<and> unat (bi_size c) \<le> n" if "c \<in> set (b # bs)" for c
    using that alloc_gives [OF inv assms(2,3)] assms(1) by (fastforce simp: holds_def)
  ultimately show "holds k0 k' (b # bs)"
    using g(1-5) assms(1) by (simp add: holds_def ptrs_def)
qed

lemma holds_mmap:
  assumes "holds k0 k (i # bs)" "bi_ptr i = 0" "mmap i k = Some (MPP_OK, b, k')"
  shows "holds k0 k' (b # bs)"
proof -
  have inv: "inv k" using assms(1) by (simp add: holds_def)
  have g: "inv k'" "b = i\<lparr>bi_ptr := bi_ptr b\<rparr>" "bi_ptr b \<noteq> 0" "hs b = hs i" "held (k_maps k) (k_maps k') [bi_ptr b]"
    "k_fds k' = k_fds k" "k_handles k' = k_handles k"
    using mmap_gives [OF inv assms(2,3)] by auto
  have "held (k_maps k0) (k_maps k') ([bi_ptr b] @ concat (map ptrs bs))"
    by (rule held_add [OF _ g(5)]) (use assms(1,2) in \<open>simp add: holds_def ptrs_def\<close>)
  moreover have "bi_fd b = bi_fd i" "bi_size b = bi_size i"
    using arg_cong [OF g(2), of bi_fd] arg_cong [OF g(2), of bi_size] by simp_all
  ultimately show ?thesis using g(1,3,4,6,7) assms(1) by (simp add: holds_def ptrs_def)
qed

lemma holds_acquire:
  assumes "holds k0 k bs" "list_all (\<lambda>(n, _). fits n) xs" "acquire alloc mmap xs k = Some (cs, k')"
  shows "holds k0 k' (rev cs @ bs) \<and> map bi_size cs = map fst xs"
  using assms
proof (induction xs arbitrary: k bs cs)
  case (Cons x xs)
  obtain n mapped where x: "x = (n, mapped)" by fastforce
  obtain b k1 where a: "alloc \<lparr>bi_size = n, bi_ptr = 0, bi_hnd = 0, bi_fd = -1\<rparr> k = Some (MPP_OK, b, k1)"
    using Cons.prems(3) x by (auto split: option.splits mpp_ret.splits)
  have h: "holds k0 k1 (b # bs)" "bi_ptr b = 0" and sb: "bi_size b = n"
    using holds_alloc [OF Cons.prems(1) _ a] Cons.prems(2) x by auto
  obtain c k2 where m: "(if mapped then mmap b k1 else Some (MPP_OK, b, k1)) = Some (MPP_OK, c, k2)"
    using Cons.prems(3) x a by (auto split: option.splits mpp_ret.splits if_splits)
  have "holds k0 k2 (c # bs) \<and> bi_size c = n"
  proof (cases mapped)
    case True
    then have mm: "mmap b k1 = Some (MPP_OK, c, k2)" using m by simp
    have "inv k1" using h(1) by (simp add: holds_def)
    from mmap_gives [OF this h(2) mm] have "c = b\<lparr>bi_ptr := bi_ptr c\<rparr>" by blast
    from arg_cong [OF this, of bi_size] sb holds_mmap [OF h mm] show ?thesis by simp
  qed (use m h sb in auto)
  moreover obtain ds where "acquire alloc mmap xs k2 = Some (ds, k')" "cs = c # ds"
    using Cons.prems(3) x a m by (auto split: bind_splits)
  ultimately show ?case using Cons.IH [of k2 "c # bs" ds] Cons.prems(2) x by simp
qed simp

lemma holds_release:
  assumes "holds k0 k (b # bs)"
  shows "\<exists>b' k'. release b k = Some (MPP_OK, b', k') \<and> holds k0 k' bs"
proof -
  have p: "inv k" "0 < bi_fd b" "bi_fd b \<noteq> dev" "k_fds k (bi_fd b) \<noteq> None" "set (hs b) \<subseteq> dom (k_handles k)"
    using assms by (auto simp: holds_def held_def)
  obtain b' k' where r: "release b k = Some (MPP_OK, b', k')" "inv k'" "k_fds k' = (k_fds k)(bi_fd b := None)"
    "k_handles k' = k_handles k |` (- set (hs b))" "k_maps k' = k_maps k |` (- set (ptrs b))"
    using release_takes [OF p] by blast
  have "(k_fds k)(bi_fd b := None) = k_fds k |` (- set [bi_fd b])" by (auto simp: restrict_map_def fun_eq_iff)
  then have "held (k_fds k0) (k_fds k') (map bi_fd bs)"
    using held_take [of "k_fds k0" "k_fds k" "[bi_fd b]" "map bi_fd bs"] assms r(3) by (simp add: holds_def)
  moreover have "held (k_handles k0) (k_handles k') (concat (map hs bs))"
    unfolding r(4) by (rule held_take) (use assms in \<open>simp add: holds_def\<close>)
  moreover have "held (k_maps k0) (k_maps k') (concat (map ptrs bs))"
    unfolding r(5) by (rule held_take) (use assms in \<open>simp add: holds_def\<close>)
  moreover have "bi_fd b \<notin> bi_fd ` set bs" using assms by (simp add: holds_def held_def)
  then have "k_fds k' (bi_fd c) = k_fds k (bi_fd c)" if "c \<in> set bs" for c
    using that by (metis fun_upd_other imageI r(3))
  then have "\<forall>c \<in> set bs. \<exists>n. k_fds k' (bi_fd c) = Some n \<and> unat (bi_size c) \<le> n"
    using assms by (simp add: holds_def)
  ultimately show ?thesis using r(1,2) assms by (simp add: holds_def)
qed

lemma holds_give_back: "holds k0 k bs \<Longrightarrow> \<exists>k'. give_back release bs k = Some k' \<and> holds k0 k' []"
proof (induction bs arbitrary: k)
  case (Cons b bs)
  from holds_release [OF Cons.prems] Cons.IH show ?case by fastforce
qed simp

text \<open>
  The buffers are of the sizes asked for, and given back in any order they leave nothing behind.
\<close>

lemma sized:
  assumes "inv k" "list_all (\<lambda>(n, _). fits n) xs" "acquire alloc mmap xs k = Some (bs, k')"
  shows "map bi_size bs = map fst xs" "distinct (map bi_fd bs)" "b \<in> set bs \<Longrightarrow> k_fds k (bi_fd b) = None"
    "b \<in> set bs \<Longrightarrow> \<exists>n. k_fds k' (bi_fd b) = Some n \<and> unat (bi_size b) \<le> n"
proof -
  have "holds k k []" using assms(1) by (simp add: holds_def)
  from holds_acquire [OF this assms(2,3)] have "holds k k' (rev bs)" "map bi_size bs = map fst xs" by simp_all
  then show "map bi_size bs = map fst xs" "distinct (map bi_fd bs)" "b \<in> set bs \<Longrightarrow> k_fds k (bi_fd b) = None"
    "b \<in> set bs \<Longrightarrow> \<exists>n. k_fds k' (bi_fd b) = Some n \<and> unat (bi_size b) \<le> n"
    by (auto simp: holds_def held_def disjoint_iff domIff distinct_map)
qed

lemma balance:
  assumes "inv k" "list_all (\<lambda>(n, _). fits n) xs" "acquire alloc mmap xs k = Some (bs, k')" "mset cs = mset bs"
  shows "\<exists>k''. give_back release cs k' = Some k'' \<and> inv k'' \<and> k_fds k'' = k_fds k \<and> k_handles k'' = k_handles k \<and>
    k_maps k'' = k_maps k"
proof -
  have "holds k k []" using assms(1) by (simp add: holds_def)
  from holds_acquire [OF this assms(2,3)] have "holds k k' (rev bs)" by simp
  then have "holds k k' cs" by (rule holds_perm [rotated]) (simp add: assms(4))
  from holds_give_back [OF this] show ?thesis by (auto simp: holds_def)
qed

end


end
