(* ===== verification/Allocators.thy ===== *)
theory Allocators
  imports Buf_Kernel
begin

text \<open>
  The allocators of \<open>osal/allocator\<close>, other than the one for ION: DRM (\<open>allocator_drm.c\<close>), DMA heaps
  (\<open>allocator_dma_heap.c\<close>), buffers of others (\<open>allocator_ext_dma.c\<close>) and the stand-in for
  simulation (\<open>allocator_std.c\<close>). A context that is null is \<^const>\<open>None\<close>; the result \<^const>\<open>None\<close> is a
  null pointer that is followed. The asserts only log, and the debug output is switched off.
\<close>

section \<open>DRM\<close>

text \<open>The structures \<open>allocator_ctx_drm\<close> and \<open>allocator_ctx_dmaheap\<close>, which have the same fields.\<close>

record alloc_ctx =
  cx_alignment :: u32
  cx_device :: int
  cx_flags :: u32

function drm_ioctl :: "int \<Rightarrow> kreq \<Rightarrow> kernel \<Rightarrow> answer \<times> kernel" where
  "drm_ioctl fd r k =
     (case k_ioctl fd r k of (a, k') \<Rightarrow>
        if an_ret a = -1 \<and> (an_errno a = EINTR \<or> an_errno a = EAGAIN) then drm_ioctl fd r k' else (a, k'))"
  by pat_completeness auto

termination
  by (relation "measure (\<lambda>(fd, r, k). size k)") (auto dest: sym intro: k_ioctl_again)

declare drm_ioctl.simps [simp del]

text \<open>
  The result, what is stored as descriptor when something is, and the kernel. The pointers for the
  results are those of fields, never null.
\<close>

definition drm_handle_to_fd :: "int \<Rightarrow> u32 \<Rightarrow> int \<Rightarrow> kernel \<Rightarrow> int \<times> int \<times> kernel" where
  "drm_handle_to_fd fd handle map_fd k =
     (let (a, k) = drm_ioctl fd (DRM_PRIME_HANDLE_TO_FD handle) k
      in if an_ret a < 0 then (an_ret a, map_fd, k)
         else if an_val a < 0 then (- EINVAL, an_val a, k)
         else (an_ret a, an_val a, k))"

text \<open>A 64-bit size is rounded up and cut to the 32-bit width of a picture of one row of bytes.\<close>

definition dumb_width :: "u64 \<Rightarrow> u64 \<Rightarrow> u32" where
  "dumb_width len align = ucast ((len + align - 1) AND NOT (align - 1))"

definition set_low :: "u64 \<Rightarrow> u32 \<Rightarrow> u64" where
  "set_low hnd h = (hnd AND NOT (mask 32)) OR ucast h"

definition drm_alloc :: "int \<Rightarrow> u64 \<Rightarrow> u64 \<Rightarrow> u64 \<Rightarrow> kernel \<Rightarrow> int \<times> u64 \<times> kernel" where
  "drm_alloc fd len align hnd k =
     (let (a, k) = drm_ioctl fd (DRM_MODE_CREATE_DUMB (unat (dumb_width len align))) k
      in if an_ret a < 0 then (an_ret a, hnd, k) else (an_ret a, set_low hnd (word_of_int (an_val a)), k))"

definition drm_free :: "int \<Rightarrow> u32 \<Rightarrow> kernel \<Rightarrow> int \<times> kernel" where
  "drm_free fd handle k = (let (a, k) = drm_ioctl fd (DRM_MODE_DESTROY_DUMB handle) k in (an_ret a, k))"

definition os_allocator_drm_open :: "bool \<Rightarrow> alloc_cfg \<Rightarrow> kernel \<Rightarrow> mpp_ret \<times> alloc_ctx option \<times> kernel" where
  "os_allocator_drm_open has_ctx cfg k =
     (if \<not> has_ctx then (MPP_ERR_NULL_PTR, None, k)
      else let (a, k) = k_open ''/dev/dri/card0'' k; fd = an_ret a in
        (if fd < 0 then (MPP_ERR_UNKNOW, None, k)
         else let (ok, k) = k_malloc k in
           (if \<not> ok then (MPP_ERR_MALLOC, None, snd (k_close fd k))
            else (MPP_OK, Some \<lparr>cx_alignment = ucast (ac_alignment cfg), cx_device = fd, cx_flags = ac_flags cfg\<rparr>, k))))"

definition os_allocator_drm_alloc :: "alloc_ctx option \<Rightarrow> buf_op" where
  "os_allocator_drm_alloc ctx info k =
     (case ctx of
        None \<Rightarrow> Some (MPP_ERR_NULL_PTR, info, k)
      | Some p \<Rightarrow>
          let (ret, hnd, k) = drm_alloc (cx_device p) (bi_size info) (ucast (cx_alignment p)) (bi_hnd info) k;
              info = info\<lparr>bi_hnd := hnd\<rparr> in
          (if ret \<noteq> 0 then Some (ret_of_int ret, info, k)
           else
             let (ret, fd, k) = drm_handle_to_fd (cx_device p) (ucast (bi_hnd info)) (bi_fd info) k;
                 info = info\<lparr>bi_fd := fd\<rparr> in
             (if ret \<noteq> 0 then Some (ret_of_int ret, info, k)
              else let (_, k) = drm_free (cx_device p) (ucast (bi_hnd info)) k
                   in Some (ret_of_int ret, info\<lparr>bi_hnd := 0, bi_ptr := 0\<rparr>, k))))"

definition os_allocator_drm_import :: "alloc_ctx option \<Rightarrow> buf_op" where
  "os_allocator_drm_import ctx data k =
     (let (a, k) = k_dup (bi_fd data) k; fd = an_ret a
      in Some (if fd \<le> 0 then MPP_NOK else MPP_OK, data\<lparr>bi_fd := fd, bi_ptr := 0\<rparr>, k))"

text \<open>\<open>munmap\<close> of a pointer that is not null, which is then null.\<close>

definition unmap :: "buf_info \<Rightarrow> kernel \<Rightarrow> buf_info \<times> kernel" where
  "unmap data k = (if bi_ptr data = 0 then (data, k) else (data\<lparr>bi_ptr := 0\<rparr>, k_munmap (bi_ptr data) k))"

definition os_allocator_drm_free :: "alloc_ctx option \<Rightarrow> buf_op" where
  "os_allocator_drm_free ctx data k =
     (case ctx of
        None \<Rightarrow> Some (MPP_ERR_NULL_PTR, data, k)
      | Some p \<Rightarrow>
          let (data, k) = unmap data k in
          (if bi_fd data > 0 then Some (MPP_OK, data\<lparr>bi_fd := -1\<rparr>, snd (k_close (bi_fd data) k))
           else Some (MPP_OK, data, k)))"

text \<open>The code of \<open>close\<close> and \<open>mmap\<close> is the same in both files.\<close>

definition close_device :: "alloc_ctx option \<Rightarrow> kernel \<Rightarrow> mpp_ret \<times> kernel" where
  "close_device ctx k =
     (case ctx of
        None \<Rightarrow> (MPP_ERR_NULL_PTR, k)
      | Some p \<Rightarrow> let (a, k) = k_close (cx_device p) k
                  in (if an_ret a < 0 then ret_of_int (- an_errno a) else MPP_OK, k))"

definition map_buffer :: "alloc_ctx option \<Rightarrow> buf_op" where
  "map_buffer ctx data k =
     (case ctx of
        None \<Rightarrow> Some (MPP_ERR_NULL_PTR, data, k)
      | Some p \<Rightarrow>
          (if bi_ptr data \<noteq> 0 then Some (MPP_OK, data, k)
           else (case k_mmap (unat (bi_size data)) (k_getfl_rdwr (bi_fd data) k) (bi_fd data) k of
              (None, e, k) \<Rightarrow> Some (ret_of_int (- e), data\<lparr>bi_ptr := 0\<rparr>, k)
            | (Some ptr, _, k) \<Rightarrow> Some (MPP_OK, data\<lparr>bi_ptr := ptr\<rparr>, k))))"

definition os_allocator_drm_close :: "alloc_ctx option \<Rightarrow> kernel \<Rightarrow> mpp_ret \<times> kernel" where
  "os_allocator_drm_close = close_device"

definition os_allocator_drm_mmap :: "alloc_ctx option \<Rightarrow> buf_op" where
  "os_allocator_drm_mmap = map_buffer"

section \<open>DMA heaps\<close>

definition heap_names :: "string list" where
  "heap_names = [''system-uncached'', ''cma-uncached'', ''system'', ''cma'', ''system-uncached-dma32'', ''cma-uncached'',
     ''system-dma32'', ''cma'']"

definition DMA_HEAP_TYPE_NB :: nat where "DMA_HEAP_TYPE_NB = 8"

text \<open>
  The static descriptors of the heaps, \<^const>\<open>None\<close> until they are initialised once; a zero, as it is
  stored before that, and -1 both mean that the heap is not open.
\<close>

type_synonym heap_fds = "int list option"

definition heap_fds_init :: heap_fds where
  "heap_fds_init = Some (replicate DMA_HEAP_TYPE_NB (-1))"

definition heap_fd_open :: "nat \<Rightarrow> int list \<Rightarrow> kernel \<Rightarrow> int \<times> int list \<times> kernel" where
  "heap_fd_open type fds k =
     (if fds ! type \<le> 0 then
        let (a, k) = k_open (''/dev/dma_heap/'' @ heap_names ! type) k
        in (an_ret a, fds[type := an_ret a], k)
      else (fds ! type, fds, k))"

text \<open>The flags of buffers, shifted down, come from an outside header.\<close>

record heap_flags =
  hf_contig :: u32
  hf_cachable :: u32
  hf_dma32 :: u32

definition heap_type :: "heap_flags \<Rightarrow> u32 \<Rightarrow> nat" where
  "heap_type hf flags =
     (if and flags (hf_contig hf) \<noteq> 0 then 1 else 0) +
     (if and flags (hf_cachable hf) \<noteq> 0 then 2 else 0) +
     (if and flags (hf_dma32 hf) \<noteq> 0 then 4 else 0)"

definition os_allocator_dma_heap_open ::
  "heap_flags \<Rightarrow> bool \<Rightarrow> alloc_cfg \<Rightarrow> heap_fds \<Rightarrow> kernel \<Rightarrow> mpp_ret \<times> alloc_ctx option \<times> heap_fds \<times> kernel" where
  "os_allocator_dma_heap_open hf has_ctx cfg fds k =
     (let fds = the (if fds = None then heap_fds_init else fds) in
      if \<not> has_ctx then (MPP_ERR_NULL_PTR, None, Some fds, k)
      else let (fd, fds, k) = heap_fd_open (heap_type hf (ac_flags cfg)) fds k in
        (if fd < 0 then (MPP_ERR_UNKNOW, None, Some fds, k)
         else let (ok, k) = k_malloc k in
           (if \<not> ok then (MPP_ERR_MALLOC, None, Some fds, snd (k_close fd k))
            else (MPP_OK, Some \<lparr>cx_alignment = ucast (ac_alignment cfg), cx_device = fd, cx_flags = ac_flags cfg\<rparr>,
                  Some fds, k))))"

definition dma_heap_alloc :: "int \<Rightarrow> u64 \<Rightarrow> int \<Rightarrow> kernel \<Rightarrow> int \<times> int \<times> kernel" where
  "dma_heap_alloc fd len dmabuf_fd k =
     (let (a, k) = k_ioctl fd (DMA_HEAP_ALLOC (unat len)) k
      in if an_ret a < 0 then (an_ret a, dmabuf_fd, k) else (an_ret a, an_val a, k))"

definition os_allocator_dma_heap_alloc :: "alloc_ctx option \<Rightarrow> buf_op" where
  "os_allocator_dma_heap_alloc ctx info k =
     (case ctx of
        None \<Rightarrow> Some (MPP_ERR_NULL_PTR, info, k)
      | Some p \<Rightarrow>
          let (ret, fd, k) = dma_heap_alloc (cx_device p) (bi_size info) (bi_fd info) k; info = info\<lparr>bi_fd := fd\<rparr> in
          (if ret \<noteq> 0 then Some (ret_of_int ret, info, k) else Some (ret_of_int ret, info\<lparr>bi_ptr := 0\<rparr>, k)))"

definition os_allocator_dma_heap_import :: "alloc_ctx option \<Rightarrow> buf_op" where
  "os_allocator_dma_heap_import ctx data k =
     (let (a, k) = k_dup (bi_fd data) k in Some (MPP_OK, data\<lparr>bi_fd := an_ret a, bi_ptr := 0\<rparr>, k))"

definition os_allocator_dma_heap_free :: "alloc_ctx option \<Rightarrow> buf_op" where
  "os_allocator_dma_heap_free ctx data k =
     (case ctx of
        None \<Rightarrow> Some (MPP_ERR_NULL_PTR, data, k)
      | Some p \<Rightarrow> let (data, k) = unmap data k in Some (MPP_OK, data, snd (k_close (bi_fd data) k)))"

definition os_allocator_dma_heap_close :: "alloc_ctx option \<Rightarrow> kernel \<Rightarrow> mpp_ret \<times> kernel" where
  "os_allocator_dma_heap_close = close_device"

definition os_allocator_dma_heap_mmap :: "alloc_ctx option \<Rightarrow> buf_op" where
  "os_allocator_dma_heap_mmap = map_buffer"

section \<open>Buffers of others, and the stand-in\<close>

text \<open>\<open>allocator_ext_dma.c\<close>: the context holds the alignment only.\<close>

definition allocator_ext_dma_open :: "bool \<Rightarrow> alloc_cfg \<Rightarrow> kernel \<Rightarrow> mpp_ret \<times> u64 option \<times> kernel" where
  "allocator_ext_dma_open has_ctx cfg k =
     (if \<not> has_ctx then (MPP_ERR_NULL_PTR, None, k)
      else let (ok, k) = k_malloc k in if ok then (MPP_OK, Some (ac_alignment cfg), k) else (MPP_ERR_MALLOC, None, k))"

definition allocator_ext_dma_alloc :: "u64 option \<Rightarrow> buf_info option \<Rightarrow> mpp_ret" where
  "allocator_ext_dma_alloc ctx info = (if ctx = None \<or> info = None then MPP_ERR_VALUE else MPP_ERR_PERM)"

definition allocator_ext_dma_free :: "u64 option \<Rightarrow> buf_info option \<Rightarrow> mpp_ret" where
  "allocator_ext_dma_free ctx info = (if ctx = None \<or> info = None then MPP_ERR_VALUE else MPP_ERR_PERM)"

definition allocator_ext_dma_import :: "u64 option \<Rightarrow> buf_op" where
  "allocator_ext_dma_import ctx info k =
     Some (if bi_ptr info \<noteq> 0 then MPP_ERR_VALUE else if bi_fd info < 0 then MPP_ERR_VALUE else MPP_OK, info, k)"

definition allocator_ext_dma_mmap :: "u64 option \<Rightarrow> buf_op" where
  "allocator_ext_dma_mmap ctx info k =
     (if bi_ptr info \<noteq> 0 then Some (MPP_OK, info, k)
      else (case k_mmap (unat (bi_size info)) True (bi_fd info) k of
          (None, e, k) \<Rightarrow> Some (MPP_ERR_NULL_PTR, info, k)
        | (Some ptr, _, k) \<Rightarrow> Some (MPP_OK, info\<lparr>bi_ptr := ptr\<rparr>, k)))"

definition allocator_ext_dma_release :: "u64 option \<Rightarrow> buf_op" where
  "allocator_ext_dma_release ctx info k =
     (let (info, k) = unmap info k in Some (MPP_OK, info\<lparr>bi_ptr := 0, bi_hnd := 0, bi_fd := -1, bi_size := 0\<rparr>, k))"

definition allocator_ext_dma_close :: "u64 option \<Rightarrow> mpp_ret" where
  "allocator_ext_dma_close ctx = (if ctx = None then MPP_ERR_VALUE else MPP_OK)"

text \<open>
  \<open>allocator_std.c\<close>: it cannot be opened, so that its context is null for every caller; the
  context would hold a count of descriptors.
\<close>

definition allocator_std_open :: "bool \<Rightarrow> mpp_ret \<times> int option" where
  "allocator_std_open has_ctx = (if has_ctx then MPP_NOK else MPP_ERR_NULL_PTR, None)"

definition allocator_std_alloc :: "int option \<Rightarrow> mpp_ret" where
  "allocator_std_alloc ctx = (if ctx = None then MPP_ERR_NULL_PTR else MPP_NOK)"

text \<open>The result and the blocks that are freed.\<close>

definition allocator_std_free :: "int option \<Rightarrow> buf_info \<Rightarrow> mpp_ret \<times> u64 list" where
  "allocator_std_free ctx info = (MPP_OK, if bi_ptr info \<noteq> 0 then [bi_ptr info] else [])"

definition allocator_std_import :: "int option \<Rightarrow> buf_info \<Rightarrow> (mpp_ret \<times> int option \<times> buf_info) option" where
  "allocator_std_import ctx info =
     (case ctx of None \<Rightarrow> None | Some n \<Rightarrow> Some (MPP_OK, Some (n + 1), info\<lparr>bi_hnd := 0, bi_fd := n\<rparr>))"

definition allocator_std_release :: "buf_info \<Rightarrow> mpp_ret \<times> buf_info" where
  "allocator_std_release info = (MPP_OK, info\<lparr>bi_ptr := 0, bi_size := 0, bi_hnd := 0, bi_fd := -1\<rparr>)"

definition allocator_std_mmap :: "buf_info \<Rightarrow> mpp_ret \<times> buf_info" where
  "allocator_std_mmap info = (MPP_OK, info)"

definition allocator_std_close :: "int option \<Rightarrow> mpp_ret" where
  "allocator_std_close ctx = (if ctx = None then MPP_NOK else MPP_OK)"

section \<open>The laws\<close>

lemma k_ioctl_refused:
  assumes "k_ioctl fd r k = (a, k')" "an_ret a < 0"
  shows "\<exists>as. k' = k\<lparr>k_answers := as\<rparr>"
proof -
  have k: "\<exists>as. k = k\<lparr>k_answers := as\<rparr>" by (rule exI [of _ "k_answers k"]) simp
  show ?thesis using assms k
    by (auto simp: k_ioctl_def k_grant_def give_fd_def give_handle_def take_handle_def Let_def
        split: if_splits kreq.splits option.splits prod.splits dest!: next_answer_kernel)
qed

text \<open>A success of the loop is a success of one call, on the kernel with some answers used up.\<close>

lemma drm_ioctl_once:
  "drm_ioctl fd r k = (a, k') \<Longrightarrow> 0 \<le> an_ret a \<Longrightarrow> \<exists>as. k_ioctl fd r (k\<lparr>k_answers := as\<rparr>) = (a, k')"
proof (induction fd r k rule: drm_ioctl.induct)
  case (1 fd r k)
  obtain b k1 where io: "k_ioctl fd r k = (b, k1)" by fastforce
  show ?case
  proof (cases "an_ret b = -1 \<and> (an_errno b = EINTR \<or> an_errno b = EAGAIN)")
    case True
    obtain as where k1: "k1 = k\<lparr>k_answers := as\<rparr>" using k_ioctl_refused [OF io] True by auto
    have "drm_ioctl fd r k1 = (a, k')" using 1(2) io True by (simp add: drm_ioctl.simps [of fd r k])
    from 1(1) [OF io [symmetric] _ this 1(3)] True k1 show ?thesis by auto
  next
    case False
    then have "(b, k1) = (a, k')" using 1(2) io by (auto simp: drm_ioctl.simps [of fd r k] split: if_splits)
    moreover have "k = k\<lparr>k_answers := k_answers k\<rparr>" by simp
    ultimately show ?thesis using io by metis
  qed
qed

text \<open>What a success of each request leaves.\<close>

lemma granted_create:
  assumes "k_ioctl fd (DRM_MODE_CREATE_DUMB n) k = (a, k')" "0 \<le> an_ret a"
  shows "\<exists>as. k' = k\<lparr>k_answers := as, k_handles := (k_handles k)(word_of_int (an_val a) \<mapsto> n)\<rparr>"
    "k_handles k (word_of_int (an_val a)) = None"
  using assms by (auto simp: k_ioctl_def k_grant_def give_handle_def refused_def Let_def
      split: if_splits prod.splits dest!: next_answer_kernel)

lemma granted_prime:
  assumes "k_ioctl fd (DRM_PRIME_HANDLE_TO_FD h) k = (a, k')" "0 \<le> an_ret a" "0 \<le> an_val a"
  shows "\<exists>as n. k_handles k h = Some n \<and> k' = k\<lparr>k_answers := as, k_fds := (k_fds k)(an_val a \<mapsto> n)\<rparr>"
    "k_fds k (an_val a) = None"
  using assms by (auto simp: k_ioctl_def k_grant_def give_fd_def refused_def Let_def
      split: if_splits prod.splits option.splits dest!: next_answer_kernel)

lemma granted_heap:
  assumes "k_ioctl fd (DMA_HEAP_ALLOC n) k = (a, k')" "0 \<le> an_ret a"
  shows "\<exists>as. k' = k\<lparr>k_answers := as, k_fds := (k_fds k)(an_val a \<mapsto> n)\<rparr>" "k_fds k (an_val a) = None" "0 \<le> an_val a"
  using assms by (auto simp: k_ioctl_def k_grant_def give_fd_def refused_def Let_def
      split: if_splits prod.splits dest!: next_answer_kernel)

lemma destroyed:
  assumes "k_fds k fd \<noteq> None" "k_handles k h \<noteq> None"
  shows "drm_ioctl fd (DRM_MODE_DESTROY_DUMB h) k =
    (\<lparr>an_ret = 0, an_errno = 0, an_val = 0\<rparr>, k\<lparr>k_handles := (k_handles k)(h := None)\<rparr>)"
  using assms by (subst drm_ioctl.simps) (auto simp: k_ioctl_def take_handle_def)

text \<open>
  For an alignment that is a power of two, the width is at least the size, as long as the size
  rounded up fits in 32 bits.
\<close>

definition drm_fits :: "u32 \<Rightarrow> u64 \<Rightarrow> bool" where
  "drm_fits align n \<longleftrightarrow> (\<exists>a < 32. align = 2 ^ a \<and> unat n + 2 ^ a \<le> 2 ^ 32)"

lemma dumb_width_fits:
  assumes "drm_fits align n"
  shows "unat n \<le> unat (dumb_width n (ucast align))"
proof -
  obtain a where a: "a < 32" "align = 2 ^ a" "unat n + 2 ^ a \<le> 2 ^ 32" using assms by (auto simp: drm_fits_def)
  have al: "ucast align = (2 ^ a :: u64)"
    unfolding a(2) by (rule bit_word_eqI) (use a(1) in \<open>auto simp: bit_simps\<close>)
  let ?w = "(n + 2 ^ a - 1) AND NOT (2 ^ a - 1)"
  have w: "unat ?w = (unat n + 2 ^ a - 1) div 2 ^ a * 2 ^ a" by (rule unat_align) (use a in auto)
  have "unat ?w \<le> unat n + 2 ^ a - 1" unfolding w by simp
  then have "unat ?w < 2 ^ 32" using a(3) zero_less_power [of "2 :: nat" a] by linarith
  then have "unat (ucast ?w :: u32) = unat ?w" by (simp add: unsigned_ucast_eq take_bit_nat_eq_self)
  moreover have "unat n \<le> unat ?w"
  proof -
    have "(unat n + 2 ^ a - 1) mod 2 ^ a < 2 ^ a" by simp
    then show ?thesis unfolding w using div_mult_mod_eq [of "unat n + 2 ^ a - 1" "2 ^ a"] by linarith
  qed
  ultimately show ?thesis by (simp add: dumb_width_def al)
qed


lemma low_set_low [simp]: "ucast (set_low hnd h) = h"
  unfolding set_low_def by (rule bit_word_eqI) (auto simp: bit_simps)

definition ctx_inv :: "alloc_ctx \<Rightarrow> kernel \<Rightarrow> bool" where
  "ctx_inv p k \<longleftrightarrow> k_inv k \<and> k_fds k (cx_device p) \<noteq> None"

lemma drm_alloc_gives:
  assumes inv: "ctx_inv p k" and fit: "drm_fits (cx_alignment p) (bi_size i)"
    and run: "os_allocator_drm_alloc (Some p) i k = Some (MPP_OK, b, k')"
  shows "ctx_inv p k' \<and> bi_size b = bi_size i \<and> bi_ptr b = 0 \<and> 0 < bi_fd b \<and> bi_fd b \<noteq> cx_device p \<and>
    (\<exists>n. unat (bi_size i) \<le> n \<and> k_fds k (bi_fd b) = None \<and> k_fds k' = (k_fds k)(bi_fd b \<mapsto> n)) \<and>
    k_handles k' = k_handles k \<and> k_maps k' = k_maps k"
proof -
  let ?n = "unat (dumb_width (bi_size i) (ucast (cx_alignment p)))" and ?dev = "cx_device p"
  obtain a1 k1 where c: "drm_ioctl ?dev (DRM_MODE_CREATE_DUMB ?n) k = (a1, k1)" by fastforce
  have r1: "an_ret a1 = 0" using run c by (auto simp: os_allocator_drm_alloc_def drm_alloc_def Let_def split: if_splits prod.splits)
  define h where "h = (word_of_int (an_val a1) :: u32)"
  obtain as where "k_ioctl ?dev (DRM_MODE_CREATE_DUMB ?n) (k\<lparr>k_answers := as\<rparr>) = (a1, k1)"
    using drm_ioctl_once [OF c] r1 by auto
  from granted_create [OF this] r1 obtain as1 where
    k1: "k1 = k\<lparr>k_answers := as1, k_handles := (k_handles k)(h \<mapsto> ?n)\<rparr>" and h: "k_handles k h = None"
    by (auto simp: h_def)
  obtain a2 k2 where e: "drm_ioctl ?dev (DRM_PRIME_HANDLE_TO_FD h) k1 = (a2, k2)" by fastforce
  have r2: "an_ret a2 = 0" "0 \<le> an_val a2"
    using run c e r1 by (auto simp: os_allocator_drm_alloc_def drm_alloc_def drm_handle_to_fd_def h_def EINVAL_def Let_def
        split: if_splits prod.splits)
  obtain as2 where "k_ioctl ?dev (DRM_PRIME_HANDLE_TO_FD h) (k1\<lparr>k_answers := as2\<rparr>) = (a2, k2)"
    using drm_ioctl_once [OF e] r2 by auto
  from granted_prime [OF this] r2 obtain as3 where
    k2: "k2 = k1\<lparr>k_answers := as3, k_fds := (k_fds k)(an_val a2 \<mapsto> ?n)\<rparr>" and fd: "k_fds k (an_val a2) = None"
    by (auto simp: k1)
  have dev: "k_fds k2 ?dev \<noteq> None" "k_handles k2 h \<noteq> None" using inv by (auto simp: k1 k2 ctx_inv_def)
  have res: "b = i\<lparr>bi_fd := an_val a2, bi_hnd := 0, bi_ptr := 0\<rparr>" "k' = k2\<lparr>k_handles := (k_handles k2)(h := None)\<rparr>"
    using run c e r1 r2 destroyed [OF dev]
    by (auto simp: os_allocator_drm_alloc_def drm_alloc_def drm_handle_to_fd_def drm_free_def h_def)
  have "(k_handles k2)(h := None) = k_handles k" using h by (auto simp: k1 k2)
  moreover have "an_val a2 \<noteq> 0" "an_val a2 \<noteq> ?dev" using fd inv by (auto simp: ctx_inv_def k_inv_def)
  ultimately show ?thesis using r2(2) fd inv dumb_width_fits [OF fit] h
    by (auto simp: res k1 k2 ctx_inv_def k_inv_def)
qed

lemma map_gives:
  assumes "ctx_inv p k" "bi_ptr i = 0" "map_buffer (Some p) i k = Some (MPP_OK, b, k')"
  shows "ctx_inv p k' \<and> b = i\<lparr>bi_ptr := bi_ptr b\<rparr> \<and> bi_ptr b \<noteq> 0 \<and> k_maps k (bi_ptr b) = None \<and>
    (\<exists>wr. k_maps k' = (k_maps k)(bi_ptr b \<mapsto> (unat (bi_size i), wr))) \<and> k_fds k' = k_fds k \<and> k_handles k' = k_handles k"
  using assms
  by (auto simp: map_buffer_def k_mmap_def EBADF_def ENOMEM_def Let_def ctx_inv_def k_inv_def simp del: not_None_eq
      split: option.splits prod.splits if_splits dest!: next_answer_kernel)

lemma unmap_spec:
  assumes "k_inv k"
  shows "unmap b k = (b\<lparr>bi_ptr := 0\<rparr>, k\<lparr>k_maps := k_maps k |` (- set (ptrs b))\<rparr>)"
proof (cases "bi_ptr b = 0")
  case True
  then show ?thesis by (cases b, cases k) (simp add: unmap_def ptrs_def restrict_map_def)
next
  case False
  moreover have "(k_maps k)(bi_ptr b := None) = k_maps k |` (- {bi_ptr b})" by (auto simp: restrict_map_def fun_eq_iff)
  ultimately show ?thesis by (simp add: unmap_def ptrs_def k_munmap_def)
qed

lemma close_fd_inv: "ctx_inv p k \<Longrightarrow> 0 < fd \<Longrightarrow> fd \<noteq> cx_device p \<Longrightarrow>
    ctx_inv p (k\<lparr>k_maps := k_maps k |` X, k_fds := (k_fds k)(fd := None)\<rparr>)"
  by (auto simp: ctx_inv_def k_inv_def restrict_map_def)

lemma drm_free_takes:
  assumes "ctx_inv p k" "0 < bi_fd b" "bi_fd b \<noteq> cx_device p" "k_fds k (bi_fd b) \<noteq> None"
  shows "\<exists>b' k'. os_allocator_drm_free (Some p) b k = Some (MPP_OK, b', k') \<and> ctx_inv p k' \<and>
    k_fds k' = (k_fds k)(bi_fd b := None) \<and> k_handles k' = k_handles k \<and> k_maps k' = k_maps k |` (- set (ptrs b))"
proof -
  have "k_inv k" using assms(1) by (simp add: ctx_inv_def)
  from unmap_spec [OF this, of b] assms close_fd_inv [OF assms(1-3)] show ?thesis
    by (auto simp: os_allocator_drm_free_def k_close_def)
qed

interpretation drm: buffer_allocator "os_allocator_drm_alloc (Some p)" "os_allocator_drm_free (Some p)"
    "os_allocator_drm_mmap (Some p)" "cx_device p" "\<lambda>_. []" "ctx_inv p" "drm_fits (cx_alignment p)" for p
proof (unfold_locales, goal_cases)
  case (1 k i b k')
  from drm_alloc_gives [OF 1] show ?case by auto
next
  case (2 k i b k')
  from map_gives [OF 2(1,2) 2(3) [unfolded os_allocator_drm_mmap_def]] show ?case by blast
next
  case (3 k b)
  from drm_free_takes [OF 3(1-4)] show ?case by simp
qed

lemma heap_alloc_gives:
  assumes inv: "ctx_inv p k" and run: "os_allocator_dma_heap_alloc (Some p) i k = Some (MPP_OK, b, k')"
  shows "ctx_inv p k' \<and> bi_size b = bi_size i \<and> bi_ptr b = 0 \<and> 0 < bi_fd b \<and> bi_fd b \<noteq> cx_device p \<and>
    k_fds k (bi_fd b) = None \<and> k_fds k' = (k_fds k)(bi_fd b \<mapsto> unat (bi_size i)) \<and>
    k_handles k' = k_handles k \<and> k_maps k' = k_maps k"
proof -
  obtain a k1 where c: "k_ioctl (cx_device p) (DMA_HEAP_ALLOC (unat (bi_size i))) k = (a, k1)" by fastforce
  have r: "an_ret a = 0" "b = i\<lparr>bi_fd := an_val a, bi_ptr := 0\<rparr>" "k' = k1"
    using run c by (auto simp: os_allocator_dma_heap_alloc_def dma_heap_alloc_def Let_def split: if_splits)
  from granted_heap [OF c] r obtain as where
    k: "k1 = k\<lparr>k_answers := as, k_fds := (k_fds k)(an_val a \<mapsto> unat (bi_size i))\<rparr>" "k_fds k (an_val a) = None" "0 \<le> an_val a" by auto
  have "an_val a \<noteq> 0" "an_val a \<noteq> cx_device p" using inv k(2) by (auto simp: ctx_inv_def k_inv_def)
  then show ?thesis using inv r k by (auto simp: ctx_inv_def k_inv_def)
qed


lemma heap_free_takes:
  assumes "ctx_inv p k" "0 < bi_fd b" "bi_fd b \<noteq> cx_device p" "k_fds k (bi_fd b) \<noteq> None"
  shows "\<exists>b' k'. os_allocator_dma_heap_free (Some p) b k = Some (MPP_OK, b', k') \<and> ctx_inv p k' \<and>
    k_fds k' = (k_fds k)(bi_fd b := None) \<and> k_handles k' = k_handles k \<and> k_maps k' = k_maps k |` (- set (ptrs b))"
proof -
  have "k_inv k" using assms(1) by (simp add: ctx_inv_def)
  from unmap_spec [OF this, of b] assms close_fd_inv [OF assms(1-3)] show ?thesis
    by (auto simp: os_allocator_dma_heap_free_def k_close_def)
qed

interpretation dma_heap: buffer_allocator "os_allocator_dma_heap_alloc (Some p)" "os_allocator_dma_heap_free (Some p)"
    "os_allocator_dma_heap_mmap (Some p)" "cx_device p" "\<lambda>_. []" "ctx_inv p" "\<lambda>_. True" for p
proof (unfold_locales, goal_cases)
  case (1 k i b k')
  from heap_alloc_gives [OF 1(1,3)] show ?case by auto
next
  case (2 k i b k')
  from map_gives [OF 2(1,2) 2(3) [unfolded os_allocator_dma_heap_mmap_def]] show ?case by blast
next
  case (3 k b)
  from heap_free_takes [OF 3(1-4)] show ?case by simp
qed


end
