(* ===== verification/Alloc_Ion.thy ===== *)
theory Alloc_Ion
  imports Allocators C_Library
begin

text \<open>
  The allocator for ION (\<open>osal/allocator/allocator_ion.c\<close>): which heap to use, found by a search in
  the file systems of the kernel, and the operations on buffers, which keep a handle beside the
  descriptor.
\<close>

section \<open>The heap to use\<close>

text \<open>
  The entries of a directory whose name contains a text, in alphabetical order, and what is read
  as a number from the start of a file: \<^const>\<open>None\<close> when it cannot be opened, zero when it is too
  short.
\<close>

record sysfs =
  sy_scan :: "string \<Rightarrow> string \<Rightarrow> string list"
  sy_read :: "string \<Rightarrow> u32 option"

definition MAX_PATH_NAME_SIZE :: nat where "MAX_PATH_NAME_SIZE = 256"

text \<open>The result and the path, with the first entry appended as far as there is room.\<close>

definition find_dir_in_path :: "sysfs \<Rightarrow> string \<Rightarrow> string \<Rightarrow> nat \<Rightarrow> nat \<times> string" where
  "find_dir_in_path fs path dir_name max_length =
     (case sy_scan fs path dir_name of
        [] \<Rightarrow> (0, path)
      | d # _ \<Rightarrow> (length path + length (CHR ''/'' # d), path @ take (max_length - length path - 2) (CHR ''/'' # d)))"

datatype ion_detect = ION_DETECT_IOMMU_DISABLE | ION_DETECT_IOMMU_ENABLE | ION_DETECT_NO_DTS

definition dts_devices :: "string list" where
  "dts_devices = [''vpu_service'', ''hevc_service'', ''rkvdec'', ''rkvenc'', ''vpu_combo'']"

definition system_heaps :: "string list" where
  "system_heaps = [''vmalloc'', ''system-heap'']"

fun search_dts :: "sysfs \<Rightarrow> string list \<Rightarrow> ion_detect option" where
  "search_dts fs [] = None"
| "search_dts fs (d # ds) =
     (let (found, path) = find_dir_in_path fs ''/proc/device-tree'' d MAX_PATH_NAME_SIZE in
      if found = 0 then search_dts fs ds
      else
        let (found, path) = find_dir_in_path fs path ''iommu_enabled'' MAX_PATH_NAME_SIZE in
        (if found = 0 then search_dts fs ds
         else
           let enabled = (case sy_read fs path of None \<Rightarrow> 0 | Some v \<Rightarrow> v)
           in Some (if enabled \<noteq> 0 then ION_DETECT_IOMMU_ENABLE else ION_DETECT_IOMMU_DISABLE)))"

fun search_heaps :: "sysfs \<Rightarrow> string list \<Rightarrow> bool" where
  "search_heaps fs [] = False"
| "search_heaps fs (h # hs) =
     (fst (find_dir_in_path fs ''/sys/kernel/debug/ion/heaps'' h MAX_PATH_NAME_SIZE) \<noteq> 0 \<or> search_heaps fs hs)"

definition check_sysfs_iommu :: "sysfs \<Rightarrow> ion_detect" where
  "check_sysfs_iommu fs =
     (case search_dts fs dts_devices of
        Some r \<Rightarrow> r
      | None \<Rightarrow> if search_heaps fs system_heaps then ION_DETECT_IOMMU_ENABLE else ION_DETECT_NO_DTS)"

definition ION_HEAP_TYPE_SYSTEM :: nat where "ION_HEAP_TYPE_SYSTEM = 0"
definition ION_HEAP_TYPE_CARVEOUT :: nat where "ION_HEAP_TYPE_CARVEOUT = 2"
definition ION_HEAP_TYPE_DMA :: nat where "ION_HEAP_TYPE_DMA = 4"

text \<open>The static variables: the heap, -1 before it is known, and its mask.\<close>

record ion_heap =
  ion_heap_id :: int
  ion_heap_mask :: u32

definition use_heap :: "nat \<Rightarrow> ion_heap" where
  "use_heap n = \<lparr>ion_heap_id = int n, ion_heap_mask = push_bit n 1\<rparr>"

definition detect_heap :: "sysfs \<Rightarrow> ion_heap \<Rightarrow> ion_heap" where
  "detect_heap fs st =
     (if ion_heap_id st < 0 then
        (case check_sysfs_iommu fs of
           ION_DETECT_IOMMU_DISABLE \<Rightarrow> use_heap ION_HEAP_TYPE_DMA
         | ION_DETECT_IOMMU_ENABLE \<Rightarrow> use_heap ION_HEAP_TYPE_SYSTEM
         | ION_DETECT_NO_DTS \<Rightarrow> use_heap ION_HEAP_TYPE_CARVEOUT)
      else st)"

section \<open>Calls\<close>

definition ion_ioctl :: "int \<Rightarrow> kreq \<Rightarrow> kernel \<Rightarrow> int \<times> int \<times> kernel" where
  "ion_ioctl fd r k =
     (let (a, k) = k_ioctl fd r k in (if an_ret a < 0 then - an_errno a else an_ret a, an_val a, k))"

definition ion_alloc :: "int \<Rightarrow> u64 \<Rightarrow> u32 \<Rightarrow> kernel \<Rightarrow> int \<times> u32 \<times> kernel" where
  "ion_alloc fd len handle k =
     (let (ret, v, k) = ion_ioctl fd (ION_ALLOC (unat len)) k
      in (ret, if ret \<ge> 0 then word_of_int v else handle, k))"

definition ion_free :: "int \<Rightarrow> u32 \<Rightarrow> kernel \<Rightarrow> int \<times> kernel" where
  "ion_free fd handle k = (let (ret, _, k) = ion_ioctl fd (ION_FREE handle) k in (ret, k))"

definition ion_map_fd :: "int \<Rightarrow> u32 \<Rightarrow> int \<Rightarrow> kernel \<Rightarrow> int \<times> int \<times> kernel" where
  "ion_map_fd fd handle map_fd k =
     (let (ret, v, k) = ion_ioctl fd (ION_MAP handle) k
      in if ret < 0 then (ret, map_fd, k) else if v < 0 then (- EINVAL, v, k) else (0, v, k))"

definition ion_mmap :: "int \<Rightarrow> u64 \<Rightarrow> kernel \<Rightarrow> int \<times> u64 \<times> kernel" where
  "ion_mmap fd len k =
     (case k_mmap (unat len) True fd k of (None, e, k) \<Rightarrow> (- e, 0, k) | (Some p, _, k) \<Rightarrow> (0, p, k))"

section \<open>Operations\<close>

text \<open>The structure \<open>allocator_ctx_ion\<close> has no flags; that field of \<open>alloc_ctx\<close> is zero here.\<close>

definition allocator_ion_open ::
  "bool \<Rightarrow> alloc_cfg \<Rightarrow> sysfs \<Rightarrow> ion_heap \<Rightarrow> kernel \<Rightarrow> mpp_ret \<times> alloc_ctx option \<times> ion_heap \<times> kernel" where
  "allocator_ion_open has_ctx cfg fs st k =
     (if \<not> has_ctx then (MPP_ERR_NULL_PTR, None, st, k)
      else let (a, k) = k_open ''/dev/ion'' k; fd = an_ret a in
        (if fd < 0 then (MPP_ERR_UNKNOW, None, st, k)
         else let (ok, k) = k_malloc k in
           (if \<not> ok then (MPP_ERR_MALLOC, None, st, snd (k_close fd k))
            else (MPP_OK, Some \<lparr>cx_alignment = ucast (ac_alignment cfg), cx_device = fd, cx_flags = 0\<rparr>,
                  detect_heap fs st, k))))"

definition allocator_ion_alloc :: "alloc_ctx option \<Rightarrow> buf_op" where
  "allocator_ion_alloc ctx info k =
     (case ctx of
        None \<Rightarrow> Some (MPP_ERR_NULL_PTR, info, k)
      | Some p \<Rightarrow>
          let (ret, hnd, k) = ion_alloc (cx_device p) (bi_size info) (- 1) k;
              (ret, fd, k) = (if ret \<noteq> 0 then (ret, - 1, k) else ion_map_fd (cx_device p) hnd (- 1) k)
          in Some (ret_of_int ret, info\<lparr>bi_fd := fd, bi_ptr := 0, bi_hnd := scast hnd\<rparr>, k))"

text \<open>
  The handle of an import is a local variable without a value until the call has stored one:
  \<open>stale\<close> is what is found there when the call has failed.
\<close>

definition allocator_ion_import :: "u32 \<Rightarrow> alloc_ctx option \<Rightarrow> buf_op" where
  "allocator_ion_import stale ctx data k =
     (case ctx of
        None \<Rightarrow> None
      | Some p \<Rightarrow>
          let (ret, v, k) = ion_ioctl (cx_device p) (ION_IMPORT (bi_fd data)) k;
              handle = (if ret < 0 then stale else word_of_int v) in
          (if sint handle < 0 then Some (ret_of_int ret, data, k)
           else let (ret, fd, k) = ion_map_fd (cx_device p) handle (bi_fd data) k
                in Some (ret_of_int ret, data\<lparr>bi_hnd := scast handle, bi_fd := fd, bi_ptr := 0\<rparr>, k)))"

definition allocator_ion_mmap :: "alloc_ctx option \<Rightarrow> buf_op" where
  "allocator_ion_mmap ctx data k =
     (case ctx of
        None \<Rightarrow> Some (MPP_ERR_NULL_PTR, data, k)
      | Some p \<Rightarrow>
          (if bi_ptr data \<noteq> 0 then Some (MPP_OK, data, k)
           else let (ret, ptr, k) = ion_mmap (bi_fd data) (bi_size data) k
                in Some (ret_of_int ret, data\<lparr>bi_ptr := ptr\<rparr>, k)))"

definition allocator_ion_free :: "alloc_ctx option \<Rightarrow> buf_op" where
  "allocator_ion_free ctx data k =
     (case ctx of
        None \<Rightarrow> Some (MPP_ERR_NULL_PTR, data, k)
      | Some p \<Rightarrow>
          let (data, k) = unmap data k;
              (data, k) = (if bi_fd data > 0 then (data\<lparr>bi_fd := -1\<rparr>, snd (k_close (bi_fd data) k)) else (data, k));
              (data, k) = (if bi_hnd data \<noteq> 0
                           then (data\<lparr>bi_hnd := 0\<rparr>, snd (ion_free (cx_device p) (ucast (bi_hnd data)) k)) else (data, k))
          in Some (MPP_OK, data, k))"

definition allocator_ion_close :: "alloc_ctx option \<Rightarrow> kernel \<Rightarrow> mpp_ret \<times> kernel" where
  "allocator_ion_close = close_device"

section \<open>The laws\<close>

definition ion_handles :: "buf_info \<Rightarrow> u32 list" where
  "ion_handles b = (if bi_hnd b = 0 then [] else [ucast (bi_hnd b)])"

lemma granted_ion:
  assumes "ion_ioctl fd (ION_ALLOC n) k = (ret, v, k')" "0 \<le> ret"
  shows "\<exists>as. k' = k\<lparr>k_answers := as, k_handles := (k_handles k)(word_of_int v \<mapsto> n)\<rparr>"
    "k_handles k (word_of_int v) = None" "(word_of_int v :: u32) \<noteq> 0"
  using assms by (auto simp: ion_ioctl_def k_ioctl_def k_grant_def give_handle_def refused_def Let_def EBADF_def ENOMEM_def
      split: if_splits prod.splits dest!: next_answer_kernel)

lemma granted_map:
  assumes "ion_ioctl fd (ION_MAP h) k = (ret, v, k')" "0 \<le> ret" "0 \<le> v"
  shows "\<exists>as n. k_handles k h = Some n \<and> k' = k\<lparr>k_answers := as, k_fds := (k_fds k)(v \<mapsto> n)\<rparr>" "k_fds k v = None"
  using assms by (auto simp: ion_ioctl_def k_ioctl_def k_grant_def give_fd_def refused_def Let_def EBADF_def ENOMEM_def EINVAL_def
      split: if_splits prod.splits option.splits dest!: next_answer_kernel)

lemma cast_back [simp]: "ucast (scast (h :: u32) :: u64) = h"
  by (rule bit_word_eqI) (auto simp: bit_simps)

lemma cast_zero: "(scast (h :: u32) :: u64) = 0 \<longleftrightarrow> h = 0"
proof
  assume "(scast h :: u64) = 0"
  then have "ucast (scast h :: u64) = (0 :: u32)" by simp
  then show "h = 0" by simp
qed simp

lemma ion_alloc_gives:
  assumes inv: "ctx_inv p k" and run: "allocator_ion_alloc (Some p) i k = Some (MPP_OK, b, k')"
  shows "ctx_inv p k' \<and> bi_size b = bi_size i \<and> bi_ptr b = 0 \<and> 0 < bi_fd b \<and> bi_fd b \<noteq> cx_device p \<and>
    k_fds k (bi_fd b) = None \<and> k_fds k' = (k_fds k)(bi_fd b \<mapsto> unat (bi_size i)) \<and>
    held (k_handles k) (k_handles k') (ion_handles b) \<and> k_maps k' = k_maps k"
proof -
  obtain ret v k1 where c: "ion_ioctl (cx_device p) (ION_ALLOC (unat (bi_size i))) k = (ret, v, k1)" by (metis prod_cases3)
  have r: "ret = 0" using run c by (auto simp: allocator_ion_alloc_def ion_alloc_def Let_def split: if_splits prod.splits)
  define h where "h = (word_of_int v :: u32)"
  from granted_ion [OF c] r obtain as where
    k1: "k1 = k\<lparr>k_answers := as, k_handles := (k_handles k)(h \<mapsto> unat (bi_size i))\<rparr>" "k_handles k h = None" "h \<noteq> 0"
    by (auto simp: h_def)
  obtain ret2 fd k2 where m: "ion_ioctl (cx_device p) (ION_MAP h) k1 = (ret2, fd, k2)" by (metis prod_cases3)
  have r2: "0 \<le> ret2" "0 \<le> fd" "b = i\<lparr>bi_fd := fd, bi_ptr := 0, bi_hnd := scast h\<rparr>" "k' = k2"
    using run c r m by (auto simp: allocator_ion_alloc_def ion_alloc_def ion_map_fd_def h_def EINVAL_def split: if_splits)
  from granted_map [OF m r2(1,2)] obtain as2 where
    k2: "k2 = k1\<lparr>k_answers := as2, k_fds := (k_fds k1)(fd \<mapsto> unat (bi_size i))\<rparr>" "k_fds k1 fd = None"
    by (auto simp: k1(1))
  have "fd \<noteq> 0" "fd \<noteq> cx_device p" using inv k2(2) by (auto simp: ctx_inv_def k_inv_def k1(1))
  then show ?thesis using inv r2 k1(2,3) k2(2)
    by (auto simp: k2(1) k1(1) ctx_inv_def k_inv_def ion_handles_def cast_zero)
qed

lemma ion_map_gives:
  assumes "ctx_inv p k" "bi_ptr i = 0" "allocator_ion_mmap (Some p) i k = Some (MPP_OK, b, k')"
  shows "ctx_inv p k' \<and> b = i\<lparr>bi_ptr := bi_ptr b\<rparr> \<and> bi_ptr b \<noteq> 0 \<and> ion_handles b = ion_handles i \<and>
    k_maps k (bi_ptr b) = None \<and> (\<exists>wr. k_maps k' = (k_maps k)(bi_ptr b \<mapsto> (unat (bi_size i), wr))) \<and>
    k_fds k' = k_fds k \<and> k_handles k' = k_handles k"
  using assms
  by (auto simp: allocator_ion_mmap_def ion_mmap_def k_mmap_def EBADF_def ENOMEM_def Let_def ctx_inv_def k_inv_def
      ion_handles_def simp del: not_None_eq split: option.splits prod.splits if_splits dest!: next_answer_kernel)

lemma ion_freed:
  "k_fds k fd \<noteq> None \<Longrightarrow> k_handles k h \<noteq> None \<Longrightarrow> ion_free fd h k = (0, k\<lparr>k_handles := (k_handles k)(h := None)\<rparr>)"
  by (auto simp: ion_free_def ion_ioctl_def k_ioctl_def take_handle_def)

lemma ion_free_takes:
  assumes "ctx_inv p k" "0 < bi_fd b" "bi_fd b \<noteq> cx_device p" "k_fds k (bi_fd b) \<noteq> None"
    "set (ion_handles b) \<subseteq> dom (k_handles k)"
  shows "\<exists>b' k'. allocator_ion_free (Some p) b k = Some (MPP_OK, b', k') \<and> ctx_inv p k' \<and>
    k_fds k' = (k_fds k)(bi_fd b := None) \<and> k_handles k' = k_handles k |` (- set (ion_handles b)) \<and>
    k_maps k' = k_maps k |` (- set (ptrs b))"
proof -
  have inv: "k_inv k" using assms(1) by (simp add: ctx_inv_def)
  let ?k = "k\<lparr>k_maps := k_maps k |` (- set (ptrs b)), k_fds := (k_fds k)(bi_fd b := None)\<rparr>"
  have k: "ctx_inv p ?k" by (rule close_fd_inv [OF assms(1-3)])
  have dev: "k_fds ?k (cx_device p) \<noteq> None" using k by (simp add: ctx_inv_def)
  show ?thesis
  proof (cases "bi_hnd b = 0")
    case True
    then show ?thesis using unmap_spec [OF inv, of b] assms(2,4) k
      by (auto simp: allocator_ion_free_def k_close_def ion_handles_def)
  next
    case False
    then have h: "k_handles ?k (ucast (bi_hnd b)) \<noteq> None" using assms(5) by (auto simp: ion_handles_def)
    have "(k_handles k)(ucast (bi_hnd b) := None) = k_handles k |` (- {ucast (bi_hnd b)})"
      by (auto simp: restrict_map_def fun_eq_iff)
    moreover have "ctx_inv p (?k\<lparr>k_handles := (k_handles k)(ucast (bi_hnd b) := None)\<rparr>)"
      using k by (auto simp: ctx_inv_def k_inv_def)
    ultimately show ?thesis using unmap_spec [OF inv, of b] assms(2,4) ion_freed [OF dev h] False
      by (auto simp: allocator_ion_free_def k_close_def ion_handles_def)
  qed
qed

interpretation ion: buffer_allocator "allocator_ion_alloc (Some p)" "allocator_ion_free (Some p)"
    "allocator_ion_mmap (Some p)" "cx_device p" ion_handles "ctx_inv p" "\<lambda>_. True" for p
proof (unfold_locales, goal_cases)
  case (1 k i b k')
  from ion_alloc_gives [OF 1(1,3)] show ?case by auto
next
  case (2 k i b k')
  from ion_map_gives [OF 2] show ?case by blast
next
  case (3 k b)
  from ion_free_takes [OF 3] show ?case .
qed

end
