(* ===== verification/Buffers.thy ===== *)
theory Buffers
  imports Alloc_Ion
begin

text \<open>
  The allocator a client uses: the choice among the allocators (\<open>osal/linux/os_allocator.c\<close>, and
  the files for Android and Windows), and the front end that calls the chosen one
  (\<open>osal/mpp_allocator.cpp\<close>). The lock of the front end is not modelled, every call is one step.
  Which allocators the system has (\<open>mpp_runtime.cpp\<close>) and whether the DRM one is compiled in are
  arguments.
\<close>

section \<open>Choosing an allocator\<close>

datatype buffer_type = MPP_BUFFER_TYPE_NORMAL | MPP_BUFFER_TYPE_ION | MPP_BUFFER_TYPE_EXT_DMA | MPP_BUFFER_TYPE_DRM
  | MPP_BUFFER_TYPE_DMA_HEAP | MPP_BUFFER_TYPE_V4L2 | MPP_BUFFER_TYPE_BUTT

datatype alloc_kind = Allocator_std | Allocator_drm | Allocator_dma_heap | Allocator_ext_dma | Allocator_ion

definition drm_or :: "bool \<Rightarrow> (buffer_type \<Rightarrow> bool) \<Rightarrow> alloc_kind \<Rightarrow> alloc_kind" where
  "drm_or have_drm valid rest = (if have_drm \<and> valid MPP_BUFFER_TYPE_DRM then Allocator_drm else rest)"

text \<open>The result, and the allocator when one has been stored.\<close>

definition os_allocator_get :: "bool \<Rightarrow> (buffer_type \<Rightarrow> bool) \<Rightarrow> buffer_type \<Rightarrow> mpp_ret \<times> alloc_kind option" where
  "os_allocator_get have_drm valid type = (case type of
     MPP_BUFFER_TYPE_NORMAL \<Rightarrow> (MPP_OK, Some Allocator_std)
   | MPP_BUFFER_TYPE_ION \<Rightarrow> (MPP_OK, Some
       (if valid MPP_BUFFER_TYPE_ION then Allocator_ion
        else if valid MPP_BUFFER_TYPE_DMA_HEAP then Allocator_dma_heap
        else drm_or have_drm valid Allocator_std))
   | MPP_BUFFER_TYPE_EXT_DMA \<Rightarrow> (MPP_OK, Some Allocator_ext_dma)
   | MPP_BUFFER_TYPE_DRM \<Rightarrow> (MPP_OK, Some
       (if valid MPP_BUFFER_TYPE_DMA_HEAP then Allocator_dma_heap
        else drm_or have_drm valid (if valid MPP_BUFFER_TYPE_ION then Allocator_ion else Allocator_std)))
   | MPP_BUFFER_TYPE_DMA_HEAP \<Rightarrow> (MPP_OK, Some
       (if valid MPP_BUFFER_TYPE_DMA_HEAP then Allocator_dma_heap else Allocator_std))
   | _ \<Rightarrow> (MPP_NOK, None))"

text \<open>On Android: the case for normal buffers goes on into the one for ION.\<close>

definition android_allocator_get :: "bool \<Rightarrow> (buffer_type \<Rightarrow> bool) \<Rightarrow> buffer_type \<Rightarrow> mpp_ret \<times> alloc_kind option" where
  "android_allocator_get have_drm valid type =
     (if type = MPP_BUFFER_TYPE_NORMAL \<or> type = MPP_BUFFER_TYPE_ION then
        (MPP_OK, Some (if valid MPP_BUFFER_TYPE_DMA_HEAP then Allocator_dma_heap
                       else if valid MPP_BUFFER_TYPE_ION then Allocator_ion
                       else drm_or have_drm valid Allocator_std))
      else os_allocator_get have_drm valid type)"

definition windows_allocator_get :: "buffer_type \<Rightarrow> mpp_ret \<times> alloc_kind option" where
  "windows_allocator_get type =
     (if type \<in> {MPP_BUFFER_TYPE_NORMAL, MPP_BUFFER_TYPE_ION, MPP_BUFFER_TYPE_V4L2}
      then (MPP_OK, Some Allocator_std) else (MPP_NOK, None))"

section \<open>The front end\<close>

text \<open>
  The context of an allocator, by its kind; the stand-in never has one. The static variables of
  the allocators go with the state.
\<close>

datatype os_ctx = Ctx_drm alloc_ctx | Ctx_dma_heap alloc_ctx | Ctx_ion alloc_ctx | Ctx_ext_dma u64

record os_state =
  os_heap_fds :: heap_fds
  os_ion :: ion_heap
  os_kernel :: kernel

record os_env =
  oe_have_drm :: bool
  oe_valid :: "buffer_type \<Rightarrow> bool"
  oe_heap_flags :: heap_flags
  oe_sysfs :: sysfs

text \<open>The structure \<open>MppAllocatorImpl\<close>.\<close>

record allocator_impl =
  al_type :: buffer_type
  al_flags :: u32
  al_kind :: alloc_kind
  al_ctx :: "os_ctx option"

definition os_open :: "os_env \<Rightarrow> alloc_kind \<Rightarrow> alloc_cfg \<Rightarrow> os_state \<Rightarrow> mpp_ret \<times> os_ctx option \<times> os_state" where
  "os_open env kind cfg s = (case kind of
     Allocator_std \<Rightarrow> (fst (allocator_std_open True), None, s)
   | Allocator_drm \<Rightarrow>
       let (ret, c, k) = os_allocator_drm_open True cfg (os_kernel s)
       in (ret, map_option Ctx_drm c, s\<lparr>os_kernel := k\<rparr>)
   | Allocator_dma_heap \<Rightarrow>
       let (ret, c, fds, k) = os_allocator_dma_heap_open (oe_heap_flags env) True cfg (os_heap_fds s) (os_kernel s)
       in (ret, map_option Ctx_dma_heap c, s\<lparr>os_heap_fds := fds, os_kernel := k\<rparr>)
   | Allocator_ext_dma \<Rightarrow>
       let (ret, c, k) = allocator_ext_dma_open True cfg (os_kernel s)
       in (ret, map_option Ctx_ext_dma c, s\<lparr>os_kernel := k\<rparr>)
   | Allocator_ion \<Rightarrow>
       let (ret, c, ion, k) = allocator_ion_open True cfg (oe_sysfs env) (os_ion s) (os_kernel s)
       in (ret, map_option Ctx_ion c, s\<lparr>os_ion := ion, os_kernel := k\<rparr>))"

datatype api_id = ALLOC_API_ALLOC | ALLOC_API_FREE | ALLOC_API_IMPORT | ALLOC_API_RELEASE | ALLOC_API_MMAP | ALLOC_API_BUTT

text \<open>\<open>stale\<close> is the value left in a variable of the import of ION.\<close>

definition os_call :: "u32 \<Rightarrow> os_ctx \<Rightarrow> api_id \<Rightarrow> buf_op" where
  "os_call stale ctx call info k = (case (ctx, call) of
     (_, ALLOC_API_BUTT) \<Rightarrow> Some (MPP_NOK, info, k)
   | (Ctx_drm p, ALLOC_API_ALLOC) \<Rightarrow> os_allocator_drm_alloc (Some p) info k
   | (Ctx_drm p, ALLOC_API_IMPORT) \<Rightarrow> os_allocator_drm_import (Some p) info k
   | (Ctx_drm p, ALLOC_API_MMAP) \<Rightarrow> os_allocator_drm_mmap (Some p) info k
   | (Ctx_drm p, _) \<Rightarrow> os_allocator_drm_free (Some p) info k
   | (Ctx_dma_heap p, ALLOC_API_ALLOC) \<Rightarrow> os_allocator_dma_heap_alloc (Some p) info k
   | (Ctx_dma_heap p, ALLOC_API_IMPORT) \<Rightarrow> os_allocator_dma_heap_import (Some p) info k
   | (Ctx_dma_heap p, ALLOC_API_MMAP) \<Rightarrow> os_allocator_dma_heap_mmap (Some p) info k
   | (Ctx_dma_heap p, _) \<Rightarrow> os_allocator_dma_heap_free (Some p) info k
   | (Ctx_ion p, ALLOC_API_ALLOC) \<Rightarrow> allocator_ion_alloc (Some p) info k
   | (Ctx_ion p, ALLOC_API_IMPORT) \<Rightarrow> allocator_ion_import stale (Some p) info k
   | (Ctx_ion p, ALLOC_API_MMAP) \<Rightarrow> allocator_ion_mmap (Some p) info k
   | (Ctx_ion p, _) \<Rightarrow> allocator_ion_free (Some p) info k
   | (Ctx_ext_dma a, ALLOC_API_ALLOC) \<Rightarrow> Some (allocator_ext_dma_alloc (Some a) (Some info), info, k)
   | (Ctx_ext_dma a, ALLOC_API_FREE) \<Rightarrow> Some (allocator_ext_dma_free (Some a) (Some info), info, k)
   | (Ctx_ext_dma a, ALLOC_API_IMPORT) \<Rightarrow> allocator_ext_dma_import (Some a) info k
   | (Ctx_ext_dma a, ALLOC_API_RELEASE) \<Rightarrow> allocator_ext_dma_release (Some a) info k
   | (Ctx_ext_dma a, ALLOC_API_MMAP) \<Rightarrow> allocator_ext_dma_mmap (Some a) info k)"

definition mpp_allocator_api_wrapper ::
  "u32 \<Rightarrow> allocator_impl option \<Rightarrow> buf_info option \<Rightarrow> api_id \<Rightarrow> kernel \<Rightarrow> (mpp_ret \<times> buf_info option \<times> kernel) option" where
  "mpp_allocator_api_wrapper stale allocator info call k =
     (case (allocator, info) of
        (Some p, Some i) \<Rightarrow>
          (if call = ALLOC_API_BUTT then Some (MPP_ERR_UNKNOW, info, k)
           else case al_ctx p of
             None \<Rightarrow> Some (MPP_NOK, info, k)
           | Some ctx \<Rightarrow> do { (ret, i, k) \<leftarrow> os_call stale ctx call i k; Some (ret, Some i, k) })
      | _ \<Rightarrow> Some (MPP_ERR_UNKNOW, info, k))"

text \<open>\<open>mpp_allocator_alloc\<close> and its sisters, for an allocator and a buffer that are there.\<close>

definition allocator_op :: "u32 \<Rightarrow> api_id \<Rightarrow> allocator_impl \<Rightarrow> buf_op" where
  "allocator_op stale call p i k = do {
     (ret, i', k) \<leftarrow> mpp_allocator_api_wrapper stale (Some p) (Some i) call k;
     i' \<leftarrow> i';
     Some (ret, i', k)
   }"

definition SZ_4K :: u64 where "SZ_4K = 4096"

text \<open>
  \<open>mpp_allocator_get\<close>: the result, the allocator, and whether the pointers of the caller have been
  written. \<open>flags\<close> are the upper bits of the type.
\<close>

definition mpp_allocator_get ::
  "os_env \<Rightarrow> bool \<Rightarrow> buffer_type \<Rightarrow> u32 \<Rightarrow> os_state \<Rightarrow> mpp_ret \<times> allocator_impl option \<times> bool \<times> os_state" where
  "mpp_allocator_get env has_ptrs type flags s =
     (if \<not> has_ptrs \<or> type = MPP_BUFFER_TYPE_BUTT then (MPP_ERR_UNKNOW, None, False, s)
      else let (ok, k) = k_malloc (os_kernel s); s = s\<lparr>os_kernel := k\<rparr> in
        (if \<not> ok then (MPP_ERR_NULL_PTR, None, False, s)
         else (case os_allocator_get (oe_have_drm env) (oe_valid env) type of
             (ret, Some kind) \<Rightarrow>
               let (ret, ctx, s) = os_open env kind \<lparr>ac_alignment = SZ_4K, ac_flags = flags\<rparr> s in
               (if ret = MPP_OK
                then (ret, Some \<lparr>al_type = type, al_flags = flags, al_kind = kind, al_ctx = ctx\<rparr>, True, s)
                else (ret, None, True, s))
           | (ret, None) \<Rightarrow> (ret, None, True, s))))"

definition os_close :: "os_ctx \<Rightarrow> kernel \<Rightarrow> mpp_ret \<times> kernel" where
  "os_close ctx k = (case ctx of
     Ctx_drm p \<Rightarrow> os_allocator_drm_close (Some p) k
   | Ctx_dma_heap p \<Rightarrow> os_allocator_dma_heap_close (Some p) k
   | Ctx_ion p \<Rightarrow> allocator_ion_close (Some p) k
   | Ctx_ext_dma a \<Rightarrow> (allocator_ext_dma_close (Some a), k))"

text \<open>\<open>allocator\<close> is \<^const>\<open>None\<close> for a null pointer, and its target \<^const>\<open>None\<close> when that is null.\<close>

definition mpp_allocator_put :: "allocator_impl option option \<Rightarrow> kernel \<Rightarrow> mpp_ret \<times> kernel" where
  "mpp_allocator_put allocator k =
     (case allocator of
        None \<Rightarrow> (MPP_ERR_NULL_PTR, k)
      | Some None \<Rightarrow> (MPP_OK, k)
      | Some (Some p) \<Rightarrow> (MPP_OK, case al_ctx p of None \<Rightarrow> k | Some ctx \<Rightarrow> snd (os_close ctx k)))"

text \<open>The types in the structures of the allocators.\<close>

fun kind_type :: "alloc_kind \<Rightarrow> buffer_type" where
  "kind_type Allocator_std = MPP_BUFFER_TYPE_NORMAL"
| "kind_type Allocator_drm = MPP_BUFFER_TYPE_DRM"
| "kind_type Allocator_dma_heap = MPP_BUFFER_TYPE_DMA_HEAP"
| "kind_type Allocator_ext_dma = MPP_BUFFER_TYPE_EXT_DMA"
| "kind_type Allocator_ion = MPP_BUFFER_TYPE_ION"

definition get_real_allocator_type :: "allocator_impl option \<Rightarrow> buffer_type" where
  "get_real_allocator_type allocator =
     (case allocator of None \<Rightarrow> MPP_BUFFER_TYPE_BUTT | Some p \<Rightarrow> kind_type (al_kind p))"

section \<open>Lemmas\<close>

lemma allocator_op_call:
  "al_ctx p = Some ctx \<Longrightarrow> call \<noteq> ALLOC_API_BUTT \<Longrightarrow> allocator_op stale call p = os_call stale ctx call"
  by (intro ext) (auto simp: allocator_op_def mpp_allocator_api_wrapper_def split: bind_splits)

lemma k_open_inv:
  "k_open name k = (a, k') \<Longrightarrow> k_inv k \<Longrightarrow> k_inv k' \<and> (0 \<le> an_ret a \<longrightarrow> k_fds k (an_ret a) = None \<and>
     (\<exists>as. k' = k\<lparr>k_opened := k_opened k @ [name], k_answers := as, k_fds := (k_fds k)(an_ret a \<mapsto> 0)\<rparr>))"
  by (auto simp: k_open_def give_fd_def refused_def k_inv_def split: prod.splits if_splits dest!: next_answer_kernel)

lemma k_malloc_inv: "k_malloc k = (ok, k') \<Longrightarrow> \<exists>hp. k' = k\<lparr>k_heap := hp\<rparr>"
  by (auto simp: k_malloc_def split: prod.splits)

lemma heap_inv [simp]: "k_inv (k\<lparr>k_heap := hp\<rparr>) = k_inv k" "ctx_inv c (k\<lparr>k_heap := hp\<rparr>) = ctx_inv c k"
  by (simp_all add: k_inv_def ctx_inv_def)

lemma drm_opened:
  assumes "os_allocator_drm_open True cfg k = (MPP_OK, c, k')" "k_inv k"
  shows "\<exists>p. c = Some p \<and> ctx_inv p k' \<and> cx_alignment p = ucast (ac_alignment cfg) \<and> k_fds k (cx_device p) = None \<and>
    k_fds k' = (k_fds k)(cx_device p \<mapsto> 0) \<and> k_handles k' = k_handles k \<and> k_maps k' = k_maps k"
proof -
  obtain a k1 where o: "k_open ''/dev/dri/card0'' k = (a, k1)" by fastforce
  obtain ok k2 where m: "k_malloc k1 = (ok, k2)" by fastforce
  have s: "0 \<le> an_ret a" "ok" using assms(1) o m by (auto simp: os_allocator_drm_open_def Let_def split: if_splits)
  from k_open_inv [OF o assms(2)] k_malloc_inv [OF m] s assms(1) o m show ?thesis
    by (auto simp: os_allocator_drm_open_def ctx_inv_def Let_def)
qed

lemma ion_opened:
  assumes "allocator_ion_open True cfg fs st k = (MPP_OK, c, st', k')" "k_inv k"
  shows "\<exists>p. c = Some p \<and> ctx_inv p k' \<and> k_fds k (cx_device p) = None \<and>
    k_fds k' = (k_fds k)(cx_device p \<mapsto> 0) \<and> k_handles k' = k_handles k \<and> k_maps k' = k_maps k"
proof -
  obtain a k1 where o: "k_open ''/dev/ion'' k = (a, k1)" by fastforce
  obtain ok k2 where m: "k_malloc k1 = (ok, k2)" by fastforce
  have s: "0 \<le> an_ret a" "ok" using assms(1) o m by (auto simp: allocator_ion_open_def Let_def split: if_splits)
  from k_open_inv [OF o assms(2)] k_malloc_inv [OF m] s assms(1) o m show ?thesis
    by (auto simp: allocator_ion_open_def ctx_inv_def Let_def)
qed

text \<open>A heap may be open before, when its descriptor is taken for open without a look at the kernel.\<close>

lemma heap_opened:
  assumes "os_allocator_dma_heap_open hf True cfg fds k = (MPP_OK, c, fds', k')" "k_inv k"
  shows "\<exists>p. c = Some p \<and> k_inv k' \<and> fds' \<noteq> None \<and> (k_fds k' (cx_device p) = None \<or> ctx_inv p k')"
proof -
  define t where "t = heap_type hf (ac_flags cfg)"
  define f where "f = the (if fds = None then heap_fds_init else fds)"
  obtain fd f' k1 where h: "heap_fd_open t f k = (fd, f', k1)" by (metis prod_cases3)
  obtain ok k2 where m: "k_malloc k1 = (ok, k2)" by fastforce
  have s: "0 \<le> fd" "ok" "c = Some \<lparr>cx_alignment = ucast (ac_alignment cfg), cx_device = fd, cx_flags = ac_flags cfg\<rparr>"
    "fds' = Some f'" "k' = k2"
    using assms(1) h m by (auto simp: os_allocator_dma_heap_open_def Let_def t_def f_def split: if_splits)
  have "k_inv k1"
    using h assms(2) k_open_inv [of "''/dev/dma_heap/'' @ heap_names ! t" k]
    by (auto simp: heap_fd_open_def split: if_splits prod.splits)
  then show ?thesis using s k_malloc_inv [OF m] by (auto simp: ctx_inv_def)
qed

text \<open>What an allocator that was got can be.\<close>

lemma got_opened:
  assumes "mpp_allocator_get env True type flags s = (MPP_OK, Some p, b, s')"
  shows "\<exists>ok k kind. snd (os_allocator_get (oe_have_drm env) (oe_valid env) type) = Some kind \<and>
    k_malloc (os_kernel s) = (ok, k) \<and>
    os_open env kind \<lparr>ac_alignment = SZ_4K, ac_flags = flags\<rparr> (s\<lparr>os_kernel := k\<rparr>) = (MPP_OK, al_ctx p, s')"
proof -
  obtain ok k where m: "k_malloc (os_kernel s) = (ok, k)" by fastforce
  obtain r kd where o: "os_allocator_get (oe_have_drm env) (oe_valid env) type = (r, kd)" by fastforce
  obtain kind where kd: "kd = Some kind" using assms m o by (cases kd) (auto simp: mpp_allocator_get_def Let_def split: if_splits)
  obtain ret ctx t where r: "os_open env kind \<lparr>ac_alignment = SZ_4K, ac_flags = flags\<rparr> (s\<lparr>os_kernel := k\<rparr>) = (ret, ctx, t)"
    by (metis prod_cases3)
  have "ret = MPP_OK" "ctx = al_ctx p" "t = s'" using assms m o kd r by (auto simp: mpp_allocator_get_def Let_def split: if_splits)
  then show ?thesis using m r o kd by auto
qed

lemma got_cases:
  assumes "mpp_allocator_get env True type flags s = (MPP_OK, Some p, b, s')" "k_inv (os_kernel s)"
  obtains c where "al_ctx p = Some (Ctx_drm c)" "ctx_inv c (os_kernel s')" "cx_alignment c = 4096"
      "k_fds (os_kernel s) (cx_device c) = None" "k_fds (os_kernel s') = (k_fds (os_kernel s))(cx_device c \<mapsto> 0)"
      "k_handles (os_kernel s') = k_handles (os_kernel s)" "k_maps (os_kernel s') = k_maps (os_kernel s)"
  | c where "al_ctx p = Some (Ctx_ion c)" "ctx_inv c (os_kernel s')"
      "k_fds (os_kernel s) (cx_device c) = None" "k_fds (os_kernel s') = (k_fds (os_kernel s))(cx_device c \<mapsto> 0)"
      "k_handles (os_kernel s') = k_handles (os_kernel s)" "k_maps (os_kernel s') = k_maps (os_kernel s)"
  | c where "al_ctx p = Some (Ctx_dma_heap c)" "k_inv (os_kernel s')"
      "k_fds (os_kernel s') (cx_device c) = None \<or> ctx_inv c (os_kernel s')"
  | a where "al_ctx p = Some (Ctx_ext_dma a)" "k_fds (os_kernel s') = k_fds (os_kernel s)"
      "k_handles (os_kernel s') = k_handles (os_kernel s)" "k_maps (os_kernel s') = k_maps (os_kernel s)"
proof -
  obtain ok k1 where m: "k_malloc (os_kernel s) = (ok, k1)" by fastforce
  obtain hp where k1: "k1 = (os_kernel s)\<lparr>k_heap := hp\<rparr>" using k_malloc_inv [OF m] by blast
  have inv: "k_inv k1" using assms(2) k1 by simp
  let ?s = "s\<lparr>os_kernel := k1\<rparr>" and ?cfg = "\<lparr>ac_alignment = SZ_4K, ac_flags = flags\<rparr>"
  obtain kind ctx where g: "os_open env kind ?cfg ?s = (MPP_OK, ctx, s')" "al_ctx p = ctx"
    using got_opened [OF assms(1)] m by auto
  show thesis
  proof (cases kind)
    case Allocator_std
    then show thesis using g by (simp add: os_open_def allocator_std_open_def)
  next
    case Allocator_drm
    then obtain c k where c: "os_allocator_drm_open True ?cfg k1 = (MPP_OK, c, k)" "ctx = map_option Ctx_drm c" "os_kernel s' = k"
      using g(1) by (auto simp: os_open_def split: prod.splits)
    obtain q where "c = Some q" "ctx_inv q k" "cx_alignment q = 4096" "k_fds k1 (cx_device q) = None"
      "k_fds k = (k_fds k1)(cx_device q \<mapsto> 0)" "k_handles k = k_handles k1" "k_maps k = k_maps k1"
      using drm_opened [OF c(1) inv] by (auto simp: SZ_4K_def)
    then show thesis using that(1) [of q] c g(2) by (simp add: k1)
  next
    case Allocator_ion
    then obtain c ion k where c: "allocator_ion_open True ?cfg (oe_sysfs env) (os_ion s) k1 = (MPP_OK, c, ion, k)"
      "ctx = map_option Ctx_ion c" "os_kernel s' = k"
      using g(1) by (auto simp: os_open_def split: prod.splits)
    obtain q where "c = Some q" "ctx_inv q k" "k_fds k1 (cx_device q) = None"
      "k_fds k = (k_fds k1)(cx_device q \<mapsto> 0)" "k_handles k = k_handles k1" "k_maps k = k_maps k1"
      using ion_opened [OF c(1) inv] by auto
    then show thesis using that(2) [of q] c g(2) by (simp add: k1)
  next
    case Allocator_dma_heap
    then obtain c fds k where c: "os_allocator_dma_heap_open (oe_heap_flags env) True ?cfg (os_heap_fds s) k1 = (MPP_OK, c, fds, k)"
      "ctx = map_option Ctx_dma_heap c" "os_kernel s' = k"
      using g(1) by (auto simp: os_open_def split: prod.splits)
    obtain q where "c = Some q" "k_inv k" "k_fds k (cx_device q) = None \<or> ctx_inv q k"
      using heap_opened [OF c(1) inv] by auto
    then show thesis using that(3) [of q] c g(2) by simp
  next
    case Allocator_ext_dma
    obtain ok2 k2 where m2: "k_malloc k1 = (ok2, k2)" by fastforce
    then have "ok2" "ctx = Some (Ctx_ext_dma SZ_4K)" "os_kernel s' = k2"
      using g(1) Allocator_ext_dma by (auto simp: os_open_def allocator_ext_dma_open_def split: if_splits)
    then show thesis using that(4) [of SZ_4K] g(2) k_malloc_inv [OF m2] by (auto simp: k1)
  qed
qed

lemma drm_fits_4K: "drm_fits 4096 n \<longleftrightarrow> unat n + 4096 \<le> 2 ^ 32"
proof -
  have "a = 12" if "a < 32" "(4096 :: u32) = 2 ^ a" for a
  proof -
    have "bit (4096 :: u32) 12" by (simp add: bit_simps)
    then have "bit (2 ^ a :: u32) 12" using that(2) by simp
    then show ?thesis by (simp add: bit_exp_iff)
  qed
  then have "\<exists>a < 32. (4096 :: u32) = 2 ^ a \<and> unat n + 2 ^ a \<le> 2 ^ 32" if "unat n + 4096 \<le> 2 ^ 32"
    using that by (intro exI [of _ 12]) simp
  moreover have "unat n + 4096 \<le> 2 ^ 32" if "a < 32" "(4096 :: u32) = 2 ^ a" "unat n + 2 ^ a \<le> 2 ^ 32" for a
    using that(3) \<open>\<And>a. \<lbrakk>a < 32; (4096 :: u32) = 2 ^ a\<rbrakk> \<Longrightarrow> a = 12\<close> [OF that(1,2)] by simp
  ultimately show ?thesis unfolding drm_fits_def by blast
qed

text \<open>An allocator that gives nothing.\<close>

lemma acquire_nothing:
  assumes "\<And>i. \<exists>r. al i k = Some (r, i, k) \<and> r \<noteq> MPP_OK" "acquire al mp xs k = Some (bs, k')"
  shows "xs = [] \<and> bs = [] \<and> k' = k"
proof (cases xs)
  case (Cons x ys)
  then show ?thesis using assms(1) [of "\<lparr>bi_size = fst x, bi_ptr = 0, bi_hnd = 0, bi_fd = -1\<rparr>"] assms(2)
    by (cases x) (auto split: mpp_ret.splits)
qed (use assms in auto)

text \<open>A heap in the table of those that are open is not opened again.\<close>

lemma heap_type_bound: "heap_type hf flags < DMA_HEAP_TYPE_NB"
  by (simp add: heap_type_def DMA_HEAP_TYPE_NB_def)

lemma heap_in_table:
  assumes "os_allocator_dma_heap_open hf True cfg fds k = (MPP_OK, Some c, fds', k')" "k_inv k"
    "\<forall>l. fds = Some l \<longrightarrow> length l = DMA_HEAP_TYPE_NB"
  shows "\<exists>l. fds' = Some l \<and> l ! heap_type hf (ac_flags cfg) = cx_device c \<and> 0 < cx_device c \<and>
    c = \<lparr>cx_alignment = ucast (ac_alignment cfg), cx_device = cx_device c, cx_flags = ac_flags cfg\<rparr>"
proof -
  define t where "t = heap_type hf (ac_flags cfg)"
  define f where "f = the (if fds = None then heap_fds_init else fds)"
  have t: "t < length f" using assms(3) heap_type_bound [of hf "ac_flags cfg"]
    by (auto simp: f_def t_def heap_fds_init_def)
  obtain fd f' k1 where h: "heap_fd_open t f k = (fd, f', k1)" by (metis prod_cases3)
  obtain ok k2 where m: "k_malloc k1 = (ok, k2)" by fastforce
  have s: "0 \<le> fd" "c = \<lparr>cx_alignment = ucast (ac_alignment cfg), cx_device = fd, cx_flags = ac_flags cfg\<rparr>" "fds' = Some f'"
    using assms(1) h m by (auto simp: os_allocator_dma_heap_open_def Let_def t_def f_def split: if_splits)
  have "f' ! t = fd" using h t by (auto simp: heap_fd_open_def split: if_splits prod.splits)
  moreover have "fd \<noteq> 0"
    using h s(1) assms(2) k_open_inv [of "''/dev/dma_heap/'' @ heap_names ! t" k]
    by (auto simp: heap_fd_open_def k_inv_def split: if_splits prod.splits)
  ultimately show ?thesis using s by (auto simp: t_def)
qed

lemma heap_reopened:
  assumes "os_allocator_dma_heap_open hf True cfg (Some l) k = (MPP_OK, c, fds', k')" "0 < l ! heap_type hf (ac_flags cfg)"
  shows "c = Some \<lparr>cx_alignment = ucast (ac_alignment cfg), cx_device = l ! heap_type hf (ac_flags cfg),
    cx_flags = ac_flags cfg\<rparr> \<and> k_opened k' = k_opened k \<and> k_fds k' = k_fds k"
proof -
  obtain ok k2 where m: "k_malloc k = (ok, k2)" by fastforce
  show ?thesis using assms m k_malloc_inv [OF m]
    by (auto simp: os_allocator_dma_heap_open_def heap_fd_open_def Let_def split: if_splits)
qed

lemma closed_alloc:
  "k_fds k (cx_device c) = None \<Longrightarrow> os_allocator_dma_heap_alloc (Some c) i k = Some (Ret_int (-1), i, k)"
  by (simp add: os_allocator_dma_heap_alloc_def dma_heap_alloc_def k_ioctl_def refused_def ret_of_int_def)

lemma ext_alloc: "os_call stale (Ctx_ext_dma a) ALLOC_API_ALLOC i k = Some (MPP_ERR_PERM, i, k)"
  by (simp add: os_call_def allocator_ext_dma_alloc_def)

lemma closed_device: "k_fds k (cx_device c) \<noteq> None \<Longrightarrow> close_device (Some c) k = (MPP_OK, k\<lparr>k_fds := (k_fds k)(cx_device c := None)\<rparr>)"
  by (auto simp: close_device_def k_close_def)

section \<open>Properties\<close>

text \<open>
  C19: for an allocator that was got, buffers taken by \<open>mpp_allocator_alloc\<close> and mapped have the
  sizes asked for, descriptors of their own that were not open before, and memory of at least that
  size; given back in any order by \<open>mpp_allocator_free\<close> they leave no descriptor, handle or mapping
  behind, and unless the allocator is the one for DMA heaps, \<open>mpp_allocator_put\<close> then leaves the
  descriptors as they were before the allocator was got. The sizes are those for which the DRM
  allocator does not cut the size rounded up to 32 bits. Standard input is open, so that no
  descriptor is 0, and nothing has the address or the handle 0.
\<close>

theorem buffers_balance:
  assumes got: "mpp_allocator_get env True type flags s = (MPP_OK, Some p, b, s')" and inv: "k_inv (os_kernel s)"
    and fit: "list_all (\<lambda>(n, _). unat n + 4096 \<le> 2 ^ 32) xs"
    and acq: "acquire (allocator_op st ALLOC_API_ALLOC p) (allocator_op st ALLOC_API_MMAP p) xs (os_kernel s') = Some (bs, k)"
    and perm: "mset cs = mset bs"
  shows "map bi_size bs = map fst xs \<and> distinct (map bi_fd bs) \<and>
    (\<forall>b \<in> set bs. k_fds (os_kernel s') (bi_fd b) = None \<and> (\<exists>n. k_fds k (bi_fd b) = Some n \<and> unat (bi_size b) \<le> n)) \<and>
    (\<exists>k'. give_back (allocator_op st ALLOC_API_FREE p) cs k = Some k' \<and> k_fds k' = k_fds (os_kernel s') \<and>
      k_handles k' = k_handles (os_kernel s') \<and> k_maps k' = k_maps (os_kernel s') \<and>
      ((\<forall>c. al_ctx p \<noteq> Some (Ctx_dma_heap c)) \<longrightarrow>
        k_fds (snd (mpp_allocator_put (Some (Some p)) k')) = k_fds (os_kernel s)))"
  using got inv
proof (cases rule: got_cases)
  case (1 c)
  have op: "allocator_op st ALLOC_API_ALLOC p = os_allocator_drm_alloc (Some c)"
    "allocator_op st ALLOC_API_MMAP p = os_allocator_drm_mmap (Some c)"
    "allocator_op st ALLOC_API_FREE p = os_allocator_drm_free (Some c)"
    by (auto simp: allocator_op_call [OF 1(1)] os_call_def intro!: ext)
  have f: "list_all (\<lambda>(n, _). drm_fits (cx_alignment c) n) xs" using fit by (simp add: 1(3) drm_fits_4K)
  from drm.sized [OF 1(2) f acq [unfolded op]] drm.balance [OF 1(2) f acq [unfolded op] perm] 1
  show ?thesis by (auto simp: op mpp_allocator_put_def os_close_def os_allocator_drm_close_def closed_device fun_upd_idem)
next
  case (2 c)
  have op: "allocator_op st ALLOC_API_ALLOC p = allocator_ion_alloc (Some c)"
    "allocator_op st ALLOC_API_MMAP p = allocator_ion_mmap (Some c)"
    "allocator_op st ALLOC_API_FREE p = allocator_ion_free (Some c)"
    by (auto simp: allocator_op_call [OF 2(1)] os_call_def intro!: ext)
  have f: "list_all (\<lambda>(n, _). True) xs" by (simp add: list_all_iff split_beta)
  from ion.sized [OF 2(2) f acq [unfolded op]] ion.balance [OF 2(2) f acq [unfolded op] perm] 2
  show ?thesis by (auto simp: op mpp_allocator_put_def os_close_def allocator_ion_close_def closed_device fun_upd_idem)
next
  case (3 c)
  have op: "allocator_op st ALLOC_API_ALLOC p = os_allocator_dma_heap_alloc (Some c)"
    "allocator_op st ALLOC_API_MMAP p = os_allocator_dma_heap_mmap (Some c)"
    "allocator_op st ALLOC_API_FREE p = os_allocator_dma_heap_free (Some c)"
    by (auto simp: allocator_op_call [OF 3(1)] os_call_def intro!: ext)
  have f: "list_all (\<lambda>(n, _). True) xs" by (simp add: list_all_iff split_beta)
  show ?thesis
  proof (cases "ctx_inv c (os_kernel s')")
    case True
    from dma_heap.sized [OF True f acq [unfolded op]] dma_heap.balance [OF True f acq [unfolded op] perm] 3(1)
    show ?thesis by (auto simp: op)
  next
    case False
    then have "k_fds (os_kernel s') (cx_device c) = None" using 3(3) by blast
    then have "xs = [] \<and> bs = [] \<and> k = os_kernel s'"
      by (intro acquire_nothing [OF _ acq]) (simp add: op closed_alloc)
    then show ?thesis using perm 3(1) by simp
  qed
next
  case (4 a)
  have "xs = [] \<and> bs = [] \<and> k = os_kernel s'"
    by (intro acquire_nothing [OF _ acq]) (simp add: allocator_op_call [OF 4(1)] ext_alloc)
  then show ?thesis using perm 4 by (simp add: mpp_allocator_put_def os_close_def)
qed


definition usual_env :: os_env where
  "usual_env = \<lparr>oe_have_drm = True, oe_valid = (\<lambda>t. t = MPP_BUFFER_TYPE_DRM), 
     oe_heap_flags = \<lparr>hf_contig = 1, hf_cachable = 2, hf_dma32 = 4\<rparr>, oe_sysfs = \<lparr>sy_scan = (\<lambda>_ _. []), sy_read = (\<lambda>_. None)\<rparr>\<rparr>"

definition granted :: "int \<Rightarrow> int \<Rightarrow> answer" where
  "granted r v = \<lparr>an_ret = r, an_errno = 0, an_val = v\<rparr>"

definition fresh_state :: "answer list \<Rightarrow> os_state" where
  "fresh_state as = \<lparr>os_heap_fds = None, os_ion = \<lparr>ion_heap_id = -1, ion_heap_mask = 0\<rparr>,
     os_kernel = \<lparr>k_fds = [0 \<mapsto> 0], k_rdwr = (\<lambda>_. True), k_handles = Map.empty, k_maps = Map.empty, k_answers = as,
       k_heap = [], k_opened = []\<rparr>\<rparr>"

definition two_buffers :: "answer list" where
  "two_buffers = [granted 3 0, granted 0 1, granted 0 5, granted 0 4096, granted 0 1, granted 0 6]"

definition a_drm :: allocator_impl where
  "a_drm = \<lparr>al_type = MPP_BUFFER_TYPE_DRM, al_flags = 0, al_kind = Allocator_drm,
     al_ctx = Some (Ctx_drm \<lparr>cx_alignment = 4096, cx_device = 3, cx_flags = 0\<rparr>)\<rparr>"

definition drm_got :: "mpp_ret \<times> allocator_impl option \<times> bool \<times> os_state" where
  "drm_got = mpp_allocator_get usual_env True MPP_BUFFER_TYPE_DRM 0 (fresh_state two_buffers)"

definition drm_taken :: "(buf_info list \<times> kernel) option" where
  "drm_taken = acquire (allocator_op 0 ALLOC_API_ALLOC a_drm) (allocator_op 0 ALLOC_API_MMAP a_drm)
     [(100, True), (8192, False)] (os_kernel (snd (snd (snd drm_got))))"

lemma drm_got: "fst drm_got = MPP_OK \<and> fst (snd drm_got) = Some a_drm"
  by code_simp

lemma drm_taken: "map_option (map bi_fd \<circ> fst) drm_taken = Some [5, 6]"
  by code_simp

lemma buffers_balance_witness:
  "\<exists>bs k k'. drm_taken = Some (bs, k) \<and> map bi_fd bs = [5, 6] \<and> map bi_size bs = [100, 8192] \<and>
     give_back (allocator_op 0 ALLOC_API_FREE a_drm) (rev bs) k = Some k' \<and>
     k_fds (snd (mpp_allocator_put (Some (Some a_drm)) k')) = [0 \<mapsto> 0]"
proof -
  obtain b s' where g: "mpp_allocator_get usual_env True MPP_BUFFER_TYPE_DRM 0 (fresh_state two_buffers) = (MPP_OK, Some a_drm, b, s')"
    using drm_got by (cases drm_got) (auto simp: drm_got_def)
  obtain bs k where t: "drm_taken = Some (bs, k)" "map bi_fd bs = [5, 6]" using drm_taken by auto
  have "k_inv (os_kernel (fresh_state two_buffers))" by (simp add: k_inv_def fresh_state_def)
  moreover have "acquire (allocator_op 0 ALLOC_API_ALLOC a_drm) (allocator_op 0 ALLOC_API_MMAP a_drm)
     [(100, True), (8192, False)] (os_kernel s') = Some (bs, k)" using t(1) g by (simp add: drm_taken_def drm_got_def)
  moreover have "\<forall>c. al_ctx a_drm \<noteq> Some (Ctx_dma_heap c)" by (simp add: a_drm_def)
  moreover have "k_fds (os_kernel (fresh_state two_buffers)) = [0 \<mapsto> 0]" by (simp add: fresh_state_def)
  moreover have "list_all (\<lambda>(n :: u64, _). unat n + 4096 \<le> 2 ^ 32) [(100, True), (8192, False)]" by simp
  ultimately show ?thesis using buffers_balance [OF g _ _ _ mset_rev, of "[(100, True), (8192, False)]" 0 bs k] t
    by fastforce
qed

text \<open>
  A DMA heap is open once for all the allocators that use it, and the first one that is put
  closes it, while its descriptor stays in the table of open heaps. An allocator got after that
  is given the closed descriptor, without a call that opens, and every allocation with it fails.
\<close>

theorem dma_heap_reopen_stale:
  assumes got: "mpp_allocator_get env True type flags s = (MPP_OK, Some p, b, s1)" and inv: "k_inv (os_kernel s)"
    and heap: "al_ctx p = Some (Ctx_dma_heap c)" and table: "\<forall>l. os_heap_fds s = Some l \<longrightarrow> length l = DMA_HEAP_TYPE_NB"
    and put: "mpp_allocator_put (Some (Some p)) (os_kernel s1) = (r, k)"
    and again: "mpp_allocator_get env True type flags (s1\<lparr>os_kernel := k\<rparr>) = (MPP_OK, Some q, b', s2)"
  shows "al_ctx q = al_ctx p \<and> k_opened (os_kernel s2) = k_opened k \<and>
    allocator_op st ALLOC_API_ALLOC q i (os_kernel s2) = Some (Ret_int (-1), i, os_kernel s2)"
proof -
  let ?cfg = "\<lparr>ac_alignment = SZ_4K, ac_flags = flags\<rparr>" and ?open = "os_allocator_dma_heap_open (oe_heap_flags env) True"
  obtain ok k1 kind where o1: "snd (os_allocator_get (oe_have_drm env) (oe_valid env) type) = Some kind"
    "k_malloc (os_kernel s) = (ok, k1)" "os_open env kind ?cfg (s\<lparr>os_kernel := k1\<rparr>) = (MPP_OK, al_ctx p, s1)"
    using got_opened [OF got] by blast
  obtain ok2 k2 where o2: "k_malloc k = (ok2, k2)" "os_open env kind ?cfg (s1\<lparr>os_kernel := k2\<rparr>) = (MPP_OK, al_ctx q, s2)"
    using got_opened [OF again] o1(1) by auto
  have kind: "kind = Allocator_dma_heap"
    using o1(3) heap by (cases kind) (auto simp: os_open_def split: prod.splits)
  obtain fds k3 where d1: "?open ?cfg (os_heap_fds s) k1 = (MPP_OK, Some c, fds, k3)" "s1 = s\<lparr>os_kernel := k3, os_heap_fds := fds\<rparr>"
    using o1(3) heap kind by (auto simp: os_open_def split: prod.splits)
  have "k_inv k1" using inv k_malloc_inv [OF o1(2)] by auto
  from heap_in_table [OF d1(1) this table] obtain l where
    l: "fds = Some l" "l ! heap_type (oe_heap_flags env) flags = cx_device c" "0 < cx_device c"
    and c: "c = \<lparr>cx_alignment = ucast SZ_4K, cx_device = cx_device c, cx_flags = flags\<rparr>" by auto
  have k: "k_fds k (cx_device c) = None" using put heap
    by (auto simp: mpp_allocator_put_def os_close_def os_allocator_dma_heap_close_def close_device_def k_close_def split: if_splits)
  obtain c' fds' k4 where d2: "?open ?cfg (Some l) k2 = (MPP_OK, c', fds', k4)" "al_ctx q = map_option Ctx_dma_heap c'"
    "os_kernel s2 = k4" using o2(2) kind d1(2) l(1) by (auto simp: os_open_def split: prod.splits)
  have r: "c' = Some c" "k_opened k4 = k_opened k2" "k_fds k4 = k_fds k2"
    using heap_reopened [OF d2(1)] l(2,3) c by simp_all
  then have "k_fds k4 (cx_device c) = None" using k k_malloc_inv [OF o2(1)] by auto
  moreover have "allocator_op st ALLOC_API_ALLOC q = os_allocator_dma_heap_alloc (Some c)"
    using allocator_op_call [of q "Ctx_dma_heap c"] d2(2) r(1) by (simp add: os_call_def fun_eq_iff)
  ultimately show ?thesis using closed_alloc d2 r heap k_malloc_inv [OF o2(1)] by auto
qed


definition heap_env :: os_env where
  "heap_env = usual_env\<lparr>oe_valid := (\<lambda>t. t = MPP_BUFFER_TYPE_DMA_HEAP)\<rparr>"

definition a_heap :: allocator_impl where
  "a_heap = \<lparr>al_type = MPP_BUFFER_TYPE_DRM, al_flags = 0, al_kind = Allocator_dma_heap,
     al_ctx = Some (Ctx_dma_heap \<lparr>cx_alignment = 4096, cx_device = 3, cx_flags = 0\<rparr>)\<rparr>"

definition heap_got :: "mpp_ret \<times> allocator_impl option \<times> bool \<times> os_state" where
  "heap_got = mpp_allocator_get heap_env True MPP_BUFFER_TYPE_DRM 0 (fresh_state [granted 3 0, granted 3 0])"

definition heap_put :: "mpp_ret \<times> kernel" where
  "heap_put = mpp_allocator_put (Some (Some a_heap)) (os_kernel (snd (snd (snd heap_got))))"

definition heap_again :: "mpp_ret \<times> allocator_impl option \<times> bool \<times> os_state" where
  "heap_again = mpp_allocator_get heap_env True MPP_BUFFER_TYPE_DRM 0 ((snd (snd (snd heap_got)))\<lparr>os_kernel := snd heap_put\<rparr>)"

lemma heap_got: "fst heap_got = MPP_OK \<and> fst (snd heap_got) = Some a_heap"
  "fst heap_again = MPP_OK \<and> fst (snd heap_again) = Some a_heap"
  by code_simp+

lemma dma_heap_reopen_stale_witness:
  "allocator_op 0 ALLOC_API_ALLOC a_heap \<lparr>bi_size = 100, bi_ptr = 0, bi_hnd = 0, bi_fd = -1\<rparr> (os_kernel (snd (snd (snd heap_again)))) =
     Some (Ret_int (-1), \<lparr>bi_size = 100, bi_ptr = 0, bi_hnd = 0, bi_fd = -1\<rparr>, os_kernel (snd (snd (snd heap_again))))"
proof -
  obtain b s1 where g: "mpp_allocator_get heap_env True MPP_BUFFER_TYPE_DRM 0 (fresh_state [granted 3 0, granted 3 0]) =
      (MPP_OK, Some a_heap, b, s1)"
    using heap_got(1) by (cases heap_got) (auto simp: heap_got_def)
  obtain r k where p: "mpp_allocator_put (Some (Some a_heap)) (os_kernel s1) = (r, k)" by fastforce
  have k: "heap_put = (r, k)" using g p by (simp add: heap_put_def heap_got_def)
  obtain b' s2 where a: "heap_again = (MPP_OK, Some a_heap, b', s2)" using heap_got(2) by (metis prod.collapse)
  then have a2: "mpp_allocator_get heap_env True MPP_BUFFER_TYPE_DRM 0 (s1\<lparr>os_kernel := k\<rparr>) = (MPP_OK, Some a_heap, b', s2)"
    using g by (simp add: heap_again_def heap_got_def k)
  have inv: "k_inv (os_kernel (fresh_state [granted 3 0, granted 3 0]))" by (simp add: k_inv_def fresh_state_def)
  have c: "al_ctx a_heap = Some (Ctx_dma_heap \<lparr>cx_alignment = 4096, cx_device = 3, cx_flags = 0\<rparr>)" by (simp add: a_heap_def)
  have t: "\<forall>l. os_heap_fds (fresh_state [granted 3 0, granted 3 0]) = Some l \<longrightarrow> length l = DMA_HEAP_TYPE_NB"
    by (simp add: fresh_state_def)
  from dma_heap_reopen_stale [OF g inv c t p a2] show ?thesis unfolding a snd_conv by blast
qed

section \<open>What goes wrong\<close>

text \<open>
  When the handle of a DRM buffer cannot be exported, the caller gets the error of the export, and
  the handle is not given back.
\<close>

lemma drm_failed_export_leaks:
  assumes c: "drm_ioctl (cx_device p) (DRM_MODE_CREATE_DUMB (unat (dumb_width (bi_size i) (ucast (cx_alignment p))))) k = (a, k1)"
    and "an_ret a = 0"
    and "drm_ioctl (cx_device p) (DRM_PRIME_HANDLE_TO_FD (word_of_int (an_val a))) k1 = (e, k2)" "an_ret e < 0"
  shows "os_allocator_drm_alloc (Some p) i k =
    Some (Ret_int (an_ret e), i\<lparr>bi_hnd := set_low (bi_hnd i) (word_of_int (an_val a))\<rparr>, k2)"
  using assms by (simp add: os_allocator_drm_alloc_def drm_alloc_def drm_handle_to_fd_def ret_of_int_def)

text \<open>A buffer of four gigabytes and a page has a width of one page.\<close>

lemma dumb_width_wraps: "dumb_width (2 ^ 32 + 4096) 4096 = 4096"
  by (simp add: dumb_width_def)

text \<open>A second free of a buffer of a DMA heap closes what has got the same descriptor since then.\<close>

lemma dma_heap_free_twice:
  assumes "os_allocator_dma_heap_free (Some p) b k = Some (ret, b', k')" "k_fds k'' (bi_fd b) \<noteq> None"
  shows "\<exists>b2 k2. os_allocator_dma_heap_free (Some p) b' k'' = Some (MPP_OK, b2, k2) \<and> k_fds k2 (bi_fd b) = None"
  using assms by (auto simp: os_allocator_dma_heap_free_def unmap_def k_munmap_def k_close_def split: if_splits)

text \<open>On Android a normal buffer is one of a heap of the kernel.\<close>

lemma android_normal_is_ion:
  "android_allocator_get have_drm valid MPP_BUFFER_TYPE_NORMAL = android_allocator_get have_drm valid MPP_BUFFER_TYPE_ION"
  by (simp add: android_allocator_get_def)


end
