(* ===== verification/Rtsp_Parse.thy ===== *)
theory Rtsp_Parse
  imports C_Library
begin

text \<open>
  The parsers of the RTSP server (\<open>ParseRequestString\<close> and \<open>ParseTransportHeader\<close> of
  \<open>mpp_rtsp_server.cpp\<close>). A request is in a buffer \<open>mem\<close> of characters; a read outside it is
  \<^const>\<open>None\<close>. Positions are \<open>unsigned\<close>, and subtractions wrap around at 32 bits; no buffer has as
  many characters, so that a position below zero is always outside.
\<close>

section \<open>Buffers\<close>

definition rd :: "string \<Rightarrow> nat \<Rightarrow> char option" where
  "rd mem i = (if i < length mem then Some (mem ! i) else None)"

definition wr :: "nat \<Rightarrow> char \<Rightarrow> string \<Rightarrow> string option" where
  "wr i c buf = (if i < length buf then Some (buf[i := c]) else None)"

definition minus32 :: "nat \<Rightarrow> nat \<Rightarrow> nat" where
  "minus32 a b = (a + 2 ^ 32 - b) mod 2 ^ 32"

text \<open>The C string at the start of a buffer.\<close>

definition cstr :: "string \<Rightarrow> string option" where
  "cstr mem = (if CHR 0x00 \<in> set mem then Some (takeWhile (\<lambda>c. c \<noteq> CHR 0x00) mem) else None)"

definition PARAM_STRING_MAX :: nat where "PARAM_STRING_MAX = 100"
definition RTSP_RECV_SIZE :: nat where "RTSP_RECV_SIZE = 1024"

definition blank :: "char \<Rightarrow> bool" where "blank c \<longleftrightarrow> c = CHR '' '' \<or> c = CHR 0x09"
definition url_end :: "char \<Rightarrow> bool" where "url_end c \<longleftrightarrow> c = CHR ''/'' \<or> c = CHR '' ''"

text \<open>Comparing characters one after the other, up to the first that differs.\<close>

fun match_at :: "string \<Rightarrow> (char \<Rightarrow> bool) list \<Rightarrow> nat \<Rightarrow> bool option" where
  "match_at mem [] j = Some True"
| "match_at mem (P # Ps) j = do { c \<leftarrow> rd mem j; if P c then match_at mem Ps (j + 1) else Some False }"

function search :: "string \<Rightarrow> (char \<Rightarrow> bool) list \<Rightarrow> nat \<Rightarrow> nat \<Rightarrow> nat option option" where
  "search mem Ps bound j =
     (if j < bound then do {
        m \<leftarrow> match_at mem Ps j;
        if m then Some (Some j) else search mem Ps bound (j + 1)
      }
      else Some None)"
  by pat_completeness auto

termination
  by (relation "measure (\<lambda>(mem, Ps, bound, j). bound - j)") auto

declare search.simps [simp del]

section \<open>The request line\<close>

text \<open>The results, each a buffer of 100 characters.\<close>

record request =
  rq_cmd :: string
  rq_pre :: string
  rq_suffix :: string
  rq_cseq :: string

text \<open>Whether there is a blank behind the name, where the loop ends, and the name.\<close>

function cmd_name :: "string \<Rightarrow> nat \<Rightarrow> nat \<Rightarrow> string \<Rightarrow> (bool \<times> nat \<times> string) option" where
  "cmd_name mem len i buf =
     (if i < PARAM_STRING_MAX - 1 \<and> i < len then do {
        c \<leftarrow> rd mem i;
        if blank c then Some (True, i, buf)
        else do { buf \<leftarrow> wr i c buf; cmd_name mem len (i + 1) buf }
      }
      else Some (False, i, buf))"
  by pat_completeness auto

termination
  by (relation "measure (\<lambda>(mem, len, i, buf). len - i)") auto

declare cmd_name.simps [simp del]

definition rtsp_scheme :: "(char \<Rightarrow> bool) list" where
  "rtsp_scheme = [\<lambda>c. c \<in> set ''rR'', \<lambda>c. c \<in> set ''tT'', \<lambda>c. c \<in> set ''sS'', \<lambda>c. c \<in> set ''pP'',
     \<lambda>c. c = CHR '':'', \<lambda>c. c = CHR ''/'']"

text \<open>\<open>while (j < reqStrSize && ...) ++j\<close>.\<close>

function skip :: "(char \<Rightarrow> bool) \<Rightarrow> string \<Rightarrow> nat \<Rightarrow> nat \<Rightarrow> nat option" where
  "skip P mem len j =
     (if j < len then do { c \<leftarrow> rd mem j; if P c then skip P mem len (j + 1) else Some j } else Some j)"
  by pat_completeness auto

termination
  by (relation "measure (\<lambda>(P, mem, len, j). len - j)") auto

declare skip.simps [simp del]

text \<open>
  Past the scheme and the host; without a scheme the position stays. The blanks are skipped by a
  loop whose result is not used.
\<close>

definition skip_scheme :: "string \<Rightarrow> nat \<Rightarrow> nat \<Rightarrow> nat option" where
  "skip_scheme mem len i = do {
     _ \<leftarrow> skip blank mem len (i + 1);
     found \<leftarrow> search mem rtsp_scheme (minus32 len 8) (i + 1);
     (case found of
        None \<Rightarrow> Some i
      | Some j \<Rightarrow> do {
          c \<leftarrow> rd mem (j + 6);
          if c = CHR ''/'' then skip (\<lambda>c. \<not> url_end c) mem len (j + 7) else Some (j + 5)
        })
   }"

text \<open>\<open>while (--k >= i && reqStr[k] == ' ')\<close>; below zero the position is a huge one.\<close>

fun back_blanks :: "string \<Rightarrow> nat \<Rightarrow> nat \<Rightarrow> nat option" where
  "back_blanks mem i 0 = None"
| "back_blanks mem i (Suc k) =
     (if i \<le> k then do { c \<leftarrow> rd mem k; if c = CHR '' '' then back_blanks mem i k else Some k } else Some k)"

text \<open>\<open>while (k1 > i && reqStr[k1] != '/' && reqStr[k1] != ' ') --k1\<close>.\<close>

fun back_name :: "string \<Rightarrow> nat \<Rightarrow> nat \<Rightarrow> nat option" where
  "back_name mem i 0 = Some 0"
| "back_name mem i (Suc k) =
     (if i < Suc k then do { c \<leftarrow> rd mem (Suc k); if url_end c then Some (Suc k) else back_name mem i k } else Some (Suc k))"

text \<open>The characters from \<open>k2\<close> to \<open>k\<close>, and a NUL behind them.\<close>

function copy_name :: "string \<Rightarrow> nat \<Rightarrow> nat \<Rightarrow> nat \<Rightarrow> string \<Rightarrow> string option" where
  "copy_name mem k2 k n buf =
     (if k2 \<le> k then do { c \<leftarrow> rd mem k2; buf \<leftarrow> wr n c buf; copy_name mem (k2 + 1) k (n + 1) buf }
      else wr n (CHR 0x00) buf)"
  by pat_completeness auto

termination
  by (relation "measure (\<lambda>(mem, k2, k, n, buf). k + 1 - k2)") auto

declare copy_name.simps [simp del]

definition version_word :: "(char \<Rightarrow> bool) list" where
  "version_word = map (=) ''RTSP/''"

text \<open>
  The last two names of the URL, which ends before the version; the result is whether it was
  found and had room, and the position behind it.
\<close>

definition url_names :: "string \<Rightarrow> nat \<Rightarrow> nat \<Rightarrow> request \<Rightarrow> (bool \<times> nat \<times> request) option" where
  "url_names mem len i r = do {
     found \<leftarrow> search mem version_word (minus32 len 5) (i + 1);
     (case found of
        None \<Rightarrow> Some (False, i, r)
      | Some k \<Rightarrow> do {
          k \<leftarrow> back_blanks mem i k;
          k1 \<leftarrow> back_name mem i k;
          if k - k1 + 1 > PARAM_STRING_MAX then Some (False, i, r)
          else do {
            suffix \<leftarrow> copy_name mem (k1 + 1) k 0 (rq_suffix r);
            let r = r\<lparr>rq_suffix := suffix\<rparr>;
            if k1 = 0 then None
            else do {
              let k1 = k1 - 1;
              k3 \<leftarrow> back_name mem i k1;
              if k1 - k3 + 1 > PARAM_STRING_MAX then Some (False, i, r)
              else do {
                pre \<leftarrow> copy_name mem (k3 + 1) k1 0 (rq_pre r);
                Some (True, k + 7, r\<lparr>rq_pre := pre\<rparr>)
              }
            }
          }
        })
   }"

text \<open>The rest of the line, and whether its end was reached.\<close>

function copy_line :: "string \<Rightarrow> nat \<Rightarrow> nat \<Rightarrow> nat \<Rightarrow> string \<Rightarrow> (bool \<times> string) option" where
  "copy_line mem len j n buf =
     (if n < PARAM_STRING_MAX - 1 \<and> j < len then do {
        c \<leftarrow> rd mem j;
        if c = CHR 0x0D \<or> c = CHR 0x0A then do { buf \<leftarrow> wr n (CHR 0x00) buf; Some (True, buf) }
        else do { buf \<leftarrow> wr n c buf; copy_line mem len (j + 1) (n + 1) buf }
      }
      else do { buf \<leftarrow> wr n (CHR 0x00) buf; Some (False, buf) })"
  by pat_completeness auto

termination
  by (relation "measure (\<lambda>(mem, len, j, n, buf). len - j)") auto

declare copy_line.simps [simp del]

definition cseq_word :: "(char \<Rightarrow> bool) list" where
  "cseq_word = map (=) ''CSeq:''"

definition cseq_line :: "string \<Rightarrow> nat \<Rightarrow> nat \<Rightarrow> request \<Rightarrow> (bool \<times> request) option" where
  "cseq_line mem len i r = do {
     found \<leftarrow> search mem cseq_word (minus32 len 5) i;
     (case found of
        None \<Rightarrow> Some (False, r)
      | Some j \<Rightarrow> do {
          j \<leftarrow> skip blank mem len (j + 5);
          (ok, buf) \<leftarrow> copy_line mem len j 0 (rq_cseq r);
          Some (ok, r\<lparr>rq_cseq := buf\<rparr>)
        })
   }"

definition ParseRequestString :: "string \<Rightarrow> nat \<Rightarrow> request \<Rightarrow> (bool \<times> request) option" where
  "ParseRequestString mem len r = do {
     (ok, i, cmd) \<leftarrow> cmd_name mem len 0 (rq_cmd r);
     cmd \<leftarrow> wr i (CHR 0x00) cmd;
     let r = r\<lparr>rq_cmd := cmd\<rparr>;
     if \<not> ok then Some (False, r)
     else do {
       i \<leftarrow> skip_scheme mem len i;
       (ok, i, r) \<leftarrow> url_names mem len i r;
       if \<not> ok then Some (False, r) else cseq_line mem len i r
     }
   }"

section \<open>Lemmas on searching\<close>

lemma rd_in: "i < length mem \<Longrightarrow> rd mem i = Some (mem ! i)"
  by (simp add: rd_def)

lemma match_at_total: "j + length Ps \<le> length mem \<Longrightarrow> \<exists>m. match_at mem Ps j = Some m"
  by (induction mem Ps j rule: match_at.induct) (auto simp: rd_def)

lemma match_at_word:
  "j + length w \<le> length mem \<Longrightarrow> match_at mem (map (=) w) j = Some (take (length w) (drop j mem) = w)"
proof (induction w arbitrary: j)
  case (Cons c w)
  then have "drop j mem = mem ! j # drop (j + 1) mem" by (simp add: Cons_nth_drop_Suc)
  then show ?case using Cons by (auto simp: rd_def)
qed simp

lemma match_at_true: "match_at mem Ps j = Some True \<Longrightarrow> j + length Ps \<le> length mem \<or> Ps = []"
  by (induction mem Ps j rule: match_at.induct) (auto simp: rd_def split: bind_splits if_splits)

lemma search_total:
  assumes "bound + length Ps \<le> length mem + 1" "0 < bound \<longrightarrow> Ps \<noteq> []"
  shows "\<exists>r. search mem Ps bound j = Some r \<and> (\<forall>k. r = Some k \<longrightarrow> j \<le> k \<and> k < bound \<and> match_at mem Ps k = Some True)"
  using assms
proof (induction mem Ps bound j rule: search.induct)
  case (1 mem Ps bound j)
  show ?case
  proof (cases "j < bound")
    case True
    then obtain m where m: "match_at mem Ps j = Some m" using match_at_total [of j Ps mem] 1(2) by auto
    show ?thesis
    proof (cases m)
      case False
      from 1(1) [OF True m] False 1(2,3) obtain r where "search mem Ps bound (j + 1) = Some r"
        "\<forall>k. r = Some k \<longrightarrow> j + 1 \<le> k \<and> k < bound \<and> match_at mem Ps k = Some True" by blast
      then show ?thesis using True m False by (subst search.simps) (auto simp: Suc_le_eq)
    qed (use True m in \<open>subst search.simps; simp\<close>)
  qed (simp add: search.simps)
qed

text \<open>The first place of a word.\<close>

lemma search_first:
  assumes "match_at mem Ps k = Some True" "\<forall>i. j \<le> i \<and> i < k \<longrightarrow> match_at mem Ps i = Some False" "j \<le> k" "k < bound"
  shows "search mem Ps bound j = Some (Some k)"
  using assms(2,3)
proof (induction "k - j" arbitrary: j)
  case 0
  then show ?case using assms by (subst search.simps) simp
next
  case (Suc n)
  then have "search mem Ps bound (j + 1) = Some (Some k)" by (intro Suc.hyps(1)) auto
  moreover have "match_at mem Ps j = Some False" using Suc.prems Suc.hyps(2) by simp
  ultimately show ?case using assms(4) Suc.prems Suc.hyps(2) by (subst search.simps) simp
qed

lemma skip_total:
  assumes "len \<le> length mem"
  shows "\<exists>k. skip P mem len j = Some k \<and> j \<le> k \<and> (j \<le> len \<longrightarrow> k \<le> len)"
  using assms
proof (induction P mem len j rule: skip.induct)
  case (1 P mem len j)
  show ?case
  proof (cases "j < len")
    case True
    then have r: "rd mem j = Some (mem ! j)" using 1(2) by (simp add: rd_def)
    show ?thesis
    proof (cases "P (mem ! j)")
      case P: True
      from 1(1) [OF True r P 1(2)] show ?thesis using True r P by (subst skip.simps) auto
    qed (use True r in \<open>subst skip.simps; simp\<close>)
  qed (simp add: skip.simps)
qed

lemma skip_while:
  assumes "j + n \<le> len" "len \<le> length mem" "\<forall>i < n. P (mem ! (j + i))" "j + n < len \<longrightarrow> \<not> P (mem ! (j + n))"
  shows "skip P mem len j = Some (j + n)"
  using assms
proof (induction n arbitrary: j)
  case 0
  then show ?case by (subst skip.simps) (simp add: rd_def)
next
  case (Suc n)
  have "skip P mem len (j + 1) = Some (j + 1 + n)"
    by (rule Suc.IH) (use Suc.prems in \<open>auto simp: less_Suc_eq_0_disj\<close>)
  moreover have "P (mem ! j)" using Suc.prems(3) by force
  ultimately show ?case using Suc.prems by (subst skip.simps) (simp add: rd_def)
qed


section \<open>Lemmas on copying\<close>

lemma wr_in: "n < length buf \<Longrightarrow> wr n c buf = Some (take n buf @ c # drop (n + 1) buf)"
  by (simp add: wr_def upd_conv_take_nth_drop)

lemma drop_written: "n < length xs \<Longrightarrow> n < m \<Longrightarrow> drop m (take n xs @ c # drop (n + 1) xs) = drop m xs"
  using upd_conv_take_nth_drop [of n xs c] drop_update_cancel [of n m xs c] by simp

definition cut :: "string \<Rightarrow> nat \<Rightarrow> nat \<Rightarrow> string" where
  "cut mem i j = take (j - i) (drop i mem)"

lemma cut_Suc: "i < j \<Longrightarrow> i < length mem \<Longrightarrow> cut mem i j = mem ! i # cut mem (i + 1) j"
  by (simp add: cut_def take_Cons' flip: Cons_nth_drop_Suc)

lemma cut_empty [simp]: "j \<le> i \<Longrightarrow> cut mem i j = []"
  by (simp add: cut_def)

lemma length_cut: "j \<le> length mem \<Longrightarrow> length (cut mem i j) = j - i"
  by (simp add: cut_def)

lemma copy_name_spec:
  assumes "k2 \<le> k + 1" "k < length mem" "n + (k + 1 - k2) < length buf"
  shows "copy_name mem k2 k n buf = Some (take n buf @ cut mem k2 (k + 1) @ CHR 0x00 # drop (n + (k + 1 - k2) + 1) buf)"
  using assms
proof (induction mem k2 k n buf rule: copy_name.induct)
  case (1 mem k2 k n buf)
  show ?case
  proof (cases "k2 \<le> k")
    case True
    let ?buf = "take n buf @ mem ! k2 # drop (n + 1) buf"
    have r: "rd mem k2 = Some (mem ! k2)" using True 1(3) by (simp add: rd_def)
    have w: "wr n (mem ! k2) buf = Some ?buf" using 1(4) by (intro wr_in) simp
    have len: "length ?buf = length buf" using 1(4) by simp
    have "copy_name mem (k2 + 1) k (n + 1) ?buf =
        Some (take (n + 1) ?buf @ cut mem (k2 + 1) (k + 1) @ CHR 0x00 # drop (n + 1 + (k + 1 - (k2 + 1)) + 1) ?buf)"
      by (rule 1(1) [OF True r w]) (use True 1(3,4) len in auto)
    then have "copy_name mem k2 k n buf =
        Some (take (n + 1) ?buf @ cut mem (k2 + 1) (k + 1) @ CHR 0x00 # drop (n + (k + 1 - k2) + 1) ?buf)"
      using True r w by (subst copy_name.simps) (simp add: Suc_diff_le)
    moreover have "take (n + 1) ?buf = take n buf @ [mem ! k2]" using 1(4) by simp
    moreover have "drop (n + (k + 1 - k2) + 1) ?buf = drop (n + (k + 1 - k2) + 1) buf"
      using True 1(4) by (simp add: Suc_diff_le add.commute)
    moreover have "cut mem k2 (k + 1) = mem ! k2 # cut mem (k2 + 1) (k + 1)" using True 1(3) by (intro cut_Suc) auto
    ultimately show ?thesis by simp
  next
    case False
    then show ?thesis using 1(2,4) by (subst copy_name.simps) (simp add: wr_in)
  qed
qed

lemma copy_line_spec:
  assumes "j \<le> len" "len \<le> length mem" "n < PARAM_STRING_MAX" "length buf = PARAM_STRING_MAX" "j \<le> e" "e \<le> len"
    "n + (e - j) < PARAM_STRING_MAX" "\<forall>i. j \<le> i \<and> i < e \<longrightarrow> mem ! i \<notin> {CHR 0x0D, CHR 0x0A}"
    "n + (e - j) = PARAM_STRING_MAX - 1 \<or> e = len \<or> mem ! e \<in> {CHR 0x0D, CHR 0x0A}"
  shows "copy_line mem len j n buf = Some (n + (e - j) < PARAM_STRING_MAX - 1 \<and> e < len,
    take n buf @ cut mem j e @ CHR 0x00 # drop (n + (e - j) + 1) buf)"
  using assms
proof (induction mem len j n buf rule: copy_line.induct)
  case (1 mem len j n buf)
  show ?case
  proof (cases "j = e")
    case True
    then show ?thesis using 1(2-) by (subst copy_line.simps) (auto simp: rd_def wr_in)
  next
    case False
    then have je: "j < e" using 1(6) by simp
    then have c: "n < PARAM_STRING_MAX - 1 \<and> j < len" using 1(7,8) by (auto simp: PARAM_STRING_MAX_def)
    let ?buf = "take n buf @ mem ! j # drop (n + 1) buf"
    have r: "rd mem j = Some (mem ! j)" using c 1(3) by (simp add: rd_def)
    have nl: "\<not> (mem ! j = CHR 0x0D \<or> mem ! j = CHR 0x0A)" using 1(9) je by auto
    have w: "wr n (mem ! j) buf = Some ?buf" by (rule wr_in) (use c 1(5) in \<open>simp add: PARAM_STRING_MAX_def\<close>)
    have len: "length ?buf = length buf" using c 1(5) by (simp add: PARAM_STRING_MAX_def)
    have "copy_line mem len (j + 1) (n + 1) ?buf = Some (n + 1 + (e - (j + 1)) < PARAM_STRING_MAX - 1 \<and> e < len,
        take (n + 1) ?buf @ cut mem (j + 1) e @ CHR 0x00 # drop (n + 1 + (e - (j + 1)) + 1) ?buf)"
      by (rule 1(1) [OF c r nl w]) (use c je len 1(3-) in auto)
    then have "copy_line mem len j n buf = Some (n + (e - j) < PARAM_STRING_MAX - 1 \<and> e < len,
        take (n + 1) ?buf @ cut mem (j + 1) e @ CHR 0x00 # drop (n + (e - j) + 1) ?buf)"
      using c r nl w je by (subst copy_line.simps) (simp add: Suc_diff_Suc)
    moreover have "take (n + 1) ?buf = take n buf @ [mem ! j]" using c 1(5) by (simp add: PARAM_STRING_MAX_def)
    moreover have "drop (n + (e - j) + 1) ?buf = drop (n + (e - j) + 1) buf"
      by (rule drop_written) (use je c 1(5) in \<open>auto simp: PARAM_STRING_MAX_def\<close>)
    moreover have "cut mem j e = mem ! j # cut mem (j + 1) e" using je 1(3,7) by (intro cut_Suc) auto
    ultimately show ?thesis by simp
  qed
qed

lemma cmd_name_spec:
  assumes "len \<le> length mem" "length buf = PARAM_STRING_MAX" "i \<le> e" "e \<le> len" "e < PARAM_STRING_MAX"
    "\<forall>j. i \<le> j \<and> j < e \<longrightarrow> \<not> blank (mem ! j)" "e = PARAM_STRING_MAX - 1 \<or> e = len \<or> blank (mem ! e)"
  shows "cmd_name mem len i buf =
    Some (e < PARAM_STRING_MAX - 1 \<and> e < len, e, take i buf @ cut mem i e @ drop e buf)"
  using assms
proof (induction mem len i buf rule: cmd_name.induct)
  case (1 mem len i buf)
  show ?case
  proof (cases "i = e")
    case True
    then show ?thesis using 1(2-) by (subst cmd_name.simps) (auto simp: rd_def)
  next
    case False
    then have ie: "i < e" using 1(4) by simp
    then have c: "i < PARAM_STRING_MAX - 1 \<and> i < len" using 1(5,6) by auto
    let ?buf = "take i buf @ mem ! i # drop (i + 1) buf"
    have r: "rd mem i = Some (mem ! i)" using c 1(2) by (simp add: rd_def)
    have nb: "\<not> blank (mem ! i)" using 1(7) ie by auto
    have w: "wr i (mem ! i) buf = Some ?buf" by (rule wr_in) (use c 1(3) in \<open>simp add: PARAM_STRING_MAX_def\<close>)
    have len: "length ?buf = length buf" using c 1(3) by (simp add: PARAM_STRING_MAX_def)
    have "cmd_name mem len (i + 1) ?buf =
        Some (e < PARAM_STRING_MAX - 1 \<and> e < len, e, take (i + 1) ?buf @ cut mem (i + 1) e @ drop e ?buf)"
      by (rule 1(1) [OF c r nb w]) (use c ie len 1(2-) in auto)
    moreover have "take (i + 1) ?buf = take i buf @ [mem ! i]" using c 1(3) by (simp add: PARAM_STRING_MAX_def)
    moreover have "drop e ?buf = drop e buf"
      by (rule drop_written) (use ie c 1(3) in \<open>auto simp: PARAM_STRING_MAX_def\<close>)
    moreover have "cut mem i e = mem ! i # cut mem (i + 1) e" using ie 1(2,5) by (intro cut_Suc) auto
    ultimately show ?thesis using c r nb w by (subst cmd_name.simps) simp
  qed
qed

lemma back_blanks_total:
  "1 \<le> i \<Longrightarrow> i \<le> k \<Longrightarrow> k \<le> length mem \<Longrightarrow> \<exists>k'. back_blanks mem i k = Some k' \<and> i \<le> k' + 1 \<and> k' < k"
proof (induction mem i k rule: back_blanks.induct)
  case (2 mem i k)
  then show ?case by (cases "i \<le> k"; cases "mem ! k = CHR '' ''") (force simp: rd_def)+
qed simp

lemma back_name_total: "k < length mem \<Longrightarrow> \<exists>k'. back_name mem i k = Some k' \<and> k' \<le> k \<and> (k' = k \<or> i \<le> k')"
proof (induction mem i k rule: back_name.induct)
  case (2 mem i k)
  then show ?case by (cases "i < Suc k"; cases "url_end (mem ! Suc k)") (force simp: rd_def)+
qed simp


section \<open>Requests never leave the buffers\<close>

definition buffers_ok :: "request \<Rightarrow> bool" where
  "buffers_ok r \<longleftrightarrow> length (rq_cmd r) = PARAM_STRING_MAX \<and> length (rq_pre r) = PARAM_STRING_MAX \<and>
     length (rq_suffix r) = PARAM_STRING_MAX \<and> length (rq_cseq r) = PARAM_STRING_MAX"

lemma first_stop: "(i :: nat) \<le> m \<Longrightarrow> \<exists>e. i \<le> e \<and> e \<le> m \<and> (\<forall>j. i \<le> j \<and> j < e \<longrightarrow> \<not> P j) \<and> (e = m \<or> P e)"
proof (induction "m - i" arbitrary: i)
  case (Suc n)
  then have "n = m - (i + 1)" "i + 1 \<le> m" by auto
  from Suc.hyps(1) [OF this] obtain e where "i + 1 \<le> e" "e \<le> m" "\<forall>j. i + 1 \<le> j \<and> j < e \<longrightarrow> \<not> P j" "e = m \<or> P e"
    by blast
  note e = this
  show ?case
  proof (cases "P i")
    case True
    then show ?thesis using Suc.prems by (intro exI [of _ i]) auto
  next
    case False
    have "\<not> P j" if "i \<le> j" "j < e" for j using that False e by (cases "j = i") auto
    then show ?thesis using e by (intro exI [of _ e]) auto
  qed
qed auto

lemma minus32_le: "b \<le> a \<Longrightarrow> a < 2 ^ 32 \<Longrightarrow> minus32 a b = a - b"
  using mod_add_self2 [of "a - b" "2 ^ 32"] by (simp add: minus32_def)

lemma word_lengths [simp]: "length rtsp_scheme = 6" "length version_word = 5" "length cseq_word = 5"
  "rtsp_scheme \<noteq> []" "version_word \<noteq> []" "cseq_word \<noteq> []"
  by (simp_all add: rtsp_scheme_def version_word_def cseq_word_def)

lemma search_in:
  assumes "bound + length Ps \<le> length mem + 1" "Ps \<noteq> []"
  obtains r where "search mem Ps bound j = Some r" "\<forall>k. r = Some k \<longrightarrow> j \<le> k \<and> k < bound"
  using search_total [OF assms(1), of j] assms(2) by blast

lemma skip_scheme_total:
  assumes "8 \<le> len" "len \<le> length mem" "length mem < 2 ^ 32"
  shows "\<exists>j. skip_scheme mem len i = Some j \<and> i \<le> j"
proof -
  obtain a where a: "skip blank mem len (i + 1) = Some a" using skip_total [OF assms(2)] by blast
  have m: "minus32 len 8 = len - 8" using assms by (intro minus32_le) auto
  obtain r where r: "search mem rtsp_scheme (len - 8) (i + 1) = Some r" "\<forall>k. r = Some k \<longrightarrow> i + 1 \<le> k \<and> k < len - 8"
    by (rule search_in [of "len - 8" rtsp_scheme mem "i + 1"]) (use assms in auto)
  show ?thesis
  proof (cases r)
    case None
    then show ?thesis using a r m by (simp add: skip_scheme_def)
  next
    case (Some j)
    then have j: "i + 1 \<le> j" "j < len - 8" using r(2) by auto
    obtain b where "skip (\<lambda>c. \<not> url_end c) mem len (j + 7) = Some b" "j + 7 \<le> b" using skip_total [OF assms(2)] by blast
    then show ?thesis using a r(1) m j Some assms by (simp add: skip_scheme_def rd_def)
  qed
qed

lemma url_names_total:
  assumes "5 \<le> len" "len \<le> length mem" "length mem < 2 ^ 32" "2 \<le> i" "buffers_ok r"
  shows "\<exists>ok j r'. url_names mem len i r = Some (ok, j, r') \<and> buffers_ok r' \<and> rq_cmd r' = rq_cmd r \<and>
    (ok \<longrightarrow> CHR 0x00 \<in> set (rq_pre r') \<and> CHR 0x00 \<in> set (rq_suffix r'))"
proof -
  have m: "minus32 len 5 = len - 5" using assms by (intro minus32_le) auto
  obtain f where f: "search mem version_word (len - 5) (i + 1) = Some f" "\<forall>k. f = Some k \<longrightarrow> i + 1 \<le> k \<and> k < len - 5"
    by (rule search_in [of "len - 5" version_word mem "i + 1"]) (use assms(1,2) in auto)
  show ?thesis
  proof (cases f)
    case None
    then show ?thesis using f m assms(5) by (auto simp: url_names_def)
  next
    case (Some k0)
    then have k0: "i + 1 \<le> k0" "k0 < len - 5" using f(2) by auto
    have kl: "k0 \<le> length mem" "i \<le> k0" "1 \<le> i" using k0 assms by linarith+
    obtain k where k: "back_blanks mem i k0 = Some k" "i \<le> k + 1" "k < k0"
      using back_blanks_total [OF kl(3,2,1)] by blast
    have kl2: "k < length mem" using k(3) kl by linarith
    obtain k1 where k1: "back_name mem i k = Some k1" "k1 \<le> k" "k1 = k \<or> i \<le> k1"
      using back_name_total [OF kl2] by blast
    have kl3: "k1 - 1 < length mem" using k1(2) kl2 by linarith
    have pos: "k1 \<noteq> 0" using k1(3) k(2) assms(4) by auto
    show ?thesis
    proof (cases "k - k1 + 1 > PARAM_STRING_MAX")
      case True
      then show ?thesis using f(1) Some m k(1) k1(1) assms(5) by (auto simp: url_names_def)
    next
      case False
      obtain s where s: "copy_name mem (k1 + 1) k 0 (rq_suffix r) = Some s" "length s = PARAM_STRING_MAX" "CHR 0x00 \<in> set s"
        using copy_name_spec [of "k1 + 1" k mem 0 "rq_suffix r"] False k1(2) kl2 assms(5)
        by (auto simp: buffers_ok_def length_cut)
      obtain k3 where k3: "back_name mem i (k1 - 1) = Some k3" "k3 \<le> k1 - 1"
        using back_name_total [OF kl3] by blast
      show ?thesis
      proof (cases "k1 - 1 - k3 + 1 > PARAM_STRING_MAX")
        case True
        then show ?thesis using f(1) Some m k(1) k1(1) False s pos k3(1) assms(5) by (auto simp: url_names_def Let_def buffers_ok_def)
      next
        case F2: False
        obtain q where q: "copy_name mem (k3 + 1) (k1 - 1) 0 (rq_pre r) = Some q" "length q = PARAM_STRING_MAX" "CHR 0x00 \<in> set q"
          using copy_name_spec [of "k3 + 1" "k1 - 1" mem 0 "rq_pre r"] F2 k3(2) k1(2) kl3 assms(5)
          by (auto simp: buffers_ok_def length_cut)
        then show ?thesis using f(1) Some m k(1) k1(1) False s pos k3(1) F2 assms(5)
          by (auto simp: url_names_def Let_def buffers_ok_def)
      qed
    qed
  qed
qed

lemma cseq_line_total:
  assumes "5 \<le> len" "len \<le> length mem" "length mem < 2 ^ 32" "buffers_ok r"
  shows "\<exists>ok r'. cseq_line mem len i r = Some (ok, r') \<and> buffers_ok r' \<and> r' = r\<lparr>rq_cseq := rq_cseq r'\<rparr> \<and>
    (ok \<longrightarrow> CHR 0x00 \<in> set (rq_cseq r'))"
proof -
  have m: "minus32 len 5 = len - 5" using assms by (intro minus32_le) auto
  obtain f where f: "search mem cseq_word (len - 5) i = Some f" "\<forall>k. f = Some k \<longrightarrow> k < len - 5"
    by (rule search_in [of "len - 5" cseq_word mem i]) (use assms(1,2) in auto)
  show ?thesis
  proof (cases f)
    case None
    then show ?thesis using f m assms(4) by (auto simp: cseq_line_def)
  next
    case (Some j)
    obtain a where a: "skip blank mem len (j + 5) = Some a" "a \<le> len"
      using skip_total [OF assms(2), of blank "j + 5"] f(2) Some by auto
    obtain e where e: "a \<le> e" "e \<le> min len (a + (PARAM_STRING_MAX - 1))"
      "\<forall>x. a \<le> x \<and> x < e \<longrightarrow> mem ! x \<notin> {CHR 0x0D, CHR 0x0A}"
      "e = min len (a + (PARAM_STRING_MAX - 1)) \<or> mem ! e \<in> {CHR 0x0D, CHR 0x0A}"
      using first_stop [of a "min len (a + (PARAM_STRING_MAX - 1))" "\<lambda>x. mem ! x \<in> {CHR 0x0D, CHR 0x0A}"] a(2) by auto
    have "copy_line mem len a 0 (rq_cseq r) = Some (0 + (e - a) < PARAM_STRING_MAX - 1 \<and> e < len,
        take 0 (rq_cseq r) @ cut mem a e @ CHR 0x00 # drop (0 + (e - a) + 1) (rq_cseq r))"
      by (rule copy_line_spec)
        (use a(2) e assms in \<open>auto simp: buffers_ok_def PARAM_STRING_MAX_def min_def split: if_splits\<close>)
    then show ?thesis using f(1) m Some a e assms
      by (auto simp: cseq_line_def buffers_ok_def length_cut PARAM_STRING_MAX_def)
  qed
qed

lemma cmd_name_run:
  assumes "len \<le> length mem" "length buf = PARAM_STRING_MAX"
  shows "\<exists>ok e. cmd_name mem len 0 buf = Some (ok, e, cut mem 0 e @ drop e buf) \<and> e \<le> len \<and> e < PARAM_STRING_MAX \<and>
    (\<forall>j < e. \<not> blank (mem ! j)) \<and> (ok \<longrightarrow> e < len \<and> blank (mem ! e))"
proof -
  obtain e where e: "e \<le> min len (PARAM_STRING_MAX - 1)" "\<forall>x. x < e \<longrightarrow> \<not> blank (mem ! x)"
    "e = min len (PARAM_STRING_MAX - 1) \<or> blank (mem ! e)"
    using first_stop [of 0 "min len (PARAM_STRING_MAX - 1)" "\<lambda>x. blank (mem ! x)"] by auto
  have "cmd_name mem len 0 buf = Some (e < PARAM_STRING_MAX - 1 \<and> e < len, e, take 0 buf @ cut mem 0 e @ drop e buf)"
    by (rule cmd_name_spec) (use assms e in \<open>auto simp: PARAM_STRING_MAX_def min_def split: if_splits\<close>)
  then show ?thesis using e by (auto simp: PARAM_STRING_MAX_def min_def split: if_splits)
qed


lemma url_names_cmd: "url_names mem len i r = Some (ok, j, r') \<Longrightarrow> rq_cmd r' = rq_cmd r"
  by (auto simp: url_names_def Let_def split: bind_splits option.splits if_splits)

lemma cseq_line_cmd: "cseq_line mem len i r = Some (ok, r') \<Longrightarrow> rq_cmd r' = rq_cmd r"
  by (auto simp: cseq_line_def split: bind_splits option.splits if_splits)

text \<open>The command is always the beginning of the request.\<close>

lemma parse_cmd:
  assumes "ParseRequestString mem len r = Some (ok, r')" "len \<le> length mem" "length (rq_cmd r) = PARAM_STRING_MAX"
  shows "\<exists>e \<le> len. rq_cmd r' = cut mem 0 e @ CHR 0x00 # drop (e + 1) (rq_cmd r)"
proof -
  obtain ok e where c: "cmd_name mem len 0 (rq_cmd r) = Some (ok, e, cut mem 0 e @ drop e (rq_cmd r))" "e \<le> len" "e < PARAM_STRING_MAX"
    using cmd_name_run [OF assms(2,3)] by blast
  have "length (cut mem 0 e) = e" using c(2) assms(2) by (simp add: length_cut)
  then have "wr e (CHR 0x00) (cut mem 0 e @ drop e (rq_cmd r)) = Some (cut mem 0 e @ CHR 0x00 # drop (e + 1) (rq_cmd r))"
    using c(3) assms(3) by (subst wr_in) auto
  then show ?thesis using assms(1) c
    by (intro exI [of _ e]) (auto simp: ParseRequestString_def Let_def split: bind_splits if_splits dest!: url_names_cmd cseq_line_cmd)
qed

section \<open>Properties of requests\<close>

text \<open>
  C16: a request of at least eight characters whose command has two or more is parsed without a
  read outside the buffer it was received in or a write outside the buffers for its parts; the
  command is always terminated, and after a success every part is.
\<close>

theorem parse_request_safe:
  assumes "8 \<le> len" "len \<le> length mem" "length mem < 2 ^ 32" "\<not> blank (mem ! 0)" "\<not> blank (mem ! 1)" "buffers_ok r"
  shows "\<exists>ok r'. ParseRequestString mem len r = Some (ok, r') \<and> buffers_ok r' \<and> CHR 0x00 \<in> set (rq_cmd r') \<and>
    (ok \<longrightarrow> CHR 0x00 \<in> set (rq_pre r') \<and> CHR 0x00 \<in> set (rq_suffix r') \<and> CHR 0x00 \<in> set (rq_cseq r'))"
proof -
  have b: "length (rq_cmd r) = PARAM_STRING_MAX" using assms(6) by (simp add: buffers_ok_def)
  obtain ok e where c: "cmd_name mem len 0 (rq_cmd r) = Some (ok, e, cut mem 0 e @ drop e (rq_cmd r))" "e \<le> len" "e < PARAM_STRING_MAX"
    "ok \<longrightarrow> e < len \<and> blank (mem ! e)"
    using cmd_name_run [OF assms(2) b] by blast
  let ?cmd = "cut mem 0 e @ CHR 0x00 # drop (e + 1) (rq_cmd r)"
  define r1 where "r1 = r\<lparr>rq_cmd := ?cmd\<rparr>"
  have l: "length (cut mem 0 e) = e" using c(2) assms(2) by (simp add: length_cut)
  have w: "wr e (CHR 0x00) (cut mem 0 e @ drop e (rq_cmd r)) = Some ?cmd"
    using l c(3) b by (subst wr_in) auto
  have r1: "buffers_ok r1" "CHR 0x00 \<in> set (rq_cmd r1)" using l c(3) assms(6) by (auto simp: r1_def buffers_ok_def)
  show ?thesis
  proof (cases ok)
    case False
    then show ?thesis using c(1) w r1 by (auto simp: ParseRequestString_def r1_def)
  next
    case True
    have "e \<noteq> 0" "e \<noteq> 1" using c(4) True assms(4,5) by (metis One_nat_def)+
    then have e: "2 \<le> e" by simp
    obtain j where j: "skip_scheme mem len e = Some j" "e \<le> j" using skip_scheme_total [OF assms(1-3)] by blast
    have "5 \<le> len" "2 \<le> j" using assms(1) e j(2) by auto
    from url_names_total [OF this(1) assms(2,3) this(2) r1(1)] obtain ok2 k r2 where
      u: "url_names mem len j r1 = Some (ok2, k, r2)" "buffers_ok r2" "rq_cmd r2 = rq_cmd r1"
      "ok2 \<longrightarrow> CHR 0x00 \<in> set (rq_pre r2) \<and> CHR 0x00 \<in> set (rq_suffix r2)" by blast
    show ?thesis
    proof (cases ok2)
      case False
      then show ?thesis using c(1) w True j(1) u r1(2) by (auto simp: ParseRequestString_def r1_def)
    next
      case ok2: True
      from cseq_line_total [OF \<open>5 \<le> len\<close> assms(2,3) u(2)] obtain ok3 r3 where
        q: "cseq_line mem len k r2 = Some (ok3, r3)" "buffers_ok r3" "r3 = r2\<lparr>rq_cseq := rq_cseq r3\<rparr>"
        "ok3 \<longrightarrow> CHR 0x00 \<in> set (rq_cseq r3)" by blast
      from arg_cong [OF q(3), of rq_cmd] arg_cong [OF q(3), of rq_pre] arg_cong [OF q(3), of rq_suffix] u r1(2) ok2
      have f: "CHR 0x00 \<in> set (rq_cmd r3)" "CHR 0x00 \<in> set (rq_pre r3)" "CHR 0x00 \<in> set (rq_suffix r3)" by simp_all
      have "ParseRequestString mem len r = Some (ok3, r3)"
        using c(1) w True j(1) u(1) ok2 q(1) by (simp add: ParseRequestString_def r1_def)
      then show ?thesis using q(2,4) f by auto
    qed
  qed
qed

lemma search_off_end:
  assumes "\<forall>i. j \<le> i \<and> i < length mem \<longrightarrow> match_at mem Ps i = Some False" "length mem < bound" "j \<le> length mem" "Ps \<noteq> []"
  shows "search mem Ps bound j = None"
  using assms
proof (induction "length mem - j" arbitrary: j)
  case 0
  then show ?case by (subst search.simps) (cases Ps, auto simp: rd_def)
next
  case (Suc n)
  then have "search mem Ps bound (j + 1) = None" by (intro Suc.hyps(1)) auto
  moreover have "match_at mem Ps j = Some False" using Suc.prems(1) Suc.hyps(2) by simp
  ultimately show ?case using Suc.prems(2) Suc.hyps(2) by (subst search.simps) simp
qed

text \<open>
  A request shorter than eight characters is searched for the scheme far beyond its end: the
  bound is a difference that wraps around. Unless something like a scheme follows by chance, the
  search leaves the buffer.
\<close>

theorem short_request_overruns:
  assumes "len < 8" "len \<le> length mem" "length mem < 2 ^ 32 - 8" "e < len" "blank (mem ! e)" "\<forall>j < e. \<not> blank (mem ! j)"
    and "\<forall>i. e < i \<and> i < length mem \<longrightarrow> mem ! i \<notin> {CHR ''r'', CHR ''R''}" "buffers_ok r"
  shows "ParseRequestString mem len r = None"
proof -
  have b: "length (rq_cmd r) = PARAM_STRING_MAX" using assms(8) by (simp add: buffers_ok_def)
  have c: "cmd_name mem len 0 (rq_cmd r) = Some (True, e, cut mem 0 e @ drop e (rq_cmd r))"
    using cmd_name_spec [of len mem "rq_cmd r" 0 e] assms b by (simp add: PARAM_STRING_MAX_def)
  have w: "\<exists>cmd. wr e (CHR 0x00) (cut mem 0 e @ drop e (rq_cmd r)) = Some cmd"
    using assms(1,2,4) b by (simp add: wr_def length_cut PARAM_STRING_MAX_def)
  have "minus32 len 8 = len + 2 ^ 32 - 8" using assms(1) by (simp add: minus32_def)
  then have "length mem < minus32 len 8" using assms(1,3) by simp
  moreover have "match_at mem rtsp_scheme i = Some False" if "e + 1 \<le> i" "i < length mem" for i
    using that assms(7) by (auto simp: rtsp_scheme_def rd_def)
  ultimately have "search mem rtsp_scheme (minus32 len 8) (e + 1) = None"
    using assms(2,4) by (intro search_off_end) auto
  then show ?thesis using c w by (auto simp: ParseRequestString_def skip_scheme_def split: bind_splits)
qed

definition no_request :: request where
  "no_request = (let z = replicate PARAM_STRING_MAX (CHR 0x00) in \<lparr>rq_cmd = z, rq_pre = z, rq_suffix = z, rq_cseq = z\<rparr>)"

lemma no_request_ok: "buffers_ok no_request"
  by (simp add: no_request_def buffers_ok_def Let_def)

definition received_text :: "string \<Rightarrow> string" where
  "received_text s = s @ replicate (RTSP_RECV_SIZE - length s) (CHR 0x00)"

lemma length_received: "length s \<le> RTSP_RECV_SIZE \<Longrightarrow> length (received_text s) = RTSP_RECV_SIZE"
  by (simp add: received_text_def)

lemma received_nth: "i < RTSP_RECV_SIZE \<Longrightarrow> received_text s ! i = (if i < length s then s ! i else CHR 0x00)"
  by (simp add: received_text_def nth_append)

lemma short_request_overruns_witness: "ParseRequestString (received_text ''A /x'') 4 no_request = None"
proof (rule short_request_overruns)
  show "\<forall>i. 1 < i \<and> i < length (received_text ''A /x'') \<longrightarrow> received_text ''A /x'' ! i \<notin> {CHR ''r'', CHR ''R''}"
    by (auto simp: length_received received_nth RTSP_RECV_SIZE_def less_Suc_eq nth_Cons' split: if_splits)
qed (auto simp: length_received received_text_def RTSP_RECV_SIZE_def blank_def no_request_ok)

lemma parse_request_safe_witness:
  "\<exists>ok r'. ParseRequestString (received_text ''OPTIONS rtsp://a/b/c RTSP/1.0'') 29 no_request = Some (ok, r') \<and> buffers_ok r'"
  using parse_request_safe [of 29 "received_text ''OPTIONS rtsp://a/b/c RTSP/1.0''" no_request]
  by (auto simp: length_received received_text_def RTSP_RECV_SIZE_def blank_def no_request_ok)

text \<open>A command of one letter sends the search for the URL's end below zero.\<close>

lemma one_letter_overruns:
  assumes "mem ! 1 = CHR '' ''" "2 \<le> length mem" "search mem version_word (minus32 len 5) 2 = Some (Some 2)"
  shows "url_names mem len 1 r = None"
proof -
  have "back_blanks mem 1 2 = Some 0" using assms(1,2) by (simp add: numeral_2_eq_2 rd_def)
  then show ?thesis using assms(3)
    by (simp add: url_names_def Let_def numeral_2_eq_2 PARAM_STRING_MAX_def split: Option.bind_splits)
qed


section \<open>What a well-formed request is parsed to\<close>

lemma search_word:
  assumes "mem = A @ S @ w @ T" "\<not> strstr (S @ butlast w) w" "w \<noteq> []" "length A \<le> j" "j \<le> length A + length S"
    "length A + length S < bound"
  shows "search mem (map (=) w) bound j = Some (Some (length A + length S))"
proof (rule search_first)
  show "match_at mem (map (=) w) (length A + length S) = Some True"
    by (subst match_at_word) (simp_all add: assms(1))
next
  show "\<forall>i. j \<le> i \<and> i < length A + length S \<longrightarrow> match_at mem (map (=) w) i = Some False"
  proof (intro allI impI)
    fix i assume i: "j \<le> i \<and> i < length A + length S"
    let ?d = "i - length A"
    have d: "?d < length S" using i assms(4) by linarith
    have "take (length w) (drop i mem) \<noteq> w"
    proof
      assume eq: "take (length w) (drop i mem) = w"
      have "drop i mem = drop ?d S @ w @ T" using i assms(4) by (simp add: assms(1))
      then have "take (length w) (drop ?d (S @ butlast w)) = take (length w) (drop i mem)"
        using d assms(3) by (cases w rule: rev_cases) (auto simp: take_append)
      then have "take (length w) (drop ?d (S @ butlast w)) = w" using eq by simp
      then have "S @ butlast w = take ?d (S @ butlast w) @ w @ drop (length w) (drop ?d (S @ butlast w))"
        by (metis append_take_drop_id)
      then show False using assms(2) unfolding strstr_iff by blast
    qed
    moreover have "i + length w \<le> length mem" using i by (simp add: assms(1))
    ultimately show "match_at mem (map (=) w) i = Some False" by (simp add: match_at_word)
  qed
qed (use assms in auto)

lemma back_name_at:
  assumes "p + n < length mem" "i \<le> p" "p = i \<or> url_end (mem ! p)" "\<forall>q. p < q \<and> q \<le> p + n \<longrightarrow> \<not> url_end (mem ! q)"
  shows "back_name mem i (p + n) = Some p"
  using assms
proof (induction n)
  case 0
  then show ?case by (cases p) (auto simp: rd_def)
qed (auto simp: rd_def)

lemma cut_middle: "mem = A @ S @ T \<Longrightarrow> length A = i \<Longrightarrow> j = i + length S \<Longrightarrow> cut mem i j = S"
  by (simp add: cut_def)

lemma cstr_copied: "CHR 0x00 \<notin> set s \<Longrightarrow> cstr (s @ CHR 0x00 # t) = Some s"
proof -
  assume "CHR 0x00 \<notin> set s"
  then have "takeWhile (\<lambda>c. c \<noteq> CHR 0x00) (s @ CHR 0x00 # t) = s" by (subst takeWhile_append2) auto
  then show ?thesis by (simp add: cstr_def)
qed

lemma nth_middle: "mem = A @ S @ T \<Longrightarrow> length A \<le> q \<Longrightarrow> q < length A + length S \<Longrightarrow> mem ! q \<in> set S"
  by (simp add: nth_append) (metis add_diff_inverse_nat linorder_not_le nat_add_left_cancel_less nth_mem)

lemma url_names_parts:
  assumes mem: "mem = A @ base @ ''/'' @ pre @ ''/'' @ suf @ '' '' @ ''RTSP/'' @ T" and i: "length A = i"
    and len: "5 \<le> len" "len < 2 ^ 32" "i + length base + length pre + length suf + 8 < len"
    and pre: "length pre < PARAM_STRING_MAX" "\<forall>c \<in> set pre. \<not> url_end c"
    and suf: "length suf < PARAM_STRING_MAX" "\<forall>c \<in> set suf. \<not> url_end c"
    and none: "\<not> strstr (base @ ''/'' @ pre @ ''/'' @ suf @ '' RTSP'') ''RTSP/''" and r: "buffers_ok r"
  shows "url_names mem len i r = Some (True, i + length base + length pre + length suf + 8,
    r\<lparr>rq_suffix := suf @ CHR 0x00 # drop (length suf + 1) (rq_suffix r),
      rq_pre := pre @ CHR 0x00 # drop (length pre + 1) (rq_pre r)\<rparr>)"
proof -
  define p1 where "p1 = i + length base"
  define p2 where "p2 = p1 + 1 + length pre"
  define K where "K = p2 + length suf"
  let ?S = "base @ ''/'' @ pre @ ''/'' @ suf @ '' ''"
  have m: "minus32 len 5 = len - 5" using len by (intro minus32_le) auto
  have found: "search mem version_word (len - 5) (i + 1) = Some (Some (K + 2))"
    using search_word [of mem A ?S "''RTSP/''" T "i + 1" "len - 5"] none len i
    by (simp add: mem version_word_def p1_def p2_def K_def add_ac)
  have l: "K + 1 < length mem" using i by (simp add: mem K_def p2_def p1_def)
  have chars: "mem ! p1 = CHR ''/''" "mem ! p2 = CHR ''/''" "mem ! (K + 1) = CHR '' ''"
    using i by (simp_all add: mem p1_def p2_def K_def nth_append)
  have names: "\<forall>q. p1 < q \<and> q \<le> p1 + length pre \<longrightarrow> \<not> url_end (mem ! q)"
    "\<forall>q. p2 < q \<and> q \<le> p2 + length suf \<longrightarrow> \<not> url_end (mem ! q)"
    using nth_middle [of mem "A @ base @ ''/''" pre "''/'' @ suf @ '' '' @ ''RTSP/'' @ T"]
      nth_middle [of mem "A @ base @ ''/'' @ pre @ ''/''" suf "'' '' @ ''RTSP/'' @ T"] pre(2) suf(2) i
    by (auto simp: mem p1_def p2_def)
  have "\<not> url_end (mem ! K) \<or> mem ! K = CHR ''/''" using names(2) chars(2) by (cases suf) (auto simp: K_def)
  then have nb: "mem ! K \<noteq> CHR '' ''" by (auto simp: url_end_def)
  have iK: "i \<le> K" "i \<le> p1" "i \<le> p2" by (simp_all add: K_def p2_def p1_def)
  have bb: "back_blanks mem i (K + 2) = Some K"
    using l chars(3) nb iK(1) by (simp add: rd_def)
  have b1: "back_name mem i K = Some p2" unfolding K_def
    by (rule back_name_at) (use l iK chars(2) names(2) in \<open>auto simp: K_def url_end_def\<close>)
  have p2: "p2 - 1 = p1 + length pre" "p2 \<noteq> 0" by (simp_all add: p2_def)
  have b2: "back_name mem i (p2 - 1) = Some p1" unfolding p2
    by (rule back_name_at) (use l iK chars(1) names(1) in \<open>auto simp: K_def p2_def url_end_def\<close>)
  have cs: "cut mem (p2 + 1) (K + 1) = suf" "cut mem (p1 + 1) (p2 - 1 + 1) = pre"
    by (rule cut_middle [of mem "A @ base @ ''/'' @ pre @ ''/''" suf "'' '' @ ''RTSP/'' @ T"],
        simp_all add: mem p1_def p2_def K_def i)
      (rule cut_middle [of _ "A @ base @ ''/''" pre "''/'' @ suf @ '' '' @ ''RTSP/'' @ T"], simp_all add: i)
  have c1: "copy_name mem (p2 + 1) K 0 (rq_suffix r) = Some (suf @ CHR 0x00 # drop (length suf + 1) (rq_suffix r))"
    using copy_name_spec [of "p2 + 1" K mem 0 "rq_suffix r"] l r suf(1) cs(1) by (simp add: K_def buffers_ok_def)
  have c2: "copy_name mem (p1 + 1) (p2 - 1) 0 (rq_pre r) = Some (pre @ CHR 0x00 # drop (length pre + 1) (rq_pre r))"
    using copy_name_spec [of "p1 + 1" "p2 - 1" mem 0 "rq_pre r"] l r pre(1) cs(2) by (simp add: K_def p2_def buffers_ok_def)
  have room: "\<not> K - p2 + 1 > PARAM_STRING_MAX" "\<not> p2 - 1 - p1 + 1 > PARAM_STRING_MAX"
    using pre(1) suf(1) by (simp_all add: K_def p2_def)
  have "K + 7 = i + length base + length pre + length suf + 8" by (simp add: K_def p2_def p1_def)
  then show ?thesis using m found bb b1 c1 p2(2) b2 c2 room
    by (simp add: url_names_def Let_def)
qed


lemma cseq_line_parts:
  assumes mem: "mem = A @ S @ ''CSeq: '' @ n @ CHR 0x0D # T" and i: "length A = i"
    and len: "len \<le> length mem" "len < 2 ^ 32" "i + length S + length n + 6 < len"
    and n: "length n < PARAM_STRING_MAX - 1" "\<forall>c \<in> set n. c \<notin> {CHR 0x0D, CHR 0x0A}" "n = [] \<or> \<not> blank (hd n)"
    and none: "\<not> strstr (S @ ''CSeq'') ''CSeq:''" and r: "buffers_ok r"
  shows "cseq_line mem len i r = Some (True, r\<lparr>rq_cseq := n @ CHR 0x00 # drop (length n + 1) (rq_cseq r)\<rparr>)"
proof -
  define j where "j = i + length S + 6"
  have m: "minus32 len 5 = len - 5" using len by (intro minus32_le) auto
  have found: "search mem cseq_word (len - 5) i = Some (Some (i + length S))"
    using search_word [of mem A S "''CSeq:''" "'' '' @ n @ CHR 0x0D # T" i "len - 5"] none len i
    by (simp add: mem cseq_word_def)
  have mid: "mem = (A @ S @ ''CSeq: '') @ n @ CHR 0x0D # T" "length (A @ S @ ''CSeq: '') = j" by (simp_all add: mem j_def i)
  have e: "mem ! (j + length n) = CHR 0x0D" "mem ! (j - 1) = CHR '' ''"
    using i by (simp_all add: mem j_def nth_append)
  have cr: "\<forall>q. j \<le> q \<and> q < j + length n \<longrightarrow> mem ! q \<notin> {CHR 0x0D, CHR 0x0A}"
    using nth_middle [OF mid(1)] mid(2) n(2) by auto
  have "mem ! j = (if n = [] then CHR 0x0D else hd n)" using mid(2) by (subst mid(1)) (auto simp: nth_append hd_conv_nth)
  then have "\<not> blank (mem ! j)" using n(3) by (auto simp: blank_def)
  then have sk: "skip blank mem len (i + length S + 5) = Some j"
    using skip_while [of "i + length S + 5" 1 len mem blank] e(2) len by (simp add: j_def blank_def add_ac)
  have "copy_line mem len j 0 (rq_cseq r) = Some (0 + (j + length n - j) < PARAM_STRING_MAX - 1 \<and> j + length n < len,
      take 0 (rq_cseq r) @ cut mem j (j + length n) @ CHR 0x00 # drop (0 + (j + length n - j) + 1) (rq_cseq r))"
    by (rule copy_line_spec) (use len n(1) e(1) cr r in \<open>auto simp: j_def buffers_ok_def PARAM_STRING_MAX_def\<close>)
  moreover have "cut mem j (j + length n) = n" by (rule cut_middle [OF mid]) simp
  ultimately show ?thesis using found m sk len n(1) by (simp add: cseq_line_def j_def)
qed

lemma match_at_chars:
  "j + length w \<le> length mem \<Longrightarrow> take (length w) (drop j mem) = w \<Longrightarrow> list_all2 (\<lambda>P c. P c) Ps w \<Longrightarrow>
    match_at mem Ps j = Some True"
proof (induction w arbitrary: Ps j)
  case (Cons c w)
  then have "drop j mem = mem ! j # drop (j + 1) mem" by (simp add: Cons_nth_drop_Suc)
  then show ?case using Cons by (cases Ps) (auto simp: rd_def)
qed simp

lemma skip_scheme_parts:
  assumes mem: "mem = cmd @ '' rtsp://'' @ host @ CHR ''/'' # T" and e: "length cmd = e"
    and len: "len \<le> length mem" "length mem < 2 ^ 32" "e + 9 + length host < len"
    and host: "\<forall>c \<in> set host. \<not> url_end c"
  shows "skip_scheme mem len e = Some (e + 8 + length host)"
proof -
  have m: "minus32 len 8 = len - 8" using len by (intro minus32_le) auto
  have c: "mem ! (e + 7) = CHR ''/''" "mem ! (e + 8 + length host) = CHR ''/''"
    by (simp_all add: mem nth_append e [symmetric])
  have "match_at mem rtsp_scheme (e + 1) = Some True"
    using len by (intro match_at_chars [of _ "''rtsp:/''"]) (simp_all add: rtsp_scheme_def mem e [symmetric])
  then have found: "search mem rtsp_scheme (len - 8) (e + 1) = Some (Some (e + 1))"
    using len by (intro search_first) auto
  have "\<forall>q. e + 8 \<le> q \<and> q < e + 8 + length host \<longrightarrow> mem ! q \<in> set host"
    using nth_middle [of mem "cmd @ '' rtsp://''" host "CHR ''/'' # T"] by (auto simp: mem e)
  then have "skip (\<lambda>c. \<not> url_end c) mem len (e + 8) = Some (e + 8 + length host)"
    using c(2) host len by (intro skip_while) (auto simp: url_end_def)
  moreover have "rd mem (e + 7) = Some (CHR ''/'')" using c(1) len by (simp add: rd_def)
  ultimately show ?thesis using m found skip_total [OF len(1), of blank "e + 1"]
    by (auto simp: skip_scheme_def add_ac)
qed

text \<open>
  C15: the parts of a well-formed request are found: the command, the last two names of the URL, and
  the sequence number of the header \<open>CSeq\<close>, wherever it stands among the headers.
\<close>

theorem parse_request_parts:
  assumes mem: "mem = cmd @ '' rtsp://'' @ host @ base @ ''/'' @ pre @ ''/'' @ suf @ '' RTSP/'' @ hdr @ ''CSeq: '' @ n @ [CHR 0x0D] @ T"
    and len: "len \<le> length mem" "length mem < 2 ^ 32"
      "length (cmd @ '' rtsp://'' @ host @ base @ ''/'' @ pre @ ''/'' @ suf @ '' RTSP/'' @ hdr @ ''CSeq: '' @ n) < len"
    and cmd: "length cmd < PARAM_STRING_MAX - 1" "\<forall>c \<in> set cmd. \<not> blank c \<and> c \<noteq> CHR 0x00"
    and host: "\<forall>c \<in> set host. \<not> url_end c" "base = [] \<or> hd base = CHR ''/''"
    and pre: "length pre < PARAM_STRING_MAX" "\<forall>c \<in> set pre. \<not> url_end c \<and> c \<noteq> CHR 0x00"
    and suf: "length suf < PARAM_STRING_MAX" "\<forall>c \<in> set suf. \<not> url_end c \<and> c \<noteq> CHR 0x00"
    and n: "length n < PARAM_STRING_MAX - 1" "\<forall>c \<in> set n. c \<notin> {CHR 0x0D, CHR 0x0A, CHR 0x00}" "n = [] \<or> \<not> blank (hd n)"
    and first: "\<not> strstr (base @ ''/'' @ pre @ ''/'' @ suf @ '' RTSP'') ''RTSP/''" "\<not> strstr (hdr @ ''CSeq'') ''CSeq:''"
    and r: "buffers_ok r"
  shows "\<exists>r'. ParseRequestString mem len r = Some (True, r') \<and> cstr (rq_cmd r') = Some cmd \<and> cstr (rq_pre r') = Some pre \<and>
    cstr (rq_suffix r') = Some suf \<and> cstr (rq_cseq r') = Some n"
proof -
  define e where "e = length cmd"
  define i where "i = e + 8 + length host"
  have m8: "minus32 len 8 = len - 8" using len by (intro minus32_le) auto
  have b: "length (rq_cmd r) = PARAM_STRING_MAX" using r by (simp add: buffers_ok_def)
  have "mem ! e = CHR '' ''" "\<forall>j < e. mem ! j \<in> set cmd" by (auto simp: mem e_def nth_append)
  then have c: "cmd_name mem len 0 (rq_cmd r) = Some (True, e, cmd @ drop e (rq_cmd r))"
    using cmd_name_spec [of len mem "rq_cmd r" 0 e] len b cmd cut_middle [of mem "[]" cmd _ 0 e]
    by (auto simp: e_def blank_def mem)
  have w: "wr e (CHR 0x00) (cmd @ drop e (rq_cmd r)) = Some (cmd @ CHR 0x00 # drop (e + 1) (rq_cmd r))"
    using b cmd(1) by (subst wr_in) (auto simp: e_def)
  define r1 where "r1 = r\<lparr>rq_cmd := cmd @ CHR 0x00 # drop (e + 1) (rq_cmd r)\<rparr>"
  have r1: "buffers_ok r1" using r cmd(1) by (auto simp: r1_def buffers_ok_def e_def)
  obtain x where x: "base @ ''/'' @ pre @ ''/'' @ suf @ '' RTSP/'' @ hdr @ ''CSeq: '' @ n @ [CHR 0x0D] @ T = CHR ''/'' # x"
    using host(2) by (cases base) auto
  then have mx: "mem = cmd @ '' rtsp://'' @ host @ CHR ''/'' # x" by (simp add: mem)
  have scheme: "skip_scheme mem len e = Some i" unfolding i_def
    by (rule skip_scheme_parts [OF mx]) (use len host(1) in \<open>auto simp: e_def\<close>)
  define K where "K = i + length base + length pre + length suf + 8"
  define r2 where "r2 = r1\<lparr>rq_suffix := suf @ CHR 0x00 # drop (length suf + 1) (rq_suffix r1),
      rq_pre := pre @ CHR 0x00 # drop (length pre + 1) (rq_pre r1)\<rparr>"
  have u: "url_names mem len i r1 = Some (True, K, r2)" unfolding K_def r2_def
    by (rule url_names_parts [of _ "cmd @ '' rtsp://'' @ host" _ _ _ "hdr @ ''CSeq: '' @ n @ [CHR 0x0D] @ T"])
      (use len pre suf first(1) r1 in \<open>auto simp: mem i_def e_def\<close>)
  have r2: "buffers_ok r2" using r1 pre(1) suf(1) by (simp add: r2_def buffers_ok_def)
  have q: "cseq_line mem len K r2 = Some (True, r2\<lparr>rq_cseq := n @ CHR 0x00 # drop (length n + 1) (rq_cseq r2)\<rparr>)"
    by (rule cseq_line_parts [of _ "cmd @ '' rtsp://'' @ host @ base @ ''/'' @ pre @ ''/'' @ suf @ '' RTSP/''" hdr _ T])
      (use len n first(2) r2 in \<open>auto simp: mem K_def i_def e_def\<close>)
  have "ParseRequestString mem len r = Some (True, r2\<lparr>rq_cseq := n @ CHR 0x00 # drop (length n + 1) (rq_cseq r2)\<rparr>)"
    using c w scheme u [unfolded r1_def] q by (simp add: ParseRequestString_def)
  moreover have "CHR 0x00 \<notin> set cmd" "CHR 0x00 \<notin> set pre" "CHR 0x00 \<notin> set suf" "CHR 0x00 \<notin> set n"
    using cmd(2) pre(2) suf(2) n(2) by blast+
  ultimately show ?thesis by (simp add: r2_def r1_def cstr_copied)
qed


lemma parse_request_parts_witness:
  "\<exists>r'. ParseRequestString (received_text (''SETUP rtsp://cam/live/1/trackID=0 RTSP/1.0  CSeq: 3'' @ [CHR 0x0D])) 52 no_request
      = Some (True, r') \<and> cstr (rq_cmd r') = Some ''SETUP'' \<and> cstr (rq_pre r') = Some ''1'' \<and>
    cstr (rq_suffix r') = Some ''trackID=0'' \<and> cstr (rq_cseq r') = Some ''3''"
proof (rule parse_request_parts [where cmd = "''SETUP''" and host = "''cam''" and base = "''/live''" and pre = "''1''"
      and suf = "''trackID=0''" and hdr = "''1.0  ''" and n = "''3''" and T = "replicate 972 (CHR 0x00)"])
  show "\<not> strstr (''/live'' @ ''/'' @ ''1'' @ ''/'' @ ''trackID=0'' @ '' RTSP'') ''RTSP/''" by code_simp
  show "\<not> strstr (''1.0  '' @ ''CSeq'') ''CSeq:''" by code_simp
qed (simp_all add: received_text_def RTSP_RECV_SIZE_def PARAM_STRING_MAX_def no_request_ok url_end_def blank_def)


end
