(* ===== verification/Rtsp_Transport.thy ===== *)
theory Rtsp_Transport
  imports Rtsp_Parse
begin

text \<open>
  The header \<open>Transport\<close> of a request (\<open>ParseTransportHeader\<close> of \<open>mpp_rtsp_server.cpp\<close>): the
  fields are separated by semicolons. The lemmas give the result as a fold over the fields.
\<close>

section \<open>The parser\<close>

datatype StreamingMode = RTP_UDP | RTP_TCP | RAW_UDP

record transport =
  tr_mode :: StreamingMode
  tr_ttl :: nat
  tr_rtp :: nat
  tr_rtcp :: nat
  tr_rtp_chan :: nat
  tr_rtcp_chan :: nat

definition no_transport :: transport where
  "no_transport = \<lparr>tr_mode = RTP_UDP, tr_ttl = 255, tr_rtp = 0, tr_rtcp = 1, tr_rtp_chan = 255, tr_rtcp_chan = 255\<rparr>"

text \<open>\<open>strncasecmp(s, p, n) == 0\<close> for a string \<open>p\<close> of \<open>n\<close> characters in lower case.\<close>

definition has_prefix_nocase :: "string \<Rightarrow> string \<Rightarrow> bool" where
  "has_prefix_nocase p s \<longleftrightarrow> map to_lower (take (length p) s) = p"

fun find_transport :: "string \<Rightarrow> string option" where
  "find_transport [] = None"
| "find_transport (c # s) =
     (if has_prefix_nocase ''transport: '' (c # s) then Some (drop 11 (c # s)) else find_transport s)"

text \<open>The formats, with \<open>%hu\<close> and \<open>%u\<close>.\<close>

definition lits :: "string \<Rightarrow> directive list" where
  "lits = map Lit"

definition num_u :: directive where
  "num_u = Num 10 False None"

text \<open>The values that a conversion of a narrower type stores.\<close>

fun stored :: "nat \<Rightarrow> conv_val list \<Rightarrow> nat list" where
  "stored bits [] = []"
| "stored bits (CInt v # vs) = nat (v mod 2 ^ bits) # stored bits vs"
| "stored bits (CStr _ # vs) = stored bits vs"

definition scan_nums :: "nat \<Rightarrow> directive list \<Rightarrow> string \<Rightarrow> nat list" where
  "scan_nums bits ds s = stored bits (snd (sscanf ds s))"

text \<open>
  What one field changes. A field that begins with \<open>destination=\<close> frees a pointer to a variable
  of the caller.
\<close>

definition transport_field :: "string \<Rightarrow> transport \<Rightarrow> transport option" where
  "transport_field field tr =
     (if field = ''RTP/AVP/TCP'' then Some (tr\<lparr>tr_mode := RTP_TCP\<rparr>)
      else if field = ''RAW/RAW/UDP'' \<or> field = ''MP2T/H2221/UDP'' then Some (tr\<lparr>tr_mode := RAW_UDP\<rparr>)
      else if has_prefix_nocase ''destination='' field then None
      else case scan_nums 32 (lits ''ttl'' @ [num_u]) field of
        [ttl] \<Rightarrow> Some (tr\<lparr>tr_ttl := ttl mod 2 ^ 8\<rparr>)
      | _ \<Rightarrow> (case scan_nums 16 (lits ''client_port='' @ [num_u] @ lits ''-'' @ [num_u]) field of
          [p1, p2] \<Rightarrow> Some (tr\<lparr>tr_rtp := p1, tr_rtcp := p2\<rparr>)
        | _ \<Rightarrow> (case scan_nums 16 (lits ''client_port='' @ [num_u]) field of
            [p1] \<Rightarrow> Some (tr\<lparr>tr_rtp := p1, tr_rtcp := (if tr_mode tr = RAW_UDP then 0 else (p1 + 1) mod 2 ^ 16)\<rparr>)
          | _ \<Rightarrow> (case scan_nums 32 (lits ''interleaved='' @ [num_u] @ lits ''-'' @ [num_u]) field of
              [c1, c2] \<Rightarrow> Some (tr\<lparr>tr_rtp_chan := c1 mod 2 ^ 8, tr_rtcp_chan := c2 mod 2 ^ 8\<rparr>)
            | _ \<Rightarrow> Some tr))))"

text \<open>\<open>sscanf(fields, "%[^;]", field) == 1\<close>.\<close>

definition next_field :: "string \<Rightarrow> string option" where
  "next_field s = (case sscanf [Set (\<lambda>c. c \<noteq> CHR '';'') True] s of (r, vs) \<Rightarrow>
     if r = 1 then (case vs of [CStr field] \<Rightarrow> Some field | _ \<Rightarrow> None) else None)"

lemma next_field_eq:
  "next_field s = (if s = [] \<or> hd s = CHR '';'' then None else Some (takeWhile (\<lambda>c. c \<noteq> CHR '';'') s))"
  by (cases s) (auto simp: next_field_def sscanf_def scan_fail_def scan_eof_def)

function transport_fields :: "string \<Rightarrow> transport \<Rightarrow> transport option" where
  "transport_fields s tr =
     (case next_field s of
        None \<Rightarrow> Some tr
      | Some field \<Rightarrow> do {
          tr \<leftarrow> transport_field field tr;
          let s = dropWhile (\<lambda>c. c = CHR '';'') (drop (length field) s);
          if s = [] \<or> hd s = CHR 0x0D \<or> hd s = CHR 0x0A then Some tr
          else transport_fields s tr
        })"
  by pat_completeness auto

termination
proof (relation "measure (\<lambda>(s, tr). length s)")
  fix s :: string and field :: string and tr tr' :: transport and rest :: string
  assume f: "next_field s = Some field" and x: "rest = dropWhile (\<lambda>c. c = CHR '';'') (drop (length field) s)"
    and ne: "\<not> (rest = [] \<or> hd rest = CHR 0x0D \<or> hd rest = CHR 0x0A)"
  have "0 < length field" "0 < length s" using f by (cases s; auto simp: next_field_eq split: if_splits)+
  then have "length (drop (length field) s) < length s" by simp
  moreover have "length rest \<le> length (drop (length field) s)" unfolding x by (rule length_dropWhile_le)
  ultimately show "((rest, tr'), (s, tr)) \<in> measure (\<lambda>(s, tr). length s)" by simp
qed simp

declare transport_fields.simps [simp del]

text \<open>
  A buffer without a NUL is read beyond its end. The buffer for the fields is allocated; that this fails,
  and \<open>sscanf\<close> writes to a null pointer, is not modelled, nor is the failure of the server's other allocations.
\<close>

definition ParseTransportHeader :: "string \<Rightarrow> transport option" where
  "ParseTransportHeader buf = do {
     s \<leftarrow> cstr buf;
     (case find_transport s of
        None \<Rightarrow> Some no_transport
      | Some fs \<Rightarrow> transport_fields fs no_transport)
   }"

section \<open>The fields of a header\<close>

text \<open>Fields with a semicolon between them.\<close>

fun semis :: "string list \<Rightarrow> string" where
  "semis [] = []"
| "semis [f] = f"
| "semis (f # g # fs) = f @ '';'' @ semis (g # fs)"

fun fold_fields :: "string list \<Rightarrow> transport \<Rightarrow> transport option" where
  "fold_fields [] tr = Some tr"
| "fold_fields (f # fs) tr = do { tr \<leftarrow> transport_field f tr; fold_fields fs tr }"

definition field_ok :: "string \<Rightarrow> bool" where
  "field_ok f \<longleftrightarrow> f \<noteq> [] \<and> CHR '';'' \<notin> set f \<and> CHR 0x00 \<notin> set f \<and> hd f \<noteq> CHR 0x0D \<and> hd f \<noteq> CHR 0x0A"

lemma semis_Cons: "semis (f # fs) = f @ (if fs = [] then [] else CHR '';'' # semis fs)"
  by (cases fs) simp_all

lemma next_field_cons:
  "field_ok f \<Longrightarrow> next_field (semis (f # fs)) = Some f"
proof -
  assume f: "field_ok f"
  then have "takeWhile (\<lambda>c. c \<noteq> CHR '';'') (semis (f # fs)) = f"
    by (cases "fs = []") (auto simp: semis_Cons field_ok_def intro!: takeWhile_eq_all_conv [THEN iffD2]
        trans [OF takeWhile_append2])
  moreover have "semis (f # fs) \<noteq> [] \<and> hd (semis (f # fs)) \<noteq> CHR '';''"
    using f by (cases f) (auto simp: field_ok_def semis_Cons)
  ultimately show ?thesis by (simp add: next_field_eq)
qed

lemma transport_fields_fold:
  "fs \<noteq> [] \<Longrightarrow> \<forall>f \<in> set fs. field_ok f \<Longrightarrow> transport_fields (semis fs) tr = fold_fields fs tr"
proof (induction fs arbitrary: tr)
  case (Cons f fs)
  show ?case
  proof (cases fs)
    case Nil
    then show ?thesis using Cons.prems next_field_cons [of f "[]"]
      by (cases "transport_field f tr") (simp_all add: transport_fields.simps [of f])
  next
    case fs: (Cons g gs)
    then have f: "field_ok f" "field_ok g" "fs \<noteq> []" using Cons.prems by simp_all
    have IH: "\<And>tr. transport_fields (semis fs) tr = fold_fields fs tr" using Cons fs by simp
    have d: "drop (length f) (semis (f # fs)) = CHR '';'' # semis fs" using f(3) by (simp add: semis_Cons)
    have g: "dropWhile (\<lambda>c. c = CHR '';'') (semis fs) = semis fs" "semis fs \<noteq> []" "hd (semis fs) = hd g"
      using f(2) by (auto simp: fs semis_Cons field_ok_def neq_Nil_conv)
    show ?thesis unfolding transport_fields.simps [of "semis (f # fs)"] next_field_cons [OF f(1)] option.case d
      using f(2) g by (simp add: IH field_ok_def)
  qed
qed simp

lemma find_transport_at:
  assumes "\<forall>i \<le> length h. has_prefix_nocase ''transport: '' (drop i (h @ t @ fs)) = (i = length h)" "length t = 11"
  shows "find_transport (h @ t @ fs) = Some fs"
  using assms(1)
proof (induction h)
  case Nil
  obtain c t' where "t = c # t'" using assms(2) by (cases t) auto
  then show ?case using Nil assms(2) by (simp add: numeral_eq_Suc)
next
  case (Cons x h)
  from Cons.prems have "\<not> has_prefix_nocase ''transport: '' (x # h @ t @ fs)" by force
  moreover have "\<forall>i \<le> length h. has_prefix_nocase ''transport: '' (drop i (h @ t @ fs)) = (i = length h)"
    using Cons.prems by (metis Suc_le_mono append_Cons drop_Suc_Cons length_Cons nat.inject)
  ultimately show ?case using Cons.IH by simp
qed

text \<open>Text without the letter n has no such header in it.\<close>

lemma find_transport_none: "CHR ''n'' \<notin> set (map to_lower s) \<Longrightarrow> find_transport s = None"
proof (induction s)
  case (Cons c s)
  have "\<not> has_prefix_nocase ''transport: '' (c # s)"
  proof
    assume "has_prefix_nocase ''transport: '' (c # s)"
    moreover have "length ''transport: '' = 11" by simp
    ultimately have "map to_lower (take 11 (c # s)) = ''transport: ''" unfolding has_prefix_nocase_def by metis
    then have "CHR ''n'' \<in> set (map to_lower (take 11 (c # s)))" unfolding \<open>map to_lower (take 11 (c # s)) = ''transport: ''\<close> by simp
    then have "CHR ''n'' \<in> set (map to_lower (c # s))" by (auto dest: in_set_takeD)
    then show False using Cons.prems by simp
  qed
  then show ?case using Cons by simp
qed simp

lemma no_transport_before:
  assumes "CHR ''n'' \<notin> set (map to_lower h)" "map to_lower t = ''transport: ''" "i < length h"
  shows "map to_lower (take 11 (drop i (h @ t))) \<noteq> ''transport: ''"
proof
  assume e: "map to_lower (take 11 (drop i (h @ t))) = ''transport: ''"
  have t: "length t = 11" using arg_cong [OF assms(2), of length] by simp
  have "to_lower ((h @ t) ! (i + 3)) = CHR ''n''"
  proof -
    have "''transport: '' ! 3 = CHR ''n''" by simp
    then have "map to_lower (take 11 (drop i (h @ t))) ! 3 = CHR ''n''" by (simp only: e)
    moreover have "3 < length (take 11 (drop i (h @ t)))" using assms(3) t by simp
    ultimately have "to_lower (take 11 (drop i (h @ t)) ! 3) = CHR ''n''" by (simp only: nth_map)
    moreover have "i \<le> length (h @ t)" using assms(3) by simp
    ultimately show ?thesis by (simp only: nth_take nth_drop)
  qed
  then show False
  proof (cases "i + 3 < length h")
    case True
    then have "CHR ''n'' \<in> set (map to_lower h)" using \<open>to_lower ((h @ t) ! (i + 3)) = CHR ''n''\<close>
      by (auto simp: nth_append intro!: image_eqI [of _ _ "h ! (i + 3)"])
    then show False using assms(1) by simp
  next
    case False
    define j where "j = i + 3 - length h"
    have j: "j = 0 \<or> j = 1 \<or> j = 2" using False assms(3) by (auto simp: j_def)
    have "map to_lower t ! j = CHR ''n''" using \<open>to_lower ((h @ t) ! (i + 3)) = CHR ''n''\<close> False t j
      by (auto simp: nth_append j_def)
    then show False using j by (auto simp: assms(2))
  qed
qed

text \<open>
  The header is parsed field by field: the result is that of the fields in their order,
  wherever the header stands among the others.
\<close>

theorem transport_header_fields:
  assumes "buf = h @ t @ semis fs @ CHR 0x00 # rest" "map to_lower t = ''transport: ''" "CHR 0x00 \<notin> set h"
    and "\<forall>i < length h. map to_lower (take 11 (drop i (h @ t))) \<noteq> ''transport: ''"
    and "fs \<noteq> []" "\<forall>f \<in> set fs. field_ok f"
  shows "ParseTransportHeader buf = fold_fields fs no_transport"
proof -
  have t: "length t = 11" using arg_cong [OF assms(2), of length] by simp
  have "CHR 0x00 \<notin> set (semis fs)" using assms(6)
    by (induction fs) (auto simp: semis_Cons field_ok_def)
  moreover have "CHR 0x00 \<notin> set t"
  proof
    assume "CHR 0x00 \<in> set t"
    then have "to_lower (CHR 0x00) \<in> set (map to_lower t)" by simp
    then show False unfolding assms(2) by (simp add: to_lower_def is_upper_def)
  qed
  ultimately have "cstr buf = Some (h @ t @ semis fs)"
    using assms(1,3) cstr_copied [of "h @ t @ semis fs" rest] by simp
  moreover have "find_transport (h @ t @ semis fs) = Some (semis fs)"
  proof (rule find_transport_at [OF _ t], intro allI impI)
    fix i assume "i \<le> length h"
    then have "take 11 (drop i (h @ t @ semis fs)) = take 11 (drop i (h @ t))" using t by simp
    moreover have "(map to_lower (take 11 (drop i (h @ t))) = ''transport: '') = (i = length h)"
      using assms(2,4) t \<open>i \<le> length h\<close> by (cases "i = length h") simp_all
    moreover have "length ''transport: '' = 11" by simp
    ultimately show "has_prefix_nocase ''transport: '' (drop i (h @ t @ semis fs)) = (i = length h)"
      unfolding has_prefix_nocase_def by metis
  qed
  ultimately show ?thesis using assms(5,6) by (simp add: ParseTransportHeader_def transport_fields_fold)
qed


section \<open>The ports of the client\<close>

lemma scan_lits: "scan (lits p @ ds) (p @ s) vs = scan ds s vs"
  by (induction p) (auto simp: lits_def)

lemma parse_int_show:
  assumes "t = [] \<or> \<not> is_digit 10 (hd t)"
  shows "parse_int 10 (show_nat 10 n @ t) = Some (int n, t)"
proof -
  note D = show_nat_digits [of 10 n, simplified]
  obtain c cs where s: "show_nat 10 n = c # cs" "is_digit 10 c" using D by (cases "show_nat 10 n") auto
  have "read_digits 10 0 (show_nat 10 n @ t) = read_digits 10 (digits_value 10 0 (show_nat 10 n)) t"
    using D by (intro read_digits_prefix) simp
  also have "\<dots> = (n, t)" using D assms by (cases t) auto
  finally show ?thesis using digit_not_blank [OF s(2)] s
    by (simp add: parse_int_def read_sign_def pick_base_def)
qed

lemma scan_num_u:
  assumes "t = [] \<or> \<not> is_digit 10 (hd t)" "n < 2 ^ 64"
  shows "scan (num_u # ds) (show_nat 10 n @ t) vs = scan ds t (vs @ [CInt (int n)])"
proof -
  note D = show_nat_digits [of 10 n, simplified]
  obtain c cs where s: "show_nat 10 n = c # cs" "is_digit 10 c" using D by (cases "show_nat 10 n") auto
  have "scan_num 10 False None (show_nat 10 n @ t) = Some (int n, t)"
    using parse_int_show [OF assms(1)] assms(2) by (simp add: scan_num_def flip: of_nat_mod)
  then show ?thesis using digit_not_blank [OF s(2)] s by (simp add: num_u_def)
qed

definition client_port :: "nat \<Rightarrow> nat \<Rightarrow> string" where
  "client_port p1 p2 = ''client_port='' @ show_nat 10 p1 @ ''-'' @ show_nat 10 p2"

lemma client_port_field:
  assumes "p1 < 2 ^ 16" "p2 < 2 ^ 16" "t = [] \<or> \<not> is_digit 10 (hd t)"
  shows "transport_field (client_port p1 p2 @ t) tr = Some (tr\<lparr>tr_rtp := p1, tr_rtcp := p2\<rparr>)"
proof -
  let ?f = "client_port p1 p2 @ t"
  have "scan (lits ''client_port='' @ [num_u] @ lits ''-'' @ [num_u]) ?f []
      = scan (num_u # lits ''-'' @ [num_u]) (show_nat 10 p1 @ ''-'' @ show_nat 10 p2 @ t) []"
    using scan_lits [of "''client_port=''" "num_u # lits ''-'' @ [num_u]" "show_nat 10 p1 @ ''-'' @ show_nat 10 p2 @ t" "[]"]
    by (simp add: client_port_def)
  also have "\<dots> = scan (lits ''-'' @ [num_u]) (''-'' @ show_nat 10 p2 @ t) [CInt (int p1)]"
    using assms(1) by (subst scan_num_u) (auto simp: is_digit_def digit_val_def)
  also have "\<dots> = scan [num_u] (show_nat 10 p2 @ t) [CInt (int p1)]" by (rule scan_lits)
  also have "\<dots> = (2, [CInt (int p1), CInt (int p2)], t)"
    using assms(2) by (subst scan_num_u [OF assms(3)]) auto
  finally have two: "scan_nums 16 (lits ''client_port='' @ [num_u] @ lits ''-'' @ [num_u]) ?f = [p1, p2]"
    using assms(1,2) by (simp add: scan_nums_def sscanf_def flip: of_nat_mod)
  have h: "?f = CHR ''c'' # tl ?f" by (simp add: client_port_def)
  have "scan_nums 32 (lits ''ttl'' @ [num_u]) ?f = []"
    by (subst h) (simp add: scan_nums_def sscanf_def lits_def scan_fail_def)
  moreover have "\<not> has_prefix_nocase ''destination='' ?f"
    by (subst h) (simp add: has_prefix_nocase_def to_lower_def is_upper_def)
  moreover have "?f \<noteq> ''RTP/AVP/TCP''" "?f \<noteq> ''RAW/RAW/UDP''" "?f \<noteq> ''MP2T/H2221/UDP''"
    by (subst h, simp)+
  ultimately show ?thesis using two by (simp add: transport_field_def)
qed

text \<open>A field that changes nothing.\<close>

definition ignored :: "string \<Rightarrow> bool" where
  "ignored f \<longleftrightarrow> (\<forall>tr. transport_field f tr = Some tr)"

lemma fold_ignored: "\<forall>f \<in> set fs. ignored f \<Longrightarrow> fold_fields (fs @ gs) tr = fold_fields gs tr"
  by (induction fs) (auto simp: ignored_def)

lemma fold_ignored_all: "\<forall>f \<in> set fs. ignored f \<Longrightarrow> fold_fields fs tr = Some tr"
  using fold_ignored [of fs "[]"] by simp

text \<open>
  C26: the two ports a client asks for are the ones that are read, as numbers of 16 bits, wherever
  the field stands among fields that mean nothing to the server; the rest keeps its default.
\<close>

theorem client_ports_read:
  assumes "p1 < 2 ^ 16" "p2 < 2 ^ 16" "map to_lower t = ''transport: ''" "CHR 0x00 \<notin> set h"
    and "\<forall>i < length h. map to_lower (take 11 (drop i (h @ t))) \<noteq> ''transport: ''"
    and "\<forall>f \<in> set (fs @ gs). field_ok f \<and> ignored f" "CHR '';'' \<notin> set x" "CHR 0x00 \<notin> set x" "x = [] \<or> \<not> is_digit 10 (hd x)"
  shows "ParseTransportHeader (h @ t @ semis (fs @ [client_port p1 p2 @ x] @ gs) @ CHR 0x00 # rest)
    = Some (no_transport\<lparr>tr_rtp := p1, tr_rtcp := p2\<rparr>)"
proof -
  let ?c = "client_port p1 p2 @ x"
  have digits: "c \<noteq> CHR '';'' \<and> c \<noteq> CHR 0x00" if "c \<in> set (show_nat 10 n)" for c n
    using that show_nat_digits [of 10 n, simplified] by (auto simp: is_digit_def digit_val_def)
  have "field_ok ?c" using digits [of _ p1] digits [of _ p2] assms(7,8)
    by (auto simp: field_ok_def client_port_def)
  then have "ParseTransportHeader (h @ t @ semis (fs @ [?c] @ gs) @ CHR 0x00 # rest) = fold_fields (fs @ [?c] @ gs) no_transport"
    using assms(3-6) by (intro transport_header_fields [OF refl]) auto
  also have "\<dots> = fold_fields ([?c] @ gs) no_transport" using assms(6) by (intro fold_ignored) auto
  also have "\<dots> = Some (no_transport\<lparr>tr_rtp := p1, tr_rtcp := p2\<rparr>)"
    using client_port_field [OF assms(1,2,9)] assms(6) fold_ignored_all [of gs] by simp
  finally show ?thesis .
qed

lemma ignored_fields: "ignored ''RTP/AVP''" "ignored ''unicast''"
  unfolding ignored_def by (simp_all add: transport_field_def has_prefix_nocase_def scan_nums_def sscanf_def lits_def
      scan_fail_def to_lower_def is_upper_def)

lemma client_ports_read_witness:
  "ParseTransportHeader (''CSeq: 3  '' @ ''Transport: '' @ semis [''RTP/AVP'', ''unicast'', client_port 8000 8001 @ [CHR 0x0D]] @ [CHR 0x00])
    = Some (no_transport\<lparr>tr_rtp := 8000, tr_rtcp := 8001\<rparr>)"
proof -
  have "\<forall>i < length ''CSeq: 3  ''. map to_lower (take 11 (drop i (''CSeq: 3  '' @ ''Transport: ''))) \<noteq> ''transport: ''"
    by code_simp
  moreover have "map to_lower ''Transport: '' = ''transport: ''" by code_simp
  ultimately show ?thesis
    using client_ports_read [of 8000 8001 "''Transport: ''" "''CSeq: 3  ''" "[''RTP/AVP'', ''unicast'']" "[]" "[CHR 0x0D]" "[]"]
    by (simp add: ignored_fields field_ok_def is_digit_def digit_val_def)
qed

text \<open>The address of a destination frees memory that was never allocated.\<close>

lemma destination_crashes:
  assumes "has_prefix_nocase ''destination='' f" "\<forall>g \<in> set fs. ignored g"
  shows "fold_fields (fs @ f # gs) tr = None"
proof -
  have "\<not> has_prefix_nocase ''destination='' ''RTP/AVP/TCP''" "\<not> has_prefix_nocase ''destination='' ''RAW/RAW/UDP''"
    "\<not> has_prefix_nocase ''destination='' ''MP2T/H2221/UDP''" by code_simp+
  then have "f \<noteq> ''RTP/AVP/TCP''" "f \<noteq> ''RAW/RAW/UDP''" "f \<noteq> ''MP2T/H2221/UDP''" using assms(1) by blast+
  then have "transport_field f tr = None"
    unfolding transport_field_def using assms(1) by (simp only: simp_thms if_False if_True)
  then show ?thesis using fold_ignored [OF assms(2)] by simp
qed


end
