(* ===== verification/Rtp_Sender.thy ===== *)
theory Rtp_Sender
  imports Frame_Memory
begin

text \<open>
  The sender of the RTSP server (\<open>mpp_rtsp_server.cpp\<close>): encoded frames wait in a queue, a thread
  takes them out, cuts each into RTP packets and sends these to every client that plays. The
  thread that pushes frames (\<open>mpp_main.cpp\<close>) is modelled up to the encoder, which is an argument.
  The queue has no lock in the code; here pushing a frame and sending one are single steps.
\<close>

section \<open>State\<close>

datatype rtsp_status = RTSP_IDLE | RTSP_CONNECTED | RTSP_SENDING

text \<open>
  The structure \<open>RTSP_CLIENT\<close>. The array of two ports is a pair. \<open>seqnum\<close> is an \<open>int\<close> of 32 bits that only
  grows and of which the packets carry the lower 16 bits; that it overflows after 2147483647 packets,
  which C leaves undefined, is not modelled.
\<close>

record rtsp_client =
  rc_index :: int
  rc_socket :: int
  rc_reqchn :: int
  rc_seqnum :: int
  rc_tsvid :: u32
  rc_tsaud :: u32
  rc_status :: rtsp_status
  rc_sessionid :: int
  rc_rtpport :: "int \<times> int"
  rc_rtcpport :: int
  rc_IP :: string
  rc_urlPre :: string

definition nalu_sent_len :: nat where "nalu_sent_len = 1400"
definition RTP_H264 :: u8 where "RTP_H264 = 96"
definition SENDBUF_SIZE :: nat where "SENDBUF_SIZE = 500 * 1024 + 32"

record rtp_buf =
  rb_len :: nat
  rb_buf :: "u8 list"

text \<open>A datagram: the descriptor it is sent on, the address and port it goes to, its bytes.\<close>

record datagram =
  dg_fd :: int
  dg_ip :: string
  dg_port :: u16
  dg_data :: "u8 list"

section \<open>The headers\<close>

text \<open>What \<open>htons\<close> and \<open>htonl\<close> leave in memory.\<close>

definition be16 :: "u16 \<Rightarrow> u8 list" where
  "be16 v = [ucast (drop_bit 8 v), ucast v]"

definition be32 :: "u32 \<Rightarrow> u8 list" where
  "be32 v = [ucast (drop_bit 24 v), ucast (drop_bit 16 v), ucast (drop_bit 8 v), ucast v]"

text \<open>A bit field of \<open>w\<close> bits from bit \<open>n\<close> of a byte on.\<close>

definition set_field :: "nat \<Rightarrow> nat \<Rightarrow> u8 \<Rightarrow> u8 \<Rightarrow> u8" where
  "set_field n w v b = (b AND NOT (push_bit n (mask w))) OR push_bit n (v AND mask w)"

definition put_field :: "nat \<Rightarrow> nat \<Rightarrow> nat \<Rightarrow> u8 \<Rightarrow> u8 list \<Rightarrow> u8 list option" where
  "put_field i n w v buf = (if i < length buf then Some (buf[i := set_field n w v (buf ! i)]) else None)"

text \<open>
  The structure \<open>RTP_FIXED_HEADER\<close>. Its fields \<open>timestamp\<close> and \<open>ssrc\<close> are \<open>unsigned long\<close>, of eight
  bytes on the target, so that they start at the bytes 4 and 12 and the header has twenty bytes.
\<close>

definition put_marker :: "u8 \<Rightarrow> u8 list \<Rightarrow> u8 list option" where
  "put_marker v = put_field 1 7 1 v"

definition put_seq_no :: "int \<Rightarrow> u8 list \<Rightarrow> u8 list option" where
  "put_seq_no seqnum buf = blit buf 2 (be16 (word_of_int seqnum))"

definition put_timestamp :: "u32 \<Rightarrow> u8 list \<Rightarrow> u8 list option" where
  "put_timestamp ts buf = blit buf 4 (be32 ts @ [0, 0, 0, 0])"

definition put_ssrc :: "u32 \<Rightarrow> u8 list \<Rightarrow> u8 list option" where
  "put_ssrc v buf = blit buf 12 (be32 v @ [0, 0, 0, 0])"

definition put_fixed :: "u8 list \<Rightarrow> u8 list option" where
  "put_fixed buf = do {
     buf \<leftarrow> put_field 1 0 7 RTP_H264 buf;
     buf \<leftarrow> put_field 0 6 2 2 buf;
     buf \<leftarrow> put_marker 0 buf;
     put_ssrc 10 buf
   }"

text \<open>\<open>NALU_HEADER\<close> and \<open>FU_INDICATOR\<close> have the same fields; \<open>FU_HEADER\<close> has flags for start and end.\<close>

definition put_nalu :: "u8 \<Rightarrow> u8 \<Rightarrow> u8 \<Rightarrow> u8 list \<Rightarrow> u8 list option" where
  "put_nalu f nri type buf = do {
     buf \<leftarrow> put_field 12 7 1 f buf;
     buf \<leftarrow> put_field 12 5 2 nri buf;
     put_field 12 0 5 type buf
   }"

definition put_fu_header :: "u8 \<Rightarrow> u8 \<Rightarrow> u8 \<Rightarrow> u8 \<Rightarrow> u8 list \<Rightarrow> u8 list option" where
  "put_fu_header s e r type buf = do {
     buf \<leftarrow> put_field 13 6 1 e buf;
     buf \<leftarrow> put_field 13 5 1 r buf;
     buf \<leftarrow> put_field 13 7 1 s buf;
     put_field 13 0 5 type buf
   }"

section \<open>Sending a frame\<close>

definition copy_in :: "nat \<Rightarrow> rtp_buf \<Rightarrow> nat \<Rightarrow> nat \<Rightarrow> u8 list \<Rightarrow> u8 list option" where
  "copy_in dst rb src n buf = do { bytes \<leftarrow> fetch (rb_buf rb) src n; blit buf dst bytes }"

definition server_datagram :: "int \<Rightarrow> rtsp_client \<Rightarrow> u8 list \<Rightarrow> datagram" where
  "server_datagram udpfd c bytes =
     \<lparr>dg_fd = udpfd, dg_ip = rc_IP c, dg_port = word_of_int (fst (rc_rtpport c)), dg_data = bytes\<rparr>"

definition timestamp_increse :: u32 where "timestamp_increse = 3600"

text \<open>
  A frame that fits is one packet. The type and the importance of the unit are the constants zero.
\<close>

definition send_single :: "int \<Rightarrow> rtsp_client \<Rightarrow> rtp_buf \<Rightarrow> u8 list \<Rightarrow> (datagram list \<times> rtsp_client) option" where
  "send_single udpfd c rb buf = do {
     buf \<leftarrow> put_marker 1 buf;
     buf \<leftarrow> put_seq_no (rc_seqnum c) buf;
     buf \<leftarrow> put_timestamp (rc_tsvid c) buf;
     buf \<leftarrow> put_nalu 0 0 0 buf;
     buf \<leftarrow> copy_in 13 rb 0 (rb_len rb) buf;
     bytes \<leftarrow> fetch buf 0 (rb_len rb + 13);
     Some ([server_datagram udpfd c bytes],
           c\<lparr>rc_seqnum := rc_seqnum c + 1, rc_tsvid := rc_tsvid c + timestamp_increse\<rparr>)
   }"

text \<open>
  The loop over the packets of a longer frame: \<open>k\<close> whole ones, and a last one with the \<open>l\<close> bytes
  that are left, which may be none.
\<close>

function send_loop :: "int \<Rightarrow> rtp_buf \<Rightarrow> nat \<Rightarrow> nat \<Rightarrow> nat \<Rightarrow> rtsp_client \<Rightarrow> u8 list \<Rightarrow>
  (datagram list \<times> rtsp_client) option" where
  "send_loop udpfd rb k l t c buf =
     (if t \<le> k then do {
        buf \<leftarrow> put_seq_no (rc_seqnum c) buf;
        let c = c\<lparr>rc_seqnum := rc_seqnum c + 1\<rparr>;
        (buf, bytes) \<leftarrow>
          (if t = 0 then do {
             buf \<leftarrow> put_marker 0 buf;
             buf \<leftarrow> put_nalu 0 2 28 buf;
             buf \<leftarrow> put_fu_header 1 0 0 0 buf;
             buf \<leftarrow> copy_in 14 rb 0 nalu_sent_len buf;
             Some (buf, nalu_sent_len + 14)
           }
           else if k = t then do {
             buf \<leftarrow> put_marker 1 buf;
             buf \<leftarrow> put_nalu 0 0 28 buf;
             buf \<leftarrow> put_fu_header 0 1 0 0 buf;
             buf \<leftarrow> copy_in 14 rb (t * nalu_sent_len) l buf;
             Some (buf, l + 14)
           }
           else do {
             buf \<leftarrow> put_marker 0 buf;
             buf \<leftarrow> put_nalu 0 0 28 buf;
             buf \<leftarrow> put_fu_header 0 0 0 0 buf;
             buf \<leftarrow> copy_in 14 rb (t * nalu_sent_len) nalu_sent_len buf;
             Some (buf, nalu_sent_len + 14)
           });
        bytes \<leftarrow> fetch buf 0 bytes;
        (ds, c') \<leftarrow> send_loop udpfd rb k l (t + 1) c buf;
        Some (server_datagram udpfd c bytes # ds, c')
      }
      else Some ([], c))"
  by pat_completeness auto

termination
  by (relation "measure (\<lambda>(udpfd, rb, k, l, t, c, buf). k + 1 - t)") auto

declare send_loop.simps [simp del]

text \<open>\<open>junk\<close> is what the array \<open>sendbuf\<close>, which is not initialised, holds before.\<close>

definition send_frame :: "int \<Rightarrow> u8 list \<Rightarrow> rtsp_client \<Rightarrow> rtp_buf \<Rightarrow> (datagram list \<times> rtsp_client) option" where
  "send_frame udpfd junk c rb = do {
     buf \<leftarrow> put_fixed junk;
     if rb_len rb \<le> nalu_sent_len then send_single udpfd c rb buf
     else do {
       let k = rb_len rb div nalu_sent_len;
       let l = rb_len rb mod nalu_sent_len;
       let c = c\<lparr>rc_tsvid := rc_tsvid c + timestamp_increse\<rparr>;
       buf \<leftarrow> put_timestamp (rc_tsvid c) buf;
       send_loop udpfd rb k l 0 c buf
     }
   }"

text \<open>
  The function has the type \<open>int\<close> and no return statement, which C++ leaves undefined when the end is
  reached; its only caller drops the result, and the model returns.
\<close>

fun send_h264_for_rtsp_client :: "int \<Rightarrow> u8 list \<Rightarrow> rtp_buf \<Rightarrow> rtsp_client list \<Rightarrow>
  (datagram list \<times> rtsp_client list) option" where
  "send_h264_for_rtsp_client udpfd junk rb [] = Some ([], [])"
| "send_h264_for_rtsp_client udpfd junk rb (c # cs) = do {
     (ds, c) \<leftarrow> (if rc_status c \<noteq> RTSP_SENDING then Some ([], c) else send_frame udpfd junk c rb);
     (ds', cs) \<leftarrow> send_h264_for_rtsp_client udpfd junk rb cs;
     Some (ds @ ds', c # cs)
   }"

section \<open>The queue\<close>

text \<open>The global variables of the server that the sender uses, and what it has sent.\<close>

record rtp_state =
  rs_clients :: "rtsp_client list"
  rs_udpfd :: int
  rs_deque :: "rtp_buf list"
  rs_frame_cnt :: int
  rs_sent :: "datagram list"

text \<open>One turn of \<open>rtp_send_thread\<close>.\<close>

definition rtp_send_turn :: "u8 list \<Rightarrow> rtp_state \<Rightarrow> rtp_state option" where
  "rtp_send_turn junk s = (case rs_deque s of
     [] \<Rightarrow> Some s
   | rb # rbs \<Rightarrow> do {
       (ds, cs) \<leftarrow> send_h264_for_rtsp_client (rs_udpfd s) junk rb (rs_clients s);
       Some (s\<lparr>rs_clients := cs, rs_sent := rs_sent s @ ds, rs_deque := rbs, rs_frame_cnt := rs_frame_cnt s - 1\<rparr>)
     })"

text \<open>
  \<open>push_h264_stream\<close>, with a length of 16 bits: one copy of the frame for every client that plays.
  Memory that cannot be allocated is a null pointer that is written through.
\<close>

fun push_clients :: "u8 list \<Rightarrow> u16 \<Rightarrow> rtsp_client list \<Rightarrow> heap \<Rightarrow> rtp_state \<Rightarrow> (heap \<times> rtp_state) option" where
  "push_clients h264_buf buf_len [] hp s = Some (hp, s)"
| "push_clients h264_buf buf_len (c # cs) hp s =
     (if rc_status c = RTSP_SENDING then
        let (ok1, hp) = heap_alloc hp; (ok2, hp) = heap_alloc hp in
        (if ok1 \<and> ok2 then do {
           bytes \<leftarrow> fetch h264_buf 0 (unat buf_len);
           push_clients h264_buf buf_len cs hp
             (s\<lparr>rs_deque := rs_deque s @ [\<lparr>rb_len = unat buf_len, rb_buf = bytes\<rparr>], rs_frame_cnt := rs_frame_cnt s + 1\<rparr>)
         }
         else None)
      else push_clients h264_buf buf_len cs hp s)"

definition push_h264_stream :: "u8 list \<Rightarrow> u16 \<Rightarrow> heap \<Rightarrow> rtp_state \<Rightarrow> (heap \<times> rtp_state) option" where
  "push_h264_stream h264_buf buf_len hp s = push_clients h264_buf buf_len (rs_clients s) hp s"

definition H264_BUF_SIZE :: nat where "H264_BUF_SIZE = 150000"

text \<open>
  \<open>encoder\<close>: \<open>ret\<close> is the result of the conversion of the picture, \<open>bytes\<close> what the encoder then
  writes to the buffer.
\<close>

definition encoder :: "int \<Rightarrow> u8 list \<Rightarrow> u8 list" where
  "encoder ret bytes = (if ret < 0 then [] else bytes)"

text \<open>
  \<open>push_stream\<close>: the buffer of the encoder keeps its old contents \<open>junk\<close> behind what is written.
\<close>

definition push_stream :: "int \<Rightarrow> u8 list \<Rightarrow> u8 list \<Rightarrow> heap \<Rightarrow> rtp_state \<Rightarrow> (int \<times> heap \<times> rtp_state) option" where
  "push_stream ret bytes junk hp s =
     (let (ok, hp) = heap_alloc hp; bytes = encoder ret bytes; n = length bytes in
      if n = 0 then Some (-1, hp, s)
      else if \<not> ok then None
      else do {
        h264_buf \<leftarrow> blit junk 0 bytes;
        (hp, s) \<leftarrow> push_h264_stream h264_buf (of_nat n) hp s;
        Some (0, hp, s)
      })"

section \<open>Packets\<close>

definition rtp_marker :: "u8 list \<Rightarrow> bool" where "rtp_marker p \<longleftrightarrow> bit (p ! 1) 7"
definition rtp_seq :: "u8 list \<Rightarrow> u8 list" where "rtp_seq p = take 2 (drop 2 p)"
definition rtp_time :: "u8 list \<Rightarrow> u8 list" where "rtp_time p = take 4 (drop 4 p)"
definition rtp_ssrc :: "u8 list \<Rightarrow> u8 list" where "rtp_ssrc p = take 4 (drop 8 p)"
definition fu_start :: "u8 list \<Rightarrow> bool" where "fu_start p \<longleftrightarrow> bit (p ! 13) 7"
definition fu_end :: "u8 list \<Rightarrow> bool" where "fu_end p \<longleftrightarrow> bit (p ! 13) 6"

text \<open>
  A receiver of fragments: it wants the numbers in sequence, the start flag on the first packet and
  only there, and ends with the packet that has the end flag.
\<close>

fun reassemble :: "bool \<Rightarrow> u16 \<Rightarrow> u8 list list \<Rightarrow> u8 list option" where
  "reassemble first n [] = None"
| "reassemble first n (p # ps) =
     (if rtp_seq p = be16 n \<and> fu_start p = first \<and> p ! 12 AND 31 = 28 then
        (if fu_end p then if ps = [] \<and> rtp_marker p then Some (drop 14 p) else None
         else if rtp_marker p then None
         else do { rest \<leftarrow> reassemble False (n + 1) ps; Some (drop 14 p @ rest) })
      else None)"


section \<open>Lemmas on packets\<close>

lemma bit_set_field: "n + w \<le> 8 \<Longrightarrow> bit (set_field n w v b) m = (if n \<le> m \<and> m < n + w then bit v (m - n) else bit b m)"
  by (auto simp: set_field_def bit_simps dest: bit_imp_le_length)

definition nalu_byte :: "u8 \<Rightarrow> u8 \<Rightarrow> u8 \<Rightarrow> u8" where
  "nalu_byte f nri type = push_bit 7 f OR push_bit 5 (nri AND 3) OR (type AND 31)"

definition fu_byte :: "u8 \<Rightarrow> u8 \<Rightarrow> u8" where
  "fu_byte s e = push_bit 7 s OR push_bit 6 (e AND 1)"

lemma byte_eqI:
  assumes "bit a 0 = bit b 0" "bit a 1 = bit b 1" "bit a 2 = bit b 2" "bit a 3 = bit b 3"
    "bit a 4 = bit b 4" "bit a 5 = bit b 5" "bit a 6 = bit b 6" "bit a 7 = bit (b :: u8) 7"
  shows "a = b"
proof (rule bit_word_eqI)
  fix n assume "n < LENGTH(8)"
  then consider "n = 0" | "n = 1" | "n = 2" | "n = 3" | "n = 4" | "n = 5" | "n = 6" | "n = 7" by force
  then show "bit a n = bit b n" using assms by cases simp_all
qed

lemma nalu_all: "set_field 0 5 ty (set_field 5 2 nri (set_field 7 1 f b)) = nalu_byte f nri ty"
  by (rule byte_eqI) (simp_all add: bit_set_field nalu_byte_def bit_or_iff bit_push_bit_iff bit_and_iff)

lemma fu_all: "set_field 0 5 0 (set_field 7 1 s (set_field 5 1 0 (set_field 6 1 e b))) = fu_byte s e"
  by (rule byte_eqI) (simp_all add: bit_set_field fu_byte_def bit_or_iff bit_push_bit_iff bit_and_iff)

lemma header_bytes: "set_field 7 1 0 (set_field 0 7 RTP_H264 b) = 96"
  by (rule byte_eqI) (simp_all add: bit_set_field RTP_H264_def)

lemma marker_bytes: "set_field 7 1 0 96 = 96" "set_field 7 1 1 96 = 224" "set_field 7 1 0 224 = 96" "set_field 7 1 1 224 = 224"
  by (simp_all add: set_field_def)

lemma unit_bytes: "nalu_byte 0 2 28 = 92" "nalu_byte 0 0 28 = 28" "nalu_byte 0 0 0 = 0" "fu_byte 1 0 = 128" "fu_byte 0 1 = 64" "fu_byte 0 0 = 0"
  by (simp_all add: nalu_byte_def fu_byte_def)

lemma long_list:
  assumes "14 \<le> length (xs :: 'a list)"
  obtains a0 a1 a2 a3 a4 a5 a6 a7 a8 a9 aa ab ac ad rest where
    "xs = a0 # a1 # a2 # a3 # a4 # a5 # a6 # a7 # a8 # a9 # aa # ab # ac # ad # rest"
proof -
  from assms have "Suc (Suc (Suc (Suc (Suc (Suc (Suc (Suc (Suc (Suc (Suc (Suc (Suc (Suc 0))))))))))))) \<le> length xs" by simp
  then show thesis using that by (auto simp only: Suc_le_length_iff)
qed


text \<open>The packets of the loop; \<open>a0\<close> and \<open>ts\<close> are what the header holds already.\<close>

definition chunk :: "nat \<Rightarrow> nat \<Rightarrow> rtp_buf \<Rightarrow> nat \<Rightarrow> u8 list" where
  "chunk k l rb i = take (if i = k then l else nalu_sent_len) (drop (i * nalu_sent_len) (rb_buf rb))"

definition packet :: "u8 \<Rightarrow> u8 list \<Rightarrow> nat \<Rightarrow> nat \<Rightarrow> rtp_buf \<Rightarrow> int \<Rightarrow> nat \<Rightarrow> u8 list" where
  "packet a0 ts k l rb q i = [a0, if i = k then 224 else 96] @ be16 (word_of_int q) @ ts @
     [if i = 0 then 92 else 28, if i = 0 then 128 else if i = k then 64 else 0] @ chunk k l rb i"

lemma packet_steps:
  "put_seq_no q (a0 # a1 # a2 # a3 # xs) = Some (a0 # a1 # ucast (drop_bit 8 (word_of_int q :: u16)) # ucast (word_of_int q :: u16) # xs)"
  "put_marker m (a0 # a1 # xs) = Some (a0 # set_field 7 1 m a1 # xs)"
  "put_nalu f nri ty (a0 # a1 # a2 # a3 # a4 # a5 # a6 # a7 # a8 # a9 # aa # ab # ac # xs) =
    Some (a0 # a1 # a2 # a3 # a4 # a5 # a6 # a7 # a8 # a9 # aa # ab # nalu_byte f nri ty # xs)"
  "put_fu_header s e 0 0 (a0 # a1 # a2 # a3 # a4 # a5 # a6 # a7 # a8 # a9 # aa # ab # ac # ad # xs) =
    Some (a0 # a1 # a2 # a3 # a4 # a5 # a6 # a7 # a8 # a9 # aa # ab # ac # fu_byte s e # xs)"
  by (simp_all add: put_seq_no_def blit_def be16_def put_marker_def put_field_def put_nalu_def put_fu_header_def
      nalu_all [unfolded One_nat_def] fu_all [unfolded One_nat_def])

lemma payload_step:
  assumes "n \<le> length xs" "src + n \<le> length (rb_buf rb)"
  shows "copy_in 14 rb src n (a0 # a1 # a2 # a3 # a4 # a5 # a6 # a7 # a8 # a9 # aa # ab # ac # ad # xs) =
      Some (a0 # a1 # a2 # a3 # a4 # a5 # a6 # a7 # a8 # a9 # aa # ab # ac # ad # take n (drop src (rb_buf rb)) @ drop n xs)"
proof -
  define ys where "ys = take n (drop src (rb_buf rb))"
  have "length ys = n" using assms(2) by (simp add: ys_def)
  then show ?thesis using assms by (simp add: copy_in_def fetch_def blit_def ys_def [symmetric] numeral_eq_Suc)
qed

lemma packet_fetched:
  assumes "n \<le> length xs"
  shows "fetch (a0 # a1 # a2 # a3 # a4 # a5 # a6 # a7 # a8 # a9 # aa # ab # ac # ad # xs) 0 (n + 14) =
      Some (a0 # a1 # a2 # a3 # a4 # a5 # a6 # a7 # a8 # a9 # aa # ab # ac # ad # take n xs)"
  using assms by (simp add: fetch_def numeral_eq_Suc)

lemma send_loop_packets:
  assumes "1 \<le> k" "t \<le> k + 1" "length ts = 8" "a1 \<in> {96, 224}" "buf = a0 # a1 # a2 # a3 # ts @ ac # ad # rest"
    "nalu_sent_len \<le> length rest" "l < nalu_sent_len" "k * nalu_sent_len + l \<le> length (rb_buf rb)"
  shows "send_loop udpfd rb k l t c buf =
    Some (map (\<lambda>i. server_datagram udpfd c (packet a0 ts k l rb (rc_seqnum c + int (i - t)) i)) [t..<k + 1],
          c\<lparr>rc_seqnum := rc_seqnum c + int (k + 1 - t)\<rparr>)"
  using assms(2,4-6)
proof (induction "k + 1 - t" arbitrary: t c buf a1 a2 a3 ac ad rest)
  case 0
  then show ?case by (simp add: send_loop.simps)
next
  case (Suc n)
  define m where "m = (if t = k then l else nalu_sent_len)"
  define c1 where "c1 = c\<lparr>rc_seqnum := rc_seqnum c + 1\<rparr>"
  obtain t0 t1 t2 t3 t4 t5 t6 t7 where ts: "ts = [t0, t1, t2, t3, t4, t5, t6, t7]"
    using assms(3) by (auto simp: numeral_eq_Suc length_Suc_conv)
  define q0 :: u8 where "q0 = ucast (drop_bit 8 (word_of_int (rc_seqnum c) :: u16))"
  define q1 :: u8 where "q1 = ucast (word_of_int (rc_seqnum c) :: u16)"
  define rest' where "rest' = take m (drop (t * nalu_sent_len) (rb_buf rb)) @ drop m rest"
  define buf' where "buf' = a0 # (if t = k then 224 else 96) # q0 # q1 # ts @ (if t = 0 then 92 else 28) #
     (if t = 0 then 128 else if t = k then 64 else 0) # rest'"
  have t: "t \<le> k" using Suc.hyps(2) by simp
  have src: "t * nalu_sent_len + m \<le> length (rb_buf rb)"
    using assms(8) t mult_le_mono1 [of "t + 1" k nalu_sent_len] by (cases "t = k") (auto simp: m_def)
  have m: "m \<le> length rest" using Suc.prems(4) assms(7) by (simp add: m_def)
  have rest': "nalu_sent_len \<le> length rest'" "m \<le> length rest'" "take m rest' = chunk k l rb t"
    using src m Suc.prems(4) by (auto simp: rest'_def chunk_def m_def)
  have a1: "set_field 7 1 0 a1 = 96" "set_field 7 1 1 a1 = 224" using Suc.prems(2) marker_bytes by auto
  have pk: "fetch buf' 0 (m + 14) = Some (packet a0 ts k l rb (rc_seqnum c) t)"
    using rest' by (simp add: buf'_def ts packet_fetched packet_def be16_def q0_def q1_def)
  have IH: "send_loop udpfd rb k l (t + 1) c1 buf' =
    Some (map (\<lambda>i. server_datagram udpfd c1 (packet a0 ts k l rb (rc_seqnum c1 + int (i - (t + 1))) i)) [t + 1..<k + 1],
          c1\<lparr>rc_seqnum := rc_seqnum c1 + int (k + 1 - (t + 1))\<rparr>)"
    by (rule Suc.hyps(1) [OF _ _ _ buf'_def rest'(1)]) (use Suc.hyps(2) t in auto)
  have step: "send_loop udpfd rb k l t c buf = do {
      bytes \<leftarrow> fetch buf' 0 (m + 14);
      (ds, c') \<leftarrow> send_loop udpfd rb k l (t + 1) c1 buf';
      Some (server_datagram udpfd c1 bytes # ds, c') }"
  proof -
    have pay: "copy_in 14 rb (t * nalu_sent_len) m (a0 # b1 # q0 # q1 # t0 # t1 # t2 # t3 # t4 # t5 # t6 # t7 # b2 # b3 # rest) =
        Some (a0 # b1 # q0 # q1 # t0 # t1 # t2 # t3 # t4 # t5 # t6 # t7 # b2 # b3 # rest')" for b1 b2 b3
      unfolding rest'_def by (rule payload_step [OF m src])
    note simps = Suc.prems(3) ts packet_steps q0_def [symmetric] q1_def [symmetric] a1 [unfolded One_nat_def] unit_bytes m_def buf'_def c1_def Let_def
    consider "t = 0" "t \<noteq> k" | "t = k" "t \<noteq> 0" | "t \<noteq> 0" "t \<noteq> k" using assms(1) by force
    then show ?thesis
    proof cases
      case 1
      then show ?thesis using pay by (subst send_loop.simps) (simp add: simps)
    next
      case 2
      then show ?thesis using pay by (subst send_loop.simps) (simp add: simps)
    next
      case 3
      then show ?thesis using pay t by (subst send_loop.simps) (simp add: simps)
    qed
  qed
  have upt: "[t..<k + 1] = t # [t + 1..<k + 1]" using t by (simp add: upt_rec)
  have num: "rc_seqnum c + 1 + int (i - Suc t) = rc_seqnum c + int (i - t)" if "Suc t \<le> i" for i
    using that by simp
  show ?case unfolding step pk IH upt using t by (auto simp: c1_def server_datagram_def num)
qed


text \<open>A receiver of the packets gets the frame.\<close>

lemma chunks_concat:
  "t \<le> k \<Longrightarrow> concat (map (chunk k l rb) [t..<k + 1]) = take ((k - t) * nalu_sent_len + l) (drop (t * nalu_sent_len) (rb_buf rb))"
proof (induction "k - t" arbitrary: t)
  case 0
  then show ?case by (simp add: chunk_def)
next
  case (Suc n)
  have upt: "[t..<k + 1] = t # [t + 1..<k + 1]" using Suc.prems by (simp add: upt_rec)
  have k: "(k - t) * nalu_sent_len + l = nalu_sent_len + ((k - (t + 1)) * nalu_sent_len + l)"
    using Suc.hyps(2) by (metis Suc_diff_le add.assoc diff_Suc_Suc Suc_eq_plus1 mult_Suc Suc.prems diff_add_inverse2 diff_diff_left)
  have "concat (map (chunk k l rb) [t + 1..<k + 1]) =
      take ((k - (t + 1)) * nalu_sent_len + l) (drop ((t + 1) * nalu_sent_len) (rb_buf rb))"
    by (rule Suc.hyps(1)) (use Suc.hyps(2) in auto)
  moreover have "t \<noteq> k" using Suc.hyps(2) by simp
  ultimately show ?case unfolding upt k by (simp add: chunk_def take_add add.commute)
qed

lemma packet_fields:
  assumes "length ts = 8"
  shows "rtp_seq (packet a0 ts k l rb q i) = be16 (word_of_int q)" "drop 14 (packet a0 ts k l rb q i) = chunk k l rb i"
    "rtp_marker (packet a0 ts k l rb q i) \<longleftrightarrow> i = k" "packet a0 ts k l rb q i ! 12 AND 31 = 28"
    "1 \<le> k \<Longrightarrow> fu_start (packet a0 ts k l rb q i) \<longleftrightarrow> i = 0" "1 \<le> k \<Longrightarrow> fu_end (packet a0 ts k l rb q i) \<longleftrightarrow> i = k"
    "rtp_time (packet a0 ts k l rb q i) = take 4 ts" "rtp_ssrc (packet a0 ts k l rb q i) = drop 4 ts"
proof -
  obtain t0 t1 t2 t3 t4 t5 t6 t7 where ts: "ts = [t0, t1, t2, t3, t4, t5, t6, t7]"
    using assms by (auto simp: numeral_eq_Suc length_Suc_conv)
  show "rtp_seq (packet a0 ts k l rb q i) = be16 (word_of_int q)" "drop 14 (packet a0 ts k l rb q i) = chunk k l rb i"
    "rtp_marker (packet a0 ts k l rb q i) \<longleftrightarrow> i = k" "packet a0 ts k l rb q i ! 12 AND 31 = 28"
    "1 \<le> k \<Longrightarrow> fu_start (packet a0 ts k l rb q i) \<longleftrightarrow> i = 0" "1 \<le> k \<Longrightarrow> fu_end (packet a0 ts k l rb q i) \<longleftrightarrow> i = k"
    "rtp_time (packet a0 ts k l rb q i) = take 4 ts" "rtp_ssrc (packet a0 ts k l rb q i) = drop 4 ts"
    by (auto simp: packet_def be16_def ts rtp_seq_def rtp_marker_def fu_start_def fu_end_def rtp_time_def rtp_ssrc_def)
qed

lemma packets_reassemble:
  assumes "1 \<le> k" "t \<le> k" "length ts = 8"
  shows "reassemble (t = 0) (word_of_int (q + int t)) (map (\<lambda>i. packet a0 ts k l rb (q + int i) i) [t..<k + 1]) =
    Some (concat (map (chunk k l rb) [t..<k + 1]))"
  using assms(2)
proof (induction "k - t" arbitrary: t)
  case 0
  then show ?case using assms(1) by (simp add: packet_fields [OF assms(3)])
next
  case (Suc n)
  have upt: "[t..<k + 1] = t # [t + 1..<k + 1]" using Suc.prems by (simp add: upt_rec)
  have "reassemble (t + 1 = 0) (word_of_int (q + int (t + 1))) (map (\<lambda>i. packet a0 ts k l rb (q + int i) i) [t + 1..<k + 1]) =
      Some (concat (map (chunk k l rb) [t + 1..<k + 1]))"
    by (rule Suc.hyps(1)) (use Suc.hyps(2) in auto)
  moreover have "(word_of_int (q + int (t + 1)) :: u16) = word_of_int (q + int t) + 1"
  proof -
    have "q + int (t + 1) = q + int t + 1" by simp
    then show ?thesis by (simp only: of_int_add of_int_1)
  qed
  moreover have "t \<noteq> k" using Suc.hyps(2) by simp
  ultimately show ?case unfolding upt using assms(1)
    by (simp add: packet_fields [OF assms(3)] add_ac del: upt_Suc)
qed


text \<open>The whole of a frame.\<close>

definition frame_ok :: "rtp_buf \<Rightarrow> bool" where
  "frame_ok rb \<longleftrightarrow> rb_len rb = length (rb_buf rb) \<and> rb_len rb < 2 ^ 16"

lemma put_fixed_steps:
  assumes "nalu_sent_len + 14 \<le> length junk"
  shows "\<exists>a0 a2 a3 ts ac ad rest. put_fixed junk = Some (a0 # 96 # a2 # a3 # ts @ ac # ad # rest) \<and> length ts = 8 \<and>
    nalu_sent_len \<le> length rest"
proof -
  have "14 \<le> length junk" using assms by simp
  then obtain a0 a1 a2 a3 a4 a5 a6 a7 a8 a9 aa ab ac ad rest where
    junk: "junk = a0 # a1 # a2 # a3 # a4 # a5 # a6 # a7 # a8 # a9 # aa # ab # ac # ad # rest"
    by (rule long_list)
  have len: "6 \<le> length rest" "nalu_sent_len \<le> length rest" using assms by (auto simp: junk nalu_sent_len_def)
  let ?ts = "[a4, a5, a6, a7, a8, a9, aa, ab]" and ?rest = "[0, 10, 0, 0, 0, 0] @ drop 6 rest"
  have "put_fixed junk = Some (set_field 6 2 2 a0 # 96 # a2 # a3 # ?ts @ 0 # 0 # ?rest)"
    using len(1) by (simp add: put_fixed_def put_field_def packet_steps put_ssrc_def blit_def be32_def junk
        header_bytes [unfolded One_nat_def])
  moreover have "length ?ts = 8" "nalu_sent_len \<le> length ?rest" using len by simp_all
  ultimately show ?thesis by blast
qed


text \<open>A receiver of one frame: a packet by itself, or fragments.\<close>

definition receive :: "u16 \<Rightarrow> u8 list list \<Rightarrow> u8 list option" where
  "receive n ps = (case ps of
     [p] \<Rightarrow> if p ! 12 AND 31 \<noteq> 28 \<and> rtp_seq p = be16 n \<and> rtp_marker p then Some (drop 13 p) else reassemble True n [p]
   | _ \<Rightarrow> reassemble True n ps)"

definition frame_time :: "rtsp_client \<Rightarrow> rtp_buf \<Rightarrow> u32" where
  "frame_time c rb = (if rb_len rb \<le> nalu_sent_len then rc_tsvid c else rc_tsvid c + timestamp_increse)"

definition last_marked :: "u8 list list \<Rightarrow> bool" where
  "last_marked ps \<longleftrightarrow> ps \<noteq> [] \<and> rtp_marker (last ps) \<and> (\<forall>p \<in> set (butlast ps). \<not> rtp_marker p)"

definition frame_sent :: "int \<Rightarrow> rtsp_client \<Rightarrow> rtp_buf \<Rightarrow> datagram list \<Rightarrow> rtsp_client \<Rightarrow> bool" where
  "frame_sent udpfd c rb ds c' \<longleftrightarrow>
     receive (word_of_int (rc_seqnum c)) (map dg_data ds) = Some (rb_buf rb) \<and> last_marked (map dg_data ds) \<and>
     length ds = (if rb_len rb \<le> nalu_sent_len then 1 else rb_len rb div nalu_sent_len + 1) \<and>
     (\<forall>d \<in> set ds. d = server_datagram udpfd c (dg_data d) \<and> length (dg_data d) \<le> nalu_sent_len + 14 \<and>
        rtp_time (dg_data d) = be32 (frame_time c rb) \<and> rtp_ssrc (dg_data d) = [0, 0, 0, 0]) \<and>
     c' = c\<lparr>rc_seqnum := rc_seqnum c + int (length ds), rc_tsvid := rc_tsvid c + timestamp_increse\<rparr>"

lemma put_time:
  assumes "length ts = 8"
  shows "put_timestamp t (a0 # a1 # a2 # a3 # ts @ xs) = Some (a0 # a1 # a2 # a3 # (be32 t @ [0, 0, 0, 0]) @ xs)"
proof -
  obtain t0 t1 t2 t3 t4 t5 t6 t7 where ts: "ts = [t0, t1, t2, t3, t4, t5, t6, t7]"
    using assms by (auto simp: numeral_eq_Suc length_Suc_conv)
  show ?thesis by (simp add: ts put_timestamp_def blit_def be32_def)
qed

lemma send_single_sent:
  assumes "rb_len rb = length (rb_buf rb)" "rb_len rb \<le> nalu_sent_len" "length ts = 8" "nalu_sent_len \<le> length rest"
  shows "\<exists>ds c'. send_single udpfd c rb (a0 # 96 # a2 # a3 # ts @ ac # ad # rest) = Some (ds, c') \<and> frame_sent udpfd c rb ds c'"
proof -
  let ?p = "a0 # 224 # be16 (word_of_int (rc_seqnum c)) @ (be32 (rc_tsvid c) @ [0, 0, 0, 0]) @ 0 # rb_buf rb"
  have len: "length (rb_buf rb) \<le> Suc (length rest)" using assms by simp
  have mark: "set_field 7 (Suc 0) 1 96 = (224 :: u8)" using marker_bytes(2) by simp
  have nalu: "nalu_byte 0 0 0 = 0" by (rule unit_bytes)
  have "put_marker 1 (a0 # 96 # a2 # a3 # ts @ ac # ad # rest) = Some (a0 # 224 # a2 # a3 # ts @ ac # ad # rest)"
    by (simp add: packet_steps mark)
  moreover have "put_seq_no (rc_seqnum c) (a0 # 224 # a2 # a3 # ts @ ac # ad # rest) =
      Some (a0 # 224 # ucast (drop_bit 8 (word_of_int (rc_seqnum c) :: u16)) # ucast (word_of_int (rc_seqnum c) :: u16) # ts @ ac # ad # rest)"
    by (simp add: packet_steps)
  moreover note put_time [OF assms(3), of "rc_tsvid c" a0 224 _ _ "ac # ad # rest"]
  moreover have "put_nalu 0 0 0 (a0 # 224 # b2 # b3 # (be32 t @ [0, 0, 0, 0]) @ ac # ad # rest) =
      Some (a0 # 224 # b2 # b3 # (be32 t @ [0, 0, 0, 0]) @ 0 # ad # rest)" for b2 b3 t
    by (simp add: be32_def packet_steps nalu)
  moreover have "copy_in 13 rb 0 (length (rb_buf rb)) (a0 # 224 # b2 # b3 # (be32 t @ [0, 0, 0, 0]) @ 0 # ad # rest) =
      Some (a0 # 224 # b2 # b3 # (be32 t @ [0, 0, 0, 0]) @ 0 # rb_buf rb @ drop (length (rb_buf rb)) (ad # rest))" for b2 b3 t
    using len by (simp add: copy_in_def fetch_def blit_def be32_def numeral_eq_Suc)
  moreover have "fetch (a0 # 224 # b2 # b3 # (be32 t @ [0, 0, 0, 0]) @ 0 # rb_buf rb @ xs) 0 (length (rb_buf rb) + 13) =
      Some (a0 # 224 # b2 # b3 # (be32 t @ [0, 0, 0, 0]) @ 0 # rb_buf rb)" for b2 b3 t xs
    by (simp add: fetch_def be32_def numeral_eq_Suc)
  ultimately have "send_single udpfd c rb (a0 # 96 # a2 # a3 # ts @ ac # ad # rest) =
      Some ([server_datagram udpfd c ?p], c\<lparr>rc_seqnum := rc_seqnum c + 1, rc_tsvid := rc_tsvid c + timestamp_increse\<rparr>)"
    by (simp add: send_single_def assms(1) be16_def)
  moreover have "frame_sent udpfd c rb [server_datagram udpfd c ?p]
      (c\<lparr>rc_seqnum := rc_seqnum c + 1, rc_tsvid := rc_tsvid c + timestamp_increse\<rparr>)"
    using assms(1,2) by (simp add: frame_sent_def server_datagram_def receive_def last_marked_def rtp_seq_def rtp_marker_def
        rtp_time_def rtp_ssrc_def be16_def be32_def frame_time_def)
  ultimately show ?thesis by blast
qed


lemma receive_many: "length ps \<noteq> 1 \<Longrightarrow> receive n ps = reassemble True n ps"
  by (auto simp: receive_def split: list.splits)

lemma send_loop_sent:
  assumes "rb_len rb = length (rb_buf rb)" "nalu_sent_len < rb_len rb" "length ts = 8" "nalu_sent_len \<le> length rest"
  shows "\<exists>ds c'. (do {
      buf \<leftarrow> put_timestamp (rc_tsvid c + timestamp_increse) (a0 # 96 # a2 # a3 # ts @ ac # ad # rest);
      send_loop udpfd rb (rb_len rb div nalu_sent_len) (rb_len rb mod nalu_sent_len) 0
        (c\<lparr>rc_tsvid := rc_tsvid c + timestamp_increse\<rparr>) buf }) = Some (ds, c') \<and> frame_sent udpfd c rb ds c'"
proof -
  define k where "k = rb_len rb div nalu_sent_len"
  define l where "l = rb_len rb mod nalu_sent_len"
  define c1 where "c1 = c\<lparr>rc_tsvid := rc_tsvid c + timestamp_increse\<rparr>"
  define tb where "tb = be32 (rc_tsvid c + timestamp_increse) @ [0, 0, 0, 0]"
  have tb: "length tb = 8" by (simp add: tb_def be32_def)
  have k: "1 \<le> k" using assms(2) by (simp add: k_def nalu_sent_len_def)
  have l: "l < nalu_sent_len" by (simp add: l_def nalu_sent_len_def)
  have kl: "k * nalu_sent_len + l = length (rb_buf rb)" using assms(1) by (simp add: k_def l_def)
  let ?pk = "packet a0 tb k l rb"
  define ds where "ds = map (\<lambda>i. server_datagram udpfd c1 (?pk (rc_seqnum c1 + int i) i)) [0..<k + 1]"
  define c2 where "c2 = c1\<lparr>rc_seqnum := rc_seqnum c1 + int (k + 1)\<rparr>"
  have run: "send_loop udpfd rb k l 0 c1 (a0 # 96 # a2 # a3 # tb @ ac # ad # rest) = Some (ds, c2)"
    using send_loop_packets [OF k _ tb _ refl assms(4) l, of 0 96 rb udpfd c1 a0 a2 a3 ac ad] kl
    by (simp add: ds_def c2_def)
  have upt: "[0..<k + 1] = [0..<k] @ [k]" by simp
  have data: "map dg_data ds = map (\<lambda>i. ?pk (rc_seqnum c + int i) i) [0..<k + 1]"
    by (simp add: ds_def server_datagram_def c1_def)
  have "receive n (map dg_data ds) = reassemble True n (map dg_data ds)" for n
    by (rule receive_many) (use k in \<open>simp add: data\<close>)
  moreover have "reassemble True (word_of_int (rc_seqnum c)) (map dg_data ds) = Some (rb_buf rb)"
    using packets_reassemble [OF k _ tb, of 0 "rc_seqnum c" a0 l rb] chunks_concat [of 0 k l rb] kl by (simp add: data)
  moreover have "last_marked (map dg_data ds)"
    unfolding data upt by (simp add: last_marked_def packet_fields [OF tb] butlast_append)
  moreover have "length (chunk k l rb i) \<le> nalu_sent_len" for i using l by (simp add: chunk_def min_le_iff_disj)
  then have "d = server_datagram udpfd c (dg_data d) \<and> length (dg_data d) \<le> nalu_sent_len + 14 \<and>
      rtp_time (dg_data d) = be32 (frame_time c rb) \<and> rtp_ssrc (dg_data d) = [0, 0, 0, 0]" if "d \<in> set ds" for d
    using that assms(2) tb packet_fields(7,8) [OF tb]
    by (auto simp: ds_def server_datagram_def c1_def frame_time_def packet_def be16_def tb_def be32_def
        rtp_time_def rtp_ssrc_def)
  ultimately have "frame_sent udpfd c rb ds c2"
    using assms(2) by (auto simp: frame_sent_def c2_def c1_def k_def ds_def)
  moreover have "(do { buf \<leftarrow> put_timestamp (rc_tsvid c + timestamp_increse) (a0 # 96 # a2 # a3 # ts @ ac # ad # rest);
      send_loop udpfd rb k l 0 c1 buf }) = Some (ds, c2)"
    using run by (simp add: put_time [OF assms(3)] tb_def)
  ultimately show ?thesis unfolding k_def l_def c1_def by blast
qed

lemma send_frame_sent:
  assumes "rb_len rb = length (rb_buf rb)" "nalu_sent_len + 14 \<le> length junk"
  shows "\<exists>ds c'. send_frame udpfd junk c rb = Some (ds, c') \<and> frame_sent udpfd c rb ds c'"
proof -
  obtain a0 a2 a3 ts ac ad rest where j: "put_fixed junk = Some (a0 # 96 # a2 # a3 # ts @ ac # ad # rest)"
    "length ts = 8" "nalu_sent_len \<le> length rest"
    using put_fixed_steps [OF assms(2)] by blast
  show ?thesis
  proof (cases "rb_len rb \<le> nalu_sent_len")
    case True
    then show ?thesis using send_single_sent [OF assms(1) _ j(2,3)] by (simp add: send_frame_def j(1))
  next
    case False
    then show ?thesis using send_loop_sent [OF assms(1) _ j(2,3)] by (simp add: send_frame_def j(1) Let_def)
  qed
qed

section \<open>The stream\<close>

text \<open>Frames pushed and turns of the sending thread, in any order.\<close>

datatype rtp_event = Push "u8 list" | Turn "u8 list"

fun rtp_event_step :: "rtp_event \<Rightarrow> rtp_state \<Rightarrow> rtp_state option" where
  "rtp_event_step (Push frame) s = map_option snd (push_h264_stream frame (of_nat (length frame)) [] s)"
| "rtp_event_step (Turn junk) s = rtp_send_turn junk s"

fun rtp_run :: "rtp_event list \<Rightarrow> rtp_state \<Rightarrow> rtp_state option" where
  "rtp_run [] s = Some s"
| "rtp_run (e # es) s = do { s \<leftarrow> rtp_event_step e s; rtp_run es s }"

definition pushed :: "rtp_event list \<Rightarrow> u8 list list" where
  "pushed es = concat (map (\<lambda>e. case e of Push f \<Rightarrow> [f] | Turn _ \<Rightarrow> []) es)"

definition turns :: "rtp_event list \<Rightarrow> nat" where
  "turns es = length (filter (\<lambda>e. case e of Push f \<Rightarrow> False | Turn _ \<Rightarrow> True) es)"

fun event_ok :: "rtp_event \<Rightarrow> bool" where
  "event_ok (Push frame) = (length frame < 2 ^ 16)"
| "event_ok (Turn junk) = (length junk = SENDBUF_SIZE)"

text \<open>A receiver of the stream: packets up to one with the marker are a frame.\<close>

fun split_frames :: "u8 list list \<Rightarrow> u8 list list list" where
  "split_frames [] = []"
| "split_frames (p # ps) =
     (if rtp_marker p then [p] # split_frames ps
      else case split_frames ps of [] \<Rightarrow> [[p]] | g # gs \<Rightarrow> (p # g) # gs)"

fun receive_all :: "u16 \<Rightarrow> u8 list list list \<Rightarrow> u8 list list option" where
  "receive_all n [] = Some []"
| "receive_all n (g # gs) = do { f \<leftarrow> receive n g; fs \<leftarrow> receive_all (n + of_nat (length g)) gs; Some (f # fs) }"

definition received :: "rtsp_client \<Rightarrow> datagram list \<Rightarrow> u8 list list option" where
  "received c ds = receive_all (word_of_int (rc_seqnum c)) (split_frames (map dg_data ds))"

lemma split_frames_group: "last_marked g \<Longrightarrow> split_frames (g @ ps) = g # split_frames ps"
proof (induction g)
  case (Cons p g)
  then show ?case by (cases g) (auto simp: last_marked_def)
qed (simp add: last_marked_def)

lemma split_frames_concat: "\<forall>g \<in> set gs. last_marked g \<Longrightarrow> split_frames (concat gs) = gs"
  by (induction gs) (auto simp: split_frames_group)

lemma receive_all_append:
  "receive_all n gs = Some fs \<Longrightarrow> receive (n + of_nat (length (concat gs))) g = Some f \<Longrightarrow>
   receive_all n (gs @ [g]) = Some (fs @ [f])"
  by (induction n gs arbitrary: fs rule: receive_all.induct) (auto split: bind_splits simp: add_ac)


definition waiting :: "u8 list \<Rightarrow> rtp_buf" where
  "waiting f = \<lparr>rb_len = length f, rb_buf = f\<rparr>"

text \<open>
  The first \<open>m\<close> of the frames \<open>fs\<close> have been sent, as the groups of packets \<open>gs\<close>, and the others wait.
\<close>

definition stream_inv :: "rtsp_client \<Rightarrow> u8 list list \<Rightarrow> nat \<Rightarrow> rtp_state \<Rightarrow> bool" where
  "stream_inv c0 fs m s \<longleftrightarrow> m \<le> length fs \<and> rs_deque s = map waiting (drop m fs) \<and> rs_frame_cnt s = int (length fs - m) \<and>
     (\<exists>gs c. rs_clients s = [c] \<and> rc_status c = RTSP_SENDING \<and> rc_seqnum c = rc_seqnum c0 + int (length (concat gs)) \<and>
        map dg_data (rs_sent s) = concat gs \<and> (\<forall>g \<in> set gs. last_marked g) \<and>
        receive_all (word_of_int (rc_seqnum c0)) gs = Some (take m fs))"

lemma push_inv:
  assumes "stream_inv c0 fs m s" "length f < 2 ^ 16"
  shows "\<exists>s'. rtp_event_step (Push f) s = Some s' \<and> stream_inv c0 (fs @ [f]) m s'"
proof -
  have "unat (of_nat (length f) :: u16) = length f" using assms(2) by (simp add: unat_of_nat)
  then show ?thesis using assms(1)
    by (auto simp: stream_inv_def push_h264_stream_def fetch_def waiting_def)
qed

lemma turn_inv:
  assumes "stream_inv c0 fs m s" "length junk = SENDBUF_SIZE"
  shows "\<exists>s'. rtp_event_step (Turn junk) s = Some s' \<and> stream_inv c0 fs (min (m + 1) (length fs)) s'"
proof (cases "m < length fs")
  case False
  then show ?thesis using assms(1) by (auto simp: stream_inv_def rtp_send_turn_def min_def)
next
  case True
  obtain gs c where i: "rs_clients s = [c]" "rc_status c = RTSP_SENDING" "rc_seqnum c = rc_seqnum c0 + int (length (concat gs))"
    "map dg_data (rs_sent s) = concat gs" "\<forall>g \<in> set gs. last_marked g"
    "receive_all (word_of_int (rc_seqnum c0)) gs = Some (take m fs)"
    using assms(1) by (auto simp: stream_inv_def)
  have q: "rs_deque s = waiting (fs ! m) # map waiting (drop (m + 1) fs)" "rs_frame_cnt s = int (length fs - m)"
    using assms(1) True by (auto simp: stream_inv_def simp flip: Cons_nth_drop_Suc)
  have "nalu_sent_len + 14 \<le> length junk" using assms(2) by (simp add: nalu_sent_len_def SENDBUF_SIZE_def)
  then obtain ds c' where d: "send_frame (rs_udpfd s) junk c (waiting (fs ! m)) = Some (ds, c')"
    "frame_sent (rs_udpfd s) c (waiting (fs ! m)) ds c'"
    using send_frame_sent [of "waiting (fs ! m)" junk] unfolding waiting_def rtp_buf.select_convs by blast
  have r: "receive (word_of_int (rc_seqnum c)) (map dg_data ds) = Some (fs ! m)" "last_marked (map dg_data ds)"
    "c' = c\<lparr>rc_seqnum := rc_seqnum c + int (length ds), rc_tsvid := rc_tsvid c + timestamp_increse\<rparr>"
    using d(2) by (auto simp: frame_sent_def waiting_def)
  let ?s = "s\<lparr>rs_clients := [c'], rs_sent := rs_sent s @ ds, rs_deque := map waiting (drop (m + 1) fs),
      rs_frame_cnt := rs_frame_cnt s - 1\<rparr>"
  have "rtp_event_step (Turn junk) s = Some ?s" using q i(1,2) d(1) by (simp add: rtp_send_turn_def)
  moreover have "receive_all (word_of_int (rc_seqnum c0)) (gs @ [map dg_data ds]) = Some (take (m + 1) fs)"
    using receive_all_append [OF i(6), of "map dg_data ds" "fs ! m"] r(1) i(3) True by (simp add: take_Suc_conv_app_nth)
  then have "stream_inv c0 fs (m + 1) ?s" unfolding stream_inv_def
    using True i q(2) r by (intro conjI exI [of _ "gs @ [map dg_data ds]"] exI [of _ c']) auto
  ultimately show ?thesis using True by (simp add: min_def)
qed

lemma run_inv:
  assumes "stream_inv c0 fs m s" "list_all event_ok es"
  shows "\<exists>s' m'. rtp_run es s = Some s' \<and> stream_inv c0 (fs @ pushed es) m' s' \<and> min (m + turns es) (length fs) \<le> m'"
  using assms
proof (induction es arbitrary: fs m s)
  case Nil
  then show ?case by (auto simp: pushed_def turns_def)
next
  case (Cons e es)
  show ?case
  proof (cases e)
    case (Push f)
    then have "length f < 2 ^ 16" using Cons.prems(2) by simp
    from push_inv [OF Cons.prems(1) this] obtain s1 where
      s1: "rtp_event_step e s = Some s1" "stream_inv c0 (fs @ [f]) m s1" unfolding Push by blast
    from Cons.IH [OF this(2)] Cons.prems(2) obtain s' m' where "rtp_run es s1 = Some s'"
      "stream_inv c0 ((fs @ [f]) @ pushed es) m' s'" "min (m + turns es) (length (fs @ [f])) \<le> m'" by auto
    then show ?thesis using s1(1) Push by (intro exI [of _ s'] exI [of _ m']) (auto simp: pushed_def turns_def)
  next
    case (Turn junk)
    then have "length junk = SENDBUF_SIZE" using Cons.prems(2) by simp
    from turn_inv [OF Cons.prems(1) this] obtain s1 where
      s1: "rtp_event_step e s = Some s1" "stream_inv c0 fs (min (m + 1) (length fs)) s1" unfolding Turn by blast
    from Cons.IH [OF this(2)] Cons.prems(2) obtain s' m' where "rtp_run es s1 = Some s'"
      "stream_inv c0 (fs @ pushed es) m' s'" "min (min (m + 1) (length fs) + turns es) (length fs) \<le> m'" by auto
    then show ?thesis using s1(1) Turn by (intro exI [of _ s'] exI [of _ m']) (auto simp: pushed_def turns_def min_def split: if_splits)
  qed
qed

lemma rtp_run_append: "rtp_run (es @ es') s = do { s \<leftarrow> rtp_run es s; rtp_run es' s }"
  by (induction es arbitrary: s) (auto split: bind_splits)

lemma inv_received:
  assumes "stream_inv c0 fs m s"
  shows "received c0 (rs_sent s) = Some (take m fs)" "map rb_buf (rs_deque s) = drop m fs" "rs_frame_cnt s = int (length (rs_deque s))"
  using assms by (auto simp: stream_inv_def received_def split_frames_concat waiting_def comp_def)


lemma stream_delivered:
  assumes "rs_clients s = [c]" "rc_status c = RTSP_SENDING" "rs_deque s = []" "rs_frame_cnt s = 0" "rs_sent s = []"
    and "list_all event_ok es" "length junks = length (pushed es)" "list_all (\<lambda>j. length j = SENDBUF_SIZE) junks"
  shows "\<exists>s'. rtp_run (es @ map Turn junks) s = Some s' \<and> received c (rs_sent s') = Some (pushed es) \<and> rs_deque s' = []"
proof -
  have "stream_inv c [] 0 s" using assms(1-5) by (auto simp: stream_inv_def intro!: exI [of _ "[]"])
  from run_inv [OF this assms(6)] obtain s1 m1 where s1: "rtp_run es s = Some s1" "stream_inv c (pushed es) m1 s1" by auto
  have ok: "list_all event_ok (map Turn junks)" using assms(8) by (simp add: list_all_iff)
  have p: "pushed (map Turn junks) = []" "turns (map Turn junks) = length junks"
    by (induction junks) (auto simp: pushed_def turns_def)
  from run_inv [OF s1(2) ok] p assms(7) obtain s2 m2 where s2: "rtp_run (map Turn junks) s1 = Some s2"
    "stream_inv c (pushed es) m2 s2" "length (pushed es) \<le> m2" by auto
  then show ?thesis using s1(1) inv_received [OF s2(2)] by (auto simp: rtp_run_append)
qed

section \<open>Properties\<close>

text \<open>
  C2: a client that plays gets the frames that are pushed, whole and in order: after any sequence
  of pushed frames and turns of the sending thread, a receiver that cuts the packets at the
  markers, checks the sequence numbers from the first on and puts the fragments together has the
  first of the frames; the others wait in the queue, and the counter of frames is its length. The
  frames are below 64 KB, the largest length \<open>push_h264_stream\<close> takes.
\<close>

theorem rtp_stream_in_order:
  assumes "rs_clients s = [c]" "rc_status c = RTSP_SENDING" "rs_deque s = []" "rs_frame_cnt s = 0" "rs_sent s = []"
    and "list_all event_ok es"
  shows "\<exists>s' m. rtp_run es s = Some s' \<and> received c (rs_sent s') = Some (take m (pushed es)) \<and>
    map rb_buf (rs_deque s') = drop m (pushed es) \<and> rs_frame_cnt s' = int (length (rs_deque s'))"
proof -
  have "stream_inv c [] 0 s" using assms(1-5) by (auto simp: stream_inv_def intro!: exI [of _ "[]"])
  from run_inv [OF this assms(6)] show ?thesis using inv_received by fastforce
qed

text \<open>
  Frames do not wait for ever: after as many turns of the sending thread as frames were pushed,
  the receiver has all of them and the queue is empty.
\<close>

theorem rtp_stream_delivers:
  assumes "rs_clients s = [c]" "rc_status c = RTSP_SENDING" "rs_deque s = []" "rs_frame_cnt s = 0" "rs_sent s = []"
    and "list_all event_ok es" "length junks = length (pushed es)" "list_all (\<lambda>j. length j = SENDBUF_SIZE) junks"
  shows "\<exists>s'. rtp_run (es @ map Turn junks) s = Some s' \<and> received c (rs_sent s') = Some (pushed es) \<and> rs_deque s' = []"
  by (rule stream_delivered [OF assms])

definition playing_client :: rtsp_client where
  "playing_client = \<lparr>rc_index = 0, rc_socket = 4, rc_reqchn = 0, rc_seqnum = 65535, rc_tsvid = 0, rc_tsaud = 0,
     rc_status = RTSP_SENDING, rc_sessionid = 1000, rc_rtpport = (5000, 0), rc_rtcpport = 5001, rc_IP = ''10.0.0.1'', rc_urlPre = []\<rparr>"

definition playing :: rtp_state where
  "playing = \<lparr>rs_clients = [playing_client], rs_udpfd = 7, rs_deque = [], rs_frame_cnt = 0, rs_sent = []\<rparr>"

definition two_frames :: "rtp_event list" where
  "two_frames = [Push [1, 2, 3], Turn (replicate SENDBUF_SIZE 0), Push [4]]"

lemma playing_ok: "rs_clients playing = [playing_client]" "rc_status playing_client = RTSP_SENDING" "rs_deque playing = []"
  "rs_frame_cnt playing = 0" "rs_sent playing = []" "list_all event_ok two_frames" "pushed two_frames = [[1, 2, 3], [4]]"
  by (simp_all add: playing_def playing_client_def two_frames_def pushed_def)

lemma rtp_stream_in_order_witness:
  "\<exists>s' m. rtp_run two_frames playing = Some s' \<and> received playing_client (rs_sent s') = Some (take m [[1, 2, 3], [4]]) \<and>
    map rb_buf (rs_deque s') = drop m [[1, 2, 3], [4]]"
  using rtp_stream_in_order [OF playing_ok(1-6)] by (auto simp: playing_ok)

lemma rtp_stream_delivers_witness:
  "\<exists>s'. rtp_run (two_frames @ map Turn (replicate 2 (replicate SENDBUF_SIZE 0))) playing = Some s' \<and>
    received playing_client (rs_sent s') = Some [[1, 2, 3], [4]]"
  using rtp_stream_delivers [OF playing_ok(1-6), of "replicate 2 (replicate SENDBUF_SIZE 0)"]
  by (auto simp: playing_ok numeral_2_eq_2)

text \<open>
  C17: every packet of a frame goes to the client's address, has at most 1400 bytes of the frame
  behind its headers, and carries one time for the whole frame; the sequence numbers go on from
  packet to packet, and only the last packet has the marker. A receiver of the packets gets the
  frame, whatever its length.
\<close>

theorem rtp_frame_packets:
  assumes "rb_len rb = length (rb_buf rb)" "length junk = SENDBUF_SIZE"
  shows "\<exists>ds c'. send_frame udpfd junk c rb = Some (ds, c') \<and>
    receive (word_of_int (rc_seqnum c)) (map dg_data ds) = Some (rb_buf rb) \<and>
    (\<forall>d \<in> set ds. d = server_datagram udpfd c (dg_data d) \<and> length (dg_data d) \<le> 1414 \<and>
       rtp_time (dg_data d) = be32 (frame_time c rb)) \<and>
    rtp_marker (dg_data (last ds)) \<and> (\<forall>d \<in> set (butlast ds). \<not> rtp_marker (dg_data d)) \<and>
    rc_seqnum c' = rc_seqnum c + int (length ds) \<and> rc_tsvid c' = rc_tsvid c + 3600"
proof -
  have "nalu_sent_len + 14 \<le> length junk" using assms(2) by (simp add: SENDBUF_SIZE_def nalu_sent_len_def)
  from send_frame_sent [OF assms(1) this] obtain ds c' where d: "send_frame udpfd junk c rb = Some (ds, c')"
    "frame_sent udpfd c rb ds c'" by blast
  have "last_marked (map dg_data ds)" using d(2) by (simp add: frame_sent_def)
  then have "rtp_marker (dg_data (last ds))" "\<forall>d \<in> set (butlast ds). \<not> rtp_marker (dg_data d)"
    by (auto simp: last_marked_def last_map map_butlast [symmetric])
  then show ?thesis using d by (auto simp: frame_sent_def nalu_sent_len_def timestamp_increse_def)
qed

lemma rtp_frame_packets_witness:
  "\<exists>ds c'. send_frame 7 (replicate SENDBUF_SIZE 0) playing_client (waiting (replicate 3000 9)) = Some (ds, c') \<and>
    receive 65535 (map dg_data ds) = Some (replicate 3000 9) \<and> (\<forall>d \<in> set ds. length (dg_data d) \<le> 1414)"
proof -
  have "rb_len (waiting (replicate 3000 9)) = length (rb_buf (waiting (replicate 3000 9)))" by (simp add: waiting_def)
  from rtp_frame_packets [OF this length_replicate, of 7 0 playing_client] show ?thesis
    by (auto simp: waiting_def playing_client_def)
qed

section \<open>What goes wrong\<close>

text \<open>
  A frame in several packets advances the time before it is sent, a frame in one packet after it:
  a short frame that follows a long one has the same time.
\<close>

lemma time_repeats:
  assumes "frame_sent udpfd c rb ds c'" "frame_sent udpfd c' rb' ds' c''"
    "nalu_sent_len < rb_len rb" "rb_len rb' \<le> nalu_sent_len" "d \<in> set ds" "d' \<in> set ds'"
  shows "rtp_time (dg_data d) = rtp_time (dg_data d')"
  using assms by (auto simp: frame_sent_def frame_time_def)

text \<open>The source that the code sets, 10, lies behind the place where a receiver looks for it.\<close>

lemma source_is_zero: "frame_sent udpfd c rb ds c' \<Longrightarrow> d \<in> set ds \<Longrightarrow> rtp_ssrc (dg_data d) = [0, 0, 0, 0]"
  by (simp add: frame_sent_def)

text \<open>
  The length of a frame is passed on in 16 bits: of a frame of 64 KB or more, only the remainder
  is sent, and its rest is lost without an error.
\<close>

theorem long_frames_cut:
  assumes "rs_clients s = [c]" "rc_status c = RTSP_SENDING" "2 ^ 16 \<le> length bytes" "length bytes \<le> H264_BUF_SIZE"
    "length junk = H264_BUF_SIZE"
  shows "push_stream 0 bytes junk [] s = Some (0, [], s\<lparr>
    rs_deque := rs_deque s @ [waiting (take (length bytes mod 2 ^ 16) bytes)], rs_frame_cnt := rs_frame_cnt s + 1\<rparr>)"
proof -
  have n: "unat (of_nat (length bytes) :: u16) = length bytes mod 2 ^ 16" by (simp add: unat_of_nat)
  have "length bytes mod 2 ^ 16 \<le> length bytes" by simp
  then show ?thesis using assms
    by (auto simp: push_stream_def encoder_def blit_def push_h264_stream_def n fetch_def waiting_def min_def)
qed


lemma long_frames_cut_witness:
  "\<exists>s'. push_stream 0 (replicate 70000 1) (replicate H264_BUF_SIZE 0) [] playing = Some (0, [], s') \<and>
    rs_deque s' = [waiting (replicate 4464 1)]"
proof -
  have "2 ^ 16 \<le> length (replicate 70000 (1 :: u8))" "length (replicate 70000 (1 :: u8)) \<le> H264_BUF_SIZE"
    by (simp_all add: H264_BUF_SIZE_def)
  from long_frames_cut [OF playing_ok(1,2) this length_replicate] show ?thesis by (simp add: playing_ok)
qed


end
