(* ===== verification/Rtsp_Server.thy ===== *)
theory Rtsp_Server
  imports Rtsp_Transport Rtp_Sender
begin

text \<open>
  The server side of RTSP (\<open>mpp_rtsp_server.cpp\<close>): the thread that accepts clients, the thread of
  each client that answers its requests, and the sender of \<open>Rtp_Sender\<close>, over the same global
  variables. The network is given by the events: what is received, and what the calls return. The
  steps of the threads interleave; one request is handled, one frame is sent in one step.
\<close>

section \<open>State\<close>

text \<open>
  A thread of a client is at the head of its loop, waits for data on a socket, or has returned. It
  reads the fields of its slot of \<open>g_rtspClients\<close> each time it needs them. Its buffer keeps what
  earlier requests left behind a shorter one.
\<close>

datatype thread_place = At_Loop | In_Recv int | Returned

record rtsp_thread =
  th_slot :: nat
  th_place :: thread_place
  th_recvbuf :: string

record rtsp_server =
  sv_rtp :: rtp_state
  sv_localip :: "string option"
  sv_listening :: bool
  sv_session :: int
  sv_threads :: "rtsp_thread list"
  sv_answers :: "(int \<times> string) list"
  sv_closed :: "int list"

text \<open>
  What the calls return while one request is handled: the line of \<open>dateHeader\<close>, the address of
  \<open>GetLocalIP\<close>, the result of \<open>send\<close>, the descriptor of the new UDP socket, and what is in the
  buffers on the stack before they are written. \<open>GetLocalIP\<close> returns the static buffer of
  \<open>inet_ntoa\<close>. With glibc this belongs to the thread, and only \<open>GetLocalIP\<close> writes it in a client's thread: the
  address is a string here that nothing else changes. That the buffer ends with its thread, and that
  other C libraries have one buffer for all threads, is not modelled.
\<close>

record request_env =
  en_date :: string
  en_ip :: string
  en_send :: int
  en_udpfd :: int
  en_junk :: request

definition MAX_RTSP_CLIENT :: nat where "MAX_RTSP_CLIENT = 1"

definition no_client :: rtsp_client where
  "no_client = \<lparr>rc_index = 0, rc_socket = 0, rc_reqchn = 0, rc_seqnum = 0, rc_tsvid = 0, rc_tsaud = 0,
     rc_status = RTSP_IDLE, rc_sessionid = 0, rc_rtpport = (0, 0), rc_rtcpport = 0, rc_IP = [], rc_urlPre = []\<rparr>"

definition rtsp_server_init :: rtsp_server where
  "rtsp_server_init = \<lparr>
     sv_rtp = \<lparr>rs_clients = replicate MAX_RTSP_CLIENT no_client, rs_udpfd = 0, rs_deque = [], rs_frame_cnt = 0, rs_sent = []\<rparr>,
     sv_localip = None, sv_listening = False, sv_session = 1000, sv_threads = [], sv_answers = [], sv_closed = []\<rparr>"

definition sv_clients :: "rtsp_server \<Rightarrow> rtsp_client list" where
  "sv_clients s = rs_clients (sv_rtp s)"

text \<open>An access to \<open>g_rtspClients[i]\<close>.\<close>

definition client_at :: "int \<Rightarrow> rtsp_server \<Rightarrow> rtsp_client option" where
  "client_at i s = (if 0 \<le> i \<and> nat i < length (sv_clients s) then Some (sv_clients s ! nat i) else None)"

definition set_client :: "int \<Rightarrow> rtsp_client \<Rightarrow> rtsp_server \<Rightarrow> rtsp_server option" where
  "set_client i c s = (if 0 \<le> i \<and> nat i < length (sv_clients s)
     then Some (s\<lparr>sv_rtp := (sv_rtp s)\<lparr>rs_clients := (sv_clients s)[nat i := c]\<rparr>\<rparr>) else None)"

definition close_fd :: "int \<Rightarrow> rtsp_server \<Rightarrow> rtsp_server" where
  "close_fd fd s = s\<lparr>sv_closed := sv_closed s @ [fd]\<rparr>"

section \<open>The answers\<close>

definition crlf :: string where "crlf = [CHR 0x0D, CHR 0x0A]"

text \<open>\<open>sprintf\<close> and \<open>strcat\<close> to a buffer of \<open>n\<close> characters.\<close>

definition fits :: "nat \<Rightarrow> string \<Rightarrow> string option" where
  "fits n text = (if length text < n then Some text else None)"

text \<open>\<open>ntohs\<close> on a machine with the low byte first.\<close>

definition ntohs :: "nat \<Rightarrow> nat" where
  "ntohs n = n mod 2 ^ 8 * 2 ^ 8 + n div 2 ^ 8 mod 2 ^ 8"

definition ok_header :: "string \<Rightarrow> string" where
  "ok_header cseq = ''RTSP/1.0 200 OK'' @ crlf @ ''CSeq: '' @ cseq @ crlf"

definition send_answer :: "request_env \<Rightarrow> int \<Rightarrow> nat \<Rightarrow> string \<Rightarrow> rtsp_server \<Rightarrow> (bool \<times> rtsp_server) option" where
  "send_answer env sock n text s = do {
     text \<leftarrow> fits n text;
     Some (en_send env > 0, s\<lparr>sv_answers := sv_answers s @ [(sock, text)]\<rparr>)
   }"

definition option_text :: "string \<Rightarrow> string \<Rightarrow> string" where
  "option_text cseq date =
     ok_header cseq @ date @ ''Public: OPTIONS,DESCRIBE,SETUP,PLAY,PAUSE,TEARDOWN'' @ crlf @ crlf"

definition OptionAnswer :: "request_env \<Rightarrow> string \<Rightarrow> int \<Rightarrow> rtsp_server \<Rightarrow> (bool \<times> rtsp_server) option" where
  "OptionAnswer env cseq sock s =
     (if sock \<noteq> 0 then do {
        cseq \<leftarrow> cstr cseq;
        send_answer env sock 1024 (option_text cseq (en_date env)) s
      }
      else Some (False, s))"

definition sdp :: "string \<Rightarrow> string" where
  "sdp ip = ''v=0'' @ crlf @
     ''o=StreamingServer 3331435948 1116907222000 IN IP4 '' @ ip @ crlf @
     ''s=H.264'' @ crlf @
     ''c=IN IP4 0.0.0.0'' @ crlf @
     ''t=0 0'' @ crlf @
     ''a=control:rtsp://'' @ ip @ ''/live/stream/'' @ crlf @
     ''m=video 0 RTP/AVP 96'' @ crlf @
     ''a=control:trackID=0'' @ crlf @
     ''a=rtpmap:96 H264/90000'' @ crlf @
     ''a=fmtp:96 packetization-mode=1; sprop-parameter-sets='' @ ''AAABBCCC'' @ crlf"

definition describe_text :: "string \<Rightarrow> string \<Rightarrow> string \<Rightarrow> string \<Rightarrow> string \<Rightarrow> string" where
  "describe_text cseq date ip urlSuffix sdpMsg =
     ok_header cseq @ date @ ''Content-Type: application/sdp'' @ crlf @
     ''Content-length: '' @ show_d (int (length sdpMsg)) @ crlf @
     ''Content-Base: rtsp://'' @ ip @ ''/'' @ urlSuffix @ ''/'' @ crlf @ crlf @ sdpMsg"

text \<open>Without a socket this answer counts as sent.\<close>

definition DescribeAnswer :: "request_env \<Rightarrow> string \<Rightarrow> int \<Rightarrow> string \<Rightarrow> rtsp_server \<Rightarrow> (bool \<times> rtsp_server) option" where
  "DescribeAnswer env cseq sock urlSuffix s =
     (if sock \<noteq> 0 then do {
        let s = s\<lparr>sv_localip := Some (en_ip env)\<rparr>;
        cseq \<leftarrow> cstr cseq;
        sdpMsg \<leftarrow> fits 1024 (sdp (en_ip env));
        urlSuffix \<leftarrow> cstr urlSuffix;
        send_answer env sock 2048 (describe_text cseq (en_date env) (en_ip env) urlSuffix sdpMsg) s
      }
      else Some (True, s))"

definition setup_text :: "string \<Rightarrow> string \<Rightarrow> string \<Rightarrow> nat \<Rightarrow> nat \<Rightarrow> int \<Rightarrow> string" where
  "setup_text cseq date ip rtp rtcp SessionId =
     ok_header cseq @ date @ ''Transport: RTP/AVP;unicast;destination='' @ ip @
     '';client_port='' @ show_d (int rtp) @ ''-'' @ show_d (int rtcp) @
     '';server_port='' @ show_d (int (ntohs 2000)) @ ''-'' @ show_d (int (ntohs 2001)) @ crlf @
     ''Session: '' @ show_d SessionId @ crlf @ crlf"

text \<open>
  The ports of the client are results; without a socket they stay undefined. The address is a null
  pointer until a description was asked for, which \<open>%s\<close> must not be given.
\<close>

definition SetupAnswer :: "request_env \<Rightarrow> string \<Rightarrow> int \<Rightarrow> int \<Rightarrow> string \<Rightarrow> rtsp_server
    \<Rightarrow> (bool \<times> (nat \<times> nat) option \<times> rtsp_server) option" where
  "SetupAnswer env cseq sock SessionId recvbuf s =
     (if sock \<noteq> 0 then do {
        tr \<leftarrow> ParseTransportHeader recvbuf;
        cseq \<leftarrow> cstr cseq;
        ip \<leftarrow> sv_localip s;
        (ok, s) \<leftarrow> send_answer env sock 1024 (setup_text cseq (en_date env) ip (tr_rtp tr) (tr_rtcp tr) SessionId) s;
        Some (ok, Some (tr_rtp tr, tr_rtcp tr), s)
      }
      else Some (False, None, s))"

definition play_text :: "string \<Rightarrow> string \<Rightarrow> string \<Rightarrow> string \<Rightarrow> int \<Rightarrow> string" where
  "play_text cseq date ip urlPre SessionId =
     ok_header cseq @ date @ ''Range: npt=0.000-'' @ crlf @ ''Session: '' @ show_d SessionId @ crlf @
     ''RTP-Info: url=rtsp://'' @ ip @ ''/'' @ urlPre @ '';seq=0'' @ crlf @ crlf"

text \<open>After the answer a UDP socket is opened; packets carry their address themselves.\<close>

definition PlayAnswer :: "request_env \<Rightarrow> string \<Rightarrow> int \<Rightarrow> int \<Rightarrow> string \<Rightarrow> rtsp_server \<Rightarrow> (bool \<times> rtsp_server) option" where
  "PlayAnswer env cseq sock SessionId urlPre s =
     (if sock \<noteq> 0 then do {
        cseq \<leftarrow> cstr cseq;
        ip \<leftarrow> sv_localip s;
        (ok, s) \<leftarrow> send_answer env sock 1024 (play_text cseq (en_date env) ip urlPre SessionId) s;
        if ok then Some (True, s\<lparr>sv_rtp := (sv_rtp s)\<lparr>rs_udpfd := en_udpfd env\<rparr>\<rparr>) else Some (False, s)
      }
      else Some (False, s))"

definition pause_text :: "string \<Rightarrow> string \<Rightarrow> string" where
  "pause_text cseq date = ok_header cseq @ date @ crlf @ crlf"

definition PauseAnswer :: "request_env \<Rightarrow> string \<Rightarrow> int \<Rightarrow> rtsp_server \<Rightarrow> (bool \<times> rtsp_server) option" where
  "PauseAnswer env cseq sock s =
     (if sock \<noteq> 0 then do {
        cseq \<leftarrow> cstr cseq;
        send_answer env sock 1024 (pause_text cseq (en_date env)) s
      }
      else Some (False, s))"

definition teardown_text :: "string \<Rightarrow> string \<Rightarrow> int \<Rightarrow> string" where
  "teardown_text cseq date SessionId = ok_header cseq @ date @ ''Session: '' @ show_d SessionId @ crlf @ crlf"

definition TeardownAnswer :: "request_env \<Rightarrow> string \<Rightarrow> int \<Rightarrow> int \<Rightarrow> rtsp_server \<Rightarrow> (bool \<times> rtsp_server) option" where
  "TeardownAnswer env cseq sock SessionId s =
     (if sock \<noteq> 0 then do {
        cseq \<leftarrow> cstr cseq;
        (ok, s) \<leftarrow> send_answer env sock 1024 (teardown_text cseq (en_date env) SessionId) s;
        Some (ok, if ok then close_fd (rs_udpfd (sv_rtp s)) s else s)
      }
      else Some (False, s))"

section \<open>The thread of a client\<close>

text \<open>The fields that are reset when a client leaves.\<close>

definition idle :: "rtsp_client \<Rightarrow> rtsp_client" where
  "idle c = c\<lparr>rc_status := RTSP_IDLE, rc_seqnum := 0, rc_tsvid := 0, rc_tsaud := 0\<rparr>"

definition set_port :: "nat \<Rightarrow> int \<Rightarrow> int \<times> int \<Rightarrow> int \<times> int" where
  "set_port trackID port ports = (if trackID = 0 then (port, snd ports) else (fst ports, port))"

text \<open>\<open>sscanf(urlSuffix, "trackID=%u", &trackID)\<close>, and 0 for what is no index.\<close>

definition track_id :: "string \<Rightarrow> nat" where
  "track_id urlSuffix = (case scan_nums 32 (lits ''trackID='' @ [num_u]) urlSuffix of
     [t] \<Rightarrow> if t < 2 then t else 0
   | _ \<Rightarrow> 0)"

text \<open>The branches of the dispatch; \<open>c\<close> is the slot of the thread.\<close>

definition on_describe :: "request_env \<Rightarrow> request \<Rightarrow> rtsp_client \<Rightarrow> rtsp_server \<Rightarrow> rtsp_server option" where
  "on_describe env r c s = do {
     (_, s) \<leftarrow> DescribeAnswer env (rq_cseq r) (rc_socket c) (rq_suffix r) s;
     _ \<leftarrow> cstr (rq_pre r);
     _ \<leftarrow> cstr (rq_suffix r);
     Some s
   }"

definition on_setup :: "request_env \<Rightarrow> string \<Rightarrow> request \<Rightarrow> rtsp_client \<Rightarrow> rtsp_server \<Rightarrow> rtsp_server option" where
  "on_setup env recvbuf r c s = do {
     (_, ports, s) \<leftarrow> SetupAnswer env (rq_cseq r) (rc_socket c) (rc_sessionid c) recvbuf s;
     urlSuffix \<leftarrow> cstr (rq_suffix r);
     (rtpport, rtcpport) \<leftarrow> ports;
     urlPre \<leftarrow> cstr (rq_pre r);
     d \<leftarrow> client_at (rc_index c) s;
     let d = d\<lparr>rc_rtpport := set_port (track_id urlSuffix) (int rtpport) (rc_rtpport d),
               rc_rtcpport := int rtcpport, rc_reqchn := atoi urlPre\<rparr>;
     set_client (rc_index c) (if length urlPre < 100 then d\<lparr>rc_urlPre := urlPre\<rparr> else d) s
   }"

definition on_play :: "request_env \<Rightarrow> request \<Rightarrow> rtsp_client \<Rightarrow> rtsp_server \<Rightarrow> rtsp_server option" where
  "on_play env r c s = do {
     d \<leftarrow> client_at (rc_index c) s;
     (_, s) \<leftarrow> PlayAnswer env (rq_cseq r) (rc_socket c) (rc_sessionid c) (rc_urlPre d) s;
     d \<leftarrow> client_at (rc_index c) s;
     set_client (rc_index c) (d\<lparr>rc_status := RTSP_SENDING\<rparr>) s
   }"

definition on_teardown :: "request_env \<Rightarrow> request \<Rightarrow> rtsp_client \<Rightarrow> rtsp_server \<Rightarrow> rtsp_server option" where
  "on_teardown env r c s = do {
     (_, s) \<leftarrow> TeardownAnswer env (rq_cseq r) (rc_socket c) (rc_sessionid c) s;
     d \<leftarrow> client_at (rc_index c) s;
     s \<leftarrow> set_client (rc_index c) (idle d) s;
     Some (close_fd (rc_socket c) s)
   }"

definition reply :: "request_env \<Rightarrow> rtsp_thread \<Rightarrow> request \<Rightarrow> rtsp_server \<Rightarrow> rtsp_server option" where
  "reply env t r s = do {
     cmd \<leftarrow> cstr (rq_cmd r);
     c \<leftarrow> client_at (int (th_slot t)) s;
     if strstr cmd ''OPTIONS'' then map_option snd (OptionAnswer env (rq_cseq r) (rc_socket c) s)
     else if strstr cmd ''DESCRIBE'' then on_describe env r c s
     else if strstr cmd ''SETUP'' then on_setup env (th_recvbuf t) r c s
     else if strstr cmd ''PLAY'' then on_play env r c s
     else if strstr cmd ''PAUSE'' then map_option snd (PauseAnswer env (rq_cseq r) (rc_socket c) s)
     else if strstr cmd ''TEARDOWN'' then on_teardown env r c s
     else Some s
   }"

text \<open>
  \<open>recv\<close> has returned: nothing when the connection is closed or an error occurred. The result of
  the parser is not used; the request is printed up to the first NUL of the buffer.
\<close>

definition handle_recv :: "request_env \<Rightarrow> string \<Rightarrow> rtsp_thread \<Rightarrow> rtsp_server \<Rightarrow> (rtsp_thread \<times> rtsp_server) option" where
  "handle_recv env data t s =
     (if data = [] then do {
        c \<leftarrow> client_at (int (th_slot t)) s;
        d \<leftarrow> client_at (rc_index c) s;
        s \<leftarrow> set_client (rc_index c) (idle d) s;
        c \<leftarrow> client_at (int (th_slot t)) s;
        Some (t\<lparr>th_place := Returned\<rparr>, close_fd (rc_socket c) s)
      }
      else do {
        let t = t\<lparr>th_place := At_Loop, th_recvbuf := data @ drop (length data) (th_recvbuf t)\<rparr>;
        (_, r) \<leftarrow> ParseRequestString (th_recvbuf t) (length data) (en_junk env);
        _ \<leftarrow> cstr (th_recvbuf t);
        s \<leftarrow> reply env t r s;
        Some (t, s)
      })"

definition loop_head :: "rtsp_thread \<Rightarrow> rtsp_server \<Rightarrow> rtsp_thread option" where
  "loop_head t s = do {
     c \<leftarrow> client_at (int (th_slot t)) s;
     Some (t\<lparr>th_place := (if rc_status c \<noteq> RTSP_IDLE then In_Recv (rc_socket c) else Returned)\<rparr>)
   }"

section \<open>The thread that accepts clients\<close>

definition rtsp_listen :: "int \<Rightarrow> int \<Rightarrow> int \<Rightarrow> rtsp_server \<Rightarrow> rtsp_server" where
  "rtsp_listen opt bound listens s =
     s\<lparr>sv_listening := (if opt = -1 then False else if bound < 0 then False else if listens < 0 then False else True)\<rparr>"

definition new_client :: "int \<Rightarrow> int \<Rightarrow> int \<Rightarrow> string \<Rightarrow> rtsp_client" where
  "new_client i fd session ip =
     no_client\<lparr>rc_index := i, rc_socket := fd, rc_status := RTSP_CONNECTED, rc_sessionid := session, rc_IP := ip\<rparr>"

text \<open>The first free slot, and slot 0 when there is none.\<close>

fun idle_slot :: "nat \<Rightarrow> rtsp_client list \<Rightarrow> nat option" where
  "idle_slot i [] = None"
| "idle_slot i (c # cs) = (if rc_status c = RTSP_IDLE then Some i else idle_slot (i + 1) cs)"

definition new_thread :: "nat \<Rightarrow> rtsp_thread" where
  "new_thread i = \<lparr>th_slot = i, th_place = At_Loop, th_recvbuf = replicate RTSP_RECV_SIZE (CHR 0x00)\<rparr>"

definition rtsp_accept :: "int \<Rightarrow> string \<Rightarrow> rtsp_server \<Rightarrow> rtsp_server option" where
  "rtsp_accept fd ip s =
     (if fd < 0 then Some (s\<lparr>sv_listening := False\<rparr>)
      else do {
        let i = (case idle_slot 0 (sv_clients s) of Some i \<Rightarrow> i | None \<Rightarrow> 0);
        ip \<leftarrow> fits 20 ip;
        s \<leftarrow> set_client (int i) (new_client (int i) fd (sv_session s) ip) s;
        Some (s\<lparr>sv_session := sv_session s + 1, sv_threads := sv_threads s @ [new_thread i]\<rparr>)
      })"

section \<open>Events\<close>

text \<open>
  An event that cannot happen (a thread that is elsewhere, a client before the server listens)
  changes nothing.
\<close>

datatype server_event =
  Listen int int int
| Accept int string
| Loop nat
| Recv nat request_env string
| Stream rtp_event

definition with_thread :: "nat \<Rightarrow> rtsp_thread \<times> rtsp_server \<Rightarrow> rtsp_server" where
  "with_thread k ts = (case ts of (t, s) \<Rightarrow> s\<lparr>sv_threads := (sv_threads s)[k := t]\<rparr>)"

fun server_step :: "server_event \<Rightarrow> rtsp_server \<Rightarrow> rtsp_server option" where
  "server_step (Listen opt bound listens) s = Some (rtsp_listen opt bound listens s)"
| "server_step (Accept fd ip) s = (if sv_listening s then rtsp_accept fd ip s else Some s)"
| "server_step (Loop k) s =
     (if k < length (sv_threads s) \<and> th_place (sv_threads s ! k) = At_Loop then
        map_option (\<lambda>t. with_thread k (t, s)) (loop_head (sv_threads s ! k) s)
      else Some s)"
| "server_step (Recv k env data) s =
     (if k < length (sv_threads s) \<and> (\<exists>fd. th_place (sv_threads s ! k) = In_Recv fd) \<and> length data \<le> RTSP_RECV_SIZE then
        map_option (with_thread k) (handle_recv env data (sv_threads s ! k) s)
      else Some s)"
| "server_step (Stream e) s = map_option (\<lambda>r. s\<lparr>sv_rtp := r\<rparr>) (rtp_event_step e (sv_rtp s))"

fun server_run :: "server_event list \<Rightarrow> rtsp_server \<Rightarrow> rtsp_server option" where
  "server_run [] s = Some s"
| "server_run (e # es) s = do { s \<leftarrow> server_step e s; server_run es s }"

section \<open>What an answer changes\<close>

text \<open>
  An answer is one message on the client's socket, which fits its buffer; the clients and the
  queue of frames stay.
\<close>

text \<open>The answer to \<open>DESCRIBE\<close> is written to a buffer of 2048 characters, every other one to a buffer of 1024.\<close>

definition answer_fits :: "string \<Rightarrow> bool" where
  "answer_fits text \<longleftrightarrow> length text < 1024 \<or>
     length text < 2048 \<and> (\<exists>cseq date ip suf m. text = describe_text cseq date ip suf m)"

definition answered :: "request_env \<Rightarrow> int \<Rightarrow> nat \<Rightarrow> rtsp_server \<Rightarrow> rtsp_server \<Rightarrow> bool" where
  "answered env sock n s s' \<longleftrightarrow>
     (\<exists>fd. sv_rtp s' = (sv_rtp s)\<lparr>rs_udpfd := fd\<rparr>) \<and> sv_threads s' = sv_threads s \<and>
     sv_session s' = sv_session s \<and> sv_listening s' = sv_listening s \<and>
     (sv_localip s' = sv_localip s \<or> sv_localip s' = Some (en_ip env)) \<and>
     (sv_answers s' = sv_answers s \<or> (\<exists>text. sv_answers s' = sv_answers s @ [(sock, text)] \<and> length text < n \<and> answer_fits text))"

lemma send_answer_answered: "send_answer env sock n text s = Some (ok, s') \<Longrightarrow> n \<le> 1024 \<Longrightarrow> answered env sock n s s'"
  by (auto simp: send_answer_def fits_def answered_def answer_fits_def intro!: exI [of _ "rs_udpfd (sv_rtp s)"] split: if_splits)

lemma send_describe_answered:
  assumes "send_answer env sock 2048 (describe_text cseq date ip suf m) s = Some (ok, s')"
  shows "answered env sock 2048 s s'"
proof -
  have "answer_fits (describe_text cseq date ip suf m)" if "length (describe_text cseq date ip suf m) < 2048"
    using that unfolding answer_fits_def by blast
  then show ?thesis using assms
    by (auto simp: send_answer_def fits_def answered_def intro!: exI [of _ "rs_udpfd (sv_rtp s)"] split: if_splits)
qed

lemma answered_refl: "answered env sock n s s"
  by (auto simp: answered_def intro!: exI [of _ "rs_udpfd (sv_rtp s)"])

lemma answers_answered:
  "OptionAnswer env cseq sock s = Some (ok, s') \<Longrightarrow> answered env sock 1024 s s'"
  "DescribeAnswer env cseq sock sf s = Some (ok, s') \<Longrightarrow> answered env sock 2048 s s'"
  "SetupAnswer env cseq sock sess mem s = Some (ok, ports, s') \<Longrightarrow> answered env sock 1024 s s'"
  "PlayAnswer env cseq sock sess pre s = Some (ok, s') \<Longrightarrow> answered env sock 1024 s s'"
  "PauseAnswer env cseq sock s = Some (ok, s') \<Longrightarrow> answered env sock 1024 s s'"
  "TeardownAnswer env cseq sock sess s = Some (ok, s') \<Longrightarrow> answered env sock 1024 s s'"
proof -
  show "answered env sock 1024 s s'" if "OptionAnswer env cseq sock s = Some (ok, s')"
    using that by (auto simp: OptionAnswer_def answered_refl dest: send_answer_answered split: if_splits bind_splits)
  show "answered env sock 2048 s s'" if "DescribeAnswer env cseq sock sf s = Some (ok, s')"
    using that by (auto simp: DescribeAnswer_def Let_def answered_refl dest!: send_describe_answered split: if_splits bind_splits)
      (auto simp: answered_def)
  show "answered env sock 1024 s s'" if "SetupAnswer env cseq sock sess mem s = Some (ok, ports, s')"
    using that by (auto simp: SetupAnswer_def answered_refl dest: send_answer_answered split: if_splits bind_splits)
  show "answered env sock 1024 s s'" if "PlayAnswer env cseq sock sess pre s = Some (ok, s')"
    using that by (auto simp: PlayAnswer_def answered_refl dest!: send_answer_answered split: if_splits bind_splits)
      (auto simp: answered_def)
  show "answered env sock 1024 s s'" if "PauseAnswer env cseq sock s = Some (ok, s')"
    using that by (auto simp: PauseAnswer_def answered_refl dest: send_answer_answered split: if_splits bind_splits)
  show "answered env sock 1024 s s'" if "TeardownAnswer env cseq sock sess s = Some (ok, s')"
    using that by (auto simp: TeardownAnswer_def answered_refl dest!: send_answer_answered split: if_splits bind_splits)
      (auto simp: answered_def close_fd_def)
qed


section \<open>What the sender changes of a client\<close>

definition same_client :: "rtsp_client \<Rightarrow> rtsp_client \<Rightarrow> bool" where
  "same_client c c' \<longleftrightarrow> (\<exists>n t. c' = c\<lparr>rc_seqnum := n, rc_tsvid := t\<rparr>)"

lemma same_client_refl: "same_client c c"
  unfolding same_client_def by (intro exI [of _ "rc_seqnum c"] exI [of _ "rc_tsvid c"]) simp

lemma same_client_trans: "same_client a b \<Longrightarrow> same_client b c \<Longrightarrow> same_client a c"
  unfolding same_client_def by (elim exE) auto

lemma same_client_fields:
  "same_client c c' \<Longrightarrow> rc_status c' = rc_status c \<and> rc_IP c' = rc_IP c \<and> rc_rtpport c' = rc_rtpport c \<and>
     rc_index c' = rc_index c \<and> rc_socket c' = rc_socket c \<and> rc_urlPre c' = rc_urlPre c \<and> rc_sessionid c' = rc_sessionid c \<and>
     rc_rtcpport c' = rc_rtcpport c"
  by (auto simp: same_client_def)

definition addressed :: "int \<Rightarrow> rtsp_client \<Rightarrow> datagram \<Rightarrow> bool" where
  "addressed udpfd c d \<longleftrightarrow> d = server_datagram udpfd c (dg_data d)"

lemma addressed_same: "same_client c c' \<Longrightarrow> addressed udpfd c' d = addressed udpfd c d"
  by (auto simp: same_client_def addressed_def server_datagram_def)

lemma send_loop_same:
  "send_loop udpfd rb k l t c buf = Some (ds, c') \<Longrightarrow> same_client c c' \<and> (\<forall>d \<in> set ds. addressed udpfd c d)"
proof (induction "k + 1 - t" arbitrary: t c buf ds c')
  case 0
  then show ?case using same_client_refl by (subst (asm) send_loop.simps) auto
next
  case (Suc n)
  let ?c = "c\<lparr>rc_seqnum := rc_seqnum c + 1\<rparr>"
  obtain buf' bytes ds' where r: "send_loop udpfd rb k l (t + 1) ?c buf' = Some (ds', c')"
    "ds = server_datagram udpfd ?c bytes # ds'"
    using Suc.prems Suc.hyps(2) by (subst (asm) send_loop.simps) (auto simp: Let_def split: bind_splits if_splits)
  have c: "same_client c ?c" by (auto simp: same_client_def intro!: exI [of _ "rc_tsvid c"])
  have "n = k + 1 - (t + 1)" using Suc.hyps(2) by simp
  from Suc.hyps(1) [OF this r(1)] show ?case using same_client_trans [OF c] addressed_same [OF c] r(2)
    by (auto simp: addressed_def server_datagram_def)
qed

lemma send_frame_same:
  "send_frame udpfd junk c rb = Some (ds, c') \<Longrightarrow> same_client c c' \<and> (\<forall>d \<in> set ds. addressed udpfd c d)"
proof -
  assume s: "send_frame udpfd junk c rb = Some (ds, c')"
  let ?c = "c\<lparr>rc_tsvid := rc_tsvid c + timestamp_increse\<rparr>"
  have c: "same_client c ?c" by (auto simp: same_client_def intro!: exI [of _ "rc_seqnum c"])
  consider buf where "send_single udpfd c rb buf = Some (ds, c')"
    | buf where "send_loop udpfd rb (rb_len rb div nalu_sent_len) (rb_len rb mod nalu_sent_len) 0 ?c buf = Some (ds, c')"
    using s by (auto simp: send_frame_def Let_def split: bind_splits if_splits)
  then show ?thesis
  proof cases
    case 1
    then show ?thesis
      by (auto simp: send_single_def same_client_def addressed_def server_datagram_def split: bind_splits)
  next
    case 2
    from send_loop_same [OF 2] show ?thesis using same_client_trans [OF c] addressed_same [OF c] by blast
  qed
qed

lemma send_clients_same:
  "send_h264_for_rtsp_client udpfd junk rb cs = Some (ds, cs') \<Longrightarrow>
   list_all2 same_client cs cs' \<and> (\<forall>d \<in> set ds. \<exists>c \<in> set cs. rc_status c = RTSP_SENDING \<and> addressed udpfd c d)"
proof (induction cs arbitrary: ds cs')
  case (Cons c cs)
  obtain d1 c1 d2 cs2 where r: "(if rc_status c \<noteq> RTSP_SENDING then Some ([], c) else send_frame udpfd junk c rb) = Some (d1, c1)"
    "send_h264_for_rtsp_client udpfd junk rb cs = Some (d2, cs2)" "ds = d1 @ d2" "cs' = c1 # cs2"
    using Cons.prems by (auto split: bind_splits)
  have "same_client c c1 \<and> (\<forall>d \<in> set d1. rc_status c = RTSP_SENDING \<and> addressed udpfd c d)"
    using r(1) send_frame_same [of udpfd junk c rb d1 c1] same_client_refl by (auto split: if_splits)
  then show ?case using Cons.IH [OF r(2)] r(3,4) by auto
qed simp

lemma push_clients_same:
  "push_clients frame n cs hp s = Some (hp', s') \<Longrightarrow> rs_clients s' = rs_clients s \<and> rs_sent s' = rs_sent s \<and> rs_udpfd s' = rs_udpfd s \<and>
     ((\<forall>c \<in> set cs. rc_status c \<noteq> RTSP_SENDING) \<longrightarrow> s' = s)"
  by (induction frame n cs hp s rule: push_clients.induct) (auto simp: Let_def split: bind_splits if_splits prod.splits)

text \<open>Packets go to clients that play, and to the address they asked for.\<close>

lemma stream_step_same:
  assumes "rtp_event_step e s = Some s'"
  shows "list_all2 same_client (rs_clients s) (rs_clients s') \<and> rs_udpfd s' = rs_udpfd s \<and>
    (\<exists>ds. rs_sent s' = rs_sent s @ ds \<and>
      (\<forall>d \<in> set ds. \<exists>c \<in> set (rs_clients s). rc_status c = RTSP_SENDING \<and> addressed (rs_udpfd s) c d))"
proof (cases e)
  case (Push f)
  then show ?thesis using assms push_clients_same
    by (auto simp: push_h264_stream_def same_client_refl list.rel_refl)
next
  case (Turn junk)
  then show ?thesis using assms send_clients_same
    by (fastforce simp: rtp_send_turn_def same_client_refl list.rel_refl split: list.splits bind_splits)
qed


end
