(* ===== verification/Rtsp_Session.thy ===== *)
theory Rtsp_Session
  imports Rtsp_Server
begin

text \<open>
  Sessions of the RTSP server: what holds in every state the server can reach, which requests are
  answered, and what a client that asks for the stream gets.
\<close>

section \<open>Slots\<close>

lemma set_client_cases:
  assumes "set_client i c s = Some s'"
  shows "sv_clients s' = (sv_clients s)[nat i := c]" "s' = s\<lparr>sv_rtp := (sv_rtp s)\<lparr>rs_clients := (sv_clients s)[nat i := c]\<rparr>\<rparr>"
  using assms by (auto simp: set_client_def sv_clients_def split: if_splits)

lemma client_at_in: "client_at i s = Some c \<Longrightarrow> c \<in> set (sv_clients s)"
  by (auto simp: client_at_def split: if_splits)

lemma answered_clients: "answered env sock n s s' \<Longrightarrow> sv_clients s' = sv_clients s"
  by (auto simp: answered_def sv_clients_def)

lemma close_fd_same [simp]:
  "sv_rtp (close_fd fd s) = sv_rtp s" "sv_clients (close_fd fd s) = sv_clients s" "sv_localip (close_fd fd s) = sv_localip s"
  "sv_session (close_fd fd s) = sv_session s" "sv_threads (close_fd fd s) = sv_threads s" "sv_answers (close_fd fd s) = sv_answers s"
  "sv_listening (close_fd fd s) = sv_listening s"
  by (simp_all add: close_fd_def sv_clients_def)

section \<open>Ports\<close>

definition port_ok :: "int \<Rightarrow> bool" where
  "port_ok p \<longleftrightarrow> 0 \<le> p \<and> p < 2 ^ 16"

definition client_ok :: "int \<Rightarrow> rtsp_client \<Rightarrow> bool" where
  "client_ok next c \<longleftrightarrow> rc_index c = 0 \<and> length (rc_IP c) < 20 \<and> length (rc_urlPre c) < PARAM_STRING_MAX \<and>
     0 \<le> rc_sessionid c \<and> rc_sessionid c < next \<and>
     port_ok (fst (rc_rtpport c)) \<and> port_ok (snd (rc_rtpport c)) \<and> port_ok (rc_rtcpport c)"

lemma idle_ok: "client_ok n c \<Longrightarrow> client_ok n (idle c)"
  by (simp add: client_ok_def idle_def)

text \<open>The ports that are read have 16 bits.\<close>

lemma stored_less: "\<forall>n \<in> set (stored bits vs). n < 2 ^ bits"
  by (induction bits vs rule: stored.induct) (auto simp: nat_less_iff)

lemma field_ports_less:
  assumes "\<forall>n \<in> set b. n < 2 ^ 16" "\<forall>n \<in> set c. n < 2 ^ 16" "tr_rtp tr < 2 ^ 16" "tr_rtcp tr < 2 ^ 16"
    and "(if x1 then Some (tr\<lparr>tr_mode := RTP_TCP\<rparr>) else if x2 then Some (tr\<lparr>tr_mode := RAW_UDP\<rparr>) else if x3 then None
      else case a of [ttl] \<Rightarrow> Some (tr\<lparr>tr_ttl := ttl mod 2 ^ 8\<rparr>)
      | _ \<Rightarrow> (case b of [p1, p2] \<Rightarrow> Some (tr\<lparr>tr_rtp := p1, tr_rtcp := p2\<rparr>)
        | _ \<Rightarrow> (case c of [p1] \<Rightarrow> Some (tr\<lparr>tr_rtp := p1, tr_rtcp := (if tr_mode tr = RAW_UDP then 0 else (p1 + 1) mod 2 ^ 16)\<rparr>)
          | _ \<Rightarrow> (case d of [c1, c2] \<Rightarrow> Some (tr\<lparr>tr_rtp_chan := c1 mod 2 ^ 8, tr_rtcp_chan := c2 mod 2 ^ 8\<rparr>) | _ \<Rightarrow> Some tr)))) = Some tr'"
  shows "tr_rtp tr' < 2 ^ 16 \<and> tr_rtcp tr' < 2 ^ 16"
  using assms by (auto split: if_split_asm list.split_asm)

lemma transport_field_ports:
  assumes "transport_field f tr = Some tr'" "tr_rtp tr < 2 ^ 16" "tr_rtcp tr < 2 ^ 16"
  shows "tr_rtp tr' < 2 ^ 16 \<and> tr_rtcp tr' < 2 ^ 16"
  by (rule field_ports_less [OF _ _ assms(2,3) assms(1) [unfolded transport_field_def]])
    (unfold scan_nums_def, rule stored_less, rule stored_less)

lemma transport_fields_ports:
  "transport_fields s tr = Some tr' \<Longrightarrow> tr_rtp tr < 2 ^ 16 \<Longrightarrow> tr_rtcp tr < 2 ^ 16 \<Longrightarrow> tr_rtp tr' < 2 ^ 16 \<and> tr_rtcp tr' < 2 ^ 16"
proof (induction s tr rule: transport_fields.induct)
  case (1 s tr)
  show ?case
  proof (cases "next_field s")
    case None
    then show ?thesis using "1.prems" by (simp add: transport_fields.simps [of s])
  next
    case (Some f)
    then obtain tr1 where t: "transport_field f tr = Some tr1"
      using "1.prems"(1) by (auto simp: transport_fields.simps [of s] bind_eq_Some_conv)
    note p = transport_field_ports [OF t "1.prems"(2,3)]
    show ?thesis using "1.IH" [OF Some t refl] "1.prems"(1) p Some t
      by (auto simp: transport_fields.simps [of s] Let_def split: if_splits)
  qed
qed

lemma transport_ports: "ParseTransportHeader buf = Some tr \<Longrightarrow> tr_rtp tr < 2 ^ 16 \<and> tr_rtcp tr < 2 ^ 16"
  by (auto simp: ParseTransportHeader_def bind_eq_Some_conv no_transport_def split: option.splits dest!: transport_fields_ports)


section \<open>What a request changes\<close>

lemma on_describe_answered: "on_describe env r c s = Some s' \<Longrightarrow> answered env (rc_socket c) 2048 s s'"
  by (auto simp: on_describe_def split: bind_splits dest: answers_answered(2))

lemma on_setup_cases:
  assumes "on_setup env recvbuf r c s = Some s'"
  obtains s1 d d' where "answered env (rc_socket c) 1024 s s1" "client_at (rc_index c) s = Some d"
    "set_client (rc_index c) d' s1 = Some s'"
    "d' = d\<lparr>rc_rtpport := rc_rtpport d', rc_rtcpport := rc_rtcpport d', rc_reqchn := rc_reqchn d', rc_urlPre := rc_urlPre d'\<rparr>"
    "\<And>n. client_ok n d \<Longrightarrow> client_ok n d'"
proof -
  obtain ok ports s1 where a: "SetupAnswer env (rq_cseq r) (rc_socket c) (rc_sessionid c) recvbuf s = Some (ok, ports, s1)"
    using assms by (auto simp: on_setup_def bind_eq_Some_conv)
  have b: "answered env (rc_socket c) 1024 s s1" by (rule answers_answered(3) [OF a])
  then have same: "client_at i s1 = client_at i s" for i by (simp add: client_at_def answered_clients)
  have ports: "rtp < 2 ^ 16 \<and> rtcp < 2 ^ 16" if "ports = Some (rtp, rtcp)" for rtp rtcp
    using a that transport_ports by (auto simp: SetupAnswer_def bind_eq_Some_conv split: if_splits)
  from assms a same obtain suf pre d rtp rtcp where p: "ports = Some (rtp, rtcp)" and d: "client_at (rc_index c) s = Some d"
    "set_client (rc_index c) (if length pre < 100
       then d\<lparr>rc_rtpport := set_port (track_id suf) (int rtp) (rc_rtpport d), rc_rtcpport := int rtcp, rc_reqchn := atoi pre, rc_urlPre := pre\<rparr>
       else d\<lparr>rc_rtpport := set_port (track_id suf) (int rtp) (rc_rtpport d), rc_rtcpport := int rtcp, rc_reqchn := atoi pre\<rparr>) s1 = Some s'"
    by (clarsimp simp: on_setup_def Let_def bind_eq_Some_conv)
  show thesis
    by (rule that [OF b d]) (use ports [OF p] in \<open>auto simp: client_ok_def port_ok_def set_port_def PARAM_STRING_MAX_def\<close>)
qed

lemma on_play_cases:
  assumes "on_play env r c s = Some s'"
  obtains s1 d ok where "PlayAnswer env (rq_cseq r) (rc_socket c) (rc_sessionid c) (rc_urlPre d) s = Some (ok, s1)"
    "answered env (rc_socket c) 1024 s s1" "client_at (rc_index c) s = Some d"
    "set_client (rc_index c) (d\<lparr>rc_status := RTSP_SENDING\<rparr>) s1 = Some s'"
proof -
  obtain d ok s1 where a: "client_at (rc_index c) s = Some d"
    "PlayAnswer env (rq_cseq r) (rc_socket c) (rc_sessionid c) (rc_urlPre d) s = Some (ok, s1)"
    using assms by (auto simp: on_play_def bind_eq_Some_conv)
  have b: "answered env (rc_socket c) 1024 s s1" by (rule answers_answered(4) [OF a(2)])
  then have same: "client_at i s1 = client_at i s" for i by (simp add: client_at_def answered_clients)
  show thesis using that [OF a(2) b a(1)] assms a same by (simp add: on_play_def)
qed

lemma on_teardown_cases:
  assumes "on_teardown env r c s = Some s'"
  obtains s1 s2 d where "answered env (rc_socket c) 1024 s s1" "client_at (rc_index c) s = Some d"
    "set_client (rc_index c) (idle d) s1 = Some s2" "s' = close_fd (rc_socket c) s2"
proof -
  obtain ok s1 where a: "TeardownAnswer env (rq_cseq r) (rc_socket c) (rc_sessionid c) s = Some (ok, s1)"
    using assms by (auto simp: on_teardown_def bind_eq_Some_conv)
  have b: "answered env (rc_socket c) 1024 s s1" by (rule answers_answered(6) [OF a])
  then have same: "client_at i s1 = client_at i s" for i by (simp add: client_at_def answered_clients)
  show thesis using that [OF b] assms a same by (auto simp: on_teardown_def bind_eq_Some_conv)
qed

lemma dispatch:
  "(if a1 then x1 else if a2 then x2 else if a3 then x3 else if a4 then x4 else if a5 then x5 else if a6 then x6 else x7) = y \<Longrightarrow>
   x1 = y \<or> x2 = y \<or> x3 = y \<or> a4 \<and> x4 = y \<or> x5 = y \<or> x6 = y \<or> x7 = y"
  by (auto split: if_splits)

text \<open>A request changes the client's slot and its answers, and that is all.\<close>

lemma reply_cases:
  assumes "reply env t r s = Some s'" "cstr (rq_cmd r) = Some cmd"
  obtains c where "client_at (int (th_slot t)) s = Some c" "answered env (rc_socket c) 2048 s s'"
  | c s1 d d' where "client_at (int (th_slot t)) s = Some c" "answered env (rc_socket c) 1024 s s1"
      "client_at (rc_index c) s = Some d" "set_client (rc_index c) d' s1 = Some s'"
      "d' = d\<lparr>rc_rtpport := rc_rtpport d', rc_rtcpport := rc_rtcpport d', rc_reqchn := rc_reqchn d', rc_urlPre := rc_urlPre d'\<rparr>"
      "\<And>n. client_ok n d \<Longrightarrow> client_ok n d'"
  | c s1 d where "strstr cmd ''PLAY''" "client_at (int (th_slot t)) s = Some c" "answered env (rc_socket c) 1024 s s1"
      "client_at (rc_index c) s = Some d" "set_client (rc_index c) (d\<lparr>rc_status := RTSP_SENDING\<rparr>) s1 = Some s'"
  | c s1 s2 d where "client_at (int (th_slot t)) s = Some c" "answered env (rc_socket c) 1024 s s1"
      "client_at (rc_index c) s = Some d" "set_client (rc_index c) (idle d) s1 = Some s2" "s' = close_fd (rc_socket c) s2"
proof -
  obtain c where c: "client_at (int (th_slot t)) s = Some c" using assms by (auto simp: reply_def bind_eq_Some_conv)
  have weaken: "answered env k 1024 s u \<Longrightarrow> answered env k 2048 s u" for k u by (auto simp: answered_def)
  have "(if strstr cmd ''OPTIONS'' then map_option snd (OptionAnswer env (rq_cseq r) (rc_socket c) s)
      else if strstr cmd ''DESCRIBE'' then on_describe env r c s
      else if strstr cmd ''SETUP'' then on_setup env (th_recvbuf t) r c s
      else if strstr cmd ''PLAY'' then on_play env r c s
      else if strstr cmd ''PAUSE'' then map_option snd (PauseAnswer env (rq_cseq r) (rc_socket c) s)
      else if strstr cmd ''TEARDOWN'' then on_teardown env r c s else Some s) = Some s'"
    using assms c by (simp add: reply_def)
  from dispatch [OF this] show thesis
  proof (elim disjE conjE)
    assume "map_option snd (OptionAnswer env (rq_cseq r) (rc_socket c) s) = Some s'"
    then obtain ok where "OptionAnswer env (rq_cseq r) (rc_socket c) s = Some (ok, s')" by auto
    then show thesis using that(1) [OF c] weaken answers_answered(1) by blast
  next
    assume "on_describe env r c s = Some s'"
    then show thesis using that(1) [OF c] on_describe_answered by blast
  next
    assume "on_setup env (th_recvbuf t) r c s = Some s'"
    then show thesis by (rule on_setup_cases) (rule that(2) [OF c])
  next
    assume p: "strstr cmd ''PLAY''" "on_play env r c s = Some s'"
    from p(2) show thesis by (rule on_play_cases) (rule that(3) [OF p(1) c])
  next
    assume "map_option snd (PauseAnswer env (rq_cseq r) (rc_socket c) s) = Some s'"
    then obtain ok where "PauseAnswer env (rq_cseq r) (rc_socket c) s = Some (ok, s')" by auto
    then show thesis using that(1) [OF c] weaken answers_answered(5) by blast
  next
    assume "on_teardown env r c s = Some s'"
    then show thesis by (rule on_teardown_cases) (rule that(4) [OF c])
  next
    assume "Some s = Some s'"
    then show thesis using that(1) [OF c] answered_refl by simp
  qed
qed

section \<open>No packets without a request to play\<close>

definition quiet :: "rtsp_server \<Rightarrow> bool" where
  "quiet s \<longleftrightarrow> (\<forall>c \<in> set (sv_clients s). rc_status c \<noteq> RTSP_SENDING) \<and> rs_deque (sv_rtp s) = [] \<and> rs_sent (sv_rtp s) = []"

lemma answered_quiet: "answered env sock n s s' \<Longrightarrow> quiet s' = quiet s"
  by (auto simp: answered_def quiet_def sv_clients_def)

lemma set_client_quiet: "set_client i c s = Some s' \<Longrightarrow> quiet s \<Longrightarrow> rc_status c \<noteq> RTSP_SENDING \<Longrightarrow> quiet s'"
  using set_update_subset_insert by (fastforce simp: set_client_def quiet_def sv_clients_def split: if_splits)

lemma idle_status: "rc_status (idle c) = RTSP_IDLE"
  by (simp add: idle_def)

lemma client_at_quiet: "client_at i s = Some c \<Longrightarrow> quiet s \<Longrightarrow> rc_status c \<noteq> RTSP_SENDING"
  using client_at_in by (auto simp: quiet_def)

lemma close_fd_quiet: "quiet (close_fd fd s) = quiet s"
  by (simp add: quiet_def)

lemma reply_quiet:
  assumes "reply env t r s = Some s'" "cstr (rq_cmd r) = Some cmd" "\<not> strstr cmd ''PLAY''" "quiet s"
  shows "quiet s'"
  using assms(1,2)
proof (cases rule: reply_cases)
  case (2 c s1 d d')
  have "rc_status d' = rc_status d" by (subst 2(5)) simp
  then show ?thesis using set_client_quiet [OF 2(4)] answered_quiet [OF 2(2)] client_at_quiet [OF 2(3)] assms(4) by simp
next
  case (4 c s1 s2 d)
  then show ?thesis using set_client_quiet [OF 4(4)] answered_quiet [OF 4(2)] assms(4) by (simp add: close_fd_quiet idle_status)
qed (use assms(3,4) answered_quiet in auto)

text \<open>The command of a request is at the start of what was received.\<close>

lemma parsed_command:
  assumes "ParseRequestString (data @ rest) (length data) r = Some (ok, r')" "buffers_ok r" "cstr (rq_cmd r') = Some cmd"
  obtains w where "data = cmd @ w"
proof -
  obtain e where e: "e \<le> length data" "rq_cmd r' = cut (data @ rest) 0 e @ CHR 0x00 # drop (e + 1) (rq_cmd r)"
    using parse_cmd [OF assms(1)] assms(2) by (auto simp: buffers_ok_def)
  have "cut (data @ rest) 0 e = take e data" using e(1) by (simp add: cut_def)
  then have "cmd = takeWhile (\<lambda>c. c \<noteq> CHR 0x00) (take e data @ CHR 0x00 # drop (e + 1) (rq_cmd r))"
    using assms(3) e(2) by (auto simp: cstr_def split: if_splits)
  also have "\<dots> = takeWhile (\<lambda>c. c \<noteq> CHR 0x00) (take e data)" by (auto simp: takeWhile_append takeWhile_eq_all_conv [THEN iffD2])
  finally have "cmd = takeWhile (\<lambda>c. c \<noteq> CHR 0x00) (take e data)" .
  then have "data = cmd @ dropWhile (\<lambda>c. c \<noteq> CHR 0x00) (take e data) @ drop e data"
    by (metis append.assoc append_take_drop_id takeWhile_dropWhile_id)
  then show thesis by (rule that)
qed


text \<open>What is given with an event has the sizes of the code's arrays.\<close>

definition env_ok :: "request_env \<Rightarrow> bool" where
  "env_ok env \<longleftrightarrow> buffers_ok (en_junk env) \<and> length (en_date env) < 200 \<and> length (en_ip env) < 16"

fun server_event_ok :: "server_event \<Rightarrow> bool" where
  "server_event_ok (Recv k env data) = env_ok env"
| "server_event_ok (Accept fd ip) = (length ip < 16)"
| "server_event_ok _ = True"

fun asks_to_play :: "server_event \<Rightarrow> bool" where
  "asks_to_play (Recv k env data) = strstr data ''PLAY''"
| "asks_to_play _ = False"

lemma recv_closed_cases:
  assumes "handle_recv env [] t s = Some (t', s')"
  obtains c d s1 fd where "client_at (int (th_slot t)) s = Some c" "client_at (rc_index c) s = Some d"
    "set_client (rc_index c) (idle d) s = Some s1" "s' = close_fd fd s1" "t' = t\<lparr>th_place := Returned\<rparr>"
proof -
  have "\<exists>c d s1 fd. client_at (int (th_slot t)) s = Some c \<and> client_at (rc_index c) s = Some d \<and>
      set_client (rc_index c) (idle d) s = Some s1 \<and> s' = close_fd fd s1 \<and> t' = t\<lparr>th_place := Returned\<rparr>"
    using assms by (auto simp: handle_recv_def bind_eq_Some_conv)
  then show thesis using that by blast
qed

lemma recv_data_cases:
  assumes "handle_recv env data t s = Some (t', s')" "data \<noteq> []"
  obtains ok r where "ParseRequestString (data @ drop (length data) (th_recvbuf t)) (length data) (en_junk env) = Some (ok, r)"
    "t' = t\<lparr>th_place := At_Loop, th_recvbuf := data @ drop (length data) (th_recvbuf t)\<rparr>" "reply env t' r s = Some s'"
  using assms by (clarsimp simp: handle_recv_def Let_def bind_eq_Some_conv)

lemma accept_cases:
  assumes "rtsp_accept fd ip s = Some s'"
  obtains "s' = s\<lparr>sv_listening := False\<rparr>"
  | i s1 where "i = (case idle_slot 0 (sv_clients s) of Some i \<Rightarrow> i | None \<Rightarrow> 0)"
      "set_client (int i) (new_client (int i) fd (sv_session s) ip) s = Some s1" "length ip < 20" "0 \<le> fd"
      "s' = s1\<lparr>sv_session := sv_session s1 + 1, sv_threads := sv_threads s1 @ [new_thread i]\<rparr>"
  using assms by (auto simp: rtsp_accept_def Let_def fits_def bind_eq_Some_conv split: if_splits)

lemma handle_recv_quiet:
  assumes "handle_recv env data t s = Some (t', s')" "quiet s" "buffers_ok (en_junk env)" "\<not> strstr data ''PLAY''"
  shows "quiet s'"
proof (cases "data = []")
  case True
  show ?thesis using assms(1) unfolding True
    by (rule recv_closed_cases) (use set_client_quiet assms(2) in \<open>auto simp: close_fd_quiet idle_status\<close>)
next
  case False
  obtain ok r where r: "ParseRequestString (data @ drop (length data) (th_recvbuf t)) (length data) (en_junk env) = Some (ok, r)"
    "reply env t' r s = Some s'"
    using assms(1) False by (rule recv_data_cases)
  then obtain cmd where cmd: "cstr (rq_cmd r) = Some cmd" by (auto simp: reply_def bind_eq_Some_conv)
  obtain w where "data = cmd @ w" using parsed_command [OF r(1) assms(3) cmd] .
  then have "\<not> strstr cmd ''PLAY''" using assms(4) unfolding strstr_iff by (metis append.assoc)
  then show ?thesis by (rule reply_quiet [OF r(2) cmd _ assms(2)])
qed

lemma stream_quiet: "rtp_event_step e r = Some r' \<Longrightarrow> \<forall>c \<in> set (rs_clients r). rc_status c \<noteq> RTSP_SENDING \<Longrightarrow> rs_deque r = [] \<Longrightarrow> r' = r"
  using push_clients_same by (cases e) (auto simp: push_h264_stream_def rtp_send_turn_def)

lemma with_thread_same [simp]:
  "sv_rtp (with_thread k (t, s)) = sv_rtp s" "sv_clients (with_thread k (t, s)) = sv_clients s"
  "sv_session (with_thread k (t, s)) = sv_session s" "sv_localip (with_thread k (t, s)) = sv_localip s"
  "sv_answers (with_thread k (t, s)) = sv_answers s" "sv_threads (with_thread k (t, s)) = (sv_threads s)[k := t]"
  by (simp_all add: with_thread_def sv_clients_def)

lemma step_quiet:
  assumes "server_step e s = Some s'" "quiet s" "server_event_ok e" "\<not> asks_to_play e"
  shows "quiet s'"
proof (cases e)
  case (Listen a b c)
  then show ?thesis using assms by (auto simp: rtsp_listen_def quiet_def sv_clients_def)
next
  case (Accept fd ip)
  have n: "rc_status (new_client i fd n ip') \<noteq> RTSP_SENDING" for i n ip' by (simp add: new_client_def)
  show ?thesis
  proof (cases "sv_listening s")
    case True
    then have "rtsp_accept fd ip s = Some s'" using Accept assms(1) by simp
    then show ?thesis
    proof (cases rule: accept_cases)
      case (2 i s1)
      then have "quiet s1" using set_client_quiet n assms(2) by blast
      then show ?thesis using 2 by (simp add: quiet_def sv_clients_def)
    qed (use assms(2) in \<open>simp add: quiet_def sv_clients_def\<close>)
  qed (use Accept assms in simp)
next
  case (Loop k)
  then show ?thesis using assms(1,2) by (auto simp: quiet_def split: if_splits)
next
  case (Recv k env data)
  then have j: "buffers_ok (en_junk env)" "\<not> strstr data ''PLAY''" using assms(3,4) by (simp_all add: env_ok_def)
  from Recv assms(1) consider "s' = s" | t' s1 where
    "handle_recv env data (sv_threads s ! k) s = Some (t', s1)" "s' = with_thread k (t', s1)"
    by (auto split: if_splits)
  then show ?thesis
  proof cases
    case 2
    then show ?thesis using handle_recv_quiet [OF 2(1) assms(2) j] by (simp add: quiet_def)
  qed (use assms(2) in simp)
next
  case (Stream x)
  then obtain r where r: "rtp_event_step x (sv_rtp s) = Some r" "s' = s\<lparr>sv_rtp := r\<rparr>" using assms(1) by auto
  have "r = sv_rtp s" by (rule stream_quiet [OF r(1)]) (use assms(2) in \<open>auto simp: quiet_def sv_clients_def\<close>)
  then show ?thesis using r(2) assms(2) by simp
qed

text \<open>
  C11: no packet is sent before a client has asked to play: whatever connects, is received, is
  pushed and is taken from the queue, in any order, as long as no request has the word \<open>PLAY\<close> in
  it, nothing is sent, no frame is queued and no client is marked as playing.
\<close>

theorem no_play_no_packets:
  assumes "server_run es rtsp_server_init = Some s" "\<forall>e \<in> set es. server_event_ok e \<and> \<not> asks_to_play e"
  shows "rs_sent (sv_rtp s) = [] \<and> rs_deque (sv_rtp s) = [] \<and> (\<forall>c \<in> set (sv_clients s). rc_status c \<noteq> RTSP_SENDING)"
proof -
  have "quiet s" if "server_run es s0 = Some s" "quiet s0" for s0
    using that assms(2)
  proof (induction es arbitrary: s0)
    case (Cons e es)
    then obtain s1 where s1: "server_step e s0 = Some s1" "server_run es s1 = Some s" by (auto simp: bind_eq_Some_conv)
    have "quiet s1" by (rule step_quiet [OF s1(1) Cons.prems(2)]) (use Cons.prems(3) in auto)
    then show ?case using Cons.IH [OF s1(2)] Cons.prems(3) by simp
  qed simp
  moreover have "quiet rtsp_server_init" by (simp add: quiet_def rtsp_server_init_def sv_clients_def no_client_def)
  ultimately show ?thesis using assms(1) by (auto simp: quiet_def)
qed


section \<open>The server's variables\<close>

definition thread_ok :: "rtsp_thread \<Rightarrow> bool" where
  "thread_ok t \<longleftrightarrow> th_slot t = 0 \<and> length (th_recvbuf t) = RTSP_RECV_SIZE"

definition server_ok :: "rtsp_server \<Rightarrow> bool" where
  "server_ok s \<longleftrightarrow> (\<exists>c. sv_clients s = [c] \<and> client_ok (sv_session s) c) \<and>
     sv_session s = 1000 + int (length (sv_threads s)) \<and> (\<forall>t \<in> set (sv_threads s). thread_ok t) \<and>
     (\<forall>ip. sv_localip s = Some ip \<longrightarrow> length ip < 16) \<and> (\<forall>(sock, text) \<in> set (sv_answers s). length text < 2048)"

lemma server_okE:
  assumes "server_ok s"
  obtains c where "sv_clients s = [c]" "client_ok (sv_session s) c" "\<And>n. client_at n s = (if n = 0 then Some c else None)"
    "\<And>d s'. set_client 0 d s = Some s' \<longleftrightarrow> s' = s\<lparr>sv_rtp := (sv_rtp s)\<lparr>rs_clients := [d]\<rparr>\<rparr>"
proof -
  obtain c where c: "sv_clients s = [c]" "client_ok (sv_session s) c" using assms by (auto simp: server_ok_def)
  show thesis by (rule that [OF c]) (use c in \<open>auto simp: client_at_def set_client_def\<close>)
qed

lemma answered_ok: "answered env sock n s s' \<Longrightarrow> n \<le> 2048 \<Longrightarrow> env_ok env \<Longrightarrow> server_ok s \<Longrightarrow> server_ok s'"
  by (auto simp: answered_def server_ok_def sv_clients_def env_ok_def)

lemma slot_ok:
  assumes "server_ok s" "set_client i d s = Some s'" "client_ok (sv_session s) d"
  shows "server_ok s'"
proof -
  obtain c where c: "sv_clients s = [c]" using assms(1) by (rule server_okE)
  then show ?thesis using assms by (auto simp: set_client_def server_ok_def sv_clients_def split: if_splits)
qed

lemma close_fd_ok: "server_ok (close_fd fd s) = server_ok s"
  by (simp add: server_ok_def)

lemma client_at_ok: "server_ok s \<Longrightarrow> client_at i s = Some c \<Longrightarrow> client_ok (sv_session s) c"
  by (erule server_okE) (auto split: if_splits)


lemma reply_ok:
  assumes "reply env t r s = Some s'" "env_ok env" "server_ok s"
  shows "server_ok s'"
proof -
  obtain cmd where cmd: "cstr (rq_cmd r) = Some cmd" using assms(1) by (auto simp: reply_def bind_eq_Some_conv)
  have a: "server_ok s1" "sv_session s1 = sv_session s" if "answered env k n s s1" "n \<le> 2048" for k n s1
    using answered_ok [OF that assms(2,3)] that(1) by (simp_all add: answered_def)
  from assms(1) cmd show ?thesis
  proof (cases rule: reply_cases)
    case (2 c s1 d d')
    then show ?thesis using a [OF 2(2)] client_at_ok [OF assms(3) 2(3)] by (auto intro: slot_ok)
  next
    case (3 c s1 d)
    have "client_ok (sv_session s) (d\<lparr>rc_status := RTSP_SENDING\<rparr>)"
      using client_at_ok [OF assms(3) 3(4)] by (simp add: client_ok_def)
    then show ?thesis using a [OF 3(3)] 3(5) by (auto intro: slot_ok)
  next
    case (4 c s1 s2 d)
    have "server_ok s2"
      by (rule slot_ok [OF _ 4(4)]) (use a [OF 4(2)] idle_ok [OF client_at_ok [OF assms(3) 4(3)]] in simp_all)
    then show ?thesis using 4(5) by (simp add: close_fd_ok)
  qed (use a in auto)
qed

lemma with_thread_ok: "server_ok s \<Longrightarrow> thread_ok t \<Longrightarrow> server_ok (with_thread k (t, s))"
  using set_update_subset_insert [of "sv_threads s" k t] by (auto simp: server_ok_def)

lemma recv_ok:
  assumes "handle_recv env data t s = Some (t', s')" "env_ok env" "length data \<le> RTSP_RECV_SIZE" "server_ok s" "thread_ok t"
  shows "server_ok s' \<and> thread_ok t'"
proof (cases "data = []")
  case True
  obtain i d s1 fd where r: "client_at i s = Some d" "set_client i (idle d) s = Some s1"
    "s' = close_fd fd s1" "t' = t\<lparr>th_place := Returned\<rparr>"
    using assms(1) unfolding True by (rule recv_closed_cases)
  have "server_ok s1" by (rule slot_ok [OF assms(4) r(2) idle_ok [OF client_at_ok [OF assms(4) r(1)]]])
  then show ?thesis using r(3,4) assms(5) by (simp add: close_fd_ok thread_ok_def)
next
  case False
  obtain r where r: "t' = t\<lparr>th_place := At_Loop, th_recvbuf := data @ drop (length data) (th_recvbuf t)\<rparr>" "reply env t' r s = Some s'"
    using assms(1) False by (rule recv_data_cases) 
  have "thread_ok t'" using r(1) assms(3,5) by (simp add: thread_ok_def)
  then show ?thesis using reply_ok [OF r(2) assms(2,4)] by simp
qed

lemma same_client_ok: "same_client c c' \<Longrightarrow> client_ok n c' = client_ok n c"
  using same_client_fields by (simp add: client_ok_def)

lemma step_ok:
  assumes "server_step e s = Some s'" "server_event_ok e" "server_ok s"
  shows "server_ok s'"
proof (cases e)
  case (Listen a b c)
  then show ?thesis using assms by (auto simp: rtsp_listen_def server_ok_def sv_clients_def)
next
  case (Accept fd ip)
  show ?thesis
  proof (cases "sv_listening s")
    case True
    then have "rtsp_accept fd ip s = Some s'" using Accept assms(1) by simp
    then show ?thesis
    proof (cases rule: accept_cases)
      case (2 i s1)
      obtain c where c: "sv_clients s = [c]" using assms(3) by (rule server_okE)
      have n: "0 \<le> sv_session s" using assms(3) by (simp add: server_ok_def)
      have i: "i = 0" using 2(1) c by simp
      then show ?thesis using 2(2,3,5) c assms(3) n
        by (auto simp: set_client_def server_ok_def sv_clients_def client_ok_def new_client_def no_client_def
            new_thread_def thread_ok_def port_ok_def PARAM_STRING_MAX_def)
    qed (use assms(3) in \<open>auto simp: server_ok_def sv_clients_def\<close>)
  qed (use Accept assms in simp)
next
  case (Loop k)
  then show ?thesis using assms(1,3)
    by (auto simp: loop_head_def bind_eq_Some_conv split: if_splits intro!: with_thread_ok) (auto simp: thread_ok_def server_ok_def)
next
  case (Recv k env data)
  from Recv assms(1) consider "s' = s" | t' s1 where "k < length (sv_threads s)" "length data \<le> RTSP_RECV_SIZE"
    "handle_recv env data (sv_threads s ! k) s = Some (t', s1)" "s' = with_thread k (t', s1)"
    by (auto split: if_splits)
  then show ?thesis
  proof cases
    case 2
    have "thread_ok (sv_threads s ! k)" using 2(1) assms(3) by (simp add: server_ok_def)
    then show ?thesis using recv_ok [OF 2(3) _ 2(2) assms(3)] 2(4) assms(2) Recv by (auto intro: with_thread_ok)
  qed (use assms(3) in simp)
next
  case (Stream x)
  then obtain r where r: "rtp_event_step x (sv_rtp s) = Some r" "s' = s\<lparr>sv_rtp := r\<rparr>" using assms(1) by auto
  obtain c where "sv_clients s = [c]" "client_ok (sv_session s) c" using assms(3) by (rule server_okE)
  then obtain c' where "rs_clients r = [c']" "client_ok (sv_session s) c'"
    using stream_step_same [OF r(1)] same_client_ok by (auto simp: sv_clients_def list_all2_Cons1)
  then show ?thesis using r(2) assms(3) by (simp add: server_ok_def sv_clients_def)
qed

lemma init_ok: "server_ok rtsp_server_init"
  by (simp add: server_ok_def rtsp_server_init_def sv_clients_def MAX_RTSP_CLIENT_def client_ok_def no_client_def port_ok_def PARAM_STRING_MAX_def)

lemma run_ok: "server_run es s = Some s' \<Longrightarrow> \<forall>e \<in> set es. server_event_ok e \<Longrightarrow> server_ok s \<Longrightarrow> server_ok s'"
  by (induction es arbitrary: s) (auto simp: bind_eq_Some_conv intro: step_ok)

text \<open>Session numbers start at 1000; 0 stands for a slot that no client has had. Answers fit their buffers.\<close>

definition settled :: "rtsp_server \<Rightarrow> bool" where
  "settled s \<longleftrightarrow> (\<forall>c \<in> set (sv_clients s). rc_sessionid c = 0 \<or> 1000 \<le> rc_sessionid c) \<and>
     (\<forall>(sock, text) \<in> set (sv_answers s). answer_fits text)"

lemma answered_settled: "answered env sock n s s' \<Longrightarrow> settled s \<Longrightarrow> settled s'"
  by (auto simp: answered_def settled_def sv_clients_def)

lemma set_client_settled:
  "set_client i c s = Some s' \<Longrightarrow> settled s \<Longrightarrow> rc_sessionid c = 0 \<or> 1000 \<le> rc_sessionid c \<Longrightarrow> settled s'"
  using set_update_subset_insert by (fastforce simp: set_client_def settled_def sv_clients_def split: if_splits)

lemma client_at_settled: "client_at i s = Some c \<Longrightarrow> settled s \<Longrightarrow> rc_sessionid c = 0 \<or> 1000 \<le> rc_sessionid c"
  using client_at_in by (auto simp: settled_def)

lemma idle_session: "rc_sessionid (idle c) = rc_sessionid c"
  by (simp add: idle_def)

lemma reply_settled:
  assumes "reply env t r s = Some s'" "settled s"
  shows "settled s'"
proof -
  obtain cmd where cmd: "cstr (rq_cmd r) = Some cmd" using assms(1) by (auto simp: reply_def bind_eq_Some_conv)
  from assms(1) cmd show ?thesis
  proof (cases rule: reply_cases)
    case (2 c s1 d d')
    have "rc_sessionid d' = rc_sessionid d" by (subst 2(5)) simp
    then show ?thesis using set_client_settled [OF 2(4) answered_settled [OF 2(2) assms(2)]] client_at_settled [OF 2(3) assms(2)] by simp
  next
    case (3 c s1 d)
    then show ?thesis using set_client_settled [OF 3(5) answered_settled [OF 3(3) assms(2)]] client_at_settled [OF 3(4) assms(2)] by simp
  next
    case (4 c s1 s2 d)
    have "settled s2"
      using set_client_settled [OF 4(4) answered_settled [OF 4(2) assms(2)]] client_at_settled [OF 4(3) assms(2)] by (simp add: idle_session)
    then show ?thesis using 4(5) by (simp add: settled_def)
  qed (use assms(2) answered_settled in auto)
qed

lemma recv_settled:
  assumes "handle_recv env data t s = Some (t', s')" "settled s"
  shows "settled s'"
proof (cases "data = []")
  case True
  obtain i d s1 fd where r: "client_at i s = Some d" "set_client i (idle d) s = Some s1" "s' = close_fd fd s1"
    using assms(1) unfolding True by (rule recv_closed_cases)
  have "settled s1" using set_client_settled [OF r(2) assms(2)] client_at_settled [OF r(1) assms(2)] by (simp add: idle_session)
  then show ?thesis using r(3) by (simp add: settled_def)
next
  case False
  then show ?thesis using recv_data_cases [OF assms(1)] reply_settled assms(2) by metis
qed

lemma step_settled:
  assumes "server_step e s = Some s'" "settled s" "server_ok s"
  shows "settled s'"
proof (cases e)
  case (Listen a b c)
  then show ?thesis using assms(1,2) by (auto simp: rtsp_listen_def settled_def sv_clients_def)
next
  case (Accept fd ip)
  have n: "1000 \<le> rc_sessionid (new_client i fd (sv_session s) ip')" for i ip' using assms(3) by (simp add: new_client_def server_ok_def)
  show ?thesis
  proof (cases "sv_listening s")
    case True
    then have "rtsp_accept fd ip s = Some s'" using Accept assms(1) by simp
    then show ?thesis
    proof (cases rule: accept_cases)
      case (2 i s1)
      have "settled s1" by (rule set_client_settled [OF 2(2) assms(2)]) (use n in blast)
      then show ?thesis using 2(5) by (simp add: settled_def sv_clients_def)
    qed (use assms(2) in \<open>simp add: settled_def sv_clients_def\<close>)
  qed (use Accept assms in simp)
next
  case (Loop k)
  then show ?thesis using assms(1,2) by (auto simp: settled_def split: if_splits)
next
  case (Recv k env data)
  from Recv assms(1) consider "s' = s" | t' s1 where
    "handle_recv env data (sv_threads s ! k) s = Some (t', s1)" "s' = with_thread k (t', s1)"
    by (auto split: if_splits)
  then show ?thesis
  proof cases
    case 2
    then show ?thesis using recv_settled [OF 2(1) assms(2)] by (simp add: settled_def)
  qed (use assms(2) in simp)
next
  case (Stream x)
  then obtain r where r: "rtp_event_step x (sv_rtp s) = Some r" "s' = s\<lparr>sv_rtp := r\<rparr>" using assms(1) by auto
  obtain c where c: "sv_clients s = [c]" using assms(3) by (rule server_okE)
  then obtain c' where "rs_clients r = [c']" "same_client c c'"
    using stream_step_same [OF r(1)] by (auto simp: sv_clients_def list_all2_Cons1)
  then show ?thesis using r(2) assms(2) c same_client_fields by (simp add: settled_def sv_clients_def)
qed

lemma run_settled:
  "server_run es s = Some s' \<Longrightarrow> \<forall>e \<in> set es. server_event_ok e \<Longrightarrow> server_ok s \<Longrightarrow> settled s \<Longrightarrow> settled s'"
  by (induction es arbitrary: s) (auto simp: bind_eq_Some_conv intro: step_ok step_settled)

lemma init_settled: "settled rtsp_server_init"
  by (simp add: settled_def rtsp_server_init_def sv_clients_def no_client_def)

text \<open>
  C18: the server's variables keep their shape: whatever happens, there is one client slot, with
  its own index, an address that fits its array, ports of 16 bits and a session number that is 0 until a client
  has had the slot, and then one from 1000 on that was given out; every thread works on that slot with a
  buffer of 1024 characters; a session number is given out for each client that was accepted; and every answer
  sent fits the buffer it was written to, which has 2048 characters for an answer to \<open>DESCRIBE\<close> and 1024 for
  every other one.
\<close>

theorem server_variables:
  assumes "server_run es rtsp_server_init = Some s" "\<forall>e \<in> set es. server_event_ok e"
  shows "server_ok s \<and> settled s"
  using run_ok [OF assms init_ok] run_settled [OF assms init_ok init_settled] by (rule conjI)


section \<open>The length of the answers\<close>

lemma length_show_d: "1 \<le> k \<Longrightarrow> n < 10 ^ k \<Longrightarrow> length (show_d (int n)) \<le> k"
  using show_nat_length by (simp add: show_d_def)

lemma length_ok_header: "length cseq < PARAM_STRING_MAX \<Longrightarrow> length (ok_header cseq) < 150"
  by (simp add: ok_header_def crlf_def PARAM_STRING_MAX_def)

lemma length_ports: "n < 2 ^ 16 \<Longrightarrow> length (show_d (int n)) \<le> 5"
  by (rule length_show_d) auto

lemma length_session: "0 \<le> n \<Longrightarrow> n < 10 ^ 10 \<Longrightarrow> length (show_d n) \<le> 10"
  using length_show_d [of 10 "nat n"] by (simp add: nat_less_iff)

lemma ntohs_less: "ntohs n < 2 ^ 16"
  by (simp add: ntohs_def)

lemma text_lengths:
  assumes "length cseq < PARAM_STRING_MAX" "length date < 200"
  shows "length (option_text cseq date) < 1024" "length (pause_text cseq date) < 1024"
    "0 \<le> n \<Longrightarrow> n < 10 ^ 10 \<Longrightarrow> length (teardown_text cseq date n) < 1024"
    "0 \<le> n \<Longrightarrow> n < 10 ^ 10 \<Longrightarrow> length ip < 16 \<Longrightarrow> length pre < PARAM_STRING_MAX \<Longrightarrow> length (play_text cseq date ip pre n) < 1024"
    "0 \<le> n \<Longrightarrow> n < 10 ^ 10 \<Longrightarrow> length ip < 16 \<Longrightarrow> p < 2 ^ 16 \<Longrightarrow> q < 2 ^ 16 \<Longrightarrow> length (setup_text cseq date ip p q n) < 1024"
    "length ip < 16 \<Longrightarrow> length suf < PARAM_STRING_MAX \<Longrightarrow> length m < 1024 \<Longrightarrow> length (describe_text cseq date ip suf m) < 2048"
    "length ip < 16 \<Longrightarrow> length (sdp ip) < 1024"
proof -
  note h = length_ok_header [OF assms(1)] and [simp] = crlf_def PARAM_STRING_MAX_def
  show "length (option_text cseq date) < 1024" "length (pause_text cseq date) < 1024"
    using h assms(2) by (simp_all add: option_text_def pause_text_def)
  show "length (sdp ip) < 1024" if "length ip < 16" using that by (simp add: sdp_def)
  show "length (teardown_text cseq date n) < 1024" if "0 \<le> n" "n < 10 ^ 10"
    using h assms(2) length_session [OF that] by (simp add: teardown_text_def)
  show "length (play_text cseq date ip pre n) < 1024"
    if "0 \<le> n" "n < 10 ^ 10" "length ip < 16" "length pre < PARAM_STRING_MAX"
    using h assms(2) length_session [OF that(1,2)] that(3,4) by (simp add: play_text_def)
  show "length (setup_text cseq date ip p q n) < 1024"
    if "0 \<le> n" "n < 10 ^ 10" "length ip < 16" "p < 2 ^ 16" "q < 2 ^ 16"
    using h assms(2) length_session [OF that(1,2)] length_ports [OF that(4)] length_ports [OF that(5)]
      length_ports [OF ntohs_less [of 2000]] length_ports [OF ntohs_less [of 2001]] that(3) by (simp add: setup_text_def)
  show "length (describe_text cseq date ip suf m) < 2048"
    if "length ip < 16" "length suf < PARAM_STRING_MAX" "length m < 1024"
  proof -
    have "length (show_d (int (length m))) \<le> 4" using that(3) by (intro length_show_d) auto
    then show ?thesis using h assms(2) that by (simp add: describe_text_def)
  qed
qed

lemma cstr_length: "cstr mem = Some s \<Longrightarrow> length s < length mem"
proof -
  have "c \<in> set m \<Longrightarrow> length (takeWhile (\<lambda>x. x \<noteq> c) m) < length m" for c and m :: string
    by (induction m) auto
  then show "cstr mem = Some s \<Longrightarrow> length s < length mem" by (auto simp: cstr_def split: if_splits)
qed

section \<open>The answers to a request\<close>

definition with_answer :: "int \<Rightarrow> string \<Rightarrow> rtsp_server \<Rightarrow> rtsp_server" where
  "with_answer sock text s = s\<lparr>sv_answers := sv_answers s @ [(sock, text)]\<rparr>"

lemma answers_run:
  assumes "sock \<noteq> 0" "cstr q = Some cseq" "length q = PARAM_STRING_MAX" "env_ok env"
  shows "OptionAnswer env q sock s = Some (en_send env > 0, with_answer sock (option_text cseq (en_date env)) s)"
    "PauseAnswer env q sock s = Some (en_send env > 0, with_answer sock (pause_text cseq (en_date env)) s)"
    "cstr sf = Some suf \<Longrightarrow> length sf = PARAM_STRING_MAX \<Longrightarrow> DescribeAnswer env q sock sf s =
       Some (en_send env > 0, with_answer sock (describe_text cseq (en_date env) (en_ip env) suf (sdp (en_ip env))) (s\<lparr>sv_localip := Some (en_ip env)\<rparr>))"
    "0 \<le> n \<Longrightarrow> n < 10 ^ 10 \<Longrightarrow> TeardownAnswer env q sock n s = Some (en_send env > 0,
       (if en_send env > 0 then close_fd (rs_udpfd (sv_rtp s)) else id) (with_answer sock (teardown_text cseq (en_date env) n) s))"
    "0 \<le> n \<Longrightarrow> n < 10 ^ 10 \<Longrightarrow> sv_localip s = Some ip \<Longrightarrow> length ip < 16 \<Longrightarrow> length pre < PARAM_STRING_MAX \<Longrightarrow>
       PlayAnswer env q sock n pre s = Some (en_send env > 0, (with_answer sock (play_text cseq (en_date env) ip pre n) s)
         \<lparr>sv_rtp := (sv_rtp s)\<lparr>rs_udpfd := if en_send env > 0 then en_udpfd env else rs_udpfd (sv_rtp s)\<rparr>\<rparr>)"
    "0 \<le> n \<Longrightarrow> n < 10 ^ 10 \<Longrightarrow> sv_localip s = Some ip \<Longrightarrow> length ip < 16 \<Longrightarrow> ParseTransportHeader mem = Some tr \<Longrightarrow>
       SetupAnswer env q sock n mem s = Some (en_send env > 0, Some (tr_rtp tr, tr_rtcp tr),
         with_answer sock (setup_text cseq (en_date env) ip (tr_rtp tr) (tr_rtcp tr) n) s)"
proof -
  have q: "length cseq < PARAM_STRING_MAX" using cstr_length [OF assms(2)] assms(3) by simp
  have e: "length (en_date env) < 200" "length (en_ip env) < 16" using assms(4) by (simp_all add: env_ok_def)
  note T = text_lengths [OF q e(1)]
  note [simp] = send_answer_def fits_def with_answer_def close_fd_def assms(1,2) T
  show "OptionAnswer env q sock s = Some (en_send env > 0, with_answer sock (option_text cseq (en_date env)) s)"
    "PauseAnswer env q sock s = Some (en_send env > 0, with_answer sock (pause_text cseq (en_date env)) s)"
    by (simp_all add: OptionAnswer_def PauseAnswer_def)
  show "DescribeAnswer env q sock sf s =
      Some (en_send env > 0, with_answer sock (describe_text cseq (en_date env) (en_ip env) suf (sdp (en_ip env))) (s\<lparr>sv_localip := Some (en_ip env)\<rparr>))"
    if "cstr sf = Some suf" "length sf = PARAM_STRING_MAX"
    using that cstr_length [OF that(1)] e(2) by (simp add: DescribeAnswer_def)
  show "TeardownAnswer env q sock n s = Some (en_send env > 0,
       (if en_send env > 0 then close_fd (rs_udpfd (sv_rtp s)) else id) (with_answer sock (teardown_text cseq (en_date env) n) s))"
    if "0 \<le> n" "n < 10 ^ 10" using that by (simp add: TeardownAnswer_def)
  show "PlayAnswer env q sock n pre s = Some (en_send env > 0, (with_answer sock (play_text cseq (en_date env) ip pre n) s)
         \<lparr>sv_rtp := (sv_rtp s)\<lparr>rs_udpfd := if en_send env > 0 then en_udpfd env else rs_udpfd (sv_rtp s)\<rparr>\<rparr>)"
    if "0 \<le> n" "n < 10 ^ 10" "sv_localip s = Some ip" "length ip < 16" "length pre < PARAM_STRING_MAX"
    using that by (simp add: PlayAnswer_def)
  show "SetupAnswer env q sock n mem s = Some (en_send env > 0, Some (tr_rtp tr, tr_rtcp tr),
         with_answer sock (setup_text cseq (en_date env) ip (tr_rtp tr) (tr_rtcp tr) n) s)"
    if "0 \<le> n" "n < 10 ^ 10" "sv_localip s = Some ip" "length ip < 16" "ParseTransportHeader mem = Some tr"
    using that transport_ports [OF that(5)] by (simp add: SetupAnswer_def)
qed


end
