(* ===== verification/Rtsp_Play.thy ===== *)
theory Rtsp_Play
  imports Rtsp_Session
begin

text \<open>
  Which requests the RTSP server answers, and the whole way of a client: it asks where the stream
  is, sets up its ports, asks to play and receives the frames that are pushed from then on.
\<close>

section \<open>Every known request is answered\<close>

definition commands :: "string list" where
  "commands = [''OPTIONS'', ''DESCRIBE'', ''SETUP'', ''PLAY'', ''PAUSE'', ''TEARDOWN'']"

definition answers_with :: "rtsp_server \<Rightarrow> int \<Rightarrow> string \<Rightarrow> rtsp_server option \<Rightarrow> bool" where
  "answers_with s sock head x \<longleftrightarrow> (\<exists>s' text. x = Some s' \<and> sv_answers s' = sv_answers s @ [(sock, head @ text)])"

lemma slot_0:
  assumes "sv_clients s = [c]"
  shows "client_at 0 s = Some c" "set_client 0 d s = Some (s\<lparr>sv_rtp := (sv_rtp s)\<lparr>rs_clients := [d]\<rparr>\<rparr>)"
  using assms by (simp_all add: client_at_def set_client_def)

lemma with_answer_same [simp]:
  "sv_clients (with_answer k x s) = sv_clients s" "sv_rtp (with_answer k x s) = sv_rtp s"
  "sv_answers (with_answer k x s) = sv_answers s @ [(k, x)]" "sv_threads (with_answer k x s) = sv_threads s"
  "sv_localip (with_answer k x s) = sv_localip s" "sv_session (with_answer k x s) = sv_session s"
  "sv_listening (with_answer k x s) = sv_listening s"
  by (simp_all add: with_answer_def sv_clients_def)

lemma sv_clients_rtp [simp]: "sv_clients (s\<lparr>sv_rtp := r\<rparr>) = rs_clients r"
  by (simp add: sv_clients_def)

lemma dispatch_all:
  "a1 \<or> a2 \<or> a3 \<or> a4 \<or> a5 \<or> a6 \<Longrightarrow> P x1 \<Longrightarrow> P x2 \<Longrightarrow> P x3 \<Longrightarrow> P x4 \<Longrightarrow> P x5 \<Longrightarrow> P x6 \<Longrightarrow>
   P (if a1 then x1 else if a2 then x2 else if a3 then x3 else if a4 then x4 else if a5 then x5 else if a6 then x6 else x7)"
  by auto

lemma answers_heads:
  "\<exists>text. option_text q date = ok_header q @ text" "\<exists>text. pause_text q date = ok_header q @ text"
  "\<exists>text. describe_text q date ip suf m = ok_header q @ text" "\<exists>text. setup_text q date ip a b n = ok_header q @ text"
  "\<exists>text. play_text q date ip pre n = ok_header q @ text" "\<exists>text. teardown_text q date n = ok_header q @ text"
  by (simp_all add: option_text_def pause_text_def describe_text_def setup_text_def play_text_def teardown_text_def)

lemma reply_answers:
  assumes "server_ok s" "sv_clients s = [c]" "rc_socket c \<noteq> 0" "sv_localip s \<noteq> None" "length (sv_threads s) < 10 ^ 9" "env_ok env"
    and "th_slot t = 0" "ParseTransportHeader (th_recvbuf t) \<noteq> None" "buffers_ok r"
    and "cstr (rq_cmd r) = Some cmd" "cstr (rq_cseq r) = Some cseq" "cstr (rq_pre r) = Some pre" "cstr (rq_suffix r) = Some suf"
    and "\<exists>w \<in> set commands. strstr cmd w"
  shows "answers_with s (rc_socket c) (ok_header cseq) (reply env t r s)"
proof -
  obtain ip tr where ip: "sv_localip s = Some ip" and tr: "ParseTransportHeader (th_recvbuf t) = Some tr" using assms(4,8) by blast
  have n: "0 \<le> rc_sessionid c" "rc_sessionid c < 10 ^ 10" "length ip < 16" "length (rc_urlPre c) < PARAM_STRING_MAX" "rc_index c = 0"
    using assms(1,2,5) ip by (auto simp: server_ok_def client_ok_def)
  have r: "length (rq_cseq r) = PARAM_STRING_MAX" "length (rq_suffix r) = PARAM_STRING_MAX" using assms(9) by (simp_all add: buffers_ok_def)
  note A = answers_run [OF assms(3,11) r(1) assms(6)]
  note slot = slot_0 [OF assms(2)]
  have "strstr cmd ''OPTIONS'' \<or> strstr cmd ''DESCRIBE'' \<or> strstr cmd ''SETUP'' \<or> strstr cmd ''PLAY'' \<or>
      strstr cmd ''PAUSE'' \<or> strstr cmd ''TEARDOWN''" using assms(14) by (simp add: commands_def)
  moreover have "answers_with s (rc_socket c) (ok_header cseq) (map_option snd (OptionAnswer env (rq_cseq r) (rc_socket c) s))"
    by (simp add: answers_with_def answers_heads A(1))
  moreover have "answers_with s (rc_socket c) (ok_header cseq) (on_describe env r c s)"
    by (simp add: answers_with_def answers_heads on_describe_def A(3) [OF assms(13) r(2)] assms(12,13))
  moreover have "answers_with s (rc_socket c) (ok_header cseq) (on_setup env (th_recvbuf t) r c s)"
    by (simp add: answers_with_def answers_heads on_setup_def A(6) [OF n(1,2) ip n(3) tr] assms(2,12,13) n(5) Let_def slot_0)
  moreover have "answers_with s (rc_socket c) (ok_header cseq) (on_play env r c s)"
    by (simp add: answers_with_def answers_heads on_play_def A(5) [OF n(1,2) ip n(3,4)] assms(2) n(5) slot slot_0 sv_clients_def [symmetric])
  moreover have "answers_with s (rc_socket c) (ok_header cseq) (map_option snd (PauseAnswer env (rq_cseq r) (rc_socket c) s))"
    by (simp add: answers_with_def answers_heads A(2))
  moreover have "answers_with s (rc_socket c) (ok_header cseq) (on_teardown env r c s)"
    by (simp add: answers_with_def answers_heads on_teardown_def A(4) [OF n(1,2)] assms(2) n(5) slot_0)
  ultimately have "answers_with s (rc_socket c) (ok_header cseq)
     (if strstr cmd ''OPTIONS'' then map_option snd (OptionAnswer env (rq_cseq r) (rc_socket c) s)
      else if strstr cmd ''DESCRIBE'' then on_describe env r c s
      else if strstr cmd ''SETUP'' then on_setup env (th_recvbuf t) r c s
      else if strstr cmd ''PLAY'' then on_play env r c s
      else if strstr cmd ''PAUSE'' then map_option snd (PauseAnswer env (rq_cseq r) (rc_socket c) s)
      else if strstr cmd ''TEARDOWN'' then on_teardown env r c s else Some s)"
    by (rule dispatch_all [where P = "answers_with s (rc_socket c) (ok_header cseq)"])
  then show ?thesis using assms(7,10) slot by (simp add: reply_def)
qed

lemma recv_step:
  assumes "k < length (sv_threads s)" "th_place (sv_threads s ! k) = In_Recv fd" "data \<noteq> []" "length data \<le> RTSP_RECV_SIZE"
    and "buf = data @ drop (length data) (th_recvbuf (sv_threads s ! k))" "CHR 0x00 \<in> set buf"
    and "ParseRequestString buf (length data) (en_junk env) = Some (ok, r)"
    and "reply env ((sv_threads s ! k)\<lparr>th_place := At_Loop, th_recvbuf := buf\<rparr>) r s = Some s'"
  shows "server_step (Recv k env data) s = Some (with_thread k ((sv_threads s ! k)\<lparr>th_place := At_Loop, th_recvbuf := buf\<rparr>, s'))"
proof -
  have "handle_recv env data (sv_threads s ! k) s = Some ((sv_threads s ! k)\<lparr>th_place := At_Loop, th_recvbuf := buf\<rparr>, s')"
    using assms(3,5-8) by (simp add: handle_recv_def cstr_def)
  then show ?thesis using assms(1,2,4) by auto
qed

text \<open>
  C10: every request with a command the server knows is answered: when the request is parsed, a
  client's description of the stream was asked for before, and the header \<open>Transport\<close> is no
  trap, one answer goes to the client's socket; it begins with the status 200 and the sequence
  number of the request, and it fits its buffer.
\<close>

theorem requests_answered:
  assumes "server_ok s" "sv_clients s = [c]" "rc_socket c \<noteq> 0" "sv_localip s \<noteq> None" "length (sv_threads s) < 10 ^ 9"
    and "k < length (sv_threads s)" "th_place (sv_threads s ! k) = In_Recv fd" "env_ok env"
    and "8 \<le> length data" "length data \<le> RTSP_RECV_SIZE" "\<not> blank (data ! 0)" "\<not> blank (data ! 1)"
    and "buf = data @ drop (length data) (th_recvbuf (sv_threads s ! k))" "CHR 0x00 \<in> set buf"
    and "ParseTransportHeader buf \<noteq> None" "ParseRequestString buf (length data) (en_junk env) = Some (True, r)"
    and "cstr (rq_cmd r) = Some cmd" "cstr (rq_cseq r) = Some cseq" "\<exists>w \<in> set commands. strstr cmd w"
  shows "\<exists>s' text. server_step (Recv k env data) s = Some s' \<and>
    sv_answers s' = sv_answers s @ [(rc_socket c, ok_header cseq @ text)] \<and> length (ok_header cseq @ text) < 2048"
proof -
  let ?t = "(sv_threads s ! k)\<lparr>th_place := At_Loop, th_recvbuf := buf\<rparr>"
  have t: "thread_ok (sv_threads s ! k)" using assms(1,6) by (simp add: server_ok_def)
  then have l: "length buf = RTSP_RECV_SIZE" "length data \<le> length buf" using assms(10,13) by (simp_all add: thread_ok_def)
  have ne: "data \<noteq> []" using assms(9) by auto
  then have first: "\<not> blank (buf ! 0)" "\<not> blank (buf ! 1)" using assms(9,11,12,13) by (simp_all add: nth_append)
  have "buffers_ok (en_junk env)" using assms(8) by (simp add: env_ok_def)
  from parse_request_safe [OF assms(9) l(2) _ first this] assms(16) l(1)
  have r: "buffers_ok r" "CHR 0x00 \<in> set (rq_pre r)" "CHR 0x00 \<in> set (rq_suffix r)" by (auto simp: RTSP_RECV_SIZE_def)
  then obtain pre suf where p: "cstr (rq_pre r) = Some pre" "cstr (rq_suffix r) = Some suf" by (auto simp: cstr_def)
  have "th_slot ?t = 0" "ParseTransportHeader (th_recvbuf ?t) \<noteq> None" using t assms(15) by (simp_all add: thread_ok_def)
  from reply_answers [OF assms(1-5,8) this r(1) assms(17,18) p assms(19)] obtain s1 m where
    s1: "reply env ?t r s = Some s1" "sv_answers s1 = sv_answers s @ [(rc_socket c, ok_header cseq @ m)]"
    unfolding answers_with_def by blast
  have "server_step (Recv k env data) s = Some (with_thread k (?t, s1))"
    by (rule recv_step [OF assms(6,7) ne assms(10,13,14,16) s1(1)])
  moreover have "server_ok s1" by (rule reply_ok [OF s1(1) assms(8,1)])
  then have "length (ok_header cseq @ m) < 2048" using s1(2) by (simp add: server_ok_def)
  ultimately show ?thesis using s1(2) by auto
qed

section \<open>A client on its way\<close>

lemma to_lower_n: "to_lower c = CHR ''n'' \<Longrightarrow> c = CHR ''n'' \<or> c = CHR ''N''"
proof -
  assume c: "to_lower c = CHR ''n''"
  have "(of_char (to_lower c) :: nat) = 110" unfolding c by simp
  then have "(of_char c :: nat) = of_char (CHR ''n'') \<or> (of_char c :: nat) = of_char (CHR ''N'')"
    by (auto simp: of_char_to_lower split: if_splits)
  then show ?thesis unfolding of_char_eq_iff .
qed

lemma no_letter_n:
  assumes "CHR ''n'' \<notin> set s" "CHR ''N'' \<notin> set s"
  shows "CHR ''n'' \<notin> set (map to_lower s)"
proof
  assume "CHR ''n'' \<in> set (map to_lower s)"
  then obtain c where c: "c \<in> set s" "to_lower c = CHR ''n''" by (metis imageE set_map)
  from to_lower_n [OF c(2)] c(1) assms show False by (elim disjE) simp_all
qed

definition some_env :: request_env where
  "some_env = \<lparr>en_date = ''Date: today'', en_ip = ''10.0.0.9'', en_send = 1, en_udpfd = 7, en_junk = no_request\<rparr>"

definition connected :: "thread_place \<Rightarrow> rtsp_server" where
  "connected p = rtsp_server_init\<lparr>
     sv_rtp := (sv_rtp rtsp_server_init)\<lparr>rs_clients := [new_client 0 5 1000 ''10.0.0.1'']\<rparr>,
     sv_localip := Some ''10.0.0.9'', sv_listening := True, sv_session := 1001,
     sv_threads := [(new_thread 0)\<lparr>th_place := p\<rparr>]\<rparr>"

lemma connected_ok: "server_ok (connected p)" "sv_clients (connected p) = [new_client 0 5 1000 ''10.0.0.1'']"
  by (simp_all add: connected_def rtsp_server_init_def server_ok_def sv_clients_def client_ok_def new_client_def no_client_def
      port_ok_def thread_ok_def new_thread_def PARAM_STRING_MAX_def)

lemma some_env_ok: "env_ok some_env"
  by (simp add: some_env_def env_ok_def no_request_ok)

definition pause_request :: string where
  "pause_request = ''PAUSE rtsp://cam/live/1/trackID=0 RTSP/1.0  CSeq: 3'' @ [CHR 0x0D]"

lemma pause_text_parts:
  "received_text pause_request = ''PAUSE'' @ '' rtsp://'' @ ''cam'' @ ''/live'' @ ''/'' @ ''1'' @ ''/'' @ ''trackID=0'' @
     '' RTSP/'' @ ''1.0  '' @ ''CSeq: '' @ ''3'' @ [CHR 0x0D] @ replicate 972 (CHR 0x00)"
  "received_text pause_request = pause_request @ CHR 0x00 # replicate 971 (CHR 0x00)"
  by (simp_all add: received_text_def pause_request_def RTSP_RECV_SIZE_def flip: replicate_Suc)

lemma pause_parsed:
  "\<exists>r. ParseRequestString (received_text pause_request) (length pause_request) no_request = Some (True, r) \<and>
    cstr (rq_cmd r) = Some ''PAUSE'' \<and> cstr (rq_pre r) = Some ''1'' \<and> cstr (rq_suffix r) = Some ''trackID=0'' \<and> cstr (rq_cseq r) = Some ''3''"
proof (rule parse_request_parts [OF pause_text_parts(1)])
  show "\<not> strstr (''/live'' @ ''/'' @ ''1'' @ ''/'' @ ''trackID=0'' @ '' RTSP'') ''RTSP/''" by code_simp
  show "\<not> strstr (''1.0  '' @ ''CSeq'') ''CSeq:''" by code_simp
qed (simp_all add: received_text_def pause_request_def RTSP_RECV_SIZE_def PARAM_STRING_MAX_def no_request_ok url_end_def blank_def)

lemma requests_answered_witness:
  "\<exists>s' text. server_step (Recv 0 some_env pause_request) (connected (In_Recv 5)) = Some s' \<and>
    sv_answers s' = [(5, ok_header ''3'' @ text)]"
proof -
  obtain r where r: "ParseRequestString (received_text pause_request) (length pause_request) no_request = Some (True, r)"
    "cstr (rq_cmd r) = Some ''PAUSE''" "cstr (rq_cseq r) = Some ''3''" using pause_parsed by blast
  have tr: "ParseTransportHeader (received_text pause_request) = Some no_transport"
  proof -
    have "CHR 0x00 \<notin> set pause_request" by (simp add: pause_request_def)
    moreover have "find_transport pause_request = None"
      by (rule find_transport_none, rule no_letter_n) (simp_all add: pause_request_def)
    ultimately show ?thesis by (simp add: ParseTransportHeader_def pause_text_parts(2) cstr_copied)
  qed
  have "\<exists>s' text. server_step (Recv 0 some_env pause_request) (connected (In_Recv 5)) = Some s' \<and>
    sv_answers s' = sv_answers (connected (In_Recv 5)) @ [(rc_socket (new_client 0 5 1000 ''10.0.0.1''), ok_header ''3'' @ text)] \<and>
    length (ok_header ''3'' @ text) < 2048"
  proof (rule requests_answered [OF connected_ok(1) connected_ok(2) _ _ _ _ _ some_env_ok _ _ _ _ _ _ _ _ r(2,3)])
    show "received_text pause_request = pause_request @ drop (length pause_request) (th_recvbuf (sv_threads (connected (In_Recv 5)) ! 0))"
      by (simp add: connected_def new_thread_def received_text_def)
  qed (use r(1) tr in \<open>simp_all add: some_env_def connected_def new_client_def rtsp_server_init_def pause_request_def RTSP_RECV_SIZE_def
      blank_def received_text_def commands_def\<close>)
  moreover have "sv_answers (connected (In_Recv 5)) = []" "rc_socket (new_client 0 5 1000 ''10.0.0.1'') = 5"
    by (simp_all add: connected_def new_client_def rtsp_server_init_def)
  ultimately show ?thesis by (auto simp del: server_step.simps)
qed


section \<open>From the connection to the stream\<close>

text \<open>
  A request in a buffer, with its parts. The buffer also holds what an earlier request left.
\<close>

definition is_request :: "string \<Rightarrow> string \<Rightarrow> string \<Rightarrow> string \<Rightarrow> string \<Rightarrow> bool" where
  "is_request buf data cmd pre suf \<longleftrightarrow> 8 \<le> length data \<and> length data \<le> RTSP_RECV_SIZE \<and> take (length data) buf = data \<and>
     length buf = RTSP_RECV_SIZE \<and> CHR 0x00 \<in> set buf \<and> \<not> blank (data ! 0) \<and> \<not> blank (data ! 1) \<and>
     (\<forall>junk. buffers_ok junk \<longrightarrow> (\<exists>r cseq. ParseRequestString buf (length data) junk = Some (True, r) \<and>
        cstr (rq_cmd r) = Some cmd \<and> cstr (rq_pre r) = Some pre \<and> cstr (rq_suffix r) = Some suf \<and> cstr (rq_cseq r) = Some cseq))"

lemma is_requestE:
  assumes "is_request buf data cmd pre suf" "env_ok env"
  obtains r cseq where "ParseRequestString buf (length data) (en_junk env) = Some (True, r)" "buffers_ok r"
    "cstr (rq_cmd r) = Some cmd" "cstr (rq_pre r) = Some pre" "cstr (rq_suffix r) = Some suf" "cstr (rq_cseq r) = Some cseq"
proof -
  have j: "buffers_ok (en_junk env)" using assms(2) by (simp add: env_ok_def)
  then obtain r cseq where r: "ParseRequestString buf (length data) (en_junk env) = Some (True, r)"
    "cstr (rq_cmd r) = Some cmd" "cstr (rq_pre r) = Some pre" "cstr (rq_suffix r) = Some suf" "cstr (rq_cseq r) = Some cseq"
    using assms(1) unfolding is_request_def by blast
  have i: "8 \<le> length data" "take (length data) buf = data" "length buf = RTSP_RECV_SIZE" "length data \<le> length buf"
    using assms(1) by (auto simp: is_request_def)
  then have "buf ! 0 = data ! 0" "buf ! 1 = data ! 1" by (metis nth_take le_numeral_extra(3) less_le_trans zero_less_numeral one_less_numeral_iff semiring_norm(76))+
  then have "\<not> blank (buf ! 0)" "\<not> blank (buf ! 1)" using assms(1) by (simp_all add: is_request_def)
  from parse_request_safe [OF i(1,4) _ this j] r(1) i(3) have ok: "buffers_ok r" by (auto simp: RTSP_RECV_SIZE_def)
  show thesis by (rule that [OF r(1) ok r(2-5)])
qed

text \<open>The thread \<open>k\<close> is at \<open>p\<close> with the buffer \<open>buf\<close>; the server's variables beside the client are \<open>base\<close>.\<close>

definition session_at :: "nat \<Rightarrow> thread_place \<Rightarrow> string \<Rightarrow> rtsp_client \<Rightarrow> rtp_state \<Rightarrow> string option \<Rightarrow> rtsp_server \<Rightarrow> bool" where
  "session_at k p buf c base ip s \<longleftrightarrow> server_ok s \<and> k < length (sv_threads s) \<and> length (sv_threads s) < 10 ^ 9 \<and>
     sv_threads s ! k = \<lparr>th_slot = 0, th_place = p, th_recvbuf = buf\<rparr> \<and> sv_clients s = [c] \<and>
     sv_rtp s = base\<lparr>rs_clients := [c]\<rparr> \<and> sv_localip s = ip"

lemma with_thread_session:
  assumes "server_ok s" "k < length (sv_threads s)" "length (sv_threads s) < 10 ^ 9" "sv_rtp s = base\<lparr>rs_clients := [c]\<rparr>"
    "sv_localip s = ip" "length buf = RTSP_RECV_SIZE" "t = \<lparr>th_slot = 0, th_place = p, th_recvbuf = buf\<rparr>"
  shows "session_at k p buf c base ip (with_thread k (t, s))"
  using assms with_thread_ok [of s t k] by (simp add: session_at_def thread_ok_def sv_clients_def)

lemma session_loop:
  assumes "session_at k At_Loop buf c base ip s" "rc_status c \<noteq> RTSP_IDLE"
  shows "\<exists>s'. server_step (Loop k) s = Some s' \<and> session_at k (In_Recv (rc_socket c)) buf c base ip s'"
proof -
  have i: "server_ok s" "k < length (sv_threads s)" "length (sv_threads s) < 10 ^ 9" "sv_rtp s = base\<lparr>rs_clients := [c]\<rparr>"
    "sv_localip s = ip" "sv_threads s ! k = \<lparr>th_slot = 0, th_place = At_Loop, th_recvbuf = buf\<rparr>" "sv_clients s = [c]"
    using assms(1) by (simp_all add: session_at_def)
  have "thread_ok (sv_threads s ! k)" using i(1,2) by (simp add: server_ok_def)
  then have b: "length buf = RTSP_RECV_SIZE" by (simp add: i(6) thread_ok_def)
  have "server_step (Loop k) s = Some (with_thread k (\<lparr>th_slot = 0, th_place = In_Recv (rc_socket c), th_recvbuf = buf\<rparr>, s))"
    using i(2,6) assms(2) slot_0(1) [OF i(7)] by (simp add: loop_head_def)
  then show ?thesis using with_thread_session [OF i(1-5) b refl] by blast
qed

text \<open>A request is handled by a reply that changes the client to \<open>d\<close>.\<close>

lemma session_recv:
  assumes "session_at k (In_Recv fd) old c base ip s" "buf = data @ drop (length data) old" "is_request buf data cmd pre suf" "env_ok env"
    and reply: "\<And>r cseq t. buffers_ok r \<Longrightarrow> cstr (rq_cmd r) = Some cmd \<Longrightarrow> cstr (rq_pre r) = Some pre \<Longrightarrow> cstr (rq_suffix r) = Some suf \<Longrightarrow>
      cstr (rq_cseq r) = Some cseq \<Longrightarrow> th_slot t = 0 \<Longrightarrow> th_recvbuf t = buf \<Longrightarrow>
      \<exists>s'. reply env t r s = Some s' \<and> sv_rtp s' = base'\<lparr>rs_clients := [d]\<rparr> \<and> sv_localip s' = ip' \<and> sv_threads s' = sv_threads s"
  shows "\<exists>s'. server_step (Recv k env data) s = Some s' \<and> session_at k At_Loop buf d base' ip' s'"
proof -
  have i: "server_ok s" "k < length (sv_threads s)" "length (sv_threads s) < 10 ^ 9"
    "sv_threads s ! k = \<lparr>th_slot = 0, th_place = In_Recv fd, th_recvbuf = old\<rparr>" using assms(1) by (simp_all add: session_at_def)
  let ?t = "(sv_threads s ! k)\<lparr>th_place := At_Loop, th_recvbuf := buf\<rparr>"
  have q: "data \<noteq> []" "length data \<le> RTSP_RECV_SIZE" "CHR 0x00 \<in> set buf" "length buf = RTSP_RECV_SIZE"
    using assms(3) by (auto simp: is_request_def)
  obtain r cseq where r: "ParseRequestString buf (length data) (en_junk env) = Some (True, r)" "buffers_ok r"
    "cstr (rq_cmd r) = Some cmd" "cstr (rq_pre r) = Some pre" "cstr (rq_suffix r) = Some suf" "cstr (rq_cseq r) = Some cseq"
    using is_requestE [OF assms(3,4)] .
  obtain s1 where s1: "reply env ?t r s = Some s1" "sv_rtp s1 = base'\<lparr>rs_clients := [d]\<rparr>" "sv_localip s1 = ip'" "sv_threads s1 = sv_threads s"
    using reply [OF r(2-6), of ?t] i(4) by auto
  have "server_step (Recv k env data) s = Some (with_thread k (?t, s1))"
    by (rule recv_step [OF i(2) _ q(1,2) _ q(3) r(1) s1(1)]) (simp_all add: i(4) assms(2))
  moreover have "session_at k At_Loop buf d base' ip' (with_thread k (?t, s1))"
    by (rule with_thread_session) (use reply_ok [OF s1(1) assms(4) i(1)] i q(4) s1 in simp_all)
  ultimately show ?thesis by blast
qed


lemma describe_session:
  assumes "session_at k (In_Recv fd) old c base ip s" "buf = data @ drop (length data) old" "is_request buf data ''DESCRIBE'' pre suf"
    "env_ok env" "rc_socket c \<noteq> 0"
  shows "\<exists>s'. server_step (Recv k env data) s = Some s' \<and> session_at k At_Loop buf c base (Some (en_ip env)) s'"
proof (rule session_recv [OF assms(1-4)])
  fix r :: request and cseq and t :: rtsp_thread
  assume r: "buffers_ok r" "cstr (rq_cmd r) = Some ''DESCRIBE''" "cstr (rq_pre r) = Some pre" "cstr (rq_suffix r) = Some suf"
    "cstr (rq_cseq r) = Some cseq" "th_slot t = 0" "th_recvbuf t = buf"
  have l: "length (rq_cseq r) = PARAM_STRING_MAX" "length (rq_suffix r) = PARAM_STRING_MAX" using r(1) by (simp_all add: buffers_ok_def)
  have s: "sv_clients s = [c]" "sv_rtp s = base\<lparr>rs_clients := [c]\<rparr>" using assms(1) by (simp_all add: session_at_def)
  show "\<exists>s'. reply env t r s = Some s' \<and> sv_rtp s' = base\<lparr>rs_clients := [c]\<rparr> \<and> sv_localip s' = Some (en_ip env) \<and> sv_threads s' = sv_threads s"
    using r(2-4,6) slot_0(1) [OF s(1)] s(2) answers_run(3) [OF assms(5) r(5) l(1) assms(4) r(4) l(2)]
    by (simp add: reply_def on_describe_def)
qed

lemma setup_session:
  assumes "session_at k (In_Recv fd) old c base (Some ip) s" "buf = data @ drop (length data) old" "is_request buf data ''SETUP'' pre suf"
    "env_ok env" "rc_socket c \<noteq> 0" "ParseTransportHeader buf = Some tr"
    and d: "d = c\<lparr>rc_rtpport := set_port (track_id suf) (int (tr_rtp tr)) (rc_rtpport c), rc_rtcpport := int (tr_rtcp tr),
      rc_reqchn := atoi pre, rc_urlPre := pre\<rparr>"
  shows "\<exists>s'. server_step (Recv k env data) s = Some s' \<and> session_at k At_Loop buf d base (Some ip) s'"
proof (rule session_recv [OF assms(1-4)])
  fix r :: request and cseq and t :: rtsp_thread
  assume r: "buffers_ok r" "cstr (rq_cmd r) = Some ''SETUP''" "cstr (rq_pre r) = Some pre" "cstr (rq_suffix r) = Some suf"
    "cstr (rq_cseq r) = Some cseq" "th_slot t = 0" "th_recvbuf t = buf"
  have l: "length (rq_cseq r) = PARAM_STRING_MAX" "length pre < PARAM_STRING_MAX"
    using r(1) cstr_length [OF r(3)] by (simp_all add: buffers_ok_def)
  have s: "sv_clients s = [c]" "sv_rtp s = base\<lparr>rs_clients := [c]\<rparr>" "sv_localip s = Some ip" "length ip < 16"
    "0 \<le> rc_sessionid c" "rc_sessionid c < 10 ^ 10" "rc_index c = 0"
    using assms(1) by (auto simp: session_at_def server_ok_def client_ok_def)
  show "\<exists>s'. reply env t r s = Some s' \<and> sv_rtp s' = base\<lparr>rs_clients := [d]\<rparr> \<and> sv_localip s' = Some ip \<and> sv_threads s' = sv_threads s"
    using r(2-4,6,7) slot_0 [OF s(1)] s l(2) answers_run(6) [OF assms(5) r(5) l(1) assms(4) s(5,6,3,4) assms(6)]
    by (simp add: reply_def on_setup_def Let_def slot_0 d PARAM_STRING_MAX_def)
qed

lemma play_session:
  assumes "session_at k (In_Recv fd) old c base (Some ip) s" "buf = data @ drop (length data) old" "is_request buf data ''PLAY'' pre suf"
    "env_ok env" "rc_socket c \<noteq> 0" "en_send env > 0"
  shows "\<exists>s'. server_step (Recv k env data) s = Some s' \<and>
    session_at k At_Loop buf (c\<lparr>rc_status := RTSP_SENDING\<rparr>) (base\<lparr>rs_udpfd := en_udpfd env\<rparr>) (Some ip) s'"
proof (rule session_recv [OF assms(1-4)])
  fix r :: request and cseq and t :: rtsp_thread
  assume r: "buffers_ok r" "cstr (rq_cmd r) = Some ''PLAY''" "cstr (rq_pre r) = Some pre" "cstr (rq_suffix r) = Some suf"
    "cstr (rq_cseq r) = Some cseq" "th_slot t = 0" "th_recvbuf t = buf"
  have l: "length (rq_cseq r) = PARAM_STRING_MAX" using r(1) by (simp add: buffers_ok_def)
  have s: "sv_clients s = [c]" "sv_rtp s = base\<lparr>rs_clients := [c]\<rparr>" "sv_localip s = Some ip" "length ip < 16"
    "0 \<le> rc_sessionid c" "rc_sessionid c < 10 ^ 10" "rc_index c = 0" "length (rc_urlPre c) < PARAM_STRING_MAX"
    using assms(1) by (auto simp: session_at_def server_ok_def client_ok_def)
  show "\<exists>s'. reply env t r s = Some s' \<and> sv_rtp s' = base\<lparr>rs_udpfd := en_udpfd env, rs_clients := [c\<lparr>rc_status := RTSP_SENDING\<rparr>]\<rparr> \<and>
      sv_localip s' = Some ip \<and> sv_threads s' = sv_threads s"
    using r(2,6) slot_0 [OF s(1)] s assms(6) answers_run(5) [OF assms(5) r(5) l assms(4) s(5,6,3,4,8)]
    by (simp add: reply_def on_play_def slot_0)
qed


lemma accept_session:
  assumes "server_ok s" "sv_listening s" "sv_clients s = [c]" "rc_status c = RTSP_IDLE" "0 < fd" "length ip < 16"
    and "length (sv_threads s) + 1 < 10 ^ 9"
  shows "\<exists>s'. server_step (Accept fd ip) s = Some s' \<and>
    session_at (length (sv_threads s)) At_Loop (replicate RTSP_RECV_SIZE (CHR 0x00)) (new_client 0 fd (sv_session s) ip) (sv_rtp s) (sv_localip s) s'"
proof -
  let ?s = "s\<lparr>sv_rtp := (sv_rtp s)\<lparr>rs_clients := [new_client 0 fd (sv_session s) ip]\<rparr>, sv_session := sv_session s + 1,
      sv_threads := sv_threads s @ [new_thread 0]\<rparr>"
  have step: "server_step (Accept fd ip) s = Some ?s"
    using assms(2-6) slot_0(2) [OF assms(3)] by (simp add: rtsp_accept_def fits_def)
  have "server_ok ?s" by (rule step_ok [OF step _ assms(1)]) (use assms(6) in simp)
  then show ?thesis using step assms(7) by (simp add: session_at_def new_thread_def sv_clients_def)
qed

lemma run_streams: "server_run (map Stream es) s = map_option (\<lambda>r. s\<lparr>sv_rtp := r\<rparr>) (rtp_run es (sv_rtp s))"
  by (induction es arbitrary: s) (simp, case_tac "rtp_event_step a (sv_rtp s)", auto)

lemma run_addressed:
  "rtp_run es s = Some s' \<Longrightarrow> rs_clients s = [c] \<Longrightarrow>
   \<exists>ds. rs_sent s' = rs_sent s @ ds \<and> (\<forall>d \<in> set ds. addressed (rs_udpfd s) c d)"
proof (induction es arbitrary: s c)
  case (Cons e es)
  then obtain s1 where s1: "rtp_event_step e s = Some s1" "rtp_run es s1 = Some s'" by (auto simp: bind_eq_Some_conv)
  from stream_step_same [OF s1(1)] Cons.prems(2) obtain c1 ds where c1: "rs_clients s1 = [c1]" "same_client c c1"
    "rs_udpfd s1 = rs_udpfd s" "rs_sent s1 = rs_sent s @ ds" "\<forall>d \<in> set ds. addressed (rs_udpfd s) c d"
    by (auto simp: list_all2_Cons1)
  from Cons.IH [OF s1(2) c1(1)] obtain ds' where "rs_sent s' = rs_sent s1 @ ds'" "\<forall>d \<in> set ds'. addressed (rs_udpfd s1) c1 d" by blast
  then show ?case using c1 addressed_same [OF c1(2)] by (intro exI [of _ "ds @ ds'"]) auto
qed simp

lemma server_run_Cons: "server_step e s = Some s1 \<Longrightarrow> server_run (e # es) s = server_run es s1"
  by simp

text \<open>The events of a client that asks for the stream.\<close>

definition conversation :: "nat \<Rightarrow> int \<Rightarrow> string \<Rightarrow> request_env \<Rightarrow> string \<Rightarrow> request_env \<Rightarrow> string \<Rightarrow> request_env \<Rightarrow> string \<Rightarrow> server_event list" where
  "conversation k fd ip env1 d1 env2 d2 env3 d3 =
     [Accept fd ip, Loop k, Recv k env1 d1, Loop k, Recv k env2 d2, Loop k, Recv k env3 d3]"

definition overwrite :: "string \<Rightarrow> string \<Rightarrow> string" where
  "overwrite data buf = data @ drop (length data) buf"

lemma conversation_plays:
  assumes "server_ok s" "sv_listening s" "sv_clients s = [c]" "rc_status c = RTSP_IDLE" "length (sv_threads s) + 1 < 10 ^ 9"
    and "0 < fd" "length ip < 16" "env_ok env1" "env_ok env2" "env_ok env3" "en_send env3 > 0"
    and "b1 = overwrite d1 (replicate RTSP_RECV_SIZE (CHR 0x00))" "is_request b1 d1 ''DESCRIBE'' pre1 suf1"
    and "b2 = overwrite d2 b1" "is_request b2 d2 ''SETUP'' pre2 ''trackID=0''" "ParseTransportHeader b2 = Some tr"
    and "b3 = overwrite d3 b2" "is_request b3 d3 ''PLAY'' pre3 suf3" "k = length (sv_threads s)"
  shows "\<exists>s' d. server_run (conversation k fd ip env1 d1 env2 d2 env3 d3) s = Some s' \<and>
    sv_rtp s' = (sv_rtp s)\<lparr>rs_udpfd := en_udpfd env3, rs_clients := [d]\<rparr> \<and> rc_status d = RTSP_SENDING \<and> rc_seqnum d = 0 \<and>
    rc_IP d = ip \<and> fst (rc_rtpport d) = int (tr_rtp tr)"
proof -
  let ?c0 = "new_client 0 fd (sv_session s) ip"
  define c1 where "c1 = ?c0\<lparr>rc_rtpport := set_port (track_id ''trackID=0'') (int (tr_rtp tr)) (rc_rtpport ?c0), rc_rtcpport := int (tr_rtcp tr),
      rc_reqchn := atoi pre2, rc_urlPre := pre2\<rparr>"
  have c: "rc_status ?c0 \<noteq> RTSP_IDLE" "rc_socket ?c0 \<noteq> 0" "rc_status c1 \<noteq> RTSP_IDLE" "rc_socket c1 \<noteq> 0"
    using assms(6) by (simp_all add: new_client_def c1_def)
  obtain s1 where s1: "server_step (Accept fd ip) s = Some s1"
    "session_at k At_Loop (replicate RTSP_RECV_SIZE (CHR 0x00)) ?c0 (sv_rtp s) (sv_localip s) s1"
    using accept_session [OF assms(1-4,6,7,5)] assms(19) by blast
  obtain s2 where s2: "server_step (Loop k) s1 = Some s2"
    "session_at k (In_Recv (rc_socket ?c0)) (replicate RTSP_RECV_SIZE (CHR 0x00)) ?c0 (sv_rtp s) (sv_localip s) s2"
    using session_loop [OF s1(2) c(1)] by blast
  obtain s3 where s3: "server_step (Recv k env1 d1) s2 = Some s3" "session_at k At_Loop b1 ?c0 (sv_rtp s) (Some (en_ip env1)) s3"
    using describe_session [OF s2(2) _ assms(13,8) c(2)] assms(12) by (auto simp: overwrite_def)
  obtain s4 where s4: "server_step (Loop k) s3 = Some s4"
    "session_at k (In_Recv (rc_socket ?c0)) b1 ?c0 (sv_rtp s) (Some (en_ip env1)) s4"
    using session_loop [OF s3(2) c(1)] by blast
  obtain s5 where s5: "server_step (Recv k env2 d2) s4 = Some s5" "session_at k At_Loop b2 c1 (sv_rtp s) (Some (en_ip env1)) s5"
    using setup_session [OF s4(2) _ assms(15,9) c(2) assms(16) c1_def] assms(14) by (auto simp: overwrite_def)
  obtain s6 where s6: "server_step (Loop k) s5 = Some s6"
    "session_at k (In_Recv (rc_socket c1)) b2 c1 (sv_rtp s) (Some (en_ip env1)) s6"
    using session_loop [OF s5(2) c(3)] by blast
  obtain s7 where s7: "server_step (Recv k env3 d3) s6 = Some s7" "session_at k At_Loop b3 (c1\<lparr>rc_status := RTSP_SENDING\<rparr>)
      ((sv_rtp s)\<lparr>rs_udpfd := en_udpfd env3\<rparr>) (Some (en_ip env1)) s7"
    using play_session [OF s6(2) _ assms(18,10) c(4) assms(11)] assms(17) by (auto simp: overwrite_def)
  have "server_run (conversation k fd ip env1 d1 env2 d2 env3 d3) s = Some s7"
    unfolding conversation_def using s1(1) s2(1) s3(1) s4(1) s5(1) s6(1) s7(1)
    by (simp add: server_run_Cons del: server_step.simps server_run.simps(2)) 
  moreover have "track_id ''trackID=0'' = 0" by code_simp
  then have "rc_status (c1\<lparr>rc_status := RTSP_SENDING\<rparr>) = RTSP_SENDING \<and> rc_seqnum (c1\<lparr>rc_status := RTSP_SENDING\<rparr>) = 0 \<and>
      rc_IP (c1\<lparr>rc_status := RTSP_SENDING\<rparr>) = ip \<and> fst (rc_rtpport (c1\<lparr>rc_status := RTSP_SENDING\<rparr>)) = int (tr_rtp tr)"
    by (simp add: c1_def new_client_def no_client_def set_port_def)
  ultimately show ?thesis using s7(2) by (auto simp: session_at_def)
qed


lemma addressed_fields:
  "addressed udpfd c d \<Longrightarrow> dg_fd d = udpfd \<and> dg_ip d = rc_IP c \<and> dg_port d = word_of_int (fst (rc_rtpport c))"
  by (cases d) (auto simp: addressed_def server_datagram_def)

lemma server_run_append: "server_run (es @ es') s = do { s \<leftarrow> server_run es s; server_run es' s }"
  by (induction es arbitrary: s) (auto split: bind_splits)

text \<open>
  C1: a client that connects to a free server, asks for the description, sets up its port and asks
  to play gets the stream: all frames pushed from then on arrive, whole and in order, after as many
  turns of the sending thread, and every packet goes from the new socket to the client's address
  and to the port it asked for. The frames are below 64 KB, the largest length \<open>push_h264_stream\<close> takes.
\<close>

theorem client_gets_stream:
  assumes "server_ok s" "sv_listening s" "sv_clients s = [c]" "rc_status c = RTSP_IDLE" "length (sv_threads s) + 1 < 10 ^ 9"
    and "0 < fd" "length ip < 16" "env_ok env1" "env_ok env2" "env_ok env3" "en_send env3 > 0"
    and "b1 = overwrite d1 (replicate RTSP_RECV_SIZE (CHR 0x00))" "is_request b1 d1 ''DESCRIBE'' pre1 suf1"
    and "b2 = overwrite d2 b1" "is_request b2 d2 ''SETUP'' pre2 ''trackID=0''" "ParseTransportHeader b2 = Some tr"
    and "b3 = overwrite d3 b2" "is_request b3 d3 ''PLAY'' pre3 suf3" "k = length (sv_threads s)"
    and "rs_deque (sv_rtp s) = []" "rs_frame_cnt (sv_rtp s) = 0" "rs_sent (sv_rtp s) = []"
    and "list_all event_ok es" "length junks = length (pushed es)" "list_all (\<lambda>j. length j = SENDBUF_SIZE) junks"
  shows "\<exists>s'. server_run (conversation k fd ip env1 d1 env2 d2 env3 d3 @ map Stream (es @ map Turn junks)) s = Some s' \<and>
    received no_client (rs_sent (sv_rtp s')) = Some (pushed es) \<and>
    (\<forall>d \<in> set (rs_sent (sv_rtp s')). dg_fd d = en_udpfd env3 \<and> dg_ip d = ip \<and> dg_port d = of_nat (tr_rtp tr))"
proof -
  obtain s1 d where s1: "server_run (conversation k fd ip env1 d1 env2 d2 env3 d3) s = Some s1"
    "sv_rtp s1 = (sv_rtp s)\<lparr>rs_udpfd := en_udpfd env3, rs_clients := [d]\<rparr>" "rc_status d = RTSP_SENDING" "rc_seqnum d = 0"
    "rc_IP d = ip" "fst (rc_rtpport d) = int (tr_rtp tr)"
    using conversation_plays [OF assms(1-19)] by blast
  have r: "rs_clients (sv_rtp s1) = [d]" "rs_deque (sv_rtp s1) = []" "rs_frame_cnt (sv_rtp s1) = 0" "rs_sent (sv_rtp s1) = []"
    "rs_udpfd (sv_rtp s1) = en_udpfd env3" using s1(2) assms(20-22) by simp_all
  obtain r' where r': "rtp_run (es @ map Turn junks) (sv_rtp s1) = Some r'" "received d (rs_sent r') = Some (pushed es)"
    using stream_delivered [OF r(1) s1(3) r(2-4) assms(23-25)] by blast
  have "addressed (en_udpfd env3) d x" if "x \<in> set (rs_sent r')" for x
    using run_addressed [OF r'(1) r(1)] that r(4,5) by auto
  then have "dg_fd x = en_udpfd env3 \<and> dg_ip x = ip \<and> dg_port x = of_nat (tr_rtp tr)" if "x \<in> set (rs_sent r')" for x
    using addressed_fields that s1(5,6) by fastforce
  moreover have "received no_client ds = received d ds" for ds using s1(4) by (simp add: received_def no_client_def)
  moreover have "server_run (conversation k fd ip env1 d1 env2 d2 env3 d3 @ map Stream (es @ map Turn junks)) s = Some (s1\<lparr>sv_rtp := r'\<rparr>)"
    using s1(1) r'(1) by (simp add: server_run_append run_streams del: map_append)
  ultimately show ?thesis using r'(2) by auto
qed

section \<open>An example of the whole way\<close>

definition request_text :: "string \<Rightarrow> string \<Rightarrow> string \<Rightarrow> string" where
  "request_text cmd n x = cmd @ '' rtsp://cam/live/1/trackID=0 RTSP/1.0  CSeq: '' @ n @ [CHR 0x0D] @ x"

lemma request_made:
  assumes "2 \<le> length cmd" "length cmd < 20" "length n < 5" "length x < 900" "length (request_text cmd n x @ rest) = RTSP_RECV_SIZE"
    and "\<forall>c \<in> set cmd. \<not> blank c \<and> c \<noteq> CHR 0x00" "\<forall>c \<in> set n. c \<notin> {CHR 0x0D, CHR 0x0A, CHR 0x00}" "n = [] \<or> \<not> blank (hd n)"
    and "CHR 0x00 \<in> set rest"
  shows "is_request (request_text cmd n x @ rest) (request_text cmd n x) cmd ''1'' ''trackID=0''"
proof -
  let ?d = "request_text cmd n x"
  have d: "length ?d = length cmd + length n + length x + 46" by (simp add: request_text_def)
  have mem: "?d @ rest = cmd @ '' rtsp://'' @ ''cam'' @ ''/live'' @ ''/'' @ ''1'' @ ''/'' @ ''trackID=0'' @
      '' RTSP/'' @ ''1.0  '' @ ''CSeq: '' @ n @ [CHR 0x0D] @ (x @ rest)" by (simp add: request_text_def)
  have first: "\<not> strstr (''/live'' @ ''/'' @ ''1'' @ ''/'' @ ''trackID=0'' @ '' RTSP'') ''RTSP/''" "\<not> strstr (''1.0  '' @ ''CSeq'') ''CSeq:''"
    by code_simp+
  have P: "\<exists>r'. ParseRequestString (?d @ rest) (length ?d) junk = Some (True, r') \<and> cstr (rq_cmd r') = Some cmd \<and>
      cstr (rq_pre r') = Some ''1'' \<and> cstr (rq_suffix r') = Some ''trackID=0'' \<and> cstr (rq_cseq r') = Some n" if "buffers_ok junk" for junk
  proof (rule parse_request_parts [OF mem _ _ _ _ assms(6) _ _ _ _ _ _ _ assms(7,8) first that])
    show "length ?d \<le> length (?d @ rest)" "length (?d @ rest) < 2 ^ 32" using assms(5) by (simp_all add: RTSP_RECV_SIZE_def)
    show "length cmd < PARAM_STRING_MAX - 1" "length n < PARAM_STRING_MAX - 1" using assms(2,3) by (simp_all add: PARAM_STRING_MAX_def)
  qed (simp_all add: d url_end_def PARAM_STRING_MAX_def)
  have "0 < length cmd" "1 < length cmd" using assms(1) by linarith+
  then have "cmd ! 0 \<in> set cmd" "cmd ! 1 \<in> set cmd" "\<And>y. (cmd @ y) ! 0 = cmd ! 0" "\<And>y. (cmd @ y) ! 1 = cmd ! 1"
    by (simp_all add: nth_append del: One_nat_def)
  then have nb: "\<not> blank (?d ! 0)" "\<not> blank (?d ! 1)" using assms(6) unfolding request_text_def by metis+
  have big: "8 \<le> length ?d" "length ?d \<le> RTSP_RECV_SIZE" using d assms(1,5) by simp_all
  have "\<forall>junk. buffers_ok junk \<longrightarrow> (\<exists>r cseq. ParseRequestString (?d @ rest) (length ?d) junk = Some (True, r) \<and>
      cstr (rq_cmd r) = Some cmd \<and> cstr (rq_pre r) = Some ''1'' \<and> cstr (rq_suffix r) = Some ''trackID=0'' \<and> cstr (rq_cseq r) = Some cseq)"
    using P by blast
  then show ?thesis unfolding is_request_def using big nb assms(5,9) by (intro conjI; (assumption | simp))
qed


definition describe_data :: string where "describe_data = request_text ''DESCRIBE'' ''1'' []"
definition setup_header :: string where
  "setup_header = ''Transport: '' @ semis [''RTP/AVP'', ''unicast'', client_port 8000 8001 @ [CHR 0x0D]]"
definition setup_data :: string where "setup_data = request_text ''SETUP'' ''2'' setup_header"
definition play_data :: string where "play_data = request_text ''PLAY'' ''3'' []"

definition zeros :: "nat \<Rightarrow> string" where "zeros n = replicate n (CHR 0x00)"

lemma example_lengths: "length describe_data = 55" "55 \<le> length setup_data" "length setup_data \<le> 900" "length play_data = 51"
proof -
  have "length (show_nat 10 8000) \<le> 5" "length (show_nat 10 8001) \<le> 5" by (rule show_nat_length; simp)+
  then show "length setup_data \<le> 900" by (simp add: setup_data_def setup_header_def request_text_def client_port_def)
  show "55 \<le> length setup_data" by (simp add: setup_data_def setup_header_def request_text_def client_port_def)
  show "length describe_data = 55" "length play_data = 51" by (simp_all add: describe_data_def play_data_def request_text_def)
qed

lemma example_buffers:
  "overwrite describe_data (replicate RTSP_RECV_SIZE (CHR 0x00)) = describe_data @ zeros 969"
  "overwrite setup_data (describe_data @ zeros 969) = setup_data @ zeros (1024 - length setup_data)"
  "overwrite play_data (setup_data @ zeros (1024 - length setup_data)) = play_data @ drop 51 setup_data @ zeros (1024 - length setup_data)"
  using example_lengths by (simp_all add: overwrite_def zeros_def RTSP_RECV_SIZE_def)

lemma example_requests:
  "is_request (describe_data @ zeros 969) describe_data ''DESCRIBE'' ''1'' ''trackID=0''"
  "is_request (setup_data @ zeros (1024 - length setup_data)) setup_data ''SETUP'' ''1'' ''trackID=0''"
  "is_request (play_data @ drop 51 setup_data @ zeros (1024 - length setup_data)) play_data ''PLAY'' ''1'' ''trackID=0''"
proof -
  have z: "0 < n \<Longrightarrow> CHR 0x00 \<in> set (zeros n)" for n by (simp add: zeros_def)
  note L = example_lengths
  show "is_request (describe_data @ zeros 969) describe_data ''DESCRIBE'' ''1'' ''trackID=0''"
    unfolding describe_data_def
    by (rule request_made) (use L(1) z [of 969] in \<open>simp_all add: describe_data_def [symmetric] zeros_def RTSP_RECV_SIZE_def blank_def\<close>)
  show "is_request (setup_data @ zeros (1024 - length setup_data)) setup_data ''SETUP'' ''1'' ''trackID=0''"
    unfolding setup_data_def
  proof (rule request_made)
    show "length setup_header < 900" using L(3) by (simp add: setup_data_def request_text_def)
  qed (use L(2,3) z [of "1024 - length setup_data"] in
      \<open>simp_all add: setup_data_def [symmetric] zeros_def RTSP_RECV_SIZE_def blank_def\<close>)
  show "is_request (play_data @ drop 51 setup_data @ zeros (1024 - length setup_data)) play_data ''PLAY'' ''1'' ''trackID=0''"
    unfolding play_data_def
    by (rule request_made) (use L(2-4) z [of "1024 - length setup_data"] in
        \<open>simp_all add: play_data_def [symmetric] zeros_def RTSP_RECV_SIZE_def blank_def\<close>)
qed

lemma example_transport:
  "ParseTransportHeader (setup_data @ zeros (1024 - length setup_data)) = Some (no_transport\<lparr>tr_rtp := 8000, tr_rtcp := 8001\<rparr>)"
proof -
  let ?h = "''SETUP rtsp://cam/live/1/trackID=0 RTSP/1.0  CSeq: 2'' @ [CHR 0x0D]"
  have "zeros (1024 - length setup_data) = CHR 0x00 # zeros (1023 - length setup_data)"
    using example_lengths(3) by (simp add: zeros_def flip: replicate_Suc)
  then have e: "setup_data @ zeros (1024 - length setup_data) = ?h @ ''Transport: '' @
      semis ([''RTP/AVP'', ''unicast''] @ [client_port 8000 8001 @ [CHR 0x0D]] @ []) @ CHR 0x00 # zeros (1023 - length setup_data)"
    by (simp add: setup_data_def setup_header_def request_text_def)
  have T: "map to_lower ''Transport: '' = ''transport: ''" by code_simp
  have N: "CHR ''n'' \<notin> set (map to_lower ?h)" by (rule no_letter_n) simp_all
  have H: "\<forall>i < length ?h. map to_lower (take 11 (drop i (?h @ ''Transport: ''))) \<noteq> ''transport: ''"
    by (intro allI impI) (rule no_transport_before [OF N T])
  have F: "\<forall>f \<in> set ([''RTP/AVP'', ''unicast''] @ []). field_ok f \<and> ignored f" by (simp add: ignored_fields field_ok_def)
  have X: "CHR '';'' \<notin> set [CHR 0x0D]" "CHR 0x00 \<notin> set [CHR 0x0D]" "[CHR 0x0D] = [] \<or> \<not> is_digit 10 (hd [CHR 0x0D])"
    by (simp_all add: is_digit_def digit_val_def)
  have Z: "CHR 0x00 \<notin> set ?h" by simp
  have P: "(8000 :: nat) < 2 ^ 16" "(8001 :: nat) < 2 ^ 16" by simp_all
  show ?thesis unfolding e by (rule client_ports_read [OF P T Z H F X])
qed

lemma client_gets_stream_witness:
  "\<exists>s'. server_run (conversation 0 5 ''10.0.0.1'' some_env describe_data some_env setup_data some_env play_data @
      map Stream ([Push [1, 2], Push [3]] @ map Turn (replicate 2 (replicate SENDBUF_SIZE 0)))) (rtsp_listen 0 0 0 rtsp_server_init) = Some s' \<and>
    received no_client (rs_sent (sv_rtp s')) = Some [[1, 2], [3]] \<and>
    (\<forall>d \<in> set (rs_sent (sv_rtp s')). dg_fd d = 7 \<and> dg_ip d = ''10.0.0.1'' \<and> dg_port d = 8000)"
proof -
  let ?s = "rtsp_listen 0 0 0 rtsp_server_init"
  have s: "sv_clients ?s = [no_client]" "sv_listening ?s" "sv_threads ?s = []" "rs_deque (sv_rtp ?s) = []" "rs_frame_cnt (sv_rtp ?s) = 0"
    "rs_sent (sv_rtp ?s) = []" "rc_status no_client = RTSP_IDLE"
    by (simp_all add: rtsp_listen_def rtsp_server_init_def sv_clients_def MAX_RTSP_CLIENT_def no_client_def)
  have ok: "server_ok ?s" using step_ok [of "Listen 0 0 0" rtsp_server_init] init_ok by simp
  have p: "pushed [Push [1, 2], Push [3]] = [[1, 2], [3]]" "list_all event_ok [Push [1, 2], Push [3]]" by (simp_all add: pushed_def)
  have e: "en_send some_env > 0" "en_udpfd some_env = 7" by (simp_all add: some_env_def)
  note B = example_buffers [symmetric]
  from client_gets_stream [OF ok s(2,1,7) _ _ _ some_env_ok some_env_ok some_env_ok e(1) B(1) example_requests(1) B(2) example_requests(2)
      example_transport B(3) example_requests(3) _ s(4-6) p(2), of 5 "''10.0.0.1''" 0 "replicate 2 (replicate SENDBUF_SIZE 0)"]
  show ?thesis using s(3) by (simp add: p(1) e(2) list_all_iff del: server_run.simps server_step.simps)
qed


section \<open>A second client\<close>

text \<open>
  A client that connects while another is served takes its slot: the first one's socket is never
  closed, and its thread goes on with the slot.
\<close>

lemma second_client_takes_slot:
  assumes "server_ok s" "sv_listening s" "sv_clients s = [c]" "0 \<le> fd" "length ip < 16"
  shows "\<exists>s'. server_step (Accept fd ip) s = Some s' \<and> sv_clients s' = [new_client 0 fd (sv_session s) ip] \<and>
    sv_closed s' = sv_closed s \<and> (\<forall>k < length (sv_threads s). sv_threads s' ! k = sv_threads s ! k)"
  using assms slot_0(2) [OF assms(3)]
  by (auto simp: rtsp_accept_def fits_def nth_append sv_clients_def)

text \<open>
  So the answer to a request that the first client sends goes to the second one: the thread waits
  on the socket \<open>old\<close>, and the answer goes to \<open>fd\<close>.
\<close>

lemma answered_to_second_client:
  assumes "server_ok s" "sv_listening s" "sv_clients s = [c]" "0 < fd" "length ip < 16" "length (sv_threads s) + 1 < 10 ^ 9"
    and "k < length (sv_threads s)" "sv_threads s ! k = \<lparr>th_slot = 0, th_place = In_Recv old, th_recvbuf = b\<rparr>"
    and "is_request (overwrite data b) data ''DESCRIBE'' pre suf" "env_ok env"
  shows "\<exists>s' m. server_run [Accept fd ip, Recv k env data] s = Some s' \<and> sv_answers s' = sv_answers s @ [(fd, m)]"
proof -
  let ?c = "new_client 0 fd (sv_session s) ip"
  define s1 where "s1 = s\<lparr>sv_rtp := (sv_rtp s)\<lparr>rs_clients := [?c]\<rparr>, sv_session := sv_session s + 1, sv_threads := sv_threads s @ [new_thread 0]\<rparr>"
  have step: "server_step (Accept fd ip) s = Some s1"
    using assms(2-5) slot_0(2) [OF assms(3)] by (simp add: rtsp_accept_def fits_def s1_def)
  have ok: "server_ok s1" by (rule step_ok [OF step _ assms(1)]) (use assms(5) in simp)
  have c: "sv_clients s1 = [?c]" "rc_socket ?c = fd" "fd \<noteq> 0" using assms(4) by (simp_all add: s1_def sv_clients_def new_client_def)
  have t: "k < length (sv_threads s1)" "sv_threads s1 ! k = \<lparr>th_slot = 0, th_place = In_Recv old, th_recvbuf = b\<rparr>"
    using assms(7,8) by (simp_all add: s1_def nth_append)
  have q: "data \<noteq> []" "length data \<le> RTSP_RECV_SIZE" "CHR 0x00 \<in> set (overwrite data b)" using assms(9) by (auto simp: is_request_def)
  obtain r cseq where r: "ParseRequestString (overwrite data b) (length data) (en_junk env) = Some (True, r)" "buffers_ok r"
    "cstr (rq_cmd r) = Some ''DESCRIBE''" "cstr (rq_pre r) = Some pre" "cstr (rq_suffix r) = Some suf" "cstr (rq_cseq r) = Some cseq"
    using is_requestE [OF assms(9,10)] .
  let ?t = "(sv_threads s1 ! k)\<lparr>th_place := At_Loop, th_recvbuf := overwrite data b\<rparr>"
  have l: "length (rq_cseq r) = PARAM_STRING_MAX" "length (rq_suffix r) = PARAM_STRING_MAX" using r(2) by (simp_all add: buffers_ok_def)
  have "rc_socket ?c \<noteq> 0" using c by simp
  note D = answers_run(3) [OF this r(6) l(1) assms(10) r(5) l(2)]
  have rep: "\<exists>s2 m. reply env ?t r s1 = Some s2 \<and> sv_answers s2 = sv_answers s1 @ [(fd, m)]"
    using r(3-5) slot_0(1) [OF c(1)] c(2) t(2) D by (simp add: reply_def on_describe_def with_answer_def)
  then obtain s2 m where s2: "reply env ?t r s1 = Some s2" "sv_answers s2 = sv_answers s1 @ [(fd, m)]" by blast
  have "server_step (Recv k env data) s1 = Some (with_thread k (?t, s2))"
    by (rule recv_step [OF t(1) _ q(1,2) _ q(3) r(1) s2(1)]) (simp_all add: t(2) overwrite_def)
  then show ?thesis using step s2(2) by (auto simp: s1_def simp del: server_step.simps)
qed

section \<open>Runs\<close>

lemma conversation_runs:
  "\<exists>s. server_run (Listen 0 0 0 # conversation 0 5 ''10.0.0.1'' some_env describe_data some_env setup_data some_env play_data) rtsp_server_init = Some s"
proof -
  let ?s = "rtsp_listen 0 0 0 rtsp_server_init"
  have s: "sv_clients ?s = [no_client]" "sv_listening ?s" "sv_threads ?s = []" "rc_status no_client = RTSP_IDLE"
    by (simp_all add: rtsp_listen_def rtsp_server_init_def sv_clients_def MAX_RTSP_CLIENT_def no_client_def)
  have ok: "server_ok ?s" using step_ok [of "Listen 0 0 0" rtsp_server_init] init_ok by simp
  have e: "en_send some_env > 0" by (simp add: some_env_def)
  note B = example_buffers [symmetric]
  from conversation_plays [where fd = 5 and ip = "''10.0.0.1''" and k = 0, OF ok s(2,1,4) _ _ _ some_env_ok some_env_ok some_env_ok e(1)
      B(1) example_requests(1) B(2) example_requests(2) example_transport B(3) example_requests(3)]
  show ?thesis using s(3) by (auto simp del: server_step.simps(2-5))
qed

lemma server_variables_witness:
  "\<exists>s. server_run (Listen 0 0 0 # conversation 0 5 ''10.0.0.1'' some_env describe_data some_env setup_data some_env play_data) rtsp_server_init = Some s \<and>
    server_ok s \<and> settled s"
proof -
  obtain s where s: "server_run (Listen 0 0 0 # conversation 0 5 ''10.0.0.1'' some_env describe_data some_env setup_data some_env play_data)
    rtsp_server_init = Some s" using conversation_runs by blast
  show ?thesis using s server_variables [OF s] some_env_ok by (auto simp: conversation_def)
qed


lemma description_runs:
  "\<exists>s. server_run [Listen 0 0 0, Accept 5 ''10.0.0.1'', Loop 0, Recv 0 some_env describe_data, Stream (Push [1])] rtsp_server_init = Some s"
proof -
  let ?s = "rtsp_listen 0 0 0 rtsp_server_init" and ?c = "new_client 0 5 1000 ''10.0.0.1''"
  have s: "sv_clients ?s = [no_client]" "sv_listening ?s" "sv_threads ?s = []" "rc_status no_client = RTSP_IDLE" "sv_session ?s = 1000"
    by (simp_all add: rtsp_listen_def rtsp_server_init_def sv_clients_def MAX_RTSP_CLIENT_def no_client_def)
  have c: "rc_status ?c = RTSP_CONNECTED" "rc_socket ?c \<noteq> 0" by (simp_all add: new_client_def)
  have ok: "server_ok ?s" using step_ok [of "Listen 0 0 0" rtsp_server_init] init_ok by simp
  obtain s1 where s1: "server_step (Accept 5 ''10.0.0.1'') ?s = Some s1"
    "session_at 0 At_Loop (replicate RTSP_RECV_SIZE (CHR 0x00)) ?c (sv_rtp ?s) (sv_localip ?s) s1"
    using accept_session [OF ok s(2,1,4), of 5 "''10.0.0.1''"] s(3,5) by auto
  obtain s2 where s2: "server_step (Loop 0) s1 = Some s2"
    "session_at 0 (In_Recv (rc_socket ?c)) (replicate RTSP_RECV_SIZE (CHR 0x00)) ?c (sv_rtp ?s) (sv_localip ?s) s2"
    using session_loop [OF s1(2)] c(1) by auto
  obtain s3 where s3: "server_step (Recv 0 some_env describe_data) s2 = Some s3"
    "session_at 0 At_Loop (describe_data @ zeros 969) ?c (sv_rtp ?s) (Some (en_ip some_env)) s3"
    using describe_session [OF s2(2) _ example_requests(1) some_env_ok c(2)] example_buffers(1) by (auto simp: overwrite_def)
  have "rs_clients (sv_rtp s3) = [?c]" using s3(2) by (simp add: session_at_def)
  then obtain s4 where s4: "server_step (Stream (Push [1])) s3 = Some s4" using c(1) by (auto simp: push_h264_stream_def)
  have l: "server_step (Listen 0 0 0) rtsp_server_init = Some ?s" by simp
  show ?thesis using l s1(1) s2(1) s3(1) s4
    by (simp add: server_run_Cons del: server_step.simps server_run.simps(2)) 
qed

lemma no_play_no_packets_witness:
  "\<exists>s. server_run [Listen 0 0 0, Accept 5 ''10.0.0.1'', Loop 0, Recv 0 some_env describe_data, Stream (Push [1])] rtsp_server_init = Some s \<and>
    rs_sent (sv_rtp s) = []"
proof -
  obtain s where s: "server_run [Listen 0 0 0, Accept 5 ''10.0.0.1'', Loop 0, Recv 0 some_env describe_data, Stream (Push [1])] rtsp_server_init = Some s"
    using description_runs by blast
  have "\<not> strstr describe_data ''PLAY''" by code_simp
  then show ?thesis using s no_play_no_packets [OF s] some_env_ok by auto
qed


end
