(* ===== verification/Yolo_Sort.thy ===== *)
theory Yolo_Sort
  imports Mpp_Prelude "HOL-Library.Multiset"
begin

text \<open>
  The sort of the demonstration of YOLO (\<open>quick_sort_indice_inverse\<close> in \<open>yolo.cc\<close> of
  \<open>yolov8_demo\<close>): scores in falling order, with the indices of the boxes they belong to. A score is
  a float that is a number; the order of these is linear. An access outside a vector is
  \<^const>\<open>None\<close>.
\<close>

section \<open>The sort\<close>

text \<open>From the right to a score above the key, and from the left to one below it.\<close>

function scan_down :: "'a :: linorder list \<Rightarrow> int \<Rightarrow> int \<Rightarrow> 'a \<Rightarrow> int option" where
  "scan_down input low high key =
     (if low < high then do { x \<leftarrow> elem input high; if x \<le> key then scan_down input low (high - 1) key else Some high }
      else Some high)"
  by pat_completeness auto

termination
  by (relation "measure (\<lambda>(input, low, high, key). nat (high - low))") auto

function scan_up :: "'a :: linorder list \<Rightarrow> int \<Rightarrow> int \<Rightarrow> 'a \<Rightarrow> int option" where
  "scan_up input low high key =
     (if low < high then do { x \<leftarrow> elem input low; if key \<le> x then scan_up input (low + 1) high key else Some low }
      else Some low)"
  by pat_completeness auto

termination
  by (relation "measure (\<lambda>(input, low, high, key). nat (high - low))") auto

declare scan_down.simps [simp del] scan_up.simps [simp del]

lemma scan_down_range:
  "scan_down input low high key = Some h \<Longrightarrow> low \<le> high \<Longrightarrow>
   low \<le> h \<and> h \<le> high \<and> (h = low \<or> (0 \<le> h \<and> nat h < length input \<and> key < input ! nat h)) \<and>
   (\<forall>k. h < k \<and> k \<le> high \<longrightarrow> input ! nat k \<le> key)"
proof (induction input low high key rule: scan_down.induct)
  case (1 input low high key)
  show ?case
  proof (cases "low < high")
    case False
    then have "scan_down input low high key = Some high" by (subst scan_down.simps) simp
    then show ?thesis using "1.prems" False by auto
  next
    case True
    then obtain x where x: "elem input high = Some x" "x = input ! nat high" "0 \<le> high" "nat high < length input"
      using "1.prems" by (auto simp: scan_down.simps [of input low high] elem_def split: if_splits)
    show ?thesis
    proof (cases "x \<le> key")
      case False
      then show ?thesis using "1.prems" True x by (auto simp: scan_down.simps [of input low high])
    next
      case le: True
      have s: "scan_down input low (high - 1) key = Some h" using "1.prems"(1) True x(1) le by (simp add: scan_down.simps [of input low high])
      have "input ! nat k \<le> key" if "h < k" "k \<le> high" for k
        using "1.IH" [OF True x(1) le s] that True le x(2) by (cases "k = high") auto
      then show ?thesis using "1.IH" [OF True x(1) le s] True by auto
    qed
  qed
qed

lemma scan_up_range:
  "scan_up input low high key = Some l \<Longrightarrow> low \<le> high \<Longrightarrow>
   low \<le> l \<and> l \<le> high \<and> (l = high \<or> (0 \<le> l \<and> nat l < length input \<and> input ! nat l < key)) \<and>
   (\<forall>k. low \<le> k \<and> k < l \<longrightarrow> key \<le> input ! nat k)"
proof (induction input low high key rule: scan_up.induct)
  case (1 input low high key)
  show ?case
  proof (cases "low < high")
    case False
    then have "scan_up input low high key = Some low" by (subst scan_up.simps) simp
    then show ?thesis using "1.prems" False by auto
  next
    case True
    then obtain x where x: "elem input low = Some x" "x = input ! nat low" "0 \<le> low" "nat low < length input"
      using "1.prems" by (auto simp: scan_up.simps [of input low high] elem_def split: if_splits)
    show ?thesis
    proof (cases "key \<le> x")
      case False
      then show ?thesis using "1.prems" True x by (auto simp: scan_up.simps [of input low high])
    next
      case le: True
      have s: "scan_up input (low + 1) high key = Some l" using "1.prems"(1) True x(1) le by (simp add: scan_up.simps [of input low high])
      have "key \<le> input ! nat k" if "low \<le> k" "k < l" for k
        using "1.IH" [OF True x(1) le s] that True le x(2) by (cases "k = low") auto
      then show ?thesis using "1.IH" [OF True x(1) le s] True by auto
    qed
  qed
qed

text \<open>\<open>input[to] = input[from]; indices[to] = indices[from];\<close>\<close>

definition move :: "'a list \<times> 'b list \<Rightarrow> int \<Rightarrow> int \<Rightarrow> ('a list \<times> 'b list) option" where
  "move v dst src = do {
     x \<leftarrow> elem (fst v) src;
     input \<leftarrow> put (fst v) dst x;
     y \<leftarrow> elem (snd v) src;
     indices \<leftarrow> put (snd v) dst y;
     Some (input, indices)
   }"

text \<open>The outer loop; each turn moves at least one end, since the scores are numbers.\<close>

function split_range :: "'a :: linorder list \<times> 'b list \<Rightarrow> int \<Rightarrow> int \<Rightarrow> 'a \<Rightarrow> (('a list \<times> 'b list) \<times> int) option" where
  "split_range v low high key =
     (if low < high then do {
        high' \<leftarrow> scan_down (fst v) low high key;
        v \<leftarrow> move v low high';
        low' \<leftarrow> scan_up (fst v) low high' key;
        v \<leftarrow> move v high' low';
        split_range v low' high' key
      }
      else Some (v, low))"
  by pat_completeness auto

lemma move_cases:
  "move v dst src = Some v' \<Longrightarrow>
   v' = ((fst v)[nat dst := fst v ! nat src], (snd v)[nat dst := snd v ! nat src]) \<and> 0 \<le> dst \<and> 0 \<le> src \<and>
   nat dst < length (fst v) \<and> nat src < length (fst v) \<and> nat dst < length (snd v) \<and> nat src < length (snd v)"
  by (auto simp: move_def elem_def put_def bind_eq_Some_conv split: if_splits)

text \<open>The two ends come closer.\<close>

lemma turn_closer:
  assumes "low < high" "scan_down (fst v) low high key = Some h" "move v low h = Some v1" "scan_up (fst v1) low h key = Some l"
  shows "low \<le> l \<and> l \<le> h \<and> h \<le> high \<and> h - l < high - low"
proof -
  have h: "low \<le> h" "h \<le> high" "h = low \<or> key < fst v ! nat h" using scan_down_range [OF assms(2)] assms(1) by auto
  have l: "low \<le> l" "l \<le> h" "l = h \<or> fst v1 ! nat l < key" using scan_up_range [OF assms(4) h(1)] by auto
  have m: "v1 = ((fst v)[nat low := fst v ! nat h], (snd v)[nat low := snd v ! nat h])" "nat low < length (fst v)"
    using move_cases [OF assms(3)] by blast+
  then have "fst v1 ! nat low = fst v ! nat h" by simp
  then have "h = low \<or> l \<noteq> low \<or> l = h" using h(3) l(3) by force
  then show ?thesis using h(1,2) l(1,2) assms(1) by auto
qed

termination split_range
  by (relation "measure (\<lambda>(v, low, high, key). nat (high - low))") (auto dest: turn_closer)

declare split_range.simps [simp del]

lemma split_range_between: "split_range v low high key = Some (v', l) \<Longrightarrow> low \<le> high \<Longrightarrow> low \<le> l \<and> l \<le> high"
proof (induction v low high key rule: split_range.induct)
  case (1 v low high key)
  show ?case
  proof (cases "low < high")
    case False
    then have "split_range v low high key = Some (v, low)" by (subst split_range.simps) simp
    then show ?thesis using "1.prems" False by auto
  next
    case True
    then obtain h v1 l1 v2 where s: "scan_down (fst v) low high key = Some h" "move v low h = Some v1"
      "scan_up (fst v1) low h key = Some l1" "move v1 h l1 = Some v2" "split_range v2 l1 h key = Some (v', l)"
      using "1.prems"(1) by (auto simp: split_range.simps [of v low high] bind_eq_Some_conv)
    show ?thesis using "1.IH" [OF True s] turn_closer [OF True s(1-3)] by auto
  qed
qed

function quick_sort_indice_inverse :: "'a :: linorder list \<times> 'b list \<Rightarrow> int \<Rightarrow> int \<Rightarrow> (('a list \<times> 'b list) \<times> int) option" where
  "quick_sort_indice_inverse v left right =
     (if left < right then do {
        key_index \<leftarrow> elem (snd v) left;
        key \<leftarrow> elem (fst v) left;
        (v, low) \<leftarrow> split_range v left right key;
        input \<leftarrow> put (fst v) low key;
        indices \<leftarrow> put (snd v) low key_index;
        (v, _) \<leftarrow> quick_sort_indice_inverse (input, indices) left (low - 1);
        (v, _) \<leftarrow> quick_sort_indice_inverse v (low + 1) right;
        Some (v, low)
      }
      else Some (v, left))"
  by pat_completeness auto

termination
  by (relation "measure (\<lambda>(v, left, right). nat (right - left))") (auto dest!: split_range_between)

declare quick_sort_indice_inverse.simps [simp del]


section \<open>Reordering a range\<close>

definition reorder :: "int \<Rightarrow> int \<Rightarrow> 'a list \<Rightarrow> 'a list \<Rightarrow> bool" where
  "reorder l r zs zs' \<longleftrightarrow> mset zs' = mset zs \<and> (\<forall>k < length zs. int k < l \<or> r < int k \<longrightarrow> zs' ! k = zs ! k)"

lemma reorder_length: "reorder l r zs zs' \<Longrightarrow> length zs' = length zs"
  unfolding reorder_def using mset_eq_length by blast

lemma reorder_refl [simp]: "reorder l r zs zs"
  by (simp add: reorder_def)

lemma reorder_trans: "reorder l r xs ys \<Longrightarrow> reorder l r ys zs \<Longrightarrow> reorder l r xs zs"
  using reorder_length [of l r xs ys] by (auto simp: reorder_def)

lemma reorder_wider: "reorder l r xs ys \<Longrightarrow> l' \<le> l \<Longrightarrow> r \<le> r' \<Longrightarrow> reorder l' r' xs ys"
  by (auto simp: reorder_def)

lemma reorder_swap:
  "l \<le> int i \<Longrightarrow> int i \<le> r \<Longrightarrow> l \<le> int j \<Longrightarrow> int j \<le> r \<Longrightarrow> i < length zs \<Longrightarrow> j < length zs \<Longrightarrow>
   reorder l r zs (zs[i := zs ! j, j := zs ! i])"
  unfolding reorder_def by (auto simp: mset_swap nth_list_update)

text \<open>What lies in the range after a reordering lay in it before.\<close>

lemma reorder_segment:
  assumes "reorder l r zs zs'" "0 \<le> l" "l \<le> r + 1" "r < int (length zs)"
  shows "mset (drop (nat l) (take (nat (r + 1)) zs')) = mset (drop (nat l) (take (nat (r + 1)) zs))"
proof -
  have len: "length zs' = length zs" by (rule reorder_length [OF assms(1)])
  have parts: "xs = take (nat l) xs @ drop (nat l) (take (nat (r + 1)) xs) @ drop (nat (r + 1)) xs" for xs :: "'a list"
  proof -
    have "take (nat l) xs = take (nat l) (take (nat (r + 1)) xs)" using assms(3) by (simp add: min_def)
    then show ?thesis by (metis append.assoc append_take_drop_id)
  qed
  have outer: "take (nat l) zs' = take (nat l) zs" "drop (nat (r + 1)) zs' = drop (nat (r + 1)) zs"
    using assms len by (auto simp: reorder_def intro!: nth_equalityI)
  have "mset zs' = mset zs" using assms(1) by (simp add: reorder_def)
  then show ?thesis using arg_cong [OF parts [of zs], of mset] arg_cong [OF parts [of zs'], of mset] outer by simp
qed

lemma reorder_from:
  assumes "reorder l r zs zs'" "0 \<le> l" "l \<le> k" "k \<le> r" "r < int (length zs)"
  obtains k' where "l \<le> k'" "k' \<le> r" "zs' ! nat k = zs ! nat k'"
proof -
  have len: "length zs' = length zs" by (rule reorder_length [OF assms(1)])
  let ?seg = "\<lambda>xs. drop (nat l) (take (nat (r + 1)) xs)"
  have "?seg zs' ! nat (k - l) = zs' ! nat k" "nat (k - l) < length (?seg zs')" using assms len by (auto simp: nat_add_distrib [symmetric])
  then have "zs' ! nat k \<in> set (?seg zs')" by (metis nth_mem)
  also have "set (?seg zs') = set (?seg zs)" using reorder_segment [OF assms(1,2)] assms(3-5) by (metis add_mono_thms_linordered_semiring(1) order_trans set_mset_mset zle_add1_eq_le le_add_same_cancel1 zero_le_one)
  finally obtain i where "i < length (?seg zs)" "?seg zs ! i = zs' ! nat k" by (auto simp: in_set_conv_nth)
  then have "l \<le> l + int i" "l + int i \<le> r" "zs' ! nat k = zs ! nat (l + int i)" using assms by (auto simp: nat_add_distrib)
  then show thesis by (rule that)
qed


section \<open>The sort is right\<close>

lemma scan_down_total: "0 \<le> low \<Longrightarrow> low \<le> high \<Longrightarrow> high < int (length input) \<Longrightarrow> \<exists>h. scan_down input low high key = Some h"
  by (induction input low high key rule: scan_down.induct) (subst scan_down.simps, simp add: elem_def nat_less_iff)

lemma scan_up_total: "0 \<le> low \<Longrightarrow> low \<le> high \<Longrightarrow> high < int (length input) \<Longrightarrow> \<exists>l. scan_up input low high key = Some l"
  by (induction input low high key rule: scan_up.induct) (subst scan_up.simps, simp add: elem_def nat_less_iff)

text \<open>The vectors with the key back in the hole at \<open>p\<close>.\<close>

definition fill :: "'a list \<times> 'b list \<Rightarrow> int \<Rightarrow> 'a \<times> 'b \<Rightarrow> ('a \<times> 'b) list" where
  "fill v p k = (zip (fst v) (snd v))[nat p := k]"

definition fits :: "'a list \<times> 'b list \<Rightarrow> int \<Rightarrow> bool" where
  "fits v n \<longleftrightarrow> int (length (fst v)) = n \<and> int (length (snd v)) = n"

lemma zip_move: "length xs = length ys \<Longrightarrow> j < length xs \<Longrightarrow> zip (xs[i := xs ! j]) (ys[i := ys ! j]) = (zip xs ys)[i := zip xs ys ! j]"
  by (simp add: update_zip)

text \<open>Moving an element into the hole, with the hole where it was, swaps it with the key.\<close>

lemma move_fill:
  assumes "move v dst src = Some v'" "fits v n" "l \<le> dst" "dst \<le> r" "l \<le> src" "src \<le> r"
  shows "fits v' n \<and> reorder l r (fill v dst k) (fill v' src k) \<and> fst v' = (fst v)[nat dst := fst v ! nat src]"
proof -
  have m: "v' = ((fst v)[nat dst := fst v ! nat src], (snd v)[nat dst := snd v ! nat src])" "0 \<le> dst" "0 \<le> src"
    "nat dst < length (fst v)" "nat src < length (fst v)" using move_cases [OF assms(1)] by blast+
  have len: "length (fst v) = length (snd v)" using assms(2) by (simp add: fits_def)
  let ?z = "fill v dst k"
  have "fill v' src k = ?z[nat dst := ?z ! nat src, nat src := ?z ! nat dst]"
    using m len by (cases "dst = src") (auto simp: fill_def zip_move nth_list_update)
  moreover have "reorder l r ?z (?z[nat dst := ?z ! nat src, nat src := ?z ! nat dst])"
    using m len assms(3-6) by (intro reorder_swap) (auto simp: fill_def)
  ultimately show ?thesis using m(1) assms(2) by (simp add: fits_def)
qed

text \<open>What a turn of the outer loop keeps: the scores left of the hole are not below the key, those right of the range not above it.\<close>

definition split_ok :: "int \<Rightarrow> int \<Rightarrow> 'a :: linorder list \<times> 'b list \<Rightarrow> int \<Rightarrow> int \<Rightarrow> 'a \<Rightarrow> bool" where
  "split_ok left right v low high key \<longleftrightarrow>
     (\<forall>k. left \<le> k \<and> k < low \<longrightarrow> key \<le> fst v ! nat k) \<and> (\<forall>k. high < k \<and> k \<le> right \<longrightarrow> fst v ! nat k \<le> key)"

lemma split_turn:
  assumes "low < high" "0 \<le> left" "left \<le> low" "high \<le> right" "right < n" "fits v n" "split_ok left right v low high key"
  obtains h v1 l v2 where "scan_down (fst v) low high key = Some h" "move v low h = Some v1"
    "scan_up (fst v1) low h key = Some l" "move v1 h l = Some v2" "low \<le> l" "l \<le> h" "h \<le> high"
    "fits v2 n" "\<forall>ki. reorder left right (fill v low (key, ki)) (fill v2 l (key, ki))" "split_ok left right v2 l h key"
proof -
  have v: "length (fst v) = length (snd v)" "high < int (length (fst v))" using assms by (auto simp: fits_def)
  obtain h where h: "scan_down (fst v) low high key = Some h" using scan_down_total [of low high "fst v" key] assms v by auto
  have hr: "low \<le> h" "h \<le> high" "h = low \<or> key < fst v ! nat h" "\<forall>k. h < k \<and> k \<le> high \<longrightarrow> fst v ! nat k \<le> key"
    using scan_down_range [OF h] assms(1) by auto
  obtain v1 where v1: "move v low h = Some v1" using v assms hr(1,2) by (auto simp: move_def elem_def put_def nat_less_iff)
  have f1: "fits v1 n \<and> reorder left right (fill v low (key, ki)) (fill v1 h (key, ki)) \<and> fst v1 = (fst v)[nat low := fst v ! nat h]" for ki
    by (rule move_fill [OF v1 assms(6)]) (use assms hr in auto)
  then have g1: "fits v1 n" "fst v1 = (fst v)[nat low := fst v ! nat h]" by blast+
  have w: "length (fst v1) = length (snd v1)" "h < int (length (fst v1))" using g1 hr assms(4-6) by (auto simp: fits_def)
  obtain l where l: "scan_up (fst v1) low h key = Some l" using scan_up_total [of low h "fst v1" key] assms hr w by auto
  have lr: "low \<le> l" "l \<le> h" "l = h \<or> fst v1 ! nat l < key" "\<forall>k. low \<le> k \<and> k < l \<longrightarrow> key \<le> fst v1 ! nat k"
    using scan_up_range [OF l hr(1)] by auto
  obtain v2 where v2: "move v1 h l = Some v2" using w assms hr lr(1,2) by (auto simp: move_def elem_def put_def nat_less_iff)
  have f2: "fits v2 n \<and> reorder left right (fill v1 h (key, ki)) (fill v2 l (key, ki)) \<and> fst v2 = (fst v1)[nat h := fst v1 ! nat l]" for ki
    by (rule move_fill [OF v2]) (use g1 assms hr lr in auto)
  then have g2: "fits v2 n" "fst v2 = (fst v1)[nat h := fst v1 ! nat l]" by blast+
  have r: "\<forall>ki. reorder left right (fill v low (key, ki)) (fill v2 l (key, ki))"
    using f1 f2 reorder_trans by blast
  have left: "key \<le> fst v2 ! nat k" if "left \<le> k" "k < l" for k
  proof (cases "k < low")
    case True
    then have "fst v2 ! nat k = fst v ! nat k" using g1 g2 that hr(1) assms(2) by auto
    then show ?thesis using assms(7) True that by (simp add: split_ok_def)
  next
    case False
    then have "fst v2 ! nat k = fst v1 ! nat k" using g2 that lr(2) assms by (auto simp: nth_list_update)
    then show ?thesis using lr(4) False that by simp
  qed
  have right: "fst v2 ! nat k \<le> key" if "h < k" "k \<le> right" for k
  proof -
    have e: "fst v2 ! nat k = fst v ! nat k" using g1 g2 that hr(1) assms(2,3) by auto
    show ?thesis using assms(7) hr(4) that unfolding e split_ok_def by (cases "k \<le> high") auto
  qed
  show thesis using that [OF h v1 l v2 lr(1,2) hr(2)] g2 r left right by (auto simp: split_ok_def)
qed

lemma split_range_ok:
  "0 \<le> left \<Longrightarrow> left \<le> low \<Longrightarrow> low \<le> high \<Longrightarrow> high \<le> right \<Longrightarrow> right < n \<Longrightarrow> fits v n \<Longrightarrow> split_ok left right v low high key \<Longrightarrow>
   \<exists>v' l. split_range v low high key = Some (v', l) \<and> left \<le> l \<and> l \<le> right \<and> fits v' n \<and>
     (\<forall>ki. reorder left right (fill v low (key, ki)) (fill v' l (key, ki))) \<and> split_ok left right v' l l key"
proof (induction v low high key rule: split_range.induct)
  case (1 v low high key)
  show ?case
  proof (cases "low < high")
    case False
    then have "split_range v low high key = Some (v, low)" "high = low" using "1.prems" by (subst split_range.simps, auto)
    then show ?thesis using "1.prems" by auto
  next
    case True
    obtain h v1 l v2 where t: "scan_down (fst v) low high key = Some h" "move v low h = Some v1"
      "scan_up (fst v1) low h key = Some l" "move v1 h l = Some v2" "low \<le> l" "l \<le> h" "h \<le> high"
      "fits v2 n" "\<forall>ki. reorder left right (fill v low (key, ki)) (fill v2 l (key, ki))" "split_ok left right v2 l h key"
      by (rule split_turn [OF True "1.prems"(1,2,4-7)])
    have e: "split_range v low high key = split_range v2 l h key" using t(1-4) True by (simp add: split_range.simps [of v low high])
    obtain v' p where p: "split_range v2 l h key = Some (v', p)" "left \<le> p" "p \<le> right" "fits v' n"
      "\<forall>ki. reorder left right (fill v2 l (key, ki)) (fill v' p (key, ki))" "split_ok left right v' p p key"
      using "1.IH" [OF True t(1-4)] "1.prems" t(5-8,10) by auto
    show ?thesis unfolding e p(1) using p(2-6) t(9) reorder_trans by blast
  qed
qed


definition zipped :: "'a list \<times> 'b list \<Rightarrow> ('a \<times> 'b) list" where
  "zipped v = zip (fst v) (snd v)"

definition falling :: "'a :: linorder list \<Rightarrow> int \<Rightarrow> int \<Rightarrow> bool" where
  "falling xs l r \<longleftrightarrow> (\<forall>i j. l \<le> i \<longrightarrow> i \<le> j \<longrightarrow> j \<le> r \<longrightarrow> xs ! nat j \<le> xs ! nat i)"

lemma zipped_nth: "fits v n \<Longrightarrow> 0 \<le> k \<Longrightarrow> k < n \<Longrightarrow> zipped v ! nat k = (fst v ! nat k, snd v ! nat k)"
  by (auto simp: fits_def zipped_def)

lemma zipped_length: "fits v n \<Longrightarrow> int (length (zipped v)) = n"
  by (auto simp: fits_def zipped_def)

lemma fst_reorder_from:
  assumes "reorder l r (zipped v) (zipped w)" "fits v n" "fits w n" "0 \<le> l" "l \<le> k" "k \<le> r" "r < n"
  obtains k' where "l \<le> k'" "k' \<le> r" "fst w ! nat k = fst v ! nat k'"
proof -
  obtain k' where k': "l \<le> k'" "k' \<le> r" "zipped w ! nat k = zipped v ! nat k'"
    using reorder_from [OF assms(1,4,5,6)] zipped_length [OF assms(2)] assms(7) by auto
  then show thesis using that assms zipped_nth [OF assms(2), of k'] zipped_nth [OF assms(3), of k] by auto
qed

lemma fst_reorder_outside:
  "reorder l r (zipped v) (zipped w) \<Longrightarrow> fits v n \<Longrightarrow> fits w n \<Longrightarrow> 0 \<le> k \<Longrightarrow> k < n \<Longrightarrow> k < l \<or> r < k \<Longrightarrow> fst w ! nat k = fst v ! nat k"
  using zipped_nth [of v n k] zipped_nth [of w n k] zipped_length [of v n] by (auto simp: reorder_def)

text \<open>A pivot, scores not below it sorted on its left and scores not above it sorted on its right.\<close>

lemma falling_join:
  assumes "falling xs l (p - 1)" "falling xs (p + 1) r"
    "\<And>k. l \<le> k \<Longrightarrow> k < p \<Longrightarrow> xs ! nat p \<le> xs ! nat k" "\<And>k. p < k \<Longrightarrow> k \<le> r \<Longrightarrow> xs ! nat k \<le> xs ! nat p"
  shows "falling xs l r"
  unfolding falling_def
proof (intro allI impI)
  fix i j :: int
  assume ij: "l \<le> i" "i \<le> j" "j \<le> r"
  consider "j < p" | "p < i" | "i \<le> p" "p \<le> j" by linarith
  then show "xs ! nat j \<le> xs ! nat i"
  proof cases
    case 1
    then show ?thesis using assms(1) ij by (simp add: falling_def)
  next
    case 2
    then show ?thesis using assms(2) ij by (simp add: falling_def)
  next
    case 3
    then have "xs ! nat j \<le> xs ! nat p" "xs ! nat p \<le> xs ! nat i" using assms(3) [of i] assms(4) [of j] ij by (auto simp: le_less)
    then show ?thesis by (rule order_trans)
  qed
qed

lemma falling_small: "\<not> l < r \<Longrightarrow> falling xs l r"
  unfolding falling_def by (metis linorder_not_less nle_le order_trans)

lemma pivot_falling:
  fixes w v3 v4 :: "'a :: linorder list \<times> 'b list"
  assumes "fits w n" "fits v3 n" "reorder left (p - 1) (zipped w) (zipped v3)" "fits v4 n" "reorder (p + 1) right (zipped v3) (zipped v4)"
    "0 \<le> left" "left \<le> p" "p \<le> right" "right < n" "fst w ! nat p = key"
    "\<And>k. left \<le> k \<Longrightarrow> k < p \<Longrightarrow> key \<le> fst w ! nat k" "\<And>k. p < k \<Longrightarrow> k \<le> right \<Longrightarrow> fst w ! nat k \<le> key"
    "falling (fst v3) left (p - 1)" "falling (fst v4) (p + 1) right"
  shows "falling (fst v4) left right"
proof -
  have same3: "fst v3 ! nat k = fst w ! nat k" if "p \<le> k" "k \<le> right" for k
    using fst_reorder_outside [OF assms(3,1,2), of k] that assms(6-9) by auto
  have same4: "fst v4 ! nat k = fst v3 ! nat k" if "left \<le> k" "k \<le> p" for k
    using fst_reorder_outside [OF assms(5,2,4), of k] that assms(6-9) by auto
  have pivot: "fst v4 ! nat p = key" using same3 [of p] same4 [of p] assms by auto
  have low: "key \<le> fst v4 ! nat k" if k: "left \<le> k" "k < p" for k
  proof -
    obtain k' where "left \<le> k'" "k' \<le> p - 1" "fst v3 ! nat k = fst w ! nat k'"
      by (rule fst_reorder_from [OF assms(3,1,2,6), of k thesis]) (use k assms in auto)
    then show ?thesis using same4 [of k] k assms(11) [of k'] by auto
  qed
  have high: "fst v4 ! nat k \<le> key" if k: "p < k" "k \<le> right" for k
  proof -
    obtain k' where "p + 1 \<le> k'" "k' \<le> right" "fst v4 ! nat k = fst v3 ! nat k'"
      by (rule fst_reorder_from [OF assms(5,2,4), of k thesis]) (use k assms in auto)
    then show ?thesis using same3 [of k'] k assms(12) [of k'] by auto
  qed
  have "falling (fst v4) left (p - 1)" using assms(13) same4 by (auto simp: falling_def)
  then show ?thesis using assms(14) pivot low high by (auto intro: falling_join)
qed

lemma quick_sort_range:
  "0 \<le> left \<Longrightarrow> right < n \<Longrightarrow> fits v n \<Longrightarrow>
   \<exists>v' low. quick_sort_indice_inverse v left right = Some (v', low) \<and> fits v' n \<and>
     reorder left right (zipped v) (zipped v') \<and> falling (fst v') left right"
proof (induction v left right rule: quick_sort_indice_inverse.induct)
  case (1 v left right)
  show ?case
  proof (cases "left < right")
    case False
    then have "quick_sort_indice_inverse v left right = Some (v, left)" by (subst quick_sort_indice_inverse.simps) simp
    then show ?thesis using "1.prems" False falling_small by auto
  next
    case True
    let ?key = "fst v ! nat left" and ?ki = "snd v ! nat left"
    have v: "int (length (fst v)) = n" "int (length (snd v)) = n" using "1.prems"(3) by (auto simp: fits_def)
    have e: "elem (snd v) left = Some ?ki" "elem (fst v) left = Some ?key" using "1.prems" True v by (auto simp: elem_def)
    have ok: "split_ok left right v left right ?key" by (simp add: split_ok_def)
    obtain v1 p where s: "split_range v left right ?key = Some (v1, p)" "left \<le> p" "p \<le> right" "fits v1 n"
      "\<forall>ki. reorder left right (fill v left (?key, ki)) (fill v1 p (?key, ki))" "split_ok left right v1 p p ?key"
      using split_range_ok [OF "1.prems"(1) order_refl _ order_refl "1.prems"(2,3) ok] True by auto
    have w: "int (length (fst v1)) = n" "int (length (snd v1)) = n" using s(4) by (auto simp: fits_def)
    let ?inp = "(fst v1)[nat p := ?key]" and ?ind = "(snd v1)[nat p := ?ki]"
    have pt: "put (fst v1) p ?key = Some ?inp" "put (snd v1) p ?ki = Some ?ind" using s(2,3) w "1.prems" by (auto simp: put_def)
    have f2: "fits (?inp, ?ind) n" using w by (simp add: fits_def)
    have z: "zipped (?inp, ?ind) = fill v1 p (?key, ?ki)" by (simp add: zipped_def fill_def update_zip)
    have "fill v left (?key, ?ki) = zipped v" using v "1.prems" True by (simp add: fill_def zipped_def list_update_same_conv nat_less_iff)
    then have r2: "reorder left right (zipped v) (zipped (?inp, ?ind))" using s(5) z by metis
    obtain v3 l3 where q3: "quick_sort_indice_inverse (?inp, ?ind) left (p - 1) = Some (v3, l3)" "fits v3 n"
      "reorder left (p - 1) (zipped (?inp, ?ind)) (zipped v3)" "falling (fst v3) left (p - 1)"
      using "1.IH"(1) [OF True e s(1) refl pt "1.prems"(1) _ f2] s(3) "1.prems"(2) by auto
    obtain v4 l4 where q4: "quick_sort_indice_inverse v3 (p + 1) right = Some (v4, l4)" "fits v4 n"
      "reorder (p + 1) right (zipped v3) (zipped v4)" "falling (fst v4) (p + 1) right"
      using "1.IH"(2) [OF True e s(1) refl pt q3(1) refl _ "1.prems"(2) q3(2)] s(2) "1.prems"(1) by auto
    have "falling (fst v4) left right"
      by (rule pivot_falling [OF f2 q3(2,3) q4(2,3) "1.prems"(1) s(2,3) "1.prems"(2) _ _ _ q3(4) q4(4)]) (use s(6) w s(2,3) "1.prems" in \<open>auto simp: split_ok_def\<close>)
    moreover have "reorder left right (zipped v) (zipped v4)"
      using r2 reorder_wider [OF q3(3), of left right] reorder_wider [OF q4(3), of left right] s(2,3) by (auto intro: reorder_trans)
    moreover have "quick_sort_indice_inverse v left right = Some (v4, p)"
      using True e s(1) pt q3(1) q4(1) by (simp add: quick_sort_indice_inverse.simps [of v])
    ultimately show ?thesis using q4(2) by blast
  qed
qed


text \<open>
  The sort returns for any scores: they stand in falling order, each with the index of the box it
  belongs to.
\<close>

lemma quick_sort_indices:
  "\<exists>idx low. quick_sort_indice_inverse (scores, map int [0..<length scores]) 0 (int (length scores) - 1) =
     Some ((map (\<lambda>i. scores ! nat i) idx, idx), low) \<and>
   mset idx = mset (map int [0..<length scores]) \<and> sorted (rev (map (\<lambda>i. scores ! nat i) idx))"
proof -
  let ?n = "length scores" and ?v = "(scores, map int [0..<length scores])"
  have f: "fits ?v (int ?n)" by (simp add: fits_def)
  obtain v' low where q: "quick_sort_indice_inverse ?v 0 (int ?n - 1) = Some (v', low)" "fits v' (int ?n)"
    "reorder 0 (int ?n - 1) (zipped ?v) (zipped v')" "falling (fst v') 0 (int ?n - 1)"
    using quick_sort_range [OF order_refl _ f, of "int ?n - 1"] by auto
  have ms: "mset (zipped v') = mset (zipped ?v)" using q(3) by (simp add: reorder_def)
  have len: "length (fst v') = length (snd v')" "length (fst v') = ?n" using q(2) by (auto simp: fits_def)
  have "mset (snd v') = image_mset snd (mset (zipped v'))" using len by (simp add: zipped_def mset_map [symmetric])
  also have "\<dots> = mset (map int [0..<?n])" unfolding ms by (simp add: zipped_def mset_map [symmetric])
  finally have idx: "mset (snd v') = mset (map int [0..<?n])" .
  have pair: "fst v' ! k = scores ! nat (snd v' ! k)" if "k < ?n" for k
  proof -
    have "k < length (zipped v')" using len that by (simp add: zipped_def)
    then have "zipped v' ! k \<in> set (zipped v')" by (rule nth_mem)
    then have "zipped v' ! k \<in> set (zipped ?v)" using ms by (metis set_mset_mset)
    then show ?thesis using len that by (auto simp: zipped_def set_zip)
  qed
  have e: "fst v' = map (\<lambda>i. scores ! nat i) (snd v')" using len pair by (auto intro: nth_equalityI)
  have "sorted (rev (fst v'))"
    unfolding sorted_rev_iff_nth_mono
  proof (intro allI impI)
    fix i j assume "i \<le> j" "j < length (fst v')"
    then show "fst v' ! j \<le> fst v' ! i" using q(4) [unfolded falling_def, rule_format, of "int i" "int j"] len by auto
  qed
  then show ?thesis using q(1) idx e by (metis prod.collapse)
qed

end
