(* ===== verification/Yolo_Post.thy ===== *)
theory Yolo_Post
  imports Yolo_Sort C_Library
begin

text \<open>
  What the demonstration of YOLO does with the outputs of the network (\<open>yolo.cc\<close> of
  \<open>yolov8_demo\<close>): names of models, the file of labels, the boxes the 8-bit tensors hold, the
  suppression of boxes that overlap, and the results of a frame.

  The arithmetic of \<open>float\<close> and \<open>double\<close> is a parameter, the record \<open>fp\<close>: every operation of
  the code is the operation of the machine, in the order and at the precision the code has. Floats
  that are compared are numbers, so their order is linear. A conversion to \<open>int\<close> of a value out of
  range and an access out of bounds are \<^const>\<open>None\<close>. Index arithmetic does not wrap: a tensor is far
  smaller than 2 GB.
\<close>

section \<open>Floating point\<close>

record ('f, 'd) fp =
  f_of :: "int \<Rightarrow> 'f"
  f_int :: "'f \<Rightarrow> int option"
  f_add :: "'f \<Rightarrow> 'f \<Rightarrow> 'f"
  f_sub :: "'f \<Rightarrow> 'f \<Rightarrow> 'f"
  f_mul :: "'f \<Rightarrow> 'f \<Rightarrow> 'f"
  f_div :: "'f \<Rightarrow> 'f \<Rightarrow> 'f"
  f_neg :: "'f \<Rightarrow> 'f"
  f_exp :: "'f \<Rightarrow> 'f"
  d_ratio :: "int \<Rightarrow> int \<Rightarrow> 'd"
  d_add :: "'d \<Rightarrow> 'd \<Rightarrow> 'd"
  d_sub :: "'d \<Rightarrow> 'd \<Rightarrow> 'd"
  d_mul :: "'d \<Rightarrow> 'd \<Rightarrow> 'd"
  widen :: "'f \<Rightarrow> 'd"
  narrow :: "'d \<Rightarrow> 'f"

text \<open>The literals \<open>1.0\<close>, \<open>0.5\<close>, \<open>0.25\<close> and \<open>0.45\<close> are doubles, the last two also narrowed.\<close>

definition NMS_THRESHOLD :: "('f, 'd) fp \<Rightarrow> 'd" where
  "NMS_THRESHOLD F = d_ratio F 45 100"

definition CONF_THRESHOLD :: "('f, 'd) fp \<Rightarrow> 'd" where
  "CONF_THRESHOLD F = d_ratio F 1 4"

definition OBJ_NAME_MAX_SIZE :: nat where "OBJ_NAME_MAX_SIZE = 16"
definition OBJ_NUMB_MAX_SIZE :: nat where "OBJ_NUMB_MAX_SIZE = 200"
definition OBJ_CLASS_NUM :: nat where "OBJ_CLASS_NUM = 1"

lemmas yolo_sizes = OBJ_NAME_MAX_SIZE_def OBJ_NUMB_MAX_SIZE_def OBJ_CLASS_NUM_def

section \<open>Names of models\<close>

datatype MODEL_TYPE = MODEL_TYPE_ERROR | YOLOX | YOLOV5 | YOLOV6 | YOLOV7 | YOLOV8 | PPYOLOE_PLUS

definition model_type_cmp :: "MODEL_TYPE \<Rightarrow> string \<Rightarrow> string \<Rightarrow> MODEL_TYPE \<Rightarrow> int \<times> MODEL_TYPE" where
  "model_type_cmp t input_str type_str asign_type = (if input_str = type_str then (1, asign_type) else (0, t))"

definition string_to_model_type :: "string \<Rightarrow> MODEL_TYPE" where
  "string_to_model_type s =
     (let t = MODEL_TYPE_ERROR;
          t = snd (model_type_cmp t s ''yolov5'' YOLOV5);
          t = snd (model_type_cmp t s ''v5'' YOLOV5);
          t = snd (model_type_cmp t s ''yolov6'' YOLOV6);
          t = snd (model_type_cmp t s ''v6'' YOLOV6);
          t = snd (model_type_cmp t s ''yolov7'' YOLOV7);
          t = snd (model_type_cmp t s ''v7'' YOLOV7);
          t = snd (model_type_cmp t s ''yolov8'' YOLOV8);
          t = snd (model_type_cmp t s ''v8'' YOLOV8);
          t = snd (model_type_cmp t s ''yolox'' YOLOX);
          t = snd (model_type_cmp t s ''ppyoloe_plus'' PPYOLOE_PLUS);
          t = snd (model_type_cmp t s ''ppyoloe'' PPYOLOE_PLUS)
      in t)"

section \<open>The file of labels\<close>

text \<open>
  A line up to a newline or the end of the file: the buffer that grew by a character at a time, or
  NULL, and what is left of the file. An error of the stream other than its end does not occur.
\<close>

fun line_chars :: "string \<Rightarrow> heap \<Rightarrow> string \<Rightarrow> string option \<times> bool \<times> string \<times> heap" where
  "line_chars [] hp buf = (Some buf, True, [], hp)"
| "line_chars (c # cs) hp buf =
     (if c = CHR 0x0A then (Some buf, False, cs, hp)
      else let (ok, hp) = heap_alloc hp in if ok then line_chars cs hp (buf @ [c]) else (None, False, cs, hp))"

definition readLine :: "string \<Rightarrow> heap \<Rightarrow> string option \<times> string \<times> heap" where
  "readLine fp hp =
     (let (ok, hp) = heap_alloc hp in
      if \<not> ok then (None, fp, hp)
      else case line_chars fp hp [] of
        (None, _, fp, hp) \<Rightarrow> (None, fp, hp)
      | (Some buf, at_end, fp, hp) \<Rightarrow> if at_end \<and> buf = [] then (None, fp, hp) else (Some buf, fp, hp))"

lemma line_chars_shorter: "line_chars cs hp buf = (r, e, cs', hp') \<Longrightarrow> if cs = [] then r = Some buf \<and> e else length cs' < length cs"
  by (induction cs hp buf rule: line_chars.induct) (fastforce split: if_splits prod.splits)+

lemma readLine_shorter: "readLine fp hp = (Some s, fp', hp') \<Longrightarrow> length fp' < length fp"
  by (auto simp: readLine_def Let_def split: prod.splits if_splits option.splits dest!: line_chars_shorter)

text \<open>The lines in their slots; \<open>fgetc\<close> on the NULL of a file that is not there is \<^const>\<open>None\<close>.\<close>

function lines_loop :: "string \<Rightarrow> heap \<Rightarrow> string option list \<Rightarrow> nat \<Rightarrow> int \<Rightarrow> ((string option list \<times> nat) \<times> heap) option" where
  "lines_loop fp hp lines i max_line =
     (case readLine fp hp of
        (None, _, hp') \<Rightarrow> Some ((lines, i), hp')
      | (Some s, fp', hp') \<Rightarrow>
          if i < length lines then
            if max_line \<le> int (i + 1) then Some ((lines[i := Some s], i + 1), hp')
            else lines_loop fp' hp' (lines[i := Some s]) (i + 1) max_line
          else None)"
  by pat_completeness auto

termination
  by (relation "measure (\<lambda>(fp, hp, lines, i, m). length fp)") (auto dest: readLine_shorter [OF sym])

declare lines_loop.simps [simp del]

definition readLines :: "string option \<Rightarrow> string option list \<Rightarrow> int \<Rightarrow> heap \<Rightarrow> ((string option list \<times> nat) \<times> heap) option" where
  "readLines file lines max_line hp = (case file of None \<Rightarrow> None | Some fp \<Rightarrow> lines_loop fp hp lines 0 max_line)"

definition loadLabelName :: "string option \<Rightarrow> string option list \<Rightarrow> heap \<Rightarrow> (int \<times> string option list \<times> heap) option" where
  "loadLabelName file label hp = do {
     ((label, _), hp) \<leftarrow> readLines file label (int OBJ_CLASS_NUM) hp;
     Some (0, label, hp)
   }"

text \<open>
  \<open>readFloats\<close>: the numbers of the file, and whether text that is no number stands behind them, where
  \<open>fscanf\<close> then stays with a result that is not \<open>EOF\<close>.
\<close>

function floats_loop :: "'f list \<Rightarrow> bool \<Rightarrow> 'f list \<Rightarrow> int \<Rightarrow> int \<Rightarrow> ('f list \<times> int) option" where
  "floats_loop vals junk result n max_line =
     (if n \<le> max_line then
        (case vals of
           [] \<Rightarrow> if junk then floats_loop [] junk result (n + 1) max_line else Some (result, n + 1)
         | v # vs \<Rightarrow> do { result \<leftarrow> put result n v; floats_loop vs junk result (n + 1) max_line })
      else Some (result, n))"
  by pat_completeness auto

termination
  by (relation "measure (\<lambda>(vals, junk, result, n, m). nat (m + 1 - n))") auto

declare floats_loop.simps [simp del]

text \<open>The result, the array and \<open>*valid_number\<close>, which stays as it is when the file is not there.\<close>

definition readFloats :: "('f list \<times> bool) option \<Rightarrow> 'f list \<Rightarrow> int \<Rightarrow> int \<Rightarrow> (int \<times> 'f list \<times> int) option" where
  "readFloats file result max_line valid_number =
     (case file of
        None \<Rightarrow> Some (1, result, valid_number)
      | Some (vals, junk) \<Rightarrow> do {
          (result, n) \<leftarrow> floats_loop vals junk result 0 max_line;
          Some (0, result, n - 1)
        })"

section \<open>Overlap of two boxes\<close>

definition CalculateOverlap ::
  "('f :: linorder, 'd :: linorder) fp \<Rightarrow> 'f \<Rightarrow> 'f \<Rightarrow> 'f \<Rightarrow> 'f \<Rightarrow> 'f \<Rightarrow> 'f \<Rightarrow> 'f \<Rightarrow> 'f \<Rightarrow> 'f" where
  "CalculateOverlap F xmin0 ymin0 xmax0 ymax0 xmin1 ymin1 xmax1 ymax1 =
     (let one = d_ratio F 1 1;
          zero = f_of F 0;
          span = (\<lambda>a b. d_add F (widen F (f_sub F a b)) one);
          w = narrow F (max (widen F zero) (span (min xmax0 xmax1) (max xmin0 xmin1)));
          h = narrow F (max (widen F zero) (span (min ymax0 ymax1) (max ymin0 ymin1)));
          i = f_mul F w h;
          u = narrow F (d_sub F (d_add F (d_mul F (span xmax0 xmin0) (span ymax0 ymin0))
                                         (d_mul F (span xmax1 xmin1) (span ymax1 ymin1))) (widen F i))
      in if u \<le> zero then zero else f_div F i u)"

text \<open>The corners of box \<open>n\<close>, of which left, top, width and height are stored, and the overlap of two.\<close>

definition corners :: "('f, 'd) fp \<Rightarrow> 'f list \<Rightarrow> int \<Rightarrow> ('f \<times> 'f \<times> 'f \<times> 'f) option" where
  "corners F boxes n = do {
     x \<leftarrow> elem boxes (n * 4 + 0);
     y \<leftarrow> elem boxes (n * 4 + 1);
     w \<leftarrow> elem boxes (n * 4 + 2);
     h \<leftarrow> elem boxes (n * 4 + 3);
     Some (x, y, f_add F x w, f_add F y h)
   }"

definition overlap :: "('f :: linorder, 'd :: linorder) fp \<Rightarrow> 'f list \<Rightarrow> int \<Rightarrow> int \<Rightarrow> 'f option" where
  "overlap F boxes n m = do {
     (xmin0, ymin0, xmax0, ymax0) \<leftarrow> corners F boxes n;
     (xmin1, ymin1, xmax1, ymax1) \<leftarrow> corners F boxes m;
     Some (CalculateOverlap F xmin0 ymin0 xmax0 ymax0 xmin1 ymin1 xmax1 ymax1)
   }"

section \<open>Suppression\<close>

text \<open>The inner loop over the boxes behind box \<open>n\<close>, the outer one over all; the indices of a loop are a list.\<close>

fun nms_inner :: "('f :: linorder, 'd :: linorder) fp \<Rightarrow> 'f list \<Rightarrow> int list \<Rightarrow> int \<Rightarrow> 'f \<Rightarrow> int \<Rightarrow> int list \<Rightarrow> int list \<Rightarrow> int list option" where
  "nms_inner F boxes classIds filterId threshold n [] order = Some order"
| "nms_inner F boxes classIds filterId threshold n (j # js) order = do {
     m \<leftarrow> elem order j;
     c \<leftarrow> (if m = - 1 then Some filterId else elem classIds m);
     if m = - 1 \<or> c \<noteq> filterId then nms_inner F boxes classIds filterId threshold n js order
     else do {
       iou \<leftarrow> overlap F boxes n m;
       order \<leftarrow> (if threshold < iou then put order j (- 1) else Some order);
       nms_inner F boxes classIds filterId threshold n js order
     }
   }"

fun nms_outer :: "('f :: linorder, 'd :: linorder) fp \<Rightarrow> int \<Rightarrow> 'f list \<Rightarrow> int list \<Rightarrow> int \<Rightarrow> 'f \<Rightarrow> int list \<Rightarrow> int list \<Rightarrow> int list option" where
  "nms_outer F validCount boxes classIds filterId threshold [] order = Some order"
| "nms_outer F validCount boxes classIds filterId threshold (i # is) order = do {
     n \<leftarrow> elem order i;
     c \<leftarrow> (if n = - 1 then Some filterId else elem classIds n);
     order \<leftarrow> (if n = - 1 \<or> c \<noteq> filterId then Some order
               else nms_inner F boxes classIds filterId threshold n [i + 1..validCount - 1] order);
     nms_outer F validCount boxes classIds filterId threshold is order
   }"

definition nms :: "('f :: linorder, 'd :: linorder) fp \<Rightarrow> int \<Rightarrow> 'f list \<Rightarrow> int list \<Rightarrow> int list \<Rightarrow> int \<Rightarrow> 'f \<Rightarrow> int list option" where
  "nms F validCount boxes classIds order filterId threshold =
     nms_outer F validCount boxes classIds filterId threshold [0..validCount - 1] order"

text \<open>\<open>for (auto c : class_set)\<close>: the set is in rising order.\<close>

fun nms_classes :: "('f :: linorder, 'd :: linorder) fp \<Rightarrow> int \<Rightarrow> 'f list \<Rightarrow> int list \<Rightarrow> int list \<Rightarrow> int list \<Rightarrow> int list option" where
  "nms_classes F validCount boxes classIds [] order = Some order"
| "nms_classes F validCount boxes classIds (c # cs) order = do {
     order \<leftarrow> nms F validCount boxes classIds order c (narrow F (NMS_THRESHOLD F));
     nms_classes F validCount boxes classIds cs order
   }"

definition class_set :: "int list \<Rightarrow> int list" where
  "class_set classIds = sort (remdups classIds)"

section \<open>Boxes of a tensor\<close>

definition clip :: "('f :: linorder, 'd) fp \<Rightarrow> 'f \<Rightarrow> 'f \<Rightarrow> 'f \<Rightarrow> int option" where
  "clip F val lo hi = (let f = (if val \<le> lo then lo else if hi \<le> val then hi else val) in f_int F f)"

definition qnt_f32_to_affine :: "('f :: linorder, 'd) fp \<Rightarrow> 'f \<Rightarrow> int \<Rightarrow> 'f \<Rightarrow> 8 word option" where
  "qnt_f32_to_affine F f32 zp scale = do {
     let dst_val = f_add F (f_div F f32 scale) (f_of F zp);
     res \<leftarrow> clip F dst_val (f_of F (- 128)) (f_of F 127);
     Some (word_of_int res)
   }"

definition deqnt_affine_to_f32 :: "('f, 'd) fp \<Rightarrow> 8 word \<Rightarrow> int \<Rightarrow> 'f \<Rightarrow> 'f" where
  "deqnt_affine_to_f32 F qnt zp scale = f_mul F (f_sub F (f_of F (sint qnt)) (f_of F zp)) scale"

definition compute_dfl :: "('f, 'd) fp \<Rightarrow> 'f list \<Rightarrow> nat \<Rightarrow> 'f list" where
  "compute_dfl F tensor dfl_len = List.map (\<lambda>b.
     let exp_t = List.map (\<lambda>i. f_exp F (tensor ! (i + b * dfl_len))) [0..<dfl_len];
         exp_sum = fold (\<lambda>e s. f_add F s e) exp_t (f_of F 0)
     in fold (\<lambda>i s. f_add F s (f_mul F (f_div F (exp_t ! i) exp_sum) (f_of F (int i)))) [0..<dfl_len] (f_of F 0)) [0..<4]"

text \<open>The arguments of \<open>process_v2_i8\<close> about the three tensors of a branch.\<close>

record 'f branch =
  t_box :: "8 word list"
  box_zp :: int
  box_scale :: 'f
  t_score :: "8 word list"
  score_zp :: int
  score_scale :: 'f
  t_score_sum :: "8 word list option"
  sum_zp :: int
  sum_scale :: 'f

text \<open>The vectors of the boxes found so far.\<close>

record 'f found =
  fo_boxes :: "'f list"
  fo_scores :: "'f list"
  fo_classes :: "int list"

text \<open>The best class above the threshold at an offset, with the score it has.\<close>

fun class_loop :: "8 word list \<Rightarrow> int \<Rightarrow> 8 word \<Rightarrow> int list \<Rightarrow> int \<Rightarrow> 8 word \<times> int \<Rightarrow> (8 word \<times> int) option" where
  "class_loop scores grid_len thres [] offset best = Some best"
| "class_loop scores grid_len thres (c # cs) offset best = do {
     s \<leftarrow> elem scores offset;
     class_loop scores grid_len thres cs (offset + grid_len) (if sint thres < sint s \<and> sint (fst best) < sint s then (s, c) else best)
   }"

fun read_dfl :: "('f, 'd) fp \<Rightarrow> 'f branch \<Rightarrow> int \<Rightarrow> nat \<Rightarrow> int \<Rightarrow> 'f list option" where
  "read_dfl F br grid_len 0 offset = Some []"
| "read_dfl F br grid_len (Suc k) offset = do {
     q \<leftarrow> elem (t_box br) offset;
     rest \<leftarrow> read_dfl F br grid_len k (offset + grid_len);
     Some (deqnt_affine_to_f32 F q (box_zp br) (box_scale br) # rest)
   }"


text \<open>A box around the middle of cell \<open>(i, j)\<close>, at the distances that \<open>box\<close> holds.\<close>

definition cell_edge :: "('f, 'd) fp \<Rightarrow> 'f \<Rightarrow> int \<Rightarrow> int \<Rightarrow> 'f" where
  "cell_edge F distance k stride = narrow F (d_mul F (d_add F (widen F (f_add F distance (f_of F k))) (d_ratio F 1 2)) (d_ratio F stride 1))"

definition push_box :: "('f, 'd) fp \<Rightarrow> 'f branch \<Rightarrow> 'f list \<Rightarrow> int \<Rightarrow> int \<Rightarrow> int \<Rightarrow> 8 word \<times> int \<Rightarrow> 'f found \<Rightarrow> 'f found" where
  "push_box F br box i j stride best found =
     (let x1 = cell_edge F (f_neg F (box ! 0)) j stride;
          y1 = cell_edge F (f_neg F (box ! 1)) i stride;
          x2 = cell_edge F (box ! 2) j stride;
          y2 = cell_edge F (box ! 3) i stride
      in found\<lparr>fo_boxes := fo_boxes found @ [x1, y1, f_sub F x2 x1, f_sub F y2 y1],
               fo_scores := fo_scores found @ [deqnt_affine_to_f32 F (fst best) (score_zp br) (score_scale br)],
               fo_classes := fo_classes found @ [snd best]\<rparr>)"

definition cell :: "('f, 'd) fp \<Rightarrow> 'f branch \<Rightarrow> int \<Rightarrow> int \<Rightarrow> int \<Rightarrow> int \<Rightarrow> 8 word \<Rightarrow> 8 word \<Rightarrow> int \<times> int \<Rightarrow> 'f found \<Rightarrow> 'f found option" where
  "cell F br dfl_len grid_h grid_w stride thres sum_thres ij found = do {
     let (i, j) = ij;
     let grid_len = grid_h * grid_w;
     let offset = i * grid_w + j;
     filtered \<leftarrow> (case t_score_sum br of None \<Rightarrow> Some False
                  | Some sums \<Rightarrow> do { s \<leftarrow> elem sums offset; Some (sint s < sint sum_thres) });
     if filtered then Some found
     else do {
       best \<leftarrow> class_loop (t_score br) grid_len thres [0..int OBJ_CLASS_NUM - 1] offset (word_of_int (- score_zp br), - 1);
       if sint thres < sint (fst best) then
         if dfl_len < 0 then None
         else do {
           before_dfl \<leftarrow> read_dfl F br grid_len (nat (dfl_len * 4)) offset;
           Some (push_box F br (compute_dfl F before_dfl (nat dfl_len)) i j stride best found)
         }
       else Some found
     }
   }"

fun cells_loop :: "('f, 'd) fp \<Rightarrow> 'f branch \<Rightarrow> int \<Rightarrow> int \<Rightarrow> int \<Rightarrow> int \<Rightarrow> 8 word \<Rightarrow> 8 word \<Rightarrow> (int \<times> int) list \<Rightarrow> 'f found \<Rightarrow> 'f found option" where
  "cells_loop F br dfl_len grid_h grid_w stride thres sum_thres [] found = Some found"
| "cells_loop F br dfl_len grid_h grid_w stride thres sum_thres (ij # cells) found = do {
     found \<leftarrow> cell F br dfl_len grid_h grid_w stride thres sum_thres ij found;
     cells_loop F br dfl_len grid_h grid_w stride thres sum_thres cells found
   }"

text \<open>The grid row by row; the result is how many boxes were pushed.\<close>

definition grid_cells :: "int \<Rightarrow> int \<Rightarrow> (int \<times> int) list" where
  "grid_cells grid_h grid_w = List.concat (List.map (\<lambda>i. List.map (\<lambda>j. (i, j)) [0..grid_w - 1]) [0..grid_h - 1])"

definition process_v2_i8 :: "('f :: linorder, 'd) fp \<Rightarrow> 'f branch \<Rightarrow> int \<Rightarrow> int \<Rightarrow> int \<Rightarrow> int \<Rightarrow> 'f found \<Rightarrow> 'f \<Rightarrow> (int \<times> 'f found) option" where
  "process_v2_i8 F br dfl_len grid_h grid_w stride found threshold = do {
     thres \<leftarrow> qnt_f32_to_affine F threshold (score_zp br) (score_scale br);
     sum_thres \<leftarrow> qnt_f32_to_affine F threshold (sum_zp br) (sum_scale br);
     found' \<leftarrow> cells_loop F br dfl_len grid_h grid_w stride thres sum_thres (grid_cells grid_h grid_w) found;
     Some (int (length (fo_scores found')) - int (length (fo_scores found)), found')
   }"

section \<open>The results of a frame\<close>

record BOX_RECT =
  bx_left :: int
  bx_right :: int
  bx_top :: int
  bx_bottom :: int

record 'f detect_result =
  dr_name :: string
  dr_class_index :: int
  dr_box :: BOX_RECT
  dr_prop :: 'f

record 'f detect_result_group =
  group_id :: int
  group_count :: int
  group_results :: "'f detect_result list"

text \<open>What the code reads of \<open>rknn_tensor_attr\<close> and \<open>MODEL_INFO\<close>; a dimension is 32 bits and unsigned.\<close>

record 'f tensor_attr =
  at_dims :: "nat list"
  at_zp :: int
  at_scale :: 'f

record 'f MODEL_INFO =
  n_output :: int
  in_attr :: "'f tensor_attr list"
  out_attr :: "'f tensor_attr list"

text \<open>The static variables of \<open>yolo.cc\<close>.\<close>

record yolo_statics =
  st_init :: int
  st_labels :: "string option list"

definition yolo_start :: yolo_statics where
  "yolo_start = \<lparr>st_init = - 1, st_labels = replicate OBJ_CLASS_NUM None\<rparr>"

definition zero_result :: "('f, 'd) fp \<Rightarrow> 'f detect_result" where
  "zero_result F = \<lparr>dr_name = replicate OBJ_NAME_MAX_SIZE (CHR 0x00), dr_class_index = 0,
     dr_box = \<lparr>bx_left = 0, bx_right = 0, bx_top = 0, bx_bottom = 0\<rparr>, dr_prop = f_of F 0\<rparr>"

definition zero_group :: "('f, 'd) fp \<Rightarrow> 'f detect_result_group" where
  "zero_group F = \<lparr>group_id = 0, group_count = 0, group_results = replicate OBJ_NUMB_MAX_SIZE (zero_result F)\<rparr>"

text \<open>\<open>strncpy\<close> of at most \<open>n\<close> characters, the rest NUL.\<close>

definition strncpy_field :: "nat \<Rightarrow> string \<Rightarrow> string" where
  "strncpy_field n s = take n (takeWhile (\<lambda>c. c \<noteq> CHR 0x00) s @ replicate n (CHR 0x00))"

text \<open>A box becomes result \<open>last_count\<close>; \<open>labels[-1]\<close> and a label that is NULL are \<^const>\<open>None\<close>.\<close>

definition fill_result :: "('f, 'd) fp \<Rightarrow> 'f found \<Rightarrow> string option list \<Rightarrow> int \<Rightarrow> 'f \<Rightarrow> 'f detect_result option" where
  "fill_result F found lbls n score = do {
     (x1, y1, x2, y2) \<leftarrow> corners F (fo_boxes found) n;
     c \<leftarrow> elem (fo_classes found) n;
     l \<leftarrow> f_int F x1;
     t \<leftarrow> f_int F y1;
     r \<leftarrow> f_int F x2;
     b \<leftarrow> f_int F y2;
     slot \<leftarrow> elem lbls c;
     label \<leftarrow> slot;
     Some \<lparr>dr_name = strncpy_field OBJ_NAME_MAX_SIZE label, dr_class_index = c,
           dr_box = \<lparr>bx_left = l, bx_right = r, bx_top = t, bx_bottom = b\<rparr>, dr_prop = score\<rparr>
   }"

fun results_loop :: "('f, 'd :: linorder) fp \<Rightarrow> 'f found \<Rightarrow> string option list \<Rightarrow> int list \<Rightarrow> int list \<Rightarrow> int \<Rightarrow> 'f detect_result_group \<Rightarrow> (int \<times> 'f detect_result_group) option" where
  "results_loop F found lbls indexArray [] last_count grp = Some (last_count, grp)"
| "results_loop F found lbls indexArray (i # is) last_count grp = do {
     n \<leftarrow> elem indexArray i;
     score \<leftarrow> elem (fo_scores found) i;
     if n = - 1 \<or> widen F score < CONF_THRESHOLD F \<or> int OBJ_NUMB_MAX_SIZE \<le> last_count
     then results_loop F found lbls indexArray is last_count grp
     else do {
       r \<leftarrow> fill_result F found lbls n score;
       rs \<leftarrow> put (group_results grp) last_count r;
       results_loop F found lbls indexArray is (last_count + 1) (grp\<lparr>group_results := rs\<rparr>)
     }
   }"

text \<open>
  One of the three branches: its attributes and tensors by index, a third tensor of score sums when
  there are nine outputs, the stride from the height of the input. A division by zero is \<^const>\<open>None\<close>.
\<close>

definition branch_of :: "('f, 'd) fp \<Rightarrow> 8 word list list \<Rightarrow> 'f MODEL_INFO \<Rightarrow> int \<Rightarrow> int \<Rightarrow> ('f branch \<times> 'f tensor_attr) option" where
  "branch_of F rk_outputs m_info output_per_branch i = do {
     (score_sum, s_zp, s_scale) \<leftarrow>
       (if output_per_branch = 3 then do {
          data \<leftarrow> elem rk_outputs (i * output_per_branch + 2);
          a \<leftarrow> elem (out_attr m_info) (i * output_per_branch + 2);
          Some (Some data, at_zp a, at_scale a)
        }
        else Some (None, 0, f_of F 0));
     let box_idx = i * output_per_branch;
     let score_idx = i * output_per_branch + 1;
     a_box \<leftarrow> elem (out_attr m_info) box_idx;
     d_box \<leftarrow> elem rk_outputs box_idx;
     a_score \<leftarrow> elem (out_attr m_info) score_idx;
     d_score \<leftarrow> elem rk_outputs score_idx;
     Some (\<lparr>t_box = d_box, box_zp = at_zp a_box, box_scale = at_scale a_box,
            t_score = d_score, score_zp = at_zp a_score, score_scale = at_scale a_score,
            t_score_sum = score_sum, sum_zp = s_zp, sum_scale = s_scale\<rparr>, a_box)
   }"

definition outputs_per_branch :: "'f MODEL_INFO \<Rightarrow> int" where
  "outputs_per_branch m_info = (if n_output m_info < 0 then - (- n_output m_info div 3) else n_output m_info div 3)"

fun branches_loop :: "('f :: linorder, 'd) fp \<Rightarrow> 8 word list list \<Rightarrow> 'f MODEL_INFO \<Rightarrow> int \<Rightarrow> 'f \<Rightarrow> int list \<Rightarrow> int \<times> 'f found \<Rightarrow> (int \<times> 'f found) option" where
  "branches_loop F rk_outputs m_info dfl_len threshold [] acc = Some acc"
| "branches_loop F rk_outputs m_info dfl_len threshold (i # is) acc = do {
     (br, a) \<leftarrow> branch_of F rk_outputs m_info (outputs_per_branch m_info) i;
     h \<leftarrow> elem (at_dims a) 2;
     w \<leftarrow> elem (at_dims a) 3;
     input \<leftarrow> elem (in_attr m_info) 0;
     height \<leftarrow> elem (at_dims input) 1;
     if h = 0 then None
     else do {
       (n, found) \<leftarrow> process_v2_i8 F br dfl_len (s32_of_int (int h)) (s32_of_int (int w)) (s32_of_int (int (height div h))) (snd acc) threshold;
       branches_loop F rk_outputs m_info dfl_len threshold is (fst acc + n, found)
     }
   }"

text \<open>
  The labels are loaded by the first call; then the boxes of the three branches, the sort by score,
  the suppression class by class, and the results.
\<close>

definition load_labels :: "string option \<Rightarrow> yolo_statics \<Rightarrow> heap \<Rightarrow> (int \<times> yolo_statics \<times> heap) option" where
  "load_labels file st hp =
     (if st_init st = - 1 then do {
        (ret, lbls, hp) \<leftarrow> loadLabelName file (st_labels st) hp;
        Some (if ret < 0 then (- 1, st\<lparr>st_labels := lbls\<rparr>, hp) else (0, st\<lparr>st_init := 0, st_labels := lbls\<rparr>, hp))
      }
      else Some (0, st, hp))"

definition group_of_found :: "('f :: linorder, 'd :: linorder) fp \<Rightarrow> 'f found \<Rightarrow> int \<Rightarrow> string option list \<Rightarrow> 'f detect_result_group option" where
  "group_of_found F found validCount lbls = do {
     let indexArray = List.map int [0..<nat validCount];
     ((scores, indexArray), _) \<leftarrow> quick_sort_indice_inverse (fo_scores found, indexArray) 0 (validCount - 1);
     let found = found\<lparr>fo_scores := scores\<rparr>;
     indexArray \<leftarrow> nms_classes F validCount (fo_boxes found) (fo_classes found) (class_set (fo_classes found)) indexArray;
     (last_count, grp) \<leftarrow> results_loop F found lbls indexArray [0..validCount - 1] 0 (zero_group F);
     Some (grp\<lparr>group_count := last_count\<rparr>)
   }"

definition post_process :: "('f :: linorder, 'd :: linorder) fp \<Rightarrow> string option \<Rightarrow> 8 word list list \<Rightarrow> 'f MODEL_INFO \<Rightarrow> int \<Rightarrow>
    'f detect_result_group \<Rightarrow> yolo_statics \<Rightarrow> heap \<Rightarrow> (int \<times> 'f detect_result_group \<times> yolo_statics \<times> heap) option" where
  "post_process F file rk_outputs m_info dfl_len grp st hp = do {
     (ret, st, hp) \<leftarrow> load_labels file st hp;
     if ret < 0 then Some (- 1, grp, st, hp)
     else do {
       (validCount, found) \<leftarrow> branches_loop F rk_outputs m_info dfl_len (narrow F (CONF_THRESHOLD F)) [0, 1, 2]
         (0, \<lparr>fo_boxes = [], fo_scores = [], fo_classes = []\<rparr>);
       if validCount \<le> 0 then Some (0, zero_group F, st, hp)
       else do {
         grp \<leftarrow> group_of_found F found validCount (st_labels st);
         Some (0, grp, st, hp)
       }
     }
   }"


section \<open>What suppression leaves\<close>

text \<open>
  The entries of \<open>order\<close> from position \<open>i\<close> on that a surviving earlier one is related to are gone, the
  others stay.
\<close>

definition thinned :: "(int \<Rightarrow> int \<Rightarrow> bool) \<Rightarrow> int \<Rightarrow> int list \<Rightarrow> int list \<Rightarrow> bool" where
  "thinned R i order order' \<longleftrightarrow> length order' = length order \<and>
     (\<forall>p < length order. order' ! p =
        (if order ! p \<noteq> - 1 \<and> (\<exists>k < p. i \<le> int k \<and> order' ! k \<noteq> - 1 \<and> R (order ! k) (order ! p)) then - 1 else order ! p))"

lemma thinned_nth:
  "thinned R i order order' \<Longrightarrow> p < length order \<Longrightarrow> order' ! p =
     (if order ! p \<noteq> - 1 \<and> (\<exists>k < p. i \<le> int k \<and> order' ! k \<noteq> - 1 \<and> R (order ! k) (order ! p)) then - 1 else order ! p)"
  by (simp add: thinned_def)

lemma thinned_keeps: "thinned R i order order' \<Longrightarrow> p < length order \<Longrightarrow> order' ! p \<noteq> - 1 \<Longrightarrow> order' ! p = order ! p"
  using thinned_nth [of R i order order' p] by presburger

lemma thinned_length: "thinned R i order order' \<Longrightarrow> length order' = length order"
  by (simp add: thinned_def)

lemma thinned_beyond: "int (length order) \<le> i \<Longrightarrow> thinned R i order order"
  by (auto simp: thinned_def)

lemma thinned_set: "thinned R i order order' \<Longrightarrow> set order' \<subseteq> insert (- 1) (set order)"
  by (auto simp: in_set_conv_nth thinned_length) (metis nth_mem thinned_keeps)

text \<open>A turn of the outer loop, then the turns that follow.\<close>

definition swept :: "(int \<Rightarrow> int \<Rightarrow> bool) \<Rightarrow> int \<Rightarrow> int list \<Rightarrow> int list \<Rightarrow> bool" where
  "swept R i order order' \<longleftrightarrow> length order' = length order \<and>
     (\<forall>p < length order. order' ! p =
        (if i < int p \<and> order ! nat i \<noteq> - 1 \<and> order ! p \<noteq> - 1 \<and> R (order ! nat i) (order ! p) then - 1 else order ! p))"

lemma swept_thinned:
  assumes "swept R i order order1" "thinned R (i + 1) order1 order'" "0 \<le> i" "i < int (length order)"
  shows "thinned R i order order'"
  unfolding thinned_def
proof (intro conjI allI impI)
  show len: "length order' = length order" using assms(1,2) by (simp add: swept_def thinned_def)
  have len1: "length order1 = length order" using assms(1) by (simp add: swept_def)
  have sw: "order1 ! p = (if i < int p \<and> order ! nat i \<noteq> - 1 \<and> order ! p \<noteq> - 1 \<and> R (order ! nat i) (order ! p) then - 1 else order ! p)"
    if "p < length order" for p using assms(1) that by (simp add: swept_def)
  have th: "order' ! p = (if order1 ! p \<noteq> - 1 \<and> (\<exists>k < p. i + 1 \<le> int k \<and> order' ! k \<noteq> - 1 \<and> R (order1 ! k) (order1 ! p)) then - 1 else order1 ! p)"
    if "p < length order" for p using thinned_nth [OF assms(2)] that len1 by simp
  have kept: "order1 ! k = order ! k" if "k < length order" "order' ! k \<noteq> - 1" for k
    using th [OF that(1)] sw [OF that(1)] that(2) by presburger
  have at_i: "order' ! nat i = order ! nat i"
  proof -
    have "\<not> (\<exists>k < nat i. i + 1 \<le> int k \<and> order' ! k \<noteq> - 1 \<and> R (order1 ! k) (order1 ! nat i))" by auto
    then have "order' ! nat i = order1 ! nat i" using th [of "nat i"] assms(3,4) by auto
    then show ?thesis using sw [of "nat i"] assms(3,4) by simp
  qed
  fix p assume p: "p < length order"
  show "order' ! p = (if order ! p \<noteq> - 1 \<and> (\<exists>k < p. i \<le> int k \<and> order' ! k \<noteq> - 1 \<and> R (order ! k) (order ! p)) then - 1 else order ! p)"
  proof (cases "order1 ! p = order ! p")
    case False
    then have c: "i < int p" "order ! nat i \<noteq> - 1" "order ! p \<noteq> - 1" "R (order ! nat i) (order ! p)" "order1 ! p = - 1"
      using sw [OF p] by presburger+
    have "nat i < p \<and> i \<le> int (nat i) \<and> order' ! nat i \<noteq> - 1 \<and> R (order ! nat i) (order ! p)" using c at_i assms(3) by auto
    then have "\<exists>k < p. i \<le> int k \<and> order' ! k \<noteq> - 1 \<and> R (order ! k) (order ! p)" by blast
    moreover have "order' ! p = - 1" using th [OF p] c(5) by simp
    ultimately show ?thesis using c(3) by simp
  next
    case True
    have "(\<exists>k < p. i + 1 \<le> int k \<and> order' ! k \<noteq> - 1 \<and> R (order1 ! k) (order1 ! p)) =
      (\<exists>k < p. i \<le> int k \<and> order' ! k \<noteq> - 1 \<and> R (order ! k) (order ! p))" if "order ! p \<noteq> - 1"
    proof
      assume "\<exists>k < p. i + 1 \<le> int k \<and> order' ! k \<noteq> - 1 \<and> R (order1 ! k) (order1 ! p)"
      then show "\<exists>k < p. i \<le> int k \<and> order' ! k \<noteq> - 1 \<and> R (order ! k) (order ! p)" using kept p True by force
    next
      assume "\<exists>k < p. i \<le> int k \<and> order' ! k \<noteq> - 1 \<and> R (order ! k) (order ! p)"
      then obtain k where k: "k < p" "i \<le> int k" "order' ! k \<noteq> - 1" "R (order ! k) (order ! p)" by blast
      have "int k \<noteq> i"
      proof
        assume "int k = i"
        then have "order1 ! p = - 1" using sw [OF p] k at_i that by auto
        then show False using True that by simp
      qed
      then show "\<exists>k < p. i + 1 \<le> int k \<and> order' ! k \<noteq> - 1 \<and> R (order1 ! k) (order1 ! p)" using k kept p True by force
    qed
    then show ?thesis using th [OF p] True by (cases "order ! p = - 1") auto
  qed
qed

text \<open>Suppression for one set of classes after that for another.\<close>

definition within :: "(int \<Rightarrow> int) \<Rightarrow> (int \<Rightarrow> int \<Rightarrow> bool) \<Rightarrow> int set \<Rightarrow> int \<Rightarrow> int \<Rightarrow> bool" where
  "within cls R C x y \<longleftrightarrow> cls x \<in> C \<and> cls y = cls x \<and> R x y"

lemma thinned_classes:
  assumes "thinned (within cls R C) 0 order order1" "thinned (within cls R D) 0 order1 order2" "C \<inter> D = {}"
  shows "thinned (within cls R (C \<union> D)) 0 order order2"
  unfolding thinned_def
proof (intro conjI allI impI)
  show "length order2 = length order" using assms by (simp add: thinned_def)
  have len1: "length order1 = length order" using assms(1) by (simp add: thinned_def)
  fix p assume p: "p < length order"
  let ?gone = "\<lambda>C o1 o2 p. \<exists>k < p. 0 \<le> int k \<and> o2 ! k \<noteq> - 1 \<and> within cls R C (o1 ! k) (o1 ! p)"
  have t1: "order1 ! q = (if order ! q \<noteq> - 1 \<and> ?gone C order order1 q then - 1 else order ! q)" if "q < length order" for q
    by (rule thinned_nth [OF assms(1) that])
  have t2: "order2 ! q = (if order1 ! q \<noteq> - 1 \<and> ?gone D order1 order2 q then - 1 else order1 ! q)" if "q < length order" for q
    using thinned_nth [OF assms(2)] that len1 by simp
  have same_C: "order2 ! q = order1 ! q" if "q < length order" "cls (order ! q) \<in> C" for q
    using t1 [OF that(1)] t2 [OF that(1)] that(2) assms(3) by (auto simp: within_def)
  have same_D: "order1 ! q = order ! q" if "q < length order" "cls (order ! q) \<notin> C" for q
    using t1 [OF that(1)] that(2) by (auto simp: within_def)
  consider (c) "cls (order ! p) \<in> C" | (d) "cls (order ! p) \<notin> C" by blast
  then show "order2 ! p = (if order ! p \<noteq> - 1 \<and> ?gone (C \<union> D) order order2 p then - 1 else order ! p)"
  proof cases
    case c
    have "(order1 ! k \<noteq> - 1 \<and> within cls R C (order ! k) (order ! p)) = (order2 ! k \<noteq> - 1 \<and> within cls R (C \<union> D) (order ! k) (order ! p))" if "k < p" for k
    proof (cases "cls (order ! k) = cls (order ! p)")
      case True
      then have "order2 ! k = order1 ! k" using same_C [of k] that p c by simp
      then show ?thesis using c True by (simp add: within_def)
    qed (simp add: within_def)
    then have "?gone C order order1 p = ?gone (C \<union> D) order order2 p" by (simp cong: conj_cong)
    then show ?thesis using t1 [OF p] same_C [OF p c] by simp
  next
    case d
    have "within cls R D (order1 ! k) (order1 ! p) = within cls R (C \<union> D) (order ! k) (order ! p)" if "k < p" "order2 ! k \<noteq> - 1" for k
    proof -
      have "order1 ! k = order ! k" proof -
        have k: "k < length order" using that(1) p by simp
        have "order1 ! k \<noteq> - 1" using t2 [OF k] that(2) by presburger
        then show ?thesis using t1 [OF k] by presburger
      qed
      then show ?thesis using d same_D [OF p d] by (auto simp: within_def)
    qed
    then have "?gone D order1 order2 p = ?gone (C \<union> D) order order2 p" by blast
    then show ?thesis using t2 [OF p] same_D [OF p d] by simp
  qed
qed


definition too_close :: "('f :: linorder, 'd :: linorder) fp \<Rightarrow> 'f list \<Rightarrow> 'f \<Rightarrow> int \<Rightarrow> int \<Rightarrow> bool" where
  "too_close F boxes threshold n m = (case overlap F boxes n m of Some iou \<Rightarrow> threshold < iou | None \<Rightarrow> False)"

text \<open>The vectors of \<open>n\<close> boxes, and indices of them.\<close>

definition boxes_ok :: "int \<Rightarrow> 'f list \<Rightarrow> int list \<Rightarrow> bool" where
  "boxes_ok n boxes classIds \<longleftrightarrow> int (length classIds) = n \<and> int (length boxes) = 4 * n"

definition indices_ok :: "int \<Rightarrow> int list \<Rightarrow> bool" where
  "indices_ok n order \<longleftrightarrow> (\<forall>x \<in> set order. x = - 1 \<or> 0 \<le> x \<and> x < n)"

lemma indices_ok_nth: "indices_ok n order \<Longrightarrow> p < length order \<Longrightarrow> order ! p \<noteq> - 1 \<Longrightarrow> 0 \<le> order ! p \<and> order ! p < n"
  by (auto simp: indices_ok_def)

lemma indices_ok_put: "indices_ok n order \<Longrightarrow> indices_ok n (order[j := - 1])"
  unfolding indices_ok_def using set_update_subset_insert by fast

lemma overlap_total: "boxes_ok k boxes classIds \<Longrightarrow> 0 \<le> n \<Longrightarrow> n < k \<Longrightarrow> 0 \<le> m \<Longrightarrow> m < k \<Longrightarrow> \<exists>iou. overlap F boxes n m = Some iou"
  by (simp add: overlap_def corners_def elem_def boxes_ok_def nat_less_iff)

lemma nms_inner_ok:
  "boxes_ok k boxes classIds \<Longrightarrow> 0 \<le> n \<Longrightarrow> n < k \<Longrightarrow> indices_ok k order \<Longrightarrow> \<forall>j \<in> set js. 0 \<le> j \<and> j < int (length order) \<Longrightarrow>
   \<exists>order'. nms_inner F boxes classIds c threshold n js order = Some order' \<and> length order' = length order \<and>
     (\<forall>p < length order. order' ! p = (if int p \<in> set js \<and> order ! p \<noteq> - 1 \<and> classIds ! nat (order ! p) = c \<and>
        too_close F boxes threshold n (order ! p) then - 1 else order ! p))"
proof (induction js arbitrary: order)
  case (Cons j js)
  let ?m = "order ! nat j"
  have j: "0 \<le> j" "nat j < length order" using Cons.prems(5) by auto
  have m: "elem order j = Some ?m" using j by (simp add: elem_in)
  define order1 where "order1 = (if ?m \<noteq> - 1 \<and> classIds ! nat ?m = c \<and> too_close F boxes threshold n ?m then order[nat j := - 1] else order)"
  have o1: "length order1 = length order" "indices_ok k order1" using Cons.prems(4) by (auto simp: order1_def indices_ok_put)
  have e: "nms_inner F boxes classIds c threshold n (j # js) order = nms_inner F boxes classIds c threshold n js order1"
  proof (cases "?m = - 1")
    case True
    then show ?thesis using m by (simp add: order1_def)
  next
    case False
    then have r: "0 \<le> ?m" "?m < k" using indices_ok_nth [OF Cons.prems(4) j(2)] by auto
    then have cl: "elem classIds ?m = Some (classIds ! nat ?m)" using Cons.prems(1) by (simp add: elem_def boxes_ok_def nat_less_iff)
    obtain iou where "overlap F boxes n ?m = Some iou" using overlap_total [OF Cons.prems(1-3) r] by blast
    then show ?thesis using m cl False j by (simp add: order1_def too_close_def put_def)
  qed
  obtain order' where o': "nms_inner F boxes classIds c threshold n js order1 = Some order'" "length order' = length order"
    "\<forall>p < length order. order' ! p = (if int p \<in> set js \<and> order1 ! p \<noteq> - 1 \<and> classIds ! nat (order1 ! p) = c \<and>
        too_close F boxes threshold n (order1 ! p) then - 1 else order1 ! p)"
    using Cons.IH [OF Cons.prems(1-3) o1(2)] Cons.prems(5) o1(1) by auto
  have "order' ! p = (if int p \<in> set (j # js) \<and> order ! p \<noteq> - 1 \<and> classIds ! nat (order ! p) = c \<and>
        too_close F boxes threshold n (order ! p) then - 1 else order ! p)" if p: "p < length order" for p
  proof (cases "p = nat j")
    case True
    then show ?thesis using o'(3) [rule_format, OF p] j by (auto simp: order1_def)
  next
    case False
    then have "order1 ! p = order ! p" "int p \<noteq> j" by (auto simp: order1_def)
    then show ?thesis using o'(3) [rule_format, OF p] by simp
  qed
  then show ?case unfolding e using o'(1,2) by blast
qed simp

lemma swept_indices: "swept R i order order1 \<Longrightarrow> indices_ok n order \<Longrightarrow> indices_ok n order1"
  unfolding indices_ok_def swept_def by (auto simp: in_set_conv_nth) (metis nth_mem)+

lemma nms_outer_ok:
  "boxes_ok k boxes classIds \<Longrightarrow> indices_ok k order \<Longrightarrow> int (length order) = vc \<Longrightarrow> 0 \<le> i \<Longrightarrow>
   \<exists>order'. nms_outer F vc boxes classIds c threshold [i..vc - 1] order = Some order' \<and>
     thinned (within (\<lambda>x. classIds ! nat x) (too_close F boxes threshold) {c}) i order order'"
proof (induction "nat (vc - i)" arbitrary: i order)
  case 0
  then show ?case by (auto simp: thinned_beyond)
next
  case (Suc d)
  let ?R = "within (\<lambda>x. classIds ! nat x) (too_close F boxes threshold) {c}"
  have i: "i < vc" "nat i < length order" "[i..vc - 1] = i # [i + 1..vc - 1]" using Suc by (auto simp: upto_rec1)
  let ?n = "order ! nat i"
  have n: "elem order i = Some ?n" using i Suc.prems(4) by (simp add: elem_in)
  obtain order1 where o1: "swept ?R i order order1"
    "nms_outer F vc boxes classIds c threshold [i..vc - 1] order = nms_outer F vc boxes classIds c threshold [i + 1..vc - 1] order1"
  proof (cases "?n \<noteq> - 1 \<and> classIds ! nat ?n = c")
    case False
    then have "swept ?R i order order" by (auto simp: swept_def within_def)
    moreover have "elem classIds ?n = Some (classIds ! nat ?n)" if "?n \<noteq> - 1"
      using indices_ok_nth [OF Suc.prems(2) i(2) that] Suc.prems(1) by (simp add: elem_def boxes_ok_def nat_less_iff)
    then have "nms_outer F vc boxes classIds c threshold [i..vc - 1] order = nms_outer F vc boxes classIds c threshold [i + 1..vc - 1] order"
      using n False unfolding i(3) by auto
    ultimately show thesis by (rule that)
  next
    case True
    have r: "0 \<le> ?n" "?n < k" using indices_ok_nth [OF Suc.prems(2) i(2)] True by auto
    then have cl: "elem classIds ?n = Some c" using True Suc.prems(1) by (simp add: elem_def boxes_ok_def nat_less_iff)
    obtain order1 where o1: "nms_inner F boxes classIds c threshold ?n [i + 1..vc - 1] order = Some order1" "length order1 = length order"
      "\<forall>p < length order. order1 ! p = (if int p \<in> set [i + 1..vc - 1] \<and> order ! p \<noteq> - 1 \<and> classIds ! nat (order ! p) = c \<and>
         too_close F boxes threshold ?n (order ! p) then - 1 else order ! p)"
      using nms_inner_ok [OF Suc.prems(1) r Suc.prems(2), of "[i + 1..vc - 1]" F c threshold] Suc.prems(3,4) by auto
    have "swept ?R i order order1" using o1(2,3) True Suc.prems(3) by (auto simp: swept_def within_def)
    moreover have "nms_outer F vc boxes classIds c threshold [i..vc - 1] order = nms_outer F vc boxes classIds c threshold [i + 1..vc - 1] order1"
      using n cl True o1(1) unfolding i(3) by simp
    ultimately show thesis by (rule that)
  qed
  have l1: "length order1 = length order" using o1(1) by (simp add: swept_def)
  have d: "d = nat (vc - (i + 1))" using Suc.hyps(2) i(1) by linarith
  obtain order' where "nms_outer F vc boxes classIds c threshold [i + 1..vc - 1] order1 = Some order'" "thinned ?R (i + 1) order1 order'"
    using Suc.hyps(1) [OF d Suc.prems(1) swept_indices [OF o1(1) Suc.prems(2)]] Suc.prems(3,4) l1 by auto
  then show ?case using o1(2) swept_thinned [OF o1(1)] Suc.prems(3,4) i(1) by auto
qed

lemma thinned_indices: "thinned R i order order' \<Longrightarrow> indices_ok n order \<Longrightarrow> indices_ok n order'"
  using thinned_set [of R i order order'] by (auto simp: indices_ok_def)

lemma nms_ok:
  "boxes_ok k boxes classIds \<Longrightarrow> indices_ok k order \<Longrightarrow> int (length order) = vc \<Longrightarrow>
   \<exists>order'. nms F vc boxes classIds order c threshold = Some order' \<and>
     thinned (within (\<lambda>x. classIds ! nat x) (too_close F boxes threshold) {c}) 0 order order'"
  unfolding nms_def by (rule nms_outer_ok) auto

lemma nms_classes_ok:
  "boxes_ok k boxes classIds \<Longrightarrow> indices_ok k order1 \<Longrightarrow> int (length order1) = vc \<Longrightarrow> distinct cs \<Longrightarrow> C \<inter> set cs = {} \<Longrightarrow>
   thinned (within (\<lambda>x. classIds ! nat x) (too_close F boxes (narrow F (NMS_THRESHOLD F))) C) 0 order order1 \<Longrightarrow>
   \<exists>order'. nms_classes F vc boxes classIds cs order1 = Some order' \<and>
     thinned (within (\<lambda>x. classIds ! nat x) (too_close F boxes (narrow F (NMS_THRESHOLD F))) (C \<union> set cs)) 0 order order'"
proof (induction cs arbitrary: C order1)
  case (Cons c cs)
  let ?R = "\<lambda>C. within (\<lambda>x. classIds ! nat x) (too_close F boxes (narrow F (NMS_THRESHOLD F))) C"
  obtain order2 where o2: "nms F vc boxes classIds order1 c (narrow F (NMS_THRESHOLD F)) = Some order2" "thinned (?R {c}) 0 order1 order2"
    using nms_ok [OF Cons.prems(1-3)] by blast
  have t: "thinned (?R (C \<union> {c})) 0 order order2" using thinned_classes [OF Cons.prems(6) o2(2)] Cons.prems(5) by simp
  show ?case using Cons.IH [OF Cons.prems(1) thinned_indices [OF o2(2) Cons.prems(2)] _ _ _ t] Cons.prems(3-5) thinned_length [OF o2(2)] o2(1) by auto
qed simp

lemma thinned_rel:
  assumes "thinned R i order order'" "\<And>k y. k < length order \<Longrightarrow> R (order ! k) y = S (order ! k) y"
  shows "thinned S i order order'"
  unfolding thinned_def
proof (intro conjI allI impI)
  show "length order' = length order" by (rule thinned_length [OF assms(1)])
  fix p assume p: "p < length order"
  have "(\<exists>k < p. i \<le> int k \<and> order' ! k \<noteq> - 1 \<and> S (order ! k) (order ! p)) = (\<exists>k < p. i \<le> int k \<and> order' ! k \<noteq> - 1 \<and> R (order ! k) (order ! p))"
    using assms(2) p by (meson less_trans)
  then show "order' ! p = (if order ! p \<noteq> - 1 \<and> (\<exists>k < p. i \<le> int k \<and> order' ! k \<noteq> - 1 \<and> S (order ! k) (order ! p)) then - 1 else order ! p)"
    using thinned_nth [OF assms(1) p] by presburger
qed

text \<open>Suppression of a frame: an entry is gone exactly when it overlaps an earlier one of its class that stayed.\<close>

definition same_class_close :: "('f :: linorder, 'd :: linorder) fp \<Rightarrow> 'f found \<Rightarrow> int \<Rightarrow> int \<Rightarrow> bool" where
  "same_class_close F found n m \<longleftrightarrow> fo_classes found ! nat m = fo_classes found ! nat n \<and>
     too_close F (fo_boxes found) (narrow F (NMS_THRESHOLD F)) n m"

lemma suppression_spec:
  assumes "boxes_ok k (fo_boxes found) (fo_classes found)" "\<forall>x \<in> set order. 0 \<le> x \<and> x < k" "int (length order) = vc"
  shows "\<exists>order'. nms_classes F vc (fo_boxes found) (fo_classes found) (class_set (fo_classes found)) order = Some order' \<and>
    thinned (same_class_close F found) 0 order order'"
proof -
  let ?R = "within (\<lambda>x. fo_classes found ! nat x) (too_close F (fo_boxes found) (narrow F (NMS_THRESHOLD F)))"
  have "indices_ok k order" using assms(2) by (auto simp: indices_ok_def)
  moreover have "thinned (?R {}) 0 order order" by (simp add: thinned_def within_def)
  ultimately obtain order' where o: "nms_classes F vc (fo_boxes found) (fo_classes found) (class_set (fo_classes found)) order = Some order'"
    "thinned (?R (set (fo_classes found))) 0 order order'"
    using nms_classes_ok [OF assms(1) _ assms(3), of "class_set (fo_classes found)" "{}" F order] by (auto simp: class_set_def)
  have "?R (set (fo_classes found)) (order ! i) y = same_class_close F found (order ! i) y" if "i < length order" for i y
  proof -
    have "0 \<le> order ! i" "order ! i < int (length (fo_classes found))" using assms(1,2) that by (auto simp: boxes_ok_def)
    then have "fo_classes found ! nat (order ! i) \<in> set (fo_classes found)" by (simp add: nat_less_iff)
    then show ?thesis by (simp add: within_def same_class_close_def)
  qed
  then have "thinned (same_class_close F found) 0 order order'" by (rule thinned_rel [OF o(2)])
  then show ?thesis using o(1) by blast
qed


section \<open>The results\<close>

definition reported :: "('f, 'd :: linorder) fp \<Rightarrow> int list \<Rightarrow> 'f list \<Rightarrow> int \<Rightarrow> bool" where
  "reported F order scores i \<longleftrightarrow> order ! nat i \<noteq> - 1 \<and> CONF_THRESHOLD F \<le> widen F (scores ! nat i)"

lemma take_put: "n < length xs \<Longrightarrow> take (Suc n) (xs[n := x]) = take n xs @ [x]"
  by (simp add: take_Suc_conv_app_nth)

lemma results_loop_ok:
  "\<forall>i \<in> set is. 0 \<le> i \<and> i < int (length order) \<Longrightarrow> length (fo_scores found) = length order \<Longrightarrow>
   \<forall>i \<in> set is. reported F order (fo_scores found) i \<longrightarrow> fill_result F found lbls (order ! nat i) (fo_scores found ! nat i) = Some (res i) \<Longrightarrow>
   0 \<le> lc \<Longrightarrow> lc \<le> int OBJ_NUMB_MAX_SIZE \<Longrightarrow> length (group_results grp) = OBJ_NUMB_MAX_SIZE \<Longrightarrow>
   ks = take (OBJ_NUMB_MAX_SIZE - nat lc) (filter (reported F order (fo_scores found)) is) \<Longrightarrow>
   results_loop F found lbls order is lc grp = Some (lc + int (length ks),
     grp\<lparr>group_results := take (nat lc) (group_results grp) @ List.map res ks @ drop (nat lc + length ks) (group_results grp)\<rparr>)"
proof (induction "is" arbitrary: lc grp ks)
  case (Cons i "is")
  have i: "0 \<le> i" "nat i < length order" using Cons.prems(1) by auto
  have e: "elem order i = Some (order ! nat i)" "elem (fo_scores found) i = Some (fo_scores found ! nat i)"
    using i Cons.prems(2) by (auto simp: elem_in)
  show ?case
  proof (cases "reported F order (fo_scores found) i \<and> lc < int OBJ_NUMB_MAX_SIZE")
    case False
    then have s: "results_loop F found lbls order (i # is) lc grp = results_loop F found lbls order is lc grp"
      using e by (auto simp: reported_def not_le)
    have "ks = take (OBJ_NUMB_MAX_SIZE - nat lc) (filter (reported F order (fo_scores found)) is)"
      using Cons.prems(5,7) False by auto
    then show ?thesis unfolding s by (intro Cons.IH) (use Cons.prems in auto)
  next
    case True
    have f: "fill_result F found lbls (order ! nat i) (fo_scores found ! nat i) = Some (res i)" using True Cons.prems(3) by simp
    have lc: "nat lc < length (group_results grp)" using True Cons.prems(4,6) by (simp add: nat_less_iff)
    let ?grp = "grp\<lparr>group_results := (group_results grp)[nat lc := res i]\<rparr>"
    have s: "results_loop F found lbls order (i # is) lc grp = results_loop F found lbls order is (lc + 1) ?grp"
      using e f True lc Cons.prems(4) by (auto simp: reported_def put_in not_less not_le)
    let ?ks = "take (OBJ_NUMB_MAX_SIZE - nat (lc + 1)) (filter (reported F order (fo_scores found)) is)"
    have n: "nat (lc + 1) = Suc (nat lc)" "OBJ_NUMB_MAX_SIZE - nat lc = Suc (OBJ_NUMB_MAX_SIZE - nat (lc + 1))"
      using True Cons.prems(4) by auto
    have ks: "ks = i # ?ks" unfolding Cons.prems(7) n(2) using True by simp
    have "results_loop F found lbls order is (lc + 1) ?grp = Some ((lc + 1) + int (length ?ks),
      ?grp\<lparr>group_results := take (nat (lc + 1)) (group_results ?grp) @ List.map res ?ks @ drop (nat (lc + 1) + length ?ks) (group_results ?grp)\<rparr>)"
      by (rule Cons.IH [OF _ _ _ _ _ _ refl]) (use Cons.prems True in auto)
    moreover have "drop (Suc (nat lc) + length ?ks) ((group_results grp)[nat lc := res i]) = drop (nat lc + length ks) (group_results grp)"
      by (subst ks) (simp del: drop_drop)
    moreover have "lc + 1 + int (length ?ks) = lc + int (length ks)" "List.map res ks = res i # List.map res ?ks" by (subst ks, simp)+
    ultimately show ?thesis unfolding s n(1) by (simp add: take_put [OF lc])
  qed
qed simp

text \<open>
  What a frame needs of the boxes that were found: as many classes and scores as boxes, every corner an
  \<open>int\<close>, and a label for every class.
\<close>

definition box_ok :: "('f, 'd) fp \<Rightarrow> 'f found \<Rightarrow> string option list \<Rightarrow> int \<Rightarrow> bool" where
  "box_ok F found lbls n = (case (corners F (fo_boxes found) n, elem (fo_classes found) n) of
     (Some (x1, y1, x2, y2), Some c) \<Rightarrow>
       f_int F x1 \<noteq> None \<and> f_int F y1 \<noteq> None \<and> f_int F x2 \<noteq> None \<and> f_int F y2 \<noteq> None \<and> elem lbls c \<noteq> None \<and> elem lbls c \<noteq> Some None
   | _ \<Rightarrow> False)"

definition found_ok :: "('f, 'd) fp \<Rightarrow> 'f found \<Rightarrow> string option list \<Rightarrow> bool" where
  "found_ok F found lbls \<longleftrightarrow> length (fo_boxes found) = 4 * length (fo_scores found) \<and> length (fo_classes found) = length (fo_scores found) \<and>
     list_all (box_ok F found lbls) (List.map int [0..<length (fo_scores found)])"

lemma box_ok_fill: "box_ok F found lbls n \<Longrightarrow> \<exists>r. fill_result F found lbls n score = Some r"
  by (auto simp: box_ok_def fill_result_def split: option.splits prod.splits)

definition falls_apart :: "('f :: linorder, 'd :: linorder) fp \<Rightarrow> 'f found \<Rightarrow> int \<Rightarrow> int \<Rightarrow> bool" where
  "falls_apart F found m n \<longleftrightarrow> m \<noteq> n \<and> fo_scores found ! nat n \<le> fo_scores found ! nat m \<and> \<not> same_class_close F found m n"


text \<open>
  The boxes a frame reports: in falling order of their scores, no two of a class overlapping, none below
  the threshold and at most as many as there is room for; if there is room left, a box that is above the
  threshold and not reported overlaps a reported one of its class.
\<close>

definition chosen :: "('f :: linorder, 'd :: linorder) fp \<Rightarrow> 'f found \<Rightarrow> int list \<Rightarrow> bool" where
  "chosen F found ps \<longleftrightarrow> sorted_wrt (falls_apart F found) ps \<and> length ps \<le> OBJ_NUMB_MAX_SIZE \<and>
     (\<forall>m \<in> set ps. 0 \<le> m \<and> m < int (length (fo_scores found)) \<and> CONF_THRESHOLD F \<le> widen F (fo_scores found ! nat m)) \<and>
     (length ps < OBJ_NUMB_MAX_SIZE \<longrightarrow>
        (\<forall>n \<in> set (List.map int [0..<length (fo_scores found)]). CONF_THRESHOLD F \<le> widen F (fo_scores found ! nat n) \<longrightarrow>
           n \<in> set ps \<or> (\<exists>m \<in> set ps. same_class_close F found m n)))"

text \<open>Indices sorted by score, thinned, and the positions of those reported.\<close>

lemma chosen_positions:
  fixes found :: "'f :: linorder found" and idx :: "int list"
  assumes idx: "mset idx = mset (List.map int [0..<length (fo_scores found)])"
    and falling: "sorted (rev (List.map (\<lambda>i. fo_scores found ! nat i) idx))"
    and thin: "thinned (same_class_close F found) 0 idx order" and mono: "mono (widen F)"
    and ks: "ks = take OBJ_NUMB_MAX_SIZE (filter (reported F order (List.map (\<lambda>i. fo_scores found ! nat i) idx)) [0..int (length (fo_scores found)) - 1])"
  shows "chosen F found (List.map (\<lambda>i. order ! nat i) ks)"
proof -
  let ?n = "length (fo_scores found)" and ?s = "\<lambda>m. fo_scores found ! nat m" and ?scores = "List.map (\<lambda>i. fo_scores found ! nat i) idx"
  have len: "length idx = ?n" using arg_cong [OF idx, of size] by simp
  have set: "set idx = set (List.map int [0..<?n])" using idx by (metis set_mset_mset)
  have dist: "distinct idx" using mset_eq_imp_distinct_iff [OF idx] by (simp add: distinct_map)
  have kin: "0 \<le> i \<and> nat i < ?n \<and> reported F order ?scores i" if "i \<in> set ks" for i
    using that set_take_subset [of OBJ_NUMB_MAX_SIZE] unfolding ks by fastforce
  have at: "order ! nat i = idx ! nat i \<and> order ! nat i \<noteq> - 1 \<and> 0 \<le> idx ! nat i \<and> idx ! nat i < int ?n \<and> CONF_THRESHOLD F \<le> widen F (?s (idx ! nat i))"
    if "i \<in> set ks" for i
  proof -
    have i: "nat i < length idx" "order ! nat i \<noteq> - 1" using kin [OF that] len by (auto simp: reported_def)
    have "idx ! nat i \<in> set (List.map int [0..<?n])" using nth_mem [OF i(1)] set by simp
    then show ?thesis using thinned_keeps [OF thin i] i kin [OF that] by (auto simp: reported_def)
  qed
  have apart: "falls_apart F found (order ! nat i) (order ! nat j)" if "i \<in> set ks" "j \<in> set ks" "i < j" for i j
  proof -
    have ij: "nat i < nat j" "nat j < length idx" using kin [OF that(1)] kin [OF that(2)] that(3) len by auto
    have "?scores ! nat j \<le> ?scores ! nat i"
      using falling ij by (intro sorted_rev_iff_nth_mono [THEN iffD1, rule_format]) auto
    moreover have "idx ! nat i \<noteq> idx ! nat j" using nth_eq_iff_index_eq [OF dist, of "nat i" "nat j"] ij by (metis less_irrefl less_trans)
    moreover have "\<not> same_class_close F found (idx ! nat i) (idx ! nat j)"
      using thinned_nth [OF thin ij(2)] at [OF that(1)] at [OF that(2)] ij(1) by (metis of_nat_0_le_iff)
    ultimately show ?thesis using at [OF that(1)] at [OF that(2)] ij by (simp add: falls_apart_def)
  qed
  have "sorted_wrt (<) ks" unfolding ks by (intro sorted_wrt_take sorted_wrt_filter sorted_wrt_upto)
  then have "sorted_wrt (falls_apart F found) (List.map (\<lambda>i. order ! nat i) ks)"
    unfolding sorted_wrt_map using apart by (rule sorted_wrt_mono_rel [rotated])
  moreover have "n \<in> set (List.map (\<lambda>i. order ! nat i) ks) \<or> (\<exists>m \<in> set (List.map (\<lambda>i. order ! nat i) ks). same_class_close F found m n)"
    if room: "length ks < OBJ_NUMB_MAX_SIZE" and n: "n \<in> set (List.map int [0..<?n])" "CONF_THRESHOLD F \<le> widen F (?s n)" for n
  proof -
    have all: "ks = filter (reported F order ?scores) [0..int ?n - 1]" using room unfolding ks by simp
    have there: "idx ! k \<in> set (List.map (\<lambda>i. order ! nat i) ks)"
      if "k < length idx" "order ! k \<noteq> - 1" "CONF_THRESHOLD F \<le> widen F (?s (idx ! k))" for k
    proof -
      have "int k \<in> set ks" unfolding all using that len by (simp add: reported_def)
      then show ?thesis using thinned_keeps [OF thin that(1,2)] by force
    qed
    obtain p where p: "p < length idx" "idx ! p = n" using n(1) set by (metis in_set_conv_nth)
    show ?thesis
    proof (cases "order ! p = - 1")
      case False
      then show ?thesis using there [OF p(1) False] n(2) p(2) by auto
    next
      case True
      have "idx ! p \<noteq> - 1" using n(1) p(2) by auto
      then obtain k where k: "k < p" "order ! k \<noteq> - 1" "same_class_close F found (idx ! k) n"
        using thinned_nth [OF thin p(1)] True p(2) by metis
      have "?scores ! p \<le> ?scores ! k" using falling k(1) p(1) by (intro sorted_rev_iff_nth_mono [THEN iffD1, rule_format]) auto
      then have "widen F (?s n) \<le> widen F (?s (idx ! k))" using monoD [OF mono] p k(1) by auto
      then have "idx ! k \<in> set (List.map (\<lambda>i. order ! nat i) ks)" using k p(1) n(2) by (intro there) auto
      then show ?thesis using k(3) by blast
    qed
  qed
  ultimately show ?thesis using at by (auto simp: chosen_def ks)
qed

lemma frame_results:
  fixes found :: "'f :: linorder found"
  assumes "found_ok F found lbls" "mono (widen F)"
  shows "\<exists>g ps. group_of_found F found (int (length (fo_scores found))) lbls = Some g \<and> chosen F found ps \<and> group_count g = int (length ps) \<and>
    List.map Some (take (length ps) (group_results g)) = List.map (\<lambda>m. fill_result F found lbls m (fo_scores found ! nat m)) ps \<and>
    length (group_results g) = OBJ_NUMB_MAX_SIZE"
proof -
  let ?n = "length (fo_scores found)"
  obtain idx low where q: "quick_sort_indice_inverse (fo_scores found, List.map int [0..<?n]) 0 (int ?n - 1) =
      Some ((List.map (\<lambda>i. fo_scores found ! nat i) idx, idx), low)"
    "mset idx = mset (List.map int [0..<?n])" "sorted (rev (List.map (\<lambda>i. fo_scores found ! nat i) idx))"
    using quick_sort_indices [of "fo_scores found"] by blast
  let ?scores = "List.map (\<lambda>i. fo_scores found ! nat i) idx"
  have len: "length idx = ?n" using arg_cong [OF q(2), of size] by simp
  have set: "set idx = set (List.map int [0..<?n])" using q(2) by (metis set_mset_mset)
  obtain order where o: "nms_classes F (int ?n) (fo_boxes found) (fo_classes found) (class_set (fo_classes found)) idx = Some order"
    "thinned (same_class_close F found) 0 idx order"
    using suppression_spec [of "int ?n" found idx "int ?n" F] assms(1) set len by (auto simp: found_ok_def boxes_ok_def)
  define found' where "found' = found\<lparr>fo_scores := ?scores\<rparr>"
  define ks where "ks = take OBJ_NUMB_MAX_SIZE (filter (reported F order ?scores) [0..int ?n - 1])"
  define res where "res i = the (fill_result F found' lbls (order ! nat i) (?scores ! nat i))" for i
  have fill: "fill_result F found' lbls m s = fill_result F found lbls m s" for m s by (simp add: found'_def fill_result_def)
  have at: "order ! nat i = idx ! nat i \<and> fill_result F found' lbls (order ! nat i) (?scores ! nat i) = Some (res i)"
    if "i \<in> set [0..int ?n - 1]" "reported F order ?scores i" for i
  proof -
    have i: "nat i < length idx" "order ! nat i \<noteq> - 1" using that len by (auto simp: reported_def)
    have e: "order ! nat i = idx ! nat i" by (rule thinned_keeps [OF o(2) i])
    have "idx ! nat i \<in> set (List.map int [0..<?n])" using nth_mem [OF i(1)] set by simp
    then have "box_ok F found lbls (idx ! nat i)" using assms(1) by (auto simp: found_ok_def list_all_iff)
    then show ?thesis using e fill box_ok_fill [of F found lbls] by (metis option.sel res_def)
  qed
  have sc: "fo_scores found' = ?scores" by (simp add: found'_def)
  have f: "\<forall>i \<in> set [0..int ?n - 1]. reported F order (fo_scores found') i \<longrightarrow>
     fill_result F found' lbls (order ! nat i) (fo_scores found' ! nat i) = Some (res i)"
    unfolding sc using at by blast
  have l: "results_loop F found' lbls order [0..int ?n - 1] 0 (zero_group F) = Some (0 + int (length ks),
     (zero_group F)\<lparr>group_results := take (nat 0) (group_results (zero_group F)) @ List.map res ks @ drop (nat 0 + length ks) (group_results (zero_group F))\<rparr>)"
    by (rule results_loop_ok [OF _ _ f]) (use len thinned_length [OF o(2)] in \<open>auto simp: found'_def ks_def zero_group_def\<close>)
  have lk: "length ks \<le> OBJ_NUMB_MAX_SIZE" by (simp add: ks_def)
  let ?ps = "List.map (\<lambda>i. order ! nat i) ks"
  let ?g = "(zero_group F)\<lparr>group_results := List.map res ks @ drop (length ks) (group_results (zero_group F)), group_count := int (length ks)\<rparr>"
  have "Some (res i) = fill_result F found lbls (order ! nat i) (fo_scores found ! nat (order ! nat i))" if "i \<in> set ks" for i
  proof -
    have "i \<in> set [0..int ?n - 1]" "reported F order ?scores i" using that set_take_subset [of OBJ_NUMB_MAX_SIZE] unfolding ks_def by fastforce+
    then show ?thesis using at [of i] fill len by auto
  qed
  then have "List.map Some (take (length ?ps) (group_results ?g)) = List.map (\<lambda>m. fill_result F found lbls m (fo_scores found ! nat m)) ?ps" by simp
  moreover have "group_of_found F found (int ?n) lbls = Some ?g"
    using q(1) o(1) l by (simp add: group_of_found_def found'_def)
  moreover have "chosen F found ?ps" by (rule chosen_positions [OF q(2,3) o(2) assms(2) ks_def])
  ultimately show ?thesis using lk by (intro exI [of _ ?g] exI [of _ ?ps]) (simp add: zero_group_def)
qed


section \<open>What a branch finds\<close>

text \<open>
  What the code relies on of the machine: widening keeps the order, and a value between -128 and 127
  converts to an \<open>int\<close>.
\<close>

definition fp_ok :: "('f :: linorder, 'd :: linorder) fp \<Rightarrow> bool" where
  "fp_ok F \<longleftrightarrow> mono (widen F) \<and> f_of F (- 128) \<le> f_of F 127 \<and> (\<forall>x. f_of F (- 128) \<le> x \<and> x \<le> f_of F 127 \<longrightarrow> f_int F x \<noteq> None)"

lemma qnt_total: "fp_ok F \<Longrightarrow> \<exists>q. qnt_f32_to_affine F x z s = Some q"
proof -
  assume ok: "fp_ok F"
  let ?v = "f_add F (f_div F x s) (f_of F z)"
  have "f_int F (if ?v \<le> f_of F (- 128) then f_of F (- 128) else if f_of F 127 \<le> ?v then f_of F 127 else ?v) \<noteq> None"
    using ok by (auto simp: fp_ok_def not_le less_imp_le simp del: not_None_eq)
  then show ?thesis unfolding qnt_f32_to_affine_def clip_def Let_def by auto
qed

text \<open>Tensors as large as the grid wants them.\<close>

definition branch_ok :: "'f branch \<Rightarrow> int \<Rightarrow> int \<Rightarrow> int \<Rightarrow> bool" where
  "branch_ok br dfl_len grid_h grid_w \<longleftrightarrow> 0 \<le> dfl_len \<and> grid_h * grid_w \<le> int (length (t_score br)) \<and>
     4 * dfl_len * (grid_h * grid_w) \<le> int (length (t_box br)) \<and>
     (case t_score_sum br of None \<Rightarrow> True | Some sums \<Rightarrow> grid_h * grid_w \<le> int (length sums))"

text \<open>A cell is taken when the sum of its scores is not below its threshold and its score is above its own.\<close>

definition taken :: "'f branch \<Rightarrow> int \<Rightarrow> 8 word \<Rightarrow> 8 word \<Rightarrow> int \<times> int \<Rightarrow> bool" where
  "taken br grid_w thres sum_thres ij = (let offset = nat (fst ij * grid_w + snd ij) in
     (case t_score_sum br of None \<Rightarrow> True | Some sums \<Rightarrow> sint sum_thres \<le> sint (sums ! offset)) \<and> sint thres < sint (t_score br ! offset))"

definition cell_score :: "('f, 'd) fp \<Rightarrow> 'f branch \<Rightarrow> int \<Rightarrow> int \<times> int \<Rightarrow> 'f" where
  "cell_score F br grid_w ij = deqnt_affine_to_f32 F (t_score br ! nat (fst ij * grid_w + snd ij)) (score_zp br) (score_scale br)"

lemma read_dfl_from:
  "0 \<le> offset \<Longrightarrow> offset < grid_len \<Longrightarrow> int (m + k) * grid_len \<le> int (length (t_box br)) \<Longrightarrow>
   \<exists>xs. read_dfl F br grid_len k (offset + int m * grid_len) = Some xs"
proof (induction k arbitrary: m)
  case (Suc k)
  have "int (Suc m) * grid_len \<le> int (m + Suc k) * grid_len" using Suc.prems by (intro mult_right_mono) auto
  then have "int (Suc m) * grid_len \<le> int (length (t_box br))" using Suc.prems(3) by (rule order_trans)
  then have "offset + int m * grid_len < int (length (t_box br))" using Suc.prems(2) by (simp add: distrib_right)
  moreover have "0 \<le> offset + int m * grid_len" using Suc.prems by simp
  ultimately have "elem (t_box br) (offset + int m * grid_len) = Some (t_box br ! nat (offset + int m * grid_len))" by (simp add: elem_def nat_less_iff)
  moreover obtain xs where "read_dfl F br grid_len k (offset + int (Suc m) * grid_len) = Some xs" using Suc.IH [of "Suc m"] Suc.prems by auto
  ultimately show ?case by (simp add: algebra_simps)
qed simp

lemma read_dfl_total:
  "0 \<le> offset \<Longrightarrow> offset < grid_len \<Longrightarrow> int k * grid_len \<le> int (length (t_box br)) \<Longrightarrow> \<exists>xs. read_dfl F br grid_len k offset = Some xs"
  using read_dfl_from [of offset grid_len 0 k br F] by simp

lemma minus_128 [simp]: "sint (word_of_int 128 :: 8 word) = - 128"
  by simp

lemma sint8_range: "- 128 \<le> sint (w :: 8 word)"
  using sint_ge [of w] by simp

lemma cell_in_grid:
  assumes "ij \<in> set (grid_cells grid_h grid_w)"
  shows "0 \<le> fst ij * grid_w + snd ij \<and> fst ij * grid_w + snd ij < grid_h * grid_w"
proof -
  have r: "0 \<le> fst ij" "fst ij + 1 \<le> grid_h" "0 \<le> snd ij" "snd ij < grid_w" using assms by (auto simp: grid_cells_def)
  then have "(fst ij + 1) * grid_w \<le> grid_h * grid_w" by (intro mult_right_mono) auto
  then show ?thesis using r by (simp add: algebra_simps)
qed

lemma cell_ok:
  fixes found :: "'f found"
  assumes "branch_ok br dfl_len grid_h grid_w" "ij \<in> set (grid_cells grid_h grid_w)" "score_zp br = - 128"
  obtains found' :: "'f found" where "cell F br dfl_len grid_h grid_w stride thres sum_thres ij found = Some found'"
    "fo_scores found' = fo_scores found @ (if taken br grid_w thres sum_thres ij then [cell_score F br grid_w ij] else [])"
    "fo_classes found' = fo_classes found @ (if taken br grid_w thres sum_thres ij then [0] else [])"
    "length (fo_boxes found') = length (fo_boxes found) + (if taken br grid_w thres sum_thres ij then 4 else 0)"
proof -
  obtain i j where ij: "ij = (i, j)" by (cases ij)
  let ?o = "i * grid_w + j"
  have o: "0 \<le> ?o" "?o < grid_h * grid_w" using cell_in_grid [OF assms(2)] ij by auto
  then have s: "elem (t_score br) ?o = Some (t_score br ! nat ?o)" using assms(1) by (auto simp: elem_def branch_ok_def nat_less_iff)
  let ?s = "t_score br ! nat ?o"
  let ?best = "if sint thres < sint ?s then (?s, 0) else (word_of_int 128, - 1)"
  have best: "class_loop (t_score br) (grid_h * grid_w) thres [0..int OBJ_CLASS_NUM - 1] ?o (word_of_int (- score_zp br), - 1) = Some ?best"
    using s assms(3) sint8_range [of thres] by (simp add: OBJ_CLASS_NUM_def)
  have sums: "elem sums ?o = Some (sums ! nat ?o)" if "t_score_sum br = Some sums" for sums
    using assms(1) that o by (auto simp: elem_def branch_ok_def nat_less_iff)
  obtain dfl where dfl: "read_dfl F br (grid_h * grid_w) (nat (dfl_len * 4)) ?o = Some dfl"
    using read_dfl_total [of ?o "grid_h * grid_w" "nat (dfl_len * 4)" br F] assms(1) o by (auto simp: branch_ok_def mult.commute mult.left_commute)
  define found' where "found' = (if taken br grid_w thres sum_thres ij
    then push_box F br (compute_dfl F dfl (nat dfl_len)) i j stride (?s, 0) found else found)"
  have "cell F br dfl_len grid_h grid_w stride thres sum_thres ij found = Some found'"
  proof (cases "t_score_sum br")
    case None
    then show ?thesis using best dfl assms(1) sint8_range [of thres] by (auto simp: cell_def ij found'_def taken_def branch_ok_def Let_def)
  next
    case (Some sums)
    then show ?thesis using best dfl assms(1) sums [OF Some] sint8_range [of thres] by (auto simp: cell_def ij found'_def taken_def branch_ok_def Let_def)
  qed
  then show thesis by (rule that) (auto simp: found'_def push_box_def Let_def ij cell_score_def)
qed


lemma cells_loop_ok:
  fixes found :: "'f found"
  assumes "branch_ok br dfl_len grid_h grid_w" "score_zp br = - 128"
  shows "set cells \<subseteq> set (grid_cells grid_h grid_w) \<Longrightarrow>
    \<exists>found'. cells_loop F br dfl_len grid_h grid_w stride thres sum_thres cells found = Some found' \<and>
      fo_scores found' = fo_scores found @ List.map (cell_score F br grid_w) (filter (taken br grid_w thres sum_thres) cells) \<and>
      fo_classes found' = fo_classes found @ replicate (length (filter (taken br grid_w thres sum_thres) cells)) 0 \<and>
      length (fo_boxes found') = length (fo_boxes found) + 4 * length (filter (taken br grid_w thres sum_thres) cells)"
proof (induction cells arbitrary: found)
  case (Cons ij cells)
  have ij: "ij \<in> set (grid_cells grid_h grid_w)" using Cons.prems by simp
  obtain found1 where f1: "cell F br dfl_len grid_h grid_w stride thres sum_thres ij found = Some found1"
    "fo_scores found1 = fo_scores found @ (if taken br grid_w thres sum_thres ij then [cell_score F br grid_w ij] else [])"
    "fo_classes found1 = fo_classes found @ (if taken br grid_w thres sum_thres ij then [0] else [])"
    "length (fo_boxes found1) = length (fo_boxes found) + (if taken br grid_w thres sum_thres ij then 4 else 0)"
    by (rule cell_ok [OF assms(1) ij assms(2)])
  show ?case using Cons.IH [of found1] Cons.prems f1 by auto
qed simp

text \<open>
  A tensor whose scores have the zero point -128 gives a box for each cell that is taken, row by row, all
  of class 0 and with the score of the cell; no access is out of the tensors.
\<close>

lemma process_finds:
  fixes found :: "'f :: linorder found"
  assumes "fp_ok F" "branch_ok br dfl_len grid_h grid_w" "score_zp br = - 128"
  shows "\<exists>thres sum_thres found'.
    qnt_f32_to_affine F threshold (score_zp br) (score_scale br) = Some thres \<and>
    qnt_f32_to_affine F threshold (sum_zp br) (sum_scale br) = Some sum_thres \<and>
    process_v2_i8 F br dfl_len grid_h grid_w stride found threshold =
      Some (int (length (filter (taken br grid_w thres sum_thres) (grid_cells grid_h grid_w))), found') \<and>
    fo_scores found' = fo_scores found @ List.map (cell_score F br grid_w) (filter (taken br grid_w thres sum_thres) (grid_cells grid_h grid_w)) \<and>
    fo_classes found' = fo_classes found @ replicate (length (filter (taken br grid_w thres sum_thres) (grid_cells grid_h grid_w))) 0 \<and>
    length (fo_boxes found') = length (fo_boxes found) + 4 * length (filter (taken br grid_w thres sum_thres) (grid_cells grid_h grid_w))"
proof -
  obtain thres sum_thres where q: "qnt_f32_to_affine F threshold (score_zp br) (score_scale br) = Some thres"
    "qnt_f32_to_affine F threshold (sum_zp br) (sum_scale br) = Some sum_thres" using qnt_total [OF assms(1)] by metis
  obtain found' where f: "cells_loop F br dfl_len grid_h grid_w stride thres sum_thres (grid_cells grid_h grid_w) found = Some found'"
    "fo_scores found' = fo_scores found @ List.map (cell_score F br grid_w) (filter (taken br grid_w thres sum_thres) (grid_cells grid_h grid_w))"
    "fo_classes found' = fo_classes found @ replicate (length (filter (taken br grid_w thres sum_thres) (grid_cells grid_h grid_w))) 0"
    "length (fo_boxes found') = length (fo_boxes found) + 4 * length (filter (taken br grid_w thres sum_thres) (grid_cells grid_h grid_w))"
    using cells_loop_ok [OF assms(2,3) subset_refl, of F stride thres sum_thres found] by blast
  have "process_v2_i8 F br dfl_len grid_h grid_w stride found threshold =
      Some (int (length (filter (taken br grid_w thres sum_thres) (grid_cells grid_h grid_w))), found')"
    using q f by (simp add: process_v2_i8_def)
  then show ?thesis using q f(2-4) by blast
qed

text \<open>The outputs of a network as the code expects them.\<close>

definition model_ok :: "('f, 'd) fp \<Rightarrow> 8 word list list \<Rightarrow> 'f MODEL_INFO \<Rightarrow> int \<Rightarrow> bool" where
  "model_ok F rk_outputs m_info dfl_len \<longleftrightarrow>
     list_all (\<lambda>i. case branch_of F rk_outputs m_info (outputs_per_branch m_info) i of
         None \<Rightarrow> False
       | Some (br, a) \<Rightarrow> score_zp br = - 128 \<and>
           (case (elem (at_dims a) 2, elem (at_dims a) 3) of
              (Some h, Some w) \<Rightarrow> h \<noteq> 0 \<and> branch_ok br dfl_len (s32_of_int (int h)) (s32_of_int (int w))
            | _ \<Rightarrow> False)) [0, 1, 2] \<and>
     (case in_attr m_info of [] \<Rightarrow> False | a # _ \<Rightarrow> elem (at_dims a) 1 \<noteq> None)"

definition vectors_ok :: "'f found \<Rightarrow> bool" where
  "vectors_ok found \<longleftrightarrow> length (fo_boxes found) = 4 * length (fo_scores found) \<and> fo_classes found = replicate (length (fo_scores found)) 0"

lemma branches_loop_ok:
  fixes found :: "'f :: linorder found"
  assumes "fp_ok F" "model_ok F rk_outputs m_info dfl_len"
  shows "set is \<subseteq> {0, 1, 2} \<Longrightarrow> vectors_ok found \<Longrightarrow>
    \<exists>found'. branches_loop F rk_outputs m_info dfl_len threshold is (int (length (fo_scores found)), found) =
      Some (int (length (fo_scores found')), found') \<and> vectors_ok found'"
proof (induction "is" arbitrary: found)
  case (Cons i "is")
  have "i \<in> set [0, 1, 2]" using Cons.prems(1) by auto
  then obtain br a h w where b: "branch_of F rk_outputs m_info (outputs_per_branch m_info) i = Some (br, a)" "score_zp br = - 128"
    "elem (at_dims a) 2 = Some h" "elem (at_dims a) 3 = Some w" "h \<noteq> 0" "branch_ok br dfl_len (s32_of_int (int h)) (s32_of_int (int w))"
    using assms(2) unfolding model_ok_def list_all_iff by (force split: option.splits prod.splits)
  obtain a0 ht where a0: "elem (in_attr m_info) 0 = Some a0" "elem (at_dims a0) 1 = Some ht"
    using assms(2) by (auto simp: model_ok_def elem_def split: list.splits if_splits)
  obtain n found1 where p: "process_v2_i8 F br dfl_len (s32_of_int (int h)) (s32_of_int (int w)) (s32_of_int (int (ht div h))) found threshold = Some (int n, found1)"
    "length (fo_scores found1) = length (fo_scores found) + n" "fo_classes found1 = fo_classes found @ replicate n 0"
    "length (fo_boxes found1) = length (fo_boxes found) + 4 * n"
    using process_finds [OF assms(1) b(6,2), of threshold "s32_of_int (int (ht div h))" found] by auto
  have v: "vectors_ok found1" using Cons.prems(2) p(2-4) by (simp add: vectors_ok_def replicate_add)
  have "branches_loop F rk_outputs m_info dfl_len threshold (i # is) (int (length (fo_scores found)), found) =
    branches_loop F rk_outputs m_info dfl_len threshold is (int (length (fo_scores found1)), found1)"
    using b a0 p(1,2) by simp
  then show ?case using Cons.IH [OF _ v] Cons.prems(1) by simp
qed simp

text \<open>Every corner of a box converts to an \<open>int\<close>.\<close>

definition corners_convert :: "('f, 'd) fp \<Rightarrow> 'f found \<Rightarrow> bool" where
  "corners_convert F found \<longleftrightarrow> list_all (\<lambda>n. case corners F (fo_boxes found) n of None \<Rightarrow> True
     | Some (x1, y1, x2, y2) \<Rightarrow> f_int F x1 \<noteq> None \<and> f_int F y1 \<noteq> None \<and> f_int F x2 \<noteq> None \<and> f_int F y2 \<noteq> None)
     (List.map int [0..<length (fo_scores found)])"

lemma vectors_found_ok:
  assumes "vectors_ok found" "corners_convert F found" "lbls = [Some l]"
  shows "found_ok F found lbls"
proof -
  have "box_ok F found lbls (int n)" if n: "n < length (fo_scores found)" for n
  proof -
    have "\<exists>c. corners F (fo_boxes found) (int n) = Some c" using assms(1) n by (simp add: corners_def elem_def vectors_ok_def nat_less_iff)
    then obtain x1 y1 x2 y2 where c: "corners F (fo_boxes found) (int n) = Some (x1, y1, x2, y2)" by auto
    have "elem (fo_classes found) (int n) = Some 0" using assms(1) n by (auto simp: elem_def vectors_ok_def)
    moreover have "f_int F x1 \<noteq> None \<and> f_int F y1 \<noteq> None \<and> f_int F x2 \<noteq> None \<and> f_int F y2 \<noteq> None"
      using assms(2) [unfolded corners_convert_def list_all_iff, rule_format, of "int n"] n c by (simp del: not_None_eq)
    ultimately show ?thesis using c assms(3) by (auto simp: box_ok_def elem_def)
  qed
  then show ?thesis using assms(1) by (auto simp: found_ok_def vectors_ok_def list_all_iff)
qed



section \<open>Properties\<close>

text \<open>
  C3: A frame of well-formed outputs is post-processed without an access out of bounds, whatever the
  scores: the call returns 0 with at most 200 results, in falling order of their scores; each is a box
  that the tensors hold, above the threshold, with its class, its label and its corners; no two of a class
  overlap by more than the threshold, and when there is room left no box above the threshold is missing
  but for those that overlap a reported one of their class. The file of labels is loaded, and the corners
  of the boxes are numbers that fit an \<open>int\<close>.
\<close>

theorem post_process_frame:
  assumes "fp_ok F" "model_ok F rk_outputs m_info dfl_len"
    "load_labels file st hp = Some (0, st', hp')" "st_labels st' = [Some l]"
    "\<And>n found. branches_loop F rk_outputs m_info dfl_len (narrow F (CONF_THRESHOLD F)) [0, 1, 2]
       (0, \<lparr>fo_boxes = [], fo_scores = [], fo_classes = []\<rparr>) = Some (n, found) \<Longrightarrow> corners_convert F found"
  shows "\<exists>g found ps. post_process F file rk_outputs m_info dfl_len grp st hp = Some (0, g, st', hp') \<and>
    branches_loop F rk_outputs m_info dfl_len (narrow F (CONF_THRESHOLD F)) [0, 1, 2]
      (0, \<lparr>fo_boxes = [], fo_scores = [], fo_classes = []\<rparr>) = Some (int (length (fo_scores found)), found) \<and>
    chosen F found ps \<and> group_count g = int (length ps) \<and> length (group_results g) = OBJ_NUMB_MAX_SIZE \<and>
    List.map Some (take (length ps) (group_results g)) = List.map (\<lambda>m. fill_result F found (st_labels st') m (fo_scores found ! nat m)) ps"
proof -
  let ?start = "\<lparr>fo_boxes = [], fo_scores = [], fo_classes = []\<rparr>"
  have v0: "vectors_ok ?start" by (simp add: vectors_ok_def)
  obtain found where b: "branches_loop F rk_outputs m_info dfl_len (narrow F (CONF_THRESHOLD F)) [0, 1, 2] (0, ?start) = Some (int (length (fo_scores found)), found)"
    "vectors_ok found"
    using branches_loop_ok [OF assms(1,2) _ v0, of "[0, 1, 2]" "narrow F (CONF_THRESHOLD F)"] by auto
  have ok: "found_ok F found (st_labels st')" by (rule vectors_found_ok [OF b(2) assms(5) [OF b(1)] assms(4)])
  show ?thesis
  proof (cases "fo_scores found = []")
    case True
    then have "post_process F file rk_outputs m_info dfl_len grp st hp = Some (0, zero_group F, st', hp')"
      using assms(3) b(1) by (simp add: post_process_def)
    moreover have "chosen F found []" using True by (simp add: chosen_def)
    ultimately show ?thesis using b(1)
      by (intro exI [of _ "zero_group F"] exI [of _ found] exI [of _ "[]"]) (simp add: zero_group_def)
  next
    case False
    obtain g ps where g: "group_of_found F found (int (length (fo_scores found))) (st_labels st') = Some g" "chosen F found ps"
      "group_count g = int (length ps)" "length (group_results g) = OBJ_NUMB_MAX_SIZE"
      "List.map Some (take (length ps) (group_results g)) = List.map (\<lambda>m. fill_result F found (st_labels st') m (fo_scores found ! nat m)) ps"
      using frame_results [OF ok] assms(1) by (auto simp: fp_ok_def)
    have "post_process F file rk_outputs m_info dfl_len grp st hp = Some (0, g, st', hp')"
      using assms(3) b(1) g(1) False by (simp add: post_process_def)
    then show ?thesis using b(1) g(2-5) by blast
  qed
qed

text \<open>Numbers in hundredths, for examples.\<close>

definition hundredths :: "(int, int) fp" where
  "hundredths = \<lparr>f_of = (\<lambda>i. 100 * i), f_int = (\<lambda>x. Some (x div 100)), f_add = (+), f_sub = (-),
     f_mul = (\<lambda>x y. x * y div 100), f_div = (\<lambda>x y. x * 100 div y), f_neg = uminus, f_exp = (\<lambda>x. 100),
     d_ratio = (\<lambda>x y. 100 * x div y), d_add = (+), d_sub = (-), d_mul = (\<lambda>x y. x * y div 100),
     widen = (\<lambda>x. x), narrow = (\<lambda>x. x)\<rparr>"

lemma hundredths_ok: "fp_ok hundredths"
  by (simp add: fp_ok_def hundredths_def mono_def)

lemma hundredths_convert: "corners_convert hundredths found"
  by (simp add: corners_convert_def hundredths_def list_all_iff split: option.splits)

definition small_model :: "int MODEL_INFO" where
  "small_model = \<lparr>n_output = 6, in_attr = [\<lparr>at_dims = [1, 32, 32, 3], at_zp = 0, at_scale = 1\<rparr>],
     out_attr = concat (replicate 3 [\<lparr>at_dims = [1, 4, 1, 1], at_zp = 0, at_scale = 1\<rparr>, \<lparr>at_dims = [1, 1, 1, 1], at_zp = - 128, at_scale = 1\<rparr>])\<rparr>"

definition small_outputs :: "8 word list list" where
  "small_outputs = [[1, 1, 1, 1], [100], [2, 2, 2, 2], [128], [3, 3, 3, 3], [50]]"

lemma post_process_frame_witness:
  "\<exists>g found ps. post_process hundredths (Some ''fire'') small_outputs small_model 1 (zero_group hundredths) yolo_start [] =
      Some (0, g, \<lparr>st_init = 0, st_labels = [Some ''fire'']\<rparr>, []) \<and> chosen hundredths found ps \<and> group_count g = int (length ps)"
proof -
  have m: "model_ok hundredths small_outputs small_model 1"
    by (simp add: model_ok_def small_model_def small_outputs_def outputs_per_branch_def branch_of_def elem_def branch_ok_def s32_of_int_def numeral_3_eq_3)
  have l: "load_labels (Some ''fire'') yolo_start [] = Some (0, \<lparr>st_init = 0, st_labels = [Some ''fire'']\<rparr>, [])"
    by (simp add: load_labels_def loadLabelName_def readLines_def yolo_start_def OBJ_CLASS_NUM_def lines_loop.simps readLine_def)
  have s: "st_labels \<lparr>st_init = 0, st_labels = [Some ''fire'']\<rparr> = [Some ''fire'']" by simp
  show ?thesis using post_process_frame [OF hundredths_ok m l s hundredths_convert, of "zero_group hundredths"] by blast
qed

text \<open>
  C20: The vector of scores and the indices beside it are sorted, for every vector of scores that are numbers (the
  type of scores is linearly ordered, which leaves out NaN; the scores of the program are dequantized 8-bit
  integers): the sort returns and stays within the vectors, the indices are a permutation of those it was given,
  the scores stand in falling order and each index is that of its score.
\<close>

theorem scores_sorted:
  "\<exists>idx low. quick_sort_indice_inverse (scores, List.map int [0..<length scores]) 0 (int (length scores) - 1) =
     Some ((List.map (\<lambda>i. scores ! nat i) idx, idx), low) \<and>
   mset idx = mset (List.map int [0..<length scores]) \<and> sorted (rev (List.map (\<lambda>i. scores ! nat i) idx))"
  by (rule quick_sort_indices)

lemma scores_sorted_witness:
  "\<exists>idx low. quick_sort_indice_inverse ([3, 7, 5 :: int], [0, 1, 2]) 0 2 = Some ((List.map (\<lambda>i. [3, 7, 5] ! nat i) idx, idx), low) \<and>
     mset idx = {#0, 1, 2#} \<and> sorted (rev (List.map (\<lambda>i. [3, 7, 5 :: int] ! nat i) idx))"
proof -
  have "List.map int [0..<length [3, 7, 5 :: int]] = [0, 1, 2]" by (simp add: upt_conv_Cons)
  then show ?thesis using scores_sorted [of "[3, 7, 5 :: int]"] by simp
qed

text \<open>
  C21: A branch whose scores have the zero point -128 gives a box for every cell whose score is above the
  threshold (and, with a tensor of sums, whose sum is not below its own), row by row, with the score of
  the cell and class 0; the thresholds are in 8 bits and no access is out of the tensors.
\<close>

theorem branch_finds_cells:
  fixes found :: "'f :: linorder found"
  assumes "fp_ok F" "branch_ok br dfl_len grid_h grid_w" "score_zp br = - 128"
  shows "\<exists>thres sum_thres found'.
    qnt_f32_to_affine F threshold (score_zp br) (score_scale br) = Some thres \<and>
    qnt_f32_to_affine F threshold (sum_zp br) (sum_scale br) = Some sum_thres \<and>
    process_v2_i8 F br dfl_len grid_h grid_w stride found threshold =
      Some (int (length (filter (taken br grid_w thres sum_thres) (grid_cells grid_h grid_w))), found') \<and>
    fo_scores found' = fo_scores found @ List.map (cell_score F br grid_w) (filter (taken br grid_w thres sum_thres) (grid_cells grid_h grid_w)) \<and>
    fo_classes found' = fo_classes found @ replicate (length (filter (taken br grid_w thres sum_thres) (grid_cells grid_h grid_w))) 0 \<and>
    length (fo_boxes found') = length (fo_boxes found) + 4 * length (filter (taken br grid_w thres sum_thres) (grid_cells grid_h grid_w))"
  by (rule process_finds [OF assms])

definition small_branch :: "int \<Rightarrow> int branch" where
  "small_branch z = \<lparr>t_box = [1, 1, 1, 1], box_zp = 0, box_scale = 1, t_score = [50], score_zp = z, score_scale = 1,
     t_score_sum = None, sum_zp = 0, sum_scale = 1\<rparr>"

lemma branch_finds_cells_witness:
  "\<exists>n found'. process_v2_i8 hundredths (small_branch (- 128)) 1 1 1 32 \<lparr>fo_boxes = [], fo_scores = [], fo_classes = []\<rparr> 25 = Some (n, found')"
proof -
  have "branch_ok (small_branch (- 128)) 1 1 1" "score_zp (small_branch (- 128)) = - 128" by (simp_all add: branch_ok_def small_branch_def)
  from branch_finds_cells [OF hundredths_ok this, of 25 32 "\<lparr>fo_boxes = [], fo_scores = [], fo_classes = []\<rparr>"] show ?thesis by blast
qed




end
