(* ===== verification/Ptr_List.thy ===== *)
theory Ptr_List
  imports Mpp_Prelude
begin

text \<open>
  The doubly linked lists of \<open>osal/inc/mpp_list.h\<close>, on pointers: what every \<open>list_head\<close> in memory
  has as its successor and predecessor. An access to a node that is not in memory (NULL, or freed)
  is \<^const>\<open>None\<close>. A list is its head and the nodes of a ring through it.
\<close>

section \<open>Nodes in memory\<close>

type_synonym ptr = nat

abbreviation NULL :: ptr where "NULL \<equiv> 0"

record links =
  nexts :: "ptr \<rightharpoonup> ptr"
  prevs :: "ptr \<rightharpoonup> ptr"

definition set_next :: "links \<Rightarrow> ptr \<Rightarrow> ptr \<Rightarrow> links option" where
  "set_next l p v = (case nexts l p of None \<Rightarrow> None | Some _ \<Rightarrow> Some (l\<lparr>nexts := (nexts l)(p \<mapsto> v)\<rparr>))"

definition set_prev :: "links \<Rightarrow> ptr \<Rightarrow> ptr \<Rightarrow> links option" where
  "set_prev l p v = (case prevs l p of None \<Rightarrow> None | Some _ \<Rightarrow> Some (l\<lparr>prevs := (prevs l)(p \<mapsto> v)\<rparr>))"

text \<open>Memory that comes and goes; the fields of a new node have whatever value.\<close>

definition new_node :: "links \<Rightarrow> ptr \<Rightarrow> ptr \<Rightarrow> ptr \<Rightarrow> links" where
  "new_node l p n q = l\<lparr>nexts := (nexts l)(p \<mapsto> n), prevs := (prevs l)(p \<mapsto> q)\<rparr>"

definition free_node :: "links \<Rightarrow> ptr \<Rightarrow> links" where
  "free_node l p = l\<lparr>nexts := (nexts l)(p := None), prevs := (prevs l)(p := None)\<rparr>"

definition no_links :: links where
  "no_links = \<lparr>nexts = Map.empty, prevs = Map.empty\<rparr>"

definition live :: "links \<Rightarrow> ptr \<Rightarrow> bool" where
  "live l p \<longleftrightarrow> nexts l p \<noteq> None \<and> prevs l p \<noteq> None"

section \<open>The operations\<close>

definition INIT_LIST_HEAD :: "links \<Rightarrow> ptr \<Rightarrow> links option" where
  "INIT_LIST_HEAD l p = do { l \<leftarrow> set_next l p p; set_prev l p p }"

text \<open>\<open>__list_add\<close> and \<open>__list_del\<close>.\<close>

definition list_add_between :: "links \<Rightarrow> ptr \<Rightarrow> ptr \<Rightarrow> ptr \<Rightarrow> links option" where
  "list_add_between l node before after = do {
     l \<leftarrow> set_prev l after node;
     l \<leftarrow> set_next l node after;
     l \<leftarrow> set_prev l node before;
     set_next l before node
   }"

definition list_add :: "links \<Rightarrow> ptr \<Rightarrow> ptr \<Rightarrow> links option" where
  "list_add l node head = do { n \<leftarrow> nexts l head; list_add_between l node head n }"

definition list_add_tail :: "links \<Rightarrow> ptr \<Rightarrow> ptr \<Rightarrow> links option" where
  "list_add_tail l node head = do { p \<leftarrow> prevs l head; list_add_between l node p head }"

definition list_del_between :: "links \<Rightarrow> ptr \<Rightarrow> ptr \<Rightarrow> links option" where
  "list_del_between l before after = do { l \<leftarrow> set_prev l after before; set_next l before after }"

definition list_del_init :: "links \<Rightarrow> ptr \<Rightarrow> links option" where
  "list_del_init l entry = do {
     p \<leftarrow> prevs l entry;
     n \<leftarrow> nexts l entry;
     l \<leftarrow> list_del_between l p n;
     INIT_LIST_HEAD l entry
   }"

definition list_move :: "links \<Rightarrow> ptr \<Rightarrow> ptr \<Rightarrow> links option" where
  "list_move l node head = do {
     p \<leftarrow> prevs l node;
     n \<leftarrow> nexts l node;
     l \<leftarrow> list_del_between l p n;
     list_add l node head
   }"

definition list_move_tail :: "links \<Rightarrow> ptr \<Rightarrow> ptr \<Rightarrow> links option" where
  "list_move_tail l node head = do {
     p \<leftarrow> prevs l node;
     n \<leftarrow> nexts l node;
     l \<leftarrow> list_del_between l p n;
     list_add_tail l node head
   }"

definition list_is_last :: "links \<Rightarrow> ptr \<Rightarrow> ptr \<Rightarrow> bool option" where
  "list_is_last l node head = do { n \<leftarrow> nexts l node; Some (n = head) }"

definition list_empty :: "links \<Rightarrow> ptr \<Rightarrow> bool option" where
  "list_empty l head = do { n \<leftarrow> nexts l head; Some (n = head) }"

text \<open>\<open>list_first_entry_or_null\<close>, for entries that start with their list head.\<close>

definition list_first_entry_or_null :: "links \<Rightarrow> ptr \<Rightarrow> ptr option" where
  "list_first_entry_or_null l head = do { n \<leftarrow> nexts l head; Some (if n \<noteq> head then n else NULL) }"

section \<open>Rings\<close>

definition linked :: "links \<Rightarrow> ptr \<Rightarrow> ptr \<Rightarrow> bool" where
  "linked l p q \<longleftrightarrow> nexts l p = Some q \<and> prevs l q = Some p"

fun path :: "links \<Rightarrow> ptr \<Rightarrow> ptr list \<Rightarrow> ptr \<Rightarrow> bool" where
  "path l p [] q = linked l p q"
| "path l p (x # xs) q = (linked l p x \<and> path l x xs q)"

definition ring :: "links \<Rightarrow> ptr \<Rightarrow> ptr list \<Rightarrow> bool" where
  "ring l h xs \<longleftrightarrow> distinct (h # xs) \<and> path l h xs h"

lemma path_append: "path l p (xs @ x # ys) q \<longleftrightarrow> path l p xs x \<and> path l x ys q"
  by (induction xs arbitrary: p) auto

lemma path_snoc: "path l p (xs @ [x]) q \<longleftrightarrow> path l p xs x \<and> linked l x q"
  by (simp add: path_append)

lemma path_cong:
  "(\<And>x. x \<in> set (p # xs) \<Longrightarrow> nexts l' x = nexts l x) \<Longrightarrow> (\<And>x. x \<in> set (xs @ [q]) \<Longrightarrow> prevs l' x = prevs l x) \<Longrightarrow>
   path l' p xs q = path l p xs q"
  by (induction xs arbitrary: p) (auto simp: linked_def)

lemma path_next: "path l p xs q \<Longrightarrow> nexts l p = Some (hd (xs @ [q]))"
  by (cases xs) (auto simp: linked_def)

lemma path_prev: "path l p xs q \<Longrightarrow> prevs l q = Some (last (p # xs))"
  by (cases xs rule: rev_cases) (auto simp: linked_def path_append)

lemma path_next_live: "path l p xs q \<Longrightarrow> x \<in> set (p # xs) \<Longrightarrow> nexts l x \<noteq> None"
  by (induction xs arbitrary: p) (auto simp: linked_def)

lemma path_prev_live: "path l p xs q \<Longrightarrow> x \<in> set (xs @ [q]) \<Longrightarrow> prevs l x \<noteq> None"
  by (induction xs arbitrary: p) (auto simp: linked_def)

lemma ring_live: "ring l h xs \<Longrightarrow> x \<in> set (h # xs) \<Longrightarrow> live l x"
  using path_next_live [of l h xs h x] path_prev_live [of l h xs h x] by (auto simp: ring_def live_def)

lemma ring_cong: "(\<And>x. x \<in> set (h # xs) \<Longrightarrow> nexts l' x = nexts l x \<and> prevs l' x = prevs l x) \<Longrightarrow> ring l' h xs = ring l h xs"
  unfolding ring_def using path_cong [of h xs l' l h] by auto

lemma ring_nil: "ring l h [] \<longleftrightarrow> nexts l h = Some h \<and> prevs l h = Some h"
  by (auto simp: ring_def linked_def)

text \<open>What a change of the links leaves alone.\<close>

definition only_at :: "ptr set \<Rightarrow> links \<Rightarrow> links \<Rightarrow> bool" where
  "only_at S l l' \<longleftrightarrow> (\<forall>p. p \<notin> S \<longrightarrow> nexts l' p = nexts l p \<and> prevs l' p = prevs l p) \<and> (\<forall>p. live l' p = live l p)"

lemma only_at_ring: "only_at S l l' \<Longrightarrow> ring l h xs \<Longrightarrow> S \<inter> set (h # xs) = {} \<Longrightarrow> ring l' h xs"
  using ring_cong [of h xs l' l] unfolding only_at_def by blast

lemma only_at_live: "only_at S l l' \<Longrightarrow> live l' p = live l p"
  by (simp add: only_at_def)

lemma only_at_trans: "only_at S l l1 \<Longrightarrow> only_at T l1 l2 \<Longrightarrow> S \<subseteq> U \<Longrightarrow> T \<subseteq> U \<Longrightarrow> only_at U l l2"
  unfolding only_at_def by (metis subsetD)

section \<open>The operations on rings\<close>

lemma INIT_LIST_HEAD_ok:
  assumes "live l h"
  shows "\<exists>l'. INIT_LIST_HEAD l h = Some l' \<and> ring l' h [] \<and> only_at {h} l l'"
  using assms by (auto simp: INIT_LIST_HEAD_def set_next_def set_prev_def live_def ring_nil only_at_def)

text \<open>A node between two that are linked.\<close>

lemma list_add_between_links:
  assumes "live l node" "nexts l p \<noteq> None" "prevs l q \<noteq> None" "node \<noteq> p" "node \<noteq> q"
  shows "\<exists>l'. list_add_between l node p q = Some l' \<and> nexts l' = (nexts l)(node \<mapsto> q, p \<mapsto> node) \<and> prevs l' = (prevs l)(q \<mapsto> node, node \<mapsto> p)"
  using assms by (auto simp: list_add_between_def set_next_def set_prev_def live_def split: option.splits)

lemma list_add_between_ok:
  assumes "path l h (xs @ ys) h" "distinct (h # xs @ ys)" "live l node" "node \<notin> set (h # xs @ ys)"
    "p = last (h # xs)" "q = hd (ys @ [h])"
  shows "\<exists>l'. list_add_between l node p q = Some l' \<and> ring l' h (xs @ node # ys) \<and> only_at (set (h # node # xs @ ys)) l l'"
proof -
  have pq: "p \<in> set (h # xs @ ys)" "q \<in> set (h # xs @ ys)" using assms(5,6) by (cases xs rule: rev_cases; cases ys; auto)+
  have lp: "nexts l p \<noteq> None" using path_next_live [OF assms(1)] pq(1) by auto
  have lq: "prevs l q \<noteq> None" using path_prev_live [OF assms(1)] pq(2) by auto
  obtain l' where l': "list_add_between l node p q = Some l'" "nexts l' = (nexts l)(node \<mapsto> q, p \<mapsto> node)" "prevs l' = (prevs l)(q \<mapsto> node, node \<mapsto> p)"
    using list_add_between_links [OF assms(3) lp lq] pq assms(4) by auto
  have ring: "path l' h xs node"
  proof (cases xs rule: rev_cases)
    case Nil
    then show ?thesis using l' assms by (auto simp: linked_def)
  next
    case (snoc xs' x)
    then have "path l h xs' x" using assms(1) by (simp add: path_append)
    moreover have "p = x" using snoc assms(5) by simp
    moreover have "path l' h xs' x = path l h xs' x"
      by (rule path_cong) (use l' assms(2,4,6) snoc \<open>p = x\<close> in \<open>cases ys; auto\<close>)+
    ultimately show ?thesis using snoc l' assms(4) pq by (auto simp: path_append linked_def)
  qed
  moreover have "path l' node ys h"
  proof (cases ys)
    case Nil
    then show ?thesis using l' assms pq by (auto simp: linked_def)
  next
    case (Cons y ys')
    then have "path l y ys' h" using assms(1) by (simp add: path_append)
    moreover have q: "q = y" using Cons assms(6) by simp
    moreover have "path l' y ys' h = path l y ys' h"
      by (rule path_cong) (use l' assms(2,4,5) Cons q in \<open>cases xs rule: rev_cases; auto\<close>)+
    ultimately show ?thesis using Cons l' assms(4) pq by (auto simp: linked_def)
  qed
  ultimately have "ring l' h (xs @ node # ys)" using assms(2,4) by (auto simp: ring_def path_append)
  moreover have "only_at (set (h # node # xs @ ys)) l l'" using l'(2,3) pq lp lq assms(3) by (auto simp: only_at_def live_def)
  ultimately show ?thesis using l'(1) by blast
qed

lemma list_add_ok:
  assumes "ring l h xs" "live l node" "node \<notin> set (h # xs)"
  shows "\<exists>l'. list_add l node h = Some l' \<and> ring l' h (node # xs) \<and> only_at (set (h # node # xs)) l l'"
  using list_add_between_ok [of l h "[]" xs node h "hd (xs @ [h])"] assms path_next [of l h xs h]
  by (auto simp: ring_def list_add_def)

lemma list_add_tail_ok:
  assumes "ring l h xs" "live l node" "node \<notin> set (h # xs)"
  shows "\<exists>l'. list_add_tail l node h = Some l' \<and> ring l' h (xs @ [node]) \<and> only_at (set (h # node # xs)) l l'"
  using list_add_between_ok [of l h xs "[]" node "last (h # xs)" h] assms path_prev [of l h xs h]
  by (auto simp: ring_def list_add_tail_def)

lemma list_del_between_ok:
  assumes "path l h (xs @ x # ys) h" "distinct (h # xs @ x # ys)" "p = last (h # xs)" "q = hd (ys @ [h])"
  shows "\<exists>l'. list_del_between l p q = Some l' \<and> ring l' h (xs @ ys) \<and> only_at (set (h # xs @ ys)) l l'"
proof -
  have pq: "p \<in> set (h # xs)" "q \<in> set (ys @ [h])" using assms(3,4) by (cases xs rule: rev_cases; cases ys; auto)+
  have lp: "nexts l p \<noteq> None" using path_next_live [OF assms(1)] pq(1) by auto
  have lq: "prevs l q \<noteq> None" using path_prev_live [OF assms(1)] pq(2) by auto
  define l' where "l' = l\<lparr>nexts := (nexts l)(p \<mapsto> q), prevs := (prevs l)(q \<mapsto> p)\<rparr>"
  have l': "list_del_between l p q = Some l'" "nexts l' = (nexts l)(p \<mapsto> q)" "prevs l' = (prevs l)(q \<mapsto> p)"
    using lp lq by (auto simp: l'_def list_del_between_def set_next_def set_prev_def)
  have parts: "path l h xs x" "path l x ys h" using assms(1) by (auto simp: path_append)
  have "path l' h (xs @ ys) h"
  proof (cases ys)
    case Nil
    then have q: "q = h" using assms(4) by simp
    show ?thesis
    proof (cases xs rule: rev_cases)
      case Nil
      then show ?thesis using q \<open>ys = []\<close> l' assms(3) by (simp add: linked_def)
    next
      case (snoc zs z)
      have "path l' h zs z = path l h zs z" by (rule path_cong) (use l' assms(2,3) q snoc in auto)
      then show ?thesis using snoc Nil q l' parts(1) assms(3) by (auto simp: path_append linked_def)
    qed
  next
    case (Cons y zs)
    then have q: "q = y" using assms(4) by simp
    have "path l' y zs h = path l y zs h"
      by (rule path_cong) (use l' assms(2,3) q Cons in \<open>cases xs rule: rev_cases; auto\<close>)+
    then have t: "path l' y zs h" using parts(2) Cons by simp
    have "path l' h xs y"
    proof (cases xs rule: rev_cases)
      case Nil
      then show ?thesis using q l' assms(3) by (simp add: linked_def)
    next
      case (snoc ws w)
      have "path l' h ws w = path l h ws w" by (rule path_cong) (use l' assms(2,3) q snoc Cons in auto)
      then show ?thesis using snoc q l' parts(1) assms(3) by (auto simp: path_append linked_def)
    qed
    then show ?thesis using t Cons by (simp add: path_append)
  qed
  then have "ring l' h (xs @ ys)" using assms(2) by (auto simp: ring_def)
  moreover have "only_at (set (h # xs @ ys)) l l'" using l'(2,3) pq lp lq by (auto simp: only_at_def live_def)
  ultimately show ?thesis using l'(1) by blast
qed

lemma ring_neighbours:
  "ring l h (xs @ x # ys) \<Longrightarrow> prevs l x = Some (last (h # xs)) \<and> nexts l x = Some (hd (ys @ [h]))"
  using path_prev [of l h xs x] path_next [of l x ys h] by (simp add: ring_def path_append)

lemma list_del_init_ok:
  assumes "ring l h (xs @ x # ys)"
  shows "\<exists>l'. list_del_init l x = Some l' \<and> ring l' h (xs @ ys) \<and> ring l' x [] \<and> only_at (set (h # x # xs @ ys)) l l'"
proof -
  have d: "path l h (xs @ x # ys) h" "distinct (h # xs @ x # ys)" using assms by (auto simp: ring_def)
  obtain l1 where l1: "list_del_between l (last (h # xs)) (hd (ys @ [h])) = Some l1" "ring l1 h (xs @ ys)" "only_at (set (h # xs @ ys)) l l1"
    using list_del_between_ok [OF d refl refl] by blast
  have "live l1 x" using ring_live [OF assms, of x] l1(3) by (simp add: only_at_live)
  then obtain l2 where l2: "INIT_LIST_HEAD l1 x = Some l2" "ring l2 x []" "only_at {x} l1 l2" using INIT_LIST_HEAD_ok by blast
  have "list_del_init l x = Some l2" using l1(1) l2(1) ring_neighbours [OF assms] by (simp add: list_del_init_def)
  moreover have "ring l2 h (xs @ ys)" by (rule only_at_ring [OF l2(3) l1(2)]) (use d in auto)
  moreover have "only_at (set (h # x # xs @ ys)) l l2" by (rule only_at_trans [OF l1(3) l2(3)]) auto
  ultimately show ?thesis using l2(2) by blast
qed

text \<open>A node of one list moves to the front or the end of another, or of its own.\<close>

lemma list_move_ok:
  assumes "ring l h (xs @ x # ys)" "ring l h' zs" "set (h' # zs) \<inter> set (h # xs @ x # ys) = {}"
  shows "\<exists>l'. list_move l x h' = Some l' \<and> ring l' h (xs @ ys) \<and> ring l' h' (x # zs) \<and> only_at (set (h # h' # x # xs @ ys @ zs)) l l'"
proof -
  have d: "path l h (xs @ x # ys) h" "distinct (h # xs @ x # ys)" using assms by (auto simp: ring_def)
  obtain l1 where l1: "list_del_between l (last (h # xs)) (hd (ys @ [h])) = Some l1" "ring l1 h (xs @ ys)" "only_at (set (h # xs @ ys)) l l1"
    using list_del_between_ok [OF d refl refl] by blast
  have r: "ring l1 h' zs" by (rule only_at_ring [OF l1(3) assms(2)]) (use assms(3) in auto)
  have "live l1 x" using ring_live [OF assms(1), of x] l1(3) by (simp add: only_at_live)
  moreover have "x \<notin> set (h' # zs)" using assms(3) by auto
  ultimately obtain l2 where l2: "list_add l1 x h' = Some l2" "ring l2 h' (x # zs)" "only_at (set (h' # x # zs)) l1 l2" using list_add_ok [OF r] by blast
  have "list_move l x h' = Some l2" using l1(1) l2(1) ring_neighbours [OF assms(1)] by (simp add: list_move_def)
  moreover have "ring l2 h (xs @ ys)" by (rule only_at_ring [OF l2(3) l1(2)]) (use d assms(3) in auto)
  moreover have "only_at (set (h # h' # x # xs @ ys @ zs)) l l2" by (rule only_at_trans [OF l1(3) l2(3)]) auto
  ultimately show ?thesis using l2(2) by blast
qed

lemma list_move_tail_ok:
  assumes "ring l h (xs @ x # ys)" "ring l h' zs" "set (h' # zs) \<inter> set (h # xs @ x # ys) = {}"
  shows "\<exists>l'. list_move_tail l x h' = Some l' \<and> ring l' h (xs @ ys) \<and> ring l' h' (zs @ [x]) \<and> only_at (set (h # h' # x # xs @ ys @ zs)) l l'"
proof -
  have d: "path l h (xs @ x # ys) h" "distinct (h # xs @ x # ys)" using assms by (auto simp: ring_def)
  obtain l1 where l1: "list_del_between l (last (h # xs)) (hd (ys @ [h])) = Some l1" "ring l1 h (xs @ ys)" "only_at (set (h # xs @ ys)) l l1"
    using list_del_between_ok [OF d refl refl] by blast
  have r: "ring l1 h' zs" by (rule only_at_ring [OF l1(3) assms(2)]) (use assms(3) in auto)
  have "live l1 x" using ring_live [OF assms(1), of x] l1(3) by (simp add: only_at_live)
  moreover have "x \<notin> set (h' # zs)" using assms(3) by auto
  ultimately obtain l2 where l2: "list_add_tail l1 x h' = Some l2" "ring l2 h' (zs @ [x])" "only_at (set (h' # x # zs)) l1 l2" using list_add_tail_ok [OF r] by blast
  have "list_move_tail l x h' = Some l2" using l1(1) l2(1) ring_neighbours [OF assms(1)] by (simp add: list_move_tail_def)
  moreover have "ring l2 h (xs @ ys)" by (rule only_at_ring [OF l2(3) l1(2)]) (use d assms(3) in auto)
  moreover have "only_at (set (h # h' # x # xs @ ys @ zs)) l l2" by (rule only_at_trans [OF l1(3) l2(3)]) auto
  ultimately show ?thesis using l2(2) by blast
qed

lemma list_empty_ok: "ring l h xs \<Longrightarrow> list_empty l h = Some (xs = [])"
  using path_next [of l h xs h] by (cases xs) (auto simp: ring_def list_empty_def linked_def)

lemma list_first_ok: "ring l h xs \<Longrightarrow> list_first_entry_or_null l h = Some (case xs of [] \<Rightarrow> NULL | x # _ \<Rightarrow> x)"
  by (cases xs) (auto simp: ring_def list_first_entry_or_null_def linked_def)

lemma list_is_last_ok: "ring l h (xs @ x # ys) \<Longrightarrow> list_is_last l x h = Some (ys = [])"
  using ring_neighbours [of l h xs x ys] by (cases ys) (auto simp: list_is_last_def ring_def)

lemma new_node_ring: "ring l h xs \<Longrightarrow> p \<notin> set (h # xs) \<Longrightarrow> ring (new_node l p n q) h xs"
  by (subst ring_cong [of h xs _ l]) (auto simp: new_node_def)

lemma free_node_ring: "ring l h xs \<Longrightarrow> p \<notin> set (h # xs) \<Longrightarrow> ring (free_node l p) h xs"
  by (subst ring_cong [of h xs _ l]) (auto simp: free_node_def)

lemma new_node_live [simp]: "live (new_node l p n q) x = (x = p \<or> live l x)"
  by (simp add: new_node_def live_def)

lemma free_node_live [simp]: "live (free_node l p) x = (x \<noteq> p \<and> live l x)"
  by (simp add: free_node_def live_def)


section \<open>The contract of the lists\<close>

text \<open>
  What a client of the lists relies on. \<open>holds s h xs\<close>: the list at \<open>h\<close> has the nodes \<open>xs\<close>;
  \<open>only S s s'\<close>: nothing but the nodes in \<open>S\<close> changes.
\<close>

locale node_lists =
  fixes holds :: "'s \<Rightarrow> nat \<Rightarrow> nat list \<Rightarrow> bool"
    and only :: "nat set \<Rightarrow> 's \<Rightarrow> 's \<Rightarrow> bool"
    and alive :: "'s \<Rightarrow> nat \<Rightarrow> bool"
    and add :: "'s \<Rightarrow> nat \<Rightarrow> nat \<Rightarrow> 's option"
    and add_tail :: "'s \<Rightarrow> nat \<Rightarrow> nat \<Rightarrow> 's option"
    and del :: "'s \<Rightarrow> nat \<Rightarrow> 's option"
  assumes add_law: "holds s h xs \<Longrightarrow> alive s x \<Longrightarrow> x \<notin> set (h # xs) \<Longrightarrow> \<exists>s'. add s x h = Some s' \<and> holds s' h (x # xs) \<and> only (set (h # x # xs)) s s'"
    and add_tail_law: "holds s h xs \<Longrightarrow> alive s x \<Longrightarrow> x \<notin> set (h # xs) \<Longrightarrow> \<exists>s'. add_tail s x h = Some s' \<and> holds s' h (xs @ [x]) \<and> only (set (h # x # xs)) s s'"
    and del_law: "holds s h (xs @ x # ys) \<Longrightarrow> \<exists>s'. del s x = Some s' \<and> holds s' h (xs @ ys) \<and> holds s' x [] \<and> only (set (h # x # xs @ ys)) s s'"
    and alive_law: "holds s h xs \<Longrightarrow> x \<in> set (h # xs) \<Longrightarrow> alive s x"
    and apart_law: "only S s s' \<Longrightarrow> holds s h xs \<Longrightarrow> S \<inter> set (h # xs) = {} \<Longrightarrow> holds s' h xs"
    and trans_law: "only S s s1 \<Longrightarrow> only T s1 s2 \<Longrightarrow> S \<subseteq> U \<Longrightarrow> T \<subseteq> U \<Longrightarrow> only U s s2"
    and distinct_law: "holds s h xs \<Longrightarrow> distinct (h # xs)"
begin

text \<open>A node goes from one list to the end, or to the front, of another.\<close>

lemma hand_over_tail:
  assumes "holds s h (xs @ x # ys)" "holds s h' zs" "set (h' # zs) \<inter> set (h # xs @ x # ys) = {}"
  shows "\<exists>s1 s2. del s x = Some s1 \<and> add_tail s1 x h' = Some s2 \<and> holds s2 h (xs @ ys) \<and> holds s2 h' (zs @ [x]) \<and>
    only (set (h # h' # x # xs @ ys @ zs)) s s2"
proof -
  obtain s1 where s1: "del s x = Some s1" "holds s1 h (xs @ ys)" "holds s1 x []" "only (set (h # x # xs @ ys)) s s1" using del_law [OF assms(1)] by blast
  have h': "holds s1 h' zs" by (rule apart_law [OF s1(4) assms(2)]) (use assms(3) in auto)
  have "x \<notin> set (h' # zs)" using assms(3) by auto
  then obtain s2 where s2: "add_tail s1 x h' = Some s2" "holds s2 h' (zs @ [x])" "only (set (h' # x # zs)) s1 s2"
    using add_tail_law [OF h' alive_law [OF s1(3)]] by auto
  have "holds s2 h (xs @ ys)" by (rule apart_law [OF s2(3) s1(2)]) (use assms(3) distinct_law [OF assms(1)] in auto)
  moreover have "only (set (h # h' # x # xs @ ys @ zs)) s s2" by (rule trans_law [OF s1(4) s2(3)]) auto
  ultimately show ?thesis using s1(1) s2(1,2) by blast
qed

lemma hand_over_front:
  assumes "holds s h (xs @ x # ys)" "holds s h' zs" "set (h' # zs) \<inter> set (h # xs @ x # ys) = {}"
  shows "\<exists>s1 s2. del s x = Some s1 \<and> add s1 x h' = Some s2 \<and> holds s2 h (xs @ ys) \<and> holds s2 h' (x # zs) \<and>
    only (set (h # h' # x # xs @ ys @ zs)) s s2"
proof -
  obtain s1 where s1: "del s x = Some s1" "holds s1 h (xs @ ys)" "holds s1 x []" "only (set (h # x # xs @ ys)) s s1" using del_law [OF assms(1)] by blast
  have h': "holds s1 h' zs" by (rule apart_law [OF s1(4) assms(2)]) (use assms(3) in auto)
  have "x \<notin> set (h' # zs)" using assms(3) by auto
  then obtain s2 where s2: "add s1 x h' = Some s2" "holds s2 h' (x # zs)" "only (set (h' # x # zs)) s1 s2"
    using add_law [OF h' alive_law [OF s1(3)]] by auto
  have "holds s2 h (xs @ ys)" by (rule apart_law [OF s2(3) s1(2)]) (use assms(3) distinct_law [OF assms(1)] in auto)
  moreover have "only (set (h # h' # x # xs @ ys @ zs)) s s2" by (rule trans_law [OF s1(4) s2(3)]) auto
  ultimately show ?thesis using s1(1) s2(1,2) by blast
qed

end

interpretation ll: node_lists ring only_at live list_add list_add_tail list_del_init
proof unfold_locales
  show "only_at S s s1 \<Longrightarrow> only_at T s1 s2 \<Longrightarrow> S \<subseteq> U \<Longrightarrow> T \<subseteq> U \<Longrightarrow> only_at U s s2" for S T U s s1 s2 by (rule only_at_trans)
  show "ring s h xs \<Longrightarrow> distinct (h # xs)" for s h xs by (simp add: ring_def)
qed (rule list_add_ok list_add_tail_ok list_del_init_ok ring_live only_at_ring; assumption)+


section \<open>Changes with nodes that come and go\<close>

definition outside_same :: "ptr set \<Rightarrow> links \<Rightarrow> links \<Rightarrow> bool" where
  "outside_same S l l' \<longleftrightarrow> (\<forall>p. p \<notin> S \<longrightarrow> nexts l' p = nexts l p \<and> prevs l' p = prevs l p)"

lemma outside_same_ring: "outside_same S l l' \<Longrightarrow> ring l h xs \<Longrightarrow> S \<inter> set (h # xs) = {} \<Longrightarrow> ring l' h xs"
  using ring_cong [of h xs l' l] unfolding outside_same_def by blast

lemma outside_same_mono: "outside_same S l l' \<Longrightarrow> S \<subseteq> U \<Longrightarrow> outside_same U l l'"
  unfolding outside_same_def by blast

lemma outside_same_trans: "outside_same S l l1 \<Longrightarrow> outside_same T l1 l2 \<Longrightarrow> S \<subseteq> U \<Longrightarrow> T \<subseteq> U \<Longrightarrow> outside_same U l l2"
  using outside_same_mono [of S l l1 U] outside_same_mono [of T l1 l2 U] by (simp add: outside_same_def)

lemma only_at_outside: "only_at S l l' \<Longrightarrow> outside_same S l l'"
  by (simp add: only_at_def outside_same_def)

lemma outside_same_refl [simp]: "outside_same S l l"
  by (simp add: outside_same_def)

lemma new_node_outside: "outside_same {p} l (new_node l p n q)"
  by (simp add: outside_same_def new_node_def)

lemma free_node_outside: "outside_same {p} l (free_node l p)"
  by (simp add: outside_same_def free_node_def)

end
