(* ===== verification/List_Sort.thy ===== *)
theory List_Sort
  imports Ptr_List "HOL-Library.Multiset"
begin

text \<open>
  \<open>list_sort\<close> of \<open>osal/mpp_list.cpp\<close>: a merge sort on the pointers of a list, bottom up. The nodes are
  taken out of the list one by one; sorted sublists wait on a stack that is linked by \<open>prev\<close>, and the
  bits of a counter say which two to merge next. The comparison reads the entries, not their links.
  The loops may run for ever on broken lists; they are partial functions.
\<close>

section \<open>Merging\<close>

text \<open>What \<open>tail\<close> points to: the local \<open>head\<close>, or the field \<open>next\<close> of a node.\<close>

datatype place = Local | Next_of ptr | Prev_of ptr

definition store :: "links \<Rightarrow> ptr \<Rightarrow> place \<Rightarrow> ptr \<Rightarrow> (links \<times> ptr) option" where
  "store l local tail v = (case tail of
     Local \<Rightarrow> Some (l, v)
   | Next_of p \<Rightarrow> do { l \<leftarrow> set_next l p v; Some (l, local) }
   | Prev_of p \<Rightarrow> do { l \<leftarrow> set_prev l p v; Some (l, local) })"

definition load :: "links \<Rightarrow> ptr \<Rightarrow> place \<Rightarrow> ptr option" where
  "load l local tail = (case tail of Local \<Rightarrow> Some local | Next_of p \<Rightarrow> nexts l p | Prev_of p \<Rightarrow> prevs l p)"

partial_function (option) merge_loop :: "(ptr \<Rightarrow> ptr \<Rightarrow> int) \<Rightarrow> links \<Rightarrow> ptr \<Rightarrow> place \<Rightarrow> ptr \<Rightarrow> ptr \<Rightarrow> (links \<times> ptr) option" where
  "merge_loop cmp l head tail a b =
     (if cmp a b \<le> 0 then do {
        s \<leftarrow> store l head tail a;
        a' \<leftarrow> nexts (fst s) a;
        if a' = NULL then store (fst s) (snd s) (Next_of a) b
        else merge_loop cmp (fst s) (snd s) (Next_of a) a' b
      }
      else do {
        s \<leftarrow> store l head tail b;
        b' \<leftarrow> nexts (fst s) b;
        if b' = NULL then store (fst s) (snd s) (Next_of b) a
        else merge_loop cmp (fst s) (snd s) (Next_of b) a b'
      })"

text \<open>The local \<open>head\<close> has no value before the first turn sets it.\<close>

definition merge :: "(ptr \<Rightarrow> ptr \<Rightarrow> int) \<Rightarrow> links \<Rightarrow> ptr \<Rightarrow> ptr \<Rightarrow> (links \<times> ptr) option" where
  "merge cmp l a b = merge_loop cmp l NULL Local a b"

text \<open>
  The last merge sets \<open>prev\<close> as well: the loop gives \<open>tail\<close> and the list that is left. The calls of
  \<open>cmp\<close> in the second loop, whose results are not used, are left out.
\<close>

partial_function (option) final_loop :: "(ptr \<Rightarrow> ptr \<Rightarrow> int) \<Rightarrow> links \<Rightarrow> ptr \<Rightarrow> ptr \<Rightarrow> ptr \<Rightarrow> (links \<times> ptr \<times> ptr) option" where
  "final_loop cmp l tail a b =
     (if cmp a b \<le> 0 then do {
        l \<leftarrow> set_next l tail a;
        l \<leftarrow> set_prev l a tail;
        a' \<leftarrow> nexts l a;
        if a' = NULL then Some (l, a, b) else final_loop cmp l a a' b
      }
      else do {
        l \<leftarrow> set_next l tail b;
        l \<leftarrow> set_prev l b tail;
        b' \<leftarrow> nexts l b;
        if b' = NULL then Some (l, b, a) else final_loop cmp l b a b'
      })"

partial_function (option) relink_loop :: "links \<Rightarrow> ptr \<Rightarrow> ptr \<Rightarrow> (links \<times> ptr) option" where
  "relink_loop l tail b = do {
     l \<leftarrow> set_prev l b tail;
     b' \<leftarrow> nexts l b;
     if b' = NULL then Some (l, b) else relink_loop l b b'
   }"

definition merge_final :: "(ptr \<Rightarrow> ptr \<Rightarrow> int) \<Rightarrow> links \<Rightarrow> ptr \<Rightarrow> ptr \<Rightarrow> ptr \<Rightarrow> links option" where
  "merge_final cmp l head a b = do {
     (l, tail, b) \<leftarrow> final_loop cmp l head a b;
     l \<leftarrow> set_next l tail b;
     (l, tail) \<leftarrow> relink_loop l tail b;
     l \<leftarrow> set_next l tail head;
     set_prev l head tail
   }"

section \<open>The sort\<close>

text \<open>Past a pending sublist for each one bit at the low end of the counter.\<close>

function skip_ones :: "links \<Rightarrow> ptr \<Rightarrow> place \<Rightarrow> nat \<Rightarrow> (place \<times> nat) option" where
  "skip_ones l pending tail bits =
     (if odd bits then do { q \<leftarrow> load l pending tail; skip_ones l pending (Prev_of q) (bits div 2) }
      else Some (tail, bits))"
  by pat_completeness auto

termination
  by (relation "measure (\<lambda>(l, pending, tail, bits). bits)") (auto elim: oddE)

declare skip_ones.simps [simp del]

text \<open>A turn of the loop: the links, \<open>pending\<close> and \<open>list\<close> after it.\<close>

definition sort_step :: "(ptr \<Rightarrow> ptr \<Rightarrow> int) \<Rightarrow> links \<Rightarrow> ptr \<Rightarrow> ptr \<Rightarrow> nat \<Rightarrow> (links \<times> ptr \<times> ptr) option" where
  "sort_step cmp l pending list cnt = do {
     (tail, bits) \<leftarrow> skip_ones l pending Local cnt;
     (l, pending) \<leftarrow>
       (if bits \<noteq> 0 then do {
          a \<leftarrow> load l pending tail;
          b \<leftarrow> prevs l a;
          (l, a) \<leftarrow> merge cmp l b a;
          p \<leftarrow> prevs l b;
          l \<leftarrow> set_prev l a p;
          store l pending tail a
        }
        else Some (l, pending));
     l \<leftarrow> set_prev l list pending;
     n \<leftarrow> nexts l list;
     l \<leftarrow> set_next l list NULL;
     Some (l, list, n)
   }"

partial_function (option) sort_loop :: "(ptr \<Rightarrow> ptr \<Rightarrow> int) \<Rightarrow> links \<Rightarrow> ptr \<Rightarrow> ptr \<Rightarrow> nat \<Rightarrow> (links \<times> ptr) option" where
  "sort_loop cmp l pending list cnt = do {
     s \<leftarrow> sort_step cmp l pending list cnt;
     if snd (snd s) = NULL then Some (fst s, fst (snd s))
     else sort_loop cmp (fst s) (fst (snd s)) (snd (snd s)) (cnt + 1)
   }"

partial_function (option) pending_loop :: "(ptr \<Rightarrow> ptr \<Rightarrow> int) \<Rightarrow> links \<Rightarrow> ptr \<Rightarrow> ptr \<Rightarrow> (links \<times> ptr \<times> ptr) option" where
  "pending_loop cmp l pending list = do {
     n \<leftarrow> prevs l pending;
     if n = NULL then Some (l, pending, list)
     else do {
       s \<leftarrow> merge cmp l pending list;
       pending_loop cmp (fst s) n (snd s)
     }
   }"

definition list_sort :: "(ptr \<Rightarrow> ptr \<Rightarrow> int) \<Rightarrow> links \<Rightarrow> ptr \<Rightarrow> links option" where
  "list_sort cmp l head = do {
     list \<leftarrow> nexts l head;
     last \<leftarrow> prevs l head;
     if list = last then Some l
     else do {
       l \<leftarrow> set_next l last NULL;
       (l, list) \<leftarrow> sort_loop cmp l NULL list 0;
       pending \<leftarrow> prevs l list;
       (l, pending, list) \<leftarrow> pending_loop cmp l pending list;
       merge_final cmp l head pending list
     }
   }"

section \<open>Merging of lists\<close>

fun mergel :: "('a \<Rightarrow> 'a \<Rightarrow> int) \<Rightarrow> 'a list \<Rightarrow> 'a list \<Rightarrow> 'a list" where
  "mergel cmp [] bs = bs"
| "mergel cmp (a # as) [] = a # as"
| "mergel cmp (a # as) (b # bs) = (if cmp a b \<le> 0 then a # mergel cmp as (b # bs) else b # mergel cmp (a # as) bs)"

lemma mset_mergel: "mset (mergel cmp as bs) = mset as + mset bs"
  by (induction cmp as bs rule: mergel.induct) auto

lemma set_mergel [simp]: "set (mergel cmp as bs) = set as \<union> set bs"
  by (induction cmp as bs rule: mergel.induct) auto

lemma length_mergel [simp]: "length (mergel cmp as bs) = length as + length bs"
  by (induction cmp as bs rule: mergel.induct) auto

lemma distinct_mergel: "distinct (as @ bs) \<Longrightarrow> distinct (mergel cmp as bs)"
  by (induction cmp as bs rule: mergel.induct) auto

text \<open>A comparison that orders by a key; merging is stable.\<close>

definition orders_by :: "('a \<Rightarrow> 'k :: linorder) \<Rightarrow> ('a \<Rightarrow> 'a \<Rightarrow> int) \<Rightarrow> bool" where
  "orders_by key cmp \<longleftrightarrow> (\<forall>a b. cmp a b \<le> 0 \<longleftrightarrow> key a \<le> key b)"

lemma orders_by_iff: "orders_by key cmp \<Longrightarrow> cmp a b \<le> 0 \<longleftrightarrow> key a \<le> key b" "orders_by key cmp \<Longrightarrow> 0 < cmp a b \<longleftrightarrow> key b < key a"
  by (auto simp: orders_by_def not_le [symmetric])

lemma mergel_sorted:
  "orders_by key cmp \<Longrightarrow> sorted (List.map key as) \<Longrightarrow> sorted (List.map key bs) \<Longrightarrow> sorted (List.map key (mergel cmp as bs))"
  by (induction cmp as bs rule: mergel.induct) (auto simp: orders_by_iff dest: order_trans less_imp_le)

lemma mergel_stable:
  "orders_by key cmp \<Longrightarrow> sorted (List.map key as) \<Longrightarrow> sorted (List.map key bs) \<Longrightarrow>
   filter (\<lambda>x. key x = k) (mergel cmp as bs) = filter (\<lambda>x. key x = k) as @ filter (\<lambda>x. key x = k) bs"
proof (induction cmp as bs rule: mergel.induct)
  case (3 cmp a as b bs)
  show ?case
  proof (cases "cmp a b \<le> 0")
    case False
    then have lt: "key b < key a" using "3.prems"(1) by (simp add: orders_by_iff)
    then have "filter (\<lambda>x. key x = key b) (a # as) = []" using "3.prems"(2) by (auto simp: filter_empty_conv)
    then show ?thesis using "3.IH"(2) [OF False "3.prems"(1,2)] "3.prems"(3) False by (cases "k = key b") auto
  qed (use 3 in auto)
qed auto

lemma mergel_sort:
  assumes "orders_by key cmp"
  shows "mergel cmp (sort_key key as) (sort_key key bs) = sort_key key (as @ bs)"
proof (rule properties_for_sort_key [symmetric])
  let ?m = "mergel cmp (sort_key key as) (sort_key key bs)"
  show "mset ?m = mset (as @ bs)" by (simp add: mset_mergel)
  show "sorted (List.map key ?m)" using assms by (intro mergel_sorted) auto
  show "filter (\<lambda>x. key k = key x) ?m = filter (\<lambda>x. key k = key x) (as @ bs)" for k
    using mergel_stable [OF assms, of "sort_key key as" "sort_key key bs" "key k"]
    by (simp add: eq_commute [of "key k"] sort_key_stable)
qed

section \<open>Chains\<close>

text \<open>The nodes of a list that ends with NULL.\<close>

fun chain :: "links \<Rightarrow> ptr \<Rightarrow> ptr list \<Rightarrow> bool" where
  "chain l p [] = (p = NULL)"
| "chain l p (x # xs) = (p = x \<and> x \<noteq> NULL \<and> (case nexts l x of None \<Rightarrow> False | Some n \<Rightarrow> chain l n xs))"

lemma chain_cong: "(\<And>x. x \<in> set xs \<Longrightarrow> nexts l' x = nexts l x) \<Longrightarrow> chain l' p xs = chain l p xs"
  by (induction xs arbitrary: p) (auto split: option.splits)

lemma chain_Cons: "chain l p (x # xs) \<longleftrightarrow> p = x \<and> x \<noteq> NULL \<and> (\<exists>n. nexts l x = Some n \<and> chain l n xs)"
  by (auto split: option.splits)

lemma chain_nonempty: "chain l p xs \<Longrightarrow> xs \<noteq> [] \<Longrightarrow> p = hd xs \<and> p \<noteq> NULL"
  by (cases xs) auto

lemma chain_null: "chain l p xs \<Longrightarrow> p = NULL \<longleftrightarrow> xs = []"
  by (cases xs) auto

text \<open>Where a store goes, and that it may.\<close>

fun place_ok :: "links \<Rightarrow> place \<Rightarrow> ptr set \<Rightarrow> bool" where
  "place_ok l Local S = True"
| "place_ok l (Next_of t) S = (t \<notin> S \<and> nexts l t \<noteq> None)"
| "place_ok l (Prev_of t) S = False"

fun place_nodes :: "place \<Rightarrow> ptr set" where
  "place_nodes (Next_of t) = {t}"
| "place_nodes _ = {}"

text \<open>Only fields \<open>next\<close> of the nodes in a set change.\<close>

definition nexts_only :: "ptr set \<Rightarrow> links \<Rightarrow> links \<Rightarrow> bool" where
  "nexts_only S l l' \<longleftrightarrow> prevs l' = prevs l \<and> (\<forall>p. p \<notin> S \<longrightarrow> nexts l' p = nexts l p) \<and> (\<forall>p. (nexts l' p = None) = (nexts l p = None))"

lemma nexts_only_trans: "nexts_only S l l1 \<Longrightarrow> nexts_only T l1 l2 \<Longrightarrow> S \<subseteq> U \<Longrightarrow> T \<subseteq> U \<Longrightarrow> nexts_only U l l2"
  unfolding nexts_only_def by (metis subsetD)

lemma nexts_only_chain: "nexts_only S l l' \<Longrightarrow> S \<inter> set xs = {} \<Longrightarrow> chain l' p xs = chain l p xs"
  unfolding nexts_only_def by (rule chain_cong) blast

lemma store_ok:
  assumes "place_ok l tail S"
  obtains l' hd' where "store l h tail v = Some (l', hd')" "nexts_only (place_nodes tail) l l'" "load l' hd' tail = Some v"
    "tail \<noteq> Local \<longrightarrow> hd' = h"
proof (cases tail)
  case (Next_of t)
  then obtain n where "nexts l t = Some n" using assms by auto
  then show thesis using Next_of by (intro that [of "l\<lparr>nexts := (nexts l)(t \<mapsto> v)\<rparr>" h]) (auto simp: store_def set_next_def nexts_only_def load_def)
qed (use assms in \<open>auto intro: that simp: store_def load_def nexts_only_def\<close>)

text \<open>A turn of the loop takes the first node \<open>x\<close> of a list; \<open>rest\<close> merges what is left of it with the other.\<close>

lemma merge_turn:
  assumes cx: "chain l x (x # xs)" and cy: "chain l y (y # ys)" and d: "distinct (x # xs @ y # ys)"
    and place: "place_ok l tail (set (x # xs) \<union> set (y # ys))" and last: "xs = [] \<Longrightarrow> ms = y # ys"
    and rest: "\<And>l1 h1 n. chain l1 n xs \<Longrightarrow> chain l1 y (y # ys) \<Longrightarrow> xs \<noteq> [] \<Longrightarrow> place_ok l1 (Next_of x) (set xs \<union> set (y # ys)) \<Longrightarrow>
      \<exists>l2 h2. rest l1 h1 n = Some (l2, h2) \<and> nexts_only (place_nodes (Next_of x) \<union> set xs \<union> set (y # ys)) l1 l2 \<and>
        (Next_of x \<noteq> Local \<longrightarrow> h2 = h1) \<and> (\<exists>p. load l2 h2 (Next_of x) = Some p \<and> chain l2 p ms)"
  shows "\<exists>l' hd'. do {
      s \<leftarrow> store l h tail x;
      n \<leftarrow> nexts (fst s) x;
      if n = NULL then store (fst s) (snd s) (Next_of x) y else rest (fst s) (snd s) n
    } = Some (l', hd') \<and> nexts_only (place_nodes tail \<union> set (x # xs) \<union> set (y # ys)) l l' \<and>
    (tail \<noteq> Local \<longrightarrow> hd' = h) \<and> (\<exists>p. load l' hd' tail = Some p \<and> chain l' p (x # ms))"
proof -
  obtain l1 h1 where s: "store l h tail x = Some (l1, h1)" "nexts_only (place_nodes tail) l l1" "load l1 h1 tail = Some x" "tail \<noteq> Local \<longrightarrow> h1 = h"
    by (rule store_ok [OF place])
  have disj: "place_nodes tail \<inter> set ((x # xs) @ (y # ys)) = {}" using place by (cases tail) auto
  have cx1: "chain l1 x (x # xs)" using nexts_only_chain [OF s(2), of "x # xs" x] disj cx by auto
  have cy1: "chain l1 y (y # ys)" using nexts_only_chain [OF s(2), of "y # ys" y] disj cy by auto
  obtain n where n: "nexts l1 x = Some n" "chain l1 n xs" using cx1 unfolding chain_Cons by blast
  have pl: "place_ok l1 (Next_of x) (set xs \<union> set (y # ys))" using d n by auto
  obtain l2 h2 p where t: "(if n = NULL then store l1 h1 (Next_of x) y else rest l1 h1 n) = Some (l2, h2)"
    "nexts_only (place_nodes (Next_of x) \<union> set xs \<union> set (y # ys)) l1 l2" "h2 = h1" "load l2 h2 (Next_of x) = Some p" "chain l2 p ms"
  proof (cases "xs = []")
    case True
    obtain l2 h2 where t: "store l1 h1 (Next_of x) y = Some (l2, h2)" "nexts_only {x} l1 l2" "load l2 h2 (Next_of x) = Some y" "h2 = h1"
      using store_ok [OF pl, of h1 y] by auto
    have "chain l2 y (y # ys)" using nexts_only_chain [OF t(2), of "y # ys" y] cy1 d by auto
    then show thesis using that [of l2 h2 y] t True n(2) last by (auto simp: nexts_only_def)
  next
    case False
    then have "n \<noteq> NULL" using chain_nonempty [OF n(2)] by simp
    then show thesis using that rest [OF n(2) cy1 False pl, of h1] by auto
  qed
  have "load l2 h2 tail = Some x" using s(3) t(2,3) disj by (cases tail) (auto simp: load_def nexts_only_def)
  moreover have "chain l2 x (x # ms)" using t(4,5) cx by (auto simp: load_def)
  moreover have "nexts_only (place_nodes tail \<union> set (x # xs) \<union> set (y # ys)) l l2" by (rule nexts_only_trans [OF s(2) t(2)]) auto
  ultimately show ?thesis using s n(1) t(1,3) by auto
qed

lemma merge_loop_ok:
  "chain l a as \<Longrightarrow> chain l b bs \<Longrightarrow> as \<noteq> [] \<Longrightarrow> bs \<noteq> [] \<Longrightarrow> distinct (as @ bs) \<Longrightarrow> place_ok l tail (set as \<union> set bs) \<Longrightarrow>
   \<exists>l' hd'. merge_loop cmp l h tail a b = Some (l', hd') \<and> nexts_only (place_nodes tail \<union> set as \<union> set bs) l l' \<and>
     (tail \<noteq> Local \<longrightarrow> hd' = h) \<and> (\<exists>p. load l' hd' tail = Some p \<and> chain l' p (mergel cmp as bs))"
proof (induction cmp as bs arbitrary: l h tail a b rule: mergel.induct)
  case (3 cmp x xs y ys)
  have ab: "a = x" "b = y" using "3.prems"(1,2) by auto
  note c = "3.prems"(1,2) [unfolded ab]
  show ?case
  proof (cases "cmp x y \<le> 0")
    case True
    have d: "distinct (x # xs @ y # ys)" using "3.prems"(5) by simp
    have last: "xs = [] \<Longrightarrow> mergel cmp xs (y # ys) = y # ys" by simp
    have d': "distinct (xs @ y # ys)" using d by simp
    have "\<exists>l' hd'. (do { s \<leftarrow> store l h tail x; n \<leftarrow> nexts (fst s) x;
        if n = NULL then store (fst s) (snd s) (Next_of x) y else merge_loop cmp (fst s) (snd s) (Next_of x) n y }) = Some (l', hd') \<and>
      nexts_only (place_nodes tail \<union> set (x # xs) \<union> set (y # ys)) l l' \<and> (tail \<noteq> Local \<longrightarrow> hd' = h) \<and>
      (\<exists>p. load l' hd' tail = Some p \<and> chain l' p (x # mergel cmp xs (y # ys)))"
      by (rule merge_turn [OF c d "3.prems"(6) last], assumption, rule "3.IH"(1) [OF True _ _ _ _ d']) auto
    then show ?thesis using True ab by (subst merge_loop.simps) (simp only: if_True mergel.simps)
  next
    case False
    have d: "distinct (y # ys @ x # xs)" using "3.prems"(5) by auto
    have last: "ys = [] \<Longrightarrow> mergel cmp (x # xs) ys = x # xs" by simp
    have d': "distinct ((x # xs) @ ys)" using d by auto
    have pl: "place_ok l tail (set (y # ys) \<union> set (x # xs))" using "3.prems"(6) by (simp add: Un_commute)
    have "\<exists>l' hd'. (do { s \<leftarrow> store l h tail y; n \<leftarrow> nexts (fst s) y;
        if n = NULL then store (fst s) (snd s) (Next_of y) x else merge_loop cmp (fst s) (snd s) (Next_of y) x n }) = Some (l', hd') \<and>
      nexts_only (place_nodes tail \<union> set (y # ys) \<union> set (x # xs)) l l' \<and> (tail \<noteq> Local \<longrightarrow> hd' = h) \<and>
      (\<exists>p. load l' hd' tail = Some p \<and> chain l' p (y # mergel cmp (x # xs) ys))"
    proof (rule merge_turn [OF c(2,1) d pl last])
      fix l1 h1 n
      assume r: "chain l1 n ys" "chain l1 x (x # xs)" "ys \<noteq> []" "place_ok l1 (Next_of y) (set ys \<union> set (x # xs))"
      have "place_ok l1 (Next_of y) (set (x # xs) \<union> set ys)" using r(4) by (simp add: Un_commute)
      from "3.IH"(2) [OF False r(2,1) _ r(3) d' this, of h1]
      show "\<exists>l2 h2. merge_loop cmp l1 h1 (Next_of y) x n = Some (l2, h2) \<and> nexts_only (place_nodes (Next_of y) \<union> set ys \<union> set (x # xs)) l1 l2 \<and>
        (Next_of y \<noteq> Local \<longrightarrow> h2 = h1) \<and> (\<exists>p. load l2 h2 (Next_of y) = Some p \<and> chain l2 p (mergel cmp (x # xs) ys))"
        by (simp add: Un_ac insert_commute)
    qed
    then show ?thesis using False ab by (subst merge_loop.simps) (simp only: if_False mergel.simps Un_ac)
  qed
qed simp_all

lemma merge_ok:
  assumes "chain l a as" "chain l b bs" "as \<noteq> []" "bs \<noteq> []" "distinct (as @ bs)"
  shows "\<exists>l' p. merge cmp l a b = Some (l', p) \<and> nexts_only (set as \<union> set bs) l l' \<and> chain l' p (mergel cmp as bs)"
  using merge_loop_ok [OF assms, of Local cmp NULL] by (auto simp: merge_def load_def)


section \<open>The last merge\<close>

text \<open>Which fields \<open>next\<close> and \<open>prev\<close> change; no node comes or goes.\<close>

definition changes :: "ptr set \<Rightarrow> ptr set \<Rightarrow> links \<Rightarrow> links \<Rightarrow> bool" where
  "changes N P l l' \<longleftrightarrow> (\<forall>p. p \<notin> N \<longrightarrow> nexts l' p = nexts l p) \<and> (\<forall>p. p \<notin> P \<longrightarrow> prevs l' p = prevs l p) \<and>
     (\<forall>p. (nexts l' p = None) = (nexts l p = None)) \<and> (\<forall>p. (prevs l' p = None) = (prevs l p = None))"

lemma changes_mono: "changes N P l l' \<Longrightarrow> N \<subseteq> M \<Longrightarrow> P \<subseteq> Q \<Longrightarrow> changes M Q l l'"
  unfolding changes_def by blast

lemma changes_trans:
  assumes "changes N P l l1" "changes N' P' l1 l2" "N \<union> N' \<subseteq> M" "P \<union> P' \<subseteq> Q"
  shows "changes M Q l l2"
proof -
  have "changes M Q l l1" "changes M Q l1 l2" using assms by (auto intro: changes_mono)
  then show ?thesis by (simp add: changes_def)
qed

lemma changes_chain: "changes N P l l' \<Longrightarrow> N \<inter> set xs = {} \<Longrightarrow> chain l' p xs = chain l p xs"
  unfolding changes_def by (rule chain_cong) blast

lemma changes_next: "changes N P l l' \<Longrightarrow> p \<notin> N \<Longrightarrow> nexts l' p = nexts l p"
  by (simp add: changes_def)

lemma changes_prev: "changes N P l l' \<Longrightarrow> p \<notin> P \<Longrightarrow> prevs l' p = prevs l p"
  by (simp add: changes_def)

lemma changes_only_at: "changes S S l l' \<Longrightarrow> only_at S l l'"
  by (auto simp: changes_def only_at_def live_def)

lemma set_next_ok: "nexts l p \<noteq> None \<Longrightarrow> \<exists>l'. set_next l p v = Some l' \<and> changes {p} {} l l' \<and> nexts l' p = Some v"
  by (auto simp: set_next_def changes_def)

lemma set_prev_ok: "prevs l p \<noteq> None \<Longrightarrow> \<exists>l'. set_prev l p v = Some l' \<and> changes {} {p} l l' \<and> prevs l' p = Some v"
  by (auto simp: set_prev_def changes_def)

text \<open>Linking \<open>x\<close> behind \<open>tail\<close> both ways.\<close>

lemma link_ok:
  assumes "nexts l tail \<noteq> None" "prevs l x \<noteq> None"
  shows "\<exists>l1 l2. set_next l tail x = Some l1 \<and> set_prev l1 x tail = Some l2 \<and> changes {tail} {x} l l2 \<and> linked l2 tail x"
proof -
  obtain l1 where l1: "set_next l tail x = Some l1" "changes {tail} {} l l1" "nexts l1 tail = Some x" using set_next_ok [OF assms(1)] by blast
  then have "prevs l1 x \<noteq> None" using assms(2) by (simp add: changes_def)
  then obtain l2 where l2: "set_prev l1 x tail = Some l2" "changes {} {x} l1 l2" "prevs l2 x = Some tail" using set_prev_ok by blast
  have "linked l2 tail x" using l1(3) l2(3) changes_next [OF l2(2), of tail] by (simp add: linked_def)
  then show ?thesis using l1(1) l2(1) changes_trans [OF l1(2) l2(2), of "{tail}" "{x}"] by auto
qed

lemma relink_loop_ok:
  "chain l b (b # bs) \<Longrightarrow> distinct (b # bs) \<Longrightarrow> \<forall>x \<in> set (b # bs). prevs l x \<noteq> None \<Longrightarrow> nexts l tail = Some b \<Longrightarrow>
   \<exists>l'. relink_loop l tail b = Some (l', last (b # bs)) \<and> changes {} (set (b # bs)) l l' \<and> path l' tail (butlast (b # bs)) (last (b # bs))"
proof (induction bs arbitrary: l tail b)
  case Nil
  then obtain l1 where "set_prev l b tail = Some l1" "changes {} {b} l l1" "prevs l1 b = Some tail" using set_prev_ok [of l b tail] by auto
  then show ?case using Nil changes_next [of "{}" "{b}" l l1] by (subst relink_loop.simps) (auto simp: linked_def split: option.splits)
next
  case (Cons c bs)
  obtain l1 where l1: "set_prev l b tail = Some l1" "changes {} {b} l l1" "prevs l1 b = Some tail" using set_prev_ok [of l b tail] Cons.prems(3) by auto
  have n: "nexts l b = Some c" "chain l c (c # bs)" "c \<noteq> NULL" using Cons.prems(1) by (auto simp: chain_Cons simp del: chain.simps)
  have c1: "chain l1 c (c # bs)" using changes_chain [OF l1(2), of "c # bs" c] n(2) by simp
  have "\<forall>x \<in> set (c # bs). prevs l1 x \<noteq> None" using Cons.prems(3) l1(2) by (simp add: changes_def)
  then obtain l' where l': "relink_loop l1 b c = Some (l', last (c # bs))" "changes {} (set (c # bs)) l1 l'" "path l' b (butlast (c # bs)) (last (c # bs))"
    using Cons.IH [OF c1, of b] Cons.prems(2) n(1) changes_next [OF l1(2), of b] by auto
  have "linked l' tail b"
    using Cons.prems(2,4) l1(3) changes_prev [OF l'(2), of b] changes_next [OF l'(2), of tail] changes_next [OF l1(2), of tail] by (simp add: linked_def)
  moreover have "relink_loop l tail b = Some (l', last (c # bs))" using l1(1) n changes_next [OF l1(2), of b] l'(1) by (subst relink_loop.simps) simp
  moreover have "changes {} (set (b # c # bs)) l l'" by (rule changes_trans [OF l1(2) l'(2)]) auto
  ultimately show ?case using l'(3) by simp
qed

text \<open>What the first loop leaves: a part of the merged list that is linked, and the rest.\<close>

definition final_part :: "links \<Rightarrow> links \<Rightarrow> ptr \<Rightarrow> ptr list \<Rightarrow> ptr set \<Rightarrow> ptr \<times> ptr \<Rightarrow> bool" where
  "final_part l l' tail ms S r \<longleftrightarrow> changes (insert tail S) S l l' \<and>
     (\<exists>ps rs. ms = ps @ fst r # rs \<and> rs \<noteq> [] \<and> path l' tail ps (fst r) \<and> chain l' (snd r) rs)"

lemma final_turn:
  assumes cx: "chain l x (x # xs)" and cy: "chain l y (y # ys)" and d: "distinct (tail # x # xs @ y # ys)"
    and live: "nexts l tail \<noteq> None" "\<forall>z \<in> set (x # xs @ y # ys). prevs l z \<noteq> None" and last: "xs = [] \<Longrightarrow> ms = y # ys"
    and rest: "\<And>l1 n. chain l1 n xs \<Longrightarrow> chain l1 y (y # ys) \<Longrightarrow> xs \<noteq> [] \<Longrightarrow> nexts l1 x \<noteq> None \<Longrightarrow> \<forall>z \<in> set (xs @ y # ys). prevs l1 z \<noteq> None \<Longrightarrow>
      \<exists>l2 r. rest l1 n = Some (l2, r) \<and> final_part l1 l2 x ms (set xs \<union> set (y # ys)) r"
  shows "\<exists>l' r. do {
      l \<leftarrow> set_next l tail x;
      l \<leftarrow> set_prev l x tail;
      n \<leftarrow> nexts l x;
      if n = NULL then Some (l, x, y) else rest l n
    } = Some (l', r) \<and> final_part l l' tail (x # ms) (set (x # xs) \<union> set (y # ys)) r"
proof -
  have "prevs l x \<noteq> None" using live(2) by simp
  then obtain l0 l1 where s: "set_next l tail x = Some l0" "set_prev l0 x tail = Some l1" "changes {tail} {x} l l1" "linked l1 tail x"
    using link_ok [OF live(1)] by blast
  have cx1: "chain l1 x (x # xs)" using changes_chain [OF s(3), of "x # xs" x] d cx by simp
  have cy1: "chain l1 y (y # ys)" using changes_chain [OF s(3), of "y # ys" y] d cy by simp
  obtain n where n: "nexts l1 x = Some n" "chain l1 n xs" using cx1 unfolding chain_Cons by blast
  have l1: "\<forall>z \<in> set (xs @ y # ys). prevs l1 z \<noteq> None" using live(2) s(3) by (simp add: changes_def)
  show ?thesis
  proof (cases "xs = []")
    case True
    have ch: "changes (insert tail (set (x # xs) \<union> set (y # ys))) (set (x # xs) \<union> set (y # ys)) l l1" by (rule changes_mono [OF s(3)]) auto
    have "x # ms = [] @ fst (x, y) # (y # ys)" "path l1 tail [] (fst (x, y))" "chain l1 (snd (x, y)) (y # ys)" using last [OF True] s(4) cy1 by auto
    then have "final_part l l1 tail (x # ms) (set (x # xs) \<union> set (y # ys)) (x, y)" using ch unfolding final_part_def by blast
    then show ?thesis using s(1,2) n True by simp
  next
    case False
    obtain l2 r where t: "rest l1 n = Some (l2, r)" "final_part l1 l2 x ms (set xs \<union> set (y # ys)) r"
      using rest [OF n(2) cy1 False _ l1] n(1) by auto
    then obtain ps rs where r: "changes (insert x (set xs \<union> set (y # ys))) (set xs \<union> set (y # ys)) l1 l2" "ms = ps @ fst r # rs" "rs \<noteq> []"
      "path l2 x ps (fst r)" "chain l2 (snd r) rs" by (auto simp: final_part_def)
    have "linked l2 tail x" using s(4) changes_next [OF r(1), of tail] changes_prev [OF r(1), of x] d by (simp add: linked_def)
    then have "path l2 tail (x # ps) (fst r)" using r(4) by simp
    moreover have "changes (insert tail (set (x # xs) \<union> set (y # ys))) (set (x # xs) \<union> set (y # ys)) l l2" by (rule changes_trans [OF s(3) r(1)]) auto
    moreover have "x # ms = (x # ps) @ fst r # rs" using r(2) by simp
    ultimately have "final_part l l2 tail (x # ms) (set (x # xs) \<union> set (y # ys)) r" using r(3,5) unfolding final_part_def by blast
    moreover have "n \<noteq> NULL" using chain_nonempty [OF n(2) False] by simp
    ultimately show ?thesis using s(1,2) n(1) t(1) by auto
  qed
qed

lemma final_loop_ok:
  "chain l a as \<Longrightarrow> chain l b bs \<Longrightarrow> as \<noteq> [] \<Longrightarrow> bs \<noteq> [] \<Longrightarrow> distinct (tail # as @ bs) \<Longrightarrow> nexts l tail \<noteq> None \<Longrightarrow>
   \<forall>z \<in> set (as @ bs). prevs l z \<noteq> None \<Longrightarrow>
   \<exists>l' r. final_loop cmp l tail a b = Some (l', r) \<and> final_part l l' tail (mergel cmp as bs) (set as \<union> set bs) r"
proof (induction cmp as bs arbitrary: l tail a b rule: mergel.induct)
  case (3 cmp x xs y ys)
  have ab: "a = x" "b = y" using "3.prems"(1,2) by auto
  note c = "3.prems"(1,2) [unfolded ab]
  show ?case
  proof (cases "cmp x y \<le> 0")
    case True
    have d: "distinct (tail # x # xs @ y # ys)" using "3.prems"(5) by simp
    have "\<exists>l' r. (do { l \<leftarrow> set_next l tail x; l \<leftarrow> set_prev l x tail; n \<leftarrow> nexts l x;
        if n = NULL then Some (l, x, y) else final_loop cmp l x n y }) = Some (l', r) \<and>
      final_part l l' tail (x # mergel cmp xs (y # ys)) (set (x # xs) \<union> set (y # ys)) r"
    proof (rule final_turn [OF c d "3.prems"(6)])
      fix l1 n
      assume r: "chain l1 n xs" "chain l1 y (y # ys)" "xs \<noteq> []" "nexts l1 x \<noteq> None" "\<forall>z \<in> set (xs @ y # ys). prevs l1 z \<noteq> None"
      have d': "distinct (x # xs @ y # ys)" using d by simp
      show "\<exists>l2 r. final_loop cmp l1 x n y = Some (l2, r) \<and> final_part l1 l2 x (mergel cmp xs (y # ys)) (set xs \<union> set (y # ys)) r"
        by (rule "3.IH"(1) [OF True r(1-3) _ d' r(4,5)]) simp
    qed (use "3.prems"(7) in auto)
    then show ?thesis using True ab by (subst final_loop.simps) (simp only: if_True mergel.simps)
  next
    case False
    have d: "distinct (tail # y # ys @ x # xs)" using "3.prems"(5) by auto
    have "\<exists>l' r. (do { l \<leftarrow> set_next l tail y; l \<leftarrow> set_prev l y tail; n \<leftarrow> nexts l y;
        if n = NULL then Some (l, y, x) else final_loop cmp l y x n }) = Some (l', r) \<and>
      final_part l l' tail (y # mergel cmp (x # xs) ys) (set (y # ys) \<union> set (x # xs)) r"
    proof (rule final_turn [OF c(2,1) d "3.prems"(6)])
      fix l1 n
      assume r: "chain l1 n ys" "chain l1 x (x # xs)" "ys \<noteq> []" "nexts l1 y \<noteq> None" "\<forall>z \<in> set (ys @ x # xs). prevs l1 z \<noteq> None"
      have d': "distinct (y # (x # xs) @ ys)" using d by auto
      show "\<exists>l2 r. final_loop cmp l1 y x n = Some (l2, r) \<and> final_part l1 l2 y (mergel cmp (x # xs) ys) (set ys \<union> set (x # xs)) r"
        using "3.IH"(2) [OF False r(2,1) _ r(3) d' r(4)] r(5) by (auto simp: Un_ac insert_commute simp del: chain.simps(2))
    qed (use "3.prems"(7) in auto)
    then show ?thesis using False ab by (subst final_loop.simps) (simp only: if_False mergel.simps Un_ac)
  qed
qed simp_all


lemma changes_path:
  "changes N P l l' \<Longrightarrow> N \<inter> set (p # xs) = {} \<Longrightarrow> P \<inter> set (xs @ [q]) = {} \<Longrightarrow> path l' p xs q = path l p xs q"
  unfolding changes_def by (rule path_cong) blast+

lemma merge_final_ok:
  assumes "chain l a as" "chain l b bs" "as \<noteq> []" "bs \<noteq> []" "distinct (head # as @ bs)" "\<forall>z \<in> set (head # as @ bs). live l z"
  shows "\<exists>l'. merge_final cmp l head a b = Some l' \<and> ring l' head (mergel cmp as bs) \<and> only_at (set (head # as @ bs)) l l'"
proof -
  have lh: "nexts l head \<noteq> None" "\<forall>z \<in> set (as @ bs). prevs l z \<noteq> None" using assms(6) by (auto simp: live_def)
  obtain l1 d r ps rs where f: "final_loop cmp l head a b = Some (l1, d, r)" "changes (insert head (set as \<union> set bs)) (set as \<union> set bs) l l1"
    "mergel cmp as bs = ps @ d # rs" "rs \<noteq> []" "path l1 head ps d" "chain l1 r rs"
    using final_loop_ok [OF assms(1-5) lh, of cmp] by (auto simp: final_part_def)
  have "distinct (mergel cmp as bs)" "head \<notin> set (mergel cmp as bs)" "set (mergel cmp as bs) = set as \<union> set bs" using assms(5) by (auto intro: distinct_mergel)
  then have dist: "distinct (head # ps @ d # rs)" and sets: "set (ps @ d # rs) = set as \<union> set bs" unfolding f(3) by auto
  have live1: "nexts l1 z \<noteq> None \<and> prevs l1 z \<noteq> None" if "z \<in> set (head # ps @ d # rs)" for z
    using assms(6) f(2) that sets unfolding changes_def live_def by (metis list.set_intros(2) set_ConsD list.set_intros(1) set_append)
  define z where "z = last rs"
  have rz: "rs = butlast rs @ [z]" using f(4) by (simp add: z_def)
  obtain rs' where rs: "rs = r # rs'" using f(4,6) by (cases rs) auto
  obtain l2 where l2: "set_next l1 d r = Some l2" "changes {d} {} l1 l2" "nexts l2 d = Some r" using set_next_ok [of l1 d r] live1 [of d] by auto
  have c2: "chain l2 r (r # rs')" using changes_chain [OF l2(2), of rs r] dist f(6) rs by simp
  have p2: "\<forall>x \<in> set (r # rs'). prevs l2 x \<noteq> None" using live1 l2(2) rs by (simp add: changes_def)
  obtain l3 where l3: "relink_loop l2 d r = Some (l3, z)" "changes {} (set rs) l2 l3" "path l3 d (butlast rs) z"
    using relink_loop_ok [OF c2 _ p2 l2(3)] dist unfolding z_def rs by auto
  have "path l2 head ps d" using changes_path [OF l2(2), of head ps d] f(5) dist by simp
  then have "path l3 head ps d" using changes_path [OF l3(2), of head ps d] dist by auto
  then have p3: "path l3 head (ps @ d # butlast rs) z" using l3(3) by (simp add: path_append)
  have dz: "distinct (head # (ps @ d # butlast rs) @ [z])" using dist rz by (metis append.assoc append_Cons)
  have zr: "z \<in> set rs" using f(4) by (simp add: z_def)
  have "nexts l3 z \<noteq> None" "prevs l3 head \<noteq> None" using live1 [of z] live1 [of head] zr l2(2) l3(2) by (auto simp: changes_def)
  then obtain l4 l5 where l5: "set_next l3 z head = Some l4" "set_prev l4 head z = Some l5" "changes {z} {head} l3 l5" "linked l5 z head" using link_ok by blast
  have "path l5 head (ps @ d # butlast rs) z" using changes_path [OF l5(3), of head "ps @ d # butlast rs" z] p3 dz by auto
  then have "path l5 head ((ps @ d # butlast rs) @ [z]) head" using l5(4) unfolding path_snoc by blast
  moreover have "(ps @ d # butlast rs) @ [z] = mergel cmp as bs" using f(3) rz by simp
  ultimately have "ring l5 head (mergel cmp as bs)" using dz by (simp add: ring_def)
  moreover have "merge_final cmp l head a b = Some l5" using f(1) l2(1) l3(1) l5(1,2) by (simp add: merge_final_def)
  moreover have "changes (set (head # as @ bs)) (set (head # as @ bs)) l l3"
    by (rule changes_trans [OF f(2) changes_trans [OF l2(2) l3(2), of "set as \<union> set bs" "set as \<union> set bs"]]) (use sets in auto)
  then have "changes (set (head # as @ bs)) (set (head # as @ bs)) l l5"
    by (rule changes_trans [OF _ l5(3)]) (use sets zr in auto)
  ultimately show ?thesis using changes_only_at by blast
qed


section \<open>The stack of sublists\<close>

text \<open>Sublists whose first nodes are linked by \<open>prev\<close>, from \<open>p\<close> to \<open>q\<close>.\<close>

fun stack :: "links \<Rightarrow> ptr \<Rightarrow> ptr list list \<Rightarrow> ptr \<Rightarrow> bool" where
  "stack l p [] q = (p = q)"
| "stack l p (xs # xss) q = (xs \<noteq> [] \<and> chain l p xs \<and> (case prevs l p of None \<Rightarrow> False | Some r \<Rightarrow> stack l r xss q))"

lemma stack_Cons: "stack l p (xs # xss) q \<longleftrightarrow> xs \<noteq> [] \<and> chain l p xs \<and> p = hd xs \<and> (\<exists>r. prevs l (hd xs) = Some r \<and> stack l r xss q)"
  using chain_nonempty [of l p xs] by (auto split: option.splits)

declare stack.simps(2) [simp del]

lemma stack_append: "stack l p (xss @ yss) q \<longleftrightarrow> (\<exists>r. stack l p xss r \<and> stack l r yss q)"
  by (induction xss arbitrary: p) (auto simp: stack_Cons)

lemma stack_nonempty: "stack l p xss q \<Longrightarrow> xs \<in> set xss \<Longrightarrow> xs \<noteq> []"
  by (induction xss arbitrary: p) (auto simp: stack_Cons)

lemma stack_heads: "stack l p xss q \<Longrightarrow> set (List.map hd xss) \<subseteq> set (List.concat xss)"
  by (induction xss arbitrary: p) (auto simp: stack_Cons)

lemma stack_changes:
  "changes N P l l' \<Longrightarrow> N \<inter> set (List.concat xss) = {} \<Longrightarrow> P \<inter> set (List.map hd xss) = {} \<Longrightarrow> stack l' p xss q = stack l p xss q"
proof (induction xss arbitrary: p)
  case (Cons xs xss)
  have "chain l' p xs = chain l p xs" by (rule changes_chain [OF Cons.prems(1)]) (use Cons.prems(2) in auto)
  moreover have "prevs l' (hd xs) = prevs l (hd xs)" by (rule changes_prev [OF Cons.prems(1)]) (use Cons.prems(3) in auto)
  moreover have "stack l' r xss q = stack l r xss q" for r by (rule Cons.IH [OF Cons.prems(1)]) (use Cons.prems(2,3) in auto)
  ultimately show ?case by (simp add: stack_Cons)
qed simp

text \<open>The place that points to what follows some sublists.\<close>

definition tail_place :: "ptr list list \<Rightarrow> place" where
  "tail_place xss = (if xss = [] then Local else Prev_of (hd (last xss)))"

lemma load_tail: "stack l p (us @ vs) q \<Longrightarrow> vs \<noteq> [] \<Longrightarrow> load l p (tail_place us) = Some (hd (hd vs))"
proof (cases us rule: rev_cases)
  case Nil
  then show "stack l p (us @ vs) q \<Longrightarrow> vs \<noteq> [] \<Longrightarrow> ?thesis" by (cases vs) (auto simp: tail_place_def load_def stack_Cons)
next
  case (snoc us' u)
  then show "stack l p (us @ vs) q \<Longrightarrow> vs \<noteq> [] \<Longrightarrow> ?thesis" by (cases vs) (auto simp: tail_place_def load_def stack_append stack_Cons)
qed

section \<open>The counter\<close>

fun bit_length :: "nat \<Rightarrow> nat" where
  "bit_length n = (if n = 0 then 0 else Suc (bit_length (n div 2)))"

function ones :: "nat \<Rightarrow> nat" where
  "ones n = (if odd n then Suc (ones (n div 2)) else 0)"
  by pat_completeness auto

termination
  by (relation "measure (\<lambda>n. n)") (auto elim: oddE)

declare bit_length.simps [simp del] ones.simps [simp del]

definition past_ones :: "nat \<Rightarrow> nat" where
  "past_ones n = n div 2 ^ ones n"

lemma past_ones_odd: "odd n \<Longrightarrow> past_ones n = past_ones (n div 2)"
  by (simp add: past_ones_def ones.simps [of n] div_mult2_eq)

lemma past_ones_even: "even n \<Longrightarrow> past_ones n = n"
  by (simp add: past_ones_def ones.simps [of n])

lemma ones_le: "ones n \<le> bit_length n"
proof (induction n rule: ones.induct)
  case (1 n)
  then show ?case by (cases "odd n") (auto simp: ones.simps [of n] bit_length.simps [of n] dest: odd_pos)
qed

text \<open>Two sublists follow those that are passed, if a one bit follows the zero; the counter gets longer otherwise.\<close>

lemma ones_room: "past_ones n \<noteq> 0 \<Longrightarrow> ones n + 2 \<le> bit_length n"
proof (induction n rule: ones.induct)
  case (1 n)
  show ?case
  proof (cases "odd n")
    case True
    then show ?thesis using 1 odd_pos [OF True] by (auto simp: ones.simps [of n] bit_length.simps [of n] past_ones_odd)
  next
    case False
    then have "n \<noteq> 0" "n div 2 \<noteq> 0" using "1.prems" by (auto simp: past_ones_even elim: evenE)
    then show ?thesis using False by (simp add: ones.simps [of n] bit_length.simps [of n] bit_length.simps [of "n div 2"])
  qed
qed

lemma bit_length_Suc: "bit_length (Suc n) = (if past_ones n = 0 then Suc (bit_length n) else bit_length n)"
proof (induction n rule: ones.induct)
  case (1 n)
  show ?case
  proof (cases "odd n")
    case True
    then have "Suc n div 2 = Suc (n div 2)" by (auto elim: oddE)
    then show ?thesis using "1.IH" [OF True] True by (auto simp: past_ones_odd bit_length.simps [of "Suc n"] bit_length.simps [of n])
  next
    case False
    then have "Suc n div 2 = n div 2" by (auto elim: evenE)
    then show ?thesis using False by (cases "n = 0") (auto simp: past_ones_even bit_length.simps [of "Suc n"] bit_length.simps [of n] bit_length.simps [of 0] bit_length.simps [of "Suc 0"])
  qed
qed

lemma skip_ones_ok:
  "stack l p (us @ vs) q \<Longrightarrow> ones n \<le> length vs \<Longrightarrow> skip_ones l p (tail_place us) n = Some (tail_place (us @ take (ones n) vs), past_ones n)"
proof (induction n arbitrary: us vs rule: ones.induct)
  case (1 n)
  show ?case
  proof (cases "odd n")
    case False
    then show ?thesis by (subst skip_ones.simps) (simp add: ones.simps [of n] past_ones_even)
  next
    case True
    then have o: "ones n = Suc (ones (n div 2))" by (simp add: ones.simps [of n])
    then obtain v ws where vs: "vs = v # ws" "ones (n div 2) \<le> length ws" using "1.prems"(2) by (cases vs) auto
    have "skip_ones l p (Prev_of (hd v)) (n div 2) = Some (tail_place ((us @ [v]) @ take (ones (n div 2)) ws), past_ones (n div 2))"
      using "1.IH" [OF True, of "us @ [v]" ws] "1.prems"(1) vs by (simp add: tail_place_def)
    then show ?thesis using True load_tail [OF "1.prems"(1)] vs(1) o by (subst skip_ones.simps) (simp add: past_ones_odd)
  qed
qed


section \<open>A turn of the sort\<close>

lemma nexts_only_changes: "nexts_only S l l' \<Longrightarrow> changes S {} l l'"
  by (simp add: nexts_only_def changes_def)

lemma changes_live: "changes N P l l' \<Longrightarrow> live l' p = live l p"
  by (simp add: changes_def live_def)

definition merge_pending :: "(ptr \<Rightarrow> ptr \<Rightarrow> int) \<Rightarrow> links \<Rightarrow> ptr \<Rightarrow> place \<Rightarrow> (links \<times> ptr) option" where
  "merge_pending cmp l pending tail = do {
     a \<leftarrow> load l pending tail;
     b \<leftarrow> prevs l a;
     (l, a) \<leftarrow> merge cmp l b a;
     p \<leftarrow> prevs l b;
     l \<leftarrow> set_prev l a p;
     store l pending tail a
   }"

text \<open>Two sublists behind others become one, which takes their place.\<close>

lemma merge_pending_ok:
  assumes st: "stack l p (us @ A # B # vs) NULL" and d: "distinct (List.concat (us @ A # B # vs))"
    and live: "\<forall>z \<in> set (List.concat (us @ A # B # vs)). live l z"
  shows "\<exists>l' p'. merge_pending cmp l p (tail_place us) = Some (l', p') \<and> stack l' p' (us @ mergel cmp B A # vs) NULL \<and>
    changes (set (List.concat (us @ A # B # vs))) (set (List.concat (us @ A # B # vs))) l l'"
proof -
  obtain r s where st': "stack l p us (hd A)" "A \<noteq> []" "chain l (hd A) A" "prevs l (hd A) = Some (hd B)" "B \<noteq> []" "chain l (hd B) B"
    "prevs l (hd B) = Some s" "stack l s vs NULL" using st by (auto simp: stack_append stack_Cons)
  have us_heads: "set (List.map hd us) \<subseteq> set (List.concat us)" and vs_heads: "set (List.map hd vs) \<subseteq> set (List.concat vs)"
    using stack_heads [OF st'(1)] stack_heads [OF st'(8)] by auto
  have ld: "load l p (tail_place us) = Some (hd A)" using load_tail [OF st] by simp
  have ba: "distinct (B @ A)" using d by auto
  obtain l1 m where m: "merge cmp l (hd B) (hd A) = Some (l1, m)" "nexts_only (set B \<union> set A) l l1" "chain l1 m (mergel cmp B A)"
    using merge_ok [OF st'(6,3,5,2) ba, of cmp] by blast
  have c1: "changes (set B \<union> set A) {} l l1" by (rule nexts_only_changes [OF m(2)])
  have ne: "mergel cmp B A \<noteq> []" using st'(2) by (metis length_0_conv length_mergel add_is_0)
  have mm: "m = hd (mergel cmp B A)" "m \<in> set A \<union> set B" using chain_nonempty [OF m(3) ne] hd_in_set [OF ne] by auto
  have "prevs l1 m \<noteq> None" using live mm(2) changes_prev [OF c1, of m] by (auto simp: live_def)
  then obtain l2 where l2: "set_prev l1 m s = Some l2" "changes {} {m} l1 l2" "prevs l2 m = Some s" using set_prev_ok by blast
  have c2: "changes (set B \<union> set A) {m} l l2" by (rule changes_trans [OF c1 l2(2)]) auto
  have dis: "(set B \<union> set A) \<inter> set (List.concat us) = {}" "(set B \<union> set A) \<inter> set (List.concat vs) = {}" using d by auto
  then have "{m} \<inter> set (List.map hd us) = {}" "{m} \<inter> set (List.map hd vs) = {}" using mm(2) us_heads vs_heads by blast+
  then have us2: "stack l2 p us (hd A)" and vs2: "stack l2 s vs NULL" using stack_changes [OF c2] st'(1,8) dis by blast+
  have mid2: "stack l2 m (mergel cmp B A # vs) NULL" using changes_chain [OF l2(2), of "mergel cmp B A" m] m(3) ne mm(1) l2(3) vs2 by (simp add: stack_Cons)
  obtain l3 p' where l3: "store l2 p (tail_place us) m = Some (l3, p')" "stack l3 p' (us @ mergel cmp B A # vs) NULL"
    "changes {} (set (List.concat us)) l2 l3"
  proof (cases us rule: rev_cases)
    case Nil
    then show thesis using that [of l2 m] mid2 by (simp add: tail_place_def store_def changes_def)
  next
    case (snoc us' u)
    have u: "stack l2 p us' (hd u)" "u \<noteq> []" "chain l2 (hd u) u" "prevs l2 (hd u) = Some (hd A)" using us2 snoc by (auto simp: stack_append stack_Cons)
    obtain l3 where l3: "set_prev l2 (hd u) m = Some l3" "changes {} {hd u} l2 l3" "prevs l3 (hd u) = Some m" using set_prev_ok [of l2 "hd u" m] u(4) by auto
    have hu: "hd u \<in> set u" using u(2) by simp
    have "set u \<inter> set (List.concat us') = {}" "set u \<inter> set (List.concat (mergel cmp B A # vs)) = {}" using d snoc by auto
    then have "{hd u} \<inter> set (List.map hd us') = {}" "{hd u} \<inter> set (List.map hd (mergel cmp B A # vs)) = {}"
      using hu stack_heads [OF u(1)] stack_heads [OF mid2] by blast+
    then have "stack l3 p us' (hd u)" "stack l3 m (mergel cmp B A # vs) NULL" using stack_changes [OF l3(2)] u(1) mid2 by blast+
    moreover have "chain l3 (hd u) u" using changes_chain [OF l3(2)] u(3) by simp
    ultimately have "stack l3 p (us @ mergel cmp B A # vs) NULL" using l3(3) u(2) snoc unfolding snoc append.assoc stack_append [of _ _ us'] append_Cons append_Nil
      by (intro exI [of _ "hd u"]) (simp add: stack_Cons [of _ _ u])
    moreover have "store l2 p (tail_place us) m = Some (l3, p)" using l3(1) snoc by (simp add: tail_place_def store_def)
    moreover have "changes {} (set (List.concat us)) l2 l3" by (rule changes_mono [OF l3(2)]) (use hu snoc in auto)
    ultimately show thesis using that by blast
  qed
  have "prevs l1 (hd B) = Some s" using changes_prev [OF c1, of "hd B"] st'(7) by simp
  then have "merge_pending cmp l p (tail_place us) = Some (l3, p')" using ld st'(4) m(1) l2(1) l3(1) by (simp add: merge_pending_def)
  moreover have "changes (set (List.concat (us @ A # B # vs))) (set (List.concat (us @ A # B # vs))) l l3"
    by (rule changes_trans [OF c2 l3(3)]) (use mm(2) in auto)
  ultimately show ?thesis using l3(2) by blast
qed

text \<open>The sublists after a turn.\<close>

definition pend_step :: "(ptr \<Rightarrow> ptr \<Rightarrow> int) \<Rightarrow> nat \<Rightarrow> ptr \<Rightarrow> ptr list list \<Rightarrow> ptr list list" where
  "pend_step cmp n x xss = [x] #
     (if past_ones n \<noteq> 0 then take (ones n) xss @ mergel cmp (xss ! (ones n + 1)) (xss ! ones n) # drop (ones n + 2) xss else xss)"

lemma pend_step_cases:
  assumes "length xss = bit_length n"
  obtains "past_ones n = 0" "pend_step cmp n x xss = [x] # xss"
  | us A B vs where "past_ones n \<noteq> 0" "xss = us @ A # B # vs" "length us = ones n" "pend_step cmp n x xss = [x] # us @ mergel cmp B A # vs"
proof (cases "past_ones n = 0")
  case False
  have n: "ones n + 2 \<le> length xss" using ones_room [OF False] assms by simp
  then have "xss = take (ones n) xss @ xss ! ones n # xss ! (ones n + 1) # drop (ones n + 2) xss" by (simp add: Cons_nth_drop_Suc)
  then show thesis using that(2) [of "take (ones n) xss" "xss ! ones n" "xss ! (ones n + 1)" "drop (ones n + 2) xss"] False n by (simp add: pend_step_def)
qed (use that(1) in \<open>simp add: pend_step_def\<close>)

lemma sort_step_ok:
  assumes st: "stack l p xss NULL" and len: "length xss = bit_length n" and d: "distinct (x # List.concat xss @ rest)"
    and cx: "chain l x (x # rest)" and live: "\<forall>z \<in> set (x # List.concat xss). live l z"
  shows "\<exists>l' n'. sort_step cmp l p x n = Some (l', x, n') \<and> stack l' x (pend_step cmp n x xss) NULL \<and> chain l' n' rest \<and>
    changes (set (x # List.concat xss)) (set (x # List.concat xss)) l l'"
proof -
  have sk: "skip_ones l p Local n = Some (tail_place (take (ones n) xss), past_ones n)"
    using skip_ones_ok [of l p "[]" xss NULL n] st ones_le [of n] len by (simp add: tail_place_def)
  have d0: "distinct (List.concat xss)" using d by simp
  obtain yss l1 p1 where m: "(if past_ones n \<noteq> 0 then merge_pending cmp l p (tail_place (take (ones n) xss)) else Some (l, p)) = Some (l1, p1)"
    "stack l1 p1 yss NULL" "changes (set (List.concat xss)) (set (List.concat xss)) l l1" "pend_step cmp n x xss = [x] # yss"
    "set (List.concat yss) = set (List.concat xss)"
  proof (rule pend_step_cases [OF len, of cmp x thesis])
    assume "past_ones n = 0" "pend_step cmp n x xss = [x] # xss"
    then show thesis using that [of l p xss] st by (simp add: changes_def)
  next
    fix us A B vs
    assume e: "past_ones n \<noteq> 0" "xss = us @ A # B # vs" "length us = ones n" "pend_step cmp n x xss = [x] # us @ mergel cmp B A # vs"
    have d': "distinct (List.concat (us @ A # B # vs))" using d0 unfolding e(2) .
    have live': "\<forall>z \<in> set (List.concat (us @ A # B # vs)). live l z" using live unfolding e(2) by simp
    obtain l1 p1 where r: "merge_pending cmp l p (tail_place us) = Some (l1, p1)" "stack l1 p1 (us @ mergel cmp B A # vs) NULL"
      "changes (set (List.concat xss)) (set (List.concat xss)) l l1"
      using merge_pending_ok [OF st [unfolded e(2)] d' live', of cmp] unfolding e(2) by blast
    have "set (List.concat (us @ mergel cmp B A # vs)) = set (List.concat xss)" unfolding e(2) by auto
    then show thesis using that [OF _ r(2,3) e(4)] r(1) e(1-3) by simp
  qed
  have xl: "live l1 x" using live changes_live [OF m(3)] by simp
  obtain l2 where l2: "set_prev l1 x p1 = Some l2" "changes {} {x} l1 l2" "prevs l2 x = Some p1" using set_prev_ok [of l1 x p1] xl by (auto simp: live_def)
  have x: "x \<notin> set (List.concat xss)" "distinct (x # rest)" using d by auto
  obtain n' where n': "nexts l x = Some n'" "chain l n' rest" "x \<noteq> NULL" using cx unfolding chain_Cons by blast
  have nx: "nexts l2 x = Some n'" using n'(1) changes_next [OF m(3) x(1)] changes_next [OF l2(2), of x] by simp
  then obtain l3 where l3: "set_next l2 x NULL = Some l3" "changes {x} {} l2 l3" "nexts l3 x = Some NULL" using set_next_ok [of l2 x NULL] by auto
  have c3: "changes {x} {x} l1 l3" by (rule changes_trans [OF l2(2) l3(2)]) auto
  have c: "changes (set (x # List.concat xss)) (set (x # List.concat xss)) l l3" by (rule changes_trans [OF m(3) c3]) auto
  have "{x} \<inter> set (List.concat yss) = {}" using x(1) unfolding m(5) by simp
  moreover from this have "{x} \<inter> set (List.map hd yss) = {}" using stack_heads [OF m(2)] by blast
  ultimately have "stack l3 p1 yss NULL" using stack_changes [OF c3] m(2) by blast
  moreover have "chain l3 x [x]" "prevs l3 x = Some p1" using l3(3) n'(3) l2(3) changes_prev [OF l3(2), of x] by auto
  ultimately have "stack l3 x (pend_step cmp n x xss) NULL" unfolding m(4) by (auto simp: stack_Cons)
  moreover have "chain l3 n' rest" using changes_chain [OF c, of rest n'] n'(2) d by auto
  moreover have "sort_step cmp l p x n = Some (l3, x, n')"
    using sk m(1) l2(1) nx l3(1) unfolding sort_step_def merge_pending_def [symmetric] by simp
  ultimately show ?thesis using c by blast
qed

section \<open>The whole sort\<close>

text \<open>The sublists hold, the newest first, sorted parts of the nodes that were taken.\<close>

definition pend_sorted :: "(ptr \<Rightarrow> 'k :: linorder) \<Rightarrow> ptr list list \<Rightarrow> ptr list \<Rightarrow> bool" where
  "pend_sorted key xss taken \<longleftrightarrow> (\<exists>yss. xss = List.map (sort_key key) yss \<and> List.concat (rev yss) = taken)"

lemma pend_sorted_step:
  assumes "pend_sorted key xss taken" "length xss = bit_length n" "orders_by key cmp"
  shows "pend_sorted key (pend_step cmp n x xss) (taken @ [x]) \<and> length (pend_step cmp n x xss) = bit_length (Suc n)"
proof -
  obtain yss where y: "xss = List.map (sort_key key) yss" "List.concat (rev yss) = taken" using assms(1) by (auto simp: pend_sorted_def)
  show ?thesis
  proof (rule pend_step_cases [OF assms(2), of cmp x])
    assume "past_ones n = 0" "pend_step cmp n x xss = [x] # xss"
    moreover have "[x] # xss = List.map (sort_key key) ([x] # yss)" "List.concat (rev ([x] # yss)) = taken @ [x]" using y by auto
    ultimately show ?thesis using assms(2) unfolding pend_sorted_def by (metis bit_length_Suc length_Cons)
  next
    fix us A B vs
    assume e: "past_ones n \<noteq> 0" "xss = us @ A # B # vs" "length us = ones n" "pend_step cmp n x xss = [x] # us @ mergel cmp B A # vs"
    obtain us' A' B' vs' where s: "yss = us' @ A' # B' # vs'" "us = List.map (sort_key key) us'" "A = sort_key key A'" "B = sort_key key B'" "vs = List.map (sort_key key) vs'"
      using y(1) e(2) by (auto simp: map_eq_append_conv Cons_eq_map_conv eq_commute [of _ "List.map _ _"])
    have "[x] # us @ mergel cmp B A # vs = List.map (sort_key key) ([x] # us' @ (B' @ A') # vs')" using s mergel_sort [OF assms(3)] by simp
    moreover have "List.concat (rev ([x] # us' @ (B' @ A') # vs')) = taken @ [x]" using y(2) s(1) by simp
    moreover have "length ([x] # us @ mergel cmp B A # vs) = bit_length (Suc n)" using assms(2) e(1,2) by (simp add: bit_length_Suc)
    ultimately show ?thesis unfolding e(4) pend_sorted_def by (intro conjI exI [of _ "[x] # us' @ (B' @ A') # vs'"])
  qed
qed

lemma pend_sorted_set: "pend_sorted key xss taken \<Longrightarrow> mset (List.concat xss) = mset taken"
proof -
  have "mset (List.concat (List.map (sort_key key) yss)) = mset (List.concat (rev yss))" for yss by (induction yss) auto
  then show "pend_sorted key xss taken \<Longrightarrow> mset (List.concat xss) = mset taken" by (auto simp: pend_sorted_def)
qed

lemma pend_sorted_facts: "pend_sorted key xss taken \<Longrightarrow> set (List.concat xss) = set taken \<and> (distinct (List.concat xss) = distinct taken)"
  using pend_sorted_set by (metis mset_eq_imp_distinct_iff mset_eq_setD)

lemma sort_loop_ok:
  assumes "orders_by key cmp"
  shows "stack l p xss NULL \<Longrightarrow> pend_sorted key xss taken \<Longrightarrow> length xss = bit_length n \<Longrightarrow> chain l x (x # rest) \<Longrightarrow>
    distinct (taken @ x # rest) \<Longrightarrow> \<forall>z \<in> set (taken @ x # rest). live l z \<Longrightarrow>
    \<exists>l' p' xss'. sort_loop cmp l p x n = Some (l', p') \<and> stack l' p' xss' NULL \<and> pend_sorted key xss' (taken @ x # rest) \<and>
      length xss' = bit_length (Suc (n + length rest)) \<and> changes (set (taken @ x # rest)) (set (taken @ x # rest)) l l'"
proof (induction rest arbitrary: l p xss taken n x)
  case Nil
  note f = pend_sorted_facts [OF Nil(2)]
  have d: "distinct (x # List.concat xss @ [])" using Nil(5) f by simp
  have lv: "\<forall>z \<in> set (x # List.concat xss). live l z" using Nil(6) f by simp
  obtain l' n' where s: "sort_step cmp l p x n = Some (l', x, n')" "stack l' x (pend_step cmp n x xss) NULL" "chain l' n' []"
    "changes (set (x # List.concat xss)) (set (x # List.concat xss)) l l'" using sort_step_ok [OF Nil(1,3) d Nil(4) lv] by blast
  have "sort_loop cmp l p x n = Some (l', x)" using s(1,3) by (subst sort_loop.simps) simp
  moreover have "set (x # List.concat xss) = set (taken @ [x])" using f by auto
  ultimately show ?case using s(2,4) pend_sorted_step [OF Nil(2,3) assms, of x] by auto
next
  case (Cons y rest)
  note f = pend_sorted_facts [OF Cons.prems(2)]
  have d: "distinct (x # List.concat xss @ y # rest)" using Cons.prems(5) f by auto
  have lv: "\<forall>z \<in> set (x # List.concat xss). live l z" using Cons.prems(6) f by simp
  obtain l1 n' where s: "sort_step cmp l p x n = Some (l1, x, n')" "stack l1 x (pend_step cmp n x xss) NULL" "chain l1 n' (y # rest)"
    "changes (set (x # List.concat xss)) (set (x # List.concat xss)) l l1" using sort_step_ok [OF Cons.prems(1,3) d Cons.prems(4) lv] by blast
  have n': "n' = y" "y \<noteq> NULL" using s(3) by auto
  note ps = pend_sorted_step [OF Cons.prems(2,3) assms, of x]
  have lv1: "\<forall>z \<in> set ((taken @ [x]) @ y # rest). live l1 z" using Cons.prems(6) changes_live [OF s(4)] by auto
  obtain l' p' xss' where r: "sort_loop cmp l1 x y (Suc n) = Some (l', p')" "stack l' p' xss' NULL" "pend_sorted key xss' ((taken @ [x]) @ y # rest)"
    "length xss' = bit_length (Suc (Suc n + length rest))" "changes (set ((taken @ [x]) @ y # rest)) (set ((taken @ [x]) @ y # rest)) l1 l'"
    using Cons.IH [OF s(2) conjunct1 [OF ps] conjunct2 [OF ps] s(3) [unfolded n'] _ lv1] Cons.prems(5) by auto
  have "sort_loop cmp l p x n = Some (l', p')" using s(1) n' r(1) by (subst sort_loop.simps) simp
  moreover have "changes (set (taken @ x # y # rest)) (set (taken @ x # y # rest)) l l'" by (rule changes_trans [OF s(4) r(5)]) (use f in auto)
  ultimately show ?case using r(2-4) by auto
qed


lemma pending_loop_ok:
  assumes "orders_by key cmp"
  shows "stack l p (List.map (sort_key key) (z # yss)) NULL \<Longrightarrow> chain l q (sort_key key ds) \<Longrightarrow> ds \<noteq> [] \<Longrightarrow> distinct (List.concat (rev (z # yss)) @ ds) \<Longrightarrow>
    \<exists>l' p' q' A B. pending_loop cmp l p q = Some (l', p', q') \<and> chain l' p' (sort_key key A) \<and> chain l' q' (sort_key key B) \<and> A \<noteq> [] \<and> B \<noteq> [] \<and>
      A @ B = List.concat (rev (z # yss)) @ ds \<and> changes (set (List.concat (z # yss) @ ds)) {} l l'"
proof (induction yss arbitrary: l q z ds p)
  case Nil
  then have z: "chain l p (sort_key key z)" "sort_key key z \<noteq> []" "p = hd (sort_key key z)" "prevs l p = Some NULL" by (auto simp: stack_Cons)
  then have "pending_loop cmp l p q = Some (l, p, q)" by (subst pending_loop.simps) simp
  moreover have "z \<noteq> []" using z(2) by auto
  ultimately show ?case using z(1) Nil(2,3) by (auto simp: changes_def)
next
  case (Cons w yss)
  have z: "chain l p (sort_key key z)" "sort_key key z \<noteq> []" "p = hd (sort_key key z)" using Cons.prems(1) by (auto simp: stack_Cons)
  obtain n where n: "prevs l p = Some n" "stack l n (List.map (sort_key key) (w # yss)) NULL" using Cons.prems(1) z(3) by (auto simp: stack_Cons)
  have nn: "n \<noteq> NULL" using n(2) chain_nonempty [of l n "sort_key key w"] by (auto simp: stack_Cons)
  have d: "distinct (sort_key key z @ sort_key key ds)" using Cons.prems(4) by auto
  obtain l1 m where m: "merge cmp l p q = Some (l1, m)" "nexts_only (set z \<union> set ds) l l1" "chain l1 m (sort_key key (z @ ds))"
    using merge_ok [OF z(1) Cons.prems(2) z(2) _ d, of cmp] Cons.prems(3) mergel_sort [OF assms, of z ds] by (metis set_sort length_0_conv length_sort)
  have c1: "changes (set z \<union> set ds) {} l l1" by (rule nexts_only_changes [OF m(2)])
  have "set (List.concat (List.map (sort_key key) (w # yss))) = set (List.concat (w # yss))" by auto
  then have "(set z \<union> set ds) \<inter> set (List.concat (List.map (sort_key key) (w # yss))) = {}" using Cons.prems(4) by auto
  then have st: "stack l1 n (List.map (sort_key key) (w # yss)) NULL" using stack_changes [OF c1 _ Int_empty_left] n(2) by blast
  have d': "distinct (List.concat (rev (w # yss)) @ z @ ds)" using Cons.prems(4) by simp
  obtain l' p' q' A B where r: "pending_loop cmp l1 n m = Some (l', p', q')" "chain l' p' (sort_key key A)" "chain l' q' (sort_key key B)" "A \<noteq> []" "B \<noteq> []"
    "A @ B = List.concat (rev (w # yss)) @ z @ ds" "changes (set (List.concat (w # yss) @ z @ ds)) {} l1 l'"
    using Cons.IH [OF st m(3) _ d'] Cons.prems(3) by auto
  have "pending_loop cmp l p q = Some (l', p', q')" using n(1) nn m(1) r(1) by (subst pending_loop.simps) simp
  moreover have "changes (set (List.concat (z # w # yss) @ ds)) {} l l'" by (rule changes_trans [OF c1 r(7)]) auto
  ultimately show ?case using r(2-6) by auto
qed

text \<open>The list as a chain, once the last link is cut.\<close>

lemma path_chain:
  "path l p xs z \<Longrightarrow> distinct (p # xs @ [z]) \<Longrightarrow> NULL \<notin> set (xs @ [z]) \<Longrightarrow> nexts l' = (nexts l)(z \<mapsto> NULL) \<Longrightarrow> chain l' (hd (xs @ [z])) (xs @ [z])"
proof (induction xs arbitrary: p)
  case (Cons x xs)
  have "chain l' (hd (xs @ [z])) (xs @ [z])" using Cons by auto
  moreover have "nexts l' x = Some (hd (xs @ [z]))" using path_next [of l x xs z] Cons.prems by auto
  ultimately show ?case using Cons.prems(3) by (simp add: chain_Cons)
qed simp

lemma bit_length_two: "2 \<le> bit_length (Suc (Suc n))"
  by (simp add: bit_length.simps [of "Suc (Suc n)"] bit_length.simps [of "Suc (n div 2)"])

lemma pend_sorted_top:
  assumes "pend_sorted key xss xs" "2 \<le> length xss"
  obtains z w yss where "xss = List.map (sort_key key) (z # w # yss)" "List.concat (rev (w # yss)) @ z = xs"
proof -
  obtain zs where zs: "xss = List.map (sort_key key) zs" "List.concat (rev zs) = xs" using assms(1) by (auto simp: pend_sorted_def)
  obtain z w yss where "zs = z # w # yss" using assms(2) zs(1) by (cases zs; cases "tl zs") auto
  then show thesis using that zs by auto
qed

lemma list_sort_ok:
  assumes r: "ring l head xs" and null: "NULL \<notin> set xs" and key: "orders_by key cmp"
  shows "\<exists>l'. list_sort cmp l head = Some l' \<and> ring l' head (sort_key key xs) \<and> only_at (set (head # xs)) l l'"
proof (cases "length xs < 2")
  case True
  then have "list_sort cmp l head = Some l" "sort_key key xs = xs"
    using r by (cases xs; cases "tl xs"; auto simp: list_sort_def ring_def linked_def)+
  then show ?thesis using r by (auto simp: only_at_def)
next
  case False
  then obtain x ys z where xs: "xs = x # ys @ [z]" by (cases xs; cases "tl xs" rule: rev_cases) auto
  have d: "distinct (head # x # ys @ [z])" using r xs by (simp add: ring_def)
  have p: "path l head (x # ys) z" "linked l z head" using r xs path_append [of l head "x # ys" z "[]" head] by (auto simp: ring_def)
  have lv: "\<forall>y \<in> set (head # xs). live l y" using ring_live [OF r] by blast
  have ends: "nexts l head = Some x" "prevs l head = Some z" using p by (auto simp: linked_def)
  obtain l1 where l1: "set_next l z NULL = Some l1" "changes {z} {} l l1" "nexts l1 = (nexts l)(z \<mapsto> NULL)"
    using p(2) by (auto simp: set_next_def linked_def changes_def)
  have c1: "chain l1 x (x # ys @ [z])" using path_chain [OF p(1) _ _ l1(3)] d null xs by simp
  have lv1: "\<forall>y \<in> set ([] @ x # ys @ [z]). live l1 y" using lv xs changes_live [OF l1(2)] by simp
  have s0: "stack l1 NULL [] NULL" "pend_sorted key [] []" "length ([] :: ptr list list) = bit_length 0" by (auto simp: pend_sorted_def bit_length.simps [of 0])
  have d0: "distinct ([] @ x # ys @ [z])" using d by simp
  obtain l2 p' xss where s: "sort_loop cmp l1 NULL x 0 = Some (l2, p')" "stack l2 p' xss NULL" "pend_sorted key xss xs"
    "length xss = bit_length (Suc (length (ys @ [z])))" "changes (set xs) (set xs) l1 l2"
    using sort_loop_ok [OF key s0 c1 d0 lv1] xs by auto
  have "2 \<le> length xss" using s(4) bit_length_two [of "length ys"] by simp
  then obtain w v yss where y: "xss = List.map (sort_key key) (w # v # yss)" "List.concat (rev (v # yss)) @ w = xs"
    by (rule pend_sorted_top [OF s(3)])
  obtain q where q: "chain l2 p' (sort_key key w)" "sort_key key w \<noteq> []" "prevs l2 p' = Some q" "stack l2 q (List.map (sort_key key) (v # yss)) NULL"
    using s(2) unfolding y(1) by (auto simp: stack_Cons)
  have wne: "w \<noteq> []" and dy: "distinct (List.concat (rev (v # yss)) @ w)" using q(2) d xs y(2) by auto
  obtain l3 p3 q3 A B where b: "pending_loop cmp l2 q p' = Some (l3, p3, q3)" "chain l3 p3 (sort_key key A)" "chain l3 q3 (sort_key key B)" "A \<noteq> []" "B \<noteq> []"
    "A @ B = xs" "changes (set (List.concat (v # yss) @ w)) {} l2 l3"
    using pending_loop_ok [OF key q(4,1) wne dy] y(2) by auto
  have sub: "set (List.concat (v # yss) @ w) \<subseteq> set xs" unfolding y(2) [symmetric] by auto
  have c3: "changes (set (head # xs)) (set (head # xs)) l l3"
    by (rule changes_trans [OF l1(2) changes_trans [OF s(5) b(7), of "set xs" "set xs"]]) (use sub xs in auto)
  have ne: "sort_key key A \<noteq> []" "sort_key key B \<noteq> []" using b(4,5) by (metis length_0_conv length_sort)+
  have dxs: "distinct (head # A @ B)" using d xs unfolding b(6) by simp
  have sab: "set xs = set A \<union> set B" unfolding b(6) [symmetric] by simp
  have dab: "distinct (head # sort_key key A @ sort_key key B)" using dxs by simp
  have lab: "\<forall>y \<in> set (head # sort_key key A @ sort_key key B). live l3 y" using lv changes_live [OF c3] unfolding b(6) [symmetric] by simp
  obtain l4 where m: "merge_final cmp l3 head p3 q3 = Some l4" "ring l4 head (mergel cmp (sort_key key A) (sort_key key B))"
    "only_at (set (head # sort_key key A @ sort_key key B)) l3 l4" using merge_final_ok [OF b(2,3) ne dab lab] by blast
  have "list_sort cmp l head = Some l4" using ends d l1(1) s(1) q(3) b(1) m(1) by (simp add: list_sort_def)
  moreover have "ring l4 head (sort_key key xs)" using m(2) mergel_sort [OF key, of A B] b(6) by simp
  moreover have "only_at (set (head # xs)) l l4" by (rule only_at_trans [OF changes_only_at [OF c3] m(3)]) (simp_all add: sab)
  ultimately show ?thesis by blast
qed

text \<open>
  C8: \<open>list_sort\<close> on any list in memory, with a comparison that orders by a key: it returns, touches
  no node but those of the list, and leaves a proper doubly linked list of the same nodes, sorted by
  the key, nodes with equal keys in the order they had.
\<close>

theorem list_sort_sorts:
  assumes "ring l head xs" "NULL \<notin> set xs" "orders_by key cmp"
  shows "\<exists>l'. list_sort cmp l head = Some l' \<and> ring l' head (sort_key key xs) \<and> only_at (set (head # xs)) l l'"
  by (rule list_sort_ok [OF assms])

lemma list_sort_sorts_witness:
  "\<exists>l'. list_sort (\<lambda>a b. int b - int a) \<lparr>nexts = [1 \<mapsto> 2, 2 \<mapsto> 3, 3 \<mapsto> 4, 4 \<mapsto> 1], prevs = [1 \<mapsto> 4, 2 \<mapsto> 1, 3 \<mapsto> 2, 4 \<mapsto> 3]\<rparr> 1 = Some l' \<and>
     ring l' 1 [4, 3, 2]"
proof -
  let ?l = "\<lparr>nexts = [1 \<mapsto> 2, 2 \<mapsto> 3, 3 \<mapsto> 4, 4 \<mapsto> 1], prevs = [1 \<mapsto> 4, 2 \<mapsto> 1, 3 \<mapsto> 2, 4 \<mapsto> 3]\<rparr>"
  have r: "ring ?l 1 [2, 3, 4]" "NULL \<notin> set [2, 3, 4 :: ptr]" by (simp_all add: ring_def linked_def)
  have k: "orders_by (\<lambda>p. - int p) (\<lambda>a b. int b - int a)" by (simp add: orders_by_def)
  show ?thesis using list_sort_sorts [OF r k] by auto
qed


end
