(* ===== verification/Mem_Pool.thy ===== *)
theory Mem_Pool
  imports Ptr_List
begin

text \<open>
  The pools of memory blocks of \<open>osal/mpp_mem_pool.cpp\<close>. A block of memory is a number; its list heads
  are addresses in it, so blocks do not overlap. The pointer a client gets is the memory behind a
  node, named by the node's block. A call of \<open>malloc\<close> is an argument of the operation: the block it
  gives, which is not in use, or \<^const>\<open>None\<close>. Access to freed memory is \<^const>\<open>None\<close>.
\<close>

section \<open>Memory\<close>

type_synonym block = nat

text \<open>A node: what \<open>check\<close> holds (a block, or 0 for NULL), its size, and the memory behind it.\<close>

record pool_node =
  nd_check :: block
  nd_size :: nat
  nd_data :: "u8 list"

record mem_pool =
  po_check :: block
  po_size :: nat
  po_used_count :: int
  po_unused_count :: int
  po_finalized :: bool

record pool_world =
  pw_links :: links
  pw_nodes :: "block \<rightharpoonup> pool_node"
  pw_pools :: "block \<rightharpoonup> mem_pool"

text \<open>The list heads: \<open>list\<close> of a node; \<open>used\<close>, \<open>unused\<close> and \<open>service_link\<close> of a pool; \<open>mLink\<close> of the service.\<close>

definition node_list :: "block \<Rightarrow> ptr" where "node_list b = 8 * b + 1"
definition used_list :: "block \<Rightarrow> ptr" where "used_list b = 8 * b + 2"
definition unused_list :: "block \<Rightarrow> ptr" where "unused_list b = 8 * b + 3"
definition service_link :: "block \<Rightarrow> ptr" where "service_link b = 8 * b + 4"
definition mLink :: ptr where "mLink = 5"

definition block_of :: "ptr \<Rightarrow> block" where "block_of p = p div 8"

lemmas heads_def = node_list_def used_list_def unused_list_def service_link_def mLink_def block_of_def

section \<open>Operations\<close>

text \<open>\<open>MppMemPoolService()\<close>.\<close>

definition pool_service :: "pool_world option" where
  "pool_service = do {
     l \<leftarrow> INIT_LIST_HEAD (new_node no_links mLink 0 0) mLink;
     Some \<lparr>pw_links = l, pw_nodes = Map.empty, pw_pools = Map.empty\<rparr>
   }"

definition get_pool :: "pool_world \<Rightarrow> nat \<Rightarrow> block option \<Rightarrow> (pool_world \<times> block) option" where
  "get_pool w sz mem = (case mem of
     None \<Rightarrow> Some (w, 0)
   | Some b \<Rightarrow> do {
       let l = new_node (new_node (new_node (pw_links w) (used_list b) 0 0) (unused_list b) 0 0) (service_link b) 0 0;
       let impl = \<lparr>po_check = b, po_size = sz, po_used_count = 0, po_unused_count = 0, po_finalized = False\<rparr>;
       l \<leftarrow> INIT_LIST_HEAD l (used_list b);
       l \<leftarrow> INIT_LIST_HEAD l (unused_list b);
       l \<leftarrow> INIT_LIST_HEAD l (service_link b);
       l \<leftarrow> list_add_tail l (service_link b) mLink;
       Some (w\<lparr>pw_links := l, pw_pools := (pw_pools w)(b \<mapsto> impl)\<rparr>, b)
     })"

text \<open>\<open>MPP_FREE(node)\<close>.\<close>

definition free_pool_node :: "pool_world \<Rightarrow> block \<Rightarrow> pool_world option" where
  "free_pool_node w b = (case pw_nodes w b of
     None \<Rightarrow> None
   | Some _ \<Rightarrow> Some (w\<lparr>pw_links := free_node (pw_links w) (node_list b), pw_nodes := (pw_nodes w)(b := None)\<rparr>))"

text \<open>The loop \<open>list_for_each_entry_safe\<close> that frees the nodes of a list; it counts them.\<close>

partial_function (option) free_nodes_loop :: "pool_world \<Rightarrow> ptr \<Rightarrow> ptr \<Rightarrow> ptr \<Rightarrow> int \<Rightarrow> (pool_world \<times> int) option" where
  "free_nodes_loop w head pos n freed =
     (if pos = head then Some (w, freed)
      else do {
        w \<leftarrow> free_pool_node w (block_of pos);
        n' \<leftarrow> nexts (pw_links w) n;
        free_nodes_loop w head n n' (freed + 1)
      })"

definition free_nodes :: "pool_world \<Rightarrow> ptr \<Rightarrow> (pool_world \<times> int) option" where
  "free_nodes w head = do {
     e \<leftarrow> list_empty (pw_links w) head;
     if e then Some (w, 0)
     else do {
       pos \<leftarrow> nexts (pw_links w) head;
       n \<leftarrow> nexts (pw_links w) pos;
       free_nodes_loop w head pos n 0
     }
   }"

text \<open>\<open>mpp_free(impl)\<close>.\<close>

definition free_pool :: "pool_world \<Rightarrow> block \<Rightarrow> pool_world" where
  "free_pool w b = w\<lparr>pw_links := free_node (free_node (free_node (pw_links w) (used_list b)) (unused_list b)) (service_link b),
     pw_pools := (pw_pools w)(b := None)\<rparr>"

text \<open>The counts are only logged; the flag \<open>finalized\<close> is set in memory that is freed at once.\<close>

definition put_pool :: "pool_world \<Rightarrow> block \<Rightarrow> pool_world option" where
  "put_pool w b = do {
     impl \<leftarrow> pw_pools w b;
     if b \<noteq> po_check impl then Some w
     else if po_finalized impl then Some w
     else do {
       (w, n) \<leftarrow> free_nodes w (unused_list b);
       let impl = impl\<lparr>po_unused_count := po_unused_count impl - n\<rparr>;
       (w, n) \<leftarrow> free_nodes w (used_list b);
       let impl = impl\<lparr>po_used_count := po_used_count impl - n\<rparr>;
       l \<leftarrow> list_del_init (pw_links w) (service_link b);
       let impl = impl\<lparr>po_finalized := True\<rparr>;
       let w = w\<lparr>pw_links := l, pw_pools := (pw_pools w)(b \<mapsto> impl)\<rparr>;
       Some (free_pool w b)
     }
   }"

text \<open>\<open>~MppMemPoolService()\<close>.\<close>

partial_function (option) put_pools_loop :: "pool_world \<Rightarrow> ptr \<Rightarrow> ptr \<Rightarrow> pool_world option" where
  "put_pools_loop w pos n =
     (if pos = mLink then Some w
      else do {
        w \<leftarrow> put_pool w (block_of pos);
        n' \<leftarrow> nexts (pw_links w) n;
        put_pools_loop w n n'
      })"

definition pool_service_end :: "pool_world \<Rightarrow> pool_world option" where
  "pool_service_end w = do {
     e \<leftarrow> list_empty (pw_links w) mLink;
     if e then Some w
     else do {
       pos \<leftarrow> nexts (pw_links w) mLink;
       n \<leftarrow> nexts (pw_links w) pos;
       put_pools_loop w pos n
     }
   }"

definition mpp_mem_pool_init :: "pool_world \<Rightarrow> nat \<Rightarrow> block option \<Rightarrow> (pool_world \<times> block) option" where
  "mpp_mem_pool_init w sz mem = get_pool w sz mem"

definition mpp_mem_pool_deinit :: "pool_world \<Rightarrow> block \<Rightarrow> pool_world option" where
  "mpp_mem_pool_deinit w b = put_pool w b"

text \<open>\<open>memset(node->ptr, 0, node->size)\<close>: the memory must be that large.\<close>

definition zero_node :: "pool_node \<Rightarrow> pool_node option" where
  "zero_node node = (if nd_size node \<le> length (nd_data node)
     then Some (node\<lparr>nd_data := replicate (nd_size node) 0 @ drop (nd_size node) (nd_data node)\<rparr>) else None)"

definition finish_get :: "pool_world \<Rightarrow> block \<Rightarrow> (pool_world \<times> block) option" where
  "finish_get w b = do {
     node \<leftarrow> pw_nodes w b;
     node \<leftarrow> zero_node node;
     Some (w\<lparr>pw_nodes := (pw_nodes w)(b \<mapsto> node)\<rparr>, b)
   }"

text \<open>The result is the block of the node, or 0 for NULL; \<open>junk\<close> is what fresh memory holds.\<close>

definition mpp_mem_pool_get :: "pool_world \<Rightarrow> block \<Rightarrow> block option \<Rightarrow> u8 list \<Rightarrow> (pool_world \<times> block) option" where
  "mpp_mem_pool_get w p mem junk = do {
     impl \<leftarrow> pw_pools w p;
     e \<leftarrow> list_empty (pw_links w) (unused_list p);
     if \<not> e then do {
       first \<leftarrow> nexts (pw_links w) (unused_list p);
       let b = block_of first;
       l \<leftarrow> list_del_init (pw_links w) (node_list b);
       l \<leftarrow> list_add_tail l (node_list b) (used_list p);
       let impl = impl\<lparr>po_unused_count := po_unused_count impl - 1, po_used_count := po_used_count impl + 1\<rparr>;
       node \<leftarrow> pw_nodes w b;
       finish_get (w\<lparr>pw_links := l, pw_pools := (pw_pools w)(p \<mapsto> impl), pw_nodes := (pw_nodes w)(b \<mapsto> node\<lparr>nd_check := b\<rparr>)\<rparr>) b
     }
     else (case mem of
       None \<Rightarrow> Some (w, 0)
     | Some b \<Rightarrow> do {
         let node = \<lparr>nd_check = b, nd_size = po_size impl, nd_data = take (po_size impl) (junk @ replicate (po_size impl) 0)\<rparr>;
         l \<leftarrow> INIT_LIST_HEAD (new_node (pw_links w) (node_list b) 0 0) (node_list b);
         l \<leftarrow> list_add_tail l (node_list b) (used_list p);
         let impl = impl\<lparr>po_used_count := po_used_count impl + 1\<rparr>;
         finish_get (w\<lparr>pw_links := l, pw_pools := (pw_pools w)(p \<mapsto> impl), pw_nodes := (pw_nodes w)(b \<mapsto> node)\<rparr>) b
       })
   }"

definition mpp_mem_pool_put :: "pool_world \<Rightarrow> block \<Rightarrow> block \<Rightarrow> pool_world option" where
  "mpp_mem_pool_put w p b = do {
     impl \<leftarrow> pw_pools w p;
     if p \<noteq> po_check impl then Some w
     else do {
       node \<leftarrow> pw_nodes w b;
       if b \<noteq> nd_check node then Some w
       else do {
         l \<leftarrow> list_del_init (pw_links w) (node_list b);
         l \<leftarrow> list_add l (node_list b) (unused_list p);
         let impl = impl\<lparr>po_used_count := po_used_count impl - 1, po_unused_count := po_unused_count impl + 1\<rparr>;
         Some (w\<lparr>pw_links := l, pw_pools := (pw_pools w)(p \<mapsto> impl), pw_nodes := (pw_nodes w)(b \<mapsto> node\<lparr>nd_check := 0\<rparr>)\<rparr>)
       }
     }
   }"

section \<open>What the pools hold\<close>

text \<open>The nodes \<open>us\<close> of a pool are with clients, the nodes \<open>vs\<close> are not.\<close>

definition node_ok :: "pool_world \<Rightarrow> nat \<Rightarrow> block \<Rightarrow> block \<Rightarrow> bool" where
  "node_ok w sz c b = (case pw_nodes w b of None \<Rightarrow> False | Some nd \<Rightarrow> nd_check nd = c \<and> nd_size nd = sz \<and> length (nd_data nd) = sz)"

definition pool_ok :: "pool_world \<Rightarrow> block \<Rightarrow> block list \<times> block list \<Rightarrow> bool" where
  "pool_ok w p uv = (case pw_pools w p of None \<Rightarrow> False | Some impl \<Rightarrow>
     po_check impl = p \<and> \<not> po_finalized impl \<and> po_used_count impl = int (length (fst uv)) \<and> po_unused_count impl = int (length (snd uv)) \<and>
     ring (pw_links w) (used_list p) (List.map node_list (fst uv)) \<and> ring (pw_links w) (unused_list p) (List.map node_list (snd uv)) \<and>
     (\<forall>b \<in> set (fst uv). node_ok w (po_size impl) b b) \<and> (\<forall>b \<in> set (snd uv). node_ok w (po_size impl) 0 b))"

definition blocks :: "block \<Rightarrow> block list \<times> block list \<Rightarrow> block list" where
  "blocks p uv = p # fst uv @ snd uv"

definition pools_ok :: "pool_world \<Rightarrow> block list \<Rightarrow> (block \<Rightarrow> block list \<times> block list) \<Rightarrow> bool" where
  "pools_ok w ps A \<longleftrightarrow> ring (pw_links w) mLink (List.map service_link ps) \<and> (\<forall>p \<in> set ps. pool_ok w p (A p)) \<and>
     distinct (0 # List.concat (List.map (\<lambda>p. blocks p (A p)) ps)) \<and> (\<forall>p. pw_pools w p \<noteq> None \<longrightarrow> p \<in> set ps) \<and>
     (\<forall>b. pw_nodes w b \<noteq> None \<longrightarrow> (\<exists>p \<in> set ps. b \<in> set (fst (A p) @ snd (A p))))"

text \<open>Memory that \<open>malloc\<close> may give.\<close>

definition fresh_block :: "pool_world \<Rightarrow> block option \<Rightarrow> bool" where
  "fresh_block w mem = (case mem of None \<Rightarrow> True | Some b \<Rightarrow> b \<noteq> 0 \<and> pw_nodes w b = None \<and> pw_pools w b = None)"

lemma block_of_heads [simp]: "block_of (node_list b) = b" "block_of (service_link b) = b" "block_of (used_list b) = b" "block_of (unused_list b) = b"
  by (simp_all add: heads_def)

lemma heads_eq [simp]:
  "node_list a = node_list b \<longleftrightarrow> a = b" "used_list a = used_list b \<longleftrightarrow> a = b" "unused_list a = unused_list b \<longleftrightarrow> a = b" "service_link a = service_link b \<longleftrightarrow> a = b"
  by (auto simp: heads_def)

lemma heads_differ [simp]:
  "node_list a \<noteq> used_list b" "used_list b \<noteq> node_list a" "node_list a \<noteq> unused_list b" "unused_list b \<noteq> node_list a"
  "node_list a \<noteq> service_link b" "service_link b \<noteq> node_list a" "node_list a \<noteq> mLink" "mLink \<noteq> node_list a"
  "used_list a \<noteq> unused_list b" "unused_list b \<noteq> used_list a" "used_list a \<noteq> service_link b" "service_link b \<noteq> used_list a"
  "used_list a \<noteq> mLink" "mLink \<noteq> used_list a" "unused_list a \<noteq> service_link b" "service_link b \<noteq> unused_list a"
  "unused_list a \<noteq> mLink" "mLink \<noteq> unused_list a" "service_link a \<noteq> mLink" "mLink \<noteq> service_link a"
  unfolding heads_def by presburger+

lemma inj_heads [simp]: "inj_on node_list S" "inj_on service_link S"
  by (auto intro: inj_onI)

text \<open>The list heads of a pool.\<close>

definition pool_heads :: "block \<Rightarrow> block list \<times> block list \<Rightarrow> ptr set" where
  "pool_heads p uv = {used_list p, unused_list p} \<union> node_list ` set (fst uv @ snd uv)"

lemma pool_heads_blocks: "h \<in> pool_heads p uv \<Longrightarrow> block_of h \<in> set (blocks p uv)"
  unfolding pool_heads_def blocks_def by (elim UnE insertE emptyE imageE) simp_all

lemma pool_heads_apart: "set (blocks p uv) \<inter> set (blocks q uv') = {} \<Longrightarrow> pool_heads p uv \<inter> pool_heads q uv' = {}"
  using pool_heads_blocks by blast

lemma service_apart: "pool_heads p uv \<inter> set (mLink # List.map service_link ps) = {}"
  by (auto simp: pool_heads_def)

lemma pool_ok_rings: "pool_ok w p uv \<Longrightarrow> ring (pw_links w) (used_list p) (List.map node_list (fst uv)) \<and> ring (pw_links w) (unused_list p) (List.map node_list (snd uv))"
  by (simp add: pool_ok_def split: option.splits)

text \<open>A change elsewhere leaves a pool as it is.\<close>

lemma pool_ok_frame:
  assumes "pool_ok w p uv" "outside_same S (pw_links w) (pw_links w')" "S \<inter> pool_heads p uv = {}" "pw_pools w' p = pw_pools w p"
    "\<And>b. b \<in> set (fst uv @ snd uv) \<Longrightarrow> pw_nodes w' b = pw_nodes w b"
  shows "pool_ok w' p uv"
proof -
  have "ring (pw_links w') (used_list p) (List.map node_list (fst uv))"
    by (rule outside_same_ring [OF assms(2) conjunct1 [OF pool_ok_rings [OF assms(1)]]]) (use assms(3) in \<open>auto simp: pool_heads_def\<close>)
  moreover have "ring (pw_links w') (unused_list p) (List.map node_list (snd uv))"
    by (rule outside_same_ring [OF assms(2) conjunct2 [OF pool_ok_rings [OF assms(1)]]]) (use assms(3) in \<open>auto simp: pool_heads_def\<close>)
  moreover have "node_ok w' sz c b = node_ok w sz c b" if "b \<in> set (fst uv @ snd uv)" for sz c b
    using assms(5) [OF that] by (simp add: node_ok_def)
  ultimately show ?thesis using assms(1,4) by (auto simp: pool_ok_def split: option.splits)
qed

text \<open>The blocks of the pools.\<close>

definition all_blocks :: "block list \<Rightarrow> (block \<Rightarrow> block list \<times> block list) \<Rightarrow> block list" where
  "all_blocks ps A = List.concat (List.map (\<lambda>p. blocks p (A p)) ps)"

lemma all_blocks_set: "set (all_blocks ps A) = (\<Union>p \<in> set ps. set (blocks p (A p)))"
  by (auto simp: all_blocks_def)

lemma distinct_blocks: "distinct (all_blocks ps A) \<Longrightarrow> p \<in> set ps \<Longrightarrow> distinct (blocks p (A p))"
  by (induction ps) (auto simp: all_blocks_def)

lemma blocks_apart: "distinct (all_blocks ps A) \<Longrightarrow> p \<in> set ps \<Longrightarrow> q \<in> set ps \<Longrightarrow> p \<noteq> q \<Longrightarrow> set (blocks p (A p)) \<inter> set (blocks q (A q)) = {}"
  by (induction ps) (auto simp: all_blocks_def)

lemma distinct_pools: "distinct (all_blocks ps A) \<Longrightarrow> distinct ps"
  by (induction ps) (auto simp: all_blocks_def blocks_def)

lemma all_blocks_update:
  assumes "distinct (all_blocks ps A)" "p \<in> set ps" "distinct (blocks p uv)" "set (blocks p uv) \<inter> (\<Union>q \<in> set ps - {p}. set (blocks q (A q))) = {}"
  shows "distinct (all_blocks ps (A(p := uv)))"
  using assms
proof (induction ps)
  case (Cons q ps)
  have d: "distinct (all_blocks ps A)" "distinct (q # ps)" using Cons.prems(1) distinct_pools [OF Cons.prems(1)] by (auto simp: all_blocks_def)
  show ?case
  proof (cases "q = p")
    case True
    then have same: "all_blocks ps (A(p := uv)) = all_blocks ps A" using d(2) unfolding all_blocks_def by (intro arg_cong [of _ _ List.concat] map_cong) auto
    have "set (blocks p uv) \<inter> set (all_blocks ps A) = {}" using Cons.prems(4) True d(2) unfolding all_blocks_set by auto
    then show ?thesis using d(1) Cons.prems(3) same True by (simp add: all_blocks_def)
  next
    case False
    then have p: "p \<in> set ps" using Cons.prems(2) by simp
    have ih: "distinct (all_blocks ps (A(p := uv)))" by (rule Cons.IH [OF d(1) p Cons.prems(3)]) (use Cons.prems(4) in auto)
    have old: "set (blocks q (A q)) \<inter> set (all_blocks ps A) = {}" using Cons.prems(1) by (simp add: all_blocks_def)
    have new: "set (blocks q (A q)) \<inter> set (blocks p uv) = {}" using Cons.prems(4) False by fastforce
    have "set (blocks q (A q)) \<inter> set (blocks r ((A(p := uv)) r)) = {}" if "r \<in> set ps" for r
      using old new that unfolding all_blocks_set by (cases "r = p") (simp_all, blast)
    then have "set (blocks q (A q)) \<inter> set (all_blocks ps (A(p := uv))) = {}" unfolding all_blocks_set by blast
    then show ?thesis using ih False Cons.prems(1) by (simp add: all_blocks_def)
  qed
qed simp

lemma pools_okD:
  assumes "pools_ok w ps A"
  shows "ring (pw_links w) mLink (List.map service_link ps)" "p \<in> set ps \<Longrightarrow> pool_ok w p (A p)" "distinct (all_blocks ps A)" "0 \<notin> set (all_blocks ps A)"
    "pw_pools w p \<noteq> None \<Longrightarrow> p \<in> set ps" "pw_nodes w b \<noteq> None \<Longrightarrow> \<exists>p \<in> set ps. b \<in> set (fst (A p) @ snd (A p))"
  using assms by (auto simp: pools_ok_def all_blocks_def)

text \<open>A change of one pool, its nodes and their lists.\<close>

lemma pools_ok_update:
  assumes ok: "pools_ok w ps A" and p: "p \<in> set ps" and new: "pool_ok w' p uv"
    and links: "outside_same (pool_heads p (A p) \<union> pool_heads p uv) (pw_links w) (pw_links w')"
    and dist: "distinct (0 # blocks p uv)" and apart: "set (blocks p uv) \<inter> (\<Union>q \<in> set ps - {p}. set (blocks q (A q))) = {}"
    and same: "\<And>q. q \<noteq> p \<Longrightarrow> pw_pools w' q = pw_pools w q" "\<And>b. b \<notin> set (fst (A p) @ snd (A p)) \<Longrightarrow> b \<notin> set (fst uv @ snd uv) \<Longrightarrow> pw_nodes w' b = pw_nodes w b"
    and only_uv: "\<And>b. b \<in> set (fst (A p) @ snd (A p)) \<Longrightarrow> b \<notin> set (fst uv @ snd uv) \<Longrightarrow> pw_nodes w' b = None"
  shows "pools_ok w' ps (A(p := uv))"
proof -
  have d: "distinct (all_blocks ps (A(p := uv)))" by (rule all_blocks_update [OF pools_okD(3) [OF ok] p]) (use dist apart in auto)
  have z: "0 \<notin> set (all_blocks ps (A(p := uv)))"
    using pools_okD(4) [OF ok] dist unfolding all_blocks_set by (auto split: if_splits)
  have r: "ring (pw_links w') mLink (List.map service_link ps)"
    by (rule outside_same_ring [OF links pools_okD(1) [OF ok]]) (simp only: Int_Un_distrib2 service_apart Un_empty)
  have pools: "pool_ok w' q ((A(p := uv)) q)" if q: "q \<in> set ps" for q
  proof (cases "q = p")
    case False
    have a: "set (blocks p (A p)) \<inter> set (blocks q (A q)) = {}" "set (blocks p uv) \<inter> set (blocks q (A q)) = {}"
      using blocks_apart [OF pools_okD(3) [OF ok] p q] apart False q by auto
    have h: "(pool_heads p (A p) \<union> pool_heads p uv) \<inter> pool_heads q (A q) = {}" using pool_heads_apart [OF a(1)] pool_heads_apart [OF a(2)] by blast
    have "pw_nodes w' b = pw_nodes w b" if "b \<in> set (fst (A q) @ snd (A q))" for b
      by (rule same(2)) (use a that in \<open>auto simp: blocks_def\<close>)
    then have "pool_ok w' q (A q)" by (rule pool_ok_frame [OF pools_okD(2) [OF ok q] links h same(1) [OF False]])
    then show ?thesis using False by simp
  qed (use new in simp)
  have "q \<in> set ps" if "pw_pools w' q \<noteq> None" for q using pools_okD(5) [OF ok, of q] same(1) [of q] that p by (cases "q = p") auto
  moreover have "\<exists>q \<in> set ps. b \<in> set (fst ((A(p := uv)) q) @ snd ((A(p := uv)) q))" if b: "pw_nodes w' b \<noteq> None" for b
  proof (cases "b \<in> set (fst uv @ snd uv)")
    case True
    then show ?thesis using p by (intro bexI [of _ p]) auto
  next
    case False
    then have "b \<notin> set (fst (A p) @ snd (A p))" using only_uv b by auto
    then obtain q where "q \<in> set ps" "b \<in> set (fst (A q) @ snd (A q))" "q \<noteq> p" using pools_okD(6) [OF ok, of b] same(2) [of b] b False by auto
    then show ?thesis by (intro bexI [of _ q]) auto
  qed
  ultimately show ?thesis using r pools d z by (auto simp: pools_ok_def all_blocks_def)
qed


section \<open>The operations keep the pools\<close>

text \<open>The size of a pool's blocks, and memory that is all zero.\<close>

definition pool_size :: "pool_world \<Rightarrow> block \<Rightarrow> nat" where
  "pool_size w p = (case pw_pools w p of None \<Rightarrow> 0 | Some impl \<Rightarrow> po_size impl)"

definition zeroed :: "pool_world \<Rightarrow> block \<Rightarrow> nat \<Rightarrow> bool" where
  "zeroed w b sz = (case pw_nodes w b of None \<Rightarrow> False | Some nd \<Rightarrow> nd_data nd = replicate sz 0)"

lemma finish_get_ok:
  assumes "pw_nodes w b = Some nd" "length (nd_data nd) = nd_size nd"
  shows "finish_get w b = Some (w\<lparr>pw_nodes := (pw_nodes w)(b \<mapsto> nd\<lparr>nd_data := replicate (nd_size nd) 0\<rparr>)\<rparr>, b)"
  using assms by (simp add: finish_get_def zero_node_def)

lemma pool_parts:
  assumes "pools_ok w ps A" "p \<in> set ps"
  obtains impl where "pw_pools w p = Some impl" "po_check impl = p" "\<not> po_finalized impl" "po_used_count impl = int (length (fst (A p)))"
    "po_unused_count impl = int (length (snd (A p)))" "ring (pw_links w) (used_list p) (List.map node_list (fst (A p)))"
    "ring (pw_links w) (unused_list p) (List.map node_list (snd (A p)))" "\<forall>b \<in> set (fst (A p)). node_ok w (po_size impl) b b"
    "\<forall>b \<in> set (snd (A p)). node_ok w (po_size impl) 0 b"
  using pools_okD(2) [OF assms] by (auto simp: pool_ok_def split: option.splits)

lemma own_blocks:
  assumes "pools_ok w ps A" "p \<in> set ps"
  shows "distinct (0 # blocks p (A p))" "set (blocks p (A p)) \<inter> (\<Union>q \<in> set ps - {p}. set (blocks q (A q))) = {}"
proof -
  show "distinct (0 # blocks p (A p))"
    using distinct_blocks [OF pools_okD(3) [OF assms(1)] assms(2)] pools_okD(4) [OF assms(1)] assms(2) by (auto simp: all_blocks_set)
  show "set (blocks p (A p)) \<inter> (\<Union>q \<in> set ps - {p}. set (blocks q (A q))) = {}"
    using blocks_apart [OF pools_okD(3) [OF assms(1)] assms(2)] by blast
qed

lemma node_ok_other: "(\<And>b. b \<in> S \<Longrightarrow> pw_nodes w' b = pw_nodes w b) \<Longrightarrow> \<forall>b \<in> S. node_ok w sz (c b) b \<Longrightarrow> \<forall>b \<in> S. node_ok w' sz (c b) b"
  by (simp add: node_ok_def)

text \<open>A block that a client gave back is given out again, the last one first.\<close>

lemma get_reuses:
  assumes ok: "pools_ok w ps A" and p: "p \<in> set ps" and A: "A p = (us, v # vs)"
  shows "\<exists>w'. mpp_mem_pool_get w p mem junk = Some (w', v) \<and> pools_ok w' ps (A(p := (us @ [v], vs))) \<and> zeroed w' v (pool_size w p)"
proof -
  obtain impl where i: "pw_pools w p = Some impl" "po_check impl = p" "\<not> po_finalized impl" "po_used_count impl = int (length us)"
    "po_unused_count impl = int (length (v # vs))" "ring (pw_links w) (used_list p) (List.map node_list us)"
    "ring (pw_links w) (unused_list p) (List.map node_list (v # vs))" "\<forall>b \<in> set us. node_ok w (po_size impl) b b"
    "\<forall>b \<in> set (v # vs). node_ok w (po_size impl) 0 b" using pool_parts [OF ok p] A by auto
  have d: "distinct (0 # p # us @ v # vs)" using own_blocks(1) [OF ok p] A by (simp add: blocks_def)
  have r: "ring (pw_links w) (unused_list p) ([] @ node_list v # List.map node_list vs)" using i(7) by simp
  have dj: "set (used_list p # List.map node_list us) \<inter> set (unused_list p # [] @ node_list v # List.map node_list vs) = {}" using d by auto
  obtain l1 l2 where l: "list_del_init (pw_links w) (node_list v) = Some l1" "list_add_tail l1 (node_list v) (used_list p) = Some l2"
    "ring l2 (unused_list p) (List.map node_list vs)" "ring l2 (used_list p) (List.map node_list (us @ [v]))"
    "only_at (set (unused_list p # used_list p # node_list v # [] @ List.map node_list vs @ List.map node_list us)) (pw_links w) l2"
    using ll.hand_over_tail [OF r i(6) dj] by auto
  obtain nd where nd: "pw_nodes w v = Some nd" "nd_size nd = po_size impl" "length (nd_data nd) = po_size impl" using i(9) by (auto simp: node_ok_def split: option.splits)
  define w' where "w' = w\<lparr>pw_links := l2, pw_pools := (pw_pools w)(p \<mapsto> impl\<lparr>po_unused_count := po_unused_count impl - 1, po_used_count := po_used_count impl + 1\<rparr>),
    pw_nodes := (pw_nodes w)(v \<mapsto> nd\<lparr>nd_check := v, nd_data := replicate (po_size impl) 0\<rparr>)\<rparr>"
  have wl: "pw_links w' = l2" by (simp add: w'_def)
  have first: "list_empty (pw_links w) (unused_list p) = Some False" "nexts (pw_links w) (unused_list p) = Some (node_list v)"
    using i(7) list_empty_ok [OF i(7)] by (auto simp: ring_def linked_def)
  have "mpp_mem_pool_get w p mem junk = Some (w', v)"
    using i(1) first l(1,2) nd by (simp add: mpp_mem_pool_get_def w'_def finish_get_ok [of _ v "nd\<lparr>nd_check := v\<rparr>"])
  moreover have "pools_ok w' ps (A(p := (us @ [v], vs)))"
  proof (rule pools_ok_update [OF ok p])
    have us: "\<forall>b \<in> set us. node_ok w' (po_size impl) b b" by (rule node_ok_other [OF _ i(8)]) (use d in \<open>auto simp: w'_def\<close>)
    have "\<forall>b \<in> set vs. node_ok w (po_size impl) 0 b" using i(9) by simp
    then have vs: "\<forall>b \<in> set vs. node_ok w' (po_size impl) 0 b" by (rule node_ok_other [rotated]) (use d in \<open>auto simp: w'_def\<close>)
    show "pool_ok w' p (us @ [v], vs)" using i l(3,4) us vs nd(2) by (simp add: pool_ok_def w'_def node_ok_def)
    show "outside_same (pool_heads p (A p) \<union> pool_heads p (us @ [v], vs)) (pw_links w) (pw_links w')"
      unfolding wl by (rule outside_same_mono [OF only_at_outside [OF l(5)]]) (auto simp: pool_heads_def A)
    show "distinct (0 # blocks p (us @ [v], vs))" using d by (auto simp: blocks_def)
    show "set (blocks p (us @ [v], vs)) \<inter> (\<Union>q \<in> set ps - {p}. set (blocks q (A q))) = {}" using own_blocks(2) [OF ok p] A by (simp add: blocks_def)
  qed (auto simp: w'_def A)
  moreover have "zeroed w' v (pool_size w p)" by (simp add: zeroed_def w'_def pool_size_def i(1))
  ultimately show ?thesis by blast
qed

text \<open>With no block at hand a new one is allocated, or NULL returned.\<close>

lemma get_allocates:
  assumes ok: "pools_ok w ps A" and p: "p \<in> set ps" and A: "A p = (us, [])" and b: "fresh_block w (Some b)"
  shows "\<exists>w'. mpp_mem_pool_get w p (Some b) junk = Some (w', b) \<and> pools_ok w' ps (A(p := (us @ [b], []))) \<and> zeroed w' b (pool_size w p)"
proof -
  obtain impl where i: "pw_pools w p = Some impl" "po_check impl = p" "\<not> po_finalized impl" "po_used_count impl = int (length us)"
    "po_unused_count impl = 0" "ring (pw_links w) (used_list p) (List.map node_list us)"
    "ring (pw_links w) (unused_list p) []" "\<forall>b \<in> set us. node_ok w (po_size impl) b b" using pool_parts [OF ok p] A by auto
  have d: "distinct (0 # p # us)" using own_blocks(1) [OF ok p] A by (simp add: blocks_def)
  have nb: "b \<notin> set (all_blocks ps A)" "b \<noteq> 0"
  proof -
    have "pool_ok w q (A q)" if "q \<in> set ps" for q by (rule pools_okD(2) [OF ok that])
    then have "b \<notin> set (blocks q (A q))" if "q \<in> set ps" for q
      using that b by (fastforce simp: fresh_block_def pool_ok_def node_ok_def blocks_def split: option.splits)
    then show "b \<notin> set (all_blocks ps A)" by (auto simp: all_blocks_set)
    show "b \<noteq> 0" using b by (simp add: fresh_block_def)
  qed
  have bp: "b \<notin> set (p # us)" using nb(1) p A by (auto simp: all_blocks_set blocks_def)
  let ?l0 = "new_node (pw_links w) (node_list b) 0 0"
  obtain l1 where l1: "INIT_LIST_HEAD ?l0 (node_list b) = Some l1" "ring l1 (node_list b) []" "only_at {node_list b} ?l0 l1"
    using INIT_LIST_HEAD_ok [of ?l0 "node_list b"] by auto
  have o1: "outside_same {node_list b} (pw_links w) l1" by (rule outside_same_trans [OF new_node_outside only_at_outside [OF l1(3)]]) auto
  have ru: "ring l1 (used_list p) (List.map node_list us)" by (rule outside_same_ring [OF o1 i(6)]) (use bp in auto)
  have "live l1 (node_list b)" by (rule ring_live [OF l1(2)]) simp
  moreover have "node_list b \<notin> set (used_list p # List.map node_list us)" using bp by auto
  ultimately obtain l2 where l2: "list_add_tail l1 (node_list b) (used_list p) = Some l2" "ring l2 (used_list p) (List.map node_list us @ [node_list b])"
    "only_at (set (used_list p # node_list b # List.map node_list us)) l1 l2" using list_add_tail_ok [OF ru] by blast
  have o2: "outside_same (set (used_list p # node_list b # List.map node_list us)) (pw_links w) l2"
    by (rule outside_same_trans [OF o1 only_at_outside [OF l2(3)]]) auto
  define nd where "nd = \<lparr>nd_check = b, nd_size = po_size impl, nd_data = take (po_size impl) (junk @ replicate (po_size impl) 0)\<rparr>"
  define w' where "w' = w\<lparr>pw_links := l2, pw_pools := (pw_pools w)(p \<mapsto> impl\<lparr>po_used_count := po_used_count impl + 1\<rparr>),
    pw_nodes := (pw_nodes w)(b \<mapsto> nd\<lparr>nd_data := replicate (po_size impl) 0\<rparr>)\<rparr>"
  have wl: "pw_links w' = l2" by (simp add: w'_def)
  have "mpp_mem_pool_get w p (Some b) junk = Some (w', b)"
    using i(1) list_empty_ok [OF i(7)] l1(1) l2(1) by (simp add: mpp_mem_pool_get_def w'_def nd_def finish_get_ok)
  moreover have "pools_ok w' ps (A(p := (us @ [b], [])))"
  proof (rule pools_ok_update [OF ok p])
    have us: "\<forall>b \<in> set us. node_ok w' (po_size impl) b b" by (rule node_ok_other [OF _ i(8)]) (use bp in \<open>auto simp: w'_def\<close>)
    have "ring l2 (unused_list p) []" by (rule outside_same_ring [OF o2 i(7)]) auto
    then show "pool_ok w' p (us @ [b], [])" using i l2(2) us by (simp add: pool_ok_def w'_def node_ok_def nd_def)
    show "outside_same (pool_heads p (A p) \<union> pool_heads p (us @ [b], [])) (pw_links w) (pw_links w')"
      unfolding wl by (rule outside_same_mono [OF o2]) (auto simp: pool_heads_def)
    show "distinct (0 # blocks p (us @ [b], []))" using d bp nb(2) by (auto simp: blocks_def)
    show "set (blocks p (us @ [b], [])) \<inter> (\<Union>q \<in> set ps - {p}. set (blocks q (A q))) = {}"
      using own_blocks(2) [OF ok p] A nb(1) by (auto simp: blocks_def all_blocks_set)
  qed (auto simp: w'_def A)
  moreover have "zeroed w' b (pool_size w p)" by (simp add: zeroed_def w'_def pool_size_def i(1))
  ultimately show ?thesis by blast
qed

lemma get_fails: "pools_ok w ps A \<Longrightarrow> p \<in> set ps \<Longrightarrow> A p = (us, []) \<Longrightarrow> mpp_mem_pool_get w p None junk = Some (w, 0)"
  using list_empty_ok [of "pw_links w" "unused_list p" "[]"] by (auto elim!: pool_parts simp: mpp_mem_pool_get_def)


lemma put_ok:
  assumes ok: "pools_ok w ps A" and p: "p \<in> set ps" and A: "A p = (xs @ b # ys, vs)"
  shows "\<exists>w'. mpp_mem_pool_put w p b = Some w' \<and> pools_ok w' ps (A(p := (xs @ ys, b # vs)))"
proof -
  obtain impl where i: "pw_pools w p = Some impl" "po_check impl = p" "\<not> po_finalized impl" "po_used_count impl = int (length (xs @ b # ys))"
    "po_unused_count impl = int (length vs)" "ring (pw_links w) (used_list p) (List.map node_list (xs @ b # ys))"
    "ring (pw_links w) (unused_list p) (List.map node_list vs)" "\<forall>c \<in> set (xs @ b # ys). node_ok w (po_size impl) c c"
    "\<forall>c \<in> set vs. node_ok w (po_size impl) 0 c" using pool_parts [OF ok p] A by auto
  have d: "distinct (0 # p # (xs @ b # ys) @ vs)" using own_blocks(1) [OF ok p] A by (simp add: blocks_def)
  have r: "ring (pw_links w) (used_list p) (List.map node_list xs @ node_list b # List.map node_list ys)" using i(6) by simp
  have dj: "set (unused_list p # List.map node_list vs) \<inter> set (used_list p # List.map node_list xs @ node_list b # List.map node_list ys) = {}" using d by auto
  obtain l1 l2 where l: "list_del_init (pw_links w) (node_list b) = Some l1" "list_add l1 (node_list b) (unused_list p) = Some l2"
    "ring l2 (used_list p) (List.map node_list (xs @ ys))" "ring l2 (unused_list p) (List.map node_list (b # vs))"
    "only_at (set (used_list p # unused_list p # node_list b # List.map node_list xs @ List.map node_list ys @ List.map node_list vs)) (pw_links w) l2"
    using ll.hand_over_front [OF r i(7) dj] by auto
  obtain nd where nd: "pw_nodes w b = Some nd" "nd_check nd = b" "nd_size nd = po_size impl" "length (nd_data nd) = po_size impl"
    using i(8) by (auto simp: node_ok_def split: option.splits)
  define w' where "w' = w\<lparr>pw_links := l2, pw_pools := (pw_pools w)(p \<mapsto> impl\<lparr>po_used_count := po_used_count impl - 1, po_unused_count := po_unused_count impl + 1\<rparr>),
    pw_nodes := (pw_nodes w)(b \<mapsto> nd\<lparr>nd_check := 0\<rparr>)\<rparr>"
  have wl: "pw_links w' = l2" by (simp add: w'_def)
  have "mpp_mem_pool_put w p b = Some w'" using i(1,2) nd l(1,2) by (simp add: mpp_mem_pool_put_def w'_def)
  moreover have "pools_ok w' ps (A(p := (xs @ ys, b # vs)))"
  proof (rule pools_ok_update [OF ok p])
    have "\<forall>c \<in> set (xs @ ys). node_ok w (po_size impl) c c" using i(8) by auto
    then have us: "\<forall>c \<in> set (xs @ ys). node_ok w' (po_size impl) c c" by (rule node_ok_other [rotated]) (use d in \<open>auto simp: w'_def\<close>)
    have vs: "\<forall>c \<in> set vs. node_ok w' (po_size impl) 0 c" by (rule node_ok_other [OF _ i(9)]) (use d in \<open>auto simp: w'_def\<close>)
    show "pool_ok w' p (xs @ ys, b # vs)" using i l(3,4) us vs nd by (simp add: pool_ok_def w'_def node_ok_def)
    show "outside_same (pool_heads p (A p) \<union> pool_heads p (xs @ ys, b # vs)) (pw_links w) (pw_links w')"
      unfolding wl by (rule outside_same_mono [OF only_at_outside [OF l(5)]]) (auto simp: pool_heads_def A)
    show "distinct (0 # blocks p (xs @ ys, b # vs))" using d by (auto simp: blocks_def)
    show "set (blocks p (xs @ ys, b # vs)) \<inter> (\<Union>q \<in> set ps - {p}. set (blocks q (A q))) = {}" using own_blocks(2) [OF ok p] A by (auto simp: blocks_def)
  qed (auto simp: w'_def A)
  ultimately show ?thesis by blast
qed

text \<open>A block given back twice is told by its \<open>check\<close>.\<close>

lemma put_twice:
  assumes "pools_ok w ps A" "p \<in> set ps" "q \<in> set ps" "b \<in> set (snd (A q))"
  shows "mpp_mem_pool_put w p b = Some w"
proof -
  obtain impl where "pw_pools w p = Some impl" "po_check impl = p" using pool_parts [OF assms(1,2)] by metis
  moreover obtain sz where "node_ok w sz 0 b" using pool_parts [OF assms(1,3)] assms(4) by metis
  then obtain nd where "pw_nodes w b = Some nd" "nd_check nd = 0" by (auto simp: node_ok_def split: option.splits)
  moreover have "b \<noteq> 0" using own_blocks(1) [OF assms(1,3)] assms(4) by (metis UnCI blocks_def distinct.simps(2) list.set_intros(2) set_append)
  ultimately show ?thesis by (simp add: mpp_mem_pool_put_def)
qed

lemma pool_init_ok:
  assumes ok: "pools_ok w ps A" and b: "fresh_block w (Some b)"
  shows "\<exists>w'. mpp_mem_pool_init w sz (Some b) = Some (w', b) \<and> pools_ok w' (ps @ [b]) (A(b := ([], []))) \<and> pool_size w' b = sz"
proof -
  have nb: "b \<notin> set (all_blocks ps A)" "b \<noteq> 0" "b \<notin> set ps"
  proof -
    have "b \<notin> set (blocks q (A q))" if "q \<in> set ps" for q
      using pools_okD(2) [OF ok that] b by (fastforce simp: fresh_block_def pool_ok_def node_ok_def blocks_def split: option.splits)
    then show "b \<notin> set (all_blocks ps A)" by (auto simp: all_blocks_set)
    then show "b \<notin> set ps" by (auto simp: all_blocks_set blocks_def)
    show "b \<noteq> 0" using b by (simp add: fresh_block_def)
  qed
  let ?l0 = "new_node (new_node (new_node (pw_links w) (used_list b) 0 0) (unused_list b) 0 0) (service_link b) 0 0"
  let ?S = "{used_list b, unused_list b, service_link b}"
  have o0: "outside_same ?S (pw_links w) ?l0" by (auto simp: outside_same_def new_node_def)
  obtain l1 where l1: "INIT_LIST_HEAD ?l0 (used_list b) = Some l1" "ring l1 (used_list b) []" "only_at {used_list b} ?l0 l1"
    using INIT_LIST_HEAD_ok [of ?l0 "used_list b"] by auto
  obtain l2 where l2: "INIT_LIST_HEAD l1 (unused_list b) = Some l2" "ring l2 (unused_list b) []" "only_at {unused_list b} l1 l2"
    using INIT_LIST_HEAD_ok [of l1 "unused_list b"] only_at_live [OF l1(3), of "unused_list b"] by auto
  obtain l3 where l3: "INIT_LIST_HEAD l2 (service_link b) = Some l3" "ring l3 (service_link b) []" "only_at {service_link b} l2 l3"
    using INIT_LIST_HEAD_ok [of l2 "service_link b"] only_at_live [OF l1(3), of "service_link b"] only_at_live [OF l2(3), of "service_link b"] by auto
  have o2: "outside_same ?S (pw_links w) l2"
    by (rule outside_same_trans [OF outside_same_trans [OF o0 only_at_outside [OF l1(3)]] only_at_outside [OF l2(3)], of ?S]) auto
  have o3: "outside_same ?S (pw_links w) l3" by (rule outside_same_trans [OF o2 only_at_outside [OF l3(3)]]) auto
  have m: "ring l3 mLink (List.map service_link ps)" by (rule outside_same_ring [OF o3 pools_okD(1) [OF ok]]) (use nb(3) in auto)
  have "live l3 (service_link b)" by (rule ring_live [OF l3(2)]) simp
  moreover have "service_link b \<notin> set (mLink # List.map service_link ps)" using nb(3) by auto
  ultimately obtain l4 where l4: "list_add_tail l3 (service_link b) mLink = Some l4" "ring l4 mLink (List.map service_link ps @ [service_link b])"
    "only_at (set (mLink # service_link b # List.map service_link ps)) l3 l4" using list_add_tail_ok [OF m] by blast
  have ru: "ring l4 (used_list b) []"
    by (rule only_at_ring [OF l4(3) only_at_ring [OF l3(3) only_at_ring [OF l2(3) l1(2)]]]) auto
  have rv: "ring l4 (unused_list b) []" by (rule only_at_ring [OF l4(3) only_at_ring [OF l3(3) l2(2)]]) auto
  let ?T = "?S \<union> set (mLink # service_link b # List.map service_link ps)"
  have o4: "outside_same ?T (pw_links w) l4" by (rule outside_same_trans [OF o3 only_at_outside [OF l4(3)]]) auto
  define w' where "w' = w\<lparr>pw_links := l4, pw_pools := (pw_pools w)(b \<mapsto> \<lparr>po_check = b, po_size = sz, po_used_count = 0, po_unused_count = 0, po_finalized = False\<rparr>)\<rparr>"
  have w': "pw_links w' = l4" "pw_nodes w' = pw_nodes w" "q \<noteq> b \<Longrightarrow> pw_pools w' q = pw_pools w q" for q by (simp_all add: w'_def)
  have "mpp_mem_pool_init w sz (Some b) = Some (w', b)" using l1(1) l2(1) l3(1) l4(1) by (simp add: mpp_mem_pool_init_def get_pool_def w'_def Let_def)
  moreover have "pools_ok w' (ps @ [b]) (A(b := ([], [])))"
  proof -
    have same: "all_blocks ps (A(b := ([], []))) = all_blocks ps A" using nb(3) unfolding all_blocks_def by (intro arg_cong [of _ _ List.concat] map_cong) auto
    have old: "pool_ok w' q (A q)" if q: "q \<in> set ps" for q
    proof -
      have "q \<noteq> b" "b \<notin> set (blocks q (A q))" using q nb by (auto simp: all_blocks_set)
      then have h: "?T \<inter> pool_heads q (A q) = {}" by (auto simp: pool_heads_def blocks_def)
      show ?thesis using pool_ok_frame [OF pools_okD(2) [OF ok q], of ?T w'] o4 h w' \<open>q \<noteq> b\<close> by simp
    qed
    have "pool_ok w' q ((A(b := ([], []))) q)" if q: "q \<in> set (ps @ [b])" for q
    proof (cases "q = b")
      case True
      then show ?thesis using ru rv by (simp add: pool_ok_def w'_def)
    qed (use q old in auto)
    moreover have "distinct (0 # all_blocks (ps @ [b]) (A(b := ([], []))))"
      using pools_okD(3,4) [OF ok] nb same by (auto simp: all_blocks_def blocks_def)
    moreover have "q \<in> set (ps @ [b])" if "pw_pools w' q \<noteq> None" for q using pools_okD(5) [OF ok, of q] w'(3) [of q] that by (cases "q = b") auto
    moreover have "\<exists>q \<in> set (ps @ [b]). c \<in> set (fst ((A(b := ([], []))) q) @ snd ((A(b := ([], []))) q))" if "pw_nodes w' c \<noteq> None" for c
      using pools_okD(6) [OF ok, of c] that w'(2) nb(3) by (metis Un_iff fun_upd_other set_append)
    ultimately show ?thesis using l4(2) w'(1) unfolding pools_ok_def all_blocks_def by simp
  qed
  moreover have "pool_size w' b = sz" by (simp add: pool_size_def w'_def)
  ultimately show ?thesis by blast
qed


section \<open>Taking a pool down\<close>

text \<open>Each node's \<open>next\<close> is the next one of the list, or the head behind the last.\<close>

fun nexts_along :: "links \<Rightarrow> block list \<Rightarrow> ptr \<Rightarrow> bool" where
  "nexts_along l [] head = True"
| "nexts_along l (b # bs) head = (nexts l (node_list b) = Some (hd (List.map node_list bs @ [head])) \<and> nexts_along l bs head)"

lemma nexts_along_path: "path l p (List.map node_list bs) head \<Longrightarrow> nexts_along l bs head"
proof (induction bs arbitrary: p)
  case (Cons b bs)
  then show ?case using path_next [of l "node_list b" "List.map node_list bs" head] by auto
qed simp

lemma nexts_along_free: "b \<notin> set bs \<Longrightarrow> nexts_along (free_node l (node_list b)) bs head = nexts_along l bs head"
  by (induction bs) (auto simp: free_node_def)

definition freed_nodes :: "pool_world \<Rightarrow> block list \<Rightarrow> pool_world \<Rightarrow> bool" where
  "freed_nodes w bs w' \<longleftrightarrow> pw_pools w' = pw_pools w \<and> pw_nodes w' = (\<lambda>b. if b \<in> set bs then None else pw_nodes w b) \<and>
     outside_same (node_list ` set bs) (pw_links w) (pw_links w')"

lemma free_nodes_loop_ok:
  "nexts_along (pw_links w) bs head \<Longrightarrow> distinct bs \<Longrightarrow> head \<notin> range node_list \<Longrightarrow> nexts (pw_links w) head \<noteq> None \<Longrightarrow>
   \<forall>b \<in> set bs. pw_nodes w b \<noteq> None \<Longrightarrow> pos = hd (List.map node_list bs @ [head]) \<Longrightarrow>
   (bs \<noteq> [] \<Longrightarrow> n = hd (List.map node_list (tl bs) @ [head])) \<Longrightarrow>
   \<exists>w'. free_nodes_loop w head pos n k = Some (w', k + int (length bs)) \<and> freed_nodes w bs w'"
proof (induction bs arbitrary: w pos n k)
  case Nil
  then show ?case by (subst free_nodes_loop.simps) (simp add: freed_nodes_def)
next
  case (Cons b bs)
  let ?w = "w\<lparr>pw_links := free_node (pw_links w) (node_list b), pw_nodes := (pw_nodes w)(b := None)\<rparr>"
  have f: "free_pool_node w (block_of pos) = Some ?w" using Cons.prems(5,6) by (auto simp: free_pool_node_def)
  have hn: "head \<noteq> node_list b" using Cons.prems(3) by auto
  have n: "n = hd (List.map node_list bs @ [head])" using Cons.prems(7) by simp
  obtain n' where n': "nexts (pw_links ?w) n = Some n'" "bs \<noteq> [] \<Longrightarrow> n' = hd (List.map node_list (tl bs) @ [head])"
  proof (cases bs)
    case Nil
    then show thesis using that Cons.prems(4) n hn by (auto simp: free_node_def)
  next
    case (Cons c cs)
    then show thesis using that Cons.prems(1,2) n by (auto simp: free_node_def)
  qed
  have al: "nexts_along (pw_links ?w) bs head" using Cons.prems(1,2) by (simp add: nexts_along_free)
  have hd_live: "nexts (pw_links ?w) head \<noteq> None" using Cons.prems(4) hn by (simp add: free_node_def)
  have nodes: "\<forall>c \<in> set bs. pw_nodes ?w c \<noteq> None" using Cons.prems(2,5) by auto
  have db: "distinct bs" using Cons.prems(2) by simp
  obtain w' where w': "free_nodes_loop ?w head n n' (k + 1) = Some (w', k + 1 + int (length bs))" "freed_nodes ?w bs w'"
    using Cons.IH [OF al db Cons.prems(3) hd_live nodes n n'(2)] by blast
  have "outside_same (node_list ` set (b # bs)) (pw_links w) (pw_links w')"
    by (rule outside_same_trans [of "{node_list b}" _ "pw_links ?w" "node_list ` set bs"]) (use w'(2) free_node_outside in \<open>auto simp: freed_nodes_def\<close>)
  then have "freed_nodes w (b # bs) w'" using w'(2) by (auto simp: freed_nodes_def)
  moreover have "free_nodes_loop w head pos n k = Some (w', k + int (length (b # bs)))"
    using f n' w'(1) Cons.prems(6) hn by (subst free_nodes_loop.simps) simp
  ultimately show ?case by blast
qed

lemma free_nodes_ok:
  assumes "ring (pw_links w) head (List.map node_list bs)" "head \<notin> range node_list" "\<forall>b \<in> set bs. pw_nodes w b \<noteq> None"
  shows "\<exists>w'. free_nodes w head = Some (w', int (length bs)) \<and> freed_nodes w bs w'"
proof (cases bs)
  case Nil
  then show ?thesis using list_empty_ok [OF assms(1)] by (simp add: free_nodes_def freed_nodes_def)
next
  case (Cons b cs)
  have p: "path (pw_links w) head (List.map node_list bs) head" "distinct bs" using assms(1) by (auto simp: ring_def distinct_map)
  have h: "nexts (pw_links w) head = Some (node_list b)" using path_next [OF p(1)] Cons by simp
  have al: "nexts_along (pw_links w) bs head" by (rule nexts_along_path [OF p(1)])
  then have n: "nexts (pw_links w) (node_list b) = Some (hd (List.map node_list cs @ [head]))" using Cons by simp
  have "nexts (pw_links w) head \<noteq> None" "node_list b = hd (List.map node_list bs @ [head])"
    "bs \<noteq> [] \<Longrightarrow> hd (List.map node_list cs @ [head]) = hd (List.map node_list (tl bs) @ [head])" using h Cons by simp_all
  from free_nodes_loop_ok [OF al p(2) assms(2) this(1) assms(3) this(2,3), of 0]
  obtain w' where w': "free_nodes_loop w head (node_list b) (hd (List.map node_list cs @ [head])) 0 = Some (w', int (length bs))" "freed_nodes w bs w'" by auto
  have "list_empty (pw_links w) head = Some False" using list_empty_ok [OF assms(1)] Cons by simp
  then have "free_nodes w head = Some (w', int (length bs))" using h n w'(1) by (simp add: free_nodes_def)
  then show ?thesis using w'(2) by blast
qed

text \<open>A pool goes with all its nodes, the other pools stay as they are.\<close>

lemma deinit_ok:
  assumes ok: "pools_ok w (xs @ p # ys) A"
  shows "\<exists>w'. mpp_mem_pool_deinit w p = Some w' \<and> pools_ok w' (xs @ ys) A \<and> pw_pools w' p = None \<and> (\<forall>b \<in> set (fst (A p) @ snd (A p)). pw_nodes w' b = None)"
proof -
  let ?ps = "xs @ p # ys"
  have p: "p \<in> set ?ps" by simp
  obtain impl where i: "pw_pools w p = Some impl" "po_check impl = p" "\<not> po_finalized impl"
    "ring (pw_links w) (used_list p) (List.map node_list (fst (A p)))" "ring (pw_links w) (unused_list p) (List.map node_list (snd (A p)))"
    "\<forall>b \<in> set (fst (A p)). node_ok w (po_size impl) b b" "\<forall>b \<in> set (snd (A p)). node_ok w (po_size impl) 0 b" using pool_parts [OF ok p] by metis
  have d: "distinct (0 # blocks p (A p))" by (rule own_blocks(1) [OF ok p])
  have dps: "distinct ?ps" by (rule distinct_pools [OF pools_okD(3) [OF ok]])
  have nr: "unused_list p \<notin> range node_list" "used_list p \<notin> range node_list" by auto
  have n1: "\<forall>b \<in> set (snd (A p)). pw_nodes w b \<noteq> None" using i(7) by (force simp: node_ok_def split: option.splits)
  obtain w1 where w1: "free_nodes w (unused_list p) = Some (w1, int (length (snd (A p))))" "freed_nodes w (snd (A p)) w1"
    using free_nodes_ok [OF i(5) nr(1) n1] by blast
  have r1: "ring (pw_links w1) (used_list p) (List.map node_list (fst (A p)))"
    by (rule outside_same_ring [OF _ i(4)]) (use w1(2) d in \<open>auto simp: freed_nodes_def blocks_def\<close>)
  have n2: "\<forall>b \<in> set (fst (A p)). pw_nodes w1 b \<noteq> None" using i(6) w1(2) d by (force simp: node_ok_def freed_nodes_def blocks_def split: option.splits)
  obtain w2 where w2: "free_nodes w1 (used_list p) = Some (w2, int (length (fst (A p))))" "freed_nodes w1 (fst (A p)) w2"
    using free_nodes_ok [OF r1 nr(2) n2] by blast
  let ?N = "node_list ` set (fst (A p) @ snd (A p))"
  have o2: "outside_same ?N (pw_links w) (pw_links w2)"
    by (rule outside_same_trans [of "node_list ` set (snd (A p))" _ "pw_links w1" "node_list ` set (fst (A p))"]) (use w1(2) w2(2) in \<open>auto simp: freed_nodes_def\<close>)
  have nn: "?N \<inter> set (mLink # List.map service_link ?ps) = {}" by auto
  have m: "ring (pw_links w2) mLink (List.map service_link xs @ service_link p # List.map service_link ys)"
    using outside_same_ring [OF o2 pools_okD(1) [OF ok] nn] by simp
  obtain l3 where l3: "list_del_init (pw_links w2) (service_link p) = Some l3" "ring l3 mLink (List.map service_link (xs @ ys))"
    "only_at (set (mLink # service_link p # List.map service_link xs @ List.map service_link ys)) (pw_links w2) l3"
    using list_del_init_ok [OF m] by auto
  define w' where "w' = free_pool (w2\<lparr>pw_links := l3, pw_pools := (pw_pools w2)(p \<mapsto> impl\<lparr>po_unused_count := po_unused_count impl - int (length (snd (A p))),
    po_used_count := po_used_count impl - int (length (fst (A p))), po_finalized := True\<rparr>)\<rparr>) p"
  have "mpp_mem_pool_deinit w p = Some w'" using i(1-3) w1(1) w2(1) l3(1) by (simp add: mpp_mem_pool_deinit_def put_pool_def w'_def)
  moreover have w'p: "pw_pools w' = (pw_pools w)(p := None)" using w1(2) w2(2) by (simp add: w'_def free_pool_def freed_nodes_def)
  moreover have w'n: "pw_nodes w' = (\<lambda>b. if b \<in> set (fst (A p) @ snd (A p)) then None else pw_nodes w b)"
    using w1(2) w2(2) by (auto simp: w'_def free_pool_def freed_nodes_def)
  moreover have "pools_ok w' (xs @ ys) A"
  proof -
    let ?F = "{used_list p, unused_list p, service_link p}"
    have o3: "outside_same ?F l3 (pw_links w')" by (auto simp: outside_same_def w'_def free_pool_def free_node_def)
    have r: "ring (pw_links w') mLink (List.map service_link (xs @ ys))" by (rule outside_same_ring [OF o3 l3(2)]) (use dps in auto)
    let ?T = "pool_heads p (A p) \<union> set (mLink # List.map service_link ?ps)"
    have "outside_same ?T (pw_links w) l3"
      by (rule outside_same_trans [OF o2 only_at_outside [OF l3(3)]]) (auto simp: pool_heads_def)
    then have o: "outside_same ?T (pw_links w) (pw_links w')" by (rule outside_same_trans [OF _ o3]) (auto simp: pool_heads_def)
    have "pool_ok w' q (A q)" if q: "q \<in> set (xs @ ys)" for q
    proof (rule pool_ok_frame [OF _ o])
      have qp: "q \<noteq> p" "q \<in> set ?ps" using q dps by auto
      have ap: "set (blocks p (A p)) \<inter> set (blocks q (A q)) = {}" using blocks_apart [OF pools_okD(3) [OF ok] p qp(2)] qp(1) by auto
      show "pool_ok w q (A q)" by (rule pools_okD(2) [OF ok qp(2)])
      show "?T \<inter> pool_heads q (A q) = {}" using pool_heads_apart [OF ap] service_apart [of q "A q" ?ps] by blast
      show "pw_pools w' q = pw_pools w q" using w'p qp(1) by simp
      show "pw_nodes w' b = pw_nodes w b" if "b \<in> set (fst (A q) @ snd (A q))" for b using w'n ap that by (auto simp: blocks_def)
    qed
    moreover have "distinct (0 # all_blocks (xs @ ys) A)" using pools_okD(3,4) [OF ok] by (auto simp: all_blocks_def)
    moreover have "q \<in> set (xs @ ys)" if "pw_pools w' q \<noteq> None" for q using pools_okD(5) [OF ok, of q] w'p that by (cases "q = p") auto
    moreover have "\<exists>q \<in> set (xs @ ys). b \<in> set (fst (A q) @ snd (A q))" if b: "pw_nodes w' b \<noteq> None" for b
    proof -
      have nb: "b \<notin> set (fst (A p) @ snd (A p))" "pw_nodes w b \<noteq> None" using b w'n by (auto split: if_splits)
      then show ?thesis using pools_okD(6) [OF ok nb(2)] by auto
    qed
    ultimately show ?thesis using r unfolding pools_ok_def all_blocks_def by blast
  qed
  ultimately show ?thesis by auto
qed

section \<open>Calls of clients\<close>

datatype pool_call = Init nat "block option" | Get block "block option" "u8 list" | Put block block | Deinit block

fun run_call :: "pool_world \<Rightarrow> pool_call \<Rightarrow> (pool_world \<times> block) option" where
  "run_call w (Init sz mem) = mpp_mem_pool_init w sz mem"
| "run_call w (Get p mem junk) = mpp_mem_pool_get w p mem junk"
| "run_call w (Put p b) = do { w \<leftarrow> mpp_mem_pool_put w p b; Some (w, 0) }"
| "run_call w (Deinit p) = do { w \<leftarrow> mpp_mem_pool_deinit w p; Some (w, 0) }"

text \<open>The specification: pools with the blocks that are out and those at hand, as a stack.\<close>

type_synonym pools = "block list \<times> (block \<Rightarrow> block list \<times> block list)"

fun spec_call :: "pools \<Rightarrow> pool_call \<Rightarrow> pools \<times> block" where
  "spec_call (ps, A) (Init sz mem) = (case mem of None \<Rightarrow> ((ps, A), 0) | Some b \<Rightarrow> ((ps @ [b], A(b := ([], []))), b))"
| "spec_call (ps, A) (Get p mem junk) = (case snd (A p) of
     v # vs \<Rightarrow> ((ps, A(p := (fst (A p) @ [v], vs))), v)
   | [] \<Rightarrow> (case mem of None \<Rightarrow> ((ps, A), 0) | Some b \<Rightarrow> ((ps, A(p := (fst (A p) @ [b], []))), b)))"
| "spec_call (ps, A) (Put p b) = (if b \<in> set (fst (A p)) then ((ps, A(p := (remove1 b (fst (A p)), b # snd (A p)))), 0) else ((ps, A), 0))"
| "spec_call (ps, A) (Deinit p) = ((remove1 p ps, A), 0)"

text \<open>
  What a client may call: pools that exist, blocks of the pool they came from, also a second time, and
  \<open>malloc\<close> gives memory that is not in use.
\<close>

fun call_ok :: "pool_world \<Rightarrow> pools \<Rightarrow> pool_call \<Rightarrow> bool" where
  "call_ok w (ps, A) (Init sz mem) = fresh_block w mem"
| "call_ok w (ps, A) (Get p mem junk) = (p \<in> set ps \<and> fresh_block w mem)"
| "call_ok w (ps, A) (Put p b) = (p \<in> set ps \<and> b \<in> set (fst (A p) @ snd (A p)))"
| "call_ok w (ps, A) (Deinit p) = (p \<in> set ps)"

fun pools_represent :: "pool_world \<Rightarrow> pools \<Rightarrow> bool" where
  "pools_represent w (ps, A) = pools_ok w ps A"

lemma call_refines:
  assumes "pools_represent w S" "call_ok w S c"
  shows "\<exists>w'. run_call w c = Some (w', snd (spec_call S c)) \<and> pools_represent w' (fst (spec_call S c))"
proof -
  obtain ps A where S: "S = (ps, A)" by (cases S)
  have ok: "pools_ok w ps A" using assms(1) S by simp
  show ?thesis
  proof (cases c)
    case (Init sz mem)
    then show ?thesis using pool_init_ok [OF ok, of _ sz] ok assms(2) S
      by (cases mem) (auto simp: mpp_mem_pool_init_def get_pool_def)
  next
    case (Get p mem junk)
    have p: "p \<in> set ps" using assms(2) Get S by simp
    show ?thesis
    proof (cases "snd (A p)")
      case Nil
      then have A: "A p = (fst (A p), [])" by (metis prod.collapse)
      show ?thesis using get_allocates [OF ok p A, of _ junk] get_fails [OF ok p A, of junk] Nil Get S assms(2) ok by (cases mem) auto
    next
      case (Cons v vs)
      then have A: "A p = (fst (A p), v # vs)" by (metis prod.collapse)
      show ?thesis using get_reuses [OF ok p A, of mem junk] Cons Get S by auto
    qed
  next
    case (Put p b)
    have p: "p \<in> set ps" and b: "b \<in> set (fst (A p) @ snd (A p))" using assms(2) Put S by auto
    show ?thesis
    proof (cases "b \<in> set (fst (A p))")
      case True
      then obtain xs ys where xy: "fst (A p) = xs @ b # ys" "b \<notin> set xs" by (metis split_list_first)
      then have A: "A p = (xs @ b # ys, snd (A p))" by (metis prod.collapse)
      have "remove1 b (fst (A p)) = xs @ ys" using xy by (simp add: remove1_append)
      then show ?thesis using put_ok [OF ok p A] True Put S by auto
    next
      case False
      then show ?thesis using put_twice [OF ok p p] b Put S ok by auto
    qed
  next
    case (Deinit p)
    have p: "p \<in> set ps" using assms(2) Deinit S by simp
    then obtain xs ys where xy: "ps = xs @ p # ys" "p \<notin> set xs" by (metis split_list_first)
    then have "remove1 p ps = xs @ ys" by (simp add: remove1_append)
    then show ?thesis using deinit_ok [OF ok [unfolded xy(1)]] Deinit S by auto
  qed
qed

text \<open>Runs of calls, each of which is allowed when it is made.\<close>

fun run_calls :: "pool_world \<Rightarrow> pool_call list \<Rightarrow> (pool_world \<times> block list) option" where
  "run_calls w [] = Some (w, [])"
| "run_calls w (c # cs) = do { (w, r) \<leftarrow> run_call w c; (w, rs) \<leftarrow> run_calls w cs; Some (w, r # rs) }"

fun spec_calls :: "pools \<Rightarrow> pool_call list \<Rightarrow> pools \<times> block list" where
  "spec_calls S [] = (S, [])"
| "spec_calls S (c # cs) = (let (S', r) = spec_call S c; (S'', rs) = spec_calls S' cs in (S'', r # rs))"

fun calls_ok :: "pool_world \<Rightarrow> pools \<Rightarrow> pool_call list \<Rightarrow> bool" where
  "calls_ok w S [] = True"
| "calls_ok w S (c # cs) = (call_ok w S c \<and> (case run_call w c of None \<Rightarrow> True | Some (w', r) \<Rightarrow> calls_ok w' (fst (spec_call S c)) cs))"

lemma service_ok: "\<exists>w. pool_service = Some w \<and> pools_represent w ([], \<lambda>p. ([], []))"
proof -
  obtain l where "INIT_LIST_HEAD (new_node no_links mLink 0 0) mLink = Some l" "ring l mLink []"
    using INIT_LIST_HEAD_ok [of "new_node no_links mLink 0 0" mLink] by auto
  then show ?thesis by (simp add: pool_service_def pools_ok_def)
qed

lemma calls_refine: "pools_represent w S \<Longrightarrow> calls_ok w S cs \<Longrightarrow> \<exists>w'. run_calls w cs = Some (w', snd (spec_calls S cs)) \<and> pools_represent w' (fst (spec_calls S cs))"
proof (induction cs arbitrary: w S)
  case (Cons c cs)
  obtain w1 where w1: "run_call w c = Some (w1, snd (spec_call S c))" "pools_represent w1 (fst (spec_call S c))"
    using call_refines [OF Cons.prems(1)] Cons.prems(2) by auto
  have rest: "calls_ok w1 (fst (spec_call S c)) cs" using Cons.prems(2) w1(1) by simp
  obtain w' where "run_calls w1 cs = Some (w', snd (spec_calls (fst (spec_call S c)) cs))" "pools_represent w' (fst (spec_calls (fst (spec_call S c)) cs))"
    using Cons.IH [OF w1(2) rest] by blast
  then show ?case using w1(1) by (auto simp: split_beta)
qed simp


section \<open>Properties\<close>

text \<open>
  C9: Whatever calls clients make of the pools (each pool with blocks of its own, given back once or more
  often), the pointer lists implement the specification: a pool hands out the block that came back last,
  a new one if it has none, NULL if memory runs out; taking a pool down frees its blocks and those of no
  other. No freed memory is touched, and the counts are those of the lists.
\<close>

theorem pools_follow_spec:
  assumes "pool_service = Some w" "calls_ok w ([], \<lambda>p. ([], [])) cs"
  shows "\<exists>w'. run_calls w cs = Some (w', snd (spec_calls ([], \<lambda>p. ([], [])) cs)) \<and> pools_represent w' (fst (spec_calls ([], \<lambda>p. ([], [])) cs))"
proof -
  have "pools_represent w ([], \<lambda>p. ([], []))" using service_ok assms(1) by (metis option.inject)
  then show ?thesis by (rule calls_refine [OF _ assms(2)])
qed

lemma pools_follow_spec_witness:
  "\<exists>w w'. pool_service = Some w \<and> run_calls w [Init 16 (Some 1), Get 1 (Some 2) [], Put 1 2, Put 1 2, Get 1 None [], Deinit 1] = Some (w', [1, 2, 0, 0, 2, 0])"
proof -
  let ?cs = "[Init 16 (Some 1), Get 1 (Some 2) [], Put 1 2, Put 1 2, Get 1 None [], Deinit 1]"
  obtain w where w: "pool_service = Some w" "pools_represent w ([], \<lambda>p. ([], []))" using service_ok by blast
  have "pw_nodes w = Map.empty" "pw_pools w = Map.empty" using w(1) by (auto simp: pool_service_def INIT_LIST_HEAD_def bind_eq_Some_conv)
  moreover have "pw_nodes w' 2 = None" if "run_call w (Init 16 (Some 1)) = Some (w', r)" for w' r
    using that \<open>pw_nodes w = Map.empty\<close> by (auto simp: mpp_mem_pool_init_def get_pool_def Let_def bind_eq_Some_conv)
  moreover have "pw_pools w' 2 = None" if "run_call w (Init 16 (Some 1)) = Some (w', r)" for w' r
    using that \<open>pw_pools w = Map.empty\<close> by (auto simp: mpp_mem_pool_init_def get_pool_def Let_def bind_eq_Some_conv)
  ultimately have "calls_ok w ([], \<lambda>p. ([], [])) ?cs"
    by (auto simp: fresh_block_def split: option.splits simp del: run_call.simps)
  from pools_follow_spec [OF w(1) this] w(1) show ?thesis by (auto simp: Let_def)
qed

text \<open>
  C40: A pool does not see whether a block it gets back is one of its own: a block of another pool, put into
  it, is what it hands out next, with the size of the pool it came from.
\<close>

theorem foreign_block_handed_out:
  assumes ok: "pools_ok w ps A" and p: "p \<in> set ps" and q: "q \<in> set ps" and pq: "p \<noteq> q" and b: "b \<in> set (fst (A q))"
  shows "\<exists>w1 w2. mpp_mem_pool_put w p b = Some w1 \<and> mpp_mem_pool_get w1 p mem junk = Some (w2, b) \<and> zeroed w2 b (pool_size w q)"
proof -
  obtain impl where i: "pw_pools w p = Some impl" "po_check impl = p" "ring (pw_links w) (used_list p) (List.map node_list (fst (A p)))"
    "ring (pw_links w) (unused_list p) (List.map node_list (snd (A p)))" using pool_parts [OF ok p] by metis
  obtain jmpl where j: "pw_pools w q = Some jmpl" "ring (pw_links w) (used_list q) (List.map node_list (fst (A q)))"
    "\<forall>c \<in> set (fst (A q)). node_ok w (po_size jmpl) c c" using pool_parts [OF ok q] by metis
  obtain nd where nd: "pw_nodes w b = Some nd" "nd_check nd = b" "nd_size nd = po_size jmpl" "length (nd_data nd) = po_size jmpl"
    using j(3) b by (fastforce simp: node_ok_def split: option.splits)
  obtain xs ys where xy: "fst (A q) = xs @ b # ys" using b by (metis split_list)
  have ap: "set (blocks p (A p)) \<inter> set (blocks q (A q)) = {}" by (rule blocks_apart [OF pools_okD(3) [OF ok] p q pq])
  have hp: "pool_heads p (A p) \<inter> pool_heads q (A q) = {}" by (rule pool_heads_apart [OF ap])
  have dp: "distinct (blocks p (A p))" by (rule distinct_blocks [OF pools_okD(3) [OF ok] p])
  have r: "ring (pw_links w) (used_list q) (List.map node_list xs @ node_list b # List.map node_list ys)" using j(2) xy by simp
  have bp: "b \<notin> set (fst (A p) @ snd (A p))" using ap xy by (auto simp: blocks_def)
  have dj: "set (unused_list p # List.map node_list (snd (A p))) \<inter> set (used_list q # List.map node_list xs @ node_list b # List.map node_list ys) = {}"
    using hp xy by (auto simp: pool_heads_def)
  obtain l1 l2 where l: "list_del_init (pw_links w) (node_list b) = Some l1" "list_add l1 (node_list b) (unused_list p) = Some l2"
    "ring l2 (unused_list p) (node_list b # List.map node_list (snd (A p)))"
    "only_at (set (used_list q # unused_list p # node_list b # List.map node_list xs @ List.map node_list ys @ List.map node_list (snd (A p)))) (pw_links w) l2"
    using ll.hand_over_front [OF r i(4) dj] by auto
  have u: "ring l2 (used_list p) (List.map node_list (fst (A p)))"
    by (rule only_at_ring [OF l(4) i(3)]) (use hp xy dp pq in \<open>auto simp: pool_heads_def blocks_def\<close>)
  define w1 where "w1 = w\<lparr>pw_links := l2, pw_pools := (pw_pools w)(p \<mapsto> impl\<lparr>po_used_count := po_used_count impl - 1, po_unused_count := po_unused_count impl + 1\<rparr>),
    pw_nodes := (pw_nodes w)(b \<mapsto> nd\<lparr>nd_check := 0\<rparr>)\<rparr>"
  have put: "mpp_mem_pool_put w p b = Some w1" using i(1,2) nd(1,2) l(1,2) by (simp add: mpp_mem_pool_put_def w1_def)
  have r2: "ring l2 (unused_list p) ([] @ node_list b # List.map node_list (snd (A p)))" using l(3) by simp
  have dj2: "set (used_list p # List.map node_list (fst (A p))) \<inter> set (unused_list p # [] @ node_list b # List.map node_list (snd (A p))) = {}"
    using bp dp by (auto simp: blocks_def)
  obtain l3 l4 where g: "list_del_init l2 (node_list b) = Some l3" "list_add_tail l3 (node_list b) (used_list p) = Some l4"
    using ll.hand_over_tail [OF r2 u dj2] by blast
  have "list_empty l2 (unused_list p) = Some False" "nexts l2 (unused_list p) = Some (node_list b)"
    using l(3) list_empty_ok [OF l(3)] by (auto simp: ring_def linked_def)
  then obtain w2 where "mpp_mem_pool_get w1 p mem junk = Some (w2, b)" "zeroed w2 b (po_size jmpl)"
    using g nd by (simp add: mpp_mem_pool_get_def w1_def finish_get_ok [of _ b "nd\<lparr>nd_check := b\<rparr>"] zeroed_def)
  then show ?thesis using put j(1) by (auto simp: pool_size_def)
qed

lemma foreign_block_handed_out_witness:
  "\<exists>w w1 w2. mpp_mem_pool_put w 2 3 = Some w1 \<and> mpp_mem_pool_get w1 2 None [] = Some (w2, 3) \<and> zeroed w2 3 (pool_size w 1)"
proof -
  let ?A = "\<lambda>p :: block. ([] :: block list, [] :: block list)"
  obtain w0 where w0: "pool_service = Some w0" "pools_represent w0 ([], ?A)" using service_ok by blast
  have n0: "pw_nodes w0 = Map.empty" "pw_pools w0 = Map.empty" using w0(1) by (auto simp: pool_service_def INIT_LIST_HEAD_def bind_eq_Some_conv)
  have c1: "call_ok w0 ([], ?A) (Init 16 (Some 1))" using n0 by (simp add: fresh_block_def)
  obtain w1 where w1: "run_call w0 (Init 16 (Some 1)) = Some (w1, 1)" "pools_represent w1 ([1], ?A(1 := ([], [])))" using call_refines [OF w0(2) c1] by auto
  have n1: "pw_nodes w1 = Map.empty" "\<And>b. b \<noteq> 1 \<Longrightarrow> pw_pools w1 b = None" using w1(1) n0 by (auto simp: mpp_mem_pool_init_def get_pool_def Let_def bind_eq_Some_conv)
  have c2: "call_ok w1 ([1], ?A(1 := ([], []))) (Init 64 (Some 2))" using n1 by (auto simp: fresh_block_def)
  obtain w2 where w2: "run_call w1 (Init 64 (Some 2)) = Some (w2, 2)" "pools_represent w2 ([1, 2], ?A(1 := ([], []), 2 := ([], [])))" using call_refines [OF w1(2) c2] by auto
  have n2: "pw_nodes w2 = Map.empty" "\<And>b. b \<noteq> 1 \<Longrightarrow> b \<noteq> 2 \<Longrightarrow> pw_pools w2 b = None" using w2(1) n1 by (auto simp: mpp_mem_pool_init_def get_pool_def Let_def bind_eq_Some_conv)
  have c3: "call_ok w2 ([1, 2], ?A(1 := ([], []), 2 := ([], []))) (Get 1 (Some 3) [])" using n2 by (auto simp: fresh_block_def)
  obtain w3 where w3: "pools_represent w3 ([1, 2], (?A(1 := ([], []), 2 := ([], [])))(1 := ([3], [])))" using call_refines [OF w2(2) c3] by auto
  then have ok: "pools_ok w3 [1, 2] ((?A(1 := ([], []), 2 := ([], [])))(1 := ([3], [])))" by simp
  show ?thesis using foreign_block_handed_out [OF ok, of 2 1 3 None "[]"] by auto
qed


end
