(* ===== verification/Mpp_Server.thy ===== *)
theory Mpp_Server
  imports Mpp_Service
begin

text \<open>
  The server of batches (\<open>osal/driver/mpp_server.cpp\<close>): sessions hand it their tasks, and a thread
  that a timer calls collects the tasks of all sessions into batches, sends each batch with one
  call of the kernel and polls for its tasks.

  A list of the code is the sequence of its entries; taking an entry out of the list that it is in
  removes it from the sequence. A session and a batch are named by their blocks of memory, a task by
  its session and its index there (\<open>slot_idx\<close>), a server by its client type. The requests of a task
  are a pointer into a buffer of the client, \<open>sy_bufs\<close>, which the client goes on to use. The \<open>new\<close>
  of C++ does not fail. Access to memory that is not there is \<^const>\<open>None\<close>.
\<close>

section \<open>Data\<close>

definition MAX_BATCH_TASK :: u32 where "MAX_BATCH_TASK = 8"
definition MAX_SESSION_TASK :: nat where "MAX_SESSION_TASK = 4"
definition MAX_REQ_SEND_CNT :: nat where "MAX_REQ_SEND_CNT = MAX_REQ_NUM"
definition MAX_REQ_WAIT_CNT :: nat where "MAX_REQ_WAIT_CNT = 2"
definition VPU_CLIENT_BUTT :: int where "VPU_CLIENT_BUTT = 29"
definition EAGAIN :: int where "EAGAIN = 11"
definition EIO :: int where "EIO = 5"
definition MPP_FLAGS_POLL_NON_BLOCK :: u32 where "MPP_FLAGS_POLL_NON_BLOCK = 0x00000020"

lemmas server_limits = MAX_SESSION_TASK_def MAX_REQ_SEND_CNT_def MAX_REQ_WAIT_CNT_def MAX_REQ_NUM_def VPU_CLIENT_BUTT_def

type_synonym task_ref = "nat \<times> nat"

record dev_task =
  tk_batch :: "nat option"
  tk_task_id :: int
  tk_batch_slot_id :: int
  tk_req :: nat
  tk_req_cnt :: nat

text \<open>The counts of requests are the lengths of the lists; \<open>fill_timeout\<close>, which is only logged, is left out.\<close>

record batch_task =
  ba_tasks :: "task_ref list"
  ba_batch_id :: u32
  ba_bat_cmd :: "bat_cmd list"
  ba_send_reqs :: "mpp_req list"
  ba_wait_reqs :: "mpp_req list"
  ba_fill_cnt :: int
  ba_fill_full :: bool
  ba_poll_cnt :: int

text \<open>\<open>ss_signal\<close>: the condition of the session was signalled.\<close>

record session =
  ss_signal :: bool
  ss_list_wait :: "nat list"
  ss_list_done :: "nat list"
  ss_ctx :: nat
  ss_server :: "int option"
  ss_client :: int
  ss_task_wait :: int
  ss_task_done :: int
  ss_tasks :: "dev_task list"

record bat_serv =
  be_server_fd :: int
  be_batch_id :: u32
  be_task_id :: u32
  be_timer :: bool
  be_session_list :: "nat list"
  be_session_count :: int
  be_list_batch :: "nat list"
  be_list_batch_free :: "nat list"
  be_batches :: "nat \<rightharpoonup> batch_task"
  be_next_block :: nat
  be_batch_max_count :: int
  be_batch_run :: int
  be_batch_free :: int
  be_max_task_in_batch :: int
  be_pending_task :: "task_ref list"
  be_pending_count :: int

text \<open>What the server uses of the context of a device (\<open>MppDevMppService\<close>).\<close>

record serv_client =
  dc_client_type :: int
  dc_client :: int
  dc_server :: int
  dc_serv_ctx :: "nat option"
  dc_batch_io :: bool
  dc_dev_cb :: bool
  dc_reqs :: nat
  dc_req_cnt :: nat

text \<open>
  The class \<open>MppDevServer\<close> with what it reaches: the servers by client type, the sessions, the
  contexts and their buffers. The environment: the world, with the calls to the kernel, and for each call on a
  batch the values that the kernel stores in the fields \<open>ret\<close> of its commands; the calls of
  \<open>mpp_callback\<close> are a log of contexts.
\<close>

record dev_server =
  sy_server_error :: "string option"
  sy_server_name :: "string option"
  sy_inited :: bool
  sy_enable :: bool
  sy_max_task_in_batch :: int
  sy_servers :: "int \<rightharpoonup> bat_serv"
  sy_sessions :: "nat \<rightharpoonup> session"
  sy_next_block :: nat
  sy_ctxs :: "nat \<rightharpoonup> serv_client"
  sy_bufs :: "nat \<rightharpoonup> mpp_req list"
  sy_world :: world
  sy_rets :: "int list list"
  sy_callbacks :: "nat list"

section \<open>Batches\<close>

definition batch_reset :: "batch_task \<Rightarrow> batch_task" where
  "batch_reset batch = batch\<lparr>ba_fill_cnt := 0, ba_fill_full := False, ba_poll_cnt := 0, ba_send_reqs := [], ba_wait_reqs := []\<rparr>"

text \<open>The memory from the pool is zeroed; a failure leaves the server as it is.\<close>

definition batch_add :: "bat_serv \<Rightarrow> dev_server \<Rightarrow> bat_serv \<times> dev_server" where
  "batch_add server s =
     (let (ok, w) = sys_alloc (sy_world s);
          s = s\<lparr>sy_world := w\<rparr>;
          b = be_next_block server;
          batch = \<lparr>ba_tasks = [], ba_batch_id = 0,
            ba_bat_cmd = replicate (nat (be_max_task_in_batch server)) \<lparr>bc_flag = 0, bc_client = 0, bc_ret = 0\<rparr>,
            ba_send_reqs = [], ba_wait_reqs = [], ba_fill_cnt = 0, ba_fill_full = False, ba_poll_cnt = 0\<rparr>
      in if \<not> ok then (server, s)
         else (server\<lparr>be_batches := (be_batches server)(b \<mapsto> batch_reset batch), be_next_block := Suc b,
                      be_list_batch_free := be_list_batch_free server @ [b], be_batch_free := be_batch_free server + 1\<rparr>, s))"

definition batch_del :: "bat_serv \<Rightarrow> nat \<Rightarrow> bat_serv" where
  "batch_del server b = server\<lparr>be_list_batch := remove1 b (be_list_batch server), be_list_batch_free := remove1 b (be_list_batch_free server),
     be_batches := (be_batches server)(b := None), be_batch_free := be_batch_free server - 1\<rparr>"

text \<open>\<open>list_del_init\<close> of the link to the server, and \<open>list_add_tail\<close> to either list.\<close>

definition move_to_run :: "nat \<Rightarrow> bat_serv \<Rightarrow> bat_serv" where
  "move_to_run b server = server\<lparr>be_list_batch := remove1 b (be_list_batch server) @ [b],
     be_list_batch_free := remove1 b (be_list_batch_free server)\<rparr>"

definition move_to_free :: "nat \<Rightarrow> bat_serv \<Rightarrow> bat_serv" where
  "move_to_free b server = server\<lparr>be_list_batch := remove1 b (be_list_batch server),
     be_list_batch_free := remove1 b (be_list_batch_free server) @ [b]\<rparr>"

text \<open>A call of the kernel with the requests of a batch; it stores results in the first commands.\<close>

fun store_rets :: "bat_cmd list \<Rightarrow> int list \<Rightarrow> bat_cmd list" where
  "store_rets (c # cs) (r # rs) = c\<lparr>bc_ret := r\<rparr> # store_rets cs rs"
| "store_rets cs _ = cs"

definition bat_ioctl :: "int \<Rightarrow> mpp_req list \<Rightarrow> batch_task \<Rightarrow> dev_server \<Rightarrow> int \<times> batch_task \<times> dev_server" where
  "bat_ioctl fd reqs batch s =
     (let (r, w) = mpp_service_ioctl_request fd reqs (sy_world s);
          (rets, rest) = (case sy_rets s of [] \<Rightarrow> ([], []) | x # xs \<Rightarrow> (x, xs))
      in (rp_ret r, batch\<lparr>ba_bat_cmd := store_rets (ba_bat_cmd batch) rets\<rparr>, s\<lparr>sy_world := w, sy_rets := rest\<rparr>))"

definition batch_send :: "bat_serv \<Rightarrow> nat \<Rightarrow> dev_server \<Rightarrow> (bat_serv \<times> dev_server) option" where
  "batch_send server b s = do {
     batch \<leftarrow> be_batches server b;
     let (ret, batch, s) = bat_ioctl (be_server_fd server) (ba_send_reqs batch) batch s;
     let server = move_to_run b (server\<lparr>be_batches := (be_batches server)(b \<mapsto> batch)\<rparr>);
     Some (server\<lparr>be_batch_free := be_batch_free server - 1, be_batch_run := be_batch_run server + 1\<rparr>, s)
   }"

section \<open>Tasks of a session\<close>

definition get_task :: "dev_server \<Rightarrow> task_ref \<Rightarrow> (session \<times> dev_task) option" where
  "get_task s t = do {
     ss \<leftarrow> sy_sessions s (fst t);
     tk \<leftarrow> elem (ss_tasks ss) (int (snd t));
     Some (ss, tk)
   }"

definition set_session :: "nat \<Rightarrow> session \<Rightarrow> dev_server \<Rightarrow> dev_server" where
  "set_session i ss s = s\<lparr>sy_sessions := (sy_sessions s)(i \<mapsto> ss)\<rparr>"

definition set_task :: "nat \<Rightarrow> dev_task \<Rightarrow> session \<Rightarrow> session" where
  "set_task j tk ss = ss\<lparr>ss_tasks := (ss_tasks ss)[j := tk]\<rparr>"

section \<open>The thread\<close>

text \<open>
  The first part: the tasks of the batch that runs the longest. A task with a result of 0 leaves the
  batch, and its session is told.
\<close>

fun poll_tasks :: "task_ref list \<Rightarrow> batch_task \<Rightarrow> dev_server \<Rightarrow> (batch_task \<times> dev_server) option" where
  "poll_tasks [] batch s = Some (batch, s)"
| "poll_tasks (t # ts) batch s = do {
     (ss, tk) \<leftarrow> get_task s t;
     cmd \<leftarrow> elem (ba_bat_cmd batch) (tk_batch_slot_id tk);
     flagged \<leftarrow> put (ba_bat_cmd batch) (tk_batch_slot_id tk) (cmd\<lparr>bc_flag := bc_flag cmd OR 1\<rparr>);
     let ret = bc_ret cmd;
     if ret = EAGAIN then poll_tasks ts batch s
     else if ret = - EIO then poll_tasks ts (batch\<lparr>ba_bat_cmd := flagged\<rparr>) s
     else if ret = 0 then do {
       let ss = set_task (snd t) (tk\<lparr>tk_batch := None\<rparr>) ss;
       let ss = ss\<lparr>ss_task_done := ss_task_done ss + 1, ss_signal := True\<rparr>;
       ctx \<leftarrow> sy_ctxs s (ss_ctx ss);
       let s = set_session (fst t) ss s;
       let s = (if dc_dev_cb ctx then s\<lparr>sy_callbacks := sy_callbacks s @ [ss_ctx ss]\<rparr> else s);
       poll_tasks ts (batch\<lparr>ba_tasks := remove1 t (ba_tasks batch), ba_poll_cnt := ba_poll_cnt batch + 1, ba_bat_cmd := flagged\<rparr>) s
     }
     else poll_tasks ts batch s
   }"

function poll_loop :: "bat_serv \<Rightarrow> dev_server \<Rightarrow> (bat_serv \<times> dev_server) option" where
  "poll_loop server s = (case be_list_batch server of
     [] \<Rightarrow> Some (server, s)
   | b # _ \<Rightarrow> do {
       batch \<leftarrow> be_batches server b;
       let (ret, batch, s) = bat_ioctl (be_server_fd server) (ba_wait_reqs batch) batch s;
       if ret = 0 then do {
         (batch, s) \<leftarrow> poll_tasks (ba_tasks batch) batch s;
         if ba_poll_cnt batch = ba_fill_cnt batch then do {
           let server = move_to_free b server;
           let server = server\<lparr>be_batch_run := be_batch_run server - 1, be_batch_free := be_batch_free server + 1,
             be_batches := (be_batches server)(b \<mapsto> batch_reset batch)\<rparr>;
           poll_loop server s
         }
         else Some (server\<lparr>be_batches := (be_batches server)(b \<mapsto> batch)\<rparr>, s)
       }
       else Some (server\<lparr>be_batches := (be_batches server)(b \<mapsto> batch), be_timer := False\<rparr>, s)
     })"
  by pat_completeness auto

termination
  by (relation "measure (\<lambda>(server, s). length (be_list_batch server))") (auto simp: move_to_free_def)

text \<open>
  A request behind those a batch has: the arrays \<open>send_reqs\<close>, \<open>wait_reqs\<close> and \<open>bat_cmd\<close> lie one behind
  the other in the block of the batch.
\<close>

definition add_reqs :: "nat \<Rightarrow> bat_serv \<Rightarrow> mpp_req list \<Rightarrow> mpp_req list \<Rightarrow> mpp_req list option" where
  "add_reqs per_task server reqs new =
     (if int (length reqs + length new) \<le> be_max_task_in_batch server * int per_task then Some (reqs @ new) else None)"

definition session_req :: "nat \<Rightarrow> int \<Rightarrow> mpp_req" where
  "session_req b slot = \<lparr>rq_cmd = MPP_CMD_SET_SESSION_FD, rq_flag = MPP_FLAGS_MULTI_MSG, rq_size = 16, rq_offset = 0, rq_data = P_cmd b slot\<rparr>"

definition poll_req :: mpp_req where
  "poll_req = \<lparr>rq_cmd = MPP_CMD_POLL_HW_FINISH, rq_flag = MPP_FLAGS_POLL_NON_BLOCK OR MPP_FLAGS_MULTI_MSG OR MPP_FLAGS_LAST_MSG,
     rq_size = 0, rq_offset = 0, rq_data = P_null\<rparr>"

text \<open>The requests of a task are read when it is put into a batch.\<close>

definition task_reqs :: "dev_server \<Rightarrow> dev_task \<Rightarrow> mpp_req list option" where
  "task_reqs s tk = do {
     reqs \<leftarrow> sy_bufs s (tk_req tk);
     if tk_req_cnt tk \<le> length reqs then Some (take (tk_req_cnt tk) reqs) else None
   }"

definition fill_task :: "bat_serv \<Rightarrow> nat \<Rightarrow> task_ref \<Rightarrow> dev_server \<Rightarrow> (bat_serv \<times> bool \<times> dev_server) option" where
  "fill_task server b t s = do {
     batch \<leftarrow> be_batches server b;
     let (server, batch) = (if ba_fill_cnt batch = 0
       then (server\<lparr>be_batch_id := be_batch_id server + 1\<rparr>, batch\<lparr>ba_batch_id := be_batch_id server\<rparr>) else (server, batch));
     (ss, tk) \<leftarrow> get_task s t;
     let slot = ba_fill_cnt batch;
     let tk = tk\<lparr>tk_batch := Some b, tk_batch_slot_id := slot\<rparr>;
     let s = set_session (fst t) (set_task (snd t) tk ss) s;
     let batch = batch\<lparr>ba_fill_cnt := slot + 1, ba_tasks := ba_tasks batch @ [t]\<rparr>;
     let batch = (if ba_fill_cnt batch \<ge> be_max_task_in_batch server then batch\<lparr>ba_fill_full := True\<rparr> else batch);
     cmds \<leftarrow> put (ba_bat_cmd batch) slot \<lparr>bc_flag = 0, bc_client = ss_client ss, bc_ret = 0\<rparr>;
     reqs \<leftarrow> add_reqs MAX_REQ_SEND_CNT server (ba_send_reqs batch) [session_req b slot];
     new \<leftarrow> task_reqs s tk;
     send \<leftarrow> add_reqs MAX_REQ_SEND_CNT server reqs new;
     wait \<leftarrow> add_reqs MAX_REQ_WAIT_CNT server (ba_wait_reqs batch) [session_req b slot, poll_req];
     let batch = batch\<lparr>ba_bat_cmd := cmds, ba_send_reqs := send, ba_wait_reqs := wait\<rparr>;
     Some (server\<lparr>be_batches := (be_batches server)(b \<mapsto> batch)\<rparr>, ba_fill_full batch, s)
   }"

text \<open>A free batch is needed: one more is made when there are not too many. The result says whether to go on.\<close>

definition get_batch :: "bat_serv \<Rightarrow> dev_server \<Rightarrow> bool \<times> bat_serv \<times> dev_server" where
  "get_batch server s =
     (if be_batch_free server = 0 then
        if be_batch_free server + be_batch_run server \<ge> be_batch_max_count server then (False, server, s)
        else (True, batch_add server s)
      else (True, server, s))"

definition send_rest :: "bat_serv \<Rightarrow> dev_server \<Rightarrow> (bat_serv \<times> dev_server) option" where
  "send_rest server s =
     (if be_batch_free server = 0 then Some (server, s)
      else case be_list_batch_free server of
        [] \<Rightarrow> Some (server, s)
      | b # _ \<Rightarrow> do {
          batch \<leftarrow> be_batches server b;
          if ba_fill_cnt batch \<noteq> 0 then batch_send server b s else Some (server, s)
        })"

text \<open>\<open>try_proc_pending_task\<close>.\<close>

lemma fill_task_pending:
  "fill_task server b t s = Some (server', full, s') \<Longrightarrow> be_pending_task server' = be_pending_task server"
  by (auto simp: fill_task_def Let_def bind_eq_Some_conv split: if_splits prod.splits)

lemma batch_send_pending:
  "batch_send server b s = Some (server', s') \<Longrightarrow> be_pending_task server' = be_pending_task server"
  by (cases "be_batches server b"; cases "bat_ioctl (be_server_fd server) (ba_send_reqs (the (be_batches server b))) (the (be_batches server b)) s")
    (auto simp: batch_send_def move_to_run_def Let_def)

lemma get_batch_pending: "get_batch server s = (go, server', s') \<Longrightarrow> be_pending_task server' = be_pending_task server"
  by (auto simp: get_batch_def batch_add_def Let_def split: if_splits prod.splits)

lemma tail_shorter: "x # xs = ys \<Longrightarrow> length xs < length ys"
  by auto

function fill_loop :: "bat_serv \<Rightarrow> dev_server \<Rightarrow> int \<Rightarrow> (bat_serv \<times> dev_server) option" where
  "fill_loop server s pending =
     (case get_batch server s of (go, server, s) \<Rightarrow>
      if \<not> go then Some (server, s)
      else if pending = 0 then send_rest server s
      else if be_batch_free server = 0 then Some (server, s)
      else (case (be_list_batch_free server, be_pending_task server) of
          (b # _, t # ts) \<Rightarrow> do {
            let server = server\<lparr>be_pending_task := ts, be_pending_count := be_pending_count server - 1\<rparr>;
            (server, full, s) \<leftarrow> fill_task server b t s;
            (server, s) \<leftarrow> (if full then batch_send (move_to_run b server) b s else Some (server, s));
            fill_loop server s (pending - 1)
          }
        | _ \<Rightarrow> None))"
  by pat_completeness auto

termination
  by (relation "measure (\<lambda>(server, s, pending). length (be_pending_task server))")
    (auto simp: move_to_run_def dest!: fill_task_pending batch_send_pending get_batch_pending [OF sym] intro: tail_shorter split: if_splits)

declare poll_loop.simps [simp del] fill_loop.simps [simp del]

definition process_task :: "bat_serv \<Rightarrow> dev_server \<Rightarrow> (bat_serv \<times> dev_server) option" where
  "process_task server s = do {
     (server, s) \<leftarrow> poll_loop server s;
     let pending = be_pending_count server;
     let server = (if pending = 0 \<and> be_batch_run server = 0 \<and> be_session_count server = 0 then server\<lparr>be_timer := False\<rparr> else server);
     fill_loop server s pending
   }"

text \<open>A turn of the timer of a server: nothing happens when the timer is stopped.\<close>

definition mpp_server_thread :: "int \<Rightarrow> dev_server \<Rightarrow> dev_server option" where
  "mpp_server_thread k s = do {
     server \<leftarrow> sy_servers s k;
     if \<not> be_timer server then Some s
     else do {
       (server, s) \<leftarrow> process_task server s;
       Some (s\<lparr>sy_servers := (sy_servers s)(k \<mapsto> server)\<rparr>)
     }
   }"

section \<open>The clients\<close>

definition upd_server :: "int \<Rightarrow> bat_serv \<Rightarrow> dev_server \<Rightarrow> dev_server" where
  "upd_server k server s = s\<lparr>sy_servers := (sy_servers s)(k \<mapsto> server)\<rparr>"

definition send_task :: "nat \<Rightarrow> dev_server \<Rightarrow> (mpp_ret \<times> dev_server) option" where
  "send_task c s = do {
     ctx \<leftarrow> sy_ctxs s c;
     case dc_serv_ctx ctx of None \<Rightarrow> Some (MPP_NOK, s)
     | Some i \<Rightarrow> do {
         ss \<leftarrow> sy_sessions s i;
         case ss_server ss of None \<Rightarrow> Some (MPP_NOK, s)
         | Some k \<Rightarrow> do {
             server \<leftarrow> sy_servers s k;
             case ss_list_done ss of [] \<Rightarrow> None
             | j # rest \<Rightarrow> do {
                 tk \<leftarrow> elem (ss_tasks ss) (int j);
                 let tk = tk\<lparr>tk_req := dc_reqs ctx, tk_req_cnt := dc_req_cnt ctx\<rparr>;
                 let ss = ss\<lparr>ss_list_done := rest, ss_list_wait := remove1 j (ss_list_wait ss) @ [j], ss_task_wait := ss_task_wait ss + 1\<rparr>;
                 let tk = tk\<lparr>tk_task_id := sint (be_task_id server)\<rparr>;
                 let server = server\<lparr>be_task_id := be_task_id server + 1,
                   be_pending_task := remove1 (i, j) (be_pending_task server) @ [(i, j)],
                   be_pending_count := be_pending_count server + 1, be_timer := True\<rparr>;
                 Some (MPP_OK, upd_server k server (set_session i (set_task j tk ss) s))
               }
           }
       }
   }"

text \<open>
  Waiting: \<open>others\<close> is what the other threads do until the condition of the session is signalled. The
  client waits once, and takes the task that was the first of the list when it came.
\<close>

definition wait_task :: "nat \<Rightarrow> (dev_server \<Rightarrow> dev_server option) \<Rightarrow> dev_server \<Rightarrow> (mpp_ret \<times> dev_server) option" where
  "wait_task c others s = do {
     ctx \<leftarrow> sy_ctxs s c;
     case dc_serv_ctx ctx of None \<Rightarrow> Some (MPP_NOK, s)
     | Some i \<Rightarrow> do {
         ss \<leftarrow> sy_sessions s i;
         s \<leftarrow> (if ss_task_wait ss \<noteq> ss_task_done ss then others (set_session i (ss\<lparr>ss_signal := False\<rparr>) s) else Some s);
         case ss_list_wait ss of [] \<Rightarrow> None
         | j # _ \<Rightarrow> do {
             ss \<leftarrow> sy_sessions s i;
             let ss = ss\<lparr>ss_list_wait := remove1 j (ss_list_wait ss), ss_list_done := remove1 j (ss_list_done ss) @ [j]\<rparr>;
             Some (MPP_OK, set_session i ss s)
           }
       }
   }"

section \<open>The class\<close>

text \<open>The constructor, on a state that has the contexts and the environment.\<close>

definition MppDevServer :: "sys_env \<Rightarrow> cmd_cap \<Rightarrow> dev_server \<Rightarrow> dev_server" where
  "MppDevServer env cap s =
     (let s = s\<lparr>sy_server_error := None, sy_server_name := None, sy_inited := False,
            sy_enable := (env_get_u32 env ''mpp_server_enable'' 1 \<noteq> 0),
            sy_max_task_in_batch := sint (env_get_u32 env ''mpp_server_batch_task'' MAX_BATCH_TASK),
            sy_servers := Map.empty, sy_sessions := Map.empty, sy_next_block := 0\<rparr>;
          cleared = (\<lambda>s. s\<lparr>sy_inited := False, sy_enable := False\<rparr>)
      in if mpp_service_check_cmd_valid MPP_CMD_SET_SESSION_FD cap \<noteq> MPP_OK
         then s\<lparr>sy_server_error := Some ''mpp_service cmd not support''\<rparr>
         else let s = s\<lparr>sy_server_name := mpp_get_mpp_service_name env\<rparr> in
           (if sy_server_name s = None then cleared (s\<lparr>sy_server_error := Some ''get service device failed''\<rparr>)
            else let (ok, w) = sys_alloc (sy_world s); s = s\<lparr>sy_world := w\<rparr> in
              (if \<not> ok then cleared (s\<lparr>sy_server_error := Some ''create session pool failed''\<rparr>)
               else let (ok, w) = sys_alloc (sy_world s); s = s\<lparr>sy_world := w\<rparr> in
                 (if \<not> ok then cleared (s\<lparr>sy_server_error := Some ''create batch tack pool failed''\<rparr>)
                  else s\<lparr>sy_inited := True\<rparr>))))"

text \<open>
  The server of a client type, made when it is not there: whether there is one. The allocations are the
  one of the server and the one of the timer.
\<close>

definition new_bat_serv :: "int \<Rightarrow> int \<Rightarrow> bat_serv" where
  "new_bat_serv fd max_task = \<lparr>be_server_fd = fd, be_batch_id = 0, be_task_id = 0, be_timer = False, be_session_list = [],
     be_session_count = 0, be_list_batch = [], be_list_batch_free = [], be_batches = Map.empty, be_next_block = 0,
     be_batch_max_count = 0, be_batch_run = 0, be_batch_free = 0, be_max_task_in_batch = max_task,
     be_pending_task = [], be_pending_count = 0\<rparr>"

definition bat_server_get :: "int \<Rightarrow> dev_server \<Rightarrow> (bool \<times> dev_server) option" where
  "bat_server_get k s =
     (if k < 0 \<or> VPU_CLIENT_BUTT \<le> k then None
      else if sy_servers s k \<noteq> None then Some (True, s)
      else
        let (ok, w) = sys_alloc (sy_world s); s = s\<lparr>sy_world := w\<rparr> in
        (if \<not> ok then Some (False, s)
         else let (fd, w) = sys_open (sy_server_name s) (sy_world s); s = s\<lparr>sy_world := w\<rparr> in
           (if fd < 0 then Some (False, s)
            else let (ok, w) = sys_alloc (sy_world s) in
              (if \<not> ok then Some (False, s\<lparr>sy_world := sys_close fd w\<rparr>)
               else Some (True, upd_server k (new_bat_serv fd (sy_max_task_in_batch s)) (s\<lparr>sy_world := w\<rparr>))))))"

definition bat_server_put :: "int \<Rightarrow> dev_server \<Rightarrow> (mpp_ret \<times> dev_server) option" where
  "bat_server_put k s =
     (if k < 0 \<or> VPU_CLIENT_BUTT \<le> k then None
      else case sy_servers s k of None \<Rightarrow> Some (MPP_OK, s)
      | Some server \<Rightarrow>
          let server = server\<lparr>be_timer := False\<rparr>;
              server = (if be_batch_free server \<noteq> 0 then fold (\<lambda>b server. batch_del server b) (be_list_batch_free server) server else server);
              w = (if be_server_fd server \<ge> 0 then sys_close (be_server_fd server) (sy_world s) else sy_world s)
          in Some (MPP_OK, s\<lparr>sy_servers := (sy_servers s)(k := None), sy_world := w\<rparr>))"

text \<open>The destructor: every client type, then \<open>clear\<close>.\<close>

fun put_all :: "nat \<Rightarrow> int \<Rightarrow> dev_server \<Rightarrow> dev_server option" where
  "put_all 0 k s = Some s"
| "put_all (Suc n) k s = do { (_, s) \<leftarrow> bat_server_put k s; put_all n (k + 1) s }"

definition MppDevServer_end :: "dev_server \<Rightarrow> dev_server option" where
  "MppDevServer_end s = do {
     s \<leftarrow> put_all (nat VPU_CLIENT_BUTT) 0 s;
     Some (s\<lparr>sy_inited := False, sy_enable := False\<rparr>)
   }"

definition new_task :: dev_task where
  "new_task = \<lparr>tk_batch = None, tk_task_id = -1, tk_batch_slot_id = 0, tk_req = 0, tk_req_cnt = 0\<rparr>"

definition new_session :: "nat \<Rightarrow> int \<Rightarrow> int \<Rightarrow> session" where
  "new_session c k client = \<lparr>ss_signal = False, ss_list_wait = [], ss_list_done = [0..<MAX_SESSION_TASK], ss_ctx = c,
     ss_server = Some k, ss_client = client, ss_task_wait = 0, ss_task_done = 0, ss_tasks = replicate MAX_SESSION_TASK new_task\<rparr>"

definition attach :: "nat \<Rightarrow> dev_server \<Rightarrow> (mpp_ret \<times> dev_server) option" where
  "attach c s = do {
     ctx \<leftarrow> sy_ctxs s c;
     let k = dc_client_type ctx;
     if \<not> sy_inited s then Some (MPP_NOK, s)
     else if k < 0 \<or> VPU_CLIENT_BUTT \<le> k then Some (MPP_NOK, s)
     else do {
       (ok, s) \<leftarrow> bat_server_get k s;
       if \<not> ok then Some (MPP_NOK, s)
       else if dc_serv_ctx ctx \<noteq> None then Some (MPP_OK, s)
       else do {
         server \<leftarrow> sy_servers s k;
         let (ok, w) = sys_alloc (sy_world s);
         if \<not> ok then None
         else do {
           let i = sy_next_block s;
           let s = s\<lparr>sy_world := w, sy_next_block := Suc i\<rparr>;
           let s = set_session i (new_session c k (dc_client ctx)) s;
           let ctx = ctx\<lparr>dc_serv_ctx := Some i\<rparr>;
           let ctx = (if sy_enable s then ctx\<lparr>dc_batch_io := True, dc_server := be_server_fd server\<rparr>
                      else ctx\<lparr>dc_batch_io := False, dc_server := dc_client ctx\<rparr>);
           let server = server\<lparr>be_session_list := be_session_list server @ [i],
             be_batch_max_count := be_batch_max_count server + 1, be_session_count := be_session_count server + 1\<rparr>;
           Some (MPP_OK, upd_server k server (s\<lparr>sy_ctxs := (sy_ctxs s)(c \<mapsto> ctx)\<rparr>))
         }
       }
     }
   }"

definition detach :: "nat \<Rightarrow> dev_server \<Rightarrow> (mpp_ret \<times> dev_server) option" where
  "detach c s = do {
     ctx \<leftarrow> sy_ctxs s c;
     let k = dc_client_type ctx;
     if \<not> sy_inited s then Some (MPP_NOK, s)
     else do {
       (ok, s) \<leftarrow> bat_server_get k s;
       if \<not> ok then None
       else (case dc_serv_ctx ctx of
         None \<Rightarrow> Some (MPP_OK, s)
       | Some i \<Rightarrow> do {
           server \<leftarrow> sy_servers s k;
           let ctx = ctx\<lparr>dc_server := dc_client ctx, dc_serv_ctx := None, dc_batch_io := False\<rparr>;
           ss \<leftarrow> sy_sessions s i;
           let server = server\<lparr>be_session_list := remove1 i (be_session_list server),
             be_batch_max_count := be_batch_max_count server + 1, be_session_count := be_session_count server + 1\<rparr>;
           Some (MPP_OK, upd_server k server (s\<lparr>sy_ctxs := (sy_ctxs s)(c \<mapsto> ctx), sy_sessions := (sy_sessions s)(i := None)\<rparr>))
         })
     }
   }"

definition check_status :: "dev_server \<Rightarrow> mpp_ret" where
  "check_status s = (if \<not> sy_inited s then MPP_NOK else MPP_OK)"

definition mpp_server_attach :: "nat \<Rightarrow> dev_server \<Rightarrow> (mpp_ret \<times> dev_server) option" where
  "mpp_server_attach c s = attach c s"

definition mpp_server_detach :: "nat \<Rightarrow> dev_server \<Rightarrow> (mpp_ret \<times> dev_server) option" where
  "mpp_server_detach c s = detach c s"

definition mpp_server_send_task :: "nat \<Rightarrow> dev_server \<Rightarrow> (mpp_ret \<times> dev_server) option" where
  "mpp_server_send_task c s = (let ret = check_status s in if ret = MPP_OK then send_task c s else Some (ret, s))"

definition mpp_server_wait_task :: "nat \<Rightarrow> (dev_server \<Rightarrow> dev_server option) \<Rightarrow> dev_server \<Rightarrow> (mpp_ret \<times> dev_server) option" where
  "mpp_server_wait_task c others s = (let ret = check_status s in if ret = MPP_OK then wait_task c others s else Some (ret, s))"

end
