(* ===== verification/Batch_Jobs.thy ===== *)
theory Batch_Jobs
  imports Mpp_Server "HOL-Library.Multiset"
begin

text \<open>
  What the server of batches keeps, and what becomes of the tasks it is given. A task has one owner: it
  is free, or pending, or in one batch, or finished and not yet waited for; an operation hands it on.
\<close>

section \<open>Tasks\<close>

definition task_of :: "dev_server \<Rightarrow> task_ref \<Rightarrow> dev_task option" where
  "task_of s t = map_option snd (get_task s t)"

definition slot_of :: "dev_server \<Rightarrow> task_ref \<Rightarrow> int" where
  "slot_of s t = (case task_of s t of None \<Rightarrow> 0 | Some tk \<Rightarrow> tk_batch_slot_id tk)"

lemma get_task_Some:
  "get_task s t = Some (ss, tk) \<longleftrightarrow> sy_sessions s (fst t) = Some ss \<and> snd t < length (ss_tasks ss) \<and> tk = ss_tasks ss ! snd t"
  by (auto simp: get_task_def elem_def bind_eq_Some_conv)

lemma task_of_Some:
  "task_of s t = Some tk \<longleftrightarrow> (\<exists>ss. sy_sessions s (fst t) = Some ss \<and> snd t < length (ss_tasks ss) \<and> tk = ss_tasks ss ! snd t)"
  by (auto simp: task_of_def get_task_Some)

lemma task_of_cong:
  "sy_sessions s' = sy_sessions s \<Longrightarrow> task_of s' t = task_of s t"
  by (simp add: task_of_def get_task_def)

text \<open>Changing one task of a session.\<close>

lemma task_of_update:
  assumes "get_task s t = Some (ss, tk)" "ss_tasks ss' = (ss_tasks ss)[snd t := tk']"
  shows "task_of (set_session (fst t) ss' s) t' = (if t' = t then Some tk' else task_of s t')"
  using assms by (cases t; cases t') (auto simp: task_of_def get_task_def set_session_def elem_def bind_eq_Some_conv nth_list_update split: if_splits bind_splits)

text \<open>A task that the kernel has finished.\<close>

definition finish_task :: "task_ref \<Rightarrow> dev_server \<Rightarrow> dev_server" where
  "finish_task t s = (case get_task s t of None \<Rightarrow> s | Some (ss, tk) \<Rightarrow>
     let ss' = (set_task (snd t) (tk\<lparr>tk_batch := None\<rparr>) ss)\<lparr>ss_task_done := ss_task_done ss + 1, ss_signal := True\<rparr>;
         s' = set_session (fst t) ss' s
     in case sy_ctxs s (ss_ctx ss) of None \<Rightarrow> s'
        | Some ctx \<Rightarrow> if dc_dev_cb ctx then s'\<lparr>sy_callbacks := sy_callbacks s' @ [ss_ctx ss]\<rparr> else s')"

lemma finish_task_frame [simp]:
  "sy_ctxs (finish_task t s) = sy_ctxs s" "sy_bufs (finish_task t s) = sy_bufs s" "sy_world (finish_task t s) = sy_world s"
  "sy_rets (finish_task t s) = sy_rets s" "sy_servers (finish_task t s) = sy_servers s" "sy_inited (finish_task t s) = sy_inited s"
  "sy_enable (finish_task t s) = sy_enable s" "sy_max_task_in_batch (finish_task t s) = sy_max_task_in_batch s" "sy_next_block (finish_task t s) = sy_next_block s"
  by (auto simp: finish_task_def set_session_def Let_def split: option.splits prod.splits)

lemma finish_task_sessions:
  assumes "get_task s t = Some (ss, tk)"
  shows "sy_sessions (finish_task t s) = (sy_sessions s)(fst t \<mapsto>
     ss\<lparr>ss_tasks := (ss_tasks ss)[snd t := tk\<lparr>tk_batch := None\<rparr>], ss_task_done := ss_task_done ss + 1, ss_signal := True\<rparr>)"
  using assms by (auto simp: finish_task_def set_session_def set_task_def Let_def split: option.splits)

lemma finish_task_task:
  assumes "task_of s t = Some tk"
  shows "task_of (finish_task t s) t' = (if t' = t then Some (tk\<lparr>tk_batch := None\<rparr>) else task_of s t')"
proof -
  obtain ss where g: "get_task s t = Some (ss, tk)" using assms by (auto simp: task_of_def)
  let ?ss = "ss\<lparr>ss_tasks := (ss_tasks ss)[snd t := tk\<lparr>tk_batch := None\<rparr>], ss_task_done := ss_task_done ss + 1, ss_signal := True\<rparr>"
  have "task_of (finish_task t s) t' = task_of (set_session (fst t) ?ss s) t'"
    by (rule task_of_cong) (simp add: finish_task_sessions [OF g] set_session_def)
  then show ?thesis using task_of_update [OF g, of ?ss "tk\<lparr>tk_batch := None\<rparr>" t'] by simp
qed

lemma finish_task_slot: "task_of s t \<noteq> None \<Longrightarrow> slot_of (finish_task t s) t' = slot_of s t'"
  by (auto simp: slot_of_def finish_task_task)

section \<open>Polling a batch\<close>

definition task_live :: "dev_server \<Rightarrow> nat \<Rightarrow> task_ref \<Rightarrow> bool" where
  "task_live s n t \<longleftrightarrow> (case get_task s t of None \<Rightarrow> False
     | Some (ss, tk) \<Rightarrow> sy_ctxs s (ss_ctx ss) \<noteq> None \<and> 0 \<le> tk_batch_slot_id tk \<and> tk_batch_slot_id tk < int n)"

lemma task_liveE:
  assumes "task_live s n t"
  obtains ss tk ctx where "get_task s t = Some (ss, tk)" "sy_ctxs s (ss_ctx ss) = Some ctx" "0 \<le> tk_batch_slot_id tk" "nat (tk_batch_slot_id tk) < n"
    "task_of s t = Some tk" "slot_of s t = tk_batch_slot_id tk"
  using assms by (auto simp: task_live_def task_of_def slot_of_def split: option.splits prod.splits)

lemma live_finish:
  assumes "task_live s n t'" "task_live s n t"
  shows "task_live (finish_task t s) n t'"
proof -
  obtain ss tk ctx where g: "get_task s t = Some (ss, tk)" "task_of s t = Some tk" by (rule task_liveE [OF assms(2)])
  obtain ss' tk' ctx' where g': "get_task s t' = Some (ss', tk')" "sy_ctxs s (ss_ctx ss') = Some ctx'" "0 \<le> tk_batch_slot_id tk'" "nat (tk_batch_slot_id tk') < n"
    by (rule task_liveE [OF assms(1)])
  have "\<exists>ss2. get_task (finish_task t s) t' = Some (ss2, if t' = t then tk\<lparr>tk_batch := None\<rparr> else tk') \<and> ss_ctx ss2 = ss_ctx ss'"
    using g(1) g'(1) finish_task_sessions [OF g(1)] by (cases t; cases t') (auto simp: get_task_Some nth_list_update)
  then show ?thesis using g'(1-4) g(1) by (auto simp: task_live_def nat_less_iff)
qed

definition zero_ret :: "batch_task \<Rightarrow> dev_server \<Rightarrow> task_ref \<Rightarrow> bool" where
  "zero_ret batch s t \<longleftrightarrow> bc_ret (ba_bat_cmd batch ! nat (slot_of s t)) = 0"

definition same_batch :: "batch_task \<Rightarrow> batch_task \<Rightarrow> bool" where
  "same_batch ba ba' \<longleftrightarrow> ba_batch_id ba' = ba_batch_id ba \<and> ba_send_reqs ba' = ba_send_reqs ba \<and> ba_wait_reqs ba' = ba_wait_reqs ba \<and>
     ba_fill_cnt ba' = ba_fill_cnt ba \<and> ba_fill_full ba' = ba_fill_full ba \<and> length (ba_bat_cmd ba') = length (ba_bat_cmd ba)"

lemma same_batch_refl [simp]: "same_batch ba ba"
  by (simp add: same_batch_def)

lemma same_batch_trans: "same_batch a b \<Longrightarrow> same_batch b c \<Longrightarrow> same_batch a c"
  by (simp add: same_batch_def)

lemma flag_rets: "i < length cmds \<Longrightarrow> List.map bc_ret (cmds[i := (cmds ! i)\<lparr>bc_flag := f\<rparr>]) = List.map bc_ret cmds"
  by (simp add: list_eq_iff_nth_eq nth_list_update)

lemma poll_tasks_ok:
  "distinct ts \<Longrightarrow> \<forall>t \<in> set ts. task_live s (length (ba_bat_cmd batch)) t \<Longrightarrow>
   \<exists>batch'. poll_tasks ts batch s = Some (batch', fold finish_task (filter (zero_ret batch s) ts) s) \<and>
     ba_tasks batch' = fold remove1 (filter (zero_ret batch s) ts) (ba_tasks batch) \<and>
     ba_poll_cnt batch' = ba_poll_cnt batch + int (length (filter (zero_ret batch s) ts)) \<and>
     List.map bc_ret (ba_bat_cmd batch') = List.map bc_ret (ba_bat_cmd batch) \<and> same_batch batch batch'"
proof (induction ts arbitrary: batch s)
  case (Cons t ts)
  obtain ss tk ctx where g: "get_task s t = Some (ss, tk)" "sy_ctxs s (ss_ctx ss) = Some ctx" "0 \<le> tk_batch_slot_id tk"
    "nat (tk_batch_slot_id tk) < length (ba_bat_cmd batch)" "task_of s t = Some tk" "slot_of s t = tk_batch_slot_id tk"
    using Cons.prems(2) task_liveE [of s "length (ba_bat_cmd batch)" t] by (metis list.set_intros(1))
  let ?i = "nat (tk_batch_slot_id tk)" and ?cmds = "ba_bat_cmd batch"
  let ?flagged = "?cmds[?i := (?cmds ! ?i)\<lparr>bc_flag := bc_flag (?cmds ! ?i) OR 1\<rparr>]"
  have e: "elem ?cmds (tk_batch_slot_id tk) = Some (?cmds ! ?i)" "put ?cmds (tk_batch_slot_id tk) x = Some (?cmds[?i := x])" for x
    using g(3,4) by (simp_all add: elem_def put_def)
  have rets: "List.map bc_ret ?flagged = List.map bc_ret ?cmds" by (rule flag_rets [OF g(4)])
  have same: "zero_ret batch' s' t' = zero_ret batch s t'" if "List.map bc_ret (ba_bat_cmd batch') = List.map bc_ret ?cmds" "slot_of s' t' = slot_of s t'"
    "task_live s (length ?cmds) t'" for batch' s' t'
    using that(1) map_equality_iff [of bc_ret "ba_bat_cmd batch'" bc_ret ?cmds] that(2) task_liveE [OF that(3)] by (metis zero_ret_def)
  have d: "distinct ts" using Cons.prems(1) by simp
  show ?case
  proof (cases "bc_ret (?cmds ! ?i) = 0")
    case True
    let ?s = "finish_task t s"
    let ?b = "batch\<lparr>ba_tasks := remove1 t (ba_tasks batch), ba_poll_cnt := ba_poll_cnt batch + 1, ba_bat_cmd := ?flagged\<rparr>"
    have live: "\<forall>t' \<in> set ts. task_live ?s (length (ba_bat_cmd ?b)) t'" using Cons.prems(2) live_finish by simp
    have f: "filter (zero_ret ?b ?s) ts = filter (zero_ret batch s) ts"
      by (rule filter_cong [OF refl], rule same) (use rets g(5) Cons.prems(2) in \<open>simp_all add: finish_task_slot\<close>)
    have z: "zero_ret batch s t" using True g(6) by (simp add: zero_ret_def)
    have step: "poll_tasks (t # ts) batch s = poll_tasks ts ?b ?s"
      using True e g(1,2) by (simp add: EAGAIN_def EIO_def finish_task_def set_task_def set_session_def Let_def)
    show ?thesis using Cons.IH [OF d live] unfolding step f using z rets by (auto simp: same_batch_def)
  next
    case False
    have z: "\<not> zero_ret batch s t" using False g(6) by (simp add: zero_ret_def)
    have live: "\<forall>t' \<in> set ts. task_live s (length (ba_bat_cmd b)) t'" if "length (ba_bat_cmd b) = length ?cmds" for b
      using Cons.prems(2) that by simp
    show ?thesis
    proof (cases "bc_ret (?cmds ! ?i) = - EIO")
      case True
      let ?b = "batch\<lparr>ba_bat_cmd := ?flagged\<rparr>"
      have f: "filter (zero_ret ?b s) ts = filter (zero_ret batch s) ts"
        by (rule filter_cong [OF refl], rule same) (use rets Cons.prems(2) in simp_all)
      have step: "poll_tasks (t # ts) batch s = poll_tasks ts ?b s" using True e g(1) by (simp add: EAGAIN_def EIO_def Let_def)
      show ?thesis using Cons.IH [OF d live, of ?b] unfolding step f using z rets by (auto simp: same_batch_def)
    next
      case other: False
      have step: "poll_tasks (t # ts) batch s = poll_tasks ts batch s" using False other e g(1) by (simp add: Let_def)
      show ?thesis using Cons.IH [OF d live, of batch] z unfolding step by simp
    qed
  qed
qed simp

section \<open>What holds of the tasks\<close>

text \<open>\<open>u\<close> are the tasks that the server has in hand: a session waits for as many results as it has tasks there.\<close>

definition session_ok :: "dev_server \<Rightarrow> session \<Rightarrow> nat \<Rightarrow> bool" where
  "session_ok s ss n \<longleftrightarrow> length (ss_tasks ss) = MAX_SESSION_TASK \<and> distinct (ss_list_wait ss @ ss_list_done ss) \<and>
     set (ss_list_wait ss @ ss_list_done ss) = {..<MAX_SESSION_TASK} \<and> ss_task_wait ss - ss_task_done ss = int n \<and>
     sy_ctxs s (ss_ctx ss) \<noteq> None"

definition tasks_in_session :: "nat \<Rightarrow> task_ref list \<Rightarrow> nat" where
  "tasks_in_session i u = length (filter (\<lambda>t. fst t = i) u)"

definition in_session :: "dev_server \<Rightarrow> int \<Rightarrow> task_ref \<Rightarrow> bool" where
  "in_session s k t \<longleftrightarrow> (case sy_sessions s (fst t) of None \<Rightarrow> False | Some ss \<Rightarrow> ss_server ss = Some k \<and> snd t \<in> set (ss_list_wait ss))"

definition tasks_ok :: "dev_server \<Rightarrow> int \<Rightarrow> task_ref list \<Rightarrow> bool" where
  "tasks_ok s k u \<longleftrightarrow> distinct u \<and> (\<forall>t \<in> set u. in_session s k t) \<and>
     (\<forall>i ss. sy_sessions s i = Some ss \<longrightarrow> ss_server ss = Some k \<longrightarrow> session_ok s ss (tasks_in_session i u))"

lemma tasks_in_perm: "mset u = mset u' \<Longrightarrow> tasks_in_session i u = tasks_in_session i u'"
  unfolding tasks_in_session_def by (metis mset_filter size_mset)

lemma tasks_ok_perm: "mset u = mset u' \<Longrightarrow> tasks_ok s k u \<Longrightarrow> tasks_ok s k u'"
  unfolding tasks_ok_def using tasks_in_perm mset_eq_setD mset_eq_imp_distinct_iff by metis

lemma tasks_ok_live:
  assumes "tasks_ok s k u" "t \<in> set u"
  obtains ss tk ctx where "get_task s t = Some (ss, tk)" "ss_server ss = Some k" "sy_ctxs s (ss_ctx ss) = Some ctx" "snd t \<in> set (ss_list_wait ss)"
    "session_ok s ss (tasks_in_session (fst t) u)"
proof -
  obtain ss where ss: "sy_sessions s (fst t) = Some ss" "ss_server ss = Some k" "snd t \<in> set (ss_list_wait ss)"
    using assms by (auto simp: tasks_ok_def in_session_def split: option.splits)
  then have ok: "session_ok s ss (tasks_in_session (fst t) u)" using assms(1) by (auto simp: tasks_ok_def)
  then have "snd t < length (ss_tasks ss)" using ss(3) by (auto simp: session_ok_def)
  then have "get_task s t = Some (ss, ss_tasks ss ! snd t)" using ss by (simp add: get_task_Some)
  then show thesis using that ss ok by (auto simp: session_ok_def)
qed

lemma tasks_ok_finish:
  assumes "tasks_ok s k u" "t \<in> set u"
  shows "tasks_ok (finish_task t s) k (remove1 t u)"
proof -
  obtain ss tk ctx where g: "get_task s t = Some (ss, tk)" "ss_server ss = Some k" "session_ok s ss (tasks_in_session (fst t) u)"
    by (rule tasks_ok_live [OF assms])
  have d: "distinct u" using assms(1) by (simp add: tasks_ok_def)
  have n: "tasks_in_session i (remove1 t u) = (if i = fst t then tasks_in_session i u - 1 else tasks_in_session i u)" for i
    using assms(2) by (simp add: tasks_in_session_def filter_remove1 length_remove1 remove1_idem)
  have pos: "0 < tasks_in_session (fst t) u" using assms(2) by (auto simp: tasks_in_session_def filter_empty_conv)
  have ins: "in_session (finish_task t s) k t'" if "t' \<in> set u" for t'
    using assms(1) that g(1) by (auto simp: tasks_ok_def in_session_def finish_task_sessions [OF g(1)] get_task_Some split: option.splits if_splits)
  have ses: "session_ok (finish_task t s) ss' (tasks_in_session i (remove1 t u))"
    if "sy_sessions (finish_task t s) i = Some ss'" "ss_server ss' = Some k" for i ss'
  proof (cases "i = fst t")
    case True
    then show ?thesis using that g pos by (auto simp: finish_task_sessions [OF g(1)] session_ok_def n of_nat_diff)
  next
    case False
    then show ?thesis using that assms(1) by (auto simp: finish_task_sessions [OF g(1)] session_ok_def n tasks_ok_def)
  qed
  show ?thesis using d ins ses by (auto simp: tasks_ok_def dest: notin_set_remove1 intro: distinct_remove1 dest: set_remove1_subset [THEN subsetD])
qed

lemma tasks_ok_finish_all:
  "tasks_ok s k u \<Longrightarrow> set ts \<subseteq> set u \<Longrightarrow> distinct ts \<Longrightarrow> tasks_ok (fold finish_task ts s) k (fold remove1 ts u)"
proof (induction ts arbitrary: s u)
  case (Cons t ts)
  have d: "distinct u" using Cons.prems(1) by (simp add: tasks_ok_def)
  have "tasks_ok (finish_task t s) k (remove1 t u)" using tasks_ok_finish Cons.prems by simp
  moreover have "set ts \<subseteq> set (remove1 t u)" using Cons.prems(2,3) d by auto
  ultimately show ?case using Cons.IH Cons.prems(3) by simp
qed simp

text \<open>States that differ in the world and the log of callbacks only.\<close>

definition agree :: "dev_server \<Rightarrow> dev_server \<Rightarrow> bool" where
  "agree s s' \<longleftrightarrow> sy_sessions s' = sy_sessions s \<and> sy_ctxs s' = sy_ctxs s \<and> sy_bufs s' = sy_bufs s \<and> sy_servers s' = sy_servers s \<and>
     sy_inited s' = sy_inited s \<and> sy_enable s' = sy_enable s \<and> sy_max_task_in_batch s' = sy_max_task_in_batch s \<and> sy_next_block s' = sy_next_block s"

lemma agree_refl [simp]: "agree s s"
  by (simp add: agree_def)

lemma agree_trans: "agree a b \<Longrightarrow> agree b c \<Longrightarrow> agree a c"
  by (simp add: agree_def)

lemma agree_get: "agree s s' \<Longrightarrow> get_task s' t = get_task s t"
  by (simp add: agree_def get_task_def)

lemma agree_task: "agree s s' \<Longrightarrow> task_of s' t = task_of s t"
  by (simp add: task_of_def agree_get)

lemma agree_slot: "agree s s' \<Longrightarrow> slot_of s' t = slot_of s t"
  by (simp add: slot_of_def agree_task)

lemma agree_tasks_ok: "agree s s' \<Longrightarrow> tasks_ok s' k u = tasks_ok s k u"
  by (simp add: agree_def tasks_ok_def in_session_def session_ok_def)

lemma agree_finish: "agree s s' \<Longrightarrow> agree (finish_task t s) (finish_task t s')"
proof (cases "get_task s t")
  case None
  assume "agree s s'"
  then show ?thesis using None agree_get [of s s' t] by (simp add: finish_task_def)
next
  case (Some p)
  assume a: "agree s s'"
  obtain ss tk where g: "get_task s t = Some (ss, tk)" using Some by (cases p) simp
  have g': "get_task s' t = Some (ss, tk)" using g a by (simp add: agree_get)
  show ?thesis using a by (simp add: agree_def finish_task_sessions [OF g] finish_task_sessions [OF g'])
qed

lemma agree_finish_all: "agree s s' \<Longrightarrow> agree (fold finish_task ts s) (fold finish_task ts s')"
  by (induction ts arbitrary: s s') (auto intro: agree_finish)

lemma task_of_finish_all:
  "\<forall>d \<in> set D. task_of s d \<noteq> None \<Longrightarrow> t \<notin> set D \<Longrightarrow> task_of (fold finish_task D s) t = task_of s t"
proof (induction D arbitrary: s)
  case (Cons d D)
  obtain tk where d: "task_of s d = Some tk" using Cons.prems(1) by auto
  have "\<forall>e \<in> set D. task_of (finish_task d s) e \<noteq> None" using Cons.prems(1) by (auto simp: finish_task_task [OF d])
  then show ?case using Cons.IH [of "finish_task d s"] Cons.prems(2) by (simp add: finish_task_task [OF d])
qed simp

lemma finish_all_frame [simp]:
  "sy_ctxs (fold finish_task D s) = sy_ctxs s" "sy_bufs (fold finish_task D s) = sy_bufs s" "sy_world (fold finish_task D s) = sy_world s"
  "sy_rets (fold finish_task D s) = sy_rets s" "sy_servers (fold finish_task D s) = sy_servers s" "sy_inited (fold finish_task D s) = sy_inited s"
  by (induction D arbitrary: s) simp_all

lemma mset_remove_all: "set D \<subseteq> set xs \<Longrightarrow> distinct D \<Longrightarrow> mset (fold remove1 D xs) = mset xs - mset D"
proof (induction D arbitrary: xs)
  case (Cons d D)
  have "x \<in> set (remove1 d xs)" if "x \<in> set D" for x
    using Cons.prems that by (cases "x = d") (auto simp: in_set_remove1)
  then have "set D \<subseteq> set (remove1 d xs)" by blast
  then show ?case using Cons.IH [of "remove1 d xs"] Cons.prems by simp
qed simp

lemma remove_all_filter: "distinct xs \<Longrightarrow> fold remove1 D xs = filter (\<lambda>t. t \<notin> set D) xs"
  by (induction D arbitrary: xs) (auto simp: distinct_remove1_removeAll removeAll_filter_not_eq intro: filter_cong)

section \<open>What holds of a server\<close>

definition tasks_at :: "bat_serv \<Rightarrow> nat \<Rightarrow> task_ref list" where
  "tasks_at server b = (case be_batches server b of None \<Rightarrow> [] | Some batch \<Rightarrow> ba_tasks batch)"

definition batch_tasks :: "bat_serv \<Rightarrow> nat list \<Rightarrow> task_ref list" where
  "batch_tasks server bs = List.concat (List.map (tasks_at server) bs)"

definition in_hand :: "bat_serv \<Rightarrow> task_ref list" where
  "in_hand server = be_pending_task server @ batch_tasks server (be_list_batch server @ be_list_batch_free server)"

definition in_batch :: "dev_server \<Rightarrow> nat \<Rightarrow> int \<Rightarrow> task_ref \<Rightarrow> bool" where
  "in_batch s b n t \<longleftrightarrow> (case task_of s t of None \<Rightarrow> False
     | Some tk \<Rightarrow> tk_batch tk = Some b \<and> 0 \<le> tk_batch_slot_id tk \<and> tk_batch_slot_id tk < n)"

definition batch_ok :: "dev_server \<Rightarrow> int \<Rightarrow> nat \<Rightarrow> batch_task \<Rightarrow> bool" where
  "batch_ok s m b batch \<longleftrightarrow> int (length (ba_bat_cmd batch)) = m \<and> 0 \<le> ba_poll_cnt batch \<and>
     ba_poll_cnt batch + int (length (ba_tasks batch)) = ba_fill_cnt batch \<and> ba_fill_cnt batch \<le> m \<and>
     int (length (ba_send_reqs batch)) \<le> ba_fill_cnt batch * int MAX_REQ_SEND_CNT \<and>
     int (length (ba_wait_reqs batch)) = ba_fill_cnt batch * int MAX_REQ_WAIT_CNT \<and>
     sorted_wrt (<) (List.map (slot_of s) (ba_tasks batch)) \<and> (\<forall>t \<in> set (ba_tasks batch). in_batch s b (ba_fill_cnt batch) t)"

text \<open>A batch that is being filled has the tasks \<open>hs\<close>, one behind the other.\<close>

definition filling :: "dev_server \<Rightarrow> int \<Rightarrow> nat \<Rightarrow> task_ref list \<Rightarrow> batch_task \<Rightarrow> bool" where
  "filling s m b hs batch \<longleftrightarrow> batch_ok s m b batch \<and> ba_tasks batch = hs \<and> ba_poll_cnt batch = 0 \<and>
     (ba_fill_full batch \<longleftrightarrow> m \<le> int (length hs)) \<and> (hs = [] \<longrightarrow> ba_send_reqs batch = [])"

definition batches_ok :: "dev_server \<Rightarrow> bat_serv \<Rightarrow> task_ref list \<Rightarrow> bool" where
  "batches_ok s server hs \<longleftrightarrow>
     (\<forall>b \<in> set (be_list_batch server). \<exists>batch. be_batches server b = Some batch \<and> batch_ok s (be_max_task_in_batch server) b batch) \<and>
     (case be_list_batch_free server of [] \<Rightarrow> hs = []
      | b # bs \<Rightarrow> (\<exists>batch. be_batches server b = Some batch \<and> filling s (be_max_task_in_batch server) b hs batch) \<and>
          (\<forall>b \<in> set bs. \<exists>batch. be_batches server b = Some batch \<and> filling s (be_max_task_in_batch server) b [] batch))"

definition counts_ok :: "bat_serv \<Rightarrow> bool" where
  "counts_ok server \<longleftrightarrow> 1 \<le> be_max_task_in_batch server \<and> be_pending_count server = int (length (be_pending_task server)) \<and>
     be_batch_run server = int (length (be_list_batch server)) \<and> be_batch_free server = int (length (be_list_batch_free server)) \<and>
     distinct (be_list_batch server @ be_list_batch_free server) \<and> (\<forall>b. be_batches server b \<noteq> None \<longrightarrow> b < be_next_block server)"

definition serv_ok :: "dev_server \<Rightarrow> int \<Rightarrow> bat_serv \<Rightarrow> task_ref list \<Rightarrow> bool" where
  "serv_ok s k server hs \<longleftrightarrow> counts_ok server \<and> batches_ok s server hs \<and> tasks_ok s k (in_hand server)"

lemma batch_ok_cong:
  "(\<And>t. t \<in> set (ba_tasks batch) \<Longrightarrow> task_of s' t = task_of s t) \<Longrightarrow> batch_ok s' m b batch = batch_ok s m b batch"
proof -
  assume a: "\<And>t. t \<in> set (ba_tasks batch) \<Longrightarrow> task_of s' t = task_of s t"
  have p: "List.map (slot_of s') (ba_tasks batch) = List.map (slot_of s) (ba_tasks batch)" using a by (simp add: slot_of_def)
  show ?thesis unfolding batch_ok_def in_batch_def p using a by simp
qed

lemma filling_cong:
  "(\<And>t. t \<in> set hs \<Longrightarrow> task_of s' t = task_of s t) \<Longrightarrow> filling s' m b hs batch = filling s m b hs batch"
  using batch_ok_cong [of batch s' s m b] by (auto simp: filling_def)

lemma batches_ok_idle:
  "batches_ok s server [] \<longleftrightarrow>
     (\<forall>b \<in> set (be_list_batch server). \<exists>batch. be_batches server b = Some batch \<and> batch_ok s (be_max_task_in_batch server) b batch) \<and>
     (\<forall>b \<in> set (be_list_batch_free server). \<exists>batch. be_batches server b = Some batch \<and> filling s (be_max_task_in_batch server) b [] batch)"
  by (auto simp: batches_ok_def split: list.splits)

lemma tasks_at_upd: "tasks_at (server\<lparr>be_batches := (be_batches server)(b \<mapsto> batch)\<rparr>) c = (if c = b then ba_tasks batch else tasks_at server c)"
  by (simp add: tasks_at_def)

lemma batch_tasks_simps [simp]:
  "batch_tasks server [] = []" "batch_tasks server (b # bs) = tasks_at server b @ batch_tasks server bs"
  "batch_tasks server (bs @ cs) = batch_tasks server bs @ batch_tasks server cs"
  by (simp_all add: batch_tasks_def)

lemma batch_tasks_upd:
  "b \<notin> set bs \<Longrightarrow> batch_tasks (server\<lparr>be_batches := (be_batches server)(b \<mapsto> batch)\<rparr>) bs = batch_tasks server bs"
  by (induction bs) (auto simp: tasks_at_upd)

lemma batch_tasks_cong: "be_batches server' = be_batches server \<Longrightarrow> batch_tasks server' bs = batch_tasks server bs"
  by (simp add: batch_tasks_def tasks_at_def [abs_def])

lemma batch_tasks_mem: "b \<in> set bs \<Longrightarrow> set (tasks_at server b) \<subseteq> set (batch_tasks server bs)"
  by (auto simp: batch_tasks_def)

lemma batch_tasks_split:
  assumes "distinct bs" "b \<in> set bs"
  shows "mset (batch_tasks server bs) = mset (tasks_at server b) + mset (batch_tasks server (remove1 b bs))"
  using assms by (induction bs) auto

lemma other_batch_tasks:
  assumes "distinct (batch_tasks server bs)" "b \<in> set bs" "c \<in> set bs" "b \<noteq> c"
  shows "set (tasks_at server b) \<inter> set (tasks_at server c) = {}"
  using assms
proof (induction bs)
  case (Cons a bs)
  have d: "set (tasks_at server a) \<inter> set (batch_tasks server bs) = {}" "distinct (batch_tasks server bs)" using Cons.prems(1) by auto
  show ?case
  proof (cases "a = b \<or> a = c")
    case True
    then show ?thesis using d(1) Cons.prems(2-4) batch_tasks_mem [of b bs server] batch_tasks_mem [of c bs server] by (elim disjE) (simp, blast)+
  next
    case False
    then show ?thesis using Cons.IH [OF d(2)] Cons.prems by simp
  qed
qed simp

lemma distinct_sub_mset: "distinct D \<Longrightarrow> set D \<subseteq> set xs \<Longrightarrow> mset D \<subseteq># mset xs"
proof (rule mset_subset_eqI)
  fix x
  assume a: "distinct D" "set D \<subseteq> set xs"
  show "count (mset D) x \<le> count (mset xs) x"
  proof (cases "x \<in> set D")
    case True
    then have "count (mset D) x = 1" using a(1) distinct_count_atmost_1 [of D] by metis
    moreover have "0 < count (mset xs) x" using True a(2) by auto
    ultimately show ?thesis by simp
  next
    case False
    then have "count (mset D) x = 0" by simp
    then show ?thesis by linarith
  qed
qed

lemma in_hand_upd:
  assumes "counts_ok server" "b \<in> set (be_list_batch server)"
  shows "mset (in_hand (server\<lparr>be_batches := (be_batches server)(b \<mapsto> batch)\<rparr>)) = mset (in_hand server) - mset (tasks_at server b) + mset (ba_tasks batch)"
proof -
  let ?s = "server\<lparr>be_batches := (be_batches server)(b \<mapsto> batch)\<rparr>" and ?bs = "be_list_batch server @ be_list_batch_free server"
  have d: "distinct ?bs" "b \<in> set ?bs" "b \<notin> set (remove1 b ?bs)" using assms by (auto simp: counts_ok_def)
  have "mset (batch_tasks ?s ?bs) = mset (ba_tasks batch) + mset (batch_tasks server (remove1 b ?bs))"
    using batch_tasks_split [OF d(1,2), of ?s] batch_tasks_upd [OF d(3)] by (simp add: tasks_at_upd)
  moreover have "mset (batch_tasks server ?bs) = mset (tasks_at server b) + mset (batch_tasks server (remove1 b ?bs))"
    by (rule batch_tasks_split [OF d(1,2)])
  ultimately show ?thesis by (simp add: in_hand_def)
qed

text \<open>A running batch changes: the tasks \<open>D\<close> leave it.\<close>

lemma set_running:
  assumes "serv_ok s k server []" "b \<in> set (be_list_batch server)" "be_batches server b = Some batch"
    "batch_ok s' (be_max_task_in_batch server) b batch'" "ba_tasks batch' = fold remove1 D (ba_tasks batch)" "set D \<subseteq> set (ba_tasks batch)" "distinct D"
    "tasks_ok s' k (fold remove1 D (in_hand server))" "\<And>t. t \<notin> set D \<Longrightarrow> task_of s' t = task_of s t"
  shows "serv_ok s' k (server\<lparr>be_batches := (be_batches server)(b \<mapsto> batch')\<rparr>) []"
    "mset (in_hand (server\<lparr>be_batches := (be_batches server)(b \<mapsto> batch')\<rparr>)) = mset (in_hand server) - mset D"
proof -
  let ?s = "server\<lparr>be_batches := (be_batches server)(b \<mapsto> batch')\<rparr>"
  have c: "counts_ok server" "batches_ok s server []" "tasks_ok s k (in_hand server)" using assms(1) by (auto simp: serv_ok_def)
  have at: "tasks_at server b = ba_tasks batch" using assms(3) by (simp add: tasks_at_def)
  have sub: "set D \<subseteq> set (in_hand server)"
    using assms(6) batch_tasks_mem [of b "be_list_batch server @ be_list_batch_free server" server] assms(2) unfolding in_hand_def at [symmetric] by auto
  have dh: "distinct (in_hand server)" using c(3) by (simp add: tasks_ok_def)
  have "mset D \<subseteq># mset (ba_tasks batch)" by (rule distinct_sub_mset [OF assms(7,6)])
  moreover have "mset (ba_tasks batch) \<subseteq># mset (in_hand server)"
    using batch_tasks_split [of "be_list_batch server @ be_list_batch_free server" b server] c(1) assms(2) at
    by (simp add: in_hand_def counts_ok_def subset_mset.add_increasing)
  ultimately have m: "mset (in_hand ?s) = mset (in_hand server) - mset D"
    using in_hand_upd [OF c(1) assms(2), of batch'] mset_remove_all [OF assms(6,7)] at assms(5)
    by (simp add: subset_mset.diff_add_assoc2 [symmetric] multiset_diff_union_assoc)
  then show "mset (in_hand ?s) = mset (in_hand server) - mset D" .
  have t: "tasks_ok s' k (in_hand ?s)" using tasks_ok_perm [OF _ assms(8)] m mset_remove_all [OF sub assms(7)] by simp
  have other: "batch_ok s' (be_max_task_in_batch server) c ba"
    if ba: "be_batches server c = Some ba" "c \<noteq> b" "c \<in> set (be_list_batch server)" "batch_ok s (be_max_task_in_batch server) c ba" for c ba
  proof -
    have "set (ba_tasks batch) \<inter> set (ba_tasks ba) = {}"
      using other_batch_tasks [of server "be_list_batch server @ be_list_batch_free server" b c] dh ba assms(2,3) by (auto simp: in_hand_def tasks_at_def)
    then show ?thesis using ba(4) batch_ok_cong [of ba s' s] assms(6,9) by blast
  qed
  have "counts_ok ?s" using c(1) assms(3) by (auto simp: counts_ok_def)
  moreover have "batches_ok s' ?s []"
  proof -
    have "\<exists>ba. be_batches ?s c = Some ba \<and> batch_ok s' (be_max_task_in_batch ?s) c ba" if "c \<in> set (be_list_batch server)" for c
      using c(2) that other [of c] assms(4) by (cases "c = b") (auto simp: batches_ok_idle)
    moreover have "\<exists>ba. be_batches ?s c = Some ba \<and> filling s' (be_max_task_in_batch ?s) c [] ba" if "c \<in> set (be_list_batch_free server)" for c
      using c(1,2) that assms(2) filling_cong [of "[]" s' s] by (cases "c = b") (auto simp: batches_ok_idle counts_ok_def)
    ultimately show ?thesis unfolding batches_ok_idle by simp
  qed
  ultimately show "serv_ok s' k ?s []" using t by (simp add: serv_ok_def)
qed

lemma store_rets_length [simp]: "length (store_rets cs rs) = length cs"
  by (induction cs rs rule: store_rets.induct) auto

lemma bat_ioctl_facts:
  assumes "bat_ioctl fd reqs batch s = (ret, batch1, s1)"
  shows "agree s s1" "ba_tasks batch1 = ba_tasks batch" "ba_poll_cnt batch1 = ba_poll_cnt batch" "same_batch batch batch1"
    "w_log (sy_world s1) = w_log (sy_world s) @ [Ev_ioctl fd (Ioc_mpp reqs)]" "w_heap (sy_world s1) = w_heap (sy_world s)"
  using assms by (auto simp: bat_ioctl_def Let_def agree_def same_batch_def mpp_service_ioctl_request_def sys_ioctl_def split: prod.splits list.splits)

lemma batch_ok_same:
  "batch_ok s m b ba \<Longrightarrow> same_batch ba ba' \<Longrightarrow> ba_tasks ba' = ba_tasks ba \<Longrightarrow> ba_poll_cnt ba' = ba_poll_cnt ba \<Longrightarrow> batch_ok s m b ba'"
  by (simp add: batch_ok_def same_batch_def)

lemma batch_ok_agree: "agree s s' \<Longrightarrow> batch_ok s' m b ba = batch_ok s m b ba"
  by (rule batch_ok_cong) (simp add: agree_task)

lemma batch_polled:
  assumes ok: "batch_ok s m b ba" and d: "distinct (ba_tasks ba)" and D: "D = filter P (ba_tasks ba)"
    and b': "ba_tasks ba' = fold remove1 D (ba_tasks ba)" "ba_poll_cnt ba' = ba_poll_cnt ba + int (length D)" "same_batch ba ba'"
  shows "batch_ok (fold finish_task D s) m b ba'"
proof -
  have t: "ba_tasks ba' = filter (\<lambda>t. \<not> P t) (ba_tasks ba)" using b'(1) D d by (auto simp: remove_all_filter intro!: filter_cong)
  have len: "length D + length (ba_tasks ba') = length (ba_tasks ba)" unfolding t D by (rule sum_length_filter_compl)
  have in_b: "\<forall>t \<in> set (ba_tasks ba). task_of s t \<noteq> None" using ok by (auto simp: batch_ok_def in_batch_def split: option.splits)
  then have same: "task_of (fold finish_task D s) t = task_of s t" if "t \<in> set (ba_tasks ba')" for t
    using that by (intro task_of_finish_all) (auto simp: D t)
  have "sorted_wrt (<) (List.map (slot_of s) (ba_tasks ba'))"
    using ok unfolding batch_ok_def t sorted_wrt_map by (blast intro: sorted_wrt_filter)
  moreover have "\<forall>t \<in> set (ba_tasks ba'). in_batch s b (ba_fill_cnt ba') t"
    using ok b'(3) unfolding t by (simp add: batch_ok_def same_batch_def)
  moreover have e: "length (ba_bat_cmd ba') = length (ba_bat_cmd ba)" "ba_fill_cnt ba' = ba_fill_cnt ba" "ba_send_reqs ba' = ba_send_reqs ba"
    "ba_wait_reqs ba' = ba_wait_reqs ba" using b'(3) by (simp_all add: same_batch_def)
  moreover have "0 \<le> ba_poll_cnt ba'" "ba_poll_cnt ba' + int (length (ba_tasks ba')) = ba_fill_cnt ba'"
    using ok b'(2) len e(2) unfolding batch_ok_def by linarith+
  ultimately have "batch_ok s m b ba'" using ok unfolding batch_ok_def e by blast
  then show ?thesis using batch_ok_cong [of ba' "fold finish_task D s" s] same by blast
qed

lemma batch_live:
  assumes "batch_ok s m b ba" "tasks_ok s k u" "set (ba_tasks ba) \<subseteq> set u" "t \<in> set (ba_tasks ba)"
  shows "task_live s (length (ba_bat_cmd ba)) t"
proof -
  have t: "t \<in> set u" using assms(3,4) by blast
  obtain ss tk ctx where g: "get_task s t = Some (ss, tk)" "sy_ctxs s (ss_ctx ss) = Some ctx" by (rule tasks_ok_live [OF assms(2) t])
  have "in_batch s b (ba_fill_cnt ba) t" "ba_fill_cnt ba \<le> int (length (ba_bat_cmd ba))" using assms(1,4) by (simp_all add: batch_ok_def)
  then show ?thesis using g by (simp add: task_live_def in_batch_def task_of_def)
qed

lemma poll_turn:
  assumes ok: "serv_ok s k server []" and b: "be_list_batch server = b # bs" "be_batches server b = Some batch"
    and io: "bat_ioctl fd reqs batch s = (ret, batch1, s1)"
  defines "D \<equiv> filter (zero_ret batch1 s1) (ba_tasks batch)"
  obtains batch2 where "poll_tasks (ba_tasks batch1) batch1 s1 = Some (batch2, fold finish_task D s1)"
    "serv_ok (fold finish_task D s1) k (server\<lparr>be_batches := (be_batches server)(b \<mapsto> batch2)\<rparr>) []"
    "mset (in_hand (server\<lparr>be_batches := (be_batches server)(b \<mapsto> batch2)\<rparr>)) = mset (in_hand server) - mset D"
    "ba_tasks batch2 = filter (\<lambda>t. t \<notin> set D) (ba_tasks batch)" "same_batch batch batch2"
proof -
  note f = bat_ioctl_facts [OF io]
  have mem: "b \<in> set (be_list_batch server)" using b(1) by simp
  have parts: "counts_ok server" "batches_ok s server []" "tasks_ok s k (in_hand server)" using ok by (auto simp: serv_ok_def)
  have b0: "batch_ok s (be_max_task_in_batch server) b batch" using parts(2) mem b(2) by (auto simp: batches_ok_idle)
  have b1: "batch_ok s1 (be_max_task_in_batch server) b batch1" using batch_ok_same [OF b0 f(4,2,3)] batch_ok_agree [OF f(1)] by simp
  have sub: "set (ba_tasks batch) \<subseteq> set (in_hand server)"
    using batch_tasks_mem [OF mem, of server] b(2) by (auto simp: in_hand_def tasks_at_def)
  have tk: "tasks_ok s1 k (in_hand server)" using parts(3) agree_tasks_ok [OF f(1)] by simp
  have live: "\<forall>t \<in> set (ba_tasks batch1). task_live s1 (length (ba_bat_cmd batch1)) t" using batch_live [OF b1 tk] sub f(2) by auto
  have d: "distinct (ba_tasks batch)" using parts(3) b
    by (auto simp: tasks_ok_def in_hand_def tasks_at_def)
  have Ds: "set D \<subseteq> set (ba_tasks batch)" "distinct D" using d by (auto simp: D_def)
  obtain batch2 where p: "poll_tasks (ba_tasks batch1) batch1 s1 = Some (batch2, fold finish_task D s1)"
    "ba_tasks batch2 = fold remove1 D (ba_tasks batch)" "ba_poll_cnt batch2 = ba_poll_cnt batch1 + int (length D)" "same_batch batch1 batch2"
    using poll_tasks_ok [OF _ live] d f(2) unfolding D_def by auto
  have b2: "batch_ok (fold finish_task D s1) (be_max_task_in_batch server) b batch2"
    by (rule batch_polled [OF b1 _ _ _ p(3,4)]) (use d f(2) p(2) D_def in auto)
  have tk2: "tasks_ok (fold finish_task D s1) k (fold remove1 D (in_hand server))"
    by (rule tasks_ok_finish_all [OF tk]) (use Ds sub in auto)
  have "\<forall>d \<in> set D. task_of s1 d \<noteq> None" using live f(2) Ds by (metis task_liveE subsetD option.distinct(1))
  then have same: "task_of (fold finish_task D s1) t = task_of s t" if "t \<notin> set D" for t
    using task_of_finish_all that agree_task [OF f(1)] by simp
  note set_running [OF ok mem b(2) b2 p(2) Ds tk2 same]
  then show thesis using that [OF p(1)] p(2) d same_batch_trans [OF f(4) p(4)] by (simp add: remove_all_filter)
qed

text \<open>A batch all of whose tasks are finished becomes free.\<close>

lemma free_running:
  assumes ok: "serv_ok s k server []" and b: "be_list_batch server = b # bs" "be_batches server b = Some batch" "ba_poll_cnt batch = ba_fill_cnt batch"
  defines "server' \<equiv> (move_to_free b server)\<lparr>be_batch_run := be_batch_run server - 1, be_batch_free := be_batch_free server + 1,
    be_batches := (be_batches server)(b \<mapsto> batch_reset batch)\<rparr>"
  shows "serv_ok s k server' []" "mset (in_hand server') = mset (in_hand server)" "be_list_batch server' = bs"
    "be_list_batch_free server' = be_list_batch_free server @ [b]"
proof -
  have parts: "counts_ok server" "batches_ok s server []" "tasks_ok s k (in_hand server)" using ok by (auto simp: serv_ok_def)
  have b0: "batch_ok s (be_max_task_in_batch server) b batch" using parts(2) b by (auto simp: batches_ok_idle)
  then have none: "ba_tasks batch = []" using b(3) by (auto simp: batch_ok_def)
  have dist: "b \<notin> set bs" "b \<notin> set (be_list_batch_free server)" "distinct bs" using parts(1) b(1) by (auto simp: counts_ok_def)
  show lists: "be_list_batch server' = bs" "be_list_batch_free server' = be_list_batch_free server @ [b]"
    using b(1) dist by (simp_all add: server'_def move_to_free_def remove1_idem)
  have at: "tasks_at server' c = tasks_at server c" for c using none b(2) by (simp add: server'_def move_to_free_def tasks_at_def batch_reset_def)
  then have bt: "batch_tasks server' cs = batch_tasks server cs" for cs unfolding batch_tasks_def by presburger
  have "tasks_at server b = []" using none b(2) by (simp add: tasks_at_def)
  then show m: "mset (in_hand server') = mset (in_hand server)"
    using lists b(1) bt at [of b] by (simp add: in_hand_def) (simp add: server'_def move_to_free_def)
  have reset: "filling s (be_max_task_in_batch server) b [] (batch_reset batch)"
    using b0 parts(1) none by (simp add: filling_def batch_ok_def batch_reset_def counts_ok_def)
  have "batches_ok s server' []"
    using parts(2) lists b(1) dist reset unfolding batches_ok_idle by (auto simp: server'_def move_to_free_def)
  moreover have "counts_ok server'"
    using parts(1) b(1,2) dist lists by (auto simp: counts_ok_def server'_def move_to_free_def)
  ultimately show "serv_ok s k server' []" using tasks_ok_perm [OF m [symmetric] parts(3)] by (simp add: serv_ok_def)
qed

definition same_server :: "bat_serv \<Rightarrow> bat_serv \<Rightarrow> bool" where
  "same_server server server' \<longleftrightarrow> be_pending_task server' = be_pending_task server \<and> be_pending_count server' = be_pending_count server \<and>
     be_batch_max_count server' = be_batch_max_count server \<and> be_max_task_in_batch server' = be_max_task_in_batch server \<and>
     be_session_count server' = be_session_count server \<and> be_server_fd server' = be_server_fd server \<and>
     be_batch_run server' + be_batch_free server' = be_batch_run server + be_batch_free server"

definition wait_at :: "bat_serv \<Rightarrow> nat \<Rightarrow> mpp_req list" where
  "wait_at server b = (case be_batches server b of None \<Rightarrow> [] | Some batch \<Rightarrow> ba_wait_reqs batch)"

definition calls :: "dev_server \<Rightarrow> (int \<times> mpp_req list) list" where
  "calls s = mpp_calls (w_log (sy_world s))"

definition polled :: "bat_serv \<Rightarrow> dev_server \<Rightarrow> bat_serv \<Rightarrow> dev_server \<Rightarrow> task_ref list \<Rightarrow> nat \<Rightarrow> bool" where
  "polled server s server' s' D n \<longleftrightarrow> agree (fold finish_task D s) s' \<and> distinct D \<and> set D \<subseteq> set (batch_tasks server (be_list_batch server)) \<and>
     mset (in_hand server') = mset (in_hand server) - mset D \<and> same_server server server' \<and>
     calls s' = calls s @ List.map (\<lambda>b. (be_server_fd server, wait_at server b)) (take n (be_list_batch server)) \<and>
     w_heap (sy_world s') = w_heap (sy_world s)"

lemma bat_ioctl_calls: "bat_ioctl fd reqs batch s = (ret, batch1, s1) \<Longrightarrow> calls s1 = calls s @ [(fd, reqs)]"
  by (simp add: calls_def bat_ioctl_facts(5))

lemma calls_finish [simp]: "calls (fold finish_task D s) = calls s"
  by (simp add: calls_def)

lemma serv_ok_agree: "agree s s' \<Longrightarrow> serv_ok s' k server hs = serv_ok s k server hs"
  using batch_ok_agree [of s s'] agree_tasks_ok [of s s'] agree_task [of s s']
  by (auto simp: serv_ok_def batches_ok_def filling_def split: list.splits)

lemma timer_in_hand [simp]: "in_hand (server\<lparr>be_timer := x\<rparr>) = in_hand server"
  by (simp add: in_hand_def batch_tasks_def tasks_at_def [abs_def])

lemma timer_serv_ok [simp]: "serv_ok s k (server\<lparr>be_timer := x\<rparr>) hs = serv_ok s k server hs"
  by (cases "be_list_batch_free server") (simp_all add: serv_ok_def counts_ok_def batches_ok_def)

text \<open>
  Which tasks are finished, by what the kernel answers: the running batches are polled from the first on, and
  the poll stops after one whose call fails or that keeps a task. The result of a task is what the call stores
  in the task's slot, or what an earlier call has left there. The second component is the number of calls.
\<close>

definition task_result :: "batch_task \<Rightarrow> int list \<Rightarrow> int \<Rightarrow> int" where
  "task_result batch rets slot = (if nat slot < length rets then rets ! nat slot else bc_ret (ba_bat_cmd batch ! nat slot))"

fun first_rets :: "int list list \<Rightarrow> int list" where
  "first_rets [] = []"
| "first_rets (rets # _) = rets"

fun first_ret :: "reply list \<Rightarrow> int" where
  "first_ret [] = 0"
| "first_ret (r # _) = rp_ret r"

definition finished_in :: "dev_server \<Rightarrow> batch_task \<Rightarrow> int list \<Rightarrow> task_ref list" where
  "finished_in s batch rets = filter (\<lambda>t. task_result batch rets (slot_of s t) = 0) (ba_tasks batch)"

fun finished_tasks :: "bat_serv \<Rightarrow> dev_server \<Rightarrow> nat list \<Rightarrow> reply list \<Rightarrow> int list list \<Rightarrow> task_ref list \<times> nat" where
  "finished_tasks server s [] replies rets = ([], 0)"
| "finished_tasks server s (b # bs) replies rets = (case be_batches server b of None \<Rightarrow> ([], 0)
     | Some batch \<Rightarrow>
         if first_ret replies \<noteq> 0 then ([], 1)
         else let ts = finished_in s batch (first_rets rets)
           in if ts \<noteq> ba_tasks batch then (ts, 1)
              else case finished_tasks server s bs (tl replies) (tl rets) of (ts', n) \<Rightarrow> (ts @ ts', Suc n))"

lemma store_rets_nth: "i < length cs \<Longrightarrow> bc_ret (store_rets cs rs ! i) = (if i < length rs then rs ! i else bc_ret (cs ! i))"
  by (induction cs rs arbitrary: i rule: store_rets.induct) (auto simp: nth_Cons split: nat.splits)

lemma bat_ioctl_answer:
  assumes "bat_ioctl fd reqs batch s = (ret, batch1, s1)"
  shows "ret = first_ret (w_replies (sy_world s))" "w_replies (sy_world s1) = tl (w_replies (sy_world s))" "sy_rets s1 = tl (sy_rets s)"
    "ba_bat_cmd batch1 = store_rets (ba_bat_cmd batch) (first_rets (sy_rets s))"
  using assms by (auto simp: bat_ioctl_def mpp_service_ioctl_request_def sys_ioctl_def Let_def split: prod.splits list.splits)

lemma batch_slot:
  assumes "batch_ok s m b batch" "t \<in> set (ba_tasks batch)"
  shows "nat (slot_of s t) < length (ba_bat_cmd batch)"
proof -
  have "in_batch s b (ba_fill_cnt batch) t" "ba_fill_cnt batch \<le> int (length (ba_bat_cmd batch))" using assms by (auto simp: batch_ok_def)
  then show ?thesis by (auto simp: in_batch_def slot_of_def split: option.splits)
qed

lemma polled_finished:
  assumes "batch_ok s m b batch" "bat_ioctl fd reqs batch s = (ret, batch1, s1)"
  shows "filter (zero_ret batch1 s1) (ba_tasks batch) = finished_in s batch (first_rets (sy_rets s))"
  unfolding finished_in_def
proof (rule filter_cong [OF refl])
  fix t
  assume "t \<in> set (ba_tasks batch)"
  then have "nat (slot_of s t) < length (ba_bat_cmd batch)" by (rule batch_slot [OF assms(1)])
  then show "zero_ret batch1 s1 t = (task_result batch (first_rets (sy_rets s)) (slot_of s t) = 0)"
    using agree_slot [OF bat_ioctl_facts(1) [OF assms(2)]]
    by (simp add: zero_ret_def bat_ioctl_answer(4) [OF assms(2)] store_rets_nth task_result_def)
qed

lemma slot_finish_all: "\<forall>d \<in> set D. task_of s d \<noteq> None \<Longrightarrow> slot_of (fold finish_task D s) t = slot_of s t"
proof (induction D arbitrary: s)
  case (Cons d D)
  then have "\<forall>e \<in> set D. task_of (finish_task d s) e \<noteq> None" using finish_task_task [of s d] by fastforce
  then show ?case using Cons.IH [of "finish_task d s"] Cons.prems by (simp add: finish_task_slot)
qed simp

lemma finished_tasks_cong:
  "(\<And>b. b \<in> set bs \<Longrightarrow> be_batches server' b = be_batches server b) \<Longrightarrow> (\<And>t. slot_of s' t = slot_of s t) \<Longrightarrow>
   finished_tasks server' s' bs replies rets = finished_tasks server s bs replies rets"
proof (induction bs arbitrary: replies rets)
  case (Cons b bs)
  have "finished_in s' batch r = finished_in s batch r" for batch r by (simp add: finished_in_def Cons.prems(2))
  moreover have "be_batches server' b = be_batches server b" by (rule Cons.prems(1)) simp
  ultimately show ?case using Cons.IH Cons.prems by (cases "be_batches server b") (simp_all add: Let_def)
qed simp

text \<open>After the first turn, the others.\<close>

lemma polled_more:
  assumes l: "be_list_batch server = b # bs" "be_list_batch server2 = bs"
    and first: "agree s s1" "set D \<subseteq> set (tasks_at server b)" "distinct D" "mset (in_hand server2) = mset (in_hand server) - mset D"
      "same_server server server2" "calls s1 = calls s @ [(be_server_fd server, wait_at server b)]" "w_heap (sy_world s1) = w_heap (sy_world s)"
    and at: "\<forall>c \<in> set bs. tasks_at server2 c = tasks_at server c \<and> wait_at server2 c = wait_at server c"
    and d: "distinct (in_hand server)"
    and rest: "polled server2 (fold finish_task D s1) server' s' E n"
  shows "polled server s server' s' (D @ E) (Suc n)"
proof -
  have bt: "batch_tasks server2 bs = batch_tasks server bs" using at unfolding batch_tasks_def by (intro arg_cong [of _ _ List.concat] map_cong) auto
  have apart: "set (tasks_at server b) \<inter> set (batch_tasks server bs) = {}" using d l(1) by (auto simp: in_hand_def)
  have r: "agree (fold finish_task E (fold finish_task D s1)) s'" "distinct E" "set E \<subseteq> set (batch_tasks server bs)"
    "mset (in_hand server') = mset (in_hand server2) - mset E" "same_server server2 server'"
    "calls s' = calls s1 @ List.map (\<lambda>b. (be_server_fd server2, wait_at server2 b)) (take n bs)" "w_heap (sy_world s') = w_heap (sy_world s1)"
    using rest unfolding polled_def l(2) bt by simp_all
  have a: "agree (fold finish_task (D @ E) s) s'"
    using agree_trans [OF agree_finish_all [OF agree_finish_all [OF first(1)]] r(1)] by simp
  have w: "List.map (\<lambda>b. (be_server_fd server2, wait_at server2 b)) (take n bs) = List.map (\<lambda>b. (be_server_fd server, wait_at server b)) (take n bs)"
    using at first(5) by (auto simp: same_server_def dest: in_set_takeD)
  have "distinct (D @ E)" "set (D @ E) \<subseteq> set (batch_tasks server (b # bs))" using first(2,3) r(2,3) apart by auto
  moreover have "same_server server server'" using first(5) r(5) by (simp add: same_server_def)
  moreover have "mset (in_hand server') = mset (in_hand server) - mset (D @ E)" using r(4) first(4) by simp
  ultimately show ?thesis using a w r(6,7) first(6,7) unfolding polled_def l(1) by simp
qed

lemma poll_loop_ok:
  "serv_ok s k server [] \<Longrightarrow> \<exists>server' s' D n. poll_loop server s = Some (server', s') \<and> serv_ok s' k server' [] \<and> polled server s server' s' D n \<and>
     finished_tasks server s (be_list_batch server) (w_replies (sy_world s)) (sy_rets s) = (D, n)"
proof (induction "be_list_batch server" arbitrary: server s)
  case Nil
  then have "poll_loop server s = Some (server, s)" by (simp add: poll_loop.simps)
  moreover have "polled server s server s [] 0" by (simp add: polled_def same_server_def)
  moreover have "finished_tasks server s (be_list_batch server) (w_replies (sy_world s)) (sy_rets s) = ([], 0)" using Nil.hyps by simp
  ultimately show ?case using Nil.prems by blast
next
  case (Cons b bs)
  note l = Cons.hyps(2) [symmetric]
  have parts: "counts_ok server" "batches_ok s server []" "tasks_ok s k (in_hand server)" using Cons.prems by (auto simp: serv_ok_def)
  have d: "distinct (in_hand server)" using parts(3) by (simp add: tasks_ok_def)
  obtain batch where b: "be_batches server b = Some batch" using parts(2) l by (auto simp: batches_ok_idle)
  obtain ret batch1 s1 where io: "bat_ioctl (be_server_fd server) (ba_wait_reqs batch) batch s = (ret, batch1, s1)" by (metis prod_cases3)
  note f = bat_ioctl_facts [OF io] bat_ioctl_calls [OF io]
  note a = bat_ioctl_answer [OF io]
  have b0: "batch_ok s (be_max_task_in_batch server) b batch" using parts(2) l b by (auto simp: batches_ok_idle)
  have at: "tasks_at server b = ba_tasks batch" "wait_at server b = ba_wait_reqs batch" using b by (simp_all add: tasks_at_def wait_at_def)
  have dist: "b \<notin> set bs" "b \<notin> set (be_list_batch_free server)" using parts(1) l by (auto simp: counts_ok_def)
  have fst_calls: "calls s1 = calls s @ [(be_server_fd server, wait_at server b)]" using f(7) at by simp
  show ?case
  proof (cases "ret = 0")
    case False
    let ?server = "server\<lparr>be_batches := (be_batches server)(b \<mapsto> batch1), be_timer := False\<rparr>"
    let ?mid = "server\<lparr>be_batches := (be_batches server)(b \<mapsto> batch1)\<rparr>"
    have b1: "batch_ok s (be_max_task_in_batch server) b batch1" using parts(2) l b batch_ok_same [OF _ f(4,2,3)] by (auto simp: batches_ok_idle)
    have "serv_ok s k ?mid []" "mset (in_hand ?mid) = mset (in_hand server)"
      using set_running [OF Cons.prems _ b b1, of "[]"] parts(3) f(2) l by simp_all
    then have ok: "serv_ok s k ?server []" "mset (in_hand ?server) = mset (in_hand server)"
      using timer_serv_ok [of s k False ?mid] timer_in_hand [of False ?mid] by simp_all
    have "finished_tasks server s (be_list_batch server) (w_replies (sy_world s)) (sy_rets s) = ([], 1)" using l b False a(1) by simp
    moreover have "poll_loop server s = Some (?server, s1)" using l b io False by (subst poll_loop.simps) simp
    moreover have "serv_ok s1 k ?server []" using ok(1) serv_ok_agree [OF f(1)] by simp
    moreover have "polled server s ?server s1 [] 1" using f(1,6) fst_calls ok(2) l by (simp add: polled_def same_server_def)
    ultimately show ?thesis by blast
  next
    case True
    define D where "D = filter (zero_ret batch1 s1) (ba_tasks batch)"
    obtain batch2 where t: "poll_tasks (ba_tasks batch1) batch1 s1 = Some (batch2, fold finish_task D s1)"
      "serv_ok (fold finish_task D s1) k (server\<lparr>be_batches := (be_batches server)(b \<mapsto> batch2)\<rparr>) []"
      "mset (in_hand (server\<lparr>be_batches := (be_batches server)(b \<mapsto> batch2)\<rparr>)) = mset (in_hand server) - mset D"
      "ba_tasks batch2 = filter (\<lambda>t. t \<notin> set D) (ba_tasks batch)"
      using poll_turn [OF Cons.prems l b io] unfolding D_def by metis
    have fin: "finished_in s batch (first_rets (sy_rets s)) = D" unfolding D_def by (rule polled_finished [OF b0 io, symmetric])
    have "batch_ok (fold finish_task D s1) (be_max_task_in_batch server) b batch2" using t(2) l by (auto simp: serv_ok_def batches_ok_idle)
    then have "ba_poll_cnt batch2 = ba_fill_cnt batch2 \<longleftrightarrow> ba_tasks batch2 = []" by (auto simp: batch_ok_def)
    moreover have "D = ba_tasks batch \<longleftrightarrow> ba_tasks batch2 = []"
      unfolding t(4) by (auto simp: filter_empty_conv D_def filter_id_conv)
    ultimately have all: "ba_poll_cnt batch2 = ba_fill_cnt batch2 \<longleftrightarrow> D = ba_tasks batch" by blast
    have Ds: "set D \<subseteq> set (tasks_at server b)" "distinct D" using d l at by (auto simp: D_def in_hand_def)
    let ?mid = "server\<lparr>be_batches := (be_batches server)(b \<mapsto> batch2)\<rparr>"
    show ?thesis
    proof (cases "ba_poll_cnt batch2 = ba_fill_cnt batch2")
      case False
      have "finished_tasks server s (be_list_batch server) (w_replies (sy_world s)) (sy_rets s) = (D, 1)"
        using l b True a(1) fin all False by simp
      moreover have "poll_loop server s = Some (?mid, fold finish_task D s1)" using l b io True t(1) False by (subst poll_loop.simps) simp
      moreover have "polled server s ?mid (fold finish_task D s1) D 1"
        using agree_finish_all [OF f(1)] Ds t(3) fst_calls f(6) l by (auto simp: polled_def same_server_def)
      ultimately show ?thesis using t(2) by blast
    next
      case full: True
      define server2 where "server2 = (move_to_free b ?mid)\<lparr>be_batch_run := be_batch_run ?mid - 1, be_batch_free := be_batch_free ?mid + 1,
        be_batches := (be_batches ?mid)(b \<mapsto> batch_reset batch2)\<rparr>"
      have g: "serv_ok (fold finish_task D s1) k server2 []" "mset (in_hand server2) = mset (in_hand server) - mset D" "be_list_batch server2 = bs"
        using free_running [OF t(2), of b bs batch2] l full t(3) by (simp_all add: server2_def)
      obtain server' s' E n where r: "poll_loop server2 (fold finish_task D s1) = Some (server', s')" "serv_ok s' k server' []"
        "polled server2 (fold finish_task D s1) server' s' E n"
        "finished_tasks server2 (fold finish_task D s1) bs (tl (w_replies (sy_world s))) (tl (sy_rets s)) = (E, n)"
        using Cons.hyps(1) [OF g(3) [symmetric] g(1)] a(2,3) g(3) by auto
      have "\<forall>d \<in> set D. task_of s1 d \<noteq> None"
        using b0 agree_task [OF f(1)] by (auto simp: D_def batch_ok_def in_batch_def split: option.splits)
      then have slots: "slot_of (fold finish_task D s1) t = slot_of s t" for t using slot_finish_all agree_slot [OF f(1)] by metis
      have "finished_tasks server2 (fold finish_task D s1) bs replies rets = finished_tasks server s bs replies rets" for replies rets
        by (rule finished_tasks_cong [OF _ slots]) (use dist in \<open>auto simp: server2_def move_to_free_def\<close>)
      then have fin2: "finished_tasks server s (be_list_batch server) (w_replies (sy_world s)) (sy_rets s) = (D @ E, Suc n)"
        using l b True a(1) fin all full r(4) by simp
      have "poll_loop server s = Some (server', s')" using l b io True t(1) full r(1)
        by (subst poll_loop.simps) (simp add: server2_def move_to_free_def)
      moreover have "polled server s server' s' (D @ E) (Suc n)"
        by (rule polled_more [OF l g(3) f(1) Ds g(2) _ fst_calls f(6) _ d r(3)])
          (use dist in \<open>auto simp: same_server_def server2_def move_to_free_def tasks_at_def wait_at_def\<close>)
      ultimately show ?thesis using r(2) fin2 by blast
    qed
  qed
qed

text \<open>
  What the thread of a server leaves as it is: of the sessions of its clients all but their tasks and results. A
  session is signalled only when it has one more result.
\<close>

definition same_session :: "int \<Rightarrow> session \<Rightarrow> session \<Rightarrow> bool" where
  "same_session k ss ss' \<longleftrightarrow> (if ss_server ss = Some k then ss_server ss' = Some k \<and> ss_ctx ss' = ss_ctx ss \<and> ss_client ss' = ss_client ss \<and>
     ss_list_wait ss' = ss_list_wait ss \<and> ss_list_done ss' = ss_list_done ss \<and> ss_task_wait ss' = ss_task_wait ss \<and>
     ss_task_done ss \<le> ss_task_done ss' \<and> (ss_signal ss' \<longrightarrow> ss_signal ss \<or> ss_task_done ss < ss_task_done ss') else ss' = ss)"

definition touched :: "int \<Rightarrow> dev_server \<Rightarrow> dev_server \<Rightarrow> bool" where
  "touched k s s' \<longleftrightarrow> (\<forall>i. rel_option (same_session k) (sy_sessions s i) (sy_sessions s' i)) \<and> sy_ctxs s' = sy_ctxs s \<and> sy_bufs s' = sy_bufs s \<and>
     sy_servers s' = sy_servers s \<and> sy_inited s' = sy_inited s \<and> sy_enable s' = sy_enable s \<and> sy_max_task_in_batch s' = sy_max_task_in_batch s \<and>
     sy_next_block s' = sy_next_block s"

lemma same_session_refl [simp]: "same_session k ss ss"
  by (simp add: same_session_def)

lemma same_session_trans: "same_session k a b \<Longrightarrow> same_session k b c \<Longrightarrow> same_session k a c"
  by (auto simp: same_session_def split: if_splits)

lemma agree_touched: "agree s s' \<Longrightarrow> touched k s s'"
  by (simp add: agree_def touched_def option.rel_refl)

lemma touched_refl [simp]: "touched k s s"
  by (rule agree_touched) simp

lemma rel_option_trans:
  "(\<And>a b c. R a b \<Longrightarrow> R b c \<Longrightarrow> R a c) \<Longrightarrow> rel_option R x y \<Longrightarrow> rel_option R y z \<Longrightarrow> rel_option R x z"
  by (cases x; cases y; cases z) auto

lemma touched_trans:
  assumes "touched k a b" "touched k b c"
  shows "touched k a c"
proof -
  have "rel_option (same_session k) (sy_sessions a i) (sy_sessions c i)" for i
    by (rule rel_option_trans [where y = "sy_sessions b i"], erule (1) same_session_trans) (use assms in \<open>simp_all add: touched_def\<close>)
  then show ?thesis using assms by (simp add: touched_def)
qed

lemma touched_set_task:
  assumes "get_task s t = Some (ss, tk)" "ss_server ss = Some k"
  shows "touched k s (set_session (fst t) (set_task (snd t) tk' ss) s)"
  using assms by (auto simp: touched_def get_task_Some set_session_def set_task_def same_session_def option.rel_refl)

lemma touched_finish:
  assumes "tasks_ok s k u" "t \<in> set u"
  shows "touched k s (finish_task t s)"
proof -
  obtain ss tk ctx where g: "get_task s t = Some (ss, tk)" "ss_server ss = Some k" by (rule tasks_ok_live [OF assms])
  then show ?thesis by (auto simp: touched_def finish_task_sessions [OF g(1)] get_task_Some same_session_def option.rel_refl)
qed

lemma touched_finish_all: "tasks_ok s k u \<Longrightarrow> set D \<subseteq> set u \<Longrightarrow> distinct D \<Longrightarrow> touched k s (fold finish_task D s)"
proof (induction D arbitrary: s u)
  case (Cons d D)
  have d: "d \<in> set u" using Cons.prems(2) by simp
  have "x \<in> set (remove1 d u)" if "x \<in> set D" for x
    using Cons.prems(2,3) that by (cases "x = d") (auto simp: in_set_remove1)
  then have "set D \<subseteq> set (remove1 d u)" by blast
  then have "touched k (finish_task d s) (fold finish_task D (finish_task d s))"
    by (rule Cons.IH [OF tasks_ok_finish [OF Cons.prems(1) d]]) (use Cons.prems(3) in simp)
  then show ?case using touched_trans touched_finish [OF Cons.prems(1) d] by auto
qed simp

section \<open>Filling batches\<close>

definition requests :: "dev_server \<Rightarrow> task_ref \<Rightarrow> mpp_req list option" where
  "requests s t = do { tk \<leftarrow> task_of s t; task_reqs s tk }"

definition ready :: "dev_server \<Rightarrow> task_ref \<Rightarrow> bool" where
  "ready s t \<longleftrightarrow> (case requests s t of None \<Rightarrow> False | Some reqs \<Rightarrow> length reqs < MAX_REQ_NUM)"

text \<open>What a batch with the given tasks sends.\<close>

fun batch_msgs :: "dev_server \<Rightarrow> nat \<Rightarrow> nat \<Rightarrow> task_ref list \<Rightarrow> mpp_req list" where
  "batch_msgs s b j [] = []"
| "batch_msgs s b j (t # ts) = session_req b (int j) # the (requests s t) @ batch_msgs s b (Suc j) ts"

lemma batch_msgs_snoc: "batch_msgs s b j (ts @ [t]) = batch_msgs s b j ts @ session_req b (int (j + length ts)) # the (requests s t)"
  by (induction ts arbitrary: j) (auto simp: add.assoc)

lemma batch_msgs_cong: "(\<And>t. t \<in> set ts \<Longrightarrow> requests s' t = requests s t) \<Longrightarrow> batch_msgs s' b j ts = batch_msgs s b j ts"
  by (induction ts arbitrary: j) auto

lemma agree_requests: "agree s s' \<Longrightarrow> requests s' t = requests s t"
  by (simp add: requests_def agree_task) (simp add: agree_def task_reqs_def)

lemma tasks_ok_set_task:
  assumes "get_task s t = Some (ss, tk)"
  shows "tasks_ok (set_session (fst t) (set_task (snd t) tk' ss) s) k u = tasks_ok s k u"
proof -
  let ?s = "set_session (fst t) (set_task (snd t) tk' ss) s"
  have ss: "sy_sessions s (fst t) = Some ss" using assms by (simp add: get_task_Some)
  have "in_session ?s k t' = in_session s k t'" for t' using ss by (auto simp: in_session_def set_session_def set_task_def)
  moreover have "(\<forall>ss'. sy_sessions ?s i = Some ss' \<longrightarrow> ss_server ss' = Some k \<longrightarrow> session_ok ?s ss' n) =
      (\<forall>ss'. sy_sessions s i = Some ss' \<longrightarrow> ss_server ss' = Some k \<longrightarrow> session_ok s ss' n)" for i n
    using ss by (cases "i = fst t") (simp_all add: session_ok_def set_session_def set_task_def)
  ultimately show ?thesis by (simp add: tasks_ok_def)
qed

definition head_reqs :: "dev_server \<Rightarrow> bat_serv \<Rightarrow> task_ref list \<Rightarrow> bool" where
  "head_reqs s server hs \<longleftrightarrow> (case be_list_batch_free server of [] \<Rightarrow> True
     | b # _ \<Rightarrow> map_option ba_send_reqs (be_batches server b) = Some (batch_msgs s b 0 hs))"

lemma filling_add:
  assumes f: "filling s m b hs batch" and t: "t \<notin> set hs" "get_task s t = Some (ss, tk)" and n: "int (length hs) < m"
    and s': "s' = set_session (fst t) (set_task (snd t) (tk\<lparr>tk_batch := Some b, tk_batch_slot_id := int (length hs)\<rparr>) ss) s"
    and b': "ba_tasks batch' = hs @ [t]" "ba_fill_cnt batch' = ba_fill_cnt batch + 1" "ba_poll_cnt batch' = ba_poll_cnt batch"
      "length (ba_bat_cmd batch') = length (ba_bat_cmd batch)" "ba_fill_full batch' = (m \<le> int (length hs) + 1)"
      "length (ba_send_reqs batch') \<le> length (ba_send_reqs batch) + MAX_REQ_SEND_CNT" "length (ba_wait_reqs batch') = length (ba_wait_reqs batch) + MAX_REQ_WAIT_CNT"
  shows "filling s' m b (hs @ [t]) batch'"
proof -
  have o: "batch_ok s m b batch" "ba_tasks batch = hs" "ba_poll_cnt batch = 0" using f by (auto simp: filling_def)
  have fc: "ba_fill_cnt batch = int (length hs)" using o by (simp add: batch_ok_def)
  have task: "task_of s' t' = (if t' = t then Some (tk\<lparr>tk_batch := Some b, tk_batch_slot_id := int (length hs)\<rparr>) else task_of s t')" for t'
    unfolding s' by (rule task_of_update [OF t(2)]) (simp add: set_task_def)
  have old: "slot_of s' x = slot_of s x" "in_batch s' b n x = in_batch s b n x" if "x \<in> set hs" for x n
    using that t(1) by (auto simp: slot_of_def in_batch_def task)
  have ib: "in_batch s b (int (length hs)) x" if "x \<in> set hs" for x using o(1) that unfolding batch_ok_def o(2) fc by blast
  then have less: "slot_of s x < int (length hs)" if "x \<in> set hs" for x using that by (fastforce simp: in_batch_def slot_of_def split: option.splits)
  have new: "slot_of s' t = int (length hs)" "in_batch s' b (int (length hs) + 1) t" by (simp_all add: slot_of_def in_batch_def task)
  have wider: "in_batch s' b (int (length hs) + 1) x" if "x \<in> set hs" for x
    using ib [OF that] unfolding old(2) [OF that] by (auto simp: in_batch_def split: option.splits)
  have "sorted_wrt (<) (List.map (slot_of s) hs)" using o(1,2) by (simp add: batch_ok_def)
  moreover have "List.map (slot_of s') hs = List.map (slot_of s) hs" using old(1) by simp
  ultimately have "sorted_wrt (<) (List.map (slot_of s') (hs @ [t]))" using less new(1) by (simp only: map_append sorted_wrt_append) simp
  moreover have "\<forall>x \<in> set (hs @ [t]). in_batch s' b (int (length hs) + 1) x" using wider new(2) by simp
  moreover have "int (length (ba_send_reqs batch')) \<le> (int (length hs) + 1) * int MAX_REQ_SEND_CNT"
    using o(1) b'(6) fc unfolding batch_ok_def by (simp add: algebra_simps)
  moreover have "int (length (ba_wait_reqs batch')) = (int (length hs) + 1) * int MAX_REQ_WAIT_CNT"
    using o(1) b'(7) fc unfolding batch_ok_def by (simp add: algebra_simps)
  moreover have "int (length (ba_bat_cmd batch')) = m" using o(1) b'(4) by (simp add: batch_ok_def)
  ultimately have "batch_ok s' m b batch'" using o(3) b'(1-3) fc n by (simp add: batch_ok_def)
  then show ?thesis using b'(1,3,5) o(3) by (simp add: filling_def add.commute)
qed

lemma set_full: "\<not> ba_fill_full x \<Longrightarrow> (if c then x\<lparr>ba_fill_full := True\<rparr> else x) = x\<lparr>ba_fill_full := c\<rparr>"
  by (cases x) simp

text \<open>The first pending task goes into the first free batch.\<close>

lemma fill_ok:
  assumes ok: "serv_ok s k server hs" and l: "be_list_batch_free server = b # fs" "be_pending_task server = t # ts"
    and n: "int (length hs) < be_max_task_in_batch server" and r: "ready s t" and h: "head_reqs s server hs"
  defines "server1 \<equiv> server\<lparr>be_pending_task := ts, be_pending_count := be_pending_count server - 1\<rparr>"
  obtains server2 s2 where "fill_task server1 b t s = Some (server2, be_max_task_in_batch server \<le> int (length hs) + 1, s2)"
    "serv_ok s2 k server2 (hs @ [t])" "head_reqs s2 server2 (hs @ [t])" "mset (in_hand server2) = mset (in_hand server)"
    "be_pending_task server2 = ts" "be_list_batch server2 = be_list_batch server" "be_list_batch_free server2 = b # fs"
    "be_batch_max_count server2 = be_batch_max_count server" "be_max_task_in_batch server2 = be_max_task_in_batch server"
    "be_server_fd server2 = be_server_fd server" "be_batch_run server2 = be_batch_run server"
    "sy_world s2 = sy_world s" "\<And>u. requests s2 u = requests s u" "\<And>c. c \<noteq> b \<Longrightarrow> tasks_at server2 c = tasks_at server c" "touched k s s2"
proof -
  have parts: "counts_ok server" "batches_ok s server hs" "tasks_ok s k (in_hand server)" using ok by (auto simp: serv_ok_def)
  let ?m = "be_max_task_in_batch server"
  obtain batch where b: "be_batches server b = Some batch" "filling s ?m b hs batch" using parts(2) l(1) by (auto simp: batches_ok_def)
  have o: "batch_ok s ?m b batch" "ba_tasks batch = hs" "ba_poll_cnt batch = 0" using b(2) by (auto simp: filling_def)
  have fc: "ba_fill_cnt batch = int (length hs)" using o by (simp add: batch_ok_def)
  have d: "distinct (in_hand server)" using parts(3) by (simp add: tasks_ok_def)
  have hin: "set hs \<subseteq> set (tasks_at server b)" using b(1) o(2) by (simp add: tasks_at_def)
  have tin: "t \<in> set (in_hand server)" "t \<notin> set (batch_tasks server (be_list_batch server @ be_list_batch_free server))"
    using d l(2) by (auto simp: in_hand_def)
  then have tn: "t \<notin> set hs" using hin l(1) by auto
  obtain ss tk ctx where g: "get_task s t = Some (ss, tk)" and gk: "ss_server ss = Some k" by (rule tasks_ok_live [OF parts(3) tin(1)])
  have tof: "task_of s t = Some tk" using g by (simp add: task_of_def)
  obtain reqs where rq: "requests s t = Some reqs" "length reqs < MAX_REQ_NUM" using r by (auto simp: ready_def split: option.splits)
  define tk' where "tk' = tk\<lparr>tk_batch := Some b, tk_batch_slot_id := int (length hs)\<rparr>"
  define s2 where "s2 = set_session (fst t) (set_task (snd t) tk' ss) s"
  have task: "task_of s2 t' = (if t' = t then Some tk' else task_of s t')" for t'
    unfolding s2_def by (rule task_of_update [OF g]) (simp add: set_task_def)
  have tr: "task_reqs s2 = task_reqs s" by (rule ext) (simp add: task_reqs_def s2_def set_session_def)
  have trk: "task_reqs s tk' = task_reqs s tk" by (simp add: task_reqs_def tk'_def cong: if_cong)
  have rqs: "requests s2 u = requests s u" for u using tof by (simp add: requests_def task tr trk)
  have new: "task_reqs s2 tk' = Some reqs" using rq(1) tof by (simp add: requests_def tr trk)
  have lens: "nat (int (length hs)) < length (ba_bat_cmd batch)" "int (length (ba_bat_cmd batch)) = ?m"
    "int (length (ba_send_reqs batch)) \<le> int (length hs) * int MAX_REQ_SEND_CNT" "int (length (ba_wait_reqs batch)) = int (length hs) * int MAX_REQ_WAIT_CNT"
    using o(1) n fc by (simp_all add: batch_ok_def)
  have more: "(int (length hs) + 1) * c \<le> ?m * c" if "0 \<le> c" for c :: int using n that by (intro mult_right_mono) simp_all
  let ?send = "ba_send_reqs batch @ session_req b (int (length hs)) # reqs"
  let ?wait = "ba_wait_reqs batch @ [session_req b (int (length hs)), poll_req]"
  have room: "int (length (ba_send_reqs batch)) + 1 + int (length reqs) \<le> ?m * int MAX_REQ_SEND_CNT"
    "int (length (ba_wait_reqs batch)) + 2 \<le> ?m * int MAX_REQ_WAIT_CNT"
    using lens(3,4) rq(2) more [of "int MAX_REQ_SEND_CNT"] more [of "int MAX_REQ_WAIT_CNT"] by (simp_all add: algebra_simps server_limits)
  define server0 where "server0 = (if ba_fill_cnt batch = 0 then server1\<lparr>be_batch_id := be_batch_id server1 + 1\<rparr> else server1)"
  define batch2 where "batch2 = (if ba_fill_cnt batch = 0 then batch\<lparr>ba_batch_id := be_batch_id server1\<rparr> else batch)
    \<lparr>ba_fill_cnt := int (length hs) + 1, ba_tasks := hs @ [t], ba_fill_full := (?m \<le> int (length hs) + 1),
     ba_bat_cmd := (ba_bat_cmd batch)[length hs := \<lparr>bc_flag = 0, bc_client = ss_client ss, bc_ret = 0\<rparr>], ba_send_reqs := ?send, ba_wait_reqs := ?wait\<rparr>"
  define server2 where "server2 = server0\<lparr>be_batches := (be_batches server)(b \<mapsto> batch2)\<rparr>"
  have nf: "\<not> ba_fill_full batch" using b(2) n by (simp add: filling_def)
  have fill: "fill_task server1 b t s = Some (server2, ?m \<le> int (length hs) + 1, s2)"
    using b(1) g fc lens(1) room new o(2) nf
    by (cases "hs = []") (simp_all add: fill_task_def Let_def add_reqs_def put_def set_full server0_def server1_def server2_def batch2_def s2_def tk'_def)
  have fields: "be_batches server2 = (be_batches server)(b \<mapsto> batch2)" "be_pending_task server2 = ts" "be_list_batch server2 = be_list_batch server"
    "be_list_batch_free server2 = b # fs" "be_batch_max_count server2 = be_batch_max_count server" "be_max_task_in_batch server2 = ?m"
    "be_server_fd server2 = be_server_fd server" "be_batch_run server2 = be_batch_run server" "be_batch_free server2 = be_batch_free server"
    "be_pending_count server2 = be_pending_count server - 1" "be_next_block server2 = be_next_block server"
    using l(1) by (simp_all add: server2_def server0_def server1_def)
  have dist: "b \<notin> set (be_list_batch server)" "b \<notin> set fs" using parts(1) l(1) by (auto simp: counts_ok_def)
  have at: "tasks_at server2 b = hs @ [t]" "tasks_at server2 c = tasks_at server c" if "c \<noteq> b" for c
    using that by (simp_all add: tasks_at_def fields(1) batch2_def)
  have other: "batch_tasks server2 bs = batch_tasks server bs" if "b \<notin> set bs" for bs
    using that unfolding batch_tasks_def by (intro arg_cong [of _ _ List.concat] map_cong) (auto simp: tasks_at_def fields(1))
  have hb: "tasks_at server b = hs" using b(1) o(2) by (simp add: tasks_at_def)
  have m: "mset (in_hand server2) = mset (in_hand server)"
    using other [OF dist(1)] other [OF dist(2)] l hb by (simp add: in_hand_def fields(2-4)) (simp add: tasks_at_def fields(1) batch2_def)
  have fl: "filling s2 ?m b (hs @ [t]) batch2"
    by (rule filling_add [OF b(2) tn g n]) (use fc lens rq(2) o(3) in \<open>simp_all add: s2_def tk'_def batch2_def server_limits\<close>)
  have ts_other: "task_of s2 x = task_of s x" if "c \<in> set (be_list_batch server @ fs)" "be_batches server c = Some ba" "x \<in> set (ba_tasks ba)" for c ba x
  proof -
    have "x \<in> set (batch_tasks server (be_list_batch server @ be_list_batch_free server))"
      using batch_tasks_mem [of c "be_list_batch server @ be_list_batch_free server" server] that l(1) by (auto simp: tasks_at_def)
    then show ?thesis using tin(2) by (auto simp: task)
  qed
  have run: "\<exists>ba. be_batches server2 c = Some ba \<and> batch_ok s2 ?m c ba" if c: "c \<in> set (be_list_batch server)" for c
  proof -
    obtain ba where ba: "be_batches server c = Some ba" "batch_ok s ?m c ba" using parts(2) c by (auto simp: batches_ok_def)
    have "batch_ok s2 ?m c ba" using ba(2) batch_ok_cong [of ba s2 s] ts_other [of c ba] ba(1) c by simp
    moreover have "c \<noteq> b" using dist c by auto
    ultimately show ?thesis using ba(1) by (simp add: fields(1))
  qed
  have rest: "\<exists>ba. be_batches server2 c = Some ba \<and> filling s2 ?m c [] ba" if c: "c \<in> set fs" for c
  proof -
    obtain ba where ba: "be_batches server c = Some ba" "filling s ?m c [] ba" using parts(2) c l(1) by (auto simp: batches_ok_def)
    have "filling s2 ?m c [] ba" using ba(2) filling_cong [of "[]" s2 s] by simp
    moreover have "c \<noteq> b" using dist c by auto
    ultimately show ?thesis using ba(1) by (simp add: fields(1))
  qed
  have "batches_ok s2 server2 (hs @ [t])" using run rest fl by (simp add: batches_ok_def fields)
  moreover have "counts_ok server2" using parts(1) l b(1) by (auto simp: counts_ok_def fields)
  moreover have "tasks_ok s2 k (in_hand server2)"
    using tasks_ok_perm [OF m [symmetric]] parts(3) tasks_ok_set_task [OF g] by (simp add: s2_def)
  ultimately have ok2: "serv_ok s2 k server2 (hs @ [t])" by (simp add: serv_ok_def)
  have hd2: "head_reqs s2 server2 (hs @ [t])"
    using h l(1) b(1) rq(1) batch_msgs_cong [of hs s2 s b 0] rqs by (simp add: head_reqs_def fields batch_msgs_snoc) (simp add: batch2_def)
  have "sy_world s2 = sy_world s" by (simp add: s2_def set_session_def)
  then show thesis by (rule that [OF fill ok2 hd2 m fields(2-8) _ rqs at(2)]) (simp_all add: s2_def touched_set_task [OF g gk])
qed

lemma in_hand_mset:
  "mset (in_hand server) = mset (be_pending_task server) + mset (batch_tasks server (be_list_batch server)) + mset (batch_tasks server (be_list_batch_free server))"
  by (simp add: in_hand_def)

lemma head_reqs_empty:
  assumes "batches_ok s server []"
  shows "head_reqs s server []"
  using assms by (auto simp: head_reqs_def batches_ok_def filling_def split: list.splits)

text \<open>The batch that is being filled is sent.\<close>

lemma send_filled:
  assumes ok: "serv_ok s k server hs" and l: "be_list_batch_free server = b # fs" and h: "head_reqs s server hs"
  obtains server' s' where "batch_send server b s = Some (server', s')" "batch_send (move_to_run b server) b s = Some (server', s')"
    "serv_ok s' k server' []" "agree s s'" "calls s' = calls s @ [(be_server_fd server, batch_msgs s b 0 hs)]" "w_heap (sy_world s') = w_heap (sy_world s)"
    "be_list_batch server' = be_list_batch server @ [b]" "be_list_batch_free server' = fs" "mset (in_hand server') = mset (in_hand server)"
    "be_pending_task server' = be_pending_task server" "be_batch_max_count server' = be_batch_max_count server"
    "be_max_task_in_batch server' = be_max_task_in_batch server" "be_server_fd server' = be_server_fd server"
    "tasks_at server' = tasks_at server" "tasks_at server b = hs"
proof -
  have parts: "counts_ok server" "batches_ok s server hs" "tasks_ok s k (in_hand server)" using ok by (auto simp: serv_ok_def)
  let ?m = "be_max_task_in_batch server"
  obtain batch where b: "be_batches server b = Some batch" "filling s ?m b hs batch" using parts(2) l(1) by (auto simp: batches_ok_def)
  have o: "batch_ok s ?m b batch" "ba_tasks batch = hs" using b(2) by (auto simp: filling_def)
  have rq: "ba_send_reqs batch = batch_msgs s b 0 hs" using h l b(1) by (simp add: head_reqs_def)
  obtain ret batch1 s1 where io: "bat_ioctl (be_server_fd server) (ba_send_reqs batch) batch s = (ret, batch1, s1)" by (metis prod_cases3)
  note f = bat_ioctl_facts [OF io] bat_ioctl_calls [OF io]
  have dist: "b \<notin> set (be_list_batch server)" "b \<notin> set fs" using parts(1) l(1) by (auto simp: counts_ok_def)
  define server' where "server' = server\<lparr>be_batches := (be_batches server)(b \<mapsto> batch1), be_list_batch := be_list_batch server @ [b], be_list_batch_free := fs,
    be_batch_free := be_batch_free server - 1, be_batch_run := be_batch_run server + 1\<rparr>"
  have sent: "batch_send server b s = Some (server', s1)" "batch_send (move_to_run b server) b s = Some (server', s1)"
    using b(1) io dist l by (simp_all add: batch_send_def move_to_run_def server'_def remove1_idem remove1_append)
  have fields: "be_batches server' = (be_batches server)(b \<mapsto> batch1)" "be_list_batch server' = be_list_batch server @ [b]" "be_list_batch_free server' = fs"
    "be_batch_free server' = be_batch_free server - 1" "be_batch_run server' = be_batch_run server + 1" "be_pending_task server' = be_pending_task server"
    "be_batch_max_count server' = be_batch_max_count server" "be_max_task_in_batch server' = ?m" "be_server_fd server' = be_server_fd server"
    "be_pending_count server' = be_pending_count server" "be_next_block server' = be_next_block server"
    by (simp_all add: server'_def)
  have at: "tasks_at server' = tasks_at server" "tasks_at server b = hs" using b(1) f(2) o(2) by (auto simp: tasks_at_def fields(1))
  have bt: "batch_tasks server' bs = batch_tasks server bs" for bs by (simp add: batch_tasks_def at(1))
  have m: "mset (in_hand server') = mset (in_hand server)" using l by (simp add: in_hand_mset fields bt at(1))
  have b1: "batch_ok s ?m b batch1" using batch_ok_same [OF o(1) f(4,2,3)] .
  have "\<exists>ba. be_batches server' c = Some ba \<and> batch_ok s ?m c ba" if "c \<in> set (be_list_batch server')" for c
    using parts(2) that b1 dist(1) by (cases "c = b") (auto simp: batches_ok_def fields)
  moreover have "\<exists>ba. be_batches server' c = Some ba \<and> filling s ?m c [] ba" if "c \<in> set fs" for c
    using parts(2) that dist(2) l by (cases "c = b") (auto simp: batches_ok_def fields)
  ultimately have "batches_ok s server' []" unfolding batches_ok_idle fields(3,8) by blast
  moreover have "counts_ok server'" using parts(1) l b(1) dist by (auto simp: counts_ok_def fields)
  ultimately have "serv_ok s k server' []" using tasks_ok_perm [OF m [symmetric] parts(3)] by (simp add: serv_ok_def)
  then have ok': "serv_ok s1 k server' []" using serv_ok_agree [OF f(1)] by simp
  have c: "calls s1 = calls s @ [(be_server_fd server, batch_msgs s b 0 hs)]" using f(7) rq by simp
  show thesis by (rule that [OF sent ok' f(1) c f(6) fields(2,3) m fields(6-9) at])
qed

lemma get_batch_ok:
  assumes ok: "serv_ok s k server hs" and h: "head_reqs s server hs" and go: "get_batch server s = (go, server1, s1)"
  shows "serv_ok s1 k server1 hs" "head_reqs s1 server1 hs" "agree s s1" "calls s1 = calls s" "mset (in_hand server1) = mset (in_hand server)"
    "be_list_batch server1 = be_list_batch server" "be_pending_task server1 = be_pending_task server" "be_batch_max_count server1 = be_batch_max_count server"
    "be_max_task_in_batch server1 = be_max_task_in_batch server" "be_server_fd server1 = be_server_fd server" "be_batch_run server1 = be_batch_run server"
    "set (w_heap (sy_world s1)) \<subseteq> set (w_heap (sy_world s))"
    "\<not> go \<Longrightarrow> be_list_batch_free server1 = [] \<and> be_batch_max_count server \<le> be_batch_run server"
    "go \<Longrightarrow> be_list_batch_free server1 = [] \<Longrightarrow> False \<in> set (w_heap (sy_world s))"
    "\<And>c. c \<in> set (be_list_batch server) \<Longrightarrow> tasks_at server1 c = tasks_at server c"
proof -
  have parts: "counts_ok server" "batches_ok s server hs" "tasks_ok s k (in_hand server)" using ok by (auto simp: serv_ok_def)
  let ?all = "serv_ok s1 k server1 hs \<and> head_reqs s1 server1 hs \<and> agree s s1 \<and> calls s1 = calls s \<and> mset (in_hand server1) = mset (in_hand server) \<and>
    be_list_batch server1 = be_list_batch server \<and> be_pending_task server1 = be_pending_task server \<and> be_batch_max_count server1 = be_batch_max_count server \<and>
    be_max_task_in_batch server1 = be_max_task_in_batch server \<and> be_server_fd server1 = be_server_fd server \<and> be_batch_run server1 = be_batch_run server \<and>
    set (w_heap (sy_world s1)) \<subseteq> set (w_heap (sy_world s)) \<and> (\<not> go \<longrightarrow> be_list_batch_free server1 = [] \<and> be_batch_max_count server \<le> be_batch_run server) \<and>
    (go \<longrightarrow> be_list_batch_free server1 = [] \<longrightarrow> False \<in> set (w_heap (sy_world s))) \<and> (\<forall>c \<in> set (be_list_batch server). tasks_at server1 c = tasks_at server c)"
  have ?all
  proof (cases "be_batch_free server = 0")
    case False
    then show ?thesis using ok h go parts(1) by (auto simp: get_batch_def counts_ok_def)
  next
    case True
    then have none: "be_list_batch_free server = []" using parts(1) by (simp add: counts_ok_def)
    then have hs: "hs = []" using parts(2) by (simp add: batches_ok_def)
    show ?thesis
    proof (cases "be_batch_free server + be_batch_run server \<ge> be_batch_max_count server")
      case over: True
      then show ?thesis using ok h go True none by (auto simp: get_batch_def)
    next
      case False
      then have go': "go" "batch_add server s = (server1, s1)" using go True by (auto simp: get_batch_def)
      obtain yes w where a: "sys_alloc (sy_world s) = (yes, w)" by fastforce
      have heap: "set (w_heap w) \<subseteq> set (w_heap (sy_world s))" "w_log w = w_log (sy_world s)" "\<not> yes \<Longrightarrow> False \<in> set (w_heap (sy_world s))"
        using a by (cases "w_heap (sy_world s)"; auto simp: sys_alloc_def)+
      show ?thesis
      proof (cases yes)
        case no: False
        then have e: "server1 = server" "s1 = s\<lparr>sy_world := w\<rparr>" using go'(2) a by (auto simp: batch_add_def)
        have "agree s s1" by (simp add: e agree_def)
        then show ?thesis using ok h heap no go'(1) serv_ok_agree [of s s1] none by (auto simp: e calls_def head_reqs_def)
      next
        case yes: True
        let ?b = "be_next_block server" and ?m = "be_max_task_in_batch server"
        define batch where "batch = batch_reset \<lparr>ba_tasks = [], ba_batch_id = 0, ba_bat_cmd = replicate (nat ?m) \<lparr>bc_flag = 0, bc_client = 0, bc_ret = 0\<rparr>,
          ba_send_reqs = [], ba_wait_reqs = [], ba_fill_cnt = 0, ba_fill_full = False, ba_poll_cnt = 0\<rparr>"
        have e: "server1 = server\<lparr>be_batches := (be_batches server)(?b \<mapsto> batch), be_next_block := Suc ?b, be_list_batch_free := [?b], be_batch_free := 1\<rparr>"
          "s1 = s\<lparr>sy_world := w\<rparr>" using go'(2) a yes none True by (auto simp: batch_add_def batch_def Let_def)
        have ag: "agree s s1" by (simp add: e agree_def)
        have fresh: "?b \<notin> set (be_list_batch server)" "be_batches server ?b = None"
        proof -
          show none_b: "be_batches server ?b = None" using parts(1) by (metis counts_ok_def less_irrefl)
          show "?b \<notin> set (be_list_batch server)" using parts(2) none_b by (auto simp: batches_ok_def)
        qed
        have fill: "filling s ?m ?b [] batch" using parts(1) by (simp add: filling_def batch_ok_def batch_def batch_reset_def counts_ok_def)
        have at: "tasks_at server1 c = tasks_at server c" if "c \<noteq> ?b" for c using that by (simp add: e tasks_at_def)
        have bt: "batch_tasks server1 bs = batch_tasks server bs" if "?b \<notin> set bs" for bs
          using that unfolding batch_tasks_def by (intro arg_cong [of _ _ List.concat] map_cong) (auto intro: at)
        have tb: "tasks_at server1 ?b = []" by (simp add: e tasks_at_def batch_def batch_reset_def)
        have m: "mset (in_hand server1) = mset (in_hand server)"
          using bt [OF fresh(1)] tb none by (simp add: in_hand_mset) (simp add: e)
        have "batches_ok s server1 []" using parts(2) fresh fill none unfolding batches_ok_idle hs by (auto simp: e)
        moreover have "counts_ok server1" using parts(1) fresh none True by (auto simp: counts_ok_def e less_Suc_eq)
        ultimately have "serv_ok s k server1 []" using tasks_ok_perm [OF m [symmetric] parts(3)] by (simp add: serv_ok_def)
        then have "serv_ok s1 k server1 []" using serv_ok_agree [OF ag] by simp
        moreover from this have "head_reqs s1 server1 []" by (simp add: serv_ok_def head_reqs_empty)
        moreover have "\<forall>c \<in> set (be_list_batch server). tasks_at server1 c = tasks_at server c" using fresh(1) at by metis
        ultimately show ?thesis using heap m ag go'(1) hs by (simp add: e calls_def)
      qed
    qed
  qed
  then show "serv_ok s1 k server1 hs" "head_reqs s1 server1 hs" "agree s s1" "calls s1 = calls s" "mset (in_hand server1) = mset (in_hand server)"
    "be_list_batch server1 = be_list_batch server" "be_pending_task server1 = be_pending_task server" "be_batch_max_count server1 = be_batch_max_count server"
    "be_max_task_in_batch server1 = be_max_task_in_batch server" "be_server_fd server1 = be_server_fd server" "be_batch_run server1 = be_batch_run server"
    "set (w_heap (sy_world s1)) \<subseteq> set (w_heap (sy_world s))"
    "\<not> go \<Longrightarrow> be_list_batch_free server1 = [] \<and> be_batch_max_count server \<le> be_batch_run server"
    "go \<Longrightarrow> be_list_batch_free server1 = [] \<Longrightarrow> False \<in> set (w_heap (sy_world s))"
    "\<And>c. c \<in> set (be_list_batch server) \<Longrightarrow> tasks_at server1 c = tasks_at server c"
    by blast+
qed

text \<open>The loop sends the batches \<open>bs\<close> with the tasks \<open>chunks\<close>.\<close>

definition sent :: "int \<Rightarrow> dev_server \<Rightarrow> bat_serv \<Rightarrow> task_ref list \<Rightarrow> dev_server \<Rightarrow> bat_serv \<Rightarrow> nat list \<Rightarrow> task_ref list list \<Rightarrow> bool" where
  "sent k s server hs s' server' bs chunks \<longleftrightarrow>
     length bs = length chunks \<and> (\<forall>c \<in> set chunks. c \<noteq> [] \<and> int (length c) \<le> be_max_task_in_batch server) \<and>
     hs @ be_pending_task server = List.concat chunks @ be_pending_task server' \<and>
     be_list_batch server' = be_list_batch server @ bs \<and> List.map (tasks_at server') bs = chunks \<and>
     calls s' = calls s @ List.map (\<lambda>(b, c). (be_server_fd server, batch_msgs s b 0 c)) (zip bs chunks) \<and>
     (\<forall>c \<in> set (be_list_batch server). tasks_at server' c = tasks_at server c) \<and>
     (\<forall>t. requests s' t = requests s t) \<and> mset (in_hand server') = mset (in_hand server) \<and>
     (be_pending_task server' \<noteq> [] \<longrightarrow> be_batch_free server' = 0 \<and> (be_batch_max_count server \<le> be_batch_run server' \<or> False \<in> set (w_heap (sy_world s)))) \<and>
     touched k s s'"

lemma batch_msgs_ext: "(\<And>t. requests s' t = requests s t) \<Longrightarrow> batch_msgs s' b j ts = batch_msgs s b j ts"
  by (rule batch_msgs_cong)

lemma sent_nothing:
  assumes "be_pending_task server = [] \<or> be_batch_free server = 0 \<and> (be_batch_max_count server \<le> be_batch_run server \<or> False \<in> set (w_heap (sy_world s)))"
  shows "sent k s server [] s server [] []"
  using assms by (auto simp: sent_def)

lemma sent_before:
  assumes r: "sent k s1 server1 hs s' server' bs chunks" and a: "agree s s1" "calls s1 = calls s" "mset (in_hand server1) = mset (in_hand server)"
    "be_list_batch server1 = be_list_batch server" "be_pending_task server1 = be_pending_task server" "be_batch_max_count server1 = be_batch_max_count server"
    "be_max_task_in_batch server1 = be_max_task_in_batch server" "be_server_fd server1 = be_server_fd server"
    "set (w_heap (sy_world s1)) \<subseteq> set (w_heap (sy_world s))" "\<And>c. c \<in> set (be_list_batch server) \<Longrightarrow> tasks_at server1 c = tasks_at server c"
  shows "sent k s server hs s' server' bs chunks"
  using r a batch_msgs_ext [OF agree_requests [OF a(1)]] agree_requests [OF a(1)] touched_trans [OF agree_touched [OF a(1)], of k s'] by (auto simp: sent_def)

lemma sent_batch:
  assumes r: "sent k s3 server3 [] s' server' bs chunks"
    and a: "calls s3 = calls s @ [(be_server_fd server, batch_msgs s b 0 c)]" "mset (in_hand server3) = mset (in_hand server)"
      "be_list_batch server3 = be_list_batch server @ [b]" "hs @ be_pending_task server = c @ be_pending_task server3" "be_batch_max_count server3 = be_batch_max_count server"
      "be_max_task_in_batch server3 = be_max_task_in_batch server" "be_server_fd server3 = be_server_fd server" "set (w_heap (sy_world s3)) \<subseteq> set (w_heap (sy_world s))"
      "\<And>d. d \<in> set (be_list_batch server) \<Longrightarrow> tasks_at server3 d = tasks_at server d" "tasks_at server3 b = c" "\<And>t. requests s3 t = requests s t"
      "c \<noteq> []" "int (length c) \<le> be_max_task_in_batch server" "touched k s s3"
  shows "sent k s server hs s' server' (b # bs) (c # chunks)"
  using r a batch_msgs_ext [OF a(11)] touched_trans [OF a(14), of s'] by (auto simp: sent_def)

lemma filling_length:
  assumes "serv_ok s k server hs" "be_list_batch_free server = b # fs"
  obtains batch where "be_batches server b = Some batch" "ba_fill_cnt batch = int (length hs)"
  using assms by (auto simp: serv_ok_def batches_ok_def filling_def batch_ok_def)

lemma pending_ok:
  "serv_ok s k server hs \<Longrightarrow> int (length hs) < be_max_task_in_batch server \<Longrightarrow> \<forall>t \<in> set (be_pending_task server). ready s t \<Longrightarrow>
   head_reqs s server hs \<Longrightarrow> \<exists>server' s' bs chunks. fill_loop server s (int (length (be_pending_task server))) = Some (server', s') \<and>
     serv_ok s' k server' [] \<and> sent k s server hs s' server' bs chunks"
proof (induction "be_pending_task server" arbitrary: server s hs)
  case Nil
  obtain go server1 s1 where go: "get_batch server s = (go, server1, s1)" by (metis prod_cases3)
  note g = get_batch_ok [OF Nil.prems(1,4) go]
  note before = sent_before [OF _ g(3-6,7,8-10,12,15)]
  have p1: "be_pending_task server1 = []" using g(7) Nil.hyps by simp
  have hs: "hs = []" if "be_list_batch_free server1 = []" using g(1) that by (simp add: serv_ok_def batches_ok_def)
  have c: "be_batch_free server1 = int (length (be_list_batch_free server1))" using g(1) by (simp add: serv_ok_def counts_ok_def)
  show ?case
  proof (cases "\<not> go \<or> be_list_batch_free server1 = []")
    case True
    then have none: "be_list_batch_free server1 = []" using g(13) by auto
    have l: "fill_loop server s (int (length (be_pending_task server))) = Some (server1, s1)"
      using go none c Nil.hyps by (subst fill_loop.simps) (simp add: send_rest_def)
    have "sent k s server hs s1 server1 [] []" unfolding hs [OF none] by (rule before) (simp add: sent_nothing p1)
    then show ?thesis using l g(1) hs [OF none] by metis
  next
    case False
    then obtain b fs where f: "be_list_batch_free server1 = b # fs" "go" by (cases "be_list_batch_free server1") auto
    obtain batch where b: "be_batches server1 b = Some batch" "ba_fill_cnt batch = int (length hs)" by (rule filling_length [OF g(1) f(1)])
    have l: "fill_loop server s (int (length (be_pending_task server))) = (if hs \<noteq> [] then batch_send server1 b s1 else Some (server1, s1))"
      using go f c b Nil.hyps by (subst fill_loop.simps) (simp add: send_rest_def)
    show ?thesis
    proof (cases "hs = []")
      case True
      have "sent k s server [] s1 server1 [] []" using before [where hs = "[]"] sent_nothing [of server1 s1] p1 by blast
      then show ?thesis using l g(1) True by auto
    next
      case False
      obtain server' s' where t: "batch_send server1 b s1 = Some (server', s')" "batch_send (move_to_run b server1) b s1 = Some (server', s')"
        "serv_ok s' k server' []" "agree s1 s'" "calls s' = calls s1 @ [(be_server_fd server1, batch_msgs s1 b 0 hs)]" "w_heap (sy_world s') = w_heap (sy_world s1)"
        "be_list_batch server' = be_list_batch server1 @ [b]" "be_list_batch_free server' = fs" "mset (in_hand server') = mset (in_hand server1)"
        "be_pending_task server' = be_pending_task server1" "be_batch_max_count server' = be_batch_max_count server1"
        "be_max_task_in_batch server' = be_max_task_in_batch server1" "be_server_fd server' = be_server_fd server1"
        "tasks_at server' = tasks_at server1" "tasks_at server1 b = hs" by (rule send_filled [OF g(1) f(1) g(2)])
      have "sent k s1 server1 hs s' server' [b] [hs]"
        by (rule sent_batch [OF sent_nothing t(5,9,7)]) (use t p1 False Nil.prems(2) g(9) agree_requests [OF t(4)] agree_touched [OF t(4)] in simp_all)
      then have "sent k s server hs s' server' [b] [hs]" by (rule before)
      moreover have "fill_loop server s (int (length (be_pending_task server))) = Some (server', s')" using l t(1) False by simp
      ultimately show ?thesis using t(3) by blast
    qed
  qed
next
  case (Cons t ts)
  note pend = Cons.hyps(2) [symmetric]
  obtain go server1 s1 where go: "get_batch server s = (go, server1, s1)" by (metis prod_cases3)
  note g = get_batch_ok [OF Cons.prems(1,4) go]
  note before = sent_before [OF _ g(3-6,7,8-10,12,15)]
  have hs: "hs = []" if "be_list_batch_free server1 = []" using g(1) that by (simp add: serv_ok_def batches_ok_def)
  have c: "be_batch_free server1 = int (length (be_list_batch_free server1))" using g(1) by (simp add: serv_ok_def counts_ok_def)
  show ?case
  proof (cases "\<not> go \<or> be_list_batch_free server1 = []")
    case True
    then have none: "be_list_batch_free server1 = []" using g(13) by auto
    have l: "fill_loop server s (int (length (be_pending_task server))) = Some (server1, s1)"
      using go none c pend by (subst fill_loop.simps) simp
    have full: "be_batch_max_count server \<le> be_batch_run server1 \<or> False \<in> set (w_heap (sy_world s))" using True none g(11,13,14) by auto
    have "sent k s server [] s1 server1 [] []" using g(4-11) c none full agree_requests [OF g(3)] agree_touched [OF g(3)] by (auto simp: sent_def g(15))
    then show ?thesis using l g(1) hs [OF none] by metis
  next
    case False
    then obtain b fs where f: "be_list_batch_free server1 = b # fs" "go" by (cases "be_list_batch_free server1") auto
    have pend1: "be_pending_task server1 = t # ts" using g(7) pend by simp
    have n1: "int (length hs) < be_max_task_in_batch server1" using Cons.prems(2) g(9) by simp
    have rd: "ready s1 t" using Cons.prems(3) pend agree_requests [OF g(3)] by (simp add: ready_def)
    let ?m = "be_max_task_in_batch server1" and ?cut = "server1\<lparr>be_pending_task := ts, be_pending_count := be_pending_count server1 - 1\<rparr>"
    obtain server2 s2 where h: "fill_task ?cut b t s1 = Some (server2, ?m \<le> int (length hs) + 1, s2)"
      "serv_ok s2 k server2 (hs @ [t])" "head_reqs s2 server2 (hs @ [t])" "mset (in_hand server2) = mset (in_hand server1)"
      "be_pending_task server2 = ts" "be_list_batch server2 = be_list_batch server1" "be_list_batch_free server2 = b # fs"
      "be_batch_max_count server2 = be_batch_max_count server1" "be_max_task_in_batch server2 = be_max_task_in_batch server1"
      "be_server_fd server2 = be_server_fd server1" "be_batch_run server2 = be_batch_run server1"
      "sy_world s2 = sy_world s1" "\<And>u. requests s2 u = requests s1 u" "\<And>c. c \<noteq> b \<Longrightarrow> tasks_at server2 c = tasks_at server1 c" "touched k s1 s2"
      using fill_ok [OF g(1) f(1) pend1 n1 rd g(2)] by blast
    have bn: "b \<notin> set (be_list_batch server1)" using g(1) f(1) by (auto simp: serv_ok_def counts_ok_def)
    have keep: "tasks_at server2 c = tasks_at server1 c" if "c \<in> set (be_list_batch server1)" for c
      by (rule h(14)) (use that bn in auto)
    have rdy: "\<forall>u \<in> set ts. ready s' u" if "\<And>u. requests s' u = requests s1 u" for s'
      using Cons.prems(3) pend that agree_requests [OF g(3)] by (simp add: ready_def)
    have step: "fill_loop server s (int (length (be_pending_task server))) =
      (if ?m \<le> int (length hs) + 1 then batch_send (move_to_run b server2) b s2 else Some (server2, s2)) \<bind> (\<lambda>(server, s). fill_loop server s (int (length ts)))"
      using go f c h(1) pend pend1 by (subst fill_loop.simps) simp
    show ?thesis
    proof (cases "?m \<le> int (length hs) + 1")
      case False
      obtain server' s' bs chunks where r: "fill_loop server2 s2 (int (length ts)) = Some (server', s')" "serv_ok s' k server' []"
        "sent k s2 server2 (hs @ [t]) s' server' bs chunks"
        using Cons.hyps(1) [OF h(5) [symmetric] h(2)] False h(3,9) rdy [OF h(13)] unfolding h(5) by auto
      have "sent k s1 server1 hs s' server' bs chunks"
        using r(3) h(4-6,8-13) keep pend1 batch_msgs_ext [OF h(13)] touched_trans [OF h(15), of s'] by (auto simp: sent_def calls_def)
      then have "sent k s server hs s' server' bs chunks" by (rule before)
      moreover have "fill_loop server s (int (length (be_pending_task server))) = Some (server', s')" using step False r(1) by simp
      ultimately show ?thesis using r(2) by blast
    next
      case True
      obtain server3 s3 where t: "batch_send server2 b s2 = Some (server3, s3)" "batch_send (move_to_run b server2) b s2 = Some (server3, s3)"
        "serv_ok s3 k server3 []" "agree s2 s3" "calls s3 = calls s2 @ [(be_server_fd server2, batch_msgs s2 b 0 (hs @ [t]))]" "w_heap (sy_world s3) = w_heap (sy_world s2)"
        "be_list_batch server3 = be_list_batch server2 @ [b]" "be_list_batch_free server3 = fs" "mset (in_hand server3) = mset (in_hand server2)"
        "be_pending_task server3 = be_pending_task server2" "be_batch_max_count server3 = be_batch_max_count server2"
        "be_max_task_in_batch server3 = be_max_task_in_batch server2" "be_server_fd server3 = be_server_fd server2"
        "tasks_at server3 = tasks_at server2" "tasks_at server2 b = hs @ [t]" by (rule send_filled [OF h(2,7,3)])
      have r3: "requests s3 u = requests s1 u" for u using agree_requests [OF t(4)] h(13) by simp
      have p3: "be_pending_task server3 = ts" using t(10) h(5) by simp
      have m3: "int (length ([] :: task_ref list)) < be_max_task_in_batch server3" using t(3) by (simp add: serv_ok_def counts_ok_def)
      have h3: "head_reqs s3 server3 []" using t(3) by (simp add: serv_ok_def head_reqs_empty)
      obtain server' s' bs chunks where r: "fill_loop server3 s3 (int (length ts)) = Some (server', s')" "serv_ok s' k server' []"
        "sent k s3 server3 [] s' server' bs chunks"
        using Cons.hyps(1) [OF p3 [symmetric] t(3) m3 _ h3] rdy [OF r3] unfolding p3 by auto
      have "sent k s1 server1 hs s' server' (b # bs) ((hs @ [t]) # chunks)"
        by (rule sent_batch [OF r(3)]) (use t h(4-6,8-13) keep pend1 n1 p3 r3 batch_msgs_ext [OF h(13)] touched_trans [OF h(15) agree_touched [OF t(4)]] in \<open>auto simp: calls_def\<close>)
      then have "sent k s server hs s' server' (b # bs) ((hs @ [t]) # chunks)" by (rule before)
      moreover have "fill_loop server s (int (length (be_pending_task server))) = Some (server', s')" using step True t(2) r(1) by simp
      ultimately show ?thesis using r(2) by blast
    qed
  qed
qed

section \<open>A turn of the thread\<close>

lemma requests_finish_all:
  assumes "\<forall>d \<in> set D. task_of s d \<noteq> None" "t \<notin> set D"
  shows "requests (fold finish_task D s) t = requests s t"
  using task_of_finish_all [OF assms] by (simp add: requests_def task_reqs_def)

lemma serv_ok_task: "serv_ok s k server hs \<Longrightarrow> t \<in> set (in_hand server) \<Longrightarrow> task_of s t \<noteq> None"
  by (auto simp: serv_ok_def task_of_def elim: tasks_ok_live)

lemma run_in_hand: "set (batch_tasks server (be_list_batch server)) \<subseteq> set (in_hand server)"
  by (auto simp: in_hand_def)

lemma polled_requests:
  assumes "serv_ok s k server []" "polled server s server1 s1 D n" "t \<in> set (be_pending_task server)"
  shows "requests s1 t = requests s t"
proof -
  have p: "agree (fold finish_task D s) s1" "set D \<subseteq> set (batch_tasks server (be_list_batch server))" using assms(2) by (auto simp: polled_def)
  have "\<forall>d \<in> set D. task_of s d \<noteq> None" using p(2) run_in_hand serv_ok_task [OF assms(1)] by blast
  moreover have "t \<notin> set D" using p(2) assms(1,3) by (auto simp: serv_ok_def tasks_ok_def in_hand_def)
  ultimately show ?thesis using requests_finish_all agree_requests [OF p(1)] by simp
qed

definition stop_timer :: "bat_serv \<Rightarrow> bat_serv" where
  "stop_timer server = (if be_pending_count server = 0 \<and> be_batch_run server = 0 \<and> be_session_count server = 0 then server\<lparr>be_timer := False\<rparr> else server)"

lemma stop_timer_simps [simp]:
  "be_pending_task (stop_timer server) = be_pending_task server" "be_pending_count (stop_timer server) = be_pending_count server"
  "be_max_task_in_batch (stop_timer server) = be_max_task_in_batch server" "be_list_batch (stop_timer server) = be_list_batch server"
  "be_server_fd (stop_timer server) = be_server_fd server" "be_batch_max_count (stop_timer server) = be_batch_max_count server"
  "be_list_batch_free (stop_timer server) = be_list_batch_free server" "be_batches (stop_timer server) = be_batches server"
  "serv_ok s k (stop_timer server) hs = serv_ok s k server hs" "in_hand (stop_timer server) = in_hand server"
  "tasks_at (stop_timer server) b = tasks_at server b" "head_reqs s (stop_timer server) hs = head_reqs s server hs"
  by (cases "be_list_batch_free server"; simp add: stop_timer_def tasks_at_def head_reqs_def)+

lemma sent_stop_timer: "sent k s (stop_timer server) hs s' server' bs chunks = sent k s server hs s' server' bs chunks"
  by (simp add: sent_def)

lemma process_ok:
  assumes ok: "serv_ok s k server []" and r: "\<forall>t \<in> set (be_pending_task server). ready s t"
  obtains server1 s1 D n server' s' bs chunks where "process_task server s = Some (server', s')" "polled server s server1 s1 D n"
    "serv_ok s1 k server1 []" "sent k s1 server1 [] s' server' bs chunks" "serv_ok s' k server' []" "poll_loop server s = Some (server1, s1)"
    "\<forall>t \<in> set (be_pending_task server'). ready s' t"
    "finished_tasks server s (be_list_batch server) (w_replies (sy_world s)) (sy_rets s) = (D, n)"
proof -
  obtain server1 s1 D n where p: "poll_loop server s = Some (server1, s1)" "serv_ok s1 k server1 []" "polled server s server1 s1 D n"
    "finished_tasks server s (be_list_batch server) (w_replies (sy_world s)) (sy_rets s) = (D, n)"
    using poll_loop_ok [OF ok] by blast
  have same: "be_pending_task server1 = be_pending_task server" using p(3) by (simp add: polled_def same_server_def)
  have c: "be_pending_count server1 = int (length (be_pending_task server1))" "1 \<le> be_max_task_in_batch server1"
    using p(2) by (simp_all add: serv_ok_def counts_ok_def)
  have r1: "\<forall>t \<in> set (be_pending_task server1). ready s1 t" using r polled_requests [OF ok p(3)] unfolding same by (simp add: ready_def)
  have h: "head_reqs s1 server1 []" using p(2) by (simp add: serv_ok_def head_reqs_empty)
  obtain server' s' bs chunks where q: "fill_loop (stop_timer server1) s1 (int (length (be_pending_task server1))) = Some (server', s')"
    "serv_ok s' k server' []" "sent k s1 server1 [] s' server' bs chunks"
    using pending_ok [of s1 k "stop_timer server1" "[]"] p(2) c(2) r1 h by (auto simp: sent_stop_timer)
  have t: "process_task server s = Some (server', s')" using p(1) q(1) c(1) by (simp add: process_task_def stop_timer_def Let_def)
  have "\<forall>t \<in> set (be_pending_task server'). ready s' t"
  proof
    fix t
    assume "t \<in> set (be_pending_task server')"
    moreover have "[] @ be_pending_task server1 = List.concat chunks @ be_pending_task server'" "requests s' t = requests s1 t"
      using q(3) unfolding sent_def by blast+
    ultimately have "t \<in> set (be_pending_task server1)" "requests s' t = requests s1 t" by simp_all
    then show "ready s' t" using r1 by (simp add: ready_def)
  qed
  then show thesis using that [OF t p(3,2) q(3,2) p(1) _ p(4)] by blast
qed

lemma servers_task [simp]: "task_of (s\<lparr>sy_servers := x\<rparr>) t = task_of s t"
  by (rule task_of_cong) simp

lemma servers_requests [simp]: "requests (s\<lparr>sy_servers := x\<rparr>) t = requests s t"
  by (simp add: requests_def task_reqs_def)

lemma servers_serv_ok [simp]: "serv_ok (s\<lparr>sy_servers := x\<rparr>) k server hs = serv_ok s k server hs"
proof -
  have "batch_ok (s\<lparr>sy_servers := x\<rparr>) m b ba = batch_ok s m b ba" for m b ba by (rule batch_ok_cong) simp
  moreover have "filling (s\<lparr>sy_servers := x\<rparr>) m b hs ba = filling s m b hs ba" for m b hs ba by (rule filling_cong) simp
  moreover have "tasks_ok (s\<lparr>sy_servers := x\<rparr>) k u = tasks_ok s k u" for u by (simp add: tasks_ok_def in_session_def session_ok_def)
  ultimately show ?thesis by (cases "be_list_batch_free server") (simp_all add: serv_ok_def batches_ok_def)
qed

lemma turn_ok:
  assumes k: "sy_servers s k = Some server" "be_timer server" and ok: "serv_ok s k server []" and r: "\<forall>t \<in> set (be_pending_task server). ready s t"
  shows "\<exists>s' server' D n bs chunks. mpp_server_thread k s = Some s' \<and> sy_servers s' k = Some server' \<and> serv_ok s' k server' [] \<and>
     (\<forall>t \<in> set (be_pending_task server'). ready s' t) \<and>
     (D, n) = finished_tasks server s (be_list_batch server) (w_replies (sy_world s)) (sy_rets s) \<and>
     distinct D \<and> set D \<subseteq> set (batch_tasks server (be_list_batch server)) \<and> mset (in_hand server') = mset (in_hand server) - mset D \<and>
     be_pending_task server = List.concat chunks @ be_pending_task server' \<and> length bs = length chunks \<and>
     (\<forall>c \<in> set chunks. c \<noteq> [] \<and> int (length c) \<le> be_max_task_in_batch server) \<and>
     calls s' = calls s @ List.map (\<lambda>b. (be_server_fd server, wait_at server b)) (take n (be_list_batch server)) @
       List.map (\<lambda>(b, c). (be_server_fd server, batch_msgs s b 0 c)) (zip bs chunks) \<and>
     (be_pending_task server' \<noteq> [] \<longrightarrow>
        be_batch_free server' = 0 \<and> (be_batch_max_count server \<le> be_batch_run server' \<or> False \<in> set (w_heap (sy_world s))))"
proof -
  obtain server1 s1 D n server' s2 bs chunks where p: "process_task server s = Some (server', s2)" "polled server s server1 s1 D n"
    "serv_ok s1 k server1 []" "sent k s1 server1 [] s2 server' bs chunks" "serv_ok s2 k server' []" "\<forall>t \<in> set (be_pending_task server'). ready s2 t"
    "finished_tasks server s (be_list_batch server) (w_replies (sy_world s)) (sy_rets s) = (D, n)"
    by (rule process_ok [OF ok r])
  have pl: "distinct D" "set D \<subseteq> set (batch_tasks server (be_list_batch server))" "mset (in_hand server1) = mset (in_hand server) - mset D"
    "calls s1 = calls s @ List.map (\<lambda>b. (be_server_fd server, wait_at server b)) (take n (be_list_batch server))" "w_heap (sy_world s1) = w_heap (sy_world s)"
    using p(2) by (auto simp: polled_def)
  have same: "be_pending_task server1 = be_pending_task server" "be_server_fd server1 = be_server_fd server"
    "be_max_task_in_batch server1 = be_max_task_in_batch server" "be_batch_max_count server1 = be_batch_max_count server"
    using p(2) by (simp_all add: polled_def same_server_def)
  have st: "length bs = length chunks" "\<forall>c \<in> set chunks. c \<noteq> [] \<and> int (length c) \<le> be_max_task_in_batch server"
    "be_pending_task server = List.concat chunks @ be_pending_task server'" "mset (in_hand server') = mset (in_hand server1)"
    "calls s2 = calls s1 @ List.map (\<lambda>(b, c). (be_server_fd server, batch_msgs s1 b 0 c)) (zip bs chunks)"
    "be_pending_task server' \<noteq> [] \<Longrightarrow> be_batch_free server' = 0 \<and> (be_batch_max_count server \<le> be_batch_run server' \<or> False \<in> set (w_heap (sy_world s)))"
    using p(4) same pl(5) unfolding sent_def by simp_all
  have "batch_msgs s1 b 0 c = batch_msgs s b 0 c" if "c \<in> set chunks" for b c
    by (rule batch_msgs_cong, rule polled_requests [OF ok p(2)]) (use st(3) that in auto)
  then have msgs: "List.map (\<lambda>(b, c). (be_server_fd server, batch_msgs s1 b 0 c)) (zip bs chunks) =
      List.map (\<lambda>(b, c). (be_server_fd server, batch_msgs s b 0 c)) (zip bs chunks)"
    by (auto dest: set_zip_rightD)
  let ?s = "s2\<lparr>sy_servers := (sy_servers s2)(k \<mapsto> server')\<rparr>"
  have t: "mpp_server_thread k s = Some ?s" using k p(1) by (simp add: mpp_server_thread_def)
  have ok': "serv_ok ?s k server' []" "\<forall>t \<in> set (be_pending_task server'). ready ?s t"
    using p(5,6) by (simp_all add: ready_def)
  have c: "calls ?s = calls s @ List.map (\<lambda>b. (be_server_fd server, wait_at server b)) (take n (be_list_batch server)) @
       List.map (\<lambda>(b, c). (be_server_fd server, batch_msgs s b 0 c)) (zip bs chunks)"
    using st(5) pl(4) msgs by (simp add: calls_def)
  have "sy_servers ?s k = Some server'" "mset (in_hand server') = mset (in_hand server) - mset D" using st(4) pl(3) by simp_all
  then show ?thesis using t ok' pl(1,2) st(3,1,2,6) c p(7) [symmetric] by (intro exI [of _ ?s] exI [of _ server'] exI [of _ D] exI [of _ n] exI [of _ bs] exI [of _ chunks]) blast
qed

section \<open>Properties\<close>

text \<open>
  C4: From a well-formed server whose timer runs, when every pending task has its requests in memory and fewer
  of them than a batch has room for, a turn of the server's thread never gets stuck, whatever the kernel answers. The tasks \<open>D\<close> that it takes
  out of the running batches are the finished ones and no others: batches are polled from the oldest on, up to one whose call
  fails or that keeps a task, and of a batch that is polled those tasks go whose slot has the result 0 after the
  call (\<open>finished_tasks\<close>). It sends the pending tasks in the order in which they came: in
  batches that are not empty and not too large, each with one call that has, for every task in its slot, the
  command of the slot and then the requests of the task. Tasks stay pending only when there
  are as many batches as the server may have, or no memory for one more; none is lost or doubled.
\<close>

theorem turn_sends_pending:
  assumes "sy_servers s k = Some server" "be_timer server" "serv_ok s k server []" "\<forall>t \<in> set (be_pending_task server). ready s t"
  shows "\<exists>s' server' D n bs chunks. mpp_server_thread k s = Some s' \<and> sy_servers s' k = Some server' \<and> serv_ok s' k server' [] \<and>
     (\<forall>t \<in> set (be_pending_task server'). ready s' t) \<and>
     (D, n) = finished_tasks server s (be_list_batch server) (w_replies (sy_world s)) (sy_rets s) \<and>
     distinct D \<and> set D \<subseteq> set (batch_tasks server (be_list_batch server)) \<and> mset (in_hand server') = mset (in_hand server) - mset D \<and>
     be_pending_task server = List.concat chunks @ be_pending_task server' \<and> length bs = length chunks \<and>
     (\<forall>c \<in> set chunks. c \<noteq> [] \<and> int (length c) \<le> be_max_task_in_batch server) \<and>
     calls s' = calls s @ List.map (\<lambda>b. (be_server_fd server, wait_at server b)) (take n (be_list_batch server)) @
       List.map (\<lambda>(b, c). (be_server_fd server, batch_msgs s b 0 c)) (zip bs chunks) \<and>
     (be_pending_task server' \<noteq> [] \<longrightarrow>
        be_batch_free server' = 0 \<and> (be_batch_max_count server \<le> be_batch_run server' \<or> False \<in> set (w_heap (sy_world s))))"
  by (rule turn_ok [OF assms])

text \<open>A server with one session, whose first task is pending.\<close>

definition demo_server :: dev_server where
  "demo_server = \<lparr>sy_server_error = None, sy_server_name = Some ''/dev/mpp_service'', sy_inited = True, sy_enable = True, sy_max_task_in_batch = 8,
     sy_servers = [16 \<mapsto> (new_bat_serv 5 8)\<lparr>be_timer := True, be_session_list := [0], be_session_count := 1, be_batch_max_count := 1,
       be_pending_task := [(0, 0)], be_pending_count := 1\<rparr>],
     sy_sessions = [0 \<mapsto> (new_session 7 16 3)\<lparr>ss_list_wait := [0], ss_list_done := [1, 2, 3], ss_task_wait := 1,
       ss_tasks := new_task\<lparr>tk_req := 9, tk_req_cnt := 1\<rparr> # replicate 3 new_task\<rparr>], sy_next_block = 1,
     sy_ctxs = [7 \<mapsto> \<lparr>dc_client_type = 16, dc_client = 3, dc_server = 5, dc_serv_ctx = Some 0, dc_batch_io = True, dc_dev_cb = False,
       dc_reqs = 9, dc_req_cnt = 0\<rparr>], sy_bufs = [9 \<mapsto> [poll_req]],
     sy_world = \<lparr>w_heap = [], w_replies = [], w_opens = [], w_log = [], w_mem = Map.empty\<rparr>, sy_rets = [], sy_callbacks = []\<rparr>"

lemma demo_server_ok:
  "serv_ok demo_server 16 (the (sy_servers demo_server 16)) []" "\<forall>t \<in> set (be_pending_task (the (sy_servers demo_server 16))). ready demo_server t"
proof -
  have "{0 :: nat, 1, 2, 3} = {..<4}" by (auto simp: less_Suc_eq numeral_eq_Suc)
  then have "tasks_ok demo_server 16 [(0, 0)]"
    by (auto simp: tasks_ok_def demo_server_def in_session_def session_ok_def tasks_in_session_def new_session_def MAX_SESSION_TASK_def)
  then show "serv_ok demo_server 16 (the (sy_servers demo_server 16)) []"
    by (simp add: serv_ok_def counts_ok_def batches_ok_def in_hand_def demo_server_def new_bat_serv_def)
  show "\<forall>t \<in> set (be_pending_task (the (sy_servers demo_server 16))). ready demo_server t"
    by (simp add: demo_server_def ready_def requests_def task_of_def get_task_def elem_def task_reqs_def new_session_def MAX_REQ_NUM_def)
qed

lemma turn_sends_pending_witness:
  "\<exists>s' server'. mpp_server_thread 16 demo_server = Some s' \<and> sy_servers s' 16 = Some server' \<and> serv_ok s' 16 server' []"
proof -
  have k: "sy_servers demo_server 16 = Some (the (sy_servers demo_server 16))" "be_timer (the (sy_servers demo_server 16))"
    by (simp_all add: demo_server_def)
  show ?thesis using turn_sends_pending [OF k demo_server_ok] by blast
qed

end
