(* ===== verification/Batch_Clients.thy ===== *)
theory Batch_Clients
  imports Batch_Jobs
begin

text \<open>
  The clients of the server of batches: attaching and detaching, sending and waiting, in any order with
  the turns of the threads of all servers. The clients keep to the protocol: they send only when they have
  a free task and take a result only when all of theirs are there, as the asserts of the code expect.
\<close>

section \<open>What holds of all servers\<close>

definition clients_ok :: "dev_server \<Rightarrow> bool" where
  "clients_ok s \<longleftrightarrow> (\<forall>c ctx i. sy_ctxs s c = Some ctx \<longrightarrow> dc_serv_ctx ctx = Some i \<longrightarrow>
     (\<exists>ss. sy_sessions s i = Some ss \<and> ss_ctx ss = c \<and> ss_server ss = Some (dc_client_type ctx)))"

definition sessions_ok :: "dev_server \<Rightarrow> bool" where
  "sessions_ok s \<longleftrightarrow> (\<forall>i ss. sy_sessions s i = Some ss \<longrightarrow> i < sy_next_block s \<and> (\<exists>k. ss_server ss = Some k \<and> sy_servers s k \<noteq> None))"

definition server_ok :: "dev_server \<Rightarrow> int \<Rightarrow> bat_serv \<Rightarrow> bool" where
  "server_ok s k server \<longleftrightarrow> serv_ok s k server [] \<and> (\<forall>t \<in> set (be_pending_task server). ready s t) \<and> 0 \<le> k \<and> k < VPU_CLIENT_BUTT"

definition all_ok :: "dev_server \<Rightarrow> bool" where
  "all_ok s \<longleftrightarrow> clients_ok s \<and> sessions_ok s \<and> sy_inited s \<and> 1 \<le> sy_max_task_in_batch s \<and>
     (\<forall>k server. sy_servers s k = Some server \<longrightarrow> server_ok s k server)"

lemma task_of_session: "sy_sessions s' (fst t) = sy_sessions s (fst t) \<Longrightarrow> task_of s' t = task_of s t"
  by (simp add: task_of_def get_task_def)

lemma serv_ok_session:
  assumes "serv_ok s k server hs" "t \<in> set (in_hand server)"
  obtains ss where "sy_sessions s (fst t) = Some ss" "ss_server ss = Some k" "snd t \<in> set (ss_list_wait ss)"
  using assms by (auto simp: serv_ok_def tasks_ok_def in_session_def split: option.splits)

text \<open>A server whose sessions stay as they are.\<close>

definition same_sessions :: "int \<Rightarrow> dev_server \<Rightarrow> dev_server \<Rightarrow> bool" where
  "same_sessions k s s' \<longleftrightarrow> (\<forall>i ss. ss_server ss = Some k \<longrightarrow> (sy_sessions s' i = Some ss \<longleftrightarrow> sy_sessions s i = Some ss)) \<and>
     (\<forall>c. sy_ctxs s c \<noteq> None \<longrightarrow> sy_ctxs s' c \<noteq> None)"

lemma same_sessions_task:
  assumes "same_sessions k s s'" "serv_ok s k server hs" "t \<in> set (in_hand server)"
  shows "task_of s' t = task_of s t"
proof -
  obtain ss where "sy_sessions s (fst t) = Some ss" "ss_server ss = Some k" by (rule serv_ok_session [OF assms(2,3)])
  then have "sy_sessions s' (fst t) = sy_sessions s (fst t)" using assms(1) by (simp add: same_sessions_def)
  then show ?thesis by (rule task_of_session)
qed

lemma batches_ok_tasks:
  assumes "batches_ok s server []" "\<And>t. t \<in> set (in_hand server) \<Longrightarrow> task_of s' t = task_of s t"
  shows "batches_ok s' server []"
proof -
  have "batch_ok s' m b ba = batch_ok s m b ba" if "be_batches server b = Some ba" "b \<in> set (be_list_batch server)" for b ba m
  proof (rule batch_ok_cong)
    fix t
    assume "t \<in> set (ba_tasks ba)"
    then have "t \<in> set (in_hand server)" using that batch_tasks_mem [of b "be_list_batch server" server] by (auto simp: in_hand_def tasks_at_def)
    then show "task_of s' t = task_of s t" by (rule assms(2))
  qed
  moreover have "filling s' m b [] ba = filling s m b [] ba" for m b ba by (rule filling_cong) simp
  ultimately show ?thesis using assms(1) unfolding batches_ok_idle by metis
qed

lemma serv_ok_same:
  assumes "same_sessions k s s'" "serv_ok s k server []"
  shows "serv_ok s' k server []"
proof -
  have parts: "counts_ok server" "batches_ok s server []" "tasks_ok s k (in_hand server)" using assms(2) by (auto simp: serv_ok_def)
  have "in_session s' k t" if t: "t \<in> set (in_hand server)" for t
  proof -
    obtain ss where "sy_sessions s (fst t) = Some ss" "ss_server ss = Some k" "snd t \<in> set (ss_list_wait ss)" by (rule serv_ok_session [OF assms(2) t])
    moreover from this have "sy_sessions s' (fst t) = Some ss" using assms(1) by (simp add: same_sessions_def)
    ultimately show ?thesis by (simp add: in_session_def)
  qed
  moreover have "session_ok s' ss (tasks_in_session i (in_hand server))" if "sy_sessions s' i = Some ss" "ss_server ss = Some k" for i ss
  proof -
    have "session_ok s ss (tasks_in_session i (in_hand server))" using that parts(3) assms(1) by (simp add: tasks_ok_def same_sessions_def)
    then show ?thesis using assms(1) by (simp add: session_ok_def same_sessions_def)
  qed
  ultimately have "tasks_ok s' k (in_hand server)" using parts(3) by (simp add: tasks_ok_def)
  then show ?thesis using parts(1) batches_ok_tasks [OF parts(2), of s'] same_sessions_task [OF assms] by (simp add: serv_ok_def)
qed

lemma server_ok_same:
  assumes "same_sessions k s s'" "server_ok s k server" "sy_bufs s' = sy_bufs s"
  shows "server_ok s' k server"
proof -
  have "requests s' t = requests s t" if "t \<in> set (be_pending_task server)" for t
    using same_sessions_task [OF assms(1), of server "[]" t] assms(2,3) that by (simp add: server_ok_def requests_def task_reqs_def in_hand_def)
  then show ?thesis using assms(2) serv_ok_same [OF assms(1)] by (simp add: server_ok_def ready_def)
qed

lemma touched_same: "touched k s s' \<Longrightarrow> k' \<noteq> k \<Longrightarrow> same_sessions k' s s'"
proof -
  assume t: "touched k s s'" "k' \<noteq> k"
  have "sy_sessions s' i = Some ss \<longleftrightarrow> sy_sessions s i = Some ss" if "ss_server ss = Some k'" for i ss
    using t that by (cases "sy_sessions s i"; cases "sy_sessions s' i") (auto simp: touched_def same_session_def dest!: spec [of _ i] split: if_splits)
  then show ?thesis using t(1) by (simp add: same_sessions_def touched_def)
qed

section \<open>Turns of the threads\<close>

lemma process_touched:
  assumes "serv_ok s k server []" "polled server s server1 s1 D n" "sent k s1 server1 [] s' server' bs chunks"
  shows "touched k s s'"
proof -
  have D: "agree (fold finish_task D s) s1" "set D \<subseteq> set (in_hand server)" "distinct D"
    using assms(2) run_in_hand [of server] by (auto simp: polled_def)
  have "touched k s (fold finish_task D s)" by (rule touched_finish_all [OF _ D(2,3)]) (use assms(1) in \<open>simp add: serv_ok_def\<close>)
  then show ?thesis using touched_trans agree_touched [OF D(1)] assms(3) unfolding sent_def by metis
qed

text \<open>The sessions after turns of the threads: the lists of their tasks are the same, and results come in.\<close>

definition waits_on :: "session \<Rightarrow> session \<Rightarrow> bool" where
  "waits_on ss ss' \<longleftrightarrow> ss_server ss' = ss_server ss \<and> ss_list_wait ss' = ss_list_wait ss \<and> ss_list_done ss' = ss_list_done ss \<and>
     ss_task_wait ss' = ss_task_wait ss \<and> ss_task_done ss \<le> ss_task_done ss' \<and>
     (ss_signal ss' \<longrightarrow> ss_signal ss \<or> ss_task_done ss < ss_task_done ss')"

definition turned :: "dev_server \<Rightarrow> dev_server \<Rightarrow> bool" where
  "turned s s' \<longleftrightarrow> sy_ctxs s' = sy_ctxs s \<and> dom (sy_servers s') = dom (sy_servers s) \<and>
     (\<forall>i ss. sy_sessions s i = Some ss \<longrightarrow> (\<exists>ss'. sy_sessions s' i = Some ss' \<and> waits_on ss ss'))"

lemma waits_on_trans: "waits_on a b \<Longrightarrow> waits_on b c \<Longrightarrow> waits_on a c"
  by (auto simp: waits_on_def)

lemma turned_refl [simp]: "turned s s"
  by (simp add: turned_def waits_on_def)

lemma turned_trans: "turned a b \<Longrightarrow> turned b c \<Longrightarrow> turned a c"
  unfolding turned_def by (metis waits_on_trans)

lemma same_session_waits: "same_session k ss ss' \<Longrightarrow> waits_on ss ss'"
  by (auto simp: same_session_def waits_on_def split: if_splits)

lemma touched_turned:
  assumes "touched k s s2" "sy_ctxs s' = sy_ctxs s2" "sy_sessions s' = sy_sessions s2" "dom (sy_servers s') = dom (sy_servers s)"
  shows "turned s s'"
proof -
  have "\<exists>ss'. sy_sessions s2 i = Some ss' \<and> waits_on ss ss'" if "sy_sessions s i = Some ss" for i ss
    using assms(1) that same_session_waits by (cases "sy_sessions s2 i") (auto simp: touched_def dest!: spec [of _ i])
  then show ?thesis using assms by (simp add: turned_def touched_def)
qed

lemma all_ok_turn:
  assumes ok: "all_ok s" and k: "sy_servers s k = Some server"
  shows "\<exists>s'. mpp_server_thread k s = Some s' \<and> all_ok s' \<and> turned s s'"
proof (cases "be_timer server")
  case False
  then show ?thesis using assms by (simp add: mpp_server_thread_def)
next
  case True
  have sv: "serv_ok s k server []" "\<forall>t \<in> set (be_pending_task server). ready s t" "0 \<le> k" "k < VPU_CLIENT_BUTT"
    using ok k by (auto simp: all_ok_def server_ok_def)
  obtain server1 s1 D n server' s2 bs chunks where p: "process_task server s = Some (server', s2)" "polled server s server1 s1 D n"
    "serv_ok s1 k server1 []" "sent k s1 server1 [] s2 server' bs chunks" "serv_ok s2 k server' []" "\<forall>t \<in> set (be_pending_task server'). ready s2 t"
    by (rule process_ok [OF sv(1,2)])
  have t: "touched k s s2" by (rule process_touched [OF sv(1) p(2,4)])
  let ?s = "s2\<lparr>sy_servers := (sy_servers s2)(k \<mapsto> server')\<rparr>"
  have fields: "sy_ctxs s2 = sy_ctxs s" "sy_bufs s2 = sy_bufs s" "sy_servers s2 = sy_servers s" "sy_inited s2 = sy_inited s"
    "sy_max_task_in_batch s2 = sy_max_task_in_batch s" "sy_next_block s2 = sy_next_block s" using t by (simp_all add: touched_def)
  have other: "server_ok ?s k' sv" if "k' \<noteq> k" "sy_servers s k' = Some sv" for k' sv
  proof -
    have "server_ok s2 k' sv" by (rule server_ok_same [OF touched_same [OF t that(1)] _ fields(2)]) (use ok that in \<open>simp add: all_ok_def\<close>)
    then show ?thesis by (simp add: server_ok_def ready_def)
  qed
  have old: "\<exists>ss'. sy_sessions s2 i = Some ss' \<and> ss_ctx ss' = ss_ctx ss \<and> ss_server ss' = ss_server ss" if "sy_sessions s i = Some ss" for i ss
    using t that by (cases "sy_sessions s2 i") (auto simp: touched_def same_session_def dest!: spec [of _ i] split: if_splits)
  have new: "\<exists>ss. sy_sessions s i = Some ss \<and> ss_server ss' = ss_server ss" if "sy_sessions s2 i = Some ss'" for i ss'
    using t that by (cases "sy_sessions s i") (auto simp: touched_def same_session_def dest!: spec [of _ i] split: if_splits)
  have "clients_ok ?s" using ok old by (fastforce simp: all_ok_def clients_ok_def fields)
  moreover have "sessions_ok ?s" using ok new by (fastforce simp: all_ok_def sessions_ok_def fields)
  moreover have "server_ok ?s k server'" using p(5,6) sv(3,4) by (simp add: server_ok_def ready_def)
  ultimately have "all_ok ?s" using ok other by (auto simp: all_ok_def fields)
  moreover have "mpp_server_thread k s = Some ?s" using k True p(1) by (simp add: mpp_server_thread_def)
  moreover have "turned s ?s" by (rule touched_turned [OF t]) (use k fields(3) in auto)
  ultimately show ?thesis by blast
qed

text \<open>Turns of the threads of several servers.\<close>

fun turns :: "int list \<Rightarrow> dev_server \<Rightarrow> dev_server option" where
  "turns [] s = Some s"
| "turns (k # ks) s = do { s \<leftarrow> mpp_server_thread k s; turns ks s }"

lemma all_ok_turns:
  "all_ok s \<Longrightarrow> set ks \<subseteq> dom (sy_servers s) \<Longrightarrow> \<exists>s'. turns ks s = Some s' \<and> all_ok s' \<and> turned s s'"
proof (induction ks arbitrary: s)
  case (Cons k ks)
  obtain server where "sy_servers s k = Some server" using Cons.prems(2) by auto
  then obtain s1 where s1: "mpp_server_thread k s = Some s1" "all_ok s1" "turned s s1" using all_ok_turn [OF Cons.prems(1)] by blast
  then have "set ks \<subseteq> dom (sy_servers s1)" using Cons.prems(2) by (simp add: turned_def)
  from Cons.IH [OF s1(2) this] show ?case using s1 turned_trans by fastforce
qed simp

section \<open>Sending\<close>

lemma clients_okD:
  "clients_ok s \<Longrightarrow> sy_ctxs s c = Some ctx \<Longrightarrow> dc_serv_ctx ctx = Some i \<Longrightarrow>
   \<exists>ss. sy_sessions s i = Some ss \<and> ss_ctx ss = c \<and> ss_server ss = Some (dc_client_type ctx)"
  unfolding clients_ok_def by blast

lemma client_session:
  assumes "all_ok s" "sy_ctxs s c = Some ctx" "dc_serv_ctx ctx = Some i"
  obtains ss server where "sy_sessions s i = Some ss" "ss_ctx ss = c" "ss_server ss = Some (dc_client_type ctx)"
    "sy_servers s (dc_client_type ctx) = Some server" "server_ok s (dc_client_type ctx) server"
    "session_ok s ss (tasks_in_session i (in_hand server))"
proof -
  obtain ss where ss: "sy_sessions s i = Some ss" "ss_ctx ss = c" "ss_server ss = Some (dc_client_type ctx)"
    using assms clients_okD unfolding all_ok_def by blast
  then obtain server where sv: "sy_servers s (dc_client_type ctx) = Some server" using assms(1) by (fastforce simp: all_ok_def sessions_ok_def)
  then have ok: "server_ok s (dc_client_type ctx) server" using assms(1) by (simp add: all_ok_def)
  then have "session_ok s ss (tasks_in_session i (in_hand server))" using ss by (auto simp: server_ok_def serv_ok_def tasks_ok_def)
  then show thesis using that ss sv ok by blast
qed

text \<open>One session of a server changes, and the server with it; the other servers are not concerned.\<close>

lemma all_ok_update:
  assumes ok: "all_ok s" and i: "sy_sessions s i = Some ss" "ss_server ss = Some k" "ss_server ss' = Some k" "ss_ctx ss' = ss_ctx ss"
    and sv: "server_ok (set_session i ss' s) k server'"
  shows "all_ok (upd_server k server' (set_session i ss' s))"
proof -
  let ?s = "set_session i ss' s"
  let ?u = "upd_server k server' ?s"
  have fields: "sy_ctxs ?u = sy_ctxs s" "sy_bufs ?s = sy_bufs s" "sy_servers ?u = (sy_servers s)(k \<mapsto> server')" "sy_inited ?u = sy_inited s"
    "sy_max_task_in_batch ?u = sy_max_task_in_batch s" "sy_next_block ?u = sy_next_block s" "sy_sessions ?u = (sy_sessions s)(i \<mapsto> ss')"
    by (simp_all add: upd_server_def set_session_def)
  have other: "server_ok ?u k' sv'" if "k' \<noteq> k" "sy_servers s k' = Some sv'" for k' sv'
  proof -
    have "same_sessions k' s ?s" using i that(1) by (auto simp: same_sessions_def set_session_def)
    then have "server_ok ?s k' sv'" by (rule server_ok_same) (use ok that(2) fields(2) in \<open>simp_all add: all_ok_def\<close>)
    then show ?thesis by (simp add: server_ok_def ready_def upd_server_def)
  qed
  have "clients_ok ?u"
    unfolding clients_ok_def
  proof (intro allI impI)
    fix c ctx l
    assume "sy_ctxs ?u c = Some ctx" "dc_serv_ctx ctx = Some l"
    then obtain x where "sy_sessions s l = Some x" "ss_ctx x = c" "ss_server x = Some (dc_client_type ctx)"
      using ok clients_okD unfolding all_ok_def fields by blast
    then show "\<exists>x. sy_sessions ?u l = Some x \<and> ss_ctx x = c \<and> ss_server x = Some (dc_client_type ctx)"
      using i by (cases "l = i") (simp_all add: fields)
  qed
  moreover have "sessions_ok ?u"
    unfolding sessions_ok_def
  proof (intro allI impI)
    fix l x
    assume x: "sy_sessions ?u l = Some x"
    have "l < sy_next_block s \<and> (\<exists>k'. ss_server x = Some k' \<and> (sy_servers s k' \<noteq> None \<or> k' = k))"
    proof (cases "l = i")
      case True
      then have "l < sy_next_block s" using ok i(1) unfolding sessions_ok_def all_ok_def by blast
      then show ?thesis using True x i(3) by (simp add: fields)
    next
      case False
      then have "sy_sessions s l = Some x" using x by (simp add: fields)
      then show ?thesis using ok unfolding sessions_ok_def all_ok_def by blast
    qed
    then show "l < sy_next_block ?u \<and> (\<exists>k'. ss_server x = Some k' \<and> sy_servers ?u k' \<noteq> None)" by (auto simp: fields)
  qed
  moreover have "server_ok ?u k server'" using sv by (simp add: server_ok_def ready_def upd_server_def)
  ultimately show ?thesis using ok other unfolding all_ok_def fields by (auto split: if_splits)
qed

lemma send_task_ok:
  assumes ok: "all_ok s" and c: "sy_ctxs s c = Some ctx" "dc_serv_ctx ctx = Some i" "sy_sessions s i = Some ss" "ss_list_done ss = j # rest"
    and b: "sy_bufs s (dc_reqs ctx) = Some reqs" "dc_req_cnt ctx \<le> length reqs" "dc_req_cnt ctx < MAX_REQ_NUM"
  defines "k \<equiv> dc_client_type ctx"
  obtains s' server server' where "send_task c s = Some (MPP_OK, s')" "all_ok s'" "sy_servers s k = Some server" "sy_servers s' k = Some server'"
    "be_pending_task server' = be_pending_task server @ [(i, j)]" "be_timer server'" "be_list_batch server' = be_list_batch server"
    "be_batches server' = be_batches server" "be_server_fd server' = be_server_fd server" "be_batch_max_count server' = be_batch_max_count server"
    "requests s' (i, j) = Some (take (dc_req_cnt ctx) reqs)" "sy_world s' = sy_world s" "sy_ctxs s' = sy_ctxs s"
    "sy_sessions s' i = Some (set_task j ((ss_tasks ss ! j)\<lparr>tk_req := dc_reqs ctx, tk_req_cnt := dc_req_cnt ctx, tk_task_id := sint (be_task_id server)\<rparr>)
       (ss\<lparr>ss_list_done := rest, ss_list_wait := ss_list_wait ss @ [j], ss_task_wait := ss_task_wait ss + 1\<rparr>))"
proof -
  obtain server where sv: "ss_server ss = Some k" "sy_servers s k = Some server" "server_ok s k server" "session_ok s ss (tasks_in_session i (in_hand server))"
    using client_session [OF ok c(1,2)] c(3) unfolding k_def by (metis option.inject)
  have parts: "counts_ok server" "batches_ok s server []" "tasks_ok s k (in_hand server)" "\<forall>t \<in> set (be_pending_task server). ready s t"
    using sv(3) by (auto simp: server_ok_def serv_ok_def)
  have j: "j < MAX_SESSION_TASK" "j \<notin> set (ss_list_wait ss)" "j \<notin> set rest" "length (ss_tasks ss) = MAX_SESSION_TASK"
    using sv(4) c(4) by (auto simp: session_ok_def)
  have new: "(i, j) \<notin> set (in_hand server)" using parts(3) j(2) c(3) by (auto simp: tasks_ok_def in_session_def)
  then have new_p: "(i, j) \<notin> set (be_pending_task server)" by (simp add: in_hand_def)
  define tk where "tk = (ss_tasks ss ! j)\<lparr>tk_req := dc_reqs ctx, tk_req_cnt := dc_req_cnt ctx, tk_task_id := sint (be_task_id server)\<rparr>"
  define ss' where "ss' = set_task j tk (ss\<lparr>ss_list_done := rest, ss_list_wait := ss_list_wait ss @ [j], ss_task_wait := ss_task_wait ss + 1\<rparr>)"
  define server' where "server' = server\<lparr>be_task_id := be_task_id server + 1, be_pending_task := be_pending_task server @ [(i, j)],
    be_pending_count := be_pending_count server + 1, be_timer := True\<rparr>"
  let ?s = "set_session i ss' s"
  have e: "elem (ss_tasks ss) (int j) = Some (ss_tasks ss ! j)" using j by (simp add: elem_def)
  have send: "send_task c s = Some (MPP_OK, upd_server k server' ?s)"
    using c sv(1,2) e j(2,3) new_p by (simp add: send_task_def tk_def ss'_def server'_def remove1_idem Let_def)
  have g: "get_task s (i, j) = Some (ss, ss_tasks ss ! j)" using c(3) j by (simp add: get_task_Some)
  have task: "task_of ?s t = (if t = (i, j) then Some tk else task_of s t)" for t
    using task_of_update [OF g, of ss' tk t] by (simp add: ss'_def set_task_def)
  have bufs: "sy_bufs ?s = sy_bufs s" by (simp add: set_session_def)
  have rq: "requests ?s (i, j) = Some (take (dc_req_cnt ctx) reqs)" using b by (simp add: requests_def task tk_def task_reqs_def bufs)
  have rq_old: "requests ?s t = requests s t" if "t \<noteq> (i, j)" for t using that by (simp add: requests_def task task_reqs_def bufs)
  have at: "tasks_at server' = tasks_at server" by (rule ext) (simp add: tasks_at_def server'_def)
  then have bt: "batch_tasks server' bs = batch_tasks server bs" for bs by (simp add: batch_tasks_def)
  have lists: "be_list_batch server' = be_list_batch server" "be_list_batch_free server' = be_list_batch_free server" "be_batches server' = be_batches server"
    "be_pending_task server' = be_pending_task server @ [(i, j)]" "be_max_task_in_batch server' = be_max_task_in_batch server" by (simp_all add: server'_def)
  have m: "mset (in_hand server') = mset ((i, j) # in_hand server)" by (simp add: in_hand_mset lists bt)
  have "tasks_ok ?s k ((i, j) # in_hand server)"
  proof -
    have "in_session ?s k t" if "t \<in> set ((i, j) # in_hand server)" for t
      using that parts(3) sv(1) c(3) by (auto simp: tasks_ok_def in_session_def set_session_def ss'_def set_task_def split: option.splits if_splits)
    moreover have "session_ok ?s x (tasks_in_session l ((i, j) # in_hand server))" if "sy_sessions ?s l = Some x" "ss_server x = Some k" for l x
    proof (cases "l = i")
      case True
      then have "x = ss'" using that by (simp add: set_session_def)
      moreover have "tasks_in_session l ((i, j) # in_hand server) = Suc (tasks_in_session i (in_hand server))" using True by (simp add: tasks_in_session_def)
      ultimately show ?thesis using sv(4) c(4) by (auto simp: session_ok_def ss'_def set_task_def set_session_def)
    next
      case False
      then show ?thesis using that parts(3) by (simp add: set_session_def tasks_ok_def tasks_in_session_def session_ok_def)
    qed
    ultimately show ?thesis using new parts(3) by (auto simp: tasks_ok_def)
  qed
  then have tk_ok: "tasks_ok ?s k (in_hand server')" using tasks_ok_perm m by metis
  have "batches_ok ?s server []" by (rule batches_ok_tasks [OF parts(2)]) (use new task in auto)
  then have "batches_ok ?s server' []" unfolding batches_ok_idle lists .
  moreover have "counts_ok server'" using parts(1) by (simp add: counts_ok_def server'_def)
  moreover have "ready ?s t" if "t \<in> set (be_pending_task server)" for t
    using that parts(4) rq_old [of t] new_p by (cases "t = (i, j)") (simp_all add: ready_def)
  moreover have "ready ?s (i, j)" using rq b(2,3) by (simp add: ready_def)
  ultimately have "server_ok ?s k server'" using tk_ok sv(3) by (simp add: server_ok_def serv_ok_def lists)
  then have ok': "all_ok (upd_server k server' ?s)"
    by (intro all_ok_update [OF ok c(3) sv(1)]) (simp_all add: ss'_def set_task_def sv(1))
  show thesis
    by (rule that [of _ server server', OF send ok' sv(2)]) (use rq in \<open>simp_all add: upd_server_def set_session_def server'_def ss'_def tk_def\<close>)
qed

section \<open>Waiting, attaching and detaching\<close>

lemma no_tasks: "tasks_in_session i u = 0 \<Longrightarrow> t \<in> set u \<Longrightarrow> fst t \<noteq> i"
  by (auto simp: tasks_in_session_def filter_empty_conv)

text \<open>A session without tasks in hand changes, comes or goes.\<close>

lemma server_ok_session:
  assumes ok: "server_ok s k server" and s': "sy_sessions s' = (sy_sessions s)(i := x)" "sy_bufs s' = sy_bufs s" "\<And>c. sy_ctxs s c \<noteq> None \<Longrightarrow> sy_ctxs s' c \<noteq> None"
    and x: "\<And>ss'. x = Some ss' \<Longrightarrow> ss_server ss' = Some k \<Longrightarrow> session_ok s' ss' 0" and none: "tasks_in_session i (in_hand server) = 0"
  shows "server_ok s' k server"
proof -
  have parts: "counts_ok server" "batches_ok s server []" "tasks_ok s k (in_hand server)" "\<forall>t \<in> set (be_pending_task server). ready s t"
    using ok by (auto simp: server_ok_def serv_ok_def)
  have task: "task_of s' t = task_of s t" if "t \<in> set (in_hand server)" for t
    using no_tasks [OF none that] by (intro task_of_session) (simp add: s'(1))
  have "in_session s' k t" if "t \<in> set (in_hand server)" for t
    using parts(3) that no_tasks [OF none that] by (simp add: tasks_ok_def in_session_def s'(1))
  moreover have "session_ok s' ss (tasks_in_session l (in_hand server))" if "sy_sessions s' l = Some ss" "ss_server ss = Some k" for l ss
  proof (cases "l = i")
    case True
    then show ?thesis using x [of ss] that none by (simp add: s'(1))
  next
    case False
    then have "session_ok s ss (tasks_in_session l (in_hand server))" using parts(3) that by (simp add: tasks_ok_def s'(1))
    then show ?thesis using s'(3) by (simp add: session_ok_def)
  qed
  ultimately have "tasks_ok s' k (in_hand server)" using parts(3) by (simp add: tasks_ok_def)
  moreover have "ready s' t" if "t \<in> set (be_pending_task server)" for t
  proof -
    have "requests s' t = requests s t" using task [of t] that by (simp add: in_hand_def requests_def task_reqs_def s'(2))
    then show ?thesis using parts(4) that by (simp add: ready_def)
  qed
  ultimately show ?thesis using parts(1) batches_ok_tasks [OF parts(2) task] ok by (simp add: server_ok_def serv_ok_def)
qed

text \<open>A session has no tasks with a server that is not its own.\<close>

lemma tasks_elsewhere:
  assumes "server_ok s k server" "\<And>ss. sy_sessions s i = Some ss \<Longrightarrow> ss_server ss \<noteq> Some k \<or> ss_list_wait ss = []"
  shows "tasks_in_session i (in_hand server) = 0"
proof -
  have "fst t \<noteq> i" if "t \<in> set (in_hand server)" for t
    using assms that by (auto simp: server_ok_def serv_ok_def tasks_ok_def in_session_def split: option.splits dest!: bspec [of _ _ t])
  then show ?thesis by (simp add: tasks_in_session_def filter_empty_conv)
qed

lemma wait_task_ok:
  assumes ok: "all_ok s" and c: "sy_ctxs s c = Some ctx" "dc_serv_ctx ctx = Some i" "sy_sessions s i = Some ss" "ss_list_wait ss = j # rest"
    and w: "ss_task_wait ss = ss_task_done ss"
  defines "s' \<equiv> set_session i (ss\<lparr>ss_list_wait := rest, ss_list_done := ss_list_done ss @ [j]\<rparr>) s"
  shows "wait_task c others s = Some (MPP_OK, s')" "all_ok s'"
proof -
  let ?k = "dc_client_type ctx"
  obtain server where sv: "ss_server ss = Some ?k" "sy_servers s ?k = Some server" "server_ok s ?k server" "session_ok s ss (tasks_in_session i (in_hand server))"
    using client_session [OF ok c(1,2)] c(3) by (metis option.inject)
  have none: "tasks_in_session i (in_hand server) = 0" using sv(4) w by (simp add: session_ok_def)
  have "j \<notin> set rest" "j \<notin> set (ss_list_done ss)" using sv(4) c(4) by (auto simp: session_ok_def)
  then show "wait_task c others s = Some (MPP_OK, s')" using c w by (simp add: wait_task_def s'_def remove1_idem)
  have ses: "session_ok s' (ss\<lparr>ss_list_wait := rest, ss_list_done := ss_list_done ss @ [j]\<rparr>) 0"
    using sv(4) c(4) none by (auto simp: session_ok_def s'_def set_session_def)
  have "server_ok s' ?k server"
    by (rule server_ok_session [OF sv(3), of _ i "Some (ss\<lparr>ss_list_wait := rest, ss_list_done := ss_list_done ss @ [j]\<rparr>)"])
      (use ses none in \<open>auto simp: s'_def set_session_def\<close>)
  then have "all_ok (upd_server ?k server s')" unfolding s'_def by (intro all_ok_update [OF ok c(3) sv(1)]) (simp_all add: sv(1))
  moreover have "upd_server ?k server s' = s'" using sv(2) by (simp add: upd_server_def s'_def set_session_def fun_upd_idem)
  ultimately show "all_ok s'" by simp
qed

text \<open>The client that waits resets the signal of its session.\<close>

lemma all_ok_signal:
  assumes ok: "all_ok s" and i: "sy_sessions s i = Some ss"
  shows "all_ok (set_session i (ss\<lparr>ss_signal := x\<rparr>) s)"
proof -
  let ?s = "set_session i (ss\<lparr>ss_signal := x\<rparr>) s"
  have task: "task_of ?s t = task_of s t" for t
    using i by (cases "elem (ss_tasks ss) (int (snd t))") (auto simp: task_of_def get_task_def set_session_def)
  have "batch_ok ?s m b ba = batch_ok s m b ba" for m b ba by (rule batch_ok_cong) (rule task)
  moreover have "filling ?s m b hs ba = filling s m b hs ba" for m b hs ba by (rule filling_cong) (rule task)
  ultimately have b: "batches_ok ?s server hs = batches_ok s server hs" for server hs
    by (cases "be_list_batch_free server") (simp_all add: batches_ok_def)
  have t: "tasks_ok ?s k u" if "tasks_ok s k u" for k u
    using that i by (auto simp: tasks_ok_def in_session_def session_ok_def set_session_def)
  have "requests ?s t = requests s t" for t using task by (simp add: requests_def task_reqs_def set_session_def)
  then have "server_ok ?s k server" if "server_ok s k server" for k server
    using that b t by (auto simp: server_ok_def serv_ok_def ready_def)
  moreover have "clients_ok ?s" using ok i by (fastforce simp: all_ok_def clients_ok_def set_session_def)
  moreover have "sessions_ok ?s" using ok i by (auto simp: all_ok_def sessions_ok_def set_session_def)
  ultimately show ?thesis using ok by (auto simp: all_ok_def set_session_def)
qed

text \<open>A client with one task waits until the condition of its session is signalled: then its task is done.\<close>

lemma blocked_wait_ok:
  assumes ok: "all_ok s" and c: "sy_ctxs s c = Some ctx" "dc_serv_ctx ctx = Some i" "sy_sessions s i = Some ss" "ss_list_wait ss = [j]"
    and w: "ss_task_wait ss \<noteq> ss_task_done ss" and ks: "set ks \<subseteq> dom (sy_servers s)"
  obtains s1 ss1 where "turns ks (set_session i (ss\<lparr>ss_signal := False\<rparr>) s) = Some s1" "sy_sessions s1 i = Some ss1"
    "ss_signal ss1 \<longrightarrow> (\<exists>s'. wait_task c (turns ks) s = Some (MPP_OK, s') \<and> all_ok s')"
proof -
  let ?s = "set_session i (ss\<lparr>ss_signal := False\<rparr>) s"
  have s0: "all_ok ?s" "sy_sessions ?s i = Some (ss\<lparr>ss_signal := False\<rparr>)" "sy_ctxs ?s = sy_ctxs s" "sy_servers ?s = sy_servers s"
    using all_ok_signal [OF ok c(3)] by (simp_all add: set_session_def)
  obtain s1 where s1: "turns ks ?s = Some s1" "all_ok s1" "turned ?s s1" using all_ok_turns [OF s0(1), of ks] ks s0(4) by auto
  then obtain ss1 where ss1: "sy_sessions s1 i = Some ss1" "waits_on (ss\<lparr>ss_signal := False\<rparr>) ss1" using s0(2) unfolding turned_def by blast
  have c1: "sy_ctxs s1 c = Some ctx" "ss_list_wait ss1 = [j]" using s1(3) s0(3) c(1,4) ss1(2) by (simp_all add: turned_def waits_on_def)
  have "\<exists>s'. wait_task c (turns ks) s = Some (MPP_OK, s') \<and> all_ok s'" if "ss_signal ss1"
  proof -
    obtain server where "server_ok s (dc_client_type ctx) server" "session_ok s ss (tasks_in_session i (in_hand server))"
      using client_session [OF ok c(1,2)] c(3) by (metis option.inject)
    moreover from this have "tasks_in_session i (in_hand server) \<le> 1"
    proof -
      have ts: "distinct (in_hand server)" "\<forall>t \<in> set (in_hand server). fst t = i \<longrightarrow> snd t = j"
        using \<open>server_ok s (dc_client_type ctx) server\<close> c(3,4) by (auto simp: server_ok_def serv_ok_def tasks_ok_def in_session_def split: option.splits)
      have "set (filter (\<lambda>t. fst t = i) (in_hand server)) \<subseteq> {(i, j)}" using ts(2) by auto
      then have "card (set (filter (\<lambda>t. fst t = i) (in_hand server))) \<le> 1" by (metis card.empty card_insert_disjoint card_mono empty_iff finite.emptyI finite.insertI One_nat_def)
      then show ?thesis using distinct_card [OF distinct_filter [OF ts(1)]] by (simp add: tasks_in_session_def)
    qed
    ultimately have "ss_task_wait ss - ss_task_done ss \<le> 1" by (simp add: session_ok_def)
    moreover have "ss_task_done ss < ss_task_done ss1" "ss_task_wait ss1 = ss_task_wait ss" using ss1(2) that by (auto simp: waits_on_def)
    moreover obtain n where "session_ok s1 ss1 n" using client_session [OF s1(2) c1(1) c(2)] ss1(1) by (metis option.inject)
    ultimately have done1: "ss_task_wait ss1 = ss_task_done ss1" by (simp add: session_ok_def)
    obtain s' where s': "wait_task c (\<lambda>_. None) s1 = Some (MPP_OK, s')" "all_ok s'"
      using wait_task_ok [OF s1(2) c1(1) c(2) ss1(1) c1(2) done1] by blast
    moreover have "wait_task c (turns ks) s = wait_task c (\<lambda>_. None) s1"
      using c w s1(1) c1 ss1(1) done1 by (simp add: wait_task_def)
    ultimately show ?thesis by auto
  qed
  then show thesis using that s1(1) ss1(1) by blast
qed

lemma agree_server_ok: "agree s s' \<Longrightarrow> server_ok s' k server = server_ok s k server"
  using serv_ok_agree [of s s'] agree_requests [of s s'] by (simp add: server_ok_def ready_def)

lemma agree_all_ok: "agree s s' \<Longrightarrow> all_ok s' = all_ok s"
  using agree_server_ok [of s s'] by (simp add: all_ok_def clients_ok_def sessions_ok_def agree_def)

lemma agree_world [simp]: "agree s (s\<lparr>sy_world := w\<rparr>)"
  by (simp add: agree_def)

lemma sessions_ok_more:
  assumes "sessions_ok s" "sy_sessions s' = sy_sessions s" "sy_next_block s' = sy_next_block s" "\<And>k. sy_servers s k \<noteq> None \<Longrightarrow> sy_servers s' k \<noteq> None"
  shows "sessions_ok s'"
  unfolding sessions_ok_def
proof (intro allI impI)
  fix i ss
  assume "sy_sessions s' i = Some ss"
  then have "sy_sessions s i = Some ss" using assms(2) by simp
  then obtain k where "i < sy_next_block s" "ss_server ss = Some k" "sy_servers s k \<noteq> None" using assms(1) unfolding sessions_ok_def by blast
  then show "i < sy_next_block s' \<and> (\<exists>k. ss_server ss = Some k \<and> sy_servers s' k \<noteq> None)" using assms(3,4) by auto
qed

lemma new_server_ok:
  assumes "all_ok s" "sy_servers s k = None" "0 \<le> k" "k < VPU_CLIENT_BUTT"
  shows "all_ok (upd_server k (new_bat_serv fd (sy_max_task_in_batch s)) s)"
proof -
  let ?sv = "new_bat_serv fd (sy_max_task_in_batch s)"
  have no: "ss_server ss \<noteq> Some k" if "sy_sessions s i = Some ss" for i ss
    using assms(1,2) that unfolding all_ok_def sessions_ok_def by (metis option.inject)
  have "in_hand ?sv = []" by (simp add: in_hand_def new_bat_serv_def)
  then have "serv_ok s k ?sv []"
    using assms(1) no by (auto simp: serv_ok_def counts_ok_def batches_ok_def tasks_ok_def all_ok_def new_bat_serv_def)
  then have "server_ok s k ?sv" using assms(3,4) by (simp add: server_ok_def new_bat_serv_def)
  then have sv: "server_ok (upd_server k ?sv s) k ?sv" by (simp add: server_ok_def ready_def upd_server_def)
  have "server_ok (upd_server k ?sv s) k' x" if "sy_servers s k' = Some x" for k' x
    using assms(1) that by (simp add: all_ok_def server_ok_def ready_def upd_server_def)
  moreover have "sessions_ok (upd_server k ?sv s)" by (rule sessions_ok_more [of s]) (use assms(1) in \<open>auto simp: all_ok_def upd_server_def\<close>)
  moreover have "clients_ok (upd_server k ?sv s)" using assms(1) by (simp add: all_ok_def clients_ok_def upd_server_def)
  ultimately show ?thesis using assms(1) sv by (auto simp: all_ok_def upd_server_def split: if_splits)
qed

lemma bat_server_get_ok:
  assumes ok: "all_ok s" and k: "0 \<le> k" "k < VPU_CLIENT_BUTT"
  obtains found s1 where "bat_server_get k s = Some (found, s1)" "all_ok s1" "found \<longrightarrow> sy_servers s1 k \<noteq> None" "sy_sessions s1 = sy_sessions s"
    "sy_ctxs s1 = sy_ctxs s" "sy_bufs s1 = sy_bufs s" "sy_next_block s1 = sy_next_block s" "no_oom (sy_world s) \<longrightarrow> no_oom (sy_world s1)"
proof (cases "sy_servers s k = None")
  case False
  then show thesis using that [of True s] ok k by (simp add: bat_server_get_def)
next
  case True
  obtain yes w where a: "sys_alloc (sy_world s) = (yes, w)" by fastforce
  obtain fd w2 where o: "sys_open (sy_server_name s) w = (fd, w2)" by fastforce
  obtain yes2 w3 where b: "sys_alloc w2 = (yes2, w3)" by fastforce
  have w: "no_oom (sy_world s) \<Longrightarrow> no_oom w" using no_oom_alloc [OF _ a] by simp
  have w2: "no_oom w2 = no_oom w" using o by (auto simp: sys_open_def no_oom_def Let_def split: option.splits list.splits)
  have w3: "no_oom w2 \<Longrightarrow> no_oom w3" using no_oom_alloc [OF _ b] by simp
  have same: "all_ok (s\<lparr>sy_world := v\<rparr>)" for v using ok agree_all_ok [OF agree_world] by blast
  show thesis
  proof (cases "yes \<and> 0 \<le> fd \<and> yes2")
    case True
    let ?s = "upd_server k (new_bat_serv fd (sy_max_task_in_batch s)) (s\<lparr>sy_world := w3\<rparr>)"
    have "all_ok ?s" using new_server_ok [OF same [of w3], of k fd] \<open>sy_servers s k = None\<close> k by simp
    moreover have "bat_server_get k s = Some (True, ?s)" using True a o b k \<open>sy_servers s k = None\<close> by (simp add: bat_server_get_def)
    ultimately show thesis using w w2 w3 by (intro that [of True ?s]) (simp_all add: upd_server_def)
  next
    case False
    define v where "v = (if \<not> yes then w else if fd < 0 then w2 else sys_close fd w3)"
    have get: "bat_server_get k s = Some (False, s\<lparr>sy_world := v\<rparr>)"
      using False a o b k True by (simp add: bat_server_get_def v_def Let_def)
    have oom: "no_oom (sy_world s) \<Longrightarrow> no_oom v" using w w2 w3 by (simp add: v_def no_oom_def sys_close_def)
    show thesis by (rule that [OF get same]) (use oom in simp_all)
  qed
qed

lemma server_ok_sessions [simp]:
  "server_ok s k (server\<lparr>be_session_list := a, be_batch_max_count := m, be_session_count := n\<rparr>) = server_ok s k server"
proof -
  let ?sv = "server\<lparr>be_session_list := a, be_batch_max_count := m, be_session_count := n\<rparr>"
  have "in_hand ?sv = in_hand server" by (simp add: in_hand_def batch_tasks_def tasks_at_def [abs_def])
  then show ?thesis by (cases "be_list_batch_free server") (simp_all add: server_ok_def serv_ok_def counts_ok_def batches_ok_def)
qed

lemma server_ok_upd [simp]: "server_ok (upd_server k' x s) k server = server_ok s k server"
  by (simp add: server_ok_def ready_def upd_server_def)

lemma all_okI:
  assumes "clients_ok s" "sessions_ok (upd_server k server' s)" "sy_inited s" "1 \<le> sy_max_task_in_batch s" "server_ok s k server'"
    "\<And>k' sv. k' \<noteq> k \<Longrightarrow> sy_servers s k' = Some sv \<Longrightarrow> server_ok s k' sv"
  shows "all_ok (upd_server k server' s)"
proof -
  have "server_ok s l sv" if "sy_servers (upd_server k server' s) l = Some sv" for l sv
    using that assms(5,6) by (cases "l = k") (simp_all add: upd_server_def)
  moreover have "clients_ok (upd_server k server' s)" using assms(1) by (simp add: clients_ok_def upd_server_def)
  moreover have "sy_inited (upd_server k server' s)" "1 \<le> sy_max_task_in_batch (upd_server k server' s)" using assms(3,4) by (simp_all add: upd_server_def)
  ultimately show ?thesis using assms(2) by (simp add: all_ok_def)
qed

lemma attach_ok:
  assumes ok: "all_ok s" and c: "sy_ctxs s c = Some ctx" and mem: "no_oom (sy_world s)"
  shows "\<exists>ret s'. attach c s = Some (ret, s') \<and> all_ok s'"
proof (cases "dc_client_type ctx < 0 \<or> VPU_CLIENT_BUTT \<le> dc_client_type ctx")
  case True
  then show ?thesis using ok c by (auto simp: attach_def all_ok_def Let_def)
next
  case False
  let ?k = "dc_client_type ctx"
  have k: "0 \<le> ?k" "?k < VPU_CLIENT_BUTT" using False by auto
  have inited: "sy_inited s" using ok by (simp add: all_ok_def)
  obtain found s1 where g: "bat_server_get ?k s = Some (found, s1)" "all_ok s1" "found \<longrightarrow> sy_servers s1 ?k \<noteq> None" "sy_sessions s1 = sy_sessions s"
    "sy_ctxs s1 = sy_ctxs s" "sy_bufs s1 = sy_bufs s" "sy_next_block s1 = sy_next_block s" "no_oom (sy_world s) \<longrightarrow> no_oom (sy_world s1)"
    by (rule bat_server_get_ok [OF ok k])
  show ?thesis
  proof (cases "\<not> found \<or> dc_serv_ctx ctx \<noteq> None")
    case True
    then show ?thesis using g(1,2) c False inited by (auto simp: attach_def Let_def)
  next
    case new: False
    then obtain server where sv: "sy_servers s1 ?k = Some server" using g(3) by auto
    obtain yes w where a: "sys_alloc (sy_world s1) = (yes, w)" by fastforce
    have yes: "yes" using no_oom_alloc [OF mp [OF g(8) mem] a] by simp
    let ?i = "sy_next_block s1"
    define x where "x = new_session c ?k (dc_client ctx)"
    define ctx' where "ctx' = (if sy_enable s1 then ctx\<lparr>dc_serv_ctx := Some ?i, dc_batch_io := True, dc_server := be_server_fd server\<rparr>
      else ctx\<lparr>dc_serv_ctx := Some ?i, dc_batch_io := False, dc_server := dc_client ctx\<rparr>)"
    define s2 where "s2 = s1\<lparr>sy_world := w, sy_next_block := Suc ?i, sy_sessions := (sy_sessions s1)(?i \<mapsto> x), sy_ctxs := (sy_ctxs s1)(c \<mapsto> ctx')\<rparr>"
    define server' where "server' = server\<lparr>be_session_list := be_session_list server @ [?i], be_batch_max_count := be_batch_max_count server + 1,
      be_session_count := be_session_count server + 1\<rparr>"
    have run: "attach c s = Some (MPP_OK, upd_server ?k server' s2)"
      using c g(1) new False inited sv a yes g(5)
      by (cases "sy_enable s1") (simp_all add: attach_def Let_def set_session_def upd_server_def s2_def server'_def x_def ctx'_def)
    have fresh: "sy_sessions s1 ?i = None"
    proof (rule ccontr)
      assume "sy_sessions s1 ?i \<noteq> None"
      then show False using g(2) unfolding all_ok_def sessions_ok_def by (metis less_irrefl not_None_eq)
    qed
    have xf: "ss_ctx x = c" "ss_server x = Some ?k" by (simp_all add: x_def new_session_def)
    have cf: "dc_client_type ctx' = ?k" "dc_serv_ctx ctx' = Some ?i" by (simp_all add: ctx'_def)
    have "session_ok s2 x 0" by (auto simp: session_ok_def x_def new_session_def s2_def)
    then have serv: "server_ok s2 k' sv'" if "sy_servers s1 k' = Some sv'" for k' sv'
      by (intro server_ok_session [of s1 k' sv' s2 ?i "Some x"] tasks_elsewhere)
        (use g(2) that fresh in \<open>auto simp: s2_def all_ok_def\<close>)
    have "clients_ok s2"
      unfolding clients_ok_def
    proof (intro allI impI)
      fix d dx l
      assume d: "sy_ctxs s2 d = Some dx" "dc_serv_ctx dx = Some l"
      show "\<exists>ss. sy_sessions s2 l = Some ss \<and> ss_ctx ss = d \<and> ss_server ss = Some (dc_client_type dx)"
      proof (cases "d = c")
        case True
        then show ?thesis using d xf cf by (simp add: s2_def)
      next
        case False
        then have "\<exists>ss. sy_sessions s1 l = Some ss \<and> ss_ctx ss = d \<and> ss_server ss = Some (dc_client_type dx)"
          using clients_okD [of s1 d dx l] g(2) d by (simp add: all_ok_def s2_def)
        then show ?thesis using fresh by (auto simp: s2_def)
      qed
    qed
    moreover have "sessions_ok (upd_server ?k server' s2)"
      unfolding sessions_ok_def
    proof (intro allI impI)
      fix l ss
      assume "sy_sessions (upd_server ?k server' s2) l = Some ss"
      then have l: "((sy_sessions s1)(?i \<mapsto> x)) l = Some ss" by (simp add: upd_server_def s2_def)
      show "l < sy_next_block (upd_server ?k server' s2) \<and> (\<exists>k'. ss_server ss = Some k' \<and> sy_servers (upd_server ?k server' s2) k' \<noteq> None)"
      proof (cases "l = ?i")
        case True
        then show ?thesis using l xf by (simp add: upd_server_def s2_def)
      next
        case False
        then have "l < ?i \<and> (\<exists>k'. ss_server ss = Some k' \<and> sy_servers s1 k' \<noteq> None)" using l g(2) unfolding all_ok_def sessions_ok_def by simp
        then show ?thesis by (auto simp: upd_server_def s2_def)
      qed
    qed
    moreover have "server_ok s2 ?k server'" unfolding server'_def using serv [OF sv] by simp
    moreover have "sy_inited s2" "1 \<le> sy_max_task_in_batch s2" "sy_servers s2 = sy_servers s1" using g(2) by (simp_all add: all_ok_def s2_def)
    ultimately have "all_ok (upd_server ?k server' s2)" using serv by (intro all_okI) simp_all
    then show ?thesis using run by blast
  qed
qed

lemma detach_ok:
  assumes ok: "all_ok s" and c: "sy_ctxs s c = Some ctx" "dc_serv_ctx ctx = Some i" "sy_sessions s i = Some ss" "ss_list_wait ss = []"
  shows "\<exists>s'. detach c s = Some (MPP_OK, s') \<and> all_ok s'"
proof -
  let ?k = "dc_client_type ctx"
  obtain server where sv: "ss_server ss = Some ?k" "ss_ctx ss = c" "sy_servers s ?k = Some server" "server_ok s ?k server"
    using client_session [OF ok c(1,2)] c(3) by (metis option.inject)
  define ctx' where "ctx' = ctx\<lparr>dc_server := dc_client ctx, dc_serv_ctx := None, dc_batch_io := False\<rparr>"
  define s2 where "s2 = s\<lparr>sy_ctxs := (sy_ctxs s)(c \<mapsto> ctx'), sy_sessions := (sy_sessions s)(i := None)\<rparr>"
  define server' where "server' = server\<lparr>be_session_list := remove1 i (be_session_list server), be_batch_max_count := be_batch_max_count server + 1,
    be_session_count := be_session_count server + 1\<rparr>"
  have get: "bat_server_get ?k s = Some (True, s)" using sv(3,4) by (simp add: bat_server_get_def server_ok_def)
  have run: "detach c s = Some (MPP_OK, upd_server ?k server' s2)"
    using ok c get sv(3) by (simp add: detach_def all_ok_def s2_def server'_def ctx'_def upd_server_def Let_def)
  have serv: "server_ok s2 k' sv'" if "sy_servers s k' = Some sv'" for k' sv'
    by (intro server_ok_session [of s k' sv' s2 i None] tasks_elsewhere) (use ok that c(3,4) in \<open>auto simp: s2_def all_ok_def\<close>)
  have "clients_ok s2"
    unfolding clients_ok_def
  proof (intro allI impI)
    fix d dx l
    assume d: "sy_ctxs s2 d = Some dx" "dc_serv_ctx dx = Some l"
    then have dc: "d \<noteq> c" "sy_ctxs s d = Some dx" by (auto simp: s2_def ctx'_def split: if_splits)
    then obtain x where x: "sy_sessions s l = Some x" "ss_ctx x = d" "ss_server x = Some (dc_client_type dx)"
      using clients_okD [of s d dx l] ok d(2) by (auto simp: all_ok_def)
    then have "l \<noteq> i" using c(3) sv(2) dc(1) by auto
    then show "\<exists>ss. sy_sessions s2 l = Some ss \<and> ss_ctx ss = d \<and> ss_server ss = Some (dc_client_type dx)" using x by (simp add: s2_def)
  qed
  moreover have "sessions_ok (upd_server ?k server' s2)"
    unfolding sessions_ok_def
  proof (intro allI impI)
    fix l x
    assume "sy_sessions (upd_server ?k server' s2) l = Some x"
    then have "sy_sessions s l = Some x" by (auto simp: upd_server_def s2_def split: if_splits)
    then have "l < sy_next_block s \<and> (\<exists>k'. ss_server x = Some k' \<and> sy_servers s k' \<noteq> None)" using ok unfolding all_ok_def sessions_ok_def by blast
    then show "l < sy_next_block (upd_server ?k server' s2) \<and> (\<exists>k'. ss_server x = Some k' \<and> sy_servers (upd_server ?k server' s2) k' \<noteq> None)"
      by (auto simp: upd_server_def s2_def)
  qed
  moreover have "server_ok s2 ?k server'" unfolding server'_def using serv [OF sv(3)] by simp
  moreover have "sy_inited s2" "1 \<le> sy_max_task_in_batch s2" "sy_servers s2 = sy_servers s" using ok by (simp_all add: all_ok_def s2_def)
  ultimately have "all_ok (upd_server ?k server' s2)" using serv by (intro all_okI) simp_all
  then show ?thesis using run by blast
qed

section \<open>Runs of clients and threads\<close>

text \<open>The client writes its buffer of requests, and sets their number.\<close>

definition collect :: "nat \<Rightarrow> nat \<Rightarrow> mpp_req list \<Rightarrow> dev_server \<Rightarrow> dev_server" where
  "collect c n reqs s = (case sy_ctxs s c of None \<Rightarrow> s
     | Some ctx \<Rightarrow> s\<lparr>sy_ctxs := (sy_ctxs s)(c \<mapsto> ctx\<lparr>dc_req_cnt := n\<rparr>), sy_bufs := (sy_bufs s)(dc_reqs ctx \<mapsto> reqs)\<rparr>)"

datatype batch_event = Attach nat | Detach nat | Send nat | Wait nat "int list" | Turn int | Collect nat nat "mpp_req list"

fun batch_step :: "batch_event \<Rightarrow> dev_server \<Rightarrow> dev_server option" where
  "batch_step (Attach c) s = map_option snd (mpp_server_attach c s)"
| "batch_step (Detach c) s = map_option snd (mpp_server_detach c s)"
| "batch_step (Send c) s = map_option snd (mpp_server_send_task c s)"
| "batch_step (Wait c ks) s = map_option snd (mpp_server_wait_task c (turns ks) s)"
| "batch_step (Turn k) s = mpp_server_thread k s"
| "batch_step (Collect c n reqs) s = Some (collect c n reqs s)"

text \<open>
  What clients may do: attach when there is memory, detach without tasks that are not waited for, send
  with a free task and fewer than \<open>MAX_REQ_NUM\<close> requests. A buffer keeps its size. A client waits when
  all results of its session are there, or, with a single task, for the signal: \<open>Wait c ks\<close> blocks while the
  servers \<open>ks\<close> take their turns, and the last of them has signalled the session. (With several tasks the
  first signal ends the wait, and the code then takes a task back that may not be done.)
\<close>

definition session_of :: "dev_server \<Rightarrow> nat \<Rightarrow> session option" where
  "session_of s c = do { ctx \<leftarrow> sy_ctxs s c; i \<leftarrow> dc_serv_ctx ctx; sy_sessions s i }"

definition signalled :: "nat \<Rightarrow> int list \<Rightarrow> dev_server \<Rightarrow> bool" where
  "signalled c ks s \<longleftrightarrow> (case sy_ctxs s c of None \<Rightarrow> False
     | Some ctx \<Rightarrow> (case dc_serv_ctx ctx of None \<Rightarrow> False
         | Some i \<Rightarrow> (case sy_sessions s i of None \<Rightarrow> False
             | Some ss \<Rightarrow> (case turns ks (set_session i (ss\<lparr>ss_signal := False\<rparr>) s) of None \<Rightarrow> True
                 | Some s' \<Rightarrow> (case sy_sessions s' i of None \<Rightarrow> True | Some ss' \<Rightarrow> ss_signal ss')))))"

fun allowed :: "batch_event \<Rightarrow> dev_server \<Rightarrow> bool" where
  "allowed (Attach c) s \<longleftrightarrow> sy_ctxs s c \<noteq> None \<and> no_oom (sy_world s)"
| "allowed (Detach c) s \<longleftrightarrow> (case session_of s c of None \<Rightarrow> False | Some ss \<Rightarrow> ss_list_wait ss = [])"
| "allowed (Send c) s \<longleftrightarrow> (case (sy_ctxs s c, session_of s c) of (Some ctx, Some ss) \<Rightarrow> ss_list_done ss \<noteq> [] \<and>
     (case sy_bufs s (dc_reqs ctx) of None \<Rightarrow> False | Some reqs \<Rightarrow> dc_req_cnt ctx \<le> length reqs \<and> dc_req_cnt ctx < MAX_REQ_NUM) | _ \<Rightarrow> False)"
| "allowed (Wait c ks) s \<longleftrightarrow> (case session_of s c of None \<Rightarrow> False
     | Some ss \<Rightarrow> ss_list_wait ss \<noteq> [] \<and> (ss_task_wait ss = ss_task_done ss \<or>
         length (ss_list_wait ss) = 1 \<and> (\<forall>k \<in> set ks. sy_servers s k \<noteq> None) \<and> signalled c ks s))"
| "allowed (Turn k) s \<longleftrightarrow> sy_servers s k \<noteq> None"
| "allowed (Collect c n reqs) s \<longleftrightarrow> (case sy_ctxs s c of None \<Rightarrow> False
     | Some ctx \<Rightarrow> map_option length (sy_bufs s (dc_reqs ctx)) = Some (length reqs))"

lemma session_of_Some:
  "session_of s c = Some ss \<longleftrightarrow> (\<exists>ctx i. sy_ctxs s c = Some ctx \<and> dc_serv_ctx ctx = Some i \<and> sy_sessions s i = Some ss)"
  by (auto simp: session_of_def bind_eq_Some_conv)

lemma collect_ok:
  assumes ok: "all_ok s" and c: "sy_ctxs s c = Some ctx" "sy_bufs s (dc_reqs ctx) = Some old" "length reqs = length old"
  shows "all_ok (collect c n reqs s)"
proof -
  let ?s = "collect c n reqs s"
  have f: "sy_sessions ?s = sy_sessions s" "sy_servers ?s = sy_servers s" "sy_next_block ?s = sy_next_block s" "sy_inited ?s = sy_inited s"
    "sy_max_task_in_batch ?s = sy_max_task_in_batch s" "sy_ctxs ?s = (sy_ctxs s)(c \<mapsto> ctx\<lparr>dc_req_cnt := n\<rparr>)" "sy_bufs ?s = (sy_bufs s)(dc_reqs ctx \<mapsto> reqs)"
    using c(1) by (simp_all add: collect_def)
  have rd: "ready ?s t" if "ready s t" for t
  proof -
    have "map_option length (task_reqs ?s tk) = map_option length (task_reqs s tk)" for tk
      using c(2,3) by (auto simp: task_reqs_def f(7))
    then have "map_option length (requests ?s t) = map_option length (requests s t)"
      using task_of_cong [OF f(1), of t] by (cases "task_of s t") (simp_all add: requests_def)
    then show ?thesis using that by (cases "requests ?s t"; cases "requests s t") (auto simp: ready_def)
  qed
  have "same_sessions k s ?s" for k by (simp add: same_sessions_def f(1,6))
  then have "server_ok ?s k sv" if "server_ok s k sv" for k sv
    using that rd serv_ok_same [of k s ?s] by (auto simp: server_ok_def)
  moreover have "clients_ok ?s"
    unfolding clients_ok_def
  proof (intro allI impI)
    fix d dx l
    assume "sy_ctxs ?s d = Some dx" "dc_serv_ctx dx = Some l"
    then have "\<exists>dy. sy_ctxs s d = Some dy \<and> dc_serv_ctx dy = Some l \<and> dc_client_type dy = dc_client_type dx"
      using c(1) by (cases "d = c") (auto simp: f(6))
    then show "\<exists>ss. sy_sessions ?s l = Some ss \<and> ss_ctx ss = d \<and> ss_server ss = Some (dc_client_type dx)"
      using ok clients_okD unfolding all_ok_def f(1) by metis
  qed
  moreover have "sessions_ok ?s" by (rule sessions_ok_more [of s]) (use ok f in \<open>simp_all add: all_ok_def\<close>)
  ultimately show ?thesis using ok by (simp add: all_ok_def f(2,4,5))
qed

lemma batch_step_ok:
  assumes ok: "all_ok s" and a: "allowed e s"
  shows "\<exists>s'. batch_step e s = Some s' \<and> all_ok s'"
proof -
  have st: "check_status s = MPP_OK" using ok by (simp add: check_status_def all_ok_def)
  show ?thesis
  proof (cases e)
    case (Attach c)
    then obtain ctx where c: "sy_ctxs s c = Some ctx" "no_oom (sy_world s)" using a by auto
    obtain ret s' where "attach c s = Some (ret, s')" "all_ok s'" using attach_ok [OF ok c] by blast
    then show ?thesis by (simp add: Attach mpp_server_attach_def)
  next
    case (Detach c)
    then obtain ss where "session_of s c = Some ss" "ss_list_wait ss = []" using a by (auto split: option.splits)
    then obtain ctx i where "sy_ctxs s c = Some ctx" "dc_serv_ctx ctx = Some i" "sy_sessions s i = Some ss" "ss_list_wait ss = []"
      by (auto simp: session_of_Some)
    then obtain s' where "detach c s = Some (MPP_OK, s')" "all_ok s'" using detach_ok [OF ok] by blast
    then show ?thesis by (simp add: Detach mpp_server_detach_def)
  next
    case (Send c)
    then obtain ss ctx reqs where x: "session_of s c = Some ss" "sy_ctxs s c = Some ctx" "ss_list_done ss \<noteq> []" "sy_bufs s (dc_reqs ctx) = Some reqs"
      "dc_req_cnt ctx \<le> length reqs" "dc_req_cnt ctx < MAX_REQ_NUM" using a by (auto split: option.splits)
    obtain i where i: "dc_serv_ctx ctx = Some i" "sy_sessions s i = Some ss" using x(1,2) by (auto simp: session_of_Some)
    obtain j rest where "ss_list_done ss = j # rest" using x(3) by (cases "ss_list_done ss") auto
    then obtain s' where "send_task c s = Some (MPP_OK, s')" "all_ok s'" using send_task_ok [OF ok x(2) i _ x(4-6)] by metis
    then show ?thesis using st by (simp add: Send mpp_server_send_task_def)
  next
    case (Wait c ks)
    then obtain ss where x: "session_of s c = Some ss" "ss_list_wait ss \<noteq> []"
      "ss_task_wait ss \<noteq> ss_task_done ss \<longrightarrow> length (ss_list_wait ss) = 1 \<and> set ks \<subseteq> dom (sy_servers s) \<and> signalled c ks s"
      using a by (auto split: option.splits)
    obtain ctx i where i: "sy_ctxs s c = Some ctx" "dc_serv_ctx ctx = Some i" "sy_sessions s i = Some ss" using x(1) by (auto simp: session_of_Some)
    have "\<exists>s'. wait_task c (turns ks) s = Some (MPP_OK, s') \<and> all_ok s'"
    proof (cases "ss_task_wait ss = ss_task_done ss")
      case True
      obtain j rest where "ss_list_wait ss = j # rest" using x(2) by (cases "ss_list_wait ss") auto
      then show ?thesis using wait_task_ok [OF ok i _ True] by metis
    next
      case False
      then obtain j where j: "ss_list_wait ss = [j]" "set ks \<subseteq> dom (sy_servers s)" "signalled c ks s"
        using x(3) by (auto simp: length_Suc_conv)
      obtain s1 ss1 where "turns ks (set_session i (ss\<lparr>ss_signal := False\<rparr>) s) = Some s1" "sy_sessions s1 i = Some ss1"
        "ss_signal ss1 \<longrightarrow> (\<exists>s'. wait_task c (turns ks) s = Some (MPP_OK, s') \<and> all_ok s')"
        using blocked_wait_ok [OF ok i j(1) False j(2)] by blast
      then show ?thesis using j(3) i by (simp add: signalled_def)
    qed
    then show ?thesis using st by (auto simp: Wait mpp_server_wait_task_def)
  next
    case (Turn k)
    then obtain server where "sy_servers s k = Some server" using a by auto
    then obtain s' where "mpp_server_thread k s = Some s'" "all_ok s'" using all_ok_turn [OF ok] by blast
    then show ?thesis by (simp add: Turn)
  next
    case (Collect c n reqs)
    then obtain ctx old where "sy_ctxs s c = Some ctx" "sy_bufs s (dc_reqs ctx) = Some old" "length reqs = length old" using a by (auto split: option.splits)
    then show ?thesis using collect_ok [OF ok] by (simp add: Collect)
  qed
qed

inductive reachable_from :: "dev_server \<Rightarrow> dev_server \<Rightarrow> bool" for s0 where
  start: "reachable_from s0 s0"
| step: "reachable_from s0 s \<Longrightarrow> allowed e s \<Longrightarrow> batch_step e s = Some s' \<Longrightarrow> reachable_from s0 s'"

lemma reachable_ok: "reachable_from s0 s \<Longrightarrow> all_ok s0 \<Longrightarrow> all_ok s"
proof (induction rule: reachable_from.induct)
  case (step s e s')
  then obtain s'' where "batch_step e s = Some s''" "all_ok s''" using batch_step_ok by blast
  then show ?case using step.hyps(3) by simp
qed

text \<open>The state after the constructor, when it finds the kernel's service.\<close>

lemma constructed_ok:
  assumes "\<And>c ctx. sy_ctxs s c = Some ctx \<Longrightarrow> dc_serv_ctx ctx = None"
    "sy_inited (MppDevServer env cap s)" "1 \<le> sint (env_get_u32 env ''mpp_server_batch_task'' MAX_BATCH_TASK)"
  shows "all_ok (MppDevServer env cap s)"
proof -
  let ?s = "MppDevServer env cap s"
  have "sy_ctxs ?s = sy_ctxs s" "sy_sessions ?s = Map.empty" "sy_servers ?s = Map.empty"
    "sy_max_task_in_batch ?s = sint (env_get_u32 env ''mpp_server_batch_task'' MAX_BATCH_TASK)"
    by (simp_all add: MppDevServer_def Let_def split: prod.splits)
  then show ?thesis using assms by (simp add: all_ok_def clients_ok_def sessions_ok_def)
qed

section \<open>Properties\<close>

text \<open>
  C5: Whatever the threads of the servers do and whatever the kernel answers, clients that keep to the protocol
  never make an operation touch memory that is not there: from the constructor on, in any order, every step that
  the protocol allows returns. The constructor has succeeded, with a size of batches of at least one, and no context was attached
  before. The protocol is that a client attaches while allocations succeed, sends when it
  has a free task and fewer than \<open>MAX_REQ_NUM\<close> requests in its buffer, waits when all results of its session
  have come or, with a single task, until its session is signalled, and detaches when it has taken all its
  tasks back. A session waits for exactly as many results as the server has tasks of it in hand, and no task is in
  two places.
\<close>

theorem clients_never_stuck:
  assumes "\<And>c ctx. sy_ctxs s0 c = Some ctx \<Longrightarrow> dc_serv_ctx ctx = None"
    "sy_inited (MppDevServer env cap s0)" "1 \<le> sint (env_get_u32 env ''mpp_server_batch_task'' MAX_BATCH_TASK)"
    "reachable_from (MppDevServer env cap s0) s" "allowed e s"
  shows "\<exists>s'. batch_step e s = Some s' \<and>
    (\<forall>k server. sy_servers s' k = Some server \<longrightarrow> distinct (in_hand server) \<and>
      (\<forall>i ss. sy_sessions s' i = Some ss \<longrightarrow> ss_server ss = Some k \<longrightarrow>
         ss_task_wait ss - ss_task_done ss = int (tasks_in_session i (in_hand server))))"
proof -
  have "all_ok s" by (rule reachable_ok [OF assms(4) constructed_ok [OF assms(1-3)]])
  then obtain s' where s': "batch_step e s = Some s'" "all_ok s'" using batch_step_ok [OF _ assms(5)] by blast
  have "tasks_ok s' k (in_hand server)" if "sy_servers s' k = Some server" for k server
    using s'(2) that by (simp add: all_ok_def server_ok_def serv_ok_def)
  then show ?thesis using s'(1) by (auto simp: tasks_ok_def session_ok_def)
qed

definition one_client :: dev_server where
  "one_client = \<lparr>sy_server_error = None, sy_server_name = None, sy_inited = False, sy_enable = False, sy_max_task_in_batch = 0,
     sy_servers = Map.empty, sy_sessions = Map.empty, sy_next_block = 0,
     sy_ctxs = [7 \<mapsto> \<lparr>dc_client_type = 16, dc_client = 3, dc_server = 3, dc_serv_ctx = None, dc_batch_io = False, dc_dev_cb = False,
       dc_reqs = 9, dc_req_cnt = 0\<rparr>], sy_bufs = [9 \<mapsto> [poll_req]],
     sy_world = \<lparr>w_heap = [], w_replies = [], w_opens = [], w_log = [], w_mem = Map.empty\<rparr>, sy_rets = [], sy_callbacks = []\<rparr>"

definition one_start :: dev_server where
  "one_start = MppDevServer \<lparr>se_access = (\<lambda>_. True), se_getenv = Map.empty\<rparr>
     \<lparr>cc_support_cmd = 1, cc_query_cmd = 0x300, cc_init_cmd = 0x300, cc_send_cmd = 0x300, cc_poll_cmd = 0x400, cc_ctrl_cmd = 0x500\<rparr> one_client"

text \<open>A run of allowed steps; the client attaches, sends, and waits while its server takes two turns.\<close>

fun batch_run :: "batch_event list \<Rightarrow> dev_server \<Rightarrow> dev_server option" where
  "batch_run [] s = Some s"
| "batch_run (e # es) s = (if allowed e s then do { s \<leftarrow> batch_step e s; batch_run es s } else None)"

lemma batch_run_reachable: "batch_run es s = Some s' \<Longrightarrow> reachable_from s0 s \<Longrightarrow> reachable_from s0 s'"
  by (induction es arbitrary: s) (auto simp: bind_eq_Some_conv intro: reachable_from.step split: if_splits)

lemma clients_never_stuck_witness:
  "\<exists>s s'. batch_run [Attach 7, Send 7] one_start = Some s \<and> allowed (Wait 7 [16, 16]) s \<and> batch_step (Wait 7 [16, 16]) s = Some s'"
proof -
  have "case batch_run [Attach 7, Send 7] one_start of None \<Rightarrow> False | Some s \<Rightarrow> allowed (Wait 7 [16, 16]) s" by code_simp
  then obtain s where s: "batch_run [Attach 7, Send 7] one_start = Some s" "allowed (Wait 7 [16, 16]) s" by (auto split: option.splits)
  have r: "reachable_from one_start s" by (rule batch_run_reachable [OF s(1) reachable_from.start])
  have i: "sy_inited one_start" by code_simp
  have m: "1 \<le> sint (env_get_u32 \<lparr>se_access = (\<lambda>_. True), se_getenv = Map.empty\<rparr> ''mpp_server_batch_task'' MAX_BATCH_TASK)"
    by (simp add: env_get_u32_def MAX_BATCH_TASK_def)
  have c: "\<And>c ctx. sy_ctxs one_client c = Some ctx \<Longrightarrow> dc_serv_ctx ctx = None" by (auto simp: one_client_def split: if_splits)
  have "\<exists>s'. batch_step (Wait 7 [16, 16]) s = Some s'"
    using clients_never_stuck [OF _ i [unfolded one_start_def] m r [unfolded one_start_def] s(2)] c by fast
  then show ?thesis using s by blast
qed

end
