(* ===== verification/Spec2Isabelle.thy ===== *)
theory Spec2Isabelle
  imports Enc_Args Enc_Config Fill_Image Frame_IO Crc Mpp_Device Buffers Rtsp_Play Yolo_Post List_Sort Mem_Pool Batch_Clients
begin

text \<open>
  A verification library for the demonstration of YOLO with an RTSP stream (\<open>src/rknn_yolov8_demo\<close>).
  Most of its C code lies below \<open>z_rkmpp_enc\<close>: the support code around Rockchip's MPP that the
  program builds its encoder with, and the RTSP server. File names below are relative to that
  directory; the post-processing of the network's outputs is \<open>yolov8_demo/src/yolo.cc\<close>.

  Parts. The program reads its settings from INI files and from a command line, makes or reads
  pictures, configures the encoder, and checks what comes out. Beside it lies the layer that talks to
  the kernel: two drivers for the codec hardware behind one device interface, and the allocators
  of the buffers the hardware works on. The encoded frames go to an RTSP server, which answers its
  clients' requests and sends them the frames in RTP packets. What is drawn into the frames comes
  from the network: its outputs are turned into boxes with classes and names.

  \<^item> Settings. \<open>Dictionary\<close> is the string table (\<open>mpp_utils/dictionary.c\<close>), \<open>Iniparser\<close> the INI
    parser on top of it (\<open>mpp_utils/iniparser.c\<close>). \<open>Mpp_Trie\<close> is the prefix tree
    (\<open>mpp_base/mpp_trie.cpp\<close>), \<open>Mpp_Opt\<close> the command line parser that finds its options in it
    (\<open>mpp_utils/mpp_opt.c\<close>), \<open>Enc_Args\<close> the encoder's options with their handlers and checks, and
    \<open>Enc_Config\<close> the reference structures and overlays it generates (\<open>mpp_utils/mpi_enc_utils.c\<close>).
  \<^item> Pictures, all of \<open>mpp_utils/mpp_utils.c\<close>. \<open>Frame_Memory\<close> holds the formats and the checked
    reads and writes of a picture's memory; \<open>Fill_Image\<close> the test pictures, \<open>Frame_IO\<close> files of raw
    pictures, \<open>Crc\<close> the checksums and their files, \<open>Names\<close> the names of formats and lines of the
    operations file, \<open>Fps_Calc\<close> the counter of the frame rate.
  \<^item> Devices. \<open>Sys_World\<close> is the system below the drivers: outcomes of calls and a log of them.
    \<open>Mpp_Service\<close> and \<open>Service_Jobs\<close> model \<open>osal/driver/mpp_service.c\<close>, \<open>Vcodec_Service\<close> models
    \<open>osal/driver/vcodec_service.c\<close>, and \<open>Mpp_Device\<close> the dispatch to either of them
    (\<open>osal/driver/mpp_device.c\<close>). \<open>Mpp_Server\<close> is the server that sends the tasks of several
    sessions in batches (\<open>osal/driver/mpp_server.cpp\<close>), \<open>Batch_Jobs\<close> has the lemmas on a turn of its
    thread, \<open>Batch_Clients\<close> the ones on what clients and threads do in any order.
  \<^item> Buffers. \<open>Buf_Kernel\<close> is the kernel with its descriptors, handles and mappings, and the
    interface of an allocator; \<open>Allocators\<close> and \<open>Alloc_Ion\<close> are the files of \<open>osal/allocator\<close>,
    \<open>Buffers\<close> the choice among them (\<open>osal/linux/os_allocator.c\<close> and its variants) and the front
    end (\<open>osal/mpp_allocator.cpp\<close>).
  \<^item> The RTSP server, all of \<open>mpp_rtsp_server.cpp\<close>. \<open>Rtp_Sender\<close> is the queue of frames and the
    sender of packets, with \<open>push_stream\<close> of \<open>mpp_main.cpp\<close> in front of it; \<open>Rtsp_Parse\<close> the
    parser of requests, \<open>Rtsp_Transport\<close> the one of the header \<open>Transport\<close>; \<open>Rtsp_Server\<close> the
    answers and the threads of the clients and of the listener, over the same global variables as
    the sender; \<open>Rtsp_Session\<close> and \<open>Rtsp_Play\<close> have the lemmas on whole sessions.
  \<^item> Post-processing, \<open>yolo.cc\<close>. \<open>Yolo_Sort\<close> is the sort of the scores with their indices;
    \<open>Yolo_Post\<close> the file of labels, the boxes of the tensors, the suppression of boxes that overlap
    and the results of a frame.
  \<^item> Containers. \<open>Ptr_List\<close> has the doubly linked lists of \<open>osal/inc/mpp_list.h\<close> on a memory of
    pointers, \<open>List_Sort\<close> the merge sort of \<open>osal/mpp_list.cpp\<close>, and \<open>Mem_Pool\<close> the pools of
    blocks (\<open>osal/mpp_mem_pool.cpp\<close>) that are built with these lists.
  \<^item> \<open>Mpp_Prelude\<close> has the machine types, return codes and generic lemmas, \<open>C_Library\<close> the functions
    of the C library that the code calls.

  Correspondence. A function of the code is a definition of the same name, a structure a record
  whose fields have a prefix of their own; static variables are part of the state that is passed.
  Integers have the code's width, as words where bits or wrap-around matter, and otherwise as
  integers with the reduction written out. A result of type option is \<^const>\<open>None\<close> where the code
  would touch memory it must not: an index out of bounds, a null pointer, freed memory. Everything
  the environment decides is an argument or a list of outcomes: heap allocations (the list of
  \<open>heap_alloc\<close>), system calls (\<open>world\<close>, \<open>kernel\<close>), the contents of files, and outside libraries
  (numbers of formats, capabilities of chips). The asserts (\<open>mpp_assert\<close>)
  only log, and log output is left out, other than the reports a function is made for. Locks are
  left out, every operation is one step; the driver sees the server of batches as four functions that
  may fail (\<open>batch_server\<close>), of which the lemmas assume no more than that attaching and detaching return
  while there is memory. A plain \<open>char\<close> is unsigned, as on the target of the program (ARM); floats are
  numbers, NaN is left out. Undefined behaviour without a memory access is \<^const>\<open>None\<close> or noted where it
  occurs: the overflow of sequence numbers, and the missing return of \<open>send_h264_for_rtsp_client\<close>, whose result
  nobody uses. The threads of the RTSP server interleave: an event is one turn of one thread, and lists of events are
  runs (\<open>server_run\<close>); what the network gives is in the events. The clients and threads of the
  server of batches interleave too, as steps of a relation (\<open>reachable_from\<close>).

  What the lemmas show. Each component has an invariant that its operations keep, and functional
  lemmas of the operations over an abstract view: the dictionary is a finite map, whatever the
  order in which slots are filled and freed; a tree of names is a finite map from names; the INI
  parser reads back what a plain file says, and no line, however long, leaves its buffers; the
  command line gives what a plain fold over the options gives; pictures are filled within their
  memory and with the colours of a simple formula; a picture read and dumped gives the file; the
  sums of the checksums do not wrap and the xor is the one byte by byte; jobs sent to the service
  are the ones collected since the last send, with the flags the kernel wants; the ring of register
  sets is a queue; a device of either driver never gets stuck and remembers the last offset of a
  register; a task given to the server of batches is in one place only, goes to the kernel
  in the order of its arrival and is taken out when the kernel has finished it; buffers that are
  taken have their size and go back without a trace; a pointer structure that is a ring is a list, the sort of such a
  ring is the stable sort of that list, and the pools are pairs of lists of blocks; a frame's results are the boxes above the threshold, in the order of
  their scores, that no better box of their class covers. The lemmas that show errors of the code come
  last in their theories.

  Interfaces. \<open>string_store\<close> (what the parser asks of the dictionary), \<open>name_index\<close> (what the
  command line asks of the tree), \<open>device_driver\<close> and its extension \<open>offset_driver\<close> (what a device
  asks of a driver), \<open>buffer_allocator\<close> (what a client asks of an allocator) and \<open>node_lists\<close> (what
  the pools ask of linked lists) are locales. Each is interpreted on the model of the code: the
  dictionary, the tree, both drivers and the device itself, the allocators for DRM, DMA heaps and
  ION, and the pointer operations of the lists.

  Termination and bounds. Loops are recursions over the data. Those that are not structural have a
  measure: the free slots of the dictionary's search, the arguments left on a command line, the
  answers left of a kernel that interrupts a call, the packets left of a frame, the characters left
  of a request. The recursion of the INI line parser goes over
  the characters of the line. The loops over pointers and the quicksort may run for ever on broken
  data: they are partial functions, and the lemmas say that they return where the data is well
  formed. Two loops, over the lines of an INI file (\<open>load_loop\<close>) and over the slots of the dictionary
  (\<open>free_slot\<close>), have a bound on their turns as an argument; it is one more than the length of the file
  and the size of the table, and lemmas show that it is never reached. The text blocks of the theories
  state bounds of sizes: 32-bit products of strides are reduced as in the code, and the lemmas about pictures
  assume that the picture's size fits.

  Not modelled. \<open>iniparser_getdouble\<close> (floating point), functions that only log
  (\<open>show_enc_fps\<close>, \<open>mpi_enc_test_cmd_show_opt\<close>, dumps of the tree), the detection of
  the chip (\<open>osal/mpp_soc.cpp\<close>, \<open>mpp_platform.cpp\<close>, \<open>mpp_runtime.cpp\<close>, results are arguments), the
  class \<open>mpp_list\<close> and the queue on it, threads and clocks of \<open>osal\<close>, the tests, and the glue around
  outside libraries: the calls of MPP, RGA and FFmpeg (\<open>mpp_enc.cpp\<close>, the rest of \<open>mpp_main.cpp\<close>),
  and those of the RKNN runtime and OpenCV (\<open>main.cc\<close> of the demonstration, the test drivers of
  RKNN). The arithmetic of floats in \<open>yolo.cc\<close> is a parameter. Third-party code (CImg, stb, headers of
  ffmpeg, libpng and others) is left aside.
\<close>

end
